(* ===== verification/Prelude.thy ===== *)
theory Prelude
  imports Main "HOL-Library.Word"
begin

text \<open>
  What every component of the development shares: the errors a Lua primitive can raise and
  the sequencing of fallible steps, bytes and the little-endian layout of machine words in
  memory, and the generic list facts the component proofs use.
\<close>

unbundle bit_operations_syntax

section \<open>Collections of facts\<close>

named_theorems blk_simps \<open>simplification rules for block chains and streams\<close>
named_theorems chain_intros \<open>introduction rules for the node chains of a table\<close>

section \<open>Errors and sequencing\<close>

text \<open>
  The C code leaves a primitive in three ways: it returns, it raises a Lua error (a
  \<open>longjmp\<close> out of \<open>luaL_error\<close>, \<open>luaG_runerror\<close> or \<open>luaL_argerror\<close>), or it has
  undefined behaviour because it touches memory that is not there or an \<open>int\<close> overflows.  The first is \<open>Inr\<close>,
  the other two are \<open>Inl\<close> of one of the following.  A loop of the code that need not end is
  modelled with fuel, and running out of it is \<open>NoReturn\<close>.
\<close>

datatype lua_error =
    RunError string        \<comment> \<open>\<open>luaL_error\<close>, \<open>luaG_runerror\<close>\<close>
  | ArgError nat string    \<comment> \<open>\<open>luaL_argerror\<close> with the argument's number\<close>
  | MemFault string        \<comment> \<open>undefined behaviour: an access outside any object, an \<open>int\<close> that overflows\<close>
  | NoReturn               \<comment> \<open>the loop or recursion modelled with fuel has not ended\<close>

type_synonym 'a res = "lua_error + 'a"

definition ebind :: "'a res \<Rightarrow> ('a \<Rightarrow> 'b res) \<Rightarrow> 'b res" where
  "ebind m f = (case m of Inl e \<Rightarrow> Inl e | Inr x \<Rightarrow> f x)"

lemma ebind_Inl [simp]: "ebind (Inl e) f = Inl e"
  by (simp add: ebind_def)

lemma ebind_Inr [simp]: "ebind (Inr x) f = f x"
  by (simp add: ebind_def)

lemma ebind_eq_Inr: "ebind m f = Inr y \<longleftrightarrow> (\<exists>x. m = Inr x \<and> f x = Inr y)"
  by (cases m) auto

lemma ebind_eq_Inl: "ebind m f = Inl e \<longleftrightarrow> m = Inl e \<or> (\<exists>x. m = Inr x \<and> f x = Inl e)"
  by (cases m) auto

lemma ebind_cong [fundef_cong]:
  "m = m' \<Longrightarrow> (\<And>x. m' = Inr x \<Longrightarrow> f x = f' x) \<Longrightarrow> ebind m f = ebind m' f'"
  by (cases m') auto

lemma ebind_assoc: "ebind (ebind m f) g = ebind m (\<lambda>x. ebind (f x) g)"
  by (cases m) auto

text \<open>A loop over a list whose body can fail.\<close>

fun efold :: "('a \<Rightarrow> 's \<Rightarrow> 's res) \<Rightarrow> 'a list \<Rightarrow> 's \<Rightarrow> 's res" where
  "efold f [] s = Inr s"
| "efold f (x # xs) s = ebind (f x s) (efold f xs)"

lemma efold_append: "efold f (xs @ ys) s = ebind (efold f xs s) (efold f ys)"
proof (induction xs arbitrary: s)
  case (Cons x xs)
  then show ?case by (cases "f x s") auto
qed simp

text \<open>The invariant rule for such a loop: what holds of the part already done.\<close>

lemma efold_rule:
  assumes "I [] s"
    and "\<And>done x rest s. xs = done @ x # rest \<Longrightarrow> I done s \<Longrightarrow> \<exists>s'. f x s = Inr s' \<and> I (done @ [x]) s'"
  shows "\<exists>s'. efold f xs s = Inr s' \<and> I xs s'"
  using assms
proof (induction xs rule: rev_induct)
  case Nil
  then show ?case by simp
next
  case (snoc x xs)
  have "\<exists>s'. efold f xs s = Inr s' \<and> I xs s'"
    by (rule snoc.IH [OF snoc.prems(1)]) (use snoc.prems(2) in force)
  then obtain s1 where s1: "efold f xs s = Inr s1" "I xs s1" by blast
  obtain s2 where "f x s1 = Inr s2" "I (xs @ [x]) s2" using snoc.prems(2) [OF _ s1(2), of x "[]"] by auto
  then show ?case using s1 by (simp add: efold_append)
qed

text \<open>\<open>ends m P\<close>: the computation does not run out of fuel, and \<open>P\<close> holds of what it returns.\<close>

definition ends :: "'a res \<Rightarrow> ('a \<Rightarrow> bool) \<Rightarrow> bool" where
  "ends m P \<longleftrightarrow> (case m of Inl e \<Rightarrow> e \<noteq> NoReturn | Inr x \<Rightarrow> P x)"

lemma ends_Inr [simp]: "ends (Inr x) P = P x"
  by (simp add: ends_def)

lemma ends_Inl [simp]: "ends (Inl e) P = (e \<noteq> NoReturn)"
  by (simp add: ends_def)

lemma ends_ebind: "ends m P \<Longrightarrow> (\<And>x. m = Inr x \<Longrightarrow> P x \<Longrightarrow> ends (f x) Q) \<Longrightarrow> ends (ebind m f) Q"
  by (cases m) simp_all

lemma ends_mono: "ends m P \<Longrightarrow> (\<And>x. P x \<Longrightarrow> Q x) \<Longrightarrow> ends m Q"
  by (cases m) simp_all

lemma ends_if: "(c \<Longrightarrow> ends m P) \<Longrightarrow> (\<not> c \<Longrightarrow> ends m' P) \<Longrightarrow> ends (if c then m else m') P"
  by simp

text \<open>\<open>wp m E Q\<close>: an error of \<open>m\<close> satisfies \<open>E\<close>, a result satisfies \<open>Q\<close>.\<close>

definition wp :: "'a res \<Rightarrow> (lua_error \<Rightarrow> bool) \<Rightarrow> ('a \<Rightarrow> bool) \<Rightarrow> bool" where
  "wp m E Q \<longleftrightarrow> (case m of Inl e \<Rightarrow> E e | Inr x \<Rightarrow> Q x)"

lemma wp_Inr [simp]: "wp (Inr x) E Q = Q x"
  by (simp add: wp_def)

lemma wp_Inl [simp]: "wp (Inl e) E Q = E e"
  by (simp add: wp_def)

lemma wp_ebind: "wp m E P \<Longrightarrow> (\<And>x. P x \<Longrightarrow> wp (f x) E Q) \<Longrightarrow> wp (ebind m f) E Q"
  by (cases m) simp_all

lemma wp_mono: "wp m E P \<Longrightarrow> (\<And>x. P x \<Longrightarrow> Q x) \<Longrightarrow> wp m E Q"
  by (cases m) simp_all

lemma wp_bind: "wp m E P \<Longrightarrow> (\<And>x. m = Inr x \<Longrightarrow> P x \<Longrightarrow> wp (f x) E Q) \<Longrightarrow> wp (ebind m f) E Q"
  by (cases m) simp_all

lemma wp_if: "(b \<Longrightarrow> wp m E Q) \<Longrightarrow> (\<not> b \<Longrightarrow> wp m' E Q) \<Longrightarrow> wp (if b then m else m') E Q"
  by simp

lemma wp_conj: "wp m E P \<Longrightarrow> wp m E Q \<Longrightarrow> wp m E (\<lambda>x. P x \<and> Q x)"
  by (cases m) simp_all

lemma wp_value: "wp m E P \<Longrightarrow> m = Inr x \<Longrightarrow> P x"
  by simp

lemma wp_error: "wp m E P \<Longrightarrow> m = Inl e \<Longrightarrow> E e"
  by simp

lemma wp_ebind_any: "(\<And>x. wp (f x) (\<lambda>e. True) Q) \<Longrightarrow> wp (ebind m f) (\<lambda>e. True) Q"
  by (cases m) simp_all

lemma wp_prod: "(\<And>a b. wp (f a b) E Q) \<Longrightarrow> wp (case x of (a, b) \<Rightarrow> f a b) E Q"
  by (cases x) simp

lemma wp_split: "(\<And>a b. x = (a, b) \<Longrightarrow> wp (f a b) E Q) \<Longrightarrow> wp (case x of (a, b) \<Rightarrow> f a b) E Q"
  by (cases x) simp

lemma wp_efold:
  assumes "\<And>x s. x \<in> set xs \<Longrightarrow> I s \<Longrightarrow> wp (f x s) E I"
  shows "I s \<Longrightarrow> wp (efold f xs s) E I"
  using assms by (induction xs arbitrary: s) (auto intro!: wp_ebind)

text \<open>A guard that raises: \<open>luaL_argcheck\<close> and its like.\<close>

definition guard_or :: "bool \<Rightarrow> lua_error \<Rightarrow> unit res" where
  "guard_or b e = (if b then Inr () else Inl e)"

lemma guard_or_simps [simp]:
  "guard_or True e = Inr ()"
  "guard_or False e = Inl e"
  by (simp_all add: guard_or_def)

lemma guard_or_eq_Inr: "guard_or b e = Inr u \<longleftrightarrow> b"
  by (simp add: guard_or_def)

text \<open>The result of an \<open>int\<close> addition or multiplication of numbers that are not negative.\<close>

definition checked_int :: "int \<Rightarrow> int res" where
  "checked_int i = (if i \<le> 2 ^ 31 - 1 then Inr i else Inl (MemFault ''int overflow''))"

text \<open>A computation in which no \<open>int\<close> overflows.\<close>

definition no_overflow :: "'a res \<Rightarrow> bool" where
  "no_overflow m \<longleftrightarrow> m \<noteq> Inl (MemFault ''int overflow'')"

lemma no_overflow_simps [simp]:
  "no_overflow (Inr x)"
  "no_overflow (Inl (RunError msg))"
  "no_overflow (Inl (MemFault msg)) = (msg \<noteq> ''int overflow'')"
  by (simp_all add: no_overflow_def)

lemma no_overflow_checked [simp]: "no_overflow (checked_int i) = (i \<le> 2 ^ 31 - 1)"
  by (simp add: no_overflow_def checked_int_def)

lemma no_overflow_ebind:
  "no_overflow m \<Longrightarrow> (\<And>x. m = Inr x \<Longrightarrow> no_overflow (f x)) \<Longrightarrow> no_overflow (ebind m f)"
  by (cases m) (simp_all add: no_overflow_def)

lemma no_overflow_if: "(c \<Longrightarrow> no_overflow m) \<Longrightarrow> (\<not> c \<Longrightarrow> no_overflow m') \<Longrightarrow> no_overflow (if c then m else m')"
  by simp

lemma no_overflow_split: "(\<And>a b. x = (a, b) \<Longrightarrow> no_overflow (f a b)) \<Longrightarrow> no_overflow (case x of (a, b) \<Rightarrow> f a b)"
  by (cases x) simp

lemma checked_int_eq [simp]: "checked_int i = Inr j \<longleftrightarrow> i \<le> 2 ^ 31 - 1 \<and> j = i"
  by (auto simp: checked_int_def)

section \<open>Bytes and words in memory\<close>

type_synonym byte = "8 word"
type_synonym u32 = "32 word"
type_synonym u64 = "64 word"

text \<open>
  \<open>le_bytes n w\<close> is the object representation of \<open>w\<close> in \<open>n\<close> bytes on a little-endian
  machine (what \<open>memcpy (buf, &w, n)\<close> copies); \<open>le_word\<close> reads it back.
\<close>

definition le_bytes :: "nat \<Rightarrow> 'a::len word \<Rightarrow> byte list" where
  "le_bytes n w = map (\<lambda>i. ucast (drop_bit (8 * i) w)) [0..<n]"

fun le_word :: "byte list \<Rightarrow> 'a::len word" where
  "le_word [] = 0"
| "le_word (b # bs) = push_bit 8 (le_word bs) OR ucast b"

lemma length_le_bytes [simp]: "length (le_bytes n w) = n"
  by (simp add: le_bytes_def)

lemma le_bytes_nth: "i < n \<Longrightarrow> le_bytes n w ! i = ucast (drop_bit (8 * i) w)"
  by (simp add: le_bytes_def)

lemma bit_le_word:
  "bit (le_word bs :: 'a::len word) i \<longleftrightarrow>
     i < LENGTH('a) \<and> i div 8 < length bs \<and> bit (bs ! (i div 8)) (i mod 8)"
proof (induction bs arbitrary: i)
  case Nil
  then show ?case by simp
next
  case (Cons b bs)
  show ?case
  proof (cases "i < 8")
    case True
    then show ?thesis
      by (auto simp: bit_or_iff bit_push_bit_iff bit_ucast_iff)
  next
    case False
    then obtain j where j: "i = j + 8" by (metis add.commute le_Suc_ex not_less)
    have "\<not> bit b i" using False by (auto dest: bit_imp_le_length)
    moreover have "(j + 8) div 8 = Suc (j div 8)" by simp
    ultimately show ?thesis using Cons.IH [of j] j
      by (auto simp: bit_or_iff bit_push_bit_iff bit_ucast_iff)
  qed
qed

lemma le_word_le_bytes:
  assumes "LENGTH('a) \<le> 8 * n"
  shows "le_word (le_bytes n w) = (w :: 'a::len word)"
proof (rule bit_eqI)
  fix i
  assume "possible_bit TYPE('a word) i"
  then have i: "i < LENGTH('a)" by simp
  then have n: "i div 8 < n" using assms by linarith
  have "8 * (i div 8) + i mod 8 = i" by simp
  then show "bit (le_word (le_bytes n w) :: 'a word) i = bit w i"
    using i n by (auto simp: bit_le_word le_bytes_nth bit_ucast_iff bit_drop_bit_eq)
qed

lemma le_word_single [simp]: "le_word [b] = ucast b"
  by simp

lemma le_bytes_one: "le_bytes (Suc 0) w = [ucast w]"
  by (simp add: le_bytes_def)

lemma unat_of_nat_small: "n < 2 ^ LENGTH('a) \<Longrightarrow> unat (of_nat n :: 'a::len word) = n"
  by (simp add: unat_of_nat)

text \<open>The characters of a string as bytes.\<close>

definition str_bytes :: "string \<Rightarrow> byte list" where
  "str_bytes s = map of_char s"

definition bytes_str :: "byte list \<Rightarrow> string" where
  "bytes_str bs = map (\<lambda>b. char_of (unat b)) bs"

lemma unat_of_char: "unat (of_char c :: byte) = of_char c"
proof -
  have "unat (of_nat (of_char c) :: byte) = of_char c mod 256" unfolding unat_of_nat by simp
  then show ?thesis by (simp add: of_nat_of_char)
qed

lemma bytes_str_bytes [simp]: "bytes_str (str_bytes s) = s"
  by (simp add: bytes_str_def str_bytes_def comp_def unat_of_char)

lemma length_str_bytes [simp]: "length (str_bytes s) = length s"
  by (simp add: str_bytes_def)

lemma sint_word_of_int_range:
  assumes "- (2 ^ (LENGTH('a) - 1)) \<le> n" and "n < 2 ^ (LENGTH('a) - 1)"
  shows "sint (word_of_int n :: 'a::len word) = n"
  using assms by (simp add: sint_sbintrunc' signed_take_bit_int_eq_self)

section \<open>Bit lengths\<close>

text \<open>The number of bits of a number: the least \<open>k\<close> with \<open>n < 2 ^ k\<close>.\<close>

fun bitlen :: "nat \<Rightarrow> nat" where
  "bitlen n = (if n = 0 then 0 else Suc (bitlen (n div 2)))"

declare bitlen.simps [simp del]

lemma bitlen_0 [simp]: "bitlen 0 = 0"
  by (simp add: bitlen.simps)

lemma bitlen_le_iff: "bitlen n \<le> k \<longleftrightarrow> n < 2 ^ k"
proof (induction n arbitrary: k rule: bitlen.induct)
  case (1 n)
  show ?case
  proof (cases "n = 0")
    case False
    then show ?thesis
      using 1 [of "k - 1"] by (cases k) (auto simp: bitlen.simps [of n])
  qed simp
qed

lemma bitlen_half: "bitlen (n div 2) = bitlen n - 1"
  by (simp add: bitlen.simps [of n])

lemma bitlen_shift: "bitlen (n div 2 ^ j) = bitlen n - j"
proof (induction j)
  case (Suc j)
  have "n div 2 ^ Suc j = n div 2 ^ j div 2" by (simp only: power_Suc2 div_mult2_eq)
  then show ?case using Suc by (simp add: bitlen_half del: power_Suc)
qed simp

text \<open>Putting low bits under a shifted number is adding them.\<close>

lemma or_shifted:
  "r < 2 ^ k \<Longrightarrow> a * 2 ^ k OR r = a * 2 ^ k + (r :: nat)"
proof (induction k arbitrary: r)
  case (Suc k)
  have "a * 2 ^ k OR r div 2 = a * 2 ^ k + r div 2" using Suc by simp
  moreover have "a * 2 ^ Suc k OR r = r mod 2 + 2 * (a * 2 ^ k OR r div 2)"
    by (subst or_nat_rec) (simp add: mod_2_eq_odd)
  ultimately show ?case by simp
qed simp

lemma or_one_odd: "odd (m :: nat) \<Longrightarrow> m OR 1 = m"
  unfolding or_one_eq by simp

section \<open>Lists\<close>

text \<open>\<open>blit xs off ys\<close> is \<open>memcpy (xs + off, ys, length ys)\<close> inside one object.\<close>

definition blit :: "'a list \<Rightarrow> nat \<Rightarrow> 'a list \<Rightarrow> 'a list" where
  "blit xs off ys = take off xs @ ys @ drop (off + length ys) xs"

lemma length_blit [simp]: "off + length ys \<le> length xs \<Longrightarrow> length (blit xs off ys) = length xs"
  by (simp add: blit_def)

lemma take_blit:
  "off + length ys \<le> length xs \<Longrightarrow> take (off + length ys) (blit xs off ys) = take off xs @ ys"
  by (simp add: blit_def)

lemma concat_uniform_length:
  "(\<forall>x\<in>set xs. length x = k) \<Longrightarrow> length (concat xs) = k * length xs"
  by (induction xs) auto

lemma take_concat_uniform:
  assumes "\<forall>x\<in>set xs. length x = k" and "i \<le> length xs"
  shows "take (k * i) (concat xs) = concat (take i xs)"
proof -
  have "concat xs = concat (take i xs) @ concat (drop i xs)"
    by (metis append_take_drop_id concat_append)
  moreover have "length (concat (take i xs)) = k * i"
    using assms by (subst concat_uniform_length [where k = k]) (auto dest: in_set_takeD)
  ultimately show ?thesis by simp
qed

end
