(* ===== verification/Serializer_Blocks.thy ===== *)
theory Serializer_Blocks
  imports Prelude
begin

text \<open>
  The block chains of \<open>iolua/src/main/cpp/iolua/ltask/serializer.c\<close>: a message is written
  into a singly linked list of 128-byte blocks and read back from it, the reader freeing
  each block it leaves.  The theorems of this file say that a chain is a byte stream: what
  the writer pushes is what the reader gets, whatever the block boundaries.

  Memory is modelled at the level the code manipulates it.  A block's buffer is a list of
  128 cells, and a cell is \<open>None\<close> until it is written (the contents of fresh \<open>malloc\<close> memory
  are indeterminate).  A chain is the list of the blocks from a pointer on, so \<open>NULL\<close> is the
  empty list.  Reading through \<open>NULL\<close>, outside a buffer, or an indeterminate cell is a
  \<open>MemFault\<close>; copying zero bytes reads nothing and never faults.  A freed block leaves the
  reader's chain, so a use after free would be such a fault too.
\<close>

section \<open>Types\<close>

abbreviation BLOCK_SIZE :: nat where "BLOCK_SIZE \<equiv> 128"

type_synonym cell = "byte option"
type_synonym block = "cell list"

definition blk_alloc :: block where
  "blk_alloc = replicate BLOCK_SIZE None"

text \<open>
  \<open>w_head\<close> is the chain from \<open>head\<close>; \<open>current\<close> always points into it, and \<open>w_current\<close> is the
  number of \<open>next\<close> links from \<open>head\<close> to it.
\<close>

record write_block =
  w_head :: "block list"
  w_len :: int
  w_current :: nat
  w_ptr :: nat

text \<open>\<open>r_current\<close> is the chain from \<open>current\<close>: what the reader has not freed.\<close>

record read_block =
  r_buffer :: "cell list option"
  r_current :: "block list"
  r_len :: int
  r_ptr :: int

section \<open>Writing\<close>

text \<open>\<open>memcpy\<close> into the current buffer, advancing \<open>ptr\<close> and \<open>len\<close>.\<close>

definition wb_copy :: "write_block \<Rightarrow> byte list \<Rightarrow> write_block" where
  "wb_copy b buf =
     b\<lparr>w_head := (w_head b)[w_current b := blit (w_head b ! w_current b) (w_ptr b) (map Some buf)],
       w_ptr := w_ptr b + length buf,
       w_len := w_len b + int (length buf)\<rparr>"

text \<open>The statements at the label \<open>_again\<close>: link a fresh block after \<open>current\<close> and enter it.\<close>

definition wb_again :: "write_block \<Rightarrow> write_block" where
  "wb_again b =
     b\<lparr>w_head := take (Suc (w_current b)) (w_head b) @ [blk_alloc],
       w_current := Suc (w_current b),
       w_ptr := 0\<rparr>"

text \<open>The second \<open>if\<close> of \<open>wb_push\<close>, with its \<open>goto _again\<close>.\<close>

function wb_push_loop :: "write_block \<Rightarrow> byte list \<Rightarrow> write_block" where
  "wb_push_loop b buf =
     (if w_ptr b + length buf \<le> BLOCK_SIZE then wb_copy b buf
      else let copy = BLOCK_SIZE - w_ptr b
           in wb_push_loop (wb_again (wb_copy b (take copy buf))) (drop copy buf))"
  by pat_completeness auto
termination
  by (relation "measure (\<lambda>(b, buf). 2 * length buf + (if w_ptr b = 0 then 0 else 1))")
    (auto simp: wb_again_def)

declare wb_push_loop.simps [simp del]

definition wb_push :: "write_block \<Rightarrow> byte list \<Rightarrow> write_block" where
  "wb_push b buf = wb_push_loop (if w_ptr b = BLOCK_SIZE then wb_again b else b) buf"

text \<open>The object representation of the \<open>int\<close> field \<open>len\<close>.\<close>

definition int_bytes :: "int \<Rightarrow> byte list" where
  "int_bytes n = le_bytes 4 (word_of_int n :: u32)"

definition bytes_int :: "byte list \<Rightarrow> int" where
  "bytes_int bs = sint (le_word bs :: u32)"

definition cells_bytes :: "cell list \<Rightarrow> byte list res" where
  "cells_bytes cs = (if None \<in> set cs then Inl (MemFault ''indeterminate byte'')
                     else Inr (map the cs))"

text \<open>
  \<open>wb_init\<close>: with \<open>NULL\<close> a new chain whose first four bytes are reserved for the length,
  otherwise the writer is placed after the data of a finished chain.  The \<open>while (b->next)\<close>
  loop walks to the last block, subtracting a block size from \<open>sz\<close> at each step.
\<close>

fun wb_init_walk :: "block list \<Rightarrow> nat \<Rightarrow> int \<Rightarrow> nat \<times> int" where
  "wb_init_walk (b # b' # rest) i sz = wb_init_walk (b' # rest) (Suc i) (sz - int BLOCK_SIZE)"
| "wb_init_walk chain i sz = (i, sz)"

definition wb_init :: "block list option \<Rightarrow> write_block res" where
  "wb_init bo =
     (case bo of
        None \<Rightarrow> Inr (wb_push \<lparr>w_head = [blk_alloc], w_len = 0, w_current = 0, w_ptr = 0\<rparr>
                             (int_bytes 0))
      | Some chain \<Rightarrow>
          (case chain of
             [] \<Rightarrow> Inl (MemFault ''NULL block'')
           | b # _ \<Rightarrow>
               ebind (cells_bytes (take 4 b)) (\<lambda>bs.
                 let sz = bytes_int bs; (i, p) = wb_init_walk chain 0 sz
                 in Inr \<lparr>w_head = chain, w_len = sz, w_current = i, w_ptr = nat p\<rparr>)))"

definition wb_close :: "write_block \<Rightarrow> block list" where
  "wb_close b = w_head (wb_push (b\<lparr>w_current := 0, w_ptr := 0\<rparr>) (int_bytes (w_len b)))"

definition wb_free :: "write_block \<Rightarrow> write_block" where
  "wb_free b = \<lparr>w_head = [], w_len = 0, w_current = 0, w_ptr = 0\<rparr>"

section \<open>Reading\<close>

text \<open>The cells at \<open>chain->buffer + off\<close>, \<open>n\<close> of them.\<close>

definition blk_cells :: "block list \<Rightarrow> int \<Rightarrow> int \<Rightarrow> cell list res" where
  "blk_cells chain off n =
     (if n \<le> 0 then Inr []
      else case chain of
             [] \<Rightarrow> Inl (MemFault ''NULL block'')
           | b # _ \<Rightarrow> if 0 \<le> off \<and> off + n \<le> int (length b)
                      then Inr (take (nat n) (drop (nat off) b))
                      else Inl (MemFault ''outside the buffer''))"

definition rb_init :: "block list \<Rightarrow> read_block res" where
  "rb_init chain =
     ebind (blk_cells chain 0 4) (\<lambda>cs.
     ebind (cells_bytes cs) (\<lambda>bs.
     Inr \<lparr>r_buffer = None, r_current = chain, r_len = bytes_int bs - 4, r_ptr = 4\<rparr>))"

text \<open>
  The \<open>for (;;)\<close> loop of \<open>rb_read\<close>: free the current block, enter the next one and copy
  from it until \<open>sz\<close> bytes have arrived.  Each iteration consumes a block of the chain.
\<close>

fun rb_read_loop ::
  "block list \<Rightarrow> int \<Rightarrow> cell list \<Rightarrow> int \<Rightarrow> (cell list \<times> block list \<times> int \<times> int) res" where
  "rb_read_loop [] sz tmp len = Inl (MemFault ''NULL block'')"
| "rb_read_loop (_ # chain) sz tmp len =
     (if sz < int BLOCK_SIZE
      then ebind (blk_cells chain 0 sz) (\<lambda>cs. Inr (tmp @ cs, chain, sz, len - sz))
      else ebind (blk_cells chain 0 (int BLOCK_SIZE)) (\<lambda>cs.
             rb_read_loop chain (sz - int BLOCK_SIZE) (tmp @ cs) (len - int BLOCK_SIZE)))"

text \<open>
  \<open>rb_read\<close>: \<open>None\<close> for the \<open>NULL\<close> it returns when fewer than \<open>sz\<close> bytes are left,
  otherwise the \<open>sz\<close> bytes behind the returned pointer (into the block, or into the
  caller's buffer when they cross a boundary).
\<close>

definition rb_read :: "read_block \<Rightarrow> int \<Rightarrow> (byte list option \<times> read_block) res" where
  "rb_read rb sz =
     (if r_len rb < sz then Inr (None, rb)
      else case r_buffer rb of
        Some buf \<Rightarrow>
          ebind (blk_cells [buf] (r_ptr rb) sz) (\<lambda>cs.
          ebind (cells_bytes cs) (\<lambda>bs.
          Inr (Some bs, rb\<lparr>r_ptr := r_ptr rb + sz, r_len := r_len rb - sz\<rparr>)))
      | None \<Rightarrow>
          ebind (if r_ptr rb = int BLOCK_SIZE
                 then (case r_current rb of
                         [] \<Rightarrow> Inl (MemFault ''NULL block'')
                       | _ # chain \<Rightarrow> Inr (rb\<lparr>r_current := chain, r_ptr := 0\<rparr>))
                 else Inr rb) (\<lambda>rb.
          let copy = int BLOCK_SIZE - r_ptr rb in
          if sz \<le> copy
          then ebind (blk_cells (r_current rb) (r_ptr rb) sz) (\<lambda>cs.
               ebind (cells_bytes cs) (\<lambda>bs.
               Inr (Some bs, rb\<lparr>r_ptr := r_ptr rb + sz, r_len := r_len rb - sz\<rparr>)))
          else ebind (blk_cells (r_current rb) (r_ptr rb) copy) (\<lambda>cs.
               ebind (rb_read_loop (r_current rb) (sz - copy) cs (r_len rb - copy))
                 (\<lambda>(tmp, chain, ptr, len).
               ebind (cells_bytes tmp) (\<lambda>bs.
               Inr (Some bs, rb\<lparr>r_current := chain, r_ptr := ptr, r_len := len\<rparr>))))))"

definition rb_close :: "read_block \<Rightarrow> read_block" where
  "rb_close rb = rb\<lparr>r_current := [], r_len := 0, r_ptr := 0\<rparr>"

section \<open>The writer appends to a byte stream\<close>

text \<open>
  \<open>wb_data\<close> is what has been written up to the writer's position.  The invariant: every
  block has the full size and the position is inside the chain.
\<close>

definition wb_inv :: "write_block \<Rightarrow> bool" where
  "wb_inv b \<longleftrightarrow> w_current b < length (w_head b) \<and> w_ptr b \<le> BLOCK_SIZE \<and>
               (\<forall>blk\<in>set (w_head b). length blk = BLOCK_SIZE)"

definition wb_data :: "write_block \<Rightarrow> cell list" where
  "wb_data b = concat (take (w_current b) (w_head b)) @ take (w_ptr b) (w_head b ! w_current b)"

text \<open>\<open>wb_at_end b\<close>: nothing is linked after the current block, as everywhere but in \<open>wb_close\<close>.\<close>

definition wb_at_end :: "write_block \<Rightarrow> bool" where
  "wb_at_end b \<longleftrightarrow> Suc (w_current b) = length (w_head b)"

lemma length_blk_alloc [simp]: "length blk_alloc = BLOCK_SIZE"
  by (simp add: blk_alloc_def)

lemma wb_inv_length_data:
  assumes "wb_inv b"
  shows "length (wb_data b) = BLOCK_SIZE * w_current b + w_ptr b"
proof -
  have "length (concat (take (w_current b) (w_head b))) = BLOCK_SIZE * length (take (w_current b) (w_head b))"
    using assms by (intro concat_uniform_length) (auto simp: wb_inv_def dest: in_set_takeD)
  then show ?thesis using assms by (simp add: wb_data_def wb_inv_def)
qed

lemma wb_copy_inv:
  assumes "wb_inv b" and "w_ptr b + length buf \<le> BLOCK_SIZE"
  shows "wb_inv (wb_copy b buf)"
proof -
  have "length (blit (w_head b ! w_current b) (w_ptr b) (map Some buf)) = BLOCK_SIZE"
    using assms by (subst length_blit) (auto simp: wb_inv_def)
  then show ?thesis
    using assms set_update_subset_insert [of "w_head b" "w_current b"]
    by (fastforce simp: wb_inv_def wb_copy_def)
qed

lemma wb_copy_data:
  assumes "wb_inv b" and "w_ptr b + length buf \<le> BLOCK_SIZE"
  shows "wb_data (wb_copy b buf) = wb_data b @ map Some buf"
proof -
  let ?blk = "w_head b ! w_current b"
  have "length ?blk = BLOCK_SIZE" using assms(1) by (simp add: wb_inv_def)
  then have "take (w_ptr b + length buf) (blit ?blk (w_ptr b) (map Some buf)) =
             take (w_ptr b) ?blk @ map Some buf"
    using assms(2) take_blit [of "w_ptr b" "map Some buf" ?blk] by simp
  then show ?thesis using assms(1) by (simp add: wb_data_def wb_copy_def wb_inv_def)
qed

lemma wb_again_inv: "wb_inv b \<Longrightarrow> wb_inv (wb_again b)"
  by (auto simp: wb_inv_def wb_again_def dest: in_set_takeD)

lemma wb_again_data:
  assumes "wb_inv b" and "w_ptr b = BLOCK_SIZE"
  shows "wb_data (wb_again b) = wb_data b"
  using assms by (simp add: wb_inv_def wb_again_def wb_data_def take_Suc_conv_app_nth)

lemma wb_frame [simp]:
  "w_len (wb_copy b buf) = w_len b + int (length buf)"
  "w_ptr (wb_copy b buf) = w_ptr b + length buf"
  "w_current (wb_copy b buf) = w_current b"
  "length (w_head (wb_copy b buf)) = length (w_head b)"
  "w_len (wb_again b) = w_len b"
  "w_ptr (wb_again b) = 0"
  "w_current (wb_again b) = Suc (w_current b)"
  by (simp_all add: wb_copy_def wb_again_def)

lemma wb_push_loop_spec:
  "wb_inv b \<Longrightarrow>
     wb_inv (wb_push_loop b buf) \<and>
     wb_data (wb_push_loop b buf) = wb_data b @ map Some buf \<and>
     w_len (wb_push_loop b buf) = w_len b + int (length buf) \<and>
     (wb_at_end b \<longrightarrow> wb_at_end (wb_push_loop b buf))"
proof (induction b buf rule: wb_push_loop.induct)
  case (1 b buf)
  show ?case
  proof (cases "w_ptr b + length buf \<le> BLOCK_SIZE")
    case True
    with 1 show ?thesis
      by (simp add: wb_push_loop.simps [of b buf] wb_copy_inv wb_copy_data wb_at_end_def)
  next
    case False
    let ?copy = "BLOCK_SIZE - w_ptr b"
    let ?c = "wb_copy b (take ?copy buf)"
    from False 1(2) have fits: "w_ptr b + length (take ?copy buf) \<le> BLOCK_SIZE"
      and full: "w_ptr ?c = BLOCK_SIZE"
      by (auto simp: wb_inv_def)
    have c: "wb_inv ?c" "wb_data ?c = wb_data b @ map Some (take ?copy buf)"
      using 1(2) fits by (simp_all add: wb_copy_inv wb_copy_data)
    have "wb_inv (wb_again ?c)" using c by (simp add: wb_again_inv)
    from 1(1) [OF False refl this]
    have "wb_inv (wb_push_loop (wb_again ?c) (drop ?copy buf)) \<and>
      wb_data (wb_push_loop (wb_again ?c) (drop ?copy buf)) =
        wb_data (wb_again ?c) @ map Some (drop ?copy buf) \<and>
      w_len (wb_push_loop (wb_again ?c) (drop ?copy buf)) =
        w_len (wb_again ?c) + int (length (drop ?copy buf)) \<and>
      (wb_at_end (wb_again ?c) \<longrightarrow> wb_at_end (wb_push_loop (wb_again ?c) (drop ?copy buf)))" .
    moreover have "wb_at_end (wb_again ?c)"
      using c(1) by (simp add: wb_at_end_def wb_again_def wb_inv_def)
    moreover have "wb_data (wb_again ?c) @ map Some (drop ?copy buf) = wb_data b @ map Some buf"
      using c full by (simp add: wb_again_data flip: map_append)
    moreover have "w_ptr b + length (take ?copy buf) = BLOCK_SIZE" using full by simp
    ultimately show ?thesis using False
      by (auto simp: wb_push_loop.simps [of b buf] Let_def)
  qed
qed

lemma wb_push_spec:
  assumes "wb_inv b"
  shows "wb_inv (wb_push b buf)"
    and "wb_data (wb_push b buf) = wb_data b @ map Some buf"
    and "w_len (wb_push b buf) = w_len b + int (length buf)"
    and "wb_at_end b \<Longrightarrow> wb_at_end (wb_push b buf)"
proof -
  let ?b = "if w_ptr b = BLOCK_SIZE then wb_again b else b"
  have b: "wb_inv ?b" "wb_data ?b = wb_data b" "w_len ?b = w_len b"
    using assms by (auto simp: wb_again_inv wb_again_data)
  have e: "wb_at_end b \<Longrightarrow> wb_at_end ?b"
    using assms by (simp add: wb_at_end_def wb_again_def wb_inv_def)
  note spec = wb_push_loop_spec [OF b(1), of buf]
  show "wb_inv (wb_push b buf)" using spec by (simp add: wb_push_def)
  show "wb_data (wb_push b buf) = wb_data b @ map Some buf"
    using spec b by (simp only: wb_push_def)
  show "w_len (wb_push b buf) = w_len b + int (length buf)"
    using spec b by (simp only: wb_push_def)
  show "wb_at_end b \<Longrightarrow> wb_at_end (wb_push b buf)"
    using spec e by (simp only: wb_push_def)
qed

section \<open>The reader consumes the same stream\<close>

text \<open>\<open>rb_ok rb bs\<close>: exactly the bytes \<open>bs\<close> are left to read.\<close>

definition rb_ok :: "read_block \<Rightarrow> byte list \<Rightarrow> bool" where
  "rb_ok rb bs \<longleftrightarrow>
     r_buffer rb = None \<and> r_len rb = int (length bs) \<and>
     0 \<le> r_ptr rb \<and> r_ptr rb \<le> int BLOCK_SIZE \<and> (r_current rb = [] \<longrightarrow> r_ptr rb = 0) \<and>
     (\<forall>blk\<in>set (r_current rb). length blk = BLOCK_SIZE) \<and>
     take (length bs) (drop (nat (r_ptr rb)) (concat (r_current rb))) = map Some bs"

lemma cells_bytes_Some [simp]: "cells_bytes (map Some bs) = Inr bs"
  by (simp add: cells_bytes_def comp_def image_iff)

lemma blk_cells_take:
  assumes "\<forall>blk\<in>set chain. length blk = BLOCK_SIZE" and "off + n \<le> BLOCK_SIZE"
    and "take n (drop off (concat chain)) = map Some xs" and "length xs = n"
  shows "blk_cells chain (int off) (int n) = Inr (map Some xs)"
proof (cases chain)
  case Nil
  with assms have "n = 0" by auto
  with assms show ?thesis by (simp add: blk_cells_def)
next
  case (Cons b rest)
  with assms show ?thesis by (auto simp: blk_cells_def nat_add_distrib)
qed

lemma rb_read_loop_spec:
  assumes "\<forall>blk\<in>set chain. length blk = BLOCK_SIZE"
    and "take (length xs) (concat chain) = map Some xs"
  shows "\<exists>chain' p. rb_read_loop (b # chain) (int (length xs)) tmp len =
           Inr (tmp @ map Some xs, chain', p, len - int (length xs)) \<and>
         0 \<le> p \<and> p \<le> int BLOCK_SIZE \<and> (chain' = [] \<longrightarrow> p = 0) \<and> set chain' \<subseteq> set chain \<and>
         drop (nat p) (concat chain') = drop (length xs) (concat chain)"
  using assms
proof (induction chain arbitrary: b xs tmp len)
  case Nil
  then show ?case by (simp add: blk_cells_def)
next
  case (Cons b' rest)
  show ?case
  proof (cases "length xs < BLOCK_SIZE")
    case True
    have "blk_cells (b' # rest) 0 (int (length xs)) = Inr (map Some xs)"
      using blk_cells_take [OF Cons.prems(1), of 0 "length xs" xs] True Cons.prems(2) by simp
    with True show ?thesis by auto
  next
    case False
    let ?ys = "drop BLOCK_SIZE xs"
    have b': "length b' = BLOCK_SIZE" using Cons.prems(1) by simp
    have split: "b' @ take (length ?ys) (concat rest) = map Some (take BLOCK_SIZE xs) @ map Some ?ys"
      using Cons.prems(2) False b' by (simp add: take_append flip: map_append)
    then have xs: "b' = map Some (take BLOCK_SIZE xs)" and ys: "take (length ?ys) (concat rest) = map Some ?ys"
      using b' False by (simp_all add: append_eq_append_conv)
    have "\<forall>blk\<in>set rest. length blk = BLOCK_SIZE" using Cons.prems(1) by simp
    from Cons.IH [OF this ys, of b' "tmp @ b'" "len - int BLOCK_SIZE"]
    obtain chain' p where
      loop: "rb_read_loop (b' # rest) (int (length ?ys)) (tmp @ b') (len - int BLOCK_SIZE) =
        Inr ((tmp @ b') @ map Some ?ys, chain', p, len - int BLOCK_SIZE - int (length ?ys))"
      and p: "0 \<le> p" "p \<le> int BLOCK_SIZE" "chain' = [] \<longrightarrow> p = 0" "set chain' \<subseteq> set rest"
        "drop (nat p) (concat chain') = drop (length ?ys) (concat rest)" by blast
    have lens: "int (length ?ys) = int (length xs) - int BLOCK_SIZE" using False by simp
    have cells: "blk_cells (b' # rest) 0 (int BLOCK_SIZE) = Inr b'"
      using b' by (simp add: blk_cells_def)
    have res: "(tmp @ b') @ map Some ?ys = tmp @ map Some xs"
      using xs by (metis append.assoc append_take_drop_id map_append)
    have "rb_read_loop (b # b' # rest) (int (length xs)) tmp len =
        Inr (tmp @ map Some xs, chain', p, len - int (length xs))"
      using False loop cells res lens by simp
    moreover have "drop (nat p) (concat chain') = drop (length xs) (concat (b' # rest))"
      using p(5) b' False by simp
    ultimately show ?thesis using p by auto
  qed
qed

lemma rb_ok_cut:
  assumes "take (length (xs @ ys)) cs = map Some (xs @ ys)"
  shows "take (length xs) cs = map Some xs"
    and "take (length ys) (drop (length xs) cs) = map Some ys"
proof -
  have "take (length xs) (take (length (xs @ ys)) cs) = map Some xs"
    unfolding assms by simp
  then show "take (length xs) cs = map Some xs" by simp
  have "drop (length xs) (take (length (xs @ ys)) cs) = map Some ys"
    unfolding assms by simp
  then show "take (length ys) (drop (length xs) cs) = map Some ys"
    by (simp add: take_drop add.commute)
qed

definition rb_enter :: "read_block \<Rightarrow> read_block" where
  "rb_enter rb = (if r_ptr rb = int BLOCK_SIZE
                  then rb\<lparr>r_current := tl (r_current rb), r_ptr := 0\<rparr> else rb)"

lemma rb_enter_ok:
  assumes "rb_ok rb bs"
  shows "rb_ok (rb_enter rb) bs" and "r_ptr (rb_enter rb) < int BLOCK_SIZE"
    and "(if r_ptr rb = int BLOCK_SIZE
          then case r_current rb of [] \<Rightarrow> Inl (MemFault ''NULL block'')
               | _ # chain \<Rightarrow> Inr (rb\<lparr>r_current := chain, r_ptr := 0\<rparr>)
          else Inr rb) = Inr (rb_enter rb)"
  using assms by (cases "r_current rb"; force simp: rb_ok_def rb_enter_def)+

lemma rb_read_within:
  assumes ok: "rb_ok rb (xs @ ys)" and fits: "nat (r_ptr rb) + length xs \<le> BLOCK_SIZE"
  shows "blk_cells (r_current rb) (r_ptr rb) (int (length xs)) = Inr (map Some xs)"
    and "rb_ok (rb\<lparr>r_ptr := r_ptr rb + int (length xs), r_len := r_len rb - int (length xs)\<rparr>) ys"
proof -
  let ?cs = "drop (nat (r_ptr rb)) (concat (r_current rb))"
  from ok have cs: "take (length (xs @ ys)) ?cs = map Some (xs @ ys)"
    and sz: "\<forall>blk\<in>set (r_current rb). length blk = BLOCK_SIZE" and p: "0 \<le> r_ptr rb"
    by (simp_all add: rb_ok_def)
  note cut = rb_ok_cut [OF cs]
  show "blk_cells (r_current rb) (r_ptr rb) (int (length xs)) = Inr (map Some xs)"
    using blk_cells_take [OF sz fits cut(1) refl] p by simp
  have "r_current rb = [] \<Longrightarrow> length xs = 0" using cut(1) by auto
  then show "rb_ok (rb\<lparr>r_ptr := r_ptr rb + int (length xs), r_len := r_len rb - int (length xs)\<rparr>) ys"
    using ok fits cut(2) p by (auto simp: rb_ok_def nat_add_distrib add.commute)
qed

lemma rb_read_across:
  assumes ok: "rb_ok rb (xs @ ys)" and big: "BLOCK_SIZE < nat (r_ptr rb) + length xs"
    and lt: "r_ptr rb < int BLOCK_SIZE"
  defines "copy \<equiv> BLOCK_SIZE - nat (r_ptr rb)"
  shows "\<exists>chain p.
      blk_cells (r_current rb) (r_ptr rb) (int copy) = Inr (map Some (take copy xs)) \<and>
      rb_read_loop (r_current rb) (int (length xs) - int copy) (map Some (take copy xs)) (r_len rb - int copy) =
        Inr (map Some xs, chain, p, r_len rb - int (length xs)) \<and>
      rb_ok (rb\<lparr>r_current := chain, r_ptr := p, r_len := r_len rb - int (length xs)\<rparr>) ys"
proof -
  let ?xs1 = "take copy xs" and ?xs2 = "drop copy xs"
  from ok lt have p0: "0 \<le> r_ptr rb" and len: "copy \<le> length xs" and c: "int copy = int BLOCK_SIZE - r_ptr rb"
    and sz: "\<forall>blk\<in>set (r_current rb). length blk = BLOCK_SIZE"
    using big by (auto simp: rb_ok_def copy_def)
  have ok': "rb_ok rb (?xs1 @ (?xs2 @ ys))" using ok by (metis append.assoc append_take_drop_id)
  have l1: "length ?xs1 = copy" using len by simp
  have fits: "nat (r_ptr rb) + length ?xs1 \<le> BLOCK_SIZE" using l1 lt p0 by (simp add: copy_def)
  note first = rb_read_within [OF ok' fits, unfolded l1]
  obtain b rest where cur: "r_current rb = b # rest"
  proof (cases "r_current rb")
    case Nil
    then have "xs @ ys = []" using ok by (simp add: rb_ok_def)
    then show ?thesis using big lt by simp
  qed
  have "length b = BLOCK_SIZE" using sz cur by simp
  then have rest: "take (length (?xs2 @ ys)) (concat rest) = map Some (?xs2 @ ys)"
    using first(2) cur p0 c by (auto simp: rb_ok_def)
  note cut = rb_ok_cut [OF rest]
  obtain chain p where
    loop: "rb_read_loop (b # rest) (int (length ?xs2)) (map Some ?xs1) (r_len rb - int copy) =
      Inr (map Some ?xs1 @ map Some ?xs2, chain, p, r_len rb - int copy - int (length ?xs2))"
    and p: "0 \<le> p" "p \<le> int BLOCK_SIZE" "chain = [] \<longrightarrow> p = 0" "set chain \<subseteq> set rest"
      "drop (nat p) (concat chain) = drop (length ?xs2) (concat rest)"
    using rb_read_loop_spec [OF _ cut(1)] sz cur by (metis list.set_intros(2))
  have lens: "int (length ?xs2) = int (length xs) - int copy" using len by simp
  have "rb_ok (rb\<lparr>r_current := chain, r_ptr := p, r_len := r_len rb - int (length xs)\<rparr>) ys"
    using ok p cut(2) sz cur by (auto simp: rb_ok_def)
  moreover have "map Some ?xs1 @ map Some ?xs2 = map Some xs" by (simp flip: map_append)
  ultimately show ?thesis using first(1) loop cur lens by auto
qed

lemma rb_read_spec:
  assumes ok: "rb_ok rb (xs @ ys)"
  shows "\<exists>rb'. rb_read rb (int (length xs)) = Inr (Some xs, rb') \<and> rb_ok rb' ys"
proof -
  let ?rb = "rb_enter rb"
  note enter = rb_enter_ok [OF ok]
  have buf: "r_buffer rb = None" and len: "\<not> r_len rb < int (length xs)"
    using ok by (auto simp: rb_ok_def)
  have p0: "0 \<le> r_ptr ?rb" using enter(1) by (simp add: rb_ok_def)
  show ?thesis
  proof (cases "nat (r_ptr ?rb) + length xs \<le> BLOCK_SIZE")
    case True
    note within = rb_read_within [OF enter(1) True]
    have "int (length xs) \<le> int BLOCK_SIZE - r_ptr ?rb" using True p0 by linarith
    then show ?thesis using within buf len enter(3)
      by (simp add: rb_read_def Let_def)
  next
    case False
    let ?copy = "BLOCK_SIZE - nat (r_ptr ?rb)"
    have big: "BLOCK_SIZE < nat (r_ptr ?rb) + length xs" using False by simp
    obtain chain p where
      x: "blk_cells (r_current ?rb) (r_ptr ?rb) (int ?copy) = Inr (map Some (take ?copy xs))"
      "rb_read_loop (r_current ?rb) (int (length xs) - int ?copy) (map Some (take ?copy xs)) (r_len ?rb - int ?copy) =
        Inr (map Some xs, chain, p, r_len ?rb - int (length xs))"
      "rb_ok (?rb\<lparr>r_current := chain, r_ptr := p, r_len := r_len ?rb - int (length xs)\<rparr>) ys"
      using rb_read_across [OF enter(1) big enter(2)] by blast
    have c: "int ?copy = int BLOCK_SIZE - r_ptr ?rb" and "\<not> int (length xs) \<le> int BLOCK_SIZE - r_ptr ?rb"
      using False p0 enter(2) by linarith+
    then show ?thesis using x buf len enter(3)
      by (simp add: rb_read_def Let_def)
  qed
qed

lemma rb_read_short:
  "rb_ok rb bs \<Longrightarrow> int (length bs) < n \<Longrightarrow> rb_read rb n = Inr (None, rb)"
  by (simp add: rb_ok_def rb_read_def)

section \<open>Byte sinks and byte sources\<close>

text \<open>
  What the packer needs of a writer: a push appends.  What the unpacker needs of a reader: a
  read returns the next bytes when they are there and leaves the rest.
\<close>

locale byte_sink =
  fixes push :: "'w \<Rightarrow> byte list \<Rightarrow> 'w" and out :: "'w \<Rightarrow> cell list" and inv :: "'w \<Rightarrow> bool"
  assumes push_inv: "inv w \<Longrightarrow> inv (push w bs)"
    and push_out: "inv w \<Longrightarrow> out (push w bs) = out w @ map Some bs"
begin

lemma pushes_inv: "inv w \<Longrightarrow> inv (foldl push w bss)"
  by (induction bss arbitrary: w) (auto simp: push_inv)

lemma pushes_out: "inv w \<Longrightarrow> out (foldl push w bss) = out w @ map Some (concat bss)"
  by (induction bss arbitrary: w) (auto simp: push_inv push_out)

end

text \<open>Reading a list of sizes one after the other, as a client does.\<close>

fun reads :: "('r \<Rightarrow> int \<Rightarrow> (byte list option \<times> 'r) res) \<Rightarrow> 'r \<Rightarrow> int list \<Rightarrow> (byte list option list \<times> 'r) res" where
  "reads rd r [] = Inr ([], r)"
| "reads rd r (n # ns) =
     ebind (rd r n) (\<lambda>(bs, r). ebind (reads rd r ns) (\<lambda>(bss, r). Inr (bs # bss, r)))"

locale byte_source =
  fixes read :: "'r \<Rightarrow> int \<Rightarrow> (byte list option \<times> 'r) res" and ok :: "'r \<Rightarrow> byte list \<Rightarrow> bool"
  assumes read_ok: "ok r (xs @ ys) \<Longrightarrow> \<exists>r'. read r (int (length xs)) = Inr (Some xs, r') \<and> ok r' ys"
    and read_short: "ok r xs \<Longrightarrow> int (length xs) < n \<Longrightarrow> read r n = Inr (None, r)"
begin

lemma reads_all:
  "ok r (concat bss @ ys) \<Longrightarrow>
     \<exists>r'. reads read r (map (\<lambda>bs. int (length bs)) bss) = Inr (map Some bss, r') \<and> ok r' ys"
proof (induction bss arbitrary: r)
  case Nil
  then show ?case by simp
next
  case (Cons bs bss)
  then have "ok r (bs @ (concat bss @ ys))" by simp
  then obtain r1 where r1: "read r (int (length bs)) = Inr (Some bs, r1)" "ok r1 (concat bss @ ys)"
    using read_ok by blast
  then obtain r2 where "reads read r1 (map (\<lambda>bs. int (length bs)) bss) = Inr (map Some bss, r2)" "ok r2 ys"
    using Cons.IH by blast
  then show ?case using r1 by simp
qed

lemma read_word:
  assumes "ok r (le_bytes n w @ ys)" and "LENGTH('a) \<le> 8 * n"
  obtains bs r' where "read r (int n) = Inr (Some bs, r')" and "ok r' ys"
    and "le_word bs = (w :: 'a::len word)"
  using read_ok [OF assms(1)] le_word_le_bytes [OF assms(2)] by auto

end

interpretation sink: byte_sink wb_push wb_data wb_inv
  by unfold_locales (auto simp: wb_push_spec)

interpretation source: byte_source rb_read rb_ok
  by unfold_locales (auto simp: rb_read_spec rb_read_short)

section \<open>A closed chain read back\<close>

lemma wb_data_take:
  assumes "wb_inv b"
  shows "wb_data b = take (BLOCK_SIZE * w_current b + w_ptr b) (concat (w_head b))"
proof -
  from assms have u: "\<forall>blk\<in>set (w_head b). length blk = BLOCK_SIZE"
    and c: "w_current b < length (w_head b)" and p: "w_ptr b \<le> BLOCK_SIZE"
    by (simp_all add: wb_inv_def)
  let ?pre = "take (w_current b) (w_head b)" and ?post = "drop (Suc (w_current b)) (w_head b)"
  have "concat (w_head b) = concat ?pre @ w_head b ! w_current b @ concat ?post"
    using c by (metis append.assoc concat.simps(2) concat_append id_take_nth_drop)
  moreover have "length (concat ?pre) = BLOCK_SIZE * w_current b"
    using u c by (subst concat_uniform_length [where k = BLOCK_SIZE]) (auto dest: in_set_takeD)
  moreover have "length (w_head b ! w_current b) = BLOCK_SIZE" using u c by simp
  ultimately show ?thesis using p by (simp add: wb_data_def)
qed

lemma bytes_int_bytes: "- (2 ^ 31) \<le> n \<Longrightarrow> n < 2 ^ 31 \<Longrightarrow> bytes_int (int_bytes n) = n"
  by (simp add: bytes_int_def int_bytes_def le_word_le_bytes sint_word_of_int_range)

lemma length_int_bytes [simp]: "length (int_bytes n) = 4"
  by (simp add: int_bytes_def)

lemma wb_close_eq:
  assumes "wb_inv b"
  shows "wb_close b = (map Some (int_bytes (w_len b)) @ drop 4 (hd (w_head b))) # tl (w_head b)"
proof (cases "w_head b")
  case Nil
  with assms show ?thesis by (simp add: wb_inv_def)
next
  case (Cons blk rest)
  then show ?thesis
    by (simp add: wb_close_def wb_push_def wb_push_loop.simps wb_copy_def blit_def)
qed

lemma wb_close_concat:
  assumes "wb_inv b"
  shows "concat (wb_close b) = map Some (int_bytes (w_len b)) @ drop 4 (concat (w_head b))"
proof (cases "w_head b")
  case Nil
  with assms show ?thesis by (simp add: wb_inv_def)
next
  case (Cons blk rest)
  then have "length blk = BLOCK_SIZE" using assms by (simp add: wb_inv_def)
  then show ?thesis using wb_close_eq [OF assms] Cons by simp
qed

text \<open>A writer that holds a reserved header and then exactly the bytes \<open>bs\<close>.\<close>

definition wb_holds :: "write_block \<Rightarrow> byte list \<Rightarrow> bool" where
  "wb_holds b bs \<longleftrightarrow> wb_inv b \<and> wb_at_end b \<and> w_len b = 4 + int (length bs) \<and>
     (\<exists>h. length h = 4 \<and> wb_data b = map Some (h @ bs))"

lemma wb_holds_push:
  assumes "wb_holds b bs"
  shows "wb_holds (wb_push b buf) (bs @ buf)"
proof -
  obtain h where "length h = 4" "wb_data b = map Some (h @ bs)"
    using assms by (auto simp: wb_holds_def)
  then have "length h = 4 \<and> wb_data (wb_push b buf) = map Some (h @ bs @ buf)"
    using assms by (simp add: wb_push_spec wb_holds_def)
  then show ?thesis using assms
    unfolding wb_holds_def by (auto simp: wb_push_spec)
qed

lemma wb_holds_pushes: "wb_holds b bs \<Longrightarrow> wb_holds (foldl wb_push b bufs) (bs @ concat bufs)"
proof (induction bufs arbitrary: b bs)
  case Nil
  then show ?case by simp
next
  case (Cons buf bufs)
  then have "wb_holds (foldl wb_push (wb_push b buf) bufs) ((bs @ buf) @ concat bufs)"
    using wb_holds_push by blast
  then show ?case by simp
qed

lemma wb_init_holds: "\<exists>b. wb_init None = Inr b \<and> wb_holds b []"
proof -
  let ?b = "\<lparr>w_head = [blk_alloc], w_len = 0, w_current = 0, w_ptr = 0\<rparr>"
  have "wb_inv ?b" and "wb_at_end ?b" and "wb_data ?b = []"
    by (simp_all add: wb_inv_def wb_at_end_def wb_data_def)
  then have "wb_holds (wb_push ?b (int_bytes 0)) []"
    by (auto simp: wb_holds_def wb_push_spec intro!: exI [of _ "int_bytes 0"])
  then show ?thesis by (simp add: wb_init_def)
qed

lemma wb_holds_len: "wb_holds b bs \<Longrightarrow> 4 + length bs = BLOCK_SIZE * w_current b + w_ptr b"
  using wb_inv_length_data [of b] by (auto simp: wb_holds_def)

lemma rb_init_close:
  assumes b: "wb_holds b bs" and len: "4 + length bs < 2 ^ 31"
  shows "\<exists>rb. rb_init (wb_close b) = Inr rb \<and> rb_ok rb bs"
proof -
  from b have inv: "wb_inv b" and wl: "w_len b = 4 + int (length bs)" by (simp_all add: wb_holds_def)
  obtain h where h: "length h = 4" "wb_data b = map Some (h @ bs)" using b by (auto simp: wb_holds_def)
  have "take (4 + length bs) (concat (w_head b)) = map Some (h @ bs)"
    using wb_data_take [OF inv] wb_holds_len [OF b] h by simp
  then have data: "take (length bs) (drop 4 (concat (w_head b))) = map Some bs"
    using rb_ok_cut(2) [of h bs] h(1) by simp
  have blk: "\<forall>blk\<in>set (wb_close b). length blk = BLOCK_SIZE"
    using inv by (cases "w_head b") (auto simp: wb_close_eq wb_inv_def)
  have int: "bytes_int (int_bytes (w_len b)) - 4 = int (length bs)"
    using wl len by (subst bytes_int_bytes) auto
  have "take 4 (concat (wb_close b)) = map Some (int_bytes (w_len b))"
    by (simp add: wb_close_concat [OF inv])
  then have "blk_cells (wb_close b) 0 4 = Inr (map Some (int_bytes (w_len b)))"
    using blk_cells_take [OF blk, of 0 4 "int_bytes (w_len b)"] by simp
  then have "rb_init (wb_close b) =
      Inr \<lparr>r_buffer = None, r_current = wb_close b, r_len = int (length bs), r_ptr = 4\<rparr>"
    by (simp add: rb_init_def int)
  moreover have "rb_ok \<lparr>r_buffer = None, r_current = wb_close b, r_len = int (length bs), r_ptr = 4\<rparr> bs"
    using blk data inv by (simp add: rb_ok_def wb_close_concat) (simp add: wb_close_eq)
  ultimately show ?thesis by blast
qed

section \<open>Reopening a closed chain\<close>

lemma wb_init_walk_eq:
  "chain \<noteq> [] \<Longrightarrow>
     wb_init_walk chain i sz = (i + (length chain - 1), sz - int (BLOCK_SIZE * (length chain - 1)))"
  by (induction chain i sz rule: wb_init_walk.induct) auto

lemma wb_init_some:
  assumes b: "wb_holds b bs" and len: "4 + length bs < 2 ^ 31"
  shows "\<exists>b'. wb_init (Some (wb_close b)) = Inr b' \<and> wb_holds b' bs"
proof -
  from b have inv: "wb_inv b" and wl: "w_len b = 4 + int (length bs)"
    and at_end: "Suc (w_current b) = length (w_head b)"
    by (simp_all add: wb_holds_def wb_at_end_def)
  obtain blk rest where head: "w_head b = blk # rest" using inv by (cases "w_head b") (auto simp: wb_inv_def)
  let ?hdr = "map Some (int_bytes (w_len b))"
  let ?chain = "(?hdr @ drop 4 blk) # rest"
  let ?b = "\<lparr>w_head = ?chain, w_len = w_len b, w_current = w_current b, w_ptr = w_ptr b\<rparr>"
  have chain: "wb_close b = ?chain" using wb_close_eq [OF inv] head by simp
  have blkl: "length blk = BLOCK_SIZE" using inv head by (simp add: wb_inv_def)
  have cur: "w_current b = length rest" using at_end head by simp
  have p: "nat (w_len b - 128 * int (length rest)) = w_ptr b"
    using wb_holds_len [OF b] wl cur by linarith
  have int: "bytes_int (int_bytes (w_len b)) = w_len b"
    using wl len by (subst bytes_int_bytes) auto
  have "wb_init (Some (wb_close b)) = Inr ?b"
    unfolding chain wb_init_def by (simp add: int wb_init_walk_eq cur p Let_def)
  moreover have inv': "wb_inv ?b" and "wb_at_end ?b"
    using inv head blkl at_end by (auto simp: wb_inv_def wb_at_end_def)
  moreover have "wb_data ?b = map Some (int_bytes (w_len b) @ bs)"
  proof -
    obtain h where h: "length h = 4" "wb_data b = map Some (h @ bs)" using b by (auto simp: wb_holds_def)
    let ?n = "BLOCK_SIZE * w_current b + w_ptr b"
    have n: "4 \<le> ?n" using wb_holds_len [OF b] by simp
    have cs: "concat ?chain = ?hdr @ drop 4 (concat (w_head b))" using blkl head by simp
    have "wb_data ?b = take ?n (?hdr @ drop 4 (concat (w_head b)))"
      unfolding wb_data_take [OF inv'] by (simp only: write_block.simps cs)
    also have "\<dots> = ?hdr @ drop 4 (take ?n (concat (w_head b)))"
      using n by (simp add: drop_take)
    also have "\<dots> = ?hdr @ drop 4 (wb_data b)" using wb_data_take [OF inv] by simp
    also have "\<dots> = map Some (int_bytes (w_len b) @ bs)" using h by simp
    finally show ?thesis .
  qed
  ultimately show ?thesis using wl by (auto simp: wb_holds_def intro!: exI [of _ "int_bytes (w_len b)"])
qed

section \<open>Properties\<close>

text \<open>C11:
  A chain of blocks is a byte stream.  Push any pieces, close the writer and open a
  reader: reading the same bytes in any other division into pieces returns exactly those
  pieces, with no fault at any block boundary, and the next read finds the end.
\<close>

theorem block_stream_roundtrip:
  assumes "wb_init None = Inr b0" and "4 + length (concat bufs) < 2 ^ 31"
    and "concat parts = concat bufs"
  shows "\<exists>rb rb'. rb_init (wb_close (foldl wb_push b0 bufs)) = Inr rb \<and>
           reads rb_read rb (map (\<lambda>p. int (length p)) parts) = Inr (map Some parts, rb') \<and>
           rb_read rb' 1 = Inr (None, rb')"
proof -
  have "wb_holds b0 []" using assms(1) wb_init_holds by auto
  then have "wb_holds (foldl wb_push b0 bufs) (concat parts)"
    using wb_holds_pushes [of b0 "[]" bufs] assms(3) by simp
  then obtain rb where rb: "rb_init (wb_close (foldl wb_push b0 bufs)) = Inr rb" "rb_ok rb (concat parts)"
    using rb_init_close assms(2,3) by force
  then obtain rb' where "reads rb_read rb (map (\<lambda>p. int (length p)) parts) = Inr (map Some parts, rb')"
    and "rb_ok rb' []"
    using source.reads_all [of rb parts "[]"] by auto
  then show ?thesis using rb rb_read_short [of rb' "[]" 1] by auto
qed

theorem block_stream_roundtrip_witness:
  "\<exists>b0 rb rb'. wb_init None = Inr b0 \<and>
     rb_init (wb_close (foldl wb_push b0 [replicate 130 7, [1, 2]])) = Inr rb \<and>
     reads rb_read rb [100, 30, 2] = Inr ([Some (replicate 100 7), Some (replicate 30 7), Some [1, 2]], rb') \<and>
     rb_read rb' 1 = Inr (None, rb')"
proof -
  let ?bufs = "[replicate 130 7, [1, 2]] :: byte list list"
  let ?parts = "[replicate 100 7, replicate 30 7, [1, 2]] :: byte list list"
  obtain b0 where b0: "wb_init None = Inr b0" using wb_init_holds by blast
  have "concat ?parts = concat ?bufs" by (simp flip: replicate_add append_assoc)
  from block_stream_roundtrip [OF b0 _ this] b0 show ?thesis by simp
qed

text \<open>
  Reopening a closed chain with \<open>wb_init\<close> and pushing more is the same as having pushed
  everything before closing, whichever way the data ends relative to a block boundary.
\<close>

theorem wb_reopen_appends:
  assumes "wb_init None = Inr b0" and "4 + length (concat bufs @ concat bufs') < 2 ^ 31"
  shows "\<exists>b1 rb. wb_init (Some (wb_close (foldl wb_push b0 bufs))) = Inr b1 \<and>
           rb_init (wb_close (foldl wb_push b1 bufs')) = Inr rb \<and>
           rb_ok rb (concat bufs @ concat bufs')"
proof -
  have "wb_holds b0 []" using assms(1) wb_init_holds by auto
  then have "wb_holds (foldl wb_push b0 bufs) (concat bufs)"
    using wb_holds_pushes [of b0 "[]" bufs] by simp
  then obtain b1 where b1: "wb_init (Some (wb_close (foldl wb_push b0 bufs))) = Inr b1" "wb_holds b1 (concat bufs)"
    using wb_init_some [of _ "concat bufs"] assms(2) by force
  then have "wb_holds (foldl wb_push b1 bufs') (concat bufs @ concat bufs')"
    using wb_holds_pushes by blast
  then show ?thesis using b1 rb_init_close assms(2) by blast
qed

theorem wb_reopen_appends_witness:
  "\<exists>b0 b1 rb. wb_init None = Inr b0 \<and>
     wb_init (Some (wb_close (foldl wb_push b0 [replicate 124 9]))) = Inr b1 \<and>
     rb_init (wb_close (foldl wb_push b1 [[3, 4]])) = Inr rb \<and>
     rb_ok rb (replicate 124 9 @ [3, 4])"
proof -
  obtain b0 where b0: "wb_init None = Inr b0" using wb_init_holds by blast
  from wb_reopen_appends [OF b0, of "[replicate 124 9]" "[[3, 4]]"] b0 show ?thesis by simp
qed

end
