(* ===== verification/Lua_Values.thy ===== *)
theory Lua_Values
  imports Prelude
begin

text \<open>
  Lua values (\<open>lobject.h\<close>), the number conversions the core applies to them (\<open>lvm.c\<close>), raw
  equality and string hashing (\<open>lvm.c\<close>, \<open>lstring.c\<close>).

  A \<open>lua_Number\<close> is an IEEE double.  It is kept as its 64-bit pattern, and the operations the
  core applies to it here (the test for an integral value, floor, conversion to an integer,
  equality, the scaling by \<open>frexp\<close> in the hash) are computed exactly on sign, exponent and
  mantissa.
\<close>

section \<open>Floats\<close>

definition flt_exp :: "u64 \<Rightarrow> nat" where
  "flt_exp b = unat (drop_bit 52 b AND 0x7FF)"

definition flt_frac :: "u64 \<Rightarrow> nat" where
  "flt_frac b = unat (b AND 0xFFFFFFFFFFFFF)"

definition flt_neg :: "u64 \<Rightarrow> bool" where
  "flt_neg b \<longleftrightarrow> bit b 63"

definition flt_finite :: "u64 \<Rightarrow> bool" where
  "flt_finite b \<longleftrightarrow> flt_exp b \<noteq> 2047"

definition flt_isnan :: "u64 \<Rightarrow> bool" where
  "flt_isnan b \<longleftrightarrow> flt_exp b = 2047 \<and> flt_frac b \<noteq> 0"

text \<open>A finite double is \<open>flt_mant b * 2 ^ flt_pow b\<close>; the mantissa carries the sign.\<close>

definition flt_mag :: "u64 \<Rightarrow> nat" where
  "flt_mag b = (if flt_exp b = 0 then flt_frac b else 2 ^ 52 + flt_frac b)"

definition flt_mant :: "u64 \<Rightarrow> int" where
  "flt_mant b = (if flt_neg b then - int (flt_mag b) else int (flt_mag b))"

definition flt_pow :: "u64 \<Rightarrow> int" where
  "flt_pow b = int (max 1 (flt_exp b)) - 1075"

definition flt_floor :: "u64 \<Rightarrow> int" where
  "flt_floor b = (if 0 \<le> flt_pow b then flt_mant b * 2 ^ nat (flt_pow b)
                  else flt_mant b div 2 ^ nat (- flt_pow b))"

definition flt_integral :: "u64 \<Rightarrow> bool" where
  "flt_integral b \<longleftrightarrow> 0 \<le> flt_pow b \<or> flt_mant b mod 2 ^ nat (- flt_pow b) = 0"

text \<open>\<open>luai_numeq\<close>: IEEE equality; two zeros are equal, a NaN equals nothing.\<close>

definition flt_eq :: "u64 \<Rightarrow> u64 \<Rightarrow> bool" where
  "flt_eq a b \<longleftrightarrow> \<not> flt_isnan a \<and> \<not> flt_isnan b \<and>
     (a = b \<or> (flt_finite a \<and> flt_finite b \<and> flt_mag a = 0 \<and> flt_mag b = 0))"

text \<open>\<open>lua_numbertointeger\<close> on a number whose exact value is the integer \<open>f\<close>.\<close>

definition lua_numbertointeger :: "int \<Rightarrow> u64 option" where
  "lua_numbertointeger f = (if - (2 ^ 63) \<le> f \<and> f < 2 ^ 63 then Some (word_of_int f) else None)"

text \<open>The float branch of \<open>luaV_tointeger\<close>; infinities and NaN fail every range test.\<close>

definition flt_tointeger :: "u64 \<Rightarrow> nat \<Rightarrow> u64 option" where
  "flt_tointeger b mode =
     (if \<not> flt_finite b then None
      else if \<not> flt_integral b \<and> mode = 0 then None
      else lua_numbertointeger
             (if \<not> flt_integral b \<and> 1 < mode then flt_floor b + 1 else flt_floor b))"

section \<open>Values\<close>

text \<open>
  The variants of a tagged value.  Strings are their contents (two Lua strings are raw-equal
  exactly when their contents are); other collectable objects are their addresses.  \<open>LDead\<close>
  is the tag the collector gives to the key of a dead entry, which keeps the old pointer.
\<close>

datatype tvalue =
    LNil
  | LBool bool
  | LInt u64            \<comment> \<open>\<open>LUA_TNUMINT\<close>\<close>
  | LFlt u64            \<comment> \<open>\<open>LUA_TNUMFLT\<close>\<close>
  | LStr string         \<comment> \<open>\<open>LUA_TSHRSTR\<close> or \<open>LUA_TLNGSTR\<close>, by length\<close>
  | LLight u64          \<comment> \<open>\<open>LUA_TLIGHTUSERDATA\<close>\<close>
  | LLcf u64            \<comment> \<open>\<open>LUA_TLCF\<close>\<close>
  | LTab u64
  | LLcl u64
  | LCcl u64
  | LUdata u64
  | LThread u64
  | LDead tvalue        \<comment> \<open>\<open>LUA_TDEADKEY\<close>\<close>

fun iscollectable :: "tvalue \<Rightarrow> bool" where
  "iscollectable (LStr _) = True"
| "iscollectable (LTab _) = True"
| "iscollectable (LLcl _) = True"
| "iscollectable (LCcl _) = True"
| "iscollectable (LUdata _) = True"
| "iscollectable (LThread _) = True"
| "iscollectable _ = False"

fun l_isfalse :: "tvalue \<Rightarrow> bool" where
  "l_isfalse LNil = True"
| "l_isfalse (LBool b) = (\<not> b)"
| "l_isfalse _ = False"

text \<open>The macro \<open>tointeger\<close> on a number (mode \<open>LUA_FLOORN2I\<close> is 0).\<close>

fun num_tointeger :: "tvalue \<Rightarrow> u64 option" where
  "num_tointeger (LInt i) = Some i"
| "num_tointeger (LFlt f) = flt_tointeger f 0"
| "num_tointeger _ = None"

text \<open>
  \<open>luaV_rawequalobj\<close>, that is \<open>luaV_equalobj (NULL, t1, t2)\<close>: values of different variants are
  equal only when both are numbers with the same integral value.
\<close>

fun luaV_rawequalobj :: "tvalue \<Rightarrow> tvalue \<Rightarrow> bool" where
  "luaV_rawequalobj (LFlt a) (LFlt b) = flt_eq a b"
| "luaV_rawequalobj (LInt a) (LFlt b) =
     (case num_tointeger (LFlt b) of None \<Rightarrow> False | Some i \<Rightarrow> a = i)"
| "luaV_rawequalobj (LFlt a) (LInt b) =
     (case num_tointeger (LFlt a) of None \<Rightarrow> False | Some i \<Rightarrow> i = b)"
| "luaV_rawequalobj v w = (v = w)"

section \<open>String hash\<close>

text \<open>\<open>luaS_hash\<close>: at most about 32 bytes, stepping down from the end, enter the hash.\<close>

fun luaS_hash_loop :: "string \<Rightarrow> nat \<Rightarrow> nat \<Rightarrow> u32 \<Rightarrow> u32" where
  "luaS_hash_loop str step l1 h =
     (if step \<le> l1 \<and> 0 < step
      then luaS_hash_loop str step (l1 - step)
             (h XOR (push_bit 5 h + drop_bit 2 h + of_char (str ! (l1 - 1))))
      else h)"

declare luaS_hash_loop.simps [simp del]

definition luaS_hash :: "string \<Rightarrow> u32 \<Rightarrow> u32" where
  "luaS_hash str seed =
     (let l = length str; step = l div 2 ^ 5 + 1
      in luaS_hash_loop str step l (seed XOR of_nat l))"

section \<open>Keys\<close>

text \<open>
  The form a key has inside a table: a float with an integral value has become an integer,
  and nil, NaN and dead keys do not occur.  On such keys raw equality is equality.
\<close>

fun canonical :: "tvalue \<Rightarrow> bool" where
  "canonical LNil = False"
| "canonical (LFlt f) = (\<not> flt_isnan f \<and> flt_tointeger f 0 = None)"
| "canonical (LDead _) = False"
| "canonical _ = True"

lemma flt_mag_zero:
  assumes "flt_finite f" and "flt_mag f = 0"
  shows "flt_tointeger f 0 = Some 0"
proof -
  have "flt_mant f = 0" using assms by (simp add: flt_mant_def)
  then show ?thesis using assms
    by (simp add: flt_tointeger_def flt_integral_def flt_floor_def lua_numbertointeger_def)
qed

lemma rawequal_canonical:
  assumes "canonical k" and "canonical k'"
  shows "luaV_rawequalobj k k' \<longleftrightarrow> k = k'"
  using assms by (induction k k' rule: luaV_rawequalobj.induct) (auto simp: flt_eq_def flt_mag_zero)

text \<open>What a node of a table can hold as its key.\<close>

definition stored_key :: "tvalue \<Rightarrow> bool" where
  "stored_key k \<longleftrightarrow> k = LNil \<or> canonical k \<or> (\<exists>d. k = LDead d)"

lemma rawequal_stored:
  assumes "stored_key k" and "canonical k'"
  shows "luaV_rawequalobj k k' \<longleftrightarrow> k = k'"
proof -
  consider "k = LNil" | "canonical k" | d where "k = LDead d" using assms(1) by (auto simp: stored_key_def)
  then show ?thesis
  proof cases
    case 1
    then show ?thesis using assms(2) by (cases k') auto
  next
    case 2
    then show ?thesis using assms(2) by (rule rawequal_canonical)
  next
    case 3
    then show ?thesis using assms(2) by (cases k') auto
  qed
qed

end
