(* ===== verification/Lua_Object.thy ===== *)
theory Lua_Object
  imports Prelude
begin

text \<open>
  The arithmetic helpers of \<open>lobject.c\<close>: the "floating point byte" that encodes the size
  hints of \<open>OP_NEWTABLE\<close>, and the integer logarithm that sizes the hash part of a table.
\<close>

section \<open>Floating point bytes\<close>

text \<open>
  \<open>luaO_int2fb\<close>: the coarse and the fine loop over (\<open>x\<close>, \<open>e\<close>).  The additions are those of
  \<open>unsigned int\<close>; they do not wrap for \<open>x \<le> 0xFFFFFFF0\<close>.
\<close>

fun int2fb_coarse :: "nat \<Rightarrow> nat \<Rightarrow> nat \<times> nat" where
  "int2fb_coarse x e = (if 8 * 16 \<le> x then int2fb_coarse (((x + 15) mod 2 ^ 32) div 16) (e + 4) else (x, e))"

fun int2fb_fine :: "nat \<Rightarrow> nat \<Rightarrow> nat \<times> nat" where
  "int2fb_fine x e = (if 8 * 2 \<le> x then int2fb_fine (((x + 1) mod 2 ^ 32) div 2) (e + 1) else (x, e))"

declare int2fb_coarse.simps [simp del] int2fb_fine.simps [simp del]

definition luaO_int2fb :: "nat \<Rightarrow> nat" where
  "luaO_int2fb x =
     (if x < 8 then x
      else let (x, e) = int2fb_coarse x 0; (x, e) = int2fb_fine x e
           in (e + 1) * 8 OR (x - 8))"

definition luaO_fb2int :: "nat \<Rightarrow> nat" where
  "luaO_fb2int x =
     (let e = x div 8 AND 0x1f
      in if e = 0 then x else ((x AND 7) + 8) * 2 ^ (e - 1))"

section \<open>Logarithm\<close>

text \<open>The lookup table, and the loop that drops a byte at a time; \<open>x--\<close> is unsigned.\<close>

definition log_2 :: "nat list" where
  "log_2 = [0, 1, 2, 2] @ replicate 4 3 @ replicate 8 4 @ replicate 16 5 @ replicate 32 6 @
           replicate 64 7 @ replicate 128 8"

fun ceillog2_loop :: "nat \<Rightarrow> nat \<Rightarrow> nat" where
  "ceillog2_loop l x = (if 256 \<le> x then ceillog2_loop (l + 8) (x div 2 ^ 8) else l + log_2 ! x)"

declare ceillog2_loop.simps [simp del]

definition luaO_ceillog2 :: "nat \<Rightarrow> nat" where
  "luaO_ceillog2 x = ceillog2_loop 0 ((x + (2 ^ 32 - 1)) mod 2 ^ 32)"

lemma log_2_bitlen: "x < 256 \<Longrightarrow> log_2 ! x = bitlen x"
proof -
  assume x: "x < 256"
  have len: "bitlen x = k" if "2 ^ (k - 1) \<le> x" "x < 2 ^ k" "0 < k" for k
  proof -
    have "bitlen x \<le> k" "\<not> bitlen x \<le> k - 1" using that by (simp_all add: bitlen_le_iff)
    then show ?thesis by simp
  qed
  consider "x = 0" | "x = 1" | "2 \<le> x \<and> x < 4" | "4 \<le> x \<and> x < 8" | "8 \<le> x \<and> x < 16" | "16 \<le> x \<and> x < 32"
    | "32 \<le> x \<and> x < 64" | "64 \<le> x \<and> x < 128" | "128 \<le> x \<and> x < 256" using x by linarith
  then show "log_2 ! x = bitlen x"
    by cases (use len [of 1] len [of 2] len [of 3] len [of 4] len [of 5] len [of 6] len [of 7] len [of 8] in
        \<open>auto simp: log_2_def nth_append nth_Cons' bitlen_le_iff\<close>)
qed

lemma ceillog2_loop_eq: "ceillog2_loop l x = l + bitlen x"
proof (induction l x rule: ceillog2_loop.induct)
  case (1 l x)
  show ?case
  proof (cases "256 \<le> x")
    case True
    then have "\<not> bitlen x \<le> 8" by (simp add: bitlen_le_iff)
    then show ?thesis using True 1 bitlen_shift [of x 8] by (simp add: ceillog2_loop.simps [of l x])
  next
    case False
    then show ?thesis by (simp add: ceillog2_loop.simps [of l x] log_2_bitlen)
  qed
qed

lemma luaO_ceillog2_bitlen:
  assumes "0 < x" and "x \<le> 2 ^ 32"
  shows "luaO_ceillog2 x = bitlen (x - 1)"
proof -
  have "x + (2 ^ 32 - 1) = (x - 1) + 2 ^ 32" using assms by simp
  then have "(x + (2 ^ 32 - 1)) mod 2 ^ 32 = x - 1" using assms by (metis Suc_pred' less_eq_Suc_le mod_add_self2 mod_less)
  then show ?thesis unfolding luaO_ceillog2_def by (simp add: ceillog2_loop_eq)
qed

lemma luaO_ceillog2_le_iff:
  "0 < x \<Longrightarrow> x \<le> 2 ^ 32 \<Longrightarrow> luaO_ceillog2 x \<le> k \<longleftrightarrow> x \<le> 2 ^ k"
  by (auto simp: luaO_ceillog2_bitlen bitlen_le_iff)

section \<open>What the helpers compute\<close>

text \<open>
  \<open>scaled X x e\<close>: \<open>x\<close> is \<open>X / 2 ^ e\<close> rounded up.  Rounding up in several steps is rounding up
  once.
\<close>

definition scaled :: "nat \<Rightarrow> nat \<Rightarrow> nat \<Rightarrow> bool" where
  "scaled X x e \<longleftrightarrow> X \<le> x * 2 ^ e \<and> (x - 1) * 2 ^ e < X \<and> 8 \<le> x"

lemma scaled_step:
  assumes s: "scaled X x e" and big: "8 * 2 ^ k \<le> x"
  shows "scaled X ((x + (2 ^ k - 1)) div 2 ^ k) (e + k)"
proof -
  let ?y = "(x + (2 ^ k - 1)) div 2 ^ k"
  have lo: "x \<le> ?y * 2 ^ k"
    using div_mult_mod_eq [of "x + (2 ^ k - 1)" "2 ^ k"] mod_less_divisor [of "2 ^ k" "x + (2 ^ k - 1)"]
    by (simp add: less_eq_Suc_le)
  have "?y * 2 ^ k \<le> x + (2 ^ k - 1)" by (metis div_times_less_eq_dividend)
  moreover have "0 < (2::nat) ^ k" by simp
  ultimately have hi: "(?y - 1) * 2 ^ k \<le> x - 1" unfolding diff_mult_distrib mult_1 by linarith
  have pow: "y * 2 ^ (e + k) = y * 2 ^ k * 2 ^ e" for y :: nat by (simp add: power_add)
  have s': "X \<le> x * 2 ^ e" "(x - 1) * 2 ^ e < X" using s by (simp_all add: scaled_def)
  have "X \<le> ?y * 2 ^ (e + k)" unfolding pow using s'(1) mult_le_mono1 [OF lo] by (rule order_trans)
  moreover have "(?y - 1) * 2 ^ (e + k) < X" unfolding pow using mult_le_mono1 [OF hi] s'(2) by (rule le_less_trans)
  moreover have "8 \<le> ?y" using div_le_mono [of "8 * 2 ^ k" "x + (2 ^ k - 1)" "2 ^ k"] big by simp
  ultimately show ?thesis by (simp add: scaled_def)
qed

lemma coarse_scaled:
  "scaled X x e \<Longrightarrow> x + 15 < 2 ^ 32 \<Longrightarrow> int2fb_coarse x e = (x', e') \<Longrightarrow>
     scaled X x' e' \<and> x' < 8 * 16 \<and> x' \<le> x"
proof (induction x e rule: int2fb_coarse.induct)
  case (1 x e)
  show ?case
  proof (cases "8 * 16 \<le> x")
    case True
    have "scaled X ((x + 15) div 16) (e + 4)" using scaled_step [of X x e 4] "1.prems"(1) True by simp
    moreover have "int2fb_coarse ((x + 15) div 16) (e + 4) = (x', e')"
      using "1.prems"(2,3) True by (simp add: int2fb_coarse.simps [of x e])
    moreover have "(x + 15) div 16 + 15 < 2 ^ 32" "(x + 15) div 16 \<le> x" using "1.prems"(2) True by simp_all
    ultimately show ?thesis using "1.IH" True "1.prems"(2) by simp
  next
    case False
    then show ?thesis using "1.prems" by (simp add: int2fb_coarse.simps [of x e])
  qed
qed

lemma fine_scaled:
  "scaled X x e \<Longrightarrow> x + 1 < 2 ^ 32 \<Longrightarrow> int2fb_fine x e = (x', e') \<Longrightarrow> scaled X x' e' \<and> x' < 16"
proof (induction x e rule: int2fb_fine.induct)
  case (1 x e)
  show ?case
  proof (cases "8 * 2 \<le> x")
    case True
    have "scaled X ((x + 1) div 2) (e + 1)" using scaled_step [of X x e 1] "1.prems"(1) True by simp
    moreover have "int2fb_fine ((x + 1) div 2) (e + 1) = (x', e')"
      using "1.prems"(2,3) True by (simp add: int2fb_fine.simps [of x e])
    ultimately show ?thesis using "1.IH" True "1.prems"(2) by simp
  next
    case False
    then show ?thesis using "1.prems" by (simp add: int2fb_fine.simps [of x e])
  qed
qed

lemma fb2int_pack:
  assumes "8 \<le> m" and "m < 16" and "e < 31"
  shows "luaO_fb2int ((e + 1) * 8 OR (m - 8)) = m * 2 ^ e"
proof -
  have "m - 8 < 2 ^ 3" using assms by simp
  then have "(e + 1) * 8 OR (m - 8) = (e + 1) * 8 + (m - 8)" using or_shifted [of "m - 8" 3 "e + 1"] by simp
  moreover obtain r where r: "m = 8 + r" "r < 8" using assms(1,2) by (metis add_less_cancel_left le_Suc_ex numeral_Bit0)
  then have "((e + 1) * 8 + (m - 8)) div 8 = e + 1" "((e + 1) * 8 + (m - 8)) mod 8 = m - 8"
    by (simp_all only: add_diff_cancel_left' mod_mult_self3 mod_less div_mult_self3)
  moreover have "x AND 0x1f = x mod 32" "x AND 7 = x mod 8" for x :: nat
    using take_bit_eq_mask [of 5 x] take_bit_eq_mask [of 3 x]
    by (simp_all add: mask_eq_exp_minus_1 take_bit_eq_mod)
  ultimately show ?thesis using assms by (simp add: luaO_fb2int_def Let_def)
qed

lemma int2fb_large:
  assumes "8 \<le> x" and "x \<le> 2 ^ 31"
  shows "\<exists>m e. luaO_int2fb x = (e + 1) * 8 OR (m - 8) \<and> scaled x m e \<and> m < 16 \<and> e < 31"
proof -
  obtain x1 e1 where c: "int2fb_coarse x 0 = (x1, e1)" by fastforce
  obtain m e where f: "int2fb_fine x1 e1 = (m, e)" by fastforce
  have "scaled x x 0" using assms by (simp add: scaled_def)
  then have c': "scaled x x1 e1" "x1 \<le> x" using coarse_scaled [OF _ _ c] assms by simp_all
  then have s: "scaled x m e" "m < 16" using fine_scaled [OF _ _ f] assms by simp_all
  have "e < 31"
  proof (rule ccontr)
    assume "\<not> e < 31"
    moreover have "8 \<le> m" using s(1) by (simp add: scaled_def)
    ultimately have "7 * 2 ^ 31 \<le> (m - 1) * 2 ^ e"
      by (intro mult_le_mono power_increasing) simp_all
    then show False using s(1) assms(2) by (simp add: scaled_def)
  qed
  then show ?thesis using s c f assms(1) by (auto simp: luaO_int2fb_def)
qed

text \<open>
  Size hints are never too small and at most a seventh too large: decoding the floating point
  byte of \<open>x\<close> gives some \<open>v \<ge> x\<close> with \<open>7 v < 8 x\<close>, and \<open>x\<close> itself below 8 (and at 0).
\<close>

theorem fb2int_int2fb:
  assumes "x \<le> 2 ^ 31"
  shows "x \<le> luaO_fb2int (luaO_int2fb x) \<and>
    (if x < 8 then luaO_fb2int (luaO_int2fb x) = x else 7 * luaO_fb2int (luaO_int2fb x) < 8 * x)"
proof (cases "x < 8")
  case True
  then show ?thesis by (simp add: luaO_int2fb_def luaO_fb2int_def)
next
  case False
  then obtain m e where me: "luaO_int2fb x = (e + 1) * 8 OR (m - 8)" "scaled x m e" "m < 16" "e < 31"
    using int2fb_large assms by (metis not_less)
  then have v: "luaO_fb2int (luaO_int2fb x) = m * 2 ^ e" using fb2int_pack by (simp add: scaled_def)
  have "8 \<le> m" using me(2) by (simp add: scaled_def)
  then have "7 * m \<le> 8 * (m - 1)" by simp
  then have "7 * (m * 2 ^ e) \<le> 8 * ((m - 1) * 2 ^ e)" by (metis mult.assoc mult_le_mono1)
  also have "\<dots> < 8 * x" using me(2) by (simp add: scaled_def)
  finally show ?thesis using v me(2) False by (simp add: scaled_def)
qed

lemma fb2int_int2fb_witness: "(1000 :: nat) \<le> luaO_fb2int (luaO_int2fb 1000)"
  using fb2int_int2fb [of 1000] by simp

text \<open>
  The table-driven logarithm is the ceiling of the base-2 logarithm, over the whole range of
  \<open>unsigned int\<close>: \<open>luaO_ceillog2 (x)\<close> is the least \<open>k\<close> with \<open>x \<le> 2 ^ k\<close>.
\<close>

theorem ceillog2_least:
  assumes "0 < x" and "x \<le> 2 ^ 32"
  shows "x \<le> 2 ^ luaO_ceillog2 x \<and> (\<forall>k. x \<le> 2 ^ k \<longrightarrow> luaO_ceillog2 x \<le> k)"
  using luaO_ceillog2_le_iff [OF assms] by blast

lemma ceillog2_least_witness: "(5 :: nat) \<le> 2 ^ luaO_ceillog2 5"
  using ceillog2_least [of 5] by simp

end
