(* ===== verification/Lua_Table.thy ===== *)
theory Lua_Table
  imports Lua_Values Lua_Object
begin

text \<open>
  Lua tables, \<open>ltable.c\<close>: an array part and a hash part, the hash part a chained scatter table
  with Brent's variation.  This theory holds the code; \<open>Lua_Table_Inv\<close> and its successors
  hold the proofs.

  Pointers into the node vector are indices into the list \<open>t_node\<close>; a \<open>TValue *\<close> into a table
  is a \<open>slot\<close>, with \<open>luaO_nilobject\<close> as \<open>NilSlot\<close>.  The seed of the string hash
  (\<open>G(L)->seed\<close>) is the first argument of what needs it.  Allocation is assumed to succeed.
\<close>

section \<open>Types\<close>

record node =
  i_val :: tvalue
  i_key :: tvalue
  nx :: int            \<comment> \<open>\<open>next\<close>: the offset of the next node of the chain, 0 at its end\<close>

record table =
  t_flags :: byte
  t_metatable :: "u64 option"
  t_array :: "tvalue list"
  t_node :: "node list"
  t_lsizenode :: nat
  t_lastfree :: nat
  t_dummy :: bool      \<comment> \<open>\<open>isdummy(t->node)\<close>\<close>

datatype slot = NilSlot | ArrSlot nat | NodeSlot nat

abbreviation (input) MAXABITS :: nat where "MAXABITS \<equiv> 31"
abbreviation (input) MAXASIZE :: nat where "MAXASIZE \<equiv> 2 ^ 31"
abbreviation (input) MAXHBITS :: nat where "MAXHBITS \<equiv> 30"

abbreviation sizearray :: "table \<Rightarrow> nat" where "sizearray t \<equiv> length (t_array t)"

definition sizenode :: "table \<Rightarrow> nat" where "sizenode t = 2 ^ t_lsizenode t"

definition dummynode :: node where
  "dummynode = \<lparr>i_val = LNil, i_key = LNil, nx = 0\<rparr>"

definition slot_val :: "table \<Rightarrow> slot \<Rightarrow> tvalue" where
  "slot_val t s = (case s of NilSlot \<Rightarrow> LNil | ArrSlot i \<Rightarrow> t_array t ! i
                   | NodeSlot i \<Rightarrow> i_val (t_node t ! i))"

text \<open>\<open>setobj2t (L, cell, value)\<close>.\<close>

definition set_slot :: "table \<Rightarrow> slot \<Rightarrow> tvalue \<Rightarrow> table" where
  "set_slot t s v = (case s of
       NilSlot \<Rightarrow> t
     | ArrSlot i \<Rightarrow> t\<lparr>t_array := (t_array t)[i := v]\<rparr>
     | NodeSlot i \<Rightarrow> t\<lparr>t_node := (t_node t)[i := (t_node t ! i)\<lparr>i_val := v\<rparr>]\<rparr>)"

section \<open>Main positions\<close>

text \<open>
  \<open>frexp (n) * -(lua_Number)INT_MIN\<close> truncated to an integer, and the exponent: for
  \<open>n = m * 2 ^ p\<close> with \<open>m\<close> of \<open>l\<close> bits the fraction is \<open>m / 2 ^ l\<close> and the exponent \<open>p + l\<close>.
\<close>

definition frexp_scaled :: "u64 \<Rightarrow> int \<times> int" where
  "frexp_scaled b =
     (let m = flt_mag b; l = bitlen m; q = int (m * 2 ^ 31 div 2 ^ l)
      in if m = 0 then (0, 0) else (if flt_neg b then - q else q, flt_pow b + int l))"

definition l_hashfloat :: "u64 \<Rightarrow> nat" where
  "l_hashfloat b =
     (if \<not> flt_finite b then 0
      else let (ni, i) = frexp_scaled b; u = (word_of_int i :: u32) + word_of_int ni
           in if u \<le> 0x7FFFFFFF then unat u else unat (NOT u))"

definition hashpow2 :: "table \<Rightarrow> 'a::len word \<Rightarrow> nat" where
  "hashpow2 t n = unat (n AND of_nat (sizenode t - 1))"

text \<open>\<open>(sizenode(t) - 1) | 1\<close>: 1 for a single node, otherwise the (odd) size minus one.\<close>

definition hashmod :: "table \<Rightarrow> nat \<Rightarrow> nat" where
  "hashmod t n = n mod (sizenode t - 1 OR 1)"

definition point2uint :: "u64 \<Rightarrow> nat" where
  "point2uint p = unat (p AND 0xFFFFFFFF)"

definition hashpointer :: "table \<Rightarrow> u64 \<Rightarrow> nat" where
  "hashpointer t p = hashmod t (point2uint p)"

text \<open>
  \<open>mainposition\<close>.  Both kinds of strings hash by \<open>luaS_hash\<close> with the state's seed (a long
  string when it is first used as a key).  The code never asks for the main position of nil
  or of a dead key.
\<close>

fun mainposition :: "u32 \<Rightarrow> table \<Rightarrow> tvalue \<Rightarrow> nat" where
  "mainposition seed t (LInt i) = hashpow2 t i"
| "mainposition seed t (LFlt f) = hashmod t (l_hashfloat f)"
| "mainposition seed t (LStr s) = hashpow2 t (luaS_hash s seed)"
| "mainposition seed t (LBool b) = hashpow2 t (if b then 1 else 0 :: u32)"
| "mainposition seed t (LLight p) = hashpointer t p"
| "mainposition seed t (LLcf p) = hashpointer t p"
| "mainposition seed t (LTab p) = hashpointer t p"
| "mainposition seed t (LLcl p) = hashpointer t p"
| "mainposition seed t (LCcl p) = hashpointer t p"
| "mainposition seed t (LUdata p) = hashpointer t p"
| "mainposition seed t (LThread p) = hashpointer t p"
| "mainposition seed t _ = 0"

fun arrayindex :: "tvalue \<Rightarrow> nat" where
  "arrayindex (LInt k) = (if 0 < sint k \<and> unat k \<le> MAXASIZE then unat k else 0)"
| "arrayindex _ = 0"

section \<open>Searching a chain\<close>

text \<open>
  The loop every search is made of: look at node \<open>n\<close>, stop if \<open>P\<close> holds of it or if it is
  the last of its chain, otherwise go on at \<open>n + gnext(n)\<close>.  It ends on a table whose chains
  are not cyclic; the fuel is the number of nodes, and \<open>Lua_Table_Inv\<close> shows that it never
  runs out on a well-formed table.
\<close>

fun find_chain :: "nat \<Rightarrow> (node \<Rightarrow> bool) \<Rightarrow> node list \<Rightarrow> nat \<Rightarrow> nat option res" where
  "find_chain 0 P nd n = Inl NoReturn"
| "find_chain (Suc fuel) P nd n =
     (if length nd \<le> n then Inl (MemFault ''outside the node vector'')
      else if P (nd ! n) then Inr (Some n)
      else if nx (nd ! n) = 0 then Inr None
      else find_chain fuel P nd (nat (int n + nx (nd ! n))))"

definition search :: "table \<Rightarrow> (node \<Rightarrow> bool) \<Rightarrow> nat \<Rightarrow> nat option res" where
  "search t P n = find_chain (length (t_node t)) P (t_node t) n"

definition to_slot :: "nat option \<Rightarrow> slot" where
  "to_slot r = (case r of None \<Rightarrow> NilSlot | Some n \<Rightarrow> NodeSlot n)"

definition luaH_getint :: "table \<Rightarrow> u64 \<Rightarrow> slot res" where
  "luaH_getint t key =
     (if unat (key - 1) < sizearray t then Inr (ArrSlot (unat (key - 1)))
      else ebind (search t (\<lambda>n. i_key n = LInt key) (hashpow2 t key)) (\<lambda>r. Inr (to_slot r)))"

definition luaH_getstr :: "u32 \<Rightarrow> table \<Rightarrow> string \<Rightarrow> slot res" where
  "luaH_getstr seed t s =
     ebind (search t (\<lambda>n. i_key n = LStr s) (hashpow2 t (luaS_hash s seed))) (\<lambda>r. Inr (to_slot r))"

abbreviation (input) LUAI_MAXSHORTLEN :: nat where "LUAI_MAXSHORTLEN \<equiv> 40"

definition get_generic :: "u32 \<Rightarrow> table \<Rightarrow> tvalue \<Rightarrow> slot res" where
  "get_generic seed t key =
     ebind (search t (\<lambda>n. luaV_rawequalobj (i_key n) key) (mainposition seed t key))
       (\<lambda>r. Inr (to_slot r))"

fun luaH_get :: "u32 \<Rightarrow> table \<Rightarrow> tvalue \<Rightarrow> slot res" where
  "luaH_get seed t (LStr s) =
     (if length s \<le> LUAI_MAXSHORTLEN then luaH_getstr seed t s else get_generic seed t (LStr s))"
| "luaH_get seed t (LInt i) = luaH_getint t i"
| "luaH_get seed t LNil = Inr NilSlot"
| "luaH_get seed t (LFlt f) =
     (case flt_tointeger f 0 of
        Some k \<Rightarrow> luaH_getint t k
      | None \<Rightarrow> get_generic seed t (LFlt f))"
| "luaH_get seed t key = get_generic seed t key"

section \<open>Traversal\<close>

definition findindex :: "u32 \<Rightarrow> table \<Rightarrow> tvalue \<Rightarrow> nat res" where
  "findindex seed t key =
     (if key = LNil then Inr 0
      else let i = arrayindex key in
      if i \<noteq> 0 \<and> i \<le> sizearray t then Inr i
      else ebind (search t (\<lambda>n. luaV_rawequalobj (i_key n) key \<or>
                                (iscollectable key \<and> i_key n = LDead key))
                    (mainposition seed t key))
             (\<lambda>r. case r of
                Some n \<Rightarrow> Inr (n + 1 + sizearray t)
              | None \<Rightarrow> Inl (RunError ''invalid key to next'')))"

text \<open>The two scanning loops of \<open>luaH_next\<close>; the result is the pair put on the stack.\<close>

fun next_array :: "table \<Rightarrow> nat \<Rightarrow> nat \<Rightarrow> (tvalue \<times> tvalue) option" where
  "next_array t 0 i = None"
| "next_array t (Suc k) i =
     (if t_array t ! i \<noteq> LNil then Some (LInt (of_nat (i + 1)), t_array t ! i)
      else next_array t k (Suc i))"

fun next_node :: "node list \<Rightarrow> (tvalue \<times> tvalue) option" where
  "next_node [] = None"
| "next_node (n # ns) = (if i_val n \<noteq> LNil then Some (i_key n, i_val n) else next_node ns)"

definition luaH_next :: "u32 \<Rightarrow> table \<Rightarrow> tvalue \<Rightarrow> (tvalue \<times> tvalue) option res" where
  "luaH_next seed t key =
     ebind (findindex seed t key) (\<lambda>i.
       case next_array t (sizearray t - i) i of
         Some kv \<Rightarrow> Inr (Some kv)
       | None \<Rightarrow> Inr (next_node (drop (i - sizearray t) (t_node t))))"

text \<open>
  The loop \<open>while (lua_next (L, index) != 0)\<close> that clients make: \<open>f\<close> is its body, on the key
  and the value.  Its fuel is the number of rounds.
\<close>

fun next_loop ::
  "nat \<Rightarrow> u32 \<Rightarrow> table \<Rightarrow> (tvalue \<Rightarrow> tvalue \<Rightarrow> 's \<Rightarrow> 's res) \<Rightarrow> tvalue \<Rightarrow> 's \<Rightarrow> 's res" where
  "next_loop 0 seed t f key s = Inl NoReturn"
| "next_loop (Suc fuel) seed t f key s =
     ebind (luaH_next seed t key) (\<lambda>r. case r of
        None \<Rightarrow> Inr s
      | Some (k, v) \<Rightarrow> ebind (f k v s) (next_loop fuel seed t f k))"

section \<open>Sizes for a rehash\<close>

lemma half_pow_less: "2 ^ i div 2 < (2::nat) ^ Suc i div 2"
  by simp

text \<open>
  \<open>computesizes\<close>, as the pair of the returned size and the new \<open>*pna\<close>.  The loop variable
  \<open>twotoi\<close> is \<open>2 ^ i\<close> throughout.
\<close>

function computesizes_loop :: "nat list \<Rightarrow> nat \<Rightarrow> nat \<Rightarrow> nat \<Rightarrow> nat \<Rightarrow> nat \<Rightarrow> nat \<times> nat" where
  "computesizes_loop nums pna i a na optimal =
     (let twotoi = 2 ^ i in
      if twotoi div 2 < pna
      then if 0 < nums ! i
           then let a = a + nums ! i in
                if twotoi div 2 < a then computesizes_loop nums pna (Suc i) a a twotoi
                else computesizes_loop nums pna (Suc i) a na optimal
           else computesizes_loop nums pna (Suc i) a na optimal
      else (optimal, na))"
  by pat_completeness auto
termination
  by (relation "measure (\<lambda>(nums, pna, i, a, na, optimal). Suc pna - 2 ^ i div 2)")
    (auto intro!: diff_less_mono2 half_pow_less)

declare computesizes_loop.simps [simp del]

definition computesizes :: "nat list \<Rightarrow> nat \<Rightarrow> nat \<times> nat" where
  "computesizes nums pna = computesizes_loop nums pna 0 0 0 0"

definition countint :: "tvalue \<Rightarrow> nat list \<Rightarrow> nat \<times> nat list" where
  "countint key nums =
     (let k = arrayindex key in
      if k \<noteq> 0 then (1, nums[luaO_ceillog2 k := Suc (nums ! luaO_ceillog2 k)]) else (0, nums))"

text \<open>The inner loop of \<open>numusearray\<close>: count the non-nil elements at \<open>i .. lim\<close> (from 1).\<close>

definition count_slice :: "tvalue list \<Rightarrow> nat \<Rightarrow> nat \<Rightarrow> nat" where
  "count_slice arr i lim = length (filter (\<lambda>v. v \<noteq> LNil) (drop (i - 1) (take lim arr)))"

text \<open>The outer loop, at slice \<open>lg\<close> with \<open>k\<close> slices to go.\<close>

fun numusearray_loop ::
  "tvalue list \<Rightarrow> nat \<Rightarrow> nat \<Rightarrow> nat \<Rightarrow> nat \<Rightarrow> nat list \<Rightarrow> nat \<times> nat list" where
  "numusearray_loop arr 0 lg i ause nums = (ause, nums)"
| "numusearray_loop arr (Suc k) lg i ause nums =
     (let ttlg = 2 ^ lg; lim = (if length arr < ttlg then length arr else ttlg) in
      if length arr < ttlg \<and> lim < i then (ause, nums)
      else let lc = count_slice arr i lim in
           numusearray_loop arr k (Suc lg) (max i (Suc lim)) (ause + lc) (nums[lg := nums ! lg + lc]))"

definition numusearray :: "table \<Rightarrow> nat list \<Rightarrow> nat \<times> nat list" where
  "numusearray t nums = numusearray_loop (t_array t) (Suc MAXABITS) 0 1 0 nums"

text \<open>\<open>numusehash\<close> walks the nodes downwards; the result is (\<open>totaluse\<close>, \<open>ause\<close>, \<open>nums\<close>).\<close>

fun numusehash_loop :: "node list \<Rightarrow> nat \<Rightarrow> nat \<Rightarrow> nat list \<Rightarrow> nat \<times> nat \<times> nat list" where
  "numusehash_loop [] totaluse ause nums = (totaluse, ause, nums)"
| "numusehash_loop (n # ns) totaluse ause nums =
     (if i_val n \<noteq> LNil
      then let (c, nums) = countint (i_key n) nums
           in numusehash_loop ns (Suc totaluse) (ause + c) nums
      else numusehash_loop ns totaluse ause nums)"

definition numusehash :: "table \<Rightarrow> nat list \<Rightarrow> nat \<times> nat \<times> nat list" where
  "numusehash t nums = numusehash_loop (rev (t_node t)) 0 0 nums"

section \<open>Resizing\<close>

definition setarrayvector :: "table \<Rightarrow> nat \<Rightarrow> table" where
  "setarrayvector t n =
     t\<lparr>t_array := take n (t_array t) @ replicate (n - sizearray t) LNil\<rparr>"

definition setnodevector :: "table \<Rightarrow> nat \<Rightarrow> table res" where
  "setnodevector t n =
     (if n = 0
      then Inr (t\<lparr>t_node := [dummynode], t_dummy := True, t_lsizenode := 0, t_lastfree := 0\<rparr>)
      else let lsize = luaO_ceillog2 n in
           if MAXHBITS < lsize then Inl (RunError ''table overflow'')
           else Inr (t\<lparr>t_node := replicate (2 ^ lsize) dummynode, t_dummy := False,
                       t_lsizenode := lsize, t_lastfree := 2 ^ lsize\<rparr>))"

text \<open>
  \<open>luaH_set\<close>, \<open>luaH_setint\<close>, \<open>luaH_resize\<close>, \<open>rehash\<close> and \<open>luaH_newkey\<close> are mutually recursive:
  a new key may rehash the table, which reinserts the old keys as new keys.  They take the
  function to call for \<open>luaH_newkey\<close> as an argument \<open>newkey\<close>, and \<open>luaH_newkey\<close> ties the knot.
\<close>

type_synonym newkey = "table \<Rightarrow> tvalue \<Rightarrow> (table \<times> slot) res"

definition luaH_set_with :: "newkey \<Rightarrow> u32 \<Rightarrow> table \<Rightarrow> tvalue \<Rightarrow> (table \<times> slot) res" where
  "luaH_set_with newkey seed t key =
     ebind (luaH_get seed t key) (\<lambda>p. if p \<noteq> NilSlot then Inr (t, p) else newkey t key)"

definition luaH_setint_with :: "newkey \<Rightarrow> table \<Rightarrow> u64 \<Rightarrow> tvalue \<Rightarrow> table res" where
  "luaH_setint_with newkey t key value =
     ebind (luaH_getint t key) (\<lambda>p.
     ebind (if p \<noteq> NilSlot then Inr (t, p) else newkey t (LInt key)) (\<lambda>(t, cell).
     Inr (set_slot t cell value)))"

text \<open>
  \<open>luaH_resize\<close>.  The vanishing slice is read from the old array, which the loop does not
  write (the keys it inserts are beyond the new array size).
\<close>

definition reinsert_array :: "newkey \<Rightarrow> nat \<times> tvalue \<Rightarrow> table \<Rightarrow> table res" where
  "reinsert_array newkey = (\<lambda>(i, v) t.
     if v \<noteq> LNil then luaH_setint_with newkey t (of_nat (i + 1)) v else Inr t)"

definition reinsert_node :: "newkey \<Rightarrow> u32 \<Rightarrow> node \<Rightarrow> table \<Rightarrow> table res" where
  "reinsert_node newkey seed old t =
     (if i_val old \<noteq> LNil
      then ebind (luaH_set_with newkey seed t (i_key old)) (\<lambda>(t, cell).
           Inr (set_slot t cell (i_val old)))
      else Inr t)"

definition luaH_resize_with :: "newkey \<Rightarrow> u32 \<Rightarrow> table \<Rightarrow> nat \<Rightarrow> nat \<Rightarrow> table res" where
  "luaH_resize_with newkey seed t nasize nhsize =
     (let oldasize = sizearray t; nold = t_node t; oldarr = t_array t;
          t = (if oldasize < nasize then setarrayvector t nasize else t) in
      ebind (setnodevector t nhsize) (\<lambda>t.
      ebind (if nasize < oldasize
             then efold (reinsert_array newkey)
                    (zip [nasize..<oldasize] (drop nasize oldarr))
                    (t\<lparr>t_array := take nasize (t_array t)\<rparr>)
             else Inr t) (\<lambda>t.
      efold (reinsert_node newkey seed) (rev nold) t)))"

definition rehash_with :: "newkey \<Rightarrow> u32 \<Rightarrow> table \<Rightarrow> tvalue \<Rightarrow> table res" where
  "rehash_with newkey seed t ek =
     (let nums = replicate (MAXABITS + 1) 0;
          (na, nums) = numusearray t nums;
          (tu, ause, nums) = numusehash t nums;
          (c, nums) = countint ek nums;
          totaluse = Suc (na + tu);
          (asize, na) = computesizes nums (na + ause + c)
      in luaH_resize_with newkey seed t asize (totaluse - na))"

section \<open>Inserting a new key\<close>

text \<open>\<open>getfreepos\<close>: move \<open>lastfree\<close> down to a node whose key is nil.\<close>

fun getfreepos_loop :: "node list \<Rightarrow> nat \<Rightarrow> nat option \<times> nat" where
  "getfreepos_loop nd 0 = (None, 0)"
| "getfreepos_loop nd (Suc k) =
     (if i_key (nd ! k) = LNil then (Some k, k) else getfreepos_loop nd k)"

definition getfreepos :: "table \<Rightarrow> nat option \<times> table" where
  "getfreepos t = (let (f, k) = getfreepos_loop (t_node t) (t_lastfree t)
                   in (f, t\<lparr>t_lastfree := k\<rparr>))"

text \<open>The key as it is stored: an integral float becomes an integer.\<close>

definition newkey_key :: "tvalue \<Rightarrow> tvalue res" where
  "newkey_key key =
     (case key of
        LNil \<Rightarrow> Inl (RunError ''table index is nil'')
      | LFlt f \<Rightarrow>
          (case flt_tointeger f 0 of
             Some k \<Rightarrow> Inr (LInt k)
           | None \<Rightarrow> if flt_isnan f then Inl (RunError ''table index is NaN'') else Inr key)
      | _ \<Rightarrow> Inr key)"

text \<open>The loop that looks for the node before \<open>mp\<close> in the chain from \<open>othern\<close>.\<close>

fun find_prev :: "nat \<Rightarrow> node list \<Rightarrow> nat \<Rightarrow> nat \<Rightarrow> nat res" where
  "find_prev 0 nd mp othern = Inl NoReturn"
| "find_prev (Suc fuel) nd mp othern =
     (if length nd \<le> othern then Inl (MemFault ''outside the node vector'')
      else if int othern + nx (nd ! othern) = int mp then Inr othern
      else find_prev fuel nd mp (nat (int othern + nx (nd ! othern))))"

text \<open>The colliding node at \<open>mp\<close> moves to the free node \<open>f\<close>; \<open>prev\<close> is the node before it.\<close>

definition move_node :: "node list \<Rightarrow> nat \<Rightarrow> nat \<Rightarrow> nat \<Rightarrow> node list" where
  "move_node nd prev mp f =
     (let nd = nd[prev := (nd ! prev)\<lparr>nx := int f - int prev\<rparr>];
          nd = nd[f := nd ! mp];
          nd = (if nx (nd ! mp) \<noteq> 0
                then nd[f := (nd ! f)\<lparr>nx := nx (nd ! f) + (int mp - int f)\<rparr>,
                        mp := (nd ! mp)\<lparr>nx := 0\<rparr>]
                else nd)
      in nd[mp := (nd ! mp)\<lparr>i_val := LNil\<rparr>])"

text \<open>The free node \<open>f\<close> is linked after \<open>mp\<close>.\<close>

definition link_node :: "node list \<Rightarrow> nat \<Rightarrow> nat \<Rightarrow> node list" where
  "link_node nd mp f =
     (let nd = (if nx (nd ! mp) \<noteq> 0
                then nd[f := (nd ! f)\<lparr>nx := int mp + nx (nd ! mp) - int f\<rparr>] else nd)
      in nd[mp := (nd ! mp)\<lparr>nx := int f - int mp\<rparr>])"

definition set_key :: "table \<Rightarrow> nat \<Rightarrow> tvalue \<Rightarrow> table \<times> slot" where
  "set_key t mp key = (t\<lparr>t_node := (t_node t)[mp := (t_node t ! mp)\<lparr>i_key := key\<rparr>]\<rparr>, NodeSlot mp)"

definition newkey_step :: "newkey \<Rightarrow> u32 \<Rightarrow> table \<Rightarrow> tvalue \<Rightarrow> (table \<times> slot) res" where
  "newkey_step newkey seed t key0 =
     ebind (newkey_key key0) (\<lambda>key.
     let mp = mainposition seed t key in
     if i_val (t_node t ! mp) \<noteq> LNil \<or> t_dummy t then
       (case getfreepos t of
          (None, t) \<Rightarrow>
            ebind (rehash_with newkey seed t key) (\<lambda>t. luaH_set_with newkey seed t key)
        | (Some f, t) \<Rightarrow>
            let othern = mainposition seed t (i_key (t_node t ! mp)) in
            if othern \<noteq> mp
            then ebind (find_prev (length (t_node t)) (t_node t) mp othern) (\<lambda>prev.
                 Inr (set_key (t\<lparr>t_node := move_node (t_node t) prev mp f\<rparr>) mp key))
            else Inr (set_key (t\<lparr>t_node := link_node (t_node t) mp f\<rparr>) f key))
     else Inr (set_key t mp key))"

text \<open>
  The recursion through \<open>rehash\<close>, with its depth as fuel.  Depth 2 is enough on every
  well-formed table: a rehash makes room for all keys it reinserts and for the new one.
\<close>

fun luaH_newkey_rec :: "nat \<Rightarrow> u32 \<Rightarrow> newkey" where
  "luaH_newkey_rec 0 seed t key = Inl NoReturn"
| "luaH_newkey_rec (Suc d) seed t key = newkey_step (luaH_newkey_rec d seed) seed t key"

definition luaH_newkey :: "u32 \<Rightarrow> newkey" where
  "luaH_newkey seed = luaH_newkey_rec 2 seed"

definition luaH_set :: "u32 \<Rightarrow> table \<Rightarrow> tvalue \<Rightarrow> (table \<times> slot) res" where
  "luaH_set seed = luaH_set_with (luaH_newkey seed) seed"

definition luaH_setint :: "u32 \<Rightarrow> table \<Rightarrow> u64 \<Rightarrow> tvalue \<Rightarrow> table res" where
  "luaH_setint seed = luaH_setint_with (luaH_newkey seed)"

definition luaH_resize :: "u32 \<Rightarrow> table \<Rightarrow> nat \<Rightarrow> nat \<Rightarrow> table res" where
  "luaH_resize seed = luaH_resize_with (luaH_newkey seed) seed"

definition luaH_resizearray :: "u32 \<Rightarrow> table \<Rightarrow> nat \<Rightarrow> table res" where
  "luaH_resizearray seed t nasize =
     luaH_resize seed t nasize (if t_dummy t then 0 else sizenode t)"

definition luaH_new :: table where
  "luaH_new = \<lparr>t_flags = NOT 0, t_metatable = None, t_array = [], t_node = [dummynode],
              t_lsizenode = 0, t_lastfree = 0, t_dummy = True\<rparr>"

definition rehash :: "u32 \<Rightarrow> table \<Rightarrow> tvalue \<Rightarrow> table res" where
  "rehash seed = rehash_with (luaH_newkey seed) seed"

section \<open>Raw access\<close>

text \<open>
  What \<open>lua_rawget\<close>, \<open>lua_rawgeti\<close>, \<open>lua_rawset\<close> and \<open>lua_rawseti\<close> of \<open>lapi.c\<close> do to the
  table they find on the stack; \<open>lua_createtable\<close> makes one.
\<close>

definition rawget :: "u32 \<Rightarrow> table \<Rightarrow> tvalue \<Rightarrow> tvalue res" where
  "rawget seed t k = ebind (luaH_get seed t k) (\<lambda>s. Inr (slot_val t s))"

definition rawgeti :: "table \<Rightarrow> u64 \<Rightarrow> tvalue res" where
  "rawgeti t n = ebind (luaH_getint t n) (\<lambda>s. Inr (slot_val t s))"

definition rawset :: "u32 \<Rightarrow> table \<Rightarrow> tvalue \<Rightarrow> tvalue \<Rightarrow> table res" where
  "rawset seed t k v = ebind (luaH_set seed t k) (\<lambda>(t, s). Inr ((set_slot t s v)\<lparr>t_flags := 0\<rparr>))"

definition rawseti :: "u32 \<Rightarrow> table \<Rightarrow> u64 \<Rightarrow> tvalue \<Rightarrow> table res" where
  "rawseti seed t n v = luaH_setint seed t n v"

definition createtable :: "u32 \<Rightarrow> nat \<Rightarrow> nat \<Rightarrow> table res" where
  "createtable seed narray nrec =
     (if 0 < narray \<or> 0 < nrec then luaH_resize seed luaH_new narray nrec else Inr luaH_new)"

section \<open>The length operator\<close>

text \<open>The binary search of both loops, for a boundary between \<open>i\<close> and \<open>j\<close>.\<close>

function boundary_search :: "(nat \<Rightarrow> tvalue res) \<Rightarrow> nat \<Rightarrow> nat \<Rightarrow> nat res" where
  "boundary_search get i j =
     (if 1 < j - i
      then let m = (i + j) div 2 in
           ebind (get m) (\<lambda>v. if v = LNil then boundary_search get i m else boundary_search get m j)
      else Inr i)"
  by pat_completeness auto
termination by (relation "measure (\<lambda>(get, i, j). j - i)") auto

declare boundary_search.simps [simp del]

text \<open>
  \<open>unbound_search\<close>.  Its first loop doubles \<open>j\<close> until it passes half of \<open>MAX_INT\<close> (31 rounds at
  most); the linear search it then resorts to looks at consecutive present keys, of which there
  are at most \<open>sizearray + sizenode\<close>.
\<close>

fun linear_search :: "nat \<Rightarrow> (nat \<Rightarrow> tvalue res) \<Rightarrow> nat \<Rightarrow> nat res" where
  "linear_search 0 get i = Inl NoReturn"
| "linear_search (Suc fuel) get i =
     ebind (get i) (\<lambda>v. if v = LNil then Inr (i - 1) else linear_search fuel get (i + 1))"

abbreviation (input) MAX_INT :: nat where "MAX_INT \<equiv> 2 ^ 31 - 1"

fun doubling_search :: "nat \<Rightarrow> nat \<Rightarrow> (nat \<Rightarrow> tvalue res) \<Rightarrow> nat \<Rightarrow> nat \<Rightarrow> nat res" where
  "doubling_search 0 lin get i j = Inl NoReturn"
| "doubling_search (Suc fuel) lin get i j =
     ebind (get j) (\<lambda>v.
       if v = LNil then boundary_search get i j
       else if MAX_INT div 2 < j then linear_search lin get 1
       else doubling_search fuel lin get j (j * 2))"

definition getint_val :: "table \<Rightarrow> nat \<Rightarrow> tvalue res" where
  "getint_val t j = rawgeti t (of_nat j)"

definition unbound_search :: "table \<Rightarrow> nat \<Rightarrow> nat res" where
  "unbound_search t j =
     doubling_search 32 (Suc (sizearray t + sizenode t)) (getint_val t) j (j + 1)"

text \<open>The code returns the boundary as an \<open>int\<close>; it is below \<open>2 ^ 31\<close> for tables of less than \<open>2 ^ 30\<close> slots.\<close>

definition luaH_getn :: "table \<Rightarrow> nat res" where
  "luaH_getn t =
     (let j = sizearray t in
      if 0 < j \<and> t_array t ! (j - 1) = LNil
      then boundary_search (\<lambda>m. Inr (t_array t ! (m - 1))) 0 j
      else if t_dummy t then Inr j
      else unbound_search t j)"

end
