(* ===== verification/Lua_Table_Chain.thy ===== *)
theory Lua_Table_Chain
  imports Lua_Table
begin

text \<open>
  The node chains of the hash part: what a search finds, that it ends, and how the two ways of
  inserting a colliding node (\<open>link_node\<close>, \<open>move_node\<close>) change what is reachable.
\<close>

section \<open>Chains\<close>

definition node_succ :: "node list \<Rightarrow> nat \<Rightarrow> nat \<Rightarrow> bool" where
  "node_succ nd i j \<longleftrightarrow> i < length nd \<and> nx (nd ! i) \<noteq> 0 \<and> int j = int i + nx (nd ! i)"

definition reach :: "node list \<Rightarrow> nat \<Rightarrow> nat \<Rightarrow> bool" where
  "reach nd = (node_succ nd)\<^sup>*\<^sup>*"

text \<open>
  Well-formed links: they stay inside the vector, no two nodes have the same successor, and
  some ranking decreases along every link (so there are no cycles).
\<close>

definition links_ok :: "node list \<Rightarrow> bool" where
  "links_ok nd \<longleftrightarrow>
     (\<forall>i < length nd. 0 \<le> int i + nx (nd ! i) \<and> int i + nx (nd ! i) < int (length nd)) \<and>
     (\<forall>i j k. node_succ nd i k \<and> node_succ nd j k \<longrightarrow> i = j) \<and>
     (\<exists>rank :: nat \<Rightarrow> nat. \<forall>i j. node_succ nd i j \<longrightarrow> rank j < rank i)"

lemma node_succ_unique: "node_succ nd i j \<Longrightarrow> node_succ nd i k \<Longrightarrow> j = k"
  by (simp add: node_succ_def)

lemma links_ok_bound:
  "links_ok nd \<Longrightarrow> node_succ nd i j \<Longrightarrow> j < length nd"
  unfolding links_ok_def node_succ_def by force

lemma reach_refl [simp, chain_intros]: "reach nd i i"
  by (simp add: reach_def)

lemma reach_step: "node_succ nd i j \<Longrightarrow> reach nd j k \<Longrightarrow> reach nd i k"
  by (simp add: reach_def converse_rtranclp_into_rtranclp)

lemma reach_trans: "reach nd i j \<Longrightarrow> reach nd j k \<Longrightarrow> reach nd i k"
  by (simp add: reach_def)

lemma reach_succ: "reach nd i j \<Longrightarrow> node_succ nd j k \<Longrightarrow> reach nd i k"
  by (simp add: reach_def)

lemma reach_end: "reach nd i j \<Longrightarrow> \<not> node_succ nd i k \<Longrightarrow> i = j \<or> (\<exists>k. node_succ nd i k)"
  by (auto simp: reach_def elim: converse_rtranclpE)

lemma reach_cases:
  assumes "reach nd i j"
  obtains "i = j" | k where "node_succ nd i k" and "reach nd k j"
  using assms unfolding reach_def by (auto elim: converse_rtranclpE)

lemma reach_length:
  assumes "reach nd i j" and "links_ok nd" and "i < length nd"
  shows "j < length nd"
  using assms(1) unfolding reach_def
  by (induction rule: rtranclp_induct) (use assms(2,3) links_ok_bound in blast)+

section \<open>The search ends and is right\<close>

text \<open>Fuel for node \<open>n\<close>: the nodes of rank at most that of \<open>n\<close>.\<close>

lemma rank_card_less:
  assumes "n < (l :: nat)" and "rank m < (rank n :: nat)"
  shows "card {j. j < l \<and> rank j \<le> rank m} < card {j. j < l \<and> rank j \<le> rank n}"
proof (rule psubset_card_mono)
  have "{j. j < l \<and> rank j \<le> rank m} \<subseteq> {j. j < l \<and> rank j \<le> rank n}" using assms by auto
  moreover have "n \<in> {j. j < l \<and> rank j \<le> rank n} - {j. j < l \<and> rank j \<le> rank m}" using assms by simp
  ultimately show "{j. j < l \<and> rank j \<le> rank m} \<subset> {j. j < l \<and> rank j \<le> rank n}" by blast
qed (rule finite_subset [of _ "{..<l}"]; auto)

lemma rank_card_pos: "n < (l :: nat) \<Longrightarrow> \<not> card {j. j < l \<and> rank j \<le> (rank n :: nat)} \<le> 0"
  using finite_subset [of "{j. j < l \<and> rank j \<le> rank n}" "{..<l}"] by (auto simp: card_gt_0_iff)

lemma rank_card_bound: "card {j. j < (l :: nat) \<and> rank j \<le> (r :: nat)} \<le> l"
  using card_mono [of "{..<l}" "{j. j < l \<and> rank j \<le> r}"] by auto

lemma find_chain_total:
  assumes ok: "links_ok nd" and rank: "\<forall>i j. node_succ nd i j \<longrightarrow> rank j < (rank i :: nat)"
  shows "n < length nd \<Longrightarrow> card {j. j < length nd \<and> rank j \<le> rank n} \<le> fuel \<Longrightarrow>
    (\<exists>i. find_chain fuel P nd n = Inr (Some i) \<and> reach nd n i \<and> P (nd ! i)) \<or>
    (find_chain fuel P nd n = Inr None \<and> (\<forall>i. reach nd n i \<longrightarrow> \<not> P (nd ! i)))"
proof (induction fuel arbitrary: n)
  case 0
  then show ?case using rank_card_pos [of n "length nd" rank] by blast
next
  case (Suc fuel)
  show ?case
  proof (cases "P (nd ! n) \<or> nx (nd ! n) = 0")
    case True
    moreover have "\<forall>i. reach nd n i \<longrightarrow> i = n" if "nx (nd ! n) = 0"
      using that by (metis node_succ_def reach_cases)
    ultimately show ?thesis using Suc.prems by (auto simp: not_less)
  next
    case False
    define m where "m = nat (int n + nx (nd ! n))"
    have succ: "node_succ nd n m"
      using ok False Suc.prems(1) by (auto simp: node_succ_def links_ok_def m_def)
    have m: "m < length nd" using links_ok_bound [OF ok succ] .
    have "rank m < rank n" using rank succ by blast
    then have "card {j. j < length nd \<and> rank j \<le> rank m} \<le> fuel"
      using rank_card_less [of n "length nd" rank m] Suc.prems(1) Suc.prems(2) by simp
    from Suc.IH [OF m this] have IH:
      "(\<exists>i. find_chain fuel P nd m = Inr (Some i) \<and> reach nd m i \<and> P (nd ! i)) \<or>
       (find_chain fuel P nd m = Inr None \<and> (\<forall>i. reach nd m i \<longrightarrow> \<not> P (nd ! i)))" .
    have "reach nd n i \<longleftrightarrow> i = n \<or> reach nd m i" for i
      using succ by (metis node_succ_unique reach_cases reach_refl reach_step)
    then show ?thesis using IH False Suc.prems(1) by (auto simp: m_def not_le)
  qed
qed

lemma search_cases:
  assumes "links_ok (t_node t)" and "n < length (t_node t)"
  obtains (found) i where "search t P n = Inr (Some i)" "reach (t_node t) n i" "P (t_node t ! i)"
    "i < length (t_node t)"
  | (absent) "search t P n = Inr None" "\<And>i. reach (t_node t) n i \<Longrightarrow> \<not> P (t_node t ! i)"
proof -
  obtain rank :: "nat \<Rightarrow> nat" where rank: "\<forall>i j. node_succ (t_node t) i j \<longrightarrow> rank j < rank i"
    using assms(1) by (auto simp: links_ok_def)
  from find_chain_total [OF assms(1) rank assms(2) rank_card_bound, of P]
  show ?thesis using found absent assms reach_length unfolding search_def by blast
qed

lemma search_Some:
  assumes ok: "links_ok (t_node t)" and n: "n < length (t_node t)"
    and "reach (t_node t) n i" and "P (t_node t ! i)"
    and uniq: "\<And>j. j < length (t_node t) \<Longrightarrow> P (t_node t ! j) \<Longrightarrow> j = i"
  shows "search t P n = Inr (Some i)"
  using ok n by (rule search_cases [where P = P]) (use assms(3,4) uniq in blast)+

lemma search_None:
  assumes "links_ok (t_node t)" and "n < length (t_node t)"
    and "\<And>j. j < length (t_node t) \<Longrightarrow> \<not> P (t_node t ! j)"
  shows "search t P n = Inr None"
  using assms(1,2) by (rule search_cases [where P = P]) (use assms(3) in blast)+

section \<open>Finding the predecessor\<close>

lemma find_prev_total:
  assumes ok: "links_ok nd" and rank: "\<forall>i j. node_succ nd i j \<longrightarrow> rank j < (rank i :: nat)"
  shows "n < length nd \<Longrightarrow> reach nd n mp \<Longrightarrow> n \<noteq> mp \<Longrightarrow>
    card {j. j < length nd \<and> rank j \<le> rank n} \<le> fuel \<Longrightarrow>
    \<exists>p. find_prev fuel nd mp n = Inr p \<and> node_succ nd p mp \<and> reach nd n p"
proof (induction fuel arbitrary: n)
  case 0
  then show ?case using rank_card_pos [of n "length nd" rank] by blast
next
  case (Suc fuel)
  from Suc.prems(2,3) obtain m where succ: "node_succ nd n m" and m: "reach nd m mp"
    by (auto elim: reach_cases)
  show ?case
  proof (cases "m = mp")
    case True
    then show ?thesis using succ Suc.prems(1) by (auto simp: node_succ_def not_le)
  next
    case False
    have mlen: "m < length nd" using links_ok_bound [OF ok succ] .
    have "rank m < rank n" using rank succ by blast
    then have "card {j. j < length nd \<and> rank j \<le> rank m} \<le> fuel"
      using rank_card_less [of n "length nd" rank m] Suc.prems(1) Suc.prems(4) by simp
    from Suc.IH [OF mlen m False this] obtain p where
      p: "find_prev fuel nd mp m = Inr p" "node_succ nd p mp" "reach nd m p" by blast
    have "int n + nx (nd ! n) = int m" "nat (int n + nx (nd ! n)) = m" "int m \<noteq> int mp"
      using succ False by (auto simp: node_succ_def)
    then show ?thesis using p succ Suc.prems(1) by (auto simp: not_le intro: reach_step)
  qed
qed

lemma find_prev_Inr:
  assumes "links_ok nd" and "n < length nd" and "reach nd n mp" and "n \<noteq> mp"
  shows "\<exists>p. find_prev (length nd) nd mp n = Inr p \<and> node_succ nd p mp \<and> reach nd n p"
proof -
  obtain rank :: "nat \<Rightarrow> nat" where rank: "\<forall>i j. node_succ nd i j \<longrightarrow> rank j < rank i"
    using assms(1) by (auto simp: links_ok_def)
  from find_prev_total [OF assms(1) rank assms(2-4) rank_card_bound] show ?thesis .
qed

section \<open>Linking a free node\<close>

text \<open>A node outside every chain.\<close>

definition isolated :: "node list \<Rightarrow> nat \<Rightarrow> bool" where
  "isolated nd f \<longleftrightarrow> f < length nd \<and> nx (nd ! f) = 0 \<and> (\<forall>i. \<not> node_succ nd i f)"

lemma isolated_no_succ: "isolated nd f \<Longrightarrow> \<not> node_succ nd f j"
  by (simp add: isolated_def node_succ_def)

lemma links_okI:
  assumes "\<And>i. i < length nd \<Longrightarrow> nx (nd ! i) \<noteq> 0 \<Longrightarrow> \<exists>j < length nd. node_succ nd i j"
    and "\<And>i j k. node_succ nd i k \<Longrightarrow> node_succ nd j k \<Longrightarrow> i = j"
    and "\<And>i j. node_succ nd i j \<Longrightarrow> rank j < (rank i :: nat)"
  shows "links_ok nd"
proof -
  have "0 \<le> int i + nx (nd ! i) \<and> int i + nx (nd ! i) < int (length nd)" if "i < length nd" for i
    using assms(1) [OF that] that by (cases "nx (nd ! i) = 0") (auto simp: node_succ_def)
  then show ?thesis using assms(2,3) unfolding links_ok_def by blast
qed

lemma links_ok_succ:
  "links_ok nd \<Longrightarrow> k < length nd \<Longrightarrow> nx (nd ! k) \<noteq> 0 \<Longrightarrow> \<exists>j. node_succ nd k j"
  by (rule exI [of _ "nat (int k + nx (nd ! k))"]) (auto simp: node_succ_def links_ok_def)

lemma length_link_node [simp]: "length (link_node nd mp f) = length nd"
  by (simp add: link_node_def Let_def)

lemma link_node_fields:
  assumes "mp \<noteq> f"
  shows "i_val (link_node nd mp f ! i) = i_val (nd ! i)"
    and "i_key (link_node nd mp f ! i) = i_key (nd ! i)"
  using assms by (cases "i < length nd"; cases "i = f"; cases "i = mp";
    simp add: link_node_def Let_def nth_list_update list_update_beyond)+

lemma link_node_nx:
  assumes "mp < length nd" and "f < length nd" and "mp \<noteq> f" and "nx (nd ! f) = 0"
  shows "nx (link_node nd mp f ! i) =
    (if i = mp then int f - int mp
     else if i = f \<and> nx (nd ! mp) \<noteq> 0 then int mp + nx (nd ! mp) - int f
     else nx (nd ! i))"
  using assms by (auto simp: link_node_def Let_def nth_list_update)

lemma link_node_succ:
  assumes ok: "links_ok nd" and mp: "mp < length nd" and f: "isolated nd f" and ne: "mp \<noteq> f"
  shows "node_succ (link_node nd mp f) i j \<longleftrightarrow>
     (i = mp \<and> j = f) \<or> (i = f \<and> node_succ nd mp j) \<or> (i \<noteq> mp \<and> i \<noteq> f \<and> node_succ nd i j)"
proof -
  have fl: "f < length nd" "nx (nd ! f) = 0" "\<not> node_succ nd mp f" using f by (auto simp: isolated_def)
  have "nx (nd ! mp) \<noteq> 0 \<Longrightarrow> int mp + nx (nd ! mp) \<noteq> int f"
    using fl(3) mp by (auto simp: node_succ_def)
  then show ?thesis
    using fl mp ne unfolding node_succ_def length_link_node link_node_nx [OF mp fl(1) ne fl(2)]
    by auto
qed

lemma link_node_links_ok:
  assumes ok: "links_ok nd" and mp: "mp < length nd" and f: "isolated nd f" and ne: "mp \<noteq> f"
  shows "links_ok (link_node nd mp f)"
proof -
  note succ = link_node_succ [OF assms]
  obtain rank :: "nat \<Rightarrow> nat" where rank: "\<And>i j. node_succ nd i j \<Longrightarrow> rank j < rank i"
    using ok by (auto simp: links_ok_def)
  have nof: "\<not> node_succ nd i f" for i using f by (simp add: isolated_def)
  have fl: "f < length nd" "nx (nd ! f) = 0" using f by (auto simp: isolated_def)
  show ?thesis
  proof (rule links_okI [where rank = "\<lambda>k. if k = f then 2 * rank mp else 2 * rank k + 1"])
    fix i
    assume i: "i < length (link_node nd mp f)" and nz: "nx (link_node nd mp f ! i) \<noteq> 0"
    show "\<exists>j < length (link_node nd mp f). node_succ (link_node nd mp f) i j"
    proof (cases "i = mp")
      case True
      then show ?thesis using fl succ by auto
    next
      case False
      define k where "k = (if i = f then mp else i)"
      have k: "k < length nd" "nx (nd ! k) \<noteq> 0"
        using False i nz fl mp link_node_nx [OF mp fl(1) ne fl(2)] by (auto simp: k_def split: if_splits)
      then obtain j where j: "node_succ nd k j" using links_ok_succ [OF ok] by blast
      then have "node_succ (link_node nd mp f) i j" using False succ by (auto simp: k_def split: if_splits)
      then show ?thesis using links_ok_bound [OF ok j] by auto
    qed
  next
    fix i j k
    assume "node_succ (link_node nd mp f) i k" and "node_succ (link_node nd mp f) j k"
    then show "i = j" using ok nof unfolding succ links_ok_def by blast
  next
    fix i j
    assume "node_succ (link_node nd mp f) i j"
    then show "(if j = f then 2 * rank mp else 2 * rank j + 1) < (if i = f then 2 * rank mp else 2 * rank i + 1)"
      unfolding succ using nof ne rank [of mp j] rank [of i j] by auto
  qed
qed

lemma link_node_reach:
  assumes "links_ok nd" and "mp < length nd" and "isolated nd f" and "mp \<noteq> f"
  shows "reach nd a b \<Longrightarrow> reach (link_node nd mp f) a b"
    and "reach (link_node nd mp f) mp f"
proof -
  note succ = link_node_succ [OF assms]
  show mpf: "reach (link_node nd mp f) mp f" using succ by (auto intro: reach_step)
  have "reach (link_node nd mp f) i j" if "node_succ nd i j" for i j
  proof (cases "i = mp")
    case True
    then have "node_succ (link_node nd mp f) f j" using succ that by simp
    then show ?thesis using mpf True by (auto intro: reach_succ)
  next
    case False
    have "i \<noteq> f" using that isolated_no_succ [OF assms(3)] by auto
    then show ?thesis using succ that False by (auto intro: reach_step)
  qed
  then have step: "reach (link_node nd mp f) a b \<Longrightarrow> node_succ nd b c \<Longrightarrow> reach (link_node nd mp f) a c" for b c
    by (blast intro: reach_trans)
  assume "reach nd a b"
  then show "reach (link_node nd mp f) a b"
    unfolding reach_def [of nd] by (induction rule: rtranclp_induct) (auto intro: step)
qed

section \<open>Moving a colliding node\<close>

lemma length_move_node [simp]: "length (move_node nd p mp f) = length nd"
  by (simp add: move_node_def Let_def)

lemma move_node_nth:
  assumes "mp < length nd" and "f < length nd" and "p < length nd"
    and "p \<noteq> mp" and "f \<noteq> mp" and "p \<noteq> f"
  shows "move_node nd p mp f ! f =
           (nd ! mp)\<lparr>nx := if nx (nd ! mp) = 0 then 0 else int mp + nx (nd ! mp) - int f\<rparr>"
    and "move_node nd p mp f ! mp = (nd ! mp)\<lparr>i_val := LNil, nx := 0\<rparr>"
    and "move_node nd p mp f ! p = (nd ! p)\<lparr>nx := int f - int p\<rparr>"
    and "i \<noteq> f \<Longrightarrow> i \<noteq> mp \<Longrightarrow> i \<noteq> p \<Longrightarrow> move_node nd p mp f ! i = nd ! i"
  using assms by (auto simp: move_node_def Let_def nth_list_update)

lemma move_node_succ:
  assumes ok: "links_ok nd" and p: "node_succ nd p mp" and f: "isolated nd f"
    and ne: "f \<noteq> mp" "p \<noteq> mp" "p \<noteq> f" and mp: "mp < length nd"
  shows "node_succ (move_node nd p mp f) i j \<longleftrightarrow>
    (i = p \<and> j = f) \<or> (i = f \<and> node_succ nd mp j) \<or>
    (i \<noteq> p \<and> i \<noteq> f \<and> i \<noteq> mp \<and> node_succ nd i j)"
proof -
  have fl: "f < length nd" "p < length nd" using f p by (auto simp: isolated_def node_succ_def)
  have nf: "\<not> node_succ nd mp f" using f by (auto simp: isolated_def)
  have mf: "nx (nd ! mp) \<noteq> 0 \<Longrightarrow> int mp + nx (nd ! mp) \<noteq> int f"
    using nf mp by (auto simp: node_succ_def)
  note nths = move_node_nth [OF mp fl ne(2,1,3)]
  show ?thesis
  proof (cases "i = p \<or> i = f \<or> i = mp")
    case True
    then show ?thesis using nths(1-3) fl mp mf ne by (auto simp: node_succ_def split: if_splits)
  next
    case False
    then have "move_node nd p mp f ! i = nd ! i" using nths(4) by simp
    then show ?thesis using False by (auto simp: node_succ_def)
  qed
qed

lemma move_node_links_ok:
  assumes ok: "links_ok nd" and p: "node_succ nd p mp" and f: "isolated nd f"
    and ne: "f \<noteq> mp" "p \<noteq> mp" "p \<noteq> f" and mp: "mp < length nd"
  shows "links_ok (move_node nd p mp f)"
proof -
  note succ = move_node_succ [OF assms]
  obtain rank :: "nat \<Rightarrow> nat" where rank: "\<And>i j. node_succ nd i j \<Longrightarrow> rank j < rank i"
    using ok by (auto simp: links_ok_def)
  have nof: "\<not> node_succ nd i f" for i using f by (simp add: isolated_def)
  have fl: "f < length nd" "p < length nd" using f p by (auto simp: isolated_def node_succ_def)
  have inj: "node_succ nd i k \<Longrightarrow> node_succ nd j k \<Longrightarrow> i = j" for i j k
    using ok unfolding links_ok_def by blast
  note nths = move_node_nth [OF mp fl ne(2,1,3)]
  show ?thesis
  proof (rule links_okI [where rank = "\<lambda>k. if k = f then rank mp else rank k"])
    fix i
    assume i: "i < length (move_node nd p mp f)" and nz: "nx (move_node nd p mp f ! i) \<noteq> 0"
    show "\<exists>j < length (move_node nd p mp f). node_succ (move_node nd p mp f) i j"
    proof (cases "i = p")
      case True
      then show ?thesis using fl succ by auto
    next
      case False
      define k where "k = (if i = f then mp else i)"
      have imp: "i \<noteq> mp" using nz nths(2) by auto
      have k: "k < length nd" "nx (nd ! k) \<noteq> 0"
        using False imp i nz mp nths(1) nths(4) [of i] by (auto simp: k_def split: if_splits)
      then obtain j where j: "node_succ nd k j" using links_ok_succ [OF ok] by blast
      then have "node_succ (move_node nd p mp f) i j"
        using False imp succ by (auto simp: k_def split: if_splits)
      then show ?thesis using links_ok_bound [OF ok j] by auto
    qed
  next
    fix i j k
    assume "node_succ (move_node nd p mp f) i k" and "node_succ (move_node nd p mp f) j k"
    then show "i = j" using inj nof unfolding succ by blast
  next
    fix i j
    assume "node_succ (move_node nd p mp f) i j"
    then show "(if j = f then rank mp else rank j) < (if i = f then rank mp else rank i)"
      unfolding succ using nof ne rank [of mp j] rank [of i j] rank [OF p] by auto
  qed
qed

lemma move_node_reach:
  assumes ok: "links_ok nd" and p: "node_succ nd p mp" and f: "isolated nd f"
    and ne: "f \<noteq> mp" "p \<noteq> mp" "p \<noteq> f" and mp: "mp < length nd"
    and ab: "reach nd a b" and a: "a \<noteq> mp"
  shows "reach (move_node nd p mp f) a (if b = mp then f else b)"
proof -
  note succ = move_node_succ [OF ok p f ne mp]
  have nof: "\<not> node_succ nd i f" "\<not> node_succ nd f i" for i
    using f isolated_no_succ by (auto simp: isolated_def)
  have inj: "node_succ nd i mp \<Longrightarrow> i = p" for i
    using ok p unfolding links_ok_def by blast
  show ?thesis using ab unfolding reach_def [of nd]
  proof (induction rule: rtranclp_induct)
    case base
    then show ?case using a by simp
  next
    case (step b c)
    have "b \<noteq> f" using step.hyps(2) nof by auto
    have "node_succ (move_node nd p mp f) (if b = mp then f else b) (if c = mp then f else c)"
      unfolding succ using step.hyps(2) \<open>b \<noteq> f\<close> ne inj [of b] p by (auto dest: node_succ_unique)
    then show ?case using step.IH by (rule reach_succ [rotated])
  qed
qed

end
