(* ===== verification/Lua_Table_Inv.thy ===== *)
theory Lua_Table_Inv
  imports Lua_Table_Chain
begin

text \<open>
  The invariant of a table, what the search functions return under it, and the insertion of a
  key when there is room.  A table stands for a total function from keys to values
  (\<open>tab_map\<close>), nil where the key is absent.
\<close>

section \<open>Main positions are inside the vector\<close>

lemma unat_of_nat_le: "unat (of_nat n :: 'a::len word) \<le> n"
  by (simp add: unat_of_nat)

lemma sizenode_pos [simp]: "0 < sizenode t"
  by (simp add: sizenode_def)

lemma hashpow2_less: "hashpow2 t n < sizenode t"
proof -
  have "unat (n AND of_nat (sizenode t - 1)) \<le> unat (of_nat (sizenode t - 1) :: 'a word)"
    using word_and_le1 [THEN word_le_nat_alt [THEN iffD1]] by blast
  also have "\<dots> \<le> sizenode t - 1" by (rule unat_of_nat_le)
  finally show ?thesis unfolding hashpow2_def by (simp add: sizenode_def le_less_trans)
qed

lemma hashmod_less: "hashmod t n < sizenode t"
proof (cases "t_lsizenode t")
  case 0
  then show ?thesis by (simp add: hashmod_def sizenode_def)
next
  case (Suc k)
  then have "odd (sizenode t - 1)" by (simp add: sizenode_def)
  have "1 < (2::nat) ^ Suc k" by (rule one_less_power) simp_all
  then have "1 < sizenode t" using Suc by (simp only: sizenode_def)
  have "sizenode t - 1 OR 1 = sizenode t - 1" using \<open>odd (sizenode t - 1)\<close> by (rule or_one_odd)
  then have "n mod (sizenode t - 1 OR 1) < sizenode t - 1"
    using \<open>1 < sizenode t\<close> \<open>sizenode t - 1 OR 1 = sizenode t - 1\<close> by simp
  then show ?thesis by (simp add: hashmod_def)
qed

lemma mainposition_less: "mainposition seed t k < sizenode t"
  by (cases k) (simp_all add: hashpow2_less hashmod_less hashpointer_def)

lemma mainposition_cong:
  assumes "t_lsizenode t' = t_lsizenode t"
  shows "mainposition seed t' k = mainposition seed t k"
  using assms by (cases k) (simp_all add: hashpow2_def hashmod_def hashpointer_def sizenode_def)

section \<open>Array indices\<close>

definition in_array :: "table \<Rightarrow> tvalue \<Rightarrow> bool" where
  "in_array t k \<longleftrightarrow> arrayindex k \<noteq> 0 \<and> arrayindex k \<le> sizearray t"

lemma sint_small:
  assumes "unat (k :: u64) < 2 ^ 63"
  shows "sint k = int (unat k)"
proof -
  have "uint k < 2 ^ 63"
    using assms by (metis of_nat_less_iff of_nat_numeral of_nat_power of_nat_unat)
  then have "signed_take_bit 63 (uint k) = uint k"
    by (intro signed_take_bit_int_eq_self) (auto intro: order_trans [OF _ uint_ge_0])
  then show ?thesis by (simp add: sint_uint)
qed

lemma unat_minus_1_large: "(2 ^ 31 :: nat) \<le> unat (- 1 :: u64)"
  by (simp add: unsigned_minus_1_eq_mask mask_eq_exp_minus_1)

lemma arrayindex_LInt: "arrayindex (LInt k) = (if unat k \<le> MAXASIZE then unat k else 0)"
proof (cases "unat k \<le> MAXASIZE")
  case True
  then have "sint k = int (unat k)" by (intro sint_small) simp
  then have "0 < sint k \<longleftrightarrow> 0 < unat k" by (simp only: of_nat_0_less_iff)
  then show ?thesis using True by auto
qed simp

declare arrayindex.simps(1) [simp del]

lemma arrayindex_nonzero: "arrayindex k \<noteq> 0 \<Longrightarrow> k = LInt (of_nat (arrayindex k))"
  by (cases k) (auto simp: arrayindex_LInt split: if_splits)

lemma arrayindex_le: "arrayindex k \<le> MAXASIZE"
  by (cases k) (auto simp: arrayindex_LInt)

lemma arrayindex_of_nat: "n \<le> MAXASIZE \<Longrightarrow> arrayindex (LInt (of_nat n)) = n"
  by (simp add: arrayindex_LInt unat_of_nat)

lemma getint_in_array:
  assumes "sizearray t \<le> MAXASIZE"
  shows "unat (k - 1) < sizearray t \<longleftrightarrow> in_array t (LInt k)"
    and "in_array t (LInt k) \<Longrightarrow> Suc (unat (k - 1)) = arrayindex (LInt k)"
proof -
  have "unat (k - 1) = unat k - 1" "0 < unat k" if "k \<noteq> 0"
    using that by (simp_all add: unat_minus_one unat_gt_0)
  then show "unat (k - 1) < sizearray t \<longleftrightarrow> in_array t (LInt k)"
    using assms unat_minus_1_large unfolding in_array_def arrayindex_LInt by (cases "k = 0") force+
  assume "in_array t (LInt k)"
  then have "k \<noteq> 0" and "arrayindex (LInt k) = unat k"
    by (auto simp: in_array_def arrayindex_LInt split: if_splits)
  then show "Suc (unat (k - 1)) = arrayindex (LInt k)"
    by (simp add: unat_minus_one unat_gt_0)
qed

section \<open>The invariant\<close>

text \<open>
  \<^item> the vector has \<open>2 ^ lsizenode\<close> nodes and its links are well formed;
  \<^item> a node with a nil key is empty and outside every chain;
  \<^item> a key is canonical, or a dead key, or nil, and only a canonical key has a value;
  \<^item> every key is in the chain of its main position, and occurs once;
  \<^item> if some key has main position \<open>q\<close>, node \<open>q\<close> is not free and its key is at home there
    (the invariant stated at the head of \<open>ltable.c\<close>);
  \<^item> no free node is at or above \<open>lastfree\<close>;
  \<^item> the keys of the array part are not in the hash part.
\<close>

definition nodes_ok :: "u32 \<Rightarrow> table \<Rightarrow> bool" where
  "nodes_ok seed t \<longleftrightarrow>
     length (t_node t) = sizenode t \<and> links_ok (t_node t) \<and>
     (\<forall>i < sizenode t. i_key (t_node t ! i) = LNil \<longrightarrow>
        i_val (t_node t ! i) = LNil \<and> isolated (t_node t) i) \<and>
     (\<forall>i < sizenode t. stored_key (i_key (t_node t ! i)) \<and>
        (i_val (t_node t ! i) \<noteq> LNil \<longrightarrow> canonical (i_key (t_node t ! i)))) \<and>
     (\<forall>i < sizenode t. canonical (i_key (t_node t ! i)) \<longrightarrow>
        reach (t_node t) (mainposition seed t (i_key (t_node t ! i))) i) \<and>
     (\<forall>i < sizenode t. \<forall>j < sizenode t. canonical (i_key (t_node t ! i)) \<longrightarrow>
        i_key (t_node t ! i) = i_key (t_node t ! j) \<longrightarrow> i = j) \<and>
     (\<forall>i < sizenode t. canonical (i_key (t_node t ! i)) \<longrightarrow>
        (let q = mainposition seed t (i_key (t_node t ! i)) in
          i_key (t_node t ! q) \<noteq> LNil \<and>
          (canonical (i_key (t_node t ! q)) \<longrightarrow> mainposition seed t (i_key (t_node t ! q)) = q)))"

definition free_ok :: "table \<Rightarrow> bool" where
  "free_ok t \<longleftrightarrow>
     (if t_dummy t then t_node t = [dummynode] \<and> t_lastfree t = 0 \<and> t_lsizenode t = 0
      else t_lastfree t \<le> sizenode t \<and>
           (\<forall>i. t_lastfree t \<le> i \<and> i < sizenode t \<longrightarrow> i_key (t_node t ! i) \<noteq> LNil))"

definition tab_ok :: "u32 \<Rightarrow> table \<Rightarrow> bool" where
  "tab_ok seed t \<longleftrightarrow> nodes_ok seed t \<and> free_ok t \<and> sizearray t \<le> MAXASIZE \<and>
     t_lsizenode t \<le> MAXHBITS \<and>
     (\<forall>i < sizenode t. \<not> in_array t (i_key (t_node t ! i)))"

definition node_lookup :: "node list \<Rightarrow> tvalue \<Rightarrow> tvalue" where
  "node_lookup nd k = (case List.find (\<lambda>n. i_key n = k) nd of None \<Rightarrow> LNil | Some n \<Rightarrow> i_val n)"

definition tab_map :: "table \<Rightarrow> tvalue \<Rightarrow> tvalue" where
  "tab_map t k = (if in_array t k then t_array t ! (arrayindex k - 1) else node_lookup (t_node t) k)"

lemma node_lookup_none: "(\<And>i. i < length nd \<Longrightarrow> i_key (nd ! i) \<noteq> k) \<Longrightarrow> node_lookup nd k = LNil"
  by (auto simp: node_lookup_def find_Some_iff split: option.split)

lemma node_lookup_some:
  assumes "i < length nd" and "i_key (nd ! i) = k"
    and "\<And>j. j < length nd \<Longrightarrow> i_key (nd ! j) = k \<Longrightarrow> j = i"
  shows "node_lookup nd k = i_val (nd ! i)"
proof (cases "List.find (\<lambda>n. i_key n = k) nd")
  case None
  then show ?thesis using assms(1,2) by (auto simp: find_None_iff)
next
  case (Some n)
  then obtain j where "j < length nd" "i_key (nd ! j) = k" "n = nd ! j" by (auto simp: find_Some_iff)
  then show ?thesis using assms(3) Some by (auto simp: node_lookup_def)
qed

lemma node_lookup_nil:
  assumes "\<And>i. i < length nd \<Longrightarrow> i_key (nd ! i) = k \<Longrightarrow> i_val (nd ! i) = LNil"
  shows "node_lookup nd k = LNil"
  using assms by (auto simp: node_lookup_def find_Some_iff split: option.split)

section \<open>What a search finds\<close>

text \<open>The slot of key \<open>k\<close>: its array cell, its node, or nothing.\<close>

definition slot_for :: "table \<Rightarrow> tvalue \<Rightarrow> slot \<Rightarrow> bool" where
  "slot_for t k s \<longleftrightarrow> (case s of
       ArrSlot i \<Rightarrow> in_array t k \<and> arrayindex k = Suc i
     | NodeSlot i \<Rightarrow> \<not> in_array t k \<and> i < sizenode t \<and> i_key (t_node t ! i) = k
     | NilSlot \<Rightarrow> \<not> in_array t k \<and> (\<forall>i < sizenode t. i_key (t_node t ! i) \<noteq> k))"

lemma nodes_okD:
  assumes "nodes_ok seed t"
  shows "length (t_node t) = sizenode t" and "links_ok (t_node t)"
    and "i < sizenode t \<Longrightarrow> i_key (t_node t ! i) = LNil \<Longrightarrow> i_val (t_node t ! i) = LNil"
    and "i < sizenode t \<Longrightarrow> i_key (t_node t ! i) = LNil \<Longrightarrow> isolated (t_node t) i"
    and "i < sizenode t \<Longrightarrow> i_val (t_node t ! i) \<noteq> LNil \<Longrightarrow> canonical (i_key (t_node t ! i))"
    and "i < sizenode t \<Longrightarrow> canonical (i_key (t_node t ! i)) \<Longrightarrow>
         reach (t_node t) (mainposition seed t (i_key (t_node t ! i))) i"
    and "i < sizenode t \<Longrightarrow> j < sizenode t \<Longrightarrow> canonical (i_key (t_node t ! i)) \<Longrightarrow>
         i_key (t_node t ! j) = i_key (t_node t ! i) \<Longrightarrow> j = i"
    and "i < sizenode t \<Longrightarrow> canonical (i_key (t_node t ! i)) \<Longrightarrow>
         i_key (t_node t ! mainposition seed t (i_key (t_node t ! i))) \<noteq> LNil"
    and "i < sizenode t \<Longrightarrow> canonical (i_key (t_node t ! i)) \<Longrightarrow>
         q = mainposition seed t (i_key (t_node t ! i)) \<Longrightarrow>
         canonical (i_key (t_node t ! q)) \<Longrightarrow> mainposition seed t (i_key (t_node t ! q)) = q"
  using assms unfolding nodes_ok_def Let_def by metis+

lemma nodes_ok_stored: "nodes_ok seed t \<Longrightarrow> i < sizenode t \<Longrightarrow> stored_key (i_key (t_node t ! i))"
  by (simp add: nodes_ok_def)

lemma search_key:
  assumes ok: "nodes_ok seed t" and k: "canonical k"
    and P: "\<And>n. i_key n = k \<Longrightarrow> P n"
    and P': "\<And>j. j < sizenode t \<Longrightarrow> P (t_node t ! j) \<Longrightarrow> i_key (t_node t ! j) = k"
  shows "(\<exists>i < sizenode t. search t P (mainposition seed t k) = Inr (Some i) \<and> i_key (t_node t ! i) = k) \<or>
         (search t P (mainposition seed t k) = Inr None \<and> (\<forall>i < sizenode t. i_key (t_node t ! i) \<noteq> k))"
proof -
  note okD = nodes_okD [OF ok]
  have mp: "mainposition seed t k < length (t_node t)" using mainposition_less okD(1) by simp
  show ?thesis
  proof (cases "\<exists>i < sizenode t. i_key (t_node t ! i) = k")
    case True
    then obtain i where i: "i < sizenode t" "i_key (t_node t ! i) = k" by blast
    have "search t P (mainposition seed t k) = Inr (Some i)"
    proof (rule search_Some [OF okD(2) mp])
      show "reach (t_node t) (mainposition seed t k) i" using okD(6) [OF i(1)] i(2) k by simp
      show "P (t_node t ! i)" using P i(2) .
      show "j = i" if "j < length (t_node t)" "P (t_node t ! j)" for j
        using okD(7) [OF i(1), of j] P' that i(2) k okD(1) by simp
    qed
    then show ?thesis using i by blast
  next
    case False
    then have "search t P (mainposition seed t k) = Inr None"
      using okD(1) P' by (intro search_None [OF okD(2) mp]) auto
    then show ?thesis using False by blast
  qed
qed

lemma search_slot:
  assumes ok: "nodes_ok seed t" and k: "canonical k" and arr: "\<not> in_array t k"
    and "\<And>n. i_key n = k \<Longrightarrow> P n"
    and "\<And>j. j < sizenode t \<Longrightarrow> P (t_node t ! j) \<Longrightarrow> i_key (t_node t ! j) = k"
  shows "\<exists>s. ebind (search t P (mainposition seed t k)) (\<lambda>r. Inr (to_slot r)) = Inr s \<and> slot_for t k s"
  using search_key [where P = P, OF ok k assms(4,5)] arr by (auto simp: to_slot_def slot_for_def)

lemma getint_slot:
  assumes "tab_ok seed t"
  shows "\<exists>s. luaH_getint t k = Inr s \<and> slot_for t (LInt k) s"
proof (cases "in_array t (LInt k)")
  case True
  then have "slot_for t (LInt k) (ArrSlot (unat (k - 1)))"
    using getint_in_array(2) [OF _ True] assms by (simp add: slot_for_def tab_ok_def)
  then show ?thesis using True getint_in_array(1) assms by (simp add: luaH_getint_def tab_ok_def)
next
  case False
  then show ?thesis
    using search_slot [of seed t "LInt k" "\<lambda>n. i_key n = LInt k"] assms getint_in_array(1)
    by (simp add: luaH_getint_def tab_ok_def)
qed

lemma get_generic_slot:
  assumes "tab_ok seed t" and "canonical k" and "\<not> in_array t k"
  shows "\<exists>s. get_generic seed t k = Inr s \<and> slot_for t k s"
proof -
  have ok: "nodes_ok seed t" using assms(1) by (simp add: tab_ok_def)
  show ?thesis unfolding get_generic_def
    by (rule search_slot [OF ok assms(2,3)])
      (use nodes_ok_stored [OF ok] rawequal_stored assms(2) rawequal_canonical in auto)
qed

lemma in_array_int: "in_array t k \<Longrightarrow> \<exists>i. k = LInt i"
  using arrayindex_nonzero by (auto simp: in_array_def)

lemma getstr_slot:
  assumes "tab_ok seed t"
  shows "\<exists>s'. luaH_getstr seed t s = Inr s' \<and> slot_for t (LStr s) s'"
  using search_slot [of seed t "LStr s" "\<lambda>n. i_key n = LStr s"] assms
  by (auto simp: luaH_getstr_def tab_ok_def in_array_def)

text \<open>The form in which a key is looked up.\<close>

fun norm_key :: "tvalue \<Rightarrow> tvalue" where
  "norm_key (LFlt f) = (case flt_tointeger f 0 of Some k \<Rightarrow> LInt k | None \<Rightarrow> LFlt f)"
| "norm_key k = k"

lemma norm_key_canonical [simp]: "canonical k \<Longrightarrow> norm_key k = k"
  by (cases k) auto

lemma get_slot:
  assumes "tab_ok seed t" and "canonical (norm_key k)"
  shows "\<exists>s. luaH_get seed t k = Inr s \<and> slot_for t (norm_key k) s"
proof -
  have gen: "\<exists>s. get_generic seed t k' = Inr s \<and> slot_for t k' s"
    if "canonical k'" "\<forall>i. k' \<noteq> LInt i" for k'
    using get_generic_slot [OF assms(1) that(1)] that(2) in_array_int [of t k'] by blast
  show ?thesis
    using assms gen [of k] getstr_slot [OF assms(1)] getint_slot [OF assms(1)]
    by (cases k) (auto split: option.splits)
qed

lemma slot_val_map:
  assumes "nodes_ok seed t" and "canonical k" and "slot_for t k s"
  shows "slot_val t s = tab_map t k"
proof -
  note okD = nodes_okD [OF assms(1)]
  show ?thesis
  proof (cases s)
    case NilSlot
    then show ?thesis using assms(3) okD(1)
      by (simp add: slot_for_def slot_val_def tab_map_def node_lookup_none)
  next
    case (ArrSlot i)
    then show ?thesis using assms(3) by (simp add: slot_for_def slot_val_def tab_map_def)
  next
    case (NodeSlot i)
    then show ?thesis using assms okD(1) okD(7) [of i] node_lookup_some [of i "t_node t" k]
      by (simp add: slot_for_def slot_val_def tab_map_def)
  qed
qed

text \<open>A search on any key finds the value of the table at the normalised key.\<close>

lemma get_value:
  assumes "tab_ok seed t" and "canonical (norm_key k)"
  shows "\<exists>s. luaH_get seed t k = Inr s \<and> slot_val t s = tab_map t (norm_key k)"
  using get_slot [OF assms] slot_val_map assms by (metis tab_ok_def)

section \<open>Storing a value\<close>

lemma node_succ_cong:
  assumes "length nd' = length nd" and "\<And>i. i < length nd \<Longrightarrow> nx (nd' ! i) = nx (nd ! i)"
  shows "node_succ nd' = node_succ nd"
  using assms by (auto simp: node_succ_def fun_eq_iff)

lemma chain_cong:
  assumes "length nd' = length nd" and "\<And>i. i < length nd \<Longrightarrow> nx (nd' ! i) = nx (nd ! i)"
  shows "reach nd' = reach nd" and "links_ok nd' = links_ok nd"
    and "isolated nd' i = isolated nd i"
  using node_succ_cong [OF assms] assms by (auto simp: reach_def links_ok_def isolated_def)

lemma set_slot_sizes [simp]:
  "sizenode (set_slot t s v) = sizenode t"
  "sizearray (set_slot t s v) = sizearray t"
  "in_array (set_slot t s v) k = in_array t k"
  "t_lsizenode (set_slot t s v) = t_lsizenode t"
  "t_dummy (set_slot t s v) = t_dummy t"
  "t_lastfree (set_slot t s v) = t_lastfree t"
  by (simp_all add: set_slot_def sizenode_def in_array_def split: slot.split)

lemma set_slot_node:
  "t_node (set_slot t s v) ! i =
     (if s = NodeSlot i \<and> i < length (t_node t) then (t_node t ! i)\<lparr>i_val := v\<rparr> else t_node t ! i)"
proof (cases s)
  case (NodeSlot j)
  then show ?thesis
    by (cases "j = i"; cases "j < length (t_node t)")
      (simp_all add: set_slot_def list_update_beyond)
qed (simp_all add: set_slot_def)

lemma set_slot_nodes:
  "length (t_node (set_slot t s v)) = length (t_node t)"
  "i_key (t_node (set_slot t s v) ! i) = i_key (t_node t ! i)"
  "nx (t_node (set_slot t s v) ! i) = nx (t_node t ! i)"
  by (simp add: set_slot_def split: slot.split) (simp_all add: set_slot_node)

lemma set_slot_vals:
  "i_val (t_node (set_slot t s v) ! i) =
     (if s = NodeSlot i \<and> i < length (t_node t) then v else i_val (t_node t ! i))"
  by (simp add: set_slot_node)

lemma set_slot_nodes_ok:
  assumes "nodes_ok seed t" and "\<And>i. s = NodeSlot i \<Longrightarrow> i < sizenode t \<Longrightarrow> canonical (i_key (t_node t ! i))"
  shows "nodes_ok seed (set_slot t s v)"
proof -
  have mp: "mainposition seed (set_slot t s v) k = mainposition seed t k" for k
    by (rule mainposition_cong) simp
  show ?thesis
    using assms chain_cong [OF set_slot_nodes(1,3), of t s v]
    unfolding nodes_ok_def set_slot_sizes set_slot_nodes(1,2) mp
    by (auto simp: set_slot_vals Let_def)
qed

section \<open>The entries of the hash part\<close>

definition entries :: "node list \<Rightarrow> (tvalue \<times> tvalue) set" where
  "entries nd = {(i_key n, i_val n) | n. n \<in> set nd \<and> i_val n \<noteq> LNil}"

lemma entries_iff:
  "(k, v) \<in> entries nd \<longleftrightarrow> v \<noteq> LNil \<and> (\<exists>i < length nd. i_key (nd ! i) = k \<and> i_val (nd ! i) = v)"
  by (auto simp: entries_def in_set_conv_nth)

lemma entries_unique:
  assumes "nodes_ok seed t" and "(k, v) \<in> entries (t_node t)" and "(k, w) \<in> entries (t_node t)"
  shows "v = w"
  using assms nodes_okD(1,5,7) [OF assms(1)] by (metis entries_iff)

lemma node_lookup_entries:
  assumes ok: "nodes_ok seed t"
  shows "v \<noteq> LNil \<Longrightarrow> node_lookup (t_node t) k = v \<longleftrightarrow> (k, v) \<in> entries (t_node t)"
    and "node_lookup (t_node t) k = LNil \<longleftrightarrow> (\<forall>v. (k, v) \<notin> entries (t_node t))"
proof -
  note okD = nodes_okD [OF ok]
  have look: "node_lookup (t_node t) k = v" if e: "(k, v) \<in> entries (t_node t)" for v
  proof -
    obtain i where i: "i < sizenode t" "i_key (t_node t ! i) = k" "i_val (t_node t ! i) = v" "v \<noteq> LNil"
      using e okD(1) by (auto simp: entries_iff)
    have "canonical k" using okD(5) [OF i(1)] i by simp
    then have uniq: "j = i" if "j < length (t_node t)" "i_key (t_node t ! j) = k" for j
      using okD(7) [OF i(1), of j] that i(2) okD(1) by simp
    have "i < length (t_node t)" using okD(1) i(1) by simp
    from node_lookup_some [OF this i(2) uniq]
    have "node_lookup (t_node t) k = i_val (t_node t ! i)" by blast
    then show ?thesis using i(3) by simp
  qed
  have nil: "node_lookup (t_node t) k = LNil" if "\<forall>v. (k, v) \<notin> entries (t_node t)"
    by (rule node_lookup_nil) (use that entries_iff in blast)
  show "node_lookup (t_node t) k = LNil \<longleftrightarrow> (\<forall>v. (k, v) \<notin> entries (t_node t))"
    using look nil entries_iff by metis
  show "v \<noteq> LNil \<Longrightarrow> node_lookup (t_node t) k = v \<longleftrightarrow> (k, v) \<in> entries (t_node t)"
    using look nil by metis
qed

lemma node_lookup_eqI:
  assumes "nodes_ok seed t" and "nodes_ok seed t'" and "entries (t_node t') = entries (t_node t)"
  shows "node_lookup (t_node t') = node_lookup (t_node t)"
proof
  fix k
  show "node_lookup (t_node t') k = node_lookup (t_node t) k"
    using node_lookup_entries [OF assms(1)] node_lookup_entries [OF assms(2)] assms(3) by metis
qed

text \<open>Looking up depends only on the nodes that hold the key.\<close>

lemma node_lookup_cong:
  "list_all2 (\<lambda>a b. i_key a = i_key b \<and> (i_key a = k \<longrightarrow> i_val a = i_val b)) nd nd' \<Longrightarrow>
     node_lookup nd k = node_lookup nd' k"
  by (induction rule: list_all2_induct) (auto simp: node_lookup_def)

lemma arrayindex_inj: "arrayindex k = arrayindex k' \<Longrightarrow> arrayindex k \<noteq> 0 \<Longrightarrow> k = k'"
  by (metis arrayindex_nonzero)

lemma slot_for_node_not_dummy:
  assumes "tab_ok seed t" and "canonical k" and "slot_for t k (NodeSlot i)"
  shows "\<not> t_dummy t"
  using assms by (auto simp: tab_ok_def free_ok_def slot_for_def sizenode_def dummynode_def)

lemma set_slot_ok:
  assumes ok: "tab_ok seed t" and k: "canonical k" and s: "slot_for t k s" "s \<noteq> NilSlot"
  shows "tab_ok seed (set_slot t s v)" and "tab_map (set_slot t s v) = (tab_map t)(k := v)"
    and "slot_for (set_slot t s v) k s"
proof -
  have nok: "nodes_ok seed t" using ok by (simp add: tab_ok_def)
  note okD = nodes_okD [OF nok]
  have "nodes_ok seed (set_slot t s v)"
    using s k by (intro set_slot_nodes_ok [OF nok]) (auto simp: slot_for_def)
  moreover have "free_ok (set_slot t s v)"
  proof (cases s)
    case (NodeSlot i)
    then have "\<not> t_dummy t" using slot_for_node_not_dummy ok k s by blast
    then show ?thesis using ok by (simp add: free_ok_def tab_ok_def set_slot_nodes(2))
  qed (use s ok in \<open>simp_all add: free_ok_def tab_ok_def set_slot_def sizenode_def split: if_splits\<close>)
  ultimately show "tab_ok seed (set_slot t s v)"
    using ok by (simp add: tab_ok_def set_slot_nodes(2))
  show "slot_for (set_slot t s v) k s" using s by (simp add: slot_for_def set_slot_nodes(2) split: slot.splits)
  show "tab_map (set_slot t s v) = (tab_map t)(k := v)"
  proof
    fix k'
    show "tab_map (set_slot t s v) k' = ((tab_map t)(k := v)) k'"
    proof (cases s)
      case (ArrSlot i)
      then have i: "in_array t k" "arrayindex k = Suc i" using s by (simp_all add: slot_for_def)
      have "arrayindex k' = Suc i \<longleftrightarrow> k' = k" using arrayindex_inj [of k k'] i by auto
      then show ?thesis using ArrSlot i
        by (auto simp: tab_map_def set_slot_def in_array_def nth_list_update)
    next
      case (NodeSlot i)
      then have i: "\<not> in_array t k" "i < sizenode t" "i_key (t_node t ! i) = k" using s by (simp_all add: slot_for_def)
      have uniq: "j < sizenode t \<Longrightarrow> i_key (t_node t ! j) = k \<Longrightarrow> j = i" for j
        using okD(7) [OF i(2), of j] i(3) k by simp
      have "node_lookup (t_node (set_slot t s v)) k = i_val (t_node (set_slot t s v) ! i)"
        using node_lookup_some [of i "t_node (set_slot t s v)" k, unfolded set_slot_nodes okD(1), OF i(2,3) uniq]
        by blast
      then have "node_lookup (t_node (set_slot t s v)) k = v"
        using NodeSlot i(2) okD(1) by (simp add: set_slot_vals)
      moreover have "node_lookup (t_node (set_slot t s v)) k' = node_lookup (t_node t) k'" if "k' \<noteq> k"
        using that NodeSlot i okD(1)
        by (intro node_lookup_cong list_all2_all_nthI) (auto simp: set_slot_nodes set_slot_vals)
      moreover have "t_array (set_slot t s v) = t_array t" using NodeSlot by (simp add: set_slot_def)
      ultimately show ?thesis using i(1) by (auto simp: tab_map_def)
    qed (use s in simp)
  qed
qed

section \<open>Inserting a key when there is room\<close>

text \<open>
  What an insertion without a rehash establishes: the table is well formed, the key has a
  node, nothing else has changed, and at most one free node has been used.
\<close>

definition nfree :: "table \<Rightarrow> nat" where
  "nfree t = card {i. i < sizenode t \<and> i_key (t_node t ! i) = LNil}"

definition inserted :: "u32 \<Rightarrow> table \<Rightarrow> tvalue \<Rightarrow> table \<times> slot \<Rightarrow> bool" where
  "inserted seed t k r \<longleftrightarrow> (case r of (t', s) \<Rightarrow>
     tab_ok seed t' \<and> slot_for t' k s \<and> s \<noteq> NilSlot \<and> tab_map t' = tab_map t \<and>
     t_array t' = t_array t \<and> t_lsizenode t' = t_lsizenode t \<and> nfree t \<le> Suc (nfree t'))"

lemma getfreepos_loop_spec:
  "getfreepos_loop nd k = (r, k') \<Longrightarrow> k' \<le> k \<and>
     (\<forall>i. k' < i \<and> i < k \<longrightarrow> i_key (nd ! i) \<noteq> LNil) \<and>
     (case r of None \<Rightarrow> k' = 0 \<and> (\<forall>i < k. i_key (nd ! i) \<noteq> LNil)
              | Some f \<Rightarrow> f = k' \<and> f < k \<and> i_key (nd ! f) = LNil)"
proof (induction k)
  case (Suc k)
  show ?case
  proof (cases "i_key (nd ! k) = LNil")
    case True
    then show ?thesis using Suc.prems by auto
  next
    case False
    then have "getfreepos_loop nd k = (r, k')" using Suc.prems by simp
    note IH = Suc.IH [OF this]
    have "i_key (nd ! i) \<noteq> LNil" if "k' < i" "i < Suc k" for i
      using that IH False by (cases "i = k") auto
    then show ?thesis using IH False by (cases r) (simp_all add: All_less_Suc)
  qed
qed simp

end
