(* ===== verification/Lua_Table_Insert.thy ===== *)
theory Lua_Table_Insert
  imports Lua_Table_Inv
begin

text \<open>
  The three ways \<open>luaH_newkey\<close> places a key without growing the table, and the proof that each
  keeps the invariant and every entry.
\<close>

section \<open>Writing a key into a prepared node\<close>

text \<open>
  \<open>at_home seed t nd p k q\<close>: in the node vector \<open>nd\<close>, with \<open>k\<close> about to be written at \<open>p\<close>, node
  \<open>q\<close> is a legitimate main position: taken, and its key at home there.
\<close>

definition at_home :: "u32 \<Rightarrow> table \<Rightarrow> node list \<Rightarrow> nat \<Rightarrow> tvalue \<Rightarrow> nat \<Rightarrow> bool" where
  "at_home seed t nd p k q \<longleftrightarrow>
     (if q = p then mainposition seed t k = p
      else i_key (nd ! q) \<noteq> LNil \<and>
           (canonical (i_key (nd ! q)) \<longrightarrow> mainposition seed t (i_key (nd ! q)) = q))"

definition node_fits :: "u32 \<Rightarrow> table \<Rightarrow> node list \<Rightarrow> nat \<Rightarrow> tvalue \<Rightarrow> nat \<Rightarrow> bool" where
  "node_fits seed t nd p k i \<longleftrightarrow>
     (i_key (nd ! i) = LNil \<longrightarrow> i_val (nd ! i) = LNil \<and> isolated nd i) \<and>
     stored_key (i_key (nd ! i)) \<and>
     (i_val (nd ! i) \<noteq> LNil \<longrightarrow> canonical (i_key (nd ! i))) \<and>
     (canonical (i_key (nd ! i)) \<longrightarrow>
        reach nd (mainposition seed t (i_key (nd ! i))) i \<and>
        at_home seed t nd p k (mainposition seed t (i_key (nd ! i)))) \<and>
     i_key (nd ! i) \<noteq> k"

lemma nodes_ok_write_key:
  assumes len: "length nd = sizenode t" and p: "p < sizenode t" and links: "links_ok nd"
    and k: "canonical k" and val: "i_val (nd ! p) = LNil"
    and fits: "\<And>i. i < sizenode t \<Longrightarrow> i \<noteq> p \<Longrightarrow> node_fits seed t nd p k i"
    and dist: "\<And>i j. i < sizenode t \<Longrightarrow> j < sizenode t \<Longrightarrow> i \<noteq> p \<Longrightarrow> j \<noteq> p \<Longrightarrow>
      canonical (i_key (nd ! i)) \<Longrightarrow> i_key (nd ! i) = i_key (nd ! j) \<Longrightarrow> i = j"
    and rk: "reach nd (mainposition seed t k) p" and home: "at_home seed t nd p k (mainposition seed t k)"
    and t': "t' = t\<lparr>t_node := nd[p := (nd ! p)\<lparr>i_key := k\<rparr>], t_lastfree := lf\<rparr>"
  shows "nodes_ok seed t'"
proof -
  let ?nd = "nd[p := (nd ! p)\<lparr>i_key := k\<rparr>]"
  have len': "length ?nd = length nd" by simp
  have key: "i_key (?nd ! i) = (if i = p then k else i_key (nd ! i))" for i
    using p len by (auto simp: nth_list_update)
  have val': "i_val (?nd ! i) = i_val (nd ! i)" for i
    using p len by (cases "i = p") auto
  have nx': "nx (?nd ! i) = nx (nd ! i)" for i
    using p len by (cases "i = p") auto
  note cong = chain_cong [OF len' nx']
  have mp: "mainposition seed t' k = mainposition seed t k" for k
    unfolding t' by (rule mainposition_cong) simp
  have sz: "sizenode t' = sizenode t" by (simp add: t' sizenode_def)
  have home': "i_key (?nd ! q) \<noteq> LNil \<and>
      (canonical (i_key (?nd ! q)) \<longrightarrow> mainposition seed t (i_key (?nd ! q)) = q)"
    if "at_home seed t nd p k q" for q
    using that k unfolding key at_home_def by (cases "q = p") auto
  have knil: "k \<noteq> LNil" using k by auto
  show ?thesis
    unfolding nodes_ok_def sz mp Let_def
  proof (intro conjI allI impI)
    show "length (t_node t') = sizenode t" using len by (simp add: t')
    show "links_ok (t_node t')" using links cong(2) by (simp add: t')
    fix i assume i: "i < sizenode t"
    show "i_val (t_node t' ! i) = LNil" if "i_key (t_node t' ! i) = LNil"
      using that fits [OF i] knil by (auto simp: t' key val' node_fits_def split: if_splits)
    show "isolated (t_node t') i" if "i_key (t_node t' ! i) = LNil"
      using that fits [OF i] knil cong(3) by (auto simp: t' key node_fits_def split: if_splits)
    show "stored_key (i_key (t_node t' ! i))"
      using fits [OF i] k by (auto simp: t' key node_fits_def stored_key_def)
    show "canonical (i_key (t_node t' ! i))" if "i_val (t_node t' ! i) \<noteq> LNil"
      using that fits [OF i] k by (auto simp: t' key val' node_fits_def)
    show "reach (t_node t') (mainposition seed t (i_key (t_node t' ! i))) i"
      if "canonical (i_key (t_node t' ! i))"
      using that fits [OF i] rk cong(1) by (auto simp: t' key node_fits_def split: if_splits)
    have "at_home seed t nd p k (mainposition seed t (i_key (t_node t' ! i)))"
      if "canonical (i_key (t_node t' ! i))"
      using that fits [OF i] home by (auto simp: t' key node_fits_def split: if_splits)
    note at = home' [OF this]
    show "i_key (t_node t' ! mainposition seed t (i_key (t_node t' ! i))) \<noteq> LNil"
      if "canonical (i_key (t_node t' ! i))"
      using at [OF that] by (simp add: t')
    show "mainposition seed t (i_key (t_node t' ! mainposition seed t (i_key (t_node t' ! i)))) =
          mainposition seed t (i_key (t_node t' ! i))"
      if "canonical (i_key (t_node t' ! i))"
        "canonical (i_key (t_node t' ! mainposition seed t (i_key (t_node t' ! i))))"
      using at [OF that(1)] that(2) by (simp add: t')
    fix j assume j: "j < sizenode t"
    show "i = j" if "canonical (i_key (t_node t' ! i))" "i_key (t_node t' ! i) = i_key (t_node t' ! j)"
      using that dist [OF i j] fits [OF i] fits [OF j]
      by (auto simp: t' key node_fits_def split: if_splits)
  qed
qed

section \<open>The rest of the table\<close>

lemma entries_write_key:
  assumes "p < length nd" and "i_val (nd ! p) = LNil"
  shows "entries (nd[p := (nd ! p)\<lparr>i_key := k\<rparr>]) = entries nd"
proof (rule set_eqI)
  fix e :: "tvalue \<times> tvalue"
  obtain k' v where e: "e = (k', v)" by (cases e)
  have "i < length nd \<Longrightarrow> v \<noteq> LNil \<Longrightarrow>
      i_key (nd[p := (nd ! p)\<lparr>i_key := k\<rparr>] ! i) = k' \<and> i_val (nd[p := (nd ! p)\<lparr>i_key := k\<rparr>] ! i) = v \<longleftrightarrow>
      i_key (nd ! i) = k' \<and> i_val (nd ! i) = v" for i
    using assms by (cases "i = p") auto
  then show "e \<in> entries (nd[p := (nd ! p)\<lparr>i_key := k\<rparr>]) \<longleftrightarrow> e \<in> entries nd"
    unfolding e entries_iff by auto
qed

text \<open>
  Everything but the node invariant, once for the three cases: \<open>f\<close> is the one node that may
  have stopped being free.
\<close>

lemma write_key_inserted:
  assumes ok: "tab_ok seed t" and k: "canonical k" and new: "slot_for t k NilSlot"
    and nd: "\<not> t_dummy t" and len: "length nd = sizenode t" and p: "p < sizenode t"
    and val: "i_val (nd ! p) = LNil" and ent: "entries nd = entries (t_node t)"
    and nodes: "nodes_ok seed t'"
    and t': "t' = t\<lparr>t_node := nd[p := (nd ! p)\<lparr>i_key := k\<rparr>], t_lastfree := lf\<rparr>"
    and keys: "\<And>i. i < sizenode t \<Longrightarrow> i \<noteq> p \<Longrightarrow>
      i_key (nd ! i) = i_key (t_node t ! i) \<or> (\<exists>j < sizenode t. i = f \<and> i_key (nd ! i) = i_key (t_node t ! j) \<and> i_key (nd ! i) \<noteq> LNil)"
    and pf: "p = f \<or> i_key (t_node t ! p) \<noteq> LNil"
    and lf: "lf \<le> sizenode t"
      "\<And>i. lf \<le> i \<Longrightarrow> i < sizenode t \<Longrightarrow> i \<noteq> f \<Longrightarrow> i \<noteq> p \<Longrightarrow> i_key (t_node t ! i) \<noteq> LNil"
    and f: "f = p \<or> i_key (nd ! f) \<noteq> LNil"
  shows "inserted seed t k (t', NodeSlot p)"
proof -
  have nok: "nodes_ok seed t" using ok by (simp add: tab_ok_def)
  have key: "i_key (t_node t' ! i) = (if i = p then k else i_key (nd ! i))" for i
    using p len by (auto simp: t' nth_list_update)
  have sz: "sizenode t' = sizenode t" by (simp add: t' sizenode_def)
  have arr: "in_array t' = in_array t" by (simp add: t' in_array_def fun_eq_iff)
  have knil: "k \<noteq> LNil" using k by auto
  have look: "node_lookup (t_node t') = node_lookup (t_node t)"
    using entries_write_key [of p nd k] p len val ent
    by (intro node_lookup_eqI [OF nok nodes]) (simp add: t')
  have free: "free_ok t'"
  proof -
    have "i_key (t_node t' ! i) \<noteq> LNil" if "lf \<le> i" "i < sizenode t" for i
      using that lf(2) [of i] keys [of i] f knil unfolding key by (cases "i = p"; cases "i = f") auto
    then show ?thesis using nd lf(1) unfolding free_ok_def sz by (simp add: t')
  qed
  have noarr: "\<not> in_array t (i_key (t_node t' ! i))" if i: "i < sizenode t" for i
  proof (cases "i = p")
    case True
    then show ?thesis using new by (simp add: key slot_for_def)
  next
    case False
    then show ?thesis using keys [OF i False] ok i unfolding key by (auto simp: tab_ok_def)
  qed
  have "{i. i < sizenode t \<and> i_key (t_node t ! i) = LNil} \<subseteq>
        insert f {i. i < sizenode t' \<and> i_key (t_node t' ! i) = LNil}"
    using keys pf unfolding sz key by force
  then have "nfree t \<le> card (insert f {i. i < sizenode t' \<and> i_key (t_node t' ! i) = LNil})"
    unfolding nfree_def by (intro card_mono) auto
  then have "nfree t \<le> Suc (nfree t')" unfolding nfree_def
    by (rule order_trans) (rule card_insert_le_m1; simp)
  moreover have "tab_ok seed t'" using ok nodes free noarr
    unfolding tab_ok_def sz arr by (simp add: t')
  moreover have "slot_for t' k (NodeSlot p)" using new p key by (simp add: slot_for_def sz arr)
  moreover have "tab_map t' = tab_map t" using look arr by (simp add: tab_map_def fun_eq_iff t')
  ultimately show ?thesis by (simp add: inserted_def t')
qed

section \<open>The three cases\<close>

lemma nodes_ok_fits:
  assumes "nodes_ok seed t" and "i < sizenode t"
  shows "i_key (t_node t ! i) = LNil \<Longrightarrow> i_val (t_node t ! i) = LNil \<and> isolated (t_node t) i"
    and "stored_key (i_key (t_node t ! i))"
    and "i_val (t_node t ! i) \<noteq> LNil \<Longrightarrow> canonical (i_key (t_node t ! i))"
    and "canonical (i_key (t_node t ! i)) \<Longrightarrow> reach (t_node t) (mainposition seed t (i_key (t_node t ! i))) i"
  using assms unfolding nodes_ok_def by blast+

lemma nodes_ok_home:
  assumes "nodes_ok seed t" and "i < sizenode t" and "canonical (i_key (t_node t ! i))"
    and "q = mainposition seed t (i_key (t_node t ! i))"
  shows "i_key (t_node t ! q) \<noteq> LNil"
    and "canonical (i_key (t_node t ! q)) \<Longrightarrow> mainposition seed t (i_key (t_node t ! q)) = q"
  using assms unfolding nodes_ok_def Let_def by blast+

text \<open>The main position is empty and takes the key.\<close>

lemma set_key_main_ok:
  assumes ok: "tab_ok seed t" and k: "canonical k" and new: "slot_for t k NilSlot"
    and mp: "mp = mainposition seed t k" and val: "i_val (t_node t ! mp) = LNil" and nd: "\<not> t_dummy t"
  shows "inserted seed t k (set_key t mp k)"
proof -
  have nok: "nodes_ok seed t" using ok by (simp add: tab_ok_def)
  note okD = nodes_okD [OF nok]
  have p: "mp < sizenode t" using mp mainposition_less by simp
  let ?t' = "t\<lparr>t_node := (t_node t)[mp := (t_node t ! mp)\<lparr>i_key := k\<rparr>], t_lastfree := t_lastfree t\<rparr>"
  have home: "at_home seed t (t_node t) mp k (mainposition seed t k)" by (simp add: at_home_def mp)
  have fits: "node_fits seed t (t_node t) mp k i" if i: "i < sizenode t" for i
    using nodes_ok_fits [OF nok i] nodes_ok_home [OF nok i] new i
    unfolding node_fits_def at_home_def by (auto simp: slot_for_def mp)
  have dist: "i = j" if "i < sizenode t" "j < sizenode t" "canonical (i_key (t_node t ! i))"
    "i_key (t_node t ! i) = i_key (t_node t ! j)" for i j
    using okD(7) that by metis
  have nodes: "nodes_ok seed ?t'"
    by (rule nodes_ok_write_key [where p = mp and nd = "t_node t" and lf = "t_lastfree t", OF okD(1) p okD(2) k val])
      (use fits dist home mp in simp_all)
  have "inserted seed t k (?t', NodeSlot mp)"
    by (rule write_key_inserted [OF ok k new nd okD(1) p val refl nodes refl, where f = mp])
      (use ok nd in \<open>auto simp: tab_ok_def free_ok_def\<close>)
  then show ?thesis by (simp add: set_key_def)
qed

lemma lastfree_node_swap: "t\<lparr>t_lastfree := f, t_node := nd\<rparr> = t\<lparr>t_node := nd, t_lastfree := f\<rparr>"
  by (cases t) simp

lemma free_node:
  assumes ok: "tab_ok seed t" and free: "getfreepos t = (Some f, t1)"
  shows "f < sizenode t" and "i_key (t_node t ! f) = LNil" and "t1 = t\<lparr>t_lastfree := f\<rparr>"
    and "\<not> t_dummy t"
    and "f \<le> i \<Longrightarrow> i < sizenode t \<Longrightarrow> i \<noteq> f \<Longrightarrow> i_key (t_node t ! i) \<noteq> LNil"
proof -
  obtain r k' where r: "getfreepos_loop (t_node t) (t_lastfree t) = (r, k')" by fastforce
  from free r have rk: "r = Some f" "t1 = t\<lparr>t_lastfree := k'\<rparr>" by (auto simp: getfreepos_def)
  from getfreepos_loop_spec [OF r] rk
  have spec: "k' = f" "f < t_lastfree t" "i_key (t_node t ! f) = LNil"
    "\<forall>i. f < i \<and> i < t_lastfree t \<longrightarrow> i_key (t_node t ! i) \<noteq> LNil" by auto
  show nd: "\<not> t_dummy t" using ok spec(2) by (auto simp: tab_ok_def free_ok_def)
  show "f < sizenode t" using ok nd spec(2) by (auto simp: tab_ok_def free_ok_def)
  show "i_key (t_node t ! f) = LNil" "t1 = t\<lparr>t_lastfree := f\<rparr>" using spec rk by auto
  show "f \<le> i \<Longrightarrow> i < sizenode t \<Longrightarrow> i \<noteq> f \<Longrightarrow> i_key (t_node t ! i) \<noteq> LNil"
    using ok nd spec(4) by (cases "i < t_lastfree t") (auto simp: tab_ok_def free_ok_def)
qed

lemma entries_cong:
  assumes "length nd' = length nd" and "\<And>i. i_val (nd' ! i) = i_val (nd ! i)"
    and "\<And>i. i_key (nd' ! i) = i_key (nd ! i)"
  shows "entries nd' = entries nd"
proof (rule set_eqI)
  fix e :: "tvalue \<times> tvalue"
  obtain k v where "e = (k, v)" by (cases e)
  then show "e \<in> entries nd' \<longleftrightarrow> e \<in> entries nd" using assms by (simp add: entries_iff)
qed

text \<open>The colliding node is at home: the new key goes to the free node, linked after it.\<close>

lemma set_key_link_ok:
  assumes ok: "tab_ok seed t" and k: "canonical k" and new: "slot_for t k NilSlot"
    and mp: "mp = mainposition seed t k" and val: "i_val (t_node t ! mp) \<noteq> LNil"
    and free: "getfreepos t = (Some f, t1)"
    and home: "mainposition seed t (i_key (t_node t ! mp)) = mp"
  shows "inserted seed t k (set_key (t1\<lparr>t_node := link_node (t_node t) mp f\<rparr>) f k)"
proof -
  have nok: "nodes_ok seed t" using ok by (simp add: tab_ok_def)
  note okD = nodes_okD [OF nok] and fr = free_node [OF ok free]
  have mpl: "mp < sizenode t" using mp mainposition_less by simp
  have kmp: "canonical (i_key (t_node t ! mp))" using okD(5) mpl val by blast
  have ne: "mp \<noteq> f" using kmp fr(2) by auto
  have iso: "isolated (t_node t) f" using okD(4) fr(1,2) by blast
  have valf: "i_val (t_node t ! f) = LNil" using okD(3) fr(1,2) by blast
  let ?nd = "link_node (t_node t) mp f"
  let ?t' = "t\<lparr>t_node := ?nd[f := (?nd ! f)\<lparr>i_key := k\<rparr>], t_lastfree := f\<rparr>"
  have mpl': "mp < length (t_node t)" using mpl okD(1) by simp
  note fields = link_node_fields [OF ne, of "t_node t"]
  note succ = link_node_succ [OF okD(2) mpl' iso ne]
  note reach = link_node_reach [OF okD(2) mpl' iso ne]
  have len: "length ?nd = sizenode t" using okD(1) by simp
  have isol: "isolated ?nd i" if "i < sizenode t" "i \<noteq> f" "i_key (t_node t ! i) = LNil" for i
  proof -
    have i: "isolated (t_node t) i" using okD(4) that by blast
    have "i \<noteq> mp" using that kmp by auto
    then show ?thesis using i that(2) succ okD(1) fr(1) mpl iso
      by (auto simp: isolated_def link_node_nx [OF mpl' _ ne])
  qed
  have fits: "node_fits seed t ?nd f k i" if i: "i < sizenode t" "i \<noteq> f" for i
    using nodes_ok_fits [OF nok i(1)] nodes_ok_home [OF nok i(1)] new i isol reach(1) fr(2)
    unfolding node_fits_def at_home_def fields by (auto simp: slot_for_def)
  have dist: "i = j" if "i < sizenode t" "j < sizenode t" "canonical (i_key (t_node t ! i))"
    "i_key (t_node t ! i) = i_key (t_node t ! j)" for i j
    using okD(7) that by metis
  have hk: "at_home seed t ?nd f k (mainposition seed t k)"
    using home kmp ne unfolding at_home_def fields by (auto simp flip: mp)
  have nodes: "nodes_ok seed ?t'"
    by (rule nodes_ok_write_key [where p = f and k = k and nd = ?nd, OF len fr(1) _ k])
      (use fits dist hk reach(2) mp valf fields link_node_links_ok [OF okD(2) mpl' iso ne] in auto)
  have valf': "i_val (?nd ! f) = LNil" using valf fields by simp
  have "inserted seed t k (?t', NodeSlot f)"
    by (rule write_key_inserted [OF ok k new fr(4) len fr(1) valf' _ nodes refl, where f = f])
      (use fr fields entries_cong [of ?nd "t_node t"] in auto)
  then show ?thesis using fr(3) by (simp add: set_key_def lastfree_node_swap)
qed

text \<open>
  The colliding node is not at home: it moves to the free node, and the new key takes its
  place.
\<close>

lemma set_key_move_ok:
  assumes ok: "tab_ok seed t" and k: "canonical k" and new: "slot_for t k NilSlot"
    and mp: "mp = mainposition seed t k" and val: "i_val (t_node t ! mp) \<noteq> LNil"
    and free: "getfreepos t = (Some f, t1)"
    and away: "mainposition seed t (i_key (t_node t ! mp)) \<noteq> mp"
  shows "\<exists>p. find_prev (length (t_node t)) (t_node t) mp (mainposition seed t (i_key (t_node t ! mp))) = Inr p \<and>
    inserted seed t k (set_key (t1\<lparr>t_node := move_node (t_node t) p mp f\<rparr>) mp k)"
proof -
  have nok: "nodes_ok seed t" using ok by (simp add: tab_ok_def)
  note okD = nodes_okD [OF nok] and fr = free_node [OF ok free]
  let ?o = "mainposition seed t (i_key (t_node t ! mp))"
  have mpl: "mp < sizenode t" using mp mainposition_less by simp
  then have mpl': "mp < length (t_node t)" using okD(1) by simp
  have kmp: "canonical (i_key (t_node t ! mp))" using okD(5) mpl val by blast
  have iso: "isolated (t_node t) f" using okD(4) fr(1,2) by blast
  have valf: "i_val (t_node t ! f) = LNil" using okD(3) fr(1,2) by blast
  have ol: "?o < length (t_node t)" using mainposition_less okD(1) by simp
  have omp: "reach (t_node t) ?o mp" using okD(6) [OF mpl kmp] .
  obtain p where p: "find_prev (length (t_node t)) (t_node t) mp ?o = Inr p" "node_succ (t_node t) p mp"
    using find_prev_Inr [OF okD(2) ol omp away] by blast
  have pl: "p < length (t_node t)" using p(2) by (simp add: node_succ_def)
  have fl: "f < length (t_node t)" using iso by (simp add: isolated_def)
  have ne: "f \<noteq> mp" using kmp fr(2) by auto
  have pmp: "p \<noteq> mp" using p(2) okD(2) unfolding links_ok_def by (metis less_irrefl)
  have pf: "p \<noteq> f" using p(2) isolated_no_succ [OF iso] by auto
  let ?nd = "move_node (t_node t) p mp f"
  let ?t' = "t\<lparr>t_node := ?nd[mp := (?nd ! mp)\<lparr>i_key := k\<rparr>], t_lastfree := f\<rparr>"
  note nths = move_node_nth [OF mpl' fl pl pmp ne pf]
  note succ = move_node_succ [OF okD(2) p(2) iso ne pmp pf mpl']
  note reach = move_node_reach [OF okD(2) p(2) iso ne pmp pf mpl']
  have key: "i_key (?nd ! i) = (if i = f then i_key (t_node t ! mp) else i_key (t_node t ! i))" for i
    using ne pf pmp by (cases "i = f"; cases "i = mp"; cases "i = p") (simp_all add: nths)
  have vals: "i_val (?nd ! i) = (if i = f then i_val (t_node t ! mp) else if i = mp then LNil else i_val (t_node t ! i))" for i
    using ne pf pmp by (cases "i = f"; cases "i = mp"; cases "i = p") (simp_all add: nths)
  have len: "length ?nd = sizenode t" using okD(1) by simp
  have notmp: "mainposition seed t (i_key (t_node t ! i)) \<noteq> mp"
    if "i < sizenode t" "canonical (i_key (t_node t ! i))" for i
    using nodes_ok_home(2) [OF nok that refl] kmp away by metis
  have notf: "mainposition seed t (i_key (t_node t ! i)) \<noteq> f"
    if "i < sizenode t" "canonical (i_key (t_node t ! i))" for i
    using nodes_ok_home(1) [OF nok that refl] fr(2) by metis
  have fits: "node_fits seed t ?nd mp k i" if i: "i < sizenode t" "i \<noteq> mp" for i
  proof (cases "i = f")
    case True
    have "reach ?nd ?o f" using reach [OF omp away] by simp
    moreover have "at_home seed t ?nd mp k ?o"
      using nodes_ok_home [OF nok mpl kmp refl] notf [OF mpl kmp] away by (simp add: at_home_def key)
    moreover have "stored_key (i_key (t_node t ! mp))" using nodes_ok_fits(2) [OF nok mpl] .
    moreover have "i_key (t_node t ! mp) \<noteq> k" using new mpl by (simp add: slot_for_def)
    ultimately show ?thesis using True kmp ne unfolding node_fits_def key by auto
  next
    case False
    have isol: "isolated ?nd i" if e: "i_key (t_node t ! i) = LNil"
    proof -
      have i0: "isolated (t_node t) i" using okD(4) i(1) e by blast
      have "i \<noteq> p" using i0 p(2) isolated_no_succ by blast
      then have "?nd ! i = t_node t ! i" using nths(4) False i(2) by simp
      then show ?thesis using i0 succ False by (auto simp: isolated_def)
    qed
    have rch: "reach ?nd (mainposition seed t (i_key (t_node t ! i))) i"
      if "canonical (i_key (t_node t ! i))"
      using reach [OF nodes_ok_fits(4) [OF nok i(1) that] notmp [OF i(1) that]] i(2) by simp
    have hm: "at_home seed t ?nd mp k (mainposition seed t (i_key (t_node t ! i)))"
      if "canonical (i_key (t_node t ! i))"
      using nodes_ok_home [OF nok i(1) that refl] notf [OF i(1) that] notmp [OF i(1) that]
      by (simp add: at_home_def key)
    have "i_key (t_node t ! i) \<noteq> k" using new i(1) by (simp add: slot_for_def)
    then show ?thesis using False i(2) isol rch hm nodes_ok_fits(1-3) [OF nok i(1)]
      unfolding node_fits_def key vals by simp
  qed
  have dist0: "i = j" if "i < sizenode t" "j < sizenode t" "canonical (i_key (t_node t ! i))"
    "i_key (t_node t ! i) = i_key (t_node t ! j)" for i j
    using okD(7) that by metis
  have dist: "i = j" if "i < sizenode t" "j < sizenode t" "i \<noteq> mp" "j \<noteq> mp"
    "canonical (i_key (?nd ! i))" "i_key (?nd ! i) = i_key (?nd ! j)" for i j
    using that dist0 [of "if i = f then mp else i" "if j = f then mp else j"] mpl
    unfolding key by (auto split: if_splits)
  have hk: "at_home seed t ?nd mp k (mainposition seed t k)" by (simp add: at_home_def mp)
  have links: "links_ok ?nd" by (rule move_node_links_ok [OF okD(2) p(2) iso ne pmp pf mpl'])
  have valmp: "i_val (?nd ! mp) = LNil" using vals ne by simp
  have nodes: "nodes_ok seed ?t'"
    by (rule nodes_ok_write_key [where p = mp and k = k and nd = ?nd and lf = f, OF len mpl links k valmp])
      (use fits dist hk mp in auto)
  have ent: "entries ?nd = entries (t_node t)"
  proof (rule set_eqI)
    fix e :: "tvalue \<times> tvalue"
    obtain k' v where e: "e = (k', v)" by (cases e)
    have "(\<exists>i < length (t_node t). i_key (?nd ! i) = k' \<and> i_val (?nd ! i) = v) \<longleftrightarrow>
          (\<exists>i < length (t_node t). i_key (t_node t ! i) = k' \<and> i_val (t_node t ! i) = v)" if "v \<noteq> LNil"
    proof
      assume "\<exists>i < length (t_node t). i_key (?nd ! i) = k' \<and> i_val (?nd ! i) = v"
      then show "\<exists>i < length (t_node t). i_key (t_node t ! i) = k' \<and> i_val (t_node t ! i) = v"
        unfolding key vals using that mpl' by (auto split: if_splits)
    next
      assume "\<exists>i < length (t_node t). i_key (t_node t ! i) = k' \<and> i_val (t_node t ! i) = v"
      then obtain i where i: "i < length (t_node t)" "i_key (t_node t ! i) = k'" "i_val (t_node t ! i) = v" by blast
      then have "i \<noteq> f" using valf that by auto
      then have "i_key (?nd ! (if i = mp then f else i)) = k' \<and> i_val (?nd ! (if i = mp then f else i)) = v"
        using i ne unfolding key vals by (cases "i = mp") simp_all
      then show "\<exists>i < length (t_node t). i_key (?nd ! i) = k' \<and> i_val (?nd ! i) = v"
        using i(1) fl by (intro exI [of _ "if i = mp then f else i"]) simp
    qed
    then show "e \<in> entries ?nd \<longleftrightarrow> e \<in> entries (t_node t)"
      unfolding e entries_iff length_move_node by blast
  qed
  have keys: "i_key (?nd ! i) = i_key (t_node t ! i) \<or>
      (\<exists>j < sizenode t. i = f \<and> i_key (?nd ! i) = i_key (t_node t ! j) \<and> i_key (?nd ! i) \<noteq> LNil)" for i
    using mpl kmp unfolding key by auto
  have "inserted seed t k (?t', NodeSlot mp)"
    by (rule write_key_inserted [OF ok k new fr(4) len mpl valmp ent nodes refl, where f = f])
      (use fr keys kmp ne in \<open>auto simp: key\<close>)
  then show ?thesis using p(1) fr(3) by (auto simp add: set_key_def lastfree_node_swap)
qed

section \<open>A new key without growth\<close>

definition has_room :: "u32 \<Rightarrow> table \<Rightarrow> tvalue \<Rightarrow> bool" where
  "has_room seed t k \<longleftrightarrow>
     (i_val (t_node t ! mainposition seed t k) = LNil \<and> \<not> t_dummy t) \<or> fst (getfreepos t) \<noteq> None"

lemma newkey_key_canonical: "canonical k \<Longrightarrow> newkey_key k = Inr k"
  by (cases k) (auto simp: newkey_key_def)

lemma newkey_step_room:
  assumes ok: "tab_ok seed t" and k: "canonical k" and new: "slot_for t k NilSlot"
    and room: "has_room seed t k"
  shows "\<exists>r. newkey_step rec seed t k = Inr r \<and> inserted seed t k r"
proof -
  let ?mp = "mainposition seed t k"
  obtain fo t1 where gf: "getfreepos t = (fo, t1)" by fastforce
  consider (empty) "i_val (t_node t ! ?mp) = LNil" "\<not> t_dummy t"
    | (free) f where "i_val (t_node t ! ?mp) \<noteq> LNil" "fo = Some f"
  proof (cases "i_val (t_node t ! ?mp) = LNil \<and> \<not> t_dummy t")
    case False
    then have "fst (getfreepos t) \<noteq> None" using room by (auto simp: has_room_def)
    then obtain f where f: "fo = Some f" using gf by auto
    then have "\<not> t_dummy t" using free_node(4) [OF ok] gf by blast
    then show ?thesis using that(2) [of f] False f by blast
  qed (use that in blast)
  then show ?thesis
  proof cases
    case empty
    then have "newkey_step rec seed t k = Inr (set_key t ?mp k)"
      by (simp add: newkey_step_def newkey_key_canonical [OF k])
    then show ?thesis using set_key_main_ok [OF ok k new refl] empty by auto
  next
    case (free f)
    then have free': "getfreepos t = (Some f, t1)" using gf by simp
    note fr = free_node [OF ok free']
    have mp1: "mainposition seed t1 x = mainposition seed t x" "t_node t1 = t_node t" for x
      using fr(3) by (auto intro: mainposition_cong)
    show ?thesis
    proof (cases "mainposition seed t (i_key (t_node t ! ?mp)) = ?mp")
      case True
      then have "newkey_step rec seed t k = Inr (set_key (t1\<lparr>t_node := link_node (t_node t) ?mp f\<rparr>) f k)"
        using free free' mp1 by (simp add: newkey_step_def newkey_key_canonical [OF k])
      then show ?thesis using set_key_link_ok [OF ok k new refl free(1) free' True] by blast
    next
      case False
      obtain p where p: "find_prev (length (t_node t)) (t_node t) ?mp (mainposition seed t (i_key (t_node t ! ?mp))) = Inr p"
        "inserted seed t k (set_key (t1\<lparr>t_node := move_node (t_node t) p ?mp f\<rparr>) ?mp k)"
        using set_key_move_ok [OF ok k new refl free(1) free' False] by blast
      then have "newkey_step rec seed t k = Inr (set_key (t1\<lparr>t_node := move_node (t_node t) p ?mp f\<rparr>) ?mp k)"
        using free free' mp1 False by (simp add: newkey_step_def newkey_key_canonical [OF k] Let_def)
      then show ?thesis using p(2) by blast
    qed
  qed
qed

lemma nfree_room:
  assumes ok: "tab_ok seed t" and nd: "\<not> t_dummy t" and free: "0 < nfree t"
  shows "has_room seed t k"
proof -
  obtain i where i: "i < sizenode t" "i_key (t_node t ! i) = LNil"
    using free by (auto simp: nfree_def card_gt_0_iff)
  moreover have "\<forall>i. t_lastfree t \<le> i \<and> i < sizenode t \<longrightarrow> i_key (t_node t ! i) \<noteq> LNil"
    using ok nd by (simp add: tab_ok_def free_ok_def)
  ultimately have "i < t_lastfree t" by (meson not_le)
  moreover obtain r k' where r: "getfreepos_loop (t_node t) (t_lastfree t) = (r, k')" by fastforce
  ultimately have "r \<noteq> None" using getfreepos_loop_spec [OF r] i(2) by auto
  then show ?thesis using r by (simp add: has_room_def getfreepos_def)
qed

end
