(* ===== verification/Lua_Table_Resize.thy ===== *)
theory Lua_Table_Resize
  imports Lua_Table_Insert
begin

text \<open>
  Resizing: \<open>luaH_resize\<close> keeps the contents of the table whenever the new hash part is large
  enough for the keys that go to it, and what \<open>rehash\<close> counts makes it so.
\<close>

section \<open>Storing into a table that has room\<close>

text \<open>\<open>nodes_room t m\<close>: \<open>m\<close> more keys can be put into the hash part without a rehash.\<close>

definition nodes_room :: "table \<Rightarrow> nat \<Rightarrow> bool" where
  "nodes_room t m \<longleftrightarrow> m = 0 \<or> (\<not> t_dummy t \<and> m \<le> nfree t)"

definition hash_key :: "nat \<Rightarrow> tvalue \<Rightarrow> bool" where
  "hash_key n k \<longleftrightarrow> \<not> (arrayindex k \<noteq> 0 \<and> arrayindex k \<le> n)"

lemma in_array_hash_key: "in_array t k \<longleftrightarrow> \<not> hash_key (sizearray t) k"
  by (simp add: in_array_def hash_key_def)

lemma luaH_get_canonical_slot:
  assumes "tab_ok seed t" and "canonical k"
  obtains s where "luaH_get seed t k = Inr s" and "slot_for t k s"
  using get_slot [of seed t k] assms by auto

lemma inserted_nodes_room:
  assumes ins: "inserted seed t k (t', s)" and k: "canonical k" and arr: "\<not> in_array t k"
    and room: "nodes_room t (Suc m)"
  shows "nodes_room t' m"
proof -
  have ok: "tab_ok seed t'" "slot_for t' k s" "s \<noteq> NilSlot" "t_array t' = t_array t" "nfree t \<le> Suc (nfree t')"
    using ins by (auto simp: inserted_def)
  have "\<not> in_array t' k" using arr ok(4) by (simp add: in_array_def)
  then obtain i where "s = NodeSlot i" using ok(2,3) by (cases s) (auto simp: slot_for_def)
  then have "\<not> t_dummy t'" using slot_for_node_not_dummy ok k by blast
  then show ?thesis using room ok(5) by (auto simp: nodes_room_def)
qed

definition stored :: "u32 \<Rightarrow> table \<Rightarrow> tvalue \<Rightarrow> tvalue \<Rightarrow> table \<Rightarrow> bool" where
  "stored seed t k v t' \<longleftrightarrow> tab_ok seed t' \<and> tab_map t' = (tab_map t)(k := v) \<and>
     sizearray t' = sizearray t \<and> t_lsizenode t' = t_lsizenode t"

lemma nfree_set_slot [simp]: "nfree (set_slot t s v) = nfree t"
  by (simp add: nfree_def set_slot_nodes)

text \<open>A key that is in the table, or for which there is room, can be set without a rehash.\<close>

lemma set_with_room:
  assumes ok: "tab_ok seed t" and k: "canonical k"
    and room: "nodes_room t (if hash_key (sizearray t) k then Suc m else m)"
  shows "\<exists>t' s. luaH_set_with (newkey_step rec seed) seed t k = Inr (t', s) \<and>
           tab_ok seed t' \<and> slot_for t' k s \<and> s \<noteq> NilSlot \<and> tab_map t' = tab_map t \<and>
           sizearray t' = sizearray t \<and> t_lsizenode t' = t_lsizenode t \<and> nodes_room t' m"
proof -
  obtain s where s: "luaH_get seed t k = Inr s" "slot_for t k s"
    using luaH_get_canonical_slot [OF ok k] .
  show ?thesis
  proof (cases "s = NilSlot")
    case False
    then show ?thesis using s ok room
      by (auto simp: luaH_set_with_def nodes_room_def split: if_splits)
  next
    case True
    then have new: "slot_for t k NilSlot" and arr: "\<not> in_array t k"
      using s(2) by (simp_all add: slot_for_def)
    then have rm: "nodes_room t (Suc m)" using room by (simp add: in_array_hash_key)
    then have "has_room seed t k" using nfree_room [OF ok, of k] by (auto simp: nodes_room_def)
    then obtain t' s' where r: "newkey_step rec seed t k = Inr (t', s')" "inserted seed t k (t', s')"
      using newkey_step_room [OF ok k new] by (metis surj_pair)
    then show ?thesis using s(1) True inserted_nodes_room [OF r(2) k arr rm]
      by (auto simp: luaH_set_with_def inserted_def)
  qed
qed

lemma reinsert_node_room:
  assumes ok: "tab_ok seed t" and k: "canonical (i_key n)" and v: "i_val n \<noteq> LNil"
    and room: "nodes_room t (if hash_key (sizearray t) (i_key n) then Suc m else m)"
  shows "\<exists>t'. reinsert_node (newkey_step rec seed) seed n t = Inr t' \<and>
           stored seed t (i_key n) (i_val n) t' \<and> nodes_room t' m"
proof -
  obtain t' s where t': "luaH_set_with (newkey_step rec seed) seed t (i_key n) = Inr (t', s)"
    "tab_ok seed t'" "slot_for t' (i_key n) s" "s \<noteq> NilSlot" "tab_map t' = tab_map t"
    "sizearray t' = sizearray t" "t_lsizenode t' = t_lsizenode t" "nodes_room t' m"
    using set_with_room [OF ok k room] by blast
  have "nodes_room (set_slot t' s (i_val n)) m" using t'(8) by (simp add: nodes_room_def)
  then show ?thesis using t' set_slot_ok [OF t'(2) k t'(3,4)] v
    by (simp add: reinsert_node_def stored_def)
qed

lemma reinsert_array_node:
  "reinsert_array newkey (i, v) t =
     reinsert_node newkey seed \<lparr>i_val = v, i_key = LInt (of_nat (i + 1)), nx = 0\<rparr> t"
  by (simp add: reinsert_array_def reinsert_node_def luaH_setint_with_def luaH_set_with_def
      ebind_assoc)

section \<open>Storing many entries\<close>

definition put_nodes :: "node list \<Rightarrow> (tvalue \<Rightarrow> tvalue) \<Rightarrow> tvalue \<Rightarrow> tvalue" where
  "put_nodes ns m = fold (\<lambda>n m. if i_val n \<noteq> LNil then m(i_key n := i_val n) else m) ns m"

lemma put_nodes_simps [simp]:
  "put_nodes [] m = m"
  "put_nodes (n # ns) m = put_nodes ns (if i_val n \<noteq> LNil then m(i_key n := i_val n) else m)"
  by (simp_all add: put_nodes_def)

definition hash_load :: "nat \<Rightarrow> node list \<Rightarrow> nat" where
  "hash_load sz ns = length (filter (\<lambda>n. i_val n \<noteq> LNil \<and> hash_key sz (i_key n)) ns)"

lemma reinsert_nodes:
  assumes "tab_ok seed t" and "\<And>n. n \<in> set ns \<Longrightarrow> i_val n \<noteq> LNil \<Longrightarrow> canonical (i_key n)"
    and "nodes_room t (hash_load (sizearray t) ns + m)"
  shows "\<exists>t'. efold (reinsert_node (newkey_step rec seed) seed) ns t = Inr t' \<and> tab_ok seed t' \<and>
           tab_map t' = put_nodes ns (tab_map t) \<and> sizearray t' = sizearray t \<and>
           t_lsizenode t' = t_lsizenode t \<and> nodes_room t' m"
  using assms
proof (induction ns arbitrary: t)
  case Nil
  then show ?case by (simp add: hash_load_def)
next
  case (Cons n ns)
  show ?case
  proof (cases "i_val n = LNil")
    case True
    then show ?thesis using Cons.IH [of t] Cons.prems
      by (simp add: reinsert_node_def hash_load_def)
  next
    case False
    let ?m = "hash_load (sizearray t) ns + m"
    have "nodes_room t (if hash_key (sizearray t) (i_key n) then Suc ?m else ?m)"
      using Cons.prems(3) False by (simp add: hash_load_def split: if_splits)
    then obtain t1 where t1: "reinsert_node (newkey_step rec seed) seed n t = Inr t1"
      "stored seed t (i_key n) (i_val n) t1" "nodes_room t1 ?m"
      using reinsert_node_room [OF Cons.prems(1)] Cons.prems(2) False by (metis list.set_intros(1))
    have st: "tab_ok seed t1" "sizearray t1 = sizearray t" "t_lsizenode t1 = t_lsizenode t"
      "tab_map t1 = (tab_map t)(i_key n := i_val n)"
      using t1(2) by (simp_all add: stored_def)
    have "nodes_room t1 (hash_load (sizearray t1) ns + m)" using t1(3) st(2) by simp
    from Cons.IH [OF st(1) _ this] Cons.prems(2) obtain t' where t':
      "efold (reinsert_node (newkey_step rec seed) seed) ns t1 = Inr t'" "tab_ok seed t'"
      "tab_map t' = put_nodes ns (tab_map t1)" "sizearray t' = sizearray t1"
      "t_lsizenode t' = t_lsizenode t1" "nodes_room t' m"
      by (metis list.set_intros(2))
    have "tab_map t' = put_nodes (n # ns) (tab_map t)"
      using False unfolding t'(3) st(4) put_nodes_simps by simp
    then show ?thesis using t' t1(1) st by simp
  qed
qed

lemma reinsert_slice:
  "efold (reinsert_array newkey) (zip [i..<i + length vs] vs) t =
   efold (reinsert_node newkey seed)
     (map (\<lambda>(i, v). \<lparr>i_val = v, i_key = LInt (of_nat (i + 1)), nx = 0\<rparr>) (zip [i..<i + length vs] vs)) t"
proof -
  have "efold (reinsert_array newkey) xs t =
      efold (reinsert_node newkey seed) (map (\<lambda>(i, v). \<lparr>i_val = v, i_key = LInt (of_nat (i + 1)), nx = 0\<rparr>) xs) t"
    for xs :: "(nat \<times> tvalue) list"
  proof (induction xs arbitrary: t)
    case (Cons x xs)
    have "efold (reinsert_array newkey) xs =
        efold (reinsert_node newkey seed) (map (\<lambda>(i, v). \<lparr>i_val = v, i_key = LInt (of_nat (i + 1)), nx = 0\<rparr>) xs)"
      using Cons by (rule ext)
    then show ?case by (cases x) (simp add: reinsert_array_node [where seed = seed])
  qed simp
  then show ?thesis .
qed

lemma put_nodes_eq:
  assumes "\<And>n. n \<in> set ns \<Longrightarrow> i_val n \<noteq> LNil \<Longrightarrow> f (i_key n) = i_val n"
    and "\<And>k. m k = f k \<or> (\<exists>n \<in> set ns. i_val n \<noteq> LNil \<and> i_key n = k)"
  shows "put_nodes ns m = f"
  using assms
proof (induction ns arbitrary: m)
  case Nil
  then show ?case by auto
next
  case (Cons n ns)
  have "put_nodes ns (if i_val n \<noteq> LNil then m(i_key n := i_val n) else m) = f"
    by (rule Cons.IH) (use Cons.prems in \<open>auto split: if_splits\<close>)
  then show ?case by simp
qed

section \<open>The emptied table\<close>

lemma fresh_nodes_ok:
  assumes "t_node t = replicate (sizenode t) dummynode"
  shows "nodes_ok seed t" and "nfree t = sizenode t"
proof -
  have nth: "t_node t ! i = dummynode" if "i < sizenode t" for i using assms that by simp
  have len: "length (t_node t) = sizenode t" using assms by simp
  have "\<not> node_succ (t_node t) i j" for i j
    using nth len by (auto simp: node_succ_def dummynode_def)
  then have "links_ok (t_node t)" and "\<And>i. i < sizenode t \<Longrightarrow> isolated (t_node t) i"
    using nth len by (auto intro!: links_okI simp: dummynode_def node_succ_def isolated_def)
  then show "nodes_ok seed t" using nth len by (auto simp: nodes_ok_def dummynode_def stored_key_def)
  have "{i. i < sizenode t \<and> i_key (t_node t ! i) = LNil} = {..<sizenode t}"
    using nth by (auto simp: dummynode_def)
  then show "nfree t = sizenode t" by (simp add: nfree_def)
qed

text \<open>
  The table between the allocation of the new parts and the reinsertions: the new array holds
  what the old one held, the new hash part is empty.
\<close>

definition emptied :: "table \<Rightarrow> nat \<Rightarrow> nat \<Rightarrow> table res" where
  "emptied t nasize nhsize =
     ebind (setnodevector (if sizearray t < nasize then setarrayvector t nasize else t) nhsize) (\<lambda>t.
     Inr (t\<lparr>t_array := take nasize (t_array t)\<rparr>))"

lemma ceillog2_MAXHBITS: "0 < n \<Longrightarrow> n \<le> 2 ^ MAXHBITS \<Longrightarrow> luaO_ceillog2 n \<le> MAXHBITS \<and> n \<le> 2 ^ luaO_ceillog2 n"
  using luaO_ceillog2_le_iff [of n "luaO_ceillog2 n"] luaO_ceillog2_le_iff [of n MAXHBITS] by simp

lemma ceillog2_double: "0 < n \<Longrightarrow> n \<le> 2 ^ MAXHBITS \<Longrightarrow> 2 ^ luaO_ceillog2 n \<le> 2 * n"
proof (cases "luaO_ceillog2 n")
  case (Suc j)
  assume "0 < n" "n \<le> 2 ^ MAXHBITS"
  then have "\<not> n \<le> 2 ^ j" using luaO_ceillog2_le_iff [of n j] Suc by simp
  then show ?thesis using Suc by simp
qed simp

lemma emptied_ok:
  assumes na: "nasize \<le> MAXASIZE" and nh: "nhsize \<le> 2 ^ MAXHBITS"
  shows "\<exists>t'. emptied t nasize nhsize = Inr t' \<and> tab_ok seed t' \<and> nodes_room t' nhsize \<and>
           t_array t' = take nasize (t_array t) @ replicate (nasize - sizearray t) LNil \<and>
           t_node t' = replicate (sizenode t') dummynode \<and> sizenode t' \<le> max 1 (2 * nhsize)"
proof (cases "nhsize = 0")
  case True
  let ?t = "t\<lparr>t_node := [dummynode], t_dummy := True, t_lsizenode := 0, t_lastfree := 0,
              t_array := take nasize (t_array t) @ replicate (nasize - sizearray t) LNil\<rparr>"
  have fresh: "t_node ?t = replicate (sizenode ?t) dummynode" by (simp add: sizenode_def)
  have "tab_ok seed ?t"
    using fresh_nodes_ok(1) [OF fresh] na
    by (simp add: tab_ok_def free_ok_def sizenode_def dummynode_def in_array_def)
  moreover have "emptied t nasize nhsize = Inr ?t"
    using True by (simp add: emptied_def setnodevector_def setarrayvector_def)
  ultimately show ?thesis using fresh True by (simp add: nodes_room_def sizenode_def)
next
  case False
  let ?l = "luaO_ceillog2 nhsize"
  let ?t = "t\<lparr>t_node := replicate (2 ^ ?l) dummynode, t_dummy := False, t_lsizenode := ?l, t_lastfree := 2 ^ ?l,
              t_array := take nasize (t_array t) @ replicate (nasize - sizearray t) LNil\<rparr>"
  have l: "?l \<le> MAXHBITS" "nhsize \<le> 2 ^ ?l" using ceillog2_MAXHBITS False nh by simp_all
  have fresh: "t_node ?t = replicate (sizenode ?t) dummynode" by (simp add: sizenode_def)
  note ok = fresh_nodes_ok [OF fresh]
  have "tab_ok seed ?t"
    using ok(1) na l by (simp add: tab_ok_def free_ok_def sizenode_def dummynode_def in_array_def)
  moreover have "emptied t nasize nhsize = Inr ?t"
    using False l(1) by (simp add: emptied_def setnodevector_def setarrayvector_def Let_def)
  moreover have "nhsize \<le> nfree ?t" using l(2) unfolding ok(2) by (simp add: sizenode_def)
  then have "nodes_room ?t nhsize" by (simp add: nodes_room_def)
  moreover have "t_array ?t = take nasize (t_array t) @ replicate (nasize - sizearray t) LNil" by simp
  moreover have "sizenode ?t \<le> max 1 (2 * nhsize)"
    using ceillog2_double [of nhsize] False nh by (simp add: sizenode_def)
  ultimately show ?thesis using fresh by (intro exI [of _ ?t] conjI)
qed

text \<open>The entries that \<open>luaH_resize\<close> reinserts, in its order.\<close>

definition slice_nodes :: "nat \<Rightarrow> tvalue list \<Rightarrow> node list" where
  "slice_nodes i vs = map (\<lambda>(i, v). \<lparr>i_val = v, i_key = LInt (of_nat (i + 1)), nx = 0\<rparr>) (zip [i..<i + length vs] vs)"

definition reinserted :: "table \<Rightarrow> nat \<Rightarrow> node list" where
  "reinserted t nasize = slice_nodes nasize (drop nasize (t_array t)) @ rev (t_node t)"

lemma resize_reinserts:
  "luaH_resize_with newkey seed t nasize nhsize =
     ebind (emptied t nasize nhsize) (efold (reinsert_node newkey seed) (reinserted t nasize))"
proof -
  have slice: "efold (reinsert_array newkey) (zip [nasize..<sizearray t] (drop nasize (t_array t))) =
      efold (reinsert_node newkey seed) (slice_nodes nasize (drop nasize (t_array t)))"
    if "nasize \<le> sizearray t"
    using reinsert_slice [where i = nasize and vs = "drop nasize (t_array t)" and newkey = newkey and seed = seed] that
    by (simp add: slice_nodes_def fun_eq_iff)
  have arr: "t_array t' = t_array t" if "setnodevector t n = Inr t'" for t t' n
    using that by (auto simp: setnodevector_def Let_def split: if_splits)
  have setarr: "sizearray t < nasize \<Longrightarrow> t_array (setarrayvector t nasize) = take nasize (t_array (setarrayvector t nasize))"
    by (simp add: setarrayvector_def)
  show ?thesis
  proof (cases "nasize < sizearray t")
    case True
    then have "\<not> sizearray t < nasize" by simp
    then show ?thesis using True slice
      by (simp add: luaH_resize_with_def emptied_def reinserted_def Let_def ebind_assoc efold_append
          cong: ebind_cong)
  next
    case False
    then have "slice_nodes nasize (drop nasize (t_array t)) = []" by (simp add: slice_nodes_def)
    moreover have "t'\<lparr>t_array := take nasize (t_array t')\<rparr> = t'"
      if "setnodevector (if sizearray t < nasize then setarrayvector t nasize else t) nhsize = Inr t'" for t'
      using arr [OF that] setarr False by (cases "sizearray t < nasize") simp_all
    ultimately show ?thesis using False
      by (auto simp: luaH_resize_with_def emptied_def reinserted_def Let_def ebind_assoc cong: ebind_cong)
  qed
qed

section \<open>Resizing keeps the contents\<close>

lemma set_slice_nodes:
  "n \<in> set (slice_nodes i vs) \<longleftrightarrow>
     (\<exists>j < length vs. n = \<lparr>i_val = vs ! j, i_key = LInt (of_nat (i + j + 1)), nx = 0\<rparr>)"
proof -
  have "slice_nodes i vs = map (\<lambda>j. \<lparr>i_val = vs ! j, i_key = LInt (of_nat (i + j + 1)), nx = 0\<rparr>) [0..<length vs]"
    by (rule nth_equalityI) (simp_all add: slice_nodes_def)
  then show ?thesis by (simp only: set_map set_upt image_iff) (auto simp del: of_nat_add of_nat_Suc)
qed

lemma array_entry:
  assumes "tab_ok seed t" and "i < sizearray t"
  shows "in_array t (LInt (of_nat (i + 1)))" and "arrayindex (LInt (of_nat (i + 1))) = i + 1"
    and "tab_map t (LInt (of_nat (i + 1))) = t_array t ! i"
proof -
  have "i + 1 \<le> MAXASIZE" using assms by (simp add: tab_ok_def)
  then show ai: "arrayindex (LInt (of_nat (i + 1))) = i + 1" by (rule arrayindex_of_nat)
  then show ia: "in_array t (LInt (of_nat (i + 1)))" unfolding in_array_def using assms(2) by simp
  show "tab_map t (LInt (of_nat (i + 1))) = t_array t ! i"
    unfolding tab_map_def using ia ai by simp
qed

lemma node_entry:
  assumes ok: "tab_ok seed t" and n: "n \<in> set (t_node t)" "i_val n \<noteq> LNil"
  shows "canonical (i_key n)" and "\<not> in_array t (i_key n)" and "tab_map t (i_key n) = i_val n"
proof -
  have nok: "nodes_ok seed t" using ok by (simp add: tab_ok_def)
  obtain i where i: "i < sizenode t" "n = t_node t ! i"
    using n(1) nodes_okD(1) [OF nok] by (metis in_set_conv_nth)
  show "canonical (i_key n)" using nodes_okD(5) [OF nok i(1)] i(2) n(2) by simp
  show na: "\<not> in_array t (i_key n)" using ok i by (simp add: tab_ok_def)
  have "(i_key n, i_val n) \<in> entries (t_node t)" using n by (auto simp: entries_def)
  then show "tab_map t (i_key n) = i_val n"
    using node_lookup_entries(1) [OF nok n(2)] na by (simp add: tab_map_def)
qed

text \<open>Everything with a value is in the array or in a node.\<close>

lemma tab_map_cases:
  assumes ok: "tab_ok seed t" and v: "tab_map t k \<noteq> LNil"
  obtains (arr) i where "i < sizearray t" and "k = LInt (of_nat (i + 1))" and "t_array t ! i = tab_map t k"
  | (node) n where "n \<in> set (t_node t)" and "i_key n = k" and "i_val n = tab_map t k" and "\<not> in_array t k"
proof (cases "in_array t k")
  case True
  then obtain i where i: "arrayindex k = Suc i" by (cases "arrayindex k") (auto simp: in_array_def)
  then have "k = LInt (of_nat (i + 1))" using arrayindex_nonzero [of k] by simp
  moreover have "i < sizearray t" using True i by (simp add: in_array_def)
  moreover have "t_array t ! i = tab_map t k" using True i by (simp add: tab_map_def)
  ultimately show ?thesis using arr by blast
next
  case False
  have nok: "nodes_ok seed t" using ok by (simp add: tab_ok_def)
  have "node_lookup (t_node t) k = tab_map t k" using False by (simp add: tab_map_def)
  then have "(k, tab_map t k) \<in> entries (t_node t)" using node_lookup_entries(1) [OF nok v] by blast
  then show ?thesis using node False by (auto simp: entries_def)
qed

lemma live_keys_canonical:
  assumes "tab_ok seed t" and "tab_map t k \<noteq> LNil"
  shows "canonical k"
  using assms
proof (cases rule: tab_map_cases)
  case (node n)
  then have "i_val n \<noteq> LNil" using assms(2) by simp
  then show ?thesis using node_entry(1) [OF assms(1) node(1)] node(2) by simp
qed simp

lemma reinserted_entries:
  assumes ok: "tab_ok seed t" and n: "n \<in> set (reinserted t nasize)" "i_val n \<noteq> LNil"
  shows "canonical (i_key n)" and "tab_map t (i_key n) = i_val n"
proof -
  have "canonical (i_key n) \<and> tab_map t (i_key n) = i_val n"
  proof (cases "n \<in> set (t_node t)")
    case True
    then show ?thesis using node_entry [OF ok _ n(2)] by blast
  next
    case False
    then have "n \<in> set (slice_nodes nasize (drop nasize (t_array t)))"
      using n(1) by (simp add: reinserted_def)
    then obtain j where j: "nasize + j < sizearray t"
      "n = \<lparr>i_val = t_array t ! (nasize + j), i_key = LInt (of_nat (nasize + j + 1)), nx = 0\<rparr>"
      unfolding set_slice_nodes by (metis add.commute length_drop less_diff_conv nth_drop less_imp_le order.trans le_add1)
    then show ?thesis using array_entry(3) [OF ok j(1)] by simp
  qed
  then show "canonical (i_key n)" and "tab_map t (i_key n) = i_val n" by simp_all
qed

lemma emptied_map:
  assumes ok: "tab_ok seed t" and ok': "tab_ok seed t'"
    and arr: "t_array t' = take nasize (t_array t) @ replicate (nasize - sizearray t) LNil"
    and nd: "t_node t' = replicate (sizenode t') dummynode"
  shows "tab_map t' k = tab_map t k \<or> (\<exists>n \<in> set (reinserted t nasize). i_val n \<noteq> LNil \<and> i_key n = k)"
proof -
  have empty: "tab_map t' k = LNil" if "\<not> in_array t' k"
    using that nd by (auto simp: tab_map_def dummynode_def intro!: node_lookup_nil)
  have size: "sizearray t' = nasize" using arr by simp
  have arrv: "tab_map t' k = (if i < sizearray t then t_array t ! i else LNil)"
    if "i < nasize" "k = LInt (of_nat (i + 1))" for i
    using array_entry(3) [OF ok', of i] that size arr by (simp add: nth_append)
  show ?thesis
  proof (cases "tab_map t k = LNil")
    case True
    show ?thesis
    proof (cases "tab_map t' k = LNil")
      case False
      then obtain i where i: "i < nasize" "k = LInt (of_nat (i + 1))"
        using tab_map_cases [OF ok' False] size empty by metis
      have "i < sizearray t" using arrv [OF i] False by (simp split: if_splits)
      then have "tab_map t' k = tab_map t k" using arrv [OF i] array_entry(3) [OF ok, of i] i(2) by simp
      then show ?thesis ..
    qed (simp add: True)
  next
    case False
    from ok False show ?thesis
    proof (cases rule: tab_map_cases)
      case (arr i)
      show ?thesis
      proof (cases "i < nasize")
        case True
        then show ?thesis using arrv [OF True arr(2)] arr by simp
      next
        case False
        then have "\<lparr>i_val = t_array t ! i, i_key = k, nx = 0\<rparr> \<in> set (reinserted t nasize)"
          unfolding reinserted_def set_append Un_iff set_slice_nodes
          using arr(1,2) by (intro disjI1 exI [of _ "i - nasize"]) simp
        then show ?thesis using arr(3) \<open>tab_map t k \<noteq> LNil\<close> by force
      qed
    next
      case (node n)
      then have "n \<in> set (reinserted t nasize)" by (simp add: reinserted_def)
      then show ?thesis using node(2,3) False by metis
    qed
  qed
qed

text \<open>
  Whatever sizes are asked for, the contents stay, provided the hash part has room for the
  entries that are reinserted there; what remains of that room is \<open>m\<close>.
\<close>

lemma resize_with_keeps:
  assumes ok: "tab_ok seed t" and na: "nasize \<le> MAXASIZE" and nh: "nhsize \<le> 2 ^ MAXHBITS"
    and load: "hash_load nasize (reinserted t nasize) + m \<le> nhsize"
  shows "\<exists>t'. luaH_resize_with (newkey_step rec seed) seed t nasize nhsize = Inr t' \<and>
           tab_ok seed t' \<and> tab_map t' = tab_map t \<and> sizearray t' = nasize \<and> nodes_room t' m \<and>
           sizenode t' \<le> max 1 (2 * nhsize)"
proof -
  obtain t1 where t1: "emptied t nasize nhsize = Inr t1" "tab_ok seed t1" "nodes_room t1 nhsize"
    "t_array t1 = take nasize (t_array t) @ replicate (nasize - sizearray t) LNil"
    "t_node t1 = replicate (sizenode t1) dummynode" "sizenode t1 \<le> max 1 (2 * nhsize)"
    using emptied_ok [OF na nh] by blast
  have size: "sizearray t1 = nasize" using t1(4) by simp
  have "nodes_room t1 (hash_load (sizearray t1) (reinserted t nasize) + m)"
    using t1(3) load size by (auto simp: nodes_room_def)
  then obtain t' where t': "efold (reinsert_node (newkey_step rec seed) seed) (reinserted t nasize) t1 = Inr t'"
    "tab_ok seed t'" "tab_map t' = put_nodes (reinserted t nasize) (tab_map t1)"
    "sizearray t' = sizearray t1" "t_lsizenode t' = t_lsizenode t1" "nodes_room t' m"
    using reinsert_nodes [OF t1(2)] reinserted_entries(1) [OF ok] by blast
  have "put_nodes (reinserted t nasize) (tab_map t1) = tab_map t"
    by (rule put_nodes_eq) (use reinserted_entries(2) [OF ok] emptied_map [OF ok t1(2,4,5)] in blast)+
  moreover have "sizenode t' = sizenode t1" using t'(5) by (simp add: sizenode_def)
  ultimately show ?thesis using t' t1(1,6) size by (simp add: resize_reinserts)
qed

end
