(* ===== verification/Lua_Table_Rehash.thy ===== *)
theory Lua_Table_Rehash
  imports Lua_Table_Resize
begin

text \<open>
  What \<open>rehash\<close> counts: the integer keys of the table by power-of-two slices, and the array
  size that \<open>computesizes\<close> makes of the counts.  With it, a rehash keeps the contents, leaves
  room for the new key, and \<open>luaH_newkey\<close> returns.
\<close>

section \<open>Counting keys\<close>

text \<open>The count array for a list of array indices: how many fall into each slice.\<close>

definition nums_of :: "nat list \<Rightarrow> nat list" where
  "nums_of ks = map (\<lambda>j. length (filter (\<lambda>k. luaO_ceillog2 k = j) ks)) [0..<Suc MAXABITS]"

definition array_keys :: "tvalue list \<Rightarrow> nat list" where
  "array_keys arr = map Suc (filter (\<lambda>i. arr ! i \<noteq> LNil) [0..<length arr])"

definition live :: "node list \<Rightarrow> node list" where
  "live ns = filter (\<lambda>n. i_val n \<noteq> LNil) ns"

definition hash_keys :: "node list \<Rightarrow> nat list" where
  "hash_keys ns = filter (\<lambda>k. k \<noteq> 0) (map (\<lambda>n. arrayindex (i_key n)) (live ns))"

lemma nums_of_rev: "nums_of (rev ks @ ks') = nums_of (ks @ ks')"
  by (simp add: nums_of_def flip: rev_filter)

lemma nums_of_nth: "j \<le> MAXABITS \<Longrightarrow> nums_of ks ! j = length (filter (\<lambda>k. luaO_ceillog2 k = j) ks)"
  unfolding nums_of_def by (simp only: nth_map_upt length_map length_upt) (simp add: nth_map_upt del: upt_Suc)

lemma length_nums_of [simp]: "length (nums_of ks) = Suc MAXABITS"
  by (simp add: nums_of_def del: upt_Suc)

lemma ceillog2_index: "0 < k \<Longrightarrow> k \<le> MAXASIZE \<Longrightarrow> luaO_ceillog2 k \<le> MAXABITS"
  by (simp add: luaO_ceillog2_le_iff)

lemma countint_nums_of:
  "countint key (nums_of ks) =
     (if arrayindex key = 0 then (0, nums_of ks) else (1, nums_of (arrayindex key # ks)))"
proof (cases "arrayindex key = 0")
  case False
  let ?k = "arrayindex key"
  have le: "luaO_ceillog2 ?k \<le> MAXABITS" using ceillog2_index [of ?k] False arrayindex_le by simp
  have "(nums_of ks)[luaO_ceillog2 ?k := Suc (nums_of ks ! luaO_ceillog2 ?k)] = nums_of (?k # ks)"
    by (rule nth_equalityI) (use le in \<open>auto simp: nums_of_nth nth_list_update\<close>)
  then show ?thesis using False by (simp add: countint_def)
qed (simp add: countint_def)

lemma numusehash_nums_of:
  "numusehash_loop ns totaluse ause (nums_of ks) =
     (totaluse + length (live ns), ause + length (hash_keys ns), nums_of (rev (hash_keys ns) @ ks))"
proof (induction ns arbitrary: totaluse ause ks)
  case (Cons n ns)
  then show ?case
    by (simp add: live_def hash_keys_def countint_nums_of)
qed (simp add: live_def hash_keys_def)

section \<open>The array part, slice by slice\<close>

definition slice_lo :: "nat \<Rightarrow> nat" where
  "slice_lo j = (if j = 0 then 0 else 2 ^ (j - 1))"

lemma slice_lo_Suc [simp]: "slice_lo (Suc j) = 2 ^ j"
  by (simp add: slice_lo_def)

lemma slice_lo_le: "slice_lo j \<le> 2 ^ j"
  by (cases j) (simp_all add: slice_lo_def)

definition slice_count :: "tvalue list \<Rightarrow> nat \<Rightarrow> nat" where
  "slice_count arr j = length (filter (\<lambda>v. v \<noteq> LNil) (drop (slice_lo j) (take (2 ^ j) arr)))"

lemma count_slice_eq:
  "count_slice arr (Suc (min (length arr) (slice_lo lg))) (min (length arr) (2 ^ lg)) = slice_count arr lg"
  by (simp add: count_slice_def slice_count_def min_def)

lemma slice_count_beyond: "length arr \<le> slice_lo j \<Longrightarrow> slice_count arr j = 0"
  by (simp add: slice_count_def)

lemma slice_lo_mono: "i \<le> j \<Longrightarrow> slice_lo i \<le> slice_lo j"
  by (auto simp: slice_lo_def intro: diff_le_mono)

lemma filter_drop_take:
  assumes "a \<le> b"
  shows "filter P (drop a xs) = filter P (drop a (take b xs)) @ filter P (drop b xs)"
proof -
  have "drop a xs = drop a (take b xs) @ drop b xs"
    using drop_append [of a "take b xs" "drop b xs"] assms by (cases "b \<le> length xs") simp_all
  then show ?thesis by (metis filter_append)
qed

lemma numusearray_slices:
  assumes "k + lg = Suc MAXABITS" and "length nums = Suc MAXABITS" and "length arr \<le> MAXASIZE"
  shows "numusearray_loop arr k lg (Suc (min (length arr) (slice_lo lg))) ause nums =
    (ause + length (filter (\<lambda>v. v \<noteq> LNil) (drop (slice_lo lg) arr)),
     map (\<lambda>j. nums ! j + (if lg \<le> j then slice_count arr j else 0)) [0..<Suc MAXABITS])"
  using assms
proof (induction k arbitrary: lg ause nums)
  case 0
  then have lg: "lg = Suc MAXABITS" by simp
  have nums: "map (\<lambda>j. nums ! j + (if lg \<le> j then slice_count arr j else 0)) [0..<Suc MAXABITS] = nums"
    by (rule nth_equalityI) (use 0 lg in \<open>simp_all add: nth_map_upt del: upt_Suc\<close>)
  show ?case unfolding nums using 0 by (simp add: lg slice_lo_def)
next
  case (Suc k)
  let ?len = "length arr"
  have lim: "(if ?len < 2 ^ lg then ?len else 2 ^ lg) = min ?len (2 ^ lg)" by simp
  show ?case
  proof (cases "?len < 2 ^ lg \<and> ?len \<le> slice_lo lg")
    case True
    have "slice_count arr j = 0" if "lg \<le> j" for j
      using slice_count_beyond [of arr j] slice_lo_mono [OF that] True by simp
    then have "map (\<lambda>j. nums ! j + (if lg \<le> j then slice_count arr j else 0)) [0..<Suc MAXABITS] = nums"
      by (intro nth_equalityI) (use Suc.prems in \<open>simp_all add: nth_map_upt del: upt_Suc\<close>)
    then show ?thesis using True by (simp add: Let_def)
  next
    case False
    then have "\<not> (?len < 2 ^ lg \<and> min ?len (2 ^ lg) < Suc (min ?len (slice_lo lg)))" by auto
    moreover have "max (Suc (min ?len (slice_lo lg))) (Suc (min ?len (2 ^ lg))) = Suc (min ?len (slice_lo (Suc lg)))"
      using slice_lo_le [of lg] by simp
    ultimately have "numusearray_loop arr (Suc k) lg (Suc (min ?len (slice_lo lg))) ause nums =
        numusearray_loop arr k (Suc lg) (Suc (min ?len (slice_lo (Suc lg)))) (ause + slice_count arr lg)
          (nums[lg := nums ! lg + slice_count arr lg])"
      unfolding numusearray_loop.simps Let_def lim count_slice_eq by argo
    also have "\<dots> = (ause + slice_count arr lg + length (filter (\<lambda>v. v \<noteq> LNil) (drop (2 ^ lg) arr)),
        map (\<lambda>j. (nums[lg := nums ! lg + slice_count arr lg]) ! j + (if Suc lg \<le> j then slice_count arr j else 0))
          [0..<Suc MAXABITS])"
      using Suc.IH [of "Suc lg" "nums[lg := nums ! lg + slice_count arr lg]"] Suc.prems by simp
    also have "ause + slice_count arr lg + length (filter (\<lambda>v. v \<noteq> LNil) (drop (2 ^ lg) arr)) =
        ause + length (filter (\<lambda>v. v \<noteq> LNil) (drop (slice_lo lg) arr))"
      unfolding filter_drop_take [OF slice_lo_le [of lg], of _ arr] by (simp add: slice_count_def)
    also have "map (\<lambda>j. (nums[lg := nums ! lg + slice_count arr lg]) ! j + (if Suc lg \<le> j then slice_count arr j else 0))
        [0..<Suc MAXABITS] = map (\<lambda>j. nums ! j + (if lg \<le> j then slice_count arr j else 0)) [0..<Suc MAXABITS]"
    proof (rule map_cong [OF refl])
      fix j
      show "(nums[lg := nums ! lg + slice_count arr lg]) ! j + (if Suc lg \<le> j then slice_count arr j else 0) =
          nums ! j + (if lg \<le> j then slice_count arr j else 0)"
        using Suc.prems by (cases j lg rule: linorder_cases) auto
    qed
    finally show ?thesis .
  qed
qed

lemma filter_slice:
  "length (filter P (drop a (take b xs))) =
     length (filter (\<lambda>i. a \<le> i \<and> i < b \<and> P (xs ! i)) [0..<length xs])"
proof -
  have "drop a (take b xs) = map ((!) xs) [a..<min b (length xs)]"
  proof (rule nth_equalityI)
    fix i
    assume "i < length (drop a (take b xs))"
    then have i: "a + i < min b (length xs)" by (simp add: less_diff_conv add.commute)
    then have "drop a (take b xs) ! i = xs ! (a + i)" by simp
    then show "drop a (take b xs) ! i = map ((!) xs) [a..<min b (length xs)] ! i"
      using i by (simp add: less_diff_conv add.commute)
  qed simp
  then have "length (filter P (drop a (take b xs))) = length (filter (P \<circ> (!) xs) [a..<min b (length xs)])"
    by (simp add: filter_map)
  also have "\<dots> = length (filter (\<lambda>i. a \<le> i \<and> i < b \<and> P (xs ! i)) [0..<length xs])"
    unfolding length_filter_conv_card [of _ "[0..<_]"] distinct_length_filter [OF distinct_upt]
    by (rule arg_cong [where f = card]) auto
  finally show ?thesis .
qed

lemma slice_of_index:
  assumes "k < MAXASIZE"
  shows "luaO_ceillog2 (Suc k) = j \<longleftrightarrow> slice_lo j \<le> k \<and> k < 2 ^ j"
proof (cases j)
  case 0
  then show ?thesis using luaO_ceillog2_le_iff [of "Suc k" 0] assms by (simp add: slice_lo_def)
next
  case (Suc i)
  have "luaO_ceillog2 (Suc k) = Suc i \<longleftrightarrow> luaO_ceillog2 (Suc k) \<le> Suc i \<and> \<not> luaO_ceillog2 (Suc k) \<le> i" by auto
  also have "\<dots> \<longleftrightarrow> Suc k \<le> 2 ^ Suc i \<and> \<not> Suc k \<le> 2 ^ i"
    using luaO_ceillog2_le_iff [of "Suc k" i] luaO_ceillog2_le_iff [of "Suc k" "Suc i"] assms by simp
  finally show ?thesis using Suc by auto
qed

lemma numusearray_keys:
  assumes "sizearray t \<le> MAXASIZE"
  shows "numusearray t (replicate (MAXABITS + 1) 0) = (length (array_keys (t_array t)), nums_of (array_keys (t_array t)))"
proof -
  let ?arr = "t_array t"
  have "slice_count ?arr j = length (filter (\<lambda>k. luaO_ceillog2 k = j) (array_keys ?arr))" for j
  proof -
    have "filter (\<lambda>k. luaO_ceillog2 k = j) (array_keys ?arr) =
        map Suc (filter (\<lambda>i. slice_lo j \<le> i \<and> i < 2 ^ j \<and> ?arr ! i \<noteq> LNil) [0..<sizearray t])"
      unfolding array_keys_def filter_map filter_filter
      by (intro arg_cong [where f = "map Suc"] filter_cong refl) (use slice_of_index assms in auto)
    then show ?thesis by (simp add: slice_count_def filter_slice)
  qed
  then have "map (\<lambda>j. replicate (Suc MAXABITS) 0 ! j + (if 0 \<le> j then slice_count ?arr j else 0)) [0..<Suc MAXABITS] =
      nums_of (array_keys ?arr)"
    unfolding nums_of_def by (intro map_cong refl) (simp del: replicate.simps)
  moreover have "length (filter (\<lambda>v. v \<noteq> LNil) (drop (slice_lo 0) ?arr)) = length (array_keys ?arr)"
    using filter_slice [of "\<lambda>v. v \<noteq> LNil" 0 "sizearray t" ?arr]
    by (simp add: slice_lo_def array_keys_def) (metis (no_types, lifting) atLeastLessThan_iff filter_cong set_upt)
  ultimately show ?thesis
    using numusearray_slices [of "Suc MAXABITS" 0 "replicate (Suc MAXABITS) 0" ?arr 0] assms
    by (simp only: numusearray_def) (simp add: slice_lo_def del: upt_Suc replicate.simps numusearray_loop.simps)
qed

section \<open>The optimal size\<close>

text \<open>How many of the keys an array of \<open>2 ^ j\<close> elements would hold.\<close>

abbreviation upto_count :: "nat list \<Rightarrow> nat \<Rightarrow> nat" where
  "upto_count ks n \<equiv> length (filter (\<lambda>k. k \<le> n) ks)"

lemma upto_count_Suc:
  assumes "\<forall>k \<in> set ks. 0 < k \<and> k \<le> MAXASIZE" and "Suc j \<le> MAXABITS"
  shows "upto_count ks (2 ^ Suc j) = upto_count ks (2 ^ j) + nums_of ks ! Suc j"
proof -
  have "luaO_ceillog2 k = Suc j \<longleftrightarrow> k \<le> 2 ^ Suc j \<and> \<not> k \<le> 2 ^ j" if "k \<in> set ks" for k
  proof -
    have k: "0 < k" "k \<le> 2 ^ 32" using assms(1) that by force+
    show ?thesis using luaO_ceillog2_le_iff [OF k, of j] luaO_ceillog2_le_iff [OF k, of "Suc j"] by auto
  qed
  then have "filter (\<lambda>k. luaO_ceillog2 k = Suc j) ks = filter (\<lambda>k. k \<le> 2 ^ Suc j \<and> \<not> k \<le> 2 ^ j) ks"
    by (intro filter_cong refl) simp
  then have "nums_of ks ! Suc j = length (filter (\<lambda>k. k \<le> 2 ^ Suc j \<and> \<not> k \<le> 2 ^ j) ks)"
    using assms(2) by (simp add: nums_of_nth)
  moreover have "length (filter (\<lambda>k. k \<le> 2 ^ Suc j) xs) =
      length (filter (\<lambda>k. k \<le> 2 ^ j) xs) + length (filter (\<lambda>k. k \<le> 2 ^ Suc j \<and> \<not> k \<le> 2 ^ j) xs)" for xs :: "nat list"
    by (induction xs) auto
  ultimately show ?thesis by simp
qed

lemma upto_count_0:
  assumes "\<forall>k \<in> set ks. 0 < k \<and> k \<le> MAXASIZE"
  shows "upto_count ks 1 = nums_of ks ! 0"
proof -
  have "luaO_ceillog2 k = 0 \<longleftrightarrow> k \<le> 1" if "k \<in> set ks" for k
    using luaO_ceillog2_le_iff [of k 0] assms that by force
  then show ?thesis by (simp add: nums_of_nth cong: filter_cong)
qed

text \<open>What \<open>computesizes\<close> has found after looking at the candidates below \<open>2 ^ i\<close>.\<close>

definition best_below :: "nat list \<Rightarrow> nat \<Rightarrow> nat \<Rightarrow> nat \<Rightarrow> bool" where
  "best_below ks i opt na \<longleftrightarrow>
     (opt = 0 \<and> na = 0 \<or> (\<exists>j < i. opt = 2 ^ j \<and> na = upto_count ks (2 ^ j) \<and> 2 ^ j div 2 < na)) \<and>
     (\<forall>j < i. 2 ^ j div 2 < upto_count ks (2 ^ j) \<longrightarrow> 2 ^ j \<le> opt)"

lemma best_below_take:
  assumes "2 ^ i div 2 < upto_count ks (2 ^ i)"
  shows "best_below ks (Suc i) (2 ^ i) (upto_count ks (2 ^ i))"
proof -
  have "(2::nat) ^ j \<le> 2 ^ i" if "j < Suc i" for j using that by simp
  then show ?thesis using assms unfolding best_below_def by blast
qed

lemma best_below_skip:
  "best_below ks i opt na \<Longrightarrow> \<not> 2 ^ i div 2 < upto_count ks (2 ^ i) \<Longrightarrow> best_below ks (Suc i) opt na"
  unfolding best_below_def by (metis less_Suc_eq)

definition below_count :: "nat list \<Rightarrow> nat \<Rightarrow> nat" where
  "below_count ks i = (if i = 0 then 0 else upto_count ks (2 ^ (i - 1)))"

lemma below_count_step:
  assumes "\<forall>k \<in> set ks. 0 < k \<and> k \<le> MAXASIZE" and "i \<le> MAXABITS"
  shows "below_count ks i + nums_of ks ! i = upto_count ks (2 ^ i)"
proof (cases i)
  case 0
  then show ?thesis using upto_count_0 [OF assms(1)] by (simp add: below_count_def)
next
  case (Suc j)
  then show ?thesis using upto_count_Suc [OF assms(1), of j] assms(2) by (simp add: below_count_def)
qed

lemma upto_count_le_length: "upto_count ks n \<le> length ks"
  by simp

lemma upto_count_distinct:
  assumes "\<forall>k \<in> set ks. 0 < k" and "distinct ks"
  shows "upto_count ks n \<le> n"
proof -
  have "upto_count ks n = card (set (filter (\<lambda>k. k \<le> n) ks))" using assms(2) by (simp only: distinct_card distinct_filter)
  also have "\<dots> \<le> card {1..n}" using assms(1) by (intro card_mono) (auto simp: Suc_le_eq)
  finally show ?thesis by simp
qed

lemma half_pow_bound: "(2::nat) ^ j div 2 < 2 ^ 30 \<Longrightarrow> j \<le> 30"
  using power_less_imp_less_exp [of "2::nat" "j - 1" 30] by (cases j) simp_all

lemma computesizes_loop_best:
  assumes "\<forall>k \<in> set ks. 0 < k \<and> k \<le> MAXASIZE" and "distinct ks" and "length ks \<le> 2 ^ 30"
    and "best_below ks i opt na"
  shows "\<exists>n. best_below ks n (fst (computesizes_loop (nums_of ks) (length ks) i (below_count ks i) na opt))
            (snd (computesizes_loop (nums_of ks) (length ks) i (below_count ks i) na opt)) \<and>
          length ks \<le> 2 ^ n div 2"
  using assms(4)
proof (induction "31 - i" arbitrary: i opt na rule: less_induct)
  case less
  let ?a = "upto_count ks (2 ^ i)"
  show ?case
  proof (cases "2 ^ i div 2 < length ks")
    case False
    then show ?thesis using less.prems
      by (subst (1 2) computesizes_loop.simps) (auto simp: Let_def not_less)
  next
    case True
    have "(2::nat) ^ i div 2 < 2 ^ 30" using True assms(3) by simp
    then have i: "i \<le> 30" by (rule half_pow_bound)
    have a: "below_count ks i + nums_of ks ! i = ?a" using below_count_step [OF assms(1)] i by simp
    have next_a: "below_count ks (Suc i) = ?a" by (simp add: below_count_def)
    note IH = less.hyps [of "Suc i", unfolded next_a]
    show ?thesis
    proof (cases "2 ^ i div 2 < ?a")
      case half: True
      have "0 < nums_of ks ! i"
      proof (rule ccontr)
        assume "\<not> 0 < nums_of ks ! i"
        then have "below_count ks i = ?a" using a by simp
        moreover have "below_count ks i \<le> 2 ^ i div 2"
          using upto_count_distinct [of ks "2 ^ (i - 1)"] assms(1,2) by (cases i) (simp_all add: below_count_def)
        ultimately show False using half by simp
      qed
      then have "computesizes_loop (nums_of ks) (length ks) i (below_count ks i) na opt =
          computesizes_loop (nums_of ks) (length ks) (Suc i) ?a ?a (2 ^ i)"
        using True half a by (subst computesizes_loop.simps) (simp add: Let_def)
      then show ?thesis using IH best_below_take [OF half] i by simp
    next
      case nhalf: False
      have "computesizes_loop (nums_of ks) (length ks) i (below_count ks i) na opt =
          computesizes_loop (nums_of ks) (length ks) (Suc i) ?a na opt"
        using True nhalf a by (subst computesizes_loop.simps) (auto simp: Let_def)
      then show ?thesis using IH best_below_skip [OF less.prems nhalf] i by simp
    qed
  qed
qed

text \<open>
  The array size that \<open>computesizes\<close> returns is 0 or a power of two with more than half of its
  elements in use, it is the largest such power, and \<open>*pna\<close> is the number of keys in it.
\<close>

lemma computesizes_best:
  assumes ks: "\<forall>k \<in> set ks. 0 < k \<and> k \<le> MAXASIZE" "distinct ks" "length ks \<le> 2 ^ 30"
    and r: "computesizes (nums_of ks) (length ks) = (opt, na)"
  shows "na = upto_count ks opt" and "opt = 0 \<or> (\<exists>j. opt = 2 ^ j \<and> opt div 2 < na)"
    and "2 ^ j div 2 < upto_count ks (2 ^ j) \<Longrightarrow> 2 ^ j \<le> opt" and "opt \<le> 2 ^ 30"
proof -
  have "best_below ks 0 0 0" by (simp add: best_below_def)
  from computesizes_loop_best [OF ks this] r obtain n where n: "best_below ks n opt na" "length ks \<le> 2 ^ n div 2"
    by (auto simp: computesizes_def below_count_def)
  have none: "upto_count ks 0 = 0" using ks(1) by (auto simp: filter_empty_conv)
  show na: "na = upto_count ks opt" using n(1) none by (auto simp: best_below_def)
  show half: "opt = 0 \<or> (\<exists>j. opt = 2 ^ j \<and> opt div 2 < na)" using n(1) by (auto simp: best_below_def)
  show "2 ^ j \<le> opt" if j: "2 ^ j div 2 < upto_count ks (2 ^ j)"
  proof (cases "j < n")
    case True
    then show ?thesis using n(1) j by (auto simp: best_below_def)
  next
    case False
    then have "(2::nat) ^ n div 2 \<le> 2 ^ j div 2" by (intro div_le_mono) simp
    then show ?thesis using j n(2) upto_count_le_length [of "2 ^ j" ks] by linarith
  qed
  show "opt \<le> 2 ^ 30"
    using half
  proof
    assume "\<exists>j. opt = 2 ^ j \<and> opt div 2 < na"
    then obtain j where j: "opt = 2 ^ j" "(2::nat) ^ j div 2 < 2 ^ 30"
      using na upto_count_le_length [of opt ks] ks(3) by (metis le_less_trans less_le_trans)
    then show ?thesis using half_pow_bound power_increasing [of j 30 "2::nat"] by simp
  qed simp
qed

section \<open>The counts are right\<close>

lemma live_load: "length (live ns) = hash_load n ns + upto_count (hash_keys ns) n"
  by (induction ns) (auto simp: live_def hash_load_def hash_keys_def hash_key_def)

lemma array_keys_load:
  "length (array_keys arr) = length (filter (\<lambda>v. v \<noteq> LNil) (drop n arr)) + upto_count (array_keys arr) n"
proof -
  have "length (filter (\<lambda>v. v \<noteq> LNil) (drop n arr)) = length (filter (\<lambda>k. \<not> k \<le> n) (array_keys arr))"
    using filter_slice [of "\<lambda>v. v \<noteq> LNil" n "length arr" arr]
    by (auto simp: array_keys_def filter_map intro!: arg_cong [where f = length] filter_cong)
  then show ?thesis using sum_length_filter_compl [of "\<lambda>k. k \<le> n" "array_keys arr"] by simp
qed

lemma slice_nodes_load:
  assumes "n + length vs \<le> MAXASIZE"
  shows "hash_load n (slice_nodes n vs) = length (filter (\<lambda>v. v \<noteq> LNil) vs)"
proof -
  have "hash_load n (slice_nodes n vs) = length (filter (\<lambda>v. v \<noteq> LNil) (map i_val (slice_nodes n vs)))"
  proof -
    have "hash_key n (i_key x)" if x: "x \<in> set (slice_nodes n vs)" for x
    proof -
      obtain j where "j < length vs" "i_key x = LInt (of_nat (n + j + 1))" using x unfolding set_slice_nodes by auto
      then show ?thesis using arrayindex_of_nat [of "n + j + 1"] assms by (simp add: hash_key_def)
    qed
    then have "filter (\<lambda>x. i_val x \<noteq> LNil \<and> hash_key n (i_key x)) (slice_nodes n vs) = filter (\<lambda>x. i_val x \<noteq> LNil) (slice_nodes n vs)"
      by (intro filter_cong) auto
    then show ?thesis by (simp add: hash_load_def filter_map o_def)
  qed
  also have "map i_val (slice_nodes n vs) = vs"
    by (rule nth_equalityI) (simp_all add: slice_nodes_def)
  finally show ?thesis .
qed

lemma reinserted_load:
  assumes "sizearray t \<le> MAXASIZE"
  shows "hash_load n (reinserted t n) = length (filter (\<lambda>v. v \<noteq> LNil) (drop n (t_array t))) + hash_load n (t_node t)"
proof -
  have "hash_load n (slice_nodes n (drop n (t_array t))) = length (filter (\<lambda>v. v \<noteq> LNil) (drop n (t_array t)))"
    using slice_nodes_load [of n "drop n (t_array t)"] assms
    by (cases "n \<le> sizearray t") (simp_all add: hash_load_def slice_nodes_def)
  moreover have "hash_load n (rev (t_node t)) = hash_load n (t_node t)"
    by (simp add: hash_load_def flip: rev_filter)
  ultimately show ?thesis by (simp add: reinserted_def hash_load_def)
qed

text \<open>All the integer keys a rehash counts: the new key's, the hash part's, the array's.\<close>

definition ek_keys :: "tvalue \<Rightarrow> nat list" where
  "ek_keys ek = (if arrayindex ek = 0 then [] else [arrayindex ek])"

definition int_keys :: "table \<Rightarrow> tvalue \<Rightarrow> nat list" where
  "int_keys t ek = ek_keys ek @ hash_keys (t_node t) @ array_keys (t_array t)"

lemma rehash_counts:
  assumes "sizearray t \<le> MAXASIZE" and "computesizes (nums_of (int_keys t ek)) (length (int_keys t ek)) = (asize, na)"
  shows "rehash_with newkey seed t ek =
           luaH_resize_with newkey seed t asize
             (Suc (length (array_keys (t_array t)) + length (live (t_node t))) - na)"
proof -
  have hash_rev: "hash_keys (rev ns) = rev (hash_keys ns)" for ns
    by (simp add: hash_keys_def live_def rev_filter rev_map)
  have rev: "rev (hash_keys (rev ns)) = hash_keys ns" "length (live (rev ns)) = length (live ns)"
    "length (hash_keys (rev ns)) = length (hash_keys ns)" for ns
    unfolding hash_rev by (simp_all add: live_def flip: rev_filter)
  have "numusehash t (nums_of (array_keys (t_array t))) = (length (live (t_node t)), length (hash_keys (t_node t)),
      nums_of (hash_keys (t_node t) @ array_keys (t_array t)))"
    by (simp add: numusehash_def numusehash_nums_of rev)
  moreover have "numusearray t (replicate 32 0) = (length (array_keys (t_array t)), nums_of (array_keys (t_array t)))"
    using numusearray_keys [OF assms(1)] by simp
  ultimately show ?thesis
    using assms(2) countint_nums_of [of ek "hash_keys (t_node t) @ array_keys (t_array t)"]
    by (simp add: rehash_with_def int_keys_def ek_keys_def add.commute split: if_splits)
qed

lemma set_array_keys: "k \<in> set (array_keys arr) \<longleftrightarrow> 0 < k \<and> k \<le> length arr \<and> arr ! (k - 1) \<noteq> LNil"
  by (cases k) (auto simp: array_keys_def)

lemma set_hash_keys: "k \<in> set (hash_keys ns) \<longleftrightarrow> k \<noteq> 0 \<and> (\<exists>n \<in> set ns. i_val n \<noteq> LNil \<and> arrayindex (i_key n) = k)"
  by (auto simp: hash_keys_def live_def)

lemma LInt_of_arrayindex: "arrayindex k \<noteq> 0 \<Longrightarrow> LInt (of_nat (arrayindex k)) = k"
  by (metis arrayindex_nonzero)

text \<open>The counted keys are the integer keys with a value, and the new key.\<close>

lemma set_int_keys:
  assumes ok: "tab_ok seed t"
  shows "k \<in> set (int_keys t ek) \<longleftrightarrow>
           0 < k \<and> k \<le> MAXASIZE \<and> (tab_map t (LInt (of_nat k)) \<noteq> LNil \<or> ek = LInt (of_nat k))"
proof (cases "0 < k \<and> k \<le> MAXASIZE")
  case False
  moreover have "sizearray t \<le> MAXASIZE" using ok by (simp add: tab_ok_def)
  ultimately show ?thesis using arrayindex_le
    by (auto simp: int_keys_def ek_keys_def set_array_keys set_hash_keys split: if_splits)
next
  case True
  then have idx: "arrayindex (LInt (of_nat k)) = k" using arrayindex_of_nat by simp
  have arr: "k \<in> set (array_keys (t_array t)) \<longleftrightarrow> in_array t (LInt (of_nat k)) \<and> tab_map t (LInt (of_nat k)) \<noteq> LNil"
    using True idx by (auto simp: set_array_keys in_array_def tab_map_def)
  have key: "arrayindex k' = k \<longleftrightarrow> k' = LInt (of_nat k)" for k'
    using True idx arrayindex_inj [of k' "LInt (of_nat k)"] by auto
  have hash: "k \<in> set (hash_keys (t_node t)) \<longleftrightarrow>
      \<not> in_array t (LInt (of_nat k)) \<and> tab_map t (LInt (of_nat k)) \<noteq> LNil"
  proof
    assume "k \<in> set (hash_keys (t_node t))"
    then obtain n where n: "n \<in> set (t_node t)" "i_val n \<noteq> LNil" "i_key n = LInt (of_nat k)"
      by (auto simp: set_hash_keys key)
    then show "\<not> in_array t (LInt (of_nat k)) \<and> tab_map t (LInt (of_nat k)) \<noteq> LNil"
      using node_entry(2,3) [OF ok n(1,2)] by simp
  next
    assume a: "\<not> in_array t (LInt (of_nat k)) \<and> tab_map t (LInt (of_nat k)) \<noteq> LNil"
    from ok conjunct2 [OF a] show "k \<in> set (hash_keys (t_node t))"
    proof (cases rule: tab_map_cases)
      case (arr i)
      then show ?thesis using array_entry(1) [OF ok arr(1)] a by simp
    next
      case (node n)
      then have "i_val n \<noteq> LNil" using a by simp
      then show ?thesis using node(1,2) True unfolding set_hash_keys key by blast
    qed
  qed
  have "k \<in> set (ek_keys ek) \<longleftrightarrow> ek = LInt (of_nat k)" using True key [of ek] by (auto simp: ek_keys_def)
  then show ?thesis using True arr hash by (auto simp: int_keys_def)
qed

lemma distinct_map_filter_nth:
  assumes "\<And>i j. i < length xs \<Longrightarrow> j < length xs \<Longrightarrow> P (xs ! i) \<Longrightarrow> P (xs ! j) \<Longrightarrow> f (xs ! i) = f (xs ! j) \<Longrightarrow> i = j"
  shows "distinct (map f (filter P xs))"
  using assms
proof (induction xs)
  case (Cons x xs)
  have "distinct (map f (filter P xs))"
    by (rule Cons.IH) (use Cons.prems [of "Suc i" "Suc j" for i j] in simp)
  moreover have "f x \<notin> f ` set (filter P xs)" if "P x"
  proof
    assume "f x \<in> f ` set (filter P xs)"
    then obtain j where "j < length xs" "P (xs ! j)" "f (xs ! j) = f x" by (auto simp: in_set_conv_nth)
    then show False using Cons.prems [of 0 "Suc j"] that by simp
  qed
  ultimately show ?case by simp
qed simp

lemma distinct_int_keys:
  assumes ok: "tab_ok seed t" and new: "tab_map t ek = LNil"
  shows "distinct (int_keys t ek)"
proof -
  have nok: "nodes_ok seed t" using ok by (simp add: tab_ok_def)
  note okD = nodes_okD [OF nok]
  let ?P = "\<lambda>n. i_val n \<noteq> LNil \<and> arrayindex (i_key n) \<noteq> 0"
  have hk: "hash_keys ns = map (\<lambda>n. arrayindex (i_key n)) (filter ?P ns)" for ns
    by (induction ns) (auto simp: hash_keys_def live_def)
  have "distinct (hash_keys (t_node t))"
    unfolding hk
  proof (rule distinct_map_filter_nth)
    fix i j
    assume ij: "i < length (t_node t)" "j < length (t_node t)" "?P (t_node t ! i)" "?P (t_node t ! j)"
      "arrayindex (i_key (t_node t ! i)) = arrayindex (i_key (t_node t ! j))"
    then have "i_key (t_node t ! i) = i_key (t_node t ! j)" using arrayindex_inj by blast
    moreover have "canonical (i_key (t_node t ! j))" using okD(5) ij okD(1) by simp
    ultimately show "i = j" using okD(7) [of j i] ij okD(1) by simp
  qed
  moreover have "distinct (array_keys (t_array t))"
    by (simp add: array_keys_def distinct_map)
  moreover have False if h: "k \<in> set (hash_keys (t_node t))" "k \<in> set (array_keys (t_array t))" for k
  proof -
    obtain n where n: "n \<in> set (t_node t)" "i_val n \<noteq> LNil" "arrayindex (i_key n) = k" "k \<noteq> 0"
      using h(1) unfolding set_hash_keys by blast
    then show False using node_entry(2) [OF ok n(1,2)] h(2) by (simp add: in_array_def set_array_keys)
  qed
  moreover have False if "k \<in> set (ek_keys ek)" "k \<in> set (hash_keys (t_node t)) \<or> k \<in> set (array_keys (t_array t))" for k
  proof -
    have k: "arrayindex ek = k" "k \<noteq> 0" using that(1) by (auto simp: ek_keys_def split: if_splits)
    show False
      using that(2)
    proof
      assume "k \<in> set (hash_keys (t_node t))"
      then obtain n where n: "n \<in> set (t_node t)" "i_val n \<noteq> LNil" "arrayindex (i_key n) = k"
        unfolding set_hash_keys by blast
      then have "i_key n = ek" using k arrayindex_inj by metis
      then show False using node_entry(3) [OF ok n(1,2)] n(2) new by simp
    next
      assume "k \<in> set (array_keys (t_array t))"
      then show False using new k by (auto simp: set_array_keys tab_map_def in_array_def)
    qed
  qed
  ultimately show ?thesis by (auto simp: int_keys_def ek_keys_def)
qed

section \<open>A rehash keeps the contents and makes room\<close>

definition optimal_size :: "table \<Rightarrow> tvalue \<Rightarrow> nat \<Rightarrow> bool" where
  "optimal_size t ek n \<longleftrightarrow>
     (n = 0 \<or> (\<exists>j. n = 2 ^ j \<and> n div 2 < upto_count (int_keys t ek) n)) \<and>
     (\<forall>j. 2 ^ j div 2 < upto_count (int_keys t ek) (2 ^ j) \<longrightarrow> 2 ^ j \<le> n)"

lemma length_filter_sum: "length (hash_keys ns) \<le> length ns" "length (live ns) \<le> length ns"
  "length (array_keys arr) \<le> length arr"
  unfolding hash_keys_def live_def array_keys_def
  by (auto intro: order_trans [OF length_filter_le] simp del: length_filter_conv_card)

definition entry_count :: "table \<Rightarrow> nat" where
  "entry_count t = length (array_keys (t_array t)) + length (live (t_node t))"

lemma rehash_keeps:
  assumes ok: "tab_ok seed t" and new: "tab_map t ek = LNil"
    and small: "sizearray t + sizenode t < 2 ^ 30"
  shows "\<exists>t'. rehash_with (newkey_step rec seed) seed t ek = Inr t' \<and> tab_ok seed t' \<and> tab_map t' = tab_map t \<and>
           nodes_room t' (if hash_key (sizearray t') ek then 1 else 0) \<and> optimal_size t ek (sizearray t') \<and>
           sizearray t' + sizenode t' \<le> 2 * entry_count t + 3"
proof -
  have nok: "nodes_ok seed t" and asz: "sizearray t \<le> MAXASIZE" using ok by (simp_all add: tab_ok_def)
  have nl: "length (t_node t) = sizenode t" using nodes_okD(1) [OF nok] .
  let ?ks = "int_keys t ek"
  obtain asize na where cs: "computesizes (nums_of ?ks) (length ?ks) = (asize, na)" by fastforce
  have ks: "\<forall>k \<in> set ?ks. 0 < k \<and> k \<le> MAXASIZE" using set_int_keys [OF ok] by blast
  have len: "length ?ks \<le> 2 ^ 30"
    using length_filter_sum(1) [of "t_node t"] length_filter_sum(3) [of "t_array t"] small nl
    by (simp add: int_keys_def ek_keys_def)
  note best = computesizes_best [OF ks distinct_int_keys [OF ok new] len cs]
  let ?use = "Suc (length (array_keys (t_array t)) + length (live (t_node t)))"
  let ?m = "if hash_key asize ek then 1 else 0 :: nat"
  have "upto_count (ek_keys ek) asize = 1 - ?m"
    by (auto simp: ek_keys_def hash_key_def)
  then have na: "na = (1 - ?m) + upto_count (hash_keys (t_node t)) asize + upto_count (array_keys (t_array t)) asize"
    using best(1) by (simp add: int_keys_def)
  have load: "hash_load asize (reinserted t asize) + ?m = ?use - na"
    using array_keys_load [of "t_array t" asize] live_load [of "t_node t" asize] reinserted_load [OF asz, of asize] na
    by auto
  have "?use - na \<le> 2 ^ MAXHBITS"
    using length_filter_sum(2) [of "t_node t"] length_filter_sum(3) [of "t_array t"] small nl by simp
  moreover have "asize \<le> MAXASIZE" using best(4) by simp
  ultimately obtain t' where t': "luaH_resize_with (newkey_step rec seed) seed t asize (?use - na) = Inr t'"
    "tab_ok seed t'" "tab_map t' = tab_map t" "sizearray t' = asize" "nodes_room t' ?m"
    "sizenode t' \<le> max 1 (2 * (?use - na))"
    using resize_with_keeps [OF ok _ _ eq_refl [OF load]] by blast
  have "asize \<le> 2 * na"
    using best(2)
  proof
    assume "\<exists>j. asize = 2 ^ j \<and> asize div 2 < na"
    then obtain j where "asize = 2 ^ j" "(2::nat) ^ j div 2 < na" by blast
    then show ?thesis by (cases j) simp_all
  qed simp
  moreover have "na \<le> ?use"
    using na live_load [of "t_node t" asize] array_keys_load [of "t_array t" asize] by simp
  ultimately have "sizearray t' + sizenode t' \<le> 2 * entry_count t + 3"
    using t'(4,6) by (simp add: entry_count_def)
  moreover have "optimal_size t ek asize" using best(1-3) unfolding optimal_size_def by blast
  ultimately show ?thesis using t' rehash_counts [OF asz cs] by metis
qed

section \<open>A new key\<close>

lemma exhausted_ok:
  assumes ok: "tab_ok seed t" and "getfreepos t = (None, t1)"
  shows "tab_ok seed t1" and "tab_map t1 = tab_map t" and "sizearray t1 = sizearray t" and "sizenode t1 = sizenode t"
    and "slot_for t1 k s \<longleftrightarrow> slot_for t k s" and "int_keys t1 = int_keys t" and "entry_count t1 = entry_count t"
proof -
  obtain r k' where g: "getfreepos_loop (t_node t) (t_lastfree t) = (r, k')" by fastforce
  then have r: "r = None" and t1: "t1 = t\<lparr>t_lastfree := 0\<rparr>"
    using assms(2) getfreepos_loop_spec [OF g] by (auto simp: getfreepos_def)
  have all: "\<forall>i < t_lastfree t. i_key (t_node t ! i) \<noteq> LNil" using getfreepos_loop_spec [OF g] r by simp
  have mp: "mainposition seed t1 k = mainposition seed t k" for k by (rule mainposition_cong) (simp add: t1)
  have same: "sizenode t1 = sizenode t" "t_node t1 = t_node t" by (simp_all add: t1 sizenode_def)
  have "nodes_ok seed t1 = nodes_ok seed t" by (simp only: nodes_ok_def mp same)
  then have "nodes_ok seed t1" using ok by (simp add: tab_ok_def)
  moreover have "free_ok t1"
  proof (cases "t_dummy t")
    case False
    then have "i_key (t_node t ! i) \<noteq> LNil" if "i < sizenode t" for i
      using ok all that unfolding tab_ok_def free_ok_def by (meson not_le)
    then show ?thesis using False by (simp add: free_ok_def same) (simp add: t1)
  qed (use ok in \<open>simp add: tab_ok_def free_ok_def t1\<close>)
  ultimately show "tab_ok seed t1" using ok by (simp add: tab_ok_def t1 sizenode_def in_array_def)
  show "tab_map t1 = tab_map t" "sizearray t1 = sizearray t" "sizenode t1 = sizenode t"
    "slot_for t1 k s \<longleftrightarrow> slot_for t k s" "int_keys t1 = int_keys t" "entry_count t1 = entry_count t"
    by (simp_all add: t1 entry_count_def tab_map_def in_array_def sizenode_def slot_for_def int_keys_def fun_eq_iff split: slot.split)
qed

text \<open>
  \<open>luaH_newkey\<close> returns, with at most one rehash: the table stays well formed with the same
  contents, and the key has a slot.
\<close>

definition added :: "u32 \<Rightarrow> table \<Rightarrow> tvalue \<Rightarrow> table \<times> slot \<Rightarrow> bool" where
  "added seed t k r \<longleftrightarrow> (case r of (t', s) \<Rightarrow>
     tab_ok seed t' \<and> slot_for t' k s \<and> s \<noteq> NilSlot \<and> tab_map t' = tab_map t \<and>
     sizearray t' + sizenode t' \<le> max (sizearray t + sizenode t) (2 * entry_count t + 3))"

lemma newkey_added:
  assumes ok: "tab_ok seed t" and k: "canonical k" and new: "slot_for t k NilSlot"
    and small: "sizearray t + sizenode t < 2 ^ 30"
  shows "\<exists>r. luaH_newkey seed t k = Inr r \<and> added seed t k r"
proof (cases "has_room seed t k")
  case True
  obtain t' s where r: "newkey_step (luaH_newkey_rec 1 seed) seed t k = Inr (t', s)" "inserted seed t k (t', s)"
    using newkey_step_room [OF ok k new True] by (metis surj_pair)
  have "sizenode t' = sizenode t" "sizearray t' = sizearray t" using r(2) by (simp_all add: inserted_def sizenode_def)
  then have "added seed t k (t', s)" using r(2) by (simp add: inserted_def added_def)
  then show ?thesis using r(1) by (simp add: luaH_newkey_def numeral_2_eq_2)
next
  case False
  have nok: "nodes_ok seed t" using ok by (simp add: tab_ok_def)
  obtain t1 where t1: "getfreepos t = (None, t1)"
    using False by (metis has_room_def fst_conv surj_pair)
  note ex = exhausted_ok [OF ok t1]
  have taken: "i_val (t_node t ! mainposition seed t k) \<noteq> LNil \<or> t_dummy t" using False by (auto simp: has_room_def)
  have "tab_map t k = LNil" using slot_val_map [OF nok k new] by (simp add: slot_val_def)
  then obtain t2 where t2: "rehash_with (newkey_step (luaH_newkey_rec 0 seed) seed) seed t1 k = Inr t2" "tab_ok seed t2"
    "tab_map t2 = tab_map t1" "nodes_room t2 (if hash_key (sizearray t2) k then 1 else 0)"
    "sizearray t2 + sizenode t2 \<le> 2 * entry_count t1 + 3"
    using rehash_keeps [OF ex(1), of k "luaH_newkey_rec 0 seed"] ex(2-4) small by auto
  have "nodes_room t2 (if hash_key (sizearray t2) k then Suc 0 else 0)" using t2(4) by (simp split: if_splits)
  from set_with_room [OF t2(2) k this] obtain t3 s where t3:
    "luaH_set_with (newkey_step (luaH_newkey_rec 0 seed) seed) seed t2 k = Inr (t3, s)"
    "tab_ok seed t3" "slot_for t3 k s" "s \<noteq> NilSlot" "tab_map t3 = tab_map t2"
    "sizearray t3 = sizearray t2" "t_lsizenode t3 = t_lsizenode t2"
    by blast
  have "luaH_newkey_rec (Suc 0) seed = newkey_step (luaH_newkey_rec 0 seed) seed" by (simp add: fun_eq_iff)
  then have "luaH_newkey seed t k = Inr (t3, s)"
    using t2(1) t3(1) taken t1
    by (simp add: luaH_newkey_def numeral_2_eq_2 newkey_step_def newkey_key_canonical [OF k])
  moreover have "sizearray t3 + sizenode t3 \<le> 2 * entry_count t + 3"
    using t2(5) t3(6,7) ex(7) by (simp add: sizenode_def)
  ultimately show ?thesis using t3 t2(3) ex(2) by (simp add: added_def)
qed

lemma set_added:
  assumes ok: "tab_ok seed t" and k: "canonical k" and small: "sizearray t + sizenode t < 2 ^ 30"
  shows "\<exists>r. luaH_set seed t k = Inr r \<and> added seed t k r"
proof -
  obtain s where s: "luaH_get seed t k = Inr s" "slot_for t k s" using luaH_get_canonical_slot [OF ok k] .
  show ?thesis
  proof (cases "s = NilSlot")
    case True
    then show ?thesis using s newkey_added [OF ok k _ small] by (simp add: luaH_set_def luaH_set_with_def)
  next
    case False
    then show ?thesis using s ok by (simp add: luaH_set_def luaH_set_with_def added_def)
  qed
qed

end
