(* ===== verification/Lua_Table_Spec.thy ===== *)
theory Lua_Table_Spec
  imports Lua_Table_Rehash
begin

text \<open>
  What a table promises: raw access is access to a map, growing never loses an entry, a
  traversal visits every entry once, and the length operator returns a boundary.
\<close>

section \<open>The entries counted\<close>

lemma live_keys: "inj_on i_key (set (live (t_node t)))" "card (i_key ` set (live (t_node t))) = length (live (t_node t))"
  if ok: "tab_ok seed t"
proof -
  have nok: "nodes_ok seed t" using ok by (simp add: tab_ok_def)
  have "distinct (map i_key (live (t_node t)))"
    unfolding live_def
  proof (rule distinct_map_filter_nth)
    fix i j
    assume "i < length (t_node t)" "j < length (t_node t)" "i_val (t_node t ! i) \<noteq> LNil"
      "i_key (t_node t ! i) = i_key (t_node t ! j)" "i_val (t_node t ! j) \<noteq> LNil"
    then show "i = j" using nodes_okD(1,5) [OF nok] nodes_okD(7) [OF nok, of j i] by metis
  qed
  then show "inj_on i_key (set (live (t_node t)))" "card (i_key ` set (live (t_node t))) = length (live (t_node t))"
    using distinct_card [of "map i_key (live (t_node t))"] by (auto simp: distinct_map)
qed

lemma entry_count_card:
  assumes ok: "tab_ok seed t"
  shows "finite {k. tab_map t k \<noteq> LNil}" and "entry_count t = card {k. tab_map t k \<noteq> LNil}"
proof -
  let ?A = "(\<lambda>i. LInt (of_nat i)) ` set (array_keys (t_array t))" and ?H = "i_key ` set (live (t_node t))"
  have arr: "arrayindex (LInt (of_nat i)) = i \<and> in_array t (LInt (of_nat i)) \<and> tab_map t (LInt (of_nat i)) \<noteq> LNil"
    if "i \<in> set (array_keys (t_array t))" for i
  proof -
    have i: "i - 1 < sizearray t" "i - 1 + 1 = i" "t_array t ! (i - 1) \<noteq> LNil"
      using that by (auto simp: set_array_keys)
    show ?thesis using array_entry [OF ok i(1), unfolded i(2)] i(3) by simp
  qed
  have hash: "\<not> in_array t k \<and> tab_map t k \<noteq> LNil" if "k \<in> ?H" for k
    using that node_entry [OF ok] by (auto simp: live_def)
  have "{k. tab_map t k \<noteq> LNil} = ?A \<union> ?H"
  proof (intro set_eqI iffI)
    fix k
    assume "k \<in> {k. tab_map t k \<noteq> LNil}"
    then have k: "tab_map t k \<noteq> LNil" by simp
    from ok k show "k \<in> ?A \<union> ?H"
    proof (cases rule: tab_map_cases)
      case (arr i)
      then have "i + 1 \<in> set (array_keys (t_array t))" using k by (simp add: set_array_keys)
      then show ?thesis using arr(2) by blast
    next
      case (node n)
      then show ?thesis using k by (auto simp: live_def)
    qed
  qed (use arr hash in blast)
  moreover have "card ?A = length (array_keys (t_array t))"
  proof -
    have "inj_on (\<lambda>i. LInt (of_nat i)) (set (array_keys (t_array t)))"
      by (rule inj_on_inverseI [where g = arrayindex]) (use arr in blast)
    then have "card ?A = card (set (array_keys (t_array t)))" by (rule card_image)
    also have "\<dots> = length (array_keys (t_array t))" by (rule distinct_card) (simp add: array_keys_def distinct_map)
    finally show ?thesis .
  qed
  moreover have "?A \<inter> ?H = {}" using arr hash by blast
  ultimately show "finite {k. tab_map t k \<noteq> LNil}" "entry_count t = card {k. tab_map t k \<noteq> LNil}"
    using live_keys(2) [OF ok] by (simp_all add: entry_count_def card_Un_disjoint)
qed

section \<open>Raw access\<close>

text \<open>The keys a table accepts, and the table a store leaves behind.\<close>

definition valid_key :: "tvalue \<Rightarrow> bool" where
  "valid_key k \<longleftrightarrow> canonical (norm_key k)"

lemma valid_key_iff: "valid_key k \<longleftrightarrow> k \<noteq> LNil \<and> (\<forall>d. k \<noteq> LDead d) \<and> (\<forall>f. k = LFlt f \<longrightarrow> \<not> flt_isnan f)"
  by (cases k) (auto simp: valid_key_def flt_tointeger_def flt_isnan_def flt_finite_def split: option.split)

definition table_bound :: "nat \<Rightarrow> table \<Rightarrow> bool" where
  "table_bound n t \<longleftrightarrow> sizearray t + sizenode t \<le> 2 * n + 3 \<and> entry_count t \<le> n"

lemma flags_irrelevant:
  "tab_ok seed (t\<lparr>t_flags := f\<rparr>) = tab_ok seed t" "tab_map (t\<lparr>t_flags := f\<rparr>) = tab_map t"
  "sizenode (t\<lparr>t_flags := f\<rparr>) = sizenode t" "slot_val (t\<lparr>t_flags := f\<rparr>) = slot_val t"
proof -
  have mp: "mainposition seed (t\<lparr>t_flags := f\<rparr>) k = mainposition seed t k" for k by (rule mainposition_cong) simp
  have sn: "sizenode (t\<lparr>t_flags := f\<rparr>) = sizenode t" by (simp add: sizenode_def)
  have "nodes_ok seed (t\<lparr>t_flags := f\<rparr>) = nodes_ok seed t" by (simp only: nodes_ok_def mp sn) simp
  then show "tab_ok seed (t\<lparr>t_flags := f\<rparr>) = tab_ok seed t"
    by (simp add: tab_ok_def free_ok_def sn in_array_def)
qed (simp_all add: tab_map_def in_array_def sizenode_def slot_val_def fun_eq_iff split: slot.split)

lemma rawget_map:
  assumes "tab_ok seed t" and "valid_key k"
  shows "rawget seed t k = Inr (tab_map t (norm_key k))"
  using get_value [OF assms(1), of k] assms(2) by (auto simp: rawget_def valid_key_def)

lemma newkey_norm: "luaH_newkey seed t (norm_key k) = luaH_newkey seed t k" if "valid_key k"
proof -
  have "newkey_key (norm_key k) = newkey_key k"
    using that by (cases k) (auto simp: newkey_key_def valid_key_def split: option.split)
  then show ?thesis by (simp add: luaH_newkey_def numeral_2_eq_2 newkey_step_def)
qed

lemma slot_for_unique:
  assumes ok: "tab_ok seed t" and k: "canonical k" and s: "slot_for t k s" and s': "slot_for t k s'"
  shows "s = s'"
proof (cases s)
  case NilSlot
  then show ?thesis using s s' by (cases s') (auto simp: slot_for_def)
next
  case (ArrSlot i)
  then show ?thesis using s s' by (cases s') (auto simp: slot_for_def)
next
  case (NodeSlot i)
  then have i: "\<not> in_array t k" "i < sizenode t" "i_key (t_node t ! i) = k"
    using s by (simp_all add: slot_for_def)
  then obtain j where j: "s' = NodeSlot j" "j < sizenode t" "i_key (t_node t ! j) = k"
    using s' by (cases s') (simp_all add: slot_for_def)
  have nok: "nodes_ok seed t" using ok by (simp add: tab_ok_def)
  have "j = i" by (rule nodes_okD(7) [OF nok i(2) j(2)]) (simp_all add: i(3) j(3) k)
  then show ?thesis using NodeSlot j(1) by simp
qed

lemma set_norm:
  assumes ok: "tab_ok seed t" and k: "valid_key k"
  shows "luaH_set seed t k = luaH_set seed t (norm_key k)"
proof -
  have c: "canonical (norm_key k)" using k by (simp add: valid_key_def)
  obtain s where s: "luaH_get seed t k = Inr s" "slot_for t (norm_key k) s"
    using get_slot [OF ok c] by blast
  obtain s' where s': "luaH_get seed t (norm_key k) = Inr s'" "slot_for t (norm_key k) s'"
    using luaH_get_canonical_slot [OF ok c] by blast
  have "s = s'" by (rule slot_for_unique [OF ok c s(2) s'(2)])
  then show ?thesis using s s' newkey_norm [OF k] by (simp add: luaH_set_def luaH_set_with_def)
qed

lemma card_update:
  assumes "finite {k. m k \<noteq> LNil}"
  shows "card {k. (m(a := v)) k \<noteq> LNil} \<le> Suc (card {k. m k \<noteq> LNil})"
proof -
  have "card {k. (m(a := v)) k \<noteq> LNil} \<le> card (insert a {k. m k \<noteq> LNil})"
    using assms by (intro card_mono) auto
  also have "\<dots> \<le> Suc (card {k. m k \<noteq> LNil})" using assms by (simp add: card_insert_if)
  finally show ?thesis .
qed

lemma rawset_map:
  assumes ok: "tab_ok seed t" and k: "valid_key k" and b: "table_bound n t" and n: "n < 2 ^ 28"
  shows "\<exists>t'. rawset seed t k v = Inr t' \<and> tab_ok seed t' \<and> tab_map t' = (tab_map t)(norm_key k := v) \<and>
           table_bound (Suc n) t'"
proof -
  have c: "canonical (norm_key k)" using k by (simp add: valid_key_def)
  have small: "sizearray t + sizenode t < 2 ^ 30" using b n by (simp add: table_bound_def)
  obtain t1 s where r: "luaH_set seed t (norm_key k) = Inr (t1, s)" "added seed t (norm_key k) (t1, s)"
    using set_added [OF ok c small] by (metis surj_pair)
  then have t1: "tab_ok seed t1" "slot_for t1 (norm_key k) s" "s \<noteq> NilSlot" "tab_map t1 = tab_map t"
    "sizearray t1 + sizenode t1 \<le> max (sizearray t + sizenode t) (2 * entry_count t + 3)"
    by (simp_all add: added_def)
  let ?t = "set_slot t1 s v"
  note st = set_slot_ok [OF t1(1) c t1(2,3)]
  have map: "tab_map ?t = (tab_map t)(norm_key k := v)" using st(2) t1(4) by simp
  have "entry_count ?t \<le> Suc (entry_count t)"
    using card_update [OF entry_count_card(1) [OF ok], of "norm_key k" v]
    by (simp only: entry_count_card(2) [OF ok] entry_count_card(2) [OF st(1)] map)
  moreover have "entry_count (?t\<lparr>t_flags := 0\<rparr>) = entry_count ?t" by (simp add: entry_count_def)
  ultimately have "table_bound (Suc n) (?t\<lparr>t_flags := 0\<rparr>)"
    using b t1(5) by (auto simp: table_bound_def flags_irrelevant)
  moreover have "rawset seed t k v = Inr (?t\<lparr>t_flags := 0\<rparr>)"
    using set_norm [OF ok k] r(1) by (simp add: rawset_def)
  ultimately show ?thesis using st(1) map flags_irrelevant(1,2) by metis
qed

lemma rawset_invalid:
  assumes ok: "tab_ok seed t" and k: "\<not> valid_key k" "\<forall>d. k \<noteq> LDead d"
  shows "\<exists>msg. rawset seed t k v = Inl (RunError msg)"
proof (cases k)
  case LNil
  then show ?thesis
    by (simp add: rawset_def luaH_set_def luaH_set_with_def luaH_newkey_def numeral_2_eq_2 newkey_step_def newkey_key_def)
next
  case (LFlt f)
  then have nan: "flt_isnan f" using k by (auto simp: valid_key_iff)
  then have ti: "flt_tointeger f 0 = None" by (simp add: flt_tointeger_def flt_isnan_def flt_finite_def)
  have nok: "nodes_ok seed t" using ok by (simp add: tab_ok_def)
  have no: "\<not> luaV_rawequalobj k' k" for k' using LFlt nan ti by (cases k') (auto simp: flt_eq_def)
  have mp: "mainposition seed t k < length (t_node t)" using mainposition_less nodes_okD(1) [OF nok] by simp
  have "luaH_get seed t k = Inr NilSlot"
    using search_None [OF nodes_okD(2) [OF nok] mp] no LFlt ti by (simp add: get_generic_def to_slot_def)
  then show ?thesis using LFlt nan ti
    by (simp add: rawset_def luaH_set_def luaH_set_with_def luaH_newkey_def numeral_2_eq_2 newkey_step_def newkey_key_def)
qed (use k in \<open>auto simp: valid_key_iff\<close>)

lemma luaH_new_ok: "tab_ok seed luaH_new" "tab_map luaH_new = (\<lambda>k. LNil)" "table_bound 0 luaH_new"
proof -
  have fresh: "t_node luaH_new = replicate (sizenode luaH_new) dummynode" by (simp add: luaH_new_def sizenode_def)
  show "tab_ok seed luaH_new"
    using fresh_nodes_ok(1) [OF fresh, of seed]
    by (simp add: tab_ok_def free_ok_def luaH_new_def sizenode_def dummynode_def in_array_def)
  show "tab_map luaH_new = (\<lambda>k. LNil)"
    by (auto simp: fun_eq_iff tab_map_def luaH_new_def in_array_def node_lookup_def dummynode_def)
  show "table_bound 0 luaH_new"
    by (simp add: table_bound_def luaH_new_def sizenode_def entry_count_def array_keys_def live_def dummynode_def)
qed

section \<open>The map interface\<close>

text \<open>
  What a client of a table relies on: lookups and stores on valid keys return, and a lookup
  after a store sees it exactly under the same normalised key.  \<open>ok n\<close> says that the container
  is well formed and holds at most \<open>n\<close> entries, \<open>limit\<close> how many it can take.
\<close>

locale key_map =
  fixes ok :: "nat \<Rightarrow> 't \<Rightarrow> bool" and get :: "'t \<Rightarrow> 'k \<Rightarrow> 'v res" and put :: "'t \<Rightarrow> 'k \<Rightarrow> 'v \<Rightarrow> 't res"
    and norm :: "'k \<Rightarrow> 'k" and valid :: "'k \<Rightarrow> bool" and limit :: nat
  assumes put_ok: "ok n t \<Longrightarrow> n < limit \<Longrightarrow> valid k \<Longrightarrow> \<exists>t'. put t k v = Inr t' \<and> ok (Suc n) t'"
    and get_put_same: "ok n t \<Longrightarrow> n < limit \<Longrightarrow> valid k \<Longrightarrow> valid k' \<Longrightarrow> norm k' = norm k \<Longrightarrow>
      put t k v = Inr t' \<Longrightarrow> get t' k' = Inr v"
    and get_put_other: "ok n t \<Longrightarrow> n < limit \<Longrightarrow> valid k \<Longrightarrow> valid k' \<Longrightarrow> norm k' \<noteq> norm k \<Longrightarrow>
      put t k v = Inr t' \<Longrightarrow> get t' k' = get t k'"
begin

lemma put_all:
  assumes "ok n t" and "n + length kvs \<le> limit" and "\<And>k v. (k, v) \<in> set kvs \<Longrightarrow> valid k"
  shows "\<exists>t'. efold (\<lambda>(k, v) t. put t k v) kvs t = Inr t' \<and> ok (n + length kvs) t' \<and>
    (\<forall>k. valid k \<longrightarrow> get t' k =
      (case map_of (rev (map (\<lambda>(k, v). (norm k, v)) kvs)) (norm k) of Some v \<Rightarrow> Inr v | None \<Rightarrow> get t k))"
  using assms
proof (induction kvs arbitrary: n t)
  case Nil
  then show ?case by simp
next
  case (Cons kv kvs)
  obtain k v where kv: "kv = (k, v)" by (cases kv)
  have k: "valid k" using Cons.prems(3) kv by auto
  have n: "n < limit" using Cons.prems(2) by simp
  obtain t1 where t1: "put t k v = Inr t1" "ok (Suc n) t1"
    using put_ok [OF Cons.prems(1) n k] by blast
  obtain t' where t': "efold (\<lambda>(k, v) t. put t k v) kvs t1 = Inr t'" "ok (Suc n + length kvs) t'"
    "\<And>k. valid k \<Longrightarrow> get t' k =
      (case map_of (rev (map (\<lambda>(k, v). (norm k, v)) kvs)) (norm k) of Some v \<Rightarrow> Inr v | None \<Rightarrow> get t1 k)"
    using Cons.IH [OF t1(2)] Cons.prems(2,3) by auto
  have "get t' k' =
      (case map_of (rev (map (\<lambda>(k, v). (norm k, v)) (kv # kvs))) (norm k') of Some v \<Rightarrow> Inr v | None \<Rightarrow> get t k')"
    if k': "valid k'" for k'
    using t'(3) [OF k'] get_put_same [OF Cons.prems(1) n k k' _ t1(1)]
      get_put_other [OF Cons.prems(1) n k k' _ t1(1)] kv
    by (cases "norm k' = norm k") (auto simp: map_add_def split: option.splits)
  then show ?case using t1(1) t'(1,2) kv by auto
qed

end

lemma rawset_unique:
  assumes "tab_ok seed t" and "valid_key k" and "table_bound n t" and "n < 2 ^ 28" and "rawset seed t k v = Inr t'"
  shows "tab_ok seed t'" and "tab_map t' = (tab_map t)(norm_key k := v)" and "table_bound (Suc n) t'"
  using rawset_map [OF assms(1-4), of v] assms(5) by auto

interpretation raw: key_map "\<lambda>n t. tab_ok seed t \<and> table_bound n t" "rawget seed" "rawset seed"
  norm_key valid_key "2 ^ 28" for seed
proof (unfold_locales, goal_cases)
  case (1 n t k v)
  then show ?case using rawset_map [of seed t k n v] by auto
next
  case (2 n t k k' v t')
  then show ?case using rawset_unique [of seed t k n v t'] rawget_map [of seed t' k'] by simp
next
  case (3 n t k k' v t')
  then show ?case using rawset_unique [of seed t k n v t'] rawget_map [of seed t' k'] rawget_map [of seed t k'] by simp
qed

text \<open>C2:
  A table is a map.  Whatever sequence of raw stores is made into a new table, with any keys
  but nil and NaN, every store returns, and a raw lookup of any such key then gives the value
  of the last store under a key that is equal to it (1 and 1.0 are the same key), or nil if
  there is none.  This covers collisions, the moving of colliding nodes, every rehash and the
  migration of keys between the array part and the hash part.
\<close>

theorem table_is_map:
  assumes "\<And>k v. (k, v) \<in> set kvs \<Longrightarrow> valid_key k" and "length kvs \<le> 2 ^ 28"
  shows "\<exists>t. efold (\<lambda>(k, v) t. rawset seed t k v) kvs luaH_new = Inr t \<and>
    (\<forall>k. valid_key k \<longrightarrow> rawget seed t k =
      Inr (case map_of (rev (map (\<lambda>(k, v). (norm_key k, v)) kvs)) (norm_key k) of Some v \<Rightarrow> v | None \<Rightarrow> LNil))"
proof -
  have new: "tab_ok seed luaH_new \<and> table_bound 0 luaH_new" using luaH_new_ok by blast
  have "rawget seed luaH_new k = Inr LNil" if "valid_key k" for k
    using rawget_map [OF luaH_new_ok(1) that] luaH_new_ok(2) by simp
  moreover have "0 + length kvs \<le> 2 ^ 28" using assms(2) by simp
  ultimately show ?thesis using raw.put_all [OF new _ assms(1)] by (force split: option.splits)
qed

lemma table_is_map_witness:
  "\<exists>t. efold (\<lambda>(k, v) t. rawset 7 t k v) [(LInt 1, LBool True), (LStr ''x'', LInt 5)] luaH_new = Inr t \<and>
       rawget 7 t (LInt 1) = Inr (LBool True)"
proof -
  have "\<exists>t. efold (\<lambda>(k, v) t. rawset 7 t k v) [(LInt 1, LBool True), (LStr ''x'', LInt 5)] luaH_new = Inr t \<and>
    (\<forall>k. valid_key k \<longrightarrow> rawget 7 t k =
      Inr (case map_of (rev (map (\<lambda>(k, v). (norm_key k, v)) [(LInt 1, LBool True), (LStr ''x'', LInt 5)])) (norm_key k)
           of Some v \<Rightarrow> v | None \<Rightarrow> LNil))"
    by (rule table_is_map) (auto simp: valid_key_iff)
  moreover have "valid_key (LInt 1)" by (simp add: valid_key_iff)
  ultimately show ?thesis by force
qed

text \<open>
  Keys that cannot be stored.  A raw store under nil or NaN raises an error, on any table and
  for any value, and a store under any other key succeeds and changes exactly the value under
  the keys equal to it.
\<close>

theorem rawset_key_errors:
  assumes "tab_ok seed t" and "table_bound n t" and "n < 2 ^ 28" and "\<forall>d. k \<noteq> LDead d"
  shows "if k = LNil \<or> (\<exists>f. k = LFlt f \<and> flt_isnan f) then \<exists>msg. rawset seed t k v = Inl (RunError msg)
         else \<exists>t'. rawset seed t k v = Inr t' \<and> tab_ok seed t' \<and>
           (\<forall>k'. valid_key k' \<longrightarrow>
              rawget seed t' k' = (if norm_key k' = norm_key k then Inr v else rawget seed t k'))"
proof (cases "valid_key k")
  case True
  then obtain t' where t': "rawset seed t k v = Inr t'" "tab_ok seed t'" "tab_map t' = (tab_map t)(norm_key k := v)"
    using rawset_map [OF assms(1) _ assms(2,3)] by blast
  have "rawget seed t' k' = (if norm_key k' = norm_key k then Inr v else rawget seed t k')" if "valid_key k'" for k'
    using rawget_map [OF t'(2) that] rawget_map [OF assms(1) that] t'(3) by simp
  then show ?thesis using True t' by (auto simp: valid_key_iff)
next
  case False
  then show ?thesis using rawset_invalid [OF assms(1) False assms(4)] assms(4) by (auto simp: valid_key_iff)
qed

lemma rawset_key_errors_witness:
  "\<exists>msg. rawset 7 luaH_new (LFlt 0x7FF8000000000000) (LInt 1) = Inl (RunError msg)"
  using rawset_key_errors [of 7 luaH_new 0 "LFlt 0x7FF8000000000000" "LInt 1"] luaH_new_ok
  by (simp add: flt_isnan_def flt_exp_def flt_frac_def)

section \<open>Growing\<close>

text \<open>The integer keys in \<open>1 .. n\<close> that have a value, the key being inserted included.\<close>

definition used_keys :: "table \<Rightarrow> tvalue \<Rightarrow> nat \<Rightarrow> nat" where
  "used_keys t ek n =
     card {k. 0 < k \<and> k \<le> min n MAXASIZE \<and> (tab_map t (LInt (of_nat k)) \<noteq> LNil \<or> ek = LInt (of_nat k))}"

lemma used_keys_count:
  assumes ok: "tab_ok seed t" and new: "tab_map t ek = LNil"
  shows "used_keys t ek n = upto_count (int_keys t ek) n"
proof -
  have "{k. 0 < k \<and> k \<le> min n MAXASIZE \<and> (tab_map t (LInt (of_nat k)) \<noteq> LNil \<or> ek = LInt (of_nat k))} =
      set (filter (\<lambda>k. k \<le> n) (int_keys t ek))"
    using set_int_keys [OF ok, of _ ek] by auto
  then show ?thesis
    using distinct_int_keys [OF ok new] by (simp only: used_keys_def distinct_card distinct_filter)
qed

lemma luaH_newkey_unfold: "luaH_newkey seed = newkey_step (luaH_newkey_rec 1 seed) seed"
  by (intro ext) (simp only: luaH_newkey_def numeral_2_eq_2 luaH_newkey_rec.simps One_nat_def)

lemma reinserted_load_card:
  assumes ok: "tab_ok seed t"
  shows "hash_load n (reinserted t n) = card {k. tab_map t k \<noteq> LNil \<and> hash_key n k}"
proof -
  have nil: "tab_map t LNil = LNil" using live_keys_canonical [OF ok, of LNil] by fastforce
  have asz: "sizearray t \<le> MAXASIZE" using ok by (simp add: tab_ok_def)
  let ?in = "{k. tab_map t k \<noteq> LNil \<and> \<not> hash_key n k}" and ?out = "{k. tab_map t k \<noteq> LNil \<and> hash_key n k}"
  have "bij_betw arrayindex ?in {k. 0 < k \<and> k \<le> min n MAXASIZE \<and> (tab_map t (LInt (of_nat k)) \<noteq> LNil \<or> LNil = LInt (of_nat k))}"
    by (rule bij_betw_byWitness [where f' = "\<lambda>k. LInt (of_nat k)"])
      (use LInt_of_arrayindex arrayindex_le arrayindex_of_nat in \<open>auto simp: hash_key_def\<close>)
  then have "card ?in = upto_count (int_keys t LNil) n"
    using used_keys_count [OF ok nil, of n] unfolding used_keys_def by (simp add: bij_betw_same_card)
  moreover have "card ?in + card ?out = entry_count t"
  proof -
    have "{k. tab_map t k \<noteq> LNil} = ?in \<union> ?out" by blast
    then have "entry_count t = card (?in \<union> ?out)"
      unfolding entry_count_card(2) [OF ok] by (rule arg_cong)
    also have "\<dots> = card ?in + card ?out"
      by (rule card_Un_disjoint) (rule rev_finite_subset [OF entry_count_card(1) [OF ok]] | blast)+
    finally show ?thesis by simp
  qed
  ultimately show ?thesis
    using reinserted_load [OF asz, of n] live_load [of "t_node t" n] array_keys_load [of "t_array t" n]
    by (simp add: entry_count_def int_keys_def ek_keys_def)
qed

text \<open>C19:
  A rehash for a new key loses nothing and sizes the array part optimally.  It returns; the
  table afterwards is well formed and maps every key as before; the size of the array part is
  0 or a power of two more than half of whose slots are in use (the new key included), and it
  is the largest such power of two.
\<close>

theorem rehash_optimal:
  assumes "tab_ok seed t" and "tab_map t ek = LNil" and "sizearray t + sizenode t < 2 ^ 30"
  shows "\<exists>t'. rehash seed t ek = Inr t' \<and> tab_ok seed t' \<and> tab_map t' = tab_map t \<and>
    (sizearray t' = 0 \<or> (\<exists>j. sizearray t' = 2 ^ j \<and> sizearray t' div 2 < used_keys t ek (sizearray t'))) \<and>
    (\<forall>j. 2 ^ j div 2 < used_keys t ek (2 ^ j) \<longrightarrow> 2 ^ j \<le> sizearray t')"
proof -
  have "luaH_newkey seed = newkey_step (luaH_newkey_rec 1 seed) seed" by (rule luaH_newkey_unfold)
  then have "rehash seed t ek = rehash_with (newkey_step (luaH_newkey_rec 1 seed) seed) seed t ek"
    by (simp only: rehash_def)
  then obtain t' where "rehash seed t ek = Inr t'" "tab_ok seed t'" "tab_map t' = tab_map t"
    "optimal_size t ek (sizearray t')"
    using rehash_keeps [OF assms, of "luaH_newkey_rec 1 seed"] by metis
  then show ?thesis unfolding optimal_size_def used_keys_count [OF assms(1,2)] by blast
qed

lemma rehash_optimal_witness:
  "\<exists>t'. rehash 7 luaH_new (LInt 1) = Inr t' \<and> tab_map t' = tab_map luaH_new"
  using rehash_optimal [of 7 luaH_new "LInt 1"] luaH_new_ok by (force simp: luaH_new_def sizenode_def)

text \<open>C23:
  A resize to any sizes keeps the contents: if the new hash part is asked to be at least as
  large as the number of entries that will not fit the new array part, \<open>luaH_resize\<close> returns
  a well-formed table with the array size asked for, and every key maps as before, whether
  the array part grew, shrank or stayed.
\<close>

theorem resize_keeps_entries:
  assumes "tab_ok seed t" and "nasize \<le> MAXASIZE" and "nhsize \<le> 2 ^ MAXHBITS"
    and "card {k. tab_map t k \<noteq> LNil \<and> hash_key nasize k} \<le> nhsize"
  shows "\<exists>t'. luaH_resize seed t nasize nhsize = Inr t' \<and> tab_ok seed t' \<and> tab_map t' = tab_map t \<and>
           sizearray t' = nasize"
proof -
  have "hash_load nasize (reinserted t nasize) + 0 \<le> nhsize"
    using assms(4) by (simp add: reinserted_load_card [OF assms(1)])
  from resize_with_keeps [OF assms(1-3) this, of "luaH_newkey_rec 1 seed"] show ?thesis
    unfolding luaH_resize_def luaH_newkey_unfold by blast
qed

lemma resize_keeps_entries_witness:
  "\<exists>t'. luaH_resize 7 luaH_new 4 2 = Inr t' \<and> tab_ok 7 t' \<and> sizearray t' = 4"
  using resize_keeps_entries [of 7 luaH_new 4 2] luaH_new_ok by auto

section \<open>Traversal\<close>

text \<open>The cells of a table in the order of a traversal.\<close>

definition cells :: "table \<Rightarrow> (tvalue \<times> tvalue) list" where
  "cells t = map (\<lambda>i. (LInt (of_nat (i + 1)), t_array t ! i)) [0..<sizearray t] @
             map (\<lambda>n. (i_key n, i_val n)) (t_node t)"

abbreviation live_cell :: "tvalue \<times> tvalue \<Rightarrow> bool" where
  "live_cell kv \<equiv> snd kv \<noteq> LNil"

text \<open>The entries that a loop over \<open>next\<close> sees.\<close>

definition traverse :: "u32 \<Rightarrow> table \<Rightarrow> (tvalue \<times> tvalue) list res" where
  "traverse seed t =
     next_loop (sizearray t + sizenode t + 1) seed t (\<lambda>k v kvs. Inr (kvs @ [(k, v)])) LNil []"

lemma length_cells: "length (cells t) = sizearray t + length (t_node t)"
  by (simp add: cells_def)

lemma next_array_find:
  "i + k \<le> sizearray t \<Longrightarrow>
   next_array t k i = List.find live_cell (map (\<lambda>i. (LInt (of_nat (i + 1)), t_array t ! i)) [i..<i + k])"
proof (induction k arbitrary: i)
  case (Suc k)
  have "[i..<i + Suc k] = i # [Suc i..<Suc i + k]" by (simp add: upt_rec)
  then show ?case using Suc.IH [of "Suc i"] Suc.prems by (simp del: upt_Suc)
qed simp

lemma next_node_find: "next_node ns = List.find live_cell (map (\<lambda>n. (i_key n, i_val n)) ns)"
  by (induction ns) simp_all

lemma find_append: "List.find P (xs @ ys) = (case List.find P xs of None \<Rightarrow> List.find P ys | Some x \<Rightarrow> Some x)"
  by (induction xs) auto

lemma next_find:
  assumes "findindex seed t key = Inr i"
  shows "luaH_next seed t key = Inr (List.find live_cell (drop i (cells t)))"
proof (cases "i \<le> sizearray t")
  case True
  then have "drop i (cells t) = map (\<lambda>i. (LInt (of_nat (i + 1)), t_array t ! i)) [i..<i + (sizearray t - i)] @
      map (\<lambda>n. (i_key n, i_val n)) (t_node t)"
    by (simp add: cells_def drop_map)
  then show ?thesis using assms True next_array_find [of i "sizearray t - i" t]
    by (simp add: luaH_next_def find_append next_node_find split: option.split)
next
  case False
  then have "drop i (cells t) = map (\<lambda>n. (i_key n, i_val n)) (drop (i - sizearray t) (t_node t))"
    by (simp add: cells_def drop_map)
  then show ?thesis using assms False by (simp add: luaH_next_def next_node_find)
qed

text \<open>No dead key keeps the address of a live one.\<close>

definition no_stale :: "table \<Rightarrow> bool" where
  "no_stale t \<longleftrightarrow> (\<forall>m \<in> set (t_node t). \<forall>n \<in> set (t_node t). i_key m \<noteq> LDead (i_key n))"

text \<open>The index of a key that the traversal has returned is one past its cell.\<close>

lemma findindex_cell:
  assumes ok: "tab_ok seed t" and st: "no_stale t" and i: "i < length (cells t)" "live_cell (cells t ! i)"
  shows "findindex seed t (fst (cells t ! i)) = Inr (Suc i)"
proof -
  have nok: "nodes_ok seed t" using ok by (simp add: tab_ok_def)
  show ?thesis
  proof (cases "i < sizearray t")
    case True
    then have "cells t ! i = (LInt (of_nat (i + 1)), t_array t ! i)" by (simp add: cells_def nth_append)
    then show ?thesis using array_entry(1,2) [OF ok True] by (simp add: findindex_def in_array_def)
  next
    case False
    define j where "j = i - sizearray t"
    then have j: "j < sizenode t" "i = sizearray t + j"
      using i(1) False nodes_okD(1) [OF nok] by (simp_all add: length_cells)
    then have c: "cells t ! i = (i_key (t_node t ! j), i_val (t_node t ! j))"
      using nodes_okD(1) [OF nok] by (simp add: cells_def nth_append)
    let ?k = "i_key (t_node t ! j)" and ?P = "\<lambda>k n. luaV_rawequalobj (i_key n) k \<or> (iscollectable k \<and> i_key n = LDead k)"
    have k: "canonical ?k" using nodes_okD(5) [OF nok j(1)] i(2) c by simp
    have na: "\<not> in_array t ?k" using ok j(1) by (simp add: tab_ok_def)
    have mp: "mainposition seed t ?k < length (t_node t)" using mainposition_less nodes_okD(1) [OF nok] by simp
    have "search t (?P ?k) (mainposition seed t ?k) = Inr (Some j)"
    proof (rule search_Some [OF nodes_okD(2) [OF nok] mp])
      show "reach (t_node t) (mainposition seed t ?k) j" using nodes_okD(6) [OF nok j(1) k] .
      show "?P ?k (t_node t ! j)" using rawequal_canonical [OF k k] by simp
      show "l = j" if l: "l < length (t_node t)" "?P ?k (t_node t ! l)" for l
      proof -
        have "i_key (t_node t ! l) \<noteq> LDead ?k"
          using st l(1) j(1) nodes_okD(1) [OF nok] unfolding no_stale_def by simp
        then have "i_key (t_node t ! l) = ?k"
          using l nodes_ok_stored [OF nok, of l] rawequal_stored [OF _ k] nodes_okD(1) [OF nok] by auto
        then show ?thesis using nodes_okD(7) [OF nok j(1) _ k] l(1) nodes_okD(1) [OF nok] by simp
      qed
    qed
    then show ?thesis using c na k j(2) by (auto simp: findindex_def in_array_def)
  qed
qed

lemma find_split:
  assumes "List.find P xs = Some x"
  obtains m where "m < length xs" and "xs ! m = x" and "P x" and "filter P xs = x # filter P (drop (Suc m) xs)"
proof -
  obtain m where m: "m < length xs" "x = xs ! m" "P (xs ! m)" "\<forall>l < m. \<not> P (xs ! l)"
    using assms by (auto simp: find_Some_iff)
  have "\<forall>y \<in> set (take m xs). \<not> P y"
    using m(4) by (metis in_set_conv_nth length_take min_less_iff_conj nth_take)
  then have "filter P (take m xs) = []" by (rule filter_False)
  moreover have "xs = take m xs @ x # drop (Suc m) xs" using id_take_nth_drop [OF m(1)] m(2) by simp
  ultimately have "filter P xs = x # filter P (drop (Suc m) xs)"
    using m(2,3) by (metis append_Nil filter.simps(2) filter_append)
  then show ?thesis using that m by simp
qed

text \<open>So the loop is a fold over the live cells.\<close>

lemma next_loop_from:
  assumes ok: "tab_ok seed t" and st: "no_stale t"
  shows "findindex seed t key = Inr i \<Longrightarrow> i \<le> length (cells t) \<Longrightarrow> length (cells t) < i + fuel \<Longrightarrow>
    next_loop fuel seed t f key s = efold (\<lambda>(k, v). f k v) (filter live_cell (drop i (cells t))) s"
proof (induction fuel arbitrary: key i s)
  case 0
  then show ?case by simp
next
  case (Suc fuel)
  show ?case
  proof (cases "List.find live_cell (drop i (cells t))")
    case None
    then have "filter live_cell (drop i (cells t)) = []" by (auto simp: find_None_iff filter_empty_conv)
    then show ?thesis using next_find [OF Suc.prems(1)] None by simp
  next
    case (Some kv)
    from find_split [OF this] obtain m where m: "m < length (drop i (cells t))" "drop i (cells t) ! m = kv" "live_cell kv"
      "filter live_cell (drop i (cells t)) = kv # filter live_cell (drop (Suc m) (drop i (cells t)))" .
    have im: "i + m < length (cells t)" "cells t ! (i + m) = kv" using m(1,2) by simp_all
    obtain k v where kv: "kv = (k, v)" by (cases kv)
    have fi: "findindex seed t k = Inr (Suc (i + m))"
      using findindex_cell [OF ok st im(1)] im(2) m(3) kv by simp
    have "next_loop fuel seed t f k = efold (\<lambda>(k, v). f k v) (filter live_cell (drop (Suc (i + m)) (cells t)))"
      by (rule ext) (rule Suc.IH [OF fi]; use Suc.prems(3) im(1) in simp)
    then show ?thesis using next_find [OF Suc.prems(1)] Some m(4) kv by (simp add: add.commute)
  qed
qed

lemma next_loop_all:
  assumes ok: "tab_ok seed t" and st: "no_stale t"
  shows "next_loop (sizearray t + sizenode t + 1) seed t f LNil s = efold (\<lambda>(k, v). f k v) (filter live_cell (cells t)) s"
proof -
  have "length (cells t) = sizearray t + sizenode t"
    using ok nodes_okD(1) [of seed t] by (simp add: length_cells tab_ok_def)
  then show ?thesis
    using next_loop_from [OF assms, of LNil 0 "sizearray t + sizenode t + 1" f s] by (simp only: findindex_def) simp
qed

lemma cells_entries:
  assumes ok: "tab_ok seed t"
  shows "distinct (map fst (filter live_cell (cells t)))"
    and "set (filter live_cell (cells t)) = {(k, v). tab_map t k = v \<and> v \<noteq> LNil}"
proof -
  let ?A = "filter live_cell (map (\<lambda>i. (LInt (of_nat (i + 1)), t_array t ! i)) [0..<sizearray t])"
  have split: "filter live_cell (cells t) = ?A @ map (\<lambda>n. (i_key n, i_val n)) (live (t_node t))"
    by (simp add: cells_def live_def filter_map o_def)
  have setA: "(k, v) \<in> set ?A \<longleftrightarrow> in_array t k \<and> tab_map t k = v \<and> v \<noteq> LNil" for k v
  proof
    assume "(k, v) \<in> set ?A"
    then obtain i where "i < sizearray t" "k = LInt (of_nat (i + 1))" "v = t_array t ! i" "v \<noteq> LNil" by auto
    then show "in_array t k \<and> tab_map t k = v \<and> v \<noteq> LNil" using array_entry [OF ok, of i] by simp
  next
    assume a: "in_array t k \<and> tab_map t k = v \<and> v \<noteq> LNil"
    then have "tab_map t k \<noteq> LNil" by simp
    from ok this show "(k, v) \<in> set ?A"
    proof (cases rule: tab_map_cases)
      case (arr i)
      then show ?thesis using a by (auto simp: image_iff)
    qed (use a in simp)
  qed
  have setH: "(k, v) \<in> set (map (\<lambda>n. (i_key n, i_val n)) (live (t_node t))) \<longleftrightarrow> \<not> in_array t k \<and> tab_map t k = v \<and> v \<noteq> LNil" for k v
  proof
    assume "(k, v) \<in> set (map (\<lambda>n. (i_key n, i_val n)) (live (t_node t)))"
    then obtain n where n: "n \<in> set (t_node t)" "i_val n \<noteq> LNil" "k = i_key n" "v = i_val n" by (auto simp: live_def)
    then show "\<not> in_array t k \<and> tab_map t k = v \<and> v \<noteq> LNil" using node_entry [OF ok n(1,2)] by simp
  next
    assume a: "\<not> in_array t k \<and> tab_map t k = v \<and> v \<noteq> LNil"
    then have "tab_map t k \<noteq> LNil" by simp
    from ok this show "(k, v) \<in> set (map (\<lambda>n. (i_key n, i_val n)) (live (t_node t)))"
    proof (cases rule: tab_map_cases)
      case (arr i)
      then show ?thesis using array_entry(1) [OF ok arr(1)] a by simp
    next
      case (node n)
      then show ?thesis using a by (auto simp: live_def)
    qed
  qed
  show "set (filter live_cell (cells t)) = {(k, v). tab_map t k = v \<and> v \<noteq> LNil}"
    unfolding split set_append using setA setH by blast
  have "distinct (map fst ?A)"
  proof (rule distinct_map_filter_nth)
    fix i j
    let ?xs = "map (\<lambda>i. (LInt (of_nat (i + 1)), t_array t ! i)) [0..<sizearray t]"
    assume ij: "i < length ?xs" "j < length ?xs" "fst (?xs ! i) = fst (?xs ! j)"
    then have "LInt (of_nat (i + 1)) = LInt (of_nat (j + 1))" by simp
    then have "arrayindex (LInt (of_nat (i + 1))) = arrayindex (LInt (of_nat (j + 1)))" by (rule arg_cong)
    then show "i = j" using array_entry(2) [OF ok, of i] array_entry(2) [OF ok, of j] ij(1,2) by simp
  qed
  moreover have "distinct (map i_key (live (t_node t)))"
    using live_keys [OF ok] by (intro card_distinct) simp
  moreover have "fst ` set ?A \<inter> i_key ` set (live (t_node t)) = {}"
  proof -
    have "in_array t k" if "k \<in> fst ` set ?A" for k using that setA by (metis (no_types, lifting) imageE prod.collapse)
    moreover have "\<not> in_array t k" if "k \<in> i_key ` set (live (t_node t))" for k
      using that node_entry(2) [OF ok] by (auto simp: live_def)
    ultimately show ?thesis by blast
  qed
  ultimately show "distinct (map fst (filter live_cell (cells t)))"
    unfolding split by (simp add: o_def)
qed

lemma length_live_cells:
  assumes "tab_ok seed t"
  shows "length (filter live_cell (cells t)) = entry_count t"
proof -
  have "fst ` set (filter live_cell (cells t)) = {k. tab_map t k \<noteq> LNil}"
    unfolding cells_entries(2) [OF assms] by force
  then show ?thesis
    using distinct_card [OF cells_entries(1) [OF assms]] entry_count_card(2) [OF assms] by simp
qed

text \<open>C40:
  A traversal visits every entry once.  Calling \<open>luaH_next\<close> with nil and then with the key it
  returned last, until it says that there are no more, ends without an error and yields
  exactly the entries of the table, each key once.
\<close>

theorem traversal_complete:
  assumes "tab_ok seed t" and "no_stale t"
  shows "\<exists>kvs. traverse seed t = Inr kvs \<and>
    distinct (map fst kvs) \<and> set kvs = {(k, v). tab_map t k = v \<and> v \<noteq> LNil}"
proof -
  have "efold (\<lambda>(k, v) kvs. Inr (kvs @ [(k, v)])) xs ys = Inr (ys @ xs)" for xs ys :: "(tvalue \<times> tvalue) list"
    by (induction xs arbitrary: ys) auto
  then have "traverse seed t = Inr (filter live_cell (cells t))"
    using next_loop_all [OF assms, of "\<lambda>k v kvs. Inr (kvs @ [(k, v)])" "[]"] by (simp add: traverse_def case_prod_beta')
  then show ?thesis using cells_entries [OF assms(1)] by simp
qed

lemma traversal_complete_witness:
  "\<exists>kvs. traverse 7 (luaH_new\<lparr>t_array := [LBool True, LNil, LInt 5]\<rparr>) = Inr kvs \<and>
     distinct (map fst kvs) \<and> (LInt 1, LBool True) \<in> set kvs \<and> (LInt 3, LInt 5) \<in> set kvs \<and> LInt 2 \<notin> fst ` set kvs"
proof -
  let ?t = "luaH_new\<lparr>t_array := [LBool True, LNil, LInt 5]\<rparr>"
  have fresh: "t_node ?t = replicate (sizenode ?t) dummynode" by (simp add: luaH_new_def sizenode_def)
  have ok: "tab_ok 7 ?t"
    using fresh_nodes_ok(1) [OF fresh, of 7]
    by (simp add: tab_ok_def free_ok_def luaH_new_def sizenode_def dummynode_def in_array_def)
  have st: "no_stale ?t" by (simp add: no_stale_def luaH_new_def dummynode_def)
  have "arrayindex (LInt 1) = 1" "arrayindex (LInt 2) = 2" "arrayindex (LInt 3) = 3"
    by (simp_all add: arrayindex_LInt)
  then have "tab_map ?t (LInt 1) = LBool True" "tab_map ?t (LInt 2) = LNil" "tab_map ?t (LInt 3) = LInt 5"
    by (simp_all add: tab_map_def in_array_def)
  then show ?thesis using traversal_complete [OF ok st] by fastforce
qed

section \<open>The length operator\<close>

definition is_boundary :: "(nat \<Rightarrow> tvalue) \<Rightarrow> nat \<Rightarrow> bool" where
  "is_boundary h n \<longleftrightarrow> (n = 0 \<or> h n \<noteq> LNil) \<and> h (Suc n) = LNil"

lemma boundary_search_finds:
  assumes "\<And>m. i < m \<Longrightarrow> m < j \<Longrightarrow> get m = Inr (h m)" and "i < j" and "i = 0 \<or> h i \<noteq> LNil" and "h j = LNil"
  shows "\<exists>n. boundary_search get i j = Inr n \<and> i \<le> n \<and> n < j \<and> is_boundary h n"
  using assms
proof (induction get i j rule: boundary_search.induct)
  case (1 get i j)
  show ?case
  proof (cases "1 < j - i")
    case False
    then have "j = Suc i" using "1.prems"(2) by simp
    then show ?thesis using "1.prems" by (simp add: boundary_search.simps is_boundary_def)
  next
    case True
    define m where "m = (i + j) div 2"
    have m: "i < m" "m < j" using True by (simp_all add: m_def)
    have gm: "get m = Inr (h m)" using "1.prems"(1) m by blast
    show ?thesis
    proof (cases "h m = LNil")
      case nil: True
      have "\<exists>n. boundary_search get i m = Inr n \<and> i \<le> n \<and> n < m \<and> is_boundary h n"
        by (rule "1.IH"(1) [OF True m_def gm nil]) (use "1.prems" m nil in auto)
      then show ?thesis using True gm nil m by (subst boundary_search.simps) (auto simp: m_def)
    next
      case val: False
      have "\<exists>n. boundary_search get m j = Inr n \<and> m \<le> n \<and> n < j \<and> is_boundary h n"
        by (rule "1.IH"(2) [OF True m_def gm val]) (use "1.prems" m val in auto)
      then show ?thesis using True gm val m by (subst boundary_search.simps) (auto simp: m_def)
    qed
  qed
qed

lemma linear_search_finds:
  assumes "\<And>m. get m = Inr (h m)" and "0 < i" and "i = 1 \<or> h (i - 1) \<noteq> LNil"
    and "i \<le> n" and "n < i + fuel" and "h n = LNil"
  shows "\<exists>r. linear_search fuel get i = Inr r \<and> is_boundary h r"
  using assms(2-)
proof (induction fuel arbitrary: i)
  case (Suc fuel)
  show ?case
  proof (cases "h i = LNil")
    case True
    then show ?thesis using Suc.prems(1,2) assms(1) by (auto simp: is_boundary_def)
  next
    case False
    then have "i \<noteq> n" using Suc.prems(5) by auto
    then show ?thesis using Suc.IH [of "Suc i"] Suc.prems False assms(1) by simp
  qed
qed simp

lemma doubling_search_finds:
  assumes "\<And>m. get m = Inr (h m)" and "\<exists>r. linear_search lin get 1 = Inr r \<and> is_boundary h r"
    and "i < j" and "i = 0 \<or> h i \<noteq> LNil" and "2 ^ (32 - fuel) \<le> j" and "0 < fuel" and "fuel \<le> 32"
  shows "\<exists>r. doubling_search fuel lin get i j = Inr r \<and> is_boundary h r"
  using assms(3-)
proof (induction fuel arbitrary: i j)
  case (Suc fuel)
  show ?case
  proof (cases "h j = LNil")
    case True
    obtain n where "boundary_search get i j = Inr n" "is_boundary h n"
      using boundary_search_finds [OF assms(1) Suc.prems(1,2) True] by blast
    then show ?thesis using True assms(1) [of j] by simp
  next
    case val: False
    show ?thesis
    proof (cases "MAX_INT div 2 < j")
      case True
      then show ?thesis using val assms(1) [of j] assms(2) by simp
    next
      case False
      have "fuel \<noteq> 0"
      proof
        assume "fuel = 0"
        then have "2 ^ 31 \<le> j" using Suc.prems(3) by simp
        then show False using False by simp
      qed
      moreover have "(2::nat) ^ (32 - fuel) = 2 * 2 ^ (32 - Suc fuel)"
        using Suc.prems(5) by (metis Suc_diff_le diff_Suc_Suc power_Suc)
      ultimately show ?thesis using Suc.IH [of j "j * 2"] Suc.prems val assms(1) [of j] False by simp
    qed
  qed
qed simp

lemma getint_val_map:
  assumes "tab_ok seed t"
  shows "getint_val t j = Inr (tab_map t (LInt (of_nat j)))"
proof -
  have nok: "nodes_ok seed t" using assms by (simp add: tab_ok_def)
  show ?thesis
    using getint_slot [OF assms, of "of_nat j"] slot_val_map [OF nok, of "LInt (of_nat j)"]
    by (auto simp: getint_val_def rawgeti_def)
qed

text \<open>Among \<open>sizearray + sizenode + 1\<close> consecutive keys one has no value.\<close>

lemma absent_key:
  assumes ok: "tab_ok seed t"
  shows "\<exists>n. 1 \<le> n \<and> n \<le> sizearray t + sizenode t + 1 \<and> tab_map t (LInt (of_nat n)) = LNil"
proof (rule ccontr)
  assume "\<not> ?thesis"
  then have all: "tab_map t (LInt (of_nat n)) \<noteq> LNil" if "n \<in> {1..sizearray t + sizenode t + 1}" for n
    using that by auto
  let ?N = "sizearray t + sizenode t + 1"
  have nok: "nodes_ok seed t" and asz: "sizearray t \<le> MAXASIZE" and lsz: "t_lsizenode t \<le> MAXHBITS"
    using ok by (simp_all add: tab_ok_def)
  have "sizenode t \<le> 2 ^ MAXHBITS" using lsz unfolding sizenode_def by (intro power_increasing) simp_all
  then have N: "?N < 2 ^ 64" using asz by simp
  have "inj_on (\<lambda>n. LInt (of_nat n)) {1..?N}"
  proof (rule inj_onI)
    fix m n
    assume "m \<in> {1..?N}" "n \<in> {1..?N}" "LInt (of_nat m) = LInt (of_nat n)"
    then have eq: "(of_nat m :: u64) = of_nat n" and lt: "m < 2 ^ 64" "n < 2 ^ 64" using N by auto
    have "unat (of_nat m :: u64) = m" "unat (of_nat n :: u64) = n" unfolding unat_of_nat using lt by simp_all
    then show "m = n" using eq by metis
  qed
  then have "card {1..?N} = card ((\<lambda>n. LInt (of_nat n)) ` {1..?N})" by (rule card_image [symmetric])
  also have "\<dots> \<le> card {k. tab_map t k \<noteq> LNil}"
    using all entry_count_card(1) [OF ok] by (intro card_mono) auto
  also have "\<dots> = entry_count t" using entry_count_card(2) [OF ok] by simp
  also have "\<dots> \<le> sizearray t + sizenode t"
    using length_filter_sum(2) [of "t_node t"] length_filter_sum(3) [of "t_array t"] nodes_okD(1) [OF nok]
    by (simp add: entry_count_def)
  finally show False by simp
qed

lemma getn_finds:
  assumes "tab_ok seed t"
  shows "\<exists>n. luaH_getn t = Inr n \<and> is_boundary (\<lambda>i. tab_map t (LInt (of_nat i))) n"
proof -
  let ?h = "\<lambda>i. tab_map t (LInt (of_nat i))"
  have cell: "?h (Suc i) = t_array t ! i" if "i < sizearray t" for i
    using array_entry(3) [OF assms that] by simp
  show ?thesis
  proof (cases "0 < sizearray t \<and> t_array t ! (sizearray t - 1) = LNil")
    case True
    then have "?h (sizearray t) = LNil" using cell [of "sizearray t - 1"] by simp
    moreover have "Inr (t_array t ! (m - 1)) = Inr (?h m)" if "0 < m" "m < sizearray t" for m
      using cell [of "m - 1"] that by simp
    ultimately have "\<exists>n. boundary_search (\<lambda>m. Inr (t_array t ! (m - 1))) 0 (sizearray t) = Inr n \<and>
        0 \<le> n \<and> n < sizearray t \<and> is_boundary ?h n"
      using True by (intro boundary_search_finds) simp_all
    then show ?thesis using True by (auto simp: luaH_getn_def)
  next
    case False
    have last: "sizearray t = 0 \<or> ?h (sizearray t) \<noteq> LNil"
      using False cell [of "sizearray t - 1"] by (cases "sizearray t") simp_all
    show ?thesis
    proof (cases "t_dummy t")
      case True
      have "?h (Suc (sizearray t)) = LNil"
      proof (rule ccontr)
        assume v: "?h (Suc (sizearray t)) \<noteq> LNil"
        have "t_node t = [dummynode]" using True assms by (simp add: tab_ok_def free_ok_def)
        then have "in_array t (LInt (of_nat (Suc (sizearray t))))"
          using v by (auto simp: tab_map_def node_lookup_def dummynode_def split: if_splits)
        moreover have "sizearray t \<le> MAXASIZE" using assms by (simp add: tab_ok_def)
        then have "unat (of_nat (Suc (sizearray t)) :: u64) = Suc (sizearray t)" unfolding unat_of_nat by simp
        ultimately show False by (simp add: in_array_def arrayindex_LInt split: if_splits)
      qed
      then show ?thesis using False True last by (auto simp: luaH_getn_def is_boundary_def)
    next
      case nd: False
      obtain n where n: "1 \<le> n" "n \<le> sizearray t + sizenode t + 1" "?h n = LNil" using absent_key [OF assms] by blast
      have lin: "\<exists>r. linear_search (Suc (sizearray t + sizenode t)) (getint_val t) 1 = Inr r \<and> is_boundary ?h r"
        by (rule linear_search_finds [where n = n]) (use n getint_val_map [OF assms] in simp_all)
      have "\<exists>r. doubling_search 32 (Suc (sizearray t + sizenode t)) (getint_val t) (sizearray t) (sizearray t + 1) = Inr r \<and>
          is_boundary ?h r"
        by (rule doubling_search_finds [OF getint_val_map [OF assms] lin]) (use last in simp_all)
      then show ?thesis using False nd by (auto simp: luaH_getn_def unbound_search_def Let_def)
    qed
  qed
qed

text \<open>C24:
  The length operator returns a boundary.  On every well-formed table \<open>luaH_getn\<close> ends and
  returns an \<open>n\<close> such that \<open>t[n]\<close> is not nil (or \<open>n\<close> is 0) and \<open>t[n + 1]\<close> is nil, by whichever
  of the binary search in the array part, the unbound search in the hash part, or the linear
  search it falls back to.
\<close>

theorem getn_boundary:
  assumes "tab_ok seed t"
  shows "\<exists>n. luaH_getn t = Inr n \<and> is_boundary (\<lambda>i. tab_map t (LInt (of_nat i))) n"
  using assms by (rule getn_finds)

lemma getn_boundary_witness:
  "\<exists>n. luaH_getn luaH_new = Inr n \<and> (\<forall>i. tab_map luaH_new i = LNil) \<and> n = 0"
  using getn_boundary [OF luaH_new_ok(1)] luaH_new_ok(2) by (auto simp: is_boundary_def)

end
