(* ===== verification/Lua_Args.thy ===== *)
theory Lua_Args
  imports Prelude
begin

text \<open>
  What the library functions share: the arguments as the checks of \<open>lauxlib.c\<close> deliver them,
  and the bytes of a Lua string with the zero byte that C finds behind them.
\<close>

text \<open>\<open>luaL_optinteger\<close>.\<close>

definition optint :: "int option \<Rightarrow> int \<Rightarrow> int" where
  "optint a d = (case a of None \<Rightarrow> d | Some i \<Rightarrow> i)"

lemma optint_simps [simp]: "optint None d = d" "optint (Some i) d = i"
  by (simp_all add: optint_def)

definition byte_at :: "byte list \<Rightarrow> nat \<Rightarrow> byte res" where
  "byte_at s i = (if i < length s then Inr (s ! i) else if i = length s then Inr 0
     else Inl (MemFault ''read behind a string''))"

lemma byte_at_in [simp]: "i < length s \<Longrightarrow> byte_at s i = Inr (s ! i)"
  by (simp add: byte_at_def)

lemma byte_at_end [simp]: "byte_at s (length s) = Inr 0"
  by (simp add: byte_at_def)

lemma byte_at_append: "byte_at (xs @ ys) (length xs + i) = byte_at ys i"
  by (simp add: byte_at_def nth_append)

section \<open>Room on the Lua stack\<close>

text \<open>
  \<open>lua_checkstack (L, n)\<close> with \<open>used\<close> slots below the top.  It holds if the stack as it is has
  more than \<open>n\<close> free slots, or else if it can grow; a stack of at most \<open>LUAI_MAXSTACK\<close> slots has
  them only if it could grow to them, so the second test decides.  \<open>luaL_checkstack\<close> asks for
  \<open>LUA_MINSTACK\<close> more; the sum is an \<open>int\<close>.
\<close>

definition LUAI_MAXSTACK :: nat where "LUAI_MAXSTACK = 1000000"
definition EXTRA_STACK :: nat where "EXTRA_STACK = 5"
definition LUA_MINSTACK :: nat where "LUA_MINSTACK = 20"

definition lua_checkstack :: "nat \<Rightarrow> nat \<Rightarrow> bool" where
  "lua_checkstack used n \<longleftrightarrow> n \<le> LUAI_MAXSTACK \<and> used + EXTRA_STACK \<le> LUAI_MAXSTACK - n"

definition luaL_checkstack :: "nat \<Rightarrow> nat \<Rightarrow> string \<Rightarrow> unit res" where
  "luaL_checkstack used space msg =
     ebind (checked_int (int (space + LUA_MINSTACK))) (\<lambda>_.
     guard_or (lua_checkstack used (space + LUA_MINSTACK)) (RunError (''stack overflow ('' @ msg @ '')'')))"

lemma lua_checkstack_mono: "lua_checkstack used n \<Longrightarrow> used' + n' \<le> used + n \<Longrightarrow> lua_checkstack used' n'"
  by (auto simp: lua_checkstack_def)

lemma luaL_checkstack_room: "lua_checkstack used (n + LUA_MINSTACK) \<Longrightarrow> luaL_checkstack used n msg = Inr ()"
  by (simp add: luaL_checkstack_def checked_int_def lua_checkstack_def LUAI_MAXSTACK_def)

text \<open>
  The size check of \<open>luaS_newlstr\<close>: strings of more than 40 bytes are long; \<open>MAX_SIZE\<close> is the largest
  integer, a string has 24 bytes of header, and the sum with 1 wraps.
\<close>

definition newlstr_toobig :: "nat \<Rightarrow> bool" where
  "newlstr_toobig l \<longleftrightarrow> 40 < l \<and> 2 ^ 63 - 1 - 24 < (l + 1) mod 2 ^ 64"

lemma newlstr_fits: "l < 2 ^ 62 \<Longrightarrow> \<not> newlstr_toobig l"
  by (simp add: newlstr_toobig_def)

text \<open>A number in decimal, as \<open>sprintf\<close> writes it.\<close>

fun dec_text :: "nat \<Rightarrow> byte list" where
  "dec_text n = (if n < 10 then [] else dec_text (n div 10)) @ [of_nat (48 + n mod 10)]"

declare dec_text.simps [simp del]

end
