(* ===== verification/Serializer.thy ===== *)
theory Serializer
  imports Serializer_Blocks Lua_Table Lua_Args
begin

text \<open>
  The message format of \<open>iolua/src/main/cpp/iolua/ltask/serializer.c\<close>: \<open>seri_pack\<close> writes Lua
  values into a chain of blocks, \<open>seri_unpack\<close> reads them back.  This theory holds the code;
  \<open>Serializer_Encoding\<close> and \<open>Serializer_Roundtrip\<close> hold the proofs.

  A Lua state is seen as far as the serializer uses it: its tables.  The heap maps addresses
  to tables of \<open>ltable.c\<close>; new tables get the next address.  What the code takes from and
  leaves on the Lua stack are arguments and results.  The \<open>uint8_t\<close> and \<open>int\<close> buffers that
  are pushed are their object representation on a little-endian machine.  Strings are
  shorter than \<open>2 ^ 31\<close> bytes (\<open>(int)sz\<close>).  The calls of \<open>luaL_checkstack\<close> are taken to find room.
\<close>

section \<open>The heap\<close>

record heap =
  h_tab :: "u64 \<Rightarrow> table option"
  h_next :: u64

definition h_put :: "heap \<Rightarrow> u64 \<Rightarrow> table \<Rightarrow> heap" where
  "h_put h p t = h\<lparr>h_tab := (h_tab h)(p \<mapsto> t)\<rparr>"

definition h_get :: "heap \<Rightarrow> u64 \<Rightarrow> table res" where
  "h_get h p = (case h_tab h p of None \<Rightarrow> Inl (MemFault ''not a table'') | Some t \<Rightarrow> Inr t)"

definition h_alloc :: "heap \<Rightarrow> table \<Rightarrow> u64 \<times> heap" where
  "h_alloc h t = (h_next h, h\<lparr>h_tab := (h_tab h)(h_next h \<mapsto> t), h_next := h_next h + 1\<rparr>)"

section \<open>Tags\<close>

abbreviation (input) TYPE_NIL :: nat where "TYPE_NIL \<equiv> 0"
abbreviation (input) TYPE_BOOLEAN :: nat where "TYPE_BOOLEAN \<equiv> 1"
abbreviation (input) TYPE_NUMBER :: nat where "TYPE_NUMBER \<equiv> 2"
abbreviation (input) TYPE_NUMBER_ZERO :: nat where "TYPE_NUMBER_ZERO \<equiv> 0"
abbreviation (input) TYPE_NUMBER_BYTE :: nat where "TYPE_NUMBER_BYTE \<equiv> 1"
abbreviation (input) TYPE_NUMBER_WORD :: nat where "TYPE_NUMBER_WORD \<equiv> 2"
abbreviation (input) TYPE_NUMBER_DWORD :: nat where "TYPE_NUMBER_DWORD \<equiv> 4"
abbreviation (input) TYPE_NUMBER_QWORD :: nat where "TYPE_NUMBER_QWORD \<equiv> 6"
abbreviation (input) TYPE_NUMBER_REAL :: nat where "TYPE_NUMBER_REAL \<equiv> 8"
abbreviation (input) TYPE_USERDATA :: nat where "TYPE_USERDATA \<equiv> 3"
abbreviation (input) TYPE_SHORT_STRING :: nat where "TYPE_SHORT_STRING \<equiv> 4"
abbreviation (input) TYPE_LONG_STRING :: nat where "TYPE_LONG_STRING \<equiv> 5"
abbreviation (input) TYPE_TABLE :: nat where "TYPE_TABLE \<equiv> 6"
abbreviation (input) MAX_COOKIE :: nat where "MAX_COOKIE \<equiv> 32"
abbreviation (input) MAX_DEPTH :: nat where "MAX_DEPTH \<equiv> 32"

definition COMBINE_TYPE :: "nat \<Rightarrow> nat \<Rightarrow> nat" where
  "COMBINE_TYPE t v = t OR v * 2 ^ 3"

text \<open>\<open>wb_push (wb, &n, 1)\<close>: the low byte of \<open>n\<close>.\<close>

definition wb_tag :: "write_block \<Rightarrow> nat \<Rightarrow> write_block" where
  "wb_tag b n = wb_push b [of_nat n :: byte]"

section \<open>Packing\<close>

definition wb_nil :: "write_block \<Rightarrow> write_block" where
  "wb_nil b = wb_tag b TYPE_NIL"

definition wb_boolean :: "write_block \<Rightarrow> bool \<Rightarrow> write_block" where
  "wb_boolean b v = wb_tag b (COMBINE_TYPE TYPE_BOOLEAN (if v then 1 else 0))"

definition wb_integer :: "write_block \<Rightarrow> u64 \<Rightarrow> write_block" where
  "wb_integer b v =
     (if v = 0 then wb_tag b (COMBINE_TYPE TYPE_NUMBER TYPE_NUMBER_ZERO)
      else if sint v \<noteq> sint (ucast v :: u32)
      then wb_push (wb_tag b (COMBINE_TYPE TYPE_NUMBER TYPE_NUMBER_QWORD)) (le_bytes 8 v)
      else if sint v < 0
      then wb_push (wb_tag b (COMBINE_TYPE TYPE_NUMBER TYPE_NUMBER_DWORD)) (le_bytes 4 (ucast v :: u32))
      else if sint v < 0x100
      then wb_push (wb_tag b (COMBINE_TYPE TYPE_NUMBER TYPE_NUMBER_BYTE)) (le_bytes 1 (ucast v :: byte))
      else if sint v < 0x10000
      then wb_push (wb_tag b (COMBINE_TYPE TYPE_NUMBER TYPE_NUMBER_WORD)) (le_bytes 2 (ucast v :: 16 word))
      else wb_push (wb_tag b (COMBINE_TYPE TYPE_NUMBER TYPE_NUMBER_DWORD)) (le_bytes 4 (ucast v :: u32)))"

definition wb_real :: "write_block \<Rightarrow> u64 \<Rightarrow> write_block" where
  "wb_real b v = wb_push (wb_tag b (COMBINE_TYPE TYPE_NUMBER TYPE_NUMBER_REAL)) (le_bytes 8 v)"

definition wb_pointer :: "write_block \<Rightarrow> u64 \<Rightarrow> write_block" where
  "wb_pointer b v = wb_push (wb_tag b TYPE_USERDATA) (le_bytes 8 v)"

definition wb_string :: "write_block \<Rightarrow> string \<Rightarrow> write_block" where
  "wb_string b str =
     (let len = length str in
      if len < MAX_COOKIE
      then let b = wb_tag b (COMBINE_TYPE TYPE_SHORT_STRING len)
           in if 0 < len then wb_push b (str_bytes str) else b
      else let b = (if len < 0x10000
                    then wb_push (wb_tag b (COMBINE_TYPE TYPE_LONG_STRING 2)) (le_bytes 2 (of_nat len :: 16 word))
                    else wb_push (wb_tag b (COMBINE_TYPE TYPE_LONG_STRING 4)) (le_bytes 4 (of_nat len :: u32)))
           in wb_push b (str_bytes str))"

text \<open>
  The parts of a table.  \<open>pack\<close> stands for \<open>_pack_one\<close> at the depth of the elements; the
  result of \<open>lua_rawlen\<close> is converted to \<open>int\<close>.
\<close>

type_synonym packer = "tvalue \<Rightarrow> write_block \<Rightarrow> write_block res"

definition wb_table_array :: "packer \<Rightarrow> table \<Rightarrow> write_block \<Rightarrow> (nat \<times> write_block) res" where
  "wb_table_array pack t b =
     ebind (luaH_getn t) (\<lambda>array_size.
     let b = (if MAX_COOKIE - 1 \<le> array_size
              then wb_integer (wb_tag b (COMBINE_TYPE TYPE_TABLE (MAX_COOKIE - 1))) (of_nat array_size)
              else wb_tag b (COMBINE_TYPE TYPE_TABLE array_size)) in
     ebind (efold (\<lambda>i b. ebind (rawgeti t (of_nat i)) (\<lambda>v. pack v b)) [1..<Suc array_size] b) (\<lambda>b.
     Inr (array_size, b)))"

text \<open>
  The test that skips the keys of the array part: \<open>k == (lua_Number)x && x > 0 && x <=
  array_size\<close>, with \<open>x\<close> the low 32 bits of the key as an integer (0 for a float that has no
  integer value).  An integer key converted to a float equals the 32-bit \<open>x\<close> exactly when it
  is \<open>x\<close>: rounding happens only above \<open>2 ^ 53\<close>.
\<close>

definition skip_key :: "nat \<Rightarrow> tvalue \<Rightarrow> bool" where
  "skip_key array_size k =
     (case k of
        LInt i \<Rightarrow> let x = sint (ucast i :: u32) in sint i = x \<and> 0 < x \<and> x \<le> int array_size
      | LFlt f \<Rightarrow>
          let i = (case flt_tointeger f 0 of Some i \<Rightarrow> i | None \<Rightarrow> 0); x = sint (ucast i :: u32)
          in flt_finite f \<and> flt_integral f \<and> flt_floor f = x \<and> 0 < x \<and> x \<le> int array_size
      | _ \<Rightarrow> False)"

definition wb_table_hash :: "packer \<Rightarrow> u32 \<Rightarrow> table \<Rightarrow> nat \<Rightarrow> write_block \<Rightarrow> write_block res" where
  "wb_table_hash pack seed t array_size b =
     ebind (next_loop (sizearray t + sizenode t + 1) seed t
              (\<lambda>k v b. if skip_key array_size k then Inr b else ebind (pack k b) (pack v)) LNil b)
       (\<lambda>b. Inr (wb_nil b))"

definition wb_table :: "packer \<Rightarrow> u32 \<Rightarrow> table \<Rightarrow> write_block \<Rightarrow> write_block res" where
  "wb_table pack seed t b =
     ebind (wb_table_array pack t b) (\<lambda>(array_size, b). wb_table_hash pack seed t array_size b)"

text \<open>
  \<open>_pack_one\<close>: \<open>left\<close> is \<open>MAX_DEPTH + 1 - depth\<close>, so it is 0 when \<open>depth > MAX_DEPTH\<close>.
\<close>

primrec pack_one :: "nat \<Rightarrow> u32 \<Rightarrow> heap \<Rightarrow> packer" where
  "pack_one 0 seed h v b = Inl (RunError ''serialize can not pack too depth table'')"
| "pack_one (Suc left) seed h v b =
     (case v of
        LNil \<Rightarrow> Inr (wb_nil b)
      | LInt i \<Rightarrow> Inr (wb_integer b i)
      | LFlt f \<Rightarrow> Inr (wb_real b f)
      | LBool x \<Rightarrow> Inr (wb_boolean b x)
      | LStr s \<Rightarrow> Inr (wb_string b s)
      | LLight p \<Rightarrow> Inr (wb_pointer b p)
      | LTab p \<Rightarrow> ebind (h_get h p) (\<lambda>t. wb_table (pack_one left seed h) seed t b)
      | _ \<Rightarrow> Inl (RunError ''Unsupport type to serialize''))"

definition pack_from :: "u32 \<Rightarrow> heap \<Rightarrow> tvalue list \<Rightarrow> write_block \<Rightarrow> write_block res" where
  "pack_from seed h vs b = efold (pack_one (MAX_DEPTH + 1) seed h) vs b"

definition seri_pack :: "u32 \<Rightarrow> heap \<Rightarrow> tvalue list \<Rightarrow> block list res" where
  "seri_pack seed h vs =
     ebind (wb_init None) (\<lambda>b. ebind (pack_from seed h vs b) (\<lambda>b. Inr (wb_close b)))"

section \<open>Unpacking\<close>

definition invalid_stream :: "'a res" where
  "invalid_stream = Inl (RunError ''Invalid serialize stream'')"

text \<open>\<open>rb_read\<close> followed by the test for \<open>NULL\<close>.\<close>

definition read_or_fail :: "read_block \<Rightarrow> int \<Rightarrow> (byte list \<times> read_block) res" where
  "read_or_fail rb n =
     ebind (rb_read rb n) (\<lambda>(bs, rb). case bs of None \<Rightarrow> invalid_stream | Some bs \<Rightarrow> Inr (bs, rb))"

definition get_integer :: "read_block \<Rightarrow> nat \<Rightarrow> (u64 \<times> read_block) res" where
  "get_integer rb cookie =
     (if cookie = TYPE_NUMBER_ZERO then Inr (0, rb)
      else if cookie = TYPE_NUMBER_BYTE
      then ebind (read_or_fail rb 1) (\<lambda>(bs, rb). Inr (ucast (le_word bs :: byte), rb))
      else if cookie = TYPE_NUMBER_WORD
      then ebind (read_or_fail rb 2) (\<lambda>(bs, rb). Inr (ucast (le_word bs :: 16 word), rb))
      else if cookie = TYPE_NUMBER_DWORD
      then ebind (read_or_fail rb 4) (\<lambda>(bs, rb). Inr (scast (le_word bs :: u32), rb))
      else if cookie = TYPE_NUMBER_QWORD
      then ebind (read_or_fail rb 8) (\<lambda>(bs, rb). Inr (le_word bs, rb))
      else invalid_stream)"

definition get_real :: "read_block \<Rightarrow> (u64 \<times> read_block) res" where
  "get_real rb = ebind (read_or_fail rb 8) (\<lambda>(bs, rb). Inr (le_word bs, rb))"

definition get_pointer :: "read_block \<Rightarrow> (u64 \<times> read_block) res" where
  "get_pointer rb = ebind (read_or_fail rb 8) (\<lambda>(bs, rb). Inr (le_word bs, rb))"

text \<open>
  \<open>_get_buffer\<close> does not test the result of \<open>rb_read\<close>; \<open>lua_pushlstring\<close> then copies from
  \<open>NULL\<close>.  A negative length is a huge \<open>size_t\<close> there: the size check raises an error for all but
  \<open>-1\<close>, which it lets pass, and \<open>2 ^ 64 - 1\<close> bytes are copied from behind the data.
\<close>

definition get_buffer :: "read_block \<Rightarrow> int \<Rightarrow> (string \<times> read_block) res" where
  "get_buffer rb len =
     ebind (rb_read rb len) (\<lambda>(bs, rb).
       if newlstr_toobig (nat (len mod 2 ^ 64)) then Inl (RunError ''memory allocation error: block too big'')
       else case bs of
         None \<Rightarrow> if len = 0 then Inr ([], rb) else Inl (MemFault ''lua_pushlstring from NULL'')
       | Some bs \<Rightarrow> if len < 0 then Inl (MemFault ''lua_pushlstring from behind the data'')
                   else Inr (bytes_str bs, rb))"

text \<open>
  What a read of one value leaves on the stack: a value, or nothing for the unassigned tag 7
  (the \<open>switch\<close> of \<open>_push_value\<close> has no default).  \<open>up\<close> stands for \<open>_unpack_one\<close>.
\<close>

type_synonym ustate = "read_block \<times> heap"
type_synonym unpacker = "ustate \<Rightarrow> (tvalue option \<times> ustate) res"

definition pop_value :: "tvalue option \<times> ustate \<Rightarrow> (tvalue \<times> ustate) res" where
  "pop_value = (\<lambda>(vo, st). case vo of None \<Rightarrow> Inl (MemFault ''nothing pushed'') | Some v \<Rightarrow> Inr (v, st))"

definition fill_array :: "unpacker \<Rightarrow> u32 \<Rightarrow> u64 \<Rightarrow> nat \<Rightarrow> ustate \<Rightarrow> ustate res" where
  "fill_array up seed p i st =
     ebind (ebind (up st) pop_value) (\<lambda>(v, (rb, h)).
     ebind (h_get h p) (\<lambda>t. ebind (rawseti seed t (of_nat i) v) (\<lambda>t. Inr (rb, h_put h p t))))"

text \<open>The \<open>for (;;)\<close> loop; each round reads at least one byte.\<close>

fun fill_hash :: "nat \<Rightarrow> unpacker \<Rightarrow> u32 \<Rightarrow> u64 \<Rightarrow> ustate \<Rightarrow> ustate res" where
  "fill_hash 0 up seed p st = Inl NoReturn"
| "fill_hash (Suc fuel) up seed p st =
     ebind (ebind (up st) pop_value) (\<lambda>(k, st).
     if k = LNil then Inr st
     else ebind (ebind (up st) pop_value) (\<lambda>(v, (rb, h)).
          ebind (h_get h p) (\<lambda>t. ebind (rawset seed t k v) (\<lambda>t. fill_hash fuel up seed p (rb, h_put h p t)))))"

definition table_size :: "nat \<Rightarrow> read_block \<Rightarrow> (int \<times> read_block) res" where
  "table_size array_size rb =
     (if array_size = MAX_COOKIE - 1
      then ebind (read_or_fail rb 1) (\<lambda>(bs, rb).
           let ty = (le_word bs :: byte); cookie = unat (drop_bit 3 ty) in
           if unat (ty AND 7) \<noteq> TYPE_NUMBER \<or> cookie = TYPE_NUMBER_REAL then invalid_stream
           else ebind (get_integer rb cookie) (\<lambda>(n, rb). Inr (sint (ucast n :: u32), rb)))
      else Inr (int array_size, rb))"

definition unpack_table :: "nat \<Rightarrow> unpacker \<Rightarrow> u32 \<Rightarrow> nat \<Rightarrow> unpacker" where
  "unpack_table fuel up seed array_size = (\<lambda>(rb, h).
     ebind (table_size array_size rb) (\<lambda>(n, rb).
     ebind (createtable seed (nat n) 0) (\<lambda>t.
     let (p, h) = h_alloc h t in
     ebind (efold (fill_array up seed p) [1..<Suc (nat n)] (rb, h)) (\<lambda>st.
     ebind (fill_hash fuel up seed p st) (\<lambda>st.
     Inr (Some (LTab p), st))))))"

definition push_value :: "nat \<Rightarrow> unpacker \<Rightarrow> u32 \<Rightarrow> nat \<Rightarrow> nat \<Rightarrow> unpacker" where
  "push_value fuel up seed ty cookie = (\<lambda>(rb, h).
     if ty = TYPE_NIL then Inr (Some LNil, (rb, h))
     else if ty = TYPE_BOOLEAN then Inr (Some (LBool (cookie \<noteq> 0)), (rb, h))
     else if ty = TYPE_NUMBER
     then (if cookie = TYPE_NUMBER_REAL
           then ebind (get_real rb) (\<lambda>(f, rb). Inr (Some (LFlt f), (rb, h)))
           else ebind (get_integer rb cookie) (\<lambda>(i, rb). Inr (Some (LInt i), (rb, h))))
     else if ty = TYPE_USERDATA then ebind (get_pointer rb) (\<lambda>(p, rb). Inr (Some (LLight p), (rb, h)))
     else if ty = TYPE_SHORT_STRING
     then ebind (get_buffer rb (int cookie)) (\<lambda>(s, rb). Inr (Some (LStr s), (rb, h)))
     else if ty = TYPE_LONG_STRING
     then ebind (if cookie = 2
                 then ebind (read_or_fail rb 2) (\<lambda>(bs, rb). Inr (uint (le_word bs :: 16 word), rb))
                 else if cookie \<noteq> 4 then invalid_stream
                 else ebind (read_or_fail rb 4) (\<lambda>(bs, rb). Inr (sint (le_word bs :: u32), rb)))
            (\<lambda>(len, rb). ebind (get_buffer rb len) (\<lambda>(s, rb). Inr (Some (LStr s), (rb, h))))
     else if ty = TYPE_TABLE then unpack_table fuel up seed cookie (rb, h)
     else Inr (None, (rb, h)))"

definition unpack_typed :: "nat \<Rightarrow> unpacker \<Rightarrow> u32 \<Rightarrow> byte \<Rightarrow> unpacker" where
  "unpack_typed fuel up seed t = push_value fuel up seed (unat (t AND 7)) (unat (drop_bit 3 t))"

text \<open>
  \<open>_unpack_one\<close>.  The C code recurses as deep as the stream nests tables; the fuel bounds the
  depth and the rounds of \<open>fill_hash\<close>, and one more than the bytes left is enough.
\<close>

primrec unpack_one :: "nat \<Rightarrow> u32 \<Rightarrow> unpacker" where
  "unpack_one 0 seed st = Inl NoReturn"
| "unpack_one (Suc fuel) seed st =
     (let (rb, h) = st in
      ebind (read_or_fail rb 1) (\<lambda>(bs, rb).
      unpack_typed fuel (unpack_one fuel seed) seed (le_word bs) (rb, h)))"

text \<open>The loop of \<open>seri_unpack\<close>, which collects the values on the stack.\<close>

fun unpack_values :: "nat \<Rightarrow> nat \<Rightarrow> u32 \<Rightarrow> ustate \<Rightarrow> (tvalue list \<times> ustate) res" where
  "unpack_values 0 d seed st = Inl NoReturn"
| "unpack_values (Suc fuel) d seed st =
     (let (rb, h) = st in
      ebind (rb_read rb 1) (\<lambda>(bs, rb). case bs of
        None \<Rightarrow> Inr ([], (rb, h))
      | Some bs \<Rightarrow>
          ebind (unpack_typed d (unpack_one d seed) seed (le_word bs) (rb, h)) (\<lambda>(vo, st).
          ebind (unpack_values fuel d seed st) (\<lambda>(vs, st).
          Inr ((case vo of None \<Rightarrow> vs | Some v \<Rightarrow> v # vs), st)))))"

definition seri_unpack :: "u32 \<Rightarrow> heap \<Rightarrow> block list \<Rightarrow> (tvalue list \<times> heap) res" where
  "seri_unpack seed h chain =
     (if chain = [] then Inl (RunError ''Need a block to unpack'')
      else ebind (rb_init chain) (\<lambda>rb.
           let fuel = Suc (nat (r_len rb)) in
           ebind (unpack_values fuel fuel seed (rb, h)) (\<lambda>(vs, (rb, h)). Inr (vs, h))))"

end
