(* ===== verification/Serializer_Encoding.thy ===== *)
theory Serializer_Encoding
  imports Serializer Lua_Table_Spec
begin

text \<open>
  What the serializer writes for a value that is not a table, and that it reads the same value
  back from those bytes.
\<close>

section \<open>Writing and reading pieces\<close>

text \<open>\<open>writes b bs b'\<close>: between the two writers exactly the bytes \<open>bs\<close> were pushed.\<close>

definition writes :: "write_block \<Rightarrow> byte list \<Rightarrow> write_block \<Rightarrow> bool" where
  "writes b bs b' \<longleftrightarrow> (\<forall>ds. wb_holds b ds \<longrightarrow> wb_holds b' (ds @ bs))"

lemma writes_push [blk_simps]: "writes b bs (wb_push b bs)"
  by (simp add: writes_def wb_holds_push)

lemma writes_refl [blk_simps]: "writes b [] b"
  by (simp add: writes_def)

lemma writes_trans: "writes b bs b1 \<Longrightarrow> writes b1 cs b2 \<Longrightarrow> writes b (bs @ cs) b2"
  by (auto simp: writes_def)

lemma writes_push2: "writes b (bs @ cs) (wb_push (wb_push b bs) cs)"
  using writes_trans [OF writes_push writes_push] .

text \<open>\<open>parses rd bs x\<close>: on any reader that starts with \<open>bs\<close>, \<open>rd\<close> consumes them and returns \<open>x\<close>.\<close>

definition parses :: "(read_block \<Rightarrow> ('a \<times> read_block) res) \<Rightarrow> byte list \<Rightarrow> 'a \<Rightarrow> bool" where
  "parses rd bs x \<longleftrightarrow> (\<forall>rb rest. rb_ok rb (bs @ rest) \<longrightarrow> (\<exists>rb'. rd rb = Inr (x, rb') \<and> rb_ok rb' rest))"

lemma parses_return: "parses (\<lambda>rb. Inr (x, rb)) [] x"
  by (simp add: parses_def)

lemma parses_bind:
  assumes "parses rd bs x" and "parses (rd' x) cs y"
  shows "parses (\<lambda>rb. ebind (rd rb) (\<lambda>(x, rb). rd' x rb)) (bs @ cs) y"
  using assms unfolding parses_def by fastforce

lemma parses_map:
  assumes "parses rd bs x" and "y = f x"
  shows "parses (\<lambda>rb. ebind (rd rb) (\<lambda>(x, rb). Inr (f x, rb))) bs y"
  using assms unfolding parses_def by fastforce

lemma parses_read: "n = int (length bs) \<Longrightarrow> parses (\<lambda>rb. read_or_fail rb n) bs bs"
  unfolding parses_def read_or_fail_def using source.read_ok by fastforce

lemma parses_buffer:
  assumes "len = int (length bs)" and "length bs < 2 ^ 31"
  shows "parses (\<lambda>rb. get_buffer rb len) bs (bytes_str bs)"
proof -
  have "nat (len mod 2 ^ 64) = length bs" using assms by simp
  moreover have "\<not> newlstr_toobig (length bs)" using assms(2) by (intro newlstr_fits) simp
  ultimately show ?thesis
    unfolding parses_def get_buffer_def Let_def using source.read_ok assms(1) by fastforce
qed

lemma parses_word:
  assumes "n = int m" and "LENGTH('a) \<le> 8 * m" and "y = f (w :: 'a::len word)"
  shows "parses (\<lambda>rb. ebind (read_or_fail rb n) (\<lambda>(bs, rb). Inr (f (le_word bs), rb))) (le_bytes m w) y"
  by (rule parses_map [OF parses_read]) (use assms in \<open>simp_all add: le_word_le_bytes\<close>)

section \<open>Tags\<close>

definition tag :: "nat \<Rightarrow> nat \<Rightarrow> byte" where
  "tag t v = of_nat (COMBINE_TYPE t v)"

lemma COMBINE_TYPE_add: "t < 8 \<Longrightarrow> COMBINE_TYPE t v = v * 8 + t"
  using or_shifted [of t 3 v] by (simp add: COMBINE_TYPE_def or.commute)

lemma tag_parts:
  assumes "t < 8" and "v < 32"
  shows "unat (tag t v AND 7) = t" and "unat (drop_bit 3 (tag t v)) = v"
proof -
  have u: "unat (tag t v) = v * 8 + t"
    unfolding tag_def COMBINE_TYPE_add [OF assms(1)] unat_of_nat using assms by simp
  have "x AND 7 = x mod 8" for x :: nat
    using take_bit_eq_mask [of 3 x] by (simp add: mask_eq_exp_minus_1 take_bit_eq_mod)
  then have "unat (tag t v AND 7) = unat (tag t v) mod 8" by (simp add: unsigned_and_eq)
  then show "unat (tag t v AND 7) = t" using u assms by simp
  show "unat (drop_bit 3 (tag t v)) = v"
    using assms by (simp only: unsigned_drop_bit_eq u) (simp add: drop_bit_eq_div take_bit_eq_mod)
qed

lemma tag_bare: "t < 8 \<Longrightarrow> of_nat t = tag t 0"
  by (simp add: tag_def COMBINE_TYPE_add)

lemma writes_tag: "writes b [tag t v] (wb_tag b (COMBINE_TYPE t v))"
  by (simp add: wb_tag_def tag_def writes_push)

section \<open>Numbers\<close>

lemma scast_ucast32:
  assumes "sint v = sint (ucast v :: u32)"
  shows "scast (ucast v :: u32) = (v :: u64)"
proof -
  have "scast (ucast v :: u32) = (word_of_int (sint (ucast v :: u32)) :: u64)" by (rule scast_eq)
  also have "\<dots> = word_of_int (sint v)" by (simp only: assms)
  finally show ?thesis by simp
qed

lemma ucast_small:
  assumes "0 \<le> sint (v :: u64)" and "sint v < 2 ^ LENGTH('a::len)" and "LENGTH('a) < 64"
  shows "ucast (ucast v :: 'a word) = v"
proof -
  have u: "uint v = sint v"
    unfolding uint_sint using assms(1) sint_lt [of v] by (intro take_bit_int_eq_self) simp_all
  have "uint (ucast v :: 'a word) = uint v"
    using u assms by (simp add: unsigned_ucast_eq take_bit_int_eq_self)
  then show ?thesis by (metis ucast_eq word_of_int_uint)
qed

definition integer_cookie :: "u64 \<Rightarrow> nat" where
  "integer_cookie v =
     (if v = 0 then 0 else if sint v \<noteq> sint (ucast v :: u32) then 6 else if sint v < 0 then 4
      else if sint v < 0x100 then 1 else if sint v < 0x10000 then 2 else 4)"

definition integer_bytes :: "u64 \<Rightarrow> byte list" where
  "integer_bytes v =
     (if v = 0 then [] else if sint v \<noteq> sint (ucast v :: u32) then le_bytes 8 v
      else if sint v < 0 then le_bytes 4 (ucast v :: u32)
      else if sint v < 0x100 then le_bytes 1 (ucast v :: byte)
      else if sint v < 0x10000 then le_bytes 2 (ucast v :: 16 word) else le_bytes 4 (ucast v :: u32))"

lemma wb_integer_writes: "writes b (tag 2 (integer_cookie v) # integer_bytes v) (wb_integer b v)"
proof -
  have two: "writes b (tag 2 c # bs) (wb_push (wb_tag b (COMBINE_TYPE 2 c)) bs)" for c bs
    using writes_trans [OF writes_tag [of b 2 c] writes_push] by simp
  show ?thesis
    unfolding wb_integer_def integer_cookie_def integer_bytes_def
    by (cases "v = 0"; cases "sint v = sint (ucast v :: u32)"; cases "sint v < 0"; cases "sint v < 0x100";
        cases "sint v < 0x10000") (simp_all only: simp_thms if_True if_False two writes_tag)
qed

lemma integer_cookie_less: "integer_cookie v < 8"
  by (simp add: integer_cookie_def)

lemma get_integer_parses: "parses (\<lambda>rb. get_integer rb (integer_cookie v)) (integer_bytes v) v"
proof -
  consider (zero) "v = 0" | (quad) "v \<noteq> 0" "sint v \<noteq> sint (ucast v :: u32)"
    | (neg) "v \<noteq> 0" "sint v = sint (ucast v :: u32)" "sint v < 0"
    | (b1) "v \<noteq> 0" "sint v = sint (ucast v :: u32)" "0 \<le> sint v" "sint v < 0x100"
    | (b2) "v \<noteq> 0" "sint v = sint (ucast v :: u32)" "0x100 \<le> sint v" "sint v < 0x10000"
    | (b4) "v \<noteq> 0" "sint v = sint (ucast v :: u32)" "0x10000 \<le> sint v" by linarith
  then show ?thesis
  proof cases
    case zero
    then show ?thesis by (simp add: integer_cookie_def integer_bytes_def get_integer_def parses_return)
  next
    case quad
    then show ?thesis using parses_word [of 8 8 v "\<lambda>w. w" v]
      by (simp add: integer_cookie_def integer_bytes_def get_integer_def)
  next
    case neg
    then show ?thesis using parses_word [of 4 4 v scast "ucast v :: u32"] scast_ucast32 [of v]
      by (simp add: integer_cookie_def integer_bytes_def get_integer_def)
  next
    case b1
    then show ?thesis using parses_word [of 1 1 v ucast "ucast v :: byte"] ucast_small [of v, where 'a = 8]
      by (simp add: integer_cookie_def integer_bytes_def get_integer_def)
  next
    case b2
    then show ?thesis using parses_word [of 2 2 v ucast "ucast v :: 16 word"] ucast_small [of v, where 'a = 16]
      by (simp add: integer_cookie_def integer_bytes_def get_integer_def)
  next
    case b4
    then show ?thesis using parses_word [of 4 4 v scast "ucast v :: u32"] scast_ucast32 [of v]
      by (simp add: integer_cookie_def integer_bytes_def get_integer_def)
  qed
qed

section \<open>Strings\<close>

definition string_bytes :: "string \<Rightarrow> byte list" where
  "string_bytes s =
     (let n = length s in
      (if n < 32 then [tag 4 n]
       else if n < 0x10000 then tag 5 2 # le_bytes 2 (of_nat n :: 16 word)
       else tag 5 4 # le_bytes 4 (of_nat n :: u32)) @ str_bytes s)"

lemma wb_string_writes: "writes b (string_bytes s) (wb_string b s)"
proof -
  have two: "writes b (tag 5 c # bs) (wb_push (wb_tag b (COMBINE_TYPE 5 c)) bs)" for c bs
    using writes_trans [OF writes_tag [of b 5 c] writes_push] by simp
  show ?thesis
    using writes_trans [OF writes_tag writes_push, of b 4 "length s" "str_bytes s"]
      writes_trans [OF two writes_push] writes_tag [of b 4 0]
    by (auto simp: wb_string_def string_bytes_def Let_def str_bytes_def)
qed

end
