(* ===== verification/Serializer_Roundtrip.thy ===== *)
theory Serializer_Roundtrip
  imports Serializer_Encoding
begin

text \<open>
  \<open>seri_unpack\<close> gives back what \<open>seri_pack\<close> was given.  The packing and the unpacking Lua state
  have heaps and hash seeds of their own: a table comes back as a new table with the same
  contents, everything else as the same value.
\<close>

section \<open>The same value in another heap\<close>

text \<open>
  \<open>same seed d h v m v'\<close>: \<open>v\<close> in the heap \<open>h\<close> and \<open>v'\<close> in the tables \<open>m\<close> have the same contents;
  \<open>d\<close> bounds how deep tables nest.  Table keys are compared as they are, so this relates
  tables whose keys are not themselves tables.
\<close>

primrec same :: "u32 \<Rightarrow> nat \<Rightarrow> heap \<Rightarrow> tvalue \<Rightarrow> (u64 \<rightharpoonup> table) \<Rightarrow> tvalue \<Rightarrow> bool" where
  "same seed 0 h v m v' = False"
| "same seed (Suc d) h v m v' =
     (case v of
        LTab p \<Rightarrow> (\<exists>p' t t'. v' = LTab p' \<and> h_tab h p = Some t \<and> m p' = Some t' \<and> tab_ok seed t' \<and>
          (\<forall>k. if tab_map t k = LNil then tab_map t' k = LNil
               else same seed d h (tab_map t k) m (tab_map t' k)))
      | _ \<Rightarrow> v' = v)"

lemma same_mono: "same seed d h v m v' \<Longrightarrow> m \<subseteq>\<^sub>m m' \<Longrightarrow> same seed d h v m' v'"
proof (induction d arbitrary: v v')
  case (Suc d)
  show ?case
  proof (cases "\<exists>p. v = LTab p")
    case True
    then obtain p p' t t' where p: "v = LTab p" "v' = LTab p'" "h_tab h p = Some t" "m p' = Some t'" "tab_ok seed t'"
      "\<forall>k. if tab_map t k = LNil then tab_map t' k = LNil else same seed d h (tab_map t k) m (tab_map t' k)"
      using Suc.prems(1) by auto
    have "m' p' = Some t'" using p(4) Suc.prems(2) by (force simp: map_le_def)
    then show ?thesis using p Suc.IH Suc.prems(2) by auto
  next
    case False
    then show ?thesis using Suc.prems(1) by (cases v) auto
  qed
qed simp

lemma same_not_nil: "same seed d h v m v' \<Longrightarrow> v \<noteq> LNil \<Longrightarrow> v' \<noteq> LNil"
  by (cases d; cases v) auto

lemma same_scalar: "same seed d h v m v' \<Longrightarrow> (\<And>p. v \<noteq> LTab p) \<Longrightarrow> v' = v"
  by (cases d; cases v) auto

section \<open>What can be packed\<close>

text \<open>
  \<open>packable seed d h v\<close>: \<open>v\<close> consists of the types that the format has, tables nest less than
  \<open>d\<close> deep and have keys that are not tables, and sizes are below the limits of the format.
\<close>

definition table_fits :: "table \<Rightarrow> bool" where
  "table_fits t \<longleftrightarrow> (\<forall>n. luaH_getn t = Inr n \<longrightarrow> n < 2 ^ 27) \<and> entry_count t < 2 ^ 27"

primrec packable :: "u32 \<Rightarrow> nat \<Rightarrow> heap \<Rightarrow> tvalue \<Rightarrow> bool" where
  "packable seed 0 h v = False"
| "packable seed (Suc d) h v =
     (case v of
        LNil \<Rightarrow> True | LInt i \<Rightarrow> True | LFlt f \<Rightarrow> True | LBool b \<Rightarrow> True | LLight p \<Rightarrow> True
      | LStr s \<Rightarrow> length s < 2 ^ 31
      | LTab p \<Rightarrow> (\<exists>t. h_tab h p = Some t \<and> tab_ok seed t \<and> no_stale t \<and> table_fits t \<and>
          (\<forall>k. tab_map t k \<noteq> LNil \<longrightarrow>
             (\<forall>q. k \<noteq> LTab q) \<and> packable seed d h k \<and> packable seed d h (tab_map t k)))
      | _ \<Rightarrow> False)"

section \<open>Heaps that grow\<close>

definition heap_room :: "heap \<Rightarrow> nat \<Rightarrow> bool" where
  "heap_room h n \<longleftrightarrow> unat (h_next h) + n < 2 ^ 64 \<and> (\<forall>p \<in> dom (h_tab h). unat p < unat (h_next h))"

definition new_tabs :: "u64 set \<Rightarrow> heap \<Rightarrow> (u64 \<rightharpoonup> table)" where
  "new_tabs D h = h_tab h |` (- D)"

definition heap_ext :: "heap \<Rightarrow> heap \<Rightarrow> bool" where
  "heap_ext h h' \<longleftrightarrow> h_tab h \<subseteq>\<^sub>m h_tab h'"

lemma heap_room_mono: "heap_room h n \<Longrightarrow> m \<le> n \<Longrightarrow> heap_room h m"
  by (auto simp: heap_room_def)

lemma new_tabs_mono: "heap_ext h h' \<Longrightarrow> D' \<subseteq> D \<Longrightarrow> new_tabs D h \<subseteq>\<^sub>m new_tabs D' h'"
  by (auto simp: new_tabs_def heap_ext_def map_le_def restrict_map_def)

lemma heap_ext_refl [simp]: "heap_ext h h"
  by (simp add: heap_ext_def)

lemma heap_ext_trans: "heap_ext h h1 \<Longrightarrow> heap_ext h1 h2 \<Longrightarrow> heap_ext h h2"
  unfolding heap_ext_def by (rule map_le_trans)

lemma heap_ext_put: "heap_ext g g' \<Longrightarrow> p \<notin> dom (h_tab g) \<Longrightarrow> heap_ext g (h_put g' p t)"
  unfolding heap_ext_def h_put_def map_le_def by (metis fun_upd_apply heap.select_convs(1) heap.surjective heap.update_convs(1))

lemma heap_ext_dom: "heap_ext h h' \<Longrightarrow> dom (h_tab h) \<subseteq> dom (h_tab h')"
  unfolding heap_ext_def by (rule map_le_implies_dom_le)

section \<open>Decoding\<close>

text \<open>
  \<open>decodes seed d h v bs\<close>: on any stream that starts with \<open>bs\<close>, in any heap that has room,
  \<open>_unpack_one\<close> consumes \<open>bs\<close> and pushes a value that is the same as \<open>v\<close>, made of new tables only.
\<close>

definition decodes :: "u32 \<Rightarrow> nat \<Rightarrow> heap \<Rightarrow> tvalue \<Rightarrow> byte list \<Rightarrow> bool" where
  "decodes seed d h v bs \<longleftrightarrow> bs \<noteq> [] \<and>
     (\<forall>fuel rb rest g n. rb_ok rb (bs @ rest) \<longrightarrow> heap_room g (length bs + n) \<longrightarrow> length bs \<le> fuel \<longrightarrow>
       (\<exists>v' rb' g'. unpack_one fuel seed (rb, g) = Inr (Some v', (rb', g')) \<and> rb_ok rb' rest \<and>
          heap_room g' n \<and> heap_ext g g' \<and> same seed d h v (new_tabs (dom (h_tab g)) g') v'))"

lemma unpack_one_tag:
  assumes "rb_ok rb (x # bs)" and "0 < fuel"
  obtains rb' where "unpack_one fuel seed (rb, g) =
      unpack_typed (fuel - 1) (unpack_one (fuel - 1) seed) seed x (rb', g)" and "rb_ok rb' bs"
proof -
  obtain f where f: "fuel = Suc f" using assms(2) by (cases fuel) auto
  have "parses (\<lambda>rb. read_or_fail rb 1) [x] [x]" by (rule parses_read) simp
  then obtain rb' where "read_or_fail rb 1 = Inr ([x], rb')" "rb_ok rb' bs"
    using assms(1) unfolding parses_def by fastforce
  then show ?thesis using that f by simp
qed

lemma decodes_scalar:
  assumes "\<And>fuel up rb g. unpack_typed fuel up seed x (rb, g) = ebind (rd rb) (\<lambda>(y, rb). Inr (Some (f y), (rb, g)))"
    and "parses rd bs y" and "f y = v" and "\<And>p. v \<noteq> LTab p"
  shows "decodes seed (Suc d) h v (x # bs)"
  unfolding decodes_def
proof (intro conjI allI impI)
  fix fuel rb rest g n
  assume ok: "rb_ok rb ((x # bs) @ rest)" and room: "heap_room g (length (x # bs) + n)" and "length (x # bs) \<le> fuel"
  then obtain rb1 where rb1: "unpack_one fuel seed (rb, g) =
      unpack_typed (fuel - 1) (unpack_one (fuel - 1) seed) seed x (rb1, g)" "rb_ok rb1 (bs @ rest)"
    using unpack_one_tag [of rb x "bs @ rest" fuel] by auto
  obtain rb' where "rd rb1 = Inr (y, rb')" "rb_ok rb' rest" using assms(2) rb1(2) unfolding parses_def by blast
  moreover have "same seed (Suc d) h v m v" for m using assms(4) by (cases v) auto
  moreover have "heap_room g n" using room by (rule heap_room_mono) simp
  ultimately show "\<exists>v' rb' g'. unpack_one fuel seed (rb, g) = Inr (Some v', (rb', g')) \<and> rb_ok rb' rest \<and>
      heap_room g' n \<and> heap_ext g g' \<and> same seed (Suc d) h v (new_tabs (dom (h_tab g)) g') v'"
    using rb1(1) assms(1,3) by (intro exI [of _ v] exI [of _ rb'] exI [of _ g]) simp
qed simp

lemma unpack_typed_tag:
  "t < 8 \<Longrightarrow> c < 32 \<Longrightarrow> unpack_typed fuel up seed (tag t c) = push_value fuel up seed t c"
  by (simp add: unpack_typed_def tag_parts)

lemma decodes_nil: "decodes seed (Suc d) h LNil [tag 0 0]"
  by (rule decodes_scalar [where rd = "\<lambda>rb. Inr ((), rb)" and f = "\<lambda>_. LNil"])
    (simp_all add: unpack_typed_tag push_value_def parses_return)

lemma decodes_boolean: "decodes seed (Suc d) h (LBool b) [tag 1 (if b then 1 else 0)]"
  by (rule decodes_scalar [where rd = "\<lambda>rb. Inr ((), rb)" and f = "\<lambda>_. LBool b"])
    (auto simp: unpack_typed_tag push_value_def parses_return)

lemma decodes_integer: "decodes seed (Suc d) h (LInt i) (tag 2 (integer_cookie i) # integer_bytes i)"
  by (rule decodes_scalar [where f = LInt, OF _ get_integer_parses])
    (use integer_cookie_less [of i] in \<open>simp_all add: unpack_typed_tag push_value_def\<close>)

lemma decodes_real: "decodes seed (Suc d) h (LFlt x) (tag 2 8 # le_bytes 8 x)"
proof (rule decodes_scalar [where f = LFlt and rd = get_real])
  show "parses get_real (le_bytes 8 x) x"
    using parses_word [of 8 8 x "\<lambda>w. w" x] by (simp add: get_real_def [abs_def])
qed (simp_all add: unpack_typed_tag push_value_def)

lemma decodes_pointer: "decodes seed (Suc d) h (LLight p) (tag 3 0 # le_bytes 8 p)"
proof (rule decodes_scalar [where f = LLight and rd = get_pointer])
  show "parses get_pointer (le_bytes 8 p) p"
    using parses_word [of 8 8 p "\<lambda>w. w" p] by (simp add: get_pointer_def [abs_def])
qed (simp_all add: unpack_typed_tag push_value_def)

lemma decodes_string:
  assumes "length s < 2 ^ 31"
  shows "decodes seed (Suc d) h (LStr s) (string_bytes s)"
proof -
  let ?n = "length s"
  consider "?n < 32" | "32 \<le> ?n" "?n < 0x10000" | "0x10000 \<le> ?n" by linarith
  then show ?thesis
  proof cases
    case 1
    have "parses (\<lambda>rb. get_buffer rb (int ?n)) (str_bytes s) s"
      using parses_buffer [of "int ?n" "str_bytes s"] assms by simp
    then have "decodes seed (Suc d) h (LStr s) (tag 4 ?n # str_bytes s)"
      by (rule decodes_scalar [where f = LStr, rotated]) (use 1 in \<open>simp_all add: unpack_typed_tag push_value_def\<close>)
    then show ?thesis using 1 by (simp add: string_bytes_def)
  next
    case 2
    have len: "parses (\<lambda>rb. ebind (read_or_fail rb 2) (\<lambda>(bs, rb). Inr (uint (le_word bs :: 16 word), rb)))
        (le_bytes 2 (of_nat ?n :: 16 word)) (int ?n)"
      by (rule parses_word) (use 2 in \<open>simp_all add: uint_nat unat_of_nat\<close>)
    have buf: "parses (\<lambda>rb. get_buffer rb (int ?n)) (str_bytes s) s"
      using parses_buffer [of "int ?n" "str_bytes s"] assms by simp
    have "decodes seed (Suc d) h (LStr s) (tag 5 2 # (le_bytes 2 (of_nat ?n :: 16 word) @ str_bytes s))"
      by (rule decodes_scalar [where f = LStr, OF _ parses_bind [where rd' = "\<lambda>n rb. get_buffer rb n", OF len buf]])
        (simp_all add: unpack_typed_tag push_value_def ebind_assoc case_prod_beta')
    then show ?thesis using 2 by (simp add: string_bytes_def)
  next
    case 3
    have "sint (of_nat ?n :: u32) = int ?n"
      using sint_word_of_int_range [of "int ?n", where 'a = 32] assms by simp
    then have len: "parses (\<lambda>rb. ebind (read_or_fail rb 4) (\<lambda>(bs, rb). Inr (sint (le_word bs :: u32), rb)))
        (le_bytes 4 (of_nat ?n :: u32)) (int ?n)"
      by (intro parses_word) simp_all
    have buf: "parses (\<lambda>rb. get_buffer rb (int ?n)) (str_bytes s) s"
      using parses_buffer [of "int ?n" "str_bytes s"] assms by simp
    have "decodes seed (Suc d) h (LStr s) (tag 5 4 # (le_bytes 4 (of_nat ?n :: u32) @ str_bytes s))"
      by (rule decodes_scalar [where f = LStr, OF _ parses_bind [where rd' = "\<lambda>n rb. get_buffer rb n", OF len buf]])
        (simp_all add: unpack_typed_tag push_value_def ebind_assoc case_prod_beta')
    then show ?thesis using 3 by (simp add: string_bytes_def)
  qed
qed

section \<open>Building a table\<close>

lemma createtable_ok:
  assumes "n \<le> MAXASIZE"
  shows "\<exists>t. createtable seed n 0 = Inr t \<and> tab_ok seed t \<and> tab_map t = (\<lambda>k. LNil) \<and> sizearray t = n \<and> sizenode t = 1"
proof (cases "n = 0")
  case True
  then show ?thesis using luaH_new_ok by (simp add: createtable_def luaH_new_def sizenode_def)
next
  case False
  have "hash_load n (reinserted luaH_new n) + 0 \<le> 0"
    by (simp add: reinserted_load_card [OF luaH_new_ok(1)] luaH_new_ok(2))
  from resize_with_keeps [OF luaH_new_ok(1) assms _ this] obtain t where
    "luaH_resize seed luaH_new n 0 = Inr t" "tab_ok seed t" "tab_map t = tab_map luaH_new" "sizearray t = n"
    "sizenode t \<le> max 1 (2 * 0)"
    unfolding luaH_resize_def luaH_newkey_unfold by fastforce
  moreover from this(5) have "sizenode t = 1" using sizenode_pos [of t] by linarith
  ultimately show ?thesis using False luaH_new_ok(2) by (simp add: createtable_def)
qed

lemma rawseti_map:
  assumes ok: "tab_ok seed t" and i: "0 < i" "i \<le> sizearray t"
  shows "\<exists>t'. rawseti seed t (of_nat i) v = Inr t' \<and> tab_ok seed t' \<and>
    tab_map t' = (tab_map t)(LInt (of_nat i) := v) \<and> sizearray t' = sizearray t \<and> sizenode t' = sizenode t"
proof -
  have "in_array t (LInt (of_nat i))" using array_entry(1) [OF ok, of "i - 1"] i by simp
  moreover obtain s where s: "luaH_getint t (of_nat i) = Inr s" "slot_for t (LInt (of_nat i)) s"
    using getint_slot [OF ok] by blast
  ultimately have "s \<noteq> NilSlot" by (auto simp: slot_for_def)
  then show ?thesis using s set_slot_ok [OF ok _ s(2)]
    by (simp add: rawseti_def luaH_setint_def luaH_setint_with_def)
qed

text \<open>
  A table under construction: the keys in \<open>D\<close> have their final values, the others none.
  \<open>building\<close> adds where it is: at \<open>p\<close>, which is new with respect to the heap \<open>g0\<close>.
\<close>

definition filled :: "u32 \<Rightarrow> nat \<Rightarrow> heap \<Rightarrow> (tvalue \<Rightarrow> tvalue) \<Rightarrow> tvalue set \<Rightarrow> (u64 \<rightharpoonup> table) \<Rightarrow> (tvalue \<Rightarrow> tvalue) \<Rightarrow> bool" where
  "filled seed d h m D M m' \<longleftrightarrow>
     (\<forall>k. if k \<in> D \<and> m k \<noteq> LNil then same seed d h (m k) M (m' k) else m' k = LNil)"

definition building ::
  "u32 \<Rightarrow> nat \<Rightarrow> heap \<Rightarrow> (tvalue \<Rightarrow> tvalue) \<Rightarrow> heap \<Rightarrow> u64 \<Rightarrow> tvalue set \<Rightarrow> heap \<Rightarrow> table \<Rightarrow> bool" where
  "building seed d h m g0 p D g t' \<longleftrightarrow>
     p \<notin> dom (h_tab g0) \<and> heap_ext g0 g \<and> h_tab g p = Some t' \<and> tab_ok seed t' \<and>
     filled seed d h m D (new_tabs (insert p (dom (h_tab g0))) g) (tab_map t')"

lemma filled_mono: "filled seed d h m D M m' \<Longrightarrow> M \<subseteq>\<^sub>m M' \<Longrightarrow> filled seed d h m D M' m'"
  unfolding filled_def using same_mono by meson

lemma building_store:
  assumes b: "building seed d h m g0 p D g t'" and ext: "heap_ext g g'"
    and v: "same seed d h (m k) (new_tabs (dom (h_tab g)) g') v'"
    and t'': "tab_ok seed t''" "tab_map t'' = (tab_map t')(k := v')" and k: "k \<notin> D"
  shows "building seed d h m g0 p (insert k D) (h_put g' p t'') t''"
proof -
  let ?B = "insert p (dom (h_tab g0))"
  note bd = b [unfolded building_def]
  have B: "?B \<subseteq> dom (h_tab g)" using bd heap_ext_dom [of g0 g] by (auto simp: dom_def)
  have tabs: "new_tabs ?B (h_put g' p t'') = new_tabs ?B g'"
    unfolding new_tabs_def h_put_def restrict_map_def by (simp add: fun_eq_iff)
  have old: "filled seed d h m D (new_tabs ?B g') (tab_map t')"
    using bd by (intro filled_mono [OF _ new_tabs_mono [OF ext order_refl]]) simp
  have new: "same seed d h (m k) (new_tabs ?B g') v'"
    by (rule same_mono [OF v new_tabs_mono [OF heap_ext_refl B]])
  have "filled seed d h m (insert k D) (new_tabs ?B g') (tab_map t'')"
    using old new k same_scalar [OF v] unfolding filled_def t''(2) by auto
  moreover have "heap_ext g0 (h_put g' p t'')"
    using heap_ext_put [OF heap_ext_trans [OF _ ext]] bd by blast
  ultimately show ?thesis using bd t''(1) tabs by (simp add: building_def h_put_def)
qed

lemma heap_room_put: "heap_room g n \<Longrightarrow> p \<in> dom (h_tab g) \<Longrightarrow> heap_room (h_put g p t) n"
  by (auto simp: heap_room_def h_put_def)

lemma decodes_use:
  assumes "decodes seed d h v bs" and "rb_ok rb (bs @ rest)" and "heap_room g (length bs + n)" and "length bs \<le> fuel"
  obtains v' rb' g' where "ebind (unpack_one fuel seed (rb, g)) pop_value = Inr (v', (rb', g'))" and "rb_ok rb' rest"
    and "heap_room g' n" and "heap_ext g g'" and "same seed d h v (new_tabs (dom (h_tab g)) g') v'"
  using assms unfolding decodes_def by (fastforce simp: pop_value_def)

lemma fill_array_loop:
  assumes "list_all2 (\<lambda>i bs. decodes seed d h (m (LInt (of_nat i))) bs) is bss"
    and "building seed d h m g0 p D g t'" and "rb_ok rb (concat bss @ rest)"
    and "heap_room g (length (concat bss) + n)" and "length (concat bss) \<le> fuel"
    and "\<And>i. i \<in> set is \<Longrightarrow> 0 < i \<and> i \<le> sizearray t' \<and> LInt (of_nat i) \<notin> D"
    and "distinct (map (\<lambda>i. LInt (of_nat i)) is)"
  shows "\<exists>rb' g' t''. efold (fill_array (unpack_one fuel seed) seed p) is (rb, g) = Inr (rb', g') \<and> rb_ok rb' rest \<and>
    heap_room g' n \<and> building seed d h m g0 p (D \<union> (\<lambda>i. LInt (of_nat i)) ` set is) g' t'' \<and>
    sizearray t'' = sizearray t' \<and> sizenode t'' = sizenode t'"
  using assms
proof (induction "is" bss arbitrary: rb g D t' rule: list_all2_induct)
  case Nil
  then show ?case by auto
next
  case (Cons i "is" bs bss)
  have ok: "tab_ok seed t'" and here: "h_tab g p = Some t'" using Cons.prems(1) by (simp_all add: building_def)
  obtain v' rb1 g1 where v': "ebind (unpack_one fuel seed (rb, g)) pop_value = Inr (v', (rb1, g1))"
    "rb_ok rb1 (concat bss @ rest)" "heap_room g1 (length (concat bss) + n)" "heap_ext g g1"
    "same seed d h (m (LInt (of_nat i))) (new_tabs (dom (h_tab g)) g1) v'"
    by (rule decodes_use [OF Cons.hyps(1), of rb "concat bss @ rest" g "length (concat bss) + n" fuel])
      (use Cons.prems(2-4) in \<open>simp_all add: add.assoc\<close>)
  have i: "0 < i" "i \<le> sizearray t'" "LInt (of_nat i) \<notin> D" using Cons.prems(5) [of i] by simp_all
  obtain t1 where t1: "rawseti seed t' (of_nat i) v' = Inr t1" "tab_ok seed t1"
    "tab_map t1 = (tab_map t')(LInt (of_nat i) := v')" "sizearray t1 = sizearray t'" "sizenode t1 = sizenode t'"
    using rawseti_map [OF ok i(1,2)] by blast
  have here1: "h_tab g1 p = Some t'" using v'(4) here by (force simp: heap_ext_def map_le_def)
  have b: "building seed d h m g0 p (insert (LInt (of_nat i)) D) (h_put g1 p t1) t1"
    by (rule building_store [OF Cons.prems(1) v'(4,5) t1(2,3) i(3)])
  have room: "heap_room (h_put g1 p t1) (length (concat bss) + n)" using heap_room_put [OF v'(3)] here1 by blast
  have "LInt (of_nat i) \<notin> (\<lambda>i. LInt (of_nat i)) ` set is" using Cons.prems(6) by simp
  then have idx: "0 < j \<and> j \<le> sizearray t1 \<and> LInt (of_nat j) \<notin> insert (LInt (of_nat i)) D" if "j \<in> set is" for j
    using Cons.prems(5) [of j] t1(4) that by (metis (no_types, lifting) image_eqI insert_iff list.set_intros(2))
  have "\<exists>rb' g' t''. efold (fill_array (unpack_one fuel seed) seed p) is (rb1, h_put g1 p t1) = Inr (rb', g') \<and> rb_ok rb' rest \<and>
      heap_room g' n \<and> building seed d h m g0 p (insert (LInt (of_nat i)) D \<union> (\<lambda>i. LInt (of_nat i)) ` set is) g' t'' \<and>
      sizearray t'' = sizearray t1 \<and> sizenode t'' = sizenode t1"
    by (rule Cons.IH [OF b v'(2) room _ idx]) (use Cons.prems(4,6) in simp_all)
  moreover have "fill_array (unpack_one fuel seed) seed p i (rb, g) = Inr (rb1, h_put g1 p t1)"
    using v'(1) t1(1) here1 by (simp add: fill_array_def h_get_def)
  ultimately show ?case using t1(4,5) by simp
qed

lemma fill_hash_loop:
  assumes "list_all2 (\<lambda>(k, v) (kb, vb). decodes seed d h k kb \<and> decodes seed d h v vb) kvs bps"
    and "building seed d h m g0 p D g t'"
    and "rb_ok rb (concat (map (\<lambda>(kb, vb). kb @ vb) bps) @ tag 0 0 # rest)"
    and "heap_room g (length (concat (map (\<lambda>(kb, vb). kb @ vb) bps)) + n)"
    and "length (concat (map (\<lambda>(kb, vb). kb @ vb) bps)) \<le> fuel" and "0 < fuel"
    and "table_bound c t'" and "c + length kvs < 2 ^ 28" and "length kvs < rounds"
    and "\<And>k v. (k, v) \<in> set kvs \<Longrightarrow> canonical k \<and> (\<forall>q. k \<noteq> LTab q) \<and> m k = v \<and> k \<notin> D" and "distinct (map fst kvs)"
  shows "\<exists>rb' g' t''. fill_hash rounds (unpack_one fuel seed) seed p (rb, g) = Inr (rb', g') \<and> rb_ok rb' rest \<and>
    heap_room g' n \<and> building seed d h m g0 p (D \<union> fst ` set kvs) g' t''"
  using assms
proof (induction kvs bps arbitrary: rb g D t' c rounds rule: list_all2_induct)
  case Nil
  obtain r where r: "rounds = Suc r" using Nil.prems(8) by (cases rounds) auto
  obtain rb' where rb': "unpack_one fuel seed (rb, g) =
      unpack_typed (fuel - 1) (unpack_one (fuel - 1) seed) seed (tag 0 0) (rb', g)" "rb_ok rb' rest"
    using unpack_one_tag [of rb "tag 0 0" rest fuel] Nil.prems(2,5) by auto
  then have "fill_hash rounds (unpack_one fuel seed) seed p (rb, g) = Inr (rb', g)"
    by (simp add: r unpack_typed_tag push_value_def pop_value_def)
  then show ?case using rb'(2) Nil.prems(1,3) by auto
next
  case (Cons kv kvs bp bps)
  obtain k v kb vb where kv: "kv = (k, v)" "bp = (kb, vb)" by (cases kv; cases bp)
  obtain r where r: "rounds = Suc r" using Cons.prems(8) by (cases rounds) auto
  let ?bs = "concat (map (\<lambda>(kb, vb). kb @ vb) bps)"
  have dec: "decodes seed d h k kb" "decodes seed d h v vb" using Cons.hyps(1) kv by simp_all
  have key: "canonical k" "\<And>q. k \<noteq> LTab q" "m k = v" "k \<notin> D" using Cons.prems(9) [of k v] kv by auto
  obtain k' rb1 g1 where k': "ebind (unpack_one fuel seed (rb, g)) pop_value = Inr (k', (rb1, g1))"
    "rb_ok rb1 (vb @ ?bs @ tag 0 0 # rest)" "heap_room g1 (length vb + (length ?bs + n))" "heap_ext g g1"
    "same seed d h k (new_tabs (dom (h_tab g)) g1) k'"
    by (rule decodes_use [OF dec(1), of rb "vb @ ?bs @ tag 0 0 # rest" g "length vb + (length ?bs + n)" fuel])
      (use Cons.prems(2-4) kv in \<open>simp_all add: add.assoc\<close>)
  have kk: "k' = k" using same_scalar [OF k'(5)] key(2) by blast
  obtain v' rb2 g2 where v': "ebind (unpack_one fuel seed (rb1, g1)) pop_value = Inr (v', (rb2, g2))"
    "rb_ok rb2 (?bs @ tag 0 0 # rest)" "heap_room g2 (length ?bs + n)" "heap_ext g1 g2"
    "same seed d h v (new_tabs (dom (h_tab g1)) g2) v'"
    by (rule decodes_use [OF dec(2), of rb1 "?bs @ tag 0 0 # rest" g1 "length ?bs + n" fuel])
      (use k'(2,3) Cons.prems(4) kv in \<open>simp_all add: add.assoc\<close>)
  have ok: "tab_ok seed t'" and here: "h_tab g p = Some t'" using Cons.prems(1) by (simp_all add: building_def)
  have ext: "heap_ext g g2" using heap_ext_trans [OF k'(4) v'(4)] .
  have here2: "h_tab g2 p = Some t'" using ext here by (force simp: heap_ext_def map_le_def)
  have valid: "valid_key k" using key(1) by (simp add: valid_key_def)
  have c: "c < 2 ^ 28" using Cons.prems(7) by simp
  obtain t1 where t1: "rawset seed t' k v' = Inr t1" "tab_ok seed t1" "tab_map t1 = (tab_map t')(k := v')" "table_bound (Suc c) t1"
    using rawset_map [OF ok valid Cons.prems(6) c, of v'] key(1) by auto
  have sv: "same seed d h (m k) (new_tabs (dom (h_tab g)) g2) v'"
    using same_mono [OF v'(5) new_tabs_mono [OF heap_ext_refl heap_ext_dom [OF k'(4)]]] key(3) by simp
  have b: "building seed d h m g0 p (insert k D) (h_put g2 p t1) t1"
    by (rule building_store [OF Cons.prems(1) ext sv t1(2,3) key(4)])
  have room: "heap_room (h_put g2 p t1) (length ?bs + n)" using heap_room_put [OF v'(3)] here2 by blast
  have "k \<notin> fst ` set kvs" using Cons.prems(10) kv by simp
  then have keys: "canonical k1 \<and> (\<forall>q. k1 \<noteq> LTab q) \<and> m k1 = v1 \<and> k1 \<notin> insert k D" if "(k1, v1) \<in> set kvs" for k1 v1
    using Cons.prems(9) [of k1 v1] that by force
  have "\<exists>rb' g' t''. fill_hash r (unpack_one fuel seed) seed p (rb2, h_put g2 p t1) = Inr (rb', g') \<and> rb_ok rb' rest \<and>
      heap_room g' n \<and> building seed d h m g0 p (insert k D \<union> fst ` set kvs) g' t''"
    by (rule Cons.IH [OF b v'(2) room _ Cons.prems(5) t1(4) _ _ keys])
      (use Cons.prems(4,7,8,10) kv r in simp_all)
  then show ?case using k'(1) v'(1) t1(1) here2 kk key(1) kv r by (auto simp: h_get_def)
qed

section \<open>Packing\<close>

text \<open>\<open>packs s s' d h v\<close>: packing \<open>v\<close> succeeds and writes bytes that decode to it.\<close>

definition packs :: "u32 \<Rightarrow> u32 \<Rightarrow> nat \<Rightarrow> heap \<Rightarrow> tvalue \<Rightarrow> bool" where
  "packs seed seed' d h v \<longleftrightarrow>
     (\<forall>b. \<exists>b' bs. pack_one d seed h v b = Inr b' \<and> writes b bs b' \<and> decodes seed' d h v bs)"

lemma pack_array_loop:
  assumes "tab_ok seed t" and "\<And>i. i \<in> set is \<Longrightarrow> packs seed seed' d h (tab_map t (LInt (of_nat i)))"
  shows "\<exists>b' bss. efold (\<lambda>i b. ebind (rawgeti t (of_nat i)) (\<lambda>v. pack_one d seed h v b)) is b = Inr b' \<and>
    writes b (concat bss) b' \<and> list_all2 (\<lambda>i bs. decodes seed' d h (tab_map t (LInt (of_nat i))) bs) is bss"
  using assms(2)
proof (induction "is" arbitrary: b)
  case Nil
  then show ?case by (auto intro!: exI [of _ "[]"] simp: writes_refl)
next
  case (Cons i "is")
  have "packs seed seed' d h (tab_map t (LInt (of_nat i)))" using Cons.prems by simp
  then obtain b1 bs where b1: "pack_one d seed h (tab_map t (LInt (of_nat i))) b = Inr b1" "writes b bs b1"
    "decodes seed' d h (tab_map t (LInt (of_nat i))) bs"
    unfolding packs_def by blast
  obtain b' bss where b': "efold (\<lambda>i b. ebind (rawgeti t (of_nat i)) (\<lambda>v. pack_one d seed h v b)) is b1 = Inr b'"
    "writes b1 (concat bss) b'" "list_all2 (\<lambda>i bs. decodes seed' d h (tab_map t (LInt (of_nat i))) bs) is bss"
    using Cons.IH [of b1] Cons.prems by auto
  have "rawgeti t (of_nat i) = Inr (tab_map t (LInt (of_nat i)))"
    using getint_val_map [OF assms(1), of i] by (simp add: getint_val_def)
  then show ?case
    using b1 b' writes_trans [OF b1(2) b'(2)] by (intro exI [of _ b'] exI [of _ "bs # bss"]) simp
qed

lemma pack_hash_loop:
  assumes "\<And>k v. (k, v) \<in> set kvs \<Longrightarrow> \<not> skip_key n k \<Longrightarrow> packs seed seed' d h k \<and> packs seed seed' d h v"
  shows "\<exists>b' bps. efold (\<lambda>(k, v) b. if skip_key n k then Inr b
        else ebind (pack_one d seed h k b) (pack_one d seed h v)) kvs b = Inr b' \<and>
    writes b (concat (map (\<lambda>(kb, vb). kb @ vb) bps)) b' \<and>
    list_all2 (\<lambda>(k, v) (kb, vb). decodes seed' d h k kb \<and> decodes seed' d h v vb)
      (filter (\<lambda>(k, v). \<not> skip_key n k) kvs) bps"
  using assms
proof (induction kvs arbitrary: b)
  case Nil
  then show ?case by (auto intro!: exI [of _ "[]"] simp: writes_refl)
next
  case (Cons kv kvs)
  obtain k v where kv: "kv = (k, v)" by (cases kv)
  show ?case
  proof (cases "skip_key n k")
    case True
    then show ?thesis using Cons.IH [of b] Cons.prems kv by auto
  next
    case False
    have p: "packs seed seed' d h k" "packs seed seed' d h v" using Cons.prems [of k v] kv False by auto
    obtain b1 kb where b1: "pack_one d seed h k b = Inr b1" "writes b kb b1" "decodes seed' d h k kb"
      using p(1) unfolding packs_def by blast
    obtain b2 vb where b2: "pack_one d seed h v b1 = Inr b2" "writes b1 vb b2" "decodes seed' d h v vb"
      using p(2) unfolding packs_def by blast
    obtain b' bps where b': "efold (\<lambda>(k, v) b. if skip_key n k then Inr b
          else ebind (pack_one d seed h k b) (pack_one d seed h v)) kvs b2 = Inr b'"
      "writes b2 (concat (map (\<lambda>(kb, vb). kb @ vb) bps)) b'"
      "list_all2 (\<lambda>(k, v) (kb, vb). decodes seed' d h k kb \<and> decodes seed' d h v vb) (filter (\<lambda>(k, v). \<not> skip_key n k) kvs) bps"
      using Cons.IH [of b2] Cons.prems by auto
    have "writes b (concat (map (\<lambda>(kb, vb). kb @ vb) ((kb, vb) # bps))) b'"
      using writes_trans [OF writes_trans [OF b1(2) b2(2)] b'(2)] by simp
    then show ?thesis using b1 b2 b' False kv by (intro exI [of _ b'] exI [of _ "(kb, vb) # bps"]) simp
  qed
qed

section \<open>The keys of the array part of the message\<close>

lemma sint_of_nat_small: "i < 2 ^ 31 \<Longrightarrow> sint (of_nat i :: u64) = int i" "i < 2 ^ 31 \<Longrightarrow> sint (of_nat i :: u32) = int i"
  using sint_word_of_int_range [of "int i", where 'a = 64] sint_word_of_int_range [of "int i", where 'a = 32] by simp_all

lemma ucast_of_nat32: "(ucast (of_nat i :: u64) :: u32) = of_nat i"
  by (rule bit_word_eqI) (simp add: bit_simps)

lemma skip_key_iff:
  assumes "canonical k" and n: "n < 2 ^ 27"
  shows "skip_key n k \<longleftrightarrow> (\<exists>i. 1 \<le> i \<and> i \<le> n \<and> k = LInt (of_nat i))"
proof
  assume s: "skip_key n k"
  show "\<exists>i. 1 \<le> i \<and> i \<le> n \<and> k = LInt (of_nat i)"
  proof (cases k)
    case (LInt w)
    then have w: "0 < sint w" "sint w \<le> int n" using s by (simp_all add: skip_key_def Let_def)
    have "w = of_nat (nat (sint w))" using w(1) by simp
    then show ?thesis using w LInt by (intro exI [of _ "nat (sint w)"]) auto
  next
    case (LFlt f)
    then have "flt_tointeger f 0 = None" using assms(1) by simp
    then show ?thesis using s LFlt by (simp add: skip_key_def Let_def)
  qed (use s in \<open>simp_all add: skip_key_def\<close>)
next
  assume "\<exists>i. 1 \<le> i \<and> i \<le> n \<and> k = LInt (of_nat i)"
  then obtain i where i: "1 \<le> i" "i \<le> n" "k = LInt (of_nat i)" by blast
  then have "i < 2 ^ 31" using n by simp
  then show "skip_key n k" using i sint_of_nat_small [of i] by (simp add: skip_key_def Let_def ucast_of_nat32)
qed

section \<open>Tables\<close>

definition size_bytes :: "nat \<Rightarrow> byte list" where
  "size_bytes n = (if 31 \<le> n then tag 2 (integer_cookie (of_nat n)) # integer_bytes (of_nat n) else [])"

lemma table_header_writes:
  "writes b (tag 6 (min n 31) # size_bytes n)
     (if MAX_COOKIE - 1 \<le> n then wb_integer (wb_tag b (COMBINE_TYPE TYPE_TABLE (MAX_COOKIE - 1))) (of_nat n)
      else wb_tag b (COMBINE_TYPE TYPE_TABLE n))"
  using writes_trans [OF writes_tag wb_integer_writes, of b 6 31 "of_nat n"] writes_tag [of b 6 n]
  by (auto simp: size_bytes_def min_def)

lemma table_size_parses:
  assumes "n < 2 ^ 27"
  shows "parses (table_size (min n 31)) (size_bytes n) (int n)"
proof (cases "31 \<le> n")
  case False
  then show ?thesis using parses_return [of "int n"] by (simp add: table_size_def [abs_def] size_bytes_def min_def)
next
  case True
  let ?c = "integer_cookie (of_nat n)"
  have c: "?c < 8" by (rule integer_cookie_less)
  have n: "sint (ucast (of_nat n :: u64) :: u32) = int n"
    using sint_of_nat_small(2) [of n] assms by (simp add: ucast_of_nat32)
  have "parses (\<lambda>rb. ebind (read_or_fail rb 1) (\<lambda>(bs, rb).
      let ty = (le_word bs :: byte); cookie = unat (drop_bit 3 ty) in
      if unat (ty AND 7) \<noteq> TYPE_NUMBER \<or> cookie = TYPE_NUMBER_REAL then invalid_stream
      else ebind (get_integer rb cookie) (\<lambda>(n, rb). Inr (sint (ucast n :: u32), rb))))
      ([tag 2 ?c] @ integer_bytes (of_nat n)) (int n)"
  proof (rule parses_bind [OF parses_read])
    show "parses (\<lambda>rb. let ty = (le_word [tag 2 ?c] :: byte); cookie = unat (drop_bit 3 ty) in
        if unat (ty AND 7) \<noteq> TYPE_NUMBER \<or> cookie = TYPE_NUMBER_REAL then invalid_stream
        else ebind (get_integer rb cookie) (\<lambda>(n, rb). Inr (sint (ucast n :: u32), rb))) (integer_bytes (of_nat n)) (int n)"
      using parses_map [OF get_integer_parses, of "int n" "\<lambda>n. sint (ucast n :: u32)" "of_nat n"] c n
      by (simp add: tag_parts)
  qed simp
  moreover have "min n 31 = 31" using True by simp
  ultimately show ?thesis using True by (simp add: table_size_def [abs_def] size_bytes_def)
qed

lemma h_alloc_ok:
  assumes "heap_room g (Suc n)"
  shows "h_next g \<notin> dom (h_tab g)"
    and "heap_room (snd (h_alloc g t)) n" and "heap_ext g (snd (h_alloc g t))"
    and "h_tab (snd (h_alloc g t)) (h_next g) = Some t" and "fst (h_alloc g t) = h_next g"
    and "h_tab (snd (h_alloc g t)) = (h_tab g)(h_next g \<mapsto> t)"
proof -
  show fresh: "h_next g \<notin> dom (h_tab g)" using assms by (auto simp: heap_room_def)
  have "unat (h_next g + 1) = Suc (unat (h_next g))"
    using assms by (simp add: heap_room_def unat_word_ariths)
  then show "heap_room (snd (h_alloc g t)) n"
    using assms by (auto simp: heap_room_def h_alloc_def dest: less_SucI)
  show "heap_ext g (snd (h_alloc g t))" using fresh by (auto simp: heap_ext_def h_alloc_def map_le_def dom_def)
qed (simp_all add: h_alloc_def)

lemma pairs_length:
  "list_all2 (\<lambda>(k, v) (kb, vb). decodes seed d h k kb \<and> decodes seed d h v vb) kvs bps \<Longrightarrow>
     length kvs \<le> length (concat (map (\<lambda>(kb, vb). kb @ vb) bps))"
proof (induction kvs bps rule: list_all2_induct)
  case (Cons kv kvs bp bps)
  obtain kb vb where bp: "bp = (kb, vb)" by (cases bp)
  have "kb \<noteq> []" using Cons.hyps(1) bp by (auto simp: decodes_def split: prod.splits)
  then have "1 \<le> length kb" by (cases kb) simp_all
  moreover have "length (concat (map (\<lambda>(kb, vb). kb @ vb) (bp # bps))) =
      length kb + (length vb + length (concat (map (\<lambda>(kb, vb). kb @ vb) bps)))" using bp by simp
  ultimately show ?case using Cons.IH unfolding list.size by linarith
qed simp

definition msg_keys :: "table \<Rightarrow> nat \<Rightarrow> (tvalue \<times> tvalue) list" where
  "msg_keys t n = filter (\<lambda>(k, v). \<not> skip_key n k) (filter live_cell (cells t))"

lemma msg_keys_entries:
  assumes ok: "tab_ok seed t" and n: "n < 2 ^ 27"
  shows "(k, v) \<in> set (msg_keys t n) \<longleftrightarrow>
      tab_map t k = v \<and> v \<noteq> LNil \<and> k \<notin> (\<lambda>i. LInt (of_nat i)) ` set [1..<Suc n]"
    and "distinct (map fst (msg_keys t n))" and "length (msg_keys t n) \<le> entry_count t"
proof -
  have "k \<in> (\<lambda>i. LInt (of_nat i)) ` set [1..<Suc n] \<longleftrightarrow> (\<exists>i. 1 \<le> i \<and> i \<le> n \<and> k = LInt (of_nat i))"
    by (auto simp del: upt_Suc)
  moreover have "(k, v) \<in> set (filter live_cell (cells t)) \<longleftrightarrow> tab_map t k = v \<and> v \<noteq> LNil"
    unfolding cells_entries(2) [OF ok] by simp
  moreover have "skip_key n k \<longleftrightarrow> (\<exists>i. 1 \<le> i \<and> i \<le> n \<and> k = LInt (of_nat i))" if "tab_map t k \<noteq> LNil"
    by (rule skip_key_iff [OF live_keys_canonical [OF ok that] n])
  ultimately show "(k, v) \<in> set (msg_keys t n) \<longleftrightarrow>
      tab_map t k = v \<and> v \<noteq> LNil \<and> k \<notin> (\<lambda>i. LInt (of_nat i)) ` set [1..<Suc n]"
    unfolding msg_keys_def set_filter [of "\<lambda>(k, v). \<not> skip_key n k"] by blast
  show "distinct (map fst (msg_keys t n))"
    unfolding msg_keys_def by (rule distinct_map_filter [OF cells_entries(1) [OF ok]])
  show "length (msg_keys t n) \<le> entry_count t"
    unfolding msg_keys_def length_live_cells [OF ok, symmetric] by (rule length_filter_le)
qed

lemma index_keys_distinct:
  assumes "n < 2 ^ 27"
  shows "distinct (map (\<lambda>i. LInt (of_nat i)) [1..<Suc n])"
proof -
  have "inj_on (\<lambda>i. LInt (of_nat i)) (set [1..<Suc n])"
    by (rule inj_on_inverseI [where g = arrayindex]) (rule arrayindex_of_nat, use assms in auto)
  then show ?thesis by (simp add: distinct_map del: upt_Suc)
qed

lemma decodes_table:
  assumes ok: "tab_ok seed t" and here: "h_tab h p = Some t" and n: "n < 2 ^ 27" and cnt: "entry_count t < 2 ^ 27"
    and scalar: "\<And>k q. tab_map t (LTab q) = LNil"
    and arr: "list_all2 (\<lambda>i bs. decodes seed' d h (tab_map t (LInt (of_nat i))) bs) [1..<Suc n] bss"
    and hash: "list_all2 (\<lambda>(k, v) (kb, vb). decodes seed' d h k kb \<and> decodes seed' d h v vb) (msg_keys t n) bps"
  shows "decodes seed' (Suc d) h (LTab p)
    (tag 6 (min n 31) # size_bytes n @ concat bss @ concat (map (\<lambda>(kb, vb). kb @ vb) bps) @ [tag 0 0])"
  unfolding decodes_def
proof (intro conjI allI impI)
  let ?as = "concat bss" and ?hs = "concat (map (\<lambda>(kb, vb). kb @ vb) bps)"
  fix fuel rb rest g m
  assume rb: "rb_ok rb ((tag 6 (min n 31) # size_bytes n @ ?as @ ?hs @ [tag 0 0]) @ rest)"
    and room: "heap_room g (length (tag 6 (min n 31) # size_bytes n @ ?as @ ?hs @ [tag 0 0]) + m)"
    and fuel: "length (tag 6 (min n 31) # size_bytes n @ ?as @ ?hs @ [tag 0 0]) \<le> fuel"
  note keys = msg_keys_entries [OF ok n]
  let ?I = "(\<lambda>i. LInt (of_nat i)) ` set [1..<Suc n]" and ?f = "fuel - 1"
  obtain rb1 where rb1: "unpack_one fuel seed' (rb, g) =
      unpack_typed ?f (unpack_one ?f seed') seed' (tag 6 (min n 31)) (rb1, g)"
    "rb_ok rb1 (size_bytes n @ ?as @ ?hs @ tag 0 0 # rest)"
  proof -
    have "rb_ok rb (tag 6 (min n 31) # (size_bytes n @ ?as @ ?hs @ tag 0 0 # rest))" using rb by simp
    moreover have "0 < fuel" using fuel by simp
    ultimately show ?thesis using that by (rule unpack_one_tag)
  qed
  obtain rb2 where rb2: "table_size (min n 31) rb1 = Inr (int n, rb2)" "rb_ok rb2 (?as @ ?hs @ tag 0 0 # rest)"
    using table_size_parses [OF n] rb1(2) unfolding parses_def by blast
  have fa: "length ?as \<le> ?f" and fh: "length ?hs < ?f" using fuel by simp_all
  have "n \<le> MAXASIZE" using n by simp
  from createtable_ok [OF this] obtain t0 where t0: "createtable seed' n 0 = Inr t0" "tab_ok seed' t0" "tab_map t0 = (\<lambda>k. LNil)"
    "sizearray t0 = n" "sizenode t0 = 1" by blast
  let ?q = "h_next g" and ?g = "snd (h_alloc g t0)"
  have room': "heap_room g (Suc (length ?as + (length ?hs + m)))" by (rule heap_room_mono [OF room]) simp
  note fresh = h_alloc_ok(1) [OF room'] and al = h_alloc_ok(2-6) [OF room', of t0]
  have b0: "building seed' d h (tab_map t) g ?q {} ?g t0"
    using fresh al(2,3) t0(2,3) by (simp add: building_def filled_def)
  obtain rb3 g3 t3 where s3: "efold (fill_array (unpack_one ?f seed') seed' ?q) [1..<Suc n] (rb2, ?g) = Inr (rb3, g3)"
    "rb_ok rb3 (?hs @ tag 0 0 # rest)" "heap_room g3 (length ?hs + m)"
    "building seed' d h (tab_map t) g ?q ({} \<union> ?I) g3 t3" "sizearray t3 = sizearray t0" "sizenode t3 = sizenode t0"
  proof -
    have "0 < i \<and> i \<le> sizearray t0 \<and> LInt (of_nat i) \<notin> {}" if "i \<in> set [1..<Suc n]" for i
      using that t0(4) by auto
    from fill_array_loop [OF arr b0 rb2(2) al(1) fa this index_keys_distinct [OF n]] show ?thesis using that by blast
  qed
  have "entry_count t3 \<le> n"
  proof -
    have ok3: "tab_ok seed' t3" and f3: "filled seed' d h (tab_map t) ({} \<union> ?I) (new_tabs (insert ?q (dom (h_tab g))) g3) (tab_map t3)"
      using s3(4) by (simp_all add: building_def del: upt_Suc)
    have "{k. tab_map t3 k \<noteq> LNil} \<subseteq> ?I" using f3 unfolding filled_def by (auto simp del: upt_Suc split: if_splits)
    then have "card {k. tab_map t3 k \<noteq> LNil} \<le> card ?I" by (intro card_mono) simp_all
    also have "\<dots> \<le> card (set [1..<Suc n])" by (rule card_image_le) simp
    also have "\<dots> = n" by (simp del: upt_Suc)
    finally show ?thesis using entry_count_card(2) [OF ok3] by simp
  qed
  then have b3: "table_bound n t3" using s3(5,6) t0(4,5) by (simp add: table_bound_def)
  obtain rb4 g4 t4 where s4: "fill_hash ?f (unpack_one ?f seed') seed' ?q (rb3, g3) = Inr (rb4, g4)" "rb_ok rb4 rest"
    "heap_room g4 m" "building seed' d h (tab_map t) g ?q ({} \<union> ?I \<union> fst ` set (msg_keys t n)) g4 t4"
  proof -
    have "\<exists>rb' g' t''. fill_hash ?f (unpack_one ?f seed') seed' ?q (rb3, g3) = Inr (rb', g') \<and> rb_ok rb' rest \<and>
        heap_room g' m \<and> building seed' d h (tab_map t) g ?q ({} \<union> ?I \<union> fst ` set (msg_keys t n)) g' t''"
    proof (rule fill_hash_loop [OF hash s3(4,2,3) _ _ b3 _ _ _ keys(2)])
      show "n + length (msg_keys t n) < 2 ^ 28" using n cnt keys(3) by simp
      show "length (msg_keys t n) < ?f" using pairs_length [OF hash] fh by simp
      show "canonical k \<and> (\<forall>q. k \<noteq> LTab q) \<and> tab_map t k = v \<and> k \<notin> {} \<union> ?I" if "(k, v) \<in> set (msg_keys t n)" for k v
        using that keys(1) [of k v] live_keys_canonical [OF ok, of k] scalar by auto
    qed (use fh in simp_all)
    then show ?thesis using that by blast
  qed
  have "unpack_one fuel seed' (rb, g) = Inr (Some (LTab ?q), (rb4, g4))"
    using rb1(1) rb2(1) t0(1) s3(1) s4(1) al(4)
    by (simp add: unpack_typed_tag push_value_def unpack_table_def case_prod_beta' Let_def del: upt_Suc)
  moreover have "heap_ext g g4" using s4(4) by (simp add: building_def)
  moreover have "same seed' (Suc d) h (LTab p) (new_tabs (dom (h_tab g)) g4) (LTab ?q)"
  proof -
    let ?D = "{} \<union> ?I \<union> fst ` set (msg_keys t n)" and ?M = "new_tabs (insert ?q (dom (h_tab g))) g4"
    have s: "h_tab g4 ?q = Some t4" "tab_ok seed' t4" "filled seed' d h (tab_map t) ?D ?M (tab_map t4)" "?q \<notin> dom (h_tab g)"
      using s4(4) by (simp_all add: building_def del: upt_Suc)
    have all: "k \<in> ?D" if "tab_map t k \<noteq> LNil" for k using keys(1) [of k "tab_map t k"] that by (force simp del: upt_Suc)
    have mono: "?M \<subseteq>\<^sub>m new_tabs (dom (h_tab g)) g4" by (rule new_tabs_mono) auto
    have "if tab_map t k = LNil then tab_map t4 k = LNil
        else same seed' d h (tab_map t k) (new_tabs (dom (h_tab g)) g4) (tab_map t4 k)" for k
      using s(3) all [of k] same_mono [OF _ mono] unfolding filled_def by (metis (no_types, lifting))
    moreover have "new_tabs (dom (h_tab g)) g4 ?q = Some t4" using s(1,4) by (simp add: new_tabs_def restrict_map_def dom_def)
    ultimately show ?thesis using here s(2) by simp
  qed
  ultimately show "\<exists>v' rb' g'. unpack_one fuel seed' (rb, g) = Inr (Some v', (rb', g')) \<and> rb_ok rb' rest \<and>
      heap_room g' m \<and> heap_ext g g' \<and> same seed' (Suc d) h (LTab p) (new_tabs (dom (h_tab g)) g') v'"
    using s4(2,3) by blast
qed simp

lemma packsI:
  assumes "\<And>b. pack_one (Suc d) seed h v b = Inr (f b)" and "\<And>b. writes b bs (f b)" and "decodes seed' (Suc d) h v bs"
  shows "packs seed seed' (Suc d) h v"
  unfolding packs_def using assms by blast

lemma packs_nil: "packs seed seed' (Suc d) h LNil"
proof (rule packsI [where f = wb_nil])
  show "writes b [tag 0 0] (wb_nil b)" for b using writes_tag [of b 0 0] by (simp add: wb_nil_def COMBINE_TYPE_add)
qed (simp, rule decodes_nil)

lemma packs_depth: "packs seed seed' d h v \<Longrightarrow> d \<noteq> 0"
  by (cases d) (auto simp: packs_def)

lemma packs_table:
  assumes ok: "tab_ok seed t" and st: "no_stale t" and fits: "table_fits t" and here: "h_tab h p = Some t"
    and ent: "\<And>k. tab_map t k \<noteq> LNil \<Longrightarrow>
      (\<forall>q. k \<noteq> LTab q) \<and> packs seed seed' d h k \<and> packs seed seed' d h (tab_map t k)"
  shows "packs seed seed' (Suc d) h (LTab p)"
  unfolding packs_def
proof
  fix b
  obtain n where n: "luaH_getn t = Inr n" "is_boundary (\<lambda>i. tab_map t (LInt (of_nat i))) n"
    using getn_finds [OF ok] by blast
  then have n27: "n < 2 ^ 27" and cnt: "entry_count t < 2 ^ 27" using fits by (simp_all add: table_fits_def)
  have elem: "packs seed seed' d h (tab_map t (LInt (of_nat i)))" if i: "i \<in> set [1..<Suc n]" for i
  proof (cases "tab_map t (LInt (of_nat i)) = LNil")
    case True
    have "tab_map t (LInt (of_nat n)) \<noteq> LNil" using i n(2) by (auto simp: is_boundary_def)
    then have "packs seed seed' d h (LInt (of_nat n))" using ent by blast
    then obtain d' where d': "d = Suc d'" using packs_depth not0_implies_Suc by blast
    show ?thesis unfolding True d' by (rule packs_nil)
  qed (use ent in blast)
  let ?b1 = "if MAX_COOKIE - 1 \<le> n then wb_integer (wb_tag b (COMBINE_TYPE TYPE_TABLE (MAX_COOKIE - 1))) (of_nat n)
      else wb_tag b (COMBINE_TYPE TYPE_TABLE n)"
  obtain b2 bss where b2: "efold (\<lambda>i b. ebind (rawgeti t (of_nat i)) (\<lambda>v. pack_one d seed h v b)) [1..<Suc n] ?b1 = Inr b2"
    "writes ?b1 (concat bss) b2" "list_all2 (\<lambda>i bs. decodes seed' d h (tab_map t (LInt (of_nat i))) bs) [1..<Suc n] bss"
    using pack_array_loop [OF ok elem, of "[1..<Suc n]" ?b1] by blast
  have live: "packs seed seed' d h k \<and> packs seed seed' d h v" if "(k, v) \<in> set (filter live_cell (cells t))" for k v
    using that ent [of k] unfolding cells_entries(2) [OF ok] by auto
  obtain b3 bps where b3: "efold (\<lambda>(k, v) b. if skip_key n k then Inr b
        else ebind (pack_one d seed h k b) (pack_one d seed h v)) (filter live_cell (cells t)) b2 = Inr b3"
    "writes b2 (concat (map (\<lambda>(kb, vb). kb @ vb) bps)) b3"
    "list_all2 (\<lambda>(k, v) (kb, vb). decodes seed' d h k kb \<and> decodes seed' d h v vb) (msg_keys t n) bps"
    using pack_hash_loop [OF live, of "filter live_cell (cells t)" n b2] unfolding msg_keys_def by blast
  let ?bs = "tag 6 (min n 31) # size_bytes n @ concat bss @ concat (map (\<lambda>(kb, vb). kb @ vb) bps) @ [tag 0 0]"
  have "wb_table_array (pack_one d seed h) t b = Inr (n, b2)"
    using b2(1) by (simp add: wb_table_array_def n(1) Let_def del: upt_Suc)
  moreover have "wb_table_hash (pack_one d seed h) seed t n b2 = Inr (wb_nil b3)"
    using b3(1) by (simp only: wb_table_hash_def next_loop_all [OF ok st]) simp
  ultimately have "pack_one (Suc d) seed h (LTab p) b = Inr (wb_nil b3)"
    by (simp add: wb_table_def h_get_def here)
  moreover have "writes b ?bs (wb_nil b3)"
  proof -
    have "writes b3 [tag 0 0] (wb_nil b3)" using writes_tag [of b3 0 0] by (simp add: wb_nil_def COMBINE_TYPE_add)
    then show ?thesis
      using writes_trans [OF writes_trans [OF writes_trans [OF table_header_writes b2(2)] b3(2)]] by simp
  qed
  moreover have "decodes seed' (Suc d) h (LTab p) ?bs"
    by (rule decodes_table [OF ok here n27 cnt _ b2(3) b3(3)]) (use ent in blast)
  ultimately show "\<exists>b' bs. pack_one (Suc d) seed h (LTab p) b = Inr b' \<and> writes b bs b' \<and> decodes seed' (Suc d) h (LTab p) bs"
    by blast
qed

lemma packable_packs: "packable seed d h v \<Longrightarrow> packs seed seed' d h v"
proof (induction d arbitrary: v)
  case (Suc d)
  show ?case
  proof (cases v)
    case (LTab p)
    then obtain t where "h_tab h p = Some t" "tab_ok seed t" "no_stale t" "table_fits t"
      "\<And>k. tab_map t k \<noteq> LNil \<Longrightarrow> (\<forall>q. k \<noteq> LTab q) \<and> packable seed d h k \<and> packable seed d h (tab_map t k)"
      using Suc.prems by auto
    then show ?thesis unfolding LTab using Suc.IH by (intro packs_table) blast+
  next
    case LNil
    show ?thesis unfolding LNil by (rule packs_nil)
  next
    case (LBool x)
    show ?thesis unfolding LBool
      by (rule packsI [where f = "\<lambda>b. wb_boolean b x", OF _ _ decodes_boolean])
        (simp, unfold wb_boolean_def, rule writes_tag)
  next
    case (LInt i)
    show ?thesis unfolding LInt
      by (rule packsI [where f = "\<lambda>b. wb_integer b i", OF _ wb_integer_writes decodes_integer]) simp
  next
    case (LFlt f)
    have "writes b (tag 2 8 # le_bytes 8 f) (wb_real b f)" for b
      using writes_trans [OF writes_tag writes_push, of b 2 8 "le_bytes 8 f"] by (simp add: wb_real_def)
    then show ?thesis unfolding LFlt
      by (intro packsI [where f = "\<lambda>b. wb_real b f", OF _ _ decodes_real]) simp_all
  next
    case (LStr s)
    then have "length s < 2 ^ 31" using Suc.prems by simp
    then show ?thesis unfolding LStr
      by (intro packsI [where f = "\<lambda>b. wb_string b s", OF _ wb_string_writes decodes_string]) simp_all
  next
    case (LLight q)
    have "writes b (tag 3 0 # le_bytes 8 q) (wb_pointer b q)" for b
      using writes_trans [OF writes_tag writes_push, of b 3 0 "le_bytes 8 q"]
      by (simp add: wb_pointer_def COMBINE_TYPE_add)
    then show ?thesis unfolding LLight
      by (intro packsI [where f = "\<lambda>b. wb_pointer b q", OF _ _ decodes_pointer]) simp_all
  qed (use Suc.prems in simp_all)
qed simp

section \<open>A whole message\<close>

lemma pack_from_packs:
  assumes "\<And>v. v \<in> set vs \<Longrightarrow> packs seed seed' d h v"
  shows "\<exists>b' bss. efold (pack_one d seed h) vs b = Inr b' \<and> writes b (concat bss) b' \<and>
    list_all2 (decodes seed' d h) vs bss"
  using assms
proof (induction vs arbitrary: b)
  case Nil
  then show ?case by (auto intro!: exI [of _ "[]"] simp: writes_refl)
next
  case (Cons v vs)
  have "packs seed seed' d h v" using Cons.prems by simp
  then obtain b1 bs where b1: "pack_one d seed h v b = Inr b1" "writes b bs b1" "decodes seed' d h v bs"
    unfolding packs_def by blast
  obtain b' bss where b': "efold (pack_one d seed h) vs b1 = Inr b'" "writes b1 (concat bss) b'"
    "list_all2 (decodes seed' d h) vs bss"
    using Cons.IH [of b1] Cons.prems by auto
  show ?case using b1 b' writes_trans [OF b1(2) b'(2)] by (intro exI [of _ b'] exI [of _ "bs # bss"]) simp
qed

lemma unpack_values_all:
  assumes "list_all2 (decodes seed d h) vs bss" and "rb_ok rb (concat bss)" and "heap_room g (length (concat bss) + n)"
    and "length (concat bss) \<le> D" and "length vs < rounds"
  shows "\<exists>vs' rb' g'. unpack_values rounds D seed (rb, g) = Inr (vs', (rb', g')) \<and> heap_room g' n \<and> heap_ext g g' \<and>
    list_all2 (\<lambda>v v'. same seed d h v (new_tabs (dom (h_tab g)) g') v') vs vs'"
  using assms
proof (induction vs bss arbitrary: rb g rounds rule: list_all2_induct)
  case Nil
  obtain r where r: "rounds = Suc r" using Nil.prems(4) by (cases rounds) auto
  have "rb_read rb 1 = Inr (None, rb)" using source.read_short [of rb "[]" 1] Nil.prems(1) by simp
  then show ?case using r Nil.prems(2) by simp
next
  case (Cons v vs bs bss)
  obtain r where r: "rounds = Suc r" using Cons.prems(4) by (cases rounds) auto
  obtain x xs where bs: "bs = x # xs" using Cons.hyps(1) by (cases bs) (auto simp: decodes_def)
  have ok: "rb_ok rb ([x] @ (xs @ concat bss))" using Cons.prems(1) bs by simp
  obtain rb1 where rb1: "rb_read rb 1 = Inr (Some [x], rb1)" "rb_ok rb1 (xs @ concat bss)"
    using source.read_ok [OF ok] by auto
  obtain v' rb2 g2 where v': "unpack_one (Suc D) seed (rb, g) = Inr (Some v', (rb2, g2))" "rb_ok rb2 (concat bss)"
    "heap_room g2 (length (concat bss) + n)" "heap_ext g g2" "same seed d h v (new_tabs (dom (h_tab g)) g2) v'"
  proof -
    have "rb_ok rb (bs @ concat bss)" "heap_room g (length bs + (length (concat bss) + n))" "length bs \<le> Suc D"
      using Cons.prems(1-3) by (simp_all add: add.assoc)
    then show ?thesis using that Cons.hyps(1) unfolding decodes_def by blast
  qed
  have typed: "unpack_typed D (unpack_one D seed) seed (le_word [x]) (rb1, g) = Inr (Some v', (rb2, g2))"
    using v'(1) rb1(1) by (simp add: read_or_fail_def)
  obtain vs' rb' g' where vs': "unpack_values r D seed (rb2, g2) = Inr (vs', (rb', g'))" "heap_room g' n" "heap_ext g2 g'"
    "list_all2 (\<lambda>v v'. same seed d h v (new_tabs (dom (h_tab g2)) g') v') vs vs'"
    using Cons.IH [OF v'(2,3), of r] Cons.prems(3,4) r by auto
  have "unpack_values rounds D seed (rb, g) = Inr (v' # vs', (rb', g'))"
    using rb1(1) typed vs'(1) r by simp
  moreover have "same seed d h v (new_tabs (dom (h_tab g)) g') v'"
    by (rule same_mono [OF v'(5) new_tabs_mono [OF vs'(3) order_refl]])
  moreover have "list_all2 (\<lambda>v v'. same seed d h v (new_tabs (dom (h_tab g)) g') v') vs vs'"
    using vs'(4) by (rule list_all2_mono)
      (rule same_mono, assumption, rule new_tabs_mono [OF heap_ext_refl heap_ext_dom [OF v'(4)]])
  ultimately show ?case using vs'(2) heap_ext_trans [OF v'(4) vs'(3)] by auto
qed

text \<open>C1:
  A message arrives as it was sent.  Any list of values made of nil, booleans, integers,
  floats, strings, light userdata and tables of such values (keys not themselves tables,
  nested at most 32 deep) can be packed, and unpacking the chain in another Lua state, with
  its own heap and hash seed, returns values with the same contents: every scalar bit for
  bit, every table as a new table with equal entries, in the array part or the hash part,
  whatever block boundaries the encoding crosses.  The other tables of the receiver are left
  alone.
\<close>

theorem seri_roundtrip:
  assumes "\<And>v. v \<in> set vs \<Longrightarrow> packable seed (MAX_DEPTH + 1) h v" and "heap_room g (2 ^ 31)"
  shows "\<exists>chain. seri_pack seed h vs = Inr chain \<and>
    (BLOCK_SIZE * length chain < 2 ^ 31 \<longrightarrow>
      (\<exists>vs' g'. seri_unpack seed' g chain = Inr (vs', g') \<and> heap_ext g g' \<and>
        list_all2 (\<lambda>v v'. same seed' (MAX_DEPTH + 1) h v (new_tabs (dom (h_tab g)) g') v') vs vs'))"
proof -
  obtain b0 where b0: "wb_init None = Inr b0" "wb_holds b0 []" using wb_init_holds by blast
  have "packs seed seed' (MAX_DEPTH + 1) h v" if "v \<in> set vs" for v using packable_packs assms(1) that by blast
  from pack_from_packs [OF this, of vs b0] obtain b bss where
    b: "efold (pack_one (MAX_DEPTH + 1) seed h) vs b0 = Inr b" "writes b0 (concat bss) b"
      "list_all2 (decodes seed' (MAX_DEPTH + 1) h) vs bss" by blast
  have holds: "wb_holds b (concat bss)" using b(2) b0(2) by (auto simp: writes_def)
  have pack: "seri_pack seed h vs = Inr (wb_close b)"
    using b0(1) b(1) by (simp add: seri_pack_def pack_from_def)
  show ?thesis
  proof (intro exI [of _ "wb_close b"] conjI impI pack)
    assume len: "BLOCK_SIZE * length (wb_close b) < 2 ^ 31"
    have inv: "wb_inv b" using holds by (simp add: wb_holds_def)
    have ne: "wb_close b \<noteq> []" by (simp add: wb_close_eq [OF inv])
    have "length (wb_close b) = length (w_head b)"
      using inv by (cases "w_head b") (simp_all add: wb_close_eq [OF inv] wb_inv_def)
    moreover have "BLOCK_SIZE * w_current b + w_ptr b \<le> BLOCK_SIZE * length (w_head b)"
      using inv unfolding wb_inv_def by (cases "w_head b") auto
    ultimately have data: "4 + length (concat bss) < 2 ^ 31" using wb_holds_len [OF holds] len by simp
    obtain rb where rb: "rb_init (wb_close b) = Inr rb" "rb_ok rb (concat bss)"
      using rb_init_close [OF holds data] by blast
    have rl: "nat (r_len rb) = length (concat bss)" using rb(2) by (simp add: rb_ok_def)
    have count: "length vs \<le> length (concat bss)"
      using b(3) by (induction rule: list_all2_induct) (auto simp: decodes_def neq_Nil_conv)
    have room: "heap_room g (length (concat bss) + 0)" by (rule heap_room_mono [OF assms(2)]) (use data in simp)
    have "length vs < Suc (length (concat bss))" using count by simp
    from unpack_values_all [OF b(3) rb(2) room _ this, of "Suc (length (concat bss))"]
    obtain vs' rb' g' where u: "unpack_values (Suc (length (concat bss))) (Suc (length (concat bss))) seed' (rb, g) = Inr (vs', (rb', g'))"
      "heap_ext g g'" "list_all2 (\<lambda>v v'. same seed' (MAX_DEPTH + 1) h v (new_tabs (dom (h_tab g)) g') v') vs vs'"
      by auto
    have "seri_unpack seed' g (wb_close b) = Inr (vs', g')"
      using ne rb(1) u(1) unfolding seri_unpack_def Let_def by (simp only: rl ebind_Inr if_False prod.case)
    then show "\<exists>vs' g'. seri_unpack seed' g (wb_close b) = Inr (vs', g') \<and> heap_ext g g' \<and>
        list_all2 (\<lambda>v v'. same seed' (MAX_DEPTH + 1) h v (new_tabs (dom (h_tab g)) g') v') vs vs'"
      using u(2,3) by blast
  qed
qed

lemma seri_roundtrip_witness:
  "\<exists>chain. seri_pack 7 \<lparr>h_tab = [1 \<mapsto> luaH_new], h_next = 2\<rparr> [LInt 300, LStr ''hi'', LTab 1] = Inr chain"
proof -
  let ?h = "\<lparr>h_tab = [1 \<mapsto> luaH_new], h_next = 2\<rparr> :: heap" and ?vs = "[LInt 300, LStr ''hi'', LTab 1]"
  have scalars: "packable 7 (Suc d) ?h (LInt 300)" "packable 7 (Suc d) ?h (LStr ''hi'')" for d by simp_all
  have "entry_count luaH_new = 0" using entry_count_card(2) [OF luaH_new_ok(1) [of 7]] by (simp add: luaH_new_ok(2))
  then have "table_fits luaH_new" by (simp add: table_fits_def) (simp add: luaH_new_def luaH_getn_def)
  moreover have "no_stale luaH_new" by (simp add: no_stale_def luaH_new_def dummynode_def)
  ultimately have tab: "packable 7 (Suc d) ?h (LTab 1)" for d using luaH_new_ok by simp
  have "packable 7 (MAX_DEPTH + 1) ?h v" if "v \<in> set ?vs" for v
  proof -
    have "v = LInt 300 \<or> v = LStr ''hi'' \<or> v = LTab 1" using that by simp
    then show ?thesis unfolding Suc_eq_plus1 [symmetric] using scalars [of MAX_DEPTH] tab [of MAX_DEPTH] by blast
  qed
  moreover have "heap_room ?h (2 ^ 31)" by (simp add: heap_room_def)
  ultimately show ?thesis using seri_roundtrip [of ?vs 7 ?h ?h 9] by blast
qed

end
