(* ===== verification/Serializer_Safety.thy ===== *)
theory Serializer_Safety
  imports Serializer_Roundtrip
begin

text \<open>
  What the serializer does on any input.  Unpacking an arbitrary chain ends and leaves every
  table of the receiving state as it was, and every table it makes is well formed.  Packing
  succeeds exactly on values whose tables nest at most \<open>MAX_DEPTH\<close> deep and hold only types
  of the format; it raises an error on everything else, cyclic tables included.
\<close>

section \<open>Reading\<close>

text \<open>
  What can go wrong: an error of Lua; the two ways in which \<open>lua_pushlstring\<close> is asked for bytes that
  are not there, and a value that is missing, both on data that no packer wrote; and, if the chain
  does not hold the bytes its length field promises (\<open>s\<close> is false), a read outside of it.
\<close>

definition seri_err :: "bool \<Rightarrow> lua_error \<Rightarrow> bool" where
  "seri_err s e \<longleftrightarrow> (\<exists>msg. e = RunError msg) \<or> e = MemFault ''lua_pushlstring from NULL'' \<or>
     e = MemFault ''lua_pushlstring from behind the data'' \<or> e = MemFault ''nothing pushed'' \<or>
     \<not> s \<and> (e = MemFault ''NULL block'' \<or> e = MemFault ''outside the buffer'' \<or> e = MemFault ''indeterminate byte'')"

definition sound :: "bool \<Rightarrow> read_block \<Rightarrow> bool" where
  "sound s rb \<longleftrightarrow> (s \<longrightarrow> (\<exists>bs. rb_ok rb bs))"

lemma sound_False [simp]: "sound False rb"
  by (simp add: sound_def)

lemma seri_err_simps [simp]:
  "seri_err s (RunError msg)"
  "seri_err s (MemFault ''lua_pushlstring from NULL'')"
  "seri_err s (MemFault ''lua_pushlstring from behind the data'')"
  "seri_err s (MemFault ''nothing pushed'')"
  "seri_err False (MemFault ''NULL block'')"
  "seri_err False (MemFault ''outside the buffer'')"
  "seri_err False (MemFault ''indeterminate byte'')"
  by (simp_all add: seri_err_def)

lemma blk_cells_ends: "wp (blk_cells chain off n) (seri_err False) (\<lambda>_. True)"
  by (simp add: blk_cells_def split: list.split)

lemma cells_bytes_ends: "wp (cells_bytes cs) (seri_err False) (\<lambda>_. True)"
  by (simp add: cells_bytes_def)

lemma rb_read_loop_ends: "wp (rb_read_loop chain sz tmp len) (seri_err False) (\<lambda>(_, _, _, len'). len' = len - sz)"
proof (induction chain sz tmp len rule: rb_read_loop.induct)
  case (2 b chain sz tmp len)
  show ?case
  proof (cases "sz < int BLOCK_SIZE")
    case True
    then show ?thesis by (auto intro!: wp_bind [OF blk_cells_ends])
  next
    case False
    then have "rb_read_loop (b # chain) sz tmp len = ebind (blk_cells chain 0 (int BLOCK_SIZE)) (\<lambda>cs.
        rb_read_loop chain (sz - int BLOCK_SIZE) (tmp @ cs) (len - int BLOCK_SIZE))" by simp
    moreover have "wp (rb_read_loop chain (sz - int BLOCK_SIZE) (tmp @ cs) (len - int BLOCK_SIZE)) (seri_err False)
        (\<lambda>(_, _, _, len'). len' = len - sz)" if "blk_cells chain 0 (int BLOCK_SIZE) = Inr cs" for cs
      using 2 [OF False that] by (rule wp_mono) auto
    ultimately show ?thesis using wp_bind [OF blk_cells_ends] by metis
  qed
qed simp

lemma rb_read_any:
  assumes "n \<le> r_len rb"
  shows "wp (rb_read rb n) (seri_err False) (\<lambda>(bs, rb'). bs \<noteq> None \<and> r_len rb' = r_len rb - n)"
proof -
  have enter: "wp (if r_ptr rb = int BLOCK_SIZE
                 then (case r_current rb of
                         [] \<Rightarrow> Inl (MemFault ''NULL block'')
                       | _ # chain \<Rightarrow> Inr (rb\<lparr>r_current := chain, r_ptr := 0\<rparr>))
                 else Inr rb) (seri_err False) (\<lambda>rb'. r_len rb' = r_len rb)"
    by (simp split: list.split)
  have n: "\<not> r_len rb < n" using assms by simp
  show ?thesis
  proof (cases "r_buffer rb")
    case None
    show ?thesis
      unfolding rb_read_def Let_def if_not_P [OF n] None option.case
      by (rule wp_bind [OF enter], split if_split, intro conjI impI;
          rule wp_bind [OF blk_cells_ends], (rule wp_bind [OF rb_read_loop_ends])?)
        (auto intro!: wp_bind [OF cells_bytes_ends])
  next
    case (Some buf)
    show ?thesis
      unfolding rb_read_def if_not_P [OF n] Some option.case
      by (rule wp_bind [OF blk_cells_ends], rule wp_bind [OF cells_bytes_ends]) auto
  qed
qed

text \<open>A negative size reads nothing, but moves the pointer back.\<close>

lemma rb_read_back:
  assumes "rb_ok rb bs" and "n < 0"
  shows "\<exists>rb'. rb_read rb n = Inr (Some [], rb') \<and> r_len rb' = r_len rb - n"
proof -
  note enter = rb_enter_ok [OF assms(1)]
  have "\<not> r_len rb < n" "r_buffer rb = None" "r_len (rb_enter rb) = r_len rb"
    using assms by (auto simp: rb_ok_def rb_enter_def)
  moreover have "n \<le> int BLOCK_SIZE - r_ptr (rb_enter rb)" using enter(2) assms(2) by linarith
  ultimately show ?thesis using enter(3) assms(2)
    by (auto simp: rb_read_def Let_def blk_cells_def cells_bytes_def)
qed

lemma rb_read_ends:
  assumes "n \<le> r_len rb \<Longrightarrow> sound s rb"
  shows "wp (rb_read rb n) (seri_err s) (\<lambda>(bs, rb'). case bs of None \<Rightarrow> rb' = rb \<and> r_len rb < n
     | Some _ \<Rightarrow> n \<le> r_len rb \<and> r_len rb' = r_len rb - n \<and> (0 \<le> n \<longrightarrow> sound s rb'))"
proof (cases "r_len rb < n")
  case True
  then show ?thesis by (simp add: rb_read_def)
next
  case n: False
  show ?thesis
  proof (cases s)
    case True
    then obtain bs where bs: "rb_ok rb bs" using assms n by (auto simp: sound_def)
    show ?thesis
    proof (cases "0 \<le> n")
      case pos: True
      have "nat n \<le> length bs" using bs n pos by (simp add: rb_ok_def nat_le_iff)
      then have "int (length (take (nat n) bs)) = n" using pos by simp
      moreover obtain rb' where rb': "rb_read rb (int (length (take (nat n) bs))) = Inr (Some (take (nat n) bs), rb')"
        "rb_ok rb' (drop (nat n) bs)"
        using rb_read_spec [of rb "take (nat n) bs" "drop (nat n) bs"] bs by auto
      moreover have "r_len rb' = r_len rb - n" using bs rb'(2) n pos by (simp add: rb_ok_def)
      ultimately show ?thesis using n by (auto simp: sound_def)
    next
      case False
      then show ?thesis using rb_read_back [OF bs, of n] n by auto
    qed
  next
    case False
    then have f: "s = False" by simp
    show ?thesis unfolding f by (rule wp_mono [OF rb_read_any]) (use n in auto)
  qed
qed

text \<open>The number of bytes taken.\<close>

definition took :: "bool \<Rightarrow> read_block \<Rightarrow> int \<Rightarrow> read_block \<Rightarrow> bool" where
  "took s rb n rb' \<longleftrightarrow> 0 \<le> n \<and> n \<le> r_len rb \<and> r_len rb' = r_len rb - n \<and> sound s rb'"

lemma read_or_fail_ends: "0 \<le> n \<Longrightarrow> sound s rb \<Longrightarrow> wp (read_or_fail rb n) (seri_err s) (\<lambda>(_, rb'). took s rb n rb')"
  unfolding read_or_fail_def
  by (rule wp_bind [OF rb_read_ends]) (auto simp: invalid_stream_def took_def split: option.splits)

definition eats :: "bool \<Rightarrow> read_block \<Rightarrow> read_block \<Rightarrow> bool" where
  "eats s rb rb' \<longleftrightarrow> r_len rb' \<le> r_len rb \<and> (0 \<le> r_len rb \<longrightarrow> 0 \<le> r_len rb') \<and> sound s rb'"

lemma took_eats: "took s rb n rb' \<Longrightarrow> eats s rb rb'"
  by (auto simp: took_def eats_def)

lemma eats_refl [simp]: "eats s rb rb = sound s rb"
  by (simp add: eats_def)

lemma eats_sound: "eats s rb rb' \<Longrightarrow> sound s rb'"
  by (simp add: eats_def)

lemma read_map_ends:
  "0 \<le> n \<Longrightarrow> sound s rb \<Longrightarrow> wp (ebind (read_or_fail rb n) (\<lambda>(bs, rb). Inr (f bs, rb))) (seri_err s) (\<lambda>(_, rb'). eats s rb rb')"
  by (rule wp_bind [OF read_or_fail_ends]) (auto intro: took_eats)

lemma get_integer_ends: "sound s rb \<Longrightarrow> wp (get_integer rb c) (seri_err s) (\<lambda>(_, rb'). eats s rb rb')"
  unfolding get_integer_def by (simp add: read_map_ends invalid_stream_def)

lemma get_real_ends: "sound s rb \<Longrightarrow> wp (get_real rb) (seri_err s) (\<lambda>(_, rb'). eats s rb rb')"
  unfolding get_real_def by (rule read_map_ends) simp_all

lemma get_pointer_ends: "sound s rb \<Longrightarrow> wp (get_pointer rb) (seri_err s) (\<lambda>(_, rb'). eats s rb rb')"
  unfolding get_pointer_def by (rule read_map_ends) simp_all

lemma get_buffer_ends: "sound s rb \<Longrightarrow> wp (get_buffer rb len) (seri_err s) (\<lambda>(_, rb'). eats s rb rb')"
  unfolding get_buffer_def
  by (rule wp_bind [OF rb_read_ends]) (auto simp: eats_def split: option.splits)

lemma table_size_ends:
  assumes "n < 2 ^ 31" and "sound s rb"
  shows "wp (table_size n rb) (seri_err s) (\<lambda>(m, rb'). eats s rb rb' \<and> nat m < 2 ^ 31)"
proof (cases "n = MAX_COOKIE - 1")
  case True
  have bound: "nat (sint (w :: u32)) < 2 ^ 31" for w using sint_range_size [of w] by (simp add: word_size) linarith
  show ?thesis
    unfolding table_size_def if_P [OF True] Let_def
    by (rule wp_bind [OF read_or_fail_ends])
      (auto simp: invalid_stream_def took_def eats_def bound [simplified] assms(2) intro!: wp_bind [OF get_integer_ends])
qed (use assms in \<open>simp add: table_size_def\<close>)

section \<open>Unpacking ends\<close>

text \<open>
  \<open>grown seed P g g'\<close>: the tables of \<open>g\<close> are unchanged in \<open>g'\<close>, and the tables that are new there,
  other than those in \<open>P\<close>, are well formed.  \<open>roomy\<close>: what is left to read is short of the
  bounds of \<open>int\<close>, the heap has room for a table per byte, and the chain holds what is left (if \<open>s\<close>).
\<close>

definition grown :: "u32 \<Rightarrow> u64 set \<Rightarrow> heap \<Rightarrow> heap \<Rightarrow> bool" where
  "grown seed P g g' \<longleftrightarrow> heap_ext g g' \<and>
     (\<forall>q t. q \<notin> dom (h_tab g) \<longrightarrow> q \<notin> P \<longrightarrow> h_tab g' q = Some t \<longrightarrow> tab_ok seed t)"

definition roomy :: "bool \<Rightarrow> ustate \<Rightarrow> bool" where
  "roomy s st \<longleftrightarrow> 0 \<le> r_len (fst st) \<and> r_len (fst st) < 2 ^ 27 \<and> heap_room (snd st) (nat (r_len (fst st))) \<and>
     sound s (fst st)"

definition after :: "bool \<Rightarrow> u32 \<Rightarrow> ustate \<Rightarrow> ustate \<Rightarrow> bool" where
  "after s seed st st' \<longleftrightarrow> r_len (fst st') \<le> r_len (fst st) \<and> roomy s st' \<and> grown seed {} (snd st) (snd st')"

lemma grown_refl [simp]: "grown seed P g g"
  by (auto simp: grown_def)

lemma grown_trans: "grown seed P g0 g \<Longrightarrow> grown seed {} g g' \<Longrightarrow> grown seed P g0 g'"
  unfolding grown_def heap_ext_def map_le_def by (metis domI domIff empty_iff option.inject)

lemma grown_put: "grown seed {p} g0 g \<Longrightarrow> p \<notin> dom (h_tab g0) \<Longrightarrow> grown seed {p} g0 (h_put g p t)"
  unfolding grown_def using heap_ext_put by (auto simp: h_put_def)

lemma grown_done:
  "grown seed {p} g0 g \<Longrightarrow> h_tab g p = Some t \<Longrightarrow> tab_ok seed t \<Longrightarrow> grown seed {} g0 g"
  unfolding grown_def by (metis empty_iff option.inject singletonD)

lemma grown_tab: "grown seed P g g' \<Longrightarrow> h_tab g p = Some t \<Longrightarrow> h_tab g' p = Some t"
  unfolding grown_def heap_ext_def map_le_def by (metis domI)

lemma roomy_eats: "roomy s (rb, g) \<Longrightarrow> eats s rb rb' \<Longrightarrow> roomy s (rb', g)"
  unfolding roomy_def eats_def by (auto intro: heap_room_mono)

lemma roomy_put: "roomy s (rb, g) \<Longrightarrow> p \<in> dom (h_tab g) \<Longrightarrow> roomy s (rb, h_put g p t)"
  by (simp add: roomy_def heap_room_put)

lemma roomy_sound: "roomy s (rb, g) \<Longrightarrow> sound s rb"
  by (simp add: roomy_def)

text \<open>What is asked of \<open>up\<close>: it consumes a byte at least, and the value is not a dead key.\<close>

definition reads :: "bool \<Rightarrow> u32 \<Rightarrow> nat \<Rightarrow> unpacker \<Rightarrow> bool" where
  "reads s seed f up \<longleftrightarrow> (\<forall>st. roomy s st \<longrightarrow> nat (r_len (fst st)) < f \<longrightarrow>
     wp (up st) (seri_err s) (\<lambda>(v, st'). after s seed st st' \<and> r_len (fst st') < r_len (fst st) \<and> (\<forall>k. v \<noteq> Some (LDead k))))"

lemma reads_pop:
  assumes "reads s seed f up" and "roomy s st" and "nat (r_len (fst st)) < f"
  shows "wp (ebind (up st) pop_value) (seri_err s)
    (\<lambda>(v, st'). after s seed st st' \<and> r_len (fst st') < r_len (fst st) \<and> (\<forall>k. v \<noteq> LDead k))"
proof (rule wp_bind)
  show "wp (up st) (seri_err s) (\<lambda>(v, st'). after s seed st st' \<and> r_len (fst st') < r_len (fst st) \<and> (\<forall>k. v \<noteq> Some (LDead k)))"
    using assms unfolding reads_def by blast
qed (auto simp: pop_value_def split: option.splits)

lemma createtable_array:
  "\<exists>t. createtable seed n 0 = Inr t \<and> sizearray t = n \<and> sizenode t = 1 \<and> (n \<le> MAXASIZE \<longrightarrow> tab_ok seed t)"
proof -
  have "\<exists>t. createtable seed n 0 = Inr t \<and> sizearray t = n \<and> sizenode t = 1"
    by (simp add: createtable_def luaH_resize_def luaH_resize_with_def luaH_new_def setnodevector_def
        setarrayvector_def reinsert_node_def dummynode_def sizenode_def Let_def)
  then show ?thesis using createtable_ok by fastforce
qed

lemma rawseti_array:
  assumes i: "0 < i" "i \<le> sizearray t" "i < 2 ^ 31"
  shows "\<exists>t'. rawseti seed t (of_nat i) v = Inr t' \<and> sizearray t' = sizearray t \<and> sizenode t' = sizenode t \<and>
    (tab_ok seed t \<longrightarrow> tab_ok seed t')"
proof -
  have "unat ((of_nat i :: u64) - 1) = i - 1"
  proof -
    have "(of_nat i :: u64) - 1 = of_nat (i - 1)" using i by simp
    moreover have "unat (of_nat (i - 1) :: u64) = i - 1" unfolding unat_of_nat using i(3) by simp
    ultimately show ?thesis by simp
  qed
  then have "luaH_getint t (of_nat i) = Inr (ArrSlot (i - 1))"
    using i less_le_trans [of "i - 1" i "sizearray t"] by (simp add: luaH_getint_def)
  then have s: "rawseti seed t (of_nat i) v = Inr (set_slot t (ArrSlot (i - 1)) v)"
    by (simp add: rawseti_def luaH_setint_def luaH_setint_with_def)
  then show ?thesis using rawseti_map [OF _ i(1,2), of seed v]
    by (auto simp: set_slot_def sizenode_def)
qed

text \<open>Filling the table at \<open>p\<close>, which is new since \<open>g0\<close>.\<close>

definition filling :: "bool \<Rightarrow> u32 \<Rightarrow> heap \<Rightarrow> u64 \<Rightarrow> table \<Rightarrow> ustate \<Rightarrow> bool" where
  "filling s seed g0 p t st \<longleftrightarrow> roomy s st \<and> grown seed {p} g0 (snd st) \<and> p \<notin> dom (h_tab g0) \<and> h_tab (snd st) p = Some t"

lemma filling_after: "filling s seed g0 p t st \<Longrightarrow> after s seed st st' \<Longrightarrow> filling s seed g0 p t st'"
  unfolding filling_def after_def using grown_trans grown_tab by blast

lemma filling_put:
  assumes "filling s seed g0 p t (rb, g)"
  shows "filling s seed g0 p t' (rb, h_put g p t')"
  using assms grown_put [of seed p g0 g t'] roomy_put [of s rb g p t'] by (auto simp: filling_def h_put_def dom_def)

lemma fill_array_ends:
  assumes "reads s seed f up" and "filling s seed g0 p t st" and "\<And>i. i \<in> set is \<Longrightarrow> 0 < i \<and> i \<le> sizearray t \<and> i < 2 ^ 31"
    and "nat (r_len (fst st)) < f"
  shows "wp (efold (fill_array up seed p) is st) (seri_err s) (\<lambda>st'. \<exists>t'. filling s seed g0 p t' st' \<and> sizearray t' = sizearray t \<and>
    sizenode t' = sizenode t \<and> (tab_ok seed t \<longrightarrow> tab_ok seed t') \<and> r_len (fst st') + int (length is) \<le> r_len (fst st))"
  using assms(2-4)
proof (induction "is" arbitrary: t st)
  case (Cons i "is")
  let ?Q = "\<lambda>st1. \<exists>t1. filling s seed g0 p t1 st1 \<and> sizearray t1 = sizearray t \<and> sizenode t1 = sizenode t \<and>
    (tab_ok seed t \<longrightarrow> tab_ok seed t1) \<and> r_len (fst st1) < r_len (fst st)"
  have r: "roomy s st" using Cons.prems(1) by (simp add: filling_def)
  have "wp (fill_array up seed p i st) (seri_err s) ?Q"
    unfolding fill_array_def
  proof (rule wp_bind [OF reads_pop [OF assms(1) r Cons.prems(3)]], clarify)
    fix v rb g
    assume a: "after s seed st (rb, g)" "r_len (fst (rb, g)) < r_len (fst st)"
    have fl: "filling s seed g0 p t (rb, g)" by (rule filling_after [OF Cons.prems(1) a(1)])
    obtain t1 where t1: "rawseti seed t (of_nat i) v = Inr t1" "sizearray t1 = sizearray t" "sizenode t1 = sizenode t"
      "tab_ok seed t \<longrightarrow> tab_ok seed t1"
      using rawseti_array [of i t seed v] Cons.prems(2) by auto
    have "h_get g p = Inr t" using fl by (simp add: filling_def h_get_def)
    then show "wp (ebind (h_get g p) (\<lambda>t. ebind (rawseti seed t (of_nat i) v) (\<lambda>t. Inr (rb, h_put g p t)))) (seri_err s) ?Q"
      using t1 filling_put [OF fl, of t1] a(2) by auto
  qed
  then show ?case
    unfolding efold.simps
  proof (rule wp_bind)
    fix st1 assume "?Q st1"
    then obtain t1 where t1: "filling s seed g0 p t1 st1" "sizearray t1 = sizearray t" "sizenode t1 = sizenode t"
      "tab_ok seed t \<longrightarrow> tab_ok seed t1" "r_len (fst st1) < r_len (fst st)" by blast
    show "wp (efold (fill_array up seed p) is st1) (seri_err s) (\<lambda>st'. \<exists>t'. filling s seed g0 p t' st' \<and> sizearray t' = sizearray t \<and>
      sizenode t' = sizenode t \<and> (tab_ok seed t \<longrightarrow> tab_ok seed t') \<and> r_len (fst st') + int (length (i # is)) \<le> r_len (fst st))"
      by (rule wp_mono [OF Cons.IH [OF t1(1)]]) (use Cons.prems(2,3) t1(2-5) in fastforce)+
  qed
qed auto

lemma rawset_ends:
  assumes "tab_ok seed t" and "table_bound n t" and "n < 2 ^ 28" and "\<forall>d. k \<noteq> LDead d"
  shows "wp (rawset seed t k v) (seri_err s) (\<lambda>t'. tab_ok seed t' \<and> table_bound (Suc n) t')"
proof (cases "valid_key k")
  case True
  then show ?thesis using rawset_map [OF assms(1) _ assms(2,3), of k v] by auto
next
  case False
  then show ?thesis using rawset_invalid [OF assms(1) _ assms(4), of v] by auto
qed

lemma fill_hash_ends:
  assumes "reads s seed f up" and "filling s seed g0 p t st" and "tab_ok seed t" and "table_bound n t"
    and "n + nat (r_len (fst st)) < 2 ^ 28" and "nat (r_len (fst st)) < f" and "nat (r_len (fst st)) < rounds"
  shows "wp (fill_hash rounds up seed p st) (seri_err s) (\<lambda>st'. roomy s st' \<and> grown seed {} g0 (snd st') \<and> r_len (fst st') \<le> r_len (fst st))"
  using assms
proof (induction rounds arbitrary: st t n)
  case (Suc rounds)
  let ?Q = "\<lambda>st'. roomy s st' \<and> grown seed {} g0 (snd st') \<and> r_len (fst st') \<le> r_len (fst st)"
  have r: "roomy s st" using Suc.prems(2) by (simp add: filling_def)
  show ?case
    unfolding fill_hash.simps
  proof (rule wp_bind [OF reads_pop [OF assms(1) r Suc.prems(6)]], clarify)
    fix k rb g
    assume k: "after s seed st (rb, g)" "r_len (fst (rb, g)) < r_len (fst st)" "\<forall>d. k \<noteq> LDead d"
    have fl: "filling s seed g0 p t (rb, g)" by (rule filling_after [OF Suc.prems(2) k(1)])
    then have r1: "roomy s (rb, g)" "grown seed {p} g0 g" "h_tab g p = Some t" by (simp_all add: filling_def)
    have "grown seed {} g0 g" by (rule grown_done [OF r1(2,3) Suc.prems(3)])
    moreover have "wp (ebind (ebind (up (rb, g)) pop_value) (\<lambda>(v, (rb, h)).
          ebind (h_get h p) (\<lambda>t. ebind (rawset seed t k v) (\<lambda>t. fill_hash rounds up seed p (rb, h_put h p t))))) (seri_err s) ?Q"
    proof (rule wp_bind [OF reads_pop [OF assms(1) r1(1)]], use k(2) Suc.prems(6) in simp, clarify)
      fix v rb2 g2
      assume v: "after s seed (rb, g) (rb2, g2)" "r_len (fst (rb2, g2)) < r_len (fst (rb, g))"
      have fl2: "filling s seed g0 p t (rb2, g2)" by (rule filling_after [OF fl v(1)])
      then have g: "h_get g2 p = Inr t" by (simp add: filling_def h_get_def)
      have n: "n < 2 ^ 28" using Suc.prems(5) by simp
      have pos: "0 \<le> r_len rb2" using fl2 by (simp add: filling_def roomy_def)
      show "wp (ebind (h_get g2 p) (\<lambda>t. ebind (rawset seed t k v) (\<lambda>t. fill_hash rounds up seed p (rb2, h_put g2 p t)))) (seri_err s) ?Q"
        unfolding g ebind_Inr
      proof (rule wp_bind [OF rawset_ends [OF Suc.prems(3,4) n k(3)]])
        fix t1 assume t1: "tab_ok seed t1 \<and> table_bound (Suc n) t1"
        have "wp (fill_hash rounds up seed p (rb2, h_put g2 p t1)) (seri_err s)
          (\<lambda>st'. roomy s st' \<and> grown seed {} g0 (snd st') \<and> r_len (fst st') \<le> r_len (fst (rb2, h_put g2 p t1)))"
          using t1 k(2) v(2) pos Suc.prems(5-7) filling_put [OF fl2, of t1]
          by (intro Suc.IH [OF assms(1), of t1 _ "Suc n"]) simp_all
        then show "wp (fill_hash rounds up seed p (rb2, h_put g2 p t1)) (seri_err s) ?Q"
          by (rule wp_mono) (use k(2) v(2) in simp)
      qed
    qed
    ultimately show "wp (if k = LNil then Inr (rb, g) else ebind (ebind (up (rb, g)) pop_value) (\<lambda>(v, (rb, h)).
          ebind (h_get h p) (\<lambda>t. ebind (rawset seed t k v) (\<lambda>t. fill_hash rounds up seed p (rb, h_put h p t))))) (seri_err s) ?Q"
      using r1(1) k(2) by (simp split: if_split)
  qed
qed simp

lemma entry_count_le: "tab_ok seed t \<Longrightarrow> entry_count t \<le> sizearray t + sizenode t"
proof -
  have "length (array_keys (t_array t)) \<le> length (t_array t)"
    unfolding array_keys_def length_map by (rule order_trans [OF length_filter_le]) simp
  moreover assume "tab_ok seed t"
  ultimately show "entry_count t \<le> sizearray t + sizenode t"
    using length_filter_sum(2) [of "t_node t"] nodes_okD(1) [of seed t] by (simp add: entry_count_def tab_ok_def)
qed

lemma unpack_table_ends:
  assumes up: "reads s seed f up" and r: "roomy s (rb, g)" and room: "heap_room g (Suc (nat (r_len rb)))"
    and f: "nat (r_len rb) < f" and c: "c < 2 ^ 31"
  shows "wp (unpack_table f up seed c (rb, g)) (seri_err s) (\<lambda>(v, st'). after s seed (rb, g) st' \<and> (\<forall>k. v \<noteq> Some (LDead k)))"
  unfolding unpack_table_def prod.case
proof (rule wp_bind [OF table_size_ends [OF c roomy_sound [OF r]]], clarify)
  fix n rb1 assume n: "eats s rb rb1" "nat n < 2 ^ 31"
  let ?p = "h_next g" and ?Q = "\<lambda>(v, st'). after s seed (rb, g) st' \<and> (\<forall>k. v \<noteq> Some (LDead k))"
  obtain t where t: "createtable seed (nat n) 0 = Inr t" "sizearray t = nat n" "sizenode t = 1"
    "nat n \<le> MAXASIZE \<longrightarrow> tab_ok seed t"
    using createtable_array by blast
  let ?g = "snd (h_alloc g t)"
  note fresh = h_alloc_ok(1) [OF room] and al = h_alloc_ok(2-6) [OF room, of t]
  have "roomy s (rb, ?g)" using r al(1) by (simp add: roomy_def)
  then have "roomy s (rb1, ?g)" using n(1) by (rule roomy_eats)
  then have fl: "filling s seed g ?p t (rb1, ?g)" using fresh al by (auto simp: filling_def grown_def)
  have f1: "nat (r_len (fst (rb1, ?g))) < f" and len1: "r_len rb1 \<le> r_len rb" using n(1) f by (auto simp: eats_def)
  have "wp (efold (fill_array up seed ?p) [1..<Suc (nat n)] (rb1, ?g)) (seri_err s) (\<lambda>st'. \<exists>t'. filling s seed g ?p t' st' \<and>
      sizearray t' = sizearray t \<and> sizenode t' = sizenode t \<and> (tab_ok seed t \<longrightarrow> tab_ok seed t') \<and>
      r_len (fst st') + int (length [1..<Suc (nat n)]) \<le> r_len (fst (rb1, ?g)))"
    by (rule fill_array_ends [OF up fl _ f1]) (use n(2) t(2) in \<open>auto simp del: upt_Suc\<close>)
  then have "wp (ebind (efold (fill_array up seed ?p) [1..<Suc (nat n)] (rb1, ?g))
      (\<lambda>st. ebind (fill_hash f up seed ?p st) (\<lambda>st. Inr (Some (LTab ?p), st)))) (seri_err s) ?Q"
  proof (rule wp_bind, elim exE conjE)
    fix st1 t1
    assume t1: "filling s seed g ?p t1 st1" "sizearray t1 = sizearray t" "sizenode t1 = sizenode t"
      "tab_ok seed t \<longrightarrow> tab_ok seed t1" "r_len (fst st1) + int (length [1..<Suc (nat n)]) \<le> r_len (fst (rb1, ?g))"
    have len: "r_len (fst st1) + int (nat n) \<le> r_len rb1" "0 \<le> r_len (fst st1)" "r_len rb < 2 ^ 27"
      using t1(1,5) r by (simp_all add: filling_def roomy_def del: upt_Suc)
    then have small: "nat n + nat (r_len (fst st1)) < 2 ^ 27" using len1 by (simp split: if_splits)
    have le1: "r_len (fst st1) \<le> r_len rb1" using t1(5) by (simp del: upt_Suc split: if_splits)
    from le1 have f2: "nat (r_len (fst st1)) < f" using f1 nat_mono [of "r_len (fst st1)" "r_len rb1"] by simp
    from small have s28: "Suc (nat n) + nat (r_len (fst st1)) < 2 ^ 28" by simp
    from small have ok: "tab_ok seed t1" using t(4) t1(4) by simp
    moreover have "table_bound (Suc (nat n)) t1"
      using entry_count_le [OF ok] t(2,3) t1(2,3) by (simp add: table_bound_def)
    ultimately have "wp (fill_hash f up seed ?p st1) (seri_err s)
        (\<lambda>st'. roomy s st' \<and> grown seed {} g (snd st') \<and> r_len (fst st') \<le> r_len (fst st1))"
      by (intro fill_hash_ends [OF up t1(1) _ _ s28 f2 f2])
    then show "wp (ebind (fill_hash f up seed ?p st1) (\<lambda>st. Inr (Some (LTab ?p), st))) (seri_err s) ?Q"
      by (rule wp_bind) (use le1 len1 in \<open>auto simp: after_def\<close>)
  qed
  then show "wp (ebind (createtable seed (nat n) 0) (\<lambda>t. let (p, h) = h_alloc g t in
      ebind (efold (fill_array up seed p) [1..<Suc (nat n)] (rb1, h)) (\<lambda>st.
      ebind (fill_hash f up seed p st) (\<lambda>st. Inr (Some (LTab p), st))))) (seri_err s) ?Q"
    using t(1) al(4) by (simp add: case_prod_beta' del: upt_Suc)
qed

lemma eats_after: "roomy s (rb, g) \<Longrightarrow> eats s rb rb' \<Longrightarrow> after s seed (rb, g) (rb', g)"
  using roomy_eats [of s rb g rb'] by (simp add: after_def eats_def)

lemma push_scalar_ends:
  assumes "wp m (seri_err s) (\<lambda>(_, rb'). eats s rb rb')" and "roomy s (rb, g)" and "\<And>x k. f x \<noteq> LDead k"
  shows "wp (ebind m (\<lambda>(x, rb). Inr (Some (f x), (rb, g)))) (seri_err s) (\<lambda>(v, st'). after s seed (rb, g) st' \<and> (\<forall>k. v \<noteq> Some (LDead k)))"
  by (rule wp_bind [OF assms(1)]) (use assms(2,3) eats_after in auto)

lemma unpack_typed_ends:
  assumes "reads s seed f up" and r: "roomy s (rb, g)" and "heap_room g (Suc (nat (r_len rb)))" and "nat (r_len rb) < f"
  shows "wp (unpack_typed f up seed x (rb, g)) (seri_err s) (\<lambda>(v, st'). after s seed (rb, g) st' \<and> (\<forall>k. v \<noteq> Some (LDead k)))"
proof -
  let ?Q = "\<lambda>(v, st'). after s seed (rb, g) st' \<and> (\<forall>k. v \<noteq> Some (LDead k))"
  let ?c = "unat (drop_bit 3 x)"
  have "?c < 2 ^ LENGTH(8)" by (rule unsigned_less)
  then have c: "?c < 2 ^ 31" by simp
  note snd = roomy_sound [OF r]
  have here: "after s seed (rb, g) (rb, g)" using r by (rule eats_after) (simp add: snd)
  have long: "wp (ebind (if ?c = 2
                 then ebind (read_or_fail rb 2) (\<lambda>(bs, rb). Inr (uint (le_word bs :: 16 word), rb))
                 else if ?c \<noteq> 4 then invalid_stream
                 else ebind (read_or_fail rb 4) (\<lambda>(bs, rb). Inr (sint (le_word bs :: u32), rb)))
            (\<lambda>(len, rb). ebind (get_buffer rb len) (\<lambda>(s, rb). Inr (Some (LStr s), (rb, g))))) (seri_err s) ?Q"
  proof (rule wp_bind [where P = "\<lambda>(_, rb'). eats s rb rb'"])
    show "wp (if ?c = 2
                 then ebind (read_or_fail rb 2) (\<lambda>(bs, rb). Inr (uint (le_word bs :: 16 word), rb))
                 else if ?c \<noteq> 4 then invalid_stream
                 else ebind (read_or_fail rb 4) (\<lambda>(bs, rb). Inr (sint (le_word bs :: u32), rb))) (seri_err s) (\<lambda>(_, rb'). eats s rb rb')"
      by (simp add: read_map_ends invalid_stream_def snd)
    fix y :: "int \<times> read_block" assume y: "case y of (_, rb') \<Rightarrow> eats s rb rb'"
    show "wp (case y of (len, rb) \<Rightarrow> ebind (get_buffer rb len) (\<lambda>(s, rb). Inr (Some (LStr s), rb, g))) (seri_err s) ?Q"
    proof (cases y)
      case (Pair len rb1)
      have e: "eats s rb rb1" using y Pair by simp
      show ?thesis unfolding Pair prod.case
        by (rule wp_mono [OF push_scalar_ends [OF get_buffer_ends [OF eats_sound [OF e]] roomy_eats [OF r e]]])
          (use e in \<open>auto simp: after_def eats_def\<close>)
    qed
  qed
  have tab: "wp (unpack_table f up seed ?c (rb, g)) (seri_err s) ?Q" by (rule unpack_table_ends [OF assms c])
  note scalar = push_scalar_ends [OF _ r, where seed = seed]
  show ?thesis
    unfolding unpack_typed_def push_value_def prod.case
    by (intro wp_if long tab scalar [OF get_real_ends [OF snd]] scalar [OF get_integer_ends [OF snd]] scalar [OF get_pointer_ends [OF snd]]
        scalar [OF get_buffer_ends [OF snd]]; (simp only: wp_Inr prod.case)?; use here in simp)
qed

lemma unpack_one_ends: "reads s seed f (unpack_one f seed)"
proof (induction f)
  case 0
  then show ?case by (simp add: reads_def)
next
  case (Suc f)
  show ?case
    unfolding reads_def
  proof (intro allI impI)
    fix st :: ustate assume r: "roomy s st" "nat (r_len (fst st)) < Suc f"
    obtain rb g where st: "st = (rb, g)" by (cases st)
    have "wp (ebind (read_or_fail rb 1) (\<lambda>(bs, rb). unpack_typed f (unpack_one f seed) seed (le_word bs) (rb, g))) (seri_err s)
      (\<lambda>(v, st'). after s seed st st' \<and> r_len (fst st') < r_len (fst st) \<and> (\<forall>k. v \<noteq> Some (LDead k)))"
    proof (rule wp_bind [OF read_or_fail_ends], simp, use r(1) st in \<open>simp add: roomy_def\<close>, clarify)
      fix bs rb1 assume t: "took s rb 1 rb1"
      have r1: "roomy s (rb1, g)" using r(1) unfolding st by (rule roomy_eats) (rule took_eats [OF t])
      have "Suc (nat (r_len rb1)) = nat (r_len rb)" using t by (auto simp: took_def)
      then have h: "heap_room g (Suc (nat (r_len rb1)))" "nat (r_len rb1) < f" using r unfolding st by (auto simp: roomy_def)
      show "wp (unpack_typed f (unpack_one f seed) seed (le_word bs) (rb1, g)) (seri_err s)
        (\<lambda>(v, st'). after s seed st st' \<and> r_len (fst st') < r_len (fst st) \<and> (\<forall>k. v \<noteq> Some (LDead k)))"
        by (rule wp_mono [OF unpack_typed_ends [OF Suc.IH r1 h]]) (use t in \<open>auto simp: st after_def took_def\<close>)
    qed
    then show "wp (unpack_one (Suc f) seed st) (seri_err s)
      (\<lambda>(v, st'). after s seed st st' \<and> r_len (fst st') < r_len (fst st) \<and> (\<forall>k. v \<noteq> Some (LDead k)))"
      by (simp add: st)
  qed
qed

lemma unpack_values_ends:
  assumes "r_len (fst st) < 0 \<and> heap_room (snd st) 0 \<or> roomy s st" and "nat (r_len (fst st)) < n" and "nat (r_len (fst st)) \<le> f"
  shows "wp (unpack_values n f seed st) (seri_err s) (\<lambda>(vs, st'). grown seed {} (snd st) (snd st') \<and> (\<forall>k. LDead k \<notin> set vs))"
  using assms
proof (induction n arbitrary: st)
  case (Suc n)
  obtain rb g where st: "st = (rb, g)" by (cases st)
  let ?Q = "\<lambda>(vs, st'). grown seed {} g (snd st') \<and> (\<forall>k. LDead k \<notin> set vs)"
  have here: "1 \<le> r_len rb \<Longrightarrow> sound s rb" using Suc.prems(1) by (auto simp: st roomy_def)
  have "wp (ebind (rb_read rb 1) (\<lambda>(bs, rb). case bs of
        None \<Rightarrow> Inr ([], (rb, g))
      | Some bs \<Rightarrow>
          ebind (unpack_typed f (unpack_one f seed) seed (le_word bs) (rb, g)) (\<lambda>(vo, st).
          ebind (unpack_values n f seed st) (\<lambda>(vs, st).
          Inr ((case vo of None \<Rightarrow> vs | Some v \<Rightarrow> v # vs), st))))) (seri_err s) ?Q"
  proof (rule wp_bind [OF rb_read_ends], erule here, clarify)
    fix bs :: "byte list option" and rb1
    assume r: "case bs of None \<Rightarrow> rb1 = rb \<and> r_len rb < 1
      | Some _ \<Rightarrow> 1 \<le> r_len rb \<and> r_len rb1 = r_len rb - 1 \<and> (0 \<le> (1 :: int) \<longrightarrow> sound s rb1)"
    show "wp (case bs of
        None \<Rightarrow> Inr ([], (rb1, g))
      | Some bs \<Rightarrow>
          ebind (unpack_typed f (unpack_one f seed) seed (le_word bs) (rb1, g)) (\<lambda>(vo, st).
          ebind (unpack_values n f seed st) (\<lambda>(vs, st).
          Inr ((case vo of None \<Rightarrow> vs | Some v \<Rightarrow> v # vs), st)))) (seri_err s) ?Q"
    proof (cases bs)
      case (Some xs)
      have t: "took s rb 1 rb1" using r Some by (simp add: took_def)
      have "roomy s (rb, g)" using Suc.prems(1) t by (simp add: st took_def)
      then have r1: "roomy s (rb1, g)" "heap_room g (Suc (nat (r_len rb1)))"
        using t roomy_eats [OF _ took_eats [OF t]] by (auto simp: roomy_def took_def nat_diff_distrib')
      have len: "nat (r_len rb1) < f" using Suc.prems(3) t by (auto simp: took_def st)
      show ?thesis
        unfolding Some option.case
      proof (rule wp_bind [OF unpack_typed_ends [OF unpack_one_ends r1 len]], clarify)
        fix vo rb2 g2 assume v: "after s seed (rb1, g) (rb2, g2)" "\<forall>k. vo \<noteq> Some (LDead k)"
        have r2: "roomy s (rb2, g2)" "r_len rb2 < r_len rb" "grown seed {} g g2"
          using v(1) t by (auto simp: after_def took_def)
        have "wp (unpack_values n f seed (rb2, g2)) (seri_err s)
          (\<lambda>(vs, st'). grown seed {} (snd (rb2, g2)) (snd st') \<and> (\<forall>k. LDead k \<notin> set vs))"
          by (rule Suc.IH) (use r2 Suc.prems(2,3) in \<open>auto simp: st roomy_def\<close>)
        then show "wp (ebind (unpack_values n f seed (rb2, g2)) (\<lambda>(vs, st).
            Inr ((case vo of None \<Rightarrow> vs | Some v \<Rightarrow> v # vs), st))) (seri_err s) ?Q"
          by (rule wp_bind) (use v(2) grown_trans [OF r2(3)] in \<open>auto split: option.split\<close>)
      qed
    qed simp
  qed
  then show ?case by (simp add: st)
qed simp

lemma seri_unpack_any:
  assumes room: "heap_room g (2 ^ 27)" and len: "\<And>rb. rb_init chain = Inr rb \<Longrightarrow> r_len rb < 2 ^ 27 \<and> sound s rb"
    and init: "wp (rb_init chain) (seri_err s) (\<lambda>_. True)"
  shows "wp (seri_unpack seed g chain) (seri_err s) (\<lambda>(vs, g'). grown seed {} g g' \<and> (\<forall>k. LDead k \<notin> set vs))"
proof (cases "chain = []")
  case False
  show ?thesis
    unfolding seri_unpack_def if_not_P [OF False] Let_def
  proof (rule wp_bind [OF init])
    fix rb assume "rb_init chain = Inr rb"
    then have small: "r_len rb < 2 ^ 27" "sound s rb" using len by simp_all
    have "wp (unpack_values (Suc (nat (r_len rb))) (Suc (nat (r_len rb))) seed (rb, g)) (seri_err s)
      (\<lambda>(vs, st'). grown seed {} (snd (rb, g)) (snd st') \<and> (\<forall>k. LDead k \<notin> set vs))"
      by (rule unpack_values_ends)
        (use small heap_room_mono [OF room, of 0] heap_room_mono [OF room, of "nat (r_len rb)"] in \<open>auto simp: roomy_def\<close>)
    then show "wp (ebind (unpack_values (Suc (nat (r_len rb))) (Suc (nat (r_len rb))) seed (rb, g))
      (\<lambda>(vs, rb, h). Inr (vs, h))) (seri_err s) (\<lambda>(vs, g'). grown seed {} g g' \<and> (\<forall>k. LDead k \<notin> set vs))"
      by (rule wp_bind) auto
  qed
qed (simp add: seri_unpack_def)

text \<open>On a chain of any shape the call still ends, and no read outside of it makes it loop.\<close>

lemma seri_unpack_returns:
  assumes "heap_room g (2 ^ 27)" and "\<And>rb. rb_init chain = Inr rb \<Longrightarrow> r_len rb < 2 ^ 27"
  shows "seri_unpack seed g chain \<noteq> Inl NoReturn"
proof -
  have "wp (rb_init chain) (seri_err False) (\<lambda>_. True)"
    unfolding rb_init_def by (intro wp_bind [OF blk_cells_ends] wp_bind [OF cells_bytes_ends]) simp
  then have "wp (seri_unpack seed g chain) (seri_err False) (\<lambda>(vs, g'). grown seed {} g g' \<and> (\<forall>k. LDead k \<notin> set vs))"
    using assms by (intro seri_unpack_any) auto
  then show ?thesis by (auto simp: wp_def seri_err_def split: sum.splits)
qed

text \<open>C12:
  Unpacking ends on every data, written by a packer or not.  Given a chain of full blocks that holds
  the bytes its length field promises, any bytes of less than \<open>2 ^ 27\<close>, the call returns, raises a
  Lua error, or makes one of exactly three invalid steps, for which the code lacks a check: a string whose length
  exceeds the data left (it is copied from a null pointer) or is \<open>-1\<close> (it is copied from behind
  the data), and a tag 7 inside a table (the stack lacks a value).  It does not loop and does not read
  outside the chain.  When it returns, the tables the receiving state had before are unchanged
  and every new table is well formed, whatever the bytes were.  (The stacks of Lua and C are taken to
  have room for the nesting of the data.)
\<close>

theorem seri_unpack_ends:
  assumes "heap_room g (2 ^ 27)" and "rb_init chain = Inr rb" and "rb_ok rb bs" and "length bs < 2 ^ 27"
  shows "case seri_unpack seed g chain of
      Inl e \<Rightarrow> (\<exists>msg. e = RunError msg) \<or> e = MemFault ''lua_pushlstring from NULL'' \<or>
        e = MemFault ''lua_pushlstring from behind the data'' \<or> e = MemFault ''nothing pushed''
    | Inr (vs, g') \<Rightarrow> h_tab g \<subseteq>\<^sub>m h_tab g' \<and>
        (\<forall>p t. p \<notin> dom (h_tab g) \<longrightarrow> h_tab g' p = Some t \<longrightarrow> tab_ok seed t)"
proof -
  have "r_len rb < 2 ^ 27" "sound True rb" using assms(3,4) by (auto simp: rb_ok_def sound_def)
  then have "wp (seri_unpack seed g chain) (seri_err True) (\<lambda>(vs, g'). grown seed {} g g' \<and> (\<forall>k. LDead k \<notin> set vs))"
    using assms(1,2) by (intro seri_unpack_any) auto
  then show ?thesis by (auto simp: wp_def seri_err_def grown_def heap_ext_def split: sum.splits)
qed

text \<open>A table whose element has the tag 7.\<close>

lemma seri_unpack_ends_witness:
  "case seri_unpack 7 \<lparr>h_tab = Map.empty, h_next = 1\<rparr> [map Some [6, 0, 0, 0, 14, 7] @ replicate 122 None] of
      Inl e \<Rightarrow> (\<exists>msg. e = RunError msg) \<or> e = MemFault ''lua_pushlstring from NULL'' \<or>
        e = MemFault ''lua_pushlstring from behind the data'' \<or> e = MemFault ''nothing pushed''
    | Inr (vs, g') \<Rightarrow> \<forall>p t. h_tab g' p = Some t \<longrightarrow> tab_ok 7 t"
proof -
  let ?g = "\<lparr>h_tab = Map.empty, h_next = 1\<rparr> :: heap" and ?c = "[map Some [6, 0, 0, 0, 14, 7] @ replicate 122 None] :: block list"
  have "heap_room ?g (2 ^ 27)" by (simp add: heap_room_def)
  moreover have "rb_init ?c = Inr \<lparr>r_buffer = None, r_current = ?c, r_len = 2, r_ptr = 4\<rparr>"
    by (simp add: rb_init_def blk_cells_def cells_bytes_def bytes_int_def)
  moreover have "rb_ok \<lparr>r_buffer = None, r_current = ?c, r_len = 2, r_ptr = 4\<rparr> [14, 7]"
    by (simp add: rb_ok_def)
  moreover have "length [14, 7 :: byte] < 2 ^ 27" by simp
  ultimately have "case seri_unpack 7 ?g ?c of
      Inl e \<Rightarrow> (\<exists>msg. e = RunError msg) \<or> e = MemFault ''lua_pushlstring from NULL'' \<or>
        e = MemFault ''lua_pushlstring from behind the data'' \<or> e = MemFault ''nothing pushed''
    | Inr (vs, g') \<Rightarrow> h_tab ?g \<subseteq>\<^sub>m h_tab g' \<and>
        (\<forall>p t. p \<notin> dom (h_tab ?g) \<longrightarrow> h_tab g' p = Some t \<longrightarrow> tab_ok 7 t)"
    by (rule seri_unpack_ends)
  then show ?thesis by (cases "seri_unpack 7 ?g ?c") auto
qed

section \<open>What packing accepts\<close>

text \<open>
  \<open>storable d h v\<close>: \<open>v\<close> has only types of the format and its tables nest less than \<open>d\<close> deep,
  their keys and values included.
\<close>

primrec storable :: "nat \<Rightarrow> heap \<Rightarrow> tvalue \<Rightarrow> bool" where
  "storable 0 h v = False"
| "storable (Suc d) h v =
     (case v of
        LNil \<Rightarrow> True | LInt i \<Rightarrow> True | LFlt f \<Rightarrow> True | LBool b \<Rightarrow> True | LLight p \<Rightarrow> True | LStr s \<Rightarrow> True
      | LTab p \<Rightarrow> (\<exists>t. h_tab h p = Some t \<and>
          (\<forall>k. tab_map t k \<noteq> LNil \<longrightarrow> storable d h k \<and> storable d h (tab_map t k)))
      | _ \<Rightarrow> False)"

text \<open>A heap without dangling references, whose tables are well formed and not huge.\<close>

definition refers :: "heap \<Rightarrow> tvalue \<Rightarrow> bool" where
  "refers h v \<longleftrightarrow> (\<forall>p. v = LTab p \<longrightarrow> p \<in> dom (h_tab h))"

definition heap_closed :: "u32 \<Rightarrow> heap \<Rightarrow> bool" where
  "heap_closed seed h \<longleftrightarrow> (\<forall>p t. h_tab h p = Some t \<longrightarrow> tab_ok seed t \<and> no_stale t \<and> table_fits t \<and>
     (\<forall>k. tab_map t k \<noteq> LNil \<longrightarrow> refers h k \<and> refers h (tab_map t k)))"

definition verdict :: "bool \<Rightarrow> 'a res \<Rightarrow> bool" where
  "verdict c m \<longleftrightarrow> (if c then \<exists>x. m = Inr x else \<exists>msg. m = Inl (RunError msg))"

lemma verdict_Inr [simp]: "verdict True (Inr x)"
  by (simp add: verdict_def)

lemma verdict_ebind: "verdict c m \<Longrightarrow> (\<And>x. m = Inr x \<Longrightarrow> verdict c' (f x)) \<Longrightarrow> verdict (c \<and> c') (ebind m f)"
  by (auto simp: verdict_def split: if_splits)

lemma verdict_efold:
  "(\<And>x s. x \<in> set xs \<Longrightarrow> verdict (c x) (f x s)) \<Longrightarrow> verdict (\<forall>x \<in> set xs. c x) (efold f xs s)"
proof (induction xs arbitrary: s)
  case (Cons x xs)
  have "verdict (c x \<and> (\<forall>x \<in> set xs. c x)) (ebind (f x s) (efold f xs))"
    using Cons.prems by (intro verdict_ebind Cons.IH) auto
  then show ?case by simp
qed simp

lemma array_storable:
  assumes all: "\<And>k. tab_map t k \<noteq> LNil \<Longrightarrow> storable d h k \<and> storable d h (tab_map t k)"
    and n: "is_boundary (\<lambda>i. tab_map t (LInt (of_nat i))) n" and i: "i \<in> set [1..<Suc n]"
  shows "storable d h (tab_map t (LInt (of_nat i)))"
proof (cases "tab_map t (LInt (of_nat i)) = LNil")
  case True
  have "tab_map t (LInt (of_nat n)) \<noteq> LNil" using i n by (auto simp: is_boundary_def)
  then have "storable d h (LInt (of_nat n))" using all by blast
  then show ?thesis unfolding True by (cases d) simp_all
qed (use all in blast)

lemma table_verdict:
  assumes t: "tab_ok seed t" "no_stale t" "table_fits t"
    and elem: "\<And>k b. tab_map t k \<noteq> LNil \<Longrightarrow> verdict (storable d h k) (pack_one d seed h k b) \<and>
      verdict (storable d h (tab_map t k)) (pack_one d seed h (tab_map t k) b)"
  shows "verdict (\<forall>k. tab_map t k \<noteq> LNil \<longrightarrow> storable d h k \<and> storable d h (tab_map t k))
    (wb_table (pack_one d seed h) seed t b)"
proof -
  obtain n where n: "luaH_getn t = Inr n" "is_boundary (\<lambda>i. tab_map t (LInt (of_nat i))) n"
    using getn_finds [OF t(1)] by blast
  have n27: "n < 2 ^ 27" using n(1) t(3) by (simp add: table_fits_def)
  let ?C = "filter live_cell (cells t)"
  let ?arr = "\<forall>i \<in> set [1..<Suc n]. storable d h (tab_map t (LInt (of_nat i)))"
  let ?hash = "\<forall>x \<in> set ?C. (case x of (k, v) \<Rightarrow> skip_key n k \<or> storable d h k \<and> storable d h v)"
  have nil: "verdict (storable d h LNil) (pack_one d seed h LNil b)" for b by (cases d) (simp_all add: verdict_def)
  have get: "rawgeti t (of_nat i) = Inr (tab_map t (LInt (of_nat i)))" for i
    using getint_val_map [OF t(1), of i] by (simp add: getint_val_def)
  have arr: "verdict ?arr (efold (\<lambda>i b. ebind (rawgeti t (of_nat i)) (\<lambda>v. pack_one d seed h v b)) [1..<Suc n] b)" for b
  proof (rule verdict_efold)
    fix i s
    show "verdict (storable d h (tab_map t (LInt (of_nat i)))) (ebind (rawgeti t (of_nat i)) (\<lambda>v. pack_one d seed h v s))"
      unfolding get ebind_Inr by (cases "tab_map t (LInt (of_nat i)) = LNil") (simp only: nil, use elem in blast)
  qed
  have hash: "verdict ?hash (efold (\<lambda>(k, v) b. if skip_key n k then Inr b
        else ebind (pack_one d seed h k b) (pack_one d seed h v)) ?C b)" for b
  proof (rule verdict_efold, clarify)
    fix k v s assume kv: "(k, v) \<in> set ?C"
    then have v: "tab_map t k = v" "v \<noteq> LNil" unfolding cells_entries(2) [OF t(1)] by auto
    have "verdict (storable d h k \<and> storable d h v) (ebind (pack_one d seed h k s) (pack_one d seed h v))"
      using elem [of k] v by (intro verdict_ebind) auto
    then show "verdict (skip_key n k \<or> storable d h k \<and> storable d h v)
      (if skip_key n k then Inr s else ebind (pack_one d seed h k s) (pack_one d seed h v))" by simp
  qed
  have "verdict (?arr \<and> ?hash) (wb_table (pack_one d seed h) seed t b)"
  proof -
    have "verdict (?hash \<and> True) (wb_table_hash (pack_one d seed h) seed t n b)" for b
      unfolding wb_table_hash_def next_loop_all [OF t(1,2)] by (rule verdict_ebind [OF hash]) simp
    moreover have "verdict (?arr \<and> True) (wb_table_array (pack_one d seed h) t b)"
      unfolding wb_table_array_def n(1) ebind_Inr Let_def by (rule verdict_ebind [OF arr]) simp
    moreover have "\<exists>b'. m = (n, b')" if "wb_table_array (pack_one d seed h) t b = Inr m" for m
      using that by (auto simp: wb_table_array_def n(1) ebind_eq_Inr Let_def simp del: upt_Suc)
    ultimately have "verdict ((?arr \<and> True) \<and> ?hash \<and> True) (wb_table (pack_one d seed h) seed t b)"
      unfolding wb_table_def by (intro verdict_ebind) (auto split: prod.split simp del: upt_Suc)
    then show ?thesis by (simp only: simp_thms)
  qed
  moreover have "?arr \<and> ?hash \<longleftrightarrow> (\<forall>k. tab_map t k \<noteq> LNil \<longrightarrow> storable d h k \<and> storable d h (tab_map t k))"
  proof (intro iffI allI impI)
    assume a: "?arr \<and> ?hash"
    fix k assume k: "tab_map t k \<noteq> LNil"
    show "storable d h k \<and> storable d h (tab_map t k)"
    proof (cases "skip_key n k")
      case True
      then obtain i where i: "1 \<le> i" "i \<le> n" "k = LInt (of_nat i)"
        using skip_key_iff [OF live_keys_canonical [OF t(1) k] n27] by blast
      then have "storable d h (tab_map t k)" using a by auto
      then show ?thesis using i(3) by (cases d) simp_all
    next
      case False
      have "(k, tab_map t k) \<in> set ?C" unfolding cells_entries(2) [OF t(1)] using k by simp
      then show ?thesis using a False by blast
    qed
  next
    assume "\<forall>k. tab_map t k \<noteq> LNil \<longrightarrow> storable d h k \<and> storable d h (tab_map t k)"
    then show "?arr \<and> ?hash" using array_storable [OF _ n(2)] unfolding cells_entries(2) [OF t(1)] by blast
  qed
  ultimately show ?thesis by simp
qed

lemma pack_one_verdict:
  assumes "heap_closed seed h" and "refers h v"
  shows "verdict (storable d h v) (pack_one d seed h v b)"
  using assms(2)
proof (induction d arbitrary: v b)
  case 0
  then show ?case by (simp add: verdict_def)
next
  case (Suc d)
  show ?case
  proof (cases "\<exists>p. v = LTab p")
    case True
    then obtain p t where p: "v = LTab p" "h_tab h p = Some t" using Suc.prems by (auto simp: refers_def)
    then have t: "tab_ok seed t" "no_stale t" "table_fits t"
      "tab_map t k \<noteq> LNil \<Longrightarrow> refers h k \<and> refers h (tab_map t k)" for k
      using assms(1) by (simp_all add: heap_closed_def)
    have "verdict (\<forall>k. tab_map t k \<noteq> LNil \<longrightarrow> storable d h k \<and> storable d h (tab_map t k))
        (wb_table (pack_one d seed h) seed t b)"
      by (rule table_verdict [OF t(1-3)]) (use t(4) Suc.IH in blast)
    then show ?thesis using p by (simp add: h_get_def)
  next
    case False
    then show ?thesis by (cases v) (simp_all add: verdict_def)
  qed
qed

lemma seri_pack_decides:
  assumes "heap_closed seed h" and "\<And>v. v \<in> set vs \<Longrightarrow> refers h v"
  shows "verdict (\<forall>v \<in> set vs. storable (MAX_DEPTH + 1) h v) (seri_pack seed h vs)"
proof -
  obtain b where b: "wb_init None = Inr b" using wb_init_holds by blast
  have "verdict (\<forall>v \<in> set vs. storable (MAX_DEPTH + 1) h v) (pack_from seed h vs b)"
    unfolding pack_from_def by (rule verdict_efold) (rule pack_one_verdict [OF assms(1)], rule assms(2))
  then have "verdict ((\<forall>v \<in> set vs. storable (MAX_DEPTH + 1) h v) \<and> True)
      (ebind (pack_from seed h vs b) (\<lambda>b. Inr (wb_close b)))"
    by (rule verdict_ebind) simp
  then show ?thesis by (simp add: seri_pack_def b)
qed

text \<open>C17:
  Packing ends on every list of values and accepts exactly those whose tables nest at most 32
  deep and which contain, keys included, only nil, booleans, numbers, strings, light userdata
  and tables.  On anything else it raises a Lua error.
\<close>

theorem seri_pack_accepts:
  assumes "heap_closed seed h" and "\<And>v. v \<in> set vs \<Longrightarrow> refers h v"
  shows "if \<forall>v \<in> set vs. storable (MAX_DEPTH + 1) h v then \<exists>chain. seri_pack seed h vs = Inr chain
    else \<exists>msg. seri_pack seed h vs = Inl (RunError msg)"
  using seri_pack_decides [OF assms] by (simp add: verdict_def)

text \<open>A table that contains itself, directly or through other tables, as a key or a value.\<close>

definition contains :: "heap \<Rightarrow> (u64 \<times> u64) set" where
  "contains h = {(p, q). \<exists>t k. h_tab h p = Some t \<and> tab_map t k \<noteq> LNil \<and> (k = LTab q \<or> tab_map t k = LTab q)}"

lemma storable_contained:
  assumes "storable d h (LTab p)" and "(p, q) \<in> contains h"
  shows "\<exists>d' < d. storable d' h (LTab q)"
proof -
  obtain d' where d: "d = Suc d'" using assms(1) by (cases d) auto
  obtain t k where t: "h_tab h p = Some t" "tab_map t k \<noteq> LNil" "k = LTab q \<or> tab_map t k = LTab q"
    using assms(2) by (auto simp: contains_def)
  then have "storable d' h k \<and> storable d' h (tab_map t k)" using assms(1) unfolding d by simp
  then have "storable d' h (LTab q)" using t(3) by auto
  then show ?thesis unfolding d by blast
qed

lemma storable_inside:
  "(p, q) \<in> (contains h)\<^sup>+ \<Longrightarrow> storable d h (LTab p) \<Longrightarrow> \<exists>d' < d. storable d' h (LTab q)"
proof (induction rule: trancl_induct)
  case (base q)
  then show ?case using storable_contained by blast
next
  case (step q r)
  then show ?case using storable_contained less_trans by blast
qed

lemma cyclic_not_storable: "(p, p) \<in> (contains h)\<^sup>+ \<Longrightarrow> \<not> storable d h (LTab p)"
proof (induction d rule: less_induct)
  case (less d)
  then show ?case using storable_inside by blast
qed

text \<open>
  Packing a cyclic table ends with an error: the depth limit stops the recursion.
\<close>

theorem seri_pack_cyclic:
  assumes "heap_closed seed h" and "(p, p) \<in> (contains h)\<^sup>+" and "p \<in> dom (h_tab h)"
  shows "\<exists>msg. seri_pack seed h [LTab p] = Inl (RunError msg)"
  using seri_pack_decides [OF assms(1), of "[LTab p]"] cyclic_not_storable [OF assms(2)] assms(3)
  by (simp add: verdict_def refers_def)

text \<open>A heap with one table that holds itself, and one without tables.\<close>

lemma seri_pack_accepts_witness:
  "\<exists>msg. seri_pack 7 \<lparr>h_tab = Map.empty, h_next = 1\<rparr> [LInt 1, LUdata 5] = Inl (RunError msg)"
proof -
  let ?h = "\<lparr>h_tab = Map.empty, h_next = 1\<rparr> :: heap"
  have "heap_closed 7 ?h" by (simp add: heap_closed_def)
  moreover have "refers ?h v" if "v \<in> set [LInt 1, LUdata 5]" for v using that by (auto simp: refers_def)
  moreover have "\<not> storable (MAX_DEPTH + 1) ?h (LUdata 5)" unfolding Suc_eq_plus1 [symmetric] storable.simps(2) by simp
  ultimately show ?thesis using seri_pack_accepts [of 7 ?h "[LInt 1, LUdata 5]"] by simp
qed

lemma seri_pack_cyclic_witness:
  "\<exists>msg. seri_pack 7 \<lparr>h_tab = [1 \<mapsto> luaH_new\<lparr>t_array := [LTab 1]\<rparr>], h_next = 2\<rparr> [LTab 1] = Inl (RunError msg)"
proof -
  let ?t = "luaH_new\<lparr>t_array := [LTab 1]\<rparr>"
  let ?h = "\<lparr>h_tab = [1 \<mapsto> ?t], h_next = 2\<rparr> :: heap"
  have "createtable 7 1 0 = Inr (luaH_new\<lparr>t_array := [LNil]\<rparr>)"
    by (simp add: createtable_def luaH_resize_def luaH_resize_with_def luaH_new_def setnodevector_def
        setarrayvector_def reinsert_node_def dummynode_def Let_def)
  then have "tab_ok 7 (luaH_new\<lparr>t_array := [LNil]\<rparr>)" "tab_map (luaH_new\<lparr>t_array := [LNil]\<rparr>) = (\<lambda>k. LNil)"
    using createtable_ok [of 1 7] by auto
  moreover have "rawseti 7 (luaH_new\<lparr>t_array := [LNil]\<rparr>) (of_nat 1) (LTab 1) = Inr ?t"
    by (simp add: rawseti_def luaH_setint_def luaH_setint_with_def luaH_getint_def set_slot_def)
  ultimately have t: "tab_ok 7 ?t" "tab_map ?t = (\<lambda>k. LNil)(LInt 1 := LTab 1)"
    using rawseti_map [of 7 "luaH_new\<lparr>t_array := [LNil]\<rparr>" 1 "LTab 1"] by auto
  have "no_stale ?t" by (simp add: no_stale_def luaH_new_def dummynode_def)
  moreover have "table_fits ?t"
    by (simp add: table_fits_def luaH_getn_def luaH_new_def entry_count_def array_keys_def live_def dummynode_def)
  ultimately have "heap_closed 7 ?h" using t by (auto simp: heap_closed_def refers_def)
  moreover have "(1, 1) \<in> (contains ?h)\<^sup>+" by (rule r_into_trancl) (use t(2) in \<open>auto simp: contains_def\<close>)
  ultimately show ?thesis using seri_pack_cyclic [of 7 ?h 1] by simp
qed

end
