(* ===== verification/Lua_Bit32.thy ===== *)
theory Lua_Bit32
  imports Prelude
begin

text \<open>
  \<open>lbitlib.c\<close>: the library \<open>bit32\<close>, which computes on 32 bits inside 64-bit \<open>lua_Unsigned\<close>
  values.  The arguments are the values \<open>luaL_checkunsigned\<close> and \<open>luaL_checkinteger\<close> deliver;
  an optional argument that is absent is \<open>None\<close>.  The theorems compare every function with
  the operation of a 32-bit machine.
\<close>

section \<open>The functions\<close>

abbreviation (input) LUA_NBITS :: nat where "LUA_NBITS \<equiv> 32"

definition ALLONES :: u64 where
  "ALLONES = NOT (push_bit 1 (push_bit (LUA_NBITS - 1) (NOT 0)))"

definition trim :: "u64 \<Rightarrow> u64" where
  "trim x = x AND ALLONES"

definition mask_ones :: "nat \<Rightarrow> u64" where
  "mask_ones n = NOT (push_bit (n - 1) (push_bit 1 ALLONES))"

definition andaux :: "u64 list \<Rightarrow> u64" where
  "andaux args = trim (fold (\<lambda>a r. r AND a) args (NOT 0))"

definition b_and :: "u64 list \<Rightarrow> u64" where
  "b_and args = andaux args"

definition b_test :: "u64 list \<Rightarrow> bool" where
  "b_test args = (andaux args \<noteq> 0)"

definition b_or :: "u64 list \<Rightarrow> u64" where
  "b_or args = trim (fold (\<lambda>a r. r OR a) args 0)"

definition b_xor :: "u64 list \<Rightarrow> u64" where
  "b_xor args = trim (fold (\<lambda>a r. r XOR a) args 0)"

definition b_not :: "u64 \<Rightarrow> u64" where
  "b_not a = trim (NOT a)"

text \<open>\<open>-i\<close> on \<open>lua_Integer\<close>: undefined for the least integer.\<close>

definition neg_integer :: "u64 \<Rightarrow> u64 res" where
  "neg_integer i = (if sint i = - (2 ^ 63) then Inl (MemFault ''signed overflow'') else Inr (- i))"

definition b_shift :: "u64 \<Rightarrow> u64 \<Rightarrow> u64 res" where
  "b_shift r i =
     (if sint i < 0
      then ebind (neg_integer i) (\<lambda>i.
           let r = trim r in
           Inr (if LUA_NBITS \<le> nat (sint i) then 0 else drop_bit (nat (sint i)) r))
      else let r = (if LUA_NBITS \<le> nat (sint i) then 0 else push_bit (nat (sint i)) r)
           in Inr (trim r))"

definition b_lshift :: "u64 \<Rightarrow> u64 \<Rightarrow> u64 res" where
  "b_lshift r i = b_shift r i"

definition b_rshift :: "u64 \<Rightarrow> u64 \<Rightarrow> u64 res" where
  "b_rshift r i = ebind (neg_integer i) (b_shift r)"

definition b_arshift :: "u64 \<Rightarrow> u64 \<Rightarrow> u64 res" where
  "b_arshift r i =
     (if sint i < 0 \<or> r AND push_bit (LUA_NBITS - 1) 1 = 0
      then ebind (neg_integer i) (b_shift r)
      else Inr (if LUA_NBITS \<le> nat (sint i) then ALLONES
                else trim (drop_bit (nat (sint i)) r OR NOT (drop_bit (nat (sint i)) (trim (NOT 0))))))"

definition b_rot :: "u64 \<Rightarrow> u64 \<Rightarrow> u64" where
  "b_rot r d =
     (let i = unat (d AND (of_nat LUA_NBITS - 1)); r = trim r;
          r = (if i \<noteq> 0 then push_bit i r OR drop_bit (LUA_NBITS - i) r else r)
      in trim r)"

definition b_lrot :: "u64 \<Rightarrow> u64 \<Rightarrow> u64" where
  "b_lrot r d = b_rot r d"

definition b_rrot :: "u64 \<Rightarrow> u64 \<Rightarrow> u64 res" where
  "b_rrot r d = ebind (neg_integer d) (\<lambda>d. Inr (b_rot r d))"

text \<open>
  \<open>fieldargs\<close>: the field and its width as \<open>int\<close>.  \<open>f + w\<close> does not overflow for the fields
  that the library is given; where it does, C leaves the result undefined.
\<close>

definition fieldargs :: "nat \<Rightarrow> u64 \<Rightarrow> u64 option \<Rightarrow> (nat \<times> nat) res" where
  "fieldargs farg f w =
     (let w = (case w of None \<Rightarrow> 1 | Some w \<Rightarrow> w) in
      ebind (guard_or (0 \<le> sint f) (ArgError farg ''field cannot be negative'')) (\<lambda>_.
      ebind (guard_or (0 < sint w) (ArgError (farg + 1) ''width must be positive'')) (\<lambda>_.
      if 2 ^ 63 \<le> sint f + sint w then Inl (MemFault ''signed overflow'')
      else if int LUA_NBITS < sint f + sint w then Inl (RunError ''trying to access non-existent bits'')
      else Inr (nat (sint f), nat (sint w)))))"

definition b_extract :: "u64 \<Rightarrow> u64 \<Rightarrow> u64 option \<Rightarrow> u64 res" where
  "b_extract r f w =
     (let r = trim r in
      ebind (fieldargs 2 f w) (\<lambda>(f, w). Inr (drop_bit f r AND mask_ones w)))"

text \<open>In \<open>b_replace\<close> the mask is an \<open>int\<close>, which the bitwise operators extend by its sign.\<close>

definition b_replace :: "u64 \<Rightarrow> u64 \<Rightarrow> u64 \<Rightarrow> u64 option \<Rightarrow> u64 res" where
  "b_replace r v f w =
     (let r = trim r in
      ebind (fieldargs 3 f w) (\<lambda>(f, w).
      let m = ucast (mask_ones w) :: u32;
          v = v AND scast m
      in Inr ((r AND scast (NOT (push_bit f m))) OR push_bit f v)))"

section \<open>Bits of the masks\<close>

lemma bit_ALLONES [bit_simps]: "bit ALLONES n \<longleftrightarrow> n < 32"
proof -
  show ?thesis unfolding ALLONES_def bit_not_iff bit_push_bit_iff by auto
qed

lemma bit_trim [bit_simps]: "bit (trim x) n \<longleftrightarrow> bit x n \<and> n < 32"
  by (simp add: trim_def bit_simps)

lemma trim_ucast: "trim x = ucast (ucast x :: u32)"
  by (rule bit_word_eqI) (auto simp: bit_simps)

lemma bit_mask_ones [bit_simps]:
  "0 < w \<Longrightarrow> w \<le> 32 \<Longrightarrow> bit (mask_ones w) n \<longleftrightarrow> n < 64 \<and> (n < w \<or> w + 32 \<le> n)"
  unfolding mask_ones_def bit_not_iff bit_push_bit_iff by (auto simp: bit_simps)

lemma ucast_up_down: "(ucast (ucast (w :: u32) :: u64) :: u32) = w"
  by (rule bit_word_eqI) (simp add: bit_simps)

lemma ucast_up_eq: "(ucast (v :: u32) :: u64) = ucast w \<longleftrightarrow> v = w"
  using ucast_up_down by metis

section \<open>Logic\<close>

lemma trim_fold:
  assumes "\<And>x y. trim (f x y) = ucast (g (ucast x) (ucast y) :: u32)"
  shows "trim (fold (\<lambda>a r. f r a) args r) = ucast (fold (\<lambda>a r. g r a) (map ucast args) (ucast r) :: u32)"
proof (induction args arbitrary: r)
  case (Cons a args)
  have "(ucast (f r a) :: u32) = g (ucast r) (ucast a)"
  proof -
    have "(ucast (ucast (f r a) :: u32) :: u64) = ucast (g (ucast r) (ucast a))"
      using assms [of r a] by (simp only: trim_ucast)
    then show ?thesis by (simp only: ucast_up_eq)
  qed
  then show ?case using Cons by simp
qed (simp add: trim_ucast)

lemma logic_words:
  "trim (x AND y) = ucast (ucast x AND ucast y :: u32)" "trim (x OR y) = ucast (ucast x OR ucast y :: u32)"
  "trim (x XOR y) = ucast (ucast x XOR ucast y :: u32)"
  by (rule bit_word_eqI, auto simp: bit_simps)+

lemma logic_spec:
  "b_and args = ucast (fold (\<lambda>a r. r AND a) (map ucast args) (- 1) :: u32)"
  "b_or args = ucast (fold (\<lambda>a r. r OR a) (map ucast args) 0 :: u32)"
  "b_xor args = ucast (fold (\<lambda>a r. r XOR a) (map ucast args) 0 :: u32)"
  "b_not a = ucast (NOT (ucast a) :: u32)"
  "b_test args \<longleftrightarrow> fold (\<lambda>a r. r AND a) (map ucast args) (- 1) \<noteq> (0 :: u32)"
proof -
  have all: "(ucast (- 1 :: u64) :: u32) = - 1" by (rule bit_word_eqI) (simp add: bit_simps)
  show band: "b_and args = ucast (fold (\<lambda>a r. r AND a) (map ucast args) (- 1) :: u32)" for args
    unfolding b_and_def andaux_def using trim_fold [of "(AND)" "(AND)" args "NOT 0"] logic_words(1) all by simp
  show "b_or args = ucast (fold (\<lambda>a r. r OR a) (map ucast args) 0 :: u32)"
    unfolding b_or_def using trim_fold [of "(OR)" "(OR)" args 0] logic_words(2) by simp
  show "b_xor args = ucast (fold (\<lambda>a r. r XOR a) (map ucast args) 0 :: u32)"
    unfolding b_xor_def using trim_fold [of "(XOR)" "(XOR)" args 0] logic_words(3) by simp
  show "b_not a = ucast (NOT (ucast a) :: u32)"
    unfolding b_not_def by (rule bit_word_eqI) (auto simp: bit_simps)
  have "(ucast (w :: u32) :: u64) = 0 \<longleftrightarrow> w = 0" for w
    using ucast_up_eq [of w 0] by simp
  then show "b_test args \<longleftrightarrow> fold (\<lambda>a r. r AND a) (map ucast args) (- 1) \<noteq> (0 :: u32)"
    unfolding b_test_def using band [of args] by (simp add: b_and_def)
qed

text \<open>
  The logical functions of \<open>bit32\<close> compute what a 32-bit machine computes: on any number of
  arguments the result is the fold of AND, OR or XOR over their low 32 bits, with no bits above.
\<close>

theorem bit32_logic:
  "b_and args = ucast (fold (\<lambda>a r. r AND a) (map ucast args) (- 1) :: u32) \<and>
   b_or args = ucast (fold (\<lambda>a r. r OR a) (map ucast args) 0 :: u32) \<and>
   b_xor args = ucast (fold (\<lambda>a r. r XOR a) (map ucast args) 0 :: u32) \<and>
   b_not a = ucast (NOT (ucast a) :: u32) \<and>
   (b_test args \<longleftrightarrow> fold (\<lambda>a r. r AND a) (map ucast args) (- 1) \<noteq> (0 :: u32))"
  by (intro conjI logic_spec)

section \<open>Shifts\<close>

text \<open>What a shift by a signed distance does on 32 bits: left when positive, filling with zeros.\<close>

definition shift32 :: "u32 \<Rightarrow> int \<Rightarrow> u32" where
  "shift32 w i = (if 0 \<le> i then push_bit (nat i) w else drop_bit (nat (- i)) w)"

lemma sint_neg: "sint (i :: u64) \<noteq> - (2 ^ 63) \<Longrightarrow> neg_integer i = Inr (- i) \<and> sint (- i) = - sint i"
  using sint_range_size [of i] unfolding neg_integer_def
  by (simp add: word_size sint_word_ariths signed_take_bit_int_eq_self)

lemma b_shift_word:
  assumes "sint i \<noteq> - (2 ^ 63)"
  shows "b_shift r i = Inr (ucast (shift32 (ucast r) (sint i)))"
proof (cases "sint i < 0")
  case True
  have "nat (- sint i) \<ge> 32 \<Longrightarrow> drop_bit (nat (- sint i)) (ucast r :: u32) = 0"
    by (rule bit_word_eqI) (simp add: bit_simps)
  moreover have "drop_bit k (trim r) = ucast (drop_bit k (ucast r :: u32))" for k
    by (rule bit_word_eqI) (auto simp: bit_simps)
  ultimately show ?thesis
    using True sint_neg [OF assms] by (auto simp: b_shift_def shift32_def Let_def)
next
  case False
  have "trim (push_bit k r) = ucast (push_bit k (ucast r :: u32))" for k
    by (rule bit_word_eqI) (auto simp: bit_simps)
  moreover have "32 \<le> nat (sint i) \<Longrightarrow> push_bit (nat (sint i)) (ucast r :: u32) = 0"
    by (rule bit_word_eqI) (simp add: bit_simps)
  moreover have "trim 0 = 0" by (simp add: trim_def)
  ultimately show ?thesis using False by (auto simp: b_shift_def shift32_def Let_def)
qed

lemma sign_bit32: "r AND push_bit 31 1 = 0 \<longleftrightarrow> \<not> bit (ucast (r :: u64) :: u32) 31"
  unfolding push_bit_eq_mult mult_1 and_exp_eq_0_iff_not_bit by (simp add: bit_simps)

lemma b_arshift_word:
  assumes i: "sint i \<noteq> - (2 ^ 63)"
  shows "b_arshift r i = Inr (ucast (if 0 \<le> sint i then signed_drop_bit (nat (sint i)) (ucast r :: u32)
    else push_bit (nat (- sint i)) (ucast r)))"
proof (cases "sint i < 0 \<or> \<not> bit (ucast r :: u32) 31")
  case True
  have "b_arshift r i = Inr (ucast (shift32 (ucast r) (- sint i)))"
  proof -
    have "sint (- i) \<noteq> - (2 ^ 63)" using sint_neg [OF i] sint_range_size [of i] by (simp add: word_size)
    then show ?thesis using True sint_neg [OF i] sign_bit32 [of r]
      by (auto simp: b_arshift_def b_shift_word simp del: push_bit_of_1)
  qed
  moreover have "drop_bit k w = signed_drop_bit k w" if "\<not> bit w 31" for k and w :: u32
    by (rule bit_word_eqI) (use that in \<open>auto simp: bit_simps min_def dest: bit_imp_le_length\<close>)
  ultimately show ?thesis using True by (auto simp: shift32_def)
next
  case False
  have s: "ALLONES = ucast (signed_drop_bit k w)" if "bit w 31" "32 \<le> k" for k and w :: u32
    by (rule bit_word_eqI) (use that in \<open>auto simp: bit_simps min_def dest: bit_imp_le_length\<close>)
  have "trim (drop_bit k r OR NOT (drop_bit k (trim (NOT 0)))) = ucast (signed_drop_bit k (ucast r :: u32))" if "k < 32" for k
    by (rule bit_word_eqI) (use that False in \<open>auto simp: bit_simps min_def le_less\<close>)
  then show ?thesis
    using False s [of "ucast r" "nat (sint i)"] sign_bit32 [of r] by (auto simp: b_arshift_def simp del: push_bit_of_1)
qed

lemma b_rot_word: "b_rot r d = ucast (word_rotl (unat (d AND 31)) (ucast r :: u32))"
proof -
  let ?i = "unat (d AND 31)"
  have "?i < 32"
  proof -
    have "d AND 31 \<le> 31" by (rule word_and_le1)
    then show ?thesis by (simp add: word_le_nat_alt)
  qed
  moreover have "(n + 32 - i) mod 32 = (if i \<le> n then n - i else 32 + n - i)" if "n < 32" "i < 32" for n i :: nat
    using that by (auto simp: le_mod_geq mod_if)
  ultimately show ?thesis
    unfolding b_rot_def Let_def by (intro bit_word_eqI) (auto simp: bit_simps add.commute [of _ 32] split: if_splits)
qed

lemma shifts_spec:
  assumes "sint i \<noteq> - (2 ^ 63)"
  shows "b_lshift r i = Inr (ucast (shift32 (ucast r) (sint i)))"
    and "b_rshift r i = Inr (ucast (shift32 (ucast r) (- sint i)))"
    and "b_arshift r i = Inr (ucast (if 0 \<le> sint i then signed_drop_bit (nat (sint i)) (ucast r :: u32)
           else push_bit (nat (- sint i)) (ucast r)))"
    and "b_lrot r i = ucast (word_rotl (nat (sint i mod 32)) (ucast r :: u32))"
    and "b_rrot r i = Inr (ucast (word_rotr (nat (sint i mod 32)) (ucast r :: u32)))"
proof -
  have neg: "sint (- i) \<noteq> - (2 ^ 63)" using sint_neg [OF assms] sint_range_size [of i] by (simp add: word_size)
  show "b_lshift r i = Inr (ucast (shift32 (ucast r) (sint i)))"
    unfolding b_lshift_def by (rule b_shift_word [OF assms])
  show "b_rshift r i = Inr (ucast (shift32 (ucast r) (- sint i)))"
    using sint_neg [OF assms] b_shift_word [OF neg] by (simp add: b_rshift_def)
  show "b_arshift r i = Inr (ucast (if 0 \<le> sint i then signed_drop_bit (nat (sint i)) (ucast r :: u32)
           else push_bit (nat (- sint i)) (ucast r)))"
    by (rule b_arshift_word [OF assms])
  have low: "unat (d AND 31) = nat (sint d mod 32)" for d :: u64
  proof -
    have "d AND 31 = take_bit 5 d" by (simp add: take_bit_eq_mask mask_eq_decr_exp)
    then have "unat (d AND 31) = nat (take_bit 5 (uint d))" by (simp add: unat_eq_nat_uint unsigned_take_bit_eq)
    also have "take_bit 5 (uint d) = take_bit 5 (sint d)" by (simp add: sint_uint take_bit_signed_take_bit)
    finally show ?thesis by (simp add: take_bit_eq_mod)
  qed
  show "b_lrot r i = ucast (word_rotl (nat (sint i mod 32)) (ucast r :: u32))"
    unfolding b_lrot_def b_rot_word low ..
  have "word_rotl (nat (- sint i mod 32)) w = word_rotr (nat (sint i mod 32)) w" for w :: u32
  proof -
    have "nat (- sint i mod 32) = (if nat (sint i mod 32) = 0 then 0 else 32 - nat (sint i mod 32))"
      using zmod_zminus1_eq_if [of "sint i" 32] pos_mod_bound [of 32 "sint i"] pos_mod_sign [of 32 "sint i"]
      by (auto simp: nat_diff_distrib')
    moreover have "nat (sint i mod 32) < 32" using pos_mod_bound [of 32 "sint i"] by simp
    ultimately show ?thesis by (intro bit_word_eqI) (auto simp: bit_simps split: if_splits)
  qed
  then show "b_rrot r i = Inr (ucast (word_rotr (nat (sint i mod 32)) (ucast r :: u32)))"
    using sint_neg [OF assms] by (simp add: b_rrot_def b_rot_word low)
qed

text \<open>
  The shifts and rotations of \<open>bit32\<close> are those of a 32-bit machine, for any signed distance:
  the logical shifts fill with zeros in either direction, the arithmetic shift to the right
  copies the sign bit, and the rotations turn by the distance modulo 32.  The only distance
  excluded is the least integer, which the code negates.
\<close>

theorem bit32_shifts:
  assumes "sint i \<noteq> - (2 ^ 63)"
  shows "b_lshift r i = Inr (ucast (shift32 (ucast r) (sint i))) \<and>
    b_rshift r i = Inr (ucast (shift32 (ucast r) (- sint i))) \<and>
    b_arshift r i = Inr (ucast (if 0 \<le> sint i then signed_drop_bit (nat (sint i)) (ucast r :: u32)
           else push_bit (nat (- sint i)) (ucast r))) \<and>
    b_lrot r i = ucast (word_rotl (nat (sint i mod 32)) (ucast r :: u32)) \<and>
    b_rrot r i = Inr (ucast (word_rotr (nat (sint i mod 32)) (ucast r :: u32)))"
  by (intro conjI shifts_spec [OF assms])

section \<open>Fields\<close>

lemma fieldargs_ok:
  assumes "int f + int w \<le> 32" and "0 < w"
  shows "fieldargs k (of_nat f) (Some (of_nat w)) = Inr (f, w)"
proof -
  have "sint (of_nat n :: u64) = int n" if "n \<le> 32" for n
    using sint_word_of_int_range [of "int n", where 'a = 64] that by simp
  then show ?thesis using assms by (simp add: fieldargs_def)
qed

lemma bit_extract:
  assumes "f + w \<le> 32" and "0 < w"
  shows "bit (drop_bit f (trim r) AND mask_ones w) n \<longleftrightarrow> n < w \<and> bit r (f + n)"
  using assms by (auto simp: bit_simps dest: bit_imp_le_length)

lemma bit_mask_int:
  "0 < w \<Longrightarrow> w \<le> 32 \<Longrightarrow> bit (ucast (mask_ones w) :: u32) n \<longleftrightarrow> n < w"
  by (auto simp: bit_simps)

lemma bit_mask_signed:
  "0 < w \<Longrightarrow> w \<le> 32 \<Longrightarrow> bit (scast (ucast (mask_ones w) :: u32) :: u64) n \<longleftrightarrow> n < w \<or> w = 32 \<and> n < 64"
  by (auto simp: bit_signed_iff bit_mask_int min_def)

lemma bit_erase:
  assumes "f + w \<le> 32" "0 < w" and "n < 32"
  shows "bit (scast (NOT (push_bit f (ucast (mask_ones w) :: u32))) :: u64) n \<longleftrightarrow> \<not> (f \<le> n \<and> n < f + w)"
  using assms by (auto simp: bit_signed_iff bit_not_iff bit_push_bit_iff bit_mask_int min_def)

lemma bit_replace:
  assumes fw: "f + w \<le> 32" "0 < w" and v: "w < 32 \<or> trim v = v"
  shows "bit ((trim r AND scast (NOT (push_bit f (ucast (mask_ones w) :: u32)))) OR
      push_bit f (v AND scast (ucast (mask_ones w) :: u32))) n \<longleftrightarrow>
    n < 32 \<and> (if f \<le> n \<and> n < f + w then bit v (n - f) else bit r n)"
proof -
  have w32: "w \<le> 32" using fw by simp
  have v32: "w = 32 \<Longrightarrow> bit v k \<Longrightarrow> k < 32" for k using v bit_trim [of v k] by auto
  show ?thesis
  proof (cases "n < 32")
    case True
    then show ?thesis
      unfolding bit_or_iff bit_and_iff bit_trim bit_push_bit_iff bit_mask_signed [OF fw(2) w32] bit_erase [OF fw True]
      by auto
  next
    case False
    then show ?thesis
      unfolding bit_or_iff bit_and_iff bit_trim bit_push_bit_iff bit_mask_signed [OF fw(2) w32]
      using fw v32 [of "n - f"] by auto
  qed
qed

text \<open>
  A valid field of width \<open>w\<close> at \<open>f\<close>: \<open>extract\<close> returns exactly those bits, \<open>replace\<close> changes
  exactly those bits, and \<open>extract\<close> after \<open>replace\<close> gives back the low \<open>w\<close> bits of the new
  value.  (With the full width of 32 the new value must itself have 32 bits: the \<open>int\<close> mask of
  \<open>b_replace\<close> is then \<open>-1\<close> and erases nothing.)
\<close>

theorem bit32_fields:
  assumes "f + w \<le> 32" and "0 < w" and "w < 32 \<or> trim v = v"
  shows "\<exists>x y. b_extract r (of_nat f) (Some (of_nat w)) = Inr x \<and> (\<forall>n. bit x n \<longleftrightarrow> n < w \<and> bit r (f + n)) \<and>
    b_replace r v (of_nat f) (Some (of_nat w)) = Inr y \<and>
    (\<forall>n. bit y n \<longleftrightarrow> n < 32 \<and> (if f \<le> n \<and> n < f + w then bit v (n - f) else bit r n)) \<and>
    b_extract y (of_nat f) (Some (of_nat w)) = Inr (take_bit w v)"
proof -
  let ?x = "\<lambda>r. drop_bit f (trim r) AND mask_ones w"
  let ?y = "(trim r AND scast (NOT (push_bit f (ucast (mask_ones w) :: u32)))) OR
      push_bit f (v AND scast (ucast (mask_ones w) :: u32))"
  have fa: "fieldargs k (of_nat f) (Some (of_nat w)) = Inr (f, w)" for k
    by (rule fieldargs_ok) (use assms in simp_all)
  have ext: "b_extract r (of_nat f) (Some (of_nat w)) = Inr (?x r)" for r by (simp add: b_extract_def fa)
  have rep: "b_replace r v (of_nat f) (Some (of_nat w)) = Inr ?y" by (simp add: b_replace_def fa Let_def)
  have "?x ?y = take_bit w v"
    by (rule bit_word_eqI, unfold bit_extract [OF assms(1,2)] bit_replace [OF assms] bit_take_bit_iff)
      (use assms in auto)
  then show ?thesis
    using ext [of r] ext [of ?y] rep bit_extract [OF assms(1,2), of r] bit_replace [OF assms, of r]
    by (intro exI [of _ "?x r"] exI [of _ ?y]) (simp only: simp_thms)
qed

lemma bit32_shifts_witness: "b_arshift 0xFFFFFFF0 2 = Inr (0xFFFFFFFC :: u64)"
  using bit32_shifts [of 2 "0xFFFFFFF0"] by simp

lemma bit32_fields_witness: "\<exists>y. b_replace 0xABCD 7 4 (Some 3) = Inr y \<and> b_extract y 4 (Some 3) = Inr 7"
  using bit32_fields [of 4 3 7 "0xABCD"] by auto

end
