(* ===== verification/Lua_Utf8.thy ===== *)
theory Lua_Utf8
  imports Lua_Args
begin

text \<open>
  \<open>lutf8lib.c\<close> and \<open>luaO_utf8esc\<close> of \<open>lobject.c\<close>: the library \<open>utf8\<close>.  A Lua string is its
  bytes; C sees a zero byte behind them, which \<open>byte_at\<close> provides, and reading further is a
  fault.  Positions are \<open>lua_Integer\<close> values, here \<open>int\<close>: those that occur lie between
  \<open>- 2 ^ 63\<close> and the length of a string plus one.
\<close>

section \<open>Writing\<close>

text \<open>
  \<open>luaO_utf8esc\<close> fills the buffer from its end: the result is the bytes it has put there.
  The loop is that over the continuation bytes, with \<open>mfb\<close> the most that fits in the first
  byte.
\<close>

function utf8esc_loop :: "u32 \<Rightarrow> nat \<Rightarrow> byte list \<Rightarrow> byte list" where
  "utf8esc_loop mfb x buff =
     (let buff = (0x80 OR (of_nat x AND 0x3f)) # buff;
          x = x div 2 ^ 6;
          mfb = drop_bit 1 mfb
      in if unat mfb < x then utf8esc_loop mfb x buff
         else ucast (push_bit 1 (NOT mfb) OR of_nat x) # buff)"
  by pat_completeness auto
termination
  by (relation "measure (\<lambda>(mfb, x, buff). x)") auto

declare utf8esc_loop.simps [simp del]

definition luaO_utf8esc :: "nat \<Rightarrow> byte list" where
  "luaO_utf8esc x = (if x < 0x80 then [of_nat x] else utf8esc_loop 0x3f x [])"

section \<open>Reading\<close>

definition iscont :: "byte \<Rightarrow> bool" where
  "iscont b \<longleftrightarrow> b AND 0xC0 = 0x80"

text \<open>
  The loop over the continuation bytes: \<open>None\<close> is the \<open>return NULL\<close>.  The last shift of the
  function, by \<open>count * 5\<close>, is by 35 bits for a first byte of \<open>0xFF\<close>, where the shifted value
  is 0.
\<close>

function utf8_conts :: "byte list \<Rightarrow> nat \<Rightarrow> nat \<Rightarrow> u32 \<Rightarrow> u32 \<Rightarrow> (nat \<times> u32 \<times> u32) option res" where
  "utf8_conts s o1 count c r =
     (if c AND 0x40 = 0 then Inr (Some (count, c, r))
      else ebind (byte_at s (o1 + Suc count)) (\<lambda>cc.
           if cc AND 0xC0 \<noteq> 0x80 then Inr None
           else utf8_conts s o1 (Suc count) (push_bit 1 c) (push_bit 6 r OR (ucast cc AND 0x3F))))"
  by pat_completeness auto
termination
  by (relation "measure (\<lambda>(s, o1, count, c, r). Suc (length s) - (o1 + count))")
    (auto simp: byte_at_def split: if_splits)

declare utf8_conts.simps [simp del]

definition limits :: "u32 list" where
  "limits = [0xFF, 0x7F, 0x7FF, 0xFFFF]"

abbreviation (input) MAXUNICODE :: nat where "MAXUNICODE \<equiv> 0x10FFFF"

definition utf8_decode :: "byte list \<Rightarrow> nat \<Rightarrow> (u32 \<times> nat) option res" where
  "utf8_decode s o1 =
     ebind (byte_at s o1) (\<lambda>c0. let c = ucast c0 :: u32 in
     if c < 0x80 then Inr (Some (c, o1 + 1))
     else ebind (utf8_conts s o1 0 c 0) (\<lambda>m. case m of
            None \<Rightarrow> Inr None
          | Some (count, c, r) \<Rightarrow>
              let r = r OR push_bit (count * 5) (c AND 0x7F) in
              if 3 < count \<or> of_nat MAXUNICODE < r \<or> r \<le> limits ! count then Inr None
              else Inr (Some (r, o1 + count + 1))))"

lemma utf8_decode_advances:
  assumes "utf8_decode s p = Inr (Some (v, p1))"
  shows "p < p1"
proof -
  obtain c0 where c0: "byte_at s p = Inr c0" using assms by (auto simp: utf8_decode_def ebind_eq_Inr)
  show ?thesis
  proof (cases "(ucast c0 :: u32) < 0x80")
    case False
    obtain m where m: "utf8_conts s p 0 (ucast c0) 0 = Inr m"
      using assms False by (auto simp: utf8_decode_def c0 Let_def ebind_eq_Inr)
    then show ?thesis using assms False c0
      by (cases m) (auto simp: utf8_decode_def Let_def split: if_splits)
  qed (use assms c0 in \<open>simp add: utf8_decode_def\<close>)
qed

section \<open>The library\<close>

definition u_posrelat :: "int \<Rightarrow> nat \<Rightarrow> int" where
  "u_posrelat pos len = (if 0 \<le> pos then pos else if int len < - pos then 0 else int len + pos + 1)"

text \<open>The results of \<open>utflen\<close>: a count, or nil and the position of the invalid sequence.\<close>

function utflen_loop :: "byte list \<Rightarrow> nat \<Rightarrow> int \<Rightarrow> nat \<Rightarrow> (nat + int) res" where
  "utflen_loop s posi posj n =
     (if int posi \<le> posj
      then ebind (utf8_decode s posi) (\<lambda>d. case d of
             None \<Rightarrow> Inr (Inr (int posi + 1))
           | Some (_, s1) \<Rightarrow> utflen_loop s s1 posj (n + 1))
      else Inr (Inl n))"
  by pat_completeness auto
termination
  by (relation "measure (\<lambda>(s, posi, posj, n). nat (posj + 1) - posi)")
    (auto dest: utf8_decode_advances)

declare utflen_loop.simps [simp del]

definition utflen :: "byte list \<Rightarrow> int option \<Rightarrow> int option \<Rightarrow> (nat + int) res" where
  "utflen s i j =
     (let len = length s;
          posi = u_posrelat (optint i 1) len;
          posj = u_posrelat (optint j (- 1)) len in
      ebind (guard_or (1 \<le> posi \<and> posi - 1 \<le> int len) (ArgError 2 ''initial position out of string'')) (\<lambda>_.
      ebind (guard_or (posj - 1 < int len) (ArgError 3 ''final position out of string'')) (\<lambda>_.
      utflen_loop s (nat (posi - 1)) (posj - 1) 0)))"

text \<open>The loop of \<open>codepoint\<close>; \<open>se\<close> is the end of the range.\<close>

function codepoint_loop :: "byte list \<Rightarrow> nat \<Rightarrow> int \<Rightarrow> nat list res" where
  "codepoint_loop s p se =
     (if int p < se
      then ebind (utf8_decode s p) (\<lambda>d. case d of
             None \<Rightarrow> Inl (RunError ''invalid UTF-8 code'')
           | Some (code, p1) \<Rightarrow>
               ebind (codepoint_loop s p1 se) (\<lambda>cs. Inr (unat code # cs)))
      else Inr [])"
  by pat_completeness auto
termination
  by (relation "measure (\<lambda>(s, p, se). nat (se - int p))")
    (auto dest: utf8_decode_advances)

declare codepoint_loop.simps [simp del]

text \<open>\<open>used\<close>: the slots of the Lua stack in use.\<close>

definition codepoint :: "nat \<Rightarrow> byte list \<Rightarrow> int option \<Rightarrow> int option \<Rightarrow> nat list res" where
  "codepoint used s i j =
     (let len = length s;
          posi = u_posrelat (optint i 1) len;
          pose = u_posrelat (optint j posi) len in
      ebind (guard_or (1 \<le> posi) (ArgError 2 ''out of range'')) (\<lambda>_.
      ebind (guard_or (pose \<le> int len) (ArgError 3 ''out of range'')) (\<lambda>_.
      if pose < posi then Inr []
      else if 2 ^ 31 - 1 \<le> pose - posi then Inl (RunError ''string slice too long'')
      else ebind (luaL_checkstack used (nat (pose - posi) + 1) ''string slice too long'') (\<lambda>_.
           codepoint_loop s (nat (posi - 1)) pose))))"

definition pushutfchar :: "nat \<Rightarrow> int \<Rightarrow> byte list res" where
  "pushutfchar arg code =
     ebind (guard_or (0 \<le> code \<and> code \<le> int MAXUNICODE) (ArgError arg ''value out of range'')) (\<lambda>_.
     Inr (luaO_utf8esc (nat code)))"

definition utfchar :: "int list \<Rightarrow> byte list res" where
  "utfchar args =
     (if length args = 1 then pushutfchar 1 (hd args)
      else efold (\<lambda>(i, c) b. ebind (pushutfchar i c) (\<lambda>u. Inr (b @ u))) (zip [1..<Suc (length args)] args) [])"

text \<open>
  \<open>byteoffset\<close>: \<open>find_start\<close> and \<open>skip_conts\<close> are the loops that look for the beginning of a
  character, \<open>move_back\<close> and \<open>move_forth\<close> the loops over characters.
\<close>

fun find_start :: "byte list \<Rightarrow> nat \<Rightarrow> nat res" where
  "find_start s 0 = Inr 0"
| "find_start s (Suc p) = ebind (byte_at s (Suc p)) (\<lambda>b. if iscont b then find_start s p else Inr (Suc p))"

fun move_back :: "byte list \<Rightarrow> nat \<Rightarrow> nat \<Rightarrow> (nat \<times> nat) res" where
  "move_back s n 0 = Inr (n, 0)"
| "move_back s 0 (Suc p) = Inr (0, Suc p)"
| "move_back s (Suc n) (Suc p) = ebind (find_start s p) (move_back s n)"

function skip_conts :: "byte list \<Rightarrow> nat \<Rightarrow> nat res" where
  "skip_conts s p = ebind (byte_at s p) (\<lambda>b. if iscont b then skip_conts s (p + 1) else Inr p)"
  by pat_completeness auto
termination
  by (relation "measure (\<lambda>(s, p). Suc (length s) - p)") (auto simp: byte_at_def split: if_splits)

declare skip_conts.simps [simp del]

fun move_forth :: "byte list \<Rightarrow> nat \<Rightarrow> nat \<Rightarrow> (nat \<times> nat) res" where
  "move_forth s 0 p = Inr (0, p)"
| "move_forth s (Suc n) p =
     (if p < length s then ebind (skip_conts s (p + 1)) (move_forth s n) else Inr (Suc n, p))"

definition byteoffset :: "byte list \<Rightarrow> int \<Rightarrow> int option \<Rightarrow> int option res" where
  "byteoffset s n i =
     (let len = length s;
          posi = u_posrelat (optint i (if 0 \<le> n then 1 else int len + 1)) len in
      ebind (guard_or (1 \<le> posi \<and> posi - 1 \<le> int len) (ArgError 3 ''position out of range'')) (\<lambda>_.
      let p = nat (posi - 1) in
      ebind (if n = 0 then ebind (find_start s p) (\<lambda>p. Inr (0, p))
             else ebind (byte_at s p) (\<lambda>b.
               if iscont b then Inl (RunError ''initial position is a continuation byte'')
               else if n < 0 then move_back s (nat (- n)) p
               else move_forth s (nat (n - 1)) p)) (\<lambda>(n, p).
      Inr (if n = 0 then Some (int p + 1) else None))))"

text \<open>\<open>iter_aux\<close>: the position and code of the next character, or nothing at the end.\<close>

definition iter_aux :: "byte list \<Rightarrow> int \<Rightarrow> (int \<times> nat) option res" where
  "iter_aux s i =
     (let n = i - 1 in
      ebind (if n < 0 then Inr 0
             else if n < int (length s) then skip_conts s (nat (n + 1)) else Inr (nat n)) (\<lambda>n.
      if length s \<le> n then Inr None
      else ebind (utf8_decode s n) (\<lambda>d. case d of
             None \<Rightarrow> Inl (RunError ''invalid UTF-8 code'')
           | Some (code, p) \<Rightarrow> ebind (byte_at s p) (\<lambda>b.
               if iscont b then Inl (RunError ''invalid UTF-8 code'')
               else Inr (Some (int n + 1, unat code))))))"

section \<open>UTF-8\<close>

text \<open>The encoding of a code point, as the standard has it.\<close>

definition utf8_encode :: "nat \<Rightarrow> byte list" where
  "utf8_encode x =
     (if x < 0x80 then [of_nat x]
      else if x < 0x800 then [of_nat (0xC0 + x div 64), of_nat (0x80 + x mod 64)]
      else if x < 0x10000
      then [of_nat (0xE0 + x div 4096), of_nat (0x80 + x div 64 mod 64), of_nat (0x80 + x mod 64)]
      else [of_nat (0xF0 + x div 262144), of_nat (0x80 + x div 4096 mod 64), of_nat (0x80 + x div 64 mod 64),
            of_nat (0x80 + x mod 64)])"

lemma low_bits: "(of_nat x :: 'a::len word) AND mask k = of_nat (x mod 2 ^ k)"
  by (metis of_nat_mod take_bit_eq_mask take_bit_eq_mod of_nat_take_bit)

lemma or_low:
  "y < 2 ^ k \<Longrightarrow> of_nat (a * 2 ^ k) OR of_nat y = (of_nat (a * 2 ^ k + y) :: 'a::len word)"
  by (metis or_shifted of_nat_or_eq)

lemma cont_byte: "0x80 OR (of_nat x AND 0x3f) = (of_nat (0x80 + x mod 64) :: byte)"
  using low_bits [of x 6, where 'a = 8] or_low [of "x mod 64" 6 2, where 'a = 8] by (simp add: mask_eq_exp_minus_1)

lemma first_byte:
  "x < 32 \<Longrightarrow> ucast ((- 64 :: u32) OR of_nat x) = (0xC0 + of_nat x :: byte)"
  "x < 16 \<Longrightarrow> ucast ((- 32 :: u32) OR of_nat x) = (0xE0 + of_nat x :: byte)"
  "x < 8 \<Longrightarrow> ucast ((- 16 :: u32) OR of_nat x) = (0xF0 + of_nat x :: byte)"
proof -
  have *: "(4294967232 :: byte) = 192" "(4294967264 :: byte) = 224" "(4294967280 :: byte) = 240" by simp_all
  have "take_bit 32 x = x" if "x < 32" using that by (simp add: take_bit_nat_eq_self)
  then show "x < 32 \<Longrightarrow> ucast ((- 64 :: u32) OR of_nat x) = (0xC0 + of_nat x :: byte)"
    "x < 16 \<Longrightarrow> ucast ((- 32 :: u32) OR of_nat x) = (0xE0 + of_nat x :: byte)"
    "x < 8 \<Longrightarrow> ucast ((- 16 :: u32) OR of_nat x) = (0xF0 + of_nat x :: byte)"
    using or_low [of x 5 6, where 'a = 8] or_low [of x 4 14, where 'a = 8] or_low [of x 3 30, where 'a = 8]
    by (simp_all add: unsigned_or_eq unsigned_of_nat *)
qed

lemma utf8esc_step:
  "utf8esc_loop mfb x buff =
     (if unat (drop_bit 1 mfb) < x div 64 then utf8esc_loop (drop_bit 1 mfb) (x div 64) (of_nat (0x80 + x mod 64) # buff)
      else ucast (push_bit 1 (NOT (drop_bit 1 mfb)) OR of_nat (x div 64)) # of_nat (0x80 + x mod 64) # buff)"
  by (subst utf8esc_loop.simps) (simp only: Let_def cont_byte, simp)

lemma utf8esc_encodes:
  assumes "x \<le> MAXUNICODE"
  shows "luaO_utf8esc x = utf8_encode x"
proof -
  have dd: "x div 64 div 64 = x div 4096" "x div 64 div 64 div 64 = x div 262144"
    "x div 4096 div 64 = x div 262144" by (simp_all flip: div_mult2_eq)
  consider "x < 0x80" | "0x80 \<le> x" "x < 0x800" | "0x800 \<le> x" "x < 0x10000" | "0x10000 \<le> x" by linarith
  then show ?thesis
  proof cases
    case 1
    then show ?thesis by (simp add: luaO_utf8esc_def utf8_encode_def)
  next
    case 2
    have "x div 64 < 32" using 2 by linarith
    then show ?thesis using 2
      by (simp add: luaO_utf8esc_def utf8_encode_def utf8esc_step [of "0x3f"] first_byte)
  next
    case 3
    have "31 < x div 64" "x div 4096 < 16" using 3 by linarith+
    then show ?thesis using 3
      by (simp add: luaO_utf8esc_def utf8_encode_def utf8esc_step [of "0x3f"] utf8esc_step [of "0x1f"] first_byte dd)
  next
    case 4
    have "31 < x div 64" "15 < x div 4096" "x div 262144 < 8" using 4 assms by linarith+
    then show ?thesis using 4
      by (simp add: luaO_utf8esc_def utf8_encode_def utf8esc_step [of "0x3f"] utf8esc_step [of "0x1f"]
          utf8esc_step [of "0x0f"] first_byte dd)
  qed
qed

section \<open>Decoding is the inverse of encoding\<close>

text \<open>
  What the loop does on a first byte with \<open>m\<close> continuation bytes to follow: the six bits of each
  are appended to \<open>r\<close>.
\<close>

definition cont_bits :: "byte list \<Rightarrow> u32 \<Rightarrow> u32" where
  "cont_bits cs r = fold (\<lambda>cc r. push_bit 6 r OR (ucast cc AND 0x3F)) cs r"

lemma bit6: "c AND 0x40 = 0 \<longleftrightarrow> \<not> bit (c :: u32) 6"
  using and_exp_eq_0_iff_not_bit [of c 6] by simp

lemma conts_read:
  assumes "\<And>j. j < length cs \<Longrightarrow> bit c (6 - j)" and "\<not> bit c (6 - length cs)" and "length cs \<le> 6"
    and "list_all iscont cs" and "\<And>j. j < length cs \<Longrightarrow> byte_at s (o1 + count + Suc j) = Inr (cs ! j)"
  shows "utf8_conts s o1 count c r = Inr (Some (count + length cs, push_bit (length cs) c, cont_bits cs r))"
  using assms
proof (induction cs arbitrary: count c r)
  case Nil
  then show ?case by (simp add: utf8_conts.simps bit6 cont_bits_def)
next
  case (Cons b cs)
  have "bit c 6" using Cons.prems(1) [of 0] by simp
  moreover have "byte_at s (o1 + Suc count) = Inr b" using Cons.prems(5) [of 0] by simp
  moreover have "b AND 0xC0 = 0x80" using Cons.prems(4) by (simp add: iscont_def)
  moreover have "utf8_conts s o1 (Suc count) (push_bit 1 c) (push_bit 6 r OR (ucast b AND 0x3F)) =
      Inr (Some (Suc count + length cs, push_bit (length cs) (push_bit 1 c), cont_bits cs (push_bit 6 r OR (ucast b AND 0x3F))))"
  proof (rule Cons.IH)
    show "bit (push_bit 1 c) (6 - j)" if "j < length cs" for j
    proof -
      have "6 - j = Suc (6 - Suc j)" using that Cons.prems(3) by simp
      then show ?thesis using Cons.prems(1) [of "Suc j"] that unfolding bit_push_bit_iff by simp
    qed
    show "\<not> bit (push_bit 1 c) (6 - length cs)"
    proof -
      have "6 - length cs = Suc (6 - Suc (length cs))" using Cons.prems(3) by simp
      then show ?thesis using Cons.prems(2) unfolding bit_push_bit_iff by simp
    qed
    show "byte_at s (o1 + Suc count + Suc j) = Inr (cs ! j)" if "j < length cs" for j
      using Cons.prems(5) [of "Suc j"] that by simp
  qed (use Cons.prems in simp_all)
  ultimately show ?case
    by (subst utf8_conts.simps) (simp add: bit6 cont_bits_def add.commute [of 1])
qed

text \<open>When the loop ends well, this is what it has read.\<close>

lemma conts_result:
  assumes "utf8_conts s o1 count c r = Inr (Some (count', c', r'))"
  shows "\<exists>cs. count' = count + length cs \<and> list_all iscont cs \<and> c' = push_bit (length cs) c \<and> r' = cont_bits cs r \<and>
    (\<forall>j < length cs. byte_at s (o1 + count + Suc j) = Inr (cs ! j)) \<and>
    (\<forall>j < length cs. bit (push_bit j c) 6) \<and> \<not> bit (push_bit (length cs) c) 6"
  using assms
proof (induction s o1 count c r rule: utf8_conts.induct)
  case (1 s o1 count c r)
  show ?case
  proof (cases "bit c 6")
    case False
    then show ?thesis using "1.prems" by (intro exI [of _ "[]"]) (simp add: utf8_conts.simps bit6 cont_bits_def)
  next
    case True
    obtain b where b: "byte_at s (o1 + Suc count) = Inr b" "b AND 0xC0 = 0x80"
      "utf8_conts s o1 (Suc count) (push_bit 1 c) (push_bit 6 r OR (ucast b AND 0x3F)) = Inr (Some (count', c', r'))"
      using "1.prems" True by (subst (asm) utf8_conts.simps) (auto simp: bit6 ebind_eq_Inr split: if_splits)
    have "c AND 0x40 \<noteq> 0" "\<not> b AND 0xC0 \<noteq> 0x80" using True b(2) by (simp_all add: bit6)
    from "1.IH" [OF this(1) b(1) this(2) b(3)] obtain cs where cs: "count' = Suc count + length cs" "list_all iscont cs"
      "c' = push_bit (length cs) (push_bit 1 c)" "r' = cont_bits cs (push_bit 6 r OR (ucast b AND 0x3F))"
      "\<forall>j < length cs. byte_at s (o1 + Suc count + Suc j) = Inr (cs ! j)"
      "\<forall>j < length cs. bit (push_bit j (push_bit 1 c)) 6" "\<not> bit (push_bit (length cs) (push_bit 1 c)) 6" by blast
    show ?thesis
    proof (intro exI [of _ "b # cs"] conjI allI impI)
      fix j assume j: "j < length (b # cs)"
      show "byte_at s (o1 + count + Suc j) = Inr ((b # cs) ! j)" using cs(5) b(1) j by (cases j) simp_all
      show "bit (push_bit j c) 6" using cs(6) True j by (cases j) (simp_all add: add.commute)
    qed (use cs(1-4,7) b(2) in \<open>simp_all add: cont_bits_def add.commute\<close>, simp add: iscont_def)
  qed
qed

lemma conts_ends: "o1 + count < length s \<Longrightarrow> \<exists>m. utf8_conts s o1 count c r = Inr m"
proof (induction s o1 count c r rule: utf8_conts.induct)
  case (1 s o1 count c r)
  obtain b where b: "byte_at s (o1 + Suc count) = Inr b"
    using "1.prems" by (cases "Suc (o1 + count) < length s") (auto simp: byte_at_def)
  show ?case
  proof (cases "c AND 0x40 = 0 \<or> b AND 0xC0 \<noteq> 0x80")
    case True
    then show ?thesis by (subst utf8_conts.simps) (auto simp: b [simplified])
  next
    case False
    then have "o1 + Suc count < length s" using b "1.prems" by (auto simp: byte_at_def split: if_splits)
    then show ?thesis using "1.IH" [OF _ b] False by (subst utf8_conts.simps) (simp add: b [simplified])
  qed
qed

text \<open>A decoded value that the code accepts has at most three continuation bytes.\<close>

definition decoded :: "byte \<Rightarrow> byte list \<Rightarrow> u32" where
  "decoded c cs = cont_bits cs 0 OR push_bit (length cs * 5) (push_bit (length cs) (ucast c) AND 0x7F)"

definition utf8_value :: "byte \<Rightarrow> byte list \<Rightarrow> nat" where
  "utf8_value c cs = foldl (\<lambda>r cc. r * 64 + unat cc mod 64) (unat c mod 2 ^ (6 - length cs)) cs"

lemma cont_bits_or: "cont_bits cs r = cont_bits cs 0 OR push_bit (6 * length cs) r"
proof (induction cs arbitrary: r)
  case (Cons b cs)
  have "cont_bits (b # cs) r = cont_bits cs (push_bit 6 r OR (ucast b AND 0x3F))" for r by (simp add: cont_bits_def)
  note step = this
  have "cont_bits (b # cs) r = cont_bits cs 0 OR push_bit (6 * length cs) (push_bit 6 r OR (ucast b AND 0x3F))" for r
    unfolding step by (rule Cons.IH)
  note here = this
  show ?case unfolding here [of r] here [of 0]
    by (simp add: push_bit_or or.assoc or.commute or.left_commute add.commute)
qed (simp add: cont_bits_def)

lemma unat_low: "k \<le> 8 \<Longrightarrow> unat (take_bit k (ucast (b :: byte)) :: u32) = unat b mod 2 ^ k"
  unfolding unsigned_take_bit_eq unsigned_ucast_eq take_bit_take_bit by (simp add: min_def take_bit_eq_mod)

lemma cont_bits_value:
  "unat r < 2 ^ (32 - 6 * length cs) \<Longrightarrow> length cs \<le> 5 \<Longrightarrow>
    unat (cont_bits cs r) = foldl (\<lambda>r cc. r * 64 + unat cc mod 64) (unat r) cs"
proof (induction cs arbitrary: r)
  case (Cons b cs)
  let ?r = "push_bit 6 r OR (ucast b AND 0x3F) :: u32"
  have e: "32 - 6 * length cs = 6 + (32 - 6 * length (b # cs))" using Cons.prems(2) by simp
  have r: "unat r < 2 ^ (32 - 6 * length (b # cs))" by (rule Cons.prems(1))
  then have "unat r * 64 + 63 < 2 ^ (32 - 6 * length cs)" unfolding e power_add by simp
  moreover have "(2 :: nat) ^ (32 - 6 * length cs) \<le> 2 ^ 32" by (rule power_increasing) simp_all
  ultimately have big: "unat r * 64 + 63 < 2 ^ 32" "unat r * 64 + 63 < 2 ^ (32 - 6 * length cs)" by simp_all
  have "unat (push_bit 6 r) = unat r * 2 ^ 6"
    using big(1) by (simp add: unat_mult_lem push_bit_eq_mult unat_word_ariths)
  moreover have "unat (ucast b AND 0x3F :: u32) = unat b mod 64"
  proof -
    have "ucast b AND 0x3F = (take_bit 6 (ucast b) :: u32)" by (simp add: take_bit_eq_mask mask_eq_exp_minus_1)
    then show ?thesis using unat_low [of 6 b] by simp
  qed
  ultimately have "unat ?r = unat r * 64 + unat b mod 64"
    using or_shifted [of "unat b mod 64" 6 "unat r"] by (simp add: unsigned_or_eq)
  moreover have "unat b mod 64 \<le> 63" by simp
  ultimately have "unat ?r < 2 ^ (32 - 6 * length cs)" "unat ?r = unat r * 64 + unat b mod 64" using big(2) by linarith+
  then show ?case using Cons.IH [of ?r] Cons.prems(2) by (simp add: cont_bits_def)
qed (simp add: cont_bits_def)

lemma decoded_value:
  assumes k: "length cs \<le> 3" and c: "\<not> bit c (6 - length cs)"
  shows "unat (decoded c cs) = utf8_value c cs"
proof -
  let ?k = "length cs"
  have "push_bit (?k * 5) (push_bit ?k (ucast c) AND 0x7F) = push_bit (6 * ?k) (take_bit (6 - ?k) (ucast c) :: u32)"
  proof (rule bit_word_eqI)
    fix n assume n: "n < LENGTH(32)"
    have seven: "(0x7F :: u32) = mask 7" by (simp add: mask_eq_exp_minus_1)
    have "bit (push_bit (?k * 5) (push_bit ?k (ucast c) AND 0x7F :: u32)) n \<longleftrightarrow>
        ?k * 5 \<le> n \<and> ?k \<le> n - ?k * 5 \<and> bit c (n - ?k * 5 - ?k) \<and> n - ?k * 5 < 7"
      unfolding seven bit_push_bit_iff bit_and_iff bit_mask_iff bit_ucast_iff using n by auto
    also have "\<dots> \<longleftrightarrow> 6 * ?k \<le> n \<and> bit c (n - 6 * ?k) \<and> n - 6 * ?k < 6 - ?k"
    proof -
      have "?k * 5 \<le> n \<and> ?k \<le> n - ?k * 5 \<longleftrightarrow> 6 * ?k \<le> n" by linarith
      moreover have "n - ?k * 5 - ?k = n - 6 * ?k" by simp
      moreover have "6 * ?k \<le> n \<Longrightarrow> n - ?k * 5 < 7 \<longleftrightarrow> n - 6 * ?k < 6 - ?k \<or> n - 6 * ?k = 6 - ?k" using k by linarith
      ultimately show ?thesis using c by auto
    qed
    finally show "bit (push_bit (?k * 5) (push_bit ?k (ucast c) AND 0x7F :: u32)) n =
        bit (push_bit (6 * ?k) (take_bit (6 - ?k) (ucast c) :: u32)) n"
      using n by (auto simp: bit_simps)
  qed
  then have "decoded c cs = cont_bits cs (take_bit (6 - ?k) (ucast c))"
    unfolding decoded_def cont_bits_or [of cs "take_bit (6 - ?k) (ucast c)"] by simp
  moreover have "unat (take_bit (6 - ?k) (ucast c) :: u32) = unat c mod 2 ^ (6 - ?k)"
    by (rule unat_low) simp
  moreover have "unat c mod 2 ^ (6 - ?k) < 2 ^ (32 - 6 * ?k)"
  proof -
    have "unat c mod 2 ^ (6 - ?k) < 2 ^ (6 - ?k)" by simp
    also have "\<dots> \<le> (2 :: nat) ^ (32 - 6 * ?k)" by (rule power_increasing) (use k in simp_all)
    finally show ?thesis .
  qed
  ultimately show ?thesis using cont_bits_value [of "take_bit (6 - ?k) (ucast c)" cs] k
    by (simp add: utf8_value_def)
qed

definition lead_ok :: "byte \<Rightarrow> nat \<Rightarrow> bool" where
  "lead_ok c k \<longleftrightarrow> 0x80 \<le> unat c \<and> (\<forall>j < k. bit c (6 - j)) \<and> \<not> bit c (6 - k)"

lemma all_below:
  "(\<forall>j < 2. P j) \<longleftrightarrow> P 0 \<and> P (1 :: nat)" "(\<forall>j < 3. P j) \<longleftrightarrow> P 0 \<and> P 1 \<and> P (2 :: nat)"
  by (auto simp: less_2_cases_iff numeral_3_eq_3 less_Suc_eq numeral_2_eq_2)

lemma lead_range:
  "lead_ok c 0 \<longleftrightarrow> 0x80 \<le> unat c \<and> unat c < 0xC0" "lead_ok c 1 \<longleftrightarrow> 0xC0 \<le> unat c \<and> unat c < 0xE0"
  "lead_ok c 2 \<longleftrightarrow> 0xE0 \<le> unat c \<and> unat c < 0xF0" "lead_ok c 3 \<longleftrightarrow> 0xF0 \<le> unat c \<and> unat c < 0xF8"
proof -
  have b: "bit c n \<longleftrightarrow> odd (unat c div 2 ^ n)" for n
    unfolding bit_iff_odd [symmetric] by (auto simp: bit_unsigned_iff dest: bit_imp_le_length)
  have c: "unat c < 256"
    using unsigned_less [of c] by simp
  have d: "q * k \<le> n \<Longrightarrow> n < Suc q * k \<Longrightarrow> n div k = q" for n k q :: nat
    by (rule div_nat_eqI) (simp_all add: mult.commute)
  have "128 \<le> n \<Longrightarrow> n div 64 = (if n < 192 then 2 else 3)" "192 \<le> n \<Longrightarrow> n div 32 = (if n < 224 then 6 else 7)"
    "224 \<le> n \<Longrightarrow> n div 16 = (if n < 240 then 14 else 15)" "240 \<le> n \<Longrightarrow> n div 8 = (if n < 248 then 30 else 31)"
    if "n < 256" for n :: nat
    using that by (auto intro!: d)
  then have odds: "128 \<le> n \<Longrightarrow> even (n div 64) \<longleftrightarrow> n < 192" "192 \<le> n \<Longrightarrow> even (n div 32) \<longleftrightarrow> n < 224"
    "224 \<le> n \<Longrightarrow> even (n div 16) \<longleftrightarrow> n < 240" "240 \<le> n \<Longrightarrow> even (n div 8) \<longleftrightarrow> n < 248" if "n < 256" for n :: nat
    using that by simp_all
  show "lead_ok c 0 \<longleftrightarrow> 0x80 \<le> unat c \<and> unat c < 0xC0"
    unfolding lead_ok_def b using odds [OF c] by auto
  show "lead_ok c 1 \<longleftrightarrow> 0xC0 \<le> unat c \<and> unat c < 0xE0"
    unfolding lead_ok_def b using odds [OF c]
    by (cases "128 \<le> unat c"; cases "192 \<le> unat c"; cases "224 \<le> unat c"; cases "240 \<le> unat c"; simp)
  show "lead_ok c 2 \<longleftrightarrow> 0xE0 \<le> unat c \<and> unat c < 0xF0" 
    unfolding lead_ok_def b all_below using odds [OF c]
    by (cases "128 \<le> unat c"; cases "192 \<le> unat c"; cases "224 \<le> unat c"; cases "240 \<le> unat c"; simp)
  show "lead_ok c 3 \<longleftrightarrow> 0xF0 \<le> unat c \<and> unat c < 0xF8"
    unfolding lead_ok_def b all_below using odds [OF c]
    by (cases "128 \<le> unat c"; cases "192 \<le> unat c"; cases "224 \<le> unat c"; cases "240 \<le> unat c"; simp)
qed

lemma iscont_range: "iscont b \<longleftrightarrow> 0x80 \<le> unat b \<and> unat b < 0xC0"
proof -
  have m: "(0xC0 :: byte) = push_bit 6 (mask 2)" by (simp add: mask_eq_exp_minus_1)
  have "b AND 0xC0 = push_bit 6 (drop_bit 6 b)"
    unfolding m by (rule bit_word_eqI) (auto simp: bit_and_iff bit_push_bit_iff bit_mask_iff bit_drop_bit_eq)
  moreover have "unat (push_bit 6 (drop_bit 6 b)) = unat b div 64 * 64"
  proof -
    have "unat b < 256" using unsigned_less [of b] by simp
    then have "unat b div 64 * 64 < 256" by linarith
    then show ?thesis unfolding unsigned_push_bit_eq unsigned_drop_bit_eq
      by (simp add: push_bit_eq_mult drop_bit_eq_div take_bit_eq_mod)
  qed
  ultimately have "iscont b \<longleftrightarrow> unat b div 64 * 64 = 128" unfolding iscont_def word_unat_eq_iff by simp
  also have "\<dots> \<longleftrightarrow> 0x80 \<le> unat b \<and> unat b < 0xC0"
    using div_nat_eqI [of 64 2 "unat b"] by auto
  finally show ?thesis .
qed

lemma base64: "c < 64 \<Longrightarrow> (a * 64 + c) div 64 = a" "c < 64 \<Longrightarrow> (a * 64 + c) mod 64 = (c :: nat)"
  by simp_all

lemma div_join: "x div 64 div 64 = x div (4096 :: nat)" "x div 4096 div 64 = x div (262144 :: nat)"
  by (simp_all flip: div_mult2_eq)

text \<open>The bytes of a character, and back.\<close>

lemma encode_decode:
  assumes "lead_ok c (length cs)" and "list_all iscont cs" and "cs \<noteq> []" and "length cs \<le> 3"
    and "unat (limits ! length cs) < utf8_value c cs" and "utf8_value c cs \<le> MAXUNICODE"
  shows "utf8_encode (utf8_value c cs) = c # cs"
proof -
  have of_byte: "of_nat (unat b) = (b :: byte)" for b by simp
  have cont: "of_nat (0x80 + unat b mod 64) = b" if "iscont b" for b
  proof -
    have "unat b div 64 = 2" using that unfolding iscont_range by (intro div_nat_eqI) simp_all
    then have "0x80 + unat b mod 64 = unat b" using mult_div_mod_eq [of 64 "unat b"] by simp
    then show ?thesis using of_byte [of b] by simp
  qed
  have small: "unat b mod 64 < 64" for b :: byte by simp
  have lead: "of_nat (q * k + unat c mod k) = c" if "q * k \<le> unat c" "unat c < Suc q * k" for q k
  proof -
    have "unat c div k = q" using that by (intro div_nat_eqI) (simp_all add: mult.commute)
    then have "q * k + unat c mod k = unat c" using div_mult_mod_eq [of "unat c" k] by simp
    then show ?thesis using of_byte [of c] by simp
  qed
  have "length cs = 1 \<or> length cs = 2 \<or> length cs = 3"
  proof -
    have "length cs \<noteq> 0" using assms(3) by simp
    then show ?thesis using assms(4) by linarith
  qed
  then consider c1 where "cs = [c1]" | c1 c2 where "cs = [c1, c2]" | c1 c2 c3 where "cs = [c1, c2, c3]"
    by (fastforce simp: length_Suc_conv numeral_eq_Suc)
  then show ?thesis
  proof cases
    case 1
    have l: "of_nat (6 * 32 + unat c mod 32) = c"
      using assms(1) lead_range(2) [of c] 1 by (intro lead) simp_all
    define x where "x = unat c mod 32 * 64 + unat c1 mod 64"
    have x: "x < 0x800" "x div 64 = unat c mod 32" "x mod 64 = unat c1 mod 64"
      unfolding x_def using small [of c1] by simp_all
    have v: "utf8_value c cs = x" by (simp add: utf8_value_def 1 x_def)
    have "\<not> x < 0x80" using assms(5) unfolding v by (simp add: 1 limits_def)
    then have "utf8_encode x = [of_nat (0xC0 + unat c mod 32), of_nat (0x80 + unat c1 mod 64)]"
      using x by (simp only: utf8_encode_def if_False if_True)
    then show ?thesis unfolding v using l cont [of c1] assms(2) 1 by simp
  next
    case 2
    have l: "of_nat (14 * 16 + unat c mod 16) = c"
      using assms(1) lead_range(3) [of c] 2 by (intro lead) (simp_all add: numeral_2_eq_2)
    define x where "x = (unat c mod 16 * 64 + unat c1 mod 64) * 64 + unat c2 mod 64"
    have x: "x < 0x10000" "x div 4096 = unat c mod 16" "x div 64 mod 64 = unat c1 mod 64" "x mod 64 = unat c2 mod 64"
    proof -
      have d1: "x div 64 = unat c mod 16 * 64 + unat c1 mod 64" and m1: "x mod 64 = unat c2 mod 64"
        unfolding x_def by (rule base64, rule small)+
      show "x div 4096 = unat c mod 16" unfolding div_join(1) [symmetric] d1 by (rule base64, rule small)
      show "x div 64 mod 64 = unat c1 mod 64" unfolding d1 by (rule base64, rule small)
      show "x mod 64 = unat c2 mod 64" by (rule m1)
      have "(a * 64 + b) * 64 + d < 0x10000" if "a < 16" "b < 64" "d < 64" for a b d :: nat
      proof -
        have "(a * 64 + b) * 64 + d = 4096 * a + 64 * b + d" by simp
        then show ?thesis using that by linarith
      qed
      then show "x < 0x10000" unfolding x_def using small [of c1] small [of c2] by simp
    qed
    have v: "utf8_value c cs = x" by (simp add: utf8_value_def 2 x_def)
    have "\<not> x < 0x80" "\<not> x < 0x800" using assms(5) unfolding v by (simp_all add: 2 limits_def)
    then have "utf8_encode x = [of_nat (0xE0 + unat c mod 16), of_nat (0x80 + unat c1 mod 64), of_nat (0x80 + unat c2 mod 64)]"
      using x by (simp only: utf8_encode_def if_False if_True)
    then show ?thesis unfolding v using l cont [of c1] cont [of c2] assms(2) 2 by simp
  next
    case 3
    have l: "of_nat (30 * 8 + unat c mod 8) = c"
      using assms(1) lead_range(4) [of c] 3 by (intro lead) (simp_all add: numeral_3_eq_3)
    define x where "x = ((unat c mod 8 * 64 + unat c1 mod 64) * 64 + unat c2 mod 64) * 64 + unat c3 mod 64"
    have x: "x div 262144 = unat c mod 8" "x div 4096 mod 64 = unat c1 mod 64" "x div 64 mod 64 = unat c2 mod 64"
      "x mod 64 = unat c3 mod 64"
    proof -
      let ?a = "unat c mod 8 * 64 + unat c1 mod 64"
      have d1: "x div 64 = ?a * 64 + unat c2 mod 64" and m1: "x mod 64 = unat c3 mod 64"
        unfolding x_def by (rule base64, rule small)+
      have d2: "x div 4096 = ?a" unfolding div_join(1) [symmetric] d1 by (rule base64, rule small)
      show "x div 262144 = unat c mod 8" unfolding div_join(2) [symmetric] d2 by (rule base64, rule small)
      show "x div 4096 mod 64 = unat c1 mod 64" unfolding d2 by (rule base64, rule small)
      show "x div 64 mod 64 = unat c2 mod 64" unfolding d1 by (rule base64, rule small)
      show "x mod 64 = unat c3 mod 64" by (rule m1)
    qed
    have v: "utf8_value c cs = x" by (simp add: utf8_value_def 3 x_def)
    have "\<not> x < 0x80" "\<not> x < 0x800" "\<not> x < 0x10000" using assms(5) unfolding v by (simp_all add: 3 limits_def)
    then have "utf8_encode x = [of_nat (0xF0 + unat c mod 8), of_nat (0x80 + unat c1 mod 64),
        of_nat (0x80 + unat c2 mod 64), of_nat (0x80 + unat c3 mod 64)]"
      using x by (simp only: utf8_encode_def if_False if_True)
    then show ?thesis unfolding v using l cont [of c1] cont [of c2] cont [of c3] assms(2) 3 by simp
  qed
qed

lemma encode_parts:
  assumes "0x80 \<le> x" and "x \<le> MAXUNICODE"
  shows "\<exists>c cs. utf8_encode x = c # cs \<and> lead_ok c (length cs) \<and> list_all iscont cs \<and> cs \<noteq> [] \<and> length cs \<le> 3 \<and>
    unat (limits ! length cs) < x \<and> utf8_value c cs = x"
proof -
  have byte: "unat (of_nat n :: byte) = n" if "n < 256" for n using that by (simp add: unat_of_nat)
  have cont: "iscont (of_nat (0x80 + n mod 64))" "unat (of_nat (0x80 + n mod 64) :: byte) mod 64 = n mod 64" for n
  proof -
    have n: "n mod 64 < 64" by simp
    then have "unat (of_nat (0x80 + n mod 64) :: byte) = 2 * 64 + n mod 64" using byte [of "0x80 + n mod 64"] by simp
    moreover have "(2 * 64 + n mod 64) mod 64 = n mod 64" by (rule base64(2) [OF n])
    ultimately show "iscont (of_nat (0x80 + n mod 64))" "unat (of_nat (0x80 + n mod 64) :: byte) mod 64 = n mod 64"
      using n unfolding iscont_range by simp_all
  qed
  have low: "m < k \<Longrightarrow> (a * k + m) mod k = m" for a k m :: nat by simp
  have lead: "lead_ok (of_nat (0xC0 + m)) 1 \<and> unat (of_nat (0xC0 + m) :: byte) mod 32 = m" if "m < 32" for m
    using byte [of "0xC0 + m"] low [of m 32 6] that unfolding lead_range by simp
  have lead2: "lead_ok (of_nat (0xE0 + m)) 2 \<and> unat (of_nat (0xE0 + m) :: byte) mod 16 = m" if "m < 16" for m
    using byte [of "0xE0 + m"] low [of m 16 14] that unfolding lead_range by simp
  have lead3: "lead_ok (of_nat (0xF0 + m)) 3 \<and> unat (of_nat (0xF0 + m) :: byte) mod 8 = m" if "m < 8" for m
    using byte [of "0xF0 + m"] low [of m 8 30] that unfolding lead_range by simp
  have sum: "x div 64 * 64 + x mod 64 = x" "x div 4096 * 64 + x div 64 mod 64 = x div 64"
    "x div 262144 * 64 + x div 4096 mod 64 = x div 4096"
    using div_mult_mod_eq [of "x div 64" 64] div_mult_mod_eq [of "x div 4096" 64] unfolding div_join by simp_all
  consider "x < 0x800" | "0x800 \<le> x" "x < 0x10000" | "0x10000 \<le> x" by linarith
  then show ?thesis
  proof cases
    case 1
    then have "x div 64 < 32" by linarith
    then show ?thesis using 1 assms cont [of x] lead [of "x div 64"] sum
      by (intro exI [of _ "of_nat (0xC0 + x div 64)"] exI [of _ "[of_nat (0x80 + x mod 64)]"])
        (simp add: utf8_encode_def utf8_value_def limits_def del: of_nat_add)
  next
    case 2
    then have "x div 4096 < 16" by linarith
    then show ?thesis using 2 assms cont [of x] cont [of "x div 64"] lead2 [of "x div 4096"] sum
      by (intro exI [of _ "of_nat (0xE0 + x div 4096)"] exI [of _ "[of_nat (0x80 + x div 64 mod 64), of_nat (0x80 + x mod 64)]"])
        (simp add: utf8_encode_def utf8_value_def limits_def numeral_2_eq_2 [symmetric] del: of_nat_add)
  next
    case 3
    then have "x div 262144 < 8" using assms(2) by linarith
    then show ?thesis using 3 assms cont [of x] cont [of "x div 64"] cont [of "x div 4096"] lead3 [of "x div 262144"] sum
      by (intro exI [of _ "of_nat (0xF0 + x div 262144)"]
          exI [of _ "[of_nat (0x80 + x div 4096 mod 64), of_nat (0x80 + x div 64 mod 64), of_nat (0x80 + x mod 64)]"])
        (simp add: utf8_encode_def utf8_value_def limits_def numeral_3_eq_3 [symmetric] del: of_nat_add)
  qed
qed

definition chars_at :: "byte list \<Rightarrow> nat \<Rightarrow> byte list \<Rightarrow> bool" where
  "chars_at s p bs \<longleftrightarrow> (\<forall>j < length bs. byte_at s (p + j) = Inr (bs ! j))"

lemma chars_at_Cons: "chars_at s p (b # bs) \<longleftrightarrow> byte_at s p = Inr b \<and> chars_at s (Suc p) bs"
  unfolding chars_at_def by (auto simp: less_Suc_eq_0_disj)

lemma ucast_lt: "(ucast (c :: byte) :: u32) < 0x80 \<longleftrightarrow> unat c < 0x80"
proof -
  have "unat c < 2 ^ LENGTH(8)" by (rule unsigned_less)
  then have "take_bit 32 (unat c) = unat c" by (simp add: take_bit_nat_eq_self)
  then show ?thesis by (simp add: word_less_nat_alt unsigned_ucast_eq)
qed

lemma accept_iff:
  assumes "length cs \<le> 3" and "\<not> bit c (6 - length cs)"
  shows "(if 3 < length cs \<or> of_nat MAXUNICODE < decoded c cs \<or> decoded c cs \<le> limits ! length cs then Inr None
      else Inr (Some (decoded c cs, n))) = (Inr (if unat (limits ! length cs) < utf8_value c cs \<and> utf8_value c cs \<le> MAXUNICODE
      then Some (of_nat (utf8_value c cs), n) else None) :: (u32 \<times> nat) option res)"
proof -
  have "decoded c cs = of_nat (utf8_value c cs)" unfolding decoded_value [OF assms, symmetric] by simp
  moreover have "of_nat MAXUNICODE < decoded c cs \<longleftrightarrow> MAXUNICODE < utf8_value c cs"
    unfolding word_less_nat_alt decoded_value [OF assms] by simp
  moreover have "decoded c cs \<le> limits ! length cs \<longleftrightarrow> utf8_value c cs \<le> unat (limits ! length cs)"
    unfolding word_le_nat_alt decoded_value [OF assms] ..
  ultimately show ?thesis using assms(1) by auto
qed

lemma utf8_decode_multi:
  assumes c: "byte_at s p = Inr c" and hi: "0x80 \<le> unat c"
  shows "utf8_decode s p = Inr (Some (v, p1)) \<longleftrightarrow>
    (\<exists>cs. lead_ok c (length cs) \<and> list_all iscont cs \<and> length cs \<le> 3 \<and> chars_at s (Suc p) cs \<and>
       unat (limits ! length cs) < utf8_value c cs \<and> utf8_value c cs \<le> MAXUNICODE \<and>
       v = of_nat (utf8_value c cs) \<and> p1 = p + Suc (length cs))" (is "?L \<longleftrightarrow> (\<exists>cs. ?R cs)")
proof
  have d: "utf8_decode s p = ebind (utf8_conts s p 0 (ucast c) 0) (\<lambda>m. case m of
            None \<Rightarrow> Inr None
          | Some (count, c, r) \<Rightarrow>
              let r = r OR push_bit (count * 5) (c AND 0x7F) in
              if 3 < count \<or> of_nat MAXUNICODE < r \<or> r \<le> limits ! count then Inr None
              else Inr (Some (r, p + count + 1)))"
  proof -
    have "\<not> (ucast c :: u32) < 0x80" using hi ucast_lt [of c] by simp
    then show ?thesis unfolding utf8_decode_def c ebind_Inr Let_def by (simp only: if_False)
  qed
  have val: "cont_bits cs 0 OR push_bit (length cs * 5) (push_bit (length cs) (ucast c) AND 0x7F) = decoded c cs" for cs
    by (simp add: decoded_def)
  have bits: "bit (push_bit j (ucast c :: u32)) 6 \<longleftrightarrow> bit c (6 - j)" if "j \<le> 6" for j
    using that by (auto simp: bit_push_bit_iff bit_ucast_iff dest: bit_imp_le_length)
  {
    assume ?L
    then obtain count c' r' where m: "utf8_conts s p 0 (ucast c) 0 = Inr (Some (count, c', r'))" "\<not> 3 < count"
    proof -
      obtain mo where mo: "utf8_conts s p 0 (ucast c) 0 = Inr mo" using \<open>?L\<close> unfolding d ebind_eq_Inr by blast
      then show ?thesis using that \<open>?L\<close> unfolding d by (cases mo) (auto simp: Let_def split: if_splits)
    qed
    from conts_result [OF m(1)] obtain cs where cs: "count = length cs" "list_all iscont cs" "c' = push_bit (length cs) (ucast c)"
      "r' = cont_bits cs 0" "\<forall>j < length cs. byte_at s (p + 0 + Suc j) = Inr (cs ! j)"
      "\<forall>j < length cs. bit (push_bit j (ucast c :: u32)) 6" "\<not> bit (push_bit (length cs) (ucast c :: u32)) 6" by auto
    have k: "length cs \<le> 3" using m(2) cs(1) by simp
    have lead: "lead_ok c (length cs)" using cs(6,7) hi bits k by (simp add: lead_ok_def)
    then have n6: "\<not> bit c (6 - length cs)" by (simp add: lead_ok_def)
    have "Inr (if unat (limits ! length cs) < utf8_value c cs \<and> utf8_value c cs \<le> MAXUNICODE
      then Some (of_nat (utf8_value c cs), p + length cs + 1) else None) = (Inr (Some (v, p1)) :: (u32 \<times> nat) option res)"
      using \<open>?L\<close> unfolding d m(1) ebind_Inr option.case prod.case Let_def cs(1,3,4) val accept_iff [OF k n6] .
    then have "?R cs" using cs(2,5) k lead by (auto simp: chars_at_def split: if_splits)
    then show "\<exists>cs. ?R cs" ..
  }
  assume "\<exists>cs. ?R cs"
  then obtain cs where cs: "?R cs" ..
  then have k: "length cs \<le> 3" and n6: "\<not> bit c (6 - length cs)" by (simp_all add: lead_ok_def)
  have "utf8_conts s p 0 (ucast c) 0 = Inr (Some (0 + length cs, push_bit (length cs) (ucast c), cont_bits cs 0))"
    by (rule conts_read) (use cs k in \<open>auto simp: lead_ok_def chars_at_def bit_ucast_iff\<close>)
  then show ?L
    unfolding d by (simp only: ebind_Inr option.case prod.case Let_def add_0 val accept_iff [OF k n6]) (use cs in simp)
qed

text \<open>The main lemma: the code accepts exactly the encodings of code points.\<close>

lemma utf8_decode_iff:
  assumes "p \<le> length s"
  shows "utf8_decode s p = Inr (Some (v, p1)) \<longleftrightarrow>
    (\<exists>x \<le> MAXUNICODE. v = of_nat x \<and> p1 = p + length (utf8_encode x) \<and> chars_at s p (utf8_encode x))"
proof -
  obtain c where c: "byte_at s p = Inr c" using assms by (cases "p < length s") (auto simp: byte_at_def)
  show ?thesis
  proof (cases "unat c < 0x80")
    case True
    then have d: "utf8_decode s p = Inr (Some (ucast c, p + 1))"
      using c ucast_lt [of c] by (simp add: utf8_decode_def Let_def)
    have enc: "utf8_encode (unat c) = [c]" using True by (simp add: utf8_encode_def)
    have x: "x = unat c" if "x \<le> MAXUNICODE" "chars_at s p (utf8_encode x)" for x
    proof (cases "x < 0x80")
      case True
      then show ?thesis using that(2) c by (auto simp: utf8_encode_def chars_at_Cons unat_of_nat)
    next
      case False
      then have "\<exists>c cs. utf8_encode x = c # cs \<and> lead_ok c (length cs)" using encode_parts [of x] that(1) by auto
      then have False using that(2) c True by (auto simp: chars_at_Cons lead_ok_def)
      then show ?thesis ..
    qed
    have u: "of_nat (unat c) = (ucast c :: u32)" by simp
    have here: "chars_at s p (utf8_encode (unat c))" using c enc by (simp add: chars_at_Cons chars_at_def [of _ _ "[]"])
    show ?thesis
      unfolding d
    proof (intro iffI)
      assume "Inr (Some (ucast c, p + 1)) = (Inr (Some (v, p1)) :: (u32 \<times> nat) option res)"
      then show "\<exists>x \<le> MAXUNICODE. v = of_nat x \<and> p1 = p + length (utf8_encode x) \<and> chars_at s p (utf8_encode x)"
        using here enc u True by (intro exI [of _ "unat c"]) simp
    next
      assume "\<exists>x \<le> MAXUNICODE. v = of_nat x \<and> p1 = p + length (utf8_encode x) \<and> chars_at s p (utf8_encode x)"
      then obtain y where "y \<le> MAXUNICODE" "v = of_nat y" "p1 = p + length (utf8_encode y)" "chars_at s p (utf8_encode y)" by blast
      then have "v = ucast c" "p1 = p + 1" using x [of y] u enc by simp_all
      then show "Inr (Some (ucast c, p + 1)) = (Inr (Some (v, p1)) :: (u32 \<times> nat) option res)" by simp
    qed
  next
    case False
    then have hi: "0x80 \<le> unat c" by simp
    show ?thesis unfolding utf8_decode_multi [OF c hi]
    proof (intro iffI; elim exE conjE)
      fix cs
      assume cs: "lead_ok c (length cs)" "list_all iscont cs" "length cs \<le> 3" "chars_at s (Suc p) cs"
        "unat (limits ! length cs) < utf8_value c cs" "utf8_value c cs \<le> MAXUNICODE"
        "v = of_nat (utf8_value c cs)" "p1 = p + Suc (length cs)"
      have "cs \<noteq> []"
      proof
        assume nil: "cs = []"
        have "unat c mod 64 < 64" by simp
        then show False using cs(5) by (simp add: nil limits_def utf8_value_def)
      qed
      then have "utf8_encode (utf8_value c cs) = c # cs" by (rule encode_decode [OF cs(1,2) _ cs(3,5,6)])
      then show "\<exists>x \<le> MAXUNICODE. v = of_nat x \<and> p1 = p + length (utf8_encode x) \<and> chars_at s p (utf8_encode x)"
        using cs c by (intro exI [of _ "utf8_value c cs"]) (simp add: chars_at_Cons)
    next
      fix x
      assume x: "x \<le> MAXUNICODE" "v = of_nat x" "p1 = p + length (utf8_encode x)" "chars_at s p (utf8_encode x)"
      have "0x80 \<le> x"
      proof (rule ccontr)
        assume "\<not> 0x80 \<le> x"
        then show False using x(4) c hi by (simp add: utf8_encode_def chars_at_Cons unat_of_nat)
      qed
      from encode_parts [OF this x(1)] obtain c' cs where "utf8_encode x = c' # cs" "lead_ok c' (length cs)"
        "list_all iscont cs" "length cs \<le> 3" "unat (limits ! length cs) < x" "utf8_value c' cs = x" by blast
      then show "\<exists>cs. lead_ok c (length cs) \<and> list_all iscont cs \<and> length cs \<le> 3 \<and> chars_at s (Suc p) cs \<and>
          unat (limits ! length cs) < utf8_value c cs \<and> utf8_value c cs \<le> MAXUNICODE \<and>
          v = of_nat (utf8_value c cs) \<and> p1 = p + Suc (length cs)"
        using x c by (intro exI [of _ cs]) (simp add: chars_at_Cons)
    qed
  qed
qed

lemma utf8_decode_ends: "p \<le> length s \<Longrightarrow> \<exists>d. utf8_decode s p = Inr d"
proof (cases "p = length s")
  case False
  assume "p \<le> length s"
  then have p: "p < length s" using False by simp
  then obtain m where m: "utf8_conts s p 0 (ucast (s ! p)) 0 = Inr m" using conts_ends [of p 0 s] by auto
  show ?thesis using p m by (cases m) (auto simp: utf8_decode_def Let_def)
qed (simp add: utf8_decode_def)

text \<open>C25:
  \<open>utf8_decode\<close> accepts exactly the UTF-8 encodings of the code points up to \<open>10FFFF\<close>: at
  every position of every string it returns, without reading behind the zero byte at the end;
  it delivers a code and a new position when the bytes there are the encoding of that code
  (never an overlong form), and \<open>NULL\<close> otherwise.
\<close>

theorem utf8_decode_exact:
  assumes "p \<le> length s"
  shows "(\<exists>d. utf8_decode s p = Inr d) \<and>
    (\<forall>v p1. utf8_decode s p = Inr (Some (v, p1)) \<longleftrightarrow>
      (\<exists>x \<le> MAXUNICODE. v = of_nat x \<and> p1 = p + length (luaO_utf8esc x) \<and> chars_at s p (luaO_utf8esc x)))"
  using utf8_decode_ends [OF assms] utf8_decode_iff [OF assms] utf8esc_encodes by auto

lemma utf8_decode_exact_witness: "utf8_decode [0xE2, 0x82, 0xAC] 0 = Inr (Some (0x20AC, 3))"
proof -
  let ?s = "[0xE2, 0x82, 0xAC] :: byte list"
  have "luaO_utf8esc 0x20AC = ?s" by (simp add: utf8esc_encodes utf8_encode_def)
  then have "\<exists>x \<le> MAXUNICODE. (0x20AC :: u32) = of_nat x \<and> 3 = 0 + length (luaO_utf8esc x) \<and> chars_at ?s 0 (luaO_utf8esc x)"
    by (intro exI [of _ "0x20AC"]) (simp add: chars_at_Cons chars_at_def [of _ _ "[]"] byte_at_def)
  then show ?thesis using utf8_decode_exact [of 0 ?s] by blast
qed

section \<open>Well formed strings\<close>

definition utf8_string :: "nat list \<Rightarrow> byte list" where
  "utf8_string cs = concat (map utf8_encode cs)"

lemma utf8_string_simps [simp]:
  "utf8_string [] = []" "utf8_string (x # cs) = utf8_encode x @ utf8_string cs"
  "utf8_string (cs @ ds) = utf8_string cs @ utf8_string ds"
  by (simp_all add: utf8_string_def)

lemma encode_shape:
  assumes "x \<le> MAXUNICODE"
  shows "\<exists>c cs. utf8_encode x = c # cs \<and> \<not> iscont c \<and> list_all iscont cs"
proof (cases "x < 0x80")
  case True
  then have "\<not> iscont (of_nat x)" unfolding iscont_range by (simp add: unat_of_nat)
  then show ?thesis using True by (simp add: utf8_encode_def)
next
  case False
  then obtain c cs where c: "utf8_encode x = c # cs" "lead_ok c (length cs)" "list_all iscont cs" "cs \<noteq> []"
    using encode_parts [of x] assms by auto
  then have "bit c 6" by (auto simp: lead_ok_def)
  moreover have "0x80 \<le> unat c" using c(2) by (simp add: lead_ok_def)
  ultimately have "\<not> iscont c" using lead_range(1) [of c] unfolding iscont_range by (auto simp: lead_ok_def)
  then show ?thesis using c by blast
qed

lemma encode_length: "0 < length (utf8_encode x)"
  by (simp add: utf8_encode_def)

lemma decode_here:
  assumes "x \<le> MAXUNICODE"
  shows "utf8_decode (xs @ utf8_encode x @ ys) (length xs) = Inr (Some (of_nat x, length xs + length (utf8_encode x)))"
proof -
  have "chars_at (xs @ utf8_encode x @ ys) (length xs) (utf8_encode x)"
    by (simp add: chars_at_def byte_at_append) (simp add: byte_at_def nth_append)
  then show ?thesis using assms by (subst utf8_decode_iff) auto
qed

lemma code_unat: "x \<le> MAXUNICODE \<Longrightarrow> unat (of_nat x :: u32) = x"
  by (simp add: unat_of_nat)

lemma utflen_loop_string:
  "list_all (\<lambda>x. x \<le> MAXUNICODE) cs \<Longrightarrow>
    utflen_loop (xs @ utf8_string cs) (length xs) (int (length (xs @ utf8_string cs)) - 1) n = Inr (Inl (n + length cs))"
proof (induction cs arbitrary: xs n)
  case Nil
  then show ?case by (simp add: utflen_loop.simps)
next
  case (Cons x cs)
  have "utflen_loop ((xs @ utf8_encode x) @ utf8_string cs) (length (xs @ utf8_encode x))
      (int (length ((xs @ utf8_encode x) @ utf8_string cs)) - 1) (n + 1) = Inr (Inl (n + 1 + length cs))"
    by (rule Cons.IH) (use Cons.prems in simp)
  moreover have "0 < int (length (utf8_encode x)) + int (length (utf8_string cs))" using encode_length [of x] by linarith
  ultimately show ?case
    using decode_here [of x xs "utf8_string cs"] Cons.prems
    by (subst utflen_loop.simps) simp
qed

lemma codepoint_loop_string:
  "list_all (\<lambda>x. x \<le> MAXUNICODE) cs \<Longrightarrow>
    codepoint_loop (xs @ utf8_string cs) (length xs) (int (length (xs @ utf8_string cs))) = Inr cs"
proof (induction cs arbitrary: xs)
  case Nil
  then show ?case by (simp add: codepoint_loop.simps)
next
  case (Cons x cs)
  have "codepoint_loop ((xs @ utf8_encode x) @ utf8_string cs) (length (xs @ utf8_encode x))
      (int (length ((xs @ utf8_encode x) @ utf8_string cs))) = Inr cs"
    by (rule Cons.IH) (use Cons.prems in simp)
  moreover have "0 < int (length (utf8_encode x)) + int (length (utf8_string cs))" using encode_length [of x] by linarith
  ultimately show ?case
    using decode_here [of x xs "utf8_string cs"] Cons.prems code_unat [of x]
    by (subst codepoint_loop.simps) simp
qed

lemma utfchar_string:
  assumes "list_all (\<lambda>x. x \<le> MAXUNICODE) cs"
  shows "utfchar (map int cs) = Inr (utf8_string cs)"
proof -
  have push: "pushutfchar i (int x) = Inr (utf8_encode x)" if "x \<le> MAXUNICODE" for i x
    using that by (simp add: pushutfchar_def utf8esc_encodes)
  have "efold (\<lambda>(i, c) b. ebind (pushutfchar i c) (\<lambda>u. Inr (b @ u))) (zip is (map int cs)) b = Inr (b @ utf8_string cs)"
    if "length is = length cs" "list_all (\<lambda>x. x \<le> MAXUNICODE) cs" for "is" cs b
    using that
  proof (induction cs arbitrary: "is" b)
    case (Cons x cs)
    then show ?case using push by (cases "is") auto
  qed simp
  from this [of "[1..<Suc (length cs)]" cs "[]"] assms have
    "efold (\<lambda>(i, c) b. ebind (pushutfchar i c) (\<lambda>u. Inr (b @ u))) (zip [1..<Suc (length cs)] (map int cs)) [] = Inr (utf8_string cs)"
    by (simp del: upt_Suc)
  moreover have "utfchar (map int cs) = Inr (utf8_string cs)" if one: "length cs = 1"
  proof -
    obtain x where "cs = [x]" using one by (auto simp: length_Suc_conv)
    then show ?thesis using assms push by (simp add: utfchar_def)
  qed
  ultimately show ?thesis by (cases "length cs = 1") (simp_all add: utfchar_def del: upt_Suc)
qed

text \<open>C20:
  \<open>utf8.char\<close> and \<open>utf8.codepoint\<close> are inverse: the string made of any list of code points
  gives back that list when it is read from its first to its last byte, if the Lua stack has room
  for a slot per byte, which \<open>codepoint\<close> asks for; if not (fewer than a million slots are left, and
  the string is short of the range of \<open>int\<close>), it raises a stack overflow.  \<open>utf8.len\<close> of
  the string is the number of code points.
\<close>

theorem utf8_roundtrip:
  assumes "list_all (\<lambda>x. x \<le> MAXUNICODE) cs" and "length s + LUA_MINSTACK < 2 ^ 31" and "utfchar (map int cs) = Inr s"
  shows "codepoint used s (Some 1) (Some (- 1)) =
      (if cs = [] \<or> lua_checkstack used (length s + LUA_MINSTACK) then Inr cs
       else Inl (RunError ''stack overflow (string slice too long)'')) \<and>
    utflen s None None = Inr (Inl (length cs))"
proof -
  have s: "s = utf8_string cs" using utfchar_string [OF assms(1)] assms(3) by simp
  show ?thesis
  proof
    show "codepoint used s (Some 1) (Some (- 1)) =
      (if cs = [] \<or> lua_checkstack used (length s + LUA_MINSTACK) then Inr cs
       else Inl (RunError ''stack overflow (string slice too long)''))"
    proof (cases "cs = []")
      case True
      then show ?thesis by (simp add: s codepoint_def u_posrelat_def)
    next
      case False
      then have pos: "0 < length s" using encode_length by (cases cs) (simp_all add: s)
      have stack: "luaL_checkstack used (length s) ''string slice too long'' =
        guard_or (lua_checkstack used (length s + LUA_MINSTACK)) (RunError ''stack overflow (string slice too long)'')"
        using assms(2) by (simp add: luaL_checkstack_def checked_int_def)
      have "codepoint used s (Some 1) (Some (- 1)) = ebind (luaL_checkstack used (length s) ''string slice too long'')
          (\<lambda>_. codepoint_loop s 0 (int (length s)))"
        using pos assms(2) Suc_nat_eq_nat_zadd1 [of "int (length s) - 1"] by (simp add: codepoint_def u_posrelat_def Let_def)
      then show ?thesis using codepoint_loop_string [OF assms(1), of "[]"] False
        by (simp add: stack [unfolded s] guard_or_def s)
    qed
    show "utflen s None None = Inr (Inl (length cs))"
      using utflen_loop_string [OF assms(1), of "[]" 0] by (cases "s = []") (auto simp: s utflen_def u_posrelat_def)
  qed
qed

lemma utf8_roundtrip_witness: "codepoint 3 [0x61, 0xC3, 0xA9] (Some 1) (Some (- 1)) = Inr [0x61, 0xE9]"
  using utf8_roundtrip [of "[0x61, 0xE9]" "[0x61, 0xC3, 0xA9]" 3] utfchar_string [of "[0x61, 0xE9]"]
  by (simp add: utf8_encode_def lua_checkstack_def LUAI_MAXSTACK_def EXTRA_STACK_def LUA_MINSTACK_def)

section \<open>Positions\<close>

text \<open>Where the \<open>k\<close>-th code point starts.\<close>

definition start_of :: "nat list \<Rightarrow> nat \<Rightarrow> nat" where
  "start_of cs k = length (utf8_string (take k cs))"

lemma start_of_0 [simp]: "start_of cs 0 = 0"
  by (simp add: start_of_def)

lemma start_of_Suc: "k < length cs \<Longrightarrow> start_of cs (Suc k) = start_of cs k + length (utf8_encode (cs ! k))"
  by (simp add: start_of_def take_Suc_conv_app_nth)

lemma start_of_end: "length cs \<le> k \<Longrightarrow> start_of cs k = length (utf8_string cs)"
  by (simp add: start_of_def)

lemma string_split:
  "k < length cs \<Longrightarrow> utf8_string cs = utf8_string (take k cs) @ utf8_encode (cs ! k) @ utf8_string (drop (Suc k) cs)"
  using id_take_nth_drop [of k cs] by (metis utf8_string_simps(2,3))

lemma start_of_less:
  assumes "k < length cs"
  shows "start_of cs k < length (utf8_string cs)"
proof -
  have "length (utf8_string cs) = start_of cs k + (length (utf8_encode (cs ! k)) + length (utf8_string (drop (Suc k) cs)))"
    unfolding string_split [OF assms] start_of_def by simp
  then show ?thesis using encode_length [of "cs ! k"] by linarith
qed

lemma byte_at_start:
  assumes "list_all (\<lambda>x. x \<le> MAXUNICODE) cs"
  shows "\<exists>b. byte_at (utf8_string cs) (start_of cs k) = Inr b \<and> \<not> iscont b"
proof (cases "k < length cs")
  case True
  then have "cs ! k \<le> MAXUNICODE" using assms by (simp add: list_all_length)
  then obtain c ds where c: "utf8_encode (cs ! k) = c # ds" "\<not> iscont c" using encode_shape by blast
  have "byte_at (utf8_string cs) (start_of cs k + 0) = Inr c"
    unfolding string_split [OF True] start_of_def byte_at_append by (simp add: c(1) byte_at_def)
  then show ?thesis using c(2) by simp
next
  case False
  then show ?thesis by (simp add: start_of_end iscont_def)
qed

lemma byte_inside:
  assumes "list_all (\<lambda>x. x \<le> MAXUNICODE) cs" and "k < length cs" and "start_of cs k < p" "p < start_of cs (Suc k)"
  shows "\<exists>b. byte_at (utf8_string cs) p = Inr b \<and> iscont b"
proof -
  have "cs ! k \<le> MAXUNICODE" using assms(1,2) by (simp add: list_all_length)
  then obtain c ds where c: "utf8_encode (cs ! k) = c # ds" "list_all iscont ds" using encode_shape by blast
  define j where "j = p - start_of cs k - 1"
  have j: "p = start_of cs k + Suc j" "j < length ds"
    using assms(3,4) c(1) start_of_Suc [OF assms(2)] by (simp_all add: j_def)
  have "byte_at (utf8_string cs) (start_of cs k + Suc j) = Inr (ds ! j)"
    unfolding string_split [OF assms(2)] start_of_def byte_at_append using j(2) by (simp add: c(1) byte_at_def nth_append trans_less_add1)
  then show ?thesis using j c(2) by (simp add: list_all_length)
qed

lemma skip_to_start:
  assumes "list_all (\<lambda>x. x \<le> MAXUNICODE) cs" and "k < length cs" and "start_of cs k < p" and "p \<le> start_of cs (Suc k)"
  shows "skip_conts (utf8_string cs) p = Inr (start_of cs (Suc k))"
  using assms(3,4)
proof (induction "start_of cs (Suc k) - p" arbitrary: p)
  case 0
  then have "p = start_of cs (Suc k)" by simp
  then show ?case using byte_at_start [OF assms(1), of "Suc k"] by (auto simp: skip_conts.simps)
next
  case (Suc n)
  obtain b where "byte_at (utf8_string cs) p = Inr b" "iscont b" using byte_inside [OF assms(1,2)] Suc.prems Suc.hyps(2) by force
  moreover have "skip_conts (utf8_string cs) (p + 1) = Inr (start_of cs (Suc k))"
    by (rule Suc.hyps(1)) (use Suc.prems Suc.hyps(2) in simp_all)
  ultimately show ?case by (simp add: skip_conts.simps)
qed

lemma move_forth_starts:
  assumes cs: "list_all (\<lambda>x. x \<le> MAXUNICODE) cs" and "k \<le> length cs"
  shows "move_forth (utf8_string cs) n (start_of cs k) =
    Inr (if k + n \<le> length cs then (0, start_of cs (k + n)) else (n - (length cs - k), length (utf8_string cs)))"
  using assms(2)
proof (induction n arbitrary: k)
  case (Suc n)
  show ?case
  proof (cases "k < length cs")
    case True
    have lt: "start_of cs k < start_of cs (Suc k)" using start_of_Suc [OF True] encode_length by simp
    have "skip_conts (utf8_string cs) (start_of cs k + 1) = Inr (start_of cs (Suc k))"
      by (rule skip_to_start [OF cs True]) (use lt in simp_all)
    then show ?thesis using Suc.IH [of "Suc k"] True start_of_less [OF True] by auto
  next
    case False
    then show ?thesis using Suc.prems by (simp add: start_of_end)
  qed
qed simp

lemma find_start_back:
  assumes "list_all (\<lambda>x. x \<le> MAXUNICODE) cs" and "k < length cs" and "start_of cs k \<le> p" and "p < start_of cs (Suc k)"
  shows "find_start (utf8_string cs) p = Inr (start_of cs k)"
  using assms(3,4)
proof (induction p)
  case (Suc p)
  show ?case
  proof (cases "start_of cs k = Suc p")
    case True
    then show ?thesis using byte_at_start [OF assms(1), of k] by auto
  next
    case False
    then obtain b where "byte_at (utf8_string cs) (Suc p) = Inr b" "iscont b"
      using byte_inside [OF assms(1,2), of "Suc p"] Suc.prems by auto
    then show ?thesis using Suc.IH Suc.prems False by simp
  qed
qed simp

lemma move_back_starts:
  assumes cs: "list_all (\<lambda>x. x \<le> MAXUNICODE) cs" and "k \<le> length cs"
  shows "move_back (utf8_string cs) n (start_of cs k) = Inr (if n \<le> k then (0, start_of cs (k - n)) else (n - k, 0))"
  using assms(2)
proof (induction n arbitrary: k)
  case 0
  then show ?case by (cases "start_of cs k") simp_all
next
  case (Suc n)
  show ?case
  proof (cases k)
    case (Suc j)
    then have j: "j < length cs" using Suc.prems by simp
    obtain p where p: "start_of cs k = Suc p" using start_of_Suc [OF j] encode_length [of "cs ! j"] Suc by (cases "start_of cs k") auto
    have pj: "start_of cs (Suc j) = Suc p" using p Suc by simp
    have "find_start (utf8_string cs) p = Inr (start_of cs j)"
      by (rule find_start_back [OF cs j]) (use pj start_of_Suc [OF j] encode_length [of "cs ! j"] in linarith)+
    then show ?thesis using Suc.IH [of j] j p Suc by simp
  qed simp
qed

text \<open>
  \<open>utf8.offset\<close> and the iterator of \<open>utf8.codes\<close> find the characters of a well formed string:
  counting from its beginning, the \<open>n\<close>-th character starts where the encodings of the first
  \<open>n - 1\<close> end, and there is none beyond the position after the last; counting backwards from
  the end likewise; and the iterator goes from the start of each character to the start and
  code of the next.
\<close>

theorem utf8_positions:
  assumes "list_all (\<lambda>x. x \<le> MAXUNICODE) cs" and "s = utf8_string cs"
  shows "byteoffset s (int n + 1) None = Inr (if n \<le> length cs then Some (int (start_of cs n) + 1) else None) \<and>
    byteoffset s (- int n - 1) None =
      Inr (if Suc n \<le> length cs then Some (int (start_of cs (length cs - Suc n)) + 1) else None) \<and>
    iter_aux s 0 = Inr (if cs = [] then None else Some (1, hd cs)) \<and>
    (k < length cs \<longrightarrow> iter_aux s (int (start_of cs k) + 1) =
      Inr (if Suc k < length cs then Some (int (start_of cs (Suc k)) + 1, cs ! Suc k) else None))"
proof (intro conjI impI)
  note cs = assms(1)
  show "byteoffset s (int n + 1) None = Inr (if n \<le> length cs then Some (int (start_of cs n) + 1) else None)"
    using byte_at_start [OF cs, of 0] move_forth_starts [OF cs, of 0 n]
    by (auto simp: byteoffset_def u_posrelat_def assms(2))
  show "byteoffset s (- int n - 1) None =
      Inr (if Suc n \<le> length cs then Some (int (start_of cs (length cs - Suc n)) + 1) else None)"
    using byte_at_start [OF cs, of "length cs"] move_back_starts [OF cs, of "length cs" "Suc n"]
    by (auto simp: byteoffset_def u_posrelat_def assms(2) start_of_end nat_add_distrib)
  have here: "ebind (utf8_decode s (start_of cs j)) (\<lambda>d. case d of
             None \<Rightarrow> Inl (RunError ''invalid UTF-8 code'')
           | Some (code, p) \<Rightarrow> ebind (byte_at s p) (\<lambda>b.
               if iscont b then Inl (RunError ''invalid UTF-8 code'')
               else Inr (Some (int (start_of cs j) + 1, unat code)))) = Inr (Some (int (start_of cs j) + 1, cs ! j))"
    if j: "j < length cs" for j
  proof -
    have x: "cs ! j \<le> MAXUNICODE" using cs j by (simp add: list_all_length)
    have "utf8_decode s (start_of cs j) = Inr (Some (of_nat (cs ! j), start_of cs (Suc j)))"
      unfolding assms(2) start_of_Suc [OF j] by (subst string_split [OF j]) (simp add: start_of_def decode_here [OF x])
    then show ?thesis using byte_at_start [OF cs, of "Suc j"] code_unat [OF x] by (auto simp: assms(2))
  qed
  show "iter_aux s 0 = Inr (if cs = [] then None else Some (1, hd cs))"
  proof (cases "cs = []")
    case False
    then have "0 < length cs" by simp
    then have "\<not> length s \<le> 0" using start_of_less [of 0 cs] by (simp add: assms(2))
    then show ?thesis using False here [of 0, unfolded start_of_0] by (simp add: iter_aux_def hd_conv_nth)
  qed (simp add: iter_aux_def assms(2))
  assume k: "k < length cs"
  have "skip_conts s (Suc (start_of cs k)) = Inr (start_of cs (Suc k))"
    unfolding assms(2) by (rule skip_to_start [OF cs k]) (use start_of_Suc [OF k] encode_length [of "cs ! k"] in linarith)+
  then have sk: "(if int (start_of cs k) + 1 - 1 < 0 then Inr 0
      else if int (start_of cs k) + 1 - 1 < int (length s) then skip_conts s (nat (int (start_of cs k) + 1 - 1 + 1))
      else Inr (nat (int (start_of cs k) + 1 - 1))) = Inr (start_of cs (Suc k))"
    using start_of_less [OF k] by (simp add: assms(2) nat_add_distrib)
  show "iter_aux s (int (start_of cs k) + 1) =
      Inr (if Suc k < length cs then Some (int (start_of cs (Suc k)) + 1, cs ! Suc k) else None)"
  proof (cases "Suc k < length cs")
    case True
    then have "\<not> length s \<le> start_of cs (Suc k)" using start_of_less [OF True] by (simp add: assms(2))
    then show ?thesis unfolding iter_aux_def Let_def sk ebind_Inr using True here [OF True] by simp
  next
    case False
    then show ?thesis unfolding iter_aux_def Let_def sk ebind_Inr by (simp add: assms(2) start_of_end)
  qed
qed

lemma utf8_positions_witness:
  "byteoffset [0x61, 0xC3, 0xA9, 0x62] 3 None = Inr (Some 4) \<and> iter_aux [0x61, 0xC3, 0xA9, 0x62] 1 = Inr (Some (2, 0xE9))"
proof -
  let ?cs = "[0x61, 0xE9, 0x62]"
  have "[0x61, 0xC3, 0xA9, 0x62] = utf8_string ?cs" by (simp add: utf8_encode_def)
  from utf8_positions [OF _ this, of 2 0] show ?thesis by (simp add: start_of_def utf8_encode_def)
qed

end
