(* ===== verification/Lua_Tablib.thy ===== *)
theory Lua_Tablib
  imports Lua_Table Lua_Args
begin

text \<open>
  \<open>ltablib.c\<close>: the library \<open>table\<close>.  Its functions reach the elements of a table through the
  two functions of a \<open>TabA\<close>, which are the raw accessors or those that respect metamethods;
  so do the definitions here, over any state \<open>'s\<close>.  Arguments are what the checks of
  \<open>lauxlib.c\<close> deliver, and \<open>lua_Integer\<close> values are \<open>int\<close>; \<open>len\<close> is the result of
  \<open>luaL_len\<close>.  The stack is taken to have room.
\<close>

section \<open>Access functions\<close>

record 's taba =
  ta_geti :: "int \<Rightarrow> 's \<Rightarrow> (tvalue \<times> 's) res"
  ta_seti :: "int \<Rightarrow> tvalue \<Rightarrow> 's \<Rightarrow> 's res"

text \<open>The raw accessors on a table.\<close>

definition raw_taba :: "u32 \<Rightarrow> table taba" where
  "raw_taba seed =
     \<lparr>ta_geti = (\<lambda>i t. ebind (rawgeti t (word_of_int i)) (\<lambda>v. Inr (v, t))),
      ta_seti = (\<lambda>i v t. rawseti seed t (word_of_int i) v)\<rparr>"

text \<open>\<open>checktab\<close>: \<open>mt\<close> is the metatable, if any; \<open>meta\<close> holds \<open>lua_geti\<close> and \<open>lua_seti\<close>.\<close>

definition checktab :: "u32 \<Rightarrow> nat \<Rightarrow> table option \<Rightarrow> bool \<Rightarrow> 's taba \<Rightarrow> 's taba \<Rightarrow> 's taba res" where
  "checktab seed arg mt is_table raw meta =
     ebind (case mt of None \<Rightarrow> Inr (False, False)
            | Some m \<Rightarrow> ebind (rawget seed m (LStr ''__index'')) (\<lambda>g.
                        ebind (rawget seed m (LStr ''__newindex'')) (\<lambda>s. Inr (g \<noteq> LNil, s \<noteq> LNil)))) (\<lambda>(g, s).
     ebind (if \<not> g \<or> \<not> s then guard_or is_table (ArgError arg ''table expected'') else Inr ()) (\<lambda>_.
     Inr \<lparr>ta_geti = (if g then ta_geti meta else ta_geti raw),
          ta_seti = (if s then ta_seti meta else ta_seti raw)\<rparr>))"

section \<open>Insert, remove, move\<close>

text \<open>\<open>t[d] = t[s]\<close>.\<close>

definition copy_elem :: "'s taba \<Rightarrow> int \<Rightarrow> int \<Rightarrow> 's \<Rightarrow> 's res" where
  "copy_elem ta from to s = ebind (ta_geti ta from s) (\<lambda>(v, s). ta_seti ta to v s)"

definition tinsert :: "'s taba \<Rightarrow> int \<Rightarrow> nat \<Rightarrow> int \<Rightarrow> tvalue \<Rightarrow> 's \<Rightarrow> 's res" where
  "tinsert ta len nargs pos v s =
     (let e = len + 1 in
      if nargs = 2 then ta_seti ta e v s
      else if nargs = 3
      then ebind (guard_or (1 \<le> pos \<and> pos \<le> e) (ArgError 2 ''position out of bounds'')) (\<lambda>_.
           ebind (efold (\<lambda>i. copy_elem ta (i - 1) i) (rev [pos + 1..e]) s) (\<lambda>s.
           ta_seti ta pos v s))
      else Inl (RunError ''wrong number of arguments to insert''))"

definition tremove :: "'s taba \<Rightarrow> int \<Rightarrow> int option \<Rightarrow> 's \<Rightarrow> (tvalue \<times> 's) res" where
  "tremove ta len pos s =
     (let pos = optint pos len in
      ebind (if pos \<noteq> len then guard_or (1 \<le> pos \<and> pos \<le> len + 1) (ArgError 1 ''position out of bounds'')
             else Inr ()) (\<lambda>_.
      ebind (ta_geti ta pos s) (\<lambda>(r, s).
      ebind (efold (\<lambda>pos. copy_elem ta (pos + 1) pos) [pos..len - 1] s) (\<lambda>s.
      ebind (ta_seti ta (max pos len) LNil s) (\<lambda>s. Inr (r, s))))))"

abbreviation (input) LUA_MAXINTEGER :: int where "LUA_MAXINTEGER \<equiv> 2 ^ 63 - 1"

text \<open>The state of \<open>tmove\<close> holds both tables, which may be the same.\<close>

definition tmove :: "'s taba \<Rightarrow> int \<Rightarrow> int \<Rightarrow> int \<Rightarrow> 's \<Rightarrow> 's res" where
  "tmove ta f e t s =
     (if f \<le> e
      then ebind (guard_or (0 < f \<or> e < LUA_MAXINTEGER + f) (ArgError 3 ''too many elements to move'')) (\<lambda>_.
           let n = e - f + 1 in
           ebind (guard_or (t \<le> LUA_MAXINTEGER - n + 1) (ArgError 4 ''destination wrap around'')) (\<lambda>_.
           if f < t then efold (\<lambda>i. copy_elem ta (f + i) (t + i)) (rev [0..n - 1]) s
           else efold (\<lambda>i. copy_elem ta (f + i) (t + i)) [0..n - 1] s))
      else Inr s)"

section \<open>Concat, pack, unpack\<close>

text \<open>\<open>tostr\<close> is the string that \<open>luaL_addvalue\<close> makes of a string or number, \<open>None\<close> for others.\<close>

definition addfield :: "(tvalue \<Rightarrow> string option) \<Rightarrow> 's taba \<Rightarrow> int \<Rightarrow> string \<times> 's \<Rightarrow> (string \<times> 's) res" where
  "addfield tostr ta i = (\<lambda>(b, s).
     ebind (ta_geti ta i s) (\<lambda>(v, s). case tostr v of
       None \<Rightarrow> Inl (RunError ''invalid value in table for concat'')
     | Some x \<Rightarrow> Inr (b @ x, s)))"

definition tconcat :: "(tvalue \<Rightarrow> string option) \<Rightarrow> 's taba \<Rightarrow> int \<Rightarrow> string \<Rightarrow> int option \<Rightarrow> int option \<Rightarrow> 's \<Rightarrow> (string \<times> 's) res" where
  "tconcat tostr ta len sep i last_i s =
     (let i = optint i 1; last_i = optint last_i len in
      ebind (efold (\<lambda>i (b, s). ebind (addfield tostr ta i (b, s)) (\<lambda>(b, s). Inr (b @ sep, s))) [i..last_i - 1] ('''', s)) (\<lambda>(b, s).
      if i \<le> last_i then addfield tostr ta last_i (b, s) else Inr (b, s)))"

definition tpack :: "u32 \<Rightarrow> tvalue list \<Rightarrow> table res" where
  "tpack seed args =
     (let n = length args in
      ebind (createtable seed n 1) (\<lambda>t.
      ebind (efold (\<lambda>i t. rawseti seed t (of_nat i) (args ! (i - 1))) (rev [1..<Suc n]) t) (\<lambda>t.
      rawset seed t (LStr ''n'') (LInt (of_nat n)))))"

definition tunpack :: "'s taba \<Rightarrow> int \<Rightarrow> int option \<Rightarrow> int option \<Rightarrow> 's \<Rightarrow> (tvalue list \<times> 's) res" where
  "tunpack ta len i e s =
     (let i = optint i 1; e = optint e len in
      if e < i then Inr ([], s)
      else if 2 ^ 31 - 1 \<le> e - i then Inl (RunError ''too many results to unpack'')
      else efold (\<lambda>i (vs, s). ebind (ta_geti ta i s) (\<lambda>(v, s). Inr (vs @ [v], s))) [i..e] ([], s))"

section \<open>Sort\<close>

text \<open>
  \<open>lt\<close> stands for \<open>sort_comp\<close>, which calls the order function or compares the values; it may
  change the state or raise an error.  \<open>set2\<close> stores the top of the stack, then the value
  below it.
\<close>

type_synonym 's order = "tvalue \<Rightarrow> tvalue \<Rightarrow> 's \<Rightarrow> (bool \<times> 's) res"

definition set2 :: "'s taba \<Rightarrow> int \<Rightarrow> int \<Rightarrow> tvalue \<Rightarrow> tvalue \<Rightarrow> 's \<Rightarrow> 's res" where
  "set2 ta i j v below s = ebind (ta_seti ta i v s) (ta_seti ta j below)"

text \<open>The loops that repeat \<open>++i\<close> until \<open>a[i] >= P\<close> and \<open>--j\<close> until \<open>a[j] <= P\<close>.\<close>

function scan_up :: "'s taba \<Rightarrow> 's order \<Rightarrow> tvalue \<Rightarrow> int \<Rightarrow> int \<Rightarrow> 's \<Rightarrow> (int \<times> tvalue \<times> 's) res" where
  "scan_up ta lt P u i s =
     (let i = i + 1 in
      ebind (ta_geti ta i s) (\<lambda>(x, s).
      ebind (lt x P s) (\<lambda>(b, s).
      if b then if u \<le> i then Inl (RunError ''invalid order function for sorting'') else scan_up ta lt P u i s
      else Inr (i, x, s))))"
  by pat_completeness auto
termination
  by (relation "measure (\<lambda>(ta, lt, P, u, i, s). nat (u - i))") auto

function scan_down :: "'s taba \<Rightarrow> 's order \<Rightarrow> tvalue \<Rightarrow> int \<Rightarrow> int \<Rightarrow> 's \<Rightarrow> (int \<times> tvalue \<times> 's) res" where
  "scan_down ta lt P l j s =
     (let j = j - 1 in
      ebind (ta_geti ta j s) (\<lambda>(y, s).
      ebind (lt P y s) (\<lambda>(b, s).
      if b then if j \<le> l then Inl (RunError ''invalid order function for sorting'') else scan_down ta lt P l j s
      else Inr (j, y, s))))"
  by pat_completeness auto
termination
  by (relation "measure (\<lambda>(ta, lt, P, l, j, s). nat (j - l))") auto

declare scan_up.simps [simp del] scan_down.simps [simp del]

lemma scan_up_moves: "scan_up ta lt P u i s = Inr (i', x, s') \<Longrightarrow> i < i' \<and> i' \<le> max u (i + 1)"
proof (induction ta lt P u i s rule: scan_up.induct)
  case (1 ta lt P u i s)
  show ?case
    using "1.prems" by (subst (asm) scan_up.simps)
      (auto simp: Let_def ebind_eq_Inr split: if_splits dest!: "1.IH" [OF refl])
qed

lemma scan_down_moves: "scan_down ta lt P l j s = Inr (j', y, s') \<Longrightarrow> j' < j"
proof (induction ta lt P l j s rule: scan_down.induct)
  case (1 ta lt P l j s)
  show ?case
    using "1.prems" by (subst (asm) scan_down.simps)
      (auto simp: Let_def ebind_eq_Inr split: if_splits dest!: "1.IH" [OF refl])
qed

text \<open>The \<open>for (;;)\<close> loop of the partition.\<close>

function partition_loop :: "'s taba \<Rightarrow> 's order \<Rightarrow> tvalue \<Rightarrow> int \<Rightarrow> int \<Rightarrow> int \<Rightarrow> int \<Rightarrow> 's \<Rightarrow> (int \<times> 's) res" where
  "partition_loop ta lt P l u i j s =
     ebind (scan_up ta lt P u i s) (\<lambda>(i, x, s).
     ebind (scan_down ta lt P l j s) (\<lambda>(j, y, s).
     if j < i then Inr (i, s)
     else ebind (set2 ta i j y x s) (\<lambda>s. partition_loop ta lt P l u i j s)))"
  by pat_completeness auto
termination
  by (relation "measure (\<lambda>(ta, lt, P, l, u, i, j, s). nat (j - i))")
    (auto dest!: scan_up_moves scan_down_moves)

declare partition_loop.simps [simp del]

lemma partition_loop_range:
  "partition_loop ta lt P l u i j s = Inr (i', s') \<Longrightarrow> i < u \<Longrightarrow> j \<le> u \<Longrightarrow> i < i' \<and> i' \<le> u"
proof (induction ta lt P l u i j s rule: partition_loop.induct)
  case (1 ta lt P l u i j s)
  obtain i1 x s1 j1 y s2 where up: "scan_up ta lt P u i s = Inr (i1, x, s1)"
    and down: "scan_down ta lt P l j s1 = Inr (j1, y, s2)"
    using "1.prems"(1) by (subst (asm) partition_loop.simps) (auto simp: ebind_eq_Inr)
  note m = scan_up_moves [OF up] scan_down_moves [OF down]
  show ?case
  proof (cases "j1 < i1")
    case True
    then show ?thesis using "1.prems" up down m by (subst (asm) partition_loop.simps) auto
  next
    case False
    then obtain s3 where s3: "set2 ta i1 j1 y x s2 = Inr s3" "partition_loop ta lt P l u i1 j1 s3 = Inr (i', s')"
      using "1.prems"(1) up down by (subst (asm) partition_loop.simps) (auto simp: ebind_eq_Inr)
    have "i1 < i' \<and> i' \<le> u"
      by (rule "1.IH" [OF up refl refl down refl refl False s3]) (use m False "1.prems" in simp_all)
    then show ?thesis using m by simp
  qed
qed

text \<open>The parts of \<open>auxsort\<close> before the partition, and the exchange after it.\<close>

definition sort_ends :: "'s taba \<Rightarrow> 's order \<Rightarrow> int \<Rightarrow> int \<Rightarrow> 's \<Rightarrow> 's res" where
  "sort_ends ta lt l u s =
     ebind (ta_geti ta l s) (\<lambda>(al, s).
     ebind (ta_geti ta u s) (\<lambda>(au, s).
     ebind (lt au al s) (\<lambda>(b, s).
     if b then set2 ta l u au al s else Inr s)))"

definition sort_middle :: "'s taba \<Rightarrow> 's order \<Rightarrow> int \<Rightarrow> int \<Rightarrow> int \<Rightarrow> 's \<Rightarrow> 's res" where
  "sort_middle ta lt l i u s =
     ebind (ta_geti ta i s) (\<lambda>(ai, s).
     ebind (ta_geti ta l s) (\<lambda>(al, s).
     ebind (lt ai al s) (\<lambda>(b, s).
     if b then set2 ta i l al ai s
     else ebind (ta_geti ta u s) (\<lambda>(au, s).
          ebind (lt au ai s) (\<lambda>(b, s).
          if b then set2 ta i u au ai s else Inr s)))))"

definition move_pivot :: "'s taba \<Rightarrow> int \<Rightarrow> int \<Rightarrow> 's \<Rightarrow> (tvalue \<times> 's) res" where
  "move_pivot ta i u s =
     ebind (ta_geti ta i s) (\<lambda>(P, s).
     ebind (ta_geti ta (u - 1) s) (\<lambda>(x, s).
     ebind (set2 ta i (u - 1) x P s) (\<lambda>s. Inr (P, s))))"

definition place_pivot :: "'s taba \<Rightarrow> int \<Rightarrow> int \<Rightarrow> 's \<Rightarrow> 's res" where
  "place_pivot ta i u s =
     ebind (ta_geti ta (u - 1) s) (\<lambda>(x, s).
     ebind (ta_geti ta i s) (\<lambda>(y, s).
     set2 ta (u - 1) i y x s))"

function auxsort :: "'s taba \<Rightarrow> 's order \<Rightarrow> int \<Rightarrow> int \<Rightarrow> 's \<Rightarrow> 's res" where
  "auxsort ta lt l u s =
     (if l < u
      then ebind (sort_ends ta lt l u s) (\<lambda>s.
           if u - l = 1 then Inr s
           else let i = (l + u) div 2 in
           ebind (sort_middle ta lt l i u s) (\<lambda>s.
           if u - l = 2 then Inr s
           else ebind (move_pivot ta i u s) (\<lambda>(P, s).
           ebind (partition_loop ta lt P l u l (u - 1) s) (\<lambda>(i, s).
           ebind (place_pivot ta i u s) (\<lambda>s.
           if i - l < u - i
           then ebind (auxsort ta lt l (i - 1) s) (\<lambda>s. auxsort ta lt (i + 1) u s)
           else ebind (auxsort ta lt (i + 1) u s) (\<lambda>s. auxsort ta lt l (i - 1) s))))))
      else Inr s)"
  by pat_completeness auto
termination
  by (relation "measure (\<lambda>(ta, lt, l, u, s). nat (u - l))")
    (auto dest!: partition_loop_range)

declare auxsort.simps [simp del]

definition tsort :: "'s taba \<Rightarrow> 's order \<Rightarrow> int \<Rightarrow> 's \<Rightarrow> 's res" where
  "tsort ta lt len s = auxsort ta lt 1 (sint (word_of_int len :: u32)) s"

end
