(* ===== verification/Lua_Tablib_Spec.thy ===== *)
theory Lua_Tablib_Spec
  imports Lua_Tablib Lua_Table_Spec "HOL-Library.Multiset"
begin

text \<open>
  What the functions of \<open>ltablib.c\<close> do, over any access functions that satisfy the contract
  \<open>tab_access\<close>; the raw accessors on a table of \<open>ltable.c\<close> are one instance.  The sort is
  correct for every strict weak order, and keeps all elements for any comparison whatever.
\<close>

lemma efold_map: "efold f (map g xs) s = efold (\<lambda>x. f (g x)) xs s"
proof (induction xs arbitrary: s)
  case (Cons x xs)
  have "efold f (map g xs) = efold (\<lambda>x. f (g x)) xs" using Cons by (rule ext)
  then show ?case by simp
qed simp

section \<open>The contract of the access functions\<close>

definition is_int64 :: "int \<Rightarrow> bool" where
  "is_int64 i \<longleftrightarrow> - (2 ^ 63) \<le> i \<and> i < 2 ^ 63"

text \<open>
  \<open>abs s i\<close> is the element at \<open>i\<close>; \<open>inv m s\<close> holds of states in which at most \<open>m\<close> stores under
  new keys were made.  A store under a key that is present always succeeds.
\<close>

locale tab_access =
  fixes ta :: "'s taba" and abs :: "'s \<Rightarrow> int \<Rightarrow> tvalue" and inv :: "nat \<Rightarrow> 's \<Rightarrow> bool" and cap :: nat
  assumes geti: "inv m s \<Longrightarrow> is_int64 i \<Longrightarrow> ta_geti ta i s = Inr (abs s i, s)"
    and seti_old: "inv m s \<Longrightarrow> is_int64 i \<Longrightarrow> abs s i \<noteq> LNil \<Longrightarrow>
      \<exists>s'. ta_seti ta i v s = Inr s' \<and> inv m s' \<and> abs s' = (abs s)(i := v)"
    and seti_new: "inv m s \<Longrightarrow> is_int64 i \<Longrightarrow> m < cap \<Longrightarrow>
      \<exists>s'. ta_seti ta i v s = Inr s' \<and> inv (Suc m) s' \<and> abs s' = (abs s)(i := v)"
begin

lemma copy_old:
  assumes "inv m s" and "is_int64 i" and "is_int64 j" and "abs s j \<noteq> LNil"
  shows "\<exists>s'. copy_elem ta i j s = Inr s' \<and> inv m s' \<and> abs s' = (abs s)(j := abs s i)"
  using geti [OF assms(1,2)] seti_old [OF assms(1,3,4), of "abs s i"] by (simp add: copy_elem_def)

lemma copy_new:
  assumes "inv m s" and "is_int64 i" and "is_int64 j" and "m < cap"
  shows "\<exists>s'. copy_elem ta i j s = Inr s' \<and> inv (Suc m) s' \<and> abs s' = (abs s)(j := abs s i)"
  using geti [OF assms(1,2)] seti_new [OF assms(1,3,4), of "abs s i"] by (simp add: copy_elem_def)

text \<open>Moving a block of elements one by one, in an order in which no element is read after it
  was overwritten.\<close>

lemma copy_all:
  assumes "inv m s" and "m + length ps \<le> cap"
    and "\<And>i j. (i, j) \<in> set ps \<Longrightarrow> is_int64 i \<and> is_int64 j"
    and "\<And>a b. a < b \<Longrightarrow> b < length ps \<Longrightarrow> snd (ps ! a) \<noteq> fst (ps ! b) \<and> snd (ps ! a) \<noteq> snd (ps ! b)"
  shows "\<exists>s'. efold (\<lambda>(i, j). copy_elem ta i j) ps s = Inr s' \<and> inv (m + length ps) s' \<and>
    (\<forall>k. abs s' k = (case map_of (map (\<lambda>(i, j). (j, i)) ps) k of None \<Rightarrow> abs s k | Some i \<Rightarrow> abs s i))"
  using assms
proof (induction ps arbitrary: m s)
  case (Cons p ps)
  obtain i j where p: "p = (i, j)" by (cases p)
  have ij: "is_int64 i" "is_int64 j" using Cons.prems(3) p by auto
  obtain s1 where s1: "copy_elem ta i j s = Inr s1" "inv (Suc m) s1" "abs s1 = (abs s)(j := abs s i)"
    using copy_new [OF Cons.prems(1) ij] Cons.prems(2) by auto
  have later: "snd (ps ! a) \<noteq> fst (ps ! b) \<and> snd (ps ! a) \<noteq> snd (ps ! b)" if "a < b" "b < length ps" for a b
    using Cons.prems(4) [of "Suc a" "Suc b"] that by simp
  have first: "i' \<noteq> j" "j' \<noteq> j" if ij': "(i', j') \<in> set ps" for i' j'
  proof -
    obtain b where "b < length ps" "ps ! b = (i', j')" using ij' by (auto simp: in_set_conv_nth)
    then show "i' \<noteq> j" "j' \<noteq> j" using Cons.prems(4) [of 0 "Suc b"] p by auto
  qed
  obtain s2 where s2: "efold (\<lambda>(i, j). copy_elem ta i j) ps s1 = Inr s2" "inv (Suc m + length ps) s2"
    "\<forall>k. abs s2 k = (case map_of (map (\<lambda>(i, j). (j, i)) ps) k of None \<Rightarrow> abs s1 k | Some i \<Rightarrow> abs s1 i)"
    using Cons.IH [OF s1(2) _ Cons.prems(3) later] Cons.prems(2) by auto
  have "abs s2 k = (case map_of (map (\<lambda>(i, j). (j, i)) (p # ps)) k of None \<Rightarrow> abs s k | Some i \<Rightarrow> abs s i)" for k
  proof (cases "map_of (map (\<lambda>(i, j). (j, i)) ps) k")
    case None
    then show ?thesis using s2(3) s1(3) p by auto
  next
    case (Some i')
    then have "(i', k) \<in> set ps" by (auto dest: map_of_SomeD)
    then have "i' \<noteq> j" "k \<noteq> j" using first by blast+
    then show ?thesis using s2(3) s1(3) p Some by auto
  qed
  then show ?case using s1(1) s2(1,2) p by auto
qed simp

lemma copy_range:
  assumes "inv m s" and "m + length is \<le> cap" and "distinct is"
    and "\<And>k. k \<in> set is \<Longrightarrow> is_int64 (f + k) \<and> is_int64 (t + k)"
    and "\<And>a b. a < b \<Longrightarrow> b < length is \<Longrightarrow> t + is ! a \<noteq> f + is ! b"
  shows "\<exists>s'. efold (\<lambda>k. copy_elem ta (f + k) (t + k)) is s = Inr s' \<and> inv (m + length is) s' \<and>
    (\<forall>k. abs s' k = (if k - t \<in> set is then abs s (f + (k - t)) else abs s k))"
proof -
  let ?ps = "map (\<lambda>k. (f + k, t + k)) is"
  have "\<exists>s'. efold (\<lambda>(i, j). copy_elem ta i j) ?ps s = Inr s' \<and> inv (m + length ?ps) s' \<and>
    (\<forall>k. abs s' k = (case map_of (map (\<lambda>(i, j). (j, i)) ?ps) k of None \<Rightarrow> abs s k | Some i \<Rightarrow> abs s i))"
    by (rule copy_all [OF assms(1)]) (use assms(2-5) in \<open>auto simp: nth_eq_iff_index_eq\<close>)
  moreover have "efold (\<lambda>(i, j). copy_elem ta i j) ?ps s = efold (\<lambda>k. copy_elem ta (f + k) (t + k)) is s"
    by (simp add: efold_map)
  moreover have "(case map_of (map (\<lambda>(i, j). (j, i)) ?ps) k of None \<Rightarrow> abs s k | Some i \<Rightarrow> abs s i) =
      (if k - t \<in> set is then abs s (f + (k - t)) else abs s k)" for k
  proof -
    have "map_of (map (\<lambda>k. (t + k, f + k)) is) k = (if k - t \<in> set is then Some (f + (k - t)) else None)"
      by (induction "is") auto
    then show ?thesis by (simp add: comp_def)
  qed
  ultimately show ?thesis by auto
qed

section \<open>Insert, remove, move\<close>

lemma tinsert_shifts:
  assumes "inv m s" and "1 \<le> pos" and "pos \<le> n + 1" and "0 \<le> n" and "n < 2 ^ 63 - 1" and "m + nat n + 1 \<le> cap"
  shows "\<exists>s'. tinsert ta n 3 pos v s = Inr s' \<and> inv (m + nat (n + 1 - pos) + 1) s' \<and>
    (\<forall>k. abs s' k = (if k = pos then v else if pos < k \<and> k \<le> n + 1 then abs s (k - 1) else abs s k))"
proof -
  let ?is = "rev [pos + 1..n + 1]"
  have len: "length ?is = nat (n + 1 - pos)" by simp
  have order: "?is ! a \<noteq> - 1 + ?is ! b" if "a < b" "b < length ?is" for a b
  proof -
    have "?is ! c = n + 1 - int c" if "c < length ?is" for c using that by (simp add: rev_nth)
    then show ?thesis using that by force
  qed
  have "\<exists>s'. efold (\<lambda>k. copy_elem ta (- 1 + k) (0 + k)) ?is s = Inr s' \<and> inv (m + length ?is) s' \<and>
    (\<forall>k. abs s' k = (if k - 0 \<in> set ?is then abs s (- 1 + (k - 0)) else abs s k))"
    by (rule copy_range [OF assms(1)]) (use assms order in \<open>auto simp: is_int64_def\<close>)
  then obtain s1 where r: "efold (\<lambda>k. copy_elem ta (- 1 + k) (0 + k)) ?is s = Inr s1" "inv (m + length ?is) s1"
    "\<forall>k. abs s1 k = (if k - 0 \<in> set ?is then abs s (- 1 + (k - 0)) else abs s k)" by blast
  have s1: "efold (\<lambda>i. copy_elem ta (i - 1) i) ?is s = Inr s1" "inv (m + nat (n + 1 - pos)) s1"
    "\<forall>k. abs s1 k = (if pos < k \<and> k \<le> n + 1 then abs s (k - 1) else abs s k)"
    using r(1) r(2) [unfolded len] r(3) by (simp_all add: add1_zle_eq)
  have "is_int64 pos" "m + nat (n + 1 - pos) < cap" using assms by (auto simp: is_int64_def)
  from seti_new [OF s1(2) this] obtain s2 where "ta_seti ta pos v s1 = Inr s2" "inv (Suc (m + nat (n + 1 - pos))) s2"
    "abs s2 = (abs s1)(pos := v)" by blast
  then show ?thesis using s1 assms(2,3) by (auto simp: tinsert_def Let_def)
qed

lemma tremove_shifts:
  assumes "inv m s" and "1 \<le> pos" and "pos \<le> n" and "n < 2 ^ 63 - 1" and "m + nat n + 1 \<le> cap"
  shows "\<exists>s'. tremove ta n (Some pos) s = Inr (abs s pos, s') \<and> inv (m + nat (n - pos) + 1) s' \<and>
    (\<forall>k. abs s' k = (if k = n then LNil else if pos \<le> k \<and> k < n then abs s (k + 1) else abs s k))"
proof -
  let ?is = "[pos..n - 1]"
  have len: "length ?is = nat (n - pos)" by simp
  have "\<exists>s'. efold (\<lambda>k. copy_elem ta (1 + k) (0 + k)) ?is s = Inr s' \<and> inv (m + length ?is) s' \<and>
    (\<forall>k. abs s' k = (if k - 0 \<in> set ?is then abs s (1 + (k - 0)) else abs s k))"
    by (rule copy_range [OF assms(1)]) (use assms in \<open>auto simp: is_int64_def\<close>)
  then obtain s1 where s1: "efold (\<lambda>pos. copy_elem ta (pos + 1) pos) ?is s = Inr s1" "inv (m + nat (n - pos)) s1"
    "\<forall>k. abs s1 k = (if pos \<le> k \<and> k < n then abs s (k + 1) else abs s k)"
    by (auto simp: len add.commute)
  have "is_int64 n" "m + nat (n - pos) < cap" using assms by (auto simp: is_int64_def)
  from seti_new [OF s1(2) this] obtain s2 where s2: "ta_seti ta n LNil s1 = Inr s2" "inv (Suc (m + nat (n - pos))) s2"
    "abs s2 = (abs s1)(n := LNil)" by blast
  have "is_int64 pos" using assms by (simp add: is_int64_def)
  then have "tremove ta n (Some pos) s = Inr (abs s pos, s2)"
    using s1(1) s2(1) geti [OF assms(1)] assms(2,3) by (auto simp: tremove_def Let_def max_def)
  then show ?thesis using s1(3) s2(2,3) by auto
qed

lemma tmove_moves:
  assumes "inv m s" and "is_int64 f" and "is_int64 e" and "is_int64 t" and "f \<le> e"
    and "e - f + 1 < 2 ^ 63" and "t + (e - f) < 2 ^ 63" and "m + nat (e - f + 1) \<le> cap"
  shows "\<exists>s'. tmove ta f e t s = Inr s' \<and> inv (m + nat (e - f + 1)) s' \<and>
    (\<forall>k. abs s' k = (if t \<le> k \<and> k \<le> t + (e - f) then abs s (f + (k - t)) else abs s k))"
proof -
  let ?n = "e - f + 1"
  have g: "0 < f \<or> e < LUA_MAXINTEGER + f" "t \<le> LUA_MAXINTEGER - ?n + 1" using assms(6,7) by simp_all
  have range: "is_int64 (f + k) \<and> is_int64 (t + k)" if "0 \<le> k" "k < ?n" for k
    using that assms(2-7) by (simp add: is_int64_def)
  have d: "distinct [0..?n - 1]" "length [0..?n - 1] = nat ?n" by simp_all
  show ?thesis
  proof (cases "f < t")
    case True
    have order: "t + rev [0..?n - 1] ! a \<noteq> f + rev [0..?n - 1] ! b" if "a < b" "b < length (rev [0..?n - 1])" for a b
    proof -
      have "rev [0..?n - 1] ! c = ?n - 1 - int c" if "c < nat ?n" for c using that by (simp add: rev_nth)
      then show ?thesis using that True by simp
    qed
    have "\<exists>s'. efold (\<lambda>k. copy_elem ta (f + k) (t + k)) (rev [0..?n - 1]) s = Inr s' \<and> inv (m + length (rev [0..?n - 1])) s' \<and>
      (\<forall>k. abs s' k = (if k - t \<in> set (rev [0..?n - 1]) then abs s (f + (k - t)) else abs s k))"
      by (rule copy_range [OF assms(1)]) (use assms(8) range order in auto)
    then show ?thesis using True assms(5) g by (auto simp: tmove_def Let_def)
  next
    case False
    have "\<exists>s'. efold (\<lambda>k. copy_elem ta (f + k) (t + k)) [0..?n - 1] s = Inr s' \<and> inv (m + length [0..?n - 1]) s' \<and>
      (\<forall>k. abs s' k = (if k - t \<in> set [0..?n - 1] then abs s (f + (k - t)) else abs s k))"
      by (rule copy_range [OF assms(1)]) (use assms(8) range False in auto)
    then show ?thesis using False assms(5) g by (auto simp: tmove_def Let_def)
  qed
qed

end

section \<open>Sorting: notions\<close>

text \<open>\<open>perm_on l u A B\<close>: \<open>B\<close> has the elements of \<open>A\<close> at \<open>l .. u\<close> in another order.\<close>

definition perm_on :: "int \<Rightarrow> int \<Rightarrow> (int \<Rightarrow> 'a) \<Rightarrow> (int \<Rightarrow> 'a) \<Rightarrow> bool" where
  "perm_on l u A B \<longleftrightarrow> (\<exists>p. bij p \<and> (\<forall>k. k \<notin> {l..u} \<longrightarrow> p k = k) \<and> B = A \<circ> p)"

lemma perm_on_refl: "perm_on l u A A"
  unfolding perm_on_def by (rule exI [of _ id]) simp

lemma perm_on_trans: "perm_on l u A B \<Longrightarrow> perm_on l u B C \<Longrightarrow> perm_on l u A C"
  unfolding perm_on_def
proof (elim exE conjE)
  fix p q assume "bij p" "\<forall>k. k \<notin> {l..u} \<longrightarrow> p k = k" "B = A \<circ> p" "bij q" "\<forall>k. k \<notin> {l..u} \<longrightarrow> q k = k" "C = B \<circ> q"
  then show "\<exists>p. bij p \<and> (\<forall>k. k \<notin> {l..u} \<longrightarrow> p k = k) \<and> C = A \<circ> p"
    by (intro exI [of _ "p \<circ> q"]) (auto intro: bij_comp)
qed

lemma perm_on_wider: "perm_on l u A B \<Longrightarrow> l' \<le> l \<Longrightarrow> u \<le> u' \<Longrightarrow> perm_on l' u' A B"
  unfolding perm_on_def by (elim exE conjE, rule exI) auto

lemma perm_on_outside: "perm_on l u A B \<Longrightarrow> k < l \<or> u < k \<Longrightarrow> B k = A k"
  unfolding perm_on_def by auto

lemma perm_on_swap:
  assumes "i \<in> {l..u}" and "j \<in> {l..u}"
  shows "perm_on l u A (A(i := A j, j := A i))"
proof -
  let ?p = "id(i := j, j := i)"
  have "?p \<circ> ?p = id" by (auto simp: fun_eq_iff)
  then have "bij ?p" by (metis o_bij)
  then show ?thesis unfolding perm_on_def using assms by (intro exI [of _ ?p]) (auto simp: fun_eq_iff)
qed

lemma perm_image:
  assumes "bij p" and "\<forall>k. k \<notin> S \<longrightarrow> p k = k"
  shows "p ` S = S"
proof -
  have "p ` (- S) = - S" using assms(2) by (auto simp: image_iff)
  then show ?thesis using bij_image_Compl_eq [OF assms(1), of S] by auto
qed

lemma perm_on_inside:
  assumes "perm_on l u A B" and "l \<le> k" and "k \<le> u"
  shows "\<exists>k'. l \<le> k' \<and> k' \<le> u \<and> B k = A k'"
proof -
  obtain p where p: "bij p" "\<forall>k. k \<notin> {l..u} \<longrightarrow> p k = k" "B = A \<circ> p" using assms(1) unfolding perm_on_def by blast
  have "p k \<in> {l..u}" using perm_image [OF p(1,2)] assms(2,3) by (metis atLeastAtMost_iff image_eqI)
  then show ?thesis using p(3) by auto
qed

lemma perm_on_mset:
  assumes "perm_on l u A B"
  shows "mset (map B [l..u]) = mset (map A [l..u])"
proof -
  obtain p where p: "bij p" "\<forall>k. k \<notin> {l..u} \<longrightarrow> p k = k" "B = A \<circ> p" using assms unfolding perm_on_def by blast
  have "mset (map p [l..u]) = mset [l..u]"
  proof (rule set_eq_iff_mset_eq_distinct [THEN iffD1])
    show "distinct (map p [l..u])" using p(1) by (auto simp: distinct_map bij_def intro: inj_on_subset)
    show "set (map p [l..u]) = set [l..u]" using perm_image [OF p(1,2)] by simp
  qed simp
  then have "mset (map A (map p [l..u])) = mset (map A [l..u])" by (metis mset_map)
  then show ?thesis using p(3) by simp
qed

text \<open>
  A comparison without side effects.  \<open>weak_order cmp V\<close>: on \<open>V\<close> it raises no error and is a
  strict weak order.
\<close>

definition pure_order :: "(tvalue \<Rightarrow> tvalue \<Rightarrow> bool res) \<Rightarrow> 's order" where
  "pure_order cmp = (\<lambda>x y s. ebind (cmp x y) (\<lambda>b. Inr (b, s)))"

definition weak_order :: "(tvalue \<Rightarrow> tvalue \<Rightarrow> bool res) \<Rightarrow> tvalue set \<Rightarrow> bool" where
  "weak_order cmp V \<longleftrightarrow>
     (\<forall>x \<in> V. \<forall>y \<in> V. \<exists>b. cmp x y = Inr b) \<and>
     (\<forall>x \<in> V. \<forall>y \<in> V. cmp x y = Inr True \<longrightarrow> cmp y x = Inr False) \<and>
     (\<forall>x \<in> V. \<forall>y \<in> V. \<forall>z \<in> V. cmp y x = Inr False \<longrightarrow> cmp z y = Inr False \<longrightarrow> cmp z x = Inr False)"

definition leq :: "(tvalue \<Rightarrow> tvalue \<Rightarrow> bool res) \<Rightarrow> tvalue \<Rightarrow> tvalue \<Rightarrow> bool" where
  "leq cmp x y \<longleftrightarrow> cmp y x = Inr False"

lemma weak_orderD:
  assumes "weak_order cmp V" and "x \<in> V" and "y \<in> V"
  shows "cmp x y = Inr True \<or> cmp x y = Inr False" and "cmp x y = Inr True \<Longrightarrow> leq cmp x y"
    and "leq cmp x x" and "z \<in> V \<Longrightarrow> leq cmp x y \<Longrightarrow> leq cmp y z \<Longrightarrow> leq cmp x z"
proof -
  show "cmp x y = Inr True \<or> cmp x y = Inr False" using assms unfolding weak_order_def by (metis (full_types))
  show "cmp x y = Inr True \<Longrightarrow> leq cmp x y" using assms unfolding weak_order_def leq_def by blast
  show "z \<in> V \<Longrightarrow> leq cmp x y \<Longrightarrow> leq cmp y z \<Longrightarrow> leq cmp x z" using assms unfolding weak_order_def leq_def by blast
  show "leq cmp x x" using assms unfolding weak_order_def leq_def by (metis (full_types) sum.inject(2))
qed

definition sorted_on :: "(tvalue \<Rightarrow> tvalue \<Rightarrow> bool res) \<Rightarrow> int \<Rightarrow> int \<Rightarrow> (int \<Rightarrow> tvalue) \<Rightarrow> bool" where
  "sorted_on cmp l u A \<longleftrightarrow> (\<forall>i j. l \<le> i \<longrightarrow> i < j \<longrightarrow> j \<le> u \<longrightarrow> leq cmp (A i) (A j))"

section \<open>Sorting: the partition\<close>

text \<open>The errors that a sort may raise when the comparison is no weak order.\<close>

definition sort_error :: "(tvalue \<Rightarrow> tvalue \<Rightarrow> bool res) \<Rightarrow> tvalue set \<Rightarrow> lua_error \<Rightarrow> bool" where
  "sort_error cmp V e \<longleftrightarrow> \<not> weak_order cmp V \<and>
     (e = RunError ''invalid order function for sorting'' \<or> (\<exists>x y. cmp x y = Inl e))"

text \<open>The array \<open>1 .. n\<close> holds values of \<open>V\<close>, none of them nil.\<close>

definition array_in :: "tvalue set \<Rightarrow> int \<Rightarrow> (int \<Rightarrow> tvalue) \<Rightarrow> bool" where
  "array_in V n A \<longleftrightarrow> n < 2 ^ 31 \<and> LNil \<notin> V \<and> (\<forall>k. 1 \<le> k \<longrightarrow> k \<le> n \<longrightarrow> A k \<in> V)"

lemma array_in_swap:
  "array_in V n A \<Longrightarrow> 1 \<le> i \<Longrightarrow> i \<le> n \<Longrightarrow> 1 \<le> j \<Longrightarrow> j \<le> n \<Longrightarrow> array_in V n (A(i := A j, j := A i))"
  by (auto simp: array_in_def)

lemma pure_wp:
  assumes "\<And>e. cmp x y = Inl e \<Longrightarrow> E e" and "\<And>b. cmp x y = Inr b \<Longrightarrow> wp (f (b, s)) E Q"
  shows "wp (ebind (pure_order cmp x y s) f) E Q"
  using assms by (cases "cmp x y") (simp_all add: pure_order_def)

lemma weak_order_no_error: "x \<in> V \<Longrightarrow> y \<in> V \<Longrightarrow> cmp x y = Inl e \<Longrightarrow> sort_error cmp V e"
  using weak_orderD(1) [of cmp V x y] by (auto simp: sort_error_def)

context tab_access
begin

lemma int_index: "1 \<le> k \<Longrightarrow> k \<le> n \<Longrightarrow> n < 2 ^ 31 \<Longrightarrow> is_int64 k"
  by (simp add: is_int64_def)

lemma swap_elems:
  assumes "inv m s" and "array_in V n (abs s)" and "1 \<le> i" "i \<le> n" "1 \<le> j" "j \<le> n"
  shows "\<exists>s'. set2 ta i j (abs s j) (abs s i) s = Inr s' \<and> inv m s' \<and> abs s' = (abs s)(i := abs s j, j := abs s i)"
proof -
  have ij: "is_int64 i" "is_int64 j" "abs s i \<noteq> LNil" "abs s j \<noteq> LNil"
    using assms by (auto simp: array_in_def is_int64_def)
  obtain s1 where s1: "ta_seti ta i (abs s j) s = Inr s1" "inv m s1" "abs s1 = (abs s)(i := abs s j)"
    using seti_old [OF assms(1) ij(1,3)] by blast
  have "abs s1 j \<noteq> LNil" using s1(3) ij(4) by simp
  then obtain s2 where "ta_seti ta j (abs s i) s1 = Inr s2" "inv m s2" "abs s2 = (abs s1)(j := abs s i)"
    using seti_old [OF s1(2) ij(2)] by blast
  then show ?thesis using s1 by (simp add: set2_def)
qed

lemma scan_up_wp:
  assumes s: "inv m s" "array_in V n (abs s)" and P: "P \<in> V" and u: "u \<le> n"
    and stop: "weak_order cmp V \<Longrightarrow> \<exists>k > i. k \<le> u \<and> leq cmp P (abs s k)"
    and i: "0 \<le> i" "i < u"
  shows "wp (scan_up ta (pure_order cmp) P u i s) (sort_error cmp V)
    (\<lambda>(i', x, s'). s' = s \<and> x = abs s i' \<and> i < i' \<and> i' \<le> u \<and>
       (\<forall>k. i < k \<longrightarrow> k < i' \<longrightarrow> cmp (abs s k) P = Inr True) \<and> leq cmp P (abs s i'))"
  using stop i
proof (induction "nat (u - i)" arbitrary: i rule: less_induct)
  case less
  have i1: "1 \<le> i + 1" "i + 1 \<le> n" using less.prems(2,3) u by simp_all
  then have get: "ta_geti ta (i + 1) s = Inr (abs s (i + 1), s)" and V: "abs s (i + 1) \<in> V"
    using geti [OF s(1), of "i + 1"] s(2) by (simp_all add: array_in_def is_int64_def)
  have unfold: "scan_up ta (pure_order cmp) P u i s = ebind (pure_order cmp (abs s (i + 1)) P s) (\<lambda>(b, s).
      if b then if u \<le> i + 1 then Inl (RunError ''invalid order function for sorting'')
                else scan_up ta (pure_order cmp) P u (i + 1) s
      else Inr (i + 1, abs s (i + 1), s))"
    by (subst scan_up.simps) (simp add: get pure_order_def ebind_assoc Let_def)
  show ?case
    unfolding unfold
  proof (rule pure_wp)
    show "cmp (abs s (i + 1)) P = Inl e \<Longrightarrow> sort_error cmp V e" for e by (rule weak_order_no_error [OF V P])
    fix b assume b: "cmp (abs s (i + 1)) P = Inr b"
    have more: "\<exists>k > i + 1. k \<le> u \<and> leq cmp P (abs s k)" if wo: "weak_order cmp V" b
    proof -
      obtain k where k: "k > i" "k \<le> u" "leq cmp P (abs s k)" using less.prems(1) [OF wo(1)] by blast
      moreover have "k \<noteq> i + 1" using k(3) b wo(2) by (auto simp: leq_def)
      ultimately show ?thesis by (intro exI [of _ k]) simp
    qed
    show "wp (case (b, s) of (b, s) \<Rightarrow> if b then if u \<le> i + 1 then Inl (RunError ''invalid order function for sorting'')
                else scan_up ta (pure_order cmp) P u (i + 1) s
      else Inr (i + 1, abs s (i + 1), s)) (sort_error cmp V)
      (\<lambda>(i', x, s'). s' = s \<and> x = abs s i' \<and> i < i' \<and> i' \<le> u \<and>
       (\<forall>k. i < k \<longrightarrow> k < i' \<longrightarrow> cmp (abs s k) P = Inr True) \<and> leq cmp P (abs s i'))"
    proof (cases "b \<and> i + 1 < u")
      case True
      have "wp (scan_up ta (pure_order cmp) P u (i + 1) s) (sort_error cmp V)
        (\<lambda>(i', x, s'). s' = s \<and> x = abs s i' \<and> i + 1 < i' \<and> i' \<le> u \<and>
         (\<forall>k. i + 1 < k \<longrightarrow> k < i' \<longrightarrow> cmp (abs s k) P = Inr True) \<and> leq cmp P (abs s i'))"
        using True more less.prems(2) by (intro less.hyps) auto
      then have "wp (scan_up ta (pure_order cmp) P u (i + 1) s) (sort_error cmp V)
        (\<lambda>(i', x, s'). s' = s \<and> x = abs s i' \<and> i < i' \<and> i' \<le> u \<and>
         (\<forall>k. i < k \<longrightarrow> k < i' \<longrightarrow> cmp (abs s k) P = Inr True) \<and> leq cmp P (abs s i'))"
      proof (rule wp_mono)
        fix r
        assume a: "case r of (i', x, s') \<Rightarrow> s' = s \<and> x = abs s i' \<and> i + 1 < i' \<and> i' \<le> u \<and>
          (\<forall>k. i + 1 < k \<longrightarrow> k < i' \<longrightarrow> cmp (abs s k) P = Inr True) \<and> leq cmp P (abs s i')"
        have "cmp (abs s k) P = Inr True" if k: "i < k" "k < fst r" for k
          using a b True k by (cases "k = i + 1") auto
        then show "case r of (i', x, s') \<Rightarrow> s' = s \<and> x = abs s i' \<and> i < i' \<and> i' \<le> u \<and>
          (\<forall>k. i < k \<longrightarrow> k < i' \<longrightarrow> cmp (abs s k) P = Inr True) \<and> leq cmp P (abs s i')" using a by auto
      qed
      then show ?thesis using True by simp
    next
      case False
      then show ?thesis using b more less.prems(2,3) by (auto simp: sort_error_def leq_def)
    qed
  qed
qed

lemma scan_down_wp:
  assumes s: "inv m s" "array_in V n (abs s)" and P: "P \<in> V" and l: "1 \<le> l"
    and stop: "weak_order cmp V \<Longrightarrow> \<exists>k < j. l \<le> k \<and> leq cmp (abs s k) P"
    and j: "j \<le> n" "l < j"
  shows "wp (scan_down ta (pure_order cmp) P l j s) (sort_error cmp V)
    (\<lambda>(j', y, s'). s' = s \<and> y = abs s j' \<and> j' < j \<and> l \<le> j' \<and>
       (\<forall>k. j' < k \<longrightarrow> k < j \<longrightarrow> cmp P (abs s k) = Inr True) \<and> leq cmp (abs s j') P)"
  using stop j
proof (induction "nat (j - l)" arbitrary: j rule: less_induct)
  case less
  have j1: "1 \<le> j - 1" "j - 1 \<le> n" using less.prems(2,3) l by simp_all
  then have get: "ta_geti ta (j - 1) s = Inr (abs s (j - 1), s)" and V: "abs s (j - 1) \<in> V"
    using geti [OF s(1), of "j - 1"] s(2) by (simp_all add: array_in_def is_int64_def)
  have unfold: "scan_down ta (pure_order cmp) P l j s = ebind (pure_order cmp P (abs s (j - 1)) s) (\<lambda>(b, s).
      if b then if j - 1 \<le> l then Inl (RunError ''invalid order function for sorting'')
                else scan_down ta (pure_order cmp) P l (j - 1) s
      else Inr (j - 1, abs s (j - 1), s))"
    by (subst scan_down.simps) (simp add: get pure_order_def ebind_assoc Let_def)
  show ?case
    unfolding unfold
  proof (rule pure_wp)
    show "cmp P (abs s (j - 1)) = Inl e \<Longrightarrow> sort_error cmp V e" for e by (rule weak_order_no_error [OF P V])
    fix b assume b: "cmp P (abs s (j - 1)) = Inr b"
    have more: "\<exists>k < j - 1. l \<le> k \<and> leq cmp (abs s k) P" if wo: "weak_order cmp V" b
    proof -
      obtain k where k: "k < j" "l \<le> k" "leq cmp (abs s k) P" using less.prems(1) [OF wo(1)] by blast
      moreover have "k \<noteq> j - 1" using k(3) b wo(2) by (auto simp: leq_def)
      ultimately show ?thesis by (intro exI [of _ k]) simp
    qed
    show "wp (case (b, s) of (b, s) \<Rightarrow> if b then if j - 1 \<le> l then Inl (RunError ''invalid order function for sorting'')
                else scan_down ta (pure_order cmp) P l (j - 1) s
      else Inr (j - 1, abs s (j - 1), s)) (sort_error cmp V)
      (\<lambda>(j', y, s'). s' = s \<and> y = abs s j' \<and> j' < j \<and> l \<le> j' \<and>
       (\<forall>k. j' < k \<longrightarrow> k < j \<longrightarrow> cmp P (abs s k) = Inr True) \<and> leq cmp (abs s j') P)"
    proof (cases "b \<and> l < j - 1")
      case True
      have "wp (scan_down ta (pure_order cmp) P l (j - 1) s) (sort_error cmp V)
        (\<lambda>(j', y, s'). s' = s \<and> y = abs s j' \<and> j' < j - 1 \<and> l \<le> j' \<and>
         (\<forall>k. j' < k \<longrightarrow> k < j - 1 \<longrightarrow> cmp P (abs s k) = Inr True) \<and> leq cmp (abs s j') P)"
        using True more less.prems(2) by (intro less.hyps) auto
      then have "wp (scan_down ta (pure_order cmp) P l (j - 1) s) (sort_error cmp V)
        (\<lambda>(j', y, s'). s' = s \<and> y = abs s j' \<and> j' < j \<and> l \<le> j' \<and>
         (\<forall>k. j' < k \<longrightarrow> k < j \<longrightarrow> cmp P (abs s k) = Inr True) \<and> leq cmp (abs s j') P)"
      proof (rule wp_mono)
        fix r
        assume a: "case r of (j', y, s') \<Rightarrow> s' = s \<and> y = abs s j' \<and> j' < j - 1 \<and> l \<le> j' \<and>
          (\<forall>k. j' < k \<longrightarrow> k < j - 1 \<longrightarrow> cmp P (abs s k) = Inr True) \<and> leq cmp (abs s j') P"
        have "cmp P (abs s k) = Inr True" if k: "fst r < k" "k < j" for k
          using a b True k by (cases "k = j - 1") auto
        then show "case r of (j', y, s') \<Rightarrow> s' = s \<and> y = abs s j' \<and> j' < j \<and> l \<le> j' \<and>
          (\<forall>k. j' < k \<longrightarrow> k < j \<longrightarrow> cmp P (abs s k) = Inr True) \<and> leq cmp (abs s j') P" using a by auto
      qed
      then show ?thesis using True by simp
    next
      case False
      then show ?thesis using b more less.prems(2,3) by (auto simp: sort_error_def leq_def)
    qed
  qed
qed

text \<open>The state after the partition: everything left of \<open>i\<close> is at most \<open>P\<close>, the rest at least.\<close>

definition parted :: "(tvalue \<Rightarrow> tvalue \<Rightarrow> bool res) \<Rightarrow> tvalue \<Rightarrow> int \<Rightarrow> int \<Rightarrow> int \<Rightarrow> (int \<Rightarrow> tvalue) \<Rightarrow> bool" where
  "parted cmp P l u i A \<longleftrightarrow> i \<le> u - 1 \<and> (\<forall>k. l \<le> k \<longrightarrow> k < i \<longrightarrow> leq cmp (A k) P) \<and>
     (\<forall>k. i \<le> k \<longrightarrow> k \<le> u \<longrightarrow> leq cmp P (A k))"

lemma partition_wp:
  assumes "inv m s" and "array_in V n (abs s)" and "P \<in> V" and "1 \<le> l" and "u \<le> n"
    and "l \<le> i" "i \<le> j" "l < j" "j \<le> u - 1" "i < u - 1" and "abs s (u - 1) = P"
    and "weak_order cmp V \<Longrightarrow> (\<forall>k. l \<le> k \<longrightarrow> k \<le> i \<longrightarrow> leq cmp (abs s k) P) \<and>
      (\<forall>k. j \<le> k \<longrightarrow> k \<le> u \<longrightarrow> leq cmp P (abs s k))"
  shows "wp (partition_loop ta (pure_order cmp) P l u i j s) (sort_error cmp V)
    (\<lambda>(i', s'). inv m s' \<and> array_in V n (abs s') \<and> perm_on l u (abs s) (abs s') \<and> i < i' \<and> i' \<le> u \<and>
       abs s' (u - 1) = P \<and> (weak_order cmp V \<longrightarrow> parted cmp P l u i' (abs s')))"
  using assms
proof (induction "nat (j - i)" arbitrary: i j s rule: less_induct)
  case less
  note pre = less.prems
  let ?A = "abs s"
  have lu: "i < u" using pre(10) by simp
  have up: "wp (scan_up ta (pure_order cmp) P u i s) (sort_error cmp V)
    (\<lambda>(i', x, s'). s' = s \<and> x = abs s i' \<and> i < i' \<and> i' \<le> u \<and>
       (\<forall>k. i < k \<longrightarrow> k < i' \<longrightarrow> cmp (abs s k) P = Inr True) \<and> leq cmp P (abs s i'))"
    by (rule scan_up_wp [OF pre(1-3,5)]) (use pre lu in \<open>auto intro!: exI [of _ u]\<close>)
  have down: "wp (scan_down ta (pure_order cmp) P l j s) (sort_error cmp V)
    (\<lambda>(j', y, s'). s' = s \<and> y = abs s j' \<and> j' < j \<and> l \<le> j' \<and>
       (\<forall>k. j' < k \<longrightarrow> k < j \<longrightarrow> cmp P (abs s k) = Inr True) \<and> leq cmp (abs s j') P)"
    by (rule scan_down_wp [OF pre(1-4)]) (use pre in \<open>auto intro!: exI [of _ l]\<close>)
  let ?Q = "\<lambda>(i', s'). inv m s' \<and> array_in V n (abs s') \<and> perm_on l u (abs s) (abs s') \<and> i < i' \<and> i' \<le> u \<and>
       abs s' (u - 1) = P \<and> (weak_order cmp V \<longrightarrow> parted cmp P l u i' (abs s'))"
  show ?case
  proof (subst partition_loop.simps, rule wp_ebind [OF up], clarify, rule wp_ebind [OF down], clarify)
    fix i' j'
    assume i': "i < i'" "i' \<le> u" "\<forall>k. i < k \<longrightarrow> k < i' \<longrightarrow> cmp (?A k) P = Inr True" "leq cmp P (?A i')"
      and j': "j' < j" "l \<le> j'" "\<forall>k. j' < k \<longrightarrow> k < j \<longrightarrow> cmp P (?A k) = Inr True" "leq cmp (?A j') P"
    have inV: "?A k \<in> V" if "l \<le> k" "k \<le> u" for k using pre(2,4,5) that by (simp add: array_in_def)
    have below: "leq cmp (?A k) P" if "weak_order cmp V" "l \<le> k" "k < i'" for k
      using pre(12) i'(2,3) that weak_orderD(2) [OF that(1) inV [of k] pre(3)] by (cases "k \<le> i") auto
    have above: "leq cmp P (?A k)" if "weak_order cmp V" "j' < k" "k \<le> u" for k
      using pre(12) j'(2,3) that weak_orderD(2) [OF that(1) pre(3) inV [of k]] by (cases "j \<le> k") auto
    show "wp (if j' < i' then Inr (i', s)
      else ebind (set2 ta i' j' (?A j') (?A i') s) (partition_loop ta (pure_order cmp) P l u i' j')) (sort_error cmp V) ?Q"
    proof (cases "j' < i'")
      case True
      have "i' \<le> u - 1" if w: "weak_order cmp V"
      proof (rule ccontr)
        assume "\<not> i' \<le> u - 1"
        then have "cmp P P = Inr True" using i'(3) pre(10,11) by (metis int_one_le_iff_zero_less not_le zle_diff1_eq)
        then show False using weak_orderD(3) [OF w pre(3) pre(3)] by (simp add: leq_def)
      qed
      then have "weak_order cmp V \<longrightarrow> parted cmp P l u i' ?A" using below above True by (auto simp: parted_def)
      then show ?thesis using True pre i' by (simp add: perm_on_refl)
    next
      case False
      have r: "1 \<le> i'" "i' \<le> n" "1 \<le> j'" "j' \<le> n" using pre False i' j' by simp_all
      obtain s2 where s2: "set2 ta i' j' (?A j') (?A i') s = Inr s2" "inv m s2"
        "abs s2 = ?A(i' := ?A j', j' := ?A i')"
        using swap_elems [OF pre(1,2) r] by blast
      have perm: "perm_on l u ?A (abs s2)" unfolding s2(3) by (rule perm_on_swap) (use pre False i' j' in auto)
      have "wp (partition_loop ta (pure_order cmp) P l u i' j' s2) (sort_error cmp V)
        (\<lambda>(i'', s'). inv m s' \<and> array_in V n (abs s') \<and> perm_on l u (abs s2) (abs s') \<and> i' < i'' \<and> i'' \<le> u \<and>
         abs s' (u - 1) = P \<and> (weak_order cmp V \<longrightarrow> parted cmp P l u i'' (abs s')))"
      proof (rule less.hyps [OF _ s2(2) _ pre(3-5)])
        show "nat (j' - i') < nat (j - i)" using False i'(1) j'(1) by simp
        show "array_in V n (abs s2)" unfolding s2(3) by (rule array_in_swap [OF pre(2) r])
        show "abs s2 (u - 1) = P" using s2(3) pre(9,11) False j'(1) by simp
        show "(\<forall>k. l \<le> k \<longrightarrow> k \<le> i' \<longrightarrow> leq cmp (abs s2 k) P) \<and> (\<forall>k. j' \<le> k \<longrightarrow> k \<le> u \<longrightarrow> leq cmp P (abs s2 k))"
          if w: "weak_order cmp V"
          using below [OF w] above [OF w] i'(4) j'(4) False s2(3) by auto
      qed (use pre False i' j' in simp_all)
      then show ?thesis
        using False s2(1) i'(1) perm_on_trans [OF perm] by (auto elim!: wp_mono)
    qed
  qed
qed

lemma array_in_perm:
  assumes "array_in V n A" and "perm_on l u A B" and "1 \<le> l" and "u \<le> n"
  shows "array_in V n B"
proof -
  have "B k \<in> V" if k: "1 \<le> k" "k \<le> n" for k
  proof (cases "l \<le> k \<and> k \<le> u")
    case True
    then obtain k' where "l \<le> k'" "k' \<le> u" "B k = A k'" using perm_on_inside [OF assms(2)] by blast
    then show ?thesis using assms(1,3,4) by (simp add: array_in_def)
  next
    case False
    then show ?thesis using perm_on_outside [OF assms(2), of k] assms(1) k by (auto simp: array_in_def)
  qed
  then show ?thesis using assms(1) by (simp add: array_in_def)
qed

lemma sort_ends_wp:
  assumes s: "inv m s" "array_in V n (abs s)" and "1 \<le> l" "l < u" "u \<le> n"
  shows "wp (sort_ends ta (pure_order cmp) l u s) (sort_error cmp V)
    (\<lambda>s'. inv m s' \<and> perm_on l u (abs s) (abs s') \<and> (weak_order cmp V \<longrightarrow> leq cmp (abs s' l) (abs s' u)))"
proof -
  have i: "is_int64 l" "is_int64 u" and V: "abs s l \<in> V" "abs s u \<in> V" using assms by (auto simp: array_in_def is_int64_def)
  obtain s2 where s2: "set2 ta l u (abs s u) (abs s l) s = Inr s2" "inv m s2" "abs s2 = (abs s)(l := abs s u, u := abs s l)"
    using swap_elems [OF s, of l u] assms(3-5) by auto
  have "perm_on l u (abs s) (abs s2)" unfolding s2(3) by (rule perm_on_swap) (use assms in auto)
  then show ?thesis
    unfolding sort_ends_def
    using geti [OF s(1) i(1)] geti [OF s(1) i(2)] s2 s assms(4) weak_orderD(2) [OF _ V(2,1)] perm_on_refl
    by (auto intro!: pure_wp weak_order_no_error [OF V(2,1)] simp: leq_def)
qed

lemma sort_middle_wp:
  assumes s: "inv m s" "array_in V n (abs s)" and "1 \<le> l" "l < i" "i < u" "u \<le> n"
    and lu: "weak_order cmp V \<Longrightarrow> leq cmp (abs s l) (abs s u)"
  shows "wp (sort_middle ta (pure_order cmp) l i u s) (sort_error cmp V)
    (\<lambda>s'. inv m s' \<and> perm_on l u (abs s) (abs s') \<and>
       (weak_order cmp V \<longrightarrow> leq cmp (abs s' l) (abs s' i) \<and> leq cmp (abs s' i) (abs s' u)))"
proof -
  have i: "is_int64 l" "is_int64 i" "is_int64 u" and V: "abs s l \<in> V" "abs s i \<in> V" "abs s u \<in> V"
    using assms by (auto simp: array_in_def is_int64_def)
  obtain s2 where s2: "set2 ta i l (abs s l) (abs s i) s = Inr s2" "inv m s2" "abs s2 = (abs s)(i := abs s l, l := abs s i)"
    using swap_elems [OF s, of i l] assms(3-6) by auto
  have p2: "perm_on l u (abs s) (abs s2)" unfolding s2(3) by (rule perm_on_swap) (use assms in auto)
  obtain s3 where s3: "set2 ta i u (abs s u) (abs s i) s = Inr s3" "inv m s3" "abs s3 = (abs s)(i := abs s u, u := abs s i)"
    using swap_elems [OF s, of i u] assms(3-6) by auto
  have p3: "perm_on l u (abs s) (abs s3)" unfolding s3(3) by (rule perm_on_swap) (use assms in auto)
  show ?thesis
    unfolding sort_middle_def geti [OF s(1) i(1)] geti [OF s(1) i(2)] geti [OF s(1) i(3)] ebind_Inr prod.case
  proof (rule pure_wp)
    fix b assume b: "cmp (abs s i) (abs s l) = Inr b"
    show "wp (case (b, s) of (b, s') \<Rightarrow> if b then set2 ta i l (abs s l) (abs s i) s'
        else ebind (ta_geti ta u s') (\<lambda>(au, s'). ebind (pure_order cmp au (abs s i) s') (\<lambda>(b, s').
          if b then set2 ta i u au (abs s i) s' else Inr s'))) (sort_error cmp V)
      (\<lambda>s'. inv m s' \<and> perm_on l u (abs s) (abs s') \<and>
         (weak_order cmp V \<longrightarrow> leq cmp (abs s' l) (abs s' i) \<and> leq cmp (abs s' i) (abs s' u)))"
    proof (cases b)
      case True
      then have "leq cmp (abs s i) (abs s l)" if "weak_order cmp V" using b weak_orderD(2) [OF that V(2,1)] by simp
      then show ?thesis using True s2 p2 lu assms(4,5) by simp
    next
      case False
      then have al: "leq cmp (abs s l) (abs s i)" using b by (simp add: leq_def)
      have "wp (ebind (pure_order cmp (abs s u) (abs s i) s) (\<lambda>(b, s').
          if b then set2 ta i u (abs s u) (abs s i) s' else Inr s')) (sort_error cmp V)
        (\<lambda>s'. inv m s' \<and> perm_on l u (abs s) (abs s') \<and>
         (weak_order cmp V \<longrightarrow> leq cmp (abs s' l) (abs s' i) \<and> leq cmp (abs s' i) (abs s' u)))"
      proof (rule pure_wp)
        fix c assume c: "cmp (abs s u) (abs s i) = Inr c"
        have up: "c \<Longrightarrow> weak_order cmp V \<Longrightarrow> leq cmp (abs s u) (abs s i)" using c weak_orderD(2) [OF _ V(3,2)] by simp
        show "wp (case (c, s) of (b, s') \<Rightarrow> if b then set2 ta i u (abs s u) (abs s i) s' else Inr s') (sort_error cmp V)
          (\<lambda>s'. inv m s' \<and> perm_on l u (abs s) (abs s') \<and>
           (weak_order cmp V \<longrightarrow> leq cmp (abs s' l) (abs s' i) \<and> leq cmp (abs s' i) (abs s' u)))"
          using s3 p3 s(1) al up lu assms(4,5) c by (cases c) (simp_all add: perm_on_refl leq_def)
      qed (rule weak_order_no_error [OF V(3,2)])
      then show ?thesis using False geti [OF s(1) i(3)] by simp
    qed
  qed (rule weak_order_no_error [OF V(2,1)])
qed

lemma halves_sorted:
  assumes w: "weak_order cmp V" and A: "array_in V n A" and lu: "1 \<le> l" "u \<le> n" "l \<le> i" "i \<le> u"
    and left: "\<And>k. l \<le> k \<Longrightarrow> k < i \<Longrightarrow> leq cmp (A k) (A i)" and right: "\<And>k. i < k \<Longrightarrow> k \<le> u \<Longrightarrow> leq cmp (A i) (A k)"
    and B: "\<And>k. l \<le> k \<Longrightarrow> k < i \<Longrightarrow> \<exists>k'. l \<le> k' \<and> k' < i \<and> B k = A k'"
      "\<And>k. i < k \<Longrightarrow> k \<le> u \<Longrightarrow> \<exists>k'. i < k' \<and> k' \<le> u \<and> B k = A k'" "B i = A i"
    and s: "sorted_on cmp l (i - 1) B" "sorted_on cmp (i + 1) u B"
  shows "sorted_on cmp l u B"
  unfolding sorted_on_def
proof (intro allI impI)
  fix a b assume ab: "l \<le> a" "a < b" "b \<le> u"
  have AV: "A k \<in> V" if "l \<le> k" "k \<le> u" for k using A lu that by (simp add: array_in_def)
  have lo: "leq cmp (B k) (A i) \<and> B k \<in> V" if "l \<le> k" "k < i" for k using B(1) [OF that] left AV lu by fastforce
  have hi: "leq cmp (A i) (B k) \<and> B k \<in> V" if "i < k" "k \<le> u" for k using B(2) [OF that] right AV lu by fastforce
  consider "b < i" | "b = i" | "i < b" "a < i" | "a = i" | "i < a" using ab by linarith
  then show "leq cmp (B a) (B b)"
  proof cases
    case 1
    then show ?thesis using s(1) ab unfolding sorted_on_def by simp
  next
    case 2
    then show ?thesis using lo ab B(3) by simp
  next
    case 3
    have "leq cmp (B a) (A i)" "leq cmp (A i) (B b)" "B a \<in> V" "B b \<in> V" using lo [OF ab(1) 3(2)] hi [OF 3(1) ab(3)] by auto
    then show ?thesis using weak_orderD(4) [OF w _ AV [OF lu(3,4)]] by blast
  next
    case 4
    then show ?thesis using hi ab B(3) by simp
  next
    case 5
    then show ?thesis using s(2) ab unfolding sorted_on_def by simp
  qed
qed

lemma place_wp:
  assumes s: "inv m s" "array_in V n (abs s)" and lu: "1 \<le> l" "u \<le> n" and j: "l < j" "j \<le> u"
    and P: "abs s (u - 1) = P" and parted: "weak_order cmp V \<longrightarrow> parted cmp P l u j (abs s)"
    and p: "perm_on l u A (abs s)"
    and left: "\<And>s. inv m s \<Longrightarrow> array_in V n (abs s) \<Longrightarrow> 1 \<le> l \<Longrightarrow> j - 1 \<le> n \<Longrightarrow>
      wp (auxsort ta (pure_order cmp) l (j - 1) s) (sort_error cmp V)
        (\<lambda>s'. inv m s' \<and> perm_on l (j - 1) (abs s) (abs s') \<and> (weak_order cmp V \<longrightarrow> sorted_on cmp l (j - 1) (abs s')))"
    and right: "\<And>s. inv m s \<Longrightarrow> array_in V n (abs s) \<Longrightarrow> 1 \<le> j + 1 \<Longrightarrow> u \<le> n \<Longrightarrow>
      wp (auxsort ta (pure_order cmp) (j + 1) u s) (sort_error cmp V)
        (\<lambda>s'. inv m s' \<and> perm_on (j + 1) u (abs s) (abs s') \<and> (weak_order cmp V \<longrightarrow> sorted_on cmp (j + 1) u (abs s')))"
  shows "wp (ebind (place_pivot ta j u s) (\<lambda>s.
      if j - l < u - j
      then ebind (auxsort ta (pure_order cmp) l (j - 1) s) (\<lambda>s. auxsort ta (pure_order cmp) (j + 1) u s)
      else ebind (auxsort ta (pure_order cmp) (j + 1) u s) (\<lambda>s. auxsort ta (pure_order cmp) l (j - 1) s))) (sort_error cmp V)
    (\<lambda>s'. inv m s' \<and> perm_on l u A (abs s') \<and> (weak_order cmp V \<longrightarrow> sorted_on cmp l u (abs s')))"
proof -
  have i: "1 \<le> u - 1" "u - 1 \<le> n" "1 \<le> j" "j \<le> n" using lu j by simp_all
  obtain s5 where s5: "set2 ta (u - 1) j (abs s j) (abs s (u - 1)) s = Inr s5" "inv m s5"
    "abs s5 = (abs s)(u - 1 := abs s j, j := abs s (u - 1))"
    using swap_elems [OF s i] by blast
  have pl: "place_pivot ta j u s = Inr s5"
    using geti [OF s(1) int_index [OF i(1,2)]] geti [OF s(1) int_index [OF i(3,4)]] s(2) s5(1)
    by (simp add: place_pivot_def array_in_def)
  have p5: "perm_on l u A (abs s5)"
    using perm_on_trans [OF p] s5(3) perm_on_swap [of "u - 1" l u j "abs s"] lu j by simp
  have a5: "array_in V n (abs s5)" unfolding s5(3) by (rule array_in_swap [OF s(2) i])
  have Pj: "abs s5 j = P" using s5(3) P by simp
  have order: "(\<forall>k. l \<le> k \<longrightarrow> k < j \<longrightarrow> leq cmp (abs s5 k) P) \<and> (\<forall>k. j < k \<longrightarrow> k \<le> u \<longrightarrow> leq cmp P (abs s5 k))"
    if "weak_order cmp V"
    using parted that s5(3) unfolding parted_def by auto
  have fin: "perm_on l u A (abs s7) \<and> (weak_order cmp V \<longrightarrow> sorted_on cmp l u (abs s7))"
    if q: "perm_on a b (abs s5) (abs s6)" "perm_on c d (abs s6) (abs s7)"
      and ab: "a = l \<and> b = j - 1 \<and> c = j + 1 \<and> d = u \<or> a = j + 1 \<and> b = u \<and> c = l \<and> d = j - 1"
      and so: "weak_order cmp V \<Longrightarrow> sorted_on cmp a b (abs s6)" "weak_order cmp V \<Longrightarrow> sorted_on cmp c d (abs s7)"
    for a b c d s6 s7
  proof
    have "perm_on l u (abs s5) (abs s6)" "perm_on l u (abs s6) (abs s7)"
      using q ab j by (auto elim!: perm_on_wider)
    then show "perm_on l u A (abs s7)" using perm_on_trans p5 by blast
    show "weak_order cmp V \<longrightarrow> sorted_on cmp l u (abs s7)"
    proof
      assume w: "weak_order cmp V"
      have apart: "k < c \<or> d < k" if "a \<le> k" "k \<le> b" for k using that ab by auto
      have apart2: "k < a \<or> b < k" if "c \<le> k" "k \<le> d" for k using that ab by auto
      have first: "\<exists>k'. a \<le> k' \<and> k' \<le> b \<and> abs s7 k = abs s5 k'" if "a \<le> k" "k \<le> b" for k
        using perm_on_inside [OF q(1) that] perm_on_outside [OF q(2) apart [OF that]] by simp
      have second: "\<exists>k'. c \<le> k' \<and> k' \<le> d \<and> abs s7 k = abs s5 k'" if "c \<le> k" "k \<le> d" for k
        using perm_on_inside [OF q(2) that] perm_on_outside [OF q(1) apart2] by fastforce
      have mid: "abs s7 j = abs s5 j" using perm_on_outside [OF q(1), of j] perm_on_outside [OF q(2), of j] ab by auto
      have so7: "sorted_on cmp a b (abs s7)"
        using so(1) [OF w] perm_on_outside [OF q(2) apart] unfolding sorted_on_def by simp
      show "sorted_on cmp l u (abs s7)"
      proof (rule halves_sorted [OF w a5 lu])
        show "l \<le> j" "j \<le> u" using j by simp_all
        show "leq cmp (abs s5 k) (abs s5 j)" if "l \<le> k" "k < j" for k using order [OF w] Pj that by simp
        show "leq cmp (abs s5 j) (abs s5 k)" if "j < k" "k \<le> u" for k using order [OF w] Pj that by simp
        show "\<exists>k'. l \<le> k' \<and> k' < j \<and> abs s7 k = abs s5 k'" if "l \<le> k" "k < j" for k
          using first [of k] second [of k] ab that by (elim disjE conjE) auto
        show "\<exists>k'. j < k' \<and> k' \<le> u \<and> abs s7 k = abs s5 k'" if "j < k" "k \<le> u" for k
          using first [of k] second [of k] ab that by (elim disjE conjE) (auto simp: add1_zle_eq)
        show "sorted_on cmp l (j - 1) (abs s7)" "sorted_on cmp (j + 1) u (abs s7)"
          using so7 so(2) [OF w] ab by auto
      qed (rule mid)
    qed
  qed
  have jn: "j - 1 \<le> n" "1 \<le> j + 1" using i by simp_all
  show ?thesis
    unfolding pl ebind_Inr
  proof (rule if_split [THEN iffD2], intro conjI impI)
    show "wp (ebind (auxsort ta (pure_order cmp) l (j - 1) s5) (\<lambda>s. auxsort ta (pure_order cmp) (j + 1) u s)) (sort_error cmp V)
      (\<lambda>s'. inv m s' \<and> perm_on l u A (abs s') \<and> (weak_order cmp V \<longrightarrow> sorted_on cmp l u (abs s')))"
    proof (rule wp_ebind [OF left [OF s5(2) a5 lu(1) jn(1)]], elim conjE)
      fix s6 assume s6: "inv m s6" "perm_on l (j - 1) (abs s5) (abs s6)" "weak_order cmp V \<longrightarrow> sorted_on cmp l (j - 1) (abs s6)"
      have a6: "array_in V n (abs s6)" by (rule array_in_perm [OF a5 s6(2) lu(1) jn(1)])
      show "wp (auxsort ta (pure_order cmp) (j + 1) u s6) (sort_error cmp V)
        (\<lambda>s'. inv m s' \<and> perm_on l u A (abs s') \<and> (weak_order cmp V \<longrightarrow> sorted_on cmp l u (abs s')))"
        by (rule wp_mono [OF right [OF s6(1) a6 jn(2) lu(2)]]) (use fin [OF s6(2)] s6(3) in blast)
    qed
    show "wp (ebind (auxsort ta (pure_order cmp) (j + 1) u s5) (\<lambda>s. auxsort ta (pure_order cmp) l (j - 1) s)) (sort_error cmp V)
      (\<lambda>s'. inv m s' \<and> perm_on l u A (abs s') \<and> (weak_order cmp V \<longrightarrow> sorted_on cmp l u (abs s')))"
    proof (rule wp_ebind [OF right [OF s5(2) a5 jn(2) lu(2)]], elim conjE)
      fix s6 assume s6: "inv m s6" "perm_on (j + 1) u (abs s5) (abs s6)" "weak_order cmp V \<longrightarrow> sorted_on cmp (j + 1) u (abs s6)"
      have a6: "array_in V n (abs s6)" by (rule array_in_perm [OF a5 s6(2) jn(2) lu(2)])
      show "wp (auxsort ta (pure_order cmp) l (j - 1) s6) (sort_error cmp V)
        (\<lambda>s'. inv m s' \<and> perm_on l u A (abs s') \<and> (weak_order cmp V \<longrightarrow> sorted_on cmp l u (abs s')))"
        by (rule wp_mono [OF left [OF s6(1) a6 lu(1) jn(1)]]) (use fin [OF s6(2)] s6(3) in blast)
    qed
  qed
qed

lemma auxsort_wp:
  assumes "inv m s" and "array_in V n (abs s)" and "1 \<le> l" and "u \<le> n"
  shows "wp (auxsort ta (pure_order cmp) l u s) (sort_error cmp V)
    (\<lambda>s'. inv m s' \<and> perm_on l u (abs s) (abs s') \<and> (weak_order cmp V \<longrightarrow> sorted_on cmp l u (abs s')))"
  using assms
proof (induction "nat (u - l)" arbitrary: l u s rule: less_induct)
  case less
  note s = less.prems(1,2) and lu = less.prems(3,4)
  let ?R = "\<lambda>s'. inv m s' \<and> perm_on l u (abs s) (abs s') \<and> (weak_order cmp V \<longrightarrow> sorted_on cmp l u (abs s'))"
  show ?case
  proof (cases "l < u")
    case False
    then show ?thesis using s by (simp add: auxsort.simps perm_on_refl sorted_on_def)
  next
    case True
    let ?i = "(l + u) div 2"
    show ?thesis
    proof (subst auxsort.simps, unfold if_P [OF True], rule wp_ebind [OF sort_ends_wp [OF s lu(1) True lu(2)]])
      fix s1
      assume s1: "inv m s1 \<and> perm_on l u (abs s) (abs s1) \<and> (weak_order cmp V \<longrightarrow> leq cmp (abs s1 l) (abs s1 u))"
      have a1: "array_in V n (abs s1)" using array_in_perm [OF s(2) _ lu] s1 by blast
      show "wp (if u - l = 1 then Inr s1 else let i = ?i in
           ebind (sort_middle ta (pure_order cmp) l i u s1) (\<lambda>s.
           if u - l = 2 then Inr s
           else ebind (move_pivot ta i u s) (\<lambda>(P, s).
           ebind (partition_loop ta (pure_order cmp) P l u l (u - 1) s) (\<lambda>(i, s).
           ebind (place_pivot ta i u s) (\<lambda>s.
           if i - l < u - i
           then ebind (auxsort ta (pure_order cmp) l (i - 1) s) (\<lambda>s. auxsort ta (pure_order cmp) (i + 1) u s)
           else ebind (auxsort ta (pure_order cmp) (i + 1) u s) (\<lambda>s. auxsort ta (pure_order cmp) l (i - 1) s))))))
         (sort_error cmp V) ?R"
      proof (cases "u - l = 1")
        case True
        have "sorted_on cmp l u (abs s1)" if "weak_order cmp V"
          unfolding sorted_on_def
        proof (intro allI impI)
          fix i j assume "l \<le> i" "i < j" "j \<le> u"
          then have "i = l" "j = u" using True by simp_all
          then show "leq cmp (abs s1 i) (abs s1 j)" using s1 that by simp
        qed
        then show ?thesis using True s1 by simp
      next
        case False
        then have i: "l < ?i" "?i < u" using True by simp_all
        have m: "wp (sort_middle ta (pure_order cmp) l ?i u s1) (sort_error cmp V)
          (\<lambda>s'. inv m s' \<and> perm_on l u (abs s1) (abs s') \<and>
            (weak_order cmp V \<longrightarrow> leq cmp (abs s' l) (abs s' ?i) \<and> leq cmp (abs s' ?i) (abs s' u)))"
          by (rule sort_middle_wp [OF _ a1 lu(1) i lu(2)]) (use s1 in auto)
        show ?thesis
          unfolding if_not_P [OF False] Let_def
        proof (rule wp_ebind [OF m], elim conjE)
          fix s2
          assume s2: "inv m s2" "perm_on l u (abs s1) (abs s2)"
            "weak_order cmp V \<longrightarrow> leq cmp (abs s2 l) (abs s2 ?i) \<and> leq cmp (abs s2 ?i) (abs s2 u)"
          have p2: "perm_on l u (abs s) (abs s2)" using perm_on_trans s1 s2(2) by blast
          have a2: "array_in V n (abs s2)" by (rule array_in_perm [OF s(2) p2 lu])
          show "wp (if u - l = 2 then Inr s2
           else ebind (move_pivot ta ?i u s2) (\<lambda>(P, s).
           ebind (partition_loop ta (pure_order cmp) P l u l (u - 1) s) (\<lambda>(i, s).
           ebind (place_pivot ta i u s) (\<lambda>s.
           if i - l < u - i
           then ebind (auxsort ta (pure_order cmp) l (i - 1) s) (\<lambda>s. auxsort ta (pure_order cmp) (i + 1) u s)
           else ebind (auxsort ta (pure_order cmp) (i + 1) u s) (\<lambda>s. auxsort ta (pure_order cmp) l (i - 1) s)))))
           (sort_error cmp V) ?R"
          proof (cases "u - l = 2")
            case True
            have "sorted_on cmp l u (abs s2)" if "weak_order cmp V"
            proof -
              have "leq cmp (abs s2 l) (abs s2 u)"
                using s2(3) that weak_orderD(4) [OF that _ _, of "abs s2 l" "abs s2 ?i" "abs s2 u"] a2 lu i
                by (auto simp: array_in_def)
              moreover have "i = l \<and> j = ?i \<or> i = ?i \<and> j = u \<or> i = l \<and> j = u" if "l \<le> i" "i < j" "j \<le> u" for i j
                using that True by presburger
              ultimately show ?thesis using s2(3) that unfolding sorted_on_def by metis
            qed
            then show ?thesis using True s2(1) p2 by simp
          next
            case False
            note far = False
            then have i': "1 \<le> ?i" "?i \<le> n" "1 \<le> u - 1" "u - 1 \<le> n" "l < u - 1" "?i \<noteq> u" using i lu by simp_all
            let ?P = "abs s2 ?i"
            obtain s3 where s3: "set2 ta ?i (u - 1) (abs s2 (u - 1)) ?P s2 = Inr s3" "inv m s3"
              "abs s3 = (abs s2)(?i := abs s2 (u - 1), u - 1 := ?P)"
              using swap_elems [OF s2(1) a2 i'(1-4)] by blast
            have p3: "perm_on l u (abs s) (abs s3)"
              using perm_on_trans [OF p2] s3(3) perm_on_swap [of ?i l u "u - 1" "abs s2"] i i'(5) by simp
            have a3: "array_in V n (abs s3)" by (rule array_in_perm [OF s(2) p3 lu])
            have mv: "move_pivot ta ?i u s2 = Inr (?P, s3)"
              using geti [OF s2(1) int_index [OF i'(1,2)]] geti [OF s2(1) int_index [OF i'(3,4)]] a2 s3(1)
              by (simp add: move_pivot_def array_in_def)
            have PV: "?P \<in> V" using a2 i'(1,2) by (simp add: array_in_def)
            have part: "wp (partition_loop ta (pure_order cmp) ?P l u l (u - 1) s3) (sort_error cmp V)
              (\<lambda>(i', s'). inv m s' \<and> array_in V n (abs s') \<and> perm_on l u (abs s3) (abs s') \<and> l < i' \<and> i' \<le> u \<and>
               abs s' (u - 1) = ?P \<and> (weak_order cmp V \<longrightarrow> parted cmp ?P l u i' (abs s')))"
            proof (rule partition_wp [OF s3(2) a3 PV lu])
              assume w: "weak_order cmp V"
              have "leq cmp (abs s3 l) ?P" "leq cmp ?P (abs s3 u)" using s2(3) w s3(3) i i'(5,6) by auto
              moreover have "leq cmp ?P (abs s3 (u - 1))" using s3(3) weak_orderD(3) [OF w PV PV] by simp
              moreover have "k = u - 1 \<or> k = u" if "u - 1 \<le> k" "k \<le> u" for k using that by linarith
              ultimately show "(\<forall>k. l \<le> k \<longrightarrow> k \<le> l \<longrightarrow> leq cmp (abs s3 k) ?P) \<and>
                  (\<forall>k. u - 1 \<le> k \<longrightarrow> k \<le> u \<longrightarrow> leq cmp ?P (abs s3 k))"
                by (metis order_antisym)
            qed (use i' s3(3) in simp_all)
            show ?thesis
              unfolding if_not_P [OF far] mv ebind_Inr prod.case
            proof (rule wp_ebind [OF part], clarify)
              fix j s4
              assume s4: "inv m s4" "array_in V n (abs s4)" "perm_on l u (abs s3) (abs s4)" "l < j" "j \<le> u"
                "abs s4 (u - 1) = ?P" "weak_order cmp V \<longrightarrow> parted cmp ?P l u j (abs s4)"
              have p4: "perm_on l u (abs s) (abs s4)" using perm_on_trans [OF p3 s4(3)] .
              have IHl: "nat (j - 1 - l) < nat (u - l)" and IHr: "nat (u - (j + 1)) < nat (u - l)" using s4(4,5) by simp_all
              show "wp (ebind (place_pivot ta j u s4) (\<lambda>s.
                if j - l < u - j
                then ebind (auxsort ta (pure_order cmp) l (j - 1) s) (\<lambda>s. auxsort ta (pure_order cmp) (j + 1) u s)
                else ebind (auxsort ta (pure_order cmp) (j + 1) u s) (\<lambda>s. auxsort ta (pure_order cmp) l (j - 1) s)))
                (sort_error cmp V) ?R"
                by (rule place_wp [OF s4(1,2) lu s4(4,5,6,7) p4 less.hyps [OF IHl] less.hyps [OF IHr]])
                  (use s4(4,5) lu in simp_all)
            qed
          qed
        qed
      qed
    qed
  qed
qed

end

end
