(* ===== verification/Lua_Tablib_Raw.thy ===== *)
theory Lua_Tablib_Raw
  imports Lua_Tablib_Spec
begin

text \<open>
  The library \<open>table\<close> on tables without metamethods: the raw accessors satisfy the contract
  \<open>tab_access\<close>, and so insertion, removal, moving and sorting act on the elements
  \<open>t[1], ..., t[n]\<close> as on a list.
\<close>

section \<open>The raw accessors\<close>

definition int_key :: "int \<Rightarrow> tvalue" where
  "int_key i = LInt (word_of_int i)"

definition raw_elem :: "table \<Rightarrow> int \<Rightarrow> tvalue" where
  "raw_elem t i = (if is_int64 i then tab_map t (int_key i) else LNil)"

abbreviation raw_inv :: "u32 \<Rightarrow> nat \<Rightarrow> table \<Rightarrow> bool" where
  "raw_inv seed m t \<equiv> tab_ok seed t \<and> table_bound m t"

lemma int_key_sint: "is_int64 i \<Longrightarrow> sint (word_of_int i :: u64) = i"
  unfolding is_int64_def by (rule sint_word_of_int_range) simp_all

lemma int_key_inj:
  assumes "is_int64 i" and "is_int64 j" and "int_key i = int_key j"
  shows "i = j"
proof -
  have "(word_of_int i :: u64) = word_of_int j" using assms(3) unfolding int_key_def by (rule tvalue.inject [THEN iffD1])
  then show ?thesis using int_key_sint [OF assms(1)] int_key_sint [OF assms(2)] by metis
qed

lemma raw_elem_update:
  assumes "tab_map t' = (tab_map t)(int_key i := v)" and "is_int64 i"
  shows "raw_elem t' = (raw_elem t)(i := v)"
proof
  fix j
  show "raw_elem t' j = ((raw_elem t)(i := v)) j"
    using assms int_key_inj [of i j] by (auto simp: raw_elem_def)
qed

lemma rawseti_set: "rawseti seed t k v = ebind (luaH_set seed t (LInt k)) (\<lambda>(t, s). Inr (set_slot t s v))"
  by (simp add: rawseti_def luaH_setint_def luaH_setint_with_def luaH_set_def luaH_set_with_def ebind_assoc)

lemma raw_geti:
  assumes "tab_ok seed t" and "is_int64 i"
  shows "ta_geti (raw_taba seed) i t = Inr (raw_elem t i, t)"
proof -
  have nok: "nodes_ok seed t" using assms by (simp add: tab_ok_def)
  obtain s where "luaH_getint t (word_of_int i) = Inr s" "slot_for t (int_key i) s"
    using getint_slot [OF assms(1)] unfolding int_key_def by blast
  moreover from this have "slot_val t s = tab_map t (int_key i)"
    by (intro slot_val_map [OF nok]) (simp_all add: int_key_def)
  ultimately show ?thesis using assms(2) by (simp add: raw_taba_def rawgeti_def raw_elem_def)
qed

lemma raw_seti_new:
  assumes ok: "tab_ok seed t" and b: "table_bound m t" and m: "m < 2 ^ 28" and i: "is_int64 i"
  shows "\<exists>t'. ta_seti (raw_taba seed) i v t = Inr t' \<and> raw_inv seed (Suc m) t' \<and> raw_elem t' = (raw_elem t)(i := v)"
proof -
  let ?k = "int_key i"
  have c: "canonical ?k" by (simp add: int_key_def)
  have small: "sizearray t + sizenode t < 2 ^ 30" using b m by (simp add: table_bound_def)
  obtain t1 s where r: "luaH_set seed t ?k = Inr (t1, s)" "added seed t ?k (t1, s)"
    using set_added [OF ok c small] by (metis surj_pair)
  then have t1: "tab_ok seed t1" "slot_for t1 ?k s" "s \<noteq> NilSlot" "tab_map t1 = tab_map t"
    "sizearray t1 + sizenode t1 \<le> max (sizearray t + sizenode t) (2 * entry_count t + 3)"
    by (simp_all add: added_def)
  let ?t = "set_slot t1 s v"
  note st = set_slot_ok [OF t1(1) c t1(2,3)]
  have map: "tab_map ?t = (tab_map t)(?k := v)" using st(2) t1(4) by simp
  have "entry_count ?t \<le> Suc (entry_count t)"
    using card_update [OF entry_count_card(1) [OF ok], of ?k v]
    by (simp only: entry_count_card(2) [OF ok] entry_count_card(2) [OF st(1)] map)
  then have "table_bound (Suc m) ?t" using b t1(5) by (auto simp: table_bound_def)
  moreover have "ta_seti (raw_taba seed) i v t = Inr ?t"
    using r(1) by (simp add: raw_taba_def rawseti_set int_key_def)
  ultimately show ?thesis using st(1) raw_elem_update [OF map i] by blast
qed

lemma raw_seti_old:
  assumes ok: "tab_ok seed t" and b: "table_bound m t" and i: "is_int64 i" and p: "raw_elem t i \<noteq> LNil"
  shows "\<exists>t'. ta_seti (raw_taba seed) i v t = Inr t' \<and> raw_inv seed m t' \<and> raw_elem t' = (raw_elem t)(i := v)"
proof -
  let ?k = "int_key i"
  have c: "canonical ?k" by (simp add: int_key_def)
  have nok: "nodes_ok seed t" using ok by (simp add: tab_ok_def)
  obtain s where s: "luaH_getint t (word_of_int i) = Inr s" "slot_for t ?k s"
    using getint_slot [OF ok] unfolding int_key_def by blast
  have present: "tab_map t ?k \<noteq> LNil" using p i by (simp add: raw_elem_def)
  then have ns: "s \<noteq> NilSlot" using slot_val_map [OF nok c s(2)] by (auto simp: slot_val_def)
  let ?t = "set_slot t s v"
  note st = set_slot_ok [OF ok c s(2) ns]
  have "{k. tab_map ?t k \<noteq> LNil} \<subseteq> {k. tab_map t k \<noteq> LNil}" using st(2) present by auto
  then have "entry_count ?t \<le> entry_count t"
    using entry_count_card [OF ok] entry_count_card(2) [OF st(1)] by (simp add: card_mono)
  then have "table_bound m ?t" using b by (simp add: table_bound_def)
  moreover have "ta_seti (raw_taba seed) i v t = Inr ?t"
    using s(1) ns by (simp add: raw_taba_def rawseti_set luaH_set_def luaH_set_with_def int_key_def)
  ultimately show ?thesis using st(1) raw_elem_update [OF st(2) i] by blast
qed

interpretation raw_tab: tab_access "raw_taba seed" raw_elem "raw_inv seed" "2 ^ 28" for seed
proof (unfold_locales, goal_cases)
  case (1 m t i)
  then show ?case using raw_geti by blast
next
  case (2 m t i v)
  then show ?case using raw_seti_old by blast
next
  case (3 m t i v)
  then show ?case using raw_seti_new by blast
qed

section \<open>Tables as lists\<close>

text \<open>The elements \<open>t[1], ..., t[n]\<close>.\<close>

definition elems :: "table \<Rightarrow> int \<Rightarrow> tvalue list" where
  "elems t n = map (raw_elem t) [1..n]"

lemma elems_eqI:
  assumes "int (length xs) = max n 0" and "\<And>k. 1 \<le> k \<Longrightarrow> k \<le> n \<Longrightarrow> xs ! nat (k - 1) = raw_elem t k"
  shows "elems t n = xs"
proof (rule nth_equalityI)
  show len: "length (elems t n) = length xs" using assms(1) by (simp add: elems_def)
  fix i assume "i < length (elems t n)"
  then have i: "int i < n" by (simp add: elems_def)
  then show "elems t n ! i = xs ! i" using assms(2) [of "1 + int i"] by (simp add: elems_def)
qed

lemma elems_nth: "1 \<le> k \<Longrightarrow> k \<le> n \<Longrightarrow> elems t n ! nat (k - 1) = raw_elem t k"
  by (simp add: elems_def nth_map)

lemma length_elems [simp]: "length (elems t n) = nat n"
  by (simp add: elems_def)

lemma inserted_elems:
  assumes "1 \<le> pos" and "pos \<le> n + 1"
    and "\<forall>k. raw_elem t' k = (if k = pos then v else if pos < k \<and> k \<le> n + 1 then raw_elem t (k - 1) else raw_elem t k)"
  shows "elems t' (n + 1) = take (nat (pos - 1)) (elems t n) @ v # drop (nat (pos - 1)) (elems t n)"
proof (rule elems_eqI)
  fix k assume k: "1 \<le> k" "k \<le> n + 1"
  have len: "length (take (nat (pos - 1)) (elems t n)) = nat (pos - 1)" using assms by simp
  consider "k < pos" | "k = pos" | "pos < k" by linarith
  then show "(take (nat (pos - 1)) (elems t n) @ v # drop (nat (pos - 1)) (elems t n)) ! nat (k - 1) = raw_elem t' k"
  proof cases
    case 1
    then have "nat (k - 1) < nat (pos - 1)" using k by simp
    then show ?thesis using 1 k assms elems_nth [of k n t] len by (simp add: nth_append)
  next
    case 2
    then show ?thesis using assms len by (simp add: nth_append)
  next
    case 3
    then have e: "nat (k - 1) = Suc (nat (pos - 1) + nat (k - 1 - pos))" "nat (pos - 1) + nat (k - 1 - pos) = nat (k - 1 - 1)"
      using assms by simp_all
    show ?thesis using 3 k assms elems_nth [of "k - 1" n t] len e by (simp add: nth_append)
  qed
qed (use assms in simp)

lemma removed_elems:
  assumes "1 \<le> pos" and "pos \<le> n"
    and "\<forall>k. raw_elem t' k = (if k = n then LNil else if pos \<le> k \<and> k < n then raw_elem t (k + 1) else raw_elem t k)"
  shows "elems t' (n - 1) = take (nat (pos - 1)) (elems t n) @ drop (nat pos) (elems t n)"
proof (rule elems_eqI)
  fix k assume k: "1 \<le> k" "k \<le> n - 1"
  have len: "length (take (nat (pos - 1)) (elems t n)) = nat (pos - 1)" using assms by simp
  show "(take (nat (pos - 1)) (elems t n) @ drop (nat pos) (elems t n)) ! nat (k - 1) = raw_elem t' k"
  proof (cases "k < pos")
    case True
    then have "nat (k - 1) < nat (pos - 1)" using k by simp
    then show ?thesis using True k assms elems_nth [of k n t] len by (simp add: nth_append)
  next
    case False
    then have e: "nat (k - 1) = nat (pos - 1) + nat (k - pos)" "nat pos + nat (k - pos) = nat (k + 1 - 1)"
      using assms by simp_all
    show ?thesis using False k assms elems_nth [of "k + 1" n t] len e by (simp add: nth_append)
  qed
qed (use assms in simp)

section \<open>Properties\<close>

text \<open>Reading a range of elements.\<close>

lemma get_elems:
  assumes "tab_ok seed t" and "\<forall>i\<in>set is. is_int64 i"
  shows "efold (\<lambda>i (vs, s). ebind (ta_geti (raw_taba seed) i s) (\<lambda>(v, s). Inr (vs @ [v], s))) is (vs, t) =
    Inr (vs @ map (raw_elem t) is, t)"
  using assms(2) by (induction "is" arbitrary: vs) (simp_all add: raw_geti [OF assms(1)])

lemma concat_elems:
  assumes "tab_ok seed t" and "\<forall>i\<in>set is. is_int64 i \<and> tostr (raw_elem t i) \<noteq> None"
  shows "efold (\<lambda>i (b, s). ebind (addfield tostr (raw_taba seed) i (b, s)) (\<lambda>(b, s). Inr (b @ sep, s))) is (b, t) =
    Inr (b @ concat (map (\<lambda>i. the (tostr (raw_elem t i)) @ sep) is), t)"
  using assms(2)
proof (induction "is" arbitrary: b)
  case (Cons i "is")
  then obtain x where "tostr (raw_elem t i) = Some x" by auto
  then show ?case using Cons by (simp add: addfield_def raw_geti [OF assms(1)])
qed simp

text \<open>The table that \<open>table.pack\<close> makes.\<close>

lemma packed_elems:
  assumes "raw_inv seed m t" and "m + k \<le> 2 ^ 28" and "k \<le> length args"
  shows "\<exists>t'. efold (\<lambda>i t. rawseti seed t (of_nat i) (args ! (i - 1))) (rev [1..<Suc k]) t = Inr t' \<and>
    raw_inv seed (m + k) t' \<and> (\<forall>i. raw_elem t' i = (if 1 \<le> i \<and> i \<le> int k then args ! nat (i - 1) else raw_elem t i))"
  using assms
proof (induction k arbitrary: m t)
  case (Suc k)
  have i: "is_int64 (int (Suc k))" using Suc.prems(2) by (simp add: is_int64_def)
  have seti: "ta_seti (raw_taba seed) (int (Suc k)) (args ! k) t = rawseti seed t (of_nat (Suc k)) (args ! k)"
    by (simp add: raw_taba_def)
  obtain t1 where t1: "rawseti seed t (of_nat (Suc k)) (args ! k) = Inr t1" "raw_inv seed (Suc m) t1"
    "raw_elem t1 = (raw_elem t)(int (Suc k) := args ! k)"
    using raw_tab.seti_new [OF Suc.prems(1) i, of "args ! k"] Suc.prems(2) unfolding seti by auto
  obtain t2 where t2: "efold (\<lambda>i t. rawseti seed t (of_nat i) (args ! (i - 1))) (rev [1..<Suc k]) t1 = Inr t2"
    "raw_inv seed (Suc m + k) t2"
    "\<forall>i. raw_elem t2 i = (if 1 \<le> i \<and> i \<le> int k then args ! nat (i - 1) else raw_elem t1 i)"
    using Suc.IH [OF t1(2)] Suc.prems(2,3) by auto
  have "nat (int (Suc k) - 1) = k" by simp
  then have "raw_elem t2 i = (if 1 \<le> i \<and> i \<le> int (Suc k) then args ! nat (i - 1) else raw_elem t i)" for i
    using t2(3) t1(3) by (cases "i = int (Suc k)") auto
  then show ?case using t1(1) t2(1,2) by (auto simp del: of_nat_Suc)
qed auto

text \<open>
  \<open>table.insert\<close> and \<open>table.remove\<close> are insertion into and removal from the list
  \<open>t[1], ..., t[n]\<close>.  On a table of length \<open>n\<close> without metamethods, and for a position in
  range, the insertion returns, the elements are then the old ones with the value put in at
  \<open>pos\<close>, and no integer key outside \<open>pos .. n + 1\<close> changes; the removal returns the element at
  \<open>pos\<close>, the others close the gap, and \<open>t[n]\<close> becomes nil.
\<close>

theorem insert_remove_list:
  assumes "tab_ok seed t" and "table_bound m t" and "1 \<le> pos" and "0 \<le> n" and "int m + n + 1 \<le> 2 ^ 28"
  shows "(pos \<le> n + 1 \<longrightarrow> (\<exists>t'. tinsert (raw_taba seed) n 3 pos v t = Inr t' \<and> tab_ok seed t' \<and>
        elems t' (n + 1) = take (nat (pos - 1)) (elems t n) @ v # drop (nat (pos - 1)) (elems t n) \<and>
        (\<forall>k. k < pos \<or> n + 1 < k \<longrightarrow> raw_elem t' k = raw_elem t k))) \<and>
    (pos \<le> n \<longrightarrow> (\<exists>t'. tremove (raw_taba seed) n (Some pos) t = Inr (elems t n ! nat (pos - 1), t') \<and> tab_ok seed t' \<and>
        elems t' (n - 1) = take (nat (pos - 1)) (elems t n) @ drop (nat pos) (elems t n) \<and> raw_elem t' n = LNil \<and>
        (\<forall>k. k < pos \<or> n < k \<longrightarrow> raw_elem t' k = raw_elem t k)))"
proof (intro conjI impI)
  have i: "raw_inv seed m t" and n: "n < 2 ^ 63 - 1" "m + nat n + 1 \<le> 2 ^ 28" using assms by simp_all
  show "\<exists>t'. tinsert (raw_taba seed) n 3 pos v t = Inr t' \<and> tab_ok seed t' \<and>
        elems t' (n + 1) = take (nat (pos - 1)) (elems t n) @ v # drop (nat (pos - 1)) (elems t n) \<and>
        (\<forall>k. k < pos \<or> n + 1 < k \<longrightarrow> raw_elem t' k = raw_elem t k)" if "pos \<le> n + 1"
    using raw_tab.tinsert_shifts [OF i assms(3) that assms(4) n, of v] inserted_elems [OF assms(3) that] that
    by (elim exE conjE, intro exI conjI) auto
  show "\<exists>t'. tremove (raw_taba seed) n (Some pos) t = Inr (elems t n ! nat (pos - 1), t') \<and> tab_ok seed t' \<and>
        elems t' (n - 1) = take (nat (pos - 1)) (elems t n) @ drop (nat pos) (elems t n) \<and> raw_elem t' n = LNil \<and>
        (\<forall>k. k < pos \<or> n < k \<longrightarrow> raw_elem t' k = raw_elem t k)" if "pos \<le> n"
    using raw_tab.tremove_shifts [OF i assms(3) that n] removed_elems [OF assms(3) that] elems_nth [OF assms(3) that] that
    by (elim exE conjE, intro exI conjI) auto
qed

lemma insert_remove_list_witness:
  "\<exists>t'. tinsert (raw_taba 7) 0 3 1 (LInt 5) luaH_new = Inr t' \<and> elems t' 1 = [LInt 5]"
proof -
  have e: "elems luaH_new 0 = []" by (simp add: elems_def)
  have "\<exists>t'. tinsert (raw_taba 7) 0 3 1 (LInt 5) luaH_new = Inr t' \<and> tab_ok 7 t' \<and>
      elems t' (0 + 1) = take (nat (1 - 1)) (elems luaH_new 0) @ LInt 5 # drop (nat (1 - 1)) (elems luaH_new 0) \<and>
      (\<forall>k. k < 1 \<or> 0 + 1 < k \<longrightarrow> raw_elem t' k = raw_elem luaH_new k)"
    by (rule insert_remove_list [OF luaH_new_ok(1,3), THEN conjunct1, THEN mp]) simp_all
  then show ?thesis by (auto simp: e)
qed

text \<open>
  \<open>table.move\<close> is \<open>memmove\<close>: for any source and destination ranges inside one table, also when
  they overlap, the call returns, the destination then holds the elements that were at the
  source before, and no other integer key changes.
\<close>

theorem move_is_memmove:
  assumes "tab_ok seed tb" and "table_bound m tb" and "is_int64 f" and "is_int64 e" and "is_int64 t"
    and "f \<le> e" and "t + (e - f) < 2 ^ 63" and "int m + (e - f) + 1 \<le> 2 ^ 28"
  shows "\<exists>tb'. tmove (raw_taba seed) f e t tb = Inr tb' \<and> tab_ok seed tb' \<and>
    (\<forall>k. raw_elem tb' k = (if t \<le> k \<and> k \<le> t + (e - f) then raw_elem tb (f + (k - t)) else raw_elem tb k))"
proof -
  have "raw_inv seed m tb" and "e - f + 1 < 2 ^ 63" "m + nat (e - f + 1) \<le> 2 ^ 28" using assms by simp_all
  from raw_tab.tmove_moves [OF this(1) assms(3-6) this(2) assms(7) this(3)] show ?thesis by blast
qed

lemma move_is_memmove_witness:
  "\<exists>tb'. tmove (raw_taba 7) 1 3 2 luaH_new = Inr tb' \<and> raw_elem tb' 4 = raw_elem luaH_new 3"
proof -
  have "\<exists>tb'. tmove (raw_taba 7) 1 3 2 luaH_new = Inr tb' \<and> tab_ok 7 tb' \<and>
    (\<forall>k. raw_elem tb' k = (if 2 \<le> k \<and> k \<le> 2 + (3 - 1) then raw_elem luaH_new (1 + (k - 2)) else raw_elem luaH_new k))"
    by (rule move_is_memmove [OF luaH_new_ok(1,3)]) (simp_all add: is_int64_def)
  then obtain tb' where r: "tmove (raw_taba 7) 1 3 2 luaH_new = Inr tb'" and
    a: "\<forall>k. raw_elem tb' k = (if 2 \<le> k \<and> k \<le> 2 + (3 - 1) then raw_elem luaH_new (1 + (k - 2)) else raw_elem luaH_new k)"
    by blast
  show ?thesis using r a [rule_format, of 4] by auto
qed

text \<open>What a sort does for any comparison without side effects.\<close>

lemma tsort_wp:
  assumes "tab_ok seed t" and "table_bound m t" and "0 \<le> n" and "n < 2 ^ 31" and "LNil \<notin> V" and "set (elems t n) \<subseteq> V"
  shows "wp (tsort (raw_taba seed) (pure_order cmp) n t) (sort_error cmp V) (\<lambda>t'. tab_ok seed t' \<and>
    mset (elems t' n) = mset (elems t n) \<and> (\<forall>k. k < 1 \<or> n < k \<longrightarrow> raw_elem t' k = raw_elem t k) \<and>
    (weak_order cmp V \<longrightarrow> sorted_wrt (\<lambda>x y. cmp y x = Inr False) (elems t' n)))"
proof -
  have "sint (word_of_int n :: u32) = n" using assms(3,4) by (intro sint_word_of_int_range) simp_all
  then have s: "tsort (raw_taba seed) (pure_order cmp) n t = auxsort (raw_taba seed) (pure_order cmp) 1 n t"
    by (simp add: tsort_def)
  have a: "array_in V n (raw_elem t)"
    using assms(4-6) by (auto simp: array_in_def elems_def)
  have "raw_inv seed m t" using assms by blast
  note w = raw_tab.auxsort_wp [OF this a order_refl order_refl, of cmp]
  have "sorted_wrt (\<lambda>x y. cmp y x = Inr False) (elems t' n)" if "sorted_on cmp 1 n (raw_elem t')" for t'
  proof (unfold sorted_wrt_iff_nth_less, intro allI impI)
    fix i j assume ij: "i < j" "j < length (elems t' n)"
    then have "leq cmp (raw_elem t' (1 + int i)) (raw_elem t' (1 + int j))"
      using that by (simp add: sorted_on_def)
    then show "cmp (elems t' n ! j) (elems t' n ! i) = Inr False" using ij by (simp add: elems_def leq_def)
  qed
  moreover have "mset (elems t' n) = mset (elems t n) \<and> (\<forall>k. k < 1 \<or> n < k \<longrightarrow> raw_elem t' k = raw_elem t k)"
    if "perm_on 1 n (raw_elem t) (raw_elem t')" for t'
    using perm_on_mset [OF that] perm_on_outside [OF that] unfolding elems_def by blast
  ultimately show ?thesis unfolding s
    by (intro wp_mono [OF w]) blast
qed

text \<open>C7:
  \<open>table.sort\<close> sorts.  If the first \<open>n\<close> elements of a table without metamethods are not nil and
  the comparison is a strict weak order on them (it may be an order function of the program or
  the operator \<open><\<close>), the sort returns, with no error; the elements are a permutation of the
  old ones and in order, and no integer key outside \<open>1 .. n\<close> changes.
\<close>

theorem sort_sorts:
  assumes "tab_ok seed t" and "table_bound m t" and "0 \<le> n" and "n < 2 ^ 31"
    and "LNil \<notin> V" and "set (elems t n) \<subseteq> V" and "weak_order cmp V"
  shows "\<exists>t'. tsort (raw_taba seed) (pure_order cmp) n t = Inr t' \<and> tab_ok seed t' \<and>
    mset (elems t' n) = mset (elems t n) \<and> sorted_wrt (\<lambda>x y. cmp y x = Inr False) (elems t' n) \<and>
    (\<forall>k. k < 1 \<or> n < k \<longrightarrow> raw_elem t' k = raw_elem t k)"
  using tsort_wp [OF assms(1-6), of cmp] assms(7)
  by (cases "tsort (raw_taba seed) (pure_order cmp) n t") (auto simp: sort_error_def)

text \<open>A table with three integers, and the order of the integers.\<close>

definition int_less :: "tvalue \<Rightarrow> tvalue \<Rightarrow> bool res" where
  "int_less x y = (case (x, y) of (LInt a, LInt b) \<Rightarrow> Inr (a <s b) | _ \<Rightarrow> Inl (RunError ''attempt to compare''))"

lemma int_less_order: "weak_order int_less (range LInt)"
  by (auto simp: weak_order_def int_less_def word_sless_alt)

lemma three_elements:
  obtains t where "tab_ok 7 t" and "table_bound 3 t" and "elems t 3 = [LInt 9, LInt 4, LInt 6]"
proof -
  have i: "is_int64 1" "is_int64 2" "is_int64 3" by (simp_all add: is_int64_def)
  have r0: "raw_inv 7 0 luaH_new" using luaH_new_ok by blast
  obtain t1 where r1: "raw_inv 7 1 t1" "raw_elem t1 = (raw_elem luaH_new)(1 := LInt 9)"
    using raw_tab.seti_new [OF r0 i(1), of "LInt 9"] by auto
  obtain t2 where r2: "raw_inv 7 2 t2" "raw_elem t2 = (raw_elem t1)(2 := LInt 4)"
    using raw_tab.seti_new [OF r1(1) i(2), of "LInt 4"] by (simp add: eval_nat_numeral(3) [symmetric] flip: One_nat_def) blast
  obtain t3 where r3: "raw_inv 7 3 t3" "raw_elem t3 = (raw_elem t2)(3 := LInt 6)"
    using raw_tab.seti_new [OF r2(1) i(3), of "LInt 6"] by auto
  have "elems t3 3 = [LInt 9, LInt 4, LInt 6]" using r1 r2 r3 by (simp add: elems_def upto.simps)
  with r3(1) show ?thesis using that by blast
qed

lemma sort_sorts_witness:
  "\<exists>t t'. elems t 3 = [LInt 9, LInt 4, LInt 6] \<and>
    tsort (raw_taba 7) (pure_order int_less) 3 t = Inr t' \<and> mset (elems t' 3) = mset [LInt 9, LInt 4, LInt 6]"
proof -
  obtain t where t: "tab_ok 7 t" "table_bound 3 t" "elems t 3 = [LInt 9, LInt 4, LInt 6]"
    by (rule three_elements)
  have "\<exists>t'. tsort (raw_taba 7) (pure_order int_less) 3 t = Inr t' \<and> tab_ok 7 t' \<and>
    mset (elems t' 3) = mset (elems t 3) \<and> sorted_wrt (\<lambda>x y. int_less y x = Inr False) (elems t' 3) \<and>
    (\<forall>k. k < 1 \<or> 3 < k \<longrightarrow> raw_elem t' k = raw_elem t k)"
    by (rule sort_sorts [OF t(1,2) _ _ _ _ int_less_order]) (use t(3) in auto)
  then show ?thesis using t(3) by metis
qed

text \<open>
  A sort is safe for any comparison.  Whatever a comparison without side effects answers, even
  if it contradicts itself or raises errors, \<open>table.sort\<close> ends; the only error it raises, apart
  from those of the comparison, is "invalid order function for sorting", and that only if the
  comparison is no strict weak order; if it returns, the elements are a permutation of the old
  ones: none is lost or doubled.
\<close>

theorem sort_any_order:
  assumes "tab_ok seed t" and "table_bound m t" and "0 \<le> n" and "n < 2 ^ 31" and "LNil \<notin> set (elems t n)"
  shows "case tsort (raw_taba seed) (pure_order cmp) n t of
      Inr t' \<Rightarrow> tab_ok seed t' \<and> mset (elems t' n) = mset (elems t n) \<and>
        (\<forall>k. k < 1 \<or> n < k \<longrightarrow> raw_elem t' k = raw_elem t k)
    | Inl e \<Rightarrow> \<not> weak_order cmp (set (elems t n)) \<and>
        (e = RunError ''invalid order function for sorting'' \<or> (\<exists>x y. cmp x y = Inl e))"
  using tsort_wp [OF assms(1-5) order_refl, of cmp] by (auto simp: wp_def sort_error_def split: sum.splits)

lemma sort_any_order_witness:
  "\<exists>t. elems t 3 = [LInt 9, LInt 4, LInt 6] \<and>
    (case tsort (raw_taba 7) (pure_order (\<lambda>x y. Inr True)) 3 t of
      Inr t' \<Rightarrow> mset (elems t' 3) = mset (elems t 3)
    | Inl e \<Rightarrow> e = RunError ''invalid order function for sorting'')"
proof -
  obtain t where t: "tab_ok 7 t" "table_bound 3 t" "elems t 3 = [LInt 9, LInt 4, LInt 6]"
    by (rule three_elements)
  then show ?thesis
    using sort_any_order [OF t(1,2), of 3 "\<lambda>x y. Inr True"]
    by (intro exI [of _ t]) (simp split: sum.splits)
qed

lemma createtable_hash:
  assumes "0 < n" and "n \<le> 2 ^ 27"
  shows "\<exists>t. createtable seed n 1 = Inr t \<and> raw_inv seed n t \<and> tab_map t = (\<lambda>k. LNil)"
proof -
  have "hash_load n (reinserted luaH_new n) + 0 \<le> 1"
    by (simp add: reinserted_load_card [OF luaH_new_ok(1)] luaH_new_ok(2))
  from resize_with_keeps [OF luaH_new_ok(1) [of seed] _ _ this, of "luaH_newkey_rec 1 seed"] assms(2)
  obtain t where t: "createtable seed n 1 = Inr t" "tab_ok seed t" "tab_map t = (\<lambda>k. LNil)" "sizearray t = n" "sizenode t \<le> 2"
    unfolding createtable_def luaH_resize_def luaH_newkey_unfold by (auto simp: luaH_new_ok(2))
  then have "entry_count t = 0" using entry_count_card(2) [OF t(2)] by simp
  then show ?thesis using t assms by (auto simp: table_bound_def)
qed

text \<open>C27:
  \<open>table.unpack\<close> inverts \<open>table.pack\<close>: packing any values, nil included, gives a table whose
  field \<open>n\<close> is their number, and unpacking \<open>1 .. n\<close> of it returns exactly these values in order.
\<close>

theorem unpack_pack:
  assumes "args \<noteq> []" and "length args \<le> 2 ^ 27 - 1"
  shows "\<exists>t. tpack seed args = Inr t \<and> rawget seed t (LStr ''n'') = Inr (LInt (of_nat (length args))) \<and>
    (\<forall>len. tunpack (raw_taba seed) len (Some 1) (Some (int (length args))) t = Inr (args, t))"
proof -
  let ?n = "length args"
  have n: "0 < ?n" using assms(1) by simp
  obtain t0 where t0: "createtable seed ?n 1 = Inr t0" "raw_inv seed ?n t0"
    using createtable_hash [OF n] assms(2) by auto
  obtain t1 where t1: "efold (\<lambda>i t. rawseti seed t (of_nat i) (args ! (i - 1))) (rev [1..<Suc ?n]) t0 = Inr t1"
    "raw_inv seed (?n + ?n) t1" "\<forall>i. raw_elem t1 i = (if 1 \<le> i \<and> i \<le> int ?n then args ! nat (i - 1) else raw_elem t0 i)"
    using packed_elems [OF t0(2), of ?n args] assms(2) by (auto simp del: upt_Suc)
  have v: "valid_key (LStr ''n'')" by (simp add: valid_key_def)
  have "?n + ?n < 2 ^ 28" using assms(2) by simp
  then obtain t where t: "rawset seed t1 (LStr ''n'') (LInt (of_nat ?n)) = Inr t" "tab_ok seed t"
    "tab_map t = (tab_map t1)(LStr ''n'' := LInt (of_nat ?n))"
    using rawset_map [OF _ v, of seed t1 "?n + ?n" "LInt (of_nat ?n)"] t1(2) by auto
  have range: "\<forall>i\<in>set [1..int ?n]. is_int64 i" using assms(2) by (auto simp: is_int64_def)
  have "raw_elem t i = raw_elem t1 i" for i by (simp add: raw_elem_def t(3) int_key_def)
  then have e: "map (raw_elem t) [1..int ?n] = args"
    using t1(3) by (intro nth_equalityI) auto
  have "tunpack (raw_taba seed) len (Some 1) (Some (int ?n)) t = Inr (args, t)" for len
    using get_elems [OF t(2) range, of "[]"] e n assms(2) by (simp add: tunpack_def Let_def optint_def)
  moreover have "tpack seed args = Inr t" unfolding tpack_def Let_def t0(1) ebind_Inr t1(1) by (rule t(1))
  moreover have "rawget seed t (LStr ''n'') = Inr (LInt (of_nat ?n))"
    using rawget_map [OF t(2) v] t(3) by simp
  ultimately show ?thesis by blast
qed

lemma unpack_pack_witness:
  "\<exists>t. tpack 7 [LInt 3, LNil, LBool True] = Inr t \<and>
    tunpack (raw_taba 7) 0 (Some 1) (Some 3) t = Inr ([LInt 3, LNil, LBool True], t)"
  using unpack_pack [of "[LInt 3, LNil, LBool True]" 7] by auto

text \<open>
  \<open>table.concat\<close> joins: for a range \<open>i .. j\<close> of a table without metamethods in which every
  element before the last is a string or a number, it returns their strings in order with the
  separator between each two (and nothing for an empty range); if the last element is neither,
  it raises the error "invalid value".
\<close>

theorem concat_joins:
  assumes "tab_ok seed t" and "is_int64 i" and "is_int64 j"
    and "\<forall>k. i \<le> k \<longrightarrow> k < j \<longrightarrow> tostr (raw_elem t k) \<noteq> None"
  shows "tconcat tostr (raw_taba seed) len sep (Some i) (Some j) t =
    (if j < i then Inr ('''', t)
     else case tostr (raw_elem t j) of
       None \<Rightarrow> Inl (RunError ''invalid value in table for concat'')
     | Some x \<Rightarrow> Inr (concat (map (\<lambda>k. the (tostr (raw_elem t k)) @ sep) [i..j - 1]) @ x, t))"
proof -
  have "\<forall>k\<in>set [i..j - 1]. is_int64 k \<and> tostr (raw_elem t k) \<noteq> None" using assms(2-4) by (auto simp: is_int64_def)
  note l = concat_elems [OF assms(1) this, of sep "''''"]
  have last: "addfield tostr (raw_taba seed) j (b, t) = (case tostr (raw_elem t j) of
      None \<Rightarrow> Inl (RunError ''invalid value in table for concat'') | Some x \<Rightarrow> Inr (b @ x, t))" for b
    by (simp add: addfield_def raw_geti [OF assms(1,3)])
  show ?thesis
    unfolding tconcat_def optint_simps Let_def l ebind_Inr prod.case last append_Nil by simp
qed

lemma concat_joins_witness:
  "tconcat (\<lambda>v. case v of LNil \<Rightarrow> Some ''x'' | _ \<Rightarrow> None) (raw_taba 7) 0 ''-'' (Some 1) (Some 2) luaH_new =
    Inr (''x-x'', luaH_new)"
proof -
  have e: "raw_elem luaH_new k = LNil" for k by (simp add: raw_elem_def luaH_new_ok(2))
  show ?thesis
    by (subst concat_joins [OF luaH_new_ok(1)]) (simp_all add: e is_int64_def)
qed

end
