(* ===== verification/Lua_Zio.thy ===== *)
theory Lua_Zio
  imports Prelude "HOL-Library.Sublist"
begin

text \<open>
  \<open>lzio.c\<close>: the buffered stream a chunk is read from.  The bytes come from a \<open>lua_Reader\<close>, a
  function of the host program that delivers them in pieces; it is a parameter with a state of
  its own, and delivers \<open>None\<close> for a null pointer.  \<open>Mbuffer\<close> is a growing array and needs no
  model.  A stream is not read again after \<open>zgetc\<close> met its end.
\<close>

section \<open>Streams\<close>

type_synonym 'd lua_reader = "'d \<Rightarrow> byte list option \<times> 'd"

record 'd zio =
  z_buf :: "byte list"   \<comment> \<open>the \<open>n\<close> unread bytes at \<open>p\<close>\<close>
  z_data :: 'd

definition luaZ_fill :: "'d lua_reader \<Rightarrow> 'd zio \<Rightarrow> byte option \<times> 'd zio" where
  "luaZ_fill R z = (case R (z_data z) of
     (Some (b # bs), d) \<Rightarrow> (Some b, \<lparr>z_buf = bs, z_data = d\<rparr>)
   | (_, d) \<Rightarrow> (None, z\<lparr>z_data := d\<rparr>))"

definition zgetc :: "'d lua_reader \<Rightarrow> 'd zio \<Rightarrow> byte option \<times> 'd zio" where
  "zgetc R z = (case z_buf z of
     b # bs \<Rightarrow> (Some b, z\<lparr>z_buf := bs\<rparr>)
   | [] \<Rightarrow> luaZ_fill R z)"

definition luaZ_init :: "'d \<Rightarrow> 'd zio" where
  "luaZ_init d = \<lparr>z_buf = [], z_data = d\<rparr>"

text \<open>The head of the loop of \<open>luaZ_read\<close>: a stream with bytes in its buffer, or the end.\<close>

definition refill :: "'d lua_reader \<Rightarrow> 'd zio \<Rightarrow> bool \<times> 'd zio" where
  "refill R z =
     (if z_buf z \<noteq> [] then (True, z)
      else case luaZ_fill R z of
        (None, z) \<Rightarrow> (False, z)
      | (Some b, z) \<Rightarrow> (True, z\<lparr>z_buf := b # z_buf z\<rparr>))"

lemma refill_nonempty: "refill R z = (True, z') \<Longrightarrow> z_buf z' \<noteq> []"
  by (auto simp: refill_def split: if_splits prod.splits option.splits)

text \<open>The result is what was copied, how many bytes are missing, and the stream.\<close>

function luaZ_read :: "'d lua_reader \<Rightarrow> nat \<Rightarrow> 'd zio \<Rightarrow> byte list \<times> nat \<times> 'd zio" where
  "luaZ_read R n z =
     (if n = 0 then ([], 0, z)
      else case refill R z of
        (False, z) \<Rightarrow> ([], n, z)
      | (True, z) \<Rightarrow>
          let m = min n (length (z_buf z));
              (bs, r, z') = luaZ_read R (n - m) (z\<lparr>z_buf := drop m (z_buf z)\<rparr>)
          in (take m (z_buf z) @ bs, r, z'))"
  by pat_completeness auto
termination
  by (relation "measure (\<lambda>(R, n, z). n)") (auto simp: min_def intro!: diff_less dest!: refill_nonempty [OF sym])

declare luaZ_read.simps [simp del]

section \<open>Readers that deliver a finite content\<close>

text \<open>
  What the manual asks of a \<open>lua_Reader\<close>: the pieces it delivers make up the content; the end
  is a null pointer or an empty piece.
\<close>

locale byte_reader =
  fixes R :: "'d lua_reader" and content :: "'d \<Rightarrow> byte list"
  assumes more: "content d \<noteq> [] \<Longrightarrow> \<exists>b bs d'. R d = (Some (b # bs), d') \<and> content d = (b # bs) @ content d'"
    and stop: "content d = [] \<Longrightarrow> \<exists>d'. (R d = (None, d') \<or> R d = (Some [], d')) \<and> content d' = []"
begin

definition zbytes :: "'d zio \<Rightarrow> byte list" where
  "zbytes z = z_buf z @ content (z_data z)"

lemma fill_bytes:
  assumes "z_buf z = []"
  shows "case zbytes z of
      [] \<Rightarrow> \<exists>z'. luaZ_fill R z = (None, z') \<and> zbytes z' = []
    | b # bs \<Rightarrow> \<exists>z'. luaZ_fill R z = (Some b, z') \<and> zbytes z' = bs"
proof (cases "content (z_data z)")
  case Nil
  then show ?thesis using stop [of "z_data z"] assms by (auto simp: luaZ_fill_def zbytes_def)
next
  case (Cons b bs)
  then show ?thesis using more [of "z_data z"] assms by (auto simp: luaZ_fill_def zbytes_def)
qed

lemma zgetc_bytes:
  "case zbytes z of
      [] \<Rightarrow> \<exists>z'. zgetc R z = (None, z') \<and> zbytes z' = []
    | b # bs \<Rightarrow> \<exists>z'. zgetc R z = (Some b, z') \<and> zbytes z' = bs"
proof (cases "z_buf z")
  case Nil
  then show ?thesis using fill_bytes [OF Nil] Nil by (simp add: zgetc_def split: list.splits)
next
  case (Cons b bs)
  then show ?thesis by (simp add: zgetc_def zbytes_def)
qed

lemma refill_bytes:
  "if zbytes z = [] then \<exists>z'. refill R z = (False, z') \<and> zbytes z' = []
   else \<exists>z'. refill R z = (True, z') \<and> zbytes z' = zbytes z \<and> z_buf z' \<noteq> []"
proof (cases "z_buf z")
  case Nil
  show ?thesis
  proof (cases "zbytes z")
    case (Cons b bs)
    then obtain z' where "luaZ_fill R z = (Some b, z')" "zbytes z' = bs" using fill_bytes [OF Nil] by auto
    then show ?thesis using Nil Cons by (simp add: refill_def zbytes_def)
  qed (use fill_bytes [OF Nil] Nil in \<open>auto simp: refill_def\<close>)
qed (simp add: refill_def zbytes_def)

lemma read_bytes:
  "\<exists>z'. luaZ_read R n z = (take n (zbytes z), n - length (zbytes z), z') \<and> zbytes z' = drop n (zbytes z)"
proof (induction n arbitrary: z rule: less_induct)
  case (less n)
  show ?case
  proof (cases "n = 0 \<or> zbytes z = []")
    case True
    then show ?thesis using refill_bytes [of z] by (auto simp: luaZ_read.simps [of R n z])
  next
    case False
    then obtain z1 where z1: "refill R z = (True, z1)" "zbytes z1 = zbytes z" "z_buf z1 \<noteq> []"
      using refill_bytes [of z] by auto
    let ?m = "min n (length (z_buf z1))" and ?z = "z1\<lparr>z_buf := drop (min n (length (z_buf z1))) (z_buf z1)\<rparr>"
    have m: "n - ?m < n" using False z1(3) by (cases "z_buf z1") auto
    have b: "zbytes ?z = drop ?m (zbytes z)" "take ?m (z_buf z1) = take ?m (zbytes z)"
      unfolding z1(2) [symmetric] by (simp_all add: zbytes_def)
    have "?m \<le> length (zbytes z)" unfolding z1(2) [symmetric] by (simp add: zbytes_def)
    obtain z2 where z2: "luaZ_read R (n - ?m) ?z = (take (n - ?m) (zbytes ?z), n - ?m - length (zbytes ?z), z2)"
      "zbytes z2 = drop (n - ?m) (zbytes ?z)"
      using less [OF m, of ?z] by blast
    have "luaZ_read R n z = (take ?m (zbytes z) @ take (n - ?m) (drop ?m (zbytes z)), n - ?m - (length (zbytes z) - ?m), z2)"
      using False z1(1) z2(1) b by (simp add: luaZ_read.simps [of R n z] Let_def)
    moreover have "take ?m (zbytes z) @ take (n - ?m) (drop ?m (zbytes z)) = take n (zbytes z)"
      using take_add [of ?m "n - ?m" "zbytes z"] by simp
    ultimately show ?thesis using z2(2) b(1) \<open>?m \<le> length (zbytes z)\<close> by simp
  qed
qed

end

section \<open>Readers\<close>

text \<open>\<open>getS\<close> of \<open>lauxlib.c\<close>: a whole string at once.\<close>

definition getS :: "byte list lua_reader" where
  "getS s = (if length s = 0 then (None, s) else (Some s, []))"

interpretation gets: byte_reader getS "\<lambda>s. s"
proof (unfold_locales, goal_cases)
  case (1 d)
  then show ?case by (cases d) (simp_all add: getS_def)
qed (simp add: getS_def)

text \<open>A reader with its content in any pieces, the first empty one being the end.\<close>

fun pieces_reader :: "byte list list lua_reader" where
  "pieces_reader [] = (None, [])"
| "pieces_reader (p # ps) = (Some p, if p = [] then [] else ps)"

fun pieces_content :: "byte list list \<Rightarrow> byte list" where
  "pieces_content [] = []"
| "pieces_content (p # ps) = (if p = [] then [] else p @ pieces_content ps)"

interpretation pieces: byte_reader pieces_reader pieces_content
proof (unfold_locales, goal_cases)
  case (1 d)
  then show ?case by (cases d rule: pieces_content.cases) (auto simp: neq_Nil_conv split: if_splits)
next
  case (2 d)
  then show ?case by (cases d rule: pieces_content.cases) (auto split: if_splits)
qed

end
