(* ===== verification/Lua_Chunk.thy ===== *)
theory Lua_Chunk
  imports Lua_Zio Lua_Values
begin

text \<open>
  \<open>ldump.c\<close> and \<open>lundump.c\<close>: function prototypes as precompiled chunks.  The writer and the
  reader of the chunk are functions of the host program and parameters here.  Sizes of C types
  and byte order are those of a 64-bit little-endian machine.
\<close>

section \<open>Prototypes\<close>

text \<open>
  A \<open>TString\<close> has an identity, which \<open>DumpFunction\<close> compares, and contents.  The prototypes are
  over any type of strings: \<open>tstring\<close> for those in memory, \<open>string\<close> where only the contents
  matter.  \<open>None\<close> is a null pointer.  The sizes of the arrays are the lengths of the lists; the
  closure cache and the links of the collector are not part of a chunk.
\<close>

datatype tstring = TString (ts_addr: u64) (getstr: string)

datatype 's upvaldesc = Upvaldesc (u_name: "'s option") (u_instack: byte) (u_idx: byte)

datatype 's locvar = LocVar (v_name: "'s option") (v_startpc: u32) (v_endpc: u32)

datatype 's proto = Proto (p_numparams: byte) (p_is_vararg: byte) (p_maxstacksize: byte)
  (p_linedefined: u32) (p_lastlinedefined: u32) (p_source: "'s option")
  (p_code: "u32 list") (p_k: "tvalue list") (p_upvalues: "'s upvaldesc list") (p_p: "'s proto list")
  (p_lineinfo: "u32 list") (p_locvars: "'s locvar list")

text \<open>The variant tags that \<open>ttype\<close> reads.\<close>

abbreviation (input) LUA_TNIL :: nat where "LUA_TNIL \<equiv> 0"
abbreviation (input) LUA_TBOOLEAN :: nat where "LUA_TBOOLEAN \<equiv> 1"
abbreviation (input) LUA_TNUMFLT :: nat where "LUA_TNUMFLT \<equiv> 3"
abbreviation (input) LUA_TNUMINT :: nat where "LUA_TNUMINT \<equiv> 19"
abbreviation (input) LUA_TSHRSTR :: nat where "LUA_TSHRSTR \<equiv> 4"
abbreviation (input) LUA_TLNGSTR :: nat where "LUA_TLNGSTR \<equiv> 20"

fun ttype :: "tvalue \<Rightarrow> nat" where
  "ttype LNil = LUA_TNIL"
| "ttype (LBool b) = LUA_TBOOLEAN"
| "ttype (LLight p) = 2"
| "ttype (LFlt f) = LUA_TNUMFLT"
| "ttype (LInt i) = LUA_TNUMINT"
| "ttype (LStr s) = (if length s \<le> 40 then LUA_TSHRSTR else LUA_TLNGSTR)"
| "ttype (LTab p) = 5"
| "ttype (LLcl p) = 6"
| "ttype (LLcf p) = 22"
| "ttype (LCcl p) = 38"
| "ttype (LUdata p) = 7"
| "ttype (LThread p) = 8"
| "ttype (LDead v) = 10"

text \<open>Constants of \<open>lundump.h\<close> and \<open>lua.h\<close>; \<open>LUAC_NUM\<close> is the float 370.5.\<close>

definition LUA_SIGNATURE :: "byte list" where "LUA_SIGNATURE = [0x1b, 0x4c, 0x75, 0x61]"
definition LUAC_DATA :: "byte list" where "LUAC_DATA = [0x19, 0x93, 0x0d, 0x0a, 0x1a, 0x0a]"
definition LUAC_INT :: u64 where "LUAC_INT = 0x5678"
definition LUAC_NUM :: u64 where "LUAC_NUM = 0x4077280000000000"
definition LUAC_VERSION :: nat where "LUAC_VERSION = 5 * 16 + 3"
definition LUAC_FORMAT :: nat where "LUAC_FORMAT = 0"

section \<open>Dump\<close>

text \<open>
  A \<open>DumpState\<close> is the status and the data of the writer; the writer is a parameter, the flag
  \<open>strip\<close> an argument where it is used.  \<open>steps\<close> runs operations one after the other.
\<close>

type_synonym 'd lua_writer = "byte list \<Rightarrow> 'd \<Rightarrow> int \<times> 'd"
type_synonym 'd dump_state = "int \<times> 'd"

definition steps :: "('s \<Rightarrow> 's) list \<Rightarrow> 's \<Rightarrow> 's" where
  "steps fs = fold (\<lambda>f. f) fs"

definition DumpBlock :: "'d lua_writer \<Rightarrow> byte list \<Rightarrow> 'd dump_state \<Rightarrow> 'd dump_state" where
  "DumpBlock W b = (\<lambda>(status, d). if status = 0 then W b d else (status, d))"

definition DumpByte :: "'d lua_writer \<Rightarrow> nat \<Rightarrow> 'd dump_state \<Rightarrow> 'd dump_state" where
  "DumpByte W y = DumpBlock W [of_nat y]"

definition DumpInt :: "'d lua_writer \<Rightarrow> u32 \<Rightarrow> 'd dump_state \<Rightarrow> 'd dump_state" where
  "DumpInt W x = DumpBlock W (le_bytes 4 x)"

definition DumpNumber :: "'d lua_writer \<Rightarrow> u64 \<Rightarrow> 'd dump_state \<Rightarrow> 'd dump_state" where
  "DumpNumber W x = DumpBlock W (le_bytes 8 x)"

definition DumpInteger :: "'d lua_writer \<Rightarrow> u64 \<Rightarrow> 'd dump_state \<Rightarrow> 'd dump_state" where
  "DumpInteger W x = DumpBlock W (le_bytes 8 x)"

definition DumpString :: "'d lua_writer \<Rightarrow> string option \<Rightarrow> 'd dump_state \<Rightarrow> 'd dump_state" where
  "DumpString W s = (case s of
     None \<Rightarrow> DumpByte W 0
   | Some str \<Rightarrow>
       let size = length str + 1 in
       steps [
         if size < 0xFF then DumpByte W size
         else steps [DumpByte W 0xFF, DumpBlock W (le_bytes 8 (of_nat size :: u64))],
         DumpBlock W (str_bytes str)])"

definition DumpInts :: "'d lua_writer \<Rightarrow> u32 list \<Rightarrow> 'd dump_state \<Rightarrow> 'd dump_state" where
  "DumpInts W xs = steps [DumpInt W (of_nat (length xs)), DumpBlock W (concat (map (le_bytes 4) xs))]"

definition DumpCode :: "'d lua_writer \<Rightarrow> 's proto \<Rightarrow> 'd dump_state \<Rightarrow> 'd dump_state" where
  "DumpCode W f = DumpInts W (p_code f)"

definition DumpConstant :: "'d lua_writer \<Rightarrow> tvalue \<Rightarrow> 'd dump_state \<Rightarrow> 'd dump_state" where
  "DumpConstant W k =
     steps [
       DumpByte W (ttype k),
       case k of
         LBool b \<Rightarrow> DumpByte W (of_bool b)
       | LFlt f \<Rightarrow> DumpNumber W f
       | LInt i \<Rightarrow> DumpInteger W i
       | LStr s \<Rightarrow> DumpString W (Some s)
       | _ \<Rightarrow> id]"

definition DumpConstants :: "'d lua_writer \<Rightarrow> 's proto \<Rightarrow> 'd dump_state \<Rightarrow> 'd dump_state" where
  "DumpConstants W f = steps [DumpInt W (of_nat (length (p_k f))), fold (DumpConstant W) (p_k f)]"

definition DumpUpvalues :: "'d lua_writer \<Rightarrow> 's proto \<Rightarrow> 'd dump_state \<Rightarrow> 'd dump_state" where
  "DumpUpvalues W f =
     steps [
       DumpInt W (of_nat (length (p_upvalues f))),
       fold (\<lambda>u. steps [DumpByte W (unat (u_instack u)), DumpByte W (unat (u_idx u))]) (p_upvalues f)]"

definition DumpDebug :: "'d lua_writer \<Rightarrow> bool \<Rightarrow> tstring proto \<Rightarrow> 'd dump_state \<Rightarrow> 'd dump_state" where
  "DumpDebug W strip f =
     (let lineinfo = (if strip then [] else p_lineinfo f);
          locvars = (if strip then [] else p_locvars f);
          upvalues = (if strip then [] else p_upvalues f)
      in steps [
           DumpInts W lineinfo,
           DumpInt W (of_nat (length locvars)),
           fold (\<lambda>v. steps [DumpString W (map_option getstr (v_name v)),
                             DumpInt W (v_startpc v), DumpInt W (v_endpc v)]) locvars,
           DumpInt W (of_nat (length upvalues)),
           fold (\<lambda>u. DumpString W (map_option getstr (u_name u))) upvalues])"

text \<open>Equality of two \<open>TString\<close> pointers.\<close>

definition same_string :: "tstring option \<Rightarrow> tstring option \<Rightarrow> bool" where
  "same_string a b \<longleftrightarrow> map_option ts_addr a = map_option ts_addr b"

lemma proto_size:
  assumes "q \<in> set (p_p f)"
  shows "size q < size f"
proof -
  have "size q \<le> size_list size (p_p f)" by (rule size_list_estimation' [OF assms order_refl])
  then show ?thesis by (cases f) simp
qed

definition DumpProtos :: "'d lua_writer \<Rightarrow> ('s proto \<Rightarrow> 'd dump_state \<Rightarrow> 'd dump_state) \<Rightarrow> 's proto \<Rightarrow>
    'd dump_state \<Rightarrow> 'd dump_state" where
  "DumpProtos W dump f = steps [DumpInt W (of_nat (length (p_p f))), steps (map dump (p_p f))]"

lemma DumpProtos_cong [fundef_cong]:
  assumes "f = g" and "\<And>q. q \<in> set (p_p g) \<Longrightarrow> dump q = dump' q"
  shows "DumpProtos W dump f = DumpProtos W dump' g"
proof -
  have "map dump (p_p g) = map dump' (p_p g)" using assms(2) by simp
  then show ?thesis by (simp only: DumpProtos_def assms(1))
qed

function DumpFunction :: "'d lua_writer \<Rightarrow> bool \<Rightarrow> tstring proto \<Rightarrow> tstring option \<Rightarrow> 'd dump_state \<Rightarrow> 'd dump_state" where
  "DumpFunction W strip f psource =
     steps [
       if strip \<or> same_string (p_source f) psource then DumpString W None
       else DumpString W (map_option getstr (p_source f)),
       DumpInt W (p_linedefined f),
       DumpInt W (p_lastlinedefined f),
       DumpByte W (unat (p_numparams f)),
       DumpByte W (unat (p_is_vararg f)),
       DumpByte W (unat (p_maxstacksize f)),
       DumpCode W f,
       DumpConstants W f,
       DumpUpvalues W f,
       DumpProtos W (\<lambda>q. DumpFunction W strip q (p_source f)) f,
       DumpDebug W strip f]"
  by pat_completeness auto
termination
  by (relation "measure (\<lambda>(W, strip, f, psource). size f)") (auto dest: proto_size)

declare DumpFunction.simps [simp del]

definition DumpHeader :: "'d lua_writer \<Rightarrow> 'd dump_state \<Rightarrow> 'd dump_state" where
  "DumpHeader W =
     steps [
       DumpBlock W LUA_SIGNATURE,
       DumpByte W LUAC_VERSION,
       DumpByte W LUAC_FORMAT,
       DumpBlock W LUAC_DATA,
       DumpByte W 4,
       DumpByte W 8,
       DumpByte W 4,
       DumpByte W 8,
       DumpByte W 8,
       DumpInteger W LUAC_INT,
       DumpNumber W LUAC_NUM]"

definition luaU_dump :: "'d lua_writer \<Rightarrow> tstring proto \<Rightarrow> bool \<Rightarrow> 'd \<Rightarrow> 'd dump_state" where
  "luaU_dump W f strip d =
     steps [DumpHeader W, DumpByte W (length (p_upvalues f)), DumpFunction W strip f None] (0, d)"

text \<open>\<open>writer\<close> and \<open>str_dump\<close> of \<open>lstrlib.c\<close>, on the prototype of the function given.\<close>

definition str_writer :: "byte list lua_writer" where
  "str_writer b B = (0, B @ b)"

definition str_dump :: "tstring proto \<Rightarrow> bool \<Rightarrow> byte list res" where
  "str_dump f strip = (case luaU_dump str_writer f strip [] of
     (status, b) \<Rightarrow> if status \<noteq> 0 then Inl (RunError ''unable to dump given function'') else Inr b)"

section \<open>Undump\<close>

text \<open>
  A \<open>LoadState\<close>; its stream is what the operations take and return.  The strings of a loaded
  prototype are their contents.
\<close>

record 'd load_state =
  ls_reader :: "'d lua_reader"
  ls_name :: string

type_synonym ('a, 'd) loader = "'d zio \<Rightarrow> ('a \<times> 'd zio) res"

definition chunk_error :: "'d load_state \<Rightarrow> string \<Rightarrow> lua_error" where
  "chunk_error S why = RunError (ls_name S @ '': '' @ why @ '' precompiled chunk'')"

definition LoadBlock :: "'d load_state \<Rightarrow> nat \<Rightarrow> (byte list, 'd) loader" where
  "LoadBlock S n z = (case luaZ_read (ls_reader S) n z of
     (bs, missing, z) \<Rightarrow> if missing \<noteq> 0 then Inl (chunk_error S ''truncated'') else Inr (bs, z))"

definition LoadByte :: "'d load_state \<Rightarrow> (byte, 'd) loader" where
  "LoadByte S z = ebind (LoadBlock S 1 z) (\<lambda>(bs, z). Inr (le_word bs, z))"

definition LoadInt :: "'d load_state \<Rightarrow> (u32, 'd) loader" where
  "LoadInt S z = ebind (LoadBlock S 4 z) (\<lambda>(bs, z). Inr (le_word bs, z))"

definition LoadNumber :: "'d load_state \<Rightarrow> (u64, 'd) loader" where
  "LoadNumber S z = ebind (LoadBlock S 8 z) (\<lambda>(bs, z). Inr (le_word bs, z))"

definition LoadInteger :: "'d load_state \<Rightarrow> (u64, 'd) loader" where
  "LoadInteger S z = ebind (LoadBlock S 8 z) (\<lambda>(bs, z). Inr (le_word bs, z))"

text \<open>
  A size that no memory can hold fails in \<open>luaZ_openspace\<close>; memory exhaustion is not modelled, and the
  error here is that of the bytes that are missing.
\<close>

definition LoadString :: "'d load_state \<Rightarrow> (string option, 'd) loader" where
  "LoadString S z =
     ebind (LoadByte S z) (\<lambda>(b, z).
     ebind (if b = 0xFF then LoadInteger S z else Inr (ucast b, z)) (\<lambda>(size, z).
     if size = 0 then Inr (None, z)
     else ebind (LoadBlock S (unat size - 1) z) (\<lambda>(bs, z). Inr (Some (bytes_str bs), z))))"

text \<open>
  \<open>luaM_newvector\<close> with the \<open>int\<close> that was read: a negative count asks for more memory than the
  address space has.  Then the \<open>for\<close> loops that read the elements.
\<close>

definition newvector :: "u32 \<Rightarrow> nat res" where
  "newvector n = (if sint n < 0 then Inl (RunError ''not enough memory'') else Inr (nat (sint n)))"

primrec load_n :: "nat \<Rightarrow> ('a, 'd) loader \<Rightarrow> ('a list, 'd) loader" where
  "load_n 0 m z = Inr ([], z)"
| "load_n (Suc n) m z =
     ebind (m z) (\<lambda>(x, z). ebind (load_n n m z) (\<lambda>(xs, z). Inr (x # xs, z)))"

definition LoadInts :: "'d load_state \<Rightarrow> (u32 list, 'd) loader" where
  "LoadInts S z =
     ebind (LoadInt S z) (\<lambda>(n, z).
     ebind (newvector n) (\<lambda>n.
     ebind (LoadBlock S (4 * n) z) (\<lambda>(bs, z).
     Inr (map (\<lambda>i. le_word (take 4 (drop (4 * i) bs))) [0..<n], z))))"

definition LoadCode :: "'d load_state \<Rightarrow> (u32 list, 'd) loader" where
  "LoadCode S = LoadInts S"

definition LoadConstant :: "'d load_state \<Rightarrow> (tvalue, 'd) loader" where
  "LoadConstant S z =
     ebind (LoadByte S z) (\<lambda>(b, z).
     let t = unat b in
     if t = LUA_TNIL then Inr (LNil, z)
     else if t = LUA_TBOOLEAN then ebind (LoadByte S z) (\<lambda>(b, z). Inr (LBool (b \<noteq> 0), z))
     else if t = LUA_TNUMFLT then ebind (LoadNumber S z) (\<lambda>(f, z). Inr (LFlt f, z))
     else if t = LUA_TNUMINT then ebind (LoadInteger S z) (\<lambda>(i, z). Inr (LInt i, z))
     else if t = LUA_TSHRSTR \<or> t = LUA_TLNGSTR
     then ebind (LoadString S z) (\<lambda>(s, z). case s of
            None \<Rightarrow> Inl (MemFault ''null string as a constant'')
          | Some s \<Rightarrow> Inr (LStr s, z))
     else Inr (LNil, z))"

definition LoadConstants :: "'d load_state \<Rightarrow> (tvalue list, 'd) loader" where
  "LoadConstants S z =
     ebind (LoadInt S z) (\<lambda>(n, z). ebind (newvector n) (\<lambda>n. load_n n (LoadConstant S) z))"

definition LoadUpvalue :: "'d load_state \<Rightarrow> (string upvaldesc, 'd) loader" where
  "LoadUpvalue S z =
     ebind (LoadByte S z) (\<lambda>(instack, z). ebind (LoadByte S z) (\<lambda>(idx, z).
     Inr (Upvaldesc None instack idx, z)))"

definition LoadUpvalues :: "'d load_state \<Rightarrow> (string upvaldesc list, 'd) loader" where
  "LoadUpvalues S z =
     ebind (LoadInt S z) (\<lambda>(n, z). ebind (newvector n) (\<lambda>n. load_n n (LoadUpvalue S) z))"

definition LoadLocvar :: "'d load_state \<Rightarrow> (string locvar, 'd) loader" where
  "LoadLocvar S z =
     ebind (LoadString S z) (\<lambda>(name, z). ebind (LoadInt S z) (\<lambda>(startpc, z).
     ebind (LoadInt S z) (\<lambda>(endpc, z). Inr (LocVar name startpc endpc, z))))"

text \<open>The names of the upvalues go into the array that \<open>LoadUpvalues\<close> allocated.\<close>

definition set_name :: "'d load_state \<Rightarrow> nat \<Rightarrow> string upvaldesc list \<times> 'd zio \<Rightarrow> (string upvaldesc list \<times> 'd zio) res" where
  "set_name S i = (\<lambda>(us, z).
     ebind (LoadString S z) (\<lambda>(name, z).
     if i < length us then Inr (us[i := Upvaldesc name (u_instack (us ! i)) (u_idx (us ! i))], z)
     else Inl (MemFault ''upvalue name outside the array'')))"

definition LoadDebug :: "'d load_state \<Rightarrow> string upvaldesc list \<Rightarrow>
    (u32 list \<times> string locvar list \<times> string upvaldesc list, 'd) loader" where
  "LoadDebug S us z =
     ebind (LoadInts S z) (\<lambda>(lineinfo, z).
     ebind (LoadInt S z) (\<lambda>(n, z).
     ebind (newvector n) (\<lambda>n.
     ebind (load_n n (LoadLocvar S) z) (\<lambda>(locvars, z).
     ebind (LoadInt S z) (\<lambda>(n, z).
     ebind (efold (set_name S) [0..<nat (sint n)] (us, z)) (\<lambda>(us, z).
     Inr ((lineinfo, locvars, us), z)))))))"

text \<open>
  The recursion of \<open>LoadFunction\<close> has the nesting depth as fuel; every function takes at least
  one byte of the stream, so the number of bytes is always enough.
\<close>

definition LoadProtos :: "(string proto, 'd) loader \<Rightarrow> 'd load_state \<Rightarrow> (string proto list, 'd) loader" where
  "LoadProtos load S z =
     ebind (LoadInt S z) (\<lambda>(n, z). ebind (newvector n) (\<lambda>n. load_n n load z))"

primrec LoadFunction :: "nat \<Rightarrow> 'd load_state \<Rightarrow> string option \<Rightarrow> (string proto, 'd) loader" where
  "LoadFunction 0 S psource z = Inl NoReturn"
| "LoadFunction (Suc d) S psource z =
     ebind (LoadString S z) (\<lambda>(source, z).
     let source = (if source = None then psource else source) in
     ebind (LoadInt S z) (\<lambda>(linedefined, z).
     ebind (LoadInt S z) (\<lambda>(lastlinedefined, z).
     ebind (LoadByte S z) (\<lambda>(numparams, z).
     ebind (LoadByte S z) (\<lambda>(is_vararg, z).
     ebind (LoadByte S z) (\<lambda>(maxstacksize, z).
     ebind (LoadCode S z) (\<lambda>(code, z).
     ebind (LoadConstants S z) (\<lambda>(k, z).
     ebind (LoadUpvalues S z) (\<lambda>(upvalues, z).
     ebind (LoadProtos (LoadFunction d S source) S z) (\<lambda>(p, z).
     ebind (LoadDebug S upvalues z) (\<lambda>((lineinfo, locvars, upvalues), z).
     Inr (Proto numparams is_vararg maxstacksize linedefined lastlinedefined source
            code k upvalues p lineinfo locvars, z))))))))))))"

definition checkliteral :: "'d load_state \<Rightarrow> byte list \<Rightarrow> string \<Rightarrow> (unit, 'd) loader" where
  "checkliteral S s msg z =
     ebind (LoadBlock S (length s) z) (\<lambda>(buff, z).
     if s \<noteq> buff then Inl (chunk_error S msg) else Inr ((), z))"

definition fchecksize :: "'d load_state \<Rightarrow> nat \<Rightarrow> string \<Rightarrow> (unit, 'd) loader" where
  "fchecksize S sz tname z =
     ebind (LoadByte S z) (\<lambda>(b, z).
     if unat b \<noteq> sz then Inl (chunk_error S (tname @ '' size mismatch in'')) else Inr ((), z))"

definition check_byte :: "'d load_state \<Rightarrow> nat \<Rightarrow> string \<Rightarrow> (unit, 'd) loader" where
  "check_byte S n msg z =
     ebind (LoadByte S z) (\<lambda>(b, z). if unat b \<noteq> n then Inl (chunk_error S msg) else Inr ((), z))"

definition checkHeader :: "'d load_state \<Rightarrow> (unit, 'd) loader" where
  "checkHeader S z =
     ebind (checkliteral S (tl LUA_SIGNATURE) ''not a'' z) (\<lambda>(_, z).
     ebind (check_byte S LUAC_VERSION ''version mismatch in'' z) (\<lambda>(_, z).
     ebind (check_byte S LUAC_FORMAT ''format mismatch in'' z) (\<lambda>(_, z).
     ebind (checkliteral S LUAC_DATA ''corrupted'' z) (\<lambda>(_, z).
     ebind (fchecksize S 4 ''int'' z) (\<lambda>(_, z).
     ebind (fchecksize S 8 ''size_t'' z) (\<lambda>(_, z).
     ebind (fchecksize S 4 ''Instruction'' z) (\<lambda>(_, z).
     ebind (fchecksize S 8 ''lua_Integer'' z) (\<lambda>(_, z).
     ebind (fchecksize S 8 ''lua_Number'' z) (\<lambda>(_, z).
     ebind (LoadInteger S z) (\<lambda>(i, z).
     if i \<noteq> LUAC_INT then Inl (chunk_error S ''endianness mismatch in'')
     else ebind (LoadNumber S z) (\<lambda>(x, z).
     if \<not> flt_eq x LUAC_NUM then Inl (chunk_error S ''float format mismatch in'')
     else Inr ((), z))))))))))))"

definition chunk_name :: "string \<Rightarrow> string" where
  "chunk_name name =
     (if name \<noteq> [] \<and> (hd name = CHR ''@'' \<or> hd name = CHR ''='') then tl name
      else if name \<noteq> [] \<and> of_char (hd name) = hd LUA_SIGNATURE then ''binary string''
      else name)"

text \<open>The closure is the number of its upvalues and its prototype.\<close>

definition luaU_undump :: "nat \<Rightarrow> 'd lua_reader \<Rightarrow> string \<Rightarrow> (nat \<times> string proto, 'd) loader" where
  "luaU_undump d R name z =
     (let S = \<lparr>ls_reader = R, ls_name = chunk_name name\<rparr> in
      ebind (checkHeader S z) (\<lambda>(_, z).
      ebind (LoadByte S z) (\<lambda>(n, z).
      ebind (LoadFunction d S None z) (\<lambda>(p, z). Inr ((unat n, p), z)))))"

text \<open>
  \<open>f_parser\<close> of \<open>ldo.c\<close>: a chunk that starts with the first byte of the signature is
  precompiled; any other goes to the parser, a parameter that takes the first character.
\<close>

definition checkmode :: "string option \<Rightarrow> string \<Rightarrow> unit res" where
  "checkmode mode x = (case mode of
     None \<Rightarrow> Inr ()
   | Some m \<Rightarrow> if hd x \<notin> set m
       then Inl (RunError (''attempt to load a '' @ x @ '' chunk (mode is '' @ [CHR 0x27] @ m @ [CHR 0x27] @ '')'')) else Inr ())"

definition f_parser :: "nat \<Rightarrow> 'd lua_reader \<Rightarrow> (byte option \<Rightarrow> (nat \<times> string proto, 'd) loader) \<Rightarrow>
    string \<Rightarrow> string option \<Rightarrow> (nat \<times> string proto, 'd) loader" where
  "f_parser d R parser name mode z = (case zgetc R z of (c, z) \<Rightarrow>
     if c = Some (hd LUA_SIGNATURE)
     then ebind (checkmode mode ''binary'') (\<lambda>_. luaU_undump d R name z)
     else ebind (checkmode mode ''text'') (\<lambda>_. parser c z))"

end
