(* ===== verification/Lua_Chunk_Spec.thy ===== *)
theory Lua_Chunk_Spec
  imports Lua_Chunk
begin

text \<open>
  Precompiled chunks: what \<open>luaU_dump\<close> writes is a function of the prototype, whatever the
  writer does; \<open>luaU_undump\<close> reads it back, whatever pieces the reader delivers, and rejects
  what is cut off.
\<close>

section \<open>The format\<close>

definition enc_int :: "u32 \<Rightarrow> byte list" where
  "enc_int n = le_bytes 4 n"

definition enc_word :: "u64 \<Rightarrow> byte list" where
  "enc_word n = le_bytes 8 n"

definition enc_count :: "'a list \<Rightarrow> byte list" where
  "enc_count xs = enc_int (of_nat (length xs))"

definition enc_string :: "string option \<Rightarrow> byte list" where
  "enc_string s = (case s of
     None \<Rightarrow> [0]
   | Some str \<Rightarrow>
       (let n = length str + 1
        in if n < 0xFF then [of_nat n] else 0xFF # enc_word (of_nat n)) @ str_bytes str)"

definition enc_ints :: "u32 list \<Rightarrow> byte list" where
  "enc_ints xs = enc_count xs @ concat (map (le_bytes 4) xs)"

definition enc_constant :: "tvalue \<Rightarrow> byte list" where
  "enc_constant k = of_nat (ttype k) # (case k of
     LBool b \<Rightarrow> [of_bool b]
   | LFlt f \<Rightarrow> enc_word f
   | LInt i \<Rightarrow> enc_word i
   | LStr s \<Rightarrow> enc_string (Some s)
   | _ \<Rightarrow> [])"

definition enc_debug :: "bool \<Rightarrow> tstring proto \<Rightarrow> byte list" where
  "enc_debug strip f =
     (let lineinfo = (if strip then [] else p_lineinfo f);
          locvars = (if strip then [] else p_locvars f);
          upvalues = (if strip then [] else p_upvalues f)
      in enc_ints lineinfo @ enc_count locvars @
         concat (map (\<lambda>v. enc_string (map_option getstr (v_name v)) @
                      enc_int (v_startpc v) @ enc_int (v_endpc v)) locvars) @
         enc_count upvalues @
         concat (map (\<lambda>u. enc_string (map_option getstr (u_name u))) upvalues))"

definition enc_source :: "bool \<Rightarrow> tstring option \<Rightarrow> tstring option \<Rightarrow> byte list" where
  "enc_source strip s psource =
     enc_string (if strip \<or> same_string s psource then None else map_option getstr s)"

function enc_function :: "bool \<Rightarrow> tstring proto \<Rightarrow> tstring option \<Rightarrow> byte list" where
  "enc_function strip f psource =
     enc_source strip (p_source f) psource @
     enc_int (p_linedefined f) @ enc_int (p_lastlinedefined f) @
     [p_numparams f] @ [p_is_vararg f] @ [p_maxstacksize f] @
     enc_ints (p_code f) @
     (enc_count (p_k f) @ concat (map enc_constant (p_k f))) @
     (enc_count (p_upvalues f) @ concat (map (\<lambda>u. [u_instack u] @ [u_idx u]) (p_upvalues f))) @
     (enc_count (p_p f) @ concat (map (\<lambda>q. enc_function strip q (p_source f)) (p_p f))) @
     enc_debug strip f"
  by pat_completeness auto
termination
  by (relation "measure (\<lambda>(strip, f, psource). size f)") (auto dest: proto_size)

declare enc_function.simps [simp del]

definition enc_header :: "byte list" where
  "enc_header = LUA_SIGNATURE @ [of_nat LUAC_VERSION] @ [of_nat LUAC_FORMAT] @ LUAC_DATA @
     [4] @ [8] @ [4] @ [8] @ [8] @ enc_word LUAC_INT @ enc_word LUAC_NUM"

definition enc_chunk :: "bool \<Rightarrow> tstring proto \<Rightarrow> byte list" where
  "enc_chunk strip f = enc_header @ [of_nat (length (p_upvalues f))] @ enc_function strip f None"

section \<open>What a dump writes\<close>

text \<open>The operation hands the writer a fixed list of blocks, stopping at the first error.\<close>

definition emits :: "('d lua_writer \<Rightarrow> 'd dump_state \<Rightarrow> 'd dump_state) \<Rightarrow> byte list \<Rightarrow> bool" where
  "emits F bs \<longleftrightarrow> (\<exists>ps. concat ps = bs \<and> (\<forall>W. F W = fold (DumpBlock W) ps))"

named_theorems emits_intros

lemma emits_block [emits_intros]: "emits (\<lambda>W. DumpBlock W b) b"
  unfolding emits_def by (rule exI [of _ "[b]"]) simp

lemma emits_nothing [emits_intros]: "emits (\<lambda>W. id) []"
  unfolding emits_def by (rule exI [of _ "[]"]) simp

lemma emits_done [emits_intros]: "emits (\<lambda>W. steps []) []"
  unfolding emits_def steps_def by (rule exI [of _ "[]"]) simp

lemma emits_then [emits_intros]:
  assumes "emits F bs" and "emits (\<lambda>W. steps (G W)) cs"
  shows "emits (\<lambda>W. steps (F W # G W)) (bs @ cs)"
proof -
  obtain ps qs where p: "concat ps = bs" "\<And>W. F W = fold (DumpBlock W) ps"
    and q: "concat qs = cs" "\<And>W. steps (G W) = fold (DumpBlock W) qs"
    using assms unfolding emits_def by blast
  have "steps (F W # G W) = fold (DumpBlock W) (ps @ qs)" for W
    using p(2) [of W] q(2) [of W] by (simp add: steps_def)
  then show ?thesis using p(1) q(1) unfolding emits_def by (metis concat_append)
qed

lemma emits_all [emits_intros]:
  assumes "\<And>x. x \<in> set xs \<Longrightarrow> emits (\<lambda>W. F W x) (e x)"
  shows "emits (\<lambda>W. steps (map (F W) xs)) (concat (map e xs))"
  using assms
proof (induction xs)
  case (Cons x xs)
  then show ?case using emits_then [of "\<lambda>W. F W x" "e x" "\<lambda>W. map (F W) xs"] by simp
qed (simp add: emits_done)

lemma fold_steps: "fold F xs = steps (map F xs)"
  by (simp add: steps_def fold_map comp_def)

lemma emits_fold [emits_intros]:
  "(\<And>x. x \<in> set xs \<Longrightarrow> emits (\<lambda>W. F W x) (e x)) \<Longrightarrow> emits (\<lambda>W. fold (F W) xs) (concat (map e xs))"
  unfolding fold_steps by (rule emits_all)

lemma emits_eq: "emits F bs \<Longrightarrow> bs = cs \<Longrightarrow> emits F cs"
  by simp

lemma emits_byte [emits_intros]: "emits (\<lambda>W. DumpByte W y) [of_nat y]"
  unfolding DumpByte_def by (rule emits_block)

lemma emits_int [emits_intros]: "emits (\<lambda>W. DumpInt W x) (enc_int x)"
  unfolding DumpInt_def enc_int_def by (rule emits_block)

lemma emits_string [emits_intros]: "emits (\<lambda>W. DumpString W s) (enc_string s)"
proof (cases s)
  case None
  then show ?thesis using emits_byte [of 0] by (simp add: DumpString_def enc_string_def)
next
  case (Some str)
  show ?thesis
  proof (cases "length str + 1 < 0xFF")
    case True
    have "emits (\<lambda>W. steps [DumpByte W (length str + 1), DumpBlock W (str_bytes str)])
        ([of_nat (length str + 1)] @ str_bytes str @ [])"
      by (intro emits_intros)
    then show ?thesis using Some True by (simp add: DumpString_def enc_string_def)
  next
    case False
    have "emits (\<lambda>W. steps [steps [DumpByte W 0xFF, DumpBlock W (le_bytes 8 (of_nat (length str + 1) :: u64))],
        DumpBlock W (str_bytes str)])
      (([of_nat 0xFF] @ le_bytes 8 (of_nat (length str + 1) :: u64) @ []) @ str_bytes str @ [])"
      by (intro emits_intros)
    then show ?thesis using Some False by (simp add: DumpString_def enc_string_def enc_word_def)
  qed
qed

lemma emits_ints [emits_intros]: "emits (\<lambda>W. DumpInts W xs) (enc_ints xs)"
  unfolding DumpInts_def by (rule emits_eq, (rule emits_intros)+) (simp add: enc_ints_def enc_count_def)

lemma emits_constant [emits_intros]: "emits (\<lambda>W. DumpConstant W k) (enc_constant k)"
  unfolding DumpConstant_def DumpNumber_def DumpInteger_def
  by (cases k; simp only: tvalue.case; rule emits_eq, (rule emits_intros)+)
    (simp_all add: enc_constant_def enc_word_def)

lemma emits_debug [emits_intros]: "emits (\<lambda>W. DumpDebug W strip f) (enc_debug strip f)"
  unfolding DumpDebug_def Let_def
  by (rule emits_eq, (rule emits_intros)+) (simp add: enc_debug_def enc_count_def Let_def)

lemma emits_function: "emits (\<lambda>W. DumpFunction W strip f psource) (enc_function strip f psource)"
proof (induction f arbitrary: psource rule: measure_induct_rule [where f = size])
  case (less f)
  have src: "emits (\<lambda>W. if strip \<or> same_string (p_source f) psource then DumpString W None
       else DumpString W (map_option getstr (p_source f))) (enc_source strip (p_source f) psource)"
    unfolding enc_source_def by (cases "strip \<or> same_string (p_source f) psource") (simp_all add: emits_string)
  show ?case
    unfolding DumpFunction.simps [of _ strip f psource] DumpCode_def DumpConstants_def DumpUpvalues_def DumpProtos_def
    by (rule emits_eq, (rule src less proto_size emits_intros | assumption)+)
      (simp add: enc_function.simps [of strip f psource] enc_count_def)
qed

lemma emits_chunk:
  "\<exists>ps. concat ps = enc_chunk strip f \<and> (\<forall>W d. luaU_dump W f strip d = fold (DumpBlock W) ps (0, d))"
proof -
  have h: "emits DumpHeader enc_header"
    unfolding DumpHeader_def DumpInteger_def DumpNumber_def
    by (rule emits_eq, (rule emits_intros)+) (simp add: enc_header_def enc_word_def)
  have "emits (\<lambda>W. steps [DumpHeader W, DumpByte W (length (p_upvalues f)), DumpFunction W strip f None])
      (enc_header @ [of_nat (length (p_upvalues f))] @ enc_function strip f None @ [])"
    by (intro emits_intros emits_function h)
  then show ?thesis unfolding emits_def luaU_dump_def enc_chunk_def append_Nil2 by metis
qed

text \<open>Writing blocks until the first error.\<close>

fun write_all :: "'d lua_writer \<Rightarrow> byte list list \<Rightarrow> 'd \<Rightarrow> 'd dump_state" where
  "write_all W [] d = (0, d)"
| "write_all W (p # ps) d = (case W p d of (status, d) \<Rightarrow> if status = 0 then write_all W ps d else (status, d))"

lemma DumpBlock_simps [simp]:
  "DumpBlock W p (0, d) = W p d"
  "status \<noteq> 0 \<Longrightarrow> DumpBlock W p (status, d) = (status, d)"
  by (simp_all add: DumpBlock_def)

lemma fold_stopped: "status \<noteq> 0 \<Longrightarrow> fold (DumpBlock W) ps (status, d) = (status, d)"
  by (induction ps) simp_all

lemma fold_write_all: "fold (DumpBlock W) ps (0, d) = write_all W ps d"
proof (induction ps arbitrary: d)
  case (Cons p ps)
  obtain s d' where "W p d = (s, d')" by (cases "W p d")
  then show ?case using Cons by (cases "s = 0") (simp_all add: fold_stopped)
qed simp

lemma write_all_buffer: "write_all str_writer ps b = (0, b @ concat ps)"
  by (induction ps arbitrary: b) (simp_all add: str_writer_def)

lemma str_dump_chunk: "str_dump f strip = Inr (enc_chunk strip f)"
proof -
  obtain ps where "concat ps = enc_chunk strip f"
    "\<forall>W d. luaU_dump W f strip (d :: byte list) = fold (DumpBlock W) ps (0, d)"
    using emits_chunk [of strip f, where 'a = "byte list"] by (elim exE conjE)
  then show ?thesis by (simp add: str_dump_def fold_write_all write_all_buffer)
qed

section \<open>What a loader takes\<close>

text \<open>
  \<open>consumes zb e m bs x\<close>: from a stream that starts with \<open>bs\<close> the loader \<open>m\<close> takes \<open>bs\<close> and
  returns \<open>x\<close>; from a stream that ends before the end of \<open>bs\<close> it raises \<open>e\<close>.
\<close>

definition consumes :: "('z \<Rightarrow> byte list) \<Rightarrow> lua_error \<Rightarrow> ('z \<Rightarrow> ('a \<times> 'z) res) \<Rightarrow> byte list \<Rightarrow> 'a \<Rightarrow> bool" where
  "consumes zb e m bs x \<longleftrightarrow>
     (\<forall>z r. zb z = bs @ r \<longrightarrow> (\<exists>z'. m z = Inr (x, z') \<and> zb z' = r)) \<and>
     (\<forall>z. strict_prefix (zb z) bs \<longrightarrow> m z = Inl e)"

lemma consumes_return: "consumes zb e (\<lambda>z. Inr (x, z)) [] x"
  by (simp add: consumes_def)

lemma strict_prefix_append_cases:
  assumes "strict_prefix p (bs @ cs)"
  obtains "strict_prefix p bs" | r where "p = bs @ r" and "strict_prefix r cs"
proof -
  have "prefix p (bs @ cs)" "p \<noteq> bs @ cs" using assms by (simp_all add: strict_prefix_def)
  then consider "p \<noteq> bs" "prefix p bs" | r where "p = bs @ r" "prefix r cs" "r \<noteq> cs"
    unfolding prefix_append by (metis append.right_neutral Nil_prefix)
  then show ?thesis
    by cases (use that in \<open>simp_all add: strict_prefix_def\<close>)
qed

lemma consumes_bind:
  assumes m: "consumes zb e m bs x" and f: "consumes zb e (f x) cs y"
  shows "consumes zb e (\<lambda>z. ebind (m z) (\<lambda>(x, z). f x z)) (bs @ cs) y"
  unfolding consumes_def
proof (intro conjI allI impI)
  fix z r assume "zb z = (bs @ cs) @ r"
  then obtain z1 where "m z = Inr (x, z1)" "zb z1 = cs @ r" using m unfolding consumes_def by fastforce
  then show "\<exists>z'. ebind (m z) (\<lambda>(x, z). f x z) = Inr (y, z') \<and> zb z' = r"
    using f unfolding consumes_def by auto
next
  fix z assume "strict_prefix (zb z) (bs @ cs)"
  then show "ebind (m z) (\<lambda>(x, z). f x z) = Inl e"
  proof (cases rule: strict_prefix_append_cases)
    case 1
    then show ?thesis using m by (simp add: consumes_def)
  next
    case (2 r)
    then obtain z1 where "m z = Inr (x, z1)" "zb z1 = r" using m unfolding consumes_def by fastforce
    then show ?thesis using f 2 unfolding consumes_def by auto
  qed
qed

lemma consumes_map:
  assumes "consumes zb e m bs x"
  shows "consumes zb e (\<lambda>z. ebind (m z) (\<lambda>(x, z). Inr (g x, z))) bs (g x)"
  using consumes_bind [OF assms, of "\<lambda>x z. Inr (g x, z)" "[]" "g x"] consumes_return by fastforce

lemma consumes_eq: "consumes zb e m bs x \<Longrightarrow> bs = cs \<Longrightarrow> x = y \<Longrightarrow> consumes zb e m cs y"
  by simp

lemma consumes_load_n:
  assumes "\<And>x. x \<in> set xs \<Longrightarrow> consumes zb e m (enc x) (v x)"
  shows "consumes zb e (load_n (length xs) m) (concat (map enc xs)) (map v xs)"
  using assms
proof (induction xs)
  case Nil
  then show ?case using consumes_return by (simp add: consumes_def)
next
  case (Cons x xs)
  have "consumes zb e m (enc x) (v x)" "consumes zb e (load_n (length xs) m) (concat (map enc xs)) (map v xs)"
    using Cons by simp_all
  then have "consumes zb e (\<lambda>z. ebind (m z) (\<lambda>(y, z). ebind (load_n (length xs) m z) (\<lambda>(ys, z). Inr (y # ys, z))))
      (enc x @ concat (map enc xs)) (v x # map v xs)"
    by - (rule consumes_bind [where m = m], assumption, rule consumes_map [where g = "(#) (v x)"])
  then show ?case by (simp add: consumes_def)
qed

text \<open>The conditions of a prototype that a chunk can carry.\<close>

definition chunk_string :: "tstring option \<Rightarrow> bool" where
  "chunk_string s \<longleftrightarrow> (case s of None \<Rightarrow> True | Some t \<Rightarrow> length (getstr t) + 1 < 2 ^ 64)"

fun chunk_constant :: "tvalue \<Rightarrow> bool" where
  "chunk_constant LNil = True"
| "chunk_constant (LBool b) = True"
| "chunk_constant (LFlt f) = True"
| "chunk_constant (LInt i) = True"
| "chunk_constant (LStr s) = (length s + 1 < 2 ^ 64)"
| "chunk_constant _ = False"

definition vector_ok :: "'a list \<Rightarrow> bool" where
  "vector_ok xs \<longleftrightarrow> length xs < 2 ^ 31"

text \<open>
  Vectors have at most \<open>MAX_INT\<close> elements, constants are of the kinds the compiler makes, two
  sources with one address are one string, and a function in a function with a source has one.
\<close>

function chunk_ok :: "tstring proto \<Rightarrow> tstring option \<Rightarrow> bool" where
  "chunk_ok f psource \<longleftrightarrow>
     vector_ok (p_code f) \<and> vector_ok (p_k f) \<and> vector_ok (p_upvalues f) \<and> vector_ok (p_p f) \<and>
     vector_ok (p_lineinfo f) \<and> vector_ok (p_locvars f) \<and>
     list_all chunk_constant (p_k f) \<and>
     list_all (\<lambda>u. chunk_string (u_name u)) (p_upvalues f) \<and>
     list_all (\<lambda>v. chunk_string (v_name v)) (p_locvars f) \<and>
     chunk_string (p_source f) \<and>
     (same_string (p_source f) psource \<longrightarrow> map_option getstr (p_source f) = map_option getstr psource) \<and>
     (p_source f = None \<longrightarrow> psource = None) \<and>
     list_all (\<lambda>q. chunk_ok q (p_source f)) (p_p f)"
  by pat_completeness auto
termination
  by (relation "measure (\<lambda>(f, psource). size f)") (auto dest: proto_size)

declare chunk_ok.simps [simp del]

text \<open>What comes back: the contents, without debug information if that was stripped.\<close>

primrec stripped :: "string proto \<Rightarrow> string proto" where
  "stripped (Proto numparams is_vararg maxstacksize linedefined lastlinedefined source code k upvalues p lineinfo locvars) =
     Proto numparams is_vararg maxstacksize linedefined lastlinedefined None code k
       (map (\<lambda>u. Upvaldesc None (u_instack u) (u_idx u)) upvalues) (map stripped p) [] []"

definition reloaded :: "bool \<Rightarrow> tstring proto \<Rightarrow> string proto" where
  "reloaded strip f = (if strip then stripped (map_proto getstr f) else map_proto getstr f)"

primrec depth :: "'s proto \<Rightarrow> nat" where
  "depth (Proto numparams is_vararg maxstacksize linedefined lastlinedefined source code k upvalues p lineinfo locvars) =
     Suc (foldr max (map depth p) 0)"

section \<open>Loaders on their encodings\<close>

lemma newvector_length [simp]: "vector_ok xs \<Longrightarrow> newvector (of_nat (length xs)) = Inr (length xs)"
proof -
  assume "vector_ok xs"
  then have "sint (of_nat (length xs) :: u32) = int (length xs)"
    using sint_word_of_int_range [where 'a = 32 and n = "int (length xs)"] by (simp add: vector_ok_def)
  then show ?thesis by (simp add: newvector_def)
qed

lemma le_word_bytes [simp]:
  "le_word (enc_int n) = n" "le_word (enc_word i) = i" "le_word [b] = b" "length (enc_int n) = 4" "length (enc_word i) = 8"
  unfolding enc_int_def enc_word_def by (simp_all add: le_word_le_bytes)

lemma le_words_concat:
  "map (\<lambda>i. le_word (take 4 (drop (4 * i) (concat (map (le_bytes 4) xs))))) [0..<length xs] = (xs :: u32 list)"
proof (induction xs)
  case (Cons x xs)
  let ?w = "\<lambda>xs i. le_word (take 4 (drop (4 * i) (concat (map (le_bytes 4) (xs :: u32 list))))) :: u32"
  have "map (?w (x # xs)) [0..<length (x # xs)] = ?w (x # xs) 0 # map (\<lambda>i. ?w (x # xs) (Suc i)) [0..<length xs]"
    unfolding list.size add_Suc_right add_0_right by (rule map_upt_Suc)
  also have "?w (x # xs) 0 = x" using le_word_le_bytes [where 'a = 32, of 4 x] by simp
  also have "(\<lambda>i. ?w (x # xs) (Suc i)) = ?w xs" by simp
  finally show ?case using Cons by simp
qed simp

lemma length_concat_words: "length (concat (map (le_bytes 4) xs)) = 4 * length xs"
  by (induction xs) simp_all

text \<open>Loading over any reader that delivers a finite content.\<close>

locale chunk_input = byte_reader R content for R :: "'d lua_reader" and content :: "'d \<Rightarrow> byte list" +
  fixes S :: "'d load_state"
  assumes reader: "ls_reader S = R"
begin

abbreviation takes :: "('a, 'd) loader \<Rightarrow> byte list \<Rightarrow> 'a \<Rightarrow> bool" where
  "takes \<equiv> consumes zbytes (chunk_error S ''truncated'')"

lemma takes_block: "takes (LoadBlock S (length bs)) bs bs"
  unfolding consumes_def
proof (intro conjI allI impI)
  fix z r assume "zbytes z = bs @ r"
  then show "\<exists>z'. LoadBlock S (length bs) z = Inr (bs, z') \<and> zbytes z' = r"
    using read_bytes [of "length bs" z] by (auto simp: LoadBlock_def reader)
next
  fix z assume "strict_prefix (zbytes z) bs"
  then have "length (zbytes z) < length bs" by (rule prefix_length_less)
  then show "LoadBlock S (length bs) z = Inl (chunk_error S ''truncated'')"
    using read_bytes [of "length bs" z] by (auto simp: LoadBlock_def reader)
qed

lemma takes_block_map:
  assumes "length bs = n" and "g bs = x"
  shows "takes (\<lambda>z. ebind (LoadBlock S n z) (\<lambda>(bs, z). Inr (g bs, z))) bs x"
proof -
  have "takes (\<lambda>z. ebind (LoadBlock S (length bs) z) (\<lambda>(bs, z). Inr (g bs, z))) bs (g bs)"
    by (rule consumes_map [OF takes_block])
  then show ?thesis using assms by simp
qed

lemma takes_byte: "takes (LoadByte S) [b] b"
  unfolding LoadByte_def by (rule takes_block_map) simp_all

lemma takes_int: "takes (LoadInt S) (enc_int n) n"
  unfolding LoadInt_def by (rule takes_block_map) simp_all

lemma takes_integer: "takes (LoadInteger S) (enc_word n) n"
  unfolding LoadInteger_def by (rule takes_block_map) simp_all

lemma takes_number: "takes (LoadNumber S) (enc_word n) n"
  unfolding LoadNumber_def by (rule takes_block_map) simp_all

lemma takes_string:
  assumes "chunk_string s"
  shows "takes (LoadString S) (enc_string (map_option getstr s)) (map_option getstr s)"
proof (cases s)
  case None
  have "takes (LoadString S) ([0] @ [] @ []) None"
    unfolding LoadString_def
    by (rule consumes_bind [OF takes_byte], rule consumes_bind [where x = 0]) (simp_all add: consumes_return)
  then show ?thesis using None by (simp add: enc_string_def)
next
  case (Some t)
  let ?n = "length (getstr t) + 1"
  have n: "unat (of_nat ?n :: u64) = ?n" "(of_nat ?n :: u64) \<noteq> 0"
    using assms Some unat_of_nat_small [where 'a = 64, of ?n] by (auto simp: chunk_string_def simp del: of_nat_Suc)
  have chars: "takes (\<lambda>z. if (of_nat ?n :: u64) = 0 then Inr (None, z)
      else ebind (LoadBlock S (unat (of_nat ?n :: u64) - 1) z) (\<lambda>(bs, z). Inr (Some (bytes_str bs), z)))
      (str_bytes (getstr t)) (Some (getstr t))"
    unfolding n(1) if_not_P [OF n(2)] by (rule takes_block_map) simp_all
  show ?thesis
  proof (cases "?n < 0xFF")
    case True
    then have b: "unat (of_nat ?n :: byte) = ?n" by (intro unat_of_nat_small) simp
    then have "(of_nat ?n :: byte) \<noteq> 0xFF" using True by auto
    moreover have "ucast (of_nat ?n :: byte) = (of_nat ?n :: u64)"
      unfolding unsigned_of_nat using True by (subst take_bit_nat_eq_self) simp_all
    ultimately have "takes (LoadString S) ([of_nat ?n] @ [] @ str_bytes (getstr t)) (Some (getstr t))"
      unfolding LoadString_def
      by - (rule consumes_bind [OF takes_byte], rule consumes_bind [where x = "of_nat ?n :: u64"], simp add: consumes_return, rule chars)
    then show ?thesis using Some True by (simp add: enc_string_def)
  next
    case False
    have "takes (LoadString S) ([0xFF] @ enc_word (of_nat ?n) @ str_bytes (getstr t)) (Some (getstr t))"
      unfolding LoadString_def
      by (rule consumes_bind [OF takes_byte], rule consumes_bind [where x = "of_nat ?n :: u64"], simp add: takes_integer, rule chars)
    then show ?thesis using Some False by (simp add: enc_string_def)
  qed
qed

lemma takes_ints:
  assumes "vector_ok xs"
  shows "takes (LoadInts S) (enc_ints xs) xs"
  unfolding LoadInts_def enc_ints_def enc_count_def
proof (rule consumes_bind [OF takes_int], unfold newvector_length [OF assms] ebind_Inr)
  show "takes (\<lambda>z. ebind (LoadBlock S (4 * length xs) z)
      (\<lambda>(bs, z). Inr (map (\<lambda>i. le_word (take 4 (drop (4 * i) bs))) [0..<length xs], z)))
    (concat (map (le_bytes 4) xs)) xs"
    by (rule takes_block_map) (simp_all only: length_concat_words le_words_concat)
qed

lemma takes_constant:
  assumes "chunk_constant k"
  shows "takes (LoadConstant S) (enc_constant k) k"
proof -
  have "takes (LoadConstant S) ([of_nat (ttype k)] @ tl (enc_constant k)) k"
    unfolding LoadConstant_def
  proof (rule consumes_bind [OF takes_byte], cases k)
    case (LStr s)
    have "takes (\<lambda>z. ebind (LoadString S z) (\<lambda>(s, z). case s of
        None \<Rightarrow> Inl (MemFault ''null string as a constant'') | Some s \<Rightarrow> Inr (LStr s, z))) (enc_string (Some s) @ []) (LStr s)"
      by (rule consumes_bind [OF takes_string [of "Some (TString 0 s)", simplified]])
        (use assms LStr in \<open>simp_all add: chunk_string_def consumes_return\<close>)
    then show "takes (\<lambda>z. let t = unat (of_nat (ttype k) :: byte) in
     if t = LUA_TNIL then Inr (LNil, z)
     else if t = LUA_TBOOLEAN then ebind (LoadByte S z) (\<lambda>(b, z). Inr (LBool (b \<noteq> 0), z))
     else if t = LUA_TNUMFLT then ebind (LoadNumber S z) (\<lambda>(f, z). Inr (LFlt f, z))
     else if t = LUA_TNUMINT then ebind (LoadInteger S z) (\<lambda>(i, z). Inr (LInt i, z))
     else if t = LUA_TSHRSTR \<or> t = LUA_TLNGSTR
     then ebind (LoadString S z) (\<lambda>(s, z). case s of
            None \<Rightarrow> Inl (MemFault ''null string as a constant'')
          | Some s \<Rightarrow> Inr (LStr s, z))
     else Inr (LNil, z)) (tl (enc_constant k)) k"
      using LStr by (simp add: enc_constant_def Let_def)
  qed (use assms takes_byte takes_number takes_integer in
      \<open>auto simp: enc_constant_def Let_def consumes_return intro!: consumes_map [where g = LInt] consumes_map [where g = LFlt]
        consumes_eq [OF consumes_map [where g = "\<lambda>b. LBool (b \<noteq> 0)"]]\<close>)
  then show ?thesis by (simp add: enc_constant_def)
qed

lemma takes_vector:
  assumes "vector_ok xs" and "\<And>x. x \<in> set xs \<Longrightarrow> takes m (enc x) (v x)"
  shows "takes (\<lambda>z. ebind (LoadInt S z) (\<lambda>(n, z). ebind (newvector n) (\<lambda>n. load_n n m z)))
    (enc_count xs @ concat (map enc xs)) (map v xs)"
  unfolding enc_count_def
proof (rule consumes_bind [OF takes_int], unfold newvector_length [OF assms(1)] ebind_Inr)
  show "takes (load_n (length xs) m) (concat (map enc xs)) (map v xs)"
    by (rule consumes_load_n) (rule assms(2))
qed

lemma takes_constants:
  assumes "vector_ok ks" and "list_all chunk_constant ks"
  shows "takes (LoadConstants S) (enc_count ks @ concat (map enc_constant ks)) ks"
  using takes_vector [OF assms(1), of "LoadConstant S" enc_constant "\<lambda>k. k"] takes_constant assms(2)
  unfolding LoadConstants_def by (simp add: list_all_iff)

lemma takes_upvalues:
  assumes "vector_ok us"
  shows "takes (LoadUpvalues S) (enc_count us @ concat (map (\<lambda>u. [u_instack u] @ [u_idx u]) us))
    (map (\<lambda>u. Upvaldesc None (u_instack u) (u_idx u)) us)"
  unfolding LoadUpvalues_def
proof (rule takes_vector [OF assms])
  fix u
  show "takes (LoadUpvalue S) ([u_instack u] @ [u_idx u]) (Upvaldesc None (u_instack u) (u_idx u))"
    unfolding LoadUpvalue_def
    by (rule consumes_bind [OF takes_byte], rule consumes_map [where g = "Upvaldesc None (u_instack u)"], rule takes_byte)
qed

lemma takes_locvar:
  assumes "chunk_string (v_name v)"
  shows "takes (LoadLocvar S) (enc_string (map_option getstr (v_name v)) @ enc_int (v_startpc v) @ enc_int (v_endpc v))
    (map_locvar getstr v)"
proof -
  have "takes (LoadLocvar S) (enc_string (map_option getstr (v_name v)) @ enc_int (v_startpc v) @ enc_int (v_endpc v))
      (LocVar (map_option getstr (v_name v)) (v_startpc v) (v_endpc v))"
    unfolding LoadLocvar_def
    by (rule consumes_bind [OF takes_string [OF assms]], rule consumes_bind [OF takes_int],
        rule consumes_map [where g = "LocVar (map_option getstr (v_name v)) (v_startpc v)"], rule takes_int)
  then show ?thesis by (cases v) simp
qed

lemma takes_names:
  assumes "k + length ns = length us" and "\<And>s. s \<in> set ns \<Longrightarrow> chunk_string s"
  shows "takes (\<lambda>z. efold (set_name S) [k..<k + length ns] (us, z))
    (concat (map (\<lambda>s. enc_string (map_option getstr s)) ns))
    (take k us @ map2 (\<lambda>s u. Upvaldesc (map_option getstr s) (u_instack u) (u_idx u)) ns (drop k us))"
  using assms
proof (induction ns arbitrary: k us)
  case (Cons s ns)
  let ?u = "Upvaldesc (map_option getstr s) (u_instack (us ! k)) (u_idx (us ! k))"
  have k: "k < length us" using Cons.prems(1) by simp
  have one: "takes (\<lambda>z. set_name S k (us, z)) (enc_string (map_option getstr s)) (us[k := ?u])"
    unfolding set_name_def prod.case if_P [OF k]
    by (rule consumes_map [where g = "\<lambda>name. us[k := Upvaldesc name (u_instack (us ! k)) (u_idx (us ! k))]"])
      (use Cons.prems(2) in \<open>simp add: takes_string\<close>)
  have rest: "takes (\<lambda>z. efold (set_name S) [Suc k..<Suc k + length ns] (us[k := ?u], z))
      (concat (map (\<lambda>s. enc_string (map_option getstr s)) ns))
      (take (Suc k) (us[k := ?u]) @
        map2 (\<lambda>s u. Upvaldesc (map_option getstr s) (u_instack u) (u_idx u)) ns (drop (Suc k) (us[k := ?u])))"
    by (rule Cons.IH) (use Cons.prems in auto)
  have us: "take (Suc k) (us[k := ?u]) = take k us @ [?u]" "drop (Suc k) (us[k := ?u]) = drop (Suc k) us"
    "drop k us = us ! k # drop (Suc k) us"
    using k by (simp_all add: take_Suc_conv_app_nth Cons_nth_drop_Suc)
  have "[k..<k + length (s # ns)] = k # [Suc k..<Suc k + length ns]" by (simp add: upt_conv_Cons del: upt_Suc)
  then have e: "efold (set_name S) [k..<k + length (s # ns)] (us, z) =
      ebind (set_name S k (us, z)) (\<lambda>(us, z). efold (set_name S) [Suc k..<Suc k + length ns] (us, z))" for z
    by simp
  show ?case unfolding e
    using consumes_bind [where f = "\<lambda>us z. efold (set_name S) [Suc k..<Suc k + length ns] (us, z)", OF one rest] us
    by simp
qed (simp add: consumes_return)

lemma map2_names:
  "map2 (\<lambda>s u. Upvaldesc (map_option getstr s) (u_instack u) (u_idx u)) (map u_name us)
    (map (\<lambda>u. Upvaldesc None (u_instack u) (u_idx u)) us) = map (map_upvaldesc getstr) us"
  by (induction us) (auto intro: upvaldesc.expand simp: upvaldesc.map_sel)

text \<open>The fields that the debug information fills in.\<close>

definition debug_of :: "bool \<Rightarrow> tstring proto \<Rightarrow> u32 list \<times> string locvar list \<times> string upvaldesc list" where
  "debug_of strip f =
     (if strip then ([], [], map (\<lambda>u. Upvaldesc None (u_instack u) (u_idx u)) (p_upvalues f))
      else (p_lineinfo f, map (map_locvar getstr) (p_locvars f), map (map_upvaldesc getstr) (p_upvalues f)))"

lemma takes_debug:
  assumes "chunk_ok f psource"
  shows "takes (LoadDebug S (map (\<lambda>u. Upvaldesc None (u_instack u) (u_idx u)) (p_upvalues f)))
    (enc_debug strip f) (debug_of strip f)"
proof -
  let ?us = "map (\<lambda>u. Upvaldesc None (u_instack u) (u_idx u)) (p_upvalues f)"
  let ?li = "if strip then [] else p_lineinfo f" and ?lv = "if strip then [] else p_locvars f"
    and ?up = "if strip then [] else p_upvalues f"
  note ok = assms [unfolded chunk_ok.simps [of f psource]]
  have li: "vector_ok ?li" and lv: "vector_ok ?lv" and up: "vector_ok ?up" and us: "vector_ok (p_upvalues f)"
    using ok by (simp_all add: vector_ok_def)
  have locvars: "takes (load_n (length ?lv) (LoadLocvar S))
      (concat (map (\<lambda>v. enc_string (map_option getstr (v_name v)) @ enc_int (v_startpc v) @ enc_int (v_endpc v)) ?lv))
      (map (map_locvar getstr) ?lv)"
    by (rule consumes_load_n) (use ok in \<open>auto intro!: takes_locvar simp: list_all_iff split: if_splits\<close>)
  have "nat (sint (of_nat (length ?up) :: u32)) = length ?up"
    using newvector_length [OF up] by (simp add: newvector_def split: if_splits)
  moreover have "takes (\<lambda>z. efold (set_name S) [0..<length ?up] (?us, z))
      (concat (map (\<lambda>u. enc_string (map_option getstr (u_name u))) ?up)) (snd (snd (debug_of strip f)))"
  proof (cases strip)
    case False
    have cs: "chunk_string s" if "s \<in> set (map u_name (p_upvalues f))" for s
      using ok that by (auto simp: list_all_iff)
    have "0 + length (map u_name (p_upvalues f)) = length ?us" by simp
    from takes_names [OF this cs]
    show ?thesis using False by (simp add: debug_of_def map2_names comp_def)
  qed (simp add: debug_of_def consumes_return)
  ultimately have names: "takes (\<lambda>z. ebind (efold (set_name S) [0..<nat (sint (of_nat (length ?up) :: u32))] (?us, z))
      (\<lambda>(us, z). Inr ((?li, map (map_locvar getstr) ?lv, us), z)))
      (concat (map (\<lambda>u. enc_string (map_option getstr (u_name u))) ?up)) (debug_of strip f)"
    using consumes_map [where g = "\<lambda>us. (?li, map (map_locvar getstr) ?lv, us)"]
    by (fastforce simp: debug_of_def)
  show ?thesis
    unfolding enc_debug_def Let_def LoadDebug_def enc_count_def
    by (rule consumes_bind [OF takes_ints [OF li]], rule consumes_bind [OF takes_int],
        unfold newvector_length [OF lv] ebind_Inr,
        rule consumes_bind [OF locvars], rule consumes_bind [OF takes_int], rule names)
qed

lemma takes_debug_map:
  assumes "chunk_ok f psource"
  shows "takes (\<lambda>z. ebind (LoadDebug S (map (\<lambda>u. Upvaldesc None (u_instack u) (u_idx u)) (p_upvalues f)) z)
      (\<lambda>((a, b, c), z). Inr (g a b c, z)))
    (enc_debug strip f) (g (fst (debug_of strip f)) (fst (snd (debug_of strip f))) (snd (snd (debug_of strip f))))"
proof -
  show ?thesis
    using consumes_map [OF takes_debug [OF assms], of "\<lambda>(a, b, c). g a b c" strip] by (simp only: case_prod_beta')
qed

text \<open>Functions.\<close>

lemma reloaded_eq:
  "reloaded strip f = Proto (p_numparams f) (p_is_vararg f) (p_maxstacksize f) (p_linedefined f) (p_lastlinedefined f)
     (if strip then None else map_option getstr (p_source f)) (p_code f) (p_k f)
     (snd (snd (debug_of strip f))) (map (reloaded strip) (p_p f))
     (fst (debug_of strip f)) (fst (snd (debug_of strip f)))"
  by (cases f) (simp add: reloaded_def debug_of_def comp_def upvaldesc.map_sel)

lemma depth_child:
  assumes "q \<in> set (p_p f)"
  shows "depth q < depth f"
proof -
  have "x \<in> set xs \<Longrightarrow> x \<le> foldr max xs (0 :: nat)" for x xs by (induction xs) auto
  from this [of "depth q" "map depth (p_p f)"] show ?thesis using assms by (cases f) (simp add: less_Suc_eq_le)
qed

lemma takes_function:
  assumes "chunk_ok f psource" and "depth f \<le> d" and "strip \<Longrightarrow> psource' = None"
    and "\<not> strip \<Longrightarrow> psource' = map_option getstr psource"
  shows "takes (LoadFunction d S psource') (enc_function strip f psource) (reloaded strip f)"
  using assms
proof (induction f arbitrary: psource psource' d rule: measure_induct_rule [where f = size])
  case (less f)
  note ok = less.prems(1) [unfolded chunk_ok.simps [of f psource]]
  obtain c where d: "d = Suc c" using less.prems(2) by (cases d; cases f) auto
  let ?src = "if strip \<or> same_string (p_source f) psource then None else p_source f"
  let ?src' = "if strip then None else map_option getstr (p_source f)"
  have src: "(if map_option getstr ?src = None then psource' else map_option getstr ?src) = ?src'"
    using ok less.prems(3,4) by auto
  have cs: "chunk_string ?src" using ok by (simp add: chunk_string_def)
  have code: "takes (LoadCode S) (enc_ints (p_code f)) (p_code f)"
    unfolding LoadCode_def using ok by (intro takes_ints) simp
  have ks: "takes (LoadConstants S) (enc_count (p_k f) @ concat (map enc_constant (p_k f))) (p_k f)"
    using ok by (intro takes_constants) simp_all
  have us: "vector_ok (p_upvalues f)" and ps: "vector_ok (p_p f)" using ok by simp_all
  have protos: "takes (LoadProtos (LoadFunction c S ?src') S)
      (enc_count (p_p f) @ concat (map (\<lambda>q. enc_function strip q (p_source f)) (p_p f))) (map (reloaded strip) (p_p f))"
    unfolding LoadProtos_def
  proof (rule takes_vector [OF ps])
    fix q assume q: "q \<in> set (p_p f)"
    then have "chunk_ok q (p_source f)" "depth q \<le> c"
      using ok depth_child [OF q] less.prems(2) d by (auto simp: list_all_iff)
    then show "takes (LoadFunction c S ?src') (enc_function strip q (p_source f)) (reloaded strip q)"
      by (intro less.IH [OF proto_size [OF q]]) simp_all
  qed
  let ?P = "\<lambda>lineinfo locvars upvalues. Proto (p_numparams f) (p_is_vararg f) (p_maxstacksize f)
    (p_linedefined f) (p_lastlinedefined f) ?src' (p_code f) (p_k f) upvalues (map (reloaded strip) (p_p f)) lineinfo locvars"
  have "reloaded strip f = ?P (fst (debug_of strip f)) (fst (snd (debug_of strip f))) (snd (snd (debug_of strip f)))"
    by (rule reloaded_eq)
  then have dbg: "takes (\<lambda>z. ebind (LoadDebug S (map (\<lambda>u. Upvaldesc None (u_instack u) (u_idx u)) (p_upvalues f)) z)
      (\<lambda>((lineinfo, locvars, upvalues), z). Inr (?P lineinfo locvars upvalues, z))) (enc_debug strip f) (reloaded strip f)"
    using takes_debug_map [OF less.prems(1), of ?P strip] by (simp only:)
  have "takes (LoadFunction d S psource') (enc_string (map_option getstr ?src) @
     enc_int (p_linedefined f) @ enc_int (p_lastlinedefined f) @
     [p_numparams f] @ [p_is_vararg f] @ [p_maxstacksize f] @
     enc_ints (p_code f) @
     (enc_count (p_k f) @ concat (map enc_constant (p_k f))) @
     (enc_count (p_upvalues f) @ concat (map (\<lambda>u. [u_instack u] @ [u_idx u]) (p_upvalues f))) @
     (enc_count (p_p f) @ concat (map (\<lambda>q. enc_function strip q (p_source f)) (p_p f))) @
     enc_debug strip f) (reloaded strip f)"
    unfolding d LoadFunction.simps Let_def
    by (rule consumes_bind [OF takes_string [OF cs]], unfold src,
        rule consumes_bind [OF takes_int], rule consumes_bind [OF takes_int],
        rule consumes_bind [OF takes_byte], rule consumes_bind [OF takes_byte], rule consumes_bind [OF takes_byte],
        rule consumes_bind [OF code], rule consumes_bind [OF ks], rule consumes_bind [OF takes_upvalues [OF us]],
        rule consumes_bind [OF protos], rule dbg)
  moreover have "map_option getstr ?src =
      (if strip \<or> same_string (p_source f) psource then None else map_option getstr (p_source f))" by simp
  ultimately show ?case by (simp only: enc_function.simps [of strip f psource] enc_source_def)
qed

text \<open>The header and whole chunks.\<close>

lemma enc_header_first: "enc_header = hd LUA_SIGNATURE # tl enc_header"
  by (simp add: enc_header_def LUA_SIGNATURE_def)

lemma enc_chunk_first: "enc_chunk strip f = hd LUA_SIGNATURE # tl (enc_chunk strip f)"
  using enc_header_first by (simp add: enc_chunk_def LUA_SIGNATURE_def enc_header_def)

lemma takes_check:
  assumes "takes m bs x" and "\<not> bad x"
  shows "takes (\<lambda>z. ebind (m z) (\<lambda>(x, z). if bad x then Inl err else Inr ((), z))) bs ()"
  using consumes_bind [OF assms(1), where f = "\<lambda>x z. if bad x then Inl err else Inr ((), z)" and cs = "[]" and y = "()"]
    assms(2) by (simp add: consumes_return)

lemma takes_literal: "takes (checkliteral S s msg) s ()"
  unfolding checkliteral_def by (rule takes_check [OF takes_block]) simp

lemma takes_check_byte: "n < 256 \<Longrightarrow> takes (check_byte S n msg) [of_nat n] ()"
  unfolding check_byte_def using unat_of_nat_small [where 'a = 8, of n] by (intro takes_check [OF takes_byte]) simp

lemma takes_size: "n < 256 \<Longrightarrow> takes (fchecksize S n msg) [of_nat n] ()"
  unfolding fchecksize_def using unat_of_nat_small [where 'a = 8, of n] by (intro takes_check [OF takes_byte]) simp

lemma num_check: "flt_eq LUAC_NUM LUAC_NUM"
  by code_simp

lemma takes_header: "takes (checkHeader S) (tl enc_header) ()"
proof -
  have num: "takes (\<lambda>z. if LUAC_INT \<noteq> LUAC_INT then Inl (chunk_error S ''endianness mismatch in'')
      else ebind (LoadNumber S z) (\<lambda>(x, z).
        if \<not> flt_eq x LUAC_NUM then Inl (chunk_error S ''float format mismatch in'') else Inr ((), z))) (enc_word LUAC_NUM) ()"
    using takes_check [OF takes_number, where bad = "\<lambda>x. \<not> flt_eq x LUAC_NUM"] num_check by simp
  have "takes (checkHeader S) (tl LUA_SIGNATURE @ [of_nat LUAC_VERSION] @ [of_nat LUAC_FORMAT] @ LUAC_DATA @
     [of_nat 4] @ [of_nat 8] @ [of_nat 4] @ [of_nat 8] @ [of_nat 8] @ enc_word LUAC_INT @ enc_word LUAC_NUM) ()"
    unfolding checkHeader_def
    by (rule consumes_bind [OF takes_literal], rule consumes_bind [OF takes_check_byte], simp add: LUAC_VERSION_def,
        rule consumes_bind [OF takes_check_byte], simp add: LUAC_FORMAT_def, rule consumes_bind [OF takes_literal],
        (rule consumes_bind [OF takes_size], simp)+, rule consumes_bind [OF takes_integer], rule num)
  then show ?thesis by (simp add: enc_header_def LUA_SIGNATURE_def)
qed

lemma depth_length: "depth f \<le> length (enc_function strip f psource)"
proof (induction f arbitrary: psource rule: measure_induct_rule [where f = size])
  case (less f)
  have "foldr max xs (0 :: nat) \<le> n" if "\<forall>x \<in> set xs. x \<le> n" for xs n using that by (induction xs) auto
  moreover have "depth q \<le> length (concat (map (\<lambda>q. enc_function strip q (p_source f)) (p_p f)))" if q: "q \<in> set (p_p f)" for q
  proof -
    have "depth q \<le> length (enc_function strip q (p_source f))" by (rule less [OF proto_size [OF q]])
    also have "\<dots> \<le> sum_list (map length (map (\<lambda>q. enc_function strip q (p_source f)) (p_p f)))"
      using q by (intro member_le_sum_list) auto
    finally show ?thesis by (simp add: length_concat)
  qed
  ultimately have "foldr max (map depth (p_p f)) 0 \<le> length (concat (map (\<lambda>q. enc_function strip q (p_source f)) (p_p f)))"
    by simp
  moreover have "depth f = Suc (foldr max (map depth (p_p f)) 0)" by (cases f) simp
  ultimately show ?case by (simp add: enc_function.simps [of strip f psource])
qed

end

locale chunk_name_input = byte_reader R content for R :: "'d lua_reader" and content :: "'d \<Rightarrow> byte list" +
  fixes name :: string
begin

abbreviation state :: "'d load_state" where
  "state \<equiv> \<lparr>ls_reader = R, ls_name = chunk_name name\<rparr>"

sublocale load: chunk_input R content state
  by unfold_locales simp

abbreviation truncated :: lua_error where
  "truncated \<equiv> chunk_error state ''truncated''"

lemma takes_chunk:
  assumes "chunk_ok f None" and "length (p_upvalues f) < 256" and "length (enc_function strip f None) \<le> d"
  shows "consumes zbytes truncated (luaU_undump d R name) (tl (enc_chunk strip f)) (length (p_upvalues f), reloaded strip f)"
proof -
  have n: "unat (of_nat (length (p_upvalues f)) :: byte) = length (p_upvalues f)"
    using assms(2) by (intro unat_of_nat_small) simp
  have f: "consumes zbytes truncated (LoadFunction d state None) (enc_function strip f None) (reloaded strip f)"
    by (rule load.takes_function [OF assms(1)]) (use order_trans [OF load.depth_length assms(3)] in simp_all)
  have "consumes zbytes truncated (luaU_undump d R name)
      (tl enc_header @ [of_nat (length (p_upvalues f))] @ enc_function strip f None) (length (p_upvalues f), reloaded strip f)"
    unfolding luaU_undump_def Let_def
    by (rule consumes_bind [OF load.takes_header], rule consumes_bind [OF load.takes_byte],
        rule consumes_eq [OF consumes_map [where g = "Pair (unat (of_nat (length (p_upvalues f)) :: byte))", OF f]])
      (simp_all add: n)
  moreover have "tl (enc_chunk strip f) = tl enc_header @ [of_nat (length (p_upvalues f))] @ enc_function strip f None"
    unfolding enc_chunk_def by (subst load.enc_header_first) simp
  ultimately show ?thesis by simp
qed

lemma parser_undumps:
  assumes "zbytes z = hd LUA_SIGNATURE # bs" and "mode = None \<or> (\<exists>m. mode = Some m \<and> CHR ''b'' \<in> set m)"
  shows "\<exists>z'. zbytes z' = bs \<and> f_parser d R parser name mode z = luaU_undump d R name z'"
  using zgetc_bytes [of z] assms by (auto simp: f_parser_def checkmode_def)

lemma chunk_loads:
  assumes "chunk_ok f None" and "length (p_upvalues f) < 256" and "length (enc_chunk strip f) \<le> d"
    and "mode = None \<or> (\<exists>m. mode = Some m \<and> CHR ''b'' \<in> set m)" and "zbytes z = enc_chunk strip f @ r"
  shows "\<exists>z'. f_parser d R parser name mode z = Inr ((length (p_upvalues f), reloaded strip f), z') \<and> zbytes z' = r"
proof -
  have "zbytes z = hd LUA_SIGNATURE # tl (enc_chunk strip f) @ r"
    using assms(5) load.enc_chunk_first [of strip f] by (metis append_Cons)
  then obtain z1 where z1: "zbytes z1 = tl (enc_chunk strip f) @ r" "f_parser d R parser name mode z = luaU_undump d R name z1"
    using parser_undumps [OF _ assms(4)] by blast
  have "length (enc_function strip f None) \<le> d" using assms(3) by (simp add: enc_chunk_def)
  from takes_chunk [OF assms(1,2) this] show ?thesis using z1 by (simp add: consumes_def)
qed

lemma chunk_cut:
  assumes "chunk_ok f None" and "length (p_upvalues f) < 256" and "length (enc_chunk strip f) \<le> d"
    and "mode = None \<or> (\<exists>m. mode = Some m \<and> CHR ''b'' \<in> set m)"
    and "strict_prefix (zbytes z) (enc_chunk strip f)" and "zbytes z \<noteq> []"
  shows "f_parser d R parser name mode z = Inl truncated"
proof -
  have "enc_chunk strip f = hd LUA_SIGNATURE # tl (enc_chunk strip f)" by (rule load.enc_chunk_first)
  then obtain bs where bs: "zbytes z = hd LUA_SIGNATURE # bs" "strict_prefix bs (tl (enc_chunk strip f))"
    using assms(5,6) by (metis Cons_prefix_Cons list.exhaust_sel strict_prefix_def)
  then obtain z1 where z1: "zbytes z1 = bs" "f_parser d R parser name mode z = luaU_undump d R name z1"
    using parser_undumps [OF _ assms(4)] by blast
  have "length (enc_function strip f None) \<le> d" using assms(3) by (simp add: enc_chunk_def)
  from takes_chunk [OF assms(1,2) this] show ?thesis using z1 bs(2) by (simp add: consumes_def)
qed

end

interpretation gets_chunk: chunk_name_input getS "\<lambda>s. s" name for name
  by unfold_locales

interpretation pieces_chunk: chunk_name_input pieces_reader pieces_content name for name
  by unfold_locales

section \<open>Loading anything ends\<close>

text \<open>
  What can go wrong: an error of Lua, and the two invalid steps a crafted chunk makes the code take.
  \<open>shrinks zb L k m\<close>: on a stream with at most \<open>L\<close> bytes left the loader \<open>m\<close> ends, in one of
  these errors or having taken at least \<open>k\<close> bytes.
\<close>

definition load_err :: "lua_error \<Rightarrow> bool" where
  "load_err e \<longleftrightarrow> (\<exists>msg. e = RunError msg) \<or> e = MemFault ''null string as a constant'' \<or>
     e = MemFault ''upvalue name outside the array''"

lemma load_err_simps [simp]:
  "load_err (RunError msg)"
  "load_err (MemFault ''null string as a constant'')"
  "load_err (MemFault ''upvalue name outside the array'')"
  by (simp_all add: load_err_def)

definition shrinks :: "('z \<Rightarrow> byte list) \<Rightarrow> nat \<Rightarrow> nat \<Rightarrow> ('z \<Rightarrow> ('a \<times> 'z) res) \<Rightarrow> bool" where
  "shrinks zb L k m \<longleftrightarrow>
     (\<forall>z. length (zb z) \<le> L \<longrightarrow> wp (m z) load_err (\<lambda>(x, z'). length (zb z') + k \<le> length (zb z)))"

named_theorems shrinks_intros

lemma shrinks_bind_step:
  assumes "shrinks zb L k m" and "\<And>x. shrinks zb (L - k) 0 (f x)"
  shows "shrinks zb L k (\<lambda>z. ebind (m z) (\<lambda>(x, z). f x z))"
  unfolding shrinks_def
proof (intro allI impI)
  fix z assume "length (zb z) \<le> L"
  then have "wp (m z) load_err (\<lambda>(x, z'). length (zb z') + k \<le> length (zb z))" using assms(1) by (simp add: shrinks_def)
  then show "wp (ebind (m z) (\<lambda>(x, z). f x z)) load_err (\<lambda>(x, z'). length (zb z') + k \<le> length (zb z))"
  proof (rule wp_bind, clarify)
    fix x z' assume z': "length (zb z') + k \<le> length (zb z)"
    then have "length (zb z') \<le> L - k" using \<open>length (zb z) \<le> L\<close> by simp
    then have "wp (f x z') load_err (\<lambda>(y, z''). length (zb z'') + 0 \<le> length (zb z'))" using assms(2) by (simp add: shrinks_def)
    then show "wp (f x z') load_err (\<lambda>(y, z''). length (zb z'') + k \<le> length (zb z))" by (rule wp_mono) (use z' in auto)
  qed
qed

lemma shrinks_bind_later:
  assumes "shrinks zb L 0 m" and "\<And>x. shrinks zb L k (f x)"
  shows "shrinks zb L k (\<lambda>z. ebind (m z) (\<lambda>(x, z). f x z))"
  unfolding shrinks_def
proof (intro allI impI)
  fix z assume z: "length (zb z) \<le> L"
  then have "wp (m z) load_err (\<lambda>(x, z'). length (zb z') + 0 \<le> length (zb z))" using assms(1) by (simp add: shrinks_def)
  then show "wp (ebind (m z) (\<lambda>(x, z). f x z)) load_err (\<lambda>(x, z'). length (zb z') + k \<le> length (zb z))"
  proof (rule wp_bind, clarify)
    fix x z' assume z': "length (zb z') + 0 \<le> length (zb z)"
    then have "wp (f x z') load_err (\<lambda>(y, z''). length (zb z'') + k \<le> length (zb z'))" using assms(2) z by (simp add: shrinks_def)
    then show "wp (f x z') load_err (\<lambda>(y, z''). length (zb z'') + k \<le> length (zb z))" by (rule wp_mono) (use z' in auto)
  qed
qed

lemma shrinks_weaken: "shrinks zb L k m \<Longrightarrow> L' \<le> L \<Longrightarrow> k' \<le> k \<Longrightarrow> shrinks zb L' k' m"
  unfolding shrinks_def
proof (intro allI impI)
  fix z assume a: "\<forall>z. length (zb z) \<le> L \<longrightarrow> wp (m z) load_err (\<lambda>(x, z'). length (zb z') + k \<le> length (zb z))"
    "L' \<le> L" "k' \<le> k" "length (zb z) \<le> L'"
  then have "wp (m z) load_err (\<lambda>(x, z'). length (zb z') + k \<le> length (zb z))" by simp
  then show "wp (m z) load_err (\<lambda>(x, z'). length (zb z') + k' \<le> length (zb z))" by (rule wp_mono) (use a(3) in auto)
qed

lemma shrinks_bind [shrinks_intros]:
  assumes "shrinks zb L 0 m" and "\<And>x. shrinks zb L 0 (f x)"
  shows "shrinks zb L 0 (\<lambda>z. ebind (m z) (\<lambda>(x, z). f x z))"
  by (rule shrinks_bind_step [OF assms(1)]) (simp add: assms(2))

lemma shrinks_return [shrinks_intros]: "shrinks zb L 0 (\<lambda>z. Inr (x, z))"
  by (simp add: shrinks_def)

lemma shrinks_error [shrinks_intros]: "load_err e \<Longrightarrow> shrinks zb L k (\<lambda>z. Inl e)"
  by (simp add: shrinks_def)

lemma shrinks_if [shrinks_intros]:
  "(b \<Longrightarrow> shrinks zb L k m) \<Longrightarrow> (\<not> b \<Longrightarrow> shrinks zb L k m') \<Longrightarrow> shrinks zb L k (\<lambda>z. if b then m z else m' z)"
  by (cases b) simp_all

lemma shrinks_split3 [shrinks_intros]:
  "(\<And>a b c. shrinks zb L k (f a b c)) \<Longrightarrow> shrinks zb L k (case t of (a, b, c) \<Rightarrow> f a b c)"
  by (cases t) simp

lemma shrinks_newvector [shrinks_intros]:
  "(\<And>n. shrinks zb L k (f n)) \<Longrightarrow> shrinks zb L k (\<lambda>z. ebind (newvector c) (\<lambda>n. f n z))"
  by (simp add: newvector_def shrinks_def)

lemma shrinks_load_n [shrinks_intros]: "shrinks zb L 0 m \<Longrightarrow> shrinks zb L 0 (load_n n m)"
proof (induction n)
  case (Suc n)
  have "shrinks zb L 0 (\<lambda>z. ebind (m z) (\<lambda>(x, z). ebind (load_n n m z) (\<lambda>(xs, z). Inr (x # xs, z))))"
    by (intro shrinks_intros Suc)
  then show ?case by (simp add: shrinks_def)
qed (simp add: shrinks_def)

context chunk_input
begin

lemma shrinks_block: "shrinks zbytes L n (LoadBlock S n)"
  unfolding shrinks_def
proof (intro allI impI)
  fix z
  obtain z' where "luaZ_read R n z = (take n (zbytes z), n - length (zbytes z), z')" "zbytes z' = drop n (zbytes z)"
    using read_bytes by blast
  then show "wp (LoadBlock S n z) load_err (\<lambda>(x, z'). length (zbytes z') + n \<le> length (zbytes z))"
    by (simp add: LoadBlock_def reader chunk_error_def)
qed

lemma shrinks_byte1: "shrinks zbytes L 1 (LoadByte S)"
  unfolding LoadByte_def by (rule shrinks_bind_step [OF shrinks_block shrinks_return])

lemma shrinks_simple [shrinks_intros]:
  "shrinks zbytes L 0 (LoadBlock S n)" "shrinks zbytes L 0 (LoadByte S)" "shrinks zbytes L 0 (LoadInt S)"
  "shrinks zbytes L 0 (LoadInteger S)" "shrinks zbytes L 0 (LoadNumber S)"
proof -
  show block: "shrinks zbytes L 0 (LoadBlock S n)" for n
    by (rule shrinks_weaken [OF shrinks_block [of L]]) simp_all
  show "shrinks zbytes L 0 (LoadByte S)" "shrinks zbytes L 0 (LoadInt S)"
    "shrinks zbytes L 0 (LoadInteger S)" "shrinks zbytes L 0 (LoadNumber S)"
    unfolding LoadByte_def LoadInt_def LoadInteger_def LoadNumber_def by (intro shrinks_intros block)+
qed

lemma shrinks_string1: "shrinks zbytes L 1 (LoadString S)"
  unfolding LoadString_def by (rule shrinks_bind_step [OF shrinks_byte1]) (intro shrinks_intros)

lemma shrinks_string [shrinks_intros]: "shrinks zbytes L 0 (LoadString S)"
  by (rule shrinks_weaken [OF shrinks_string1 [of L]]) simp_all

lemma shrinks_parts [shrinks_intros]:
  "shrinks zbytes L 0 (LoadInts S)" "shrinks zbytes L 0 (LoadConstant S)"
  "shrinks zbytes L 0 (LoadUpvalue S)" "shrinks zbytes L 0 (LoadLocvar S)"
proof -
  show "shrinks zbytes L 0 (LoadInts S)" unfolding LoadInts_def by (intro shrinks_intros)
  have "shrinks zbytes L 0 (\<lambda>z. case s of None \<Rightarrow> Inl (MemFault ''null string as a constant'') | Some s \<Rightarrow> Inr (LStr s, z))" for s
    by (cases s) (simp_all add: shrinks_def)
  then show "shrinks zbytes L 0 (LoadConstant S)" unfolding LoadConstant_def Let_def by (intro shrinks_intros)
  show "shrinks zbytes L 0 (LoadUpvalue S)" unfolding LoadUpvalue_def by (intro shrinks_intros)
  show "shrinks zbytes L 0 (LoadLocvar S)" unfolding LoadLocvar_def by (intro shrinks_intros)
qed

lemma shrinks_sections [shrinks_intros]:
  "shrinks zbytes L 0 (LoadCode S)" "shrinks zbytes L 0 (LoadConstants S)" "shrinks zbytes L 0 (LoadUpvalues S)"
  unfolding LoadCode_def LoadConstants_def LoadUpvalues_def by (intro shrinks_intros)+

lemma shrinks_names: "shrinks zbytes L 0 (\<lambda>z. efold (set_name S) is (us, z))"
proof (induction "is" arbitrary: us)
  case (Cons i "is")
  have "shrinks zbytes L 0 (\<lambda>z. set_name S i (us, z))"
    unfolding set_name_def prod.case by (intro shrinks_intros) simp
  then have "shrinks zbytes L 0 (\<lambda>z. ebind (set_name S i (us, z)) (\<lambda>(us, z). efold (set_name S) is (us, z)))"
    by (intro shrinks_bind Cons)
  then show ?case by simp
qed (simp add: shrinks_def)

lemma shrinks_debug [shrinks_intros]: "shrinks zbytes L 0 (LoadDebug S us)"
  unfolding LoadDebug_def by (intro shrinks_intros shrinks_names)

lemma shrinks_function: "L < d \<Longrightarrow> shrinks zbytes L 1 (LoadFunction d S psource)"
proof (induction d arbitrary: L psource)
  case (Suc d)
  show ?case
  proof (cases L)
    case 0
    have "shrinks zbytes 0 1 (LoadString S)" by (rule shrinks_string1)
    then show ?thesis using 0 unfolding LoadFunction.simps
      by (auto simp: shrinks_def intro!: wp_bind)
  next
    case (Suc l)
    have "shrinks zbytes l 0 (LoadFunction d S src)" for src
      by (rule shrinks_weaken [OF Suc.IH [of l]]) (use Suc Suc.prems in simp_all)
    then have protos: "shrinks zbytes l 0 (LoadProtos (LoadFunction d S src) S)" for src
      unfolding LoadProtos_def by (intro shrinks_intros)
    show ?thesis
      unfolding LoadFunction.simps Suc
      by (rule shrinks_bind_step [OF shrinks_string1]) (simp only: diff_Suc_1 Let_def, intro shrinks_intros protos)
  qed
qed simp

lemma shrinks_check [shrinks_intros]:
  "shrinks zbytes L 0 (checkliteral S s msg)" "shrinks zbytes L 0 (check_byte S n msg)" "shrinks zbytes L 0 (fchecksize S n msg)"
  unfolding checkliteral_def check_byte_def fchecksize_def
  by (intro shrinks_intros; simp add: chunk_error_def)+

lemma shrinks_header: "shrinks zbytes L 0 (checkHeader S)"
  unfolding checkHeader_def by (intro shrinks_intros) (simp_all add: chunk_error_def)

end

context chunk_name_input
begin

lemma undump_ends:
  "length (zbytes z) < d \<Longrightarrow> wp (luaU_undump d R name z) load_err (\<lambda>(x, z'). length (zbytes z') < length (zbytes z))"
proof -
  assume d: "length (zbytes z) < d"
  have "shrinks zbytes (length (zbytes z)) 1 (luaU_undump d R name)"
    unfolding luaU_undump_def Let_def
    by (intro shrinks_bind_later load.shrinks_header load.shrinks_simple shrinks_bind_step [OF load.shrinks_function [OF d]]
        shrinks_return)
  then show ?thesis unfolding shrinks_def by (auto elim!: wp_mono)
qed

end

section \<open>Properties\<close>

text \<open>C8:
  Loading inverts dumping.  For every prototype that fits the format, the bytes of
  \<open>string.dump\<close> delivered in any non-empty pieces by any reader are taken exactly by
  \<open>f_parser\<close>, which returns a closure with the same contents: the same code, constants,
  nested functions and (unless stripped) debug information, the sources of nested functions
  included, which the dump leaves out where they are those of the parent.
\<close>

theorem chunk_roundtrip:
  assumes "chunk_ok f None" and "length (p_upvalues f) < 256"
    and "str_dump f strip = Inr (concat ps)" and "[] \<notin> set ps" and "length (concat ps) \<le> d"
    and "mode = None \<or> (\<exists>m. mode = Some m \<and> CHR ''b'' \<in> set m)"
  shows "\<exists>z. f_parser d pieces_reader parser name mode (luaZ_init ps) =
      Inr ((length (p_upvalues f), if strip then stripped (map_proto getstr f) else map_proto getstr f), z) \<and>
    z_buf z = [] \<and> pieces_content (z_data z) = []"
proof -
  have c: "enc_chunk strip f = concat ps" using assms(3) by (simp add: str_dump_chunk)
  have "pieces_content ps = concat ps" using assms(4) by (induction ps) auto
  then have "pieces.zbytes (luaZ_init ps) = enc_chunk strip f @ []" using c by (simp add: pieces.zbytes_def luaZ_init_def)
  from pieces_chunk.chunk_loads [OF assms(1,2) _ assms(6) this, of d parser name] assms(5) c show ?thesis
    by (auto simp: reloaded_def pieces.zbytes_def)
qed

text \<open>A function with a nested one of the same source, a constant and an upvalue.\<close>

definition sample_child :: "tstring proto" where
  "sample_child = Proto 0 0 2 1 1 (Some (TString 64 ''@a.lua'')) [0x800026] [LBool True] [] [] [1] []"

definition sample_proto :: "tstring proto" where
  "sample_proto = Proto 1 0 2 0 0 (Some (TString 64 ''@a.lua'')) [0x26, 0x800026] [LInt 7, LStr ''x'']
     [Upvaldesc (Some (TString 96 ''_ENV'')) 1 0] [sample_child]
     [1, 1] [LocVar (Some (TString 128 ''p'')) 0 2]"

lemma sample_ok: "chunk_ok sample_proto None" "length (p_upvalues sample_proto) < 256"
proof -
  have "chunk_ok sample_child (Some (TString 64 ''@a.lua''))"
    by (subst chunk_ok.simps) (simp add: sample_child_def vector_ok_def chunk_string_def same_string_def)
  then show "chunk_ok sample_proto None"
    by (subst chunk_ok.simps) (simp add: sample_proto_def vector_ok_def chunk_string_def same_string_def)
qed (simp add: sample_proto_def)

lemma chunk_roundtrip_witness:
  "\<exists>z. f_parser (length (enc_chunk False sample_proto)) pieces_reader (\<lambda>c z. Inl NoReturn) ''x'' (Some ''b'')
      (luaZ_init (map (\<lambda>b. [b]) (enc_chunk False sample_proto))) = Inr ((1, map_proto getstr sample_proto), z)"
proof -
  let ?ps = "map (\<lambda>b. [b]) (enc_chunk False sample_proto)"
  have c: "concat ?ps = enc_chunk False sample_proto" by simp
  have "\<exists>z. f_parser (length (enc_chunk False sample_proto)) pieces_reader (\<lambda>c z. Inl NoReturn) ''x'' (Some ''b'') (luaZ_init ?ps) =
      Inr ((length (p_upvalues sample_proto),
        if False then stripped (map_proto getstr sample_proto) else map_proto getstr sample_proto), z) \<and>
    z_buf z = [] \<and> pieces_content (z_data z) = []"
    by (rule chunk_roundtrip [OF sample_ok, of False ?ps]) (auto simp: str_dump_chunk comp_def)
  then show ?thesis by (auto simp: sample_proto_def)
qed

text \<open>C22:
  A chunk that was cut off is rejected.  If a reader delivers only a part of a dumped chunk
  that stops anywhere between the first byte and the last, \<open>f_parser\<close> raises the error
  "truncated precompiled chunk"; it never returns a function and never reads outside.
\<close>

theorem chunk_truncated:
  assumes "chunk_ok f None" and "length (p_upvalues f) < 256"
    and "str_dump f strip = Inr b" and "strict_prefix (concat ps) b" and "concat ps \<noteq> []" and "[] \<notin> set ps"
    and "length b \<le> d" and "mode = None \<or> (\<exists>m. mode = Some m \<and> CHR ''b'' \<in> set m)"
  shows "f_parser d pieces_reader parser name mode (luaZ_init ps) =
    Inl (RunError (chunk_name name @ '': '' @ ''truncated'' @ '' precompiled chunk''))"
proof -
  have c: "enc_chunk strip f = b" using assms(3) by (simp add: str_dump_chunk)
  have "pieces_content ps = concat ps" using assms(6) by (induction ps) auto
  then have z: "pieces.zbytes (luaZ_init ps) = concat ps" by (simp add: pieces.zbytes_def luaZ_init_def)
  show ?thesis
    using pieces_chunk.chunk_cut [OF assms(1,2) _ assms(8), of strip d "luaZ_init ps" parser name] assms(4,5,7) c z
    by (simp add: chunk_error_def)
qed

lemma chunk_truncated_witness:
  "f_parser (length (enc_chunk True sample_proto)) pieces_reader (\<lambda>c z. Inl NoReturn) ''=x'' None (luaZ_init [[0x1b, 0x4c]]) =
    Inl (RunError (''x: truncated precompiled chunk''))"
proof -
  have p: "strict_prefix (concat [[0x1b, 0x4c]]) (enc_chunk True sample_proto)"
    by (simp add: enc_chunk_def enc_header_def LUA_SIGNATURE_def strict_prefix_def)
  from chunk_truncated [OF sample_ok str_dump_chunk p _ _ order_refl, of None "\<lambda>c z. Inl NoReturn" "''=x''"]
  show ?thesis by (simp add: chunk_name_def)
qed

text \<open>C21:
  Loading ends on any input.  Whatever bytes a reader delivers, in whatever pieces, loading
  them as a precompiled chunk returns a closure, having taken a part of the input, raises a Lua error, or makes one of exactly two invalid
  steps, for which the code lacks a check: a string constant of size 0, which is read through a null pointer, and
  more names of upvalues than there are upvalues, which are written behind the array.  It does not loop: the
  nesting of functions is bounded by the length of the input, although the counts in it are not.
  (The C stack is taken to have room for the nesting, the memory for what the counts ask for.)
\<close>

theorem undump_any_ends:
  assumes "length (concat ps) < d"
  shows "case luaU_undump d pieces_reader name (luaZ_init ps) of
      Inl e \<Rightarrow> (\<exists>msg. e = RunError msg) \<or> e = MemFault ''null string as a constant'' \<or>
        e = MemFault ''upvalue name outside the array''
    | Inr (_, z) \<Rightarrow> length (pieces.zbytes z) < length (concat ps)"
proof -
  have "length (pieces_content ps) \<le> length (concat ps)" by (induction ps) auto
  then have le: "length (pieces.zbytes (luaZ_init ps)) \<le> length (concat ps)"
    by (simp add: pieces.zbytes_def luaZ_init_def)
  then have "length (pieces.zbytes (luaZ_init ps)) < d" using assms by simp
  from pieces_chunk.undump_ends [OF this, of name] le show ?thesis
    by (fastforce simp: wp_def load_err_def split: sum.splits)
qed

lemma undump_any_ends_witness:
  "case luaU_undump 2 pieces_reader ''x'' (luaZ_init [[0x4c]]) of
      Inl e \<Rightarrow> (\<exists>msg. e = RunError msg) \<or> e = MemFault ''null string as a constant'' \<or>
        e = MemFault ''upvalue name outside the array''
    | Inr (_, z) \<Rightarrow> length (pieces.zbytes z) < length (concat [[0x4c :: byte]])"
  by (rule undump_any_ends) simp

text \<open>
  A dump is a fixed sequence of blocks.  \<open>luaU_dump\<close> hands its writer the same blocks in the
  same order, whatever the writer is; at the first status that is not 0 it stops calling the
  writer and returns that status.  With the writer of \<open>string.dump\<close> the result is their
  concatenation, and there is no error.
\<close>

theorem dump_blocks:
  "\<exists>ps. (\<forall>(W :: 'd lua_writer) d. luaU_dump W f strip d = write_all W ps d) \<and> str_dump f strip = Inr (concat ps)"
proof -
  obtain ps where "concat ps = enc_chunk strip f" "\<forall>(W :: 'd lua_writer) d. luaU_dump W f strip d = fold (DumpBlock W) ps (0, d)"
    using emits_chunk [where 'a = 'd] by blast
  then show ?thesis by (auto simp: fold_write_all str_dump_chunk)
qed


end
