(* ===== verification/Lua_Str.thy ===== *)
theory Lua_Str
  imports Lua_Args
begin

text \<open>
  The simple functions of \<open>lstrlib.c\<close>, on strings as lists of bytes.  Arguments are what the
  checks of \<open>lauxlib.c\<close> deliver; character classes are those of the C locale.
\<close>

section \<open>Functions\<close>

abbreviation (input) MAXSIZE :: nat where "MAXSIZE \<equiv> 2 ^ 31 - 1"
abbreviation (input) INT_MAX :: int where "INT_MAX \<equiv> 2 ^ 31 - 1"

definition str_len :: "byte list \<Rightarrow> int" where
  "str_len s = int (length s)"

definition posrelat :: "int \<Rightarrow> nat \<Rightarrow> int" where
  "posrelat pos len = (if 0 \<le> pos then pos else if int len < - pos then 0 else int len + pos + 1)"

definition str_sub :: "byte list \<Rightarrow> int \<Rightarrow> int option \<Rightarrow> byte list" where
  "str_sub s i j =
     (let l = length s;
          start = posrelat i l;
          end = posrelat (optint j (- 1)) l;
          start = (if start < 1 then 1 else start);
          end = (if int l < end then int l else end)
      in if start \<le> end then take (nat (end - start) + 1) (drop (nat start - 1) s) else [])"

definition str_reverse :: "byte list \<Rightarrow> byte list" where
  "str_reverse s = (let l = length s in map (\<lambda>i. s ! (l - i - 1)) [0..<l])"

definition tolower :: "byte \<Rightarrow> byte" where
  "tolower c = (if 65 \<le> c \<and> c \<le> 90 then c + 32 else c)"

definition toupper :: "byte \<Rightarrow> byte" where
  "toupper c = (if 97 \<le> c \<and> c \<le> 122 then c - 32 else c)"

definition str_lower :: "byte list \<Rightarrow> byte list" where
  "str_lower s = map (\<lambda>i. tolower (s ! i)) [0..<length s]"

definition str_upper :: "byte list \<Rightarrow> byte list" where
  "str_upper s = map (\<lambda>i. toupper (s ! i)) [0..<length s]"

text \<open>The loop of \<open>str_rep\<close>: the first copies with separators, then the last one.\<close>

fun rep_loop :: "byte list \<Rightarrow> byte list \<Rightarrow> nat \<Rightarrow> byte list" where
  "rep_loop s sep 0 = s"
| "rep_loop s sep (Suc n) = s @ sep @ rep_loop s sep n"

definition str_rep :: "byte list \<Rightarrow> int \<Rightarrow> byte list \<Rightarrow> byte list res" where
  "str_rep s n sep =
     (let l = length s; lsep = length sep in
      if n \<le> 0 then Inr []
      else if (l + lsep) mod 2 ^ 64 < l \<or> MAXSIZE div nat n < (l + lsep) mod 2 ^ 64
      then Inl (RunError ''resulting string too large'')
      else Inr (rep_loop s sep (nat (n - 1))))"

text \<open>\<open>used\<close>: the slots of the Lua stack in use.\<close>

definition str_byte :: "nat \<Rightarrow> byte list \<Rightarrow> int option \<Rightarrow> int option \<Rightarrow> int list res" where
  "str_byte used s i j =
     (let l = length s;
          posi = posrelat (optint i 1) l;
          pose = posrelat (optint j posi) l;
          posi = (if posi < 1 then 1 else posi);
          pose = (if int l < pose then int l else pose)
      in if pose < posi then Inr []
         else if INT_MAX \<le> pose - posi then Inl (RunError ''string slice too long'')
         else ebind (luaL_checkstack used (nat (pose - posi) + 1) ''string slice too long'') (\<lambda>_.
              Inr (map (\<lambda>i. uint (s ! (nat posi + i - 1))) [0..<nat (pose - posi) + 1])))"

definition add_char :: "nat \<times> int \<Rightarrow> byte list \<Rightarrow> byte list res" where
  "add_char = (\<lambda>(i, c) b.
     ebind (guard_or (uint (word_of_int c :: byte) = c) (ArgError i ''value out of range'')) (\<lambda>_.
     Inr (b @ [word_of_int c])))"

definition str_char :: "int list \<Rightarrow> byte list res" where
  "str_char args = efold add_char (zip [1..<Suc (length args)] args) []"

section \<open>Properties\<close>

lemma rep_loop_concat: "rep_loop s sep n = concat (replicate n (s @ sep)) @ s"
  by (induction n) simp_all

lemma posrelat_range: "posrelat i l \<le> int l \<or> posrelat i l = i"
  by (simp add: posrelat_def)

lemma map_nth_drop:
  assumes "k + n \<le> length s"
  shows "map (\<lambda>i. f (s ! (k + i))) [0..<n] = map f (take n (drop k s))"
  by (rule nth_equalityI) (use assms in simp_all)

lemma filter_positions:
  "map snd (filter (\<lambda>(k, x). a \<le> k \<and> k \<le> b) (zip [m + 1..m + int (length s)] s)) =
    take (nat (b - m) - nat (a - m - 1)) (drop (nat (a - m - 1)) s)"
proof (induction s arbitrary: m)
  case (Cons x s)
  have "[m + 1..m + int (length (x # s))] = (m + 1) # [(m + 1) + 1..(m + 1) + int (length s)]"
    by (subst upto.simps) (simp add: ac_simps)
  then have split: "filter (\<lambda>(k, x). a \<le> k \<and> k \<le> b) (zip [m + 1..m + int (length (x # s))] (x # s)) =
      (if a \<le> m + 1 \<and> m + 1 \<le> b then [(m + 1, x)] else []) @
      filter (\<lambda>(k, x). a \<le> k \<and> k \<le> b) (zip [(m + 1) + 1..(m + 1) + int (length s)] s)" by simp
  show ?case
  proof (cases "a \<le> m + 1")
    case True
    then have e: "nat (a - m - 1) = 0" "nat (a - (m + 1) - 1) = 0" by simp_all
    show ?thesis
    proof (cases "m + 1 \<le> b")
      case le: True
      then have "nat (b - m) = Suc (nat (b - (m + 1)))" by simp
      then show ?thesis using split Cons [of "m + 1"] True le e by simp
    next
      case False
      then have "nat (b - m) = 0" "nat (b - (m + 1)) = 0" by simp_all
      then show ?thesis using split Cons [of "m + 1"] False e by simp
    qed
  next
    case False
    then have "nat (a - m - 1) = Suc (nat (a - (m + 1) - 1))" by simp
    moreover have "nat (b - m) - Suc n = nat (b - (m + 1)) - n" for n by linarith
    ultimately show ?thesis using split Cons [of "m + 1"] False by simp
  qed
qed simp

text \<open>
  Positions in strings: for any integers \<open>i\<close> and \<open>j\<close>, also beyond both ends, negative or at the
  limits of the integers, \<open>string.sub\<close> returns exactly the bytes whose position is at least
  \<open>i\<close> and at most \<open>j\<close>, where a negative position counts from the end.
\<close>

theorem sub_positions:
  "str_sub s i j =
    map snd (filter (\<lambda>(k, b). (if 0 \<le> i then i \<le> k else int (length s) + i + 1 \<le> k) \<and>
        (if 0 \<le> optint j (- 1) then k \<le> optint j (- 1) else k \<le> int (length s) + optint j (- 1) + 1))
      (zip [1..int (length s)] s))"
proof -
  let ?l = "int (length s)"
  define a where "a = (let x = posrelat i (length s) in if x < 1 then 1 else x)"
  define b where "b = (let x = posrelat (optint j (- 1)) (length s) in if ?l < x then ?l else x)"
  have sub: "str_sub s i j = (if a \<le> b then take (nat (b - a) + 1) (drop (nat a - 1) s) else [])"
    by (simp add: str_sub_def a_def b_def Let_def)
  have ab: "1 \<le> a" "b \<le> ?l" by (simp_all add: a_def b_def Let_def)
  have "(if 0 \<le> i then i \<le> k else ?l + i + 1 \<le> k) \<longleftrightarrow> a \<le> k" if "1 \<le> k" "k \<le> ?l" for k
    using that by (auto simp: a_def Let_def posrelat_def)
  moreover have "(if 0 \<le> optint j (- 1) then k \<le> optint j (- 1) else k \<le> ?l + optint j (- 1) + 1) \<longleftrightarrow> k \<le> b"
    if "1 \<le> k" "k \<le> ?l" for k
    using that by (auto simp: b_def Let_def posrelat_def)
  ultimately have f: "filter (\<lambda>(k, b). (if 0 \<le> i then i \<le> k else ?l + i + 1 \<le> k) \<and>
        (if 0 \<le> optint j (- 1) then k \<le> optint j (- 1) else k \<le> ?l + optint j (- 1) + 1)) (zip [1..?l] s) =
      filter (\<lambda>(k, x). a \<le> k \<and> k \<le> b) (zip [1..?l] s)"
    by (intro filter_cong) (auto dest!: set_zip_leftD)
  have "map snd (filter (\<lambda>(k, x). a \<le> k \<and> k \<le> b) (zip [1..?l] s)) =
      take (nat b - nat (a - 1)) (drop (nat (a - 1)) s)"
    using filter_positions [of a b 0 s] by simp
  moreover have "nat b - nat (a - 1) = (if a \<le> b then nat (b - a) + 1 else 0)" "nat (a - 1) = nat a - 1"
    using ab(1) by auto
  ultimately have "map snd (filter (\<lambda>(k, x). a \<le> k \<and> k \<le> b) (zip [1..?l] s)) =
      (if a \<le> b then take (nat (b - a) + 1) (drop (nat a - 1) s) else [])"
    by simp
  then show ?thesis using sub f by simp
qed

text \<open>
  \<open>string.char\<close> inverts \<open>string.byte\<close>: for a string whose bytes find room on the Lua stack, the codes of
  all its bytes are returned without an error, and building a string of them gives it back.
  An argument outside \<open>0 .. 255\<close> is an error that names the argument.
\<close>

lemma add_chars:
  "efold add_char (zip [k..<k + length s] (map uint s)) b = Inr (b @ s)"
proof (induction s arbitrary: k b)
  case (Cons x s)
  have "[k..<k + length (x # s)] = k # [Suc k..<Suc k + length s]" by (simp add: upt_conv_Cons del: upt_Suc)
  then show ?case using Cons [of "Suc k" "b @ [x]"] by (simp add: add_char_def)
qed simp

lemma add_chars_error:
  assumes "\<not> (0 \<le> c \<and> c < 256)"
  shows "efold add_char (zip [k..<k + length (map uint s @ c # cs)] (map uint (s :: byte list) @ c # cs)) b =
    Inl (ArgError (k + length s) ''value out of range'')"
proof (induction s arbitrary: k b)
  case Nil
  have "0 \<le> uint (word_of_int c :: byte)" "uint (word_of_int c :: byte) < 256"
    using uint_lt2p [of "word_of_int c :: byte"] by simp_all
  then have "uint (word_of_int c :: byte) \<noteq> c" using assms by metis
  then show ?case by (simp add: add_char_def upt_conv_Cons del: upt_Suc)
next
  case (Cons x s)
  have "[k..<k + length (map uint (x # s) @ c # cs)] = k # [Suc k..<Suc k + length (map uint s @ c # cs)]"
    by (simp add: upt_conv_Cons del: upt_Suc)
  then show ?case using Cons [of "Suc k" "b @ [x]"] by (simp add: add_char_def)
qed

theorem char_byte:
  "(lua_checkstack used (length s + LUA_MINSTACK) \<longrightarrow>
      (\<exists>cs. str_byte used s (Some 1) (Some (- 1)) = Inr cs \<and> str_char cs = Inr s)) \<and>
   (\<not> (0 \<le> c \<and> c < 256) \<longrightarrow>
      str_char (map uint s @ c # cs) = Inl (ArgError (Suc (length s)) ''value out of range''))"
proof (intro conjI impI)
  assume l: "lua_checkstack used (length s + LUA_MINSTACK)"
  then have m: "int (length s) < INT_MAX" by (simp add: lua_checkstack_def LUAI_MAXSTACK_def)
  have "str_byte used s (Some 1) (Some (- 1)) = Inr (map uint s)"
  proof (cases s)
    case Nil
    then show ?thesis by (simp add: str_byte_def posrelat_def)
  next
    case (Cons x t)
    have "map (\<lambda>i. uint (s ! (nat 1 + i - 1))) [0..<length s] = map uint s" by (rule nth_equalityI) simp_all
    moreover have "nat (int (length s) - 1) + 1 = length s" using Cons by simp
    ultimately show ?thesis using Cons m luaL_checkstack_room [OF l]
      by (simp add: str_byte_def posrelat_def Let_def del: upt_Suc)
  qed
  then show "\<exists>cs. str_byte used s (Some 1) (Some (- 1)) = Inr cs \<and> str_char cs = Inr s"
    using add_chars [of 1 s "[]"] by (simp add: str_char_def del: upt_Suc)
next
  assume "\<not> (0 \<le> c \<and> c < 256)"
  from add_chars_error [OF this, of 1 s cs "[]"]
  show "str_char (map uint s @ c # cs) = Inl (ArgError (Suc (length s)) ''value out of range'')"
    by (simp add: str_char_def del: upt_Suc)
qed

lemma char_byte_witness:
  "str_char [76, 117, 256] = Inl (ArgError 3 ''value out of range'') \<and>
   (\<exists>cs. str_byte 3 [76, 117] (Some 1) (Some (- 1)) = Inr cs \<and> str_char cs = Inr [76, 117])"
  using char_byte [of 3 "[76, 117]" 256 "[]"]
  by (simp add: lua_checkstack_def LUAI_MAXSTACK_def EXTRA_STACK_def LUA_MINSTACK_def)

text \<open>
  \<open>string.rep\<close> repeats within the limit: the result is \<open>n\<close> copies with the separator between
  them if copies and separators together stay within \<open>MAXSIZE\<close>, empty if \<open>n\<close> is not positive,
  and an error otherwise; it never has more than \<open>MAXSIZE\<close> bytes.
\<close>

theorem rep_bounded:
  assumes "length s + length sep < 2 ^ 64"
  shows "str_rep s n sep =
      (if n \<le> 0 then Inr []
       else if n * int (length s + length sep) \<le> int MAXSIZE then Inr (concat (replicate (nat (n - 1)) (s @ sep)) @ s)
       else Inl (RunError ''resulting string too large'')) \<and>
    (\<forall>r. str_rep s n sep = Inr r \<longrightarrow> length r \<le> MAXSIZE)"
proof -
  have iff: "MAXSIZE div nat n < length s + length sep \<longleftrightarrow> \<not> n * int (length s + length sep) \<le> int MAXSIZE" if "0 < n"
  proof -
    have "MAXSIZE div nat n < length s + length sep \<longleftrightarrow> \<not> (length s + length sep) * nat n \<le> MAXSIZE"
      using that by (simp add: less_eq_div_iff_mult_less_eq flip: not_le)
    also have "(length s + length sep) * nat n \<le> MAXSIZE \<longleftrightarrow> int ((length s + length sep) * nat n) \<le> int MAXSIZE"
      by (simp only: of_nat_le_iff)
    also have "int ((length s + length sep) * nat n) = n * int (length s + length sep)" using that by simp
    finally show ?thesis .
  qed
  have rep: "str_rep s n sep =
      (if n \<le> 0 then Inr []
       else if n * int (length s + length sep) \<le> int MAXSIZE then Inr (concat (replicate (nat (n - 1)) (s @ sep)) @ s)
       else Inl (RunError ''resulting string too large''))"
    unfolding str_rep_def Let_def rep_loop_concat using assms iff by (simp only: mod_less if_False not_less) simp
  have "length (concat (replicate (nat (n - 1)) (s @ sep)) @ s) \<le> MAXSIZE"
    if "0 < n" "n * int (length s + length sep) \<le> int MAXSIZE"
  proof -
    have "length (concat (replicate (nat (n - 1)) (s @ sep)) @ s) \<le> (nat (n - 1) + 1) * (length s + length sep)"
      by (simp add: length_concat sum_list_replicate add_mult_distrib)
    also have "nat (n - 1) + 1 = nat n" using that(1) by simp
    also have "int (nat n * (length s + length sep)) = n * int (length s + length sep)" using that(1) by simp
    then have "nat n * (length s + length sep) \<le> MAXSIZE" using that(2) by (simp only: of_nat_le_iff [symmetric])
    finally show ?thesis .
  qed
  then show ?thesis using rep by (auto split: if_splits)
qed

lemma rep_bounded_witness: "str_rep [1, 2] 3 [0] = Inr [1, 2, 0, 1, 2, 0, 1, 2]"
proof -
  have "concat (replicate 2 xs) = xs @ (xs :: byte list)" for xs by (simp add: numeral_2_eq_2)
  then show ?thesis using rep_bounded [of "[1, 2]" "[0]" 3] by simp
qed

end
