(* ===== verification/Lua_Match.thy ===== *)
theory Lua_Match
  imports Lua_Str
begin

text \<open>
  The pattern matching of \<open>lstrlib.c\<close>.  Pointers into the subject and the pattern are offsets;
  every read is \<open>byte_at\<close>, which knows the zero byte behind a string and faults beyond it.  The
  input of a match and its captures, one \<open>MatchState\<close> in the code, are apart here because only
  the captures change; the entries of the capture array in use are a list, whose length is
  \<open>level\<close> (no entry at or above \<open>level\<close> is ever read).
\<close>

section \<open>Characters\<close>

abbreviation ch :: "char \<Rightarrow> byte" where "ch c \<equiv> of_char c"

definition L_ESC :: byte where "L_ESC = ch CHR ''%''"

definition SPECIALS :: "byte list" where "SPECIALS = map of_char ''^$*+?.([%-''"

text \<open>The classes of \<open>ctype.h\<close> in the C locale.\<close>

definition isupper :: "byte \<Rightarrow> bool" where "isupper c \<longleftrightarrow> 65 \<le> c \<and> c \<le> 90"
definition islower :: "byte \<Rightarrow> bool" where "islower c \<longleftrightarrow> 97 \<le> c \<and> c \<le> 122"
definition isalpha :: "byte \<Rightarrow> bool" where "isalpha c \<longleftrightarrow> isupper c \<or> islower c"
definition isdigit :: "byte \<Rightarrow> bool" where "isdigit c \<longleftrightarrow> 48 \<le> c \<and> c \<le> 57"
definition isalnum :: "byte \<Rightarrow> bool" where "isalnum c \<longleftrightarrow> isalpha c \<or> isdigit c"
definition iscntrl :: "byte \<Rightarrow> bool" where "iscntrl c \<longleftrightarrow> c < 32 \<or> c = 127"
definition isgraph :: "byte \<Rightarrow> bool" where "isgraph c \<longleftrightarrow> 33 \<le> c \<and> c \<le> 126"
definition ispunct :: "byte \<Rightarrow> bool" where "ispunct c \<longleftrightarrow> isgraph c \<and> \<not> isalnum c"
definition isspace :: "byte \<Rightarrow> bool" where "isspace c \<longleftrightarrow> c = 32 \<or> 9 \<le> c \<and> c \<le> 13"
definition isxdigit :: "byte \<Rightarrow> bool" where
  "isxdigit c \<longleftrightarrow> isdigit c \<or> 65 \<le> c \<and> c \<le> 70 \<or> 97 \<le> c \<and> c \<le> 102"

section \<open>The match state\<close>

definition CAP_UNFINISHED :: int where "CAP_UNFINISHED = - 1"
definition CAP_POSITION :: int where "CAP_POSITION = - 2"
definition LUA_MAXCAPTURES :: nat where "LUA_MAXCAPTURES = 32"
definition MAXCCALLS :: nat where "MAXCCALLS = 200"

record minput =
  mi_src :: "byte list"
  mi_pat :: "byte list"

type_synonym caps = "(nat \<times> int) list"   \<comment> \<open>\<open>init\<close> and \<open>len\<close>\<close>
type_synonym matcher = "caps \<Rightarrow> nat \<Rightarrow> nat \<Rightarrow> (nat option \<times> caps) res"

text \<open>The argument of \<open>check_capture\<close> is the character of the index.\<close>

definition check_capture :: "caps \<Rightarrow> byte \<Rightarrow> nat res" where
  "check_capture c l =
     (let l = uint l - uint (ch CHR ''1'') in
      if l < 0 \<or> int (length c) \<le> l \<or> snd (c ! nat l) = CAP_UNFINISHED
      then Inl (RunError ''invalid capture index'') else Inr (nat l))"

fun close_loop :: "caps \<Rightarrow> nat \<Rightarrow> nat res" where
  "close_loop c 0 = Inl (RunError ''invalid pattern capture'')"
| "close_loop c (Suc level) = (if snd (c ! level) = CAP_UNFINISHED then Inr level else close_loop c level)"

definition capture_to_close :: "caps \<Rightarrow> nat res" where
  "capture_to_close c = close_loop c (length c)"

section \<open>Single characters\<close>

function classend_loop :: "byte list \<Rightarrow> nat \<Rightarrow> nat res" where
  "classend_loop pat p =
     (if p = length pat then Inl (RunError ''malformed pattern (missing ]'')
      else ebind (byte_at pat p) (\<lambda>c.
           let p = p + 1;
               p = (if c = L_ESC \<and> p < length pat then p + 1 else p) in
           ebind (byte_at pat p) (\<lambda>c. if c \<noteq> ch CHR '']'' then classend_loop pat p else Inr (p + 1))))"
  by pat_completeness auto
termination
  by (relation "measure (\<lambda>(pat, p). length pat - p)") (auto simp: byte_at_def split: if_splits)

declare classend_loop.simps [simp del]

definition classend :: "byte list \<Rightarrow> nat \<Rightarrow> nat res" where
  "classend pat p =
     ebind (byte_at pat p) (\<lambda>c.
     let p = p + 1 in
     if c = L_ESC then
       if p = length pat then Inl (RunError ''malformed pattern (ends with %)'') else Inr (p + 1)
     else if c = ch CHR ''['' then
       ebind (byte_at pat p) (\<lambda>c. classend_loop pat (if c = ch CHR ''^'' then p + 1 else p))
     else Inr p)"

definition match_class :: "byte \<Rightarrow> byte \<Rightarrow> bool" where
  "match_class c cl =
     (let t = tolower cl;
          sense = (\<lambda>res. if islower cl then res else \<not> res)
      in if t = ch CHR ''a'' then sense (isalpha c)
         else if t = ch CHR ''c'' then sense (iscntrl c)
         else if t = ch CHR ''d'' then sense (isdigit c)
         else if t = ch CHR ''g'' then sense (isgraph c)
         else if t = ch CHR ''l'' then sense (islower c)
         else if t = ch CHR ''p'' then sense (ispunct c)
         else if t = ch CHR ''s'' then sense (isspace c)
         else if t = ch CHR ''u'' then sense (isupper c)
         else if t = ch CHR ''w'' then sense (isalnum c)
         else if t = ch CHR ''x'' then sense (isxdigit c)
         else if t = ch CHR ''z'' then sense (c = 0)
         else cl = c)"

text \<open>The loop of \<open>matchbracketclass\<close>; \<open>ec\<close> is the closing bracket.\<close>

function bracket_loop :: "byte \<Rightarrow> byte list \<Rightarrow> bool \<Rightarrow> nat \<Rightarrow> nat \<Rightarrow> bool res" where
  "bracket_loop c pat sig p ec =
     (let p = p + 1 in
      if p < ec then
        ebind (byte_at pat p) (\<lambda>b.
        if b = L_ESC then
          ebind (byte_at pat (p + 1)) (\<lambda>cl. if match_class c cl then Inr sig else bracket_loop c pat sig (p + 1) ec)
        else ebind (byte_at pat (p + 1)) (\<lambda>d.
          if d = ch CHR ''-'' \<and> p + 2 < ec then
            ebind (byte_at pat (p + 2)) (\<lambda>hi. if b \<le> c \<and> c \<le> hi then Inr sig else bracket_loop c pat sig (p + 2) ec)
          else if b = c then Inr sig else bracket_loop c pat sig p ec))
      else Inr (\<not> sig))"
  by pat_completeness auto
termination
  by (relation "measure (\<lambda>(c, pat, sig, p, ec). ec - p)") auto

declare bracket_loop.simps [simp del]

definition matchbracketclass :: "byte \<Rightarrow> byte list \<Rightarrow> nat \<Rightarrow> nat \<Rightarrow> bool res" where
  "matchbracketclass c pat p ec =
     ebind (byte_at pat (p + 1)) (\<lambda>d.
     if d = ch CHR ''^'' then bracket_loop c pat False (p + 1) ec else bracket_loop c pat True p ec)"

definition singlematch :: "minput \<Rightarrow> nat \<Rightarrow> nat \<Rightarrow> nat \<Rightarrow> bool res" where
  "singlematch M s p ep =
     (if length (mi_src M) \<le> s then Inr False
      else ebind (byte_at (mi_src M) s) (\<lambda>c.
           ebind (byte_at (mi_pat M) p) (\<lambda>b.
           if b = ch CHR ''.'' then Inr True
           else if b = L_ESC then ebind (byte_at (mi_pat M) (p + 1)) (\<lambda>cl. Inr (match_class c cl))
           else if b = ch CHR ''['' then matchbracketclass c (mi_pat M) p (ep - 1)
           else Inr (b = c))))"

lemma singlematch_inside: "singlematch M s p ep = Inr True \<Longrightarrow> s < length (mi_src M)"
  by (auto simp: singlematch_def split: if_splits)

section \<open>Items\<close>

text \<open>\<open>matchbalance\<close> and its loop, which counts open brackets.\<close>

function balance_loop :: "byte list \<Rightarrow> byte \<Rightarrow> byte \<Rightarrow> nat \<Rightarrow> nat \<Rightarrow> nat option res" where
  "balance_loop src b e cont s =
     (let s = s + 1 in
      if s < length src then
        ebind (byte_at src s) (\<lambda>c.
        if c = e then if cont - 1 = 0 then Inr (Some (s + 1)) else balance_loop src b e (cont - 1) s
        else balance_loop src b e (if c = b then cont + 1 else cont) s)
      else Inr None)"
  by pat_completeness auto
termination
  by (relation "measure (\<lambda>(src, b, e, cont, s). length src - s)") auto

declare balance_loop.simps [simp del]

definition matchbalance :: "minput \<Rightarrow> nat \<Rightarrow> nat \<Rightarrow> nat option res" where
  "matchbalance M s p =
     (if length (mi_pat M) \<le> p + 1 then Inl (RunError ''malformed pattern (missing arguments to %b)'')
      else ebind (byte_at (mi_src M) s) (\<lambda>c.
           ebind (byte_at (mi_pat M) p) (\<lambda>b.
           if c \<noteq> b then Inr None
           else ebind (byte_at (mi_pat M) (p + 1)) (\<lambda>e. balance_loop (mi_src M) b e 1 s))))"

text \<open>\<open>max_expand\<close>: count the repetitions, then try from the most to none.\<close>

function count_single :: "minput \<Rightarrow> nat \<Rightarrow> nat \<Rightarrow> nat \<Rightarrow> nat res" where
  "count_single M s p ep =
     ebind (singlematch M s p ep) (\<lambda>b.
     if b then ebind (count_single M (s + 1) p ep) (\<lambda>i. Inr (i + 1)) else Inr 0)"
  by pat_completeness auto
termination
  by (relation "measure (\<lambda>(M, s, p, ep). length (mi_src M) - s)")
    (auto intro!: diff_less_mono2 singlematch_inside)

declare count_single.simps [simp del]

primrec try_down :: "matcher \<Rightarrow> caps \<Rightarrow> nat \<Rightarrow> nat \<Rightarrow> nat \<Rightarrow> (nat option \<times> caps) res" where
  "try_down rec c s ep 0 = rec c s (ep + 1)"
| "try_down rec c s ep (Suc i) =
     ebind (rec c (s + Suc i) (ep + 1)) (\<lambda>(res, c).
     if res \<noteq> None then Inr (res, c) else try_down rec c s ep i)"

definition max_expand :: "minput \<Rightarrow> matcher \<Rightarrow> caps \<Rightarrow> nat \<Rightarrow> nat \<Rightarrow> nat \<Rightarrow> (nat option \<times> caps) res" where
  "max_expand M rec c s p ep = ebind (count_single M s p ep) (\<lambda>i. try_down rec c s ep i)"

function min_expand :: "minput \<Rightarrow> matcher \<Rightarrow> caps \<Rightarrow> nat \<Rightarrow> nat \<Rightarrow> nat \<Rightarrow> (nat option \<times> caps) res" where
  "min_expand M rec c s p ep =
     ebind (rec c s (ep + 1)) (\<lambda>(res, c).
     if res \<noteq> None then Inr (res, c)
     else ebind (singlematch M s p ep) (\<lambda>b. if b then min_expand M rec c (s + 1) p ep else Inr (None, c)))"
  by pat_completeness auto
termination
  by (relation "measure (\<lambda>(M, rec, c, s, p, ep). length (mi_src M) - s)")
    (auto intro!: diff_less_mono2 singlematch_inside)

declare min_expand.simps [simp del]

definition start_capture :: "matcher \<Rightarrow> caps \<Rightarrow> nat \<Rightarrow> nat \<Rightarrow> int \<Rightarrow> (nat option \<times> caps) res" where
  "start_capture rec c s p what =
     (if LUA_MAXCAPTURES \<le> length c then Inl (RunError ''too many captures'')
      else ebind (rec (c @ [(s, what)]) s p) (\<lambda>(res, c).
           Inr (res, if res = None then butlast c else c)))"

definition end_capture :: "matcher \<Rightarrow> caps \<Rightarrow> nat \<Rightarrow> nat \<Rightarrow> (nat option \<times> caps) res" where
  "end_capture rec c s p =
     ebind (capture_to_close c) (\<lambda>l.
     let init = fst (c ! l) in
     ebind (rec (c[l := (init, int s - int init)]) s p) (\<lambda>(res, c).
     Inr (res, if res = None then c[l := (fst (c ! l), CAP_UNFINISHED)] else c)))"

text \<open>The comparison in \<open>match_capture\<close> reads the captured bytes; a length is a \<open>size_t\<close>.\<close>

definition match_capture :: "minput \<Rightarrow> caps \<Rightarrow> nat \<Rightarrow> byte \<Rightarrow> nat option res" where
  "match_capture M c s l =
     ebind (check_capture c l) (\<lambda>l.
     let src = mi_src M; len = nat (snd (c ! l) mod 2 ^ 64); init = fst (c ! l) in
     if len \<le> length src - s then
       if length src < init + len then Inl (MemFault ''capture outside the subject'')
       else Inr (if take len (drop init src) = take len (drop s src) then Some (s + len) else None)
     else Inr None)"

section \<open>The matcher\<close>

text \<open>One round of \<open>match\<close>, up to a result or a \<open>goto init\<close>.\<close>

datatype jump = Done "nat option" caps | Goto nat nat caps

definition finish :: "nat option \<times> caps \<Rightarrow> jump res" where
  "finish = (\<lambda>(res, c). Inr (Done res c))"

definition match_dflt :: "minput \<Rightarrow> matcher \<Rightarrow> caps \<Rightarrow> nat \<Rightarrow> nat \<Rightarrow> jump res" where
  "match_dflt M rec c s p =
     ebind (classend (mi_pat M) p) (\<lambda>ep.
     ebind (singlematch M s p ep) (\<lambda>m.
     ebind (byte_at (mi_pat M) ep) (\<lambda>x.
     if \<not> m then
       if x = ch CHR ''*'' \<or> x = ch CHR ''?'' \<or> x = ch CHR ''-'' then Inr (Goto s (ep + 1) c)
       else Inr (Done None c)
     else if x = ch CHR ''?'' then
       ebind (rec c (s + 1) (ep + 1)) (\<lambda>(res, c).
       if res \<noteq> None then Inr (Done res c) else Inr (Goto s (ep + 1) c))
     else if x = ch CHR ''+'' then ebind (max_expand M rec c (s + 1) p ep) finish
     else if x = ch CHR ''*'' then ebind (max_expand M rec c s p ep) finish
     else if x = ch CHR ''-'' then ebind (min_expand M rec c s p ep) finish
     else Inr (Goto (s + 1) ep c))))"

definition match_frontier :: "minput \<Rightarrow> caps \<Rightarrow> nat \<Rightarrow> nat \<Rightarrow> jump res" where
  "match_frontier M c s p =
     ebind (byte_at (mi_pat M) p) (\<lambda>x.
     if x \<noteq> ch CHR ''['' then Inl (RunError ''missing [ after %f in pattern'')
     else ebind (classend (mi_pat M) p) (\<lambda>ep.
          ebind (if s = 0 then Inr 0 else byte_at (mi_src M) (s - 1)) (\<lambda>previous.
          ebind (matchbracketclass previous (mi_pat M) p (ep - 1)) (\<lambda>before.
          if before then Inr (Done None c)
          else ebind (byte_at (mi_src M) s) (\<lambda>here.
               ebind (matchbracketclass here (mi_pat M) p (ep - 1)) (\<lambda>after.
               Inr (if after then Goto s ep c else Done None c)))))))"

definition match_once :: "minput \<Rightarrow> matcher \<Rightarrow> caps \<Rightarrow> nat \<Rightarrow> nat \<Rightarrow> jump res" where
  "match_once M rec c s p =
     ebind (byte_at (mi_pat M) p) (\<lambda>x.
     if x = ch CHR ''('' then
       ebind (byte_at (mi_pat M) (p + 1)) (\<lambda>y.
       ebind (if y = ch CHR '')'' then start_capture rec c s (p + 2) CAP_POSITION
              else start_capture rec c s (p + 1) CAP_UNFINISHED) finish)
     else if x = ch CHR '')'' then ebind (end_capture rec c s (p + 1)) finish
     else if x = ch CHR ''$'' \<and> p + 1 = length (mi_pat M) then
       Inr (Done (if s = length (mi_src M) then Some s else None) c)
     else if x = L_ESC then
       ebind (byte_at (mi_pat M) (p + 1)) (\<lambda>y.
       if y = ch CHR ''b'' then
         ebind (matchbalance M s (p + 2)) (\<lambda>r.
         Inr (case r of Some s \<Rightarrow> Goto s (p + 4) c | None \<Rightarrow> Done None c))
       else if y = ch CHR ''f'' then match_frontier M c s (p + 2)
       else if isdigit y then
         ebind (match_capture M c s y) (\<lambda>r.
         Inr (case r of Some s \<Rightarrow> Goto s (p + 2) c | None \<Rightarrow> Done None c))
       else match_dflt M rec c s p)
     else match_dflt M rec c s p)"

section \<open>Termination\<close>

text \<open>The errors of a malformed pattern.\<close>

definition run_error :: "lua_error \<Rightarrow> bool" where
  "run_error e \<longleftrightarrow> (\<exists>msg. e = RunError msg)"

lemma run_error_simps [simp]: "run_error (RunError msg)"
  by (simp add: run_error_def)

lemma wp_byte_at: "i \<le> length s \<Longrightarrow> wp (byte_at s i) E (\<lambda>b. (i < length s \<longrightarrow> b = s ! i) \<and> (i = length s \<longrightarrow> b = 0))"
  by (simp add: byte_at_def)

lemma ch_nonzero: "ch CHR ''['' \<noteq> 0" "ch CHR '']'' \<noteq> 0" "ch CHR ''('' \<noteq> 0" "ch CHR '')'' \<noteq> 0" "L_ESC \<noteq> 0"
  "ch CHR ''*'' \<noteq> 0" "ch CHR ''?'' \<noteq> 0" "ch CHR ''-'' \<noteq> 0" "ch CHR ''+'' \<noteq> 0" "ch CHR ''b'' \<noteq> 0" "ch CHR ''f'' \<noteq> 0"
  by (simp_all add: L_ESC_def)

lemma classend_loop_wp:
  "p \<le> length pat \<Longrightarrow> wp (classend_loop pat p) run_error (\<lambda>ep. p < ep \<and> ep \<le> length pat)"
proof (induction pat p rule: classend_loop.induct)
  case (1 pat p)
  show ?case
  proof (subst classend_loop.simps, rule wp_if)
    assume n: "p \<noteq> length pat"
    then have p: "p < length pat" using "1.prems" by simp
    show "wp (ebind (byte_at pat p) (\<lambda>c. let p = p + 1; p = if c = L_ESC \<and> p < length pat then p + 1 else p
        in ebind (byte_at pat p) (\<lambda>c. if c \<noteq> ch CHR '']'' then classend_loop pat p else Inr (p + 1))))
      run_error (\<lambda>ep. p < ep \<and> ep \<le> length pat)"
      unfolding Let_def
    proof (rule wp_bind [OF wp_byte_at [OF "1.prems"]])
      fix c assume c: "byte_at pat p = Inr c"
      let ?q = "if c = L_ESC \<and> p + 1 < length pat then p + 1 + 1 else p + 1"
      have q: "?q \<le> length pat" "p < ?q" using p by simp_all
      show "wp (ebind (byte_at pat ?q) (\<lambda>c. if c \<noteq> ch CHR '']'' then classend_loop pat ?q else Inr (?q + 1)))
        run_error (\<lambda>ep. p < ep \<and> ep \<le> length pat)"
      proof (rule wp_bind [OF wp_byte_at [OF q(1)]], rule wp_if)
        fix d assume d: "byte_at pat ?q = Inr d" "d \<noteq> ch CHR '']''"
        show "wp (classend_loop pat ?q) run_error (\<lambda>ep. p < ep \<and> ep \<le> length pat)"
          by (rule wp_mono [OF "1.IH" [OF n c refl refl d q(1)]]) (use q in auto)
      next
        fix d assume d: "(?q < length pat \<longrightarrow> d = pat ! ?q) \<and> (?q = length pat \<longrightarrow> d = 0)" "\<not> d \<noteq> ch CHR '']''"
        then have "?q \<noteq> length pat" using ch_nonzero(2) by metis
        then show "wp (Inr (?q + 1)) run_error (\<lambda>ep. p < ep \<and> ep \<le> length pat)" using q by (simp split: if_splits)
      qed
    qed
  qed simp
qed

lemma classend_wp:
  assumes "p < length pat"
  shows "wp (classend pat p) run_error (\<lambda>ep. p < ep \<and> ep \<le> length pat)"
proof -
  have p: "p \<le> length pat" "p + 1 \<le> length pat" using assms by simp_all
  show ?thesis
    unfolding classend_def Let_def
  proof (rule wp_bind [OF wp_byte_at [OF p(1)]], intro wp_if)
    fix c
    show "wp (ebind (byte_at pat (p + 1)) (\<lambda>c. classend_loop pat (if c = ch CHR ''^'' then p + 1 + 1 else p + 1)))
      run_error (\<lambda>ep. p < ep \<and> ep \<le> length pat)"
    proof (rule wp_bind [OF wp_byte_at [OF p(2)]])
      fix d assume d: "(p + 1 < length pat \<longrightarrow> d = pat ! (p + 1)) \<and> (p + 1 = length pat \<longrightarrow> d = 0)"
      let ?q = "if d = ch CHR ''^'' then p + 1 + 1 else p + 1"
      have "?q \<le> length pat" using p(2) d by auto
      then show "wp (classend_loop pat ?q) run_error (\<lambda>ep. p < ep \<and> ep \<le> length pat)"
        by (rule wp_mono [OF classend_loop_wp]) (auto split: if_splits)
    qed
  qed (use assms in auto)
qed

lemma byte_at_inside: "byte_at pat p = Inr x \<Longrightarrow> x \<noteq> 0 \<Longrightarrow> p < length pat"
  by (auto simp: byte_at_def split: if_splits)

definition moves_on :: "nat \<Rightarrow> jump \<Rightarrow> bool" where
  "moves_on p j \<longleftrightarrow> (case j of Goto s' p' c' \<Rightarrow> p < p' | Done res c' \<Rightarrow> True)"

lemma moves_on_simps [simp]: "moves_on p (Goto s' p' c') \<longleftrightarrow> p < p'" "moves_on p (Done res c')"
  by (simp_all add: moves_on_def)

lemma classend_moves: "p < length pat \<Longrightarrow> wp (classend pat p) (\<lambda>e. True) (\<lambda>ep. p < ep)"
  using classend_wp [of p pat] by (cases "classend pat p") auto

lemma match_dflt_moves:
  assumes "p < length (mi_pat M)"
  shows "wp (match_dflt M rec c s p) (\<lambda>e. True) (moves_on p)"
  unfolding match_dflt_def finish_def
  by (rule wp_ebind [OF classend_moves [OF assms]], intro wp_ebind_any wp_if wp_prod) simp_all

lemma match_frontier_moves: "wp (match_frontier M c s p) (\<lambda>e. True) (moves_on p)"
proof (cases "byte_at (mi_pat M) p = Inr (ch CHR ''['')")
  case True
  then have "p < length (mi_pat M)" using byte_at_inside ch_nonzero(1) by blast
  note cl = classend_moves [OF this]
  show ?thesis
    unfolding match_frontier_def True ebind_Inr
    by (rule wp_if, simp, rule wp_ebind [OF cl], intro wp_ebind_any wp_if) simp_all
next
  case False
  then show ?thesis by (cases "byte_at (mi_pat M) p") (auto simp: match_frontier_def)
qed

lemma match_once_moves:
  assumes "p < length (mi_pat M)"
  shows "wp (match_once M rec c s p) (\<lambda>e. True) (moves_on p)"
proof -
  have f: "wp (match_frontier M c s (p + 2)) (\<lambda>e. True) (moves_on p)"
    by (rule wp_mono [OF match_frontier_moves]) (auto simp: moves_on_def split: jump.splits)
  show ?thesis
    unfolding match_once_def finish_def
    by (rule wp_ebind_any, intro wp_if f match_dflt_moves [OF assms] wp_ebind_any wp_prod)
      (auto split: option.split)
qed

section \<open>The loop and the recursion\<close>

function match_loop :: "minput \<Rightarrow> matcher \<Rightarrow> matcher" where
  "match_loop M rec c s p =
     (if p = length (mi_pat M) then Inr (Some s, c)
      else ebind (match_once M rec c s p) (\<lambda>j. case j of
             Done res c \<Rightarrow> Inr (res, c)
           | Goto s p c \<Rightarrow> match_loop M rec c s p))"
  by pat_completeness auto
termination
proof (relation "measure (\<lambda>(M, rec, c, s, p). length (mi_pat M) - p)", simp)
  fix M rec c s p j s' p' c'
  assume p: "p \<noteq> length (mi_pat M)" and j: "match_once M rec c s p = Inr j" "j = Goto s' p' c'"
  have "p \<le> length (mi_pat M)"
    using j(1) by (auto simp: match_once_def byte_at_def split: if_splits)
  then have l: "p < length (mi_pat M)" using p by simp
  from wp_value [OF match_once_moves [OF l] j(1)] have "p < p'" using j(2) by simp
  then show "((M, rec, c', s', p'), (M, rec, c, s, p)) \<in> measure (\<lambda>(M, rec, c, s, p). length (mi_pat M) - p)"
    using l by simp
qed

declare match_loop.simps [simp del]

text \<open>\<open>match\<close>; the first argument is \<open>matchdepth\<close>.\<close>

primrec do_match :: "nat \<Rightarrow> minput \<Rightarrow> matcher" where
  "do_match 0 M c s p = Inl (RunError ''pattern too complex'')"
| "do_match (Suc d) M c s p = match_loop M (do_match d M) c s p"

end
