(* ===== verification/Lua_Find.thy ===== *)
theory Lua_Find
  imports Lua_Match
begin

text \<open>
  The functions of \<open>lstrlib.c\<close> that use the matcher: find, match, gmatch and gsub.  The stack is
  taken to have room for the captures, 32 at most (\<open>luaL_checkstack\<close> in \<open>push_captures\<close>).
\<close>

section \<open>Plain search\<close>

text \<open>
  \<open>memchr\<close>, and the loop of \<open>lmemfind\<close>: \<open>l1\<close> is the number of positions left to try in \<open>s1\<close>,
  \<open>off\<close> how far \<open>s1\<close> has moved.
\<close>

definition memchr :: "byte list \<Rightarrow> byte \<Rightarrow> nat \<Rightarrow> nat option" where
  "memchr s c n = List.find (\<lambda>k. s ! k = c) [0..<n]"

lemma memchr_SomeD: "memchr s c n = Some k \<Longrightarrow> k < n \<and> s ! k = c \<and> (\<forall>i < k. s ! i \<noteq> c)"
  by (auto simp: memchr_def find_Some_iff)

function lmemfind_loop :: "byte list \<Rightarrow> nat \<Rightarrow> byte list \<Rightarrow> nat \<Rightarrow> nat option" where
  "lmemfind_loop s1 l1 s2 off =
     (if 0 < l1 then
        case memchr s1 (hd s2) l1 of
          None \<Rightarrow> None
        | Some k \<Rightarrow>
            if take (length s2 - 1) (drop (k + 1) s1) = tl s2 then Some (off + k)
            else lmemfind_loop (drop (k + 1) s1) (l1 - (k + 1)) s2 (off + k + 1)
      else None)"
  by pat_completeness auto
termination
  by (relation "measure (\<lambda>(s1, l1, s2, off). l1)") auto

declare lmemfind_loop.simps [simp del]

definition lmemfind :: "byte list \<Rightarrow> byte list \<Rightarrow> nat option" where
  "lmemfind s1 s2 =
     (if length s2 = 0 then Some 0
      else if length s1 < length s2 then None
      else lmemfind_loop s1 (length s1 - (length s2 - 1)) s2 0)"

text \<open>\<open>strlen\<close> and \<open>strpbrk\<close> see a string up to its first zero byte.\<close>

definition c_string :: "byte list \<Rightarrow> nat \<Rightarrow> byte list" where
  "c_string p k = takeWhile (\<lambda>b. b \<noteq> 0) (drop k p)"

function nospecials_loop :: "byte list \<Rightarrow> nat \<Rightarrow> bool" where
  "nospecials_loop p k =
     (if \<exists>b \<in> set (c_string p k). b \<in> set SPECIALS then False
      else let k = k + (length (c_string p k) + 1) in
           if k \<le> length p then nospecials_loop p k else True)"
  by pat_completeness auto
termination
  by (relation "measure (\<lambda>(p, k). Suc (length p) - k)") auto

declare nospecials_loop.simps [simp del]

definition nospecials :: "byte list \<Rightarrow> bool" where
  "nospecials p = nospecials_loop p 0"

section \<open>Captures as results\<close>

datatype capval = CapInt int | CapStr "byte list"

text \<open>The whole match is \<open>None\<close> where the code passes a null pointer.\<close>

definition push_onecapture :: "minput \<Rightarrow> caps \<Rightarrow> nat \<Rightarrow> (nat \<times> nat) option \<Rightarrow> capval res" where
  "push_onecapture M c i whole =
     (if length c \<le> i then
        if i = 0 then case whole of
            None \<Rightarrow> Inl (MemFault ''no match'')
          | Some (s, e) \<Rightarrow> Inr (CapStr (take (e - s) (drop s (mi_src M))))
        else Inl (RunError ''invalid capture index'')
      else let (init, l) = c ! i in
        if l = CAP_UNFINISHED then Inl (RunError ''unfinished capture'')
        else if l = CAP_POSITION then Inr (CapInt (int init + 1))
        else if length (mi_src M) < init + nat l then Inl (MemFault ''capture outside the subject'')
        else Inr (CapStr (take (nat l) (drop init (mi_src M)))))"

definition push_captures :: "minput \<Rightarrow> caps \<Rightarrow> (nat \<times> nat) option \<Rightarrow> capval list res" where
  "push_captures M c whole =
     (let nlevels = (if length c = 0 \<and> whole \<noteq> None then 1 else length c) in
      efold (\<lambda>i vs. ebind (push_onecapture M c i whole) (\<lambda>v. Inr (vs @ [v]))) [0..<nlevels] [])"

section \<open>Find, match, gmatch\<close>

function find_loop :: "minput \<Rightarrow> bool \<Rightarrow> bool \<Rightarrow> nat \<Rightarrow> nat \<Rightarrow> capval list option res" where
  "find_loop M fnd anchor p s1 =
     ebind (do_match MAXCCALLS M [] s1 p) (\<lambda>(res, c). case res of
       Some e \<Rightarrow>
         if fnd then ebind (push_captures M c None) (\<lambda>vs. Inr (Some (CapInt (int s1 + 1) # CapInt (int e) # vs)))
         else ebind (push_captures M c (Some (s1, e))) (\<lambda>vs. Inr (Some vs))
     | None \<Rightarrow> if s1 < length (mi_src M) \<and> \<not> anchor then find_loop M fnd anchor p (s1 + 1) else Inr None)"
  by pat_completeness auto
termination
  by (relation "measure (\<lambda>(M, fnd, anchor, p, s1). length (mi_src M) - s1)") auto

declare find_loop.simps [simp del]

definition str_find_aux :: "byte list \<Rightarrow> byte list \<Rightarrow> int option \<Rightarrow> bool \<Rightarrow> bool \<Rightarrow> capval list option res" where
  "str_find_aux s p init plain fnd =
     (let ls = length s; lp = length p;
          init = posrelat (optint init 1) ls;
          init = (if init < 1 then 1 else init)
      in if int ls + 1 < init then Inr None
         else if fnd \<and> (plain \<or> nospecials p) then
           Inr (case lmemfind (drop (nat init - 1) s) p of
                  None \<Rightarrow> None
                | Some k \<Rightarrow> Some [CapInt (init + int k), CapInt (init - 1 + int k + int lp)])
         else ebind (byte_at p 0) (\<lambda>x.
              let anchor = (x = ch CHR ''^'') in
              find_loop \<lparr>mi_src = s, mi_pat = p\<rparr> fnd anchor (if anchor then 1 else 0) (nat init - 1)))"

definition str_find :: "byte list \<Rightarrow> byte list \<Rightarrow> int option \<Rightarrow> bool \<Rightarrow> capval list option res" where
  "str_find s p init plain = str_find_aux s p init plain True"

definition str_match :: "byte list \<Rightarrow> byte list \<Rightarrow> int option \<Rightarrow> capval list option res" where
  "str_match s p init = str_find_aux s p init False False"

text \<open>One call of the iterator: the captures and the new start, which is its third upvalue.\<close>

function gmatch_loop :: "minput \<Rightarrow> nat \<Rightarrow> (capval list \<times> nat) option res" where
  "gmatch_loop M src =
     (if length (mi_src M) < src then Inr None
      else ebind (do_match MAXCCALLS M [] src 0) (\<lambda>(res, c). case res of
             Some e \<Rightarrow>
               let newstart = (if e = src then e + 1 else e) in
               ebind (push_captures M c (Some (src, e))) (\<lambda>vs. Inr (Some (vs, newstart)))
           | None \<Rightarrow> gmatch_loop M (src + 1)))"
  by pat_completeness auto
termination
  by (relation "measure (\<lambda>(M, src). Suc (length (mi_src M)) - src)") auto

declare gmatch_loop.simps [simp del]

definition gmatch_aux :: "byte list \<Rightarrow> byte list \<Rightarrow> nat \<Rightarrow> (capval list \<times> nat) option res" where
  "gmatch_aux s p start = gmatch_loop \<lparr>mi_src = s, mi_pat = p\<rparr> start"

section \<open>Substitution\<close>

text \<open>
  The result of a call or of a table access, as far as \<open>add_value\<close> looks at it: nil or false,
  a string or number with its text, or another value with its type name.  The function and the
  table are parameters that may change the state \<open>'s\<close> of the program.
\<close>

datatype gval = GFalse | GText "byte list" | GOther string

datatype 's repl =
    ReplStr "byte list"
  | ReplFun "capval list \<Rightarrow> 's \<Rightarrow> (gval \<times> 's) res"
  | ReplTab "capval \<Rightarrow> 's \<Rightarrow> (gval \<times> 's) res"

text \<open>\<open>luaL_tolstring\<close> on a capture; positions are positive.\<close>

fun cap_text :: "capval \<Rightarrow> byte list" where
  "cap_text (CapInt i) = dec_text (nat i)"
| "cap_text (CapStr b) = b"

fun add_s :: "minput \<Rightarrow> caps \<Rightarrow> nat \<Rightarrow> nat \<Rightarrow> byte list \<Rightarrow> byte list \<Rightarrow> byte list res" where
  "add_s M c s e [] b = Inr b"
| "add_s M c s e [x] b =
     (if x \<noteq> L_ESC then Inr (b @ [x]) else Inl (RunError ''invalid use of % in replacement string''))"
| "add_s M c s e (x # y # news) b =
     (if x \<noteq> L_ESC then add_s M c s e (y # news) (b @ [x])
      else if \<not> isdigit y then
        if y \<noteq> L_ESC then Inl (RunError ''invalid use of % in replacement string'')
        else add_s M c s e news (b @ [y])
      else if y = ch CHR ''0'' then add_s M c s e news (b @ take (e - s) (drop s (mi_src M)))
      else ebind (push_onecapture M c (unat y - unat (ch CHR ''1'')) (Some (s, e))) (\<lambda>v.
           add_s M c s e news (b @ cap_text v)))"

definition add_result :: "minput \<Rightarrow> nat \<Rightarrow> nat \<Rightarrow> gval \<Rightarrow> byte list \<Rightarrow> byte list res" where
  "add_result M s e v b = (case v of
     GFalse \<Rightarrow> Inr (b @ take (e - s) (drop s (mi_src M)))
   | GText t \<Rightarrow> Inr (b @ t)
   | GOther name \<Rightarrow> Inl (RunError (''invalid replacement value (a '' @ name @ '')'')))"

definition add_value :: "minput \<Rightarrow> caps \<Rightarrow> nat \<Rightarrow> nat \<Rightarrow> 's repl \<Rightarrow> byte list \<times> 's \<Rightarrow> (byte list \<times> 's) res" where
  "add_value M c s e tr = (\<lambda>(b, st). case tr of
     ReplFun f \<Rightarrow>
       ebind (push_captures M c (Some (s, e))) (\<lambda>vs.
       ebind (f vs st) (\<lambda>(v, st). ebind (add_result M s e v b) (\<lambda>b. Inr (b, st))))
   | ReplTab t \<Rightarrow>
       ebind (push_onecapture M c 0 (Some (s, e))) (\<lambda>v.
       ebind (t v st) (\<lambda>(v, st). ebind (add_result M s e v b) (\<lambda>b. Inr (b, st))))
   | ReplStr news \<Rightarrow> ebind (add_s M c s e news b) (\<lambda>b. Inr (b, st)))"

text \<open>
  One round of the loop of \<open>str_gsub\<close>: whether the loop goes on (the code breaks at the end of the
  subject), the new \<open>src\<close> and count, the buffer and the program's state.
\<close>

definition gsub_round :: "minput \<Rightarrow> nat \<Rightarrow> 's repl \<Rightarrow> nat \<Rightarrow> int \<Rightarrow> byte list \<times> 's \<Rightarrow>
    (bool \<times> nat \<times> int \<times> byte list \<times> 's) res" where
  "gsub_round M p tr src n bst =
     ebind (do_match MAXCCALLS M [] src p) (\<lambda>(res, c).
     ebind (case res of
              Some e \<Rightarrow> ebind (add_value M c src e tr bst) (\<lambda>bst. Inr (n + 1, bst))
            | None \<Rightarrow> Inr (n, bst)) (\<lambda>(n, b, st).
     if res \<noteq> None \<and> src < the res then Inr (True, the res, n, b, st)
     else if src < length (mi_src M) then ebind (byte_at (mi_src M) src) (\<lambda>x. Inr (True, src + 1, n, b @ [x], st))
     else Inr (False, src, n, b, st)))"

text \<open>
  The loop, with fuel: every round but the last moves \<open>src\<close> on, so one more than the length of
  the subject is enough.  The result is the new string and the count.
\<close>

fun gsub_loop :: "nat \<Rightarrow> minput \<Rightarrow> nat \<Rightarrow> bool \<Rightarrow> int \<Rightarrow> 's repl \<Rightarrow> nat \<Rightarrow> int \<Rightarrow> byte list \<times> 's \<Rightarrow>
    ((byte list \<times> int) \<times> 's) res" where
  "gsub_loop 0 M p anchor max_s tr src n bst = Inl NoReturn"
| "gsub_loop (Suc fuel) M p anchor max_s tr src n bst =
     (let stop = (\<lambda>src n (b, st). Inr ((b @ drop src (mi_src M), n), st)) in
      if n < max_s then
        ebind (gsub_round M p tr src n bst) (\<lambda>(go_on, src, n, bst).
        if go_on \<and> \<not> anchor then gsub_loop fuel M p anchor max_s tr src n bst else stop src n bst)
      else stop src n bst)"

definition str_gsub :: "byte list \<Rightarrow> byte list \<Rightarrow> 's repl \<Rightarrow> int option \<Rightarrow> 's \<Rightarrow> ((byte list \<times> int) \<times> 's) res" where
  "str_gsub s p tr max_s st =
     (let max_s = optint max_s (int (length s) + 1) in
      ebind (byte_at p 0) (\<lambda>x.
      let anchor = (x = ch CHR ''^'') in
      gsub_loop (Suc (length s)) \<lparr>mi_src = s, mi_pat = p\<rparr> (if anchor then 1 else 0) anchor max_s tr 0 0 ([], st)))"

end
