(* ===== verification/Lua_Match_Spec.thy ===== *)
theory Lua_Match_Spec
  imports Lua_Find
begin

text \<open>
  What the matcher of \<open>lstrlib.c\<close> promises: no read leaves the subject or the pattern, a result
  lies inside the subject, a failed match gives the captures back as they were.  The contract of
  the recursive calls is a locale; \<open>do_match\<close> meets it at every depth, by induction on the depth.
\<close>

section \<open>The contract\<close>

text \<open>
  A capture starts at or before the current position and ends inside the subject.  The lengths
  are compared as \<open>size_t\<close>, so the subject must be shorter than \<open>2^63\<close>, as any object is.
\<close>

definition cap_ok :: "minput \<Rightarrow> nat \<Rightarrow> nat \<times> int \<Rightarrow> bool" where
  "cap_ok M s = (\<lambda>(init, l). init \<le> s \<and>
     (l = CAP_UNFINISHED \<or> l = CAP_POSITION \<or> 0 \<le> l \<and> init + nat l \<le> length (mi_src M)))"

lemma cap_ok_iff:
  "cap_ok M s x \<longleftrightarrow> fst x \<le> s \<and>
     (snd x = CAP_UNFINISHED \<or> snd x = CAP_POSITION \<or> 0 \<le> snd x \<and> fst x + nat (snd x) \<le> length (mi_src M))"
  by (cases x) (simp add: cap_ok_def)

definition caps_ok :: "minput \<Rightarrow> nat \<Rightarrow> caps \<Rightarrow> bool" where
  "caps_ok M s c \<longleftrightarrow> length c \<le> LUA_MAXCAPTURES \<and> (\<forall>x \<in> set c. cap_ok M s x)"

definition result_ok :: "minput \<Rightarrow> caps \<Rightarrow> nat \<Rightarrow> nat option \<times> caps \<Rightarrow> bool" where
  "result_ok M c s = (\<lambda>(res, c'). case res of
     None \<Rightarrow> c' = c
   | Some e \<Rightarrow> s \<le> e \<and> e \<le> length (mi_src M) \<and> caps_ok M e c')"

definition jump_ok :: "minput \<Rightarrow> caps \<Rightarrow> nat \<Rightarrow> jump \<Rightarrow> bool" where
  "jump_ok M c s j = (case j of
     Done res c' \<Rightarrow> result_ok M c s (res, c')
   | Goto s' p' c' \<Rightarrow> c' = c \<and> s \<le> s' \<and> s' \<le> length (mi_src M) \<and> p' \<le> length (mi_pat M))"

lemma jump_ok_simps [simp]:
  "jump_ok M c s (Done res c') \<longleftrightarrow> result_ok M c s (res, c')"
  "jump_ok M c s (Goto s' p' c') \<longleftrightarrow> c' = c \<and> s \<le> s' \<and> s' \<le> length (mi_src M) \<and> p' \<le> length (mi_pat M)"
  by (simp_all add: jump_ok_def)

lemma result_ok_simps [simp]:
  "result_ok M c s (None, c') \<longleftrightarrow> c' = c"
  "result_ok M c s (Some e, c') \<longleftrightarrow> s \<le> e \<and> e \<le> length (mi_src M) \<and> caps_ok M e c'"
  by (simp_all add: result_ok_def)

lemma caps_ok_mono: "caps_ok M s c \<Longrightarrow> s \<le> s' \<Longrightarrow> caps_ok M s' c"
  by (auto simp: caps_ok_def cap_ok_def)

lemma result_ok_later: "result_ok M c s' r \<Longrightarrow> s \<le> s' \<Longrightarrow> result_ok M c s r"
  by (cases r; cases "fst r") auto

lemma caps_ok_nth: "caps_ok M s c \<Longrightarrow> l < length c \<Longrightarrow> cap_ok M s (c ! l)"
  by (simp add: caps_ok_def)

lemma caps_ok_Nil [simp]: "caps_ok M s []"
  by (simp add: caps_ok_def)

text \<open>The rules for the pieces of the matcher, for sequences of \<open>ebind\<close>.\<close>

named_theorems match_wp

lemma match_wp_if [match_wp]: "(b \<Longrightarrow> wp m E Q) \<Longrightarrow> (\<not> b \<Longrightarrow> wp m' E Q) \<Longrightarrow> wp (if b then m else m') E Q"
  by simp

lemma match_wp_Inr [match_wp]: "Q x \<Longrightarrow> wp (Inr x) E Q"
  by simp

lemma match_wp_error [match_wp]: "wp (Inl (RunError msg)) run_error Q"
  by simp

lemma match_wp_byte_at [match_wp]:
  assumes "i \<le> length s"
    and "\<And>b. i < length s \<Longrightarrow> b = s ! i \<Longrightarrow> wp (f b) E Q"
    and "i = length s \<Longrightarrow> wp (f 0) E Q"
  shows "wp (ebind (byte_at s i) f) E Q"
  using assms by (cases "i < length s") (simp_all add: byte_at_def)

section \<open>Single characters\<close>

lemma bracket_loop_wp:
  "ec < length pat \<Longrightarrow> wp (bracket_loop c pat sig p ec) run_error (\<lambda>b. True)"
proof (induction c pat sig p ec rule: bracket_loop.induct)
  case (1 c pat sig p ec)
  show ?case
  proof (subst bracket_loop.simps, unfold Let_def, rule wp_if)
    assume p: "p + 1 < ec"
    then have reads: "p + 1 \<le> length pat" "p + 1 + 1 \<le> length pat" using "1.prems" by simp_all
    show "wp (ebind (byte_at pat (p + 1)) (\<lambda>b.
        if b = L_ESC then
          ebind (byte_at pat (p + 1 + 1)) (\<lambda>cl. if match_class c cl then Inr sig else bracket_loop c pat sig (p + 1 + 1) ec)
        else ebind (byte_at pat (p + 1 + 1)) (\<lambda>d.
          if d = ch CHR ''-'' \<and> p + 1 + 2 < ec then
            ebind (byte_at pat (p + 1 + 2)) (\<lambda>hi. if b \<le> c \<and> c \<le> hi then Inr sig else bracket_loop c pat sig (p + 1 + 2) ec)
          else if b = c then Inr sig else bracket_loop c pat sig (p + 1) ec)))
      run_error (\<lambda>b. True)"
    proof (rule wp_bind [OF wp_byte_at [OF reads(1)]], rule wp_if)
      fix b assume b: "byte_at pat (p + 1) = Inr b" "b = L_ESC"
      show "wp (ebind (byte_at pat (p + 1 + 1)) (\<lambda>cl.
          if match_class c cl then Inr sig else bracket_loop c pat sig (p + 1 + 1) ec)) run_error (\<lambda>b. True)"
        by (rule wp_bind [OF wp_byte_at [OF reads(2)]], rule wp_if)
          (use "1.IH"(1) [OF refl p b] "1.prems" in simp_all)
    next
      fix b assume b: "byte_at pat (p + 1) = Inr b" "b \<noteq> L_ESC"
      show "wp (ebind (byte_at pat (p + 1 + 1)) (\<lambda>d.
          if d = ch CHR ''-'' \<and> p + 1 + 2 < ec then
            ebind (byte_at pat (p + 1 + 2)) (\<lambda>hi. if b \<le> c \<and> c \<le> hi then Inr sig else bracket_loop c pat sig (p + 1 + 2) ec)
          else if b = c then Inr sig else bracket_loop c pat sig (p + 1) ec)) run_error (\<lambda>b. True)"
      proof (rule wp_bind [OF wp_byte_at [OF reads(2)]], rule wp_if)
        fix d assume d: "byte_at pat (p + 1 + 1) = Inr d" "d = ch CHR ''-'' \<and> p + 1 + 2 < ec"
        then have "p + 1 + 2 \<le> length pat" using "1.prems" by simp
        then show "wp (ebind (byte_at pat (p + 1 + 2)) (\<lambda>hi.
            if b \<le> c \<and> c \<le> hi then Inr sig else bracket_loop c pat sig (p + 1 + 2) ec)) run_error (\<lambda>b. True)"
          by (intro wp_bind [OF wp_byte_at] wp_if) (use "1.IH"(2) [OF refl p b d] "1.prems" in simp_all)
      next
        fix d assume d: "byte_at pat (p + 1 + 1) = Inr d" "\<not> (d = ch CHR ''-'' \<and> p + 1 + 2 < ec)"
        show "wp (if b = c then Inr sig else bracket_loop c pat sig (p + 1) ec) run_error (\<lambda>b. True)"
          by (rule wp_if) (use "1.IH"(3) [OF refl p b d] "1.prems" in simp_all)
      qed
    qed
  qed simp
qed

lemma matchbracketclass_wp:
  assumes "p < length pat" "ec < length pat"
  shows "wp (matchbracketclass c pat p ec) run_error (\<lambda>b. True)"
  unfolding matchbracketclass_def using assms
  by (intro match_wp bracket_loop_wp) simp_all

lemma singlematch_wp:
  assumes "p < length (mi_pat M)" "p < ep" "ep \<le> length (mi_pat M)"
  shows "wp (singlematch M s p ep) run_error (\<lambda>b. b \<longrightarrow> s < length (mi_src M))"
proof -
  have 1: "wp (singlematch M s p ep) run_error (\<lambda>b. True)"
    unfolding singlematch_def
    by (intro match_wp matchbracketclass_wp) (use assms in simp_all)
  show ?thesis
    by (cases "singlematch M s p ep"; cases "s < length (mi_src M)") (use 1 singlematch_inside in auto)
qed

lemma count_single_wp:
  "s \<le> length (mi_src M) \<Longrightarrow> p < length (mi_pat M) \<Longrightarrow> p < ep \<Longrightarrow> ep \<le> length (mi_pat M) \<Longrightarrow>
   wp (count_single M s p ep) run_error (\<lambda>i. s + i \<le> length (mi_src M))"
proof (induction M s p ep rule: count_single.induct)
  case (1 M s p ep)
  show ?case
  proof (subst count_single.simps, rule wp_bind [OF singlematch_wp [OF "1.prems"(2-4)]])
    fix b assume b: "singlematch M s p ep = Inr b" "b \<longrightarrow> s < length (mi_src M)"
    show "wp (if b then ebind (count_single M (s + 1) p ep) (\<lambda>i. Inr (i + 1)) else Inr 0)
      run_error (\<lambda>i. s + i \<le> length (mi_src M))"
    proof (rule wp_if)
      assume "b"
      then have "wp (count_single M (s + 1) p ep) run_error (\<lambda>i. s + 1 + i \<le> length (mi_src M))"
        using "1.IH" [OF b(1)] b(2) "1.prems" by simp
      then show "wp (ebind (count_single M (s + 1) p ep) (\<lambda>i. Inr (i + 1))) run_error (\<lambda>i. s + i \<le> length (mi_src M))"
        by (rule wp_ebind) simp
    qed (use "1.prems" in simp)
  qed
qed

lemma balance_loop_wp:
  "wp (balance_loop src b e cont s) run_error (\<lambda>r. \<forall>s'. r = Some s' \<longrightarrow> s \<le> s' \<and> s' \<le> length src)"
proof (induction src b e cont s rule: balance_loop.induct)
  case (1 src b e cont s)
  show ?case
  proof (subst balance_loop.simps, unfold Let_def, rule wp_if)
    assume s: "s + 1 < length src"
    show "wp (ebind (byte_at src (s + 1)) (\<lambda>c.
        if c = e then if cont - 1 = 0 then Inr (Some (s + 1 + 1)) else balance_loop src b e (cont - 1) (s + 1)
        else balance_loop src b e (if c = b then cont + 1 else cont) (s + 1)))
      run_error (\<lambda>r. \<forall>s'. r = Some s' \<longrightarrow> s \<le> s' \<and> s' \<le> length src)"
    proof (rule wp_bind [OF wp_byte_at], use s in simp, intro wp_if)
      fix c assume c: "byte_at src (s + 1) = Inr c"
      { assume "c = e" "cont - 1 \<noteq> 0"
        from "1.IH"(1) [OF refl s c this]
        show "wp (balance_loop src b e (cont - 1) (s + 1)) run_error (\<lambda>r. \<forall>s'. r = Some s' \<longrightarrow> s \<le> s' \<and> s' \<le> length src)"
          by (rule wp_mono) auto }
      { assume "c \<noteq> e"
        from "1.IH"(2) [OF refl s c this]
        show "wp (balance_loop src b e (if c = b then cont + 1 else cont) (s + 1)) run_error
            (\<lambda>r. \<forall>s'. r = Some s' \<longrightarrow> s \<le> s' \<and> s' \<le> length src)"
          by (rule wp_mono) auto }
    qed (use s in simp)
  qed simp
qed

lemma matchbalance_wp:
  assumes "s \<le> length (mi_src M)" "p \<le> length (mi_pat M)"
  shows "wp (matchbalance M s p) run_error
    (\<lambda>r. p + 1 < length (mi_pat M) \<and> (\<forall>s'. r = Some s' \<longrightarrow> s \<le> s' \<and> s' \<le> length (mi_src M)))"
  unfolding matchbalance_def using assms
  by (intro match_wp wp_conj wp_mono [OF balance_loop_wp]) simp_all

section \<open>The items, under the contract of the recursive call\<close>

locale matcher_contract =
  fixes M :: minput and rec :: matcher
  assumes src_size: "length (mi_src M) < 2 ^ 63"
    and rec_ok: "\<And>c s p. caps_ok M s c \<Longrightarrow> s \<le> length (mi_src M) \<Longrightarrow> p \<le> length (mi_pat M) \<Longrightarrow>
      wp (rec c s p) run_error (result_ok M c s)"
begin

lemma try_down_ok:
  assumes "caps_ok M s c" "s + i \<le> length (mi_src M)" "ep < length (mi_pat M)"
  shows "wp (try_down rec c s ep i) run_error (result_ok M c s)"
  using assms
proof (induction i)
  case 0
  then show ?case using rec_ok [of s c "ep + 1"] by simp
next
  case (Suc i)
  have "wp (rec c (s + Suc i) (ep + 1)) run_error (result_ok M c (s + Suc i))"
    using Suc.prems by (intro rec_ok) (auto intro: caps_ok_mono)
  then show ?case
    unfolding try_down.simps
  proof (rule wp_ebind)
    fix x
    assume x: "result_ok M c (s + Suc i) x"
    show "wp (case x of (res, c) \<Rightarrow> if res \<noteq> None then Inr (res, c) else try_down rec c s ep i) run_error (result_ok M c s)"
      using x Suc by (cases x; cases "fst x") auto
  qed
qed

lemma max_expand_ok:
  assumes "caps_ok M s c" "s \<le> length (mi_src M)" "p < ep" "ep < length (mi_pat M)"
  shows "wp (max_expand M rec c s p ep) run_error (result_ok M c s)"
  unfolding max_expand_def
  by (rule wp_ebind [OF count_single_wp], use assms in simp_all) (use assms in \<open>auto intro: try_down_ok\<close>)

lemma min_expand_ok:
  assumes "caps_ok M s c" "s \<le> length (mi_src M)" "p < ep" "ep < length (mi_pat M)"
  shows "wp (min_expand M rec c s p ep) run_error (result_ok M c s)"
  using assms
proof (induction "length (mi_src M) - s" arbitrary: s)
  case (0 s)
  have r: "wp (rec c s (ep + 1)) run_error (result_ok M c s)"
    using 0 by (intro rec_ok) auto
  have "singlematch M s p ep = Inr False" using 0 by (simp add: singlematch_def)
  then show ?case
    using r by (subst min_expand.simps, cases "rec c s (ep + 1)") auto
next
  case (Suc n s)
  have "wp (rec c s (ep + 1)) run_error (result_ok M c s)"
    using Suc.prems by (intro rec_ok) auto
  then show ?case
  proof (subst min_expand.simps, rule wp_ebind)
    fix x assume x: "result_ok M c s x"
    have sm: "wp (singlematch M s p ep) run_error (\<lambda>b. b \<longrightarrow> s < length (mi_src M))"
      using Suc.prems by (intro singlematch_wp) auto
    have "wp (ebind (singlematch M s p ep) (\<lambda>b. if b then min_expand M rec c (s + 1) p ep else Inr (None, c)))
        run_error (result_ok M c s)"
    proof (rule wp_ebind [OF sm], rule wp_if)
      fix b assume b: "b \<longrightarrow> s < length (mi_src M)" b
      have "wp (min_expand M rec c (s + 1) p ep) run_error (result_ok M c (s + 1))"
        using b Suc.hyps(2) Suc.prems by (intro Suc.hyps(1)) (auto intro: caps_ok_mono)
      then show "wp (min_expand M rec c (s + 1) p ep) run_error (result_ok M c s)"
        by (rule wp_mono) (auto intro: result_ok_later)
    qed simp
    with x show "wp (case x of (res, c) \<Rightarrow> if res \<noteq> None then Inr (res, c)
        else ebind (singlematch M s p ep) (\<lambda>b. if b then min_expand M rec c (s + 1) p ep else Inr (None, c)))
      run_error (result_ok M c s)"
      by (cases x; cases "fst x") auto
  qed
qed

lemma start_capture_ok:
  assumes "caps_ok M s c" "s \<le> length (mi_src M)" "p \<le> length (mi_pat M)" "what \<in> {CAP_UNFINISHED, CAP_POSITION}"
  shows "wp (start_capture rec c s p what) run_error (result_ok M c s)"
  unfolding start_capture_def
proof (rule match_wp_if)
  assume "\<not> LUA_MAXCAPTURES \<le> length c"
  then have "caps_ok M s (c @ [(s, what)])"
    using assms(1,4) by (auto simp: caps_ok_def cap_ok_def)
  then have "wp (rec (c @ [(s, what)]) s p) run_error (result_ok M (c @ [(s, what)]) s)"
    using assms by (intro rec_ok) auto
  then show "wp (ebind (rec (c @ [(s, what)]) s p) (\<lambda>(res, c). Inr (res, if res = None then butlast c else c)))
      run_error (result_ok M c s)"
    by (rule wp_ebind) (auto simp: result_ok_def split: option.splits)
qed simp

lemma end_capture_ok:
  assumes "caps_ok M s c" "s \<le> length (mi_src M)" "p \<le> length (mi_pat M)"
  shows "wp (end_capture rec c s p) run_error (result_ok M c s)"
proof -
  have cl: "wp (close_loop c n) run_error (\<lambda>l. l < n \<and> snd (c ! l) = CAP_UNFINISHED)" for n
    by (induction n) (auto intro!: match_wp elim!: wp_mono)
  show ?thesis
    unfolding end_capture_def capture_to_close_def Let_def
  proof (rule wp_ebind [OF cl])
    fix l assume l: "l < length c \<and> snd (c ! l) = CAP_UNFINISHED"
    let ?c = "c[l := (fst (c ! l), int s - int (fst (c ! l)))]"
    have le: "fst (c ! l) \<le> s" using caps_ok_nth [OF assms(1)] l by (auto simp: cap_ok_iff)
    then have "cap_ok M s (fst (c ! l), int s - int (fst (c ! l)))"
      using assms(2) by (simp add: cap_ok_def nat_diff_distrib)
    moreover have "set ?c \<subseteq> insert (fst (c ! l), int s - int (fst (c ! l))) (set c)"
      by (rule set_update_subset_insert)
    ultimately have "caps_ok M s ?c" using assms(1) by (auto simp: caps_ok_def)
    then have "wp (rec ?c s p) run_error (result_ok M ?c s)" using assms by (intro rec_ok) auto
    moreover have "?c[l := (fst (?c ! l), CAP_UNFINISHED)] = c"
      using l by (metis list_update_id list_update_overwrite nth_list_update_eq prod.collapse fst_conv)
    ultimately show "wp (ebind (rec ?c s p) (\<lambda>(res, c). Inr (res, if res = None then c[l := (fst (c ! l), CAP_UNFINISHED)] else c)))
        run_error (result_ok M c s)"
      by (elim wp_ebind) (auto simp: result_ok_def split: option.splits)
  qed
qed

lemma match_capture_ok:
  assumes "caps_ok M s c" "s \<le> length (mi_src M)"
  shows "wp (match_capture M c s l) run_error (\<lambda>r. \<forall>s'. r = Some s' \<longrightarrow> s \<le> s' \<and> s' \<le> length (mi_src M))"
proof -
  have "wp (check_capture c l) run_error (\<lambda>l. l < length c \<and> snd (c ! l) \<noteq> CAP_UNFINISHED)"
    unfolding check_capture_def Let_def by (intro match_wp) auto
  then show ?thesis
    unfolding match_capture_def Let_def
  proof (rule wp_ebind, intro match_wp)
    fix i assume i: "i < length c \<and> snd (c ! i) \<noteq> CAP_UNFINISHED"
      and len: "nat (snd (c ! i) mod 2 ^ 64) \<le> length (mi_src M) - s"
    have "cap_ok M s (c ! i)" using caps_ok_nth [OF assms(1)] i by blast
    moreover have "snd (c ! i) \<noteq> CAP_POSITION" using len src_size by (auto simp: CAP_POSITION_def)
    ultimately have ok: "0 \<le> snd (c ! i)" "fst (c ! i) + nat (snd (c ! i)) \<le> length (mi_src M)"
      using i by (auto simp: cap_ok_iff)
    then have "nat (snd (c ! i)) < 2 ^ 63" using src_size by linarith
    then have "snd (c ! i) < 2 ^ 64" by simp
    then have eq: "snd (c ! i) mod 2 ^ 64 = snd (c ! i)" using ok by simp
    { assume "length (mi_src M) < fst (c ! i) + nat (snd (c ! i) mod 2 ^ 64)"
      then show "wp (Inl (MemFault ''capture outside the subject'')) run_error
          (\<lambda>r. \<forall>s'. r = Some s' \<longrightarrow> s \<le> s' \<and> s' \<le> length (mi_src M))" using ok unfolding eq by simp }
    { show "\<forall>s'. (if take (nat (snd (c ! i) mod 2 ^ 64)) (drop (fst (c ! i)) (mi_src M)) =
            take (nat (snd (c ! i) mod 2 ^ 64)) (drop s (mi_src M))
          then Some (s + nat (snd (c ! i) mod 2 ^ 64)) else None) = Some s' \<longrightarrow> s \<le> s' \<and> s' \<le> length (mi_src M)"
        using len assms(2) by auto }
  qed simp
qed

lemma match_dflt_ok:
  assumes "caps_ok M s c" "s \<le> length (mi_src M)" "p < length (mi_pat M)"
  shows "wp (match_dflt M rec c s p) run_error (jump_ok M c s)"
  unfolding match_dflt_def
proof (rule wp_ebind [OF classend_wp [OF assms(3)]])
  fix ep assume ep: "p < ep \<and> ep \<le> length (mi_pat M)"
  then have ep': "p < ep" "ep \<le> length (mi_pat M)" by simp_all
  have fin: "wp m run_error (result_ok M c s') \<Longrightarrow> s \<le> s' \<Longrightarrow> wp (ebind m finish) run_error (jump_ok M c s)" for m s'
    by (erule wp_ebind) (auto simp: finish_def intro: result_ok_later)
  show "wp (ebind (singlematch M s p ep) (\<lambda>m. ebind (byte_at (mi_pat M) ep) (\<lambda>x.
      if \<not> m then
        if x = ch CHR ''*'' \<or> x = ch CHR ''?'' \<or> x = ch CHR ''-'' then Inr (Goto s (ep + 1) c)
        else Inr (Done None c)
      else if x = ch CHR ''?'' then
        ebind (rec c (s + 1) (ep + 1)) (\<lambda>(res, c).
        if res \<noteq> None then Inr (Done res c) else Inr (Goto s (ep + 1) c))
      else if x = ch CHR ''+'' then ebind (max_expand M rec c (s + 1) p ep) finish
      else if x = ch CHR ''*'' then ebind (max_expand M rec c s p ep) finish
      else if x = ch CHR ''-'' then ebind (min_expand M rec c s p ep) finish
      else Inr (Goto (s + 1) ep c)))) run_error (jump_ok M c s)" (is "wp (ebind _ (\<lambda>m. ebind _ (?k m))) _ _")
  proof (rule wp_ebind [OF singlematch_wp [OF assms(3) ep']])
    fix m assume m: "m \<longrightarrow> s < length (mi_src M)"
    show "wp (ebind (byte_at (mi_pat M) ep) (?k m)) run_error (jump_ok M c s)"
    proof (rule match_wp_byte_at [OF ep'(2)])
      fix x assume lt: "ep < length (mi_pat M)"
      have rc: "wp (rec c (s + 1) (ep + 1)) run_error (result_ok M c (s + 1))" if m
        using that m lt assms by (intro rec_ok) (auto intro: caps_ok_mono)
      have "wp (ebind (rec c (s + 1) (ep + 1)) (\<lambda>(res, c). if res \<noteq> None then Inr (Done res c) else Inr (Goto s (ep + 1) c)))
          run_error (jump_ok M c s)" if m
        using lt assms by (intro wp_ebind [OF rc [OF that]]) (auto split: prod.split)
      moreover have "wp (ebind (max_expand M rec c (s + 1) p ep) finish) run_error (jump_ok M c s)" if m
        using that m lt assms ep' by (intro fin [of _ "s + 1"] max_expand_ok) (auto intro: caps_ok_mono)
      moreover have "wp (ebind (max_expand M rec c s p ep) finish) run_error (jump_ok M c s)"
        "wp (ebind (min_expand M rec c s p ep) finish) run_error (jump_ok M c s)"
        using lt assms ep' by (auto intro!: fin [of _ s] max_expand_ok min_expand_ok)
      ultimately show "wp (?k m x) run_error (jump_ok M c s)"
        using m lt assms(2) by (intro match_wp_if) (simp_all add: Suc_le_eq)
    next
      show "wp (?k m 0) run_error (jump_ok M c s)"
        using m assms(2) ep'(2) ch_nonzero by (intro match_wp_if) (simp_all add: Suc_le_eq)
    qed
  qed
qed

lemma match_frontier_ok:
  assumes "s \<le> length (mi_src M)" "p \<le> length (mi_pat M)"
  shows "wp (match_frontier M c s p) run_error (jump_ok M c s)"
  unfolding match_frontier_def
proof (rule match_wp_byte_at [OF assms(2)])
  fix x assume p: "p < length (mi_pat M)"
  show "wp (if x \<noteq> ch CHR ''['' then Inl (RunError ''missing [ after %f in pattern'')
      else ebind (classend (mi_pat M) p) (\<lambda>ep.
          ebind (if s = 0 then Inr 0 else byte_at (mi_src M) (s - 1)) (\<lambda>previous.
          ebind (matchbracketclass previous (mi_pat M) p (ep - 1)) (\<lambda>before.
          if before then Inr (Done None c)
          else ebind (byte_at (mi_src M) s) (\<lambda>here.
               ebind (matchbracketclass here (mi_pat M) p (ep - 1)) (\<lambda>after.
               Inr (if after then Goto s ep c else Done None c))))))) run_error (jump_ok M c s)"
  proof (rule match_wp_if, simp, rule wp_ebind [OF classend_wp [OF p]])
    fix ep assume ep: "p < ep \<and> ep \<le> length (mi_pat M)"
    then have mb: "wp (matchbracketclass b (mi_pat M) p (ep - 1)) run_error (\<lambda>b. True)" for b
      using p by (intro matchbracketclass_wp) auto
    have prev: "wp (if s = 0 then Inr 0 else byte_at (mi_src M) (s - 1)) run_error (\<lambda>b. True)"
      using assms(1) by (auto simp: byte_at_def)
    show "wp (ebind (if s = 0 then Inr 0 else byte_at (mi_src M) (s - 1)) (\<lambda>previous.
          ebind (matchbracketclass previous (mi_pat M) p (ep - 1)) (\<lambda>before.
          if before then Inr (Done None c)
          else ebind (byte_at (mi_src M) s) (\<lambda>here.
               ebind (matchbracketclass here (mi_pat M) p (ep - 1)) (\<lambda>after.
               Inr (if after then Goto s ep c else Done None c)))))) run_error (jump_ok M c s)"
      by (rule wp_ebind [OF prev], rule wp_ebind [OF mb], rule match_wp_if, simp,
          rule match_wp_byte_at [OF assms(1)]; rule wp_ebind [OF mb]) (use ep assms(1) in auto)
  qed
qed (use ch_nonzero(1) in auto)

lemma match_once_ok:
  assumes "caps_ok M s c" "s \<le> length (mi_src M)" "p < length (mi_pat M)"
  shows "wp (match_once M rec c s p) run_error (jump_ok M c s)"
proof -
  have p: "p \<le> length (mi_pat M)" "p + 1 \<le> length (mi_pat M)" using assms(3) by simp_all
  have p2: "p + 2 \<le> length (mi_pat M)" if "byte_at (mi_pat M) (p + 1) = Inr y" "y \<noteq> 0" for y
    using byte_at_inside [OF that] by simp
  have fin: "wp m run_error (result_ok M c s) \<Longrightarrow> wp (ebind m finish) run_error (jump_ok M c s)" for m
    by (erule wp_ebind) (auto simp: finish_def)
  have jmp: "wp m run_error (\<lambda>r. q \<le> length (mi_pat M) \<and> (\<forall>s'. r = Some s' \<longrightarrow> s \<le> s' \<and> s' \<le> length (mi_src M))) \<Longrightarrow>
      wp (ebind m (\<lambda>r. Inr (case r of Some s \<Rightarrow> Goto s q c | None \<Rightarrow> Done None c))) run_error (jump_ok M c s)" for m q
    by (erule wp_ebind) (auto split: option.split)
  have dig: "isdigit y \<Longrightarrow> y \<noteq> 0" for y by (auto simp: isdigit_def)
  show ?thesis
    unfolding match_once_def
  proof (rule wp_bind [OF wp_byte_at [OF p(1)]], intro match_wp_if)
    fix x
    show "wp (ebind (byte_at (mi_pat M) (p + 1)) (\<lambda>y. ebind (if y = ch CHR '')'' then start_capture rec c s (p + 2) CAP_POSITION
        else start_capture rec c s (p + 1) CAP_UNFINISHED) finish)) run_error (jump_ok M c s)"
      by (rule wp_bind [OF wp_byte_at [OF p(2)]], intro fin match_wp_if start_capture_ok)
        (use assms(1,2) p(2) p2 ch_nonzero(4) in auto)
    show "wp (ebind (end_capture rec c s (p + 1)) finish) run_error (jump_ok M c s)"
      by (intro fin end_capture_ok assms(1,2) p(2))
    show "wp (match_dflt M rec c s p) run_error (jump_ok M c s)" by (rule match_dflt_ok [OF assms])
    show "wp (Inr (Done (if s = length (mi_src M) then Some s else None) c)) run_error (jump_ok M c s)"
      using assms(1) by auto
    show "wp (ebind (byte_at (mi_pat M) (p + 1)) (\<lambda>y.
       if y = ch CHR ''b'' then
         ebind (matchbalance M s (p + 2)) (\<lambda>r.
         Inr (case r of Some s \<Rightarrow> Goto s (p + 4) c | None \<Rightarrow> Done None c))
       else if y = ch CHR ''f'' then match_frontier M c s (p + 2)
       else if isdigit y then
         ebind (match_capture M c s y) (\<lambda>r.
         Inr (case r of Some s \<Rightarrow> Goto s (p + 2) c | None \<Rightarrow> Done None c))
       else match_dflt M rec c s p)) run_error (jump_ok M c s)"
    proof (rule wp_bind [OF wp_byte_at [OF p(2)]], intro match_wp_if jmp)
      fix y assume y: "byte_at (mi_pat M) (p + 1) = Inr y"
      { assume "y = ch CHR ''b''"
        then have "p + 2 \<le> length (mi_pat M)" using p2 [OF y] ch_nonzero(10) by simp
        then show "wp (matchbalance M s (p + 2)) run_error (\<lambda>r. p + 4 \<le> length (mi_pat M) \<and>
            (\<forall>s'. r = Some s' \<longrightarrow> s \<le> s' \<and> s' \<le> length (mi_src M)))"
          by (rule wp_mono [OF matchbalance_wp [OF assms(2)]]) auto }
      { assume "y = ch CHR ''f''"
        then show "wp (match_frontier M c s (p + 2)) run_error (jump_ok M c s)"
          using p2 [OF y] ch_nonzero(11) assms(2) by (intro match_frontier_ok) simp_all }
      { assume "isdigit y"
        then have "p + 2 \<le> length (mi_pat M)" using p2 [OF y] dig by simp
        then show "wp (match_capture M c s y) run_error (\<lambda>r. p + 2 \<le> length (mi_pat M) \<and>
            (\<forall>s'. r = Some s' \<longrightarrow> s \<le> s' \<and> s' \<le> length (mi_src M)))"
          by - (rule wp_mono [OF match_capture_ok [OF assms(1,2)]], auto) }
      show "wp (match_dflt M rec c s p) run_error (jump_ok M c s)" by (rule match_dflt_ok [OF assms])
    qed
  qed
qed

lemma match_loop_ok:
  assumes "caps_ok M s c" "s \<le> length (mi_src M)" "p \<le> length (mi_pat M)"
  shows "wp (match_loop M rec c s p) run_error (result_ok M c s)"
  using assms
proof (induction "length (mi_pat M) - p" arbitrary: s p rule: less_induct)
  case less
  show ?case
  proof (cases "p = length (mi_pat M)")
    case True
    then show ?thesis using less.prems by (simp add: match_loop.simps)
  next
    case False
    then have p: "p < length (mi_pat M)" using less.prems(3) by simp
    show ?thesis
    proof (subst match_loop.simps, simp only: False if_False,
        rule wp_bind [OF match_once_ok [OF less.prems(1,2) p]])
      fix j assume j: "match_once M rec c s p = Inr j" "jump_ok M c s j"
      show "wp (case j of Done res c \<Rightarrow> Inr (res, c) | Goto s p c \<Rightarrow> match_loop M rec c s p) run_error (result_ok M c s)"
      proof (cases j)
        case (Goto s' p' c')
        then have "p < p'" using wp_value [OF match_once_moves [OF p] j(1)] by simp
        then have "wp (match_loop M rec c s' p') run_error (result_ok M c s')"
          using Goto j(2) p less.prems(1) by (intro less.hyps) (auto intro: caps_ok_mono)
        then have "wp (match_loop M rec c s' p') run_error (result_ok M c s)"
          using Goto j(2) by (elim wp_mono) (auto intro: result_ok_later)
        then show ?thesis using Goto j(2) by simp
      qed (use j in simp)
    qed
  qed
qed

end

section \<open>The matcher meets its contract\<close>

lemma do_match_ok:
  assumes "length (mi_src M) < 2 ^ 63"
  shows "caps_ok M s c \<Longrightarrow> s \<le> length (mi_src M) \<Longrightarrow> p \<le> length (mi_pat M) \<Longrightarrow>
    wp (do_match d M c s p) run_error (result_ok M c s)"
proof (induction d arbitrary: c s p)
  case (Suc d)
  have "matcher_contract M (do_match d M)"
    by standard (use assms Suc.IH in auto)
  then show ?case using matcher_contract.match_loop_ok Suc.prems by simp
qed simp

text \<open>A subject with its size as a type, so that the contract can be interpreted.\<close>

typedef subject = "{M :: minput. length (mi_src M) < 2 ^ 63}"
  morphisms input_of subject_of
  by (rule exI [of _ "\<lparr>mi_src = [], mi_pat = []\<rparr>"]) simp

interpretation strmatch: matcher_contract "input_of M" "do_match d (input_of M)" for M d
  using input_of [of M] by unfold_locales (auto intro: do_match_ok)

text \<open>C15:
  the matcher is safe.  From any position of the subject and the pattern, with the captures
  made so far, \<open>match\<close> either raises an error of the pattern (never an access outside the subject
  or the pattern, however malformed the pattern is), or returns a position between the start and
  the end of the subject with at most 32 captures that lie in the subject, or fails and leaves
  the captures as they were.
\<close>

theorem match_safe:
  assumes "length src < 2 ^ 63" "caps_ok \<lparr>mi_src = src, mi_pat = pat\<rparr> s c" "s \<le> length src" "p \<le> length pat"
  shows "case do_match d \<lparr>mi_src = src, mi_pat = pat\<rparr> c s p of
      Inl e \<Rightarrow> \<exists>msg. e = RunError msg
    | Inr (None, c') \<Rightarrow> c' = c
    | Inr (Some e, c') \<Rightarrow> s \<le> e \<and> e \<le> length src \<and> caps_ok \<lparr>mi_src = src, mi_pat = pat\<rparr> e c'"
  using strmatch.rec_ok [of "subject_of \<lparr>mi_src = src, mi_pat = pat\<rparr>" s c p d] assms
  by (auto simp: subject_of_inverse wp_def run_error_def split: sum.splits prod.splits option.splits)

theorem match_safe_witness:
  "\<exists>e c'. do_match 200 \<lparr>mi_src = str_bytes ''abc'', mi_pat = str_bytes ''(.-)c''\<rparr> [] 0 0 = Inr (Some e, c') \<and> e \<le> 3"
proof -
  have "do_match 200 \<lparr>mi_src = str_bytes ''abc'', mi_pat = str_bytes ''(.-)c''\<rparr> [] 0 0 = Inr (Some 3, [(0, 2)])"
    by code_simp
  then show ?thesis
    using match_safe [of "str_bytes ''abc''" "str_bytes ''(.-)c''" 0 "[]" 0 200] by (simp add: str_bytes_def)
qed

end
