(* ===== verification/Lua_Pattern.thy ===== *)
theory Lua_Pattern
  imports Lua_Match_Spec
begin

text \<open>
  The meaning of patterns.  A pattern is a list of items; \<open>matches\<close> gives all the ways to match it
  from a position, in the order of preference: as many repetitions as possible first for \<open>*\<close>, \<open>+\<close>
  and \<open>?\<close>, as few as possible for \<open>-\<close>.  \<open>pattern_text\<close> writes a pattern down, and the functions of
  \<open>lstrlib.c\<close> for single characters read it as meant.
\<close>

section \<open>Patterns\<close>

datatype elem = EChar byte | ERange byte byte | EClass byte

datatype single = SChar byte | SAny | SClass byte | SSet bool "elem list"   \<comment> \<open>with \<open>True\<close> for \<open>[^...]\<close>\<close>

datatype rep = ROnce | ROpt | RStar | RPlus | RLazy

datatype item = IChar single rep | IOpen | IClose | IPos | IBalance byte byte | IFrontier bool "elem list"
  | IBack nat   \<comment> \<open>from 0\<close>

subsection \<open>Text\<close>

definition quote :: "byte \<Rightarrow> byte list" where
  "quote b = (if ispunct b then [L_ESC, b] else [b])"

fun elem_tokens :: "elem \<Rightarrow> byte list list" where
  "elem_tokens (EChar b) = [quote b]"
| "elem_tokens (ERange lo hi) = [[lo], [ch CHR ''-''], [hi]]"
| "elem_tokens (EClass cl) = [[L_ESC, cl]]"

definition elems_text :: "elem list \<Rightarrow> byte list" where
  "elems_text es = concat (concat (map elem_tokens es))"

definition set_text :: "bool \<Rightarrow> elem list \<Rightarrow> byte list" where
  "set_text neg es = ch CHR ''['' # (if neg then [ch CHR ''^''] else []) @ elems_text es @ [ch CHR '']'']"

fun single_text :: "single \<Rightarrow> byte list" where
  "single_text (SChar b) = quote b"
| "single_text SAny = [ch CHR ''.'']"
| "single_text (SClass cl) = [L_ESC, cl]"
| "single_text (SSet neg es) = set_text neg es"

fun rep_text :: "rep \<Rightarrow> byte list" where
  "rep_text ROnce = []"
| "rep_text ROpt = [ch CHR ''?'']"
| "rep_text RStar = [ch CHR ''*'']"
| "rep_text RPlus = [ch CHR ''+'']"
| "rep_text RLazy = [ch CHR ''-'']"

fun item_text :: "item \<Rightarrow> byte list" where
  "item_text (IChar x r) = single_text x @ rep_text r"
| "item_text IOpen = [ch CHR ''('']"
| "item_text IClose = [ch CHR '')'']"
| "item_text IPos = [ch CHR ''('', ch CHR '')'']"
| "item_text (IBalance b e) = [L_ESC, ch CHR ''b'', b, e]"
| "item_text (IFrontier neg es) = [L_ESC, ch CHR ''f''] @ set_text neg es"
| "item_text (IBack n) = [L_ESC, of_nat (49 + n)]"

text \<open>The text of the items, with the anchor at the end of the subject if \<open>anchor\<close>.\<close>

definition pattern_text :: "bool \<Rightarrow> item list \<Rightarrow> byte list" where
  "pattern_text anchor ps = concat (map item_text ps) @ (if anchor then [ch CHR ''$''] else [])"

subsection \<open>Meaning\<close>

fun elem_sat :: "elem \<Rightarrow> byte \<Rightarrow> bool" where
  "elem_sat (EChar b) c \<longleftrightarrow> c = b"
| "elem_sat (ERange lo hi) c \<longleftrightarrow> lo \<le> c \<and> c \<le> hi"
| "elem_sat (EClass cl) c \<longleftrightarrow> match_class c cl"

definition set_sat :: "bool \<Rightarrow> elem list \<Rightarrow> byte \<Rightarrow> bool" where
  "set_sat neg es c \<longleftrightarrow> (list_ex (\<lambda>e. elem_sat e c) es \<noteq> neg)"

fun sat :: "single \<Rightarrow> byte \<Rightarrow> bool" where
  "sat (SChar b) c \<longleftrightarrow> c = b"
| "sat SAny c \<longleftrightarrow> True"
| "sat (SClass cl) c \<longleftrightarrow> match_class c cl"
| "sat (SSet neg es) c \<longleftrightarrow> set_sat neg es c"

definition sat_at :: "byte list \<Rightarrow> single \<Rightarrow> nat \<Rightarrow> bool" where
  "sat_at src x s \<longleftrightarrow> s < length src \<and> sat x (src ! s)"

text \<open>How many of the characters from \<open>s\<close> on a single accepts.\<close>

definition run_of :: "byte list \<Rightarrow> single \<Rightarrow> nat \<Rightarrow> nat" where
  "run_of src x s = length (takeWhile (sat x) (drop s src))"

text \<open>The end of a balanced part: the first position where as many brackets are closed as opened.\<close>

definition weight :: "byte \<Rightarrow> byte \<Rightarrow> byte \<Rightarrow> int" where
  "weight b e c = (if c = e then - 1 else if c = b then 1 else 0)"

definition balance_end :: "byte list \<Rightarrow> byte \<Rightarrow> byte \<Rightarrow> nat \<Rightarrow> nat option" where
  "balance_end src b e s =
     (if s < length src \<and> src ! s = b
      then map_option Suc (List.find (\<lambda>j. sum_list (map (weight b e) (take (j - s) (drop (s + 1) src))) = - 1)
        [s + 1..<length src])
      else None)"

definition char_or_zero :: "byte list \<Rightarrow> nat \<Rightarrow> byte" where
  "char_or_zero src s = (if s < length src then src ! s else 0)"

text \<open>Which captures are open, and the last of them.\<close>

definition opens :: "caps \<Rightarrow> bool list" where
  "opens c = map (\<lambda>x. snd x = CAP_UNFINISHED) c"

definition last_true :: "bool list \<Rightarrow> nat" where
  "last_true bs = last (filter (\<lambda>l. bs ! l) [0..<length bs])"

fun matches :: "byte list \<Rightarrow> bool \<Rightarrow> item list \<Rightarrow> nat \<Rightarrow> caps \<Rightarrow> (nat \<times> caps) list" where
  "matches src anchor [] s c = (if anchor \<and> s \<noteq> length src then [] else [(s, c)])"
| "matches src anchor (IChar x r # ps) s c =
     (let go = (\<lambda>k. matches src anchor ps (s + k) c); n = run_of src x s in
      case r of
        ROnce \<Rightarrow> (if 1 \<le> n then go 1 else [])
      | ROpt \<Rightarrow> (if 1 \<le> n then go 1 else []) @ go 0
      | RStar \<Rightarrow> concat (map go (rev [0..<n + 1]))
      | RPlus \<Rightarrow> concat (map go (rev [1..<n + 1]))
      | RLazy \<Rightarrow> concat (map go [0..<n + 1]))"
| "matches src anchor (IOpen # ps) s c = matches src anchor ps s (c @ [(s, CAP_UNFINISHED)])"
| "matches src anchor (IPos # ps) s c = matches src anchor ps s (c @ [(s, CAP_POSITION)])"
| "matches src anchor (IClose # ps) s c =
     (let l = last_true (opens c); init = fst (c ! l) in matches src anchor ps s (c[l := (init, int s - int init)]))"
| "matches src anchor (IBalance b e # ps) s c =
     (case balance_end src b e s of None \<Rightarrow> [] | Some s \<Rightarrow> matches src anchor ps s c)"
| "matches src anchor (IFrontier neg es # ps) s c =
     (if \<not> set_sat neg es (if s = 0 then 0 else src ! (s - 1)) \<and> set_sat neg es (char_or_zero src s)
      then matches src anchor ps s c else [])"
| "matches src anchor (IBack n # ps) s c =
     (let (init, l) = c ! n in
      if 0 \<le> l \<and> s + nat l \<le> length src \<and> take (nat l) (drop init src) = take (nat l) (drop s src)
      then matches src anchor ps (s + nat l) c else [])"

subsection \<open>Well-formed patterns\<close>

fun elem_ok :: "elem \<Rightarrow> bool" where
  "elem_ok (EChar b) \<longleftrightarrow> True"
| "elem_ok (ERange lo hi) \<longleftrightarrow> isalnum lo \<and> isalnum hi"
| "elem_ok (EClass cl) \<longleftrightarrow> isalpha cl"

definition set_ok :: "elem list \<Rightarrow> bool" where
  "set_ok es \<longleftrightarrow> es \<noteq> [] \<and> list_all elem_ok es"

fun single_ok :: "single \<Rightarrow> bool" where
  "single_ok (SClass cl) \<longleftrightarrow> isalpha cl \<and> cl \<noteq> ch CHR ''b'' \<and> cl \<noteq> ch CHR ''f''"
| "single_ok (SSet neg es) \<longleftrightarrow> set_ok es"
| "single_ok _ \<longleftrightarrow> True"

text \<open>
  \<open>open\<close> tells of every capture so far whether it is still open.  An open capture followed at once
  by its end would read as a position capture.
\<close>

fun items_ok :: "bool list \<Rightarrow> item list \<Rightarrow> bool" where
  "items_ok os [] \<longleftrightarrow> True"
| "items_ok os (IChar x r # ps) \<longleftrightarrow> single_ok x \<and> items_ok os ps"
| "items_ok os (IOpen # ps) \<longleftrightarrow> length os < LUA_MAXCAPTURES \<and> (ps = [] \<or> hd ps \<noteq> IClose) \<and> items_ok (os @ [True]) ps"
| "items_ok os (IPos # ps) \<longleftrightarrow> length os < LUA_MAXCAPTURES \<and> items_ok (os @ [False]) ps"
| "items_ok os (IClose # ps) \<longleftrightarrow> True \<in> set os \<and> items_ok (os[last_true os := False]) ps"
| "items_ok os (IBalance b e # ps) \<longleftrightarrow> items_ok os ps"
| "items_ok os (IFrontier neg es # ps) \<longleftrightarrow> set_ok es \<and> items_ok os ps"
| "items_ok os (IBack n # ps) \<longleftrightarrow> n < 9 \<and> n < length os \<and> \<not> os ! n \<and> items_ok os ps"

section \<open>Reading the text\<close>

lemma byte_at_here: "byte_at (pre @ x # post) (length pre) = Inr x"
  by simp

lemma byte_at_next: "byte_at (pre @ x # y # post) (Suc (length pre)) = Inr y"
  by (simp add: nth_append)

lemma byte_at_after: "p = length pre \<Longrightarrow> byte_at (pre @ post) p = byte_at post 0"
  using byte_at_append [of pre post 0] by simp

lemma letters: "isalpha (ch CHR ''a'')" "isalpha (ch CHR ''c'')" "isalpha (ch CHR ''d'')" "isalpha (ch CHR ''g'')"
  "isalpha (ch CHR ''l'')" "isalpha (ch CHR ''p'')" "isalpha (ch CHR ''s'')" "isalpha (ch CHR ''u'')"
  "isalpha (ch CHR ''w'')" "isalpha (ch CHR ''x'')" "isalpha (ch CHR ''z'')" "isalpha (ch CHR ''b'')" "isalpha (ch CHR ''f'')"
  by (simp_all add: isalpha_def islower_def)

lemma puncts: "ispunct L_ESC" "ispunct (ch CHR ''['')" "ispunct (ch CHR '']'')" "ispunct (ch CHR ''^'')"
  "ispunct (ch CHR ''-'')" "ispunct (ch CHR ''('')" "ispunct (ch CHR '')'')" "ispunct (ch CHR ''$'')"
  "ispunct (ch CHR ''.'')" "ispunct (ch CHR ''*'')" "ispunct (ch CHR ''+'')" "ispunct (ch CHR ''?'')"
  by (simp_all add: L_ESC_def ispunct_def isgraph_def isalnum_def isalpha_def isupper_def islower_def isdigit_def)

lemma not_punct: "isalnum c \<Longrightarrow> \<not> ispunct c" "isalpha c \<Longrightarrow> \<not> ispunct c" "isdigit c \<Longrightarrow> \<not> ispunct c"
  by (simp_all add: ispunct_def isalnum_def)

lemma punct_class:
  assumes "ispunct cl"
  shows "match_class c cl \<longleftrightarrow> c = cl"
proof -
  have na: "\<not> isalpha cl" using assms not_punct(2) by blast
  then have "tolower cl = cl" by (simp add: tolower_def isalpha_def isupper_def)
  moreover have "cl \<noteq> ch CHR ''a''" "cl \<noteq> ch CHR ''c''" "cl \<noteq> ch CHR ''d''" "cl \<noteq> ch CHR ''g''" "cl \<noteq> ch CHR ''l''"
    "cl \<noteq> ch CHR ''p''" "cl \<noteq> ch CHR ''s''" "cl \<noteq> ch CHR ''u''" "cl \<noteq> ch CHR ''w''" "cl \<noteq> ch CHR ''x''" "cl \<noteq> ch CHR ''z''"
    using na letters by metis+
  ultimately show ?thesis unfolding match_class_def Let_def by auto
qed


text \<open>A token of a set: a plain character or an escape.\<close>

definition token_ok :: "byte list \<Rightarrow> bool" where
  "token_ok t \<longleftrightarrow> (\<exists>c. t = [c] \<and> c \<noteq> L_ESC \<and> c \<noteq> ch CHR '']'') \<or> (\<exists>x. t = [L_ESC, x])"

lemma token_hd: "token_ok t \<Longrightarrow> \<exists>x r. t = x # r \<and> x \<noteq> ch CHR '']''"
  by (auto simp: token_ok_def L_ESC_def)

lemma classend_tokens:
  assumes "ts \<noteq> []" "list_all token_ok ts" "pat = pre @ concat ts @ ch CHR '']'' # post"
  shows "classend_loop pat (length pre) = Inr (length pre + length (concat ts) + 1)"
  using assms
proof (induction ts arbitrary: pre)
  case (Cons t ts)
  let ?tail = "concat ts @ ch CHR '']'' # post"
  have pat: "pat = (pre @ t) @ ?tail" using Cons.prems(3) by simp
  have t: "token_ok t" using Cons.prems(2) by simp
  obtain x r where x: "t = x # r" using token_hd [OF t] by blast
  have first: "byte_at pat (length pre) = Inr x" using x Cons.prems(3) by simp
  have p: "(if x = L_ESC \<and> length pre + 1 < length pat then length pre + 1 + 1 else length pre + 1) = length (pre @ t)"
    using t x pat by (auto simp: token_ok_def)
  have "length pre \<noteq> length pat" using x pat by simp
  then have step: "classend_loop pat (length pre) =
      ebind (byte_at pat (length (pre @ t))) (\<lambda>c. if c \<noteq> ch CHR '']'' then classend_loop pat (length (pre @ t))
        else Inr (length (pre @ t) + 1))"
    by (subst classend_loop.simps) (simp only: if_False first ebind_Inr Let_def p)
  show ?case
  proof (cases ts)
    case Nil
    have "byte_at pat (length (pre @ t)) = Inr (ch CHR '']'')"
      unfolding pat Nil concat.simps append_Nil by (rule byte_at_here)
    then show ?thesis using step Nil x by simp
  next
    case (Cons t' ts')
    then obtain y r' where y: "t' = y # r'" "y \<noteq> ch CHR '']''" using token_hd [of t'] Cons.prems(2) by auto
    have "byte_at pat (length (pre @ t)) = Inr y"
      unfolding pat Cons y(1) concat.simps append_Cons append_assoc by (simp add: nth_append)
    then have "classend_loop pat (length pre) = classend_loop pat (length (pre @ t))"
      using step y(2) by simp
    also have "\<dots> = Inr (length (pre @ t) + length (concat ts) + 1)"
      using Cons.prems(2) pat Cons by (intro Cons.IH) auto
    finally show ?thesis by simp
  qed
qed simp

lemma elem_tokens_ok: "elem_ok e \<Longrightarrow> list_all token_ok (elem_tokens e) \<and> elem_tokens e \<noteq> []"
proof (cases e)
  case (EChar b)
  then show ?thesis using puncts(1,3) by (auto simp: quote_def token_ok_def)
next
  case (ERange lo hi)
  assume "elem_ok e"
  then have "\<not> ispunct lo" "\<not> ispunct hi" using ERange not_punct(1) by auto
  moreover have "ch CHR ''-'' \<noteq> L_ESC" "ch CHR ''-'' \<noteq> ch CHR '']''" by (simp_all add: L_ESC_def)
  ultimately show ?thesis using ERange puncts(1,3) by (auto simp: token_ok_def)
qed (simp add: token_ok_def)

lemma set_tokens_ok:
  assumes "set_ok es"
  shows "list_all token_ok (concat (map elem_tokens es))" "concat (map elem_tokens es) \<noteq> []"
  using assms elem_tokens_ok by (induction es) (auto simp: set_ok_def list_all_iff)

text \<open>The first byte of a set is not the one that negates it.\<close>

lemma elems_text_hd:
  assumes "set_ok es"
  shows "\<exists>x r. elems_text es = x # r \<and> x \<noteq> ch CHR ''^''"
proof -
  obtain e es' where e: "es = e # es'" "elem_ok e" using assms by (cases es) (auto simp: set_ok_def)
  have n: "ch CHR ''^'' \<noteq> L_ESC" by (simp add: L_ESC_def)
  show ?thesis
  proof (cases e)
    case (ERange lo hi)
    then have "\<not> ispunct lo" using e(2) not_punct(1) by auto
    then show ?thesis using e ERange puncts(4) by (auto simp: elems_text_def)
  qed (use e n puncts(4) in \<open>auto simp: elems_text_def quote_def\<close>)
qed

lemma classend_set:
  assumes "set_ok es" "pat = pre @ set_text neg es @ post"
  shows "classend pat (length pre) = Inr (length pre + length (set_text neg es))"
proof -
  obtain x r where x: "elems_text es = x # r" "x \<noteq> ch CHR ''^''" using elems_text_hd [OF assms(1)] by blast
  let ?pre = "pre @ ch CHR ''['' # (if neg then [ch CHR ''^''] else [])"
  have loop: "classend_loop pat (length ?pre) = Inr (length ?pre + length (elems_text es) + 1)"
    using set_tokens_ok [OF assms(1)] assms(2) unfolding elems_text_def
    by (intro classend_tokens [where post = post]) (auto simp: set_text_def elems_text_def)
  have b0: "byte_at pat (length pre) = Inr (ch CHR ''['')" using assms(2) by (simp add: set_text_def)
  have ne: "ch CHR ''['' \<noteq> L_ESC" by (simp add: L_ESC_def)
  have next_p: "(if y = ch CHR ''^'' then length pre + 1 + 1 else length pre + 1) = length ?pre"
    if "byte_at pat (length pre + 1) = Inr y" for y
    using that assms(2) x by (auto simp: set_text_def nth_append split: if_splits)
  obtain y where y: "byte_at pat (length pre + 1) = Inr y" using assms(2) x by (auto simp: set_text_def)
  show ?thesis
    unfolding classend_def b0 ebind_Inr Let_def if_not_P [OF ne] if_P [OF refl] y next_p [OF y] loop
    by (simp add: set_text_def)
qed


lemma elems_text_simps [simp]:
  "elems_text [] = []"
  "elems_text (e # es) = concat (elem_tokens e) @ elems_text es"
  by (simp_all add: elems_text_def)

lemma elems_no_minus:
  assumes "list_all elem_ok es"
  shows "\<exists>x r. elems_text es @ ch CHR '']'' # post = x # r \<and> x \<noteq> ch CHR ''-''"
proof (cases es)
  case (Cons e es')
  have n: "ch CHR ''-'' \<noteq> L_ESC" by (simp add: L_ESC_def)
  show ?thesis
  proof (cases e)
    case (ERange lo hi)
    then have "\<not> ispunct lo" using assms Cons not_punct(1) by auto
    then show ?thesis using Cons ERange puncts(5) by auto
  qed (use Cons n puncts(5) in \<open>auto simp: quote_def\<close>)
qed simp

lemma bracket_loop_set:
  assumes "list_all elem_ok es" "pat = pre @ elems_text es @ ch CHR '']'' # post" "Suc p = length pre"
    "ec = length pre + length (elems_text es)"
  shows "bracket_loop c pat sig p ec = Inr (list_ex (\<lambda>e. elem_sat e c) es = sig)"
  using assms
proof (induction es arbitrary: pre p)
  case Nil
  then show ?case by (subst bracket_loop.simps) (simp add: Let_def)
next
  case (Cons e es)
  let ?rest = "elems_text es @ ch CHR '']'' # post"
  obtain z r where z: "?rest = z # r" "z \<noteq> ch CHR ''-''" using elems_no_minus Cons.prems(1) by force
  have p1: "p + 1 = length pre" using Cons.prems(3) by simp
  have lt: "p + 1 < ec" using Cons.prems(4) p1 by (cases e) (auto simp: quote_def)
  have rec: "bracket_loop c pat sig q ec = Inr (list_ex (\<lambda>e. elem_sat e c) es = sig)"
    if "Suc q = length (pre @ concat (elem_tokens e))" for q
    using Cons.prems that by (intro Cons.IH [of "pre @ concat (elem_tokens e)"]) auto
  have esc: ?case if tok: "concat (elem_tokens e) = [L_ESC, x]" "elem_sat e c = match_class c x" for x
  proof -
    have b: "byte_at pat (p + 1) = Inr L_ESC" "byte_at pat (p + 1 + 1) = Inr x"
      using Cons.prems(2) tok(1) unfolding p1 by (simp_all add: nth_append)
    have "bracket_loop c pat sig (p + 1 + 1) ec = Inr (list_ex (\<lambda>e. elem_sat e c) es = sig)"
      using rec [of "p + 1 + 1"] tok(1) p1 by simp
    then show ?thesis
      by (subst bracket_loop.simps) (simp only: Let_def lt if_True b ebind_Inr, auto simp: tok(2))
  qed
  show ?case
  proof (cases e)
    case (EClass cl)
    then show ?thesis by (intro esc) simp_all
  next
    case (EChar b)
    show ?thesis
    proof (cases "ispunct b")
      case True
      then show ?thesis using EChar punct_class by (intro esc [of b]) (simp_all add: quote_def)
    next
      case False
      then have ne: "b \<noteq> L_ESC" using puncts(1) by blast
      have b: "byte_at pat (p + 1) = Inr b" "byte_at pat (p + 1 + 1) = Inr z"
        using Cons.prems(2) EChar False z(1) unfolding p1 by (simp_all add: nth_append quote_def)
      have "bracket_loop c pat sig (p + 1) ec = Inr (list_ex (\<lambda>e. elem_sat e c) es = sig)"
        using rec [of "p + 1"] EChar False p1 by (simp add: quote_def)
      then show ?thesis using EChar z(2)
        by (subst bracket_loop.simps) (simp only: Let_def lt if_True if_False b ebind_Inr ne simp_thms, auto)
    qed
  next
    case (ERange lo hi)
    then have "\<not> ispunct lo" using Cons.prems(1) not_punct(1) by auto
    then have ne: "lo \<noteq> L_ESC" using puncts(1) by blast
    have b: "byte_at pat (p + 1) = Inr lo" "byte_at pat (p + 1 + 1) = Inr (ch CHR ''-'')" "byte_at pat (p + 1 + 2) = Inr hi"
      using Cons.prems(2) ERange unfolding p1 by (simp_all add: nth_append)
    have lt2: "p + 1 + 2 < ec" using Cons.prems(4) ERange p1 by simp
    have "bracket_loop c pat sig (p + 1 + 2) ec = Inr (list_ex (\<lambda>e. elem_sat e c) es = sig)"
      using rec [of "p + 1 + 2"] ERange p1 by simp
    then show ?thesis using ERange
      by (subst bracket_loop.simps) (simp only: Let_def lt lt2 if_True if_False b ebind_Inr ne simp_thms, auto)
  qed
qed

lemma matchbracketclass_set:
  assumes "set_ok es" "pat = pre @ set_text neg es @ post"
  shows "matchbracketclass c pat (length pre) (length pre + length (set_text neg es) - 1) = Inr (set_sat neg es c)"
proof -
  have es: "list_all elem_ok es" using assms(1) by (simp add: set_ok_def)
  obtain x r where x: "elems_text es = x # r" "x \<noteq> ch CHR ''^''" using elems_text_hd [OF assms(1)] by blast
  show ?thesis
  proof (cases neg)
    case True
    have b: "byte_at pat (length pre + 1) = Inr (ch CHR ''^'')"
      using assms(2) True by (simp add: set_text_def nth_append)
    have "bracket_loop c pat False (length pre + 1) (length pre + length (set_text neg es) - 1) =
        Inr (list_ex (\<lambda>e. elem_sat e c) es = False)"
      using assms(2) True
      by (intro bracket_loop_set [OF es, of _ "pre @ [ch CHR ''['', ch CHR ''^'']" post]) (simp_all add: set_text_def)
    then show ?thesis using b True by (simp add: matchbracketclass_def set_sat_def)
  next
    case False
    have b: "byte_at pat (length pre + 1) = Inr x"
      using assms(2) False x by (simp add: set_text_def nth_append)
    have "bracket_loop c pat True (length pre) (length pre + length (set_text neg es) - 1) =
        Inr (list_ex (\<lambda>e. elem_sat e c) es = True)"
      using assms(2) False
      by (intro bracket_loop_set [OF es, of _ "pre @ [ch CHR ''['']" post]) (simp_all add: set_text_def)
    then show ?thesis using b False x(2) by (simp add: matchbracketclass_def set_sat_def)
  qed
qed

section \<open>Single characters\<close>

lemma single_text_not_empty: "single_text x \<noteq> []"
  by (cases x) (simp_all add: quote_def set_text_def)

lemma classend_single:
  assumes "single_ok x" "pat = pre @ single_text x @ post"
  shows "classend pat (length pre) = Inr (length pre + length (single_text x))"
proof (cases x)
  case (SSet neg es)
  then show ?thesis using assms classend_set by simp
next
  case SAny
  have "ch CHR ''.'' \<noteq> L_ESC" "ch CHR ''.'' \<noteq> ch CHR ''[''" by (simp_all add: L_ESC_def)
  then show ?thesis using assms SAny by (simp add: classend_def)
next
  case (SClass cl)
  then show ?thesis using assms by (simp add: classend_def)
next
  case (SChar b)
  show ?thesis
  proof (cases "ispunct b")
    case True
    then show ?thesis using assms SChar by (simp add: classend_def quote_def)
  next
    case False
    then have "b \<noteq> L_ESC" "b \<noteq> ch CHR ''[''" using puncts(1,2) by auto
    then show ?thesis using assms SChar False by (simp add: classend_def quote_def)
  qed
qed

lemma singlematch_single:
  assumes "single_ok x" "pat = pre @ single_text x @ post"
  shows "singlematch \<lparr>mi_src = src, mi_pat = pat\<rparr> s (length pre) (length pre + length (single_text x)) = Inr (sat_at src x s)"
proof (cases "s < length src")
  case s: True
  show ?thesis
  proof (cases x)
    case (SSet neg es)
    have "ch CHR ''['' \<noteq> L_ESC" "ch CHR ''['' \<noteq> ch CHR ''.''" by (simp_all add: L_ESC_def)
    moreover have "byte_at pat (length pre) = Inr (ch CHR ''['')" using assms SSet by (simp add: set_text_def)
    ultimately show ?thesis
      using s assms SSet matchbracketclass_set [of es pat pre neg post "src ! s"] by (simp add: singlematch_def sat_at_def)
  next
    case SAny
    then show ?thesis using s assms by (simp add: singlematch_def sat_at_def)
  next
    case (SClass cl)
    have "L_ESC \<noteq> ch CHR ''.''" by (simp add: L_ESC_def)
    then show ?thesis using s assms SClass by (simp add: singlematch_def sat_at_def nth_append)
  next
    case (SChar b)
    show ?thesis
    proof (cases "ispunct b")
      case True
      have "L_ESC \<noteq> ch CHR ''.''" by (simp add: L_ESC_def)
      then show ?thesis using s assms SChar True punct_class [OF True]
        by (simp add: singlematch_def quote_def sat_at_def nth_append)
    next
      case False
      then have "b \<noteq> L_ESC" "b \<noteq> ch CHR ''[''" "b \<noteq> ch CHR ''.''" using puncts(1,2,9) by auto
      then show ?thesis using s assms SChar False by (auto simp: singlematch_def quote_def sat_at_def)
    qed
  qed
qed (simp add: singlematch_def sat_at_def)

end
