(* ===== verification/Lua_Pattern_Spec.thy ===== *)
theory Lua_Pattern_Spec
  imports Lua_Pattern
begin

text \<open>
  The matcher of \<open>lstrlib.c\<close> finds the preferred way to match a pattern, or fails if there is none.
  The recursive calls are in the locale \<open>exact_matcher\<close>, which \<open>do_match\<close> meets at every depth.
\<close>

section \<open>Repetitions\<close>

definition first :: "caps \<Rightarrow> (nat \<times> caps) list \<Rightarrow> nat option \<times> caps" where
  "first c rs = (case rs of [] \<Rightarrow> (None, c) | (e, c') # rest \<Rightarrow> (Some e, c'))"

lemma first_simps [simp]:
  "first c [] = (None, c)"
  "first c (r # rs) = (Some (fst r), snd r)"
  by (simp_all add: first_def split: prod.split)

lemma first_append: "first c (xs @ ys) = (if xs = [] then first c ys else first c xs)"
  by (cases xs) simp_all

lemma first_none: "fst (first c xs) = None \<longleftrightarrow> xs = []"
  by (cases xs) simp_all

lemma run_of_step: "run_of src x s = (if sat_at src x s then Suc (run_of src x (Suc s)) else 0)"
proof (cases "s < length src")
  case True
  then have "drop s src = src ! s # drop (Suc s) src" by (simp add: Cons_nth_drop_Suc)
  then show ?thesis using True by (simp add: run_of_def sat_at_def)
qed (simp add: run_of_def sat_at_def)

lemma run_of_bound: "s \<le> length src \<Longrightarrow> s + run_of src x s \<le> length src"
  using length_takeWhile_le [of "sat x" "drop s src"] by (simp add: run_of_def)

lemma run_of_pos: "1 \<le> run_of src x s \<longleftrightarrow> sat_at src x s"
  by (simp add: run_of_step [of src x s])

lemma run_of_none: "\<not> sat_at src x s \<Longrightarrow> run_of src x s = 0"
  by (simp add: run_of_step [of src x s])

lemma count_single_run:
  assumes "\<And>s. singlematch M s p ep = Inr (sat_at src x s)"
  shows "count_single M s p ep = Inr (run_of src x s)"
proof (induction "length src - s" arbitrary: s rule: less_induct)
  case less
  show ?case
  proof (cases "sat_at src x s")
    case True
    then have "count_single M (Suc s) p ep = Inr (run_of src x (Suc s))" by (intro less) (auto simp: sat_at_def)
    then show ?thesis using True by (subst count_single.simps) (simp add: assms run_of_step [of src x s])
  next
    case False
    then show ?thesis by (subst count_single.simps) (simp add: assms run_of_step [of src x s])
  qed
qed

lemma try_down_first:
  assumes "\<And>k. k \<le> i \<Longrightarrow> rec c (s + k) (ep + 1) = Inr (first c (go k))"
  shows "try_down rec c s ep i = Inr (first c (concat (map go (rev [0..<i + 1]))))"
  using assms
proof (induction i)
  case 0
  then show ?case by simp
next
  case (Suc i)
  have "try_down rec c s ep i = Inr (first c (concat (map go (rev [0..<i + 1]))))"
    using Suc.prems by (intro Suc.IH) simp
  moreover have "rec c (s + Suc i) (ep + 1) = Inr (first c (go (Suc i)))" using Suc.prems by blast
  moreover have "concat (map go (rev [0..<Suc i + 1])) = go (Suc i) @ concat (map go (rev [0..<i + 1]))" by simp
  ultimately show ?case by (cases "go (Suc i)") (simp_all add: first_append)
qed

lemma min_expand_first:
  assumes "\<And>s. singlematch M s p ep = Inr (sat_at src x s)"
    and "\<And>k. k \<le> run_of src x s \<Longrightarrow> rec c (s + k) (ep + 1) = Inr (first c (go k))"
  shows "min_expand M rec c s p ep = Inr (first c (concat (map go [0..<run_of src x s + 1])))"
  using assms(2)
proof (induction "run_of src x s" arbitrary: s go)
  case 0
  have r: "rec c s (ep + 1) = Inr (first c (go 0))" using "0.prems" [of 0] by simp
  have "\<not> sat_at src x s" using "0.hyps" run_of_pos [of src x s] by simp
  then show ?case using r "0.hyps" by (subst min_expand.simps) (cases "go 0"; simp add: assms(1))
next
  case (Suc n)
  have r: "rec c s (ep + 1) = Inr (first c (go 0))" using Suc.prems [of 0] by simp
  have sat: "sat_at src x s" using Suc.hyps(2) run_of_pos [of src x s] by simp
  then have n: "run_of src x (Suc s) = n" using Suc.hyps(2) run_of_step [of src x s] by simp
  have "rec c (Suc s + k) (ep + 1) = Inr (first c (go (Suc k)))" if "k \<le> run_of src x (Suc s)" for k
    using Suc.prems [of "Suc k"] Suc.hyps(2) n that by simp
  then have "min_expand M rec c (Suc s) p ep = Inr (first c (concat (map (\<lambda>k. go (Suc k)) [0..<run_of src x (Suc s) + 1])))"
    using n by (intro Suc.hyps(1)) simp_all
  moreover have "concat (map go [0..<run_of src x s + 1]) =
      go 0 @ concat (map (\<lambda>k. go (Suc k)) [0..<run_of src x (Suc s) + 1])"
    unfolding n Suc.hyps(2) [symmetric] by (simp add: map_upt_Suc del: upt_Suc)
  ultimately show ?case using r sat
    by (subst min_expand.simps) (cases "go 0"; simp add: assms(1))
qed

section \<open>Items\<close>

lemma pattern_text_simps:
  "pattern_text anchor (it # ps) = item_text it @ pattern_text anchor ps"
  by (simp add: pattern_text_def)

lemma item_hd:
  assumes "items_ok os (it # ps)"
  shows "\<exists>x r. item_text it = x # r \<and> x \<notin> {ch CHR ''?'', ch CHR ''*'', ch CHR ''+'', ch CHR ''-''} \<and>
    (it \<noteq> IClose \<longrightarrow> x \<noteq> ch CHR '')'')"
proof -
  have quoted: "\<exists>x r. quote b = x # r \<and> x \<notin> {ch CHR ''?'', ch CHR ''*'', ch CHR ''+'', ch CHR ''-''} \<and> x \<noteq> ch CHR '')''" for b
  proof (cases "ispunct b")
    case True
    then show ?thesis by (simp add: quote_def L_ESC_def)
  next
    case False
    then show ?thesis using puncts by (auto simp: quote_def)
  qed
  show ?thesis
  proof (cases it)
    case (IChar x r)
    show ?thesis
    proof (cases x)
      case (SChar b)
      then show ?thesis using IChar quoted [of b] by auto
    qed (simp_all add: IChar L_ESC_def set_text_def)
  qed (simp_all add: L_ESC_def)
qed

lemma rest_hd:
  assumes "items_ok os ps" "byte_at (pattern_text anchor ps) 0 = Inr x"
  shows "x \<noteq> ch CHR ''?''" "x \<noteq> ch CHR ''*''" "x \<noteq> ch CHR ''+''" "x \<noteq> ch CHR ''-''"
    "ps = [] \<or> hd ps \<noteq> IClose \<Longrightarrow> x \<noteq> ch CHR '')''"
proof -
  have "x \<notin> {ch CHR ''?'', ch CHR ''*'', ch CHR ''+'', ch CHR ''-''} \<and> (ps = [] \<or> hd ps \<noteq> IClose \<longrightarrow> x \<noteq> ch CHR '')'')"
  proof (cases ps)
    case Nil
    then show ?thesis using assms(2) by (cases anchor) (auto simp: pattern_text_def byte_at_def)
  next
    case (Cons it ps')
    then show ?thesis using item_hd [of os it ps'] assms by (auto simp: pattern_text_simps)
  qed
  then show "x \<noteq> ch CHR ''?''" "x \<noteq> ch CHR ''*''" "x \<noteq> ch CHR ''+''" "x \<noteq> ch CHR ''-''"
    "ps = [] \<or> hd ps \<noteq> IClose \<Longrightarrow> x \<noteq> ch CHR '')''" by auto
qed


text \<open>A single with its suffix goes to the default case.\<close>

lemma match_once_char:
  assumes "mi_pat M = pre @ single_text x @ post" "single_ok x"
  shows "match_once M rec c s (length pre) = match_dflt M rec c s (length pre)"
proof -
  have quoted: ?thesis if q: "single_text x = quote b" for b
  proof (cases "ispunct b")
    case True
    have "b \<noteq> ch CHR ''b''" "b \<noteq> ch CHR ''f''" "\<not> isdigit b"
      using True not_punct letters(12,13) by metis+
    moreover have "byte_at (mi_pat M) (length pre) = Inr L_ESC" "byte_at (mi_pat M) (length pre + 1) = Inr b"
      using assms(1) q True by (simp_all add: quote_def nth_append)
    moreover have "L_ESC \<noteq> ch CHR ''(''" "L_ESC \<noteq> ch CHR '')''" "L_ESC \<noteq> ch CHR ''$''" by (simp_all add: L_ESC_def)
    ultimately show ?thesis unfolding match_once_def by simp
  next
    case False
    then have "b \<noteq> L_ESC" "b \<noteq> ch CHR ''(''" "b \<noteq> ch CHR '')''" "b \<noteq> ch CHR ''$''" using puncts(1,6,7,8) by auto
    moreover have "byte_at (mi_pat M) (length pre) = Inr b" using assms(1) q False by (simp add: quote_def)
    ultimately show ?thesis unfolding match_once_def by simp
  qed
  show ?thesis
  proof (cases x)
    case (SChar b)
    then show ?thesis using quoted by simp
  next
    case SAny
    then have "byte_at (mi_pat M) (length pre) = Inr (ch CHR ''.'')" using assms(1) by simp
    then show ?thesis unfolding match_once_def by (simp add: L_ESC_def)
  next
    case (SSet neg es)
    then have "byte_at (mi_pat M) (length pre) = Inr (ch CHR ''['')" using assms(1) by (simp add: set_text_def)
    then show ?thesis unfolding match_once_def by (simp add: L_ESC_def)
  next
    case (SClass cl)
    then have "\<not> isdigit cl" using assms(2) by (auto simp: isalpha_def isdigit_def isupper_def islower_def word_le_nat_alt)
    moreover have "byte_at (mi_pat M) (length pre) = Inr L_ESC" "byte_at (mi_pat M) (length pre + 1) = Inr cl"
      using assms(1) SClass by (simp_all add: nth_append)
    moreover have "L_ESC \<noteq> ch CHR ''(''" "L_ESC \<noteq> ch CHR '')''" "L_ESC \<noteq> ch CHR ''$''" by (simp_all add: L_ESC_def)
    ultimately show ?thesis using assms(2) SClass unfolding match_once_def by simp
  qed
qed

text \<open>Captures.\<close>

lemma opens_append: "opens (c @ [x]) = opens c @ [snd x = CAP_UNFINISHED]"
  by (simp add: opens_def)

lemma length_opens [simp]: "length (opens c) = length c"
  by (simp add: opens_def)

lemma opens_nth: "l < length c \<Longrightarrow> opens c ! l \<longleftrightarrow> snd (c ! l) = CAP_UNFINISHED"
  by (simp add: opens_def)

lemma last_true_snoc: "last_true (bs @ [b]) = (if b then length bs else last_true bs)"
proof -
  have "filter (\<lambda>l. (bs @ [b]) ! l) [0..<length bs] = filter (\<lambda>l. bs ! l) [0..<length bs]"
    by (rule filter_cong) (auto simp: nth_append)
  then show ?thesis by (simp add: last_true_def)
qed

lemma last_true_nth: "True \<in> set bs \<Longrightarrow> last_true bs < length bs \<and> bs ! last_true bs"
  by (induction bs rule: rev_induct) (auto simp: last_true_snoc nth_append)

lemma close_loop_last:
  "n \<le> length c \<Longrightarrow> True \<in> set (opens (take n c)) \<Longrightarrow> close_loop c n = Inr (last_true (opens (take n c)))"
proof (induction n)
  case (Suc n)
  have t: "take (Suc n) c = take n c @ [c ! n]" using Suc.prems(1) by (simp add: take_Suc_conv_app_nth)
  show ?case
  proof (cases "snd (c ! n) = CAP_UNFINISHED")
    case True
    then show ?thesis using Suc.prems(1) t by (simp add: opens_append last_true_snoc)
  next
    case False
    then show ?thesis using Suc t by (simp add: opens_append last_true_snoc)
  qed
qed (simp add: opens_def)

lemma capture_to_close_last: "True \<in> set (opens c) \<Longrightarrow> capture_to_close c = Inr (last_true (opens c))"
  using close_loop_last [of "length c" c] by (simp add: capture_to_close_def)


section \<open>The items, with an exact recursive call\<close>

text \<open>A state of the match: the rest of the pattern is the text of \<open>ps\<close>.\<close>

definition at_items :: "minput \<Rightarrow> bool \<Rightarrow> byte list \<Rightarrow> item list \<Rightarrow> nat \<Rightarrow> caps \<Rightarrow> bool" where
  "at_items M anchor pre ps s c \<longleftrightarrow> mi_pat M = pre @ pattern_text anchor ps \<and> items_ok (opens c) ps \<and>
     caps_ok M s c \<and> s \<le> length (mi_src M)"

lemma at_itemsD:
  assumes "at_items M anchor pre ps s c"
  shows "mi_pat M = pre @ pattern_text anchor ps" "items_ok (opens c) ps" "caps_ok M s c" "s \<le> length (mi_src M)"
  using assms by (simp_all add: at_items_def)

lemma at_items_later:
  assumes "at_items M anchor pre (it # ps) s c" "items_ok (opens c) ps" "s \<le> s'" "s' \<le> length (mi_src M)"
  shows "at_items M anchor (pre @ item_text it) ps s' c"
  using assms caps_ok_mono by (auto simp: at_items_def pattern_text_simps)

text \<open>One round: either the result, or a step to the next item.\<close>

definition round_ok :: "minput \<Rightarrow> bool \<Rightarrow> byte list \<Rightarrow> item \<Rightarrow> item list \<Rightarrow> nat \<Rightarrow> caps \<Rightarrow> jump res \<Rightarrow> bool" where
  "round_ok M anchor pre it ps s c r \<longleftrightarrow>
     (let ms = matches (mi_src M) anchor (it # ps) s c in
      r = Inr (Done (fst (first c ms)) (snd (first c ms))) \<or>
      (\<exists>s'. r = Inr (Goto s' (length (pre @ item_text it)) c) \<and> at_items M anchor (pre @ item_text it) ps s' c \<and>
         ms = matches (mi_src M) anchor ps s' c))"

lemma round_done:
  "r = Inr (Done (fst (first c (matches (mi_src M) anchor (it # ps) s c)))
    (snd (first c (matches (mi_src M) anchor (it # ps) s c)))) \<Longrightarrow> round_ok M anchor pre it ps s c r"
  by (simp add: round_ok_def)

lemma round_goto:
  "r = Inr (Goto s' (length (pre @ item_text it)) c) \<Longrightarrow> at_items M anchor (pre @ item_text it) ps s' c \<Longrightarrow>
    matches (mi_src M) anchor (it # ps) s c = matches (mi_src M) anchor ps s' c \<Longrightarrow> round_ok M anchor pre it ps s c r"
  unfolding round_ok_def Let_def by blast

lemma finish_first: "ebind (Inr (first c ms)) finish = Inr (Done (fst (first c ms)) (snd (first c ms)))"
  by (simp add: finish_def split: prod.split)

locale exact_matcher =
  fixes M :: minput and anchor :: bool and rec :: matcher and d :: nat
  assumes size: "length (mi_src M) < 2 ^ 63"
    and exact: "at_items M anchor pre ps s c \<Longrightarrow> length ps < d \<Longrightarrow>
      rec c s (length pre) = Inr (first c (matches (mi_src M) anchor ps s c))"
begin

lemma char_round:
  assumes "at_items M anchor pre (IChar x r # ps) s c" "length ps < d"
  shows "round_ok M anchor pre (IChar x r) ps s c (match_once M rec c s (length pre))"
proof -
  note st = at_itemsD [OF assms(1)]
  have ok: "single_ok x" "items_ok (opens c) ps" using st(2) by simp_all
  have pat: "mi_pat M = pre @ single_text x @ (rep_text r @ pattern_text anchor ps)"
    using st(1) by (simp add: pattern_text_simps)
  let ?ep = "length pre + length (single_text x)"
  let ?go = "\<lambda>k. matches (mi_src M) anchor ps (s + k) c"
  let ?pre = "pre @ item_text (IChar x r)"
  have cl: "classend (mi_pat M) (length pre) = Inr ?ep" by (rule classend_single [OF ok(1) pat])
  have sm: "singlematch M s' (length pre) ?ep = Inr (sat_at (mi_src M) x s')" for s'
    using singlematch_single [OF ok(1) pat, of "mi_src M" s'] by (cases M) simp
  have rc: "rec c (s + k) (length ?pre) = Inr (first c (?go k))" if "s + k \<le> length (mi_src M)" for k
    using at_items_later [OF assms(1) ok(2) _ that] by (intro exact assms(2)) simp
  have bd: "s + k \<le> length (mi_src M)" if "k \<le> run_of (mi_src M) x s" for k
    using run_of_bound [OF st(4), of x] that by simp
  have go: "round_ok M anchor pre (IChar x r) ps s c (Inr (Goto (s + k) (length ?pre) c))"
    if "matches (mi_src M) anchor (IChar x r # ps) s c = ?go k" "s + k \<le> length (mi_src M)" for k
    by (rule round_goto [OF refl at_items_later [OF assms(1) ok(2)]]) (use that in simp_all)
  obtain y where y: "byte_at (mi_pat M) ?ep = Inr y" "byte_at (rep_text r @ pattern_text anchor ps) 0 = Inr y"
  proof -
    have "byte_at (mi_pat M) ?ep = byte_at (rep_text r @ pattern_text anchor ps) 0"
      using byte_at_after [of ?ep "pre @ single_text x" "rep_text r @ pattern_text anchor ps"] pat by simp
    then show ?thesis using that by (auto simp: byte_at_def split: if_splits)
  qed
  note step = match_once_char [OF pat ok(1)] match_dflt_def cl sm y(1) ebind_Inr
  show ?thesis
  proof (cases r)
    case ROnce
    have ny: "y \<noteq> ch CHR ''?''" "y \<noteq> ch CHR ''*''" "y \<noteq> ch CHR ''+''" "y \<noteq> ch CHR ''-''"
      using rest_hd(1-4) [OF ok(2)] y(2) ROnce by simp_all
    show ?thesis
    proof (cases "sat_at (mi_src M) x s")
      case True
      then have n: "1 \<le> run_of (mi_src M) x s" using run_of_pos by blast
      have "match_once M rec c s (length pre) = Inr (Goto (s + 1) (length ?pre) c)"
        unfolding step using True ny ROnce by simp
      then show ?thesis using go [of 1] bd [OF n] n ROnce by simp
    next
      case False
      then show ?thesis using run_of_none [OF False] ny ROnce by (intro round_done) (simp add: step)
    qed
  next
    case ROpt
    then have y': "y = ch CHR ''?''" using y(2) by simp
    have pq: "?ep + 1 = length ?pre" using ROpt by simp
    show ?thesis
    proof (cases "sat_at (mi_src M) x s")
      case True
      then have n: "1 \<le> run_of (mi_src M) x s" using run_of_pos by blast
      have r1: "rec c (s + 1) (?ep + 1) = Inr (first c (?go 1))" using rc [OF bd [OF n]] unfolding pq .
      have ms: "matches (mi_src M) anchor (IChar x r # ps) s c = ?go 1 @ ?go 0" using n ROpt by simp
      have eq: "match_once M rec c s (length pre) =
          (if fst (first c (?go 1)) \<noteq> None then Inr (Done (fst (first c (?go 1))) (snd (first c (?go 1))))
           else Inr (Goto s (?ep + 1) c))"
        unfolding step r1 using True y' by (cases "?go 1") (simp_all add: step r1)
      show ?thesis
      proof (cases "?go 1 = []")
        case e: True
        then have "match_once M rec c s (length pre) = Inr (Goto (s + 0) (length ?pre) c)" using eq pq by simp
        then show ?thesis using go [of 0] ms e st(4) by simp
      next
        case e: False
        then show ?thesis using eq ms first_none [of c "?go 1"] by (intro round_done) (simp add: first_append)
      qed
    next
      case False
      then have "match_once M rec c s (length pre) = Inr (Goto (s + 0) (length ?pre) c)"
        unfolding step using y' pq by simp
      then show ?thesis using go [of 0] False run_of_none [OF False] ROpt st(4) by simp
    qed
  next
    case RStar
    then have y': "y = ch CHR ''*''" using y(2) by simp
    have pq: "?ep + 1 = length ?pre" using RStar by simp
    show ?thesis
    proof (cases "sat_at (mi_src M) x s")
      case True
      have "max_expand M rec c s (length pre) ?ep = Inr (first c (concat (map ?go (rev [0..<run_of (mi_src M) x s + 1]))))"
        unfolding max_expand_def count_single_run [OF sm] ebind_Inr
        by (rule try_down_first, unfold pq, rule rc, rule bd)
      then have "match_once M rec c s (length pre) =
          ebind (Inr (first c (concat (map ?go (rev [0..<run_of (mi_src M) x s + 1]))))) finish"
        unfolding step using True y' by simp
      then show ?thesis unfolding finish_first using RStar by (intro round_done) (simp add: Let_def del: upt_Suc)
    next
      case False
      then have "match_once M rec c s (length pre) = Inr (Goto (s + 0) (length ?pre) c)"
        unfolding step using y' pq by simp
      then show ?thesis using go [of 0] False run_of_none [OF False] RStar st(4) by simp
    qed
  next
    case RPlus
    then have y': "y = ch CHR ''+''" using y(2) by simp
    have pq: "?ep + 1 = length ?pre" using RPlus by simp
    show ?thesis
    proof (cases "sat_at (mi_src M) x s")
      case True
      let ?n = "run_of (mi_src M) x (s + 1)"
      have n: "run_of (mi_src M) x s = ?n + 1" using True run_of_step [of "mi_src M" x s] by simp
      have "max_expand M rec c (s + 1) (length pre) ?ep =
          Inr (first c (concat (map (\<lambda>k. ?go (k + 1)) (rev [0..<?n + 1]))))"
        unfolding max_expand_def count_single_run [OF sm] ebind_Inr
      proof (rule try_down_first)
        fix k assume "k \<le> ?n"
        then have "s + (k + 1) \<le> length (mi_src M)" using n by (intro bd) simp
        then show "rec c (s + 1 + k) (?ep + 1) = Inr (first c (?go (k + 1)))"
          using rc [of "k + 1"] unfolding pq by (simp add: ac_simps)
      qed
      moreover have "map (\<lambda>k. ?go (k + 1)) (rev [0..<?n + 1]) = map ?go (rev [1..<?n + 1 + 1])"
        by (simp only: rev_map [symmetric] map_Suc_upt [symmetric] map_map comp_def) (simp add: map_Suc_upt [symmetric] rev_map comp_def del: upt_Suc)
      ultimately have "match_once M rec c s (length pre) =
          ebind (Inr (first c (concat (map ?go (rev [1..<run_of (mi_src M) x s + 1]))))) finish"
        unfolding step n using True y' by simp
      then show ?thesis unfolding finish_first using RPlus by (intro round_done) (simp add: Let_def del: upt_Suc)
    next
      case False
      then show ?thesis using run_of_none [OF False] y' RPlus by (intro round_done) (simp add: step)
    qed
  next
    case RLazy
    then have y': "y = ch CHR ''-''" using y(2) by simp
    have pq: "?ep + 1 = length ?pre" using RLazy by simp
    show ?thesis
    proof (cases "sat_at (mi_src M) x s")
      case True
      have "min_expand M rec c s (length pre) ?ep = Inr (first c (concat (map ?go [0..<run_of (mi_src M) x s + 1])))"
        by (rule min_expand_first [OF sm], unfold pq, rule rc, rule bd)
      then have "match_once M rec c s (length pre) =
          ebind (Inr (first c (concat (map ?go [0..<run_of (mi_src M) x s + 1])))) finish"
        unfolding step using True y' by simp
      then show ?thesis unfolding finish_first using RLazy by (intro round_done) (simp add: Let_def del: upt_Suc)
    next
      case False
      then have "match_once M rec c s (length pre) = Inr (Goto (s + 0) (length ?pre) c)"
        unfolding step using y' pq by simp
      then show ?thesis using go [of 0] False run_of_none [OF False] RLazy st(4) by simp
    qed
  qed
qed

end


text \<open>A balanced part.\<close>

lemma balance_loop_find:
  assumes "1 \<le> cont"
  shows "balance_loop src b e cont s =
    Inr (map_option Suc (List.find (\<lambda>j. sum_list (map (weight b e) (take (j - s) (drop (s + 1) src))) = - int cont)
      [s + 1..<length src]))"
  using assms
proof (induction "length src - s" arbitrary: s cont rule: less_induct)
  case less
  show ?case
  proof (cases "s + 1 < length src")
    case True
    let ?c = "src ! (s + 1)"
    have d: "drop (s + 1) src = ?c # drop (s + 2) src" using True by (simp add: Cons_nth_drop_Suc)
    have upt: "[s + 1..<length src] = (s + 1) # [s + 1 + 1..<length src]" using True by (simp add: upt_conv_Cons)
    have sum: "sum_list (map (weight b e) (take (j - s) (drop (s + 1) src))) =
        weight b e ?c + sum_list (map (weight b e) (take (j - (s + 1)) (drop (s + 1 + 1) src)))" if "s + 1 \<le> j" for j
    proof -
      have "j - s = Suc (j - (s + 1))" using that by simp
      then show ?thesis unfolding d by simp
    qed
    have rest: "List.find (\<lambda>j. sum_list (map (weight b e) (take (j - s) (drop (s + 1) src))) = - int cont) [s + 1 + 1..<length src] =
        List.find (\<lambda>j. sum_list (map (weight b e) (take (j - (s + 1)) (drop (s + 1 + 1) src))) = - int k) [s + 1 + 1..<length src]"
      if "int k = int cont + weight b e ?c" for k
    proof (rule find_cong [OF refl])
      fix j assume "j \<in> set [s + 1 + 1..<length src]"
      then have "s + 1 \<le> j" by simp
      from sum [OF this] that
      show "(sum_list (map (weight b e) (take (j - s) (drop (s + 1) src))) = - int cont) =
          (sum_list (map (weight b e) (take (j - (s + 1)) (drop (s + 1 + 1) src))) = - int k)" by linarith
    qed
    have go: "balance_loop src b e k (s + 1) = Inr (map_option Suc
        (List.find (\<lambda>j. sum_list (map (weight b e) (take (j - s) (drop (s + 1) src))) = - int cont) [s + 1 + 1..<length src]))"
      if "int k = int cont + weight b e ?c" "1 \<le> k" for k
      unfolding rest [OF that(1)] using True that(2) by (intro less.hyps) auto
    have at: "byte_at src (s + 1) = Inr ?c" using True by simp
    have here: "sum_list (map (weight b e) (take (s + 1 - s) (drop (s + 1) src))) = weight b e ?c"
      using sum [of "s + 1"] by simp
    show ?thesis
    proof (cases "?c = e")
      case True
      then have w: "weight b e ?c = - 1" by (simp add: weight_def)
      have "balance_loop src b e cont s = (if cont - 1 = 0 then Inr (Some (s + 1 + 1)) else balance_loop src b e (cont - 1) (s + 1))"
        using \<open>s + 1 < length src\<close> at True by (subst balance_loop.simps) (simp add: Let_def)
      then show ?thesis
        unfolding upt using go [of "cont - 1"] here w less.prems
        by (cases "cont = 1") (auto simp: of_nat_diff)
    next
      case False
      have "balance_loop src b e cont s = balance_loop src b e (if ?c = b then cont + 1 else cont) (s + 1)"
        using \<open>s + 1 < length src\<close> at False by (subst balance_loop.simps) (simp add: Let_def)
      moreover have "weight b e ?c \<noteq> - int cont" using False less.prems by (simp add: weight_def)
      ultimately show ?thesis
        unfolding upt using go [of "if ?c = b then cont + 1 else cont"] here False less.prems
        by (auto simp: weight_def)
    qed
  next
    case False
    then show ?thesis by (subst balance_loop.simps) simp
  qed
qed

lemma matchbalance_end:
  assumes "mi_pat M = pre @ b # e # post" "s \<le> length (mi_src M)"
  shows "matchbalance M s (length pre) = Inr (balance_end (mi_src M) b e s)"
proof -
  have p: "byte_at (mi_pat M) (length pre) = Inr b" "byte_at (mi_pat M) (length pre + 1) = Inr e"
    "\<not> length (mi_pat M) \<le> length pre + 1"
    using assms(1) by (simp_all add: nth_append)
  have loop: "balance_loop (mi_src M) b e 1 s = Inr (map_option Suc (List.find
      (\<lambda>j. sum_list (map (weight b e) (take (j - s) (drop (s + 1) (mi_src M)))) = - 1) [s + 1..<length (mi_src M)]))"
    using balance_loop_find [of 1] by simp
  show ?thesis
  proof (cases "s < length (mi_src M)")
    case True
    then show ?thesis using p loop by (simp add: matchbalance_def balance_end_def)
  next
    case False
    then have "s = length (mi_src M)" using assms(2) by simp
    then show ?thesis using p loop by (cases "b = 0") (auto simp: matchbalance_def balance_end_def)
  qed
qed

lemma balance_end_range: "balance_end src b e s = Some s' \<Longrightarrow> s \<le> s' \<and> s' \<le> length src"
  by (auto simp: balance_end_def find_Some_iff split: if_splits)

context exact_matcher
begin

lemma open_round:
  assumes "at_items M anchor pre (it # ps) s c" "length ps < d" "it = IOpen \<or> it = IPos"
  shows "round_ok M anchor pre it ps s c (match_once M rec c s (length pre))"
proof -
  note st = at_itemsD [OF assms(1)]
  let ?what = "if it = IOpen then CAP_UNFINISHED else CAP_POSITION"
  let ?c = "c @ [(s, ?what)]" and ?pre = "pre @ item_text it"
  let ?ms = "matches (mi_src M) anchor ps s ?c"
  have nu: "CAP_POSITION \<noteq> CAP_UNFINISHED" by (simp add: CAP_POSITION_def CAP_UNFINISHED_def)
  have room: "length c < LUA_MAXCAPTURES" using st(2) assms(3) by (auto simp: opens_def)
  have "at_items M anchor ?pre ps s ?c"
    using assms(3) st room nu
    by (auto simp: at_items_def pattern_text_simps opens_append caps_ok_def cap_ok_def)
  then have r: "rec ?c s (length ?pre) = Inr (first ?c ?ms)" by (intro exact assms(2))
  have sc: "start_capture rec c s (length ?pre) ?what = Inr (first c ?ms)"
    using room r by (cases ?ms) (simp_all add: start_capture_def)
  have "match_once M rec c s (length pre) = ebind (start_capture rec c s (length ?pre) ?what) finish"
  proof (cases "it = IOpen")
    case True
    have b: "byte_at (mi_pat M) (length pre) = Inr (ch CHR ''('')"
      using st(1) True by (simp add: pattern_text_simps)
    have "byte_at (mi_pat M) (length pre + 1) = byte_at (pattern_text anchor ps) 0"
      using byte_at_after [of "length pre + 1" "pre @ [ch CHR ''('']" "pattern_text anchor ps"] st(1) True
      by (simp add: pattern_text_simps)
    moreover obtain y where y: "byte_at (pattern_text anchor ps) 0 = Inr y"
      by (cases "pattern_text anchor ps") (auto simp: byte_at_def)
    moreover have "y \<noteq> ch CHR '')''" using rest_hd(5) [OF _ y] st(2) True by auto
    ultimately show ?thesis using b True by (simp add: match_once_def)
  next
    case False
    then have it: "it = IPos" using assms(3) by simp
    have "byte_at (mi_pat M) (length pre) = Inr (ch CHR ''('')" "byte_at (mi_pat M) (length pre + 1) = Inr (ch CHR '')'')"
      using st(1) it by (simp_all add: pattern_text_simps nth_append)
    then show ?thesis using it by (simp add: match_once_def)
  qed
  then have "match_once M rec c s (length pre) = Inr (Done (fst (first c ?ms)) (snd (first c ?ms)))"
    unfolding sc finish_first .
  then show ?thesis using assms(3) by (intro round_done) auto
qed

lemma close_round:
  assumes "at_items M anchor pre (IClose # ps) s c" "length ps < d"
  shows "round_ok M anchor pre IClose ps s c (match_once M rec c s (length pre))"
proof -
  note st = at_itemsD [OF assms(1)]
  let ?l = "last_true (opens c)"
  let ?c = "c[?l := (fst (c ! ?l), int s - int (fst (c ! ?l)))]" and ?pre = "pre @ item_text IClose"
  let ?ms = "matches (mi_src M) anchor ps s ?c"
  have op: "True \<in> set (opens c)" "items_ok ((opens c)[?l := False]) ps" using st(2) by simp_all
  have l: "?l < length c" "snd (c ! ?l) = CAP_UNFINISHED"
    using last_true_nth [OF op(1)] opens_nth [of ?l c] by auto
  have init: "fst (c ! ?l) \<le> s" using caps_ok_nth [OF st(3) l(1)] by (simp add: cap_ok_iff)
  have "opens ?c = (opens c)[?l := False]"
    using init by (simp add: opens_def map_update CAP_UNFINISHED_def)
  moreover have "caps_ok M s ?c"
  proof -
    have "cap_ok M s x" if "x \<in> set ?c" for x
    proof -
      have "x = (fst (c ! ?l), int s - int (fst (c ! ?l))) \<or> x \<in> set c" using that set_update_subset_insert by fastforce
      then show ?thesis using st(3,4) init by (auto simp: caps_ok_def cap_ok_iff)
    qed
    then show ?thesis using st(3) by (auto simp: caps_ok_def)
  qed
  ultimately have "at_items M anchor ?pre ps s ?c"
    using op(2) st(1,4) by (simp add: at_items_def pattern_text_simps)
  then have r: "rec ?c s (length ?pre) = Inr (first ?c ?ms)" by (intro exact assms(2))
  have restored: "?c[?l := (fst (?c ! ?l), CAP_UNFINISHED)] = c"
    using l by (metis list_update_id list_update_overwrite nth_list_update_eq prod.collapse fst_conv)
  have "end_capture rec c s (length ?pre) = Inr (first c ?ms)"
    unfolding end_capture_def capture_to_close_last [OF op(1)] ebind_Inr Let_def r
    using restored by (cases ?ms) simp_all
  moreover have "byte_at (mi_pat M) (length pre) = Inr (ch CHR '')'')"
    using st(1) by (simp add: pattern_text_simps)
  ultimately have "match_once M rec c s (length pre) = Inr (Done (fst (first c ?ms)) (snd (first c ?ms)))"
    by (simp add: match_once_def finish_def split: prod.split)
  then show ?thesis by (intro round_done) (simp add: Let_def)
qed

end


context exact_matcher
begin

lemma goto_round:
  assumes "at_items M anchor pre (it # ps) s c" "items_ok (opens c) ps"
    and "match_once M rec c s (length pre) =
      Inr (case r of Some s' \<Rightarrow> Goto s' (length (pre @ item_text it)) c | None \<Rightarrow> Done None c)"
    and "\<And>s'. r = Some s' \<Longrightarrow> s \<le> s' \<and> s' \<le> length (mi_src M)"
    and "matches (mi_src M) anchor (it # ps) s c =
      (case r of Some s' \<Rightarrow> matches (mi_src M) anchor ps s' c | None \<Rightarrow> [])"
  shows "round_ok M anchor pre it ps s c (match_once M rec c s (length pre))"
proof (cases r)
  case None
  then show ?thesis using assms(3,5) by (intro round_done) simp
next
  case (Some s')
  then show ?thesis
    using assms(3,5) at_items_later [OF assms(1,2)] assms(4) [OF Some] by (intro round_goto [of _ s']) simp_all
qed

lemma balance_round:
  assumes "at_items M anchor pre (IBalance b e # ps) s c"
  shows "round_ok M anchor pre (IBalance b e) ps s c (match_once M rec c s (length pre))"
proof (rule goto_round [OF assms, where r = "balance_end (mi_src M) b e s"])
  note st = at_itemsD [OF assms]
  show "items_ok (opens c) ps" using st(2) by simp
  have b: "byte_at (mi_pat M) (length pre) = Inr L_ESC" "byte_at (mi_pat M) (length pre + 1) = Inr (ch CHR ''b'')"
    using st(1) by (simp_all add: pattern_text_simps nth_append)
  have "matchbalance M s (length (pre @ [L_ESC, ch CHR ''b''])) = Inr (balance_end (mi_src M) b e s)"
    using st(1,4) by (intro matchbalance_end [where post = "pattern_text anchor ps"]) (simp_all add: pattern_text_simps)
  then show "match_once M rec c s (length pre) = Inr (case balance_end (mi_src M) b e s of
      Some s' \<Rightarrow> Goto s' (length (pre @ item_text (IBalance b e))) c | None \<Rightarrow> Done None c)"
    using b by (simp add: match_once_def L_ESC_def split: option.split)
  show "s \<le> s' \<and> s' \<le> length (mi_src M)" if "balance_end (mi_src M) b e s = Some s'" for s'
    using balance_end_range [OF that] .
qed (simp split: option.split)

lemma frontier_round:
  assumes "at_items M anchor pre (IFrontier neg es # ps) s c"
  shows "round_ok M anchor pre (IFrontier neg es) ps s c (match_once M rec c s (length pre))"
proof -
  note st = at_itemsD [OF assms]
  let ?prev = "if s = 0 then 0 else mi_src M ! (s - 1)" and ?here = "char_or_zero (mi_src M) s"
  let ?pre = "pre @ [L_ESC, ch CHR ''f'']" and ?t = "set_text neg es"
  have es: "set_ok es" using st(2) by simp
  have pat: "mi_pat M = ?pre @ ?t @ pattern_text anchor ps" using st(1) by (simp add: pattern_text_simps)
  have b: "byte_at (mi_pat M) (length pre) = Inr L_ESC" "byte_at (mi_pat M) (length pre + 1) = Inr (ch CHR ''f'')"
    "byte_at (mi_pat M) (length ?pre) = Inr (ch CHR ''['')"
    using pat by (simp_all add: nth_append set_text_def)
  have prev: "(if s = 0 then Inr 0 else byte_at (mi_src M) (s - 1)) = Inr ?prev" using st(4) by simp
  have here: "byte_at (mi_src M) s = Inr ?here" using st(4) by (simp add: byte_at_def char_or_zero_def)
  have once: "match_once M rec c s (length pre) = match_frontier M c s (length ?pre)"
    using b by (simp add: match_once_def L_ESC_def)
  have "match_frontier M c s (length ?pre) =
      Inr (if \<not> set_sat neg es ?prev \<and> set_sat neg es ?here then Goto s (length ?pre + length ?t) c else Done None c)"
    unfolding match_frontier_def b(3) ebind_Inr classend_set [OF es pat] prev here
      matchbracketclass_set [OF es pat] by simp
  then show ?thesis
    unfolding once [symmetric]
    by (intro goto_round [OF assms, where r = "if \<not> set_sat neg es ?prev \<and> set_sat neg es ?here then Some s else None"])
      (use st once in \<open>simp_all split: if_splits\<close>)
qed

lemma digit_index:
  assumes "n < 9"
  shows "isdigit (of_nat (49 + n))" "uint (of_nat (49 + n) :: byte) - uint (ch CHR ''1'') = int n"
    "(of_nat (49 + n) :: byte) \<noteq> ch CHR ''b''" "(of_nat (49 + n) :: byte) \<noteq> ch CHR ''f''"
proof -
  have u: "unat (of_nat (49 + n) :: byte) = 49 + n" using assms by (intro unat_of_nat_small) simp
  then show "isdigit (of_nat (49 + n))" using assms by (simp add: isdigit_def word_le_nat_alt del: of_nat_add)
  then show "(of_nat (49 + n) :: byte) \<noteq> ch CHR ''b''" "(of_nat (49 + n) :: byte) \<noteq> ch CHR ''f''"
    using not_punct(3) by (auto simp: isdigit_def simp del: of_nat_add)
  have "uint (ch CHR ''1'') = 49" by code_simp
  then show "uint (of_nat (49 + n) :: byte) - uint (ch CHR ''1'') = int n"
    using u by (simp add: uint_nat del: of_nat_add)
qed

lemma back_round:
  assumes "at_items M anchor pre (IBack n # ps) s c"
  shows "round_ok M anchor pre (IBack n) ps s c (match_once M rec c s (length pre))"
proof -
  note st = at_itemsD [OF assms]
  let ?src = "mi_src M" and ?y = "of_nat (49 + n) :: byte"
  have n: "n < 9" "n < length c" "snd (c ! n) \<noteq> CAP_UNFINISHED" "items_ok (opens c) ps"
    using st(2) opens_nth [of n c] by auto
  obtain init l where cn: "c ! n = (init, l)" by (cases "c ! n")
  let ?r = "if 0 \<le> l \<and> s + nat l \<le> length ?src \<and> take (nat l) (drop init ?src) = take (nat l) (drop s ?src)
    then Some (s + nat l) else None"
  have cap: "l = CAP_POSITION \<or> 0 \<le> l \<and> init + nat l \<le> length ?src"
    using caps_ok_nth [OF st(3) n(2)] n(3) cn by (auto simp: cap_ok_iff)
  have check: "check_capture c ?y = Inr n"
    using n digit_index(2) [OF n(1)] by (simp add: check_capture_def Let_def del: of_nat_add)
  have mc0: "match_capture M c s ?y = (if nat (l mod 2 ^ 64) \<le> length ?src - s
      then if length ?src < init + nat (l mod 2 ^ 64) then Inl (MemFault ''capture outside the subject'')
        else Inr (if take (nat (l mod 2 ^ 64)) (drop init ?src) = take (nat (l mod 2 ^ 64)) (drop s ?src)
          then Some (s + nat (l mod 2 ^ 64)) else None)
      else Inr None)"
    unfolding match_capture_def check ebind_Inr Let_def cn fst_conv snd_conv ..
  have mc: "match_capture M c s ?y = Inr ?r"
  proof (cases "l = CAP_POSITION")
    case True
    have "nat (CAP_POSITION mod 2 ^ 64) = 2 ^ 64 - 2" by (simp add: CAP_POSITION_def)
    then have "\<not> nat (l mod 2 ^ 64) \<le> length ?src - s" using True size by simp
    then show ?thesis unfolding mc0 using True by (simp add: CAP_POSITION_def)
  next
    case False
    then have l: "0 \<le> l" "init + nat l \<le> length ?src" using cap by auto
    then have "nat l < 2 ^ 63" using size by linarith
    then have "l mod 2 ^ 64 = l" using l(1) by simp
    then show ?thesis unfolding mc0 using l st(4) by (simp add: le_diff_conv2 add.commute)
  qed
  have b: "byte_at (mi_pat M) (length pre) = Inr L_ESC" "byte_at (mi_pat M) (length pre + 1) = Inr ?y"
    using st(1) by (simp_all add: pattern_text_simps nth_append del: of_nat_add)
  have ne: "L_ESC \<noteq> ch CHR ''(''" "L_ESC \<noteq> ch CHR '')''" "L_ESC \<noteq> ch CHR ''$''" by (simp_all add: L_ESC_def)
  have "match_once M rec c s (length pre) =
      Inr (case ?r of Some s' \<Rightarrow> Goto s' (length pre + 2) c | None \<Rightarrow> Done None c)"
    unfolding match_once_def b ebind_Inr mc using ne digit_index [OF n(1)]
    by (simp only: if_False if_True simp_thms mc ebind_Inr)
  then show ?thesis
    by (intro goto_round [OF assms n(4), where r = ?r])
      (use cn in \<open>simp_all split: if_splits\<close>)
qed

lemma item_round:
  assumes "at_items M anchor pre (it # ps) s c" "length ps < d"
  shows "round_ok M anchor pre it ps s c (match_once M rec c s (length pre))"
  using assms
  by (cases it) (simp_all add: char_round open_round close_round balance_round frontier_round back_round)

lemma end_round:
  assumes "at_items M anchor pre [] s c"
  shows "match_loop M rec c s (length pre) = Inr (first c (matches (mi_src M) anchor [] s c))"
proof (cases anchor)
  case True
  then have p: "mi_pat M = pre @ [ch CHR ''$'']" using at_itemsD(1) [OF assms] by (simp add: pattern_text_def)
  then have "byte_at (mi_pat M) (length pre) = Inr (ch CHR ''$'')" by simp
  then have "match_once M rec c s (length pre) = Inr (Done (if s = length (mi_src M) then Some s else None) c)"
    using p by (simp add: match_once_def)
  then show ?thesis using p True by (subst match_loop.simps) simp
next
  case False
  then have "mi_pat M = pre" using at_itemsD(1) [OF assms] by (simp add: pattern_text_def)
  then show ?thesis using False by (subst match_loop.simps) simp
qed

lemma item_text_not_empty: "item_text it \<noteq> []"
  using single_text_not_empty by (cases it) simp_all

lemma loop_exact:
  assumes "at_items M anchor pre ps s c" "length ps \<le> d"
  shows "match_loop M rec c s (length pre) = Inr (first c (matches (mi_src M) anchor ps s c))"
  using assms
proof (induction ps arbitrary: pre s c)
  case Nil
  then show ?case using end_round by blast
next
  case (Cons it ps)
  have "length pre \<noteq> length (mi_pat M)"
    using at_itemsD(1) [OF Cons.prems(1)] item_text_not_empty [of it] by (simp add: pattern_text_simps)
  then have loop: "match_loop M rec c s (length pre) = ebind (match_once M rec c s (length pre))
      (\<lambda>j. case j of Done res c \<Rightarrow> Inr (res, c) | Goto s p c \<Rightarrow> match_loop M rec c s p)"
    by (subst match_loop.simps) (simp only: if_False)
  have "round_ok M anchor pre it ps s c (match_once M rec c s (length pre))"
    using Cons.prems by (intro item_round) simp_all
  then show ?case
    unfolding round_ok_def Let_def loop
  proof (elim disjE exE conjE)
    fix s'
    assume g: "match_once M rec c s (length pre) = Inr (Goto s' (length (pre @ item_text it)) c)"
      "at_items M anchor (pre @ item_text it) ps s' c"
      "matches (mi_src M) anchor (it # ps) s c = matches (mi_src M) anchor ps s' c"
    show "ebind (match_once M rec c s (length pre)) (\<lambda>j. case j of Done res c \<Rightarrow> Inr (res, c)
        | Goto s p c \<Rightarrow> match_loop M rec c s p) = Inr (first c (matches (mi_src M) anchor (it # ps) s c))"
      unfolding g(1,3) ebind_Inr jump.case using Cons.IH [OF g(2)] Cons.prems(2) by simp
  qed simp
qed

end

section \<open>The matcher\<close>

lemma do_match_exact:
  assumes "length (mi_src M) < 2 ^ 63"
  shows "at_items M anchor pre ps s c \<Longrightarrow> length ps < d \<Longrightarrow>
    do_match d M c s (length pre) = Inr (first c (matches (mi_src M) anchor ps s c))"
proof (induction d arbitrary: pre ps s c)
  case (Suc d)
  have "exact_matcher M anchor (do_match d M) d"
    by standard (use assms Suc.IH in auto)
  then show ?case using exact_matcher.loop_exact Suc.prems by simp
qed simp

interpretation patterns: exact_matcher "input_of M" anchor "do_match d (input_of M)" d for M anchor d
  using input_of [of M] by unfold_locales (auto intro: do_match_exact)


text \<open>C4:
  The matcher is exact.  On the text of any well-formed pattern of fewer than \<open>MAXCCALLS\<close> items and
  from any position of the subject, \<open>match\<close> raises no error; it returns the end and the captures of
  the first way to match in the order of preference, and fails exactly if there is no way at all.
\<close>

theorem match_meaning:
  assumes "length src < 2 ^ 63" "items_ok [] ps" "length ps < MAXCCALLS" "s \<le> length src"
  shows "do_match MAXCCALLS \<lparr>mi_src = src, mi_pat = pattern_text anchor ps\<rparr> [] s 0 =
    Inr (case matches src anchor ps s [] of [] \<Rightarrow> (None, []) | (e, c) # rest \<Rightarrow> (Some e, c))"
proof -
  let ?M = "\<lparr>mi_src = src, mi_pat = pattern_text anchor ps\<rparr>"
  have "at_items (input_of (subject_of ?M)) anchor [] ps s []"
    using assms by (simp add: subject_of_inverse at_items_def opens_def)
  then have "do_match MAXCCALLS ?M [] s (length ([] :: byte list)) = Inr (first [] (matches src anchor ps s []))"
    using patterns.exact [of "subject_of ?M" anchor "[]" ps s "[]" MAXCCALLS] assms(1,3)
    by (simp add: subject_of_inverse)
  then show ?thesis by (simp add: first_def)
qed

text \<open>The pattern \<open>(%a+)=(.-)$\<close> on \<open>key=12\<close>.\<close>

definition sample_pattern :: "item list" where
  "sample_pattern = [IOpen, IChar (SClass (ch CHR ''a'')) RPlus, IClose, IChar (SChar (ch CHR ''='')) ROnce,
     IOpen, IChar SAny RLazy, IClose]"

lemma sample_pattern_text: "pattern_text True sample_pattern = str_bytes ''(%a+)%=(.-)$''"
  by code_simp

lemma match_meaning_witness:
  "do_match MAXCCALLS \<lparr>mi_src = str_bytes ''key=12'', mi_pat = str_bytes ''(%a+)%=(.-)$''\<rparr> [] 0 0 =
    Inr (Some 6, [(0, 3), (4, 2)])"
proof -
  have m: "matches (str_bytes ''key=12'') True sample_pattern 0 [] = [(6, [(0, 3), (4, 2)])]" by code_simp
  have "items_ok [] sample_pattern" "length sample_pattern < MAXCCALLS" by code_simp+
  then show ?thesis
    using match_meaning [of "str_bytes ''key=12''" sample_pattern 0 True] m
    by (simp add: sample_pattern_text)
qed

section \<open>Searches\<close>

text \<open>The text of a whole pattern, with the anchor at its start if \<open>start\<close>.\<close>

definition full_text :: "bool \<Rightarrow> bool \<Rightarrow> item list \<Rightarrow> byte list" where
  "full_text start anchor ps = (if start then [ch CHR ''^''] else []) @ pattern_text anchor ps"

definition first_match :: "byte list \<Rightarrow> bool \<Rightarrow> bool \<Rightarrow> item list \<Rightarrow> nat \<Rightarrow> (nat \<times> nat \<times> caps) option" where
  "first_match src start anchor ps s0 =
     map_option (\<lambda>s. (s, hd (matches src anchor ps s [])))
       (List.find (\<lambda>s. matches src anchor ps s [] \<noteq> []) (if start then [s0] else [s0..<length src + 1]))"

lemma pattern_text_hd: "items_ok os ps \<Longrightarrow> byte_at (pattern_text anchor ps) 0 = Inr x \<Longrightarrow> x \<noteq> ch CHR ''^''"
proof (cases ps)
  case Nil
  assume "byte_at (pattern_text anchor ps) 0 = Inr x"
  then show ?thesis using Nil by (cases anchor) (auto simp: pattern_text_def byte_at_def)
next
  case (Cons it ps')
  assume b: "byte_at (pattern_text anchor ps) 0 = Inr x"
  have q: "byte_at (quote b @ r) 0 = Inr x \<Longrightarrow> x \<noteq> ch CHR ''^''" for b r
    using puncts(4) by (cases "ispunct b") (auto simp: quote_def L_ESC_def)
  show ?thesis
  proof (cases it)
    case (IChar y r)
    then show ?thesis using b Cons q by (cases y) (auto simp: pattern_text_simps L_ESC_def set_text_def)
  qed (use b Cons in \<open>auto simp: pattern_text_simps L_ESC_def\<close>)
qed

lemma find_loop_exact:
  assumes "mi_pat M = full_text start anchor ps" "length (mi_src M) < 2 ^ 63" "items_ok [] ps" "length ps < MAXCCALLS"
    "s \<le> length (mi_src M)"
  shows "find_loop M False start (if start then 1 else 0) s =
    (case first_match (mi_src M) start anchor ps s of
       None \<Rightarrow> Inr None
     | Some (s1, e, c) \<Rightarrow> ebind (push_captures M c (Some (s1, e))) (\<lambda>vs. Inr (Some vs)))"
  using assms(5)
proof (induction "length (mi_src M) - s" arbitrary: s rule: less_induct)
  case less
  let ?pre = "if start then [ch CHR ''^''] else []" and ?ms = "\<lambda>s. matches (mi_src M) anchor ps s []"
  have "at_items M anchor ?pre ps s []"
    using assms less.prems by (simp add: at_items_def full_text_def opens_def)
  then have r: "do_match MAXCCALLS M [] s (if start then 1 else 0) = Inr (first [] (?ms s))"
    using do_match_exact [OF assms(2), of anchor ?pre ps s "[]"] assms(4) by (simp split: if_splits)
  show ?case
  proof (cases "?ms s")
    case Nil
    have step: "find_loop M False start (if start then 1 else 0) s =
        (if s < length (mi_src M) \<and> \<not> start then find_loop M False start (if start then 1 else 0) (s + 1) else Inr None)"
      by (subst find_loop.simps) (simp add: r Nil)
    show ?thesis
    proof (cases "s < length (mi_src M) \<and> \<not> start")
      case True
      then have "[s..<length (mi_src M) + 1] = s # [s + 1..<length (mi_src M) + 1]" by (simp add: upt_conv_Cons)
      then have "first_match (mi_src M) start anchor ps s = first_match (mi_src M) start anchor ps (s + 1)"
        using True Nil by (simp add: first_match_def del: upt_Suc)
      moreover have "length (mi_src M) - (s + 1) < length (mi_src M) - s" "s + 1 \<le> length (mi_src M)" using True by auto
      ultimately show ?thesis using step True less.hyps [of "s + 1"] by simp
    next
      case False
      then have "first_match (mi_src M) start anchor ps s = None"
        using Nil less.prems by (auto simp: first_match_def)
      then show ?thesis using step False by auto
    qed
  next
    case (Cons x xs)
    obtain e c where x: "x = (e, c)" by (cases x)
    have "[s..<length (mi_src M) + 1] = s # [s + 1..<length (mi_src M) + 1]"
      using less.prems by (simp add: upt_conv_Cons del: upt_Suc)
    then have "first_match (mi_src M) start anchor ps s = Some (s, e, c)"
      using Cons x by (simp add: first_match_def del: upt_Suc)
    then show ?thesis by (subst find_loop.simps) (simp add: r Cons x)
  qed
qed

text \<open>C16:
  \<open>string.match\<close> finds the leftmost match: of all positions from the start on (only the start itself for
  a pattern with \<open>^\<close>), the first one from which the pattern can match, there the preferred way to
  match, and its captures.  Without a match anywhere the result is nil.
\<close>

theorem string_match_meaning:
  assumes "length src < 2 ^ 63" "items_ok [] ps" "length ps < MAXCCALLS" "s0 \<le> length src"
  shows "str_match src (full_text start anchor ps) (Some (int s0 + 1)) =
    (case first_match src start anchor ps s0 of
       None \<Rightarrow> Inr None
     | Some (s, e, c) \<Rightarrow> ebind (push_captures \<lparr>mi_src = src, mi_pat = full_text start anchor ps\<rparr> c (Some (s, e)))
         (\<lambda>vs. Inr (Some vs)))"
proof -
  let ?M = "\<lparr>mi_src = src, mi_pat = full_text start anchor ps\<rparr>"
  obtain x where x: "byte_at (pattern_text anchor ps) 0 = Inr x" by (cases "pattern_text anchor ps") (auto simp: byte_at_def)
  have "byte_at (full_text start anchor ps) 0 = Inr (if start then ch CHR ''^'' else x)"
    using x by (simp add: full_text_def)
  moreover have "x \<noteq> ch CHR ''^''" by (rule pattern_text_hd [OF assms(2) x])
  moreover have "posrelat (int s0 + 1) (length src) = int s0 + 1" "nat (int s0 + 1) - 1 = s0"
    by (simp_all add: posrelat_def nat_add_distrib)
  ultimately have "str_match src (full_text start anchor ps) (Some (int s0 + 1)) =
      find_loop ?M False start (if start then 1 else 0) s0"
    using assms(4) by (simp add: str_match_def str_find_aux_def Let_def)
  then show ?thesis using find_loop_exact [of ?M start anchor ps s0] assms by simp
qed

lemma string_match_meaning_witness:
  "str_match (str_bytes ''; key=12'') (full_text False True sample_pattern) (Some (int 0 + 1)) =
    Inr (Some [CapStr (str_bytes ''key''), CapStr (str_bytes ''12'')])"
proof -
  have f: "first_match (str_bytes ''; key=12'') False True sample_pattern 0 = Some (2, 8, [(2, 3), (6, 2)])" by code_simp
  have "items_ok [] sample_pattern" "length sample_pattern < MAXCCALLS" by code_simp+
  then have "str_match (str_bytes ''; key=12'') (full_text False True sample_pattern) (Some (int 0 + 1)) =
      ebind (push_captures \<lparr>mi_src = str_bytes ''; key=12'', mi_pat = full_text False True sample_pattern\<rparr>
        [(2, 3), (6, 2)] (Some (2, 8))) (\<lambda>vs. Inr (Some vs))"
    using string_match_meaning [of "str_bytes ''; key=12''" sample_pattern 0 False True] f by simp
  also have "\<dots> = Inr (Some [CapStr (str_bytes ''key''), CapStr (str_bytes ''12'')])" by code_simp
  finally show ?thesis .
qed

end
