(* ===== verification/Lua_Find_Spec.thy ===== *)
theory Lua_Find_Spec
  imports Lua_Match_Spec
begin

text \<open>
  The searches and substitutions built on the matcher: plain search finds the first occurrence
  and agrees with the matcher on patterns without magic characters, the results of find lie in
  the subject, and gsub ends, counts and never reads outside its strings.
\<close>

section \<open>Plain search\<close>

definition occurs :: "byte list \<Rightarrow> byte list \<Rightarrow> nat \<Rightarrow> bool" where
  "occurs s1 s2 k \<longleftrightarrow> k + length s2 \<le> length s1 \<and> take (length s2) (drop k s1) = s2"

lemma occurs_drop: "i \<le> length s1 \<Longrightarrow> occurs (drop i s1) s2 k \<longleftrightarrow> occurs s1 s2 (i + k)"
  by (auto simp: occurs_def add.commute)

lemma occurs_Cons:
  "occurs s1 (x # s2) k \<longleftrightarrow> k < length s1 \<and> s1 ! k = x \<and> k + length (x # s2) \<le> length s1 \<and> take (length s2) (drop (k + 1) s1) = s2"
  by (cases "k < length s1") (auto simp: occurs_def Cons_nth_drop_Suc [symmetric])

lemma memchr_NoneD: "memchr s c n = None \<Longrightarrow> i < n \<Longrightarrow> s ! i \<noteq> c"
  by (auto simp: memchr_def find_None_iff)

definition first_occurrence :: "byte list \<Rightarrow> byte list \<Rightarrow> nat option \<Rightarrow> bool" where
  "first_occurrence s1 s2 r \<longleftrightarrow> (case r of
     None \<Rightarrow> \<forall>k. \<not> occurs s1 s2 k
   | Some k \<Rightarrow> occurs s1 s2 k \<and> (\<forall>j. occurs s1 s2 j \<longrightarrow> k \<le> j))"

lemma lmemfind_loop_first:
  assumes "l1 + length s2 = length s1"
  shows "first_occurrence s1 (x # s2) (map_option (\<lambda>k. k - off) (lmemfind_loop s1 l1 (x # s2) off)) \<and>
    (\<forall>k. lmemfind_loop s1 l1 (x # s2) off = Some k \<longrightarrow> off \<le> k)"
  using assms
proof (induction l1 arbitrary: s1 off rule: less_induct)
  case (less l1)
  note eq = lmemfind_loop.simps [of s1 l1 "x # s2" off]
  show ?case
  proof (cases "0 < l1")
    case False
    then have "\<not> occurs s1 (x # s2) k" for k using less.prems by (auto simp: occurs_def)
    moreover have "lmemfind_loop s1 l1 (x # s2) off = None" using False by (simp only: eq if_False)
    ultimately show ?thesis by (simp add: first_occurrence_def)
  next
    case True
    show ?thesis
    proof (cases "memchr s1 x l1")
      case None
      have "\<not> occurs s1 (x # s2) k" for k
        using memchr_NoneD [OF None, of k] less.prems by (auto simp: occurs_Cons)
      then show ?thesis using True None by (simp add: eq first_occurrence_def)
    next
      case (Some k)
      note k = memchr_SomeD [OF Some]
      have before: "\<not> occurs s1 (x # s2) j" if "j < k" for j
        using that k by (auto simp: occurs_Cons)
      show ?thesis
      proof (cases "take (length s2) (drop (k + 1) s1) = s2")
        case here: True
        then have "occurs s1 (x # s2) k" using k less.prems by (simp add: occurs_Cons)
        then show ?thesis using before here True Some
          by (simp add: eq first_occurrence_def) (metis not_less)
      next
        case no: False
        let ?r = "lmemfind_loop (drop (k + 1) s1) (l1 - (k + 1)) (x # s2) (off + k + 1)"
        have r: "lmemfind_loop s1 l1 (x # s2) off = ?r" using True Some no by (simp add: eq)
        have IH: "first_occurrence (drop (k + 1) s1) (x # s2) (map_option (\<lambda>i. i - (off + k + 1)) ?r)"
          "\<And>i. ?r = Some i \<Longrightarrow> off + k + 1 \<le> i"
          using less.IH [of "l1 - (k + 1)" "drop (k + 1) s1" "off + k + 1"] k less.prems by auto
        have shift: "occurs (drop (k + 1) s1) (x # s2) j \<longleftrightarrow> occurs s1 (x # s2) (k + 1 + j)" for j
          using k less.prems by (intro occurs_drop) simp
        have "k + 1 \<le> j" if "occurs s1 (x # s2) j" for j
          using that before [of j] no by (cases "j = k"; cases "j < k") (auto simp: occurs_Cons)
        then have later: "\<exists>i. j = k + 1 + i \<and> occurs (drop (k + 1) s1) (x # s2) i" if "occurs s1 (x # s2) j" for j
          using that shift by (metis le_add_diff_inverse)
        show ?thesis
        proof (cases ?r)
          case N: None
          then show ?thesis using IH(1) later unfolding r by (auto simp: first_occurrence_def)
        next
          case S: (Some i)
          then have "off + k + 1 \<le> i" by (rule IH(2))
          moreover from this have "k + 1 + (i - (off + k + 1)) = i - off" by simp
          ultimately show ?thesis using IH(1) S later shift unfolding r
            by (fastforce simp: first_occurrence_def)
        qed
      qed
    qed
  qed
qed

lemma lmemfind_first: "first_occurrence s1 s2 (lmemfind s1 s2)"
proof (cases s2)
  case Nil
  then show ?thesis by (simp add: lmemfind_def first_occurrence_def occurs_def)
next
  case (Cons x xs)
  show ?thesis
  proof (cases "length s1 < length s2")
    case True
    then show ?thesis using Cons by (auto simp: lmemfind_def first_occurrence_def occurs_def)
  next
    case False
    then have "length s1 - (length s2 - 1) + length xs = length s1" using Cons by simp
    from lmemfind_loop_first [OF this, of x 0] show ?thesis
      using Cons False by (simp add: lmemfind_def option.map_ident)
  qed
qed

section \<open>Patterns without magic characters\<close>

lemma nospecials_loop_iff:
  "k \<le> length p \<Longrightarrow> nospecials_loop p k \<longleftrightarrow> set (drop k p) \<inter> set SPECIALS = {}"
proof (induction p k rule: nospecials_loop.induct)
  case (1 p k)
  let ?c = "c_string p k"
  have zero: "0 \<notin> set SPECIALS" by (simp add: SPECIALS_def)
  have c: "?c = takeWhile (\<lambda>b. b \<noteq> 0) (drop k p)" by (simp add: c_string_def)
  have le: "length ?c \<le> length p - k"
    unfolding c by (metis length_takeWhile_le length_drop)
  have split: "drop k p = ?c @ dropWhile (\<lambda>b. b \<noteq> 0) (drop k p)" unfolding c by simp
  show ?case
  proof (cases "\<exists>b \<in> set ?c. b \<in> set SPECIALS")
    case True
    then show ?thesis using split by (subst nospecials_loop.simps) (auto dest: set_takeWhileD simp: c)
  next
    case no: False
    show ?thesis
    proof (cases "k + (length ?c + 1) \<le> length p")
      case True
      let ?j = "k + length ?c"
      have "dropWhile (\<lambda>b. b \<noteq> 0) (drop k p) = drop ?j p"
        unfolding c by (simp add: dropWhile_eq_drop add.commute)
      moreover have "drop ?j p = p ! ?j # drop (?j + 1) p"
        using True by (simp add: Cons_nth_drop_Suc)
      ultimately have rest: "dropWhile (\<lambda>b. b \<noteq> 0) (drop k p) = p ! ?j # drop (?j + 1) p" by simp
      then have "p ! ?j = 0" by (metis (mono_tags, lifting) dropWhile_eq_Cons_conv)
      with rest have "set (drop k p) = set ?c \<union> {0} \<union> set (drop (k + (length ?c + 1)) p)"
        using arg_cong [OF split, of set] by auto
      moreover have "nospecials_loop p k = nospecials_loop p (k + (length ?c + 1))"
        using no True by (subst nospecials_loop.simps) (simp add: Let_def)
      ultimately show ?thesis using "1.IH" [OF no refl True True] no zero by auto
    next
      case False
      then have "length ?c = length (drop k p)" using le by simp
      then have "?c = drop k p" using c by (metis append_Nil2 length_0_conv split add_cancel_right_right length_append)
      moreover have "nospecials_loop p k"
        using no False by (subst nospecials_loop.simps) (simp add: Let_def)
      ultimately show ?thesis using no by auto
    qed
  qed
qed

lemma nospecials_iff: "nospecials p \<longleftrightarrow> set p \<inter> set SPECIALS = {}"
  by (simp add: nospecials_def nospecials_loop_iff)

text \<open>A pattern of ordinary characters: no magic character and no closing parenthesis.\<close>

definition literal :: "byte list \<Rightarrow> bool" where
  "literal p \<longleftrightarrow> set p \<inter> set SPECIALS = {} \<and> ch CHR '')'' \<notin> set p"

lemma literal_byte:
  assumes "literal (mi_pat M)" "byte_at (mi_pat M) p = Inr x"
  shows "x \<noteq> ch CHR ''('' \<and> x \<noteq> ch CHR '')'' \<and> x \<noteq> ch CHR ''$'' \<and> x \<noteq> L_ESC \<and> x \<noteq> ch CHR ''['' \<and>
    x \<noteq> ch CHR ''.'' \<and> x \<noteq> ch CHR ''*'' \<and> x \<noteq> ch CHR ''?'' \<and> x \<noteq> ch CHR ''-'' \<and> x \<noteq> ch CHR ''+'' \<and> x \<noteq> ch CHR ''^''"
proof (cases "p < length (mi_pat M)")
  case True
  then have "x \<in> set (mi_pat M)" using assms(2) by (auto simp: byte_at_def)
  then show ?thesis using assms(1) by (auto simp: literal_def SPECIALS_def L_ESC_def)
next
  case False
  then have "x = 0" using assms(2) by (auto simp: byte_at_def split: if_splits)
  then show ?thesis by (simp add: L_ESC_def)
qed

lemma match_once_literal:
  assumes "literal (mi_pat M)" "p < length (mi_pat M)" "s \<le> length (mi_src M)"
  shows "match_once M rec c s p =
    Inr (if s < length (mi_src M) \<and> mi_src M ! s = mi_pat M ! p then Goto (s + 1) (p + 1) c else Done None c)"
proof -
  have b: "byte_at (mi_pat M) p = Inr (mi_pat M ! p)" using assms(2) by (simp add: byte_at_def)
  obtain x where x: "byte_at (mi_pat M) (p + 1) = Inr x" using assms(2)
    by (cases "p + 1 < length (mi_pat M)") (auto simp: byte_at_def)
  note lit = literal_byte [OF assms(1) b] literal_byte [OF assms(1) x]
  have "classend (mi_pat M) p = Inr (p + 1)" using b lit by (simp add: classend_def)
  moreover have "singlematch M s p (p + 1) = Inr (s < length (mi_src M) \<and> mi_src M ! s = mi_pat M ! p)"
    using b lit by (auto simp: singlematch_def byte_at_def)
  ultimately show ?thesis using b x lit by (simp add: match_once_def match_dflt_def)
qed

lemma match_loop_literal:
  assumes "literal (mi_pat M)" "p \<le> length (mi_pat M)" "s \<le> length (mi_src M)"
  shows "match_loop M rec c s p =
    Inr (if take (length (mi_pat M) - p) (drop s (mi_src M)) = drop p (mi_pat M)
         then Some (s + (length (mi_pat M) - p)) else None, c)"
  using assms(2,3)
proof (induction "length (mi_pat M) - p" arbitrary: s p)
  case 0
  then show ?case by (simp add: match_loop.simps)
next
  case (Suc n)
  then have p: "p < length (mi_pat M)" by simp
  note once = match_once_literal [OF assms(1) p Suc.prems(2)]
  have d: "drop p (mi_pat M) = mi_pat M ! p # drop (p + 1) (mi_pat M)"
    using p by (simp add: Cons_nth_drop_Suc)
  have n: "length (mi_pat M) - p = Suc (length (mi_pat M) - (p + 1))" using p by simp
  show ?case
  proof (cases "s < length (mi_src M) \<and> mi_src M ! s = mi_pat M ! p")
    case True
    then have "drop s (mi_src M) = mi_pat M ! p # drop (s + 1) (mi_src M)"
      by (metis Cons_nth_drop_Suc Suc_eq_plus1)
    then show ?thesis
      using Suc.hyps(1) [of "p + 1" "s + 1"] Suc.hyps(2) p True once
      by (subst match_loop.simps) (simp add: d n)
  next
    case False
    then have "take (length (mi_pat M) - p) (drop s (mi_src M)) \<noteq> drop p (mi_pat M)"
      unfolding d n by (cases "s < length (mi_src M)") (auto simp: Cons_nth_drop_Suc [symmetric])
    then show ?thesis using p once False by (subst match_loop.simps) simp
  qed
qed

lemma first_occurrence_unique: "first_occurrence s1 s2 r \<Longrightarrow> first_occurrence s1 s2 r' \<Longrightarrow> r = r'"
  unfolding first_occurrence_def by (cases r; cases r') (auto intro: antisym)

lemma lmemfind_here: "occurs s1 s2 0 \<Longrightarrow> lmemfind s1 s2 = Some 0"
  by (rule first_occurrence_unique [OF lmemfind_first]) (simp add: first_occurrence_def)

lemma lmemfind_later:
  assumes "\<not> occurs (drop i s1) s2 0" "i < length s1"
  shows "lmemfind (drop i s1) s2 = map_option Suc (lmemfind (drop (i + 1) s1) s2)"
proof (rule first_occurrence_unique [OF lmemfind_first])
  have Suc: "occurs (drop i s1) s2 (Suc k) \<longleftrightarrow> occurs (drop (i + 1) s1) s2 k" for k
    using assms(2) by (simp add: occurs_drop)
  have "\<exists>j. k = Suc j" if "occurs (drop i s1) s2 k" for k using that assms(1) by (cases k) auto
  then show "first_occurrence (drop i s1) s2 (map_option Suc (lmemfind (drop (i + 1) s1) s2))"
    using lmemfind_first [of "drop (i + 1) s1" s2]
    by (cases "lmemfind (drop (i + 1) s1) s2")
      (simp_all add: first_occurrence_def, (metis Suc Suc_eq_plus1 Suc_le_mono)+)
qed

lemma do_match_literal:
  assumes "literal p" "i \<le> length s"
  shows "do_match MAXCCALLS \<lparr>mi_src = s, mi_pat = p\<rparr> c i 0 =
    Inr (if occurs (drop i s) p 0 then Some (i + length p) else None, c)"
proof -
  have "do_match MAXCCALLS M c i 0 = match_loop M (do_match 199 M) c i 0" for M
    using do_match.simps(2) [of 199 M c i 0] by (simp add: MAXCCALLS_def)
  moreover have "take (length p) (drop i s) = p \<longleftrightarrow> occurs (drop i s) p 0"
    by (auto simp: occurs_def) (metis length_drop length_take min.cobounded1)
  ultimately show ?thesis using match_loop_literal [of "\<lparr>mi_src = s, mi_pat = p\<rparr>" 0 i] assms by simp
qed

lemma find_loop_literal:
  assumes "literal p" "i \<le> length s"
  shows "find_loop \<lparr>mi_src = s, mi_pat = p\<rparr> True False 0 i = Inr (
      case lmemfind (drop i s) p of
        None \<Rightarrow> None
      | Some k \<Rightarrow> Some [CapInt (int (i + k) + 1), CapInt (int (i + k + length p))])"
  using assms(2)
proof (induction "length s - i" arbitrary: i rule: less_induct)
  case less
  show ?case
  proof (cases "occurs (drop i s) p 0")
    case True
    then show ?thesis
      by (subst find_loop.simps) (simp add: do_match_literal [OF assms(1) less.prems] lmemfind_here push_captures_def)
  next
    case no: False
    show ?thesis
    proof (cases "i < length s")
      case True
      then show ?thesis
        using less.hyps [of "i + 1"] lmemfind_later [OF no True] no
        by (subst find_loop.simps) (simp add: do_match_literal [OF assms(1) less.prems] split: option.split)
    next
      case False
      then have "i = length s" using less.prems by simp
      then have "\<not> occurs (drop i s) p k" for k using no by (auto simp: occurs_def)
      then have "lmemfind (drop i s) p = None"
        by (intro first_occurrence_unique [OF lmemfind_first]) (simp add: first_occurrence_def)
      then show ?thesis using no False
        by (subst find_loop.simps) (simp add: do_match_literal [OF assms(1) less.prems])
    qed
  qed
qed

text \<open>
  plain search finds the first occurrence: the result of \<open>lmemfind\<close> is a position where the
  bytes of the pattern stand and no earlier position has them, and without a result no position
  has them.
\<close>

theorem plain_search_first:
  "case lmemfind s1 s2 of
     None \<Rightarrow> \<forall>k. \<not> occurs s1 s2 k
   | Some k \<Rightarrow> occurs s1 s2 k \<and> (\<forall>j. occurs s1 s2 j \<longrightarrow> k \<le> j)"
  using lmemfind_first [of s1 s2] by (simp add: first_occurrence_def)

lemma plain_search_first_witness: "\<not> occurs [97, 98, 97, 98, 99] [97, 98, 99] 1 \<and> lmemfind [97, 98, 97, 98, 99] [97, 98, 99] = Some 2"
proof -
  have r: "lmemfind [97, 98, 97, 98, 99] [97, 98, 99] = Some 2" by code_simp
  then have "occurs [97, 98, 97, 98, 99] [97, 98, 99] 1 \<Longrightarrow> 2 \<le> (1::nat)"
    using plain_search_first [of "[97, 98, 97, 98, 99]" "[97, 98, 99]"] by (simp only: option.case)
  then show ?thesis using r by auto
qed

text \<open>
  the shortcut of \<open>string.find\<close> is sound: for a pattern in which \<open>nospecials\<close> sees no magic
  character and which has no closing parenthesis (which is not in \<open>SPECIALS\<close>, although the
  matcher gives it a meaning), plain search returns what the matcher would, from every start.
\<close>

theorem plain_search_is_match:
  assumes "nospecials p" "ch CHR '')'' \<notin> set p" "i \<le> length s"
  shows "find_loop \<lparr>mi_src = s, mi_pat = p\<rparr> True False 0 i = Inr (
      case lmemfind (drop i s) p of
        None \<Rightarrow> None
      | Some k \<Rightarrow> Some [CapInt (int (i + k) + 1), CapInt (int (i + k + length p))])"
  using assms by (intro find_loop_literal) (auto simp: literal_def nospecials_iff)

lemma plain_search_is_match_witness:
  "find_loop \<lparr>mi_src = str_bytes ''x=a,b'', mi_pat = str_bytes ''a,''\<rparr> True False 0 1 = Inr (Some [CapInt 3, CapInt 4])"
proof -
  have "nospecials (str_bytes ''a,'')" "lmemfind (drop 1 (str_bytes ''x=a,b'')) (str_bytes ''a,'') = Some 1"
    by code_simp+
  then show ?thesis
    using plain_search_is_match [of "str_bytes ''a,''" 1 "str_bytes ''x=a,b''"] by (simp add: str_bytes_def)
qed

section \<open>Captures and results\<close>

lemma push_onecapture_wp:
  assumes "caps_ok M e c" "e \<le> length (mi_src M)" "i < length c \<or> i = 0 \<and> whole \<noteq> None \<or> 0 < i"
  shows "wp (push_onecapture M c i whole) run_error (\<lambda>v. True)"
proof (cases "i < length c")
  case True
  then have "cap_ok M e (c ! i)" by (rule caps_ok_nth [OF assms(1)])
  then show ?thesis using True
    by (auto simp: push_onecapture_def cap_ok_iff split: prod.split)
qed (use assms(3) in \<open>auto simp: push_onecapture_def\<close>)

lemma push_captures_wp:
  assumes "caps_ok M e c" "e \<le> length (mi_src M)"
  shows "wp (push_captures M c whole) run_error (\<lambda>vs. True)"
  unfolding push_captures_def Let_def
proof (rule wp_efold)
  fix i vs assume i: "i \<in> set [0..<if length c = 0 \<and> whole \<noteq> None then 1 else length c]"
  show "wp (ebind (push_onecapture M c i whole) (\<lambda>v. Inr (vs @ [v]))) run_error (\<lambda>vs. True)"
    by (rule wp_ebind [OF push_onecapture_wp [OF assms]]) (use i in \<open>auto split: if_splits\<close>)
qed simp

definition find_ok :: "minput \<Rightarrow> nat \<Rightarrow> capval list option \<Rightarrow> bool" where
  "find_ok M s r \<longleftrightarrow> (\<forall>vs. r = Some vs \<longrightarrow>
     (\<exists>i j caps. vs = CapInt i # CapInt j # caps \<and> int s < i \<and> i \<le> j + 1 \<and> j \<le> int (length (mi_src M))))"

lemma find_ok_later: "find_ok M s' r \<Longrightarrow> s \<le> s' \<Longrightarrow> find_ok M s r"
  by (fastforce simp: find_ok_def)

lemma find_loop_wp:
  assumes "length (mi_src M) < 2 ^ 63" "p \<le> length (mi_pat M)" "s1 \<le> length (mi_src M)"
  shows "wp (find_loop M fnd anchor p s1) run_error (\<lambda>r. fnd \<longrightarrow> find_ok M s1 r)"
  using assms(3)
proof (induction "length (mi_src M) - s1" arbitrary: s1 rule: less_induct)
  case less
  have m: "wp (do_match MAXCCALLS M [] s1 p) run_error (result_ok M [] s1)"
    using do_match_ok [OF assms(1)] less.prems assms(2) by simp
  show ?case
  proof (subst find_loop.simps, rule wp_ebind [OF m])
    fix x assume x: "result_ok M [] s1 x"
    obtain res c where xx: "x = (res, c)" by (cases x)
    show "wp (case x of (res, c) \<Rightarrow> (case res of
         Some e \<Rightarrow>
           if fnd then ebind (push_captures M c None) (\<lambda>vs. Inr (Some (CapInt (int s1 + 1) # CapInt (int e) # vs)))
           else ebind (push_captures M c (Some (s1, e))) (\<lambda>vs. Inr (Some vs))
       | None \<Rightarrow> if s1 < length (mi_src M) \<and> \<not> anchor then find_loop M fnd anchor p (s1 + 1) else Inr None))
      run_error (\<lambda>r. fnd \<longrightarrow> find_ok M s1 r)"
    proof (cases res)
      case None
      have "wp (find_loop M fnd anchor p (s1 + 1)) run_error (\<lambda>r. fnd \<longrightarrow> find_ok M s1 r)" if "s1 < length (mi_src M)"
        by (rule wp_mono [OF less.hyps [of "s1 + 1"]]) (use that in \<open>auto intro: find_ok_later [of M "s1 + 1"]\<close>)
      then show ?thesis using None xx by (auto simp: find_ok_def)
    next
      case (Some e)
      then have e: "s1 \<le> e" "e \<le> length (mi_src M)" "caps_ok M e c" using x xx by simp_all
      show ?thesis using Some xx e(1,2)
        by (auto simp: find_ok_def intro!: wp_ebind [OF push_captures_wp [OF e(3,2)]])
    qed
  qed
qed

text \<open>
  the results of \<open>string.find\<close> lie in the subject.  For every subject, pattern and start,
  \<open>string.find\<close> ends; it raises an error of the pattern, finds nothing, or returns positions
  \<open>i\<close> and \<open>j\<close> with \<open>1 \<le> i \<le> j + 1\<close> and \<open>j\<close> at most the length, so that \<open>string.sub\<close> with them
  is the match; and the start is at or behind the one asked for.
\<close>

theorem find_in_range:
  assumes "length s < 2 ^ 63"
  shows "case str_find s p init plain of
      Inl e \<Rightarrow> \<exists>msg. e = RunError msg
    | Inr None \<Rightarrow> True
    | Inr (Some vs) \<Rightarrow> \<exists>i j caps. vs = CapInt i # CapInt j # caps \<and> 1 \<le> i \<and> i \<le> j + 1 \<and> j \<le> int (length s) \<and>
        posrelat (optint init 1) (length s) \<le> i"
proof -
  let ?i = "let i = posrelat (optint init 1) (length s) in if i < 1 then 1 else i"
  have i: "1 \<le> ?i" "posrelat (optint init 1) (length s) \<le> ?i" by (simp_all add: Let_def)
  have "wp (str_find s p init plain) run_error (find_ok \<lparr>mi_src = s, mi_pat = p\<rparr> (nat ?i - 1))"
  proof (cases "int (length s) + 1 < ?i")
    case True
    then show ?thesis by (simp add: str_find_def str_find_aux_def Let_def find_ok_def)
  next
    case False
    then have le: "nat ?i - 1 \<le> length s" by linarith
    have plain: "find_ok \<lparr>mi_src = s, mi_pat = p\<rparr> (nat ?i - 1) (case lmemfind (drop (nat ?i - 1) s) p of
        None \<Rightarrow> None | Some k \<Rightarrow> Some [CapInt (?i + int k), CapInt (?i - 1 + int k + int (length p))])"
    proof (cases "lmemfind (drop (nat ?i - 1) s) p")
      case (Some k)
      then have "occurs (drop (nat ?i - 1) s) p k"
        using lmemfind_first [of "drop (nat ?i - 1) s" p] by (simp add: first_occurrence_def)
      then have "k + length p \<le> length s - (nat ?i - 1)" by (simp add: occurs_def)
      then show ?thesis using Some le i(1) by (auto simp: find_ok_def)
    qed (simp add: find_ok_def)
    have "wp (ebind (byte_at p 0) (\<lambda>x. find_loop \<lparr>mi_src = s, mi_pat = p\<rparr> True (x = ch CHR ''^'') (if x = ch CHR ''^'' then 1 else 0) (nat ?i - 1)))
        run_error (find_ok \<lparr>mi_src = s, mi_pat = p\<rparr> (nat ?i - 1))"
    proof (rule wp_bind [OF wp_byte_at], simp)
      fix x assume x: "byte_at p 0 = Inr x"
      have "wp (find_loop \<lparr>mi_src = s, mi_pat = p\<rparr> True (x = ch CHR ''^'') (if x = ch CHR ''^'' then 1 else 0) (nat ?i - 1))
        run_error (\<lambda>r. True \<longrightarrow> find_ok \<lparr>mi_src = s, mi_pat = p\<rparr> (nat ?i - 1) r)"
        using assms le byte_at_inside [OF x] by (intro find_loop_wp) (auto simp: Suc_le_eq)
      then show "wp (find_loop \<lparr>mi_src = s, mi_pat = p\<rparr> True (x = ch CHR ''^'') (if x = ch CHR ''^'' then 1 else 0) (nat ?i - 1))
        run_error (find_ok \<lparr>mi_src = s, mi_pat = p\<rparr> (nat ?i - 1))" by simp
    qed
    with plain False show ?thesis
      unfolding str_find_def str_find_aux_def Let_def by simp
  qed
  then show ?thesis using i
    by (fastforce simp: wp_def run_error_def find_ok_def split: sum.splits option.splits)
qed

lemma find_in_range_witness:
  "\<exists>i j caps. str_find (str_bytes ''a1b22'') (str_bytes ''(%d+)$'') (Some (- 3)) False = Inr (Some (CapInt i # CapInt j # caps)) \<and> 3 \<le> i \<and> j \<le> 5"
proof -
  have "str_find (str_bytes ''a1b22'') (str_bytes ''(%d+)$'') (Some (- 3)) False = Inr (Some [CapInt 4, CapInt 5, CapStr (str_bytes ''22'')])"
    by code_simp
  then show ?thesis
    using find_in_range [where s = "str_bytes ''a1b22''" and p = "str_bytes ''(%d+)$''" and init = "Some (- 3)" and plain = False]
    by (simp add: str_bytes_def posrelat_def)
qed

section \<open>Substitution\<close>

text \<open>Replacements whose functions and tables raise nothing but errors of the program.\<close>

definition repl_ok :: "'s repl \<Rightarrow> bool" where
  "repl_ok tr \<longleftrightarrow> (case tr of
     ReplStr news \<Rightarrow> True
   | ReplFun f \<Rightarrow> \<forall>vs st. wp (f vs st) run_error (\<lambda>x. True)
   | ReplTab t \<Rightarrow> \<forall>v st. wp (t v st) run_error (\<lambda>x. True))"

lemma add_s_wp:
  assumes "caps_ok M e c" "e \<le> length (mi_src M)"
  shows "wp (add_s M c s e news b) run_error (\<lambda>b. True)"
  using assms
proof (induction M c s e news b rule: add_s.induct)
  case (3 M c s e x y news b)
  have "wp (push_onecapture M c (unat y - unat (ch CHR ''1'')) (Some (s, e))) run_error (\<lambda>v. True)"
    by (rule push_onecapture_wp [OF "3.prems"]) auto
  then show ?case using 3 by (auto intro!: wp_bind)
qed simp_all

lemma add_value_wp:
  assumes "caps_ok M e c" "e \<le> length (mi_src M)" "repl_ok tr"
  shows "wp (add_value M c s e tr bst) run_error (\<lambda>bst. True)"
proof -
  have res: "wp (add_result M s e v b) run_error (\<lambda>b. True)" for v b
    by (simp add: add_result_def split: gval.split)
  obtain b st where bst: "bst = (b, st)" by (cases bst)
  show ?thesis
  proof (cases tr)
    case (ReplStr news)
    then show ?thesis
      using wp_ebind [OF add_s_wp [OF assms(1,2), of s news b], of "\<lambda>b. Inr (b, st)" "\<lambda>bst. True"]
      by (simp add: add_value_def bst)
  next
    case (ReplFun f)
    then have f: "wp (f vs st) run_error (\<lambda>x. True)" for vs st using assms(3) by (simp add: repl_ok_def)
    show ?thesis
      unfolding add_value_def bst ReplFun prod.case repl.case
      by (rule wp_ebind [OF push_captures_wp [OF assms(1,2)]], rule wp_ebind [OF f], rule wp_prod,
          rule wp_ebind [OF res]) simp
  next
    case (ReplTab t)
    then have t: "wp (t v st) run_error (\<lambda>x. True)" for v st using assms(3) by (simp add: repl_ok_def)
    have one: "wp (push_onecapture M c 0 (Some (s, e))) run_error (\<lambda>v. True)"
      by (rule push_onecapture_wp [OF assms(1,2)]) simp
    show ?thesis
      unfolding add_value_def bst ReplTab prod.case repl.case
      by (rule wp_ebind [OF one], rule wp_ebind [OF t], rule wp_prod, rule wp_ebind [OF res]) simp
  qed
qed

text \<open>
  One round keeps the position in the subject; it moves on unless it is the last.  \<open>Q\<close> relates
  the buffer to the position, and a round keeps it if replacements and copied bytes do.
\<close>

lemma gsub_round_wp:
  assumes "length (mi_src M) < 2 ^ 63" "p \<le> length (mi_pat M)" "src \<le> length (mi_src M)" "repl_ok tr"
    and Q: "Q src (fst bst)"
    and repl: "\<And>c e x. e \<le> length (mi_src M) \<Longrightarrow> src \<le> e \<Longrightarrow> add_value M c src e tr bst = Inr x \<Longrightarrow> Q e (fst x)"
    and copy: "\<And>b. Q src b \<Longrightarrow> src < length (mi_src M) \<Longrightarrow> Q (src + 1) (b @ [mi_src M ! src])"
  shows "wp (gsub_round M p tr src n bst) run_error (\<lambda>(go, src', n', b, st).
    src \<le> src' \<and> src' \<le> length (mi_src M) \<and> (go \<longrightarrow> src < src') \<and> n \<le> n' \<and> n' \<le> n + 1 \<and> Q src' b)"
proof -
  have m: "wp (do_match MAXCCALLS M [] src p) run_error (result_ok M [] src)"
    using do_match_ok [OF assms(1)] assms(2,3) by simp
  show ?thesis
    unfolding gsub_round_def
  proof (rule wp_ebind [OF m])
    fix r assume r: "result_ok M [] src r"
    obtain res c where rc: "r = (res, c)" by (cases r)
    have tail: "wp (ebind (byte_at (mi_src M) src) (\<lambda>x. Inr (True, src + 1, n', b @ [x], st))) run_error
        (\<lambda>(go, src', n', b, st). src \<le> src' \<and> src' \<le> length (mi_src M) \<and> (go \<longrightarrow> src < src') \<and> n \<le> n' \<and> n' \<le> n + 1 \<and> Q src' b)"
      if "Q src b" "src < length (mi_src M)" "n \<le> n'" "n' \<le> n + 1" for b st n'
      using that copy by (simp add: Suc_le_eq)
    have step: "wp (if res \<noteq> None \<and> src < the res then Inr (True, the res, n', b, st)
        else if src < length (mi_src M) then ebind (byte_at (mi_src M) src) (\<lambda>x. Inr (True, src + 1, n', b @ [x], st))
        else Inr (False, src, n', b, st)) run_error
        (\<lambda>(go, src', n', b, st). src \<le> src' \<and> src' \<le> length (mi_src M) \<and> (go \<longrightarrow> src < src') \<and> n \<le> n' \<and> n' \<le> n + 1 \<and> Q src' b)"
      if "case res of None \<Rightarrow> Q src b | Some e \<Rightarrow> Q e b" "n \<le> n'" "n' \<le> n + 1" for b st n'
    proof (intro wp_if)
      assume no: "\<not> (res \<noteq> None \<and> src < the res)"
      then have "Q src b" using that(1) r rc by (cases res) (auto simp: not_less dest: antisym)
      { assume "src < length (mi_src M)"
        from tail [OF \<open>Q src b\<close> this that(2,3)]
        show "wp (ebind (byte_at (mi_src M) src) (\<lambda>x. Inr (True, src + 1, n', b @ [x], st))) run_error
          (\<lambda>(go, src', n', b, st). src \<le> src' \<and> src' \<le> length (mi_src M) \<and> (go \<longrightarrow> src < src') \<and> n \<le> n' \<and> n' \<le> n + 1 \<and> Q src' b)" . }
      show "wp (Inr (False, src, n', b, st)) run_error
          (\<lambda>(go, src', n', b, st). src \<le> src' \<and> src' \<le> length (mi_src M) \<and> (go \<longrightarrow> src < src') \<and> n \<le> n' \<and> n' \<le> n + 1 \<and> Q src' b)"
        using \<open>Q src b\<close> that assms(3) by simp
    qed (use that r rc in auto)
    show "wp (case r of (res, c) \<Rightarrow>
        ebind (case res of Some e \<Rightarrow> ebind (add_value M c src e tr bst) (\<lambda>bst. Inr (n + 1, bst)) | None \<Rightarrow> Inr (n, bst)) (\<lambda>(n, b, st).
        if res \<noteq> None \<and> src < the res then Inr (True, the res, n, b, st)
        else if src < length (mi_src M) then ebind (byte_at (mi_src M) src) (\<lambda>x. Inr (True, src + 1, n, b @ [x], st))
        else Inr (False, src, n, b, st))) run_error
      (\<lambda>(go, src', n', b, st). src \<le> src' \<and> src' \<le> length (mi_src M) \<and> (go \<longrightarrow> src < src') \<and> n \<le> n' \<and> n' \<le> n + 1 \<and> Q src' b)"
      unfolding rc prod.case
    proof (rule wp_ebind [where P = "\<lambda>(n', b, st). n \<le> n' \<and> n' \<le> n + 1 \<and> (case res of None \<Rightarrow> Q src b | Some e \<Rightarrow> Q e b)"])
      show "wp (case res of Some e \<Rightarrow> ebind (add_value M c src e tr bst) (\<lambda>bst. Inr (n + 1, bst)) | None \<Rightarrow> Inr (n, bst))
        run_error (\<lambda>(n', b, st). n \<le> n' \<and> n' \<le> n + 1 \<and> (case res of None \<Rightarrow> Q src b | Some e \<Rightarrow> Q e b))"
      proof (cases res)
        case None
        then show ?thesis using Q by (cases bst) simp
      next
        case (Some e)
        then have e: "src \<le> e" "e \<le> length (mi_src M)" "caps_ok M e c" using r rc by simp_all
        show ?thesis
          unfolding Some option.case
          by (rule wp_bind [OF add_value_wp [OF e(3,2) assms(4)]]) (use repl [OF e(2,1)] in auto)
      qed
    next
      fix x assume x: "case x of (n', b, st) \<Rightarrow> n \<le> n' \<and> n' \<le> n + 1 \<and> (case res of None \<Rightarrow> Q src b | Some e \<Rightarrow> Q e b)"
      obtain n' b st where "x = (n', b, st)" by (cases x)
      with x show "wp (case x of (n, b, st) \<Rightarrow>
          if res \<noteq> None \<and> src < the res then Inr (True, the res, n, b, st)
          else if src < length (mi_src M) then ebind (byte_at (mi_src M) src) (\<lambda>x. Inr (True, src + 1, n, b @ [x], st))
          else Inr (False, src, n, b, st)) run_error
        (\<lambda>(go, src', n', b, st). src \<le> src' \<and> src' \<le> length (mi_src M) \<and> (go \<longrightarrow> src < src') \<and> n \<le> n' \<and> n' \<le> n + 1 \<and> Q src' b)"
        by (simp only: prod.case) (intro step; blast)
    qed
  qed
qed

lemma gsub_loop_wp:
  fixes tr :: "'s repl"
  assumes "length (mi_src M) < 2 ^ 63" "p \<le> length (mi_pat M)" "repl_ok tr"
    and repl: "\<And>c s e b st x. s \<le> e \<Longrightarrow> e \<le> length (mi_src M) \<Longrightarrow> Q s b \<Longrightarrow> add_value M c s e tr (b, st) = Inr x \<Longrightarrow> Q e (fst x)"
    and copy: "\<And>s b. Q s b \<Longrightarrow> s < length (mi_src M) \<Longrightarrow> Q (s + 1) (b @ [mi_src M ! s])"
  shows "src \<le> length (mi_src M) \<Longrightarrow> length (mi_src M) - src < fuel \<Longrightarrow> Q src (fst bst) \<Longrightarrow>
    wp (gsub_loop fuel M p anchor max_s tr src n bst) run_error
      (\<lambda>((b, n'), st). n \<le> n' \<and> n' \<le> max n max_s \<and> n' \<le> n + int (length (mi_src M) - src) + 1 \<and>
         (\<exists>s b'. s \<le> length (mi_src M) \<and> Q s b' \<and> b = b' @ drop s (mi_src M)))"
proof (induction fuel arbitrary: src n bst)
  case (Suc fuel)
  let ?P = "\<lambda>(go, src', n', b, st :: 's). src \<le> src' \<and> src' \<le> length (mi_src M) \<and> (go \<longrightarrow> src < src') \<and> n \<le> n' \<and> n' \<le> n + 1 \<and> Q src' b"
  have round: "wp (gsub_round M p tr src n bst) run_error ?P"
    by (rule gsub_round_wp [OF assms(1,2) Suc.prems(1) assms(3), where Q = Q])
      (use Suc.prems repl copy in \<open>auto intro: repl [where b = "fst bst" and st = "snd bst"]\<close>)
  show ?case
  proof (cases "n < max_s")
    case False
    then show ?thesis using Suc.prems by (cases bst) auto
  next
    case True
    show ?thesis
      unfolding gsub_loop.simps Let_def if_P [OF True]
    proof (rule wp_ebind [OF round])
      fix r assume r: "?P r"
      obtain go s' n' b st where rr: "r = (go, s', n', b, st)" by (cases r)
      have P: "src \<le> s'" "s' \<le> length (mi_src M)" "go \<longrightarrow> src < s'" "n \<le> n'" "n' \<le> n + 1" "Q s' b"
        using r rr by simp_all
      have "wp (gsub_loop fuel M p anchor max_s tr s' n' (b, st)) run_error
          (\<lambda>((b, n''), st). n \<le> n'' \<and> n'' \<le> max n max_s \<and> n'' \<le> n + int (length (mi_src M) - src) + 1 \<and>
         (\<exists>s b'. s \<le> length (mi_src M) \<and> Q s b' \<and> b = b' @ drop s (mi_src M)))" if go
        by (rule wp_mono [OF Suc.IH]) (use that P Suc.prems True in auto)
      then show "wp (case r of (go_on, src, n, bst) \<Rightarrow>
          if go_on \<and> \<not> anchor then gsub_loop fuel M p anchor max_s tr src n bst
          else case bst of (b, st) \<Rightarrow> Inr ((b @ drop src (mi_src M), n), st)) run_error
        (\<lambda>((b, n'), st). n \<le> n' \<and> n' \<le> max n max_s \<and> n' \<le> n + int (length (mi_src M) - src) + 1 \<and>
         (\<exists>s b'. s \<le> length (mi_src M) \<and> Q s b' \<and> b = b' @ drop s (mi_src M)))"
        unfolding rr using P True by auto
    qed
  qed
qed simp

text \<open>
  \<open>string.gsub\<close> ends and is safe.  For every subject, pattern, limit and replacement whose
  functions raise only errors of the program, \<open>gsub\<close> returns or raises an error of the program:
  the loop never runs out of its \<open>length + 1\<close> rounds and nothing is read outside the strings; the
  count is between zero and the limit, and at most one more than the length of the subject.
\<close>

theorem gsub_ends:
  assumes "length s < 2 ^ 63" "repl_ok tr"
  shows "case str_gsub s p tr max_s st of
      Inl e \<Rightarrow> \<exists>msg. e = RunError msg
    | Inr ((b, n), st') \<Rightarrow> 0 \<le> n \<and> n \<le> max 0 (optint max_s (int (length s) + 1)) \<and> n \<le> int (length s) + 1"
proof -
  have "wp (str_gsub s p tr max_s st) run_error
      (\<lambda>((b, n), st'). 0 \<le> n \<and> n \<le> max 0 (optint max_s (int (length s) + 1)) \<and> n \<le> int (length s) + 1)"
    unfolding str_gsub_def Let_def
  proof (rule wp_bind [OF wp_byte_at], simp, rule wp_mono [OF gsub_loop_wp [where Q = "\<lambda>s b. True"]])
    fix x assume "byte_at p 0 = Inr x"
    from byte_at_inside [OF this]
    show "(if x = ch CHR ''^'' then 1 else 0) \<le> length (mi_pat \<lparr>mi_src = s, mi_pat = p\<rparr>)" by (auto simp: Suc_le_eq)
  qed (use assms in auto)
  then show ?thesis by (auto simp: wp_def run_error_def split: sum.splits)
qed

lemma gsub_ends_witness:
  "\<exists>b n. str_gsub (str_bytes ''hello'') (str_bytes ''l*'') (ReplStr (str_bytes ''-'')) None () = Inr ((b, n), ()) \<and> n \<le> 6"
proof -
  have "str_gsub (str_bytes ''hello'') (str_bytes ''l*'') (ReplStr (str_bytes ''-'')) None () = Inr ((str_bytes ''-h-e--o-'', 5), ())"
    by code_simp
  then show ?thesis
    using gsub_ends [where s = "str_bytes ''hello''" and p = "str_bytes ''l*''" and tr = "ReplStr (str_bytes ''-'')"
      and max_s = None and st = "()"] by (simp add: repl_ok_def str_bytes_def)
qed

text \<open>Replacements that give the match back.\<close>

definition gives_back :: "'s repl \<Rightarrow> bool" where
  "gives_back tr \<longleftrightarrow> (case tr of
     ReplStr news \<Rightarrow> news = [L_ESC, ch CHR ''0'']
   | ReplFun f \<Rightarrow> \<forall>vs st. \<exists>st'. f vs st = Inr (GFalse, st')
   | ReplTab t \<Rightarrow> \<forall>v st. \<exists>st'. t v st = Inr (GFalse, st'))"

lemma add_value_gives_back:
  assumes "gives_back tr" "add_value M c s e tr (b, st) = Inr x"
  shows "fst x = b @ take (e - s) (drop s (mi_src M))"
proof (cases tr)
  case (ReplStr news)
  then show ?thesis using assms by (auto simp: gives_back_def add_value_def isdigit_def)
next
  case (ReplFun f)
  then obtain vs where vs: "push_captures M c (Some (s, e)) = Inr vs"
    using assms(2) by (cases "push_captures M c (Some (s, e))") (auto simp: add_value_def)
  obtain st' where "f vs st = Inr (GFalse, st')" using assms(1) ReplFun by (auto simp: gives_back_def)
  then show ?thesis using assms(2) ReplFun vs by (auto simp: add_value_def add_result_def)
next
  case (ReplTab t)
  then obtain v where v: "push_onecapture M c 0 (Some (s, e)) = Inr v"
    using assms(2) by (cases "push_onecapture M c 0 (Some (s, e))") (auto simp: add_value_def)
  obtain st' where "t v st = Inr (GFalse, st')" using assms(1) ReplTab by (auto simp: gives_back_def)
  then show ?thesis using assms(2) ReplTab v by (auto simp: add_value_def add_result_def)
qed

lemma gives_back_ok: "gives_back tr \<Longrightarrow> repl_ok tr"
  by (cases tr) (auto simp: gives_back_def repl_ok_def, (metis wp_Inr)+)

text \<open>
  \<open>gsub\<close> changes nothing but the matches: with a replacement that gives every match back (the
  string \<open>%0\<close>, or a function or table that answers nil or false) the result is the subject, for
  every pattern and limit.
\<close>

theorem gsub_gives_back:
  assumes "length s < 2 ^ 63" "gives_back tr"
  shows "case str_gsub s p tr max_s st of Inl e \<Rightarrow> \<exists>msg. e = RunError msg | Inr ((b, n), st') \<Rightarrow> b = s"
proof -
  have "wp (str_gsub s p tr max_s st) run_error (\<lambda>((b, n), st'). b = s)"
    unfolding str_gsub_def Let_def
  proof (rule wp_bind [OF wp_byte_at], simp, rule wp_mono [OF gsub_loop_wp [where Q = "\<lambda>i b. b = take i s"]])
    fix x assume "byte_at p 0 = Inr x"
    from byte_at_inside [OF this]
    show "(if x = ch CHR ''^'' then 1 else 0) \<le> length (mi_pat \<lparr>mi_src = s, mi_pat = p\<rparr>)" by (auto simp: Suc_le_eq)
    show "fst y = take e s" if "i \<le> e" "b = take i s"
      "add_value \<lparr>mi_src = s, mi_pat = p\<rparr> c i e tr (b, st) = Inr y" for c i e b st y
      using add_value_gives_back [OF assms(2) that(3)] that(1,2) by (simp flip: take_add)
  qed (use assms gives_back_ok in \<open>auto simp: take_Suc_conv_app_nth\<close>)
  then show ?thesis by (auto simp: wp_def run_error_def split: sum.splits)
qed

lemma gsub_gives_back_witness:
  "\<exists>n. str_gsub (str_bytes ''a=b'') (str_bytes ''%w'') (ReplStr [L_ESC, ch CHR ''0'']) (Some 1) () = Inr ((str_bytes ''a=b'', n), ())"
proof -
  have "(case str_gsub (str_bytes ''a=b'') (str_bytes ''%w'') (ReplStr [L_ESC, ch CHR ''0'']) (Some 1) () of Inl e \<Rightarrow> False | Inr r \<Rightarrow> True)"
    by code_simp
  then show ?thesis
    using gsub_gives_back [where s = "str_bytes ''a=b''" and p = "str_bytes ''%w''" and tr = "ReplStr [L_ESC, ch CHR ''0'']"
      and max_s = "Some 1" and st = "()"]
    by (auto simp: gives_back_def str_bytes_def split: sum.splits)
qed

end
