(* ===== verification/Lua_Float.thy ===== *)
theory Lua_Float
  imports Complex_Main Lua_Values
begin

text \<open>
  Floating point numbers as the core uses them: conversions, comparisons, and their exact values,
  on the 64-bit pattern of a double.
\<close>

unbundle bit_operations_syntax

section \<open>Rounding and conversions\<close>

text \<open>
  Rounding to a binary format with \<open>p\<close> bits of precision and the least exponent \<open>emin\<close>: the
  nearest multiple of \<open>2 ^ q\<close>, ties to even.  The result is the exponent and fraction field of
  the number \<open>M * 2 ^ P\<close>, \<open>infinity\<close> if it is too large.
\<close>

definition round_even :: "nat \<Rightarrow> nat \<Rightarrow> nat" where
  "round_even m k =
     (let q = m div 2 ^ k; r = m mod 2 ^ k in
      if 2 ^ k < 2 * r \<or> (2 * r = 2 ^ k \<and> odd q) then q + 1 else q)"

definition flt_encode :: "nat \<Rightarrow> int \<Rightarrow> nat \<Rightarrow> nat \<Rightarrow> int \<Rightarrow> nat" where
  "flt_encode p emin infinity M P =
     (if M = 0 then 0 else
      let q = max emin (int (bitlen M) + P - int p);
          r = (if q \<le> P then M * 2 ^ nat (P - q) else round_even M (nat (q - P)))
      in min infinity (r + nat (q - emin) * 2 ^ (p - 1)))"

text \<open>\<open>cast_num\<close> of an integer, \<open>(float) n\<close> of a double, \<open>(double) f\<close> of a float.\<close>

definition int_to_flt :: "u64 \<Rightarrow> u64" where
  "int_to_flt i =
     of_nat (flt_encode 53 (- 1074) (2047 * 2 ^ 52) (nat \<bar>sint i\<bar>) 0) OR (if sint i < 0 then 2 ^ 63 else 0)"

definition flt_narrow :: "u64 \<Rightarrow> u32" where
  "flt_narrow b =
     (if flt_isnan b then 0x7FC00000 OR of_nat (flt_frac b div 2 ^ 29)
      else if \<not> flt_finite b then 0x7F800000
      else of_nat (flt_encode 24 (- 149) (255 * 2 ^ 23) (flt_mag b) (flt_pow b)))
     OR (if flt_neg b then 2 ^ 31 else 0)"

definition flt_widen :: "u32 \<Rightarrow> u64" where
  "flt_widen f =
     (let e = unat (drop_bit 23 f AND 0xFF); m = unat (f AND 0x7FFFFF) in
      if e = 255 then (if m = 0 then 0x7FF0000000000000 else 0x7FF8000000000000 OR of_nat (m * 2 ^ 29))
      else of_nat (flt_encode 53 (- 1074) (2047 * 2 ^ 52)
                     (if e = 0 then m else 2 ^ 23 + m) (int (max 1 e) - 150)))
     OR (if bit f 31 then 2 ^ 63 else 0)"

section \<open>Comparisons\<close>

text \<open>
  IEEE comparison.  Finite numbers are compared exactly, by scaling both mantissas to the smaller
  exponent; the infinities are below and above all of them; a NaN compares false.
\<close>

definition flt_side :: "u64 \<Rightarrow> int" where
  "flt_side b = (if flt_finite b then 0 else if flt_neg b then - 1 else 1)"

definition flt_scaled :: "u64 \<Rightarrow> int \<Rightarrow> int" where
  "flt_scaled b p = flt_mant b * 2 ^ nat (flt_pow b - p)"

definition luai_numlt :: "u64 \<Rightarrow> u64 \<Rightarrow> bool" where
  "luai_numlt a b \<longleftrightarrow> \<not> flt_isnan a \<and> \<not> flt_isnan b \<and>
     (if flt_finite a \<and> flt_finite b
      then let p = min (flt_pow a) (flt_pow b) in flt_scaled a p < flt_scaled b p
      else flt_side a < flt_side b)"

definition luai_numle :: "u64 \<Rightarrow> u64 \<Rightarrow> bool" where
  "luai_numle a b \<longleftrightarrow> \<not> flt_isnan a \<and> \<not> flt_isnan b \<and>
     (if flt_finite a \<and> flt_finite b
      then let p = min (flt_pow a) (flt_pow b) in flt_scaled a p \<le> flt_scaled b p
      else flt_side a \<le> flt_side b)"

definition luai_numunm :: "u64 \<Rightarrow> u64" where
  "luai_numunm b = b XOR 2 ^ 63"

text \<open>The cast of a double to \<open>lua_Integer\<close>, for values in range: truncation.\<close>

definition flt_trunc :: "u64 \<Rightarrow> int" where
  "flt_trunc b =
     (let m = int (flt_mag b);
          t = (if 0 \<le> flt_pow b then m * 2 ^ nat (flt_pow b) else m div 2 ^ nat (- flt_pow b))
      in if flt_neg b then - t else t)"

section \<open>Arithmetic\<close>

text \<open>
  Addition of doubles, rounded once from the exact sum; an exact zero is positive unless both
  operands are negative zeros.  The sign and payload of a NaN result are not specified by IEEE.
\<close>

definition flt_pack :: "bool \<Rightarrow> nat \<Rightarrow> int \<Rightarrow> u64" where
  "flt_pack neg M P = of_nat (flt_encode 53 (- 1074) (2047 * 2 ^ 52) M P) OR (if neg then 2 ^ 63 else 0)"

definition flt_nan :: u64 where "flt_nan = 0x7FF8000000000000"

definition luai_numadd :: "u64 \<Rightarrow> u64 \<Rightarrow> u64" where
  "luai_numadd a b =
     (if flt_isnan a \<or> flt_isnan b then flt_nan
      else if \<not> flt_finite a then if \<not> flt_finite b \<and> flt_neg a \<noteq> flt_neg b then flt_nan else a
      else if \<not> flt_finite b then b
      else let p = min (flt_pow a) (flt_pow b); m = flt_scaled a p + flt_scaled b p in
           if m = 0 then if flt_neg a \<and> flt_neg b then 2 ^ 63 else 0
           else flt_pack (m < 0) (nat \<bar>m\<bar>) p)"

definition luai_numsub :: "u64 \<Rightarrow> u64 \<Rightarrow> u64" where
  "luai_numsub a b = luai_numadd a (luai_numunm b)"

section \<open>Exact values\<close>

definition flt_val :: "u64 \<Rightarrow> real" where
  "flt_val b = of_int (flt_mant b) * 2 powi (flt_pow b)"

lemma flt_val_scaled:
  assumes "p \<le> flt_pow b"
  shows "flt_val b = of_int (flt_scaled b p) * 2 powi p"
proof -
  have "(2::real) powi flt_pow b = 2 ^ nat (flt_pow b - p) * 2 powi p"
    using assms power_int_add [of "2::real" "flt_pow b - p" p] by (simp add: power_int_def)
  then show ?thesis by (simp add: flt_val_def flt_scaled_def)
qed

lemma scaled_less: "flt_scaled a (min (flt_pow a) (flt_pow b)) < flt_scaled b (min (flt_pow a) (flt_pow b)) \<longleftrightarrow> flt_val a < flt_val b"
  using flt_val_scaled [of "min (flt_pow a) (flt_pow b)" a] flt_val_scaled [of "min (flt_pow a) (flt_pow b)" b] by simp

lemma scaled_less_eq: "flt_scaled a (min (flt_pow a) (flt_pow b)) \<le> flt_scaled b (min (flt_pow a) (flt_pow b)) \<longleftrightarrow> flt_val a \<le> flt_val b"
  using flt_val_scaled [of "min (flt_pow a) (flt_pow b)" a] flt_val_scaled [of "min (flt_pow a) (flt_pow b)" b] by simp

text \<open>
  The value of a number in the affinely extended reals: infinities are \<open>(- 1, 0)\<close> and \<open>(1, 0)\<close>,
  a real \<open>x\<close> is \<open>(0, x)\<close>, a NaN has no value.
\<close>

definition flt_ext :: "u64 \<Rightarrow> (int \<times> real) option" where
  "flt_ext b = (if flt_isnan b then None else if flt_finite b then Some (0, flt_val b) else Some (flt_side b, 0))"

definition ext_less :: "(int \<times> real) option \<Rightarrow> (int \<times> real) option \<Rightarrow> bool" where
  "ext_less x y \<longleftrightarrow> (case (x, y) of
     (Some (i, a), Some (j, b)) \<Rightarrow> i < j \<or> i = j \<and> a < b | _ \<Rightarrow> False)"

definition ext_le :: "(int \<times> real) option \<Rightarrow> (int \<times> real) option \<Rightarrow> bool" where
  "ext_le x y \<longleftrightarrow> (case (x, y) of
     (Some (i, a), Some (j, b)) \<Rightarrow> i < j \<or> i = j \<and> a \<le> b | _ \<Rightarrow> False)"

lemma nan_infinite: "flt_isnan b \<Longrightarrow> \<not> flt_finite b"
  by (simp add: flt_isnan_def flt_finite_def)

lemma numlt_exact: "luai_numlt a b \<longleftrightarrow> ext_less (flt_ext a) (flt_ext b)"
  by (auto simp: luai_numlt_def ext_less_def flt_ext_def Let_def scaled_less flt_side_def dest: nan_infinite)

lemma numle_exact: "luai_numle a b \<longleftrightarrow> ext_le (flt_ext a) (flt_ext b)"
  by (auto simp: luai_numle_def ext_le_def flt_ext_def Let_def scaled_less_eq flt_side_def dest: nan_infinite)

section \<open>Integers as floats\<close>

lemma bit_unat: "bit (unat w) i \<longleftrightarrow> bit w i" for w :: "'a::len word"
  by (simp add: bit_unsigned_iff)

lemma unat_sign_or:
  assumes "n < 2 ^ 63"
  shows "unat (of_nat n OR (if s then 2 ^ 63 else 0) :: u64) = n + (if s then 2 ^ 63 else 0)"
proof (cases s)
  case True
  have "(of_nat n :: u64) AND 2 ^ 63 = 0"
  proof (rule bit_eqI)
    fix i assume "possible_bit TYPE(64 word) i"
    have "\<not> bit n 63" using assms by (simp add: bit_iff_odd div_less)
    moreover have "unat (of_nat n :: u64) = n" using assms by (intro unat_of_nat_small) simp
    ultimately have "\<not> bit (of_nat n :: u64) 63"
      by (metis bit_unat)
    then show "bit ((of_nat n :: u64) AND 2 ^ 63) i \<longleftrightarrow> bit (0 :: u64) i"
      unfolding bit_and_iff bit_exp_iff by auto
  qed
  then have "(of_nat n OR 2 ^ 63 :: u64) = of_nat n + 2 ^ 63"
    by (simp add: disjunctive_add_eq_or)
  also have "\<dots> = of_nat (n + 2 ^ 63)" by simp
  finally show ?thesis using True assms unat_of_nat_small [of "n + 2 ^ 63", where ?'a = 64] by simp
next
  case False
  then show ?thesis using assms unat_of_nat_small [of n, where ?'a = 64] by simp
qed

lemma flt_fields:
  "flt_exp b = unat b div 2 ^ 52 mod 2 ^ 11" "flt_frac b = unat b mod 2 ^ 52" "flt_neg b \<longleftrightarrow> 2 ^ 63 \<le> unat b"
proof -
  have m: "(0x7FF :: u64) = mask 11" "(0xFFFFFFFFFFFFF :: u64) = mask 52" by (simp_all add: mask_eq_exp_minus_1)
  show "flt_exp b = unat b div 2 ^ 52 mod 2 ^ 11"
    unfolding flt_exp_def m take_bit_eq_mask [symmetric] unsigned_take_bit_eq unat_drop_bit_eq
    by (simp only: drop_bit_eq_div take_bit_eq_mod)
  show "flt_frac b = unat b mod 2 ^ 52"
    unfolding flt_frac_def m take_bit_eq_mask [symmetric] unsigned_take_bit_eq
    by (simp only: take_bit_eq_mod)
  have "bit b 63 \<longleftrightarrow> odd (unat b div 2 ^ 63)" unfolding bit_unat [symmetric] by (simp only: bit_iff_odd)
  moreover have "unat b < 2 ^ 64" using unsigned_less [of b] by simp
  then have "unat b div 2 ^ 63 < 2" by (simp add: less_mult_imp_div_less)
  then have "odd (unat b div 2 ^ 63) \<longleftrightarrow> 2 ^ 63 \<le> unat b"
    by (cases "2 ^ 63 \<le> unat b") (auto simp: div_less less_2_cases_iff div_eq_0_iff)
  ultimately show "flt_neg b \<longleftrightarrow> 2 ^ 63 \<le> unat b" by (simp add: flt_neg_def)
qed

text \<open>A word composed of a sign and of exponent and fraction fields \<open>n\<close> decodes to them.\<close>

lemma flt_decode:
  fixes n :: nat and s :: bool
  assumes "n < 2 ^ 63"
  defines "b \<equiv> of_nat n OR (if s then 2 ^ 63 else 0) :: u64"
  shows "flt_exp b = n div 2 ^ 52" "flt_frac b = n mod 2 ^ 52" "flt_neg b \<longleftrightarrow> s"
proof -
  have u: "unat b = n + (if s then 2 ^ 63 else 0)"
    unfolding b_def by (rule unat_sign_or [OF assms(1)])
  have "n div 2 ^ 52 < 2 ^ 11" using assms(1) by (simp add: less_mult_imp_div_less)
  moreover have "(n + 2 ^ 63) div 2 ^ 52 = n div 2 ^ 52 + 2 ^ 11" by simp
  ultimately show "flt_exp b = n div 2 ^ 52" by (simp add: flt_fields(1) u)
  have "(n + 2 ^ 63) mod 2 ^ 52 = n mod 2 ^ 52"
    using mod_mult_self1 [of n "2 ^ 11" "2 ^ 52 :: nat"] by simp
  then show "flt_frac b = n mod 2 ^ 52" by (simp add: flt_fields(2) u)
  show "flt_neg b \<longleftrightarrow> s" using assms(1) by (simp add: flt_fields(3) u)
qed

lemma bitlen_bounds:
  assumes "0 < M"
  shows "2 ^ (bitlen M - 1) \<le> M" "M < 2 ^ bitlen M" "0 < bitlen M"
proof -
  show "M < 2 ^ bitlen M" using bitlen_le_iff [of M "bitlen M"] by simp
  show pos: "0 < bitlen M" using bitlen_le_iff [of M 0] assms by (cases "bitlen M") auto
  show "2 ^ (bitlen M - 1) \<le> M" using bitlen_le_iff [of M "bitlen M - 1"] pos by linarith
qed

text \<open>An integer of at most 53 bits is encoded exactly.\<close>

lemma flt_encode_exact:
  assumes "0 < M" "M < 2 ^ 53"
  shows "flt_encode 53 (- 1074) (2047 * 2 ^ 52) M 0 =
    (1022 + bitlen M) * 2 ^ 52 + (M * 2 ^ (53 - bitlen M) - 2 ^ 52)"
    and "2 ^ 52 \<le> M * 2 ^ (53 - bitlen M)" "M * 2 ^ (53 - bitlen M) < 2 ^ 53"
proof -
  have l: "bitlen M \<le> 53" using assms(2) by (simp add: bitlen_le_iff)
  note b = bitlen_bounds [OF assms(1)]
  have "2 ^ 52 = 2 ^ (bitlen M - 1) * (2 ^ (53 - bitlen M) :: nat)"
    using b(3) l by (simp flip: power_add)
  also have "\<dots> \<le> M * 2 ^ (53 - bitlen M)" using b(1) by simp
  finally show lo: "2 ^ 52 \<le> M * 2 ^ (53 - bitlen M)" .
  have "M * 2 ^ (53 - bitlen M) < 2 ^ bitlen M * 2 ^ (53 - bitlen M)" using b(2) by simp
  also have "\<dots> = 2 ^ 53" using l by (simp flip: power_add)
  finally show hi: "M * 2 ^ (53 - bitlen M) < 2 ^ 53" .
  have q: "max (- 1074) (int (bitlen M) + 0 - int 53) = int (bitlen M) - 53" by simp
  have n: "nat (int (bitlen M) - 53 - - 1074) = 1021 + bitlen M" "nat (0 - (int (bitlen M) - 53)) = 53 - bitlen M"
    using l by auto
  have le: "int (bitlen M) - 53 \<le> 0" using l by simp
  have "M * 2 ^ (53 - bitlen M) + (1021 + bitlen M) * 2 ^ 52 < 2047 * 2 ^ 52"
    using hi l by (simp add: algebra_simps)
  then have "flt_encode 53 (- 1074) (2047 * 2 ^ 52) M 0 = M * 2 ^ (53 - bitlen M) + (1021 + bitlen M) * 2 ^ 52"
    unfolding flt_encode_def Let_def q n using assms(1) le by simp
  then show "flt_encode 53 (- 1074) (2047 * 2 ^ 52) M 0 =
    (1022 + bitlen M) * 2 ^ 52 + (M * 2 ^ (53 - bitlen M) - 2 ^ 52)"
    using lo by (simp add: algebra_simps)
qed

lemma int_to_flt_small:
  assumes "\<bar>sint i\<bar> < 2 ^ 53"
  shows "flt_finite (int_to_flt i)" "flt_val (int_to_flt i) = of_int (sint i)"
proof -
  let ?M = "nat \<bar>sint i\<bar>"
  have eq: "int_to_flt i = of_nat (flt_encode 53 (- 1074) (2047 * 2 ^ 52) ?M 0) OR (if sint i < 0 then 2 ^ 63 else 0)"
    by (simp add: int_to_flt_def)
  have "flt_finite (int_to_flt i) \<and> flt_val (int_to_flt i) = of_int (sint i)"
  proof (cases "sint i = 0")
    case True
    then have "int_to_flt i = 0" unfolding eq by (simp add: flt_encode_def)
    then show ?thesis using True
      by (simp add: flt_finite_def flt_exp_def flt_val_def flt_mant_def flt_mag_def flt_frac_def)
  next
    case False
    then have M: "0 < ?M" "?M < 2 ^ 53" using assms by auto
    note e = flt_encode_exact [OF M] and l = bitlen_bounds [OF M(1)]
    define n where "n = flt_encode 53 (- 1074) (2047 * 2 ^ 52) ?M 0"
    define r where "r = ?M * 2 ^ (53 - bitlen ?M)"
    have l53: "bitlen ?M \<le> 53" using M(2) by (simp add: bitlen_le_iff)
    have n: "n = (1022 + bitlen ?M) * 2 ^ 52 + (r - 2 ^ 52)" "2 ^ 52 \<le> r" "r < 2 ^ 53"
      using e by (simp_all add: n_def r_def)
    obtain f where f: "r = 2 ^ 52 + f" using n(2) le_Suc_ex by blast
    then have "n = (1022 + bitlen ?M) * 2 ^ 52 + f" "f < 2 ^ 52" using n by simp_all
    then have div: "n div 2 ^ 52 = 1022 + bitlen ?M" "n mod 2 ^ 52 = r - 2 ^ 52"
      unfolding f by (simp_all only: div_mult_self3 mod_mult_self3 div_less mod_less)
    have "n < 2 ^ 63" using n l53 by simp
    note d = flt_decode [OF this, of "sint i < 0", folded n_def]
    have exp: "flt_exp (int_to_flt i) = 1022 + bitlen ?M" "flt_frac (int_to_flt i) = r - 2 ^ 52"
      "flt_neg (int_to_flt i) \<longleftrightarrow> sint i < 0"
      unfolding eq n_def [symmetric] using d div by simp_all
    then have mag: "flt_mag (int_to_flt i) = r" using n(2) by (simp add: flt_mag_def)
    have pow: "flt_pow (int_to_flt i) = int (bitlen ?M) - 53" by (simp add: flt_pow_def exp)
    have "(2::real) ^ (53 - bitlen ?M) * 2 powi (int (bitlen ?M) - 53) = 2 powi (int (53 - bitlen ?M)) * 2 powi (int (bitlen ?M) - 53)"
      by simp
    also have "\<dots> = 2 powi (int (53 - bitlen ?M) + (int (bitlen ?M) - 53))" by (simp add: power_int_add)
    also have "\<dots> = 1" using l53 by simp
    finally have "real r * 2 powi (int (bitlen ?M) - 53) = real ?M" by (simp add: r_def mult.assoc del: of_nat_nat)
    then have "flt_val (int_to_flt i) = of_int (sint i)"
      by (auto simp: flt_val_def flt_mant_def mag pow exp(3) simp del: of_int_sint)
    then show ?thesis using exp(1) l53 by (simp add: flt_finite_def)
  qed
  then show "flt_finite (int_to_flt i)" "flt_val (int_to_flt i) = of_int (sint i)" by simp_all
qed

lemma bitlen_power: "bitlen (2 ^ k) = Suc k"
proof (rule antisym)
  show "bitlen (2 ^ k) \<le> Suc k" by (simp add: bitlen_le_iff)
  have "\<not> bitlen (2 ^ k) \<le> k" by (simp add: bitlen_le_iff)
  then show "Suc k \<le> bitlen (2 ^ k)" by simp
qed

lemma int_to_flt_power:
  assumes "\<bar>sint i\<bar> = 2 ^ k" "53 \<le> k" "k \<le> 63"
  shows "flt_finite (int_to_flt i)" "flt_val (int_to_flt i) = of_int (sint i)"
    "int_to_flt i = of_nat ((k + 1023) * 2 ^ 52) OR (if sint i < 0 then 2 ^ 63 else 0)"
proof -
  have M: "nat \<bar>sint i\<bar> = 2 ^ k" using assms(1) by (simp add: nat_power_eq)
  have q: "max (- 1074) (int (Suc k) + 0 - int 53) = int k - 52" using assms(2) by simp
  have r: "round_even (2 ^ k) (nat (int k - 52 - 0)) = 2 ^ 52"
  proof -
    obtain j where j: "k = 52 + j" using assms(2) le_Suc_ex [of 52 k] by auto
    have "(2::nat) ^ k div 2 ^ j = 2 ^ 52" "(2::nat) ^ k mod 2 ^ j = 0" by (simp_all add: j power_add)
    then show ?thesis by (simp add: round_even_def Let_def j)
  qed
  have e: "flt_encode 53 (- 1074) (2047 * 2 ^ 52) (nat \<bar>sint i\<bar>) 0 = (k + 1023) * 2 ^ 52"
  proof -
    have "nat (int k - 52 - - 1074) = k + 1022" "\<not> int k - 52 \<le> 0" using assms(2) by auto
    moreover have "2 ^ 52 + (k + 1022) * 2 ^ 52 < (2047 * 2 ^ 52 :: nat)" using assms(3) by simp
    ultimately show ?thesis
      unfolding flt_encode_def Let_def M bitlen_power q r by simp
  qed
  have lt: "(k + 1023) * 2 ^ 52 < (2 ^ 63 :: nat)" using assms(3) by simp
  have eq: "int_to_flt i = of_nat ((k + 1023) * 2 ^ 52) OR (if sint i < 0 then 2 ^ 63 else 0)"
    unfolding int_to_flt_def e ..
  then show "int_to_flt i = of_nat ((k + 1023) * 2 ^ 52) OR (if sint i < 0 then 2 ^ 63 else 0)" .
  note d = flt_decode [OF lt, of "sint i < 0", folded eq]
  have exp: "flt_exp (int_to_flt i) = k + 1023" "flt_frac (int_to_flt i) = 0" "flt_neg (int_to_flt i) \<longleftrightarrow> sint i < 0"
    using d by simp_all
  then have mag: "flt_mag (int_to_flt i) = 2 ^ 52" and pow: "flt_pow (int_to_flt i) = int k - 52"
    by (simp_all add: flt_mag_def flt_pow_def)
  have "(2::real) ^ 52 * 2 powi (int k - 52) = 2 powi (int 52) * 2 powi (int k - 52)" by simp
  also have "\<dots> = 2 powi (int 52 + (int k - 52))" by (subst power_int_add) simp_all
  also have "\<dots> = 2 ^ k" by simp
  finally have v: "(2::real) ^ 52 * 2 powi (int k - 52) = 2 ^ k" .
  have "sint i = (if sint i < 0 then - (2 ^ k) else 2 ^ k)" using assms(1) by (auto simp: abs_if split: if_splits)
  from arg_cong [OF this, of real_of_int]
  have "of_int (sint i) = (if sint i < 0 then - (2 ^ k) else 2 ^ k :: real)"
    by (simp del: of_int_sint split: if_splits)
  then show "flt_val (int_to_flt i) = of_int (sint i)"
    using v by (simp add: flt_val_def flt_mant_def mag pow exp(3))
  show "flt_finite (int_to_flt i)" using exp(1) assms(3) by (simp add: flt_finite_def)
qed

lemma int_to_flt_fits:
  assumes "\<bar>sint i\<bar> \<le> 2 ^ 53"
  shows "flt_ext (int_to_flt i) = Some (0, of_int (sint i))"
proof -
  have "flt_finite (int_to_flt i) \<and> flt_val (int_to_flt i) = of_int (sint i)"
    using int_to_flt_small [of i] int_to_flt_power [of i 53] assms by (cases "\<bar>sint i\<bar> = 2 ^ 53") auto
  then show ?thesis by (auto simp: flt_ext_def dest: nan_infinite)
qed

end
