(* ===== verification/Lua_Number.thy ===== *)
theory Lua_Number
  imports Lua_Match Lua_Float
begin

text \<open>
  Numbers: numerals and their values (\<open>lobject.c\<close>), conversions between the types of numbers and
  strings, comparisons, integer arithmetic and the numeric for loop (\<open>lvm.c\<close>).
\<close>

unbundle bit_operations_syntax

section \<open>Numerals\<close>

text \<open>A C string is the list of its bytes without the terminating zero.\<close>

definition isneg :: "byte list \<Rightarrow> bool \<times> byte list" where
  "isneg s = (case s of
     [] \<Rightarrow> (False, s)
   | c # cs \<Rightarrow> if c = ch CHR ''-'' then (True, cs) else if c = ch CHR ''+'' then (False, cs) else (False, s))"

definition luaO_hexavalue :: "byte \<Rightarrow> int" where
  "luaO_hexavalue c =
     (if isdigit c then uint c - uint (ch CHR ''0'') else (uint (tolower c) - uint (ch CHR ''a'')) + 10)"

definition hex_prefix :: "byte list \<Rightarrow> bool" where
  "hex_prefix s = (case s of z # x # cs \<Rightarrow> z = ch CHR ''0'' \<and> (x = ch CHR ''x'' \<or> x = ch CHR ''X'') | _ \<Rightarrow> False)"

text \<open>The loop over the digits, with its base and the value of a digit; \<open>a\<close> wraps.\<close>

definition numeral_value :: "u64 \<Rightarrow> (byte \<Rightarrow> int) \<Rightarrow> byte list \<Rightarrow> u64" where
  "numeral_value base val ds = fold (\<lambda>c a. a * base + word_of_int (val c)) ds 0"

definition l_str2int :: "byte list \<Rightarrow> u64 option" where
  "l_str2int s =
     (let s = dropWhile isspace s;
          (neg, s) = isneg s;
          hex = hex_prefix s;
          s = (if hex then drop 2 s else s);
          isd = (if hex then isxdigit else isdigit);
          ds = takeWhile isd s;
          a = (if hex then numeral_value 16 luaO_hexavalue ds
               else numeral_value 10 (\<lambda>c. uint c - uint (ch CHR ''0'')) ds);
          s = dropWhile isspace (dropWhile isd s)
      in if ds = [] \<or> s \<noteq> [] then None else Some (if neg then 0 - a else a))"

text \<open>
  The conversions of floats rest on the C library and are parameters: \<open>strtod\<close>, with the value
  and the number of bytes it read, and \<open>sprintf\<close> with the format of a float.
\<close>

record conv =
  cv_strtod :: "byte list \<Rightarrow> u64 \<times> nat"
  cv_flt2str :: "u64 \<Rightarrow> byte list"

definition l_str2d :: "conv \<Rightarrow> byte list \<Rightarrow> u64 option" where
  "l_str2d cv s =
     (if ch CHR ''n'' \<in> set s \<or> ch CHR ''N'' \<in> set s then None
      else let (n, e) = cv_strtod cv s in
           if e = 0 then None
           else if dropWhile isspace (drop e s) = [] then Some n else None)"

text \<open>
  \<open>luaO_str2num\<close>, with the comparison of its result and the length that all callers make: the
  whole string is the numeral, so it has no zero byte.
\<close>

definition luaO_str2num :: "conv \<Rightarrow> byte list \<Rightarrow> tvalue option" where
  "luaO_str2num cv s =
     (if 0 \<in> set s then None
      else case l_str2int s of
        Some i \<Rightarrow> Some (LInt i)
      | None \<Rightarrow> (case l_str2d cv s of Some n \<Rightarrow> Some (LFlt n) | None \<Rightarrow> None))"

definition int_text :: "u64 \<Rightarrow> byte list" where
  "int_text i = (if sint i < 0 then ch CHR ''-'' # dec_text (nat (- sint i)) else dec_text (nat (sint i)))"

text \<open>\<open>luaO_tostring\<close> on a number: a float that looks like an integer gets a suffix.\<close>

definition looks_like_int :: "byte list \<Rightarrow> bool" where
  "looks_like_int b \<longleftrightarrow> list_all (\<lambda>c. c = ch CHR ''-'' \<or> isdigit c) b"

definition luaO_tostring :: "conv \<Rightarrow> tvalue \<Rightarrow> byte list" where
  "luaO_tostring cv v = (case v of
     LInt i \<Rightarrow> int_text i
   | LFlt f \<Rightarrow> (let b = cv_flt2str cv f in if looks_like_int b then b @ [ch CHR ''.'', ch CHR ''0''] else b)
   | _ \<Rightarrow> [])"

section \<open>Conversions of values\<close>

fun luaV_tonumber :: "conv \<Rightarrow> tvalue \<Rightarrow> u64 option" where
  "luaV_tonumber cv (LFlt f) = Some f"
| "luaV_tonumber cv (LInt i) = Some (int_to_flt i)"
| "luaV_tonumber cv (LStr s) = (case luaO_str2num cv (str_bytes s) of
     Some (LInt i) \<Rightarrow> Some (int_to_flt i) | Some (LFlt f) \<Rightarrow> Some f | _ \<Rightarrow> None)"
| "luaV_tonumber cv _ = None"

fun luaV_tointeger :: "conv \<Rightarrow> nat \<Rightarrow> tvalue \<Rightarrow> u64 option" where
  "luaV_tointeger cv mode (LFlt f) = flt_tointeger f mode"
| "luaV_tointeger cv mode (LInt i) = Some i"
| "luaV_tointeger cv mode (LStr s) = (case luaO_str2num cv (str_bytes s) of
     Some (LInt i) \<Rightarrow> Some i | Some (LFlt f) \<Rightarrow> flt_tointeger f mode | _ \<Rightarrow> None)"
| "luaV_tointeger cv mode _ = None"

section \<open>Comparisons\<close>

definition LUA_MININTEGER :: u64 where "LUA_MININTEGER = 2 ^ 63"
definition LUA_MAXINTEGER :: u64 where "LUA_MAXINTEGER = 2 ^ 63 - 1"

definition l_intfitsf :: "u64 \<Rightarrow> bool" where
  "l_intfitsf i \<longleftrightarrow> - (2 ^ 53) \<le> sint i \<and> sint i \<le> 2 ^ 53"

definition LTintfloat :: "u64 \<Rightarrow> u64 \<Rightarrow> bool" where
  "LTintfloat i f =
     (if \<not> l_intfitsf i then
        if luai_numle (luai_numunm (int_to_flt LUA_MININTEGER)) f then True
        else if luai_numlt (int_to_flt LUA_MININTEGER) f then sint i < flt_trunc f
        else False
      else luai_numlt (int_to_flt i) f)"

definition LEintfloat :: "u64 \<Rightarrow> u64 \<Rightarrow> bool" where
  "LEintfloat i f =
     (if \<not> l_intfitsf i then
        if luai_numle (luai_numunm (int_to_flt LUA_MININTEGER)) f then True
        else if luai_numle (int_to_flt LUA_MININTEGER) f then sint i \<le> flt_trunc f
        else False
      else luai_numle (int_to_flt i) f)"

fun LTnum :: "tvalue \<Rightarrow> tvalue \<Rightarrow> bool" where
  "LTnum (LInt i) (LInt j) = (sint i < sint j)"
| "LTnum (LInt i) (LFlt f) = LTintfloat i f"
| "LTnum (LFlt f) (LFlt g) = luai_numlt f g"
| "LTnum (LFlt f) (LInt j) = (if flt_isnan f then False else \<not> LEintfloat j f)"
| "LTnum _ _ = False"

fun LEnum :: "tvalue \<Rightarrow> tvalue \<Rightarrow> bool" where
  "LEnum (LInt i) (LInt j) = (sint i \<le> sint j)"
| "LEnum (LInt i) (LFlt f) = LEintfloat i f"
| "LEnum (LFlt f) (LFlt g) = luai_numle f g"
| "LEnum (LFlt f) (LInt j) = (if flt_isnan f then False else \<not> LTintfloat j f)"
| "LEnum _ _ = False"

text \<open>
  \<open>l_strcmp\<close>, with \<open>strcoll\<close> a parameter on C strings.  The segments end at zero bytes; strings
  that collate equal are taken to have the same length.
\<close>

definition cseg :: "byte list \<Rightarrow> byte list" where
  "cseg s = takeWhile (\<lambda>c. c \<noteq> 0) s"

function l_strcmp :: "(byte list \<Rightarrow> byte list \<Rightarrow> int) \<Rightarrow> byte list \<Rightarrow> byte list \<Rightarrow> int res" where
  "l_strcmp strcoll l r =
     (let temp = strcoll (cseg l) (cseg r) in
      if temp \<noteq> 0 then Inr temp
      else let len = length (cseg l) in
           if len = length r then Inr (if len = length l then 0 else 1)
           else if len = length l then Inr (- 1)
           else if length r < len + 1 then Inl (MemFault ''segment behind a string'')
           else l_strcmp strcoll (drop (len + 1) l) (drop (len + 1) r))"
  by pat_completeness auto
termination
  by (relation "measure (\<lambda>(strcoll, l, r). length r)") auto

declare l_strcmp.simps [simp del]

section \<open>Integer arithmetic\<close>

text \<open>Division and remainder of C truncate towards zero.\<close>

definition c_quot :: "int \<Rightarrow> int \<Rightarrow> int" where
  "c_quot a b = sgn a * sgn b * (\<bar>a\<bar> div \<bar>b\<bar>)"

definition c_rem :: "int \<Rightarrow> int \<Rightarrow> int" where
  "c_rem a b = a - c_quot a b * b"

definition luaV_div :: "u64 \<Rightarrow> u64 \<Rightarrow> u64 res" where
  "luaV_div m n =
     (if n + 1 \<le> 1 then
        if n = 0 then Inl (RunError ''attempt to divide by zero'') else Inr (0 - m)
      else let q = word_of_int (c_quot (sint m) (sint n)) in
           if sint (m XOR n) < 0 \<and> c_rem (sint m) (sint n) \<noteq> 0 then Inr (q - 1) else Inr q)"

definition luaV_mod :: "u64 \<Rightarrow> u64 \<Rightarrow> u64 res" where
  "luaV_mod m n =
     (if n + 1 \<le> 1 then
        if n = 0 then Inl (RunError (''attempt to perform '' @ [CHR 0x27] @ ''n%0'' @ [CHR 0x27])) else Inr 0
      else let r = word_of_int (c_rem (sint m) (sint n)) in
           if r \<noteq> 0 \<and> sint (m XOR n) < 0 then Inr (r + n) else Inr r)"

definition NBITS :: int where "NBITS = 64"

definition luaV_shiftl :: "u64 \<Rightarrow> u64 \<Rightarrow> u64" where
  "luaV_shiftl x y =
     (if sint y < 0 then if sint y \<le> - NBITS then 0 else drop_bit (nat (- sint y)) x
      else if NBITS \<le> sint y then 0 else push_bit (nat (sint y)) x)"

text \<open>\<open>intarith\<close>, with the operators of \<open>lua.h\<close>.\<close>

datatype arith = LUA_OPADD | LUA_OPSUB | LUA_OPMUL | LUA_OPMOD | LUA_OPPOW | LUA_OPDIV | LUA_OPIDIV
  | LUA_OPBAND | LUA_OPBOR | LUA_OPBXOR | LUA_OPSHL | LUA_OPSHR | LUA_OPUNM | LUA_OPBNOT

definition intarith :: "arith \<Rightarrow> u64 \<Rightarrow> u64 \<Rightarrow> u64 res" where
  "intarith op v1 v2 = (case op of
     LUA_OPADD \<Rightarrow> Inr (v1 + v2)
   | LUA_OPSUB \<Rightarrow> Inr (v1 - v2)
   | LUA_OPMUL \<Rightarrow> Inr (v1 * v2)
   | LUA_OPMOD \<Rightarrow> luaV_mod v1 v2
   | LUA_OPIDIV \<Rightarrow> luaV_div v1 v2
   | LUA_OPBAND \<Rightarrow> Inr (v1 AND v2)
   | LUA_OPBOR \<Rightarrow> Inr (v1 OR v2)
   | LUA_OPBXOR \<Rightarrow> Inr (v1 XOR v2)
   | LUA_OPSHL \<Rightarrow> Inr (luaV_shiftl v1 v2)
   | LUA_OPSHR \<Rightarrow> Inr (luaV_shiftl v1 (- v2))
   | LUA_OPUNM \<Rightarrow> Inr (0 - v1)
   | LUA_OPBNOT \<Rightarrow> Inr (NOT 0 XOR v1)
   | _ \<Rightarrow> Inr 0)"

section \<open>The numeric for loop\<close>

text \<open>The limit as an integer, and \<open>stopnow\<close>; nothing if the limit is not a number.\<close>

definition forlimit :: "conv \<Rightarrow> tvalue \<Rightarrow> u64 \<Rightarrow> (u64 \<times> bool) option" where
  "forlimit cv obj step =
     (case luaV_tointeger cv (if sint step < 0 then 2 else 1) obj of
        Some p \<Rightarrow> Some (p, False)
      | None \<Rightarrow> (case luaV_tonumber cv obj of
          None \<Rightarrow> None
        | Some n \<Rightarrow>
            if luai_numlt 0 n then Some (LUA_MAXINTEGER, sint step < 0)
            else Some (LUA_MININTEGER, 0 \<le> sint step)))"

definition forfloat :: "conv \<Rightarrow> tvalue \<Rightarrow> string \<Rightarrow> u64 res" where
  "forfloat cv v what = (case luaV_tonumber cv v of
     Some n \<Rightarrow> Inr n
   | None \<Rightarrow> Inl (RunError (CHR 0x27 # ''for'' @ CHR 0x27 # what @ '' must be a number'')))"

text \<open>\<open>OP_FORPREP\<close>: the internal index, limit and step.\<close>

definition forprep :: "conv \<Rightarrow> tvalue \<Rightarrow> tvalue \<Rightarrow> tvalue \<Rightarrow> (tvalue \<times> tvalue \<times> tvalue) res" where
  "forprep cv init plimit pstep =
     (let floats =
        ebind (forfloat cv plimit '' limit'') (\<lambda>nlimit.
        ebind (forfloat cv pstep '' step'') (\<lambda>nstep.
        ebind (forfloat cv init '' initial value'') (\<lambda>ninit.
        Inr (LFlt (luai_numsub ninit nstep), LFlt nlimit, LFlt nstep))))
      in case (init, pstep) of
        (LInt i, LInt s) \<Rightarrow> (case forlimit cv plimit s of
          Some (ilimit, stopnow) \<Rightarrow> Inr (LInt ((if stopnow then 0 else i) - s), LInt ilimit, LInt s)
        | None \<Rightarrow> floats)
      | _ \<Rightarrow> floats)"

text \<open>\<open>OP_FORLOOP\<close>: the next index, or the end of the loop; sums wrap.\<close>

fun forloop :: "tvalue \<Rightarrow> tvalue \<Rightarrow> tvalue \<Rightarrow> tvalue option" where
  "forloop (LInt i) (LInt limit) (LInt step) =
     (let idx = i + step in
      if (if 0 < sint step then sint idx \<le> sint limit else sint limit \<le> sint idx) then Some (LInt idx) else None)"
| "forloop (LFlt i) (LFlt limit) (LFlt step) =
     (let idx = luai_numadd i step in
      if (if luai_numlt 0 step then luai_numle idx limit else luai_numle limit idx) then Some (LFlt idx) else None)"
| "forloop _ _ _ = None"

text \<open>The first \<open>d\<close> rounds of a loop: the values of its variable, and whether it has ended.\<close>

fun for_rounds :: "nat \<Rightarrow> tvalue \<Rightarrow> tvalue \<Rightarrow> tvalue \<Rightarrow> tvalue list \<times> bool" where
  "for_rounds 0 i limit step = ([], False)"
| "for_rounds (Suc d) i limit step = (case forloop i limit step of
     None \<Rightarrow> ([], True)
   | Some i' \<Rightarrow> (let (vs, ended) = for_rounds d i' limit step in (i' # vs, ended)))"

end
