(* ===== verification/Lua_Number_Spec.thy ===== *)
theory Lua_Number_Spec
  imports Lua_Number
begin

text \<open>
  Numbers mean what mathematics says: comparisons between integers and floats are exact, integer
  division rounds down, shifts move bits, integers survive being written and read.
\<close>

unbundle bit_operations_syntax

section \<open>Comparisons are exact\<close>

lemma flt_mag_less: "flt_mag b < 2 ^ 53"
proof -
  have "flt_frac b < 2 ^ 52" by (simp add: flt_fields(2))
  then show ?thesis by (simp add: flt_mag_def)
qed

lemma flt_trunc_integral:
  assumes "0 \<le> flt_pow b"
  shows "flt_val b = of_int (flt_trunc b)"
  using assms by (simp add: flt_val_def flt_trunc_def flt_mant_def Let_def power_int_def)

lemma flt_small:
  assumes "flt_pow b < 0"
  shows "\<bar>flt_val b\<bar> < 2 ^ 53" "\<bar>flt_trunc b\<bar> < 2 ^ 53"
proof -
  have "(2::real) powi flt_pow b \<le> 1" using assms by (simp add: power_int_def inverse_le_1_iff power_le_one)
  then have "real (flt_mag b) * 2 powi flt_pow b \<le> real (flt_mag b)" by (simp add: mult_left_le)
  also have "real (flt_mag b) < real (2 ^ 53)" using flt_mag_less [of b] by (simp only: of_nat_less_iff)
  finally show "\<bar>flt_val b\<bar> < 2 ^ 53" by (simp add: flt_val_def flt_mant_def abs_mult)
  have "int (flt_mag b) div 2 ^ nat (- flt_pow b) \<le> int (flt_mag b)" 
    using div_le_dividend [of "flt_mag b" "2 ^ nat (- flt_pow b)"] by (simp add: zdiv_int flip: of_nat_le_iff [where ?'a = int])
  moreover have "0 \<le> int (flt_mag b) div 2 ^ nat (- flt_pow b)" by (simp add: div_int_pos_iff)
  ultimately show "\<bar>flt_trunc b\<bar> < 2 ^ 53"
    using assms flt_mag_less [of b] by (simp add: flt_trunc_def Let_def)
qed

text \<open>A large integer compares with a float as with its truncation.\<close>

lemma trunc_less:
  assumes "2 ^ 53 < \<bar>i\<bar>"
  shows "i < flt_trunc b \<longleftrightarrow> of_int i < flt_val b" "i \<le> flt_trunc b \<longleftrightarrow> of_int i \<le> flt_val b"
proof -
  have "(i < flt_trunc b \<longleftrightarrow> of_int i < flt_val b) \<and> (i \<le> flt_trunc b \<longleftrightarrow> of_int i \<le> flt_val b)"
  proof (cases "0 \<le> flt_pow b")
    case True
    then show ?thesis by (simp add: flt_trunc_integral)
  next
    case False
    then have s: "\<bar>flt_val b\<bar> < 2 ^ 53" "\<bar>flt_trunc b\<bar> < 2 ^ 53" using flt_small [of b] by simp_all
    consider "i < - (2 ^ 53)" | "2 ^ 53 < i" using assms by linarith
    then show ?thesis
    proof cases
      case 1
      then have "real_of_int i < real_of_int (- (2 ^ 53))" by (simp only: of_int_less_iff)
      then show ?thesis using s 1 by auto
    next
      case 2
      then have "real_of_int (2 ^ 53) < real_of_int i" by (simp only: of_int_less_iff)
      then show ?thesis using s 2 by auto
    qed
  qed
  then show "i < flt_trunc b \<longleftrightarrow> of_int i < flt_val b" "i \<le> flt_trunc b \<longleftrightarrow> of_int i \<le> flt_val b" by simp_all
qed

text \<open>The bounds of the integers as floats.\<close>

lemma minint: "sint LUA_MININTEGER = - (2 ^ 63)"
  by code_simp

lemma minint_float:
  "flt_ext (int_to_flt LUA_MININTEGER) = Some (0, - (2 ^ 63))"
  "flt_ext (luai_numunm (int_to_flt LUA_MININTEGER)) = Some (0, 2 ^ 63)"
proof -
  have "int_to_flt LUA_MININTEGER = 0xC3E0000000000000"
    using int_to_flt_power(3) [of LUA_MININTEGER 63] by (simp add: minint)
  moreover have "flt_finite 0xC3E0000000000000" "flt_mant 0xC3E0000000000000 = - (2 ^ 52)" "flt_pow 0xC3E0000000000000 = 11"
    using flt_decode [of "1086 * 2 ^ 52" True] by (simp_all add: flt_finite_def flt_mant_def flt_mag_def flt_pow_def)
  moreover have "flt_finite 0x43E0000000000000" "flt_mant 0x43E0000000000000 = 2 ^ 52" "flt_pow 0x43E0000000000000 = 11"
    using flt_decode [of "1086 * 2 ^ 52" False] by (simp_all add: flt_finite_def flt_mant_def flt_mag_def flt_pow_def)
  moreover have "luai_numunm 0xC3E0000000000000 = 0x43E0000000000000" by code_simp
  ultimately show "flt_ext (int_to_flt LUA_MININTEGER) = Some (0, - (2 ^ 63))"
    "flt_ext (luai_numunm (int_to_flt LUA_MININTEGER)) = Some (0, 2 ^ 63)"
    by (auto simp: flt_ext_def flt_val_def dest: nan_infinite)
qed

text \<open>The exact value of a number.\<close>

fun num_ext :: "tvalue \<Rightarrow> (int \<times> real) option" where
  "num_ext (LInt i) = Some (0, of_int (sint i))"
| "num_ext (LFlt f) = flt_ext f"
| "num_ext v = None"

lemma sint_range: "- (2 ^ 63) \<le> sint i" "sint i < 2 ^ 63" for i :: u64
  using sint_greater_eq [of i] sint_lt [of i] by simp_all

lemma real_sint_range: "- (2 ^ 63) \<le> real_of_int (sint i)" "real_of_int (sint i) < 2 ^ 63" for i :: u64
proof -
  have "real_of_int (- (2 ^ 63)) \<le> real_of_int (sint i)" using sint_range(1) by (simp only: of_int_le_iff)
  then show "- (2 ^ 63) \<le> real_of_int (sint i)" by simp
  have "real_of_int (sint i) < real_of_int (2 ^ 63)" using sint_range(2) by (simp only: of_int_less_iff)
  then show "real_of_int (sint i) < 2 ^ 63" by simp
qed

lemma flt_ext_cases:
  obtains "flt_isnan f" "flt_ext f = None"
  | "flt_finite f" "\<not> flt_isnan f" "flt_ext f = Some (0, flt_val f)"
  | "\<not> flt_finite f" "\<not> flt_isnan f" "flt_ext f = Some (flt_side f, 0)" "flt_side f = 1 \<or> flt_side f = - 1"
  by (cases "flt_isnan f"; cases "flt_finite f") (auto simp: flt_ext_def flt_side_def dest: nan_infinite)

lemma LTintfloat_exact: "LTintfloat i f \<longleftrightarrow> ext_less (Some (0, of_int (sint i))) (flt_ext f)"
proof (cases "l_intfitsf i")
  case True
  then have "\<bar>sint i\<bar> \<le> 2 ^ 53" by (auto simp: l_intfitsf_def)
  then show ?thesis using True by (simp add: LTintfloat_def numlt_exact int_to_flt_fits)
next
  case False
  then have big: "2 ^ 53 < \<bar>sint i\<bar>" by (auto simp: l_intfitsf_def)
  note r = real_sint_range [of i] and t = trunc_less(1) [OF big, of f]
  show ?thesis
    by (cases rule: flt_ext_cases [of f])
      (use False r t in \<open>auto simp: LTintfloat_def numlt_exact numle_exact minint_float ext_less_def ext_le_def simp del: of_int_sint\<close>)
qed

lemma LEintfloat_exact: "LEintfloat i f \<longleftrightarrow> ext_le (Some (0, of_int (sint i))) (flt_ext f)"
proof (cases "l_intfitsf i")
  case True
  then have "\<bar>sint i\<bar> \<le> 2 ^ 53" by (auto simp: l_intfitsf_def)
  then show ?thesis using True by (simp add: LEintfloat_def numle_exact int_to_flt_fits)
next
  case False
  then have big: "2 ^ 53 < \<bar>sint i\<bar>" by (auto simp: l_intfitsf_def)
  note r = real_sint_range [of i] and t = trunc_less(2) [OF big, of f]
  show ?thesis
    by (cases rule: flt_ext_cases [of f])
      (use False r t in \<open>auto simp: LEintfloat_def numlt_exact numle_exact minint_float ext_less_def ext_le_def simp del: of_int_sint\<close>)
qed

lemma ext_neg:
  assumes "flt_ext f = Some y"
  shows "ext_less (Some y) (Some x) \<longleftrightarrow> \<not> ext_le (Some x) (Some y)" "ext_le (Some y) (Some x) \<longleftrightarrow> \<not> ext_less (Some x) (Some y)"
  by (cases x; cases y; auto simp: ext_less_def ext_le_def)+

text \<open>C28:
  Numbers compare by their exact values: for integers and floats in any combination, \<open><\<close> and
  \<open><=\<close> hold exactly when they hold of the real numbers (with the infinities at the ends), also
  for integers that no float represents; a NaN compares false with everything.
\<close>

theorem number_order_exact:
  "(LTnum v w \<longleftrightarrow> ext_less (num_ext v) (num_ext w)) \<and> (LEnum v w \<longleftrightarrow> ext_le (num_ext v) (num_ext w))"
proof (cases "\<exists>f j. v = LFlt f \<and> w = LInt j")
  case True
  then obtain f j where vw: "v = LFlt f" "w = LInt j" by blast
  show ?thesis
  proof (cases "flt_isnan f")
    case True
    then show ?thesis by (simp add: vw flt_ext_def ext_less_def ext_le_def)
  next
    case False
    then obtain y where y: "flt_ext f = Some y" by (cases rule: flt_ext_cases [of f]) auto
    show ?thesis using False ext_neg [OF y] by (simp add: vw LTintfloat_exact LEintfloat_exact y del: of_int_sint)
  qed
next
  case False
  then show ?thesis
    by (cases v; cases w) (auto simp: LTintfloat_exact LEintfloat_exact numlt_exact numle_exact ext_less_def ext_le_def
        simp del: of_int_sint split: option.split)
qed

section \<open>Integer division rounds down\<close>

lemma floor_div:
  assumes "b \<noteq> 0"
  shows "a div b = (if (a < 0) \<noteq> (b < 0) \<and> c_rem a b \<noteq> 0 then c_quot a b - 1 else c_quot a b)"
proof -
  have pos: "c div d * d + c mod d = c" for c d :: int by simp
  consider "0 \<le> a" "0 < b" | "0 \<le> a" "b < 0" | "a < 0" "0 < b" | "a < 0" "b < 0" using assms by linarith
  then show ?thesis
  proof cases
    case 1
    then show ?thesis by (cases "a = 0") (simp_all add: c_quot_def)
  next
    case 2
    have "a div b = (if a mod - b = 0 then - (a div - b) else - (a div - b) - 1)"
      using 2 zdiv_zminus2_eq_if [of "- b" a] by simp
    moreover have "c_rem a b = a mod - b" using 2 pos [of a "- b"]
      by (cases "a = 0") (simp_all add: c_rem_def c_quot_def algebra_simps)
    ultimately show ?thesis using 2 by (cases "a = 0") (simp_all add: c_quot_def)
  next
    case 3
    have "a div b = (if - a mod b = 0 then - (- a div b) else - (- a div b) - 1)"
      using 3 zdiv_zminus1_eq_if [of b "- a"] by simp
    moreover have "- a mod b = - a - (- a div b) * b" by (simp add: minus_div_mult_eq_mod)
    then have "c_rem a b = - (- a mod b)" using 3 by (simp add: c_rem_def c_quot_def)
    ultimately show ?thesis using 3 by (simp add: c_quot_def)
  next
    case 4
    then show ?thesis by (simp add: c_quot_def)
  qed
qed

lemma floor_mod:
  assumes "b \<noteq> 0"
  shows "a mod b = (if (a < 0) \<noteq> (b < 0) \<and> c_rem a b \<noteq> 0 then c_rem a b + b else c_rem a b)"
proof -
  have "a mod b = a - a div b * b" by (simp add: minus_div_mult_eq_mod)
  then show ?thesis unfolding floor_div [OF assms, of a] by (auto simp: c_rem_def left_diff_distrib split: if_splits)
qed

lemma c_rem_small: "b \<noteq> 0 \<Longrightarrow> \<bar>c_rem a b\<bar> < \<bar>b\<bar>"
proof -
  assume b: "b \<noteq> 0"
  have "c_rem a b = sgn a * (\<bar>a\<bar> mod \<bar>b\<bar>)"
  proof -
    have "sgn b * b = \<bar>b\<bar>" "sgn a * \<bar>a\<bar> = a" by (simp_all add: abs_sgn mult.commute sgn_mult_abs)
    then have "c_rem a b = sgn a * (\<bar>a\<bar> - \<bar>a\<bar> div \<bar>b\<bar> * \<bar>b\<bar>)"
      by (simp add: c_rem_def c_quot_def algebra_simps)
    then show ?thesis by (simp add: minus_div_mult_eq_mod)
  qed
  moreover have "0 \<le> \<bar>a\<bar> mod \<bar>b\<bar>" "\<bar>a\<bar> mod \<bar>b\<bar> < \<bar>b\<bar>" using b by simp_all
  ultimately show ?thesis by (cases "a = 0") (simp_all add: abs_mult)
qed

lemma sint_negative_bit: "sint w < 0 \<longleftrightarrow> bit w 63" for w :: u64
  by (simp add: sint_uint signed_take_bit_negative_iff bit_uint_iff flip: not_less)

lemma xor_negative: "sint (m XOR n) < 0 \<longleftrightarrow> (sint m < 0) \<noteq> (sint n < 0)" for m n :: u64
  by (simp add: sint_negative_bit bit_xor_iff)

lemma special_divisor: "n + 1 \<le> 1 \<longleftrightarrow> n = 0 \<or> n = - 1" for n :: u64
proof -
  have "n + 1 \<le> 1 \<longleftrightarrow> n + 1 = 0 \<or> n + 1 = 1" by (metis le_less word_less_1)
  then show ?thesis by (simp add: eq_neg_iff_add_eq_0) blast
qed

lemma word_of_small_int: "word_of_int x = (0 :: u64) \<longleftrightarrow> x = 0" if "\<bar>x\<bar> < 2 ^ 63"
proof -
  have "sint (word_of_int x :: u64) = x" by (rule sint_word_of_int_range) (use that in auto)
  then show ?thesis by auto
qed

lemma luaV_div_floor:
  "luaV_div m n = (if n = 0 then Inl (RunError ''attempt to divide by zero'')
     else Inr (word_of_int (sint m div sint n)))"
proof (cases "n = 0 \<or> n = - 1")
  case True
  then show ?thesis by (auto simp: luaV_div_def special_divisor)
next
  case False
  then have n: "sint n \<noteq> 0" by (simp add: signed_eq_0_iff)
  show ?thesis unfolding floor_div [OF n, of "sint m"]
    using False by (simp add: luaV_div_def special_divisor xor_negative Let_def)
qed

lemma luaV_mod_floor:
  "luaV_mod m n = (if n = 0 then Inl (RunError (''attempt to perform '' @ [CHR 0x27] @ ''n%0'' @ [CHR 0x27]))
     else Inr (word_of_int (sint m mod sint n)))"
proof (cases "n = 0 \<or> n = - 1")
  case True
  then show ?thesis by (auto simp: luaV_mod_def special_divisor)
next
  case False
  then have n: "sint n \<noteq> 0" by (simp add: signed_eq_0_iff)
  have "\<bar>sint n\<bar> \<le> 2 ^ 63" using sint_range [of n] by linarith
  then have "word_of_int (c_rem (sint m) (sint n)) = (0 :: u64) \<longleftrightarrow> c_rem (sint m) (sint n) = 0"
    using c_rem_small [OF n, of "sint m"] by (intro word_of_small_int) linarith
  then show ?thesis unfolding floor_mod [OF n, of "sint m"]
    using False by (auto simp: luaV_mod_def special_divisor xor_negative Let_def)
qed

lemma luaV_shiftl_bits:
  assumes "i < 64"
  shows "bit (luaV_shiftl x y) i \<longleftrightarrow> 0 \<le> int i - sint y \<and> int i - sint y < 64 \<and> bit x (nat (int i - sint y))"
proof -
  have out: "\<not> bit x k" if "64 \<le> k" for k using that bit_imp_le_length [of x k] by auto
  show ?thesis
  proof (cases "sint y < 0")
    case True
    then have "nat (int i - sint y) = nat (- sint y) + i" by (simp add: nat_add_distrib)
    moreover have "int i - sint y < 64 \<longleftrightarrow> nat (- sint y) + i < 64" using True by linarith
    ultimately show ?thesis using True out [of "nat (- sint y) + i"]
      by (auto simp: luaV_shiftl_def NBITS_def bit_drop_bit_eq)
  next
    case False
    then have "nat (int i - sint y) = i - nat (sint y)" by (simp add: nat_diff_distrib')
    then show ?thesis using False assms
      by (auto simp: luaV_shiftl_def NBITS_def bit_push_bit_iff nat_le_iff)
  qed
qed

text \<open>C29:
  Integer division and modulo round down: for every divisor but zero \<open>//\<close> and \<open>%\<close> on integers are
  the floor of the quotient and the remainder of its sign, wrapped to 64 bits (only the least
  integer divided by -1 wraps); a zero divisor, and nothing else, is an error.
\<close>

theorem division_floors:
  "luaV_div m n = (if n = 0 then Inl (RunError ''attempt to divide by zero'') else Inr (word_of_int (sint m div sint n))) \<and>
   luaV_mod m n = (if n = 0 then Inl (RunError (''attempt to perform '' @ [CHR 0x27] @ ''n%0'' @ [CHR 0x27])) else Inr (word_of_int (sint m mod sint n)))"
  by (simp only: luaV_div_floor luaV_mod_floor)

section \<open>The for loop\<close>

text \<open>The number of rounds of a loop from \<open>a\<close> to \<open>l\<close> by \<open>s\<close>.\<close>

definition for_count :: "int \<Rightarrow> int \<Rightarrow> int \<Rightarrow> nat" where
  "for_count a l s = (if 0 < s then if a \<le> l then nat ((l - a) div s) + 1 else 0
     else if l \<le> a then nat ((a - l) div - s) + 1 else 0)"

lemma for_count_step:
  assumes "s \<noteq> 0" "if 0 < s then a \<le> l else l \<le> a"
  shows "for_count a l s = Suc (for_count (a + s) l s)"
proof (cases "0 < s")
  case True
  then have "(l - a) div s = (l - (a + s)) div s + 1"
    using div_add_self2 [of s "l - (a + s)"] by (simp add: algebra_simps)
  moreover have "0 \<le> (l - (a + s)) div s \<longleftrightarrow> a + s \<le> l" using True by (simp add: pos_imp_zdiv_nonneg_iff)
  ultimately show ?thesis using True assms(2) by (auto simp: for_count_def nat_add_distrib)
next
  case False
  then have s: "0 < - s" using assms(1) by simp
  then have "(a - l) div - s = (a + s - l) div - s + 1"
    using div_add_self2 [of "- s" "a + s - l"] by (simp add: algebra_simps)
  moreover have "0 \<le> (a + s - l) div - s \<longleftrightarrow> l \<le> a + s" using s by (simp add: pos_imp_zdiv_nonneg_iff del: div_minus_right)
  ultimately show ?thesis using False assms(2) by (auto simp: for_count_def nat_add_distrib simp del: div_minus_right)
qed

lemma for_rounds_count:
  assumes "s \<noteq> 0" "if 0 < sint s then sint l + sint s < 2 ^ 63 else - (2 ^ 63) \<le> sint l + sint s"
  shows "for_count (sint a) (sint l) (sint s) < d \<Longrightarrow>
    for_rounds d (LInt (a - s)) (LInt l) (LInt s) =
      (map (\<lambda>k. LInt (a + of_nat k * s)) [0..<for_count (sint a) (sint l) (sint s)], True)"
proof (induction d arbitrary: a)
  case (Suc d)
  let ?n = "for_count (sint a) (sint l) (sint s)"
  have s0: "sint s \<noteq> 0" using assms(1) by (simp add: signed_eq_0_iff)
  show ?case
  proof (cases "if 0 < sint s then sint a \<le> sint l else sint l \<le> sint a")
    case False
    then have "?n = 0" by (auto simp: for_count_def split: if_splits)
    then show ?thesis using False by (simp split: if_splits)
  next
    case True
    have "- (2 ^ 63) \<le> sint a + sint s" "sint a + sint s < 2 ^ 63"
      using True assms(2) sint_range [of a] sint_range [of s] s0 by (auto split: if_splits)
    then have "sint (word_of_int (sint a + sint s) :: u64) = sint a + sint s"
      by (intro sint_word_of_int_range) simp_all
    then have sum: "sint (a + s) = sint a + sint s" by simp
    have n: "?n = Suc (for_count (sint (a + s)) (sint l) (sint s))"
      unfolding sum by (rule for_count_step [OF s0 True])
    have "for_rounds d (LInt (a + s - s)) (LInt l) (LInt s) =
        (map (\<lambda>k. LInt (a + s + of_nat k * s)) [0..<for_count (sint (a + s)) (sint l) (sint s)], True)"
      using Suc.prems n by (intro Suc.IH) simp
    then show ?thesis unfolding n
      using True by (simp add: map_upt_Suc algebra_simps del: upt_Suc split: if_splits)
  qed
qed simp

lemma for_rounds_endless:
  "\<not> snd (for_rounds d (LInt i) (LInt LUA_MAXINTEGER) (LInt 1))"
proof (induction d arbitrary: i)
  case (Suc d)
  have "sint LUA_MAXINTEGER = 2 ^ 63 - 1" by code_simp
  then have "sint (i + 1) \<le> sint LUA_MAXINTEGER" using sint_range(2) [of "i + 1"] by simp
  then show ?case using Suc by (simp add: split_beta)
qed simp

text \<open>
  An integer for loop runs its body for exactly the values of the progression up to the limit, and
  then ends, if the limit plus the step is an integer of 64 bits.  Otherwise the index can wrap
  around: with the greatest integer as limit and step 1 the loop never ends, whatever its start.
\<close>

theorem for_loop_counts:
  assumes "s \<noteq> 0" "if 0 < sint s then sint l + sint s < 2 ^ 63 else - (2 ^ 63) \<le> sint l + sint s"
  shows "forprep cv (LInt a) (LInt l) (LInt s) = Inr (LInt (a - s), LInt l, LInt s) \<and>
    (\<forall>d > for_count (sint a) (sint l) (sint s). for_rounds d (LInt (a - s)) (LInt l) (LInt s) =
      (map (\<lambda>k. LInt (a + of_nat k * s)) [0..<for_count (sint a) (sint l) (sint s)], True)) \<and>
    (\<forall>d. \<not> snd (for_rounds d (LInt (a - 1)) (LInt LUA_MAXINTEGER) (LInt 1)))"
  using for_rounds_count [OF assms] for_rounds_endless
  by (simp add: forprep_def forlimit_def)

lemma for_loop_counts_witness:
  "for_rounds 4 (LInt 13) (LInt 4) (LInt (- 3)) = ([LInt 10, LInt 7, LInt 4], True)"
proof -
  have "sint (- 3 :: u64) = - 3" "sint (4 :: u64) = 4" "sint (10 :: u64) = 10" by code_simp+
  moreover from this have "for_count (sint (10 :: u64)) (sint (4 :: u64)) (sint (- 3 :: u64)) = 3"
    by (simp add: for_count_def)
  ultimately show ?thesis
    using for_loop_counts [of "- 3" 4 "\<lparr>cv_strtod = (\<lambda>s. (0, 0)), cv_flt2str = (\<lambda>f. [])\<rparr>" 10]
    by (simp add: upt_rec numeral_3_eq_3)
qed


section \<open>Text of integers\<close>

lemma isdigit_of_nat:
  assumes "m < 10"
  shows "isdigit (of_nat (48 + m))"
proof -
  have "unat (of_nat (48 + m) :: byte) = 48 + m" using assms by (intro unat_of_nat_small) simp
  then show ?thesis using assms by (simp add: isdigit_def word_le_nat_alt del: of_nat_add)
qed

lemma dec_text_digits: "list_all isdigit (dec_text n)"
proof (induction n rule: dec_text.induct)
  case (1 n)
  show ?case by (subst dec_text.simps) (use 1 in \<open>simp add: isdigit_of_nat del: of_nat_add\<close>)
qed

lemma dec_text_not_empty [simp]: "dec_text n \<noteq> []"
  by (subst dec_text.simps) simp

lemma numeral_value_snoc:
  "numeral_value b val (ds @ [c]) = numeral_value b val ds * b + word_of_int (val c)"
  by (simp add: numeral_value_def)

lemma numeral_value_dec:
  "numeral_value 10 (\<lambda>c. uint c - uint (ch CHR ''0'')) (dec_text n) = of_nat n"
proof (induction n rule: dec_text.induct)
  case (1 n)
  let ?v = "\<lambda>c :: byte. uint c - uint (ch CHR ''0'')"
  have v: "?v (of_nat (48 + m)) = int m" if "m < 10" for m
  proof -
    have "uint (of_nat (48 + m) :: byte) = int (48 + m)"
      using that by (simp add: uint_nat unat_of_nat_small del: of_nat_add)
    moreover have "uint (ch CHR ''0'') = 48" by code_simp
    ultimately show ?thesis by simp
  qed
  have w: "word_of_int (?v (of_nat (48 + n mod 10))) = (of_nat (n mod 10) :: u64)"
    by (subst v) simp_all
  show ?case
  proof (cases "n < 10")
    case True
    then show ?thesis using w by (subst dec_text.simps) (simp add: numeral_value_def del: of_nat_add)
  next
    case False
    then have "numeral_value 10 ?v (dec_text n) = of_nat (n div 10) * 10 + of_nat (n mod 10)"
      by (subst dec_text.simps) (simp only: if_False numeral_value_snoc w 1 [OF False] False)
    also have "\<dots> = of_nat (n div 10 * 10 + n mod 10)" by (simp only: of_nat_add of_nat_mult) simp
    finally show ?thesis by (simp only: div_mult_mod_eq)
  qed
qed

lemma digits_plain:
  assumes "list_all isdigit ds" "ds \<noteq> []"
  shows "dropWhile isspace ds = ds" "isneg ds = (False, ds)" "\<not> hex_prefix ds"
    "takeWhile isdigit ds = ds" "dropWhile isdigit ds = []"
proof -
  have sp: "\<not> isspace c \<and> c \<noteq> ch CHR ''-'' \<and> c \<noteq> ch CHR ''+'' \<and> c \<noteq> ch CHR ''x'' \<and> c \<noteq> ch CHR ''X''"
    if "isdigit c" for c
  proof -
    have "ch CHR ''-'' = 45" "ch CHR ''+'' = 43" "ch CHR ''x'' = 120" "ch CHR ''X'' = 88" by code_simp+
    then show ?thesis using that by (auto simp: isdigit_def isspace_def word_le_nat_alt)
  qed
  from assms show "dropWhile isspace ds = ds" "isneg ds = (False, ds)" "\<not> hex_prefix ds"
    by (cases ds; auto simp: isneg_def hex_prefix_def dest!: sp split: list.splits)+
  from assms show "takeWhile isdigit ds = ds" "dropWhile isdigit ds = []"
    by (auto simp: list_all_iff)
qed

lemma l_str2int_text: "l_str2int (int_text i) = Some i"
proof (cases "sint i < 0")
  case True
  let ?d = "dec_text (nat (- sint i))"
  have sp: "\<not> isspace (ch CHR ''-'')" by code_simp
  have "(of_nat (nat (- sint i)) :: u64) = of_int (- sint i)" using True by simp
  also have "\<dots> = - i" by simp
  finally have "numeral_value 10 (\<lambda>c. uint c - uint (ch CHR ''0'')) ?d = - i"
    by (simp only: numeral_value_dec)
  moreover have "isneg (ch CHR ''-'' # ?d) = (True, ?d)" by (simp add: isneg_def)
  ultimately show ?thesis
    using True sp by (simp add: l_str2int_def int_text_def digits_plain [OF dec_text_digits])
next
  case False
  have "(of_nat (nat (sint i)) :: u64) = i" using False by simp
  then show ?thesis
    using False by (simp add: l_str2int_def int_text_def digits_plain [OF dec_text_digits] numeral_value_dec [simplified])
qed

text \<open>C30:
  The text of an integer reads back as that integer, whatever the conversions of floats do.
\<close>

theorem integer_text_roundtrip: "luaO_str2num cv (luaO_tostring cv (LInt i)) = Some (LInt i)"
proof -
  have "0 \<notin> set ds" if "list_all isdigit ds" for ds
    using that by (auto simp: list_all_iff isdigit_def)
  moreover have "ch CHR ''-'' \<noteq> 0" by code_simp
  ultimately have "0 \<notin> set (int_text i)" by (simp add: int_text_def dec_text_digits)
  then show ?thesis by (simp add: luaO_str2num_def luaO_tostring_def l_str2int_text)
qed


section \<open>The order of strings\<close>

text \<open>The lexicographic order of bytes, as the sign that \<open>strcmp\<close> returns.\<close>

fun lexcmp :: "byte list \<Rightarrow> byte list \<Rightarrow> int" where
  "lexcmp [] [] = 0"
| "lexcmp [] (y # ys) = - 1"
| "lexcmp (x # xs) [] = 1"
| "lexcmp (x # xs) (y # ys) = (if x < y then - 1 else if y < x then 1 else lexcmp xs ys)"

lemma lexcmp_zero: "lexcmp a b = 0 \<longleftrightarrow> a = b"
  by (induction a b rule: lexcmp.induct) auto

lemma lexcmp_append: "lexcmp (s @ a) (s @ b) = lexcmp a b"
  by (induction s) auto

lemma lexcmp_cseg:
  "lexcmp (cseg l) (cseg r) \<noteq> 0 \<Longrightarrow> lexcmp l r = lexcmp (cseg l) (cseg r)"
  by (induction l r rule: lexcmp.induct) (auto simp: cseg_def word_gt_0)

lemma cseg_split:
  obtains "l = cseg l" | l' where "l = cseg l @ 0 # l'"
proof (cases "dropWhile (\<lambda>c. c \<noteq> 0) l")
  case Nil
  then have "l = cseg l" unfolding cseg_def by (metis append_Nil2 takeWhile_dropWhile_id)
  then show ?thesis by (rule that(1))
next
  case (Cons c l')
  then have "c = 0" by (metis (mono_tags, lifting) dropWhile_eq_Cons_conv)
  then have "l = cseg l @ 0 # l'" unfolding cseg_def using Cons by (metis takeWhile_dropWhile_id)
  then show ?thesis by (rule that(2))
qed

lemma no_zero_cseg: "0 \<notin> set (cseg l)"
  by (auto simp: cseg_def dest: set_takeWhileD)

text \<open>
  With the collation of the C locale the comparison of strings is the lexicographic order of their
  bytes, zero bytes included, and it never leaves a string.
\<close>

theorem strings_lexicographic:
  assumes "\<And>a b. 0 \<notin> set a \<Longrightarrow> 0 \<notin> set b \<Longrightarrow> sgn (strcoll a b) = lexcmp a b"
  shows "\<exists>t. l_strcmp strcoll l r = Inr t \<and> sgn t = lexcmp l r"
  using assms
proof (induction strcoll l r rule: l_strcmp.induct)
  case (1 strcoll l r)
  have coll: "sgn (strcoll (cseg l) (cseg r)) = lexcmp (cseg l) (cseg r)"
    by (intro 1(2) no_zero_cseg)
  show ?case
  proof (cases "strcoll (cseg l) (cseg r) = 0")
    case False
    then have "lexcmp l r = lexcmp (cseg l) (cseg r)"
      using coll by (intro lexcmp_cseg) (metis sgn_0_0)
    then show ?thesis using False coll by (subst l_strcmp.simps) simp
  next
    case True
    then have seg: "cseg l = cseg r" using coll by (simp add: lexcmp_zero [symmetric])
    let ?s = "cseg r"
    have step: "l_strcmp strcoll l r =
        (if length ?s = length r then Inr (if length ?s = length l then 0 else 1)
         else if length ?s = length l then Inr (- 1)
         else if length r < length ?s + 1 then Inl (MemFault ''segment behind a string'')
         else l_strcmp strcoll (drop (length ?s + 1) l) (drop (length ?s + 1) r))"
      by (subst l_strcmp.simps) (use True in \<open>simp only: Let_def seg if_False simp_thms\<close>)
    have l: "l = ?s \<or> (\<exists>l'. l = ?s @ 0 # l')" by (rule cseg_split [of l]) (auto simp: seg)
    have r: "r = ?s \<or> (\<exists>r'. r = ?s @ 0 # r')" by (rule cseg_split [of r]) auto
    note cmp = lexcmp_append [of ?s, symmetric]
    from l r consider "l = ?s" "r = ?s" | l' where "l = ?s @ 0 # l'" "r = ?s"
      | r' where "l = ?s" "r = ?s @ 0 # r'" | l' r' where "l = ?s @ 0 # l'" "r = ?s @ 0 # r'"
      by blast
    then show ?thesis
    proof cases
      case 1
      then show ?thesis unfolding step by (simp add: lexcmp_zero)
    next
      case 2
      then have "lexcmp l r = 1" using lexcmp_append [of ?s "0 # l'" "[]"] by simp
      moreover have "length ?s = length r" "length ?s \<noteq> length l" using 2 by (metis, simp)
      ultimately show ?thesis unfolding step by simp
    next
      case 3
      then have "lexcmp l r = - 1" using lexcmp_append [of ?s "[]" "0 # r'"] by simp
      moreover have "length ?s \<noteq> length r" "length ?s = length l" using 3 by (metis add_cancel_left_right length_Cons length_append nat.simps(3), metis)
      ultimately show ?thesis unfolding step by simp
    next
      case 4
      have lens: "length l = length ?s + Suc (length l')" "length r = length ?s + Suc (length r')"
        using arg_cong [OF 4(1), of length] arg_cong [OF 4(2), of length] by simp_all
      have drops: "drop (length ?s + 1) l = l'" "drop (length ?s + 1) r = r'"
        using arg_cong [OF 4(1), of "drop (length ?s + 1)"] arg_cong [OF 4(2), of "drop (length ?s + 1)"]
        by simp_all
      have "lexcmp l r = lexcmp l' r'"
        using lexcmp_append [of ?s "0 # l'" "0 # r'"] 4 by simp
      moreover have "\<exists>t. l_strcmp strcoll l' r' = Inr t \<and> sgn t = lexcmp l' r'"
        using "1.IH" [OF refl] True lens drops seg "1.prems" by simp
      ultimately show ?thesis unfolding step using lens drops by simp
    qed
  qed
qed

lemma strings_lexicographic_witness:
  "\<exists>t. l_strcmp lexcmp [97, 0, 98] [97, 0] = Inr t \<and> sgn t = 1"
proof -
  have "sgn (lexcmp a b) = lexcmp a b" for a b by (induction a b rule: lexcmp.induct) auto
  then show ?thesis using strings_lexicographic [of lexcmp "[97, 0, 98]" "[97, 0]"] by simp
qed

end
