(* ===== verification/Lua_Pack.thy ===== *)
theory Lua_Pack
  imports Lua_Str Lua_Number
begin

text \<open>
  The functions pack, packsize and unpack of \<open>lstrlib.c\<close>, on a little-endian machine with 64-bit
  longs and pointers.  A format is a C string: the bytes left to read, without the terminating
  zero.  A \<open>lua_Number\<close> is its bit pattern, as everywhere.
\<close>

unbundle bit_operations_syntax

section \<open>Conversions of the arguments\<close>

text \<open>
  \<open>luaL_checkinteger\<close>, \<open>luaL_checknumber\<close> and \<open>luaL_checklstring\<close> on argument \<open>arg\<close>, with the
  conversions of \<open>Lua_Number\<close>.
\<close>

definition isnumber :: "conv \<Rightarrow> tvalue \<Rightarrow> bool" where
  "isnumber cv v \<longleftrightarrow> luaV_tonumber cv v \<noteq> None"

definition interror :: "conv \<Rightarrow> tvalue \<Rightarrow> nat \<Rightarrow> lua_error" where
  "interror cv v arg = ArgError arg
     (if isnumber cv v then ''number has no integer representation'' else ''number expected'')"

definition checkinteger :: "conv \<Rightarrow> tvalue \<Rightarrow> nat \<Rightarrow> u64 res" where
  "checkinteger cv v arg =
     (case luaV_tointeger cv 0 v of Some i \<Rightarrow> Inr i | None \<Rightarrow> Inl (interror cv v arg))"

definition checknumber :: "conv \<Rightarrow> tvalue \<Rightarrow> nat \<Rightarrow> u64 res" where
  "checknumber cv v arg =
     (case luaV_tonumber cv v of Some f \<Rightarrow> Inr f | None \<Rightarrow> Inl (ArgError arg ''number expected''))"

definition checklstring :: "conv \<Rightarrow> tvalue \<Rightarrow> nat \<Rightarrow> byte list res" where
  "checklstring cv v arg = (case v of
     LStr s \<Rightarrow> Inr (str_bytes s)
   | LInt i \<Rightarrow> Inr (luaO_tostring cv v)
   | LFlt f \<Rightarrow> Inr (luaO_tostring cv v)
   | _ \<Rightarrow> Inl (ArgError arg ''string expected''))"

text \<open>Argument \<open>arg\<close> counts from the format, which is argument 1; behind the last one is nil.\<close>

definition pack_arg :: "tvalue list \<Rightarrow> nat \<Rightarrow> tvalue" where
  "pack_arg args arg = (if arg - 2 < length args then args ! (arg - 2) else LNil)"

section \<open>Formats\<close>

definition MAXINTSIZE :: int where "MAXINTSIZE = 16"
definition SZINT :: nat where "SZINT = 8"
definition MAXALIGN :: int where "MAXALIGN = 8"

record header =
  islittle :: bool
  maxalign :: int

datatype koption = Kint | Kuint | Kfloat | Kchar | Kstring | Kzstr | Kpadding | Kpaddalign | Knop

definition digit :: "byte \<Rightarrow> bool" where
  "digit c \<longleftrightarrow> of_char CHR ''0'' \<le> c \<and> c \<le> of_char CHR ''9''"

text \<open>\<open>*fmt\<close>.\<close>

definition peek :: "byte list \<Rightarrow> byte" where
  "peek fmt = (case fmt of [] \<Rightarrow> 0 | c # cs \<Rightarrow> c)"

fun getnum_loop :: "int \<Rightarrow> byte list \<Rightarrow> int \<times> byte list" where
  "getnum_loop a [] = (a, [])"
| "getnum_loop a (c # fmt) =
     (let a = a * 10 + (uint c - uint (of_char CHR ''0'' :: byte)) in
      if digit (peek fmt) \<and> a \<le> (INT_MAX - 9) div 10 then getnum_loop a fmt else (a, fmt))"

definition getnum :: "byte list \<Rightarrow> int \<Rightarrow> int \<times> byte list" where
  "getnum fmt df = (if \<not> digit (peek fmt) then (df, fmt) else getnum_loop 0 fmt)"

definition getnumlimit :: "byte list \<Rightarrow> int \<Rightarrow> (int \<times> byte list) res" where
  "getnumlimit fmt df =
     (let (sz, fmt) = getnum fmt df in
      if MAXINTSIZE < sz \<or> sz \<le> 0 then Inl (RunError ''integral size out of limits'') else Inr (sz, fmt))"

definition initheader :: header where
  "initheader = \<lparr>islittle = True, maxalign = 1\<rparr>"

definition getoption :: "header \<Rightarrow> byte list \<Rightarrow> (koption \<times> int \<times> header \<times> byte list) res" where
  "getoption h fmt = (case fmt of [] \<Rightarrow> Inl (MemFault ''read behind the format'') | opt # fmt \<Rightarrow>
     let limited = (\<lambda>df k. ebind (getnumlimit fmt df) (\<lambda>(sz, fmt). Inr (k, sz, h, fmt))) in
     if opt = of_char CHR ''b'' then Inr (Kint, 1, h, fmt)
     else if opt = of_char CHR ''B'' then Inr (Kuint, 1, h, fmt)
     else if opt = of_char CHR ''h'' then Inr (Kint, 2, h, fmt)
     else if opt = of_char CHR ''H'' then Inr (Kuint, 2, h, fmt)
     else if opt = of_char CHR ''l'' then Inr (Kint, 8, h, fmt)
     else if opt = of_char CHR ''L'' then Inr (Kuint, 8, h, fmt)
     else if opt = of_char CHR ''j'' then Inr (Kint, 8, h, fmt)
     else if opt = of_char CHR ''J'' then Inr (Kuint, 8, h, fmt)
     else if opt = of_char CHR ''T'' then Inr (Kuint, 8, h, fmt)
     else if opt = of_char CHR ''f'' then Inr (Kfloat, 4, h, fmt)
     else if opt = of_char CHR ''d'' then Inr (Kfloat, 8, h, fmt)
     else if opt = of_char CHR ''n'' then Inr (Kfloat, 8, h, fmt)
     else if opt = of_char CHR ''i'' then limited 4 Kint
     else if opt = of_char CHR ''I'' then limited 4 Kuint
     else if opt = of_char CHR ''s'' then limited 8 Kstring
     else if opt = of_char CHR ''c'' then
       (let (sz, fmt) = getnum fmt (- 1) in
        if sz = - 1 then Inl (RunError ''missing size for format option c'') else Inr (Kchar, sz, h, fmt))
     else if opt = of_char CHR ''z'' then Inr (Kzstr, 0, h, fmt)
     else if opt = of_char CHR ''x'' then Inr (Kpadding, 1, h, fmt)
     else if opt = of_char CHR ''X'' then Inr (Kpaddalign, 0, h, fmt)
     else if opt = of_char CHR '' '' then Inr (Knop, 0, h, fmt)
     else if opt = of_char CHR ''<'' then Inr (Knop, 0, h\<lparr>islittle := True\<rparr>, fmt)
     else if opt = of_char CHR ''>'' then Inr (Knop, 0, h\<lparr>islittle := False\<rparr>, fmt)
     else if opt = of_char CHR ''='' then Inr (Knop, 0, h\<lparr>islittle := True\<rparr>, fmt)
     else if opt = of_char CHR ''!'' then
       ebind (getnumlimit fmt MAXALIGN) (\<lambda>(sz, fmt). Inr (Knop, 0, h\<lparr>maxalign := sz\<rparr>, fmt))
     else Inl (RunError ''invalid format option''))"

text \<open>
  The size to be aligned, which for \<open>X\<close> is that of the next option; the padding; and, from
  \<open>getdetails\<close>, the option, its size, its padding, the header and the rest of the format.
\<close>

definition next_align :: "koption \<Rightarrow> int \<Rightarrow> header \<Rightarrow> byte list \<Rightarrow> (int \<times> header \<times> byte list) res" where
  "next_align opt sz h fmt =
     (if opt = Kpaddalign then
        if peek fmt = 0 then Inl (ArgError 1 ''invalid next option for option X'')
        else ebind (getoption h fmt) (\<lambda>(k, align, h, fmt).
             if k = Kchar \<or> align = 0 then Inl (ArgError 1 ''invalid next option for option X'')
             else Inr (align, h, fmt))
      else Inr (sz, h, fmt))"

definition padding :: "int \<Rightarrow> nat \<Rightarrow> nat" where
  "padding align totalsize = nat ((align - (int totalsize AND (align - 1))) AND (align - 1))"

definition getdetails :: "header \<Rightarrow> nat \<Rightarrow> byte list \<Rightarrow> (koption \<times> nat \<times> nat \<times> header \<times> byte list) res" where
  "getdetails h totalsize fmt =
     ebind (getoption h fmt) (\<lambda>(opt, sz, h, fmt).
     ebind (next_align opt sz h fmt) (\<lambda>(align, h, fmt).
     if align \<le> 1 \<or> opt = Kchar then Inr (opt, nat sz, 0, h, fmt)
     else let align = (if maxalign h < align then maxalign h else align) in
          if align AND (align - 1) \<noteq> 0 then Inl (ArgError 1 ''format asks for alignment not power of 2'')
          else Inr (opt, nat sz, padding align totalsize, h, fmt)))"

lemma length_getnum_loop: "length (snd (getnum_loop a fmt)) \<le> length fmt"
  by (induction a fmt rule: getnum_loop.induct) (auto simp: Let_def)

lemma length_getnum: "getnum fmt df = (sz, fmt') \<Longrightarrow> length fmt' \<le> length fmt"
  using length_getnum_loop [of 0 fmt] by (auto simp: getnum_def split: if_splits)

lemma length_getnumlimit: "wp (getnumlimit fmt df) (\<lambda>e. True) (\<lambda>(sz, fmt'). length fmt' \<le> length fmt)"
  by (auto simp: getnumlimit_def dest: length_getnum split: prod.split)

lemma getoption_shortens: "wp (getoption h fmt) (\<lambda>e. True) (\<lambda>(k, sz, h', fmt'). length fmt' < length fmt)"
proof (cases fmt)
  case (Cons c cs)
  have lim: "wp (ebind (getnumlimit cs df) (\<lambda>(sz, fmt'). Inr (k sz, sz' sz, h' sz, fmt'))) (\<lambda>e. True)
      (\<lambda>(k, sz, h', fmt'). length fmt' < length fmt)" for df k sz' h'
    by (rule wp_ebind [OF length_getnumlimit]) (auto simp: Cons)
  have num: "wp (let (sz, fmt) = getnum cs (- 1) in if sz = - 1 then Inl e else Inr (k, sz, h, fmt)) (\<lambda>e. True)
      (\<lambda>(k, sz, h', fmt'). length fmt' < length fmt)" for e k
    using length_getnum [of cs "- 1"] by (auto simp: Cons split: prod.split)
  show ?thesis
    unfolding getoption_def Cons list.case Let_def [of "\<lambda>df k. ebind (getnumlimit cs df) (\<lambda>(sz, fmt). Inr (k, sz, h, fmt))"]
    by (intro wp_if lim [unfolded Cons] num [unfolded Cons]) simp_all
qed (simp add: getoption_def)

lemma next_align_shortens:
  "wp (next_align k sz h fmt) (\<lambda>e. True) (\<lambda>(al, h', fmt'). length fmt' \<le> length fmt)"
  unfolding next_align_def
  by (intro wp_if wp_ebind [OF getoption_shortens] wp_split) auto

lemma getdetails_shortens:
  "wp (getdetails h n fmt) (\<lambda>e. True) (\<lambda>(k, sz, al, h', fmt'). length fmt' < length fmt)"
  unfolding getdetails_def Let_def
  by (rule wp_ebind [OF getoption_shortens], intro wp_split, rule wp_ebind [OF next_align_shortens], intro wp_split wp_if) auto

lemma length_getdetails: "getdetails h n fmt = Inr (k, sz, al, h', fmt') \<Longrightarrow> length fmt' < length fmt"
  using getdetails_shortens [of h n fmt] by simp

section \<open>Packing\<close>

definition packint :: "u64 \<Rightarrow> bool \<Rightarrow> nat \<Rightarrow> bool \<Rightarrow> byte list" where
  "packint n little sz neg =
     (let buff = le_bytes sz n;
          buff = (if neg \<and> SZINT < sz then take SZINT buff @ replicate (sz - SZINT) 0xFF else buff)
      in if little then buff else rev buff)"

definition copywithendian :: "byte list \<Rightarrow> nat \<Rightarrow> bool \<Rightarrow> byte list" where
  "copywithendian src sz little = (if little then take sz src else rev (take sz src))"

definition pack_float :: "u64 \<Rightarrow> nat \<Rightarrow> bool \<Rightarrow> byte list" where
  "pack_float n sz little =
     copywithendian (if sz = 4 then le_bytes 4 (flt_narrow n) else le_bytes 8 n) sz little"

text \<open>One option: the bytes it adds, what it adds to the total size, and the arguments it used.\<close>

definition pack_opt :: "conv \<Rightarrow> tvalue list \<Rightarrow> header \<Rightarrow> koption \<Rightarrow> nat \<Rightarrow> nat \<Rightarrow> (byte list \<times> nat \<times> nat) res" where
  "pack_opt cv args h opt sz arg =
     (let v = pack_arg args arg in case opt of
        Kint \<Rightarrow>
          ebind (checkinteger cv v arg) (\<lambda>n.
          ebind (guard_or (SZINT \<le> sz \<or> - (2 ^ (sz * 8 - 1)) \<le> sint n \<and> sint n < 2 ^ (sz * 8 - 1))
                   (ArgError arg ''integer overflow'')) (\<lambda>_.
          Inr (packint n (islittle h) sz (sint n < 0), 0, 1)))
      | Kuint \<Rightarrow>
          ebind (checkinteger cv v arg) (\<lambda>n.
          ebind (guard_or (SZINT \<le> sz \<or> n < push_bit (sz * 8) 1) (ArgError arg ''unsigned overflow'')) (\<lambda>_.
          Inr (packint n (islittle h) sz False, 0, 1)))
      | Kfloat \<Rightarrow> ebind (checknumber cv v arg) (\<lambda>n. Inr (pack_float n sz (islittle h), 0, 1))
      | Kchar \<Rightarrow>
          ebind (checklstring cv v arg) (\<lambda>s.
          ebind (guard_or (length s = sz) (ArgError arg ''wrong length'')) (\<lambda>_. Inr (s, 0, 1)))
      | Kstring \<Rightarrow>
          ebind (checklstring cv v arg) (\<lambda>s.
          ebind (guard_or (8 \<le> sz \<or> length s < 2 ^ (sz * 8))
                   (ArgError arg ''string length does not fit in given size'')) (\<lambda>_.
          Inr (packint (of_nat (length s)) (islittle h) sz False @ s, length s, 1)))
      | Kzstr \<Rightarrow>
          ebind (checklstring cv v arg) (\<lambda>s.
          ebind (guard_or (0 \<notin> set s) (ArgError arg ''string contains zeros'')) (\<lambda>_.
          Inr (s @ [0], length s + 1, 1)))
      | Kpadding \<Rightarrow> Inr ([0], 0, 0)
      | Kpaddalign \<Rightarrow> Inr ([], 0, 0)
      | Knop \<Rightarrow> Inr ([], 0, 0))"

function pack_loop :: "conv \<Rightarrow> tvalue list \<Rightarrow> header \<Rightarrow> byte list \<Rightarrow> nat \<Rightarrow> nat \<Rightarrow> byte list \<Rightarrow> byte list res" where
  "pack_loop cv args h fmt arg totalsize b =
     (if fmt = [] then Inr b
      else ebind (getdetails h totalsize fmt) (\<lambda>(opt, sz, ntoalign, h, fmt).
           ebind (pack_opt cv args h opt sz (arg + 1)) (\<lambda>(bs, len, used).
           pack_loop cv args h fmt (arg + used) (totalsize + (ntoalign + sz) + len)
             (b @ replicate ntoalign 0 @ bs))))"
  by pat_completeness auto
termination
  by (relation "measure (\<lambda>(cv, args, h, fmt, arg, totalsize, b). length fmt)") (auto dest: length_getdetails)

declare pack_loop.simps [simp del]

text \<open>\<open>luaL_checkstring\<close> gives a C string.\<close>

definition cstring :: "byte list \<Rightarrow> byte list" where
  "cstring fmt = takeWhile (\<lambda>c. c \<noteq> 0) fmt"

definition str_pack :: "conv \<Rightarrow> byte list \<Rightarrow> tvalue list \<Rightarrow> byte list res" where
  "str_pack cv fmt args = pack_loop cv args initheader (cstring fmt) 1 0 []"

function packsize_loop :: "header \<Rightarrow> byte list \<Rightarrow> nat \<Rightarrow> nat res" where
  "packsize_loop h fmt totalsize =
     (if fmt = [] then Inr totalsize
      else ebind (getdetails h totalsize fmt) (\<lambda>(opt, sz, ntoalign, h, fmt).
           let sz = sz + ntoalign in
           if \<not> int (totalsize + sz) \<le> INT_MAX then Inl (ArgError 1 ''format result too large'')
           else if opt = Kstring \<or> opt = Kzstr then Inl (ArgError 1 ''variable-length format'')
           else packsize_loop h fmt (totalsize + sz)))"
  by pat_completeness auto
termination
  by (relation "measure (\<lambda>(h, fmt, totalsize). length fmt)") (auto dest: length_getdetails)

declare packsize_loop.simps [simp del]

definition str_packsize :: "byte list \<Rightarrow> nat res" where
  "str_packsize fmt = packsize_loop initheader (cstring fmt) 0"

section \<open>Unpacking\<close>

text \<open>The bytes of an integer are addressed by significance: byte \<open>i\<close>, or \<open>size - 1 - i\<close>.\<close>

definition unpackint :: "byte list \<Rightarrow> bool \<Rightarrow> nat \<Rightarrow> bool \<Rightarrow> u64 res" where
  "unpackint str little sz issigned =
     (let byte_i = (\<lambda>i. str ! (if little then i else sz - 1 - i));
          limit = (if sz \<le> SZINT then sz else SZINT);
          r = fold (\<lambda>i r. push_bit 8 r OR ucast (byte_i i)) (rev [0..<limit]) (0 :: u64)
      in if sz < SZINT then
           Inr (if issigned then let mask = push_bit (sz * 8 - 1) 1 in (r XOR mask) - mask else r)
         else if SZINT < sz then
           let mask = (if \<not> issigned \<or> 0 \<le> sint r then 0 else 0xFF) in
           if list_ex (\<lambda>i. byte_i i \<noteq> mask) [limit..<sz]
           then Inl (RunError ''integer does not fit into Lua Integer'') else Inr r
         else Inr r)"

text \<open>
  \<open>lua_pushlstring\<close>: the size check of \<open>luaS_newlstr\<close>, then \<open>len\<close> bytes are copied.
\<close>

definition pushlstring :: "byte list \<Rightarrow> nat \<Rightarrow> nat \<Rightarrow> tvalue res" where
  "pushlstring data pos len =
     (if newlstr_toobig len then Inl (RunError ''memory allocation error: block too big'')
      else if length data < pos + len then Inl (MemFault ''copy of bytes behind a string'')
      else Inr (LStr (bytes_str (take len (drop pos data)))))"

definition unpack_float :: "byte list \<Rightarrow> nat \<Rightarrow> bool \<Rightarrow> u64" where
  "unpack_float bs sz little =
     (let b = copywithendian bs sz little in
      if sz = 4 then flt_widen (le_word b) else le_word b)"

text \<open>One option at \<open>pos\<close>: its results and how far it moves beyond its size.\<close>

definition unpack_opt :: "byte list \<Rightarrow> header \<Rightarrow> koption \<Rightarrow> nat \<Rightarrow> nat \<Rightarrow> (tvalue list \<times> nat) res" where
  "unpack_opt data h opt sz pos =
     (let ld = length data; here = drop pos data in case opt of
        Kint \<Rightarrow> ebind (unpackint here (islittle h) sz True) (\<lambda>i. Inr ([LInt i], 0))
      | Kuint \<Rightarrow> ebind (unpackint here (islittle h) sz False) (\<lambda>i. Inr ([LInt i], 0))
      | Kfloat \<Rightarrow> Inr ([LFlt (unpack_float here sz (islittle h))], 0)
      | Kchar \<Rightarrow> ebind (pushlstring data pos sz) (\<lambda>v. Inr ([v], 0))
      | Kstring \<Rightarrow>
          ebind (unpackint here (islittle h) sz False) (\<lambda>len.
          ebind (guard_or ((pos + unat len + sz) mod 2 ^ 64 \<le> ld) (ArgError 2 ''data string too short'')) (\<lambda>_.
          ebind (pushlstring data (pos + sz) (unat len)) (\<lambda>v. Inr ([v], unat len))))
      | Kzstr \<Rightarrow>
          let len = unat (scast (word_of_nat (length (takeWhile (\<lambda>c. c \<noteq> 0) here)) :: u32) :: u64) in
          ebind (pushlstring data pos len) (\<lambda>v. Inr ([v], len + 1))
      | Kpaddalign \<Rightarrow> Inr ([], 0)
      | Kpadding \<Rightarrow> Inr ([], 0)
      | Knop \<Rightarrow> Inr ([], 0))"

text \<open>
  \<open>used\<close>: the slots of the Lua stack in use when unpack is called; the values already
  pushed are on top of them, and each round asks for two slots more.
\<close>

function unpack_loop :: "nat \<Rightarrow> byte list \<Rightarrow> header \<Rightarrow> byte list \<Rightarrow> nat \<Rightarrow> tvalue list \<Rightarrow> (tvalue list \<times> nat) res" where
  "unpack_loop used data h fmt pos vs =
     (if fmt = [] then Inr (vs, pos)
      else ebind (getdetails h pos fmt) (\<lambda>(opt, sz, ntoalign, h, fmt).
           if 2 ^ 64 - 1 - pos < ntoalign + sz \<or> length data < (pos + ntoalign + sz) mod 2 ^ 64
           then Inl (ArgError 2 ''data string too short'')
           else let pos = pos + ntoalign in
                ebind (luaL_checkstack (used + length vs) 2 ''too many results'') (\<lambda>_.
                ebind (unpack_opt data h opt sz pos) (\<lambda>(v, len).
                unpack_loop used data h fmt ((pos + len + sz) mod 2 ^ 64) (vs @ v)))))"
  by pat_completeness auto
termination
  by (relation "measure (\<lambda>(used, data, h, fmt, pos, vs). length fmt)") (auto dest: length_getdetails)

declare unpack_loop.simps [simp del]

text \<open>The results and the next position, which the code pushes as the last result.\<close>

definition str_unpack :: "nat \<Rightarrow> byte list \<Rightarrow> byte list \<Rightarrow> int option \<Rightarrow> (tvalue list \<times> nat) res" where
  "str_unpack used fmt data init =
     (let pos = nat ((posrelat (optint init 1) (length data) - 1) mod 2 ^ 64) in
      if length data < pos then Inl (ArgError 3 ''initial position out of string'')
      else ebind (unpack_loop used data initheader (cstring fmt) pos []) (\<lambda>(vs, pos). Inr (vs, pos + 1)))"

end
