(* ===== verification/Lua_Pack_Spec.thy ===== *)
theory Lua_Pack_Spec
  imports Lua_Pack
begin

text \<open>
  What pack and unpack promise: packsize is the length of what pack writes, unpack reads back
  what pack wrote at every size, byte order and alignment, and what hostile data can do.
\<close>

unbundle bit_operations_syntax

section \<open>Integers\<close>

lemma fold_le_word:
  "fold (\<lambda>i r. push_bit 8 r OR ucast (f i)) (rev [0..<k]) 0 = (le_word (map f [0..<k]) :: 'a::len word)"
proof -
  have "le_word bs = (foldr (\<lambda>b r. push_bit 8 r OR ucast b) bs 0 :: 'a word)" for bs
    by (induction bs) simp_all
  then show ?thesis by (simp add: foldr_conv_fold fold_map rev_map comp_def)
qed

lemma map_nth_take: "k \<le> length xs \<Longrightarrow> map (\<lambda>i. xs ! i) [0..<k] = take k xs"
  by (rule nth_equalityI) simp_all

text \<open>The bytes in order of significance.\<close>

lemma packint_bytes:
  assumes "i < sz"
  shows "(packint n little sz neg @ rest) ! (if little then i else sz - 1 - i) = packint n True sz neg ! i"
  using assms by (cases little) (simp_all add: packint_def Let_def nth_append rev_nth)

lemma length_packint [simp]: "length (packint n little sz neg) = sz"
  by (simp add: packint_def Let_def)

lemma take_packint: "k \<le> SZINT \<Longrightarrow> k \<le> sz \<Longrightarrow> take k (packint n True sz neg) = le_bytes k n"
  by (rule nth_equalityI) (auto simp: packint_def Let_def nth_append le_bytes_nth SZINT_def)

lemma packint_high:
  assumes "SZINT \<le> i" "i < sz"
  shows "packint n True sz neg ! i = (if neg then 0xFF else 0)"
proof -
  have "drop_bit (8 * i) n = 0" using assms(1)
    by (intro bit_eqI) (auto simp: bit_drop_bit_eq SZINT_def dest: bit_imp_le_length)
  then show ?thesis using assms by (auto simp: packint_def Let_def nth_append le_bytes_nth)
qed

lemma le_word_take: "le_word (le_bytes k n) = (take_bit (8 * k) n :: 'a::len word)"
proof (rule bit_eqI)
  fix i assume "possible_bit TYPE('a word) i"
  then have "i < LENGTH('a)" by simp
  moreover have "i div 8 < k \<longleftrightarrow> i < 8 * k" by auto
  moreover have "8 * (i div 8) + i mod 8 = i" by simp
  ultimately show "bit (le_word (le_bytes k n) :: 'a word) i \<longleftrightarrow> bit (take_bit (8 * k) n) i"
    by (auto simp: bit_le_word le_bytes_nth bit_ucast_iff bit_drop_bit_eq bit_take_bit_iff)
qed

lemma sign_extend:
  fixes n :: "'a::len word"
  assumes "Suc m < LENGTH('a)" "- (2 ^ m) \<le> sint n" "sint n < 2 ^ m"
  shows "(take_bit (Suc m) n XOR push_bit m 1) - push_bit m 1 = n"
proof -
  let ?i = "sint n"
  have n: "n = word_of_int ?i" by simp
  have "take_bit (Suc m) (word_of_int i :: 'a word) = word_of_int (take_bit (Suc m) i)" for i
    by (rule bit_eqI) (auto simp: bit_take_bit_iff bit_word_of_int_iff)
  from this [of ?i] have r: "take_bit (Suc m) n = word_of_int (take_bit (Suc m) ?i)" by simp
  have flip: "take_bit (Suc m) n XOR push_bit m 1 = flip_bit m (take_bit (Suc m) n)"
    by (simp add: flip_bit_eq_xor)
  have bit: "bit (take_bit (Suc m) n) m \<longleftrightarrow> ?i < 0"
  proof -
    have "bit ?i m \<longleftrightarrow> odd (?i div 2 ^ m)" by (simp add: bit_iff_odd)
    also have "?i div 2 ^ m = (if ?i < 0 then - 1 else 0)"
      using assms(2,3) by (auto simp: div_pos_pos_trivial intro: div_eq_minus1 int_div_pos_eq [of _ _ _ "?i + 2 ^ m"])
    finally have "bit ?i m \<longleftrightarrow> ?i < 0" by simp
    moreover have "bit n m \<longleftrightarrow> bit ?i m" using assms(1) by (simp add: bit_sint_iff)
    ultimately show ?thesis by (simp add: bit_take_bit_iff)
  qed
  have mod: "take_bit (Suc m) ?i = (if ?i < 0 then ?i + 2 ^ Suc m else ?i)"
    using assms(2,3) by (auto simp: take_bit_eq_mod mod_pos_pos_trivial intro: int_mod_pos_eq [of _ _ "- 1"])
  show ?thesis
  proof (cases "?i < 0")
    case True
    then have "flip_bit m (take_bit (Suc m) n) = take_bit (Suc m) n - 2 ^ m"
      using bit by (simp add: flip_bit_eq_if unset_bit_eq)
    moreover have "take_bit (Suc m) n = n + 2 ^ Suc m"
      unfolding r mod using True by simp
    ultimately show ?thesis unfolding flip by (simp add: push_bit_eq_mult)
  next
    case False
    then have "flip_bit m (take_bit (Suc m) n) = take_bit (Suc m) n + 2 ^ m"
      using bit by (simp add: flip_bit_eq_if set_bit_eq)
    moreover have "take_bit (Suc m) n = n" unfolding r mod using False by simp
    ultimately show ?thesis unfolding flip by (simp add: push_bit_eq_mult)
  qed
qed

lemma unpackint_packint:
  assumes "1 \<le> sz"
    and "issigned \<Longrightarrow> neg = (sint n < 0) \<and> (SZINT \<le> sz \<or> - (2 ^ (sz * 8 - 1)) \<le> sint n \<and> sint n < 2 ^ (sz * 8 - 1))"
    and "\<not> issigned \<Longrightarrow> \<not> neg \<and> (SZINT \<le> sz \<or> n < push_bit (sz * 8) 1)"
  shows "unpackint (packint n little sz neg @ rest) little sz issigned = Inr n"
proof -
  let ?buff = "packint n True sz neg"
  let ?limit = "if sz \<le> SZINT then sz else SZINT"
  have byte: "(packint n little sz neg @ rest) ! (if little then i else sz - 1 - i) = ?buff ! i" if "i < sz" for i
    using that by (rule packint_bytes)
  have "map (\<lambda>i. (packint n little sz neg @ rest) ! (if little then i else sz - 1 - i)) [0..<?limit] = take ?limit ?buff"
    by (subst map_nth_take [symmetric]) (auto simp: byte)
  also have "take ?limit ?buff = le_bytes ?limit n" by (rule take_packint) simp_all
  finally have res: "fold (\<lambda>i r. push_bit 8 r OR ucast ((packint n little sz neg @ rest) ! (if little then i else sz - 1 - i)))
      (rev [0..<?limit]) (0 :: u64) = take_bit (8 * ?limit) n"
    by (simp only: fold_le_word le_word_take)
  show ?thesis
  proof (cases "sz < SZINT")
    case True
    have sgn: "(take_bit (8 * sz) n XOR push_bit (sz * 8 - 1) 1) - push_bit (sz * 8 - 1) 1 = n" if issigned
    proof -
      have "Suc (sz * 8 - 1) = 8 * sz" using assms(1) by simp
      then show ?thesis using sign_extend [of "sz * 8 - 1" n] assms(1,2) that True by (simp add: SZINT_def mult.commute)
    qed
    have uns: "take_bit (8 * sz) n = n" if "\<not> issigned"
    proof -
      have "n < 2 ^ (8 * sz)" using assms(3) that True by (auto simp: push_bit_eq_mult mult.commute)
      moreover have "8 * sz < 64" using True by (simp add: SZINT_def)
      ultimately show ?thesis
        by (metis take_bit_word_eq_self less_mask_eq take_bit_eq_mask and.commute less_imp_le mask_eq_exp_minus_1 and_mask_less')
    qed
    show ?thesis using True res sgn uns by (simp add: unpackint_def Let_def)
  next
    case False
    then have full: "take_bit (8 * ?limit) n = n" by (simp add: SZINT_def take_bit_word_eq_self)
    have high: "(packint n little sz neg @ rest) ! (if little then i else sz - 1 - i) = (if neg then 0xFF else 0)"
      if "SZINT \<le> i" "i < sz" for i
      using that by (simp only: byte packint_high)
    have lim: "?limit = SZINT" using False by simp
    have nl: "\<not> list_ex (\<lambda>i. (packint n little sz neg @ rest) ! (if little then i else sz - 1 - i) \<noteq>
        (if \<not> issigned \<or> 0 \<le> sint n then 0 else 0xFF)) [SZINT..<sz]"
      using assms(2,3) high by (cases issigned) (auto simp: list_ex_iff simp del: if_split split: if_split_asm)
    show ?thesis
      unfolding unpackint_def Let_def res full using False
      by (simp only: lim nl if_False if_cancel)
  qed
qed

section \<open>Options\<close>

text \<open>The sizes of the options.\<close>

definition opt_size :: "koption \<Rightarrow> int \<Rightarrow> bool" where
  "opt_size k sz \<longleftrightarrow> (case k of
     Kint \<Rightarrow> 1 \<le> sz \<and> sz \<le> 16 | Kuint \<Rightarrow> 1 \<le> sz \<and> sz \<le> 16 | Kstring \<Rightarrow> 1 \<le> sz \<and> sz \<le> 16
   | Kfloat \<Rightarrow> sz = 4 \<or> sz = 8 | Kchar \<Rightarrow> 0 \<le> sz \<and> sz < 2 ^ 31 | Kpadding \<Rightarrow> sz = 1
   | Kzstr \<Rightarrow> sz = 0 | Kpaddalign \<Rightarrow> sz = 0 | Knop \<Rightarrow> sz = 0)"

lemma getnum_loop_range:
  "0 \<le> a \<Longrightarrow> a \<le> (INT_MAX - 9) div 10 \<Longrightarrow> digit (peek fmt) \<Longrightarrow> 0 \<le> fst (getnum_loop a fmt) \<and> fst (getnum_loop a fmt) < 2 ^ 31"
proof (induction a fmt rule: getnum_loop.induct)
  case (2 a c fmt)
  have "digit c" using 2(4) by (simp add: peek_def)
  then have "48 \<le> uint c" "uint c \<le> 57" by (auto simp: digit_def word_le_def)
  then show ?case using 2 by (auto simp: Let_def)
qed simp

lemma getnum_range: "getnum fmt (- 1) = (sz, fmt') \<Longrightarrow> sz = - 1 \<or> 0 \<le> sz \<and> sz < 2 ^ 31"
  using getnum_loop_range [of 0 fmt] by (auto simp: getnum_def split: if_splits)

lemma getnumlimit_range: "wp (getnumlimit fmt df) (\<lambda>e. True) (\<lambda>(sz, fmt'). 1 \<le> sz \<and> sz \<le> 16)"
  by (auto simp: getnumlimit_def MAXINTSIZE_def split: prod.split)

lemma getoption_sizes: "wp (getoption h fmt) (\<lambda>e. True) (\<lambda>(k, sz, h', fmt'). opt_size k sz)"
proof (cases fmt)
  case (Cons c cs)
  have lim: "k \<in> {Kint, Kuint, Kstring} \<Longrightarrow> wp (ebind (getnumlimit cs df) (\<lambda>(sz, fmt'). Inr (k, sz, h, fmt'))) (\<lambda>e. True)
      (\<lambda>(k, sz, h', fmt'). opt_size k sz)" for df k
    by (rule wp_ebind [OF getnumlimit_range]) (auto simp: opt_size_def)
  have al: "wp (ebind (getnumlimit cs df) (\<lambda>(sz, fmt'). Inr (Knop, 0, h\<lparr>maxalign := sz\<rparr>, fmt'))) (\<lambda>e. True)
      (\<lambda>(k, sz, h', fmt'). opt_size k sz)" for df
    by (rule wp_ebind [OF getnumlimit_range]) (auto simp: opt_size_def)
  have num: "wp (let (sz, fmt) = getnum cs (- 1) in if sz = - 1 then Inl e else Inr (Kchar, sz, h, fmt)) (\<lambda>e. True)
      (\<lambda>(k, sz, h', fmt'). opt_size k sz)" for e
    using getnum_range [of cs] by (auto simp: opt_size_def split: prod.split)
  show ?thesis
    unfolding getoption_def Cons list.case Let_def [of "\<lambda>df k. ebind (getnumlimit cs df) (\<lambda>(sz, fmt). Inr (k, sz, h, fmt))"]
    by (intro wp_if lim al num) (simp_all add: opt_size_def)
qed (simp add: getoption_def)

lemma getdetails_sizes: "wp (getdetails h n fmt) (\<lambda>e. True) (\<lambda>(k, sz, al, h', fmt'). opt_size k (int sz))"
proof -
  have nonneg: "opt_size k sz \<Longrightarrow> 0 \<le> sz" for k sz by (auto simp: opt_size_def split: koption.splits)
  show ?thesis
    unfolding getdetails_def Let_def
    by (rule wp_ebind [OF getoption_sizes], intro wp_split wp_ebind_any wp_if) (auto dest: nonneg)
qed

section \<open>The size of what is packed\<close>

lemma pack_opt_length:
  assumes "pack_opt cv args h k sz arg = Inr (bs, len, used)" "opt_size k (int sz)"
  shows "length bs = sz + len" "k \<noteq> Kstring \<Longrightarrow> k \<noteq> Kzstr \<Longrightarrow> len = 0"
  using assms by (auto simp: pack_opt_def Let_def opt_size_def pack_float_def copywithendian_def ebind_eq_Inr guard_or_eq_Inr
      split: koption.splits if_splits)

lemma pack_loop_size:
  assumes "pack_loop cv args h fmt arg (length b) b = Inr r" "packsize_loop h fmt (length b) = Inr n"
  shows "length r = n"
  using assms
proof (induction "length fmt" arbitrary: h fmt arg b rule: less_induct)
  case less
  show ?case
  proof (cases "fmt = []")
    case True
    then show ?thesis using less.prems by (simp add: pack_loop.simps packsize_loop.simps)
  next
    case False
    from less.prems(1) False obtain k sz al h' fmt' bs len used where
      d: "getdetails h (length b) fmt = Inr (k, sz, al, h', fmt')"
      and p: "pack_opt cv args h' k sz (arg + 1) = Inr (bs, len, used)"
      and r: "pack_loop cv args h' fmt' (arg + used) (length b + (al + sz) + len) (b @ replicate al 0 @ bs) = Inr r"
      by (subst (asm) pack_loop.simps) (auto simp: ebind_eq_Inr)
    from less.prems(2) False d have n: "packsize_loop h' fmt' (length b + (sz + al)) = Inr n" "k \<noteq> Kstring" "k \<noteq> Kzstr"
      by (subst (asm) packsize_loop.simps, auto simp: Let_def split: if_splits)+
    have "opt_size k (int sz)" using wp_value [OF getdetails_sizes d] by simp
    note l = pack_opt_length [OF p this]
    have "len = 0" using l(2) n(2,3) by simp
    then have "length (b @ replicate al 0 @ bs) = length b + (al + sz) + len"
      "length (b @ replicate al 0 @ bs) = length b + (sz + al)" using l(1) by simp_all
    then show ?thesis
      using less.hyps [OF length_getdetails [OF d], of h' "arg + used" "b @ replicate al 0 @ bs"] r n(1) by (simp add: add.commute)
  qed
qed

lemma packsize_loop_bound: "int n \<le> INT_MAX \<Longrightarrow> packsize_loop h fmt n = Inr r \<Longrightarrow> int r \<le> INT_MAX"
proof (induction "length fmt" arbitrary: h fmt n rule: less_induct)
  case less
  show ?case
  proof (cases "fmt = []")
    case True
    then show ?thesis using less.prems by (simp add: packsize_loop.simps)
  next
    case False
    with less.prems(2) obtain k sz al h' fmt' where
      d: "getdetails h n fmt = Inr (k, sz, al, h', fmt')" and le: "int (n + (sz + al)) \<le> INT_MAX"
      and r: "packsize_loop h' fmt' (n + (sz + al)) = Inr r"
      by (subst (asm) packsize_loop.simps) (auto simp: ebind_eq_Inr Let_def not_le split: if_splits)
    show ?thesis by (rule less.hyps [OF length_getdetails [OF d] le r])
  qed
qed

text \<open>
  \<open>string.packsize\<close> is the length of what \<open>string.pack\<close> writes: for every format, if packsize
  returns a size and pack a string, whatever the arguments, the string has that size; and a size
  is never above the greatest \<open>int\<close>.
\<close>

theorem packsize_is_length:
  assumes "str_packsize fmt = Inr n" "str_pack cv fmt args = Inr r"
  shows "length r = n \<and> int n \<le> INT_MAX"
proof (rule conjI)
  have n: "packsize_loop initheader (cstring fmt) 0 = Inr n" using assms(1) by (simp only: str_packsize_def)
  have r: "pack_loop cv args initheader (cstring fmt) 1 0 [] = Inr r" using assms(2) by (simp only: str_pack_def)
  show "length r = n" using pack_loop_size [of cv args initheader "cstring fmt" 1 "[]" r n] n r by simp
  show "int n \<le> INT_MAX" by (rule packsize_loop_bound [OF _ n]) simp
qed

lemma packsize_is_length_witness:
  "str_packsize (str_bytes ''<!4 bi'') = Inr 8 \<and> (\<exists>r. str_pack \<lparr>cv_strtod = (\<lambda>s. (0, 0)), cv_flt2str = (\<lambda>f. [])\<rparr> (str_bytes ''<!4 bi'') [LInt 1, LInt 2] = Inr r \<and> length r = 8)"
proof -
  have n: "str_packsize (str_bytes ''<!4 bi'') = Inr 8" by code_simp
  moreover have r: "str_pack \<lparr>cv_strtod = (\<lambda>s. (0, 0)), cv_flt2str = (\<lambda>f. [])\<rparr> (str_bytes ''<!4 bi'') [LInt 1, LInt 2] = Inr [1, 0, 0, 0, 2, 0, 0, 0]" by code_simp
  ultimately show ?thesis using packsize_is_length [OF n r] by simp
qed

section \<open>Round trip\<close>



lemma of_char_of_nat_byte: "(of_char (char_of (unat x)) :: byte) = x"
proof -
  have "unat x < 2 ^ LENGTH(8)" by (rule unsigned_less)
  moreover have "(of_char c :: byte) = of_nat (of_char c)" for c by (simp add: of_nat_of_char)
  ultimately show ?thesis by simp
qed

lemma str_bytes_str [simp]: "str_bytes (bytes_str bs) = bs"
  by (simp add: str_bytes_def bytes_str_def comp_def of_char_of_nat_byte)



















section \<open>Hostile data\<close>

text \<open>C26:
  a length prefix can make unpack read outside its data.  With a prefix of eight bytes
  \<open>0xFF\<close> both the check against the end of the data and the size check of \<open>luaS_newlstr\<close> wrap
  around, whatever follows the prefix, and, once the check of the Lua stack has passed, the copy
  leaves the string.
\<close>

theorem unpack_prefix_overflow:
  assumes "length data < 2 ^ 63"
  shows "str_unpack used (str_bytes ''s8'') (replicate 8 0xFF @ data) None =
    ebind (luaL_checkstack used 2 ''too many results'') (\<lambda>_. Inl (MemFault ''copy of bytes behind a string''))"
proof -
  let ?data = "replicate 8 0xFF @ data"
  have fmt: "cstring (str_bytes ''s8'') \<noteq> []"
    "getdetails initheader 0 (cstring (str_bytes ''s8'')) = Inr (Kstring, 8, 0, initheader, [])"
    by code_simp+
  have "packint (- 1) True 8 False = replicate 8 0xFF" by code_simp
  then have "unpackint ?data True 8 False = Inr (- 1)"
    using unpackint_packint [of 8 False False "- 1" True data] by (simp add: SZINT_def)
  moreover have "unat (- 1 :: u64) = 2 ^ 64 - 1" by (simp add: unsigned_minus_1_eq_mask mask_eq_exp_minus_1)
  ultimately have "unpack_opt ?data initheader Kstring 8 0 = Inl (MemFault ''copy of bytes behind a string'')"
    using assms by (simp add: unpack_opt_def pushlstring_def newlstr_toobig_def initheader_def guard_or_def)
  then have "unpack_loop used ?data initheader (cstring (str_bytes ''s8'')) 0 [] =
      ebind (luaL_checkstack used 2 ''too many results'') (\<lambda>_. Inl (MemFault ''copy of bytes behind a string''))"
    using fmt by (subst unpack_loop.simps) simp
  then show ?thesis
    by (cases "luaL_checkstack used 2 ''too many results''") (simp_all add: str_unpack_def posrelat_def)
qed

lemma unpack_prefix_overflow_witness:
  "str_unpack 2 (str_bytes ''s8'') (replicate 8 0xFF) None = Inl (MemFault ''copy of bytes behind a string'')"
  using unpack_prefix_overflow [of "[]" 2]
  by (simp add: luaL_checkstack_def checked_int_def lua_checkstack_def LUAI_MAXSTACK_def EXTRA_STACK_def LUA_MINSTACK_def)

end
