(* ===== verification/Lua_Strtab.thy ===== *)
theory Lua_Strtab
  imports Lua_Table
begin

text \<open>
  Strings and the table that interns the short ones (\<open>lstring.c\<close>).  String objects live in a
  store; a bucket of the table is a list of objects linked by their field \<open>hnext\<close>.  The list of
  all objects that the collector sweeps is not part of this state.  The sizes and the count \<open>nuse\<close>,
  an \<open>int\<close> in the code, are natural numbers: there are fewer than \<open>2 ^ 31\<close> short strings.
\<close>

unbundle bit_operations_syntax

section \<open>State\<close>

datatype strtag = LUA_TSHRSTR | LUA_TLNGSTR

text \<open>
  A \<open>TString\<close> with its characters, without the terminating zero.  The field \<open>extra\<close>, which only the
  lexer sets (the reserved words), is left out.
\<close>

record strobj =
  ts_tt :: strtag
  ts_marked :: byte
  ts_shrlen :: byte
  ts_hash :: u32
  ts_lnglen :: nat
  ts_hnext :: "nat option"
  ts_chars :: string

text \<open>\<open>stringtable\<close>, and what the functions use of \<open>global_State\<close>.\<close>

record stringtable =
  tb_hash :: "nat option list"
  tb_nuse :: nat
  tb_size :: nat

record strings =
  g_strs :: "nat \<Rightarrow> strobj option"
  g_strt :: stringtable
  g_seed :: u32
  g_currentwhite :: byte
  g_strcache :: "nat list"
  g_memerrmsg :: nat

definition STRCACHE_SIZE :: nat where "STRCACHE_SIZE = 127"
definition MINSTRTABSIZE :: nat where "MINSTRTABSIZE = 128"
definition MEMERRMSG :: string where "MEMERRMSG = ''not enough memory''"

definition lmod :: "u32 \<Rightarrow> nat \<Rightarrow> nat" where
  "lmod s n = unat (s AND of_nat (n - 1))"

section \<open>Marks\<close>

definition WHITEBITS :: byte where "WHITEBITS = 3"

definition otherwhite :: "strings \<Rightarrow> byte" where
  "otherwhite g = g_currentwhite g XOR WHITEBITS"

definition isdead :: "strings \<Rightarrow> strobj \<Rightarrow> bool" where
  "isdead g s \<longleftrightarrow> (ts_marked s XOR WHITEBITS) AND otherwhite g = 0"

definition iswhite :: "strobj \<Rightarrow> bool" where
  "iswhite s \<longleftrightarrow> ts_marked s AND WHITEBITS \<noteq> 0"

definition changewhite :: "strobj \<Rightarrow> strobj" where
  "changewhite s = s\<lparr>ts_marked := ts_marked s XOR WHITEBITS\<rparr>"

definition luaC_white :: "strings \<Rightarrow> byte" where
  "luaC_white g = g_currentwhite g AND WHITEBITS"

section \<open>The string table\<close>

definition get_str :: "strings \<Rightarrow> nat \<Rightarrow> strobj res" where
  "get_str g a = (case g_strs g a of None \<Rightarrow> Inl (MemFault ''string'') | Some s \<Rightarrow> Inr s)"

definition put_str :: "strings \<Rightarrow> nat \<Rightarrow> strobj \<Rightarrow> strings" where
  "put_str g a s = g\<lparr>g_strs := (g_strs g)(a \<mapsto> s)\<rparr>"

definition get_bucket :: "strings \<Rightarrow> nat \<Rightarrow> nat option res" where
  "get_bucket g i =
     (if i < length (tb_hash (g_strt g)) then Inr (tb_hash (g_strt g) ! i)
      else Inl (MemFault ''string table''))"

definition set_bucket :: "strings \<Rightarrow> nat \<Rightarrow> nat option \<Rightarrow> strings" where
  "set_bucket g i p = g\<lparr>g_strt := (g_strt g)\<lparr>tb_hash := (tb_hash (g_strt g))[i := p]\<rparr>\<rparr>"

text \<open>
  \<open>luaS_resize\<close>.  A list has at most as many nodes as the table has strings: that is the fuel of
  the loops along a list.
\<close>

fun rehash_chain :: "nat \<Rightarrow> nat \<Rightarrow> nat option \<Rightarrow> strings \<Rightarrow> strings res" where
  "rehash_chain newsize fuel None g = Inr g"
| "rehash_chain newsize 0 (Some p) g = Inl NoReturn"
| "rehash_chain newsize (Suc fuel) (Some p) g =
     ebind (get_str g p) (\<lambda>s.
     let h = lmod (ts_hash s) newsize in
     ebind (get_bucket g h) (\<lambda>first.
     rehash_chain newsize fuel (ts_hnext s)
       (set_bucket (put_str g p (s\<lparr>ts_hnext := first\<rparr>)) h (Some p))))"

definition rehash_bucket :: "nat \<Rightarrow> nat \<Rightarrow> strings \<Rightarrow> strings res" where
  "rehash_bucket newsize i g =
     ebind (get_bucket g i) (\<lambda>p.
     rehash_chain newsize (tb_nuse (g_strt g)) p (set_bucket g i None))"

definition luaS_resize :: "nat \<Rightarrow> strings \<Rightarrow> strings res" where
  "luaS_resize newsize g =
     (let size = tb_size (g_strt g);
          g = (if size < newsize
               then g\<lparr>g_strt := (g_strt g)\<lparr>tb_hash := tb_hash (g_strt g) @ replicate (newsize - size) None\<rparr>\<rparr>
               else g)
      in ebind (efold (rehash_bucket newsize) [0..<size] g) (\<lambda>g.
         let tb = g_strt g;
             tb = (if newsize < size then tb\<lparr>tb_hash := take newsize (tb_hash tb)\<rparr> else tb)
         in Inr (g\<lparr>g_strt := tb\<lparr>tb_size := newsize\<rparr>\<rparr>)))"

text \<open>\<open>luaS_remove\<close>: \<open>prev\<close> is the object whose link is looked at, nothing for the bucket itself.\<close>

fun remove_chain :: "nat \<Rightarrow> nat \<Rightarrow> nat \<Rightarrow> nat option \<Rightarrow> nat option \<Rightarrow> strings \<Rightarrow> strings res" where
  "remove_chain 0 ts i prev p g = Inl NoReturn"
| "remove_chain (Suc fuel) ts i prev p g = (case p of
     None \<Rightarrow> Inl (MemFault ''end of a list of strings'')
   | Some a \<Rightarrow> ebind (get_str g a) (\<lambda>s.
       if a = ts then
         (case prev of
            None \<Rightarrow> Inr (set_bucket g i (ts_hnext s))
          | Some b \<Rightarrow> ebind (get_str g b) (\<lambda>t. Inr (put_str g b (t\<lparr>ts_hnext := ts_hnext s\<rparr>))))
       else remove_chain fuel ts i (Some a) (ts_hnext s) g))"

definition luaS_remove :: "nat \<Rightarrow> strings \<Rightarrow> strings res" where
  "luaS_remove ts g =
     ebind (get_str g ts) (\<lambda>s.
     let i = lmod (ts_hash s) (tb_size (g_strt g)) in
     ebind (get_bucket g i) (\<lambda>p.
     ebind (remove_chain (tb_nuse (g_strt g)) ts i None p g) (\<lambda>g.
     Inr (g\<lparr>g_strt := (g_strt g)\<lparr>tb_nuse := tb_nuse (g_strt g) - 1\<rparr>\<rparr>))))"

text \<open>The cases of strings in \<open>freeobj\<close> of \<open>lgc.c\<close>.\<close>

definition free_str :: "nat \<Rightarrow> strings \<Rightarrow> strings res" where
  "free_str a g =
     ebind (get_str g a) (\<lambda>s.
     ebind (case ts_tt s of LUA_TSHRSTR \<Rightarrow> luaS_remove a g | LUA_TLNGSTR \<Rightarrow> Inr g) (\<lambda>g.
     Inr (g\<lparr>g_strs := (g_strs g)(a := None)\<rparr>)))"

section \<open>New strings\<close>

text \<open>
  \<open>createstrobj\<close>.  The address of the new object is an argument: the allocator picks one that is
  not in use.  The fields that the code leaves unset start at 0.
\<close>

definition createstrobj :: "nat \<Rightarrow> string \<Rightarrow> strtag \<Rightarrow> u32 \<Rightarrow> strings \<Rightarrow> strings" where
  "createstrobj new str tag h g = put_str g new
     \<lparr>ts_tt = tag, ts_marked = luaC_white g, ts_shrlen = 0, ts_hash = h, ts_lnglen = 0, ts_hnext = None,
      ts_chars = str\<rparr>"

text \<open>The search of \<open>internshrstr\<close> along a list.\<close>

fun find_interned :: "nat \<Rightarrow> string \<Rightarrow> nat option \<Rightarrow> strings \<Rightarrow> nat option res" where
  "find_interned fuel str None g = Inr None"
| "find_interned 0 str (Some a) g = Inl NoReturn"
| "find_interned (Suc fuel) str (Some a) g =
     ebind (get_str g a) (\<lambda>s.
     if length str = unat (ts_shrlen s) \<and> take (length str) (ts_chars s) = str then Inr (Some a)
     else find_interned fuel str (ts_hnext s) g)"

text \<open>\<open>internshrstr\<close>, after the growth of a full table.\<close>

definition grow_strt :: "strings \<Rightarrow> strings res" where
  "grow_strt g =
     (if tb_size (g_strt g) \<le> tb_nuse (g_strt g) \<and> tb_size (g_strt g) \<le> MAX_INT div 2
      then luaS_resize (tb_size (g_strt g) * 2) g else Inr g)"

definition internshrstr :: "nat \<Rightarrow> string \<Rightarrow> strings \<Rightarrow> (strings \<times> nat) res" where
  "internshrstr new str g =
     (let h = luaS_hash str (g_seed g) in
      ebind (get_bucket g (lmod h (tb_size (g_strt g)))) (\<lambda>p.
      ebind (find_interned (tb_nuse (g_strt g)) str p g) (\<lambda>found.
      case found of
        Some a \<Rightarrow> ebind (get_str g a) (\<lambda>s. Inr (if isdead g s then put_str g a (changewhite s) else g, a))
      | None \<Rightarrow>
          ebind (grow_strt g) (\<lambda>g.
          let i = lmod h (tb_size (g_strt g));
              g = createstrobj new str LUA_TSHRSTR h g in
          ebind (get_str g new) (\<lambda>ts.
          ebind (get_bucket g i) (\<lambda>first.
          let g = set_bucket (put_str g new (ts\<lparr>ts_shrlen := of_nat (length str), ts_hnext := first\<rparr>)) i (Some new)
          in Inr (g\<lparr>g_strt := (g_strt g)\<lparr>tb_nuse := tb_nuse (g_strt g) + 1\<rparr>\<rparr>, new)))))))"

definition MAX_TSTRING :: nat where "MAX_TSTRING = 2 ^ 63 - 1 - 24"

definition luaS_newlstr :: "nat \<Rightarrow> string \<Rightarrow> strings \<Rightarrow> (strings \<times> nat) res" where
  "luaS_newlstr new str g =
     (let l = length str in
      if l \<le> LUAI_MAXSHORTLEN then internshrstr new str g
      else if MAX_TSTRING < l + 1 then Inl (RunError ''memory allocation error: block too big'')
      else let g = createstrobj new str LUA_TLNGSTR (g_seed g) g in
           ebind (get_str g new) (\<lambda>ts. Inr (put_str g new (ts\<lparr>ts_lnglen := l\<rparr>), new)))"

text \<open>
  \<open>luaS_new\<close> on the C string \<open>str\<close> at address \<open>p\<close>: \<open>strcmp\<close> reads the cached object up to a zero,
  and \<open>str\<close> has none.
\<close>

definition luaS_new :: "nat \<Rightarrow> u64 \<Rightarrow> string \<Rightarrow> strings \<Rightarrow> (strings \<times> nat) res" where
  "luaS_new new p str g =
     (let i = point2uint p mod STRCACHE_SIZE in
      if length (g_strcache g) \<le> i then Inl (MemFault ''string cache'')
      else ebind (get_str g (g_strcache g ! i)) (\<lambda>c.
           if takeWhile (\<lambda>x. x \<noteq> CHR 0x00) (ts_chars c) = str then Inr (g, g_strcache g ! i)
           else ebind (luaS_newlstr new str g) (\<lambda>(g, s).
                Inr (g\<lparr>g_strcache := (g_strcache g)[i := s]\<rparr>, s))))"

definition luaS_clearcache :: "strings \<Rightarrow> strings res" where
  "luaS_clearcache g = efold (\<lambda>i g.
     if length (g_strcache g) \<le> i then Inl (MemFault ''string cache'')
     else ebind (get_str g (g_strcache g ! i)) (\<lambda>s.
          Inr (if iswhite s then g\<lparr>g_strcache := (g_strcache g)[i := g_memerrmsg g]\<rparr> else g)))
     [0..<STRCACHE_SIZE] g"

text \<open>
  \<open>luaS_init\<close>.  Of \<open>luaC_fix\<close>, which also moves the message to the list of objects that are never
  collected, \<open>white2gray\<close> concerns the string.
\<close>

definition white2gray :: "strobj \<Rightarrow> strobj" where
  "white2gray s = s\<lparr>ts_marked := ts_marked s AND NOT WHITEBITS\<rparr>"

definition luaS_init :: "nat \<Rightarrow> strings \<Rightarrow> strings res" where
  "luaS_init new g =
     ebind (luaS_resize MINSTRTABSIZE g) (\<lambda>g.
     ebind (luaS_newlstr new MEMERRMSG g) (\<lambda>(g, m).
     ebind (get_str g m) (\<lambda>s.
     Inr ((put_str g m (white2gray s))\<lparr>g_memerrmsg := m, g_strcache := replicate STRCACHE_SIZE m\<rparr>))))"

section \<open>Equality\<close>

definition luaS_eqlngstr :: "strings \<Rightarrow> nat \<Rightarrow> nat \<Rightarrow> bool res" where
  "luaS_eqlngstr g a b =
     ebind (get_str g a) (\<lambda>s. ebind (get_str g b) (\<lambda>t.
     Inr (a = b \<or> ts_lnglen s = ts_lnglen t \<and> take (ts_lnglen s) (ts_chars s) = take (ts_lnglen s) (ts_chars t))))"

text \<open>The string cases of \<open>luaV_equalobj\<close>: equal tags, then identity for short strings.\<close>

definition equal_strings :: "strings \<Rightarrow> nat \<Rightarrow> nat \<Rightarrow> bool res" where
  "equal_strings g a b =
     ebind (get_str g a) (\<lambda>s. ebind (get_str g b) (\<lambda>t.
     if ts_tt s \<noteq> ts_tt t then Inr False
     else case ts_tt s of LUA_TSHRSTR \<Rightarrow> Inr (a = b) | LUA_TLNGSTR \<Rightarrow> luaS_eqlngstr g a b))"

text \<open>The part of \<open>checkSizes\<close> of \<open>lgc.c\<close> that shrinks the table.\<close>

definition check_strt_size :: "strings \<Rightarrow> strings res" where
  "check_strt_size g =
     (if tb_nuse (g_strt g) < tb_size (g_strt g) div 4 then luaS_resize (tb_size (g_strt g) div 2) g else Inr g)"

end
