(* ===== verification/Lua_Strtab_Inv.thy ===== *)
theory Lua_Strtab_Inv
  imports Lua_Strtab "HOL-Library.Multiset"
begin

text \<open>
  The invariant of the string table: its lists hold each short string once, in the bucket of its
  hash.  A resize keeps it, and a search finds the interned object if there is one.
\<close>

unbundle bit_operations_syntax

section \<open>Lists of strings\<close>

text \<open>The objects from a pointer along \<open>hnext\<close>.\<close>

primrec path :: "(nat \<Rightarrow> strobj option) \<Rightarrow> nat option \<Rightarrow> nat list \<Rightarrow> bool" where
  "path h p [] \<longleftrightarrow> p = None"
| "path h p (a # as) \<longleftrightarrow> p = Some a \<and> (\<exists>s. h a = Some s \<and> path h (ts_hnext s) as)"

lemma path_cong: "(\<And>a. a \<in> set as \<Longrightarrow> h' a = h a) \<Longrightarrow> path h' p as \<longleftrightarrow> path h p as"
  by (induction as arbitrary: p) auto

lemma path_update: "a \<notin> set as \<Longrightarrow> path (h(a \<mapsto> s)) p as \<longleftrightarrow> path h p as"
  by (rule path_cong) auto

lemma path_known: "path h p as \<Longrightarrow> a \<in> set as \<Longrightarrow> \<exists>s. h a = Some s"
  by (induction as arbitrary: p) auto

text \<open>The list of every bucket.\<close>

definition lists :: "strings \<Rightarrow> nat list list \<Rightarrow> bool" where
  "lists g cs \<longleftrightarrow> length cs = length (tb_hash (g_strt g)) \<and>
     (\<forall>j < length cs. path (g_strs g) (tb_hash (g_strt g) ! j) (cs ! j))"

definition hash_of :: "strings \<Rightarrow> nat \<Rightarrow> u32" where
  "hash_of g a = (case g_strs g a of Some s \<Rightarrow> ts_hash s | None \<Rightarrow> 0)"

text \<open>Two states with the same objects up to their links.\<close>

definition unlinked :: "strobj \<Rightarrow> strobj" where
  "unlinked s = s\<lparr>ts_hnext := None\<rparr>"

definition relinked :: "strings \<Rightarrow> strings \<Rightarrow> bool" where
  "relinked g g' \<longleftrightarrow> (\<forall>a. map_option unlinked (g_strs g' a) = map_option unlinked (g_strs g a)) \<and>
     tb_nuse (g_strt g') = tb_nuse (g_strt g) \<and> g_seed g' = g_seed g \<and>
     g_currentwhite g' = g_currentwhite g \<and> g_strcache g' = g_strcache g \<and> g_memerrmsg g' = g_memerrmsg g"

lemma relinked_refl [simp]: "relinked g g"
  by (simp add: relinked_def)

lemma relinked_trans: "relinked g g' \<Longrightarrow> relinked g' g'' \<Longrightarrow> relinked g g''"
  by (simp add: relinked_def)

lemma unlinked_fields:
  assumes "unlinked s = unlinked t"
  shows "ts_tt s = ts_tt t" "ts_marked s = ts_marked t" "ts_shrlen s = ts_shrlen t" "ts_hash s = ts_hash t"
    "ts_lnglen s = ts_lnglen t" "ts_chars s = ts_chars t"
  using assms by (cases s; cases t; simp add: unlinked_def)+

lemma relinked_Some:
  assumes "relinked g g'" "g_strs g a = Some s"
  shows "\<exists>s'. g_strs g' a = Some s' \<and> unlinked s' = unlinked s"
proof -
  have "map_option unlinked (g_strs g' a) = Some (unlinked s)" using assms by (simp add: relinked_def)
  then show ?thesis by auto
qed

lemma relinked_back:
  assumes "relinked g g'" "g_strs g' a = Some s'"
  shows "\<exists>s. g_strs g a = Some s \<and> unlinked s' = unlinked s"
proof -
  have "map_option unlinked (g_strs g a) = Some (unlinked s')"
    using assms unfolding relinked_def by (metis option.simps(9))
  then show ?thesis by auto
qed

lemma relinked_hash:
  assumes "relinked g g'"
  shows "hash_of g' a = hash_of g a"
proof (cases "g_strs g a")
  case None
  then have "g_strs g' a = None" using assms unfolding relinked_def by (metis option.map_disc_iff)
  then show ?thesis using None by (simp add: hash_of_def)
next
  case (Some s)
  then show ?thesis
    using relinked_Some [OF assms Some] by (auto simp: hash_of_def dest: unlinked_fields(4))
qed

section \<open>Updates of a list of lists\<close>

lemma mset_concat_update:
  assumes "j < length cs"
  shows "mset (concat (cs[j := xs])) + mset (cs ! j) = mset (concat cs) + mset xs"
proof -
  have "mset (concat cs) = mset (concat (take j cs @ cs ! j # drop (Suc j) cs))"
    using assms by (simp flip: id_take_nth_drop)
  also have "\<dots> = mset (concat (take j cs)) + mset (cs ! j) + mset (concat (drop (Suc j) cs))"
    by (simp)
  finally show ?thesis using assms by (simp add: upd_conv_take_nth_drop)
qed

lemma set_nth_concat: "j < length cs \<Longrightarrow> set (cs ! j) \<subseteq> set (concat cs)"
  using nth_mem by force

text \<open>Every element goes to the front of the list at its place.\<close>

definition scatter :: "(nat \<Rightarrow> nat) \<Rightarrow> nat list \<Rightarrow> nat list list \<Rightarrow> nat list list" where
  "scatter place xs cs = fold (\<lambda>a cs. cs[place a := a # cs ! place a]) xs cs"

lemma scatter_simps [simp]:
  "scatter place [] cs = cs"
  "scatter place (a # xs) cs = scatter place xs (cs[place a := a # cs ! place a])"
  by (simp_all add: scatter_def)

lemma length_scatter [simp]: "length (scatter place xs cs) = length cs"
  by (induction xs arbitrary: cs) auto

lemma mset_scatter:
  "(\<And>a. a \<in> set xs \<Longrightarrow> place a < length cs) \<Longrightarrow>
    mset (concat (scatter place xs cs)) = mset xs + mset (concat cs)"
proof (induction xs arbitrary: cs)
  case (Cons a xs)
  have "mset (concat (scatter place (a # xs) cs)) = mset xs + mset (concat (cs[place a := a # cs ! place a]))"
    using Cons by simp
  moreover have "mset (concat (cs[place a := a # cs ! place a])) + mset (cs ! place a) =
      mset (concat cs) + mset (a # cs ! place a)"
    using Cons.prems by (intro mset_concat_update) simp
  ultimately show ?case by (simp add: union_assoc)
qed simp

lemma in_scatter:
  assumes "b \<in> set (scatter place xs cs ! j)" "j < length cs"
  shows "b \<in> set (cs ! j) \<or> b \<in> set xs \<and> place b = j"
  using assms
proof (induction xs arbitrary: cs)
  case (Cons a xs)
  then have "b \<in> set (cs[place a := a # cs ! place a] ! j) \<or> b \<in> set xs \<and> place b = j" by simp
  then show ?case using Cons.prems(2) by (cases "place a = j") auto
qed simp

section \<open>Rehash\<close>

lemma rehash_chain_lists:
  assumes "path (g_strs g) p as" "length as \<le> fuel" "lists g cs" "distinct (as @ concat cs)"
    and "\<And>a. a \<in> set as \<Longrightarrow> lmod (hash_of g a) n < length cs"
  shows "\<exists>g'. rehash_chain n fuel p g = Inr g' \<and> relinked g g' \<and> tb_size (g_strt g') = tb_size (g_strt g) \<and>
    lists g' (scatter (\<lambda>a. lmod (hash_of g a) n) as cs)"
  using assms
proof (induction as arbitrary: p g cs fuel)
  case Nil
  then show ?case by simp
next
  case (Cons a as)
  then obtain s where s: "p = Some a" "g_strs g a = Some s" "path (g_strs g) (ts_hnext s) as" by auto
  obtain d where d: "fuel = Suc d" using Cons.prems(2) by (cases fuel) auto
  let ?h = "lmod (ts_hash s) n"
  let ?g = "set_bucket (put_str g a (s\<lparr>ts_hnext := tb_hash (g_strt g) ! ?h\<rparr>)) ?h (Some a)"
  have h: "hash_of g a = ts_hash s" using s by (simp add: hash_of_def)
  then have hl: "?h < length cs" using Cons.prems(5) [of a] by simp
  have re: "relinked g ?g"
    using s by (simp add: relinked_def set_bucket_def put_str_def unlinked_def)
  have fresh: "a \<notin> set as" "\<And>j. j < length cs \<Longrightarrow> a \<notin> set (cs ! j)"
    using Cons.prems(4) set_nth_concat by auto
  have "lists ?g (cs[?h := a # cs ! ?h])"
    using Cons.prems(3) hl fresh(2)
    by (auto simp: lists_def set_bucket_def put_str_def nth_list_update path_update)
  moreover have "path (g_strs ?g) (ts_hnext s) as"
    using s(3) fresh(1) by (simp add: set_bucket_def put_str_def path_update)
  moreover have "distinct (as @ concat (cs[?h := a # cs ! ?h]))"
  proof -
    have "mset (as @ concat (cs[?h := a # cs ! ?h])) = mset ((a # as) @ concat cs)"
      using mset_concat_update [OF hl, of "a # cs ! ?h"] by simp
    then show ?thesis using Cons.prems(4) mset_eq_imp_distinct_iff by blast
  qed
  moreover have "lmod (hash_of ?g b) n < length (cs[?h := a # cs ! ?h])" if "b \<in> set as" for b
    using Cons.prems(5) that by (simp add: relinked_hash [OF re])
  ultimately obtain g' where g': "rehash_chain n d (ts_hnext s) ?g = Inr g'" "relinked ?g g'"
      "tb_size (g_strt g') = tb_size (g_strt ?g)"
      "lists g' (scatter (\<lambda>b. lmod (hash_of ?g b) n) as (cs[?h := a # cs ! ?h]))"
    using Cons.IH [of ?g "ts_hnext s" d "cs[?h := a # cs ! ?h]"] Cons.prems(2) d by auto
  have "get_bucket (put_str g a s') ?h = Inr (tb_hash (g_strt g) ! ?h)" for s'
    using hl Cons.prems(3) by (simp add: get_bucket_def put_str_def lists_def)
  moreover have "get_bucket g ?h = Inr (tb_hash (g_strt g) ! ?h)"
    using hl Cons.prems(3) by (simp add: get_bucket_def lists_def)
  ultimately have "rehash_chain n fuel p g = Inr g'"
    using s d g'(1) by (simp add: get_str_def)
  moreover have "tb_size (g_strt g') = tb_size (g_strt g)"
    using g'(3) by (simp add: set_bucket_def put_str_def)
  ultimately show ?case
    using g' h relinked_trans [OF re g'(2)] by (simp add: relinked_hash [OF re])
qed


lemma lmod_power: "lmod h (2 ^ k) = unat h mod 2 ^ k"
proof -
  have "(of_nat (2 ^ k - 1) :: u32) = mask k" by (simp add: mask_eq_exp_minus_1 of_nat_diff)
  then have "lmod h (2 ^ k) = unat (take_bit k h)" by (simp add: lmod_def take_bit_eq_mask)
  also have "\<dots> = take_bit k (unat h)" by (rule unsigned_take_bit_eq)
  finally show ?thesis by (simp only: take_bit_eq_mod)
qed

text \<open>A string that leaves bucket \<open>i\<close> does not go to a bucket that is still to be rehashed.\<close>

lemma rehash_target:
  assumes "lmod h (2 ^ k) = i"
  shows "lmod h (2 ^ m) \<le> i \<or> 2 ^ k \<le> lmod h (2 ^ m)"
proof (cases "m \<le> k")
  case True
  then have "unat h mod 2 ^ k mod 2 ^ m = unat h mod 2 ^ m" by (intro mod_mod_cancel le_imp_power_dvd)
  then have "lmod h (2 ^ m) = i mod 2 ^ m" using assms by (simp add: lmod_power)
  then show ?thesis by simp
next
  case False
  then have "unat h mod 2 ^ m mod 2 ^ k = unat h mod 2 ^ k" by (intro mod_mod_cancel le_imp_power_dvd) simp
  then have "lmod h (2 ^ m) mod 2 ^ k = i" using assms by (simp add: lmod_power)
  then show ?thesis by (metis mod_less not_le order_refl)
qed

text \<open>Before round \<open>i\<close>: the buckets from \<open>i\<close> to the old size hold strings by the old size.\<close>

definition placed :: "strings \<Rightarrow> nat \<Rightarrow> nat \<Rightarrow> nat \<Rightarrow> nat list list \<Rightarrow> bool" where
  "placed g n old i cs \<longleftrightarrow>
     (\<forall>j < length cs. \<forall>a \<in> set (cs ! j). lmod (hash_of g a) (if i \<le> j \<and> j < old then old else n) = j)"

lemma length_concat_nth: "j < length cs \<Longrightarrow> length (cs ! j) \<le> length (concat cs)"
  by (induction cs arbitrary: j) (auto simp: nth_Cons trans_le_add2 split: nat.splits)

definition rehashing :: "nat \<Rightarrow> nat \<Rightarrow> nat \<Rightarrow> strings \<Rightarrow> nat list list \<Rightarrow> bool" where
  "rehashing n old i g cs \<longleftrightarrow> lists g cs \<and> distinct (concat cs) \<and>
     length (concat cs) \<le> tb_nuse (g_strt g) \<and> placed g n old i cs"

lemma rehash_bucket_step:
  assumes "rehashing (2 ^ m) (2 ^ k) i g cs" "i < 2 ^ k" "2 ^ k \<le> length cs" "2 ^ m \<le> length cs"
  shows "\<exists>g' cs'. rehash_bucket (2 ^ m) i g = Inr g' \<and> rehashing (2 ^ m) (2 ^ k) (Suc i) g' cs' \<and>
    relinked g g' \<and> tb_size (g_strt g') = tb_size (g_strt g) \<and>
    length cs' = length cs \<and> mset (concat cs') = mset (concat cs)"
proof -
  let ?g = "set_bucket g i None" and ?cs = "cs[i := []]" and ?as = "cs ! i"
  let ?place = "\<lambda>a. lmod (hash_of g a) (2 ^ m)"
  have st: "lists g cs" "distinct (concat cs)" "length (concat cs) \<le> tb_nuse (g_strt g)"
      "placed g (2 ^ m) (2 ^ k) i cs"
    using assms(1) by (simp_all add: rehashing_def)
  have i: "i < length cs" using assms(2,3) by simp
  have re: "relinked g ?g" by (simp add: relinked_def set_bucket_def)
  have ms: "mset (?as @ concat ?cs) = mset (concat cs)"
    using mset_concat_update [OF i, of "[]"] by (simp add: union_commute)
  have "lists ?g ?cs" using st(1) i by (auto simp: lists_def set_bucket_def nth_list_update)
  moreover have "path (g_strs ?g) (tb_hash (g_strt g) ! i) ?as"
    using st(1) i by (simp add: lists_def set_bucket_def)
  moreover have "length ?as \<le> tb_nuse (g_strt g)" using length_concat_nth [OF i] st(3) by simp
  moreover have "distinct (?as @ concat ?cs)" using ms st(2) mset_eq_imp_distinct_iff by blast
  moreover have pl: "lmod (hash_of ?g a) (2 ^ m) < length ?cs" for a
  proof -
    have "lmod (hash_of ?g a) (2 ^ m) < 2 ^ m" by (simp add: lmod_power)
    then show ?thesis using assms(4) by simp
  qed
  ultimately obtain g' where g': "rehash_chain (2 ^ m) (tb_nuse (g_strt g)) (tb_hash (g_strt g) ! i) ?g = Inr g'"
      "relinked ?g g'" "tb_size (g_strt g') = tb_size (g_strt ?g)"
      "lists g' (scatter (\<lambda>a. lmod (hash_of ?g a) (2 ^ m)) ?as ?cs)"
    using rehash_chain_lists [of ?g "tb_hash (g_strt g) ! i" ?as "tb_nuse (g_strt g)" ?cs "2 ^ m"] by blast
  let ?cs' = "scatter ?place ?as ?cs"
  have re': "relinked g g'" using relinked_trans [OF re g'(2)] .
  have ms': "mset (concat ?cs') = mset (concat cs)"
    using pl by (subst mset_scatter) (use ms in \<open>simp_all add: relinked_hash [OF re]\<close>)
  have "placed g' (2 ^ m) (2 ^ k) (Suc i) ?cs'"
    unfolding placed_def
  proof (intro allI impI ballI)
    fix j a
    assume j: "j < length ?cs'" and a: "a \<in> set (?cs' ! j)"
    then consider "a \<in> set (?cs ! j)" | "a \<in> set ?as" "?place a = j"
      using in_scatter by (metis length_scatter)
    then show "lmod (hash_of g' a) (if Suc i \<le> j \<and> j < 2 ^ k then 2 ^ k else 2 ^ m) = j"
    proof cases
      case 1
      then have "j \<noteq> i" "a \<in> set (cs ! j)" using i by (auto simp: nth_list_update split: if_splits)
      then show ?thesis using st(4) j by (auto simp: placed_def relinked_hash [OF re'] Suc_le_eq)
    next
      case 2
      then have "lmod (hash_of g a) (if i \<le> i \<and> i < 2 ^ k then 2 ^ k else 2 ^ m) = i"
        using st(4) i unfolding placed_def by blast
      then have "lmod (hash_of g a) (2 ^ k) = i" using assms(2) by simp
      then have "\<not> (Suc i \<le> j \<and> j < 2 ^ k)" using rehash_target [of _ k i m] 2(2) by fastforce
      then show ?thesis using 2(2) by (auto simp: relinked_hash [OF re'])
    qed
  qed
  moreover have "get_bucket g i = Inr (tb_hash (g_strt g) ! i)" using i st(1) by (simp add: get_bucket_def lists_def)
  moreover have "lists g' ?cs'" using g'(4) by (simp add: relinked_hash [OF re])
  moreover have "distinct (concat ?cs')" using ms' st(2) mset_eq_imp_distinct_iff by blast
  moreover have "length (concat ?cs') = length (concat cs)" using ms' mset_eq_length by blast
  moreover have "tb_nuse (g_strt g') = tb_nuse (g_strt g)" using re' by (simp add: relinked_def)
  ultimately show ?thesis
    using g'(1,3) re' ms' st(3)
    by (intro exI [of _ g'] exI [of _ ?cs']) (simp add: rehash_bucket_def rehashing_def set_bucket_def)
qed

lemma rehash_all:
  assumes "rehashing (2 ^ m) (2 ^ k) 0 g cs" "2 ^ k \<le> length cs" "2 ^ m \<le> length cs"
  shows "\<exists>g' cs'. efold (rehash_bucket (2 ^ m)) [0..<2 ^ k] g = Inr g' \<and> rehashing (2 ^ m) (2 ^ k) (2 ^ k) g' cs' \<and>
    relinked g g' \<and> tb_size (g_strt g') = tb_size (g_strt g) \<and>
    length cs' = length cs \<and> mset (concat cs') = mset (concat cs)"
proof -
  let ?I = "\<lambda>i h. \<exists>cs'. rehashing (2 ^ m) (2 ^ k) i h cs' \<and> relinked g h \<and>
    tb_size (g_strt h) = tb_size (g_strt g) \<and> length cs' = length cs \<and> mset (concat cs') = mset (concat cs)"
  have "\<exists>g'. efold (rehash_bucket (2 ^ m)) [0..<2 ^ k] g = Inr g' \<and> ?I (length [0..<2 ^ k :: nat]) g'"
  proof (rule efold_rule [where I = "\<lambda>done. ?I (length done)"])
    show "?I (length []) g" using assms(1) by (intro exI [of _ cs]) simp
  next
    fix ds i rest h
    assume x: "[0..<2 ^ k] = ds @ i # rest" and I: "?I (length ds) h"
    have i: "i = length ds" "i < 2 ^ k"
      using x by (metis nth_append_length add_cancel_left_left length_append length_upt minus_nat.diff_0
          nth_upt add_0 less_add_same_cancel1 length_Cons zero_less_Suc,
        metis in_set_conv_decomp atLeastLessThan_iff set_upt)
    obtain cs1 where cs1: "rehashing (2 ^ m) (2 ^ k) i h cs1" "relinked g h"
        "tb_size (g_strt h) = tb_size (g_strt g)" "length cs1 = length cs" "mset (concat cs1) = mset (concat cs)"
      using I i by auto
    then obtain h' cs2 where "rehash_bucket (2 ^ m) i h = Inr h'" "rehashing (2 ^ m) (2 ^ k) (Suc i) h' cs2"
        "relinked h h'" "tb_size (g_strt h') = tb_size (g_strt h)" "length cs2 = length cs1"
        "mset (concat cs2) = mset (concat cs1)"
      using rehash_bucket_step [OF cs1(1) i(2)] assms(2,3) by auto
    then show "\<exists>s'. rehash_bucket (2 ^ m) i h = Inr s' \<and> ?I (length (ds @ [i])) s'"
      using cs1 i relinked_trans by (intro exI [of _ h'] conjI exI [of _ cs2]) auto
  qed
  then show ?thesis by auto
qed


section \<open>The invariant\<close>

definition short_strs :: "strings \<Rightarrow> nat set" where
  "short_strs g = {a. \<exists>s. g_strs g a = Some s \<and> ts_tt s = LUA_TSHRSTR}"

text \<open>The fields of a string fit its characters.\<close>

definition str_ok :: "u32 \<Rightarrow> strobj \<Rightarrow> bool" where
  "str_ok seed s \<longleftrightarrow> (case ts_tt s of
     LUA_TSHRSTR \<Rightarrow> length (ts_chars s) \<le> LUAI_MAXSHORTLEN \<and> unat (ts_shrlen s) = length (ts_chars s) \<and>
       ts_hash s = luaS_hash (ts_chars s) seed
   | LUA_TLNGSTR \<Rightarrow> LUAI_MAXSHORTLEN < length (ts_chars s) \<and> ts_lnglen s = length (ts_chars s))"

definition table_ok :: "strings \<Rightarrow> nat \<Rightarrow> nat list list \<Rightarrow> bool" where
  "table_ok g k cs \<longleftrightarrow> tb_size (g_strt g) = 2 ^ k \<and> length cs = 2 ^ k \<and> lists g cs \<and>
     distinct (concat cs) \<and> set (concat cs) = short_strs g \<and> tb_nuse (g_strt g) = length (concat cs) \<and>
     (\<forall>j < 2 ^ k. \<forall>a \<in> set (cs ! j). lmod (hash_of g a) (2 ^ k) = j)"

definition strings_ok :: "strings \<Rightarrow> bool" where
  "strings_ok g \<longleftrightarrow> (\<exists>k cs. k \<le> 30 \<and> table_ok g k cs) \<and>
     (\<forall>a s. g_strs g a = Some s \<longrightarrow> str_ok (g_seed g) s) \<and>
     (\<forall>a b s t. g_strs g a = Some s \<longrightarrow> g_strs g b = Some t \<longrightarrow>
        ts_tt s = LUA_TSHRSTR \<longrightarrow> ts_tt t = LUA_TSHRSTR \<longrightarrow> ts_chars s = ts_chars t \<longrightarrow> a = b) \<and>
     g_currentwhite g \<in> {1, 2}"

lemma unlinked_ok: "unlinked s = unlinked t \<Longrightarrow> str_ok seed s \<longleftrightarrow> str_ok seed t"
  by (simp add: str_ok_def unlinked_fields [of s t] split: strtag.split)

lemma relinked_short:
  assumes "relinked g g'"
  shows "short_strs g' = short_strs g"
proof -
  have "map_option ts_tt (map_option unlinked (g_strs g' a)) = map_option ts_tt (map_option unlinked (g_strs g a))" for a
    using assms by (simp add: relinked_def)
  then have tags: "map_option ts_tt (g_strs g' a) = map_option ts_tt (g_strs g a)" for a
    by (simp add: option.map_comp comp_def unlinked_def)
  have "short_strs g = {a. map_option ts_tt (g_strs g a) = Some LUA_TSHRSTR}" for g
    by (auto simp: short_strs_def)
  then show ?thesis by (simp only: tags)
qed

lemma relinked_strs_ok:
  assumes "relinked g g'" "strings_ok g" "k \<le> 30" "table_ok g' k cs"
  shows "strings_ok g'"
proof -
  have "str_ok (g_seed g') s'" if s': "g_strs g' a = Some s'" for a s'
  proof -
    obtain s where "g_strs g a = Some s" "unlinked s' = unlinked s"
      using relinked_back [OF assms(1) s'] by blast
    then show ?thesis using assms(1,2) unlinked_ok by (metis relinked_def strings_ok_def)
  qed
  moreover have "a = b" if st': "g_strs g' a = Some s'" "g_strs g' b = Some t'" "ts_tt s' = LUA_TSHRSTR"
      "ts_tt t' = LUA_TSHRSTR" "ts_chars s' = ts_chars t'" for a b s' t'
  proof -
    obtain s t where st: "g_strs g a = Some s" "unlinked s' = unlinked s"
        "g_strs g b = Some t" "unlinked t' = unlinked t"
      using relinked_back [OF assms(1) st'(1)] relinked_back [OF assms(1) st'(2)] by blast
    have "ts_tt s = LUA_TSHRSTR" "ts_tt t = LUA_TSHRSTR" "ts_chars s = ts_chars t"
      using st' unlinked_fields [OF st(2)] unlinked_fields [OF st(4)] by simp_all
    then show ?thesis using assms(2) st unfolding strings_ok_def by blast
  qed
  moreover have "g_currentwhite g' \<in> {1, 2}" using assms(1,2) by (simp add: relinked_def strings_ok_def)
  ultimately show ?thesis using assms(3,4) unfolding strings_ok_def by blast
qed

lemma lists_take:
  assumes "lists g cs" "n \<le> length cs"
  shows "lists (g\<lparr>g_strt := (g_strt g)\<lparr>tb_hash := take n (tb_hash (g_strt g)), tb_size := s\<rparr>\<rparr>) (take n cs)"
  using assms by (simp add: lists_def)

lemma concat_take_empty: "(\<And>j. n \<le> j \<Longrightarrow> j < length cs \<Longrightarrow> cs ! j = []) \<Longrightarrow> concat (take n cs) = concat cs"
proof -
  assume e: "\<And>j. n \<le> j \<Longrightarrow> j < length cs \<Longrightarrow> cs ! j = []"
  then have "\<forall>x\<in>set (drop n cs). x = []" by (auto simp: in_set_conv_nth)
  then have "concat (drop n cs) = []" by simp
  then show ?thesis by (metis append_Nil2 append_take_drop_id concat_append)
qed

text \<open>The rehash of a table whose array is large enough for both sizes, and the cut at the end.\<close>

lemma resize_lists:
  assumes "rehashing (2 ^ m) (2 ^ k) 0 g cs" "length cs = max (2 ^ k) (2 ^ m)"
    "set (concat cs) = short_strs g" "tb_nuse (g_strt g) = length (concat cs)"
  shows "\<exists>h cs'. efold (rehash_bucket (2 ^ m)) [0..<2 ^ k] g = Inr h \<and> relinked g h \<and>
    length (tb_hash (g_strt h)) = max (2 ^ k) (2 ^ m) \<and>
    table_ok (h\<lparr>g_strt := (g_strt h)\<lparr>tb_hash := take (2 ^ m) (tb_hash (g_strt h)), tb_size := 2 ^ m\<rparr>\<rparr>) m cs'"
proof -
  obtain h cs1 where h: "efold (rehash_bucket (2 ^ m)) [0..<2 ^ k] g = Inr h"
      "rehashing (2 ^ m) (2 ^ k) (2 ^ k) h cs1" "relinked g h" "length cs1 = length cs"
      "mset (concat cs1) = mset (concat cs)"
    using rehash_all [OF assms(1)] assms(2) by auto
  let ?g = "h\<lparr>g_strt := (g_strt h)\<lparr>tb_hash := take (2 ^ m) (tb_hash (g_strt h)), tb_size := 2 ^ m\<rparr>\<rparr>"
  have st: "lists h cs1" "distinct (concat cs1)" "placed h (2 ^ m) (2 ^ k) (2 ^ k) cs1"
    using h(2) by (simp_all add: rehashing_def)
  have at: "lmod (hash_of h a) (2 ^ m) = j" if "j < length cs1" "a \<in> set (cs1 ! j)" for j a
  proof -
    have "lmod (hash_of h a) (if 2 ^ k \<le> j \<and> j < 2 ^ k then 2 ^ k else 2 ^ m) = j"
      using st(3) that unfolding placed_def by blast
    then show ?thesis by (simp split: if_splits)
  qed
  have "cs1 ! j = []" if "2 ^ m \<le> j" "j < length cs1" for j
  proof (rule ccontr)
    assume "cs1 ! j \<noteq> []"
    then have "lmod (hash_of h (hd (cs1 ! j))) (2 ^ m) = j" using at that by simp
    then show False using that(1) by (metis lmod_power mod_less_divisor not_le zero_less_numeral zero_less_power)
  qed
  then have all: "concat (take (2 ^ m) cs1) = concat cs1" by (intro concat_take_empty)
  have "set (concat cs1) = short_strs h"
    using h(5) assms(3) relinked_short [OF h(3)] by (metis set_mset_mset)
  moreover have "length (concat cs1) = tb_nuse (g_strt h)"
    using h(3,5) assms(4) by (metis mset_eq_length relinked_def)
  moreover have "lists ?g (take (2 ^ m) cs1)" using lists_take [OF st(1)] h(4) assms(2) by simp
  moreover have "hash_of ?g a = hash_of h a" for a by (simp add: hash_of_def)
  moreover have "short_strs ?g = short_strs h" by (simp add: short_strs_def)
  ultimately have "table_ok ?g m (take (2 ^ m) cs1)"
    using st(2) at h(4) assms(2) by (simp add: table_ok_def all del: set_concat length_concat)
  moreover have "length (tb_hash (g_strt h)) = max (2 ^ k) (2 ^ m)"
    using st(1) h(4) assms(2) by (simp add: lists_def)
  ultimately show ?thesis using h(1,3) by blast
qed

lemma lists_grow:
  assumes "lists g cs"
  shows "lists (g\<lparr>g_strt := (g_strt g)\<lparr>tb_hash := tb_hash (g_strt g) @ replicate n None\<rparr>\<rparr>) (cs @ replicate n [])"
  using assms by (auto simp: lists_def nth_append)

lemma resize_keeps:
  assumes "strings_ok g" "m \<le> 30"
  shows "\<exists>g'. luaS_resize (2 ^ m) g = Inr g' \<and> strings_ok g' \<and> relinked g g' \<and> tb_size (g_strt g') = 2 ^ m"
proof -
  obtain k cs where k: "k \<le> 30" "table_ok g k cs" using assms(1) by (auto simp: strings_ok_def)
  let ?n = "2 ^ m - 2 ^ k :: nat"
  define G where "G = (if 2 ^ k < (2 ^ m :: nat)
    then g\<lparr>g_strt := (g_strt g)\<lparr>tb_hash := tb_hash (g_strt g) @ replicate ?n None\<rparr>\<rparr> else g)"
  let ?cs = "cs @ replicate ?n []"
  have t: "tb_size (g_strt g) = 2 ^ k" "length cs = 2 ^ k" "lists g cs" "distinct (concat cs)"
      "set (concat cs) = short_strs g" "tb_nuse (g_strt g) = length (concat cs)"
      "\<And>j a. j < 2 ^ k \<Longrightarrow> a \<in> set (cs ! j) \<Longrightarrow> lmod (hash_of g a) (2 ^ k) = j"
    using k(2) by (auto simp: table_ok_def simp del: set_concat)
  have same: "hash_of G a = hash_of g a" "short_strs G = short_strs g" "tb_nuse (g_strt G) = tb_nuse (g_strt g)" for a
    by (simp_all add: G_def hash_of_def short_strs_def)
  have con: "concat ?cs = concat cs" by simp
  have "lists G ?cs" using t(3) lists_grow [OF t(3), of ?n] by (cases "2 ^ k < (2 ^ m :: nat)") (simp_all add: G_def)
  moreover have "placed G (2 ^ m) (2 ^ k) 0 ?cs"
    using t(2,7) by (auto simp: placed_def same nth_append)
  ultimately have "rehashing (2 ^ m) (2 ^ k) 0 G ?cs"
    using t(4,6) by (simp only: rehashing_def con same) simp
  moreover have "length ?cs = max (2 ^ k) (2 ^ m)" using t(2) by simp
  moreover have "set (concat ?cs) = short_strs G" using t(5) by (simp only: con same)
  moreover have "tb_nuse (g_strt G) = length (concat ?cs)" using t(6) by (simp only: con same)
  ultimately obtain h cs' where h: "efold (rehash_bucket (2 ^ m)) [0..<2 ^ k] G = Inr h" "relinked G h"
      "length (tb_hash (g_strt h)) = max (2 ^ k) (2 ^ m)"
      "table_ok (h\<lparr>g_strt := (g_strt h)\<lparr>tb_hash := take (2 ^ m) (tb_hash (g_strt h)), tb_size := 2 ^ m\<rparr>\<rparr>) m cs'"
    using resize_lists by blast
  let ?g' = "h\<lparr>g_strt := (g_strt h)\<lparr>tb_hash := take (2 ^ m) (tb_hash (g_strt h)), tb_size := 2 ^ m\<rparr>\<rparr>"
  have "luaS_resize (2 ^ m) g = Inr ?g'"
    using h(1,3) t(1) by (simp add: luaS_resize_def Let_def G_def)
  moreover have "relinked g ?g'" using h(2) by (auto simp: relinked_def G_def split: if_splits)
  ultimately show ?thesis using relinked_strs_ok [OF _ assms(1,2) h(4)] by auto
qed


section \<open>Interning\<close>

definition text_of :: "strings \<Rightarrow> nat \<Rightarrow> string option" where
  "text_of g a = map_option ts_chars (g_strs g a)"

definition alive :: "strings \<Rightarrow> nat \<Rightarrow> bool" where
  "alive g a \<longleftrightarrow> (\<exists>s. g_strs g a = Some s \<and> \<not> isdead g s)"

lemma strings_okD:
  assumes "strings_ok g"
  shows "\<exists>k cs. k \<le> 30 \<and> table_ok g k cs"
    "\<And>a s. g_strs g a = Some s \<Longrightarrow> str_ok (g_seed g) s"
    "\<And>a b s t. g_strs g a = Some s \<Longrightarrow> g_strs g b = Some t \<Longrightarrow> ts_tt s = LUA_TSHRSTR \<Longrightarrow>
       ts_tt t = LUA_TSHRSTR \<Longrightarrow> ts_chars s = ts_chars t \<Longrightarrow> a = b"
    "g_currentwhite g \<in> {1, 2}"
  using assms unfolding strings_ok_def by blast+

lemma table_okD:
  assumes "table_ok g k cs"
  shows "tb_size (g_strt g) = 2 ^ k" "length cs = 2 ^ k" "lists g cs" "distinct (concat cs)"
    "set (concat cs) = short_strs g" "tb_nuse (g_strt g) = length (concat cs)"
    "\<And>j a. j < 2 ^ k \<Longrightarrow> a \<in> set (cs ! j) \<Longrightarrow> lmod (hash_of g a) (2 ^ k) = j"
  using assms unfolding table_ok_def by blast+

lemma find_interned_list:
  assumes "path (g_strs g) p as" "length as \<le> fuel"
    and "\<And>a s. a \<in> set as \<Longrightarrow> g_strs g a = Some s \<Longrightarrow> unat (ts_shrlen s) = length (ts_chars s)"
  shows "(\<exists>a \<in> set as. text_of g a = Some str \<and> find_interned fuel str p g = Inr (Some a)) \<or>
    find_interned fuel str p g = Inr None \<and> (\<forall>a \<in> set as. text_of g a \<noteq> Some str)"
  using assms
proof (induction as arbitrary: p fuel)
  case (Cons a as)
  then obtain s d where s: "p = Some a" "g_strs g a = Some s" "path (g_strs g) (ts_hnext s) as" "fuel = Suc d"
    by (cases fuel) auto
  have eq: "length str = unat (ts_shrlen s) \<and> take (length str) (ts_chars s) = str \<longleftrightarrow> ts_chars s = str"
  proof -
    have "unat (ts_shrlen s) = length (ts_chars s)" using Cons.prems(3) [of a s] s by simp
    then show ?thesis by (metis order_refl take_all)
  qed
  show ?case
  proof (cases "ts_chars s = str")
    case True
    then show ?thesis using s eq by (simp add: get_str_def text_of_def)
  next
    case False
    have "(\<exists>a \<in> set as. text_of g a = Some str \<and> find_interned d str (ts_hnext s) g = Inr (Some a)) \<or>
        find_interned d str (ts_hnext s) g = Inr None \<and> (\<forall>a \<in> set as. text_of g a \<noteq> Some str)"
      using Cons.prems s by (intro Cons.IH) auto
    moreover have "find_interned fuel str p g = find_interned d str (ts_hnext s) g"
      using s eq False by (auto simp: get_str_def)
    moreover have "text_of g a \<noteq> Some str" using s False by (simp add: text_of_def)
    ultimately show ?thesis by auto
  qed
qed simp

lemma bucket_of_string:
  assumes "strings_ok g" "table_ok g k cs" "g_strs g a = Some s" "ts_tt s = LUA_TSHRSTR"
  shows "a \<in> set (cs ! lmod (luaS_hash (ts_chars s) (g_seed g)) (2 ^ k))"
proof -
  note t = table_okD [OF assms(2)]
  have "a \<in> set (concat cs)" using assms(3,4) t(5) by (auto simp: short_strs_def)
  then obtain j where j: "j < length cs" "a \<in> set (cs ! j)" by (metis UN_iff in_set_conv_nth set_concat)
  have "ts_hash s = luaS_hash (ts_chars s) (g_seed g)"
    using strings_okD(2) [OF assms(1,3)] assms(4) by (simp add: str_ok_def)
  then have "lmod (luaS_hash (ts_chars s) (g_seed g)) (2 ^ k) = j"
    using t(7) [of j a] j t(2) assms(3) by (simp add: hash_of_def)
  then show ?thesis using j(2) by simp
qed

lemma lmod_less: "lmod h (2 ^ k) < 2 ^ k"
  by (simp add: lmod_power)

lemma get_bucket_at: "lists g cs \<Longrightarrow> j < length cs \<Longrightarrow> get_bucket g j = Inr (tb_hash (g_strt g) ! j)"
  by (simp add: get_bucket_def lists_def)

text \<open>The search finds the interned object if there is one.\<close>

lemma find_in_table:
  assumes "strings_ok g" "table_ok g k cs" "j = lmod (luaS_hash str (g_seed g)) (2 ^ k)"
  shows "(\<exists>a s. g_strs g a = Some s \<and> ts_tt s = LUA_TSHRSTR \<and> ts_chars s = str \<and>
      find_interned (tb_nuse (g_strt g)) str (tb_hash (g_strt g) ! j) g = Inr (Some a)) \<or>
    find_interned (tb_nuse (g_strt g)) str (tb_hash (g_strt g) ! j) g = Inr None \<and>
      (\<forall>a s. g_strs g a = Some s \<longrightarrow> ts_tt s = LUA_TSHRSTR \<longrightarrow> ts_chars s \<noteq> str)"
proof -
  note t = table_okD [OF assms(2)]
  let ?find = "find_interned (tb_nuse (g_strt g)) str (tb_hash (g_strt g) ! j) g"
  have j: "j < length cs" using t(2) lmod_less assms(3) by simp
  have "path (g_strs g) (tb_hash (g_strt g) ! j) (cs ! j)" using t(3) j by (simp add: lists_def)
  moreover have "length (cs ! j) \<le> tb_nuse (g_strt g)" using length_concat_nth [OF j] t(6) by simp
  moreover have short: "ts_tt s = LUA_TSHRSTR" if "a \<in> set (cs ! j)" "g_strs g a = Some s" for a s
    using that set_nth_concat [OF j] t(5) by (auto simp: short_strs_def)
  moreover have "unat (ts_shrlen s) = length (ts_chars s)" if "a \<in> set (cs ! j)" "g_strs g a = Some s" for a s
    using strings_okD(2) [OF assms(1) that(2)] short [OF that] by (simp add: str_ok_def)
  moreover have inside: "a \<in> set (cs ! j)" if "g_strs g a = Some s" "ts_tt s = LUA_TSHRSTR" "ts_chars s = str" for a s
    using bucket_of_string [OF assms(1,2) that(1,2)] that(3) assms(3) by simp
  ultimately have "(\<exists>a \<in> set (cs ! j). text_of g a = Some str \<and> ?find = Inr (Some a)) \<or>
      ?find = Inr None \<and> (\<forall>a \<in> set (cs ! j). text_of g a \<noteq> Some str)"
    by (intro find_interned_list) blast+
  then show ?thesis
  proof (elim disjE)
    assume "\<exists>a \<in> set (cs ! j). text_of g a = Some str \<and> ?find = Inr (Some a)"
    then obtain a s where "a \<in> set (cs ! j)" "g_strs g a = Some s" "ts_chars s = str" "?find = Inr (Some a)"
      by (auto simp: text_of_def)
    then show ?thesis using short by blast
  next
    assume n: "?find = Inr None \<and> (\<forall>a \<in> set (cs ! j). text_of g a \<noteq> Some str)"
    have "ts_chars s \<noteq> str" if "g_strs g a = Some s" "ts_tt s = LUA_TSHRSTR" for a s
      using n inside [OF that] that(1) by (auto simp: text_of_def)
    then show ?thesis using n by blast
  qed
qed

end
