(* ===== verification/Lua_Strtab_Spec.thy ===== *)
theory Lua_Strtab_Spec
  imports Lua_Strtab_Inv
begin

text \<open>
  What the operations of \<open>lstring.c\<close> promise: a string is interned as one object, comparing
  objects compares strings, and every operation keeps the table consistent.
\<close>

unbundle bit_operations_syntax

section \<open>Interning\<close>

lemma short_fits: "n \<le> 40 \<Longrightarrow> unat (of_nat n :: byte) = n"
  by (intro unat_of_nat_small) simp

lemma alive_new: "g_currentwhite g \<in> {1, 2} \<Longrightarrow> ts_marked s = luaC_white g \<Longrightarrow> \<not> isdead g s"
proof -
  have "\<forall>w\<in>{1, 2 :: byte}. ((w AND WHITEBITS) XOR WHITEBITS) AND (w XOR WHITEBITS) \<noteq> 0"
    unfolding WHITEBITS_def by code_simp
  then show "g_currentwhite g \<in> {1, 2} \<Longrightarrow> ts_marked s = luaC_white g \<Longrightarrow> \<not> isdead g s"
    by (simp only: isdead_def otherwhite_def luaC_white_def) blast
qed

lemma alive_changed:
  assumes "g_currentwhite g \<in> {1, 2}" "isdead g s"
  shows "\<not> isdead g (changewhite s)"
proof -
  let ?ow = "g_currentwhite g XOR WHITEBITS"
  have ow: "?ow \<noteq> 0" "?ow AND WHITEBITS = ?ow"
    using assms(1) unfolding WHITEBITS_def by (elim insertE emptyE; simp; code_simp)+
  have "(ts_marked s XOR WHITEBITS) AND ?ow = 0"
    using assms(2) by (simp add: isdead_def otherwhite_def)
  then have "((ts_marked s XOR WHITEBITS) XOR WHITEBITS) AND ?ow = WHITEBITS AND ?ow"
    by (simp only: bit.conj_xor_distrib2 bit.xor_left_self bit.conj_zero_left) simp
  then have "((ts_marked s XOR WHITEBITS) XOR WHITEBITS) AND ?ow \<noteq> 0"
    using ow by (simp only: and.commute [of WHITEBITS]) simp
  then show ?thesis by (simp add: isdead_def otherwhite_def changewhite_def)
qed

lemma dead_white:
  assumes "g_currentwhite g \<in> {1, 2}" "isdead g s"
  shows "iswhite s"
proof (rule ccontr)
  assume "\<not> iswhite s"
  then have "ts_marked s AND WHITEBITS = 0" by (simp add: iswhite_def)
  moreover have "(m XOR WHITEBITS) AND (w XOR WHITEBITS) \<noteq> 0"
    if "m AND WHITEBITS = 0" "w \<in> {1, 2}" for m w :: byte
  proof -
    have "(m XOR WHITEBITS) AND (w XOR WHITEBITS) = (m AND WHITEBITS) AND (w XOR WHITEBITS) XOR (WHITEBITS AND (w XOR WHITEBITS))"
      using that(2) unfolding WHITEBITS_def by (elim insertE emptyE; simp add: bit.conj_xor_distrib2 and.assoc)
    then show ?thesis using that unfolding WHITEBITS_def by auto
  qed
  ultimately show False using assms by (simp add: isdead_def otherwhite_def)
qed

text \<open>An object that is put into the table.\<close>

lemma table_ok_insert:
  assumes "table_ok g k cs" "g_strs g new = None" "ts_tt s = LUA_TSHRSTR" "i = lmod (ts_hash s) (2 ^ k)"
    "ts_hnext s = tb_hash (g_strt g) ! i"
  shows "table_ok (g\<lparr>g_strs := (g_strs g)(new \<mapsto> s),
      g_strt := (g_strt g)\<lparr>tb_hash := (tb_hash (g_strt g))[i := Some new], tb_nuse := tb_nuse (g_strt g) + 1\<rparr>\<rparr>)
    k (cs[i := new # cs ! i])"
proof -
  let ?g = "g\<lparr>g_strs := (g_strs g)(new \<mapsto> s),
      g_strt := (g_strt g)\<lparr>tb_hash := (tb_hash (g_strt g))[i := Some new], tb_nuse := tb_nuse (g_strt g) + 1\<rparr>\<rparr>"
  let ?cs = "cs[i := new # cs ! i]"
  note t = table_okD [OF assms(1)]
  have i: "i < length cs" using t(2) assms(4) lmod_less by simp
  have new: "new \<notin> set (concat cs)" using t(5) assms(2) by (auto simp: short_strs_def)
  then have nj: "new \<notin> set (cs ! j)" if "j < length cs" for j using set_nth_concat [OF that] by blast
  have ms: "mset (concat ?cs) = mset (new # concat cs)"
    using mset_concat_update [OF i, of "new # cs ! i"] by simp
  have "lists ?g ?cs"
    using t(3) i nj assms(5) by (auto simp: lists_def nth_list_update path_update)
  moreover have "distinct (concat ?cs)" using ms t(4) new mset_eq_imp_distinct_iff by (metis distinct.simps(2))
  moreover have "set (concat ?cs) = short_strs ?g"
  proof -
    have "set (concat ?cs) = insert new (set (concat cs))" using ms by (metis list.set(2) mset_eq_setD)
    also have "\<dots> = short_strs ?g" using t(5) assms(2,3) by (auto simp: short_strs_def)
    finally show ?thesis .
  qed
  moreover have "length (concat ?cs) = tb_nuse (g_strt g) + 1"
    using ms t(6) by (metis Suc_eq_plus1 length_Cons mset_eq_length)
  moreover have "lmod (hash_of ?g a) (2 ^ k) = j" if j: "j < 2 ^ k" and a: "a \<in> set (?cs ! j)" for j a
  proof (cases "a = new")
    case True
    then have "j = i" using a nj j t(2) by (cases "j = i") auto
    then show ?thesis using True assms(4) by (simp add: hash_of_def)
  next
    case False
    then have "a \<in> set (cs ! j)" using a i by (cases "j = i") auto
    then have "lmod (hash_of g a) (2 ^ k) = j" using t(7) j by blast
    then show ?thesis using False by (simp add: hash_of_def)
  qed
  ultimately show ?thesis using t(1,2) by (simp add: table_ok_def del: set_concat length_concat)
qed


text \<open>The state after a new object was created, or an old one changed its colour.\<close>

definition not_white :: "strings \<Rightarrow> nat \<Rightarrow> bool" where
  "not_white g a \<longleftrightarrow> (\<exists>s. g_strs g a = Some s \<and> \<not> iswhite s)"

definition keeps_texts :: "strings \<Rightarrow> strings \<Rightarrow> bool" where
  "keeps_texts g g' \<longleftrightarrow> (\<forall>a. text_of g a \<noteq> None \<longrightarrow> text_of g' a = text_of g a) \<and>
     (\<forall>a. not_white g a \<longrightarrow> not_white g' a) \<and> g_memerrmsg g' = g_memerrmsg g \<and>
     g_seed g' = g_seed g \<and> g_currentwhite g' = g_currentwhite g \<and> g_strcache g' = g_strcache g"

lemma keeps_texts_refl [simp]: "keeps_texts g g"
  by (simp add: keeps_texts_def)

lemma keeps_texts_trans: "keeps_texts g g' \<Longrightarrow> keeps_texts g' g'' \<Longrightarrow> keeps_texts g g''"
  unfolding keeps_texts_def by metis

lemma relinked_text: "relinked g g' \<Longrightarrow> text_of g' a = text_of g a"
proof -
  assume "relinked g g'"
  then have "map_option ts_chars (map_option unlinked (g_strs g' a)) = map_option ts_chars (map_option unlinked (g_strs g a))"
    by (simp add: relinked_def)
  then show ?thesis by (simp add: text_of_def option.map_comp comp_def unlinked_def)
qed

lemma relinked_not_white:
  assumes "relinked g g'" "not_white g a"
  shows "not_white g' a"
proof -
  obtain s where "g_strs g a = Some s" "\<not> iswhite s" using assms(2) by (auto simp: not_white_def)
  then show ?thesis
    using relinked_Some [OF assms(1)] unlinked_fields(2) unfolding not_white_def iswhite_def by metis
qed

lemma relinked_keeps: "relinked g g' \<Longrightarrow> keeps_texts g g'"
  by (simp add: keeps_texts_def relinked_text relinked_not_white) (simp add: relinked_def)

text \<open>A change of marks only.\<close>

lemma recolour_any:
  assumes "strings_ok g" "g_strs g a = Some s" "s' = s\<lparr>ts_marked := m\<rparr>"
  shows "strings_ok (put_str g a s') \<and> text_of (put_str g a s') b = text_of g b"
proof -
  let ?g = "put_str g a s'"
  obtain k cs where k: "k \<le> 30" "table_ok g k cs" using strings_okD(1) [OF assms(1)] by blast
  note t = table_okD [OF k(2)]
  have h: "hash_of ?g b = hash_of g b" for b using assms(2,3) by (simp add: hash_of_def put_str_def)
  have "path (g_strs ?g) p as \<longleftrightarrow> path (g_strs g) p as" for p as
    using assms(2,3) by (induction as arbitrary: p) (auto simp: put_str_def)
  then have "lists ?g cs" using t(3) by (simp add: lists_def put_str_def)
  moreover have "short_strs ?g = short_strs g" using assms(2,3) by (auto simp: short_strs_def put_str_def)
  ultimately have "table_ok ?g k cs" using k(2) by (simp add: table_ok_def h) (simp add: put_str_def)
  moreover have "str_ok (g_seed ?g) u" if "g_strs ?g b = Some u" for b u
    using that assms strings_okD(2) [OF assms(1), of b] strings_okD(2) [OF assms(1,2)]
    by (auto simp: put_str_def str_ok_def split: if_splits strtag.splits)
  moreover have old: "\<exists>u'. g_strs g b = Some u' \<and> ts_tt u' = ts_tt u \<and> ts_chars u' = ts_chars u"
    if "g_strs ?g b = Some u" for b u
    using that assms(2,3) by (cases "b = a") (auto simp: put_str_def)
  moreover have "b = c" if bc: "g_strs ?g b = Some u" "g_strs ?g c = Some v" "ts_tt u = LUA_TSHRSTR"
      "ts_tt v = LUA_TSHRSTR" "ts_chars u = ts_chars v" for b c u v
  proof -
    obtain u' v' where "g_strs g b = Some u'" "g_strs g c = Some v'" "ts_tt u' = ts_tt u" "ts_tt v' = ts_tt v"
        "ts_chars u' = ts_chars u" "ts_chars v' = ts_chars v"
      using old [OF bc(1)] old [OF bc(2)] by blast
    then show ?thesis using strings_okD(3) [OF assms(1), of b u' c v'] bc by simp
  qed
  moreover have "g_currentwhite ?g \<in> {1, 2}" using strings_okD(4) [OF assms(1)] by (simp add: put_str_def)
  ultimately have "strings_ok ?g" using k(1) unfolding strings_ok_def by blast
  moreover have "text_of ?g b = text_of g b" for b using assms(2,3) by (simp add: text_of_def put_str_def)
  ultimately show ?thesis by simp
qed

lemma recolour_ok:
  assumes "strings_ok g" "g_strs g a = Some s" "s' = s\<lparr>ts_marked := m\<rparr>" "iswhite s"
  shows "strings_ok (put_str g a s') \<and> keeps_texts g (put_str g a s') \<and> text_of (put_str g a s') b = text_of g b"
proof -
  have "not_white (put_str g a s') b" if "not_white g b" for b
    using that assms(2,4) by (auto simp: not_white_def put_str_def)
  then show ?thesis
    using recolour_any [OF assms(1-3)] by (simp add: keeps_texts_def) (simp add: put_str_def)
qed

text \<open>The result of interning: the object, and what became of the others.\<close>

definition interned :: "strings \<Rightarrow> nat \<Rightarrow> string \<Rightarrow> strings \<Rightarrow> nat \<Rightarrow> bool" where
  "interned g new str g' a \<longleftrightarrow> strings_ok g' \<and> text_of g' a = Some str \<and> alive g' a \<and> keeps_texts g g' \<and>
     (\<forall>b. text_of g' b \<noteq> None \<longrightarrow> text_of g b \<noteq> None \<or> b = a) \<and> (a \<noteq> new \<longrightarrow> text_of g a = Some str)"

lemma create_ok:
  assumes "strings_ok g" "g_strs g new = None" "str_ok (g_seed g) s" "ts_marked s = luaC_white g"
    and "ts_tt s = LUA_TLNGSTR \<Longrightarrow> g' = put_str g new s"
    and "ts_tt s = LUA_TSHRSTR \<Longrightarrow> table_ok g' k cs \<and> k \<le> 30 \<and> g_strs g' = (g_strs g)(new \<mapsto> s) \<and>
      (\<forall>a t. g_strs g a = Some t \<longrightarrow> ts_tt t = LUA_TSHRSTR \<longrightarrow> ts_chars t \<noteq> ts_chars s)"
    and "g_seed g' = g_seed g" "g_currentwhite g' = g_currentwhite g" "g_strcache g' = g_strcache g"
      "g_memerrmsg g' = g_memerrmsg g"
  shows "interned g new (ts_chars s) g' new"
proof -
  have strs: "g_strs g' = (g_strs g)(new \<mapsto> s)" using assms(5,6) by (cases "ts_tt s") (auto simp: put_str_def)
  have "\<exists>k cs. k \<le> 30 \<and> table_ok g' k cs"
  proof (cases "ts_tt s")
    case LUA_TSHRSTR
    then show ?thesis using assms(6) by blast
  next
    case LUA_TLNGSTR
    obtain k cs where k: "k \<le> 30" "table_ok g k cs" using strings_okD(1) [OF assms(1)] by blast
    note t = table_okD [OF k(2)]
    have g': "g' = put_str g new s" using assms(5) LUA_TLNGSTR by simp
    have new: "new \<notin> set (concat cs)" using t(5) assms(2) by (auto simp: short_strs_def)
    then have nj: "new \<notin> set (cs ! j)" if "j < length cs" for j using set_nth_concat [OF that] by blast
    have "lists g' cs" using t(3) nj by (auto simp: lists_def g' put_str_def path_update)
    moreover have "short_strs g' = short_strs g"
      using assms(2) LUA_TLNGSTR by (auto simp: short_strs_def g' put_str_def)
    moreover have "lmod (hash_of g' a) (2 ^ k) = j" if "j < 2 ^ k" "a \<in> set (cs ! j)" for j a
      using t(2,7) that nj [of j] by (auto simp: hash_of_def g' put_str_def)
    ultimately have "table_ok g' k cs"
      using t by (simp add: table_ok_def del: set_concat length_concat) (simp add: g' put_str_def)
    then show ?thesis using k(1) by blast
  qed
  moreover have "str_ok (g_seed g') u" if "g_strs g' b = Some u" for b u
    using that assms(3,7) strings_okD(2) [OF assms(1)] by (auto simp: strs split: if_splits)
  moreover have "b = c" if "g_strs g' b = Some u" "g_strs g' c = Some v" "ts_tt u = LUA_TSHRSTR"
      "ts_tt v = LUA_TSHRSTR" "ts_chars u = ts_chars v" for b c u v
    using that assms(6) strings_okD(3) [OF assms(1), of b u c v] by (auto simp: strs split: if_splits)
  moreover have w: "g_currentwhite g' \<in> {1, 2}" using strings_okD(4) [OF assms(1)] assms(8) by simp
  ultimately have "strings_ok g'" unfolding strings_ok_def by blast
  moreover have "alive g' new"
    using alive_new [OF w, of s] assms(4,8) by (simp add: alive_def strs luaC_white_def)
  moreover have "not_white g' a" if "not_white g a" for a
    using that assms(2) by (auto simp: not_white_def strs)
  ultimately show ?thesis
    using assms(2,7,8,9,10) by (auto simp: interned_def keeps_texts_def text_of_def strs)
qed


lemma interned_weaken:
  assumes "keeps_texts g g1" "\<And>b. text_of g1 b = text_of g b" "interned g1 new str g' a"
  shows "interned g new str g' a"
  using assms keeps_texts_trans [OF assms(1)] by (auto simp: interned_def)

text \<open>Growing the table before a string enters it.\<close>

lemma grow_ok:
  assumes "strings_ok g"
  shows "\<exists>g1 k cs. grow_strt g = Inr g1 \<and>
    strings_ok g1 \<and> relinked g g1 \<and> k \<le> 30 \<and> table_ok g1 k cs"
proof (cases "tb_size (g_strt g) \<le> tb_nuse (g_strt g) \<and> tb_size (g_strt g) \<le> MAX_INT div 2")
  case True
  obtain k cs where k: "k \<le> 30" "table_ok g k cs" using strings_okD(1) [OF assms] by blast
  have "(2::nat) ^ k < 2 ^ 30" using True table_okD(1) [OF k(2)] by simp
  then have "k < 30" by (simp only: power_strict_increasing_iff)
  then have "\<exists>g1. luaS_resize (2 ^ Suc k) g = Inr g1 \<and> strings_ok g1 \<and> relinked g g1 \<and> tb_size (g_strt g1) = 2 ^ Suc k"
    by (intro resize_keeps [OF assms]) simp
  then obtain g1 where g1: "luaS_resize (tb_size (g_strt g) * 2) g = Inr g1" "strings_ok g1" "relinked g g1"
    using table_okD(1) [OF k(2)] by (auto simp: mult.commute)
  then show ?thesis using True strings_okD(1) [OF g1(2)] by (auto simp: grow_strt_def)
next
  case False
  then show ?thesis using assms strings_okD(1) [OF assms] by (auto simp: grow_strt_def)
qed

lemma internshrstr_ok:
  assumes "strings_ok g" "g_strs g new = None" "length str \<le> 40"
  shows "\<exists>g' a. internshrstr new str g = Inr (g', a) \<and> interned g new str g' a"
proof -
  obtain k cs where k: "k \<le> 30" "table_ok g k cs" using strings_okD(1) [OF assms(1)] by blast
  note t = table_okD [OF k(2)]
  let ?h = "luaS_hash str (g_seed g)"
  let ?j = "lmod ?h (2 ^ k)"
  have b: "get_bucket g ?j = Inr (tb_hash (g_strt g) ! ?j)"
    using get_bucket_at [OF t(3)] t(2) lmod_less by simp
  from find_in_table [OF assms(1) k(2) refl, of str] show ?thesis
  proof (elim disjE exE conjE)
    fix a s
    assume s: "g_strs g a = Some s" "ts_tt s = LUA_TSHRSTR" "ts_chars s = str"
      and f: "find_interned (tb_nuse (g_strt g)) str (tb_hash (g_strt g) ! ?j) g = Inr (Some a)"
    let ?g' = "if isdead g s then put_str g a (changewhite s) else g"
    have run: "internshrstr new str g = Inr (?g', a)"
      using s(1) f by (simp add: internshrstr_def Let_def t(1) b get_str_def)
    have re: "strings_ok ?g' \<and> keeps_texts g ?g' \<and> text_of ?g' b = text_of g b" for b
      using recolour_ok [OF assms(1) s(1) changewhite_def, of b] dead_white [OF strings_okD(4) [OF assms(1)]] assms(1)
      by simp
    have "alive ?g' a"
    proof (cases "isdead g s")
      case True
      then show ?thesis using alive_changed [OF strings_okD(4) [OF assms(1)] True]
        by (simp add: alive_def put_str_def isdead_def otherwhite_def)
    next
      case False
      then show ?thesis using s(1) by (simp add: alive_def)
    qed
    moreover have "text_of g a = Some str" using s by (simp add: text_of_def)
    ultimately have "interned g new str ?g' a" using re unfolding interned_def by metis
    then show ?thesis using run by blast
  next
    assume f: "find_interned (tb_nuse (g_strt g)) str (tb_hash (g_strt g) ! ?j) g = Inr None"
      and fresh: "\<forall>a s. g_strs g a = Some s \<longrightarrow> ts_tt s = LUA_TSHRSTR \<longrightarrow> ts_chars s \<noteq> str"
    obtain g1 k1 cs1 where g1: "grow_strt g = Inr g1"
        "strings_ok g1" "relinked g g1" "k1 \<le> 30" "table_ok g1 k1 cs1"
      using grow_ok [OF assms(1)] by blast
    note t1 = table_okD [OF g1(5)]
    let ?i = "lmod ?h (2 ^ k1)"
    let ?s = "\<lparr>ts_tt = LUA_TSHRSTR, ts_marked = luaC_white g1, ts_shrlen = of_nat (length str), ts_hash = ?h,
      ts_lnglen = 0, ts_hnext = tb_hash (g_strt g1) ! ?i, ts_chars = str\<rparr>"
    let ?g' = "g1\<lparr>g_strs := (g_strs g1)(new \<mapsto> ?s),
      g_strt := (g_strt g1)\<lparr>tb_hash := (tb_hash (g_strt g1))[?i := Some new], tb_nuse := tb_nuse (g_strt g1) + 1\<rparr>\<rparr>"
    have i: "?i < length (tb_hash (g_strt g1))" using lmod_less [of ?h k1] t1(2,3) unfolding lists_def by metis
    have n1: "g_strs g1 new = None" using relinked_text [OF g1(3), of new] assms(2) by (simp add: text_of_def)
    have seed: "g_seed g1 = g_seed g" using g1(3) by (simp add: relinked_def)
    have b1: "get_bucket (createstrobj new str LUA_TSHRSTR ?h g1) ?i = Inr (tb_hash (g_strt g1) ! ?i)"
      using i by (simp add: get_bucket_def createstrobj_def put_str_def)
    have run: "internshrstr new str g = Inr (?g', new)"
      by (simp add: internshrstr_def Let_def t(1) b f g1(1) t1(1) b1)
        (simp add: createstrobj_def get_str_def put_str_def set_bucket_def)
    have "ts_chars u \<noteq> str" if u: "g_strs g1 a = Some u" "ts_tt u = LUA_TSHRSTR" for a u
    proof -
      obtain u' where "g_strs g a = Some u'" "unlinked u = unlinked u'" using relinked_back [OF g1(3) u(1)] by blast
      then show ?thesis using fresh u(2) unlinked_fields [of u u'] by simp
    qed
    then have "interned g1 new (ts_chars ?s) ?g' new"
      using table_ok_insert [OF g1(5) n1, of ?s ?i] n1 g1(4) assms(3)
      by (intro create_ok [OF g1(2) n1, of ?s ?g' k1 "cs1[?i := new # cs1 ! ?i]"])
        (simp_all add: str_ok_def short_fits seed)
    then have "interned g new str ?g' new"
      using interned_weaken [OF relinked_keeps [OF g1(3)] relinked_text [OF g1(3)]] by simp
    then show ?thesis using run by blast
  qed
qed

lemma newlstr_ok:
  assumes "strings_ok g" "g_strs g new = None" "length str < MAX_TSTRING"
  shows "\<exists>g' a. luaS_newlstr new str g = Inr (g', a) \<and> interned g new str g' a"
proof (cases "length str \<le> 40")
  case True
  then show ?thesis using internshrstr_ok [OF assms(1,2)] by (simp add: luaS_newlstr_def)
next
  case False
  let ?s = "\<lparr>ts_tt = LUA_TLNGSTR, ts_marked = luaC_white g, ts_shrlen = 0, ts_hash = g_seed g,
    ts_lnglen = length str, ts_hnext = None, ts_chars = str\<rparr>"
  have "interned g new (ts_chars ?s) (put_str g new ?s) new"
    using False by (intro create_ok [OF assms(1,2), of ?s _ 0 "[]"]) (simp_all add: str_ok_def put_str_def)
  moreover have "luaS_newlstr new str g = Inr (put_str g new ?s, new)"
    using False assms(3)
    by (simp add: luaS_newlstr_def Let_def createstrobj_def get_str_def put_str_def luaC_white_def)
  ultimately show ?thesis by simp
qed


section \<open>Removal\<close>

lemma remove_chain_eq:
  assumes "path (g_strs g) p (as @ ts # bs)" "ts \<notin> set as" "length as < fuel"
    and "\<And>b. prev = Some b \<Longrightarrow> g_strs g b \<noteq> None"
  shows "remove_chain fuel ts i prev p g =
    (case (if as = [] then prev else Some (last as)) of
       None \<Rightarrow> Inr (set_bucket g i (ts_hnext (the (g_strs g ts))))
     | Some b \<Rightarrow> Inr (put_str g b ((the (g_strs g b))\<lparr>ts_hnext := ts_hnext (the (g_strs g ts))\<rparr>)))"
  using assms
proof (induction as arbitrary: p prev fuel)
  case Nil
  then show ?case by (cases fuel) (auto simp: get_str_def split: option.splits)
next
  case (Cons a as)
  then obtain s d where s: "p = Some a" "g_strs g a = Some s" "path (g_strs g) (ts_hnext s) (as @ ts # bs)"
      "fuel = Suc d" "a \<noteq> ts"
    by (cases fuel) auto
  then have "remove_chain fuel ts i prev p g = remove_chain d ts i (Some a) (ts_hnext s) g"
    by (simp add: get_str_def)
  moreover have "remove_chain d ts i (Some a) (ts_hnext s) g =
    (case (if as = [] then Some a else Some (last as)) of
       None \<Rightarrow> Inr (set_bucket g i (ts_hnext (the (g_strs g ts))))
     | Some b \<Rightarrow> Inr (put_str g b ((the (g_strs g b))\<lparr>ts_hnext := ts_hnext (the (g_strs g ts))\<rparr>)))"
    using Cons.prems s by (intro Cons.IH) auto
  ultimately show ?case by (simp split: if_splits)
qed

lemma path_forget: "a \<notin> set as \<Longrightarrow> path (h(a := None)) p as \<longleftrightarrow> path h p as"
  by (rule path_cong) auto

lemma path_unlink:
  assumes "path h p (as @ ts # bs)" "distinct (as @ ts # bs)" "as \<noteq> []" "h (last as) = Some t" "h ts = Some s"
  shows "path (h(last as \<mapsto> t\<lparr>ts_hnext := ts_hnext s\<rparr>)) p (as @ bs)"
  using assms
proof (induction as arbitrary: p)
  case (Cons a as)
  show ?case
  proof (cases "as = []")
    case True
    then have "h a = Some t" "p = Some a" "path h (ts_hnext s) bs" "a \<notin> set bs"
      using Cons.prems by auto
    moreover from this have "path (h(a \<mapsto> t\<lparr>ts_hnext := ts_hnext s\<rparr>)) (ts_hnext s) bs"
      by (simp only: path_update not_False_eq_True)
    ultimately show ?thesis using True by (simp del: fun_upd_apply add: fun_upd_same)
  next
    case False
    then have "a \<noteq> last as" using Cons.prems(2) by auto
    then show ?thesis using Cons False by auto
  qed
qed simp

text \<open>
  Removing an object from its list: \<open>h\<close> is the store with the new link and without the object,
  \<open>p\<close> the new start of the list.
\<close>

definition without :: "strings \<Rightarrow> nat \<Rightarrow> nat \<Rightarrow> (nat \<Rightarrow> strobj option) \<Rightarrow> nat option \<Rightarrow> strings" where
  "without g ts i h p = g\<lparr>g_strs := h, g_strt := (g_strt g)
     \<lparr>tb_hash := (tb_hash (g_strt g))[i := p], tb_nuse := tb_nuse (g_strt g) - 1\<rparr>\<rparr>"

lemma table_ok_without:
  assumes "table_ok g k cs" "i < 2 ^ k" "cs ! i = as @ ts # bs" "path h p (as @ bs)"
    "\<And>a. a \<notin> set as \<Longrightarrow> a \<noteq> ts \<Longrightarrow> h a = g_strs g a" "h ts = None"
    "\<And>a. a \<noteq> ts \<Longrightarrow> map_option unlinked (h a) = map_option unlinked (g_strs g a)"
  shows "table_ok (without g ts i h p) k (cs[i := as @ bs])"
proof -
  let ?g = "without g ts i h p" and ?cs = "cs[i := as @ bs]"
  note t = table_okD [OF assms(1)]
  have i: "i < length cs" using t(2) assms(2) by simp
  have ms: "mset (ts # concat ?cs) = mset (concat cs)"
    using mset_concat_update [OF i, of "as @ bs"] assms(3) by simp
  then have d: "distinct (ts # concat ?cs)" using t(4) mset_eq_imp_distinct_iff by blast
  have out: "a \<notin> set (cs ! i)" if "j < length cs" "j \<noteq> i" "a \<in> set (cs ! j)" for j a
    using t(7) [of i a] t(7) [of j a] that t(2) assms(2) by auto
  have "path h (tb_hash (g_strt g) ! j) (cs ! j)" if "j < length cs" "j \<noteq> i" for j
  proof -
    have "path (g_strs g) (tb_hash (g_strt g) ! j) (cs ! j)" using t(3) that(1) by (simp add: lists_def)
    moreover have "h a = g_strs g a" if "a \<in> set (cs ! j)" for a
      using out [OF \<open>j < length cs\<close> \<open>j \<noteq> i\<close> that] assms(3) by (intro assms(5)) auto
    ultimately show ?thesis using path_cong [of "cs ! j" h "g_strs g"] by blast
  qed
  then have "lists ?g ?cs" using t(3) i assms(4) by (auto simp: lists_def without_def nth_list_update)
  moreover have "set (concat ?cs) = short_strs ?g"
  proof -
    have iff: "a \<in> short_strs ?g \<longleftrightarrow> a \<in> short_strs g" if "a \<noteq> ts" for a
    proof -
      have "map_option ts_tt (map_option unlinked (h a)) = map_option ts_tt (map_option unlinked (g_strs g a))"
        using assms(7) [OF that] by simp
      then have "map_option ts_tt (h a) = map_option ts_tt (g_strs g a)"
        by (simp add: option.map_comp comp_def unlinked_def)
      then show ?thesis by (cases "h a"; cases "g_strs g a") (auto simp: short_strs_def without_def)
    qed
    have out: "ts \<notin> short_strs ?g" using assms(6) by (simp add: short_strs_def without_def)
    have "short_strs ?g = short_strs g - {ts}"
    proof (rule set_eqI)
      show "a \<in> short_strs ?g \<longleftrightarrow> a \<in> short_strs g - {ts}" for a using iff [of a] out by (cases "a = ts") simp_all
    qed
    moreover have "insert ts (set (concat ?cs)) = short_strs g" using ms t(5) by (metis list.set(2) mset_eq_setD)
    moreover have "ts \<notin> set (concat ?cs)" using d by simp
    ultimately show ?thesis by (metis Diff_insert_absorb)
  qed
  moreover have "tb_nuse (g_strt ?g) = length (concat ?cs)"
    using mset_eq_length [OF ms] t(6) by (simp add: without_def)
  moreover have "lmod (hash_of ?g a) (2 ^ k) = j" if j: "j < 2 ^ k" and a: "a \<in> set (?cs ! j)" for j a
  proof -
    have "a \<in> set (concat ?cs)" using a j t(2) set_nth_concat [of j ?cs] by auto
    then have "a \<noteq> ts" using d by auto
    then have "map_option ts_hash (map_option unlinked (h a)) = map_option ts_hash (map_option unlinked (g_strs g a))"
      using assms(7) by simp
    then have "map_option ts_hash (h a) = map_option ts_hash (g_strs g a)"
      by (simp add: option.map_comp comp_def unlinked_def)
    then have "hash_of ?g a = hash_of g a"
      by (cases "h a"; cases "g_strs g a") (simp_all add: hash_of_def without_def)
    moreover have "a \<in> set (cs ! j)" using a assms(3) i by (cases "j = i") auto
    ultimately show ?thesis using t(7) [OF j] by simp
  qed
  ultimately show ?thesis using t(1,2) d by (simp add: table_ok_def del: set_concat length_concat)
    (simp add: without_def)
qed

lemma luaS_remove_eq:
  assumes "table_ok g k cs" "g_strs g ts = Some s" "ts_tt s = LUA_TSHRSTR"
  shows "\<exists>i h p as bs. luaS_remove ts g = Inr (without g ts i h p) \<and> i < 2 ^ k \<and> cs ! i = as @ ts # bs \<and>
    path (h(ts := None)) p (as @ bs) \<and> (\<forall>a. a \<notin> set as \<longrightarrow> h a = g_strs g a) \<and>
    (\<forall>a. map_option unlinked (h a) = map_option unlinked (g_strs g a))"
proof -
  note t = table_okD [OF assms(1)]
  let ?i = "lmod (ts_hash s) (2 ^ k)"
  have i: "?i < 2 ^ k" by (rule lmod_less)
  have "ts \<in> set (concat cs)" using t(5) assms(2,3) by (auto simp: short_strs_def)
  then obtain j where j: "j < length cs" "ts \<in> set (cs ! j)" by (metis UN_iff in_set_conv_nth set_concat)
  then have "?i = j" using t(7) [of j ts] t(2) assms(2) by (simp add: hash_of_def)
  then have "ts \<in> set (cs ! ?i)" using j(2) by simp
  then obtain as bs where split: "cs ! ?i = as @ ts # bs" "ts \<notin> set as" by (metis split_list_first)
  have p: "path (g_strs g) (tb_hash (g_strt g) ! ?i) (as @ ts # bs)"
    using t(2,3) i by (auto simp: lists_def simp flip: split(1))
  have d: "distinct (as @ ts # bs)"
    using t(2,4) i split(1) by (metis distinct_concat_iff in_set_conv_nth)
  have "length as < tb_nuse (g_strt g)" using length_concat_nth [of ?i cs] t(2,6) i split(1) by simp
  then have run: "remove_chain (tb_nuse (g_strt g)) ts ?i None (tb_hash (g_strt g) ! ?i) g =
      (if as = [] then Inr (set_bucket g ?i (ts_hnext s))
       else Inr (put_str g (last as) ((the (g_strs g (last as)))\<lparr>ts_hnext := ts_hnext s\<rparr>)))"
    using remove_chain_eq [OF p split(2), of "tb_nuse (g_strt g)" None ?i] assms(2) by simp
  have b: "get_bucket g ?i = Inr (tb_hash (g_strt g) ! ?i)" using get_bucket_at [OF t(3)] t(2) i by simp
  show ?thesis
  proof (cases "as = []")
    case True
    have "luaS_remove ts g = Inr (without g ts ?i (g_strs g) (ts_hnext s))"
      using True by (simp add: luaS_remove_def Let_def t(1) b run get_str_def assms(2) set_bucket_def without_def)
    moreover have "path ((g_strs g)(ts := None)) (ts_hnext s) (as @ bs)"
      using p d True assms(2) by (auto simp: path_forget simp del: fun_upd_apply)
    ultimately show ?thesis using i split by (intro exI conjI) auto
  next
    case False
    obtain l where l: "g_strs g (last as) = Some l" using path_known [OF p, of "last as"] False by auto
    let ?h = "(g_strs g)(last as \<mapsto> l\<lparr>ts_hnext := ts_hnext s\<rparr>)"
    have "path ?h (tb_hash (g_strt g) ! ?i) (as @ bs)" by (rule path_unlink [OF p d False l assms(2)])
    then have "path (?h(ts := None)) (tb_hash (g_strt g) ! ?i) (as @ bs)"
      using d by (subst path_forget) auto
    moreover have "luaS_remove ts g = Inr (without g ts ?i ?h (tb_hash (g_strt g) ! ?i))"
      using False l by (simp add: luaS_remove_def Let_def t(1) b run get_str_def assms(2) put_str_def without_def)
    moreover have "map_option unlinked (?h a) = map_option unlinked (g_strs g a)" for a
      using l by (simp add: unlinked_def)
    moreover have "?h a = g_strs g a" if "a \<notin> set as" for a using that False by auto
    ultimately show ?thesis using i split by (intro exI conjI) auto
  qed
qed

text \<open>Freeing an object, after it was removed from the table.\<close>

lemma strings_ok_without:
  assumes "strings_ok g" "\<exists>k cs. k \<le> 30 \<and> table_ok g' k cs" "g_strs g' ts = None"
    "\<And>a. a \<noteq> ts \<Longrightarrow> map_option unlinked (g_strs g' a) = map_option unlinked (g_strs g a)"
    "g_seed g' = g_seed g" "g_currentwhite g' = g_currentwhite g"
  shows "strings_ok g' \<and> (\<forall>a. text_of g' a = (if a = ts then None else text_of g a))"
proof -
  have old: "\<exists>u'. g_strs g a = Some u' \<and> unlinked u = unlinked u'" if u: "g_strs g' a = Some u" for a u
  proof -
    have "a \<noteq> ts" using u assms(3) by auto
    then have "map_option unlinked (g_strs g a) = Some (unlinked u)" using assms(4) u by (metis option.simps(9))
    then show ?thesis by auto
  qed
  have "str_ok (g_seed g') u" if u: "g_strs g' a = Some u" for a u
    using old [OF u] strings_okD(2) [OF assms(1)] unlinked_ok assms(5) by metis
  moreover have "a = b" if ab: "g_strs g' a = Some u" "g_strs g' b = Some v" "ts_tt u = LUA_TSHRSTR"
      "ts_tt v = LUA_TSHRSTR" "ts_chars u = ts_chars v" for a b u v
  proof -
    obtain u' v' where uv: "g_strs g a = Some u'" "unlinked u = unlinked u'" "g_strs g b = Some v'" "unlinked v = unlinked v'"
      using old [OF ab(1)] old [OF ab(2)] by blast
    show ?thesis using strings_okD(3) [OF assms(1) uv(1,3)] ab unlinked_fields [OF uv(2)] unlinked_fields [OF uv(4)]
      by simp
  qed
  ultimately have "strings_ok g'" using assms(2,6) strings_okD(4) [OF assms(1)] unfolding strings_ok_def by simp
  moreover have "text_of g' a = text_of g a" if "a \<noteq> ts" for a
  proof -
    have "map_option ts_chars (map_option unlinked (g_strs g' a)) = map_option ts_chars (map_option unlinked (g_strs g a))"
      using assms(4) [OF that] by simp
    then show ?thesis by (simp add: text_of_def option.map_comp comp_def unlinked_def)
  qed
  ultimately show ?thesis using assms(3) by (auto simp: text_of_def)
qed

lemma free_str_ok:
  assumes "strings_ok g" "g_strs g ts = Some s"
  shows "\<exists>g'. free_str ts g = Inr g' \<and> strings_ok g' \<and> (\<forall>a. text_of g' a = (if a = ts then None else text_of g a)) \<and>
    g_strcache g' = g_strcache g"
proof -
  obtain k cs where k: "k \<le> 30" "table_ok g k cs" using strings_okD(1) [OF assms(1)] by blast
  note t = table_okD [OF k(2)]
  show ?thesis
  proof (cases "ts_tt s")
    case LUA_TLNGSTR
    let ?g = "g\<lparr>g_strs := (g_strs g)(ts := None)\<rparr>"
    have "ts \<notin> set (concat cs)" using t(5) assms(2) LUA_TLNGSTR by (auto simp: short_strs_def)
    then have nj: "ts \<notin> set (cs ! j)" if "j < length cs" for j using set_nth_concat [OF that] by blast
    have "lists ?g cs" using t(3) nj by (auto simp: lists_def path_forget simp del: fun_upd_apply)
    moreover have "short_strs ?g = short_strs g" using assms(2) LUA_TLNGSTR by (auto simp: short_strs_def)
    moreover have "lmod (hash_of ?g a) (2 ^ k) = j" if "j < 2 ^ k" "a \<in> set (cs ! j)" for j a
      using t(2,7) that nj [of j] by (auto simp: hash_of_def)
    ultimately have "table_ok ?g k cs" using t by (simp add: table_ok_def del: set_concat length_concat)
    then have "strings_ok ?g \<and> (\<forall>a. text_of ?g a = (if a = ts then None else text_of g a))"
      using k(1) by (intro strings_ok_without [OF assms(1)]) auto
    moreover have "free_str ts g = Inr ?g" using assms(2) LUA_TLNGSTR by (simp add: free_str_def get_str_def)
    ultimately show ?thesis by auto
  next
    case LUA_TSHRSTR
    obtain i h p as bs where r: "luaS_remove ts g = Inr (without g ts i h p)" "i < 2 ^ k" "cs ! i = as @ ts # bs"
        "path (h(ts := None)) p (as @ bs)" "\<And>a. a \<notin> set as \<Longrightarrow> h a = g_strs g a"
        "\<And>a. map_option unlinked (h a) = map_option unlinked (g_strs g a)"
      using luaS_remove_eq [OF k(2) assms(2) LUA_TSHRSTR] by blast
    let ?g = "without g ts i (h(ts := None)) p"
    have "table_ok ?g k (cs[i := as @ bs])"
      using r by (intro table_ok_without [OF k(2)]) auto
    then have "strings_ok ?g \<and> (\<forall>a. text_of ?g a = (if a = ts then None else text_of g a))"
      using k(1) r(6) by (intro strings_ok_without [OF assms(1)]) (auto simp: without_def)
    moreover have "free_str ts g = Inr ?g"
      using assms(2) LUA_TSHRSTR r(1) by (simp add: free_str_def get_str_def) (simp add: without_def)
    moreover have "g_strcache ?g = g_strcache g" by (simp add: without_def)
    ultimately show ?thesis by blast
  qed
qed

section \<open>Equality\<close>

lemma equal_strings_text:
  assumes "strings_ok g" "text_of g a = Some x" "text_of g b = Some y"
  shows "equal_strings g a b = Inr (x = y)"
proof -
  obtain s t where st: "g_strs g a = Some s" "g_strs g b = Some t" "x = ts_chars s" "y = ts_chars t"
    using assms(2,3) by (auto simp: text_of_def)
  have ok: "str_ok (g_seed g) s" "str_ok (g_seed g) t" using strings_okD(2) [OF assms(1)] st by blast+
  show ?thesis
  proof (cases "ts_tt s = ts_tt t")
    case False
    then have "length x \<noteq> length y" using ok st(3,4) by (auto simp: str_ok_def split: strtag.splits)
    then show ?thesis using False st by (auto simp: equal_strings_def get_str_def)
  next
    case True
    show ?thesis
    proof (cases "ts_tt s")
      case LUA_TSHRSTR
      have "a = b \<longleftrightarrow> x = y"
        using strings_okD(3) [OF assms(1) st(1,2)] LUA_TSHRSTR True st by auto
      then show ?thesis using True LUA_TSHRSTR st by (simp add: equal_strings_def get_str_def)
    next
      case LUA_TLNGSTR
      then have l: "ts_lnglen s = length x" "ts_lnglen t = length y" using ok True st by (simp_all add: str_ok_def)
      have "(a = b \<or> length x = length y \<and> take (length x) x = take (length x) y) \<longleftrightarrow> x = y"
        using st by auto
      then show ?thesis using True LUA_TLNGSTR st l
        by (simp add: equal_strings_def get_str_def luaS_eqlngstr_def)
    qed
  qed
qed


section \<open>Pools of strings\<close>

text \<open>The contract: new strings keep the old ones, and the comparison of objects is that of texts.\<close>

fun mk_all :: "(nat \<Rightarrow> string \<Rightarrow> 's \<Rightarrow> ('s \<times> nat) res) \<Rightarrow> (nat \<times> string) list \<Rightarrow> 's \<Rightarrow> ('s \<times> nat list) res" where
  "mk_all mk [] s = Inr (s, [])"
| "mk_all mk ((new, str) # xs) s =
     ebind (mk new str s) (\<lambda>(s, a). ebind (mk_all mk xs s) (\<lambda>(s, as). Inr (s, a # as)))"

locale string_pool =
  fixes mk :: "nat \<Rightarrow> string \<Rightarrow> 's \<Rightarrow> ('s \<times> nat) res"
    and content :: "'s \<Rightarrow> nat \<Rightarrow> string option"
    and good :: "'s \<Rightarrow> bool"
    and same :: "'s \<Rightarrow> nat \<Rightarrow> nat \<Rightarrow> bool res"
    and limit :: nat
  assumes mk: "good s \<Longrightarrow> content s new = None \<Longrightarrow> length str < limit \<Longrightarrow>
      \<exists>s' a. mk new str s = Inr (s', a) \<and> good s' \<and> content s' a = Some str \<and>
        (\<forall>b. content s b \<noteq> None \<longrightarrow> content s' b = content s b) \<and>
        (\<forall>b. content s' b \<noteq> None \<longrightarrow> content s b \<noteq> None \<or> b = new)"
    and same: "good s \<Longrightarrow> content s a = Some x \<Longrightarrow> content s b = Some y \<Longrightarrow> same s a b = Inr (x = y)"
begin

lemma mk_all_ok:
  assumes "good s" "distinct (map fst xs)" "\<forall>(new, str) \<in> set xs. content s new = None \<and> length str < limit"
  shows "\<exists>s' as. mk_all mk xs s = Inr (s', as) \<and> good s' \<and>
    (\<forall>b. content s b \<noteq> None \<longrightarrow> content s' b = content s b) \<and>
    length as = length xs \<and> (\<forall>i < length xs. content s' (as ! i) = Some (snd (xs ! i)))"
  using assms
proof (induction xs arbitrary: s)
  case (Cons x xs)
  obtain new str where x: "x = (new, str)" by (cases x)
  obtain s1 a where s1: "mk new str s = Inr (s1, a)" "good s1" "content s1 a = Some str"
      "\<forall>b. content s b \<noteq> None \<longrightarrow> content s1 b = content s b" "\<forall>b. content s1 b \<noteq> None \<longrightarrow> content s b \<noteq> None \<or> b = new"
    using mk [OF Cons.prems(1), of new str] Cons.prems(3) x by auto
  have "\<forall>(n, t) \<in> set xs. content s1 n = None \<and> length t < limit"
  proof (clarify)
    fix n t
    assume nt: "(n, t) \<in> set xs"
    then have "n \<noteq> new" using Cons.prems(2) x by force
    moreover have "content s n = None \<and> length t < limit" using Cons.prems(3) nt by auto
    ultimately show "content s1 n = None \<and> length t < limit" using s1(5) by blast
  qed
  then obtain s' as where s': "mk_all mk xs s1 = Inr (s', as)" "good s'"
      "\<forall>b. content s1 b \<noteq> None \<longrightarrow> content s' b = content s1 b" "length as = length xs"
      "\<forall>i < length xs. content s' (as ! i) = Some (snd (xs ! i))"
    using Cons.IH [OF s1(2)] Cons.prems(2) by auto
  have "content s' ((a # as) ! i) = Some (snd ((x # xs) ! i))" if "i < length (x # xs)" for i
    using that s'(3,5) s1(3) x by (cases i) auto
  moreover have "\<forall>b. content s b \<noteq> None \<longrightarrow> content s' b = content s b" using s1(4) s'(3) by metis
  ultimately show ?case using s1(1) s'(1,2,4) x by auto
qed simp

lemma objects_compare_texts:
  assumes "good s" "distinct (map fst xs)" "\<forall>(new, str) \<in> set xs. content s new = None \<and> length str < limit"
  shows "\<exists>s' as. mk_all mk xs s = Inr (s', as) \<and> good s' \<and> length as = length xs \<and>
    (\<forall>i < length xs. content s' (as ! i) = Some (snd (xs ! i))) \<and>
    (\<forall>i < length xs. \<forall>j < length xs. same s' (as ! i) (as ! j) = Inr (snd (xs ! i) = snd (xs ! j)))"
proof -
  obtain s' as where r: "mk_all mk xs s = Inr (s', as)" "good s'" "length as = length xs"
      "\<forall>i < length xs. content s' (as ! i) = Some (snd (xs ! i))"
    using mk_all_ok [OF assms] by blast
  have "same s' (as ! i) (as ! j) = Inr (snd (xs ! i) = snd (xs ! j))" if "i < length xs" "j < length xs" for i j
    using same [OF r(2)] r(4) that by simp
  then show ?thesis using r by blast
qed

end

interpretation strtab: string_pool luaS_newlstr text_of strings_ok equal_strings MAX_TSTRING
proof
  show "\<exists>s' a. luaS_newlstr new str s = Inr (s', a) \<and> strings_ok s' \<and> text_of s' a = Some str \<and>
      (\<forall>b. text_of s b \<noteq> None \<longrightarrow> text_of s' b = text_of s b) \<and>
      (\<forall>b. text_of s' b \<noteq> None \<longrightarrow> text_of s b \<noteq> None \<or> b = new)"
    if st: "strings_ok s" "text_of s new = None" "length str < MAX_TSTRING" for s new str
  proof -
    have "g_strs s new = None" using st(2) by (simp add: text_of_def)
    then obtain s' a where r: "luaS_newlstr new str s = Inr (s', a)" "interned s new str s' a"
      using newlstr_ok [OF st(1) _ st(3)] by blast
    have "text_of s' b \<noteq> None \<longrightarrow> text_of s b \<noteq> None \<or> b = new" for b
      using r(2) unfolding interned_def by (metis option.distinct(1))
    then show ?thesis using r unfolding interned_def keeps_texts_def by blast
  qed
  show "equal_strings s a b = Inr (x = y)"
    if "strings_ok s" "text_of s a = Some x" "text_of s b = Some y" for s a b x y
    by (rule equal_strings_text [OF that])
qed

lemma short_object_unique:
  assumes "strings_ok g" "text_of g a = Some x" "text_of g b = Some x" "length x \<le> 40"
  shows "a = b"
proof -
  obtain s t where st: "g_strs g a = Some s" "g_strs g b = Some t" "ts_chars s = x" "ts_chars t = x"
    using assms(2,3) by (auto simp: text_of_def)
  have "ts_tt u = LUA_TSHRSTR" if "g_strs g c = Some u" "ts_chars u = x" for c u
    using strings_okD(2) [OF assms(1) that(1)] that(2) assms(4) by (cases "ts_tt u") (auto simp: str_ok_def)
  then show ?thesis using strings_okD(3) [OF assms(1) st(1,2)] st by simp
qed

text \<open>C6:
  Strings created one after another in a consistent state, at any unused addresses: each keeps its
  text, two objects compare equal exactly if the texts are equal, and a text of at most 40
  characters has one object only, so that comparing addresses is enough for short strings.
\<close>

theorem strings_interned:
  assumes "strings_ok g" "distinct (map fst xs)"
    "\<forall>(new, str) \<in> set xs. g_strs g new = None \<and> length str < MAX_TSTRING"
  shows "\<exists>g' as. mk_all luaS_newlstr xs g = Inr (g', as) \<and> strings_ok g' \<and> length as = length xs \<and>
    (\<forall>i < length xs. text_of g' (as ! i) = Some (snd (xs ! i))) \<and>
    (\<forall>i < length xs. \<forall>j < length xs. equal_strings g' (as ! i) (as ! j) = Inr (snd (xs ! i) = snd (xs ! j)) \<and>
      (length (snd (xs ! i)) \<le> 40 \<longrightarrow> (as ! i = as ! j) = (snd (xs ! i) = snd (xs ! j))))"
proof -
  have "\<forall>(new, str) \<in> set xs. text_of g new = None \<and> length str < MAX_TSTRING"
    using assms(3) by (auto simp: text_of_def)
  then obtain g' as where r: "mk_all luaS_newlstr xs g = Inr (g', as)" "strings_ok g'" "length as = length xs"
      "\<forall>i < length xs. text_of g' (as ! i) = Some (snd (xs ! i))"
      "\<forall>i < length xs. \<forall>j < length xs. equal_strings g' (as ! i) (as ! j) = Inr (snd (xs ! i) = snd (xs ! j))"
    using strtab.objects_compare_texts [OF assms(1,2)] by blast
  have "as ! i = as ! j \<longleftrightarrow> snd (xs ! i) = snd (xs ! j)"
    if "i < length xs" "j < length xs" "length (snd (xs ! i)) \<le> 40" for i j
    using r(4) that short_object_unique [OF r(2), of "as ! i" _ "as ! j"] by (metis option.inject)
  then show ?thesis using r by blast
qed


text \<open>A consistent state with no strings, and one bucket.\<close>

definition no_strings :: strings where
  "no_strings = \<lparr>g_strs = \<lambda>a. None, g_strt = \<lparr>tb_hash = [None], tb_nuse = 0, tb_size = 1\<rparr>, g_seed = 7,
     g_currentwhite = 1, g_strcache = [], g_memerrmsg = 0\<rparr>"

lemma no_strings_ok: "strings_ok no_strings"
proof -
  have "table_ok no_strings 0 [[]]" by (simp add: table_ok_def lists_def no_strings_def short_strs_def)
  then show ?thesis unfolding strings_ok_def by (simp add: no_strings_def) (metis zero_le)
qed

lemma strings_interned_witness:
  "\<exists>g' as. mk_all luaS_newlstr [(4, ''a''), (5, ''b''), (6, ''a'')] no_strings = Inr (g', as) \<and> as ! 0 = as ! 2 \<and> as ! 0 \<noteq> as ! 1"
proof -
  let ?xs = "[(4 :: nat, ''a''), (5, ''b''), (6, ''a'')]"
  have "\<forall>(new, str) \<in> set ?xs. g_strs no_strings new = None \<and> length str < MAX_TSTRING"
    by (simp add: no_strings_def MAX_TSTRING_def)
  then obtain g' as where r: "mk_all luaS_newlstr ?xs no_strings = Inr (g', as)"
      "\<forall>i < length ?xs. \<forall>j < length ?xs. (length (snd (?xs ! i)) \<le> 40 \<longrightarrow> (as ! i = as ! j) = (snd (?xs ! i) = snd (?xs ! j)))"
    using strings_interned [OF no_strings_ok, of ?xs] by auto
  have "as ! 0 = as ! 2" using r(2) [rule_format, of 0 2] by simp
  moreover have "as ! 0 \<noteq> as ! 1" using r(2) [rule_format, of 0 1] by simp
  ultimately show ?thesis using r(1) by blast
qed

section \<open>Start and cache\<close>

lemma resize_from_nothing:
  assumes "g_strs g = (\<lambda>a. None)" "tb_hash (g_strt g) = []" "tb_nuse (g_strt g) = 0" "tb_size (g_strt g) = 0"
  shows "luaS_resize n g = Inr (g\<lparr>g_strt := \<lparr>tb_hash = replicate n None, tb_nuse = 0, tb_size = n\<rparr>\<rparr>)"
  using assms by (cases "g_strt g") (simp add: luaS_resize_def Let_def)

definition cache_ok :: "strings \<Rightarrow> bool" where
  "cache_ok g \<longleftrightarrow> length (g_strcache g) = STRCACHE_SIZE \<and>
     (\<forall>a \<in> set (g_strcache g). \<exists>s. text_of g a = Some s \<and> CHR 0x00 \<notin> set s) \<and>
     (\<exists>s. g_strs g (g_memerrmsg g) = Some s \<and> ts_chars s = MEMERRMSG \<and> \<not> iswhite s)"

lemma takeWhile_no_zero: "c \<notin> set s \<Longrightarrow> takeWhile (\<lambda>x. x \<noteq> c) s = s"
  by (auto simp: takeWhile_eq_all_conv)

text \<open>C31:
  Every operation keeps the string table consistent: creating a string (which may double the table),
  freeing one, and a resize to any power of 2 up to \<open>2 ^ 30\<close>, in place and in either direction.  The
  texts of all other objects stay as they are.
\<close>

theorem strtab_consistent:
  assumes "strings_ok g"
  shows "(m \<le> 30 \<longrightarrow> (\<exists>g'. luaS_resize (2 ^ m) g = Inr g' \<and> strings_ok g' \<and> tb_size (g_strt g') = 2 ^ m \<and>
      (\<forall>a. text_of g' a = text_of g a))) \<and>
    (g_strs g new = None \<and> length str < MAX_TSTRING \<longrightarrow> (\<exists>g' a. luaS_newlstr new str g = Inr (g', a) \<and>
      strings_ok g' \<and> alive g' a \<and> (\<forall>b. text_of g' b = (if b = a then Some str else text_of g b)))) \<and>
    (g_strs g c \<noteq> None \<longrightarrow> (\<exists>g'. free_str c g = Inr g' \<and> strings_ok g' \<and>
      (\<forall>b. text_of g' b = (if b = c then None else text_of g b))))"
proof (intro conjI)
  show "m \<le> 30 \<longrightarrow> (\<exists>g'. luaS_resize (2 ^ m) g = Inr g' \<and> strings_ok g' \<and> tb_size (g_strt g') = 2 ^ m \<and>
      (\<forall>a. text_of g' a = text_of g a))"
  proof
    assume "m \<le> 30"
    then show "\<exists>g'. luaS_resize (2 ^ m) g = Inr g' \<and> strings_ok g' \<and> tb_size (g_strt g') = 2 ^ m \<and>
      (\<forall>a. text_of g' a = text_of g a)"
      using resize_keeps [OF assms] relinked_text by blast
  qed
  show "g_strs g new = None \<and> length str < MAX_TSTRING \<longrightarrow> (\<exists>g' a. luaS_newlstr new str g = Inr (g', a) \<and>
      strings_ok g' \<and> alive g' a \<and> (\<forall>b. text_of g' b = (if b = a then Some str else text_of g b)))"
  proof
    assume n: "g_strs g new = None \<and> length str < MAX_TSTRING"
    then obtain g' a where r: "luaS_newlstr new str g = Inr (g', a)" "interned g new str g' a"
      using newlstr_ok [OF assms] by blast
    have "text_of g' b = (if b = a then Some str else text_of g b)" for b
    proof (cases "b = a")
      case False
      then show ?thesis using r(2) unfolding interned_def keeps_texts_def by (cases "text_of g b") auto
    qed (use r(2) in \<open>simp add: interned_def\<close>)
    then show "\<exists>g' a. luaS_newlstr new str g = Inr (g', a) \<and> strings_ok g' \<and> alive g' a \<and>
        (\<forall>b. text_of g' b = (if b = a then Some str else text_of g b))"
      using r unfolding interned_def by blast
  qed
  show "g_strs g c \<noteq> None \<longrightarrow> (\<exists>g'. free_str c g = Inr g' \<and> strings_ok g' \<and>
      (\<forall>b. text_of g' b = (if b = c then None else text_of g b)))"
    using free_str_ok [OF assms] by blast
qed

lemma strtab_consistent_witness:
  "\<exists>g'. luaS_resize (2 ^ 7) no_strings = Inr g' \<and> strings_ok g'"
  using strtab_consistent [OF no_strings_ok, of 7 0 "''a''" 0] by auto

text \<open>
  \<open>luaS_new\<close>: a hit returns an object with the text of the C string, as a miss does.
\<close>

lemma luaS_new_ok:
  assumes "strings_ok g" "cache_ok g" "g_strs g new = None" "CHR 0x00 \<notin> set str" "length str < MAX_TSTRING"
  shows "\<exists>g' a. luaS_new new p str g = Inr (g', a) \<and> strings_ok g' \<and> cache_ok g' \<and> text_of g' a = Some str \<and>
    (\<forall>b. text_of g b \<noteq> None \<longrightarrow> text_of g' b = text_of g b)"
proof -
  let ?i = "point2uint p mod STRCACHE_SIZE"
  have i: "?i < length (g_strcache g)" using assms(2) by (simp add: cache_ok_def STRCACHE_SIZE_def)
  then have "g_strcache g ! ?i \<in> set (g_strcache g)" by (rule nth_mem)
  then obtain s where s: "text_of g (g_strcache g ! ?i) = Some s" "CHR 0x00 \<notin> set s"
    using assms(2) unfolding cache_ok_def by blast
  then obtain c where c: "g_strs g (g_strcache g ! ?i) = Some c" "ts_chars c = s" by (auto simp: text_of_def)
  show ?thesis
  proof (cases "s = str")
    case True
    then have "luaS_new new p str g = Inr (g, g_strcache g ! ?i)"
      using i c s(2) by (simp add: luaS_new_def Let_def get_str_def takeWhile_no_zero)
    then show ?thesis using assms(1,2) s True by blast
  next
    case False
    obtain g1 a where g1: "luaS_newlstr new str g = Inr (g1, a)" "interned g new str g1 a"
      using newlstr_ok [OF assms(1,3,5)] by blast
    let ?g = "g1\<lparr>g_strcache := (g_strcache g)[?i := a]\<rparr>"
    have k: "strings_ok g1" "keeps_texts g g1" "text_of g1 a = Some str" using g1(2) by (simp_all add: interned_def)
    have "luaS_new new p str g = Inr (?g, a)"
      using i c s(2) False g1(1) k(2) by (simp add: luaS_new_def Let_def get_str_def takeWhile_no_zero keeps_texts_def)
    moreover have "strings_ok ?g"
    proof -
      have "table_ok ?g k cs \<longleftrightarrow> table_ok g1 k cs" for k cs
        by (simp add: table_ok_def lists_def short_strs_def hash_of_def)
      then show ?thesis using k(1) by (simp add: strings_ok_def)
    qed
    moreover have "cache_ok ?g"
    proof -
      have "\<exists>s. text_of ?g b = Some s \<and> CHR 0x00 \<notin> set s" if "b \<in> set ((g_strcache g)[?i := a])" for b
      proof -
        have "b = a \<or> b \<in> set (g_strcache g)" using that set_update_subset_insert by fastforce
        then have "\<exists>s. text_of g1 b = Some s \<and> CHR 0x00 \<notin> set s"
        proof
          assume "b \<in> set (g_strcache g)"
          then obtain s where "text_of g b = Some s" "CHR 0x00 \<notin> set s" using assms(2) by (auto simp: cache_ok_def)
          then show ?thesis using k(2) by (auto simp: keeps_texts_def)
        qed (use k(3) assms(4) in auto)
        then show ?thesis by (simp add: text_of_def)
      qed
      moreover have "\<exists>s. g_strs g1 (g_memerrmsg g1) = Some s \<and> ts_chars s = MEMERRMSG \<and> \<not> iswhite s"
      proof -
        obtain m where m: "g_strs g (g_memerrmsg g) = Some m" "ts_chars m = MEMERRMSG" "\<not> iswhite m"
          using assms(2) by (auto simp: cache_ok_def)
        then have "not_white g1 (g_memerrmsg g)" "text_of g1 (g_memerrmsg g) = Some MEMERRMSG" "g_memerrmsg g1 = g_memerrmsg g"
          using k(2) by (auto simp: keeps_texts_def not_white_def text_of_def)
        then show ?thesis by (auto simp: not_white_def text_of_def)
      qed
      ultimately show ?thesis using assms(2) by (simp add: cache_ok_def)
    qed
    moreover have "text_of ?g b = text_of g1 b" for b by (simp add: text_of_def)
    ultimately show ?thesis using k(2,3) by (auto simp: keeps_texts_def)
  qed
qed

text \<open>Clearing the cache: it holds no white object afterwards, and every entry is still valid.\<close>

lemma luaS_clearcache_ok:
  assumes "cache_ok g"
  shows "\<exists>c. luaS_clearcache g = Inr (g\<lparr>g_strcache := c\<rparr>) \<and> cache_ok (g\<lparr>g_strcache := c\<rparr>) \<and>
    (\<forall>a \<in> set c. not_white g a)"
proof -
  let ?f = "\<lambda>i g. if length (g_strcache g) \<le> i then Inl (MemFault ''string cache'')
     else ebind (get_str g (g_strcache g ! i)) (\<lambda>s.
          Inr (if iswhite s then g\<lparr>g_strcache := (g_strcache g)[i := g_memerrmsg g]\<rparr> else g))"
  let ?I = "\<lambda>i h. \<exists>c. h = g\<lparr>g_strcache := c\<rparr> \<and> cache_ok h \<and> (\<forall>j < i. not_white g (c ! j))"
  obtain m where m: "g_strs g (g_memerrmsg g) = Some m" "ts_chars m = MEMERRMSG" "\<not> iswhite m"
    using assms by (auto simp: cache_ok_def)
  have "\<exists>g'. efold ?f [0..<STRCACHE_SIZE] g = Inr g' \<and> ?I (length [0..<STRCACHE_SIZE]) g'"
  proof (rule efold_rule [where I = "\<lambda>done. ?I (length done)"])
    show "?I (length []) g" using assms by (intro exI [of _ "g_strcache g"]) simp
  next
    fix ds i rest h
    assume x: "[0..<STRCACHE_SIZE] = ds @ i # rest" and I: "?I (length ds) h"
    have i: "i = length ds" using x
      by (metis add.left_neutral length_append length_upt minus_nat.diff_0 nth_append_length nth_upt length_Cons
          less_add_same_cancel1 zero_less_Suc)
    have i': "i < STRCACHE_SIZE" using x by (metis in_set_conv_decomp atLeastLessThan_iff set_upt)
    obtain c where c: "h = g\<lparr>g_strcache := c\<rparr>" "cache_ok h" "\<forall>j < i. not_white g (c ! j)" using I i by auto
    have l: "i < length c" using c(1,2) i' by (simp add: cache_ok_def)
    then have "c ! i \<in> set (g_strcache h)" using c(1) by simp
    then obtain s where s: "g_strs g (c ! i) = Some s" using c(1,2) by (auto simp: cache_ok_def text_of_def)
    let ?c = "if iswhite s then c[i := g_memerrmsg g] else c"
    have "?f i h = Inr (g\<lparr>g_strcache := ?c\<rparr>)" using l s c(1) by (simp add: get_str_def)
    moreover have "cache_ok (g\<lparr>g_strcache := ?c\<rparr>)"
    proof -
      have "\<exists>s. text_of g b = Some s \<and> CHR 0x00 \<notin> set s" if "b \<in> set ?c" for b
      proof -
        have "b \<in> set c \<or> b = g_memerrmsg g" using that set_update_subset_insert by (fastforce split: if_splits)
        then show ?thesis
        proof
          assume "b \<in> set c"
          then show ?thesis using c(1,2) by (auto simp: cache_ok_def text_of_def)
        next
          assume "b = g_memerrmsg g"
          then show ?thesis using m by (simp add: text_of_def MEMERRMSG_def)
        qed
      qed
      then show ?thesis using c(1,2) m by (auto simp: cache_ok_def text_of_def)
    qed
    moreover have "not_white g (?c ! j)" if "j < Suc i" for j
      using that c(3) l s m by (cases "j = i") (auto simp: not_white_def)
    ultimately show "\<exists>s'. ?f i h = Inr s' \<and> ?I (length (ds @ [i])) s'" using i by auto
  qed
  then obtain c where c: "luaS_clearcache g = Inr (g\<lparr>g_strcache := c\<rparr>)" "cache_ok (g\<lparr>g_strcache := c\<rparr>)"
      "\<forall>j < STRCACHE_SIZE. not_white g (c ! j)"
    unfolding luaS_clearcache_def by auto
  have "\<forall>a \<in> set c. not_white g a"
    using c(2,3) by (auto simp: cache_ok_def in_set_conv_nth)
  then show ?thesis using c by blast
qed

text \<open>The start of a state.\<close>

lemma luaS_init_ok:
  assumes "g_strs g = (\<lambda>a. None)" "tb_hash (g_strt g) = []" "tb_nuse (g_strt g) = 0" "tb_size (g_strt g) = 0"
    "g_currentwhite g \<in> {1, 2}"
  shows "\<exists>g'. luaS_init new g = Inr g' \<and> strings_ok g' \<and> cache_ok g'"
proof -
  let ?g = "g\<lparr>g_strt := \<lparr>tb_hash = replicate 128 None, tb_nuse = 0, tb_size = 128\<rparr>\<rparr>"
  have r: "luaS_resize MINSTRTABSIZE g = Inr ?g"
    using resize_from_nothing [OF assms(1-4)] by (simp add: MINSTRTABSIZE_def)
  have "table_ok ?g 7 (replicate 128 [])" using assms(1) by (simp add: table_ok_def lists_def short_strs_def)
  moreover have "(7 :: nat) \<le> 30" by simp
  ultimately have "\<exists>k cs. k \<le> 30 \<and> table_ok ?g k cs" by blast
  then have ok: "strings_ok ?g" unfolding strings_ok_def using assms(1,5) by simp
  obtain g1 m where g1: "luaS_newlstr new MEMERRMSG ?g = Inr (g1, m)" "interned ?g new MEMERRMSG g1 m"
    using newlstr_ok [OF ok, of new MEMERRMSG] assms(1) by (auto simp: MEMERRMSG_def MAX_TSTRING_def)
  have k: "strings_ok g1" "text_of g1 m = Some MEMERRMSG" "alive g1 m" using g1(2) by (simp_all add: interned_def)
  then obtain s where s: "g_strs g1 m = Some s" "ts_chars s = MEMERRMSG" by (auto simp: text_of_def)
  let ?s = "white2gray s"
  let ?g' = "(put_str g1 m ?s)\<lparr>g_memerrmsg := m, g_strcache := replicate STRCACHE_SIZE m\<rparr>"
  have "luaS_init new g = Inr ?g'" using r g1(1) s(1) by (simp add: luaS_init_def get_str_def)
  moreover have "strings_ok (put_str g1 m ?s)"
    using recolour_any [OF k(1) s(1) white2gray_def] by blast
  then have "strings_ok ?g'"
    by (simp add: strings_ok_def table_ok_def lists_def short_strs_def hash_of_def)
  moreover have "\<not> iswhite ?s"
    by (simp add: iswhite_def white2gray_def and.assoc)
  then have "cache_ok ?g'"
    using s(2) by (auto simp: cache_ok_def text_of_def put_str_def white2gray_def MEMERRMSG_def)
  ultimately show ?thesis by blast
qed

end
