(* ===== verification/Lua_Lex.thy ===== *)
theory Lua_Lex
  imports Lua_Number Lua_Utf8 Lua_Zio
begin

text \<open>
  The lexer, \<open>llex.c\<close>, with the character classes of \<open>lctype.c\<close> and the error positions of
  \<open>luaO_chunkid\<close> and \<open>luaG_addinfo\<close>.  The input stream is the content still to come: \<open>zgetc\<close>
  takes its first byte, or gives \<open>EOZ\<close>, whatever the pieces a reader delivers it in
  (\<open>zgetc_bytes\<close> in the locale \<open>byte_reader\<close> of \<open>Lua_Zio\<close>).  A string is its content.
\<close>

section \<open>Character classes\<close>

text \<open>The table has an entry for \<open>EOZ\<close>, which is \<open>-1\<close>, before those of the bytes.\<close>

definition luai_ctype :: "nat list" where
  "luai_ctype = [
     0x00,
     0x00, 0x00, 0x00, 0x00, 0x00, 0x00, 0x00, 0x00,
     0x00, 0x08, 0x08, 0x08, 0x08, 0x08, 0x00, 0x00,
     0x00, 0x00, 0x00, 0x00, 0x00, 0x00, 0x00, 0x00,
     0x00, 0x00, 0x00, 0x00, 0x00, 0x00, 0x00, 0x00,
     0x0c, 0x04, 0x04, 0x04, 0x04, 0x04, 0x04, 0x04,
     0x04, 0x04, 0x04, 0x04, 0x04, 0x04, 0x04, 0x04,
     0x16, 0x16, 0x16, 0x16, 0x16, 0x16, 0x16, 0x16,
     0x16, 0x16, 0x04, 0x04, 0x04, 0x04, 0x04, 0x04,
     0x04, 0x15, 0x15, 0x15, 0x15, 0x15, 0x15, 0x05,
     0x05, 0x05, 0x05, 0x05, 0x05, 0x05, 0x05, 0x05,
     0x05, 0x05, 0x05, 0x05, 0x05, 0x05, 0x05, 0x05,
     0x05, 0x05, 0x05, 0x04, 0x04, 0x04, 0x04, 0x05,
     0x04, 0x15, 0x15, 0x15, 0x15, 0x15, 0x15, 0x05,
     0x05, 0x05, 0x05, 0x05, 0x05, 0x05, 0x05, 0x05,
     0x05, 0x05, 0x05, 0x05, 0x05, 0x05, 0x05, 0x05,
     0x05, 0x05, 0x05, 0x04, 0x04, 0x04, 0x04, 0x00] @ replicate 128 0x00"

definition ALPHABIT :: nat where "ALPHABIT = 0"
definition DIGITBIT :: nat where "DIGITBIT = 1"
definition PRINTBIT :: nat where "PRINTBIT = 2"
definition SPACEBIT :: nat where "SPACEBIT = 3"
definition XDIGITBIT :: nat where "XDIGITBIT = 4"

text \<open>A character of the input: \<open>None\<close> is \<open>EOZ\<close>.\<close>

type_synonym charint = "byte option"

definition ctype_entry :: "charint \<Rightarrow> nat" where
  "ctype_entry c = luai_ctype ! (case c of None \<Rightarrow> 0 | Some b \<Rightarrow> unat b + 1)"

definition lislalpha :: "charint \<Rightarrow> bool" where "lislalpha c \<longleftrightarrow> ctype_entry c AND 2 ^ ALPHABIT \<noteq> 0"
definition lislalnum :: "charint \<Rightarrow> bool" where
  "lislalnum c \<longleftrightarrow> ctype_entry c AND (2 ^ ALPHABIT OR 2 ^ DIGITBIT) \<noteq> 0"
definition lisdigit :: "charint \<Rightarrow> bool" where "lisdigit c \<longleftrightarrow> ctype_entry c AND 2 ^ DIGITBIT \<noteq> 0"
definition lisspace :: "charint \<Rightarrow> bool" where "lisspace c \<longleftrightarrow> ctype_entry c AND 2 ^ SPACEBIT \<noteq> 0"
definition lisprint :: "charint \<Rightarrow> bool" where "lisprint c \<longleftrightarrow> ctype_entry c AND 2 ^ PRINTBIT \<noteq> 0"
definition lisxdigit :: "charint \<Rightarrow> bool" where "lisxdigit c \<longleftrightarrow> ctype_entry c AND 2 ^ XDIGITBIT \<noteq> 0"

section \<open>Error positions\<close>

text \<open>A C string in an object ends at its first zero.\<close>

definition cstr :: "byte list \<Rightarrow> byte list" where
  "cstr bs = takeWhile (\<lambda>c. c \<noteq> 0) bs"

definition LUA_IDSIZE :: nat where "LUA_IDSIZE = 60"

definition luaO_chunkid :: "byte list \<Rightarrow> nat \<Rightarrow> byte list" where
  "luaO_chunkid source bufflen =
     (let s = cstr source; l = length s in
      if s \<noteq> [] \<and> hd s = ch CHR ''='' then
        if l \<le> bufflen then drop 1 s else take (bufflen - 1) (drop 1 s)
      else if s \<noteq> [] \<and> hd s = ch CHR ''@'' then
        if l \<le> bufflen then drop 1 s
        else let bufflen = bufflen - 3 in str_bytes ''...'' @ drop (1 + l - bufflen) s
      else
        let nl = takeWhile (\<lambda>c. c \<noteq> 10) s; bufflen = bufflen - (9 + 3 + 2 + 1) in
        str_bytes ''[string \"'' @
        (if l < bufflen \<and> nl = s then s else take (min (length nl) bufflen) s @ str_bytes ''...'') @
        str_bytes ''\"]'')"

text \<open>\<open>luaO_pushfstring\<close> with the formats \<open>%d\<close> and \<open>%c\<close>.\<close>

definition fmt_d :: "nat \<Rightarrow> string" where "fmt_d n = bytes_str (dec_text n)"

definition fmt_c :: "byte \<Rightarrow> string" where
  "fmt_c c = (if lisprint (Some c) then bytes_str [c] else ''<'' @ [CHR 0x5C] @ fmt_d (unat c) @ ''>'')"

definition luaG_addinfo :: "string \<Rightarrow> byte list option \<Rightarrow> nat \<Rightarrow> string" where
  "luaG_addinfo msg src line =
     (case src of Some s \<Rightarrow> bytes_str (luaO_chunkid s LUA_IDSIZE) | None \<Rightarrow> ''?'') @
     '':'' @ fmt_d line @ '': '' @ msg"

section \<open>Tokens\<close>

definition FIRST_RESERVED :: nat where "FIRST_RESERVED = 257"

definition luaX_tokens :: "string list" where
  "luaX_tokens = [
     ''and'', ''break'', ''do'', ''else'', ''elseif'',
     ''end'', ''false'', ''for'', ''function'', ''goto'', ''if'',
     ''in'', ''local'', ''nil'', ''not'', ''or'', ''repeat'',
     ''return'', ''then'', ''true'', ''until'', ''while'',
     ''//'', ''..'', ''...'', ''=='', ''>='', ''<='', ''~='',
     ''<<'', ''>>'', ''::'', ''<eof>'',
     ''<number>'', ''<integer>'', ''<name>'', ''<string>'']"

definition NUM_RESERVED :: nat where "NUM_RESERVED = 22"

text \<open>The enumeration \<open>RESERVED\<close>: the reserved words, then these.\<close>

definition TK_WHILE :: nat where "TK_WHILE = 278"
definition TK_IDIV :: nat where "TK_IDIV = 279"
definition TK_CONCAT :: nat where "TK_CONCAT = 280"
definition TK_DOTS :: nat where "TK_DOTS = 281"
definition TK_EQ :: nat where "TK_EQ = 282"
definition TK_GE :: nat where "TK_GE = 283"
definition TK_LE :: nat where "TK_LE = 284"
definition TK_NE :: nat where "TK_NE = 285"
definition TK_SHL :: nat where "TK_SHL = 286"
definition TK_SHR :: nat where "TK_SHR = 287"
definition TK_DBCOLON :: nat where "TK_DBCOLON = 288"
definition TK_EOS :: nat where "TK_EOS = 289"
definition TK_FLT :: nat where "TK_FLT = 290"
definition TK_INT :: nat where "TK_INT = 291"
definition TK_NAME :: nat where "TK_NAME = 292"
definition TK_STRING :: nat where "TK_STRING = 293"

lemmas token_codes = TK_WHILE_def TK_IDIV_def TK_CONCAT_def TK_DOTS_def TK_EQ_def TK_GE_def TK_LE_def TK_NE_def
  TK_SHL_def TK_SHR_def TK_DBCOLON_def TK_EOS_def TK_FLT_def TK_INT_def TK_NAME_def TK_STRING_def FIRST_RESERVED_def

text \<open>
  \<open>luaX_init\<close> gives the string of each reserved word its number in the field \<open>extra\<close>; every other
  string has zero there.
\<close>

definition luaX_init :: "(byte list \<times> nat) list" where
  "luaX_init = map (\<lambda>i. (str_bytes (luaX_tokens ! i), i + 1)) [0..<NUM_RESERVED]"

definition extra :: "byte list \<Rightarrow> nat" where
  "extra ts = (case map_of luaX_init ts of Some e \<Rightarrow> e | None \<Rightarrow> 0)"

datatype seminfo = SemNone | SemFlt u64 | SemInt u64 | SemStr "byte list"

record token =
  tk_token :: nat
  tk_seminfo :: seminfo

section \<open>The state of the lexer\<close>

record lexstate =
  ls_current :: charint
  ls_linenumber :: nat
  ls_lastline :: nat
  ls_t :: token
  ls_lookahead :: token
  ls_z :: "byte list"         \<comment> \<open>what the stream has still to deliver\<close>
  ls_buff :: "byte list"      \<comment> \<open>the \<open>n\<close> bytes in use of the buffer\<close>
  ls_buffsize :: nat
  ls_h :: "byte list list"    \<comment> \<open>the strings anchored in the table \<open>h\<close>\<close>
  ls_source :: "byte list option"
  ls_decpoint :: byte

definition MAX_SIZE :: nat where "MAX_SIZE = 2 ^ 63 - 1"
definition MAX_LINES :: nat where "MAX_LINES = 2 ^ 31 - 1"
definition LUA_MINBUFFER :: nat where "LUA_MINBUFFER = 32"

definition next_char :: "lexstate \<Rightarrow> lexstate" where
  "next_char ls = (case ls_z ls of
     [] \<Rightarrow> ls\<lparr>ls_current := None\<rparr>
   | b # bs \<Rightarrow> ls\<lparr>ls_current := Some b, ls_z := bs\<rparr>)"

definition currIsNewline :: "lexstate \<Rightarrow> bool" where
  "currIsNewline ls \<longleftrightarrow> ls_current ls = Some 10 \<or> ls_current ls = Some 13"

text \<open>\<open>lexerror\<close> is split at its test of the token, because \<open>save\<close> raises without one.\<close>

definition lexerror_plain :: "lexstate \<Rightarrow> string \<Rightarrow> lua_error" where
  "lexerror_plain ls msg = RunError (luaG_addinfo msg (ls_source ls) (ls_linenumber ls))"

definition save :: "lexstate \<Rightarrow> byte \<Rightarrow> lexstate res" where
  "save ls c =
     ebind
       (if ls_buffsize ls < length (ls_buff ls) + 1 then
          if MAX_SIZE div 2 \<le> ls_buffsize ls then Inl (lexerror_plain ls ''lexical element too long'')
          else Inr (ls\<lparr>ls_buffsize := ls_buffsize ls * 2\<rparr>)
        else Inr ls)
       (\<lambda>ls. if length (ls_buff ls) < ls_buffsize ls then Inr (ls\<lparr>ls_buff := ls_buff ls @ [c]\<rparr>)
             else Inl (MemFault ''write behind the buffer''))"

text \<open>
  Saving \<open>EOZ\<close> would store the byte \<open>-1\<close>.
\<close>

definition cast_char :: "charint \<Rightarrow> byte" where
  "cast_char c = (case c of Some b \<Rightarrow> b | None \<Rightarrow> - 1)"

definition save_and_next :: "lexstate \<Rightarrow> lexstate res" where
  "save_and_next ls = ebind (save ls (cast_char (ls_current ls))) (\<lambda>ls. Inr (next_char ls))"

definition luaX_token2str :: "nat \<Rightarrow> string" where
  "luaX_token2str token =
     (if token < FIRST_RESERVED then [CHR 0x27] @ fmt_c (of_nat token) @ [CHR 0x27]
      else let s = luaX_tokens ! (token - FIRST_RESERVED) in
           if token < TK_EOS then [CHR 0x27] @ s @ [CHR 0x27] else s)"

definition txtToken :: "lexstate \<Rightarrow> nat \<Rightarrow> string res" where
  "txtToken ls token =
     (if token = TK_NAME \<or> token = TK_STRING \<or> token = TK_FLT \<or> token = TK_INT then
        ebind (save ls 0) (\<lambda>ls. Inr ([CHR 0x27] @ bytes_str (cstr (ls_buff ls)) @ [CHR 0x27]))
      else Inr (luaX_token2str token))"

definition lexerror :: "lexstate \<Rightarrow> string \<Rightarrow> nat \<Rightarrow> lua_error" where
  "lexerror ls msg token =
     (let msg = luaG_addinfo msg (ls_source ls) (ls_linenumber ls) in
      if token \<noteq> 0 then
        case txtToken ls token of Inl e \<Rightarrow> e | Inr t \<Rightarrow> RunError (msg @ '' near '' @ t)
      else RunError msg)"

definition luaX_syntaxerror :: "lexstate \<Rightarrow> string \<Rightarrow> lua_error" where
  "luaX_syntaxerror ls msg = lexerror ls msg (tk_token (ls_t ls))"

text \<open>\<open>luaX_newstring\<close> on \<open>len\<close> bytes of the buffer from \<open>pos\<close>: the table anchors the string.\<close>

definition luaX_newstring :: "lexstate \<Rightarrow> nat \<Rightarrow> nat \<Rightarrow> (byte list \<times> lexstate) res" where
  "luaX_newstring ls pos len =
     (if length (ls_buff ls) < pos + len then Inl (MemFault ''read behind the buffer'')
      else let ts = take len (drop pos (ls_buff ls)) in
           Inr (ts, if ts \<in> set (ls_h ls) then ls else ls\<lparr>ls_h := ts # ls_h ls\<rparr>))"

text \<open>\<open>luaZ_buffremove\<close>: the length is unsigned.\<close>

definition luaZ_buffremove :: "lexstate \<Rightarrow> nat \<Rightarrow> lexstate res" where
  "luaZ_buffremove ls i =
     (if length (ls_buff ls) < i then Inl (MemFault ''buffer underflow'')
      else Inr (ls\<lparr>ls_buff := take (length (ls_buff ls) - i) (ls_buff ls)\<rparr>))"

definition luaZ_resetbuffer :: "lexstate \<Rightarrow> lexstate" where
  "luaZ_resetbuffer ls = ls\<lparr>ls_buff := []\<rparr>"

definition inclinenumber :: "lexstate \<Rightarrow> lexstate res" where
  "inclinenumber ls =
     (let old = ls_current ls;
          ls = next_char ls;
          ls = (if currIsNewline ls \<and> ls_current ls \<noteq> old then next_char ls else ls);
          ls = ls\<lparr>ls_linenumber := ls_linenumber ls + 1\<rparr>
      in if MAX_LINES \<le> ls_linenumber ls then Inl (lexerror ls ''chunk has too many lines'' 0) else Inr ls)"

definition luaX_setinput :: "byte list \<Rightarrow> byte list option \<Rightarrow> charint \<Rightarrow> lexstate" where
  "luaX_setinput z source firstchar =
     \<lparr>ls_current = firstchar, ls_linenumber = 1, ls_lastline = 1,
      ls_t = \<lparr>tk_token = 0, tk_seminfo = SemNone\<rparr>, ls_lookahead = \<lparr>tk_token = TK_EOS, tk_seminfo = SemNone\<rparr>,
      ls_z = z, ls_buff = [], ls_buffsize = LUA_MINBUFFER, ls_h = [], ls_source = source,
      ls_decpoint = ch CHR ''.''\<rparr>"

section \<open>Input and termination\<close>

text \<open>What has not been consumed, the current character included.\<close>

definition ls_input :: "lexstate \<Rightarrow> byte list" where
  "ls_input ls = (case ls_current ls of None \<Rightarrow> [] | Some c \<Rightarrow> [c]) @ ls_z ls"

abbreviation remaining :: "lexstate \<Rightarrow> nat" where
  "remaining ls \<equiv> length (ls_input ls)"

lemma next_char_le [simp]: "remaining (next_char ls) \<le> remaining ls"
  by (auto simp: ls_input_def next_char_def split: list.splits option.splits)

lemma next_char_less: "ls_current ls \<noteq> None \<Longrightarrow> remaining (next_char ls) < remaining ls"
  by (auto simp: ls_input_def next_char_def split: list.splits option.splits)

lemma save_fields:
  assumes "save ls c = Inr ls'"
  shows "ls_current ls' = ls_current ls" "ls_z ls' = ls_z ls" "remaining ls' = remaining ls"
  using assms by (auto simp: save_def ebind_eq_Inr ls_input_def split: if_splits)

lemma save_and_next_le: "save_and_next ls = Inr ls' \<Longrightarrow> remaining ls' \<le> remaining ls"
  by (auto simp: save_and_next_def ebind_eq_Inr dest!: save_fields(3) intro: le_trans [OF next_char_le])

lemma save_and_next_less:
  "save_and_next ls = Inr ls' \<Longrightarrow> ls_current ls \<noteq> None \<Longrightarrow> remaining ls' < remaining ls"
  unfolding save_and_next_def ebind_eq_Inr by (metis next_char_less save_fields(1,3) sum.inject(2))

lemma inclinenumber_less:
  assumes "inclinenumber ls = Inr ls'" and "ls_current ls \<noteq> None"
  shows "remaining ls' < remaining ls"
proof -
  have "remaining (next_char ls) < remaining ls" by (rule next_char_less [OF assms(2)])
  moreover have "remaining (next_char (next_char ls)) \<le> remaining (next_char ls)" by simp
  ultimately show ?thesis using assms(1)
    by (auto simp: inclinenumber_def Let_def ls_input_def split: if_splits)
qed

section \<open>Numerals\<close>

definition check_next1 :: "lexstate \<Rightarrow> byte \<Rightarrow> bool \<times> lexstate" where
  "check_next1 ls c = (if ls_current ls = Some c then (True, next_char ls) else (False, ls))"

definition check_next2 :: "lexstate \<Rightarrow> char \<times> char \<Rightarrow> (bool \<times> lexstate) res" where
  "check_next2 ls st =
     (if ls_current ls = Some (ch (fst st)) \<or> ls_current ls = Some (ch (snd st))
      then ebind (save_and_next ls) (\<lambda>ls. Inr (True, ls)) else Inr (False, ls))"

lemma check_next2_le: "check_next2 ls st = Inr (b, ls') \<Longrightarrow> remaining ls' \<le> remaining ls"
  by (auto simp: check_next2_def ebind_eq_Inr split: if_splits dest: save_and_next_le)

definition buffreplace :: "lexstate \<Rightarrow> byte \<Rightarrow> byte \<Rightarrow> lexstate" where
  "buffreplace ls from to =
     (if from \<noteq> to then ls\<lparr>ls_buff := map (\<lambda>c. if c = from then to else c) (ls_buff ls)\<rparr> else ls)"

text \<open>\<open>lua_getlocaledecpoint\<close> asks the C library: its answer is the parameter \<open>dp\<close>.\<close>

definition buff2num :: "conv \<Rightarrow> lexstate \<Rightarrow> tvalue option" where
  "buff2num cv ls = luaO_str2num cv (cstr (ls_buff ls))"

definition trydecpoint :: "conv \<Rightarrow> byte \<Rightarrow> lexstate \<Rightarrow> (tvalue \<times> lexstate) res" where
  "trydecpoint cv dp ls =
     (let old = ls_decpoint ls;
          ls = ls\<lparr>ls_decpoint := dp\<rparr>;
          ls = buffreplace ls old (ls_decpoint ls)
      in case buff2num cv ls of
           Some o1 \<Rightarrow> Inr (o1, ls)
         | None \<Rightarrow> let ls = buffreplace ls (ls_decpoint ls) (ch CHR ''.'') in
                   Inl (lexerror ls ''malformed number'' TK_FLT))"

lemma lisxdigit_EOZ [simp]: "\<not> lisxdigit None" by code_simp

lemma lisdigit_EOZ [simp]: "\<not> lisdigit None" by code_simp

lemma lisspace_EOZ [simp]: "\<not> lisspace None" by code_simp

lemma lislalnum_EOZ [simp]: "\<not> lislalnum None" by code_simp

lemma lislalpha_EOZ [simp]: "\<not> lislalpha None" by code_simp

lemma lis_Some:
  "lisxdigit c \<Longrightarrow> \<exists>b. c = Some b" "lisdigit c \<Longrightarrow> \<exists>b. c = Some b" "lisspace c \<Longrightarrow> \<exists>b. c = Some b"
  "lislalnum c \<Longrightarrow> \<exists>b. c = Some b" "lislalpha c \<Longrightarrow> \<exists>b. c = Some b"
  by (cases c; simp)+

function numeral_loop :: "char \<times> char \<Rightarrow> lexstate \<Rightarrow> lexstate res" where
  "numeral_loop expo ls =
     ebind (check_next2 ls expo) (\<lambda>(b, ls1).
     ebind (if b then check_next2 ls1 (CHR ''-'', CHR ''+'') else Inr (False, ls1)) (\<lambda>(_, ls2).
     if lisxdigit (ls_current ls2) \<or> ls_current ls2 = Some (ch CHR ''.'')
     then ebind (save_and_next ls2) (numeral_loop expo)
     else Inr ls2))"
  by pat_completeness auto


termination
proof (relation "measure (\<lambda>(expo, ls). remaining ls)", goal_cases)
  case (2 expo ls x b ls1 y u ls2 ls3)
  have "remaining ls1 \<le> remaining ls" using 2 by (auto dest: check_next2_le)
  moreover have "remaining ls2 \<le> remaining ls1" using 2 by (auto dest: check_next2_le split: if_splits)
  moreover have "remaining ls3 < remaining ls2"
    by (rule save_and_next_less) (use 2 in \<open>auto dest: lis_Some\<close>)
  ultimately show ?case by simp
qed simp

declare numeral_loop.simps [simp del]

definition read_numeral :: "conv \<Rightarrow> byte \<Rightarrow> lexstate \<Rightarrow> (nat \<times> seminfo \<times> lexstate) res" where
  "read_numeral cv dp ls =
     (let first = ls_current ls in
      ebind (save_and_next ls) (\<lambda>ls.
      ebind (if first = Some (ch CHR ''0'') then check_next2 ls (CHR ''x'', CHR ''X'') else Inr (False, ls)) (\<lambda>(hex, ls).
      ebind (numeral_loop (if hex then (CHR ''P'', CHR ''p'') else (CHR ''E'', CHR ''e'')) ls) (\<lambda>ls.
      ebind (save ls 0) (\<lambda>ls.
      let ls = buffreplace ls (ch CHR ''.'') (ls_decpoint ls) in
      ebind (case buff2num cv ls of Some obj \<Rightarrow> Inr (obj, ls) | None \<Rightarrow> trydecpoint cv dp ls) (\<lambda>(obj, ls).
      case obj of
        LInt i \<Rightarrow> Inr (TK_INT, SemInt i, ls)
      | LFlt n \<Rightarrow> Inr (TK_FLT, SemFlt n, ls)
      | _ \<Rightarrow> Inl (MemFault ''not a number'')))))))"

section \<open>Long strings\<close>

text \<open>The separators are counted in an \<open>int\<close>, and so is twice the length of a delimiter.\<close>

function skip_eqs :: "lexstate \<Rightarrow> int \<Rightarrow> (int \<times> lexstate) res" where
  "skip_eqs ls count =
     (if ls_current ls = Some (ch CHR ''='') then
        ebind (save_and_next ls) (\<lambda>ls. ebind (checked_int (count + 1)) (skip_eqs ls))
      else Inr (count, ls))"
  by pat_completeness auto
termination
  by (relation "measure (\<lambda>(ls, c). remaining ls)") (auto intro: save_and_next_less)

declare skip_eqs.simps [simp del]

definition skip_sep :: "lexstate \<Rightarrow> (int \<times> lexstate) res" where
  "skip_sep ls =
     (let s = ls_current ls in
      ebind (save_and_next ls) (\<lambda>ls.
      ebind (skip_eqs ls 0) (\<lambda>(count, ls).
      Inr (if ls_current ls = s then count else (- count) - 1, ls))))"

lemma skip_eqs_le: "skip_eqs ls c = Inr (r, ls') \<Longrightarrow> remaining ls' \<le> remaining ls"
proof (induction ls c rule: skip_eqs.induct)
  case (1 ls c)
  then show ?case
    by (subst (asm) skip_eqs.simps) (auto simp: ebind_eq_Inr split: if_splits dest: save_and_next_le intro: le_trans)
qed

lemma skip_sep_less:
  "skip_sep ls = Inr (r, ls') \<Longrightarrow> ls_current ls \<noteq> None \<Longrightarrow> remaining ls' < remaining ls"
  unfolding skip_sep_def Let_def ebind_eq_Inr
  by (auto dest!: skip_eqs_le save_and_next_less intro: le_less_trans)

lemma remaining_reset [simp]: "remaining (luaZ_resetbuffer ls) = remaining ls"
  by (simp add: luaZ_resetbuffer_def ls_input_def)

text \<open>\<open>keep\<close> is whether there is a \<open>seminfo\<close>: a long comment has none.\<close>

function long_string_loop :: "bool \<Rightarrow> nat \<Rightarrow> int \<Rightarrow> lexstate \<Rightarrow> lexstate res" where
  "long_string_loop keep line sep ls =
     (case ls_current ls of
        None \<Rightarrow> Inl (lexerror ls
          (''unfinished long '' @ (if keep then ''string'' else ''comment'') @ '' (starting at line '' @ fmt_d line @ '')'')
          TK_EOS)
      | Some c \<Rightarrow>
          if c = ch CHR '']'' then
            ebind (skip_sep ls) (\<lambda>(s, ls). if s = sep then save_and_next ls else long_string_loop keep line sep ls)
          else if c = 10 \<or> c = 13 then
            ebind (save ls 10) (\<lambda>ls. ebind (inclinenumber ls) (\<lambda>ls.
              long_string_loop keep line sep (if keep then ls else luaZ_resetbuffer ls)))
          else ebind (if keep then save_and_next ls else Inr (next_char ls)) (long_string_loop keep line sep))"
  by pat_completeness auto

termination
proof (relation "measure (\<lambda>(keep, line, sep, ls). remaining ls)", goal_cases)
  case (2 keep line sep ls c x s ls')
  then show ?case by (auto dest: skip_sep_less)
next
  case (3 keep line sep ls c ls1 ls2)
  then show ?case using save_fields(1,3) [of ls 10 ls1] by (auto dest!: inclinenumber_less)
next
  case (4 keep line sep ls c ls')
  then show ?case by (auto split: if_splits intro!: next_char_less dest: save_and_next_less)
qed simp

declare long_string_loop.simps [simp del]

definition read_long_string :: "lexstate \<Rightarrow> bool \<Rightarrow> int \<Rightarrow> (seminfo \<times> lexstate) res" where
  "read_long_string ls keep sep =
     (let line = ls_linenumber ls in
      ebind (save_and_next ls) (\<lambda>ls.
      ebind (if currIsNewline ls then inclinenumber ls else Inr ls) (\<lambda>ls.
      ebind (long_string_loop keep line sep ls) (\<lambda>ls.
      if keep then
        ebind (checked_int (2 * (2 + sep))) (\<lambda>_.
        if length (ls_buff ls) < 2 * (2 + nat sep) then Inl (MemFault ''read behind the buffer'')
        else ebind (luaX_newstring ls (2 + nat sep) (length (ls_buff ls) - 2 * (2 + nat sep))) (\<lambda>(ts, ls).
          Inr (SemStr ts, ls)))
      else Inr (SemNone, ls)))))"

section \<open>Escape sequences\<close>

definition esccheck :: "lexstate \<Rightarrow> bool \<Rightarrow> string \<Rightarrow> lexstate res" where
  "esccheck ls c msg =
     (if \<not> c then
        ebind (if ls_current ls \<noteq> None then save_and_next ls else Inr ls) (\<lambda>ls. Inl (lexerror ls msg TK_STRING))
      else Inr ls)"

definition hexavalue_of :: "charint \<Rightarrow> nat" where
  "hexavalue_of c = nat (luaO_hexavalue (cast_char c))"

definition gethexa :: "lexstate \<Rightarrow> (nat \<times> lexstate) res" where
  "gethexa ls =
     ebind (save_and_next ls) (\<lambda>ls.
     ebind (esccheck ls (lisxdigit (ls_current ls)) ''hexadecimal digit expected'') (\<lambda>ls.
     Inr (hexavalue_of (ls_current ls), ls)))"

definition readhexaesc :: "lexstate \<Rightarrow> (nat \<times> lexstate) res" where
  "readhexaesc ls =
     ebind (gethexa ls) (\<lambda>(r, ls).
     ebind (gethexa ls) (\<lambda>(d, ls).
     ebind (luaZ_buffremove ls 2) (\<lambda>ls. Inr (push_bit 4 r + d, ls))))"

lemma esccheck_same: "esccheck ls c msg = Inr ls' \<longleftrightarrow> c \<and> ls' = ls"
  by (auto simp: esccheck_def ebind_eq_Inr)

text \<open>
  The loop returns the value and the number of characters to be removed, an \<open>int\<close> that grows with
  every digit, zeros in front included.
\<close>

function utf8esc_digits :: "nat \<Rightarrow> nat \<Rightarrow> lexstate \<Rightarrow> (nat \<times> nat \<times> lexstate) res" where
  "utf8esc_digits r i ls =
     ebind (save_and_next ls) (\<lambda>ls.
     if lisxdigit (ls_current ls) then
       ebind (checked_int (int i + 1)) (\<lambda>_.
       let r = push_bit 4 r + hexavalue_of (ls_current ls) in
       ebind (esccheck ls (r \<le> 0x10FFFF) ''UTF-8 value too large'') (utf8esc_digits r (i + 1)))
     else Inr (r, i, ls))"
  by pat_completeness auto

termination
proof (relation "measure (\<lambda>(r, i, ls). 2 * remaining ls + (if ls_current ls = None then 1 else 0))", goal_cases)
  case (2 r i ls ls1 u r1 ls2)
  then have "ls2 = ls1" "ls_current ls1 \<noteq> None" by (auto simp: esccheck_same dest: lis_Some)
  then show ?case using 2 save_and_next_less [of ls ls1] save_and_next_le [of ls ls1] by (cases "ls_current ls") auto
qed simp

declare utf8esc_digits.simps [simp del]

definition readutf8esc :: "lexstate \<Rightarrow> (nat \<times> lexstate) res" where
  "readutf8esc ls =
     ebind (save_and_next ls) (\<lambda>ls.
     ebind (esccheck ls (ls_current ls = Some (ch CHR ''{'')) (''missing '' @ [CHR 0x27] @ ''{'' @ [CHR 0x27])) (\<lambda>ls.
     ebind (gethexa ls) (\<lambda>(r, ls).
     ebind (utf8esc_digits r 4 ls) (\<lambda>(r, i, ls).
     ebind (esccheck ls (ls_current ls = Some (ch CHR ''}'')) (''missing '' @ [CHR 0x27] @ ''}'' @ [CHR 0x27])) (\<lambda>ls.
     let ls = next_char ls in
     ebind (luaZ_buffremove ls i) (\<lambda>ls. Inr (r, ls)))))))"

definition utf8esc :: "lexstate \<Rightarrow> lexstate res" where
  "utf8esc ls =
     ebind (readutf8esc ls) (\<lambda>(r, ls). efold (\<lambda>c ls. save ls c) (luaO_utf8esc r) ls)"

text \<open>At most \<open>n\<close> more digits; the result has their value and their number.\<close>

fun decesc_loop :: "nat \<Rightarrow> nat \<Rightarrow> nat \<Rightarrow> lexstate \<Rightarrow> (nat \<times> nat \<times> lexstate) res" where
  "decesc_loop 0 r i ls = Inr (r, i, ls)"
| "decesc_loop (Suc n) r i ls =
     (if lisdigit (ls_current ls) then
        let r = 10 * r + unat (cast_char (ls_current ls)) - 48 in
        ebind (save_and_next ls) (decesc_loop n r (i + 1))
      else Inr (r, i, ls))"

definition readdecesc :: "lexstate \<Rightarrow> (nat \<times> lexstate) res" where
  "readdecesc ls =
     ebind (decesc_loop 3 0 0 ls) (\<lambda>(r, i, ls).
     ebind (esccheck ls (r \<le> 255) ''decimal escape too large'') (\<lambda>ls.
     ebind (luaZ_buffremove ls i) (\<lambda>ls. Inr (r, ls))))"

section \<open>Short strings\<close>

text \<open>The loop after an escape \<open>z\<close>.\<close>

function zap_spaces :: "lexstate \<Rightarrow> lexstate res" where
  "zap_spaces ls =
     (if lisspace (ls_current ls) then
        ebind (if currIsNewline ls then inclinenumber ls else Inr (next_char ls)) zap_spaces
      else Inr ls)"
  by pat_completeness auto
termination
proof (relation "measure remaining", goal_cases)
  case (2 ls ls1)
  have "ls_current ls \<noteq> None" using 2 by (auto dest: lis_Some)
  then show ?case using 2 by (auto split: if_splits dest: inclinenumber_less intro: next_char_less)
qed simp

declare zap_spaces.simps [simp del]

text \<open>
  An escape sequence, the backslash being saved and the current character behind it.  The labels
  \<open>read_save\<close> and \<open>only_save\<close> are local definitions.
\<close>

definition read_escape :: "lexstate \<Rightarrow> lexstate res" where
  "read_escape ls =
     (let only_save = (\<lambda>c ls. ebind (luaZ_buffremove ls 1) (\<lambda>ls. save ls c));
          read_save = (\<lambda>c ls. only_save c (next_char ls))
      in case ls_current ls of
        None \<Rightarrow> Inr ls
      | Some e \<Rightarrow>
          if e = ch CHR ''a'' then read_save 7 ls
          else if e = ch CHR ''b'' then read_save 8 ls
          else if e = ch CHR ''f'' then read_save 12 ls
          else if e = ch CHR ''n'' then read_save 10 ls
          else if e = ch CHR ''r'' then read_save 13 ls
          else if e = ch CHR ''t'' then read_save 9 ls
          else if e = ch CHR ''v'' then read_save 11 ls
          else if e = ch CHR ''x'' then ebind (readhexaesc ls) (\<lambda>(c, ls). read_save (of_nat c) ls)
          else if e = ch CHR ''u'' then utf8esc ls
          else if e = 10 \<or> e = 13 then ebind (inclinenumber ls) (only_save 10)
          else if e = 0x5C \<or> e = 0x22 \<or> e = 0x27 then read_save e ls
          else if e = ch CHR ''z'' then
            ebind (luaZ_buffremove ls 1) (\<lambda>ls. zap_spaces (next_char ls))
          else
            ebind (esccheck ls (lisdigit (ls_current ls)) ''invalid escape sequence'') (\<lambda>ls.
            ebind (readdecesc ls) (\<lambda>(c, ls). only_save (of_nat c) ls)))"


lemma buffremove_same: "luaZ_buffremove ls i = Inr ls' \<Longrightarrow> remaining ls' = remaining ls"
  by (auto simp: luaZ_buffremove_def ls_input_def split: if_splits)

lemma newstring_same: "luaX_newstring ls pos len = Inr (ts, ls') \<Longrightarrow> remaining ls' = remaining ls"
  by (auto simp: luaX_newstring_def Let_def ls_input_def split: if_splits)

lemma inclinenumber_le: "inclinenumber ls = Inr ls' \<Longrightarrow> remaining ls' \<le> remaining ls"
  using next_char_le [of ls] next_char_le [of "next_char ls"]
  by (auto simp: inclinenumber_def Let_def ls_input_def split: if_splits)

lemma saves_same: "efold (\<lambda>c ls. save ls c) cs ls = Inr ls' \<Longrightarrow> remaining ls' = remaining ls"
  by (induction cs arbitrary: ls) (auto simp: ebind_eq_Inr dest!: save_fields(3))

lemma gethexa_le: "gethexa ls = Inr (r, ls') \<Longrightarrow> remaining ls' \<le> remaining ls"
  by (auto simp: gethexa_def ebind_eq_Inr esccheck_same dest: save_and_next_le)

lemma readhexaesc_le: "readhexaesc ls = Inr (r, ls') \<Longrightarrow> remaining ls' \<le> remaining ls"
  by (auto simp: readhexaesc_def ebind_eq_Inr dest!: gethexa_le buffremove_same)

lemma utf8esc_digits_le: "utf8esc_digits r i ls = Inr (r', i', ls') \<Longrightarrow> remaining ls' \<le> remaining ls"
proof (induction r i ls rule: utf8esc_digits.induct)
  case (1 r i ls)
  obtain x where x: "save_and_next ls = Inr x" using 1(2) by (subst (asm) utf8esc_digits.simps) (auto simp: ebind_eq_Inr)
  show ?case
  proof (cases "lisxdigit (ls_current x)")
    case True
    then have "remaining ls' \<le> remaining x" using 1(2) x
      by (intro 1(1)) (auto simp: utf8esc_digits.simps [of r i ls] ebind_eq_Inr esccheck_same Let_def)
    then show ?thesis using save_and_next_le [OF x] by simp
  qed (use 1(2) x save_and_next_le [OF x] in \<open>simp add: utf8esc_digits.simps [of r i ls]\<close>)
qed

lemma readutf8esc_le: "readutf8esc ls = Inr (r, ls') \<Longrightarrow> remaining ls' \<le> remaining ls"
  by (auto simp: readutf8esc_def ebind_eq_Inr Let_def esccheck_same
      dest!: gethexa_le buffremove_same save_and_next_le utf8esc_digits_le intro!: le_trans [OF next_char_le])

lemma utf8esc_le: "utf8esc ls = Inr ls' \<Longrightarrow> remaining ls' \<le> remaining ls"
  by (auto simp: utf8esc_def ebind_eq_Inr dest!: readutf8esc_le saves_same)

lemma decesc_loop_le: "decesc_loop n r i ls = Inr (r', i', ls') \<Longrightarrow> remaining ls' \<le> remaining ls"
  by (induction n arbitrary: r i ls)
    (auto simp: ebind_eq_Inr Let_def split: if_splits dest!: save_and_next_le intro: le_trans)

lemma readdecesc_le: "readdecesc ls = Inr (r, ls') \<Longrightarrow> remaining ls' \<le> remaining ls"
  by (auto simp: readdecesc_def ebind_eq_Inr esccheck_same dest!: decesc_loop_le buffremove_same)

lemma zap_spaces_le: "zap_spaces ls = Inr ls' \<Longrightarrow> remaining ls' \<le> remaining ls"
proof (induction ls rule: zap_spaces.induct)
  case (1 ls)
  let ?m = "if currIsNewline ls then inclinenumber ls else Inr (next_char ls)"
  show ?case
  proof (cases "lisspace (ls_current ls)")
    case True
    then obtain x where x: "?m = Inr x" "zap_spaces x = Inr ls'" using 1(2)
      by (subst (asm) zap_spaces.simps) (simp add: ebind_eq_Inr del: if_split split del: if_split, blast)
    have "remaining x \<le> remaining ls" using x(1) by (auto split: if_splits dest: inclinenumber_le)
    then show ?thesis using 1(1) [OF True x(1) x(2)] by simp
  qed (use 1(2) in \<open>simp add: zap_spaces.simps [of ls]\<close>)
qed

lemma only_save_le:
  "ebind (luaZ_buffremove ls 1) (\<lambda>ls. save ls c) = Inr ls' \<Longrightarrow> remaining ls' = remaining ls"
  by (auto simp: ebind_eq_Inr dest!: buffremove_same save_fields(3))

lemma read_escape_le: "read_escape ls = Inr ls' \<Longrightarrow> remaining ls' \<le> remaining ls"
  unfolding read_escape_def Let_def
  by (auto split: option.splits if_splits simp: ebind_eq_Inr esccheck_same
      dest!: only_save_le buffremove_same save_fields(3) readhexaesc_le utf8esc_le inclinenumber_le zap_spaces_le
        readdecesc_le intro!: le_trans [OF next_char_le] intro: le_trans [OF _ next_char_le] ord_le_eq_trans)

function read_string_loop :: "byte \<Rightarrow> lexstate \<Rightarrow> lexstate res" where
  "read_string_loop del ls =
     (if ls_current ls = Some del then Inr ls
      else case ls_current ls of
        None \<Rightarrow> Inl (lexerror ls ''unfinished string'' TK_EOS)
      | Some c \<Rightarrow>
          if c = 10 \<or> c = 13 then Inl (lexerror ls ''unfinished string'' TK_STRING)
          else if c = 0x5C then
            ebind (save_and_next ls) (\<lambda>ls. ebind (read_escape ls) (read_string_loop del))
          else ebind (save_and_next ls) (read_string_loop del))"
  by pat_completeness auto
termination
proof (relation "measure (\<lambda>(del, ls). remaining ls)", goal_cases)
  case (2 del ls c ls1 ls2)
  then show ?case using save_and_next_less [of ls ls1] read_escape_le [of ls1 ls2] by auto
qed (auto intro: save_and_next_less)

declare read_string_loop.simps [simp del]

definition read_string :: "lexstate \<Rightarrow> byte \<Rightarrow> (seminfo \<times> lexstate) res" where
  "read_string ls del =
     ebind (save_and_next ls) (\<lambda>ls.
     ebind (read_string_loop del ls) (\<lambda>ls.
     ebind (save_and_next ls) (\<lambda>ls.
     if length (ls_buff ls) < 2 then Inl (MemFault ''read behind the buffer'')
     else ebind (luaX_newstring ls 1 (length (ls_buff ls) - 2)) (\<lambda>(ts, ls). Inr (SemStr ts, ls)))))"

section \<open>Tokens\<close>

function skip_line :: "lexstate \<Rightarrow> lexstate" where
  "skip_line ls = (if \<not> currIsNewline ls \<and> ls_current ls \<noteq> None then skip_line (next_char ls) else ls)"
  by pat_completeness auto
termination by (relation "measure remaining") (simp_all add: next_char_less del: not_None_eq)

declare skip_line.simps [simp del]

lemma skip_line_le: "remaining (skip_line ls) \<le> remaining ls"
proof (induction ls rule: skip_line.induct)
  case (1 ls)
  show ?case by (subst skip_line.simps) (use 1 next_char_le [of ls] in \<open>auto intro: le_trans\<close>)
qed

text \<open>A comment, behind its two hyphens.\<close>

definition skip_comment :: "lexstate \<Rightarrow> lexstate res" where
  "skip_comment ls =
     (if ls_current ls = Some (ch CHR ''['') then
        ebind (skip_sep ls) (\<lambda>(sep, ls).
        let ls = luaZ_resetbuffer ls in
        if 0 \<le> sep then ebind (read_long_string ls False sep) (\<lambda>(_, ls). Inr (luaZ_resetbuffer ls))
        else Inr (skip_line ls))
      else Inr (skip_line ls))"

lemma long_string_loop_le: "long_string_loop keep line sep ls = Inr ls' \<Longrightarrow> remaining ls' \<le> remaining ls"
proof (induction keep line sep ls rule: long_string_loop.induct)
  case (1 keep line sep ls)
  from 1(4) obtain c where c: "ls_current ls = Some c"
    by (subst (asm) long_string_loop.simps) (auto split: option.splits)
  note r = 1(4) [unfolded long_string_loop.simps [of keep line sep ls] c option.case]
  consider "c = ch CHR '']''" | "c \<noteq> ch CHR '']''" "c = 10 \<or> c = 13" | "c \<noteq> ch CHR '']''" "\<not> (c = 10 \<or> c = 13)" by blast
  then show ?case
  proof cases
    case 1
    then obtain s x where x: "skip_sep ls = Inr (s, x)"
      "(if s = sep then save_and_next x else long_string_loop keep line sep x) = Inr ls'"
      using r by (auto simp: ebind_eq_Inr)
    have "remaining ls' \<le> remaining x"
      using x(2) "1.IH"(1) [OF c 1 x(1)] by (auto split: if_splits dest: save_and_next_le)
    then show ?thesis using skip_sep_less [OF x(1)] c by simp
  next
    case 2
    then obtain x y where x: "save ls 10 = Inr x" "inclinenumber x = Inr y"
      "long_string_loop keep line sep (if keep then y else luaZ_resetbuffer y) = Inr ls'"
      using r by (auto simp: ebind_eq_Inr)
    have "remaining ls' \<le> remaining y"
      using "1.IH"(2) [OF c 2 x] by (auto split: if_splits)
    then show ?thesis using inclinenumber_le [OF x(2)] save_fields(3) [OF x(1)] by simp
  next
    case 3
    then obtain x where x: "(if keep then save_and_next ls else Inr (next_char ls)) = Inr x"
      "long_string_loop keep line sep x = Inr ls'" using r by (auto simp: ebind_eq_Inr)
    have "remaining x \<le> remaining ls" using x(1) by (auto split: if_splits dest: save_and_next_le)
    then show ?thesis using "1.IH"(3) [OF c 3 x] by simp
  qed
qed

lemma read_long_string_le: "read_long_string ls keep sep = Inr (s, ls') \<Longrightarrow> remaining ls' \<le> remaining ls"
  by (auto simp: read_long_string_def ebind_eq_Inr Let_def split: if_splits
      dest!: save_and_next_le inclinenumber_le long_string_loop_le newstring_same)

lemma skip_comment_le: "skip_comment ls = Inr ls' \<Longrightarrow> remaining ls' \<le> remaining ls"
  using skip_line_le
  by (fastforce simp: skip_comment_def ebind_eq_Inr Let_def split: if_splits
      dest!: skip_sep_less read_long_string_le intro: le_trans less_imp_le)


text \<open>The characters of a name: the loop tests after it has saved one.\<close>

function read_name :: "lexstate \<Rightarrow> lexstate res" where
  "read_name ls =
     ebind (save_and_next ls) (\<lambda>ls. if lislalnum (ls_current ls) then read_name ls else Inr ls)"
  by pat_completeness auto
termination
proof (relation "measure (\<lambda>ls. 2 * remaining ls + (if ls_current ls = None then 1 else 0))", goal_cases)
  case (2 ls ls1)
  then have "ls_current ls1 \<noteq> None" by (auto dest: lis_Some)
  then show ?case using 2 save_and_next_less [of ls ls1] save_and_next_le [of ls ls1] by (cases "ls_current ls") auto
qed simp

declare read_name.simps [simp del]

definition isreserved :: "byte list \<Rightarrow> bool" where
  "isreserved ts \<longleftrightarrow> 0 < extra ts"

text \<open>
  The cases of the switch that return: the token, the semantic information, which is left as it
  was by a token without any, and the state.  \<open>one\<close> is an operator of one or two characters.
\<close>

definition lex_one :: "seminfo \<Rightarrow> char \<Rightarrow> (char \<times> nat) list \<Rightarrow> lexstate \<Rightarrow> (nat \<times> seminfo \<times> lexstate) res" where
  "lex_one sem c seconds ls =
     (let ls = next_char ls in
      case List.find (\<lambda>(d, tk). ls_current ls = Some (ch d)) seconds of
        Some (d, tk) \<Rightarrow> Inr (tk, sem, next_char ls)
      | None \<Rightarrow> Inr (unat (ch c), sem, ls))"

definition lex_token :: "conv \<Rightarrow> byte \<Rightarrow> seminfo \<Rightarrow> byte \<Rightarrow> lexstate \<Rightarrow> (nat \<times> seminfo \<times> lexstate) res" where
  "lex_token cv dp sem c ls =
     (if c = ch CHR ''['' then
        ebind (skip_sep ls) (\<lambda>(sep, ls).
        if 0 \<le> sep then ebind (read_long_string ls True sep) (\<lambda>(sem, ls). Inr (TK_STRING, sem, ls))
        else if sep \<noteq> - 1 then Inl (lexerror ls ''invalid long string delimiter'' TK_STRING)
        else Inr (unat (ch CHR ''[''), sem, ls))
      else if c = ch CHR ''='' then lex_one sem CHR ''='' [(CHR ''='', TK_EQ)] ls
      else if c = ch CHR ''<'' then lex_one sem CHR ''<'' [(CHR ''='', TK_LE), (CHR ''<'', TK_SHL)] ls
      else if c = ch CHR ''>'' then lex_one sem CHR ''>'' [(CHR ''='', TK_GE), (CHR ''>'', TK_SHR)] ls
      else if c = ch CHR ''/'' then lex_one sem CHR ''/'' [(CHR ''/'', TK_IDIV)] ls
      else if c = ch CHR ''~'' then lex_one sem CHR ''~'' [(CHR ''='', TK_NE)] ls
      else if c = ch CHR '':'' then lex_one sem CHR '':'' [(CHR '':'', TK_DBCOLON)] ls
      else if c = 0x22 \<or> c = 0x27 then
        ebind (read_string ls c) (\<lambda>(sem, ls). Inr (TK_STRING, sem, ls))
      else if c = ch CHR ''.'' then
        ebind (save_and_next ls) (\<lambda>ls.
        case check_next1 ls (ch CHR ''.'') of
          (True, ls) \<Rightarrow>
            (case check_next1 ls (ch CHR ''.'') of
               (True, ls) \<Rightarrow> Inr (TK_DOTS, sem, ls) | (False, ls) \<Rightarrow> Inr (TK_CONCAT, sem, ls))
        | (False, ls) \<Rightarrow>
            if \<not> lisdigit (ls_current ls) then Inr (unat (ch CHR ''.''), sem, ls) else read_numeral cv dp ls)
      else if ch CHR ''0'' \<le> c \<and> c \<le> ch CHR ''9'' then read_numeral cv dp ls
      else if lislalpha (Some c) then
        ebind (read_name ls) (\<lambda>ls.
        ebind (luaX_newstring ls 0 (length (ls_buff ls))) (\<lambda>(ts, ls).
        Inr (if isreserved ts then extra ts - 1 + FIRST_RESERVED else TK_NAME, SemStr ts, ls)))
      else Inr (unat c, sem, next_char ls))"

function llex_loop :: "conv \<Rightarrow> byte \<Rightarrow> seminfo \<Rightarrow> lexstate \<Rightarrow> (nat \<times> seminfo \<times> lexstate) res" where
  "llex_loop cv dp sem ls =
     (case ls_current ls of
        None \<Rightarrow> Inr (TK_EOS, sem, ls)
      | Some c \<Rightarrow>
          if c = 10 \<or> c = 13 then ebind (inclinenumber ls) (llex_loop cv dp sem)
          else if c = 0x20 \<or> c = 12 \<or> c = 9 \<or> c = 11 then llex_loop cv dp sem (next_char ls)
          else if c = ch CHR ''-'' then
            let ls1 = next_char ls in
            if ls_current ls1 \<noteq> Some (ch CHR ''-'') then Inr (unat (ch CHR ''-''), sem, ls1)
            else ebind (skip_comment (next_char ls1)) (llex_loop cv dp sem)
          else lex_token cv dp sem c ls)"
  by pat_completeness auto
termination
proof (relation "measure (\<lambda>(cv, dp, sem, ls). remaining ls)", goal_cases)
  case (4 cv dp sem ls c ls1 ls2)
  have "remaining ls2 \<le> remaining (next_char ls1)" using 4 skip_comment_le by blast
  also have "\<dots> \<le> remaining ls1" by simp
  also have "\<dots> < remaining ls" using 4 by (simp add: next_char_less)
  finally show ?case by simp
qed (auto intro!: next_char_less dest: inclinenumber_less)

declare llex_loop.simps [simp del]

definition llex :: "conv \<Rightarrow> byte \<Rightarrow> seminfo \<Rightarrow> lexstate \<Rightarrow> (nat \<times> seminfo \<times> lexstate) res" where
  "llex cv dp sem ls = llex_loop cv dp sem (luaZ_resetbuffer ls)"

definition luaX_next :: "conv \<Rightarrow> byte \<Rightarrow> lexstate \<Rightarrow> lexstate res" where
  "luaX_next cv dp ls =
     (let ls = ls\<lparr>ls_lastline := ls_linenumber ls\<rparr> in
      if tk_token (ls_lookahead ls) \<noteq> TK_EOS then
        Inr (ls\<lparr>ls_t := ls_lookahead ls, ls_lookahead := (ls_lookahead ls)\<lparr>tk_token := TK_EOS\<rparr>\<rparr>)
      else
        ebind (llex cv dp (tk_seminfo (ls_t ls)) ls) (\<lambda>(token, sem, ls).
        Inr (ls\<lparr>ls_t := \<lparr>tk_token = token, tk_seminfo = sem\<rparr>\<rparr>)))"

definition luaX_lookahead :: "conv \<Rightarrow> byte \<Rightarrow> lexstate \<Rightarrow> (nat \<times> lexstate) res" where
  "luaX_lookahead cv dp ls =
     ebind (llex cv dp (tk_seminfo (ls_lookahead ls)) ls) (\<lambda>(token, sem, ls).
     Inr (token, ls\<lparr>ls_lookahead := \<lparr>tk_token = token, tk_seminfo = sem\<rparr>\<rparr>))"

end
