(* ===== verification/Lua_Lex_Safe.thy ===== *)
theory Lua_Lex_Safe
  imports Lua_Lex
begin

text \<open>
  The lexer on any input: the tables of \<open>lctype.c\<close> are the classes of the C locale, no access
  leaves the buffer, every token but the last consumes input, and its semantic information has
  the type its code says.
\<close>

section \<open>Character classes\<close>

definition class_flags :: "nat \<Rightarrow> nat" where
  "class_flags n =
     (if 65 \<le> n \<and> n \<le> 90 \<or> 97 \<le> n \<and> n \<le> 122 \<or> n = 95 then 1 else 0) + (if 48 \<le> n \<and> n \<le> 57 then 2 else 0) +
     (if 33 \<le> n \<and> n \<le> 126 \<or> n = 32 then 4 else 0) + (if n = 32 \<or> 9 \<le> n \<and> n \<le> 13 then 8 else 0) +
     (if 48 \<le> n \<and> n \<le> 57 \<or> 65 \<le> n \<and> n \<le> 70 \<or> 97 \<le> n \<and> n \<le> 102 then 16 else 0)"

lemma ctype_entries:
  assumes "n < 256"
  shows "tl luai_ctype ! n = class_flags n"
proof (cases "n < 128")
  case True
  have "take 128 (tl luai_ctype) = map class_flags [0..<128]"
    by (simp add: luai_ctype_def upt_conv_Cons class_flags_def)
  then have "take 128 (tl luai_ctype) ! n = class_flags n" using True by (metis nth_map_upt add_0 diff_zero)
  then show ?thesis using True by simp
next
  case False
  define z where "z = replicate 128 (0 :: nat)"
  have "drop 128 (tl luai_ctype) = z" by (simp add: luai_ctype_def z_def)
  moreover have "length (tl luai_ctype) = 256" by (simp add: luai_ctype_def)
  ultimately have "tl luai_ctype ! n = z ! (n - 128)" using False assms nth_drop [of 128 "tl luai_ctype" "n - 128"] by simp
  also have "\<dots> = 0" unfolding z_def by (rule nth_replicate) (use assms in simp)
  also have "\<dots> = class_flags n" using False by (simp add: class_flags_def)
  finally show ?thesis .
qed

lemma ctype_entry_Some:
  "ctype_entry (Some c) =
     (if isalpha c \<or> c = 95 then 1 else 0) + (if isdigit c then 2 else 0) +
     (if isgraph c \<or> c = 32 then 4 else 0) + (if isspace c then 8 else 0) + (if isxdigit c then 16 else 0)"
proof -
  have "unat c < 256" using unsigned_less [of c] by simp
  moreover have "ctype_entry (Some c) = tl luai_ctype ! unat c"
    by (simp add: ctype_entry_def nth_tl luai_ctype_def)
  moreover have "class_flags (unat c) =
     (if isalpha c \<or> c = 95 then 1 else 0) + (if isdigit c then 2 else 0) +
     (if isgraph c \<or> c = 32 then 4 else 0) + (if isspace c then 8 else 0) + (if isxdigit c then 16 else 0)"
    by (simp add: class_flags_def isalpha_def isupper_def islower_def isdigit_def isgraph_def isspace_def isxdigit_def
        word_le_nat_alt word_unat_eq_iff)
  ultimately show ?thesis by (simp add: ctype_entries)
qed

lemma ctype_EOZ [simp]: "ctype_entry None = 0"
  by (simp add: ctype_entry_def luai_ctype_def)

lemma class_bits:
  fixes e :: nat
  assumes "e = (if a then 1 else 0) + (if d then 2 else 0) + (if p then 4 else 0) + (if s then 8 else 0) + (if x then 16 else 0)"
  shows "(e AND 1 \<noteq> 0) = a" "(e AND (1 OR 2) \<noteq> 0) = (a \<or> d)" "(e AND 2 \<noteq> 0) = d"
    "(e AND 4 \<noteq> 0) = p" "(e AND 8 \<noteq> 0) = s" "(e AND 16 \<noteq> 0) = x"
  unfolding assms by (cases a; cases d; cases p; cases s; cases x; simp only: if_True if_False; code_simp)+

lemma lis_Some_eq:
  "lislalpha (Some b) = (isalpha b \<or> b = 95)" "lislalnum (Some b) = (isalnum b \<or> b = 95)"
  "lisdigit (Some b) = isdigit b" "lisspace (Some b) = isspace b"
  "lisprint (Some b) = (isgraph b \<or> b = 32)" "lisxdigit (Some b) = isxdigit b"
  unfolding lislalpha_def lislalnum_def lisdigit_def lisspace_def lisprint_def lisxdigit_def ctype_entry_Some
    ALPHABIT_def DIGITBIT_def SPACEBIT_def PRINTBIT_def XDIGITBIT_def isalnum_def
  using class_bits [OF refl, of "isalpha b \<or> b = 95" "isdigit b" "isgraph b \<or> b = 32" "isspace b" "isxdigit b"]
  by (simp_all del: One_nat_def, blast)

lemma lisprint_EOZ: "\<not> lisprint None"
  by (simp add: lisprint_def)

text \<open>
  The table of character classes, with its entry for the end of the input, agrees with the classes
  of the C locale and the underscore.\<close>

theorem ctype_agrees:
  "lislalpha c = (case c of None \<Rightarrow> False | Some b \<Rightarrow> isalpha b \<or> b = 95) \<and>
   lislalnum c = (case c of None \<Rightarrow> False | Some b \<Rightarrow> isalnum b \<or> b = 95) \<and>
   lisdigit c = (case c of None \<Rightarrow> False | Some b \<Rightarrow> isdigit b) \<and>
   lisspace c = (case c of None \<Rightarrow> False | Some b \<Rightarrow> isspace b) \<and>
   lisprint c = (case c of None \<Rightarrow> False | Some b \<Rightarrow> isgraph b \<or> b = 32) \<and>
   lisxdigit c = (case c of None \<Rightarrow> False | Some b \<Rightarrow> isxdigit b)"
  by (simp add: lis_Some_eq lisprint_EOZ split: option.split)

section \<open>No access outside the buffer\<close>

text \<open>
  \<open>lok n la ls\<close>: the look-ahead token is \<open>la\<close>, the buffer has room for what it holds, and at least
  \<open>n\<close> bytes are in use.
\<close>

definition lok :: "nat \<Rightarrow> token \<Rightarrow> lexstate \<Rightarrow> bool" where
  "lok n la ls \<longleftrightarrow> ls_lookahead ls = la \<and> LUA_MINBUFFER \<le> ls_buffsize ls \<and> length (ls_buff ls) \<le> ls_buffsize ls \<and> n \<le> length (ls_buff ls)"

text \<open>The errors of the lexer: those it raises, and the counters that overflow on very long input.\<close>

definition lex_err :: "lua_error \<Rightarrow> bool" where
  "lex_err e \<longleftrightarrow> (\<exists>m. e = RunError m) \<or> e = MemFault ''int overflow''"

lemma checked_int_wp: "wp (checked_int i) lex_err (\<lambda>j. j = i \<and> i \<le> 2 ^ 31 - 1)"
  by (simp add: checked_int_def lex_err_def)

lemma lok_mono: "lok n la ls \<Longrightarrow> m \<le> n \<Longrightarrow> lok m la ls"
  by (simp add: lok_def)

lemma lok_next [simp]: "lok n la (next_char ls) = lok n la ls"
  by (simp add: lok_def next_char_def split: list.split)

lemma lok_reset: "lok n la ls \<Longrightarrow> lok 0 la (luaZ_resetbuffer ls)"
  by (simp add: lok_def luaZ_resetbuffer_def)

lemma lok_line [simp]: "lok n la (ls\<lparr>ls_linenumber := l\<rparr>) = lok n la ls"
  by (simp add: lok_def)

lemma save_lok: "lok n la ls \<Longrightarrow> wp (save ls c) lex_err (lok (n + 1) la)"
  by (auto simp: save_def lok_def lex_err_def lexerror_plain_def LUA_MINBUFFER_def)

lemma save_and_next_lok: "lok n la ls \<Longrightarrow> wp (save_and_next ls) lex_err (lok (n + 1) la)"
  unfolding save_and_next_def by (rule wp_ebind [OF save_lok]) simp_all

lemma lok_SucD: "lok (Suc n) la ls \<Longrightarrow> lok n la ls"
  by (simp add: lok_def)

lemma save_and_next_lok': "lok n la ls \<Longrightarrow> wp (save_and_next ls) lex_err (lok n la)"
  by (rule wp_mono [OF save_and_next_lok]) (auto dest: lok_SucD)

lemma lexerror_run: "lok n la ls \<Longrightarrow> lex_err (lexerror ls msg token)"
  using save_lok [of n la ls 0]
  by (cases "save ls 0") (auto simp: lexerror_def txtToken_def Let_def lex_err_def split: sum.splits)

lemma inclinenumber_lok: "lok n la ls \<Longrightarrow> wp (inclinenumber ls) lex_err (lok n la)"
  by (auto simp: inclinenumber_def Let_def intro!: wp_if intro: lexerror_run)

lemma buffremove_lok: "lok (n + i) la ls \<Longrightarrow> wp (luaZ_buffremove ls i) lex_err (lok n la)"
  by (auto simp: luaZ_buffremove_def lok_def)

lemma newstring_lok:
  "lok n la ls \<Longrightarrow> pos + len \<le> length (ls_buff ls) \<Longrightarrow> wp (luaX_newstring ls pos len) lex_err (\<lambda>(ts, ls). lok n la ls)"
  by (auto simp: luaX_newstring_def lok_def Let_def)

lemma check_next2_lok: "lok n la ls \<Longrightarrow> wp (check_next2 ls st) lex_err (\<lambda>(b, ls). lok n la ls)"
  unfolding check_next2_def
  by (intro wp_if wp_ebind [OF save_and_next_lok]) (auto elim: lok_mono)

lemma esccheck_lok: "lok n la ls \<Longrightarrow> wp (esccheck ls c msg) lex_err (\<lambda>ls'. ls' = ls \<and> c)"
  unfolding esccheck_def
  by (intro wp_if wp_ebind [where P = "lok n la"]) (auto intro: save_and_next_lok' lexerror_run)

lemma numeral_loop_lok: "lok n la ls \<Longrightarrow> wp (numeral_loop expo ls) lex_err (lok n la)"
proof (induction expo ls rule: numeral_loop.induct)
  case (1 expo ls)
  show ?case
    unfolding numeral_loop.simps [of expo ls]
  proof (rule wp_bind [OF check_next2_lok [OF 1(2)]], rule wp_split, rule wp_bind [where P = "\<lambda>(b, ls). lok n la ls"], goal_cases)
    case (1 x b ls1)
    then show ?case by (auto intro: check_next2_lok)
  next
    case (2 x b ls1 y)
    obtain u ls2 where y: "y = (u, ls2)" by (cases y)
    show ?case unfolding y split
      by (rule wp_if, rule wp_bind [OF save_and_next_lok'])
        (use 2 y "1.IH" [OF 2(1) _ 2(4)] in auto)
  qed
qed


lemma str2num_number: "luaO_str2num cv s = Some v \<Longrightarrow> (\<exists>i. v = LInt i) \<or> (\<exists>f. v = LFlt f)"
  by (auto simp: luaO_str2num_def split: if_splits option.splits)

lemma lok_buffreplace [simp]: "lok n la (buffreplace ls from to) = lok n la ls"
  by (simp add: lok_def buffreplace_def)

lemma lok_decpoint [simp]: "lok n la (ls\<lparr>ls_decpoint := dp\<rparr>) = lok n la ls"
  by (simp add: lok_def)

lemma trydecpoint_lok:
  "lok n la ls \<Longrightarrow> wp (trydecpoint cv dp ls) lex_err (\<lambda>(obj, ls). lok n la ls \<and> ((\<exists>i. obj = LInt i) \<or> (\<exists>f. obj = LFlt f)))"
  by (auto simp: trydecpoint_def Let_def buff2num_def split: option.splits dest: str2num_number intro: lexerror_run)

definition num_token :: "nat \<Rightarrow> seminfo \<Rightarrow> bool" where
  "num_token tk sem \<longleftrightarrow> tk = TK_INT \<and> (\<exists>i. sem = SemInt i) \<or> tk = TK_FLT \<and> (\<exists>f. sem = SemFlt f)"

lemma read_numeral_lok:
  assumes "lok n la ls"
  shows "wp (read_numeral cv dp ls) lex_err (\<lambda>(tk, sem, ls). lok n la ls \<and> num_token tk sem)"
  unfolding read_numeral_def Let_def
proof (rule wp_ebind [OF save_and_next_lok' [OF assms]], rule wp_ebind [where P = "\<lambda>(b, ls). lok n la ls"], goal_cases)
  case (1 ls)
  then show ?case by (auto intro: check_next2_lok)
next
  case (2 ls x)
  obtain hex ls1 where x: "x = (hex, ls1)" by (cases x)
  show ?case unfolding x split
  proof (rule wp_ebind [OF numeral_loop_lok [of n la]], goal_cases)
    case (2 ls2)
    show ?case
    proof (rule wp_ebind [OF save_lok [OF 2]], rule wp_ebind
        [where P = "\<lambda>(obj, ls). lok n la ls \<and> ((\<exists>i. obj = LInt i) \<or> (\<exists>f. obj = LFlt f))"], goal_cases)
      case (1 ls3)
      then show ?case
        by (auto split: option.split simp: buff2num_def dest: str2num_number lok_SucD intro!: trydecpoint_lok)
    qed (auto simp: num_token_def)
  qed (use 2 x in simp)
qed

section \<open>Strings\<close>

lemma skip_eqs_lok:
  "lok n la ls \<Longrightarrow> 0 \<le> c \<Longrightarrow> wp (skip_eqs ls c) lex_err (\<lambda>(r, ls). c \<le> r \<and> lok (n + nat (r - c)) la ls)"
proof (induction ls c arbitrary: n rule: skip_eqs.induct)
  case (1 ls c)
  show ?case
    unfolding skip_eqs.simps [of ls c]
  proof (rule wp_if, rule wp_bind [OF save_and_next_lok [OF 1(2)]], rule wp_bind [OF checked_int_wp], goal_cases)
    case (1 x y)
    then have "wp (skip_eqs x y) lex_err (\<lambda>(r, ls). c + 1 \<le> r \<and> lok (n + 1 + nat (r - (c + 1))) la ls)"
      using "1.IH" [OF 1(1,2,4), of "n + 1"] "1.prems" by simp
    then show ?case by (rule wp_mono) (auto simp: nat_diff_distrib elim!: lok_mono)
  qed (use 1 in simp)
qed

lemma skip_sep_lok:
  "lok n la ls \<Longrightarrow> wp (skip_sep ls) lex_err (\<lambda>(r, ls). lok (n + 1) la ls \<and> (0 \<le> r \<longrightarrow> lok (n + 1 + nat r) la ls))"
  unfolding skip_sep_def Let_def
  by (rule wp_ebind [OF save_and_next_lok], assumption, rule wp_ebind [OF skip_eqs_lok], assumption, simp)
    (auto simp: lok_def)

lemma long_string_loop_lok:
  assumes "lok n la ls"
  shows "wp (long_string_loop keep line sep ls) lex_err (\<lambda>ls. keep \<and> 0 \<le> sep \<longrightarrow> lok (n + 2 + nat sep) la ls) \<and>
    wp (long_string_loop keep line sep ls) lex_err (lok 0 la)"
proof -
  let ?Q = "\<lambda>ls. lok 0 la ls \<and> (keep \<and> 0 \<le> sep \<longrightarrow> lok (n + 2 + nat sep) la ls)"
  let ?n = "if keep then n else 0"
  have "lok ?n la ls" using assms by (auto elim: lok_mono)
  then have "wp (long_string_loop keep line sep ls) lex_err ?Q"
  proof (induction keep line sep ls rule: long_string_loop.induct)
    case (1 keep line sep ls)
    note ok = 1(4)
    show ?case
    proof (cases "ls_current ls")
      case None
      then show ?thesis using ok by (auto simp: long_string_loop.simps [of keep line sep ls] intro: lexerror_run)
    next
      case (Some c)
      show ?thesis
        unfolding long_string_loop.simps [of keep line sep ls] Some option.case
      proof (intro wp_if, goal_cases)
        case 1
        show ?case
        proof (rule wp_bind [OF skip_sep_lok [OF ok]], rule wp_split, rule wp_if, goal_cases)
          case (1 x s ls1)
          then show ?case
            by (intro wp_mono [OF save_and_next_lok [of "(if keep then n else 0) + 1 + (if 0 \<le> sep then nat sep else 0)"]])
              (auto simp: lok_def split: if_splits)
        next
          case (2 x s ls1)
          then show ?case using "1.IH"(1) [OF Some 1 2(1)] by (auto dest: lok_SucD)
        qed
      next
        case 2
        show ?case
        proof (rule wp_bind [OF save_lok [OF ok]], rule wp_bind [OF inclinenumber_lok], assumption, goal_cases)
          case (1 ls1 ls2)
          then show ?case using "1.IH"(2) [OF Some 2 1(1,3)] lok_reset [OF 1(4)] by (auto dest: lok_SucD)
        qed
      next
        case 3
        show ?case
        proof (rule wp_bind [where P = "lok (if keep then n else 0) la"], goal_cases)
          case 1
          then show ?case using ok by (auto intro: save_and_next_lok')
        next
          case (2 ls1)
          then show ?case using "1.IH"(3) [OF Some 3 2(1)] by simp
        qed
      qed
    qed
  qed
  then show ?thesis by (auto simp: wp_def split: sum.splits)
qed


lemma read_long_string_lok:
  assumes "lok n la ls" and "keep \<Longrightarrow> 0 \<le> sep \<and> n = 1 + nat sep"
  shows "wp (read_long_string ls keep sep) lex_err (\<lambda>(sem, ls). lok 0 la ls \<and> (keep \<longrightarrow> (\<exists>ts. sem = SemStr ts)))"
  unfolding read_long_string_def Let_def
proof (rule wp_ebind [OF save_and_next_lok [OF assms(1)]], rule wp_ebind [where P = "lok (n + 1) la"], goal_cases)
  case (1 ls)
  then show ?case by (auto intro: inclinenumber_lok)
next
  case (2 ls1 ls2)
  show ?case
  proof (rule wp_ebind [OF wp_conj [OF conjunct1 [OF long_string_loop_lok [OF 2(2)]] conjunct2 [OF long_string_loop_lok [OF 2(2)]]]],
      rule wp_if, rule wp_ebind [OF checked_int_wp], rule wp_if, goal_cases)
    case (1 ls3)
    then have "lok (2 * (2 + nat sep)) la ls3" using assms(2) by (auto simp: lok_def)
    then show ?case using 1 by (auto simp: lok_def)
  next
    case (2 ls3)
    then have "lok (2 * (2 + nat sep)) la ls3" using assms(2) by (auto simp: lok_def)
    then show ?case by (intro wp_ebind [OF newstring_lok [of 0]]) (auto simp: lok_def)
  qed simp
qed

lemma gethexa_lok: "lok n la ls \<Longrightarrow> wp (gethexa ls) lex_err (\<lambda>(r, ls). lok (n + 1) la ls)"
  unfolding gethexa_def
  by (rule wp_ebind [OF save_and_next_lok], assumption, rule wp_ebind [OF esccheck_lok], assumption) simp

lemma readhexaesc_lok: "lok n la ls \<Longrightarrow> wp (readhexaesc ls) lex_err (\<lambda>(r, ls). lok n la ls)"
  unfolding readhexaesc_def
  by (rule wp_ebind [OF gethexa_lok], assumption, rule wp_split, rule wp_ebind [OF gethexa_lok], simp,
      rule wp_split, rule wp_ebind [OF buffremove_lok [of n]]) simp_all

lemma utf8esc_digits_lok:
  "lok (n + i) la ls \<Longrightarrow> wp (utf8esc_digits r (i + 1) ls) lex_err (\<lambda>(r, j, ls). lok (n + j) la ls)"
proof (induction r "i + 1" ls arbitrary: i rule: utf8esc_digits.induct)
  case (1 r ls)
  show ?case
    unfolding utf8esc_digits.simps [of r "i + 1" ls] Let_def
  proof (rule wp_bind [OF save_and_next_lok [OF 1(2)]], intro wp_if, goal_cases)
    case (1 x)
    note x = 1
    show ?case
    proof (rule wp_bind [OF checked_int_wp], rule wp_bind [OF esccheck_lok [OF 1(2)]], goal_cases)
      case (1 c y)
      then show ?case using "1.hyps" [OF x(1,3) 1(1) refl 1(3), of "i + 1"] x(2) by simp
    qed
  qed (simp add: add.assoc)
qed

lemma saves_lok: "lok n la ls \<Longrightarrow> wp (efold (\<lambda>c ls. save ls c) cs ls) lex_err (lok n la)"
  by (rule wp_efold) (auto intro!: wp_mono [OF save_lok] dest: lok_SucD)

lemma utf8esc_lok:
  assumes "lok (n + 1) la ls"
  shows "wp (utf8esc ls) lex_err (lok n la)"
proof -
  have "wp (readutf8esc ls) lex_err (\<lambda>(r, ls). lok n la ls)"
    unfolding readutf8esc_def Let_def
  proof (rule wp_ebind [OF save_and_next_lok [OF assms]], rule wp_ebind [OF esccheck_lok], assumption,
      rule wp_ebind [where P = "\<lambda>(r, ls). lok (n + 3) la ls"], goal_cases)
    case (1 x y)
    then show ?case by (auto intro!: wp_mono [OF gethexa_lok [of "n + 2"]] simp: lok_def)
  next
    case (2 x y z)
    obtain r ls1 where z: "z = (r, ls1)" by (cases z)
    have "lok (n + 3) la ls1" using 2 z by simp
    then have "wp (utf8esc_digits r 4 ls1) lex_err (\<lambda>(r, j, ls). lok (n + j) la ls)"
      using utf8esc_digits_lok [of n 3 la ls1 r] by simp
    then show ?case unfolding z split
    proof (rule wp_ebind, goal_cases)
      case (1 x)
      obtain r j ls2 where x: "x = (r, j, ls2)" by (cases x)
      show ?case unfolding x split
        by (rule wp_ebind [OF esccheck_lok], use 1 x in simp, rule wp_ebind [OF buffremove_lok [of n]], use 1 x in auto)
    qed
  qed
  then show ?thesis unfolding utf8esc_def by (rule wp_ebind) (auto intro: saves_lok)
qed

lemma decesc_loop_lok:
  "lok (m + i) la ls \<Longrightarrow> wp (decesc_loop n r i ls) lex_err (\<lambda>(r, j, ls). lok (m + j) la ls)"
proof (induction n arbitrary: r i ls)
  case (Suc n)
  show ?case
    unfolding decesc_loop.simps Let_def
    by (intro wp_if wp_ebind [OF save_and_next_lok [OF Suc.prems]]) (use Suc in \<open>simp_all add: add.assoc\<close>)
qed simp

lemma readdecesc_lok:
  assumes "lok m la ls"
  shows "wp (readdecesc ls) lex_err (\<lambda>(r, ls). lok m la ls)"
  unfolding readdecesc_def
  by (rule wp_ebind [OF decesc_loop_lok [of m 0]], use assms in simp, rule wp_split, rule wp_split,
      rule wp_ebind [OF esccheck_lok], simp, rule wp_ebind [OF buffremove_lok [of m]]) auto

lemma zap_spaces_lok: "lok n la ls \<Longrightarrow> wp (zap_spaces ls) lex_err (lok n la)"
proof (induction ls rule: zap_spaces.induct)
  case (1 ls)
  show ?case
    unfolding zap_spaces.simps [of ls]
  proof (rule wp_if, rule wp_bind [where P = "lok n la"], goal_cases)
    case 1
    then show ?case using \<open>lok n la ls\<close> by (auto intro: inclinenumber_lok)
  next
    case (2 x)
    then show ?case by (rule "1.IH")
  qed (use 1 in simp)
qed

lemma only_save_lok: "lok (n + 1) la ls \<Longrightarrow> wp (ebind (luaZ_buffremove ls 1) (\<lambda>ls. save ls c)) lex_err (lok (n + 1) la)"
  by (rule wp_ebind [OF buffremove_lok], assumption) (rule save_lok)

lemma read_escape_lok:
  assumes "lok (n + 1) la ls"
  shows "wp (read_escape ls) lex_err (lok n la)"
proof -
  have S: "wp (ebind (luaZ_buffremove ls' 1) (\<lambda>ls. save ls c)) lex_err (lok n la)" if "lok (n + 1) la ls'" for ls' c
    by (rule wp_mono [OF only_save_lok [OF that]]) (simp add: lok_SucD)
  have R: "wp (ebind (luaZ_buffremove (next_char ls) 1) (\<lambda>ls. save ls c)) lex_err (lok n la)" for c
    using assms by (intro S) simp
  show ?thesis
  proof (cases "ls_current ls")
    case None
    then show ?thesis using assms by (simp add: read_escape_def lok_SucD)
  next
    case (Some e)
    show ?thesis
      unfolding read_escape_def Let_def Some option.case
      by (intro wp_if R utf8esc_lok [OF assms] wp_ebind [OF readhexaesc_lok [OF assms]] wp_ebind [OF inclinenumber_lok [OF assms]]
          wp_ebind [OF buffremove_lok [OF assms]] wp_ebind [OF esccheck_lok [OF assms]])
        (auto intro!: S [simplified] zap_spaces_lok wp_ebind [OF readdecesc_lok [of "n + 1"]] simp: assms [simplified])
  qed
qed

lemma read_string_loop_lok: "lok n la ls \<Longrightarrow> wp (read_string_loop del ls) lex_err (lok n la)"
proof (induction del ls rule: read_string_loop.induct)
  case (1 del ls)
  show ?case
  proof (cases "ls_current ls")
    case None
    then show ?thesis using 1 by (auto simp: read_string_loop.simps [of del ls] intro: lexerror_run)
  next
    case (Some c)
    have E: "lex_err (lexerror ls msg t)" for msg t using lexerror_run [OF 1(3)] .
    show ?thesis
      unfolding read_string_loop.simps [of del ls]
    proof (rule wp_if, goal_cases)
      case 2
      show ?case
        unfolding Some option.case
      proof (intro wp_if, goal_cases)
        case 2
        show ?case
          by (rule wp_bind [OF save_and_next_lok [OF 1(3)]], rule wp_bind [OF read_escape_lok], assumption)
            (use "1.IH"(1) [OF _ Some 2] 2 \<open>ls_current ls \<noteq> Some del\<close> in simp)
      next
        case 3
        show ?case
          by (rule wp_bind [OF save_and_next_lok' [OF 1(3)]])
            (use "1.IH"(2) [OF _ Some 3] 3 \<open>ls_current ls \<noteq> Some del\<close> in simp)
      qed (use E in simp)
    qed (use 1 in simp)
  qed
qed

lemma read_string_lok:
  assumes "lok n la ls"
  shows "wp (read_string ls del) lex_err (\<lambda>(sem, ls). lok 0 la ls \<and> (\<exists>ts. sem = SemStr ts))"
  unfolding read_string_def
proof (rule wp_ebind [OF save_and_next_lok [OF assms]], rule wp_ebind [OF read_string_loop_lok], assumption,
    rule wp_ebind [OF save_and_next_lok], assumption, intro wp_if, goal_cases)
  case (2 x y z)
  then show ?case by (intro wp_ebind [OF newstring_lok [of 0]]) (auto simp: lok_def)
qed (simp add: lok_def)


section \<open>Tokens\<close>

text \<open>The type of the semantic information of a token that has one.\<close>

definition well_typed :: "nat \<Rightarrow> seminfo \<Rightarrow> bool" where
  "well_typed tk sem \<longleftrightarrow>
     (tk = TK_INT \<longrightarrow> (\<exists>i. sem = SemInt i)) \<and> (tk = TK_FLT \<longrightarrow> (\<exists>f. sem = SemFlt f)) \<and>
     (tk = TK_NAME \<or> tk = TK_STRING \<or> FIRST_RESERVED \<le> tk \<and> tk \<le> TK_WHILE \<longrightarrow> (\<exists>s. sem = SemStr s))"

definition lexed :: "token \<Rightarrow> nat \<times> seminfo \<times> lexstate \<Rightarrow> bool" where
  "lexed la r = (case r of (tk, sem, ls) \<Rightarrow> lok 0 la ls \<and> tk \<noteq> TK_EOS \<and> tk \<le> TK_STRING \<and> well_typed tk sem)"

lemma lexed_plain: "lok 0 la ls \<Longrightarrow> tk < 256 \<or> TK_WHILE < tk \<and> tk < TK_EOS \<Longrightarrow> lexed la (tk, sem, ls)"
  by (auto simp: lexed_def well_typed_def token_codes)

lemma lexed_str: "lok 0 la ls \<Longrightarrow> tk = TK_NAME \<or> tk = TK_STRING \<or> tk < TK_EOS \<Longrightarrow> lexed la (tk, SemStr s, ls)"
  by (auto simp: lexed_def well_typed_def token_codes)

lemma lok_0: "lok n la ls \<Longrightarrow> lok 0 la ls"
  by (simp add: lok_def)

lemma byte_256: "unat (c :: byte) < 256"
  using unsigned_less [of c] by simp

lemma extra_le: "extra ts \<le> 22"
  by (auto simp: extra_def luaX_init_def NUM_RESERVED_def split: option.split dest!: map_of_SomeD)

lemma lex_one_lok:
  assumes "lok 0 la ls" and "\<forall>(d, tk) \<in> set seconds. TK_WHILE < tk \<and> tk < TK_EOS"
  shows "wp (lex_one sem c seconds ls) lex_err (lexed la)"
proof (cases "List.find (\<lambda>(d, tk). ls_current (next_char ls) = Some (ch d)) seconds")
  case (Some x)
  then have "x \<in> set seconds" unfolding find_Some_iff by (metis nth_mem)
  then show ?thesis using Some assms by (auto simp: lex_one_def split: prod.split intro: lexed_plain)
qed (use assms(1) in \<open>auto simp: lex_one_def byte_256 intro: lexed_plain\<close>)

lemma read_name_lok: "lok n la ls \<Longrightarrow> wp (read_name ls) lex_err (lok n la)"
proof (induction ls rule: read_name.induct)
  case (1 ls)
  show ?case
    unfolding read_name.simps [of ls]
    by (rule wp_bind [OF save_and_next_lok' [OF 1(2)]]) (use "1.IH" in auto)
qed

lemma numeral_lexed: "lok 0 la ls \<Longrightarrow> wp (read_numeral cv dp ls) lex_err (lexed la)"
  by (rule wp_mono [OF read_numeral_lok]) (auto simp: lexed_def num_token_def well_typed_def token_codes)

lemma check_next1_lok: "lok n la ls \<Longrightarrow> check_next1 ls c = (b, ls') \<Longrightarrow> lok n la ls'"
  by (auto simp: check_next1_def split: if_splits)

lemma lex_token_lok:
  assumes "lok 0 la ls"
  shows "wp (lex_token cv dp sem c ls) lex_err (lexed la)"
proof -
  have one: "wp (lex_one sem d ss ls) lex_err (lexed la)" if "\<forall>(d, tk) \<in> set ss. TK_WHILE < tk \<and> tk < TK_EOS" for d ss
    using assms that by (rule lex_one_lok)
  show ?thesis
    unfolding lex_token_def
  proof (intro wp_if, goal_cases)
    case 1
    show ?case
    proof (rule wp_ebind [OF skip_sep_lok [OF assms]], rule wp_split, intro wp_if, goal_cases)
      case (1 x sep ls1)
      then show ?case
        by (intro wp_ebind [OF read_long_string_lok]) (auto intro: lexed_str)
    next
      case (2 x sep ls1)
      then show ?case by (auto intro: lexerror_run)
    next
      case (3 x sep ls1)
      then show ?case by (auto intro!: lexed_plain dest: lok_0)
    qed
  next
    case 8
    show ?case by (rule wp_ebind [OF read_string_lok [OF assms]]) (auto intro: lexed_str)
  next
    case 9
    show ?case
      by (rule wp_ebind [OF save_and_next_lok' [OF assms]])
        (auto split: prod.splits bool.splits intro!: lexed_plain numeral_lexed dest: check_next1_lok simp: token_codes)
  next
    case 10
    show ?case using assms by (rule numeral_lexed)
  next
    case 11
    show ?case
    proof (rule wp_ebind [OF read_name_lok [OF assms]], rule wp_ebind [OF newstring_lok], assumption, goal_cases)
      case (2 ls1 x)
      obtain ts ls2 where "x = (ts, ls2)" by (cases x)
      then show ?case using 2 extra_le [of ts] by (auto intro!: lexed_str simp: token_codes)
    qed simp
  next
    case 12
    show ?case using assms by (auto intro!: lexed_plain simp: byte_256)
  qed (auto intro!: one simp: token_codes)
qed

lemma skip_line_lok: "lok n la ls \<Longrightarrow> lok n la (skip_line ls)"
proof (induction ls rule: skip_line.induct)
  case (1 ls)
  then show ?case by (subst skip_line.simps) auto
qed

lemma skip_comment_lok: "lok 0 la ls \<Longrightarrow> wp (skip_comment ls) lex_err (lok 0 la)"
  unfolding skip_comment_def
proof (intro wp_if, goal_cases)
  case 1
  show ?case
  proof (rule wp_ebind [OF skip_sep_lok [OF 1(1)]], rule wp_split, unfold Let_def, intro wp_if, goal_cases)
    case (1 x sep ls1)
    have "lok 0 la (luaZ_resetbuffer ls1)" using 1 lok_reset by auto
    then show ?case by (intro wp_ebind [OF read_long_string_lok]) (auto intro: lok_reset)
  next
    case (2 x sep ls1)
    then show ?case using lok_reset skip_line_lok by auto
  qed
qed (simp add: skip_line_lok)

lemma llex_loop_lok:
  "lok 0 la ls \<Longrightarrow> wp (llex_loop cv dp sem ls) lex_err (\<lambda>(tk, sem, ls).
     lok 0 la ls \<and> well_typed tk sem \<and> tk \<le> TK_STRING \<and> (tk = TK_EOS \<longrightarrow> ls_current ls = None))"
proof (induction cv dp sem ls rule: llex_loop.induct)
  case (1 cv dp sem ls)
  show ?case
  proof (cases "ls_current ls")
    case None
    then show ?thesis using 1(4) by (auto simp: llex_loop.simps [of cv dp sem ls] well_typed_def token_codes)
  next
    case (Some c)
    show ?thesis
      unfolding llex_loop.simps [of cv dp sem ls] Some option.case
    proof (intro wp_if, goal_cases)
      case A: 1
      show ?case
        by (rule wp_bind [OF inclinenumber_lok [OF 1(4)]]) (use "1.IH"(1) [OF Some A] in simp)
    next
      case A: 2
      show ?case using "1.IH"(2) [OF Some A] 1(4) by simp
    next
      case A: 3
      show ?case
        unfolding Let_def
      proof (intro wp_if, goal_cases)
        case B: 1
        show ?case using 1(4) by (auto simp: well_typed_def token_codes)
      next
        case B: 2
        show ?case
          by (rule wp_bind [OF skip_comment_lok]) (use "1.IH"(3) [OF Some A refl] B 1(4) in simp_all)
      qed
    next
      case 4
      show ?case by (rule wp_mono [OF lex_token_lok [OF 1(4)]]) (auto simp: lexed_def)
    qed
  qed
qed


section \<open>Every token consumes input\<close>

lemma numeral_loop_le: "numeral_loop expo ls = Inr ls' \<Longrightarrow> remaining ls' \<le> remaining ls"
proof (induction expo ls rule: numeral_loop.induct)
  case (1 expo ls)
  obtain b ls1 where 2: "check_next2 ls expo = Inr (b, ls1)"
    using 1(2) by (subst (asm) numeral_loop.simps) (auto simp: ebind_eq_Inr)
  let ?m = "if b then check_next2 ls1 (CHR ''-'', CHR ''+'') else Inr (False, ls1)"
  obtain u ls2 where 3: "?m = Inr (u, ls2)"
    using 1(2) 2 by (subst (asm) numeral_loop.simps) (force simp: ebind_eq_Inr)
  have le: "remaining ls2 \<le> remaining ls"
    using check_next2_le [OF 2] 3 by (auto split: if_splits dest: check_next2_le)
  show ?case
  proof (cases "lisxdigit (ls_current ls2) \<or> ls_current ls2 = Some (ch CHR ''.'')")
    case True
    then obtain ls3 where 4: "save_and_next ls2 = Inr ls3" "numeral_loop expo ls3 = Inr ls'"
      using 1(2) 2 3 by (subst (asm) numeral_loop.simps) (auto simp: ebind_eq_Inr)
    then show ?thesis using le save_and_next_le [OF 4(1)] "1.IH" [OF 2 refl 3 refl True 4] by simp
  next
    case False
    then show ?thesis using 1(2) 2 3 le by (subst (asm) numeral_loop.simps) auto
  qed
qed

lemma remaining_buffreplace [simp]: "remaining (buffreplace ls from to) = remaining ls"
  by (simp add: ls_input_def buffreplace_def)

lemma trydecpoint_same: "trydecpoint cv dp ls = Inr (obj, ls') \<Longrightarrow> remaining ls' = remaining ls"
  by (auto simp: trydecpoint_def Let_def ls_input_def buffreplace_def split: option.splits if_splits)

lemma read_numeral_less:
  assumes "read_numeral cv dp ls = Inr (tk, sem, ls')" and "ls_current ls \<noteq> None"
  shows "remaining ls' < remaining ls"
proof -
  obtain ls1 where 1: "save_and_next ls = Inr ls1" using assms(1) by (auto simp: read_numeral_def Let_def ebind_eq_Inr)
  let ?hex = "if ls_current ls = Some (ch CHR ''0'') then check_next2 ls1 (CHR ''x'', CHR ''X'') else Inr (False, ls1)"
  obtain hex ls2 where 2: "?hex = Inr (hex, ls2)"
    using assms(1) 1 by (auto simp: read_numeral_def Let_def ebind_eq_Inr simp del: split_paired_Ex)
  obtain ls3 where 3: "numeral_loop (if hex then (CHR ''P'', CHR ''p'') else (CHR ''E'', CHR ''e'')) ls2 = Inr ls3"
    using assms(1) 1 2 by (auto simp: read_numeral_def Let_def ebind_eq_Inr)
  obtain ls4 where 4: "save ls3 0 = Inr ls4" using assms(1) 1 2 3 by (auto simp: read_numeral_def Let_def ebind_eq_Inr)
  let ?b = "buffreplace ls4 46 (ls_decpoint ls4)"
  let ?n = "case buff2num cv ?b of Some obj \<Rightarrow> Inr (obj, ?b) | None \<Rightarrow> trydecpoint cv dp ?b"
  obtain obj ls5 where 5: "?n = Inr (obj, ls5)"
    using assms(1) 1 2 3 4 by (cases ?n) (auto simp: read_numeral_def Let_def)
  have "ls' = ls5" using assms(1) 1 2 3 4 5 by (simp add: read_numeral_def Let_def split: tvalue.splits)
  moreover have "remaining ls5 = remaining ls4" using 5 by (auto split: option.splits dest!: trydecpoint_same)
  moreover have "remaining ls2 \<le> remaining ls1" using 2 by (auto split: if_splits dest: check_next2_le)
  ultimately have "remaining ls' \<le> remaining ls1"
    using numeral_loop_le [OF 3] save_fields(3) [OF 4] by simp
  then show ?thesis using save_and_next_less [OF 1 assms(2)] by simp
qed

lemma read_string_loop_le: "read_string_loop del ls = Inr ls' \<Longrightarrow> remaining ls' \<le> remaining ls"
proof (induction del ls rule: read_string_loop.induct)
  case (1 del ls)
  show ?case
  proof (cases "ls_current ls = Some del")
    case True
    then show ?thesis using 1(3) by (subst (asm) read_string_loop.simps) simp
  next
    case False
    with 1(3) obtain c where c: "ls_current ls = Some c" "\<not> (c = 10 \<or> c = 13)"
      by (subst (asm) read_string_loop.simps) (auto split: option.splits if_splits)
    show ?thesis
    proof (cases "c = 0x5C")
      case True
      then obtain x y where x: "save_and_next ls = Inr x" "read_escape x = Inr y" "read_string_loop del y = Inr ls'"
        using 1(3) False c by (subst (asm) read_string_loop.simps) (auto simp: ebind_eq_Inr)
      then show ?thesis using "1.IH"(1) [OF False c True x] read_escape_le [OF x(2)] save_and_next_le [OF x(1)] by simp
    next
      case T: False
      then obtain x where x: "save_and_next ls = Inr x" "read_string_loop del x = Inr ls'"
        using 1(3) False c by (subst (asm) read_string_loop.simps) (auto simp: ebind_eq_Inr)
      then show ?thesis using "1.IH"(2) [OF False c T x] save_and_next_le [OF x(1)] by simp
    qed
  qed
qed

lemma read_string_less:
  assumes "read_string ls del = Inr (sem, ls')" and "ls_current ls \<noteq> None"
  shows "remaining ls' < remaining ls"
proof -
  obtain ls1 where 1: "save_and_next ls = Inr ls1" using assms(1) by (auto simp: read_string_def ebind_eq_Inr)
  have "remaining ls' \<le> remaining ls1"
    using assms(1) 1 unfolding read_string_def ebind_eq_Inr
    by (auto simp: ebind_eq_Inr split: if_splits dest!: newstring_same read_string_loop_le save_and_next_le)
  then show ?thesis using save_and_next_less [OF 1 assms(2)] by simp
qed

lemma read_name_le: "read_name ls = Inr ls' \<Longrightarrow> remaining ls' \<le> remaining ls"
proof (induction ls rule: read_name.induct)
  case (1 ls)
  obtain x where x: "save_and_next ls = Inr x" using 1(2) by (subst (asm) read_name.simps) (auto simp: ebind_eq_Inr)
  have "(if lislalnum (ls_current x) then read_name x else Inr x) = Inr ls'"
    using 1(2) x by (subst (asm) read_name.simps) simp
  then show ?case using "1.IH" [OF x] save_and_next_le [OF x] by (auto split: if_splits)
qed

lemma read_name_less: "read_name ls = Inr ls' \<Longrightarrow> ls_current ls \<noteq> None \<Longrightarrow> remaining ls' < remaining ls"
  by (subst (asm) read_name.simps)
    (auto simp: ebind_eq_Inr split: if_splits dest!: read_name_le save_and_next_less)

lemma check_next1_le: "check_next1 ls c = (b, ls') \<Longrightarrow> remaining ls' \<le> remaining ls"
  by (auto simp: check_next1_def split: if_splits)

lemma lex_one_less:
  "lex_one sem c ss ls = Inr (tk, sem', ls') \<Longrightarrow> ls_current ls \<noteq> None \<Longrightarrow> remaining ls' < remaining ls"
  using next_char_less [of ls] le_less_trans [OF next_char_le [of "next_char ls"], of "remaining ls"]
  by (auto simp: lex_one_def Let_def split: option.splits simp del: not_None_eq)

lemma lex_token_less:
  assumes "lex_token cv dp sem c ls = Inr (tk, sem', ls')" and c: "ls_current ls \<noteq> None"
  shows "remaining ls' < remaining ls"
  using assms(1) unfolding lex_token_def
proof (simp only: split: if_split_asm, goal_cases)
  case 1
  then show ?case using c
    by (auto simp: ebind_eq_Inr split: if_splits dest!: read_long_string_le skip_sep_less)
next
  case 8
  then show ?case using c by (auto simp: ebind_eq_Inr dest!: read_string_less)
next
  case 9
  then obtain x where x: "save_and_next ls = Inr x" by (auto simp: ebind_eq_Inr)
  have "remaining ls' \<le> remaining x" using 9 x
    by (auto simp: ebind_eq_Inr split: prod.splits bool.splits if_splits dest!: check_next1_le read_numeral_less dest: lis_Some)
  then show ?case using save_and_next_less [OF x c] by simp
next
  case 10
  then show ?case using c by (auto dest!: read_numeral_less)
next
  case 11
  then show ?case using c by (auto simp: ebind_eq_Inr dest!: read_name_less newstring_same)
qed (use c in \<open>auto dest: lex_one_less simp: next_char_less\<close>)

lemma llex_loop_less:
  "llex_loop cv dp sem ls = Inr (tk, sem', ls') \<Longrightarrow>
    remaining ls' \<le> remaining ls \<and> (tk \<noteq> TK_EOS \<longrightarrow> remaining ls' < remaining ls)"
proof (induction cv dp sem ls rule: llex_loop.induct)
  case (1 cv dp sem ls)
  show ?case
  proof (cases "ls_current ls")
    case None
    then show ?thesis using 1(4) by (simp add: llex_loop.simps [of cv dp sem ls])
  next
    case c: (Some c)
    have r: "(if c = 10 \<or> c = 13 then ebind (inclinenumber ls) (llex_loop cv dp sem)
        else if c = 0x20 \<or> c = 12 \<or> c = 9 \<or> c = 11 then llex_loop cv dp sem (next_char ls)
        else if c = ch CHR ''-'' then
          let ls1 = next_char ls in
          if ls_current ls1 \<noteq> Some (ch CHR ''-'') then Inr (unat (ch CHR ''-''), sem, ls1)
          else ebind (skip_comment (next_char ls1)) (llex_loop cv dp sem)
        else lex_token cv dp sem c ls) = Inr (tk, sem', ls')"
      using 1(4) by (simp only: llex_loop.simps [of cv dp sem ls] c option.case)
    have n: "remaining (next_char ls) < remaining ls" using c by (simp add: next_char_less)
    show ?thesis
      using r
    proof (simp only: split: if_split_asm, goal_cases)
      case A: 1
      then obtain x where x: "inclinenumber ls = Inr x" "llex_loop cv dp sem x = Inr (tk, sem', ls')"
        by (auto simp: ebind_eq_Inr simp del: split_paired_Ex)
      then show ?case using "1.IH"(1) [OF c A(1) x] inclinenumber_le [OF x(1)] by auto
    next
      case A: 2
      then show ?case using "1.IH"(2) [OF c A(1,2)] n by auto
    next
      case A: 3
      show ?case
      proof (cases "ls_current (next_char ls) = Some (ch CHR ''-'')")
        case True
        then obtain x where x: "skip_comment (next_char (next_char ls)) = Inr x" "llex_loop cv dp sem x = Inr (tk, sem', ls')"
          using A by (auto simp: Let_def ebind_eq_Inr simp del: split_paired_Ex)
        show ?thesis
          using "1.IH"(3) [OF c _ _ A(3) refl _ x] A(1-3) True skip_comment_le [OF x(1)] le_less_trans [OF next_char_le n] by fastforce
      qed (use A n in auto)
    next
      case 4
      then have "remaining ls' < remaining ls" using c by (auto intro: lex_token_less)
      then show ?case by simp
    qed
  qed
qed

section \<open>The counters\<close>

text \<open>
  Three counters of the lexer are of type \<open>int\<close>: the separators of a long bracket, twice the length
  of such a bracket, and the digits of an escape \<open>u\<close>.  None overflows while less than
  \<open>2 ^ 30 - 2\<close> bytes are left to read.
\<close>

abbreviation (input) short_input :: "lexstate \<Rightarrow> bool" where
  "short_input ls \<equiv> remaining ls + 2 < 2 ^ 30"

lemma save_counts [simp]: "no_overflow (save ls c)"
  by (auto simp: save_def lexerror_plain_def intro!: no_overflow_ebind)

lemma save_and_next_counts [simp]: "no_overflow (save_and_next ls)"
  unfolding save_and_next_def by (rule no_overflow_ebind) simp_all

lemma lexerror_counts [simp]: "no_overflow (Inl (lexerror ls msg token))"
proof (cases "save ls 0")
  case (Inl e)
  then have "e \<noteq> MemFault ''int overflow''" using save_counts [of ls 0] by (simp add: no_overflow_def)
  then show ?thesis using Inl by (simp add: lexerror_def txtToken_def Let_def no_overflow_def)
qed (simp add: lexerror_def txtToken_def Let_def)

lemma inclinenumber_counts [simp]: "no_overflow (inclinenumber ls)"
  by (simp add: inclinenumber_def Let_def)

lemma check_next2_counts [simp]: "no_overflow (check_next2 ls st)"
  unfolding check_next2_def by (intro no_overflow_if no_overflow_ebind) simp_all

lemma esccheck_counts [simp]: "no_overflow (esccheck ls c msg)"
  unfolding esccheck_def by (intro no_overflow_if no_overflow_ebind) simp_all

lemma buffremove_counts [simp]: "no_overflow (luaZ_buffremove ls i)"
  by (simp add: luaZ_buffremove_def)

lemma newstring_counts [simp]: "no_overflow (luaX_newstring ls pos len)"
  by (simp add: luaX_newstring_def Let_def)

lemma saves_counts [simp]: "no_overflow (efold (\<lambda>c ls. save ls c) cs ls)"
  by (induction cs arbitrary: ls) (auto intro: no_overflow_ebind)

lemma numeral_loop_counts [simp]: "no_overflow (numeral_loop expo ls)"
proof (induction expo ls rule: numeral_loop.induct)
  case (1 expo ls)
  show ?case
    unfolding numeral_loop.simps [of expo ls]
  proof (rule no_overflow_ebind, simp, rule no_overflow_split, rule no_overflow_ebind, simp, rule no_overflow_split,
      intro no_overflow_if, rule no_overflow_ebind, simp, goal_cases)
    case (1 x b ls1 y u ls2 z)
    then show ?case using "1.IH" [OF 1(1) 1(2) [symmetric] 1(3) 1(4) [symmetric] 1(5,6)] by simp
  qed simp
qed

lemma read_numeral_counts [simp]: "no_overflow (read_numeral cv dp ls)"
proof -
  have [simp]: "no_overflow (trydecpoint cv dp ls)" for ls
    by (simp add: trydecpoint_def Let_def split: option.split)
  show ?thesis
    unfolding read_numeral_def Let_def
    by (intro no_overflow_ebind no_overflow_split) (simp_all split: tvalue.split option.split)
qed

lemma skip_eqs_counts:
  "0 \<le> c \<Longrightarrow> c + int (remaining ls) \<le> 2 ^ 31 - 1 \<Longrightarrow> no_overflow (skip_eqs ls c)"
proof (induction ls c rule: skip_eqs.induct)
  case (1 ls c)
  show ?case
    unfolding skip_eqs.simps [of ls c]
  proof (rule no_overflow_if, rule no_overflow_ebind, simp, rule no_overflow_ebind, goal_cases)
    case (1 x)
    then have "remaining x < remaining ls" using save_and_next_less by force
    then show ?case using "1.prems" by simp
  next
    case (2 x y)
    then have "remaining x < remaining ls" using save_and_next_less by force
    then show ?case using "1.IH" [OF 2(1,2,3)] 2(3) "1.prems" by simp
  qed simp
qed

lemma skip_eqs_result: "skip_eqs ls c = Inr (r, ls') \<Longrightarrow> r + int (remaining ls') \<le> c + int (remaining ls)"
proof (induction ls c rule: skip_eqs.induct)
  case (1 ls c)
  show ?case
  proof (cases "ls_current ls = Some (ch CHR ''='')")
    case True
    then obtain x where x: "save_and_next ls = Inr x" "checked_int (c + 1) = Inr (c + 1)" "skip_eqs x (c + 1) = Inr (r, ls')"
      using 1(2) by (subst (asm) skip_eqs.simps) (auto simp: ebind_eq_Inr)
    have "remaining x < remaining ls" using save_and_next_less [OF x(1)] True by simp
    then show ?thesis using "1.IH" [OF True x] by simp
  qed (use 1(2) in \<open>simp add: skip_eqs.simps [of ls c]\<close>)
qed

lemma skip_sep_counts: "short_input ls \<Longrightarrow> no_overflow (skip_sep ls)"
  unfolding skip_sep_def Let_def
  by (rule no_overflow_ebind, simp, rule no_overflow_ebind, rule skip_eqs_counts)
    (auto dest!: save_and_next_le)

lemma skip_eqs_nonneg: "skip_eqs ls c = Inr (r, ls') \<Longrightarrow> c \<le> r"
proof (induction ls c rule: skip_eqs.induct)
  case (1 ls c)
  show ?case
  proof (cases "ls_current ls = Some (ch CHR ''='')")
    case True
    then obtain x where x: "save_and_next ls = Inr x" "checked_int (c + 1) = Inr (c + 1)" "skip_eqs x (c + 1) = Inr (r, ls')"
      using 1(2) by (subst (asm) skip_eqs.simps) (auto simp: ebind_eq_Inr)
    then show ?thesis using "1.IH" [OF True x] by simp
  qed (use 1(2) in \<open>simp add: skip_eqs.simps [of ls c]\<close>)
qed

lemma skip_sep_result:
  assumes "skip_sep ls = Inr (r, ls')"
  shows "r + int (remaining ls') \<le> int (remaining ls)" "remaining ls' \<le> remaining ls"
proof -
  obtain x c where x: "save_and_next ls = Inr x" "skip_eqs x 0 = Inr (c, ls')" "r \<le> c"
    using assms skip_eqs_nonneg by (fastforce simp: skip_sep_def Let_def ebind_eq_Inr split: if_splits)
  then show "r + int (remaining ls') \<le> int (remaining ls)" "remaining ls' \<le> remaining ls"
    using skip_eqs_result [OF x(2)] save_and_next_le [OF x(1)] skip_eqs_le [OF x(2)] by simp_all
qed

lemma long_string_loop_counts: "short_input ls \<Longrightarrow> no_overflow (long_string_loop keep line sep ls)"
proof (induction keep line sep ls rule: long_string_loop.induct)
  case (1 keep line sep ls)
  show ?case
  proof (cases "ls_current ls")
    case None
    then show ?thesis by (simp add: long_string_loop.simps [of keep line sep ls])
  next
    case (Some c)
    show ?thesis
      unfolding long_string_loop.simps [of keep line sep ls] Some option.case
    proof (intro no_overflow_if, goal_cases)
      case A: 1
      show ?case
      proof (rule no_overflow_ebind [OF skip_sep_counts [OF 1(4)]], rule no_overflow_split, intro no_overflow_if, goal_cases)
        case (2 x s ls1)
        then show ?case using "1.IH"(1) [OF Some A 2(1)] skip_sep_result(2) 1(4) by fastforce
      qed simp
    next
      case A: 2
      show ?case
      proof (rule no_overflow_ebind, simp, rule no_overflow_ebind, simp, goal_cases)
        case (1 x y)
        then show ?case using "1.IH"(2) [OF Some A 1] save_fields(3) [OF 1(1)] inclinenumber_le [OF 1(2)] \<open>short_input ls\<close> by auto
      qed
    next
      case A: 3
      show ?case
      proof (rule no_overflow_ebind, simp, goal_cases)
        case (1 x)
        then have "remaining x \<le> remaining ls" by (auto split: if_splits dest: save_and_next_le)
        then show ?case using "1.IH"(3) [OF Some A 1] \<open>short_input ls\<close> by simp
      qed
    qed
  qed
qed

lemma read_long_string_counts:
  assumes "short_input ls" and "keep \<Longrightarrow> sep + 2 < 2 ^ 30"
  shows "no_overflow (read_long_string ls keep sep)"
  unfolding read_long_string_def Let_def
proof (rule no_overflow_ebind, simp, rule no_overflow_ebind, simp, rule no_overflow_ebind, goal_cases)
  case (1 x y)
  then have "remaining y \<le> remaining x" by (auto split: if_splits dest: inclinenumber_le)
  then show ?case using assms(1) save_and_next_le [OF 1(1)] by (intro long_string_loop_counts) simp
next
  case (2 x y z)
  show ?case
    by (rule no_overflow_if, rule no_overflow_ebind, use assms(2) in simp, rule no_overflow_if, simp,
        rule no_overflow_ebind, simp, rule no_overflow_split) simp_all
qed

lemma gethexa_counts [simp]: "no_overflow (gethexa ls)"
  unfolding gethexa_def by (intro no_overflow_ebind) simp_all

lemma readhexaesc_counts [simp]: "no_overflow (readhexaesc ls)"
  unfolding readhexaesc_def by (intro no_overflow_ebind no_overflow_split) simp_all

lemma utf8esc_digits_counts:
  "int i + int (remaining ls) + (if ls_current ls = None then 1 else 0) \<le> 2 ^ 31 - 1 \<Longrightarrow>
    no_overflow (utf8esc_digits r i ls)"
proof (induction r i ls rule: utf8esc_digits.induct)
  case (1 r i ls)
  have less: "int i + 1 + int (remaining x) + (if ls_current x = None then 1 else 0) \<le> 2 ^ 31 - 1"
    if x: "save_and_next ls = Inr x" "lisxdigit (ls_current x)" for x
  proof -
    have "ls_current x \<noteq> None" using x(2) by (auto dest: lis_Some)
    then show ?thesis using 1(2) save_and_next_le [OF x(1)] save_and_next_less [OF x(1)] by (cases "ls_current ls") auto
  qed
  show ?case
    unfolding utf8esc_digits.simps [of r i ls] Let_def
  proof (rule no_overflow_ebind, simp, rule no_overflow_if, rule no_overflow_ebind, goal_cases)
    case (1 x)
    then show ?case using less [OF 1] by (simp split: if_splits)
  next
    case (2 x c)
    show ?case
    proof (rule no_overflow_ebind, simp, goal_cases)
      case (1 y)
      then have "y = x" by (simp add: esccheck_same)
      then show ?case using "1.IH" [OF 2 refl 1] less [OF 2(1,2)] by simp
    qed
  qed simp
qed

lemma utf8esc_counts: "short_input ls \<Longrightarrow> no_overflow (utf8esc ls)"
  unfolding utf8esc_def readutf8esc_def Let_def
proof (intro no_overflow_ebind no_overflow_split, goal_cases)
  case (4 x y z r ls1)
  then have "remaining ls1 \<le> remaining ls"
    by (auto simp: esccheck_same dest!: gethexa_le save_and_next_le)
  then show ?case using 4(1) by (intro utf8esc_digits_counts) simp
qed simp_all

lemma decesc_loop_counts [simp]: "no_overflow (decesc_loop n r i ls)"
  by (induction n arbitrary: r i ls) (auto simp: Let_def intro: no_overflow_ebind)

lemma readdecesc_counts [simp]: "no_overflow (readdecesc ls)"
  unfolding readdecesc_def by (intro no_overflow_ebind no_overflow_split) simp_all

lemma zap_spaces_counts [simp]: "no_overflow (zap_spaces ls)"
proof (induction ls rule: zap_spaces.induct)
  case (1 ls)
  show ?case
    unfolding zap_spaces.simps [of ls]
    by (rule no_overflow_if, rule no_overflow_ebind) (use "1.IH" in simp_all)
qed

lemma read_escape_counts:
  assumes "short_input ls"
  shows "no_overflow (read_escape ls)"
proof -
  have S: "no_overflow (ebind (luaZ_buffremove ls' 1) (\<lambda>ls. save ls c))" for ls' c
    by (rule no_overflow_ebind) simp_all
  show ?thesis
  proof (cases "ls_current ls")
    case None
    then show ?thesis by (simp add: read_escape_def)
  next
    case (Some e)
    show ?thesis
      unfolding read_escape_def Let_def Some option.case
      by (intro no_overflow_if S utf8esc_counts [OF assms] no_overflow_ebind [OF readhexaesc_counts]
          no_overflow_ebind [OF inclinenumber_counts] no_overflow_ebind [OF buffremove_counts]
          no_overflow_ebind [OF esccheck_counts] no_overflow_ebind [OF readdecesc_counts] no_overflow_split) simp_all
  qed
qed

lemma read_string_loop_counts: "short_input ls \<Longrightarrow> no_overflow (read_string_loop del ls)"
proof (induction del ls rule: read_string_loop.induct)
  case (1 del ls)
  show ?case
  proof (cases "ls_current ls")
    case None
    then show ?thesis by (simp add: read_string_loop.simps [of del ls])
  next
    case (Some c)
    show ?thesis
      unfolding read_string_loop.simps [of del ls]
    proof (rule no_overflow_if, simp, unfold Some option.case, intro no_overflow_if, goal_cases)
      case A: 2
      show ?case
      proof (rule no_overflow_ebind, simp, rule no_overflow_ebind, goal_cases)
        case (1 x)
        then show ?case using \<open>short_input ls\<close> save_and_next_le [OF 1] by (intro read_escape_counts) simp
      next
        case (2 x y)
        then show ?case using "1.IH"(1) [OF _ Some A(2,3) 2] A(1) Some \<open>short_input ls\<close>
            save_and_next_le [OF 2(1)] read_escape_le [OF 2(2)] by simp
      qed
    next
      case A: 3
      show ?case
      proof (rule no_overflow_ebind, simp, goal_cases)
        case (1 x)
        then show ?case using "1.IH"(2) [OF _ Some A(2,3) 1] A(1) Some \<open>short_input ls\<close> save_and_next_le [OF 1] by simp
      qed
    qed simp
  qed
qed

lemma read_string_counts: "short_input ls \<Longrightarrow> no_overflow (read_string ls del)"
  unfolding read_string_def
proof (rule no_overflow_ebind, simp, rule no_overflow_ebind, goal_cases)
  case (1 x)
  then show ?case using save_and_next_le [OF 1(2)] by (intro read_string_loop_counts) simp
next
  case (2 x y)
  show ?case by (intro no_overflow_ebind no_overflow_if no_overflow_split) simp_all
qed

lemma read_name_counts [simp]: "no_overflow (read_name ls)"
proof (induction ls rule: read_name.induct)
  case (1 ls)
  show ?case
    unfolding read_name.simps [of ls]
    by (rule no_overflow_ebind, simp, rule no_overflow_if) (use "1.IH" in simp_all)
qed

lemma lex_one_counts [simp]: "no_overflow (lex_one sem c seconds ls)"
  by (simp add: lex_one_def Let_def split: option.split prod.split)

lemma lex_token_counts:
  assumes "short_input ls"
  shows "no_overflow (lex_token cv dp sem c ls)"
  unfolding lex_token_def
proof (intro no_overflow_if, goal_cases)
  case 1
  show ?case
  proof (rule no_overflow_ebind [OF skip_sep_counts [OF assms]], rule no_overflow_split, intro no_overflow_if, goal_cases)
    case (1 x sep ls1)
    then have "short_input ls1" "sep + 2 < 2 ^ 30" using assms skip_sep_result [of ls sep ls1] by simp_all
    then have "no_overflow (read_long_string ls1 True sep)" by (rule read_long_string_counts)
    then show ?case by (rule no_overflow_ebind) (simp split: prod.split)
  qed simp_all
next
  case 8
  show ?case by (rule no_overflow_ebind [OF read_string_counts [OF assms]]) (simp split: prod.split)
next
  case 9
  show ?case by (rule no_overflow_ebind) (auto split: prod.split bool.split)
next
  case 11
  show ?case by (intro no_overflow_ebind no_overflow_split) simp_all
qed simp_all

lemma skip_comment_counts: "short_input ls \<Longrightarrow> no_overflow (skip_comment ls)"
  unfolding skip_comment_def
proof (intro no_overflow_if, goal_cases)
  case 1
  show ?case
  proof (rule no_overflow_ebind [OF skip_sep_counts [OF 1(1)]], rule no_overflow_split, unfold Let_def, intro no_overflow_if, goal_cases)
    case (1 x sep ls1)
    then have "short_input (luaZ_resetbuffer ls1)" using \<open>short_input ls\<close> skip_sep_result(2) [of ls sep ls1] by simp
    then have "no_overflow (read_long_string (luaZ_resetbuffer ls1) False sep)" by (rule read_long_string_counts) simp
    then show ?case by (rule no_overflow_ebind) (simp split: prod.split)
  qed simp
qed simp

lemma llex_loop_counts: "short_input ls \<Longrightarrow> no_overflow (llex_loop cv dp sem ls)"
proof (induction cv dp sem ls rule: llex_loop.induct)
  case (1 cv dp sem ls)
  show ?case
  proof (cases "ls_current ls")
    case None
    then show ?thesis by (simp add: llex_loop.simps [of cv dp sem ls])
  next
    case (Some c)
    note small = 1(4)
    show ?thesis
      unfolding llex_loop.simps [of cv dp sem ls] Some option.case
    proof (intro no_overflow_if, goal_cases)
      case A: 1
      show ?case
      proof (rule no_overflow_ebind, simp, goal_cases)
        case (1 x)
        then show ?case using "1.IH"(1) [OF Some A 1] inclinenumber_le [OF 1] small by simp
      qed
    next
      case A: 2
      have "short_input (next_char ls)" using le_less_trans [OF add_le_mono1 [OF next_char_le] small] .
      then show ?case by (rule "1.IH"(2) [OF Some A])
    next
      case A: 3
      have n: "short_input (next_char (next_char ls))"
        using le_trans [OF next_char_le [of "next_char ls"] next_char_le] small by (meson add_le_mono1 order_le_less_trans)
      show ?case
        unfolding Let_def
      proof (intro no_overflow_if, goal_cases)
        case B: 2
        show ?case
        proof (rule no_overflow_ebind [OF skip_comment_counts [OF n]], goal_cases)
          case (1 x)
          then show ?case using "1.IH"(3) [OF Some A refl B 1] skip_comment_le [OF 1] n by simp
        qed
      qed simp
    next
      case 4
      show ?case by (rule lex_token_counts [OF small])
    qed
  qed
qed

section \<open>The interface of the parser\<close>

text \<open>A state between two tokens: the buffer is sound and the look-ahead token well typed.\<close>

definition lex_ready :: "lexstate \<Rightarrow> bool" where
  "lex_ready ls \<longleftrightarrow> lok 0 (ls_lookahead ls) ls \<and> tk_token (ls_lookahead ls) \<le> TK_STRING \<and>
     (tk_token (ls_lookahead ls) \<noteq> TK_EOS \<longrightarrow> well_typed (tk_token (ls_lookahead ls)) (tk_seminfo (ls_lookahead ls)))"

lemma setinput_ready: "lex_ready (luaX_setinput z source c)"
  by (simp add: lex_ready_def lok_def luaX_setinput_def token_codes)

lemma llex_ok:
  assumes "lok 0 la ls"
  shows "wp (llex cv dp sem ls) lex_err (\<lambda>(tk, sem, ls).
     lok 0 la ls \<and> well_typed tk sem \<and> tk \<le> TK_STRING \<and> (tk = TK_EOS \<longrightarrow> ls_current ls = None))"
  unfolding llex_def by (rule llex_loop_lok) (rule lok_reset [OF assms])

lemma llex_less: "llex cv dp sem ls = Inr (tk, sem', ls') \<Longrightarrow> tk \<noteq> TK_EOS \<Longrightarrow> remaining ls' < remaining ls"
  unfolding llex_def by (drule llex_loop_less) simp

lemma llex_le: "llex cv dp sem ls = Inr (tk, sem', ls') \<Longrightarrow> remaining ls' \<le> remaining ls"
  unfolding llex_def by (drule llex_loop_less) simp

lemma luaX_next_le: "luaX_next cv dp ls = Inr ls' \<Longrightarrow> remaining ls' \<le> remaining ls"
  by (auto simp: luaX_next_def Let_def ebind_eq_Inr ls_input_def split: if_splits dest!: llex_le)

lemma luaX_lookahead_le: "luaX_lookahead cv dp ls = Inr (tk, ls') \<Longrightarrow> remaining ls' \<le> remaining ls"
  by (auto simp: luaX_lookahead_def ebind_eq_Inr ls_input_def dest!: llex_le)

lemma lok_tokens [simp]:
  "lok n la (ls\<lparr>ls_t := t\<rparr>) = lok n la ls" "lok n la (ls\<lparr>ls_lastline := l\<rparr>) = lok n la ls"
  "lok n la (ls\<lparr>ls_lookahead := la\<rparr>) = lok n (ls_lookahead ls) ls"
  by (auto simp: lok_def)

lemma lok_lookahead: "lok n la ls \<Longrightarrow> ls_lookahead ls = la"
  by (simp add: lok_def)

lemma lok_own: "lok n la ls \<Longrightarrow> lok n (ls_lookahead ls) ls"
  by (simp add: lok_def)

lemma lok_ready: "lok 0 la ls \<Longrightarrow> tk_token la = TK_EOS \<Longrightarrow> lex_ready (ls\<lparr>ls_t := t\<rparr>)"
  by (auto simp: lex_ready_def lok_def token_codes)

lemma setinput_simps [simp]:
  "tk_token (ls_lookahead (luaX_setinput z source c)) = TK_EOS"
  "ls_input (luaX_setinput z source c) = (case c of None \<Rightarrow> [] | Some c \<Rightarrow> [c]) @ z"
  by (simp_all add: luaX_setinput_def ls_input_def)

lemma luaX_next_ok:
  assumes "lex_ready ls"
  shows "wp (luaX_next cv dp ls) lex_err (\<lambda>ls'. lex_ready ls' \<and> tk_token (ls_t ls') \<le> TK_STRING \<and>
    well_typed (tk_token (ls_t ls')) (tk_seminfo (ls_t ls')))"
proof (cases "tk_token (ls_lookahead ls) \<noteq> TK_EOS")
  case True
  then show ?thesis using assms by (auto simp: luaX_next_def lex_ready_def lok_def token_codes)
next
  case False
  have ready: "lok 0 (ls_lookahead ls) (ls\<lparr>ls_lastline := ls_linenumber ls\<rparr>)" using assms by (simp add: lex_ready_def)
  have "wp (ebind (llex cv dp (tk_seminfo (ls_t ls)) (ls\<lparr>ls_lastline := ls_linenumber ls\<rparr>))
      (\<lambda>(token, sem, ls). Inr (ls\<lparr>ls_t := \<lparr>tk_token = token, tk_seminfo = sem\<rparr>\<rparr>))) lex_err
      (\<lambda>ls'. lex_ready ls' \<and> tk_token (ls_t ls') \<le> TK_STRING \<and> well_typed (tk_token (ls_t ls')) (tk_seminfo (ls_t ls')))"
    by (rule wp_ebind [OF llex_ok [OF ready]])
      (use False in \<open>auto intro: lok_ready\<close>)
  then show ?thesis using False by (simp add: luaX_next_def)
qed

lemma luaX_lookahead_ok:
  assumes "lex_ready ls"
  shows "wp (luaX_lookahead cv dp ls) lex_err (\<lambda>(tk, ls'). lex_ready ls' \<and> tk = tk_token (ls_lookahead ls') \<and>
    well_typed tk (tk_seminfo (ls_lookahead ls')))"
  unfolding luaX_lookahead_def
  by (rule wp_ebind [OF llex_ok [of "ls_lookahead ls"]])
    (use assms in \<open>auto simp: lex_ready_def token_codes intro: lok_own\<close>)

text \<open>A C library that reads no floats, for the examples.\<close>

definition no_floats :: conv where
  "no_floats = \<lparr>cv_strtod = \<lambda>s. (0, 0), cv_flt2str = \<lambda>f. []\<rparr>"

lemma lex_counts:
  assumes "short_input ls"
  shows "no_overflow (luaX_next cv dp ls)" "no_overflow (luaX_lookahead cv dp ls)"
proof -
  have L: "no_overflow (llex cv dp sem ls')" if "short_input ls'" for sem ls'
    using that unfolding llex_def by (intro llex_loop_counts) simp
  have "short_input (ls\<lparr>ls_lastline := ls_linenumber ls\<rparr>)" using assms by (simp add: ls_input_def)
  then show "no_overflow (luaX_next cv dp ls)"
    unfolding luaX_next_def Let_def by (intro no_overflow_if no_overflow_ebind [OF L] no_overflow_split) simp_all
  show "no_overflow (luaX_lookahead cv dp ls)"
    unfolding luaX_lookahead_def by (intro no_overflow_ebind [OF L [OF assms]] no_overflow_split) simp_all
qed

lemma lex_err_run: "wp m lex_err Q \<Longrightarrow> no_overflow m \<Longrightarrow> wp m (\<lambda>e. \<exists>msg. e = RunError msg) Q"
  by (cases m) (auto simp: lex_err_def no_overflow_def)

text \<open>C32:
  The interface of the parser never touches memory outside the token buffer and overflows no counter: from
  a state between two tokens with less than \<open>2 ^ 30 - 2\<close> bytes to read, reading or peeking a token either raises an
  error of the language or leaves such a state with no more bytes to read.  The state \<open>luaX_setinput\<close> makes
  is one, whatever the input.\<close>

theorem lexer_safe:
  assumes "lex_ready ls" and "length (ls_input ls) + 2 < 2 ^ 30"
  shows "lex_ready (luaX_setinput z source c) \<and>
    (case luaX_next cv dp ls of Inl e \<Rightarrow> \<exists>m. e = RunError m
     | Inr ls' \<Rightarrow> lex_ready ls' \<and> length (ls_input ls') \<le> length (ls_input ls)) \<and>
    (case luaX_lookahead cv dp ls of Inl e \<Rightarrow> \<exists>m. e = RunError m
     | Inr (tk, ls') \<Rightarrow> lex_ready ls' \<and> length (ls_input ls') \<le> length (ls_input ls))"
  using lex_err_run [OF luaX_next_ok [OF assms(1)] lex_counts(1) [OF assms(2)], of cv dp]
    lex_err_run [OF luaX_lookahead_ok [OF assms(1)] lex_counts(2) [OF assms(2)], of cv dp] setinput_ready
    luaX_next_le [of cv dp ls] luaX_lookahead_le [of cv dp ls]
  by (auto simp: wp_def split: sum.splits)

theorem lexer_safe_witness:
  "(let ls = luaX_setinput (str_bytes ''= 1'') None (Some 120) in
    case luaX_next no_floats 46 ls of Inl e \<Rightarrow> \<exists>m. e = RunError m
    | Inr ls' \<Rightarrow> lex_ready ls' \<and> length (ls_input ls') \<le> length (ls_input ls))"
  unfolding Let_def
  by (rule lexer_safe [OF setinput_ready, THEN conjunct2, THEN conjunct1]) simp

text \<open>C33:
  The semantic information of a token has the type its code promises: the integer of an integer numeral,
  the float of another one, the text of a name, a reserved word or a string.\<close>

theorem token_types:
  assumes "lex_ready ls"
  shows "(case luaX_next cv dp ls of Inl e \<Rightarrow> True
     | Inr ls' \<Rightarrow> well_typed (tk_token (ls_t ls')) (tk_seminfo (ls_t ls'))) \<and>
    (case luaX_lookahead cv dp ls of Inl e \<Rightarrow> True
     | Inr (tk, ls') \<Rightarrow> tk = tk_token (ls_lookahead ls') \<and> well_typed tk (tk_seminfo (ls_lookahead ls')))"
  using luaX_next_ok [OF assms, of cv dp] luaX_lookahead_ok [OF assms, of cv dp]
  by (auto simp: wp_def split: sum.splits)

theorem token_types_witness:
  "(let ls = luaX_setinput (str_bytes ''0x10'') None (Some 32) in
    case luaX_next no_floats 46 ls of Inl e \<Rightarrow> True
    | Inr ls' \<Rightarrow> well_typed (tk_token (ls_t ls')) (tk_seminfo (ls_t ls')))"
  using token_types [OF setinput_ready [of "str_bytes ''0x10''" None "Some 32"], where cv = no_floats and dp = 46]
  by (simp add: Let_def)

text \<open>Reading \<open>k\<close> tokens.\<close>

fun next_tokens :: "conv \<Rightarrow> byte \<Rightarrow> nat \<Rightarrow> lexstate \<Rightarrow> lexstate res" where
  "next_tokens cv dp 0 ls = Inr ls"
| "next_tokens cv dp (Suc k) ls = ebind (luaX_next cv dp ls) (next_tokens cv dp k)"

lemma next_step:
  assumes "lex_ready ls" and "tk_token (ls_lookahead ls) = TK_EOS" and "luaX_next cv dp ls = Inr ls'"
  shows "lex_ready ls' \<and> tk_token (ls_lookahead ls') = TK_EOS \<and>
    (if tk_token (ls_t ls') = TK_EOS then ls_current ls' = None else remaining ls' < remaining ls)"
proof -
  let ?ls = "ls\<lparr>ls_lastline := ls_linenumber ls\<rparr>"
  obtain tk sem ls1 where 1: "llex cv dp (tk_seminfo (ls_t ls)) ?ls = Inr (tk, sem, ls1)"
    "ls' = ls1\<lparr>ls_t := \<lparr>tk_token = tk, tk_seminfo = sem\<rparr>\<rparr>"
    using assms(2,3) by (auto simp: luaX_next_def Let_def ebind_eq_Inr)
  have "lok 0 (ls_lookahead ls) ?ls" using assms(1) by (simp add: lex_ready_def)
  then have "lok 0 (ls_lookahead ls) ls1" "tk = TK_EOS \<Longrightarrow> ls_current ls1 = None"
    using wp_value [OF llex_ok 1(1)] by auto
  moreover have "tk \<noteq> TK_EOS \<Longrightarrow> remaining ls1 < remaining ls"
    using llex_less [OF 1(1)] by (simp add: ls_input_def)
  moreover have "lex_ready ls'" using luaX_next_ok [OF assms(1), of cv dp] assms(3) by simp
  ultimately show ?thesis using 1(2) assms(2) lok_lookahead [of 0 "ls_lookahead ls" ls1] by (simp add: ls_input_def)
qed

text \<open>C34:
  Reading tokens reaches the end of the source or an error of the language after at most one call more than
  there are bytes, for a source of less than \<open>2 ^ 30 - 2\<close> bytes.\<close>

theorem lexer_ends:
  assumes "lex_ready ls" and "tk_token (ls_lookahead ls) = TK_EOS" and "length (ls_input ls) + 2 < 2 ^ 30"
  shows "\<exists>k \<le> length (ls_input ls) + 1. case next_tokens cv dp k ls of
      Inl e \<Rightarrow> \<exists>m. e = RunError m
    | Inr ls' \<Rightarrow> tk_token (ls_t ls') = TK_EOS \<and> ls_current ls' = None"
  using assms
proof (induction "remaining ls" arbitrary: ls rule: less_induct)
  case less
  show ?case
  proof (cases "luaX_next cv dp ls")
    case (Inl e)
    then have "\<exists>m. e = RunError m"
      using lex_err_run [OF luaX_next_ok [OF less(2)] lex_counts(1) [OF less(4)], of cv dp] by simp
    then show ?thesis using Inl by (intro exI [of _ 1]) simp
  next
    case (Inr ls1)
    note s = next_step [OF less(2,3) Inr]
    show ?thesis
    proof (cases "tk_token (ls_t ls1) = TK_EOS")
      case True
      then show ?thesis using s Inr by (intro exI [of _ 1]) simp
    next
      case False
      then obtain k where "k \<le> remaining ls1 + 1" "case next_tokens cv dp k ls1 of
          Inl e \<Rightarrow> \<exists>m. e = RunError m | Inr ls' \<Rightarrow> tk_token (ls_t ls') = TK_EOS \<and> ls_current ls' = None"
        using less(1) [of ls1] s less(4) by auto
      then show ?thesis using s False Inr by (intro exI [of _ "Suc k"]) simp
    qed
  qed
qed

theorem lexer_ends_witness:
  "\<exists>k \<le> length (str_bytes ''+=='') + 1. case next_tokens no_floats 46 k (luaX_setinput (str_bytes ''+=='') None None) of
      Inl e \<Rightarrow> \<exists>m. e = RunError m
    | Inr ls' \<Rightarrow> tk_token (ls_t ls') = TK_EOS \<and> ls_current ls' = None"
  using lexer_ends [OF setinput_ready setinput_simps(1), of "str_bytes ''+==''" None None no_floats 46]
  by simp

end
