(* ===== verification/Lua_Lex_Print.thy ===== *)
theory Lua_Lex_Print
  imports Lua_Lex_Safe Lua_Number_Spec
begin

text \<open>
  What the lexer makes of well-formed text.  \<open>reading\<close> describes a state by its input, its
  buffer and its line; the operations are rules on it.  The properties are round trips: the
  text \<open>string.format\<close> makes of a string with \<open>%q\<close> is a string token with that content, a
  long string keeps its content, and a sequence of tokens printed with spaces between them is
  read as that sequence.
\<close>

section \<open>Writing a string as a literal\<close>

text \<open>\<open>addquoted\<close> of \<open>lstrlib.c\<close>; \<open>sprintf\<close> with \<open>%03d\<close> pads with zeros.\<close>

definition sprintf_03d :: "nat \<Rightarrow> byte list" where
  "sprintf_03d n = replicate (3 - length (dec_text n)) (ch CHR ''0'') @ dec_text n"

fun addquoted_loop :: "byte list \<Rightarrow> byte list" where
  "addquoted_loop [] = []"
| "addquoted_loop (c # cs) =
     (if c = 0x22 \<or> c = 0x5C \<or> c = 10 then [0x5C, c]
      else if c = 0 \<or> iscntrl c then
        let next = (case cs of [] \<Rightarrow> 0 | d # _ \<Rightarrow> d) in
        0x5C # (if \<not> isdigit next then dec_text (unat c) else sprintf_03d (unat c))
      else [c]) @ addquoted_loop cs"

definition addquoted :: "byte list \<Rightarrow> byte list" where
  "addquoted s = [0x22] @ addquoted_loop s @ [0x22]"

section \<open>States of the lexer\<close>

definition reading :: "lexstate \<Rightarrow> byte list \<Rightarrow> byte list \<Rightarrow> nat \<Rightarrow> bool" where
  "reading ls inp buf line \<longleftrightarrow>
     (ls_current ls = None \<longrightarrow> ls_z ls = []) \<and> ls_input ls = inp \<and> ls_buff ls = buf \<and> ls_linenumber ls = line \<and>
     LUA_MINBUFFER \<le> ls_buffsize ls \<and> length buf \<le> ls_buffsize ls \<and> ls_decpoint ls = ch CHR ''.'' \<and>
     tk_token (ls_lookahead ls) = TK_EOS"

text \<open>A computation that succeeds with a result that satisfies \<open>Q\<close>.\<close>

abbreviation succeeds :: "'a res \<Rightarrow> ('a \<Rightarrow> bool) \<Rightarrow> bool" where
  "succeeds m Q \<equiv> wp m (\<lambda>e. False) Q"

definition ROOM :: nat where "ROOM = MAX_SIZE div 2"

lemma reading_current: "reading ls (c # cs) b l \<Longrightarrow> ls_current ls = Some c"
  by (auto simp: reading_def ls_input_def split: option.splits)

lemma reading_end: "reading ls [] b l \<Longrightarrow> ls_current ls = None"
  by (auto simp: reading_def ls_input_def split: option.splits)

lemma reading_next: "reading ls (c # cs) b l \<Longrightarrow> reading (next_char ls) cs b l"
  by (auto simp: reading_def ls_input_def next_char_def split: option.splits list.splits)

lemma reading_newline: "reading ls (c # cs) b l \<Longrightarrow> currIsNewline ls \<longleftrightarrow> c = 10 \<or> c = 13"
  by (auto simp: currIsNewline_def dest: reading_current)

lemma save_reading:
  "reading ls inp b l \<Longrightarrow> length b < ROOM \<Longrightarrow> succeeds (save ls c) (\<lambda>ls. reading ls inp (b @ [c]) l)"
  by (auto simp: save_def reading_def ls_input_def ROOM_def LUA_MINBUFFER_def)

lemma save_next_reading:
  "reading ls (c # cs) b l \<Longrightarrow> length b < ROOM \<Longrightarrow>
     succeeds (save_and_next ls) (\<lambda>ls. reading ls cs (b @ [c]) l)"
  unfolding save_and_next_def
  by (rule wp_ebind [OF save_reading], assumption+) (simp add: reading_next reading_current cast_char_def)

lemma buffremove_reading:
  "reading ls inp (b @ d) l \<Longrightarrow> succeeds (luaZ_buffremove ls (length d)) (\<lambda>ls. reading ls inp b l)"
  by (auto simp: luaZ_buffremove_def reading_def ls_input_def)

lemma reset_reading: "reading ls inp b l \<Longrightarrow> reading (luaZ_resetbuffer ls) inp [] l"
  by (auto simp: luaZ_resetbuffer_def reading_def ls_input_def)

text \<open>A line break is one or two characters.\<close>

definition after_newline :: "byte \<Rightarrow> byte list \<Rightarrow> byte list" where
  "after_newline c cs = (case cs of d # ds \<Rightarrow> if (d = 10 \<or> d = 13) \<and> d \<noteq> c then ds else cs | [] \<Rightarrow> [])"

lemma inclinenumber_reading:
  assumes "reading ls (c # cs) b l" and "l + 1 < MAX_LINES"
  shows "succeeds (inclinenumber ls) (\<lambda>ls. reading ls (after_newline c cs) b (l + 1))"
proof -
  have c: "ls_current ls = Some c" and n: "reading (next_char ls) cs b l"
    using assms(1) by (auto dest: reading_current reading_next)
  have line: "reading (ls'\<lparr>ls_linenumber := ls_linenumber ls' + 1\<rparr>) inp b (l + 1)" if "reading ls' inp b l" for ls' inp
    using that by (auto simp: reading_def ls_input_def)
  show ?thesis
  proof (cases cs)
    case Nil
    then have "\<not> currIsNewline (next_char ls)" using n by (simp add: currIsNewline_def reading_end)
    moreover have "ls_linenumber (next_char ls) = l" using n by (simp add: reading_def)
    ultimately show ?thesis using line [OF n] assms(2) Nil
      by (simp add: inclinenumber_def Let_def after_newline_def)
  next
    case (Cons d ds)
    note d = reading_newline [OF n [unfolded Cons]] reading_current [OF n [unfolded Cons]]
    note n2 = reading_next [OF n [unfolded Cons]]
    have "ls_linenumber (next_char ls) = l" "ls_linenumber (next_char (next_char ls)) = l"
      using n n2 by (simp_all add: reading_def)
    then show ?thesis
      using line [OF n] line [OF n2] assms(2) c d Cons
      by (auto simp: inclinenumber_def Let_def after_newline_def)
  qed
qed

lemma newstring_reading:
  "reading ls inp b l \<Longrightarrow> pos + len \<le> length b \<Longrightarrow>
     succeeds (luaX_newstring ls pos len) (\<lambda>(ts, ls). ts = take len (drop pos b) \<and> reading ls inp b l)"
  by (auto simp: luaX_newstring_def reading_def ls_input_def Let_def)

section \<open>Escape sequences in digits\<close>

definition digits_value :: "nat \<Rightarrow> byte list \<Rightarrow> nat" where
  "digits_value r ds = fold (\<lambda>c r. 10 * r + unat c - 48) ds r"

lemma decesc_reading:
  assumes "reading ls (ds @ c # r) b l" and "list_all isdigit ds" and "length ds \<le> n"
    and "length ds = n \<or> \<not> isdigit c" and "length b + length ds < ROOM"
  shows "succeeds (decesc_loop n v i ls) (\<lambda>(v', j, ls).
    v' = digits_value v ds \<and> j = i + length ds \<and> reading ls (c # r) (b @ ds) l)"
  using assms
proof (induction ds arbitrary: n v i ls b)
  case Nil
  then have "ls_current ls = Some c" by (auto dest: reading_current)
  then show ?case using Nil by (cases n) (auto simp: digits_value_def lis_Some_eq)
next
  case (Cons d ds)
  then obtain m where m: "n = Suc m" by (cases n) auto
  have d: "ls_current ls = Some d" using Cons.prems(1) by (auto dest: reading_current)
  show ?case
    unfolding m decesc_loop.simps Let_def d
  proof (rule wp_if, rule wp_ebind [OF save_next_reading [of _ d "ds @ c # r" b l]], goal_cases)
    case (3 ls1)
    have "succeeds (decesc_loop m (10 * v + unat d - 48) (i + 1) ls1) (\<lambda>(v', j, ls).
        v' = digits_value (10 * v + unat d - 48) ds \<and> j = i + 1 + length ds \<and> reading ls (c # r) ((b @ [d]) @ ds) l)"
      by (rule Cons.IH) (use Cons.prems m 3 in auto)
    then show ?case by (simp add: cast_char_def digits_value_def)
  qed (use Cons.prems m in \<open>auto simp: lis_Some_eq\<close>)
qed

lemma digits_value_dec: "digits_value 0 (dec_text n) = n"
proof (induction n rule: dec_text.induct)
  case (1 n)
  have u: "unat (of_nat (48 + n mod 10) :: byte) = 48 + n mod 10" by (intro unat_of_nat_small) simp
  show ?case
    by (subst dec_text.simps) (use 1 in \<open>simp add: digits_value_def u del: of_nat_add\<close>)
qed

lemma digits_value_zeros: "digits_value 0 (replicate k 48 @ ds) = digits_value 0 ds"
  by (induction k) (simp_all add: digits_value_def)

lemma dec_text_length: "n < 10 \<Longrightarrow> length (dec_text n) = 1" "n < 100 \<Longrightarrow> length (dec_text n) \<le> 2"
  "n < 1000 \<Longrightarrow> length (dec_text n) \<le> 3"
proof -
  show 1: "length (dec_text n) = 1" if "n < 10" for n using that by (subst dec_text.simps) simp
  show 2: "length (dec_text n) \<le> 2" if "n < 100" for n using that 1 [of "n div 10"] by (subst dec_text.simps) auto
  show "length (dec_text n) \<le> 3" if "n < 1000" using that 2 [of "n div 10"] by (subst dec_text.simps) auto
qed

lemma readdecesc_reading:
  assumes "reading ls (ds @ c # r) b l" and "list_all isdigit ds" and "length ds \<le> 3"
    and "length ds = 3 \<or> \<not> isdigit c" and "length b + length ds < ROOM" and "digits_value 0 ds \<le> 255"
  shows "succeeds (readdecesc ls) (\<lambda>(v, ls). v = digits_value 0 ds \<and> reading ls (c # r) b l)"
  unfolding readdecesc_def
  by (rule wp_ebind [OF decesc_reading [OF assms(1-5)]])
    (auto simp: esccheck_def assms(6) intro!: wp_ebind [OF buffremove_reading [of _ _ b ds l]])


section \<open>Quoted strings\<close>

text \<open>What follows a character in a quoted string: the next piece, or the closing quote.\<close>

lemma addquoted_head:
  "\<exists>d ds. addquoted_loop cs @ 0x22 # r = d # ds \<and> d \<noteq> 13 \<and>
     (isdigit d \<longrightarrow> (case cs of [] \<Rightarrow> False | c # _ \<Rightarrow> isdigit c))"
proof (cases cs)
  case (Cons c cs')
  have "\<not> isdigit 0x5C" "\<not> isdigit (0x22 :: byte)" "iscntrl 13" by code_simp+
  then show ?thesis using Cons by (auto simp: Let_def)
qed (simp add: isdigit_def)

lemma cntrl_less: "iscntrl c \<Longrightarrow> unat c < 128"
  by (auto simp: iscntrl_def word_less_nat_alt)

lemma read_escape_self:
  assumes "reading ls (c # cs) (b @ [0x5C]) l" and "c = 0x22 \<or> c = 0x5C" and "length b < ROOM"
  shows "succeeds (read_escape ls) (\<lambda>ls. reading ls cs (b @ [c]) l)"
proof -
  have c: "ls_current ls = Some c" using assms(1) by (rule reading_current)
  have "succeeds (ebind (luaZ_buffremove (next_char ls) (length [0x5C :: byte])) (\<lambda>ls. save ls c)) (\<lambda>ls. reading ls cs (b @ [c]) l)"
    by (rule wp_ebind [OF buffremove_reading [OF reading_next [OF assms(1)]]]) (rule save_reading [OF _ assms(3)])
  then show ?thesis using assms(2) c by (auto simp: read_escape_def Let_def)
qed

lemma read_escape_newline:
  assumes "reading ls (10 # d # cs) (b @ [0x5C]) l" and "d \<noteq> 13" and "length b < ROOM" and "l + 1 < MAX_LINES"
  shows "succeeds (read_escape ls) (\<lambda>ls. reading ls (d # cs) (b @ [10]) (l + 1))"
proof -
  have c: "ls_current ls = Some 10" using assms(1) by (rule reading_current)
  have "succeeds (ebind (inclinenumber ls) (\<lambda>ls. ebind (luaZ_buffremove ls (length [0x5C :: byte])) (\<lambda>ls. save ls 10)))
    (\<lambda>ls. reading ls (d # cs) (b @ [10]) (l + 1))"
  proof (rule wp_ebind [OF inclinenumber_reading [OF assms(1,4)]], rule wp_ebind [OF buffremove_reading])
    show "reading x (d # cs) (b @ [0x5C]) (l + 1)" if "reading x (after_newline 10 (d # cs)) (b @ [0x5C]) (l + 1)" for x
      using that assms(2) by (simp add: after_newline_def)
  qed (rule save_reading [OF _ assms(3)])
  then show ?thesis using c by (simp add: read_escape_def)
qed

lemma digit_escape:
  assumes "isdigit d"
  shows "d \<notin> {ch CHR ''a'', ch CHR ''b'', ch CHR ''f'', ch CHR ''n'', ch CHR ''r'', ch CHR ''t'', ch CHR ''v'', ch CHR ''x'',
    ch CHR ''u'', ch CHR ''z'', 10, 13, 0x5C, 0x22, 0x27}"
  using assms by (auto simp: isdigit_def word_le_nat_alt)

lemma read_escape_digits:
  assumes "reading ls (ds @ c # r) (b @ [0x5C]) l" and "list_all isdigit ds" and "ds \<noteq> []" and "length ds \<le> 3"
    and "length ds = 3 \<or> \<not> isdigit c" and "length b + 4 < ROOM" and "digits_value 0 ds \<le> 255"
  shows "succeeds (read_escape ls) (\<lambda>ls. reading ls (c # r) (b @ [of_nat (digits_value 0 ds)]) l)"
proof -
  obtain d ds' where ds: "ds = d # ds'" using assms(3) by (cases ds) auto
  then have d: "ls_current ls = Some d" "isdigit d" using assms(1,2) by (auto dest: reading_current)
  have "succeeds (ebind (readdecesc ls) (\<lambda>(c, ls). ebind (luaZ_buffremove ls (length [0x5C :: byte])) (\<lambda>ls. save ls (of_nat c))))
    (\<lambda>ls. reading ls (c # r) (b @ [of_nat (digits_value 0 ds)]) l)"
  proof (rule wp_ebind [OF readdecesc_reading [OF assms(1,2,4,5) _ assms(7)]], use assms(4,6) in simp, rule wp_split)
    fix x v ls1
    assume "case x of (v, ls) \<Rightarrow> v = digits_value 0 ds \<and> reading ls (c # r) (b @ [0x5C]) l" "x = (v, ls1)"
    then have v: "v = digits_value 0 ds" "reading ls1 (c # r) (b @ [0x5C]) l" by auto
    show "succeeds (ebind (luaZ_buffremove ls1 (length [0x5C :: byte])) (\<lambda>ls. save ls (of_nat v)))
      (\<lambda>ls. reading ls (c # r) (b @ [of_nat (digits_value 0 ds)]) l)"
      unfolding v(1) by (rule wp_ebind [OF buffremove_reading [OF v(2)]], rule save_reading) (use assms(6) in simp_all)
  qed
  then show ?thesis
    using d digit_escape [OF d(2)] by (simp add: read_escape_def lis_Some_eq esccheck_def)
qed

lemma zeros_digits: "list_all isdigit (replicate k (48 :: byte))"
  by (simp add: list_all_iff isdigit_def)

text \<open>The digits of an escaped control character.\<close>

definition cntrl_digits :: "byte \<Rightarrow> byte list \<Rightarrow> byte list" where
  "cntrl_digits c cs =
     (let next = (case cs of [] \<Rightarrow> 0 | d # _ \<Rightarrow> d) in
      if \<not> isdigit next then dec_text (unat c) else sprintf_03d (unat c))"

lemma cntrl_digits:
  assumes "c = 0 \<or> iscntrl c"
  shows "list_all isdigit (cntrl_digits c cs)" "cntrl_digits c cs \<noteq> []" "length (cntrl_digits c cs) \<le> 3"
    "digits_value 0 (cntrl_digits c cs) = unat c"
    "length (cntrl_digits c cs) = 3 \<or> (case cs of [] \<Rightarrow> True | d # _ \<Rightarrow> \<not> isdigit d)"
proof -
  have "unat c < 1000" using assms cntrl_less [of c] by auto
  then have "length (dec_text (unat c)) \<le> 3" by (rule dec_text_length)
  then show "list_all isdigit (cntrl_digits c cs)" "cntrl_digits c cs \<noteq> []" "length (cntrl_digits c cs) \<le> 3"
    "digits_value 0 (cntrl_digits c cs) = unat c"
    "length (cntrl_digits c cs) = 3 \<or> (case cs of [] \<Rightarrow> True | d # _ \<Rightarrow> \<not> isdigit d)"
    by (auto simp: cntrl_digits_def Let_def sprintf_03d_def dec_text_digits zeros_digits digits_value_zeros digits_value_dec
        split: list.split)
qed

lemma addquoted_cntrl:
  assumes "c = 0 \<or> iscntrl c" and "c \<noteq> 10"
  shows "addquoted_loop (c # cs) = 0x5C # cntrl_digits c cs @ addquoted_loop cs"
proof -
  have "\<not> iscntrl 0x22" "\<not> iscntrl (0x5C :: byte)" by code_simp+
  then have "c \<noteq> 0x22" "c \<noteq> 0x5C" using assms by auto
  then show ?thesis using assms by (simp add: cntrl_digits_def Let_def)
qed

lemma addquoted_longer: "length s \<le> length (addquoted_loop s)"
proof (induction s)
  case (Cons c cs)
  then show ?case by (auto simp: Let_def)
qed simp

declare addquoted_loop.simps(2) [simp del]

text \<open>One round of the loop, behind what it does with the current character.\<close>

lemma string_loop_escape:
  assumes "reading ls (0x5C # cs) b l" and "length b < ROOM"
    and "\<And>ls. reading ls cs (b @ [0x5C]) l \<Longrightarrow> succeeds (read_escape ls) P"
    and "\<And>ls. P ls \<Longrightarrow> succeeds (read_string_loop 0x22 ls) Q"
  shows "succeeds (read_string_loop 0x22 ls) Q"
proof -
  have c: "ls_current ls = Some 0x5C" using assms(1) by (rule reading_current)
  have "succeeds (ebind (save_and_next ls) (\<lambda>ls. ebind (read_escape ls) (read_string_loop 0x22))) Q"
    by (rule wp_ebind [OF save_next_reading [OF assms(1,2)]], rule wp_ebind [OF assms(3)]) (use assms(4) in auto)
  then show ?thesis by (simp add: read_string_loop.simps [of "0x22" ls] c)
qed

lemma read_quoted_loop:
  assumes "reading ls (addquoted_loop s @ 0x22 # r) b l"
    and "length b + length (addquoted_loop s) + 4 < ROOM" and "l + count_list s 10 < MAX_LINES"
  shows "succeeds (read_string_loop 0x22 ls) (\<lambda>ls. reading ls (0x22 # r) (b @ s) (l + count_list s 10))"
  using assms
proof (induction s arbitrary: ls b l)
  case Nil
  then have "ls_current ls = Some 0x22" by (auto dest: reading_current)
  then show ?case using Nil by (simp add: read_string_loop.simps [of "0x22" ls])
next
  case (Cons c s)
  let ?Q = "\<lambda>ls. reading ls (0x22 # r) (b @ c # s) (l + count_list (c # s) 10)"
  obtain d ds where nx: "addquoted_loop s @ 0x22 # r = d # ds" "d \<noteq> 13"
    "isdigit d \<Longrightarrow> (case s of [] \<Rightarrow> False | c # _ \<Rightarrow> isdigit c)" using addquoted_head by blast
  have rest: "succeeds (read_string_loop 0x22 ls') ?Q"
    if "reading ls' (d # ds) (b @ [c]) (l + (if c = 10 then 1 else 0))" "length (addquoted_loop s) < length (addquoted_loop (c # s))" for ls'
  proof -
    have "reading ls' (addquoted_loop s @ 0x22 # r) (b @ [c]) (l + (if c = 10 then 1 else 0))" using that(1) nx(1) by simp
    from Cons.IH [OF this] show ?thesis using Cons.prems(2,3) that(2) by (simp split: if_splits)
  qed
  consider "c = 0x22 \<or> c = 0x5C" | "c = 10" | "c = 0 \<or> iscntrl c" "c \<noteq> 10"
    | "c \<notin> {0x22, 0x5C, 10, 0}" "\<not> iscntrl c" by auto
  then show ?case
  proof cases
    case 1
    then have q: "addquoted_loop (c # s) = 0x5C # c # addquoted_loop s" by (auto simp: addquoted_loop.simps)
    show ?thesis
    proof (rule string_loop_escape [where P = "\<lambda>ls. reading ls (d # ds) (b @ [c]) l"])
      show "reading ls (0x5C # c # d # ds) b l" using Cons.prems(1) q nx(1) by simp
      show "succeeds (read_string_loop 0x22 ls) ?Q" if "reading ls (d # ds) (b @ [c]) l" for ls
        using rest [of ls] that 1 q by auto
      show "succeeds (read_escape ls) (\<lambda>ls. reading ls (d # ds) (b @ [c]) l)"
        if "reading ls (c # d # ds) (b @ [0x5C]) l" for ls
        by (rule read_escape_self [OF that 1]) (use Cons.prems(2) in simp)
    qed (use Cons.prems(2) in simp)
  next
    case 2
    then have q: "addquoted_loop (c # s) = 0x5C # 10 # addquoted_loop s" by (simp add: addquoted_loop.simps)
    show ?thesis
    proof (rule string_loop_escape [where P = "\<lambda>ls. reading ls (d # ds) (b @ [c]) (l + 1)"])
      show "reading ls (0x5C # 10 # d # ds) b l" using Cons.prems(1) q nx(1) by simp
      show "succeeds (read_string_loop 0x22 ls) ?Q" if "reading ls (d # ds) (b @ [c]) (l + 1)" for ls
        using rest [of ls] that 2 q by auto
      show "succeeds (read_escape ls) (\<lambda>ls. reading ls (d # ds) (b @ [c]) (l + 1))"
        if "reading ls (10 # d # ds) (b @ [0x5C]) l" for ls
        unfolding 2 by (rule read_escape_newline [OF that nx(2)]) (use Cons.prems(2,3) 2 in simp_all)
    qed (use Cons.prems(2) in simp)
  next
    case 3
    note q = addquoted_cntrl [OF 3] and k = cntrl_digits [OF 3(1)]
    have n: "length (cntrl_digits c s) = 3 \<or> \<not> isdigit d" using k(5) [of s] nx(3) by (auto split: list.splits)
    have v: "digits_value 0 (cntrl_digits c s) \<le> 255" using k(4) [of s] byte_256 [of c] by simp
    show ?thesis
    proof (rule string_loop_escape [where P = "\<lambda>ls. reading ls (d # ds) (b @ [c]) l"])
      show "reading ls (0x5C # cntrl_digits c s @ d # ds) b l" using Cons.prems(1) q [of s] nx(1) by simp
      show "succeeds (read_string_loop 0x22 ls) ?Q" if "reading ls (d # ds) (b @ [c]) l" for ls
        using rest [of ls] that 3 q [of s] by auto
      show "succeeds (read_escape ls) (\<lambda>ls. reading ls (d # ds) (b @ [c]) l)"
        if "reading ls (cntrl_digits c s @ d # ds) (b @ [0x5C]) l" for ls
        using read_escape_digits [OF that k(1,2,3) n _ v] Cons.prems(2) k(4) [of s] by simp
    qed (use Cons.prems(2) in simp)
  next
    case 4
    then have q: "addquoted_loop (c # s) = c # addquoted_loop s" by (simp add: addquoted_loop.simps)
    have "iscntrl 13" by code_simp
    then have "c \<noteq> 13" using 4 by auto
    have cur: "ls_current ls = Some c" using Cons.prems(1) q by (auto dest: reading_current)
    have r: "reading ls (c # d # ds) b l" using Cons.prems(1) q nx(1) by simp
    have "succeeds (ebind (save_and_next ls) (read_string_loop 0x22)) ?Q"
      by (rule wp_ebind [OF save_next_reading [OF r]], use Cons.prems(2) in simp, rule rest) (use 4 q in auto)
    then show ?thesis using 4 \<open>c \<noteq> 13\<close> cur by (simp add: read_string_loop.simps [of "0x22" ls])
  qed
qed


lemma read_string_quoted:
  assumes "reading ls (addquoted s @ r) [] l"
    and "length (addquoted s) + 8 < ROOM" and "l + count_list s 10 < MAX_LINES"
  shows "succeeds (read_string ls 0x22) (\<lambda>(sem, ls). sem = SemStr s \<and>
    reading ls r ([0x22] @ s @ [0x22]) (l + count_list s 10))"
  unfolding read_string_def
proof (rule wp_ebind [OF save_next_reading [of ls "0x22" "addquoted_loop s @ 0x22 # r" "[]" l]], goal_cases)
  case (3 ls1)
  show ?case
  proof (rule wp_ebind [OF read_quoted_loop [of ls1 s r "[0x22]" l]], goal_cases)
    case (4 ls2)
    have len: "length ([0x22] @ s) < ROOM" using addquoted_longer [of s] assms(2) by (simp add: addquoted_def)
    show ?case
    proof (rule wp_ebind [OF save_next_reading [OF 4 len]])
      fix x assume x: "reading x r (([0x22] @ s) @ [0x22]) (l + count_list s 10)"
      then have "ls_buff x = 0x22 # s @ [0x22]" by (simp add: reading_def)
      then show "succeeds (if length (ls_buff x) < 2 then Inl (MemFault ''read behind the buffer'')
          else ebind (luaX_newstring x 1 (length (ls_buff x) - 2)) (\<lambda>(ts, ls). Inr (SemStr ts, ls)))
        (\<lambda>(sem, ls). sem = SemStr s \<and> reading ls r ([0x22] @ s @ [0x22]) (l + count_list s 10))"
        by (auto intro!: wp_ebind [OF newstring_reading [OF x]] split: prod.split)
    qed
  qed (use 3 assms in \<open>auto simp: addquoted_def\<close>)
qed (use assms in \<open>auto simp: addquoted_def\<close>)

section \<open>Single tokens\<close>

datatype ptoken =
    PSym nat              \<comment> \<open>a token without semantic information, or a reserved word, by its code\<close>
  | PName "byte list"
  | PInt u64
  | PStr "byte list"

fun token_text :: "ptoken \<Rightarrow> byte list" where
  "token_text (PSym tk) = (if tk < FIRST_RESERVED then [of_nat tk] else str_bytes (luaX_tokens ! (tk - FIRST_RESERVED)))"
| "token_text (PName s) = s"
| "token_text (PInt i) = int_text i"
| "token_text (PStr s) = addquoted s"

definition name_char :: "byte \<Rightarrow> bool" where
  "name_char c \<longleftrightarrow> isalnum c \<or> c = 95"

fun valid_token :: "ptoken \<Rightarrow> bool" where
  "valid_token (PSym tk) \<longleftrightarrow> FIRST_RESERVED \<le> tk \<and> tk < TK_EOS \<or>
     tk < 256 \<and> \<not> isspace (of_nat tk) \<and> \<not> name_char (of_nat tk) \<and> tk \<noteq> 0x22 \<and> tk \<noteq> 0x27"
| "valid_token (PName s) \<longleftrightarrow> s \<noteq> [] \<and> list_all name_char s \<and> \<not> isdigit (hd s) \<and> \<not> isreserved s"
| "valid_token (PInt i) \<longleftrightarrow> 0 \<le> sint i"
| "valid_token (PStr s) \<longleftrightarrow> True"

fun token_lines :: "ptoken \<Rightarrow> nat" where
  "token_lines (PStr s) = count_list s 10"
| "token_lines _ = 0"

fun is_token :: "ptoken \<Rightarrow> nat \<Rightarrow> seminfo \<Rightarrow> bool" where
  "is_token (PSym t) tk sem \<longleftrightarrow> tk = t"
| "is_token (PName s) tk sem \<longleftrightarrow> tk = TK_NAME \<and> sem = SemStr s"
| "is_token (PInt i) tk sem \<longleftrightarrow> tk = TK_INT \<and> sem = SemInt i"
| "is_token (PStr s) tk sem \<longleftrightarrow> tk = TK_STRING \<and> sem = SemStr s"

text \<open>The lexer reads \<open>t\<close> from the front of the input and stops at \<open>r\<close>.\<close>

definition lexes :: "conv \<Rightarrow> byte \<Rightarrow> lexstate \<Rightarrow> ptoken \<Rightarrow> byte list \<Rightarrow> nat \<Rightarrow> bool" where
  "lexes cv dp ls t r l \<longleftrightarrow> (\<forall>sem. succeeds (llex_loop cv dp sem ls)
     (\<lambda>(tk, sem, ls). is_token t tk sem \<and> (\<exists>b. reading ls r b l)))"

lemma lexes_token:
  assumes "reading ls (c # cs) [] l" and "\<not> isspace c" and "c \<noteq> ch CHR ''-''"
    and "\<And>sem. succeeds (lex_token cv dp sem c ls) (\<lambda>(tk, sem, ls). is_token t tk sem \<and> (\<exists>b. reading ls r b l'))"
  shows "lexes cv dp ls t r l'"
proof -
  have "c \<noteq> 10" "c \<noteq> 13" "c \<noteq> 32" "c \<noteq> 12" "c \<noteq> 9" "c \<noteq> 11" using assms(2) by (auto simp: isspace_def)
  then show ?thesis
    using assms(3,4) reading_current [OF assms(1)]
    by (simp add: lexes_def llex_loop.simps [of cv dp _ ls])
qed

lemma lexes_string:
  assumes "reading ls (addquoted s @ r) [] l"
    and "length (addquoted s) + 8 < ROOM" and "l + count_list s 10 < MAX_LINES"
  shows "lexes cv dp ls (PStr s) r (l + count_list s 10)"
proof (rule lexes_token)
  show "reading ls (0x22 # addquoted_loop s @ 0x22 # r) [] l" using assms(1) by (simp add: addquoted_def)
  show "succeeds (lex_token cv dp sem 0x22 ls)
      (\<lambda>(tk, sem, ls). is_token (PStr s) tk sem \<and> (\<exists>b. reading ls r b (l + count_list s 10)))" for sem
    unfolding lex_token_def
    by simp (rule wp_ebind [OF read_string_quoted [OF assms]], auto)
qed (simp_all add: isspace_def)

subsection \<open>Names\<close>

lemma read_name_reading:
  assumes "reading ls (s @ c # r) b l" and "s \<noteq> []" and "list_all name_char (tl s)" and "\<not> name_char c"
    and "length b + length s < ROOM"
  shows "succeeds (read_name ls) (\<lambda>ls. reading ls (c # r) (b @ s) l)"
  using assms
proof (induction s arbitrary: ls b)
  case (Cons d s)
  show ?case
    unfolding read_name.simps [of ls]
  proof (rule wp_ebind [OF save_next_reading [of _ d "s @ c # r" b l]], goal_cases)
    case (3 ls1)
    show ?case
    proof (cases s)
      case Nil
      then have "ls_current ls1 = Some c" using 3 by (auto dest: reading_current)
      then show ?thesis using Cons.prems Nil 3 by (simp add: lis_Some_eq name_char_def)
    next
      case (Cons e s')
      then have "ls_current ls1 = Some e" using 3 by (auto dest: reading_current)
      moreover have "succeeds (read_name ls1) (\<lambda>ls. reading ls (c # r) ((b @ [d]) @ s) l)"
        by (rule Cons.IH) (use Cons.prems Cons 3 in auto)
      ultimately show ?thesis using Cons.prems Cons by (simp add: lis_Some_eq name_char_def)
    qed
  qed (use Cons.prems in auto)
qed simp

lemma lex_name:
  assumes "reading ls (s @ 32 # r) [] l" and "s \<noteq> []" and "list_all name_char s" and "\<not> isdigit (hd s)"
    and "length s < ROOM"
  shows "succeeds (lex_token cv dp sem (hd s) ls) (\<lambda>(tk, sem, ls).
     tk = (if isreserved s then extra s - 1 + FIRST_RESERVED else TK_NAME) \<and> sem = SemStr s \<and> (\<exists>b. reading ls (32 # r) b l))"
proof -
  obtain c cs where s: "s = c # cs" using assms(2) by (cases s) auto
  have c: "isalpha c \<or> c = 95" "\<not> isdigit c" using assms(3,4) s by (auto simp: name_char_def isalnum_def)
  have n: "c \<notin> {ch CHR ''['', ch CHR ''='', ch CHR ''<'', ch CHR ''>'', ch CHR ''/'', ch CHR ''~'', ch CHR '':'', 0x22, 0x27,
      ch CHR ''.''}" "\<not> (ch CHR ''0'' \<le> c \<and> c \<le> ch CHR ''9'')"
    using c by (auto simp: isalpha_def isupper_def islower_def isdigit_def word_le_nat_alt)
  have "succeeds (ebind (read_name ls) (\<lambda>ls. ebind (luaX_newstring ls 0 (length (ls_buff ls))) (\<lambda>(ts, ls).
      Inr (if isreserved ts then extra ts - 1 + FIRST_RESERVED else TK_NAME, SemStr ts, ls))))
    (\<lambda>(tk, sem, ls). tk = (if isreserved s then extra s - 1 + FIRST_RESERVED else TK_NAME) \<and> sem = SemStr s \<and>
      (\<exists>b. reading ls (32 # r) b l))"
  proof (rule wp_ebind [OF read_name_reading [OF assms(1,2)]], goal_cases)
    case (4 ls1)
    then have "ls_buff ls1 = s" by (simp add: reading_def)
    then show ?case using 4 by (intro wp_ebind [OF newstring_reading [OF 4]]) auto
  qed (use assms(3,5) s in \<open>auto simp: name_char_def isalnum_def isalpha_def isupper_def islower_def isdigit_def word_le_nat_alt\<close>)
  moreover have "\<not> 48 \<le> c \<or> \<not> c \<le> 57" using n(2) by simp
  ultimately show ?thesis using n(1) c by (elim disjE) (simp_all add: lex_token_def s lis_Some_eq)
qed

lemma name_not_space: "name_char c \<Longrightarrow> \<not> isspace c \<and> c \<noteq> ch CHR ''-''"
  by (auto simp: name_char_def isalnum_def isalpha_def isupper_def islower_def isdigit_def isspace_def word_le_nat_alt)

lemma lexes_name:
  assumes "reading ls (s @ 32 # r) [] l" and "valid_token (PName s)" and "length s < ROOM"
  shows "lexes cv dp ls (PName s) (32 # r) l"
proof -
  obtain c cs where s: "s = c # cs" using assms(2) by (cases s) auto
  have "name_char c" using assms(2) s by simp
  then show ?thesis
    using assms s name_not_space
    by (intro lexes_token [of ls c "cs @ 32 # r"]) (auto intro!: wp_mono [OF lex_name [of ls "c # cs" r l, unfolded list.sel]])
qed

text \<open>The reserved words are names that \<open>luaX_init\<close> knows.\<close>

lemma reserved_words:
  "list_all (\<lambda>i. let s = str_bytes (luaX_tokens ! i) in
     s \<noteq> [] \<and> list_all name_char s \<and> \<not> isdigit (hd s) \<and> extra s = i + 1 \<and> length s < 10) [0..<22]"
  by code_simp

lemma lexes_reserved:
  assumes "reading ls (token_text (PSym tk) @ 32 # r) [] l" and "FIRST_RESERVED \<le> tk" and "tk \<le> TK_WHILE"
  shows "lexes cv dp ls (PSym tk) (32 # r) l"
proof -
  let ?s = "str_bytes (luaX_tokens ! (tk - FIRST_RESERVED))"
  have "tk - FIRST_RESERVED \<in> set [0..<22]" using assms(2,3) by (auto simp: token_codes)
  then have s: "?s \<noteq> []" "list_all name_char ?s" "\<not> isdigit (hd ?s)" "extra ?s = tk - FIRST_RESERVED + 1" "length ?s < 10"
    using reserved_words by (auto simp: list_all_iff Let_def)
  then have "length ?s < ROOM" by (simp add: ROOM_def MAX_SIZE_def)
  moreover have "reading ls (?s @ 32 # r) [] l" using assms(1,2) by simp
  moreover obtain c cs where c: "?s = c # cs" using s(1) by (cases ?s) auto
  moreover from c have "name_char c" using s(2) c by simp
  ultimately show ?thesis
    using s name_not_space assms(2)
    by (intro lexes_token [of ls c "cs @ 32 # r"])
      (auto intro!: wp_mono [OF lex_name [of ls ?s r l, unfolded c list.sel]] simp: isreserved_def)
qed


subsection \<open>Symbols\<close>

lemma reading_simps:
  assumes "reading ls (c # cs) b l"
  shows "ls_current ls = Some c" "reading (next_char ls) cs b l"
  using assms by (rule reading_current, rule reading_next)

text \<open>What the lexer does behind a dot.\<close>

definition dot_rest :: "conv \<Rightarrow> byte \<Rightarrow> seminfo \<Rightarrow> lexstate \<Rightarrow> (nat \<times> seminfo \<times> lexstate) res" where
  "dot_rest cv dp sem ls = (case check_next1 ls (ch CHR ''.'') of
     (True, ls) \<Rightarrow> (case check_next1 ls (ch CHR ''.'') of (True, ls) \<Rightarrow> Inr (TK_DOTS, sem, ls) | (False, ls) \<Rightarrow> Inr (TK_CONCAT, sem, ls))
   | (False, ls) \<Rightarrow> if \<not> lisdigit (ls_current ls) then Inr (unat (ch CHR ''.''), sem, ls) else read_numeral cv dp ls)"

lemma lex_dot:
  assumes "reading ls (46 # cs) [] l" and "\<And>x. reading x cs [46] l \<Longrightarrow> succeeds (dot_rest cv dp sem x) Q"
  shows "succeeds (lex_token cv dp sem 46 ls) Q"
proof -
  have "lex_token cv dp sem 46 ls = ebind (save_and_next ls) (dot_rest cv dp sem)"
    by (simp add: lex_token_def dot_rest_def [abs_def])
  moreover have "length ([] :: byte list) < ROOM" by (simp add: ROOM_def MAX_SIZE_def)
  ultimately show ?thesis using assms(2) wp_ebind [OF save_next_reading [OF assms(1)], of "dot_rest cv dp sem" Q] by simp
qed

lemma dot_rest_dots:
  "reading x (46 # 32 # r) b l \<Longrightarrow>
     dot_rest cv dp sem x = Inr (TK_CONCAT, sem, next_char x) \<and> reading (next_char x) (32 # r) b l"
  "reading x (46 # 46 # 32 # r) b l \<Longrightarrow>
     dot_rest cv dp sem x = Inr (TK_DOTS, sem, next_char (next_char x)) \<and> reading (next_char (next_char x)) (32 # r) b l"
proof -
  assume "reading x (46 # 32 # r) b l"
  note 1 = reading_simps [OF this]
  show "dot_rest cv dp sem x = Inr (TK_CONCAT, sem, next_char x) \<and> reading (next_char x) (32 # r) b l"
    using 1 reading_simps [OF 1(2)] by (simp add: dot_rest_def check_next1_def)
next
  assume "reading x (46 # 46 # 32 # r) b l"
  note 1 = reading_simps [OF this] and 2 = reading_simps [OF reading_simps(2) [OF this]]
  show "dot_rest cv dp sem x = Inr (TK_DOTS, sem, next_char (next_char x)) \<and> reading (next_char (next_char x)) (32 # r) b l"
    using 1 2 reading_simps [OF 2(2)] by (simp add: dot_rest_def check_next1_def)
qed

lemma lexes_two:
  assumes "reading ls (c # d # r) [] l" and "ls' = next_char (next_char ls)"
    and "\<And>sem. lex_token cv dp sem c ls = Inr (tk, sem, ls')" and "\<not> isspace c" and "c \<noteq> ch CHR ''-''"
  shows "lexes cv dp ls (PSym tk) r l"
  by (rule lexes_token [OF assms(1,4,5)])
    (use assms(2,3) reading_next [OF reading_next [OF assms(1)]] in auto)

lemma lexes_operator:
  assumes "reading ls (token_text (PSym tk) @ 32 # r) [] l" and "TK_WHILE < tk" and "tk < TK_EOS"
  shows "lexes cv dp ls (PSym tk) (32 # r) l"
proof -
  have big: "0 < ROOM" "1 < ROOM" by (simp_all add: ROOM_def MAX_SIZE_def)
  have two: "lexes cv dp ls (PSym k) (32 # r) l"
    if "reading ls (c # d # 32 # r) [] l"
      and "\<And>sem. ls_current (next_char ls) = Some d \<Longrightarrow>
        lex_token cv dp sem c ls = Inr (k, sem, next_char (next_char ls))"
      and "\<not> isspace c" "c \<noteq> ch CHR ''-''" for c d k
    by (rule lexes_two [OF that(1) refl _ that(3,4)])
      (use that(2) reading_current [OF reading_next [OF that(1)]] in simp)
  have dots: "lexes cv dp ls (PSym tk) (32 # r) l"
    if "reading ls (46 # 46 # cs) [] l"
      and "\<And>x sem. reading x (46 # cs) [46] l \<Longrightarrow>
        succeeds (dot_rest cv dp sem x) (\<lambda>(tk', sem, ls). tk' = tk \<and> reading ls (32 # r) [46] l)" for cs
    by (rule lexes_token [OF that(1)], simp add: isspace_def, simp, rule lex_dot [OF that(1)], rule wp_mono [OF that(2)]) auto
  have tks: "tk = 279 \<or> tk = 280 \<or> tk = 281 \<or> tk = 282 \<or> tk = 283 \<or> tk = 284 \<or> tk = 285 \<or> tk = 286 \<or> tk = 287 \<or> tk = 288"
    using assms(2,3) unfolding token_codes by arith
  note d = lex_token_def lex_one_def Let_def token_codes isspace_def
  note t = assms(1) [unfolded token_text.simps luaX_tokens_def FIRST_RESERVED_def]
  from tks show ?thesis
  proof (elim disjE)
    assume "tk = 280"
    then show ?thesis
      using t dot_rest_dots(1) by (intro dots [of "32 # r"]) (force simp: str_bytes_def token_codes)+
  next
    assume "tk = 281"
    then show ?thesis
      using t dot_rest_dots(2) by (intro dots [of "46 # 32 # r"]) (force simp: str_bytes_def token_codes)+
  qed (use t in \<open>auto simp: str_bytes_def d intro!: two\<close>)
qed

lemma lexes_single:
  assumes "reading ls (of_nat tk # 32 # r) [] l" and "tk < 256" and "\<not> isspace (of_nat tk)" and "\<not> name_char (of_nat tk)"
    and "tk \<noteq> 0x22" and "tk \<noteq> 0x27"
  shows "lexes cv dp ls (PSym tk) (32 # r) l"
proof -
  define c :: byte where "c = of_nat tk"
  have u: "unat c = tk" unfolding c_def using assms(2) by (intro unat_of_nat_small) simp
  then have q: "c \<noteq> 0x22" "c \<noteq> 0x27" using assms(5,6) by auto
  have cls: "\<not> isspace c" "\<not> isalpha c" "\<not> isdigit c" "c \<noteq> 95"
    using assms(3,4) by (auto simp: c_def name_char_def isalnum_def)
  have r: "reading ls (c # 32 # r) [] l" using assms(1) by (simp add: c_def)
  have nxt: "ls_current (next_char ls) = Some 32" "reading (next_char ls) (32 # r) [] l"
    using reading_next [OF r] by (auto dest: reading_current)
  have big: "0 < ROOM" "1 < ROOM" by (simp_all add: ROOM_def MAX_SIZE_def)
  show ?thesis
  proof (cases "c = ch CHR ''-''")
    case True
    then show ?thesis
      using reading_current [OF r] nxt u by (auto simp: lexes_def llex_loop.simps [of cv dp _ ls] Let_def)
  next
    case False
    show ?thesis
    proof (rule lexes_token [OF r cls(1) False])
      fix sem
      let ?Q = "\<lambda>(tk', sem, ls). is_token (PSym tk) tk' sem \<and> (\<exists>b. reading ls (32 # r) b l)"
      have one: "succeeds (lex_one sem d ss ls) ?Q" if "ch d = c" "\<forall>(e, t) \<in> set ss. ch e \<noteq> 32" for d ss
      proof -
        have "List.find (\<lambda>(e, t). ls_current (next_char ls) = Some (ch e)) ss = None"
          using that(2) nxt by (auto simp: find_None_iff)
        then show ?thesis using that(1) u nxt by (auto simp: lex_one_def)
      qed
      have bracket: "succeeds (skip_sep ls) (\<lambda>(sep, ls). sep = - 1 \<and> (\<exists>b. reading ls (32 # r) b l))" if "c = 91"
        unfolding skip_sep_def Let_def
      proof (rule wp_ebind [OF save_next_reading [OF r]], use big in simp)
        fix x assume x: "reading x (32 # r) ([] @ [c]) l"
        then have "skip_eqs x 0 = Inr (0, x)" "ls_current x \<noteq> ls_current ls"
          using reading_current [OF x] reading_current [OF r] that by (simp_all add: skip_eqs.simps [of x 0])
        then show "succeeds (ebind (skip_eqs x 0) (\<lambda>(count, lsa). Inr (if ls_current lsa = ls_current ls then count else - count - 1, lsa)))
            (\<lambda>(sep, ls). sep = - 1 \<and> (\<exists>b. reading ls (32 # r) b l))" using x by auto
      qed
      consider "c = 91" | "c = 46" | "c \<noteq> 91" "c \<noteq> 46" by blast
      then show "succeeds (lex_token cv dp sem c ls) ?Q"
      proof cases
        case 1
        then show ?thesis using u by (auto simp: lex_token_def intro!: wp_ebind [OF bracket])
      next
        case 2
        have "\<not> isdigit 32" by (simp add: isdigit_def)
        have "succeeds (dot_rest cv dp sem x) ?Q" if "reading x (32 # r) [46] l" for x
          using that reading_current [OF that] 2 u \<open>\<not> isdigit 32\<close>
          by (auto simp: dot_rest_def check_next1_def lis_Some_eq)
        then show ?thesis using 2 r lex_dot [of ls "32 # r" l] by simp
      next
        case 3
        show ?thesis
          unfolding lex_token_def
        proof (intro wp_if, goal_cases)
          case 1
          then show ?case using 3 by simp
        next
          case 8
          then show ?case using q by simp
        next
          case 9
          then show ?case using 3 by simp
        next
          case 10
          then show ?case using cls(3) by (simp add: isdigit_def)
        next
          case 11
          then show ?case using cls by (simp add: lis_Some_eq)
        next
          case 12
          then show ?case using nxt u by auto
        qed (rule one; simp)+
      qed
    qed
  qed
qed


subsection \<open>Integers\<close>

lemma digit_not:
  assumes "isdigit c"
  shows "c \<noteq> 32" "c \<noteq> 0" "isxdigit c"
    "c \<notin> {ch CHR ''E'', ch CHR ''e'', ch CHR ''P'', ch CHR ''p'', ch CHR ''x'', ch CHR ''X'', ch CHR ''.''}"
  using assms by (auto simp: isdigit_def isxdigit_def word_le_nat_alt)

lemma no_check_next2:
  "ls_current ls = Some c \<Longrightarrow> c \<noteq> ch x \<Longrightarrow> c \<noteq> ch y \<Longrightarrow> check_next2 ls (x, y) = Inr (False, ls)"
  by (simp add: check_next2_def)

lemma numeral_loop_digits:
  assumes "reading ls (ds @ 32 # r) b l" and "list_all isdigit ds" and "length b + length ds < ROOM"
  shows "succeeds (numeral_loop (CHR ''E'', CHR ''e'') ls) (\<lambda>ls. reading ls (32 # r) (b @ ds) l)"
  using assms
proof (induction ds arbitrary: ls b)
  case Nil
  then have "ls_current ls = Some 32" by (auto dest: reading_current)
  then show ?case using Nil
    by (simp add: numeral_loop.simps [of _ ls] no_check_next2 lis_Some_eq isxdigit_def isdigit_def)
next
  case (Cons d ds)
  have d: "ls_current ls = Some d" using Cons.prems(1) by (auto dest: reading_current)
  have n: "isxdigit d" "check_next2 ls (CHR ''E'', CHR ''e'') = Inr (False, ls)"
    using d digit_not [of d] Cons.prems(2) by (auto intro: no_check_next2)
  have "succeeds (ebind (save_and_next ls) (numeral_loop (CHR ''E'', CHR ''e''))) (\<lambda>ls. reading ls (32 # r) (b @ d # ds) l)"
  proof (rule wp_ebind [OF save_next_reading [of _ d "ds @ 32 # r" b l]], goal_cases)
    case (3 ls1)
    show ?case using Cons.IH [OF 3] Cons.prems by simp
  qed (use Cons.prems in auto)
  then show ?case using d n by (simp add: numeral_loop.simps [of _ ls] lis_Some_eq)
qed

lemma cstr_append: "0 \<notin> set s \<Longrightarrow> cstr (s @ [0]) = s"
  unfolding cstr_def by (subst takeWhile_append2) (auto intro: ccontr)

lemma read_numeral_int:
  assumes "reading ls (int_text i @ 32 # r) [] l" and "0 \<le> sint i" and "length (int_text i) < ROOM"
  shows "succeeds (read_numeral cv dp ls) (\<lambda>(tk, sem, ls). tk = TK_INT \<and> sem = SemInt i \<and> (\<exists>b. reading ls (32 # r) b l))"
proof -
  define ds where "ds = int_text i"
  have ds: "list_all isdigit ds" "ds \<noteq> []" using assms(2) by (simp_all add: ds_def int_text_def dec_text_digits)
  then obtain d es where d: "ds = d # es" by (cases ds) auto
  have num: "luaO_str2num cv ds = Some (LInt i)"
    using digit_not(2) ds(1) by (auto simp: luaO_str2num_def ds_def l_str2int_text list_all_iff)
  have r0: "reading ls (d # es @ 32 # r) [] l" using assms(1) d by (simp add: ds_def)
  have big: "length ds < ROOM" "0 < ROOM" using assms(3) by (simp_all add: ds_def)
  show ?thesis
    unfolding read_numeral_def Let_def
  proof (rule wp_ebind [OF save_next_reading [OF r0]], use big in simp)
    fix x assume x: "reading x (es @ 32 # r) ([] @ [d]) l"
    have "\<exists>c cs. es @ 32 # r = c # cs \<and> c \<noteq> ch CHR ''x'' \<and> c \<noteq> ch CHR ''X''"
      using ds(1) d digit_not(4) by (cases es) auto
    then have "check_next2 x (CHR ''x'', CHR ''X'') = Inr (False, x)"
      using x by (auto dest!: reading_current intro: no_check_next2)
    then have hex: "(if ls_current ls = Some (ch CHR ''0'') then check_next2 x (CHR ''x'', CHR ''X'') else Inr (False, x)) = Inr (False, x)"
      by simp
    have "succeeds (numeral_loop (CHR ''E'', CHR ''e'') x) (\<lambda>ls. reading ls (32 # r) (([] @ [d]) @ es) l)"
      by (rule numeral_loop_digits [OF x]) (use ds(1) big d in auto)
    then have loop: "succeeds (numeral_loop (CHR ''E'', CHR ''e'') x) (\<lambda>ls. reading ls (32 # r) ds l)" using d by simp
    show "succeeds (ebind (if ls_current ls = Some (ch CHR ''0'') then check_next2 x (CHR ''x'', CHR ''X'') else Inr (False, x))
      (\<lambda>(hex, ls). ebind (numeral_loop (if hex then (CHR ''P'', CHR ''p'') else (CHR ''E'', CHR ''e'')) ls) (\<lambda>ls.
      ebind (save ls 0) (\<lambda>ls.
      ebind (case buff2num cv (buffreplace ls (ch CHR ''.'') (ls_decpoint ls)) of
          Some obj \<Rightarrow> Inr (obj, buffreplace ls (ch CHR ''.'') (ls_decpoint ls))
        | None \<Rightarrow> trydecpoint cv dp (buffreplace ls (ch CHR ''.'') (ls_decpoint ls))) (\<lambda>(obj, ls).
      case obj of LInt i \<Rightarrow> Inr (TK_INT, SemInt i, ls) | LFlt n \<Rightarrow> Inr (TK_FLT, SemFlt n, ls)
        | _ \<Rightarrow> Inl (MemFault ''not a number''))))))
      (\<lambda>(tk, sem, ls). tk = TK_INT \<and> sem = SemInt i \<and> (\<exists>b. reading ls (32 # r) b l))"
      unfolding hex ebind_Inr prod.case if_False
    proof (rule wp_ebind [OF loop], rule wp_ebind [OF save_reading [OF _ big(1)]], assumption)
      fix y z assume z: "reading z (32 # r) (ds @ [0]) l"
      have "ls_decpoint z = ch CHR ''.''" "ls_buff z = ds @ [0]" using z by (simp_all add: reading_def)
      moreover have "cstr (ds @ [0]) = ds" using ds(1) digit_not(2) by (intro cstr_append) (auto simp: list_all_iff)
      ultimately show "succeeds (ebind (case buff2num cv (buffreplace z (ch CHR ''.'') (ls_decpoint z)) of
          Some obj \<Rightarrow> Inr (obj, buffreplace z (ch CHR ''.'') (ls_decpoint z))
        | None \<Rightarrow> trydecpoint cv dp (buffreplace z (ch CHR ''.'') (ls_decpoint z))) (\<lambda>(obj, ls).
      case obj of LInt i \<Rightarrow> Inr (TK_INT, SemInt i, ls) | LFlt n \<Rightarrow> Inr (TK_FLT, SemFlt n, ls)
        | _ \<Rightarrow> Inl (MemFault ''not a number'')))
      (\<lambda>(tk, sem, ls). tk = TK_INT \<and> sem = SemInt i \<and> (\<exists>b. reading ls (32 # r) b l))"
        using z by (auto simp: buffreplace_def buff2num_def num)
    qed
  qed
qed

lemma lexes_int:
  assumes "reading ls (int_text i @ 32 # r) [] l" and "0 \<le> sint i" and "length (int_text i) < ROOM"
  shows "lexes cv dp ls (PInt i) (32 # r) l"
proof -
  obtain c cs where c: "int_text i = c # cs" "isdigit c"
    using assms(2) dec_text_digits [of "nat (sint i)"] by (cases "dec_text (nat (sint i))") (auto simp: int_text_def)
  then have n: "c \<notin> {ch CHR ''['', ch CHR ''='', ch CHR ''<'', ch CHR ''>'', ch CHR ''/'', ch CHR ''~'', ch CHR '':'', 0x22, 0x27,
      ch CHR ''.'', ch CHR ''-''}" "ch CHR ''0'' \<le> c \<and> c \<le> ch CHR ''9''" "\<not> isspace c"
    by (auto simp: isdigit_def isspace_def word_le_nat_alt)
  show ?thesis
    using assms(1) n read_numeral_int [OF assms] unfolding c(1)
    by (intro lexes_token [of ls c "cs @ 32 # r"]) (auto simp: lex_token_def intro: wp_mono)
qed

section \<open>Sequences of tokens\<close>

lemma lexes_valid:
  assumes "reading ls (token_text t @ 32 # r) [] l" and "valid_token t"
    and "length (token_text t) + 8 < ROOM" and "l + token_lines t < MAX_LINES"
  shows "lexes cv dp ls t (32 # r) (l + token_lines t)"
proof (cases t)
  case (PSym tk)
  then consider "FIRST_RESERVED \<le> tk" "tk \<le> TK_WHILE" | "TK_WHILE < tk" "tk < TK_EOS" | "tk < FIRST_RESERVED"
    using assms(2) by (cases "tk \<le> TK_WHILE"; cases "tk < FIRST_RESERVED") (auto simp: token_codes)
  then show ?thesis
    using assms lexes_reserved [of ls tk r l] lexes_operator [of ls tk r l] lexes_single [of ls tk r l]
    unfolding PSym by cases (auto simp: token_codes)
qed (use assms lexes_name [of ls _ r l] lexes_int [of ls _ r l] lexes_string [of ls _ "32 # r" l] in auto)

text \<open>The tokens as text, with spaces around each.\<close>

definition print_tokens :: "ptoken list \<Rightarrow> byte list" where
  "print_tokens ts = concat (map (\<lambda>t. 32 # token_text t) ts) @ [32]"

lemma print_tokens_simps:
  "print_tokens [] = [32]" "print_tokens (t # ts) = 32 # token_text t @ print_tokens ts"
  by (simp_all add: print_tokens_def)

lemma print_tokens_space: "\<exists>r. print_tokens ts = 32 # r"
  by (cases ts) (simp_all add: print_tokens_simps)

lemma next_reads:
  assumes "reading ls (32 # token_text t @ 32 # r) b l" and "valid_token t"
    and "length (token_text t) + 8 < ROOM" and "l + token_lines t < MAX_LINES"
  shows "succeeds (luaX_next cv dp ls) (\<lambda>ls. is_token t (tk_token (ls_t ls)) (tk_seminfo (ls_t ls)) \<and>
    (\<exists>b. reading ls (32 # r) b (l + token_lines t)))"
proof -
  let ?ls = "luaZ_resetbuffer (ls\<lparr>ls_lastline := ls_linenumber ls\<rparr>)"
  have r: "reading ?ls (32 # token_text t @ 32 # r) [] l"
    using assms(1) by (auto simp: reading_def luaZ_resetbuffer_def ls_input_def)
  have skip: "llex_loop cv dp sem ?ls = llex_loop cv dp sem (next_char ?ls)" for sem
    using reading_current [OF r] by (simp add: llex_loop.simps [of cv dp sem ?ls])
  have upd: "reading (x\<lparr>ls_t := tk\<rparr>) inp b l" if "reading x inp b l" for x inp b l tk
    using that by (auto simp: reading_def ls_input_def)
  have la: "tk_token (ls_lookahead ls) = TK_EOS" using assms(1) by (simp add: reading_def)
  have "lexes cv dp (next_char ?ls) t (32 # r) (l + token_lines t)"
    by (rule lexes_valid [OF reading_next [OF r] assms(2-4)])
  then have "succeeds (llex cv dp (tk_seminfo (ls_t ls)) (ls\<lparr>ls_lastline := ls_linenumber ls\<rparr>))
    (\<lambda>(tk, sem, ls). is_token t tk sem \<and> (\<exists>b. reading ls (32 # r) b (l + token_lines t)))"
    by (simp add: lexes_def llex_def skip)
  then show ?thesis
    unfolding luaX_next_def Let_def using la by (auto intro!: wp_ebind upd)
qed

lemma next_at_end:
  assumes "reading ls [32] b l"
  shows "succeeds (luaX_next cv dp ls) (\<lambda>ls. tk_token (ls_t ls) = TK_EOS)"
proof -
  let ?ls = "luaZ_resetbuffer (ls\<lparr>ls_lastline := ls_linenumber ls\<rparr>)"
  have r: "reading ?ls [32] [] l" using assms by (auto simp: reading_def luaZ_resetbuffer_def ls_input_def)
  note e = reading_end [OF reading_next [OF r]]
  have "llex_loop cv dp sem ?ls = Inr (TK_EOS, sem, next_char ?ls)" for sem
    using reading_current [OF r] e by (simp add: llex_loop.simps [of cv dp sem ?ls] llex_loop.simps [of cv dp sem "next_char ?ls"])
  moreover have "tk_token (ls_lookahead ls) = TK_EOS" using assms by (simp add: reading_def)
  ultimately show ?thesis by (simp add: luaX_next_def Let_def llex_def)
qed

lemma succeeds_E: "succeeds m Q \<Longrightarrow> (\<And>x. m = Inr x \<Longrightarrow> Q x \<Longrightarrow> P) \<Longrightarrow> P"
  by (cases m) simp_all

lemma tokens_read:
  assumes "reading ls (print_tokens ts) b l" and "list_all valid_token ts"
    and "length (print_tokens ts) + 8 < ROOM" and "l + sum_list (map token_lines ts) < MAX_LINES"
  shows "(\<forall>i < length ts. \<exists>ls'. next_tokens cv dp (Suc i) ls = Inr ls' \<and>
      is_token (ts ! i) (tk_token (ls_t ls')) (tk_seminfo (ls_t ls'))) \<and>
    (\<exists>ls'. next_tokens cv dp (Suc (length ts)) ls = Inr ls' \<and> tk_token (ls_t ls') = TK_EOS)"
  using assms
proof (induction ts arbitrary: ls b l)
  case Nil
  then show ?case using next_at_end [of ls b l cv dp] by (auto simp: print_tokens_simps elim!: succeeds_E)
next
  case (Cons t ts)
  obtain r where r: "print_tokens ts = 32 # r" using print_tokens_space by blast
  have "succeeds (luaX_next cv dp ls) (\<lambda>ls. is_token t (tk_token (ls_t ls)) (tk_seminfo (ls_t ls)) \<and>
    (\<exists>b. reading ls (32 # r) b (l + token_lines t)))"
    by (rule next_reads) (use Cons.prems r in \<open>auto simp: print_tokens_simps\<close>)
  then obtain ls1 b1 where 1: "luaX_next cv dp ls = Inr ls1" "is_token t (tk_token (ls_t ls1)) (tk_seminfo (ls_t ls1))"
    "reading ls1 (print_tokens ts) b1 (l + token_lines t)" by (auto simp: r elim!: succeeds_E)
  have IH: "(\<forall>i < length ts. \<exists>ls'. next_tokens cv dp (Suc i) ls1 = Inr ls' \<and>
      is_token (ts ! i) (tk_token (ls_t ls')) (tk_seminfo (ls_t ls'))) \<and>
    (\<exists>ls'. next_tokens cv dp (Suc (length ts)) ls1 = Inr ls' \<and> tk_token (ls_t ls') = TK_EOS)"
    by (rule Cons.IH [OF 1(3)]) (use Cons.prems in \<open>auto simp: print_tokens_simps\<close>)
  show ?case
  proof (intro conjI allI impI)
    fix i assume i: "i < length (t # ts)"
    show "\<exists>ls'. next_tokens cv dp (Suc i) ls = Inr ls' \<and>
        is_token ((t # ts) ! i) (tk_token (ls_t ls')) (tk_seminfo (ls_t ls'))"
      using i 1(1,2) IH by (cases i) auto
  qed (use IH 1(1) in simp)
qed

lemma reading_setinput: "reading (luaX_setinput z source (Some c)) (c # z) [] 1"
  by (simp add: reading_def luaX_setinput_def ls_input_def)

lemma lexes_llex:
  assumes "lexes cv dp (luaZ_resetbuffer ls) t r l"
  shows "\<exists>tk sem' ls' b. llex cv dp sem ls = Inr (tk, sem', ls') \<and> is_token t tk sem' \<and> reading ls' r b l"
proof -
  have "succeeds (llex_loop cv dp sem (luaZ_resetbuffer ls)) (\<lambda>(tk, sem, ls). is_token t tk sem \<and> (\<exists>b. reading ls r b l))"
    using assms by (simp add: lexes_def)
  then show ?thesis unfolding llex_def by (auto elim!: succeeds_E)
qed

text \<open>C5:
  Printing tokens and reading the text gives the tokens back: symbols, operators and reserved words by their
  code, names and strings with their bytes, integers with their value, and then the end of the source.\<close>

theorem tokens_roundtrip:
  assumes "list_all valid_token ts" and "length (print_tokens ts) < 2 ^ 60"
    and "sum_list (map token_lines ts) < 2 ^ 30"
  shows "let ls = luaX_setinput (tl (print_tokens ts)) source (Some (hd (print_tokens ts))) in
    (\<forall>i < length ts. \<exists>ls'. next_tokens cv dp (Suc i) ls = Inr ls' \<and>
      is_token (ts ! i) (tk_token (ls_t ls')) (tk_seminfo (ls_t ls'))) \<and>
    (\<exists>ls'. next_tokens cv dp (Suc (length ts)) ls = Inr ls' \<and> tk_token (ls_t ls') = TK_EOS)"
proof -
  obtain r where r: "print_tokens ts = 32 # r" using print_tokens_space by blast
  have "reading (luaX_setinput r source (Some 32)) (print_tokens ts) [] 1"
    unfolding r by (rule reading_setinput)
  from tokens_read [OF this assms(1), of cv dp] show ?thesis
    using assms(2,3) by (simp add: r ROOM_def MAX_SIZE_def MAX_LINES_def)
qed

theorem tokens_roundtrip_witness:
  "let ts = [PSym 268, PName [120], PSym 61, PStr [97, 0, 49, 10, 34], PSym 280, PInt 42];
     ls = luaX_setinput (tl (print_tokens ts)) None (Some (hd (print_tokens ts))) in
   (\<forall>i < length ts. \<exists>ls'. next_tokens no_floats 46 (Suc i) ls = Inr ls' \<and>
      is_token (ts ! i) (tk_token (ls_t ls')) (tk_seminfo (ls_t ls'))) \<and>
    (\<exists>ls'. next_tokens no_floats 46 (Suc (length ts)) ls = Inr ls' \<and> tk_token (ls_t ls') = TK_EOS)"
proof -
  let ?ts = "[PSym 268, PName [120], PSym 61, PStr [97, 0, 49, 10, 34], PSym 280, PInt 42]"
  have "list_all valid_token ?ts" by code_simp
  moreover have "length (print_tokens ?ts) = 27" by code_simp
  then have "length (print_tokens ?ts) < 2 ^ 60" by simp
  moreover have "sum_list (map token_lines ?ts) < 2 ^ 30" by simp
  ultimately show ?thesis using tokens_roundtrip [of ?ts None no_floats 46] unfolding Let_def by blast
qed

text \<open>C35:
  The literal that \<open>string.format\<close> writes for a string with \<open>%q\<close> is read as one string token with the
  same bytes, zeros, line breaks and quotes included, whatever follows it.\<close>

theorem quoted_roundtrip:
  assumes "length (addquoted s) < 2 ^ 60" and "count_list s 10 < 2 ^ 30"
  shows "\<exists>ls. luaX_next cv dp (luaX_setinput (tl (addquoted s) @ r) source (Some (hd (addquoted s)))) = Inr ls \<and>
    ls_t ls = \<lparr>tk_token = TK_STRING, tk_seminfo = SemStr s\<rparr> \<and> ls_input ls = r \<and> ls_linenumber ls = 1 + count_list s 10"
proof -
  let ?ls = "luaX_setinput (tl (addquoted s) @ r) source (Some (hd (addquoted s)))"
  let ?r = "luaZ_resetbuffer (?ls\<lparr>ls_lastline := ls_linenumber ?ls\<rparr>)"
  have "reading ?ls (addquoted s @ r) [] 1" using reading_setinput by (simp add: addquoted_def)
  then have "reading ?r (addquoted s @ r) [] 1" by (auto simp: reading_def luaZ_resetbuffer_def ls_input_def)
  then have "lexes cv dp ?r (PStr s) r (1 + count_list s 10)"
    by (rule lexes_string) (use assms in \<open>simp_all add: ROOM_def MAX_SIZE_def MAX_LINES_def\<close>)
  from lexes_llex [OF this, of "tk_seminfo (ls_t ?ls)"] show ?thesis
    by (auto simp: luaX_next_def reading_def ls_input_def)
qed

theorem quoted_roundtrip_witness:
  "\<exists>ls. luaX_next no_floats 46 (luaX_setinput (tl (addquoted [0, 13, 48, 10, 34]) @ [59]) None
      (Some (hd (addquoted [0, 13, 48, 10, 34])))) = Inr ls \<and>
    ls_t ls = \<lparr>tk_token = TK_STRING, tk_seminfo = SemStr [0, 13, 48, 10, 34]\<rparr> \<and> ls_input ls = [59] \<and> ls_linenumber ls = 1 + 1"
proof -
  have "length (addquoted [0, 13, 48, 10, 34]) = 13" by code_simp
  then have "length (addquoted [0, 13, 48, 10, 34]) < 2 ^ 60" by simp
  moreover have "count_list [0, 13, 48, 10, 34] (10 :: byte) = 1" by simp
  ultimately show ?thesis using quoted_roundtrip [of "[0, 13, 48, 10, 34]" no_floats 46 "[59]" None] by simp
qed

end
