(* ===== verification/Lua_Gc.thy ===== *)
theory Lua_Gc
  imports Lua_Lex
begin

text \<open>
  The garbage collector, \<open>lgc.c\<close>: marking, the weak tables, the atomic step, sweeping, the lists of
  objects with finalizers, and the barriers; with the upvalues of \<open>lfunc.c\<close>.  A heap is a list of
  objects, with \<open>None\<close> where one has been freed; an object has its byte \<open>marked\<close> and what the
  collector reads of its body.  The lists linked through \<open>next\<close> and \<open>gclist\<close> are lists of
  addresses.  An access to a freed object has no effect here; that none happens to an object in
  use is a theorem (\<open>Lua_Gc_Spec\<close>).  The counts of memory, which only decide when a step is made,
  and the sizes of stacks are not modelled, and the string table has a theory of its own.
\<close>

section \<open>Colours\<close>

definition WHITE0BIT :: nat where "WHITE0BIT = 0"
definition WHITE1BIT :: nat where "WHITE1BIT = 1"
definition BLACKBIT :: nat where "BLACKBIT = 2"
definition FINALIZEDBIT :: nat where "FINALIZEDBIT = 3"

definition bitmask :: "nat \<Rightarrow> byte" where "bitmask b = push_bit b 1"
definition WHITEBITS :: byte where "WHITEBITS = bitmask WHITE0BIT OR bitmask WHITE1BIT"
definition maskcolors :: byte where "maskcolors = NOT (bitmask BLACKBIT OR WHITEBITS)"

definition iswhite :: "byte \<Rightarrow> bool" where "iswhite m \<longleftrightarrow> m AND WHITEBITS \<noteq> 0"
definition isblack :: "byte \<Rightarrow> bool" where "isblack m \<longleftrightarrow> m AND bitmask BLACKBIT \<noteq> 0"
definition isgray :: "byte \<Rightarrow> bool" where "isgray m \<longleftrightarrow> m AND (WHITEBITS OR bitmask BLACKBIT) = 0"
definition tofinalize :: "byte \<Rightarrow> bool" where "tofinalize m \<longleftrightarrow> m AND bitmask FINALIZEDBIT \<noteq> 0"
definition isdeadm :: "byte \<Rightarrow> byte \<Rightarrow> bool" where "isdeadm ow m \<longleftrightarrow> (m XOR WHITEBITS) AND ow = 0"

definition white2gray :: "byte \<Rightarrow> byte" where "white2gray m = m AND NOT WHITEBITS"
definition black2gray :: "byte \<Rightarrow> byte" where "black2gray m = m AND NOT (bitmask BLACKBIT)"
definition gray2black :: "byte \<Rightarrow> byte" where "gray2black m = m OR bitmask BLACKBIT"

section \<open>Objects\<close>

text \<open>Values as the collector sees them: \<open>GDead\<close> is a dead key, which keeps its pointer.\<close>

datatype gval = GNil | GPlain tvalue | GRef nat | GDead nat

text \<open>
  What an object refers to.  A string has its bytes; user data a metatable and a user value; a Lua
  closure a prototype and upvalues; a C closure its values; a table a metatable, the array part, and
  keys and values of the hash part; a thread its stack, once built, the live part of it, and its open
  upvalues from the highest level down; a prototype the closure it caches, its source, constants,
  names of upvalues, nested prototypes and names of local variables.
\<close>

datatype gbody =
    GStr "byte list"
  | GUdata "nat option" gval
  | GLcl "nat option" "nat option list"
  | GCcl "gval list"
  | GTable "nat option" "gval list" "(gval \<times> gval) list"
  | GThread "gval list option" nat "nat list"
  | GProto "nat option" "nat option" "gval list" "nat option list" "nat option list" "nat option list"

record gcobj =
  gc_marked :: byte
  gc_body :: gbody

text \<open>An upvalue is open on a slot of the stack of a thread, or closed with its own value.\<close>

record upval =
  uv_open :: "(nat \<times> nat) option"
  uv_value :: gval
  uv_touched :: bool
  uv_refcount :: nat

text \<open>The lists of all objects, and a pointer into one: to its head, or to the field \<open>next\<close> of an object.\<close>

datatype gclist = Lallgc | Lfinobj | Ltobefnz | Lfixedgc

datatype sweep_ptr = SwHead gclist | SwNext nat

record gstate =
  gs_heap :: "gcobj option list"
  gs_upvals :: "upval option list"
  gs_gcstate :: nat
  gs_currentwhite :: byte
  gs_emergency :: bool
  gs_gray :: "nat list"
  gs_grayagain :: "nat list"
  gs_weak :: "nat list"
  gs_ephemeron :: "nat list"
  gs_allweak :: "nat list"
  gs_allgc :: "nat list"
  gs_finobj :: "nat list"
  gs_tobefnz :: "nat list"
  gs_fixedgc :: "nat list"
  gs_sweepgc :: "sweep_ptr option"
  gs_twups :: "nat list"
  gs_mainthread :: nat
  gs_registry :: gval
  gs_mt :: "nat option list"
  gs_gcfinnum :: nat

definition GCSpropagate :: nat where "GCSpropagate = 0"
definition GCSatomic :: nat where "GCSatomic = 1"
definition GCSswpallgc :: nat where "GCSswpallgc = 2"
definition GCSswpfinobj :: nat where "GCSswpfinobj = 3"
definition GCSswptobefnz :: nat where "GCSswptobefnz = 4"
definition GCSswpend :: nat where "GCSswpend = 5"
definition GCScallfin :: nat where "GCScallfin = 6"
definition GCSpause :: nat where "GCSpause = 7"
definition GCSinsideatomic :: nat where "GCSinsideatomic = 8"

lemmas gc_states = GCSpropagate_def GCSatomic_def GCSswpallgc_def GCSswpfinobj_def GCSswptobefnz_def GCSswpend_def
  GCScallfin_def GCSpause_def GCSinsideatomic_def

definition issweepphase :: "gstate \<Rightarrow> bool" where
  "issweepphase g \<longleftrightarrow> GCSswpallgc \<le> gs_gcstate g \<and> gs_gcstate g \<le> GCSswpend"

definition keepinvariant :: "gstate \<Rightarrow> bool" where "keepinvariant g \<longleftrightarrow> gs_gcstate g \<le> GCSatomic"

definition otherwhite :: "gstate \<Rightarrow> byte" where "otherwhite g = gs_currentwhite g XOR WHITEBITS"
definition luaC_white :: "gstate \<Rightarrow> byte" where "luaC_white g = gs_currentwhite g AND WHITEBITS"

definition obj :: "gstate \<Rightarrow> nat \<Rightarrow> gcobj option" where
  "obj g a = (if a < length (gs_heap g) then gs_heap g ! a else None)"

definition has_mark :: "(byte \<Rightarrow> bool) \<Rightarrow> gstate \<Rightarrow> nat \<Rightarrow> bool" where
  "has_mark P g a = (case obj g a of None \<Rightarrow> False | Some x \<Rightarrow> P (gc_marked x))"

abbreviation white :: "gstate \<Rightarrow> nat \<Rightarrow> bool" where "white \<equiv> has_mark iswhite"
abbreviation black :: "gstate \<Rightarrow> nat \<Rightarrow> bool" where "black \<equiv> has_mark isblack"
abbreviation gray :: "gstate \<Rightarrow> nat \<Rightarrow> bool" where "gray \<equiv> has_mark isgray"

definition isdead :: "gstate \<Rightarrow> nat \<Rightarrow> bool" where
  "isdead g a = has_mark (isdeadm (otherwhite g)) g a"

definition set_mark :: "nat \<Rightarrow> (byte \<Rightarrow> byte) \<Rightarrow> gstate \<Rightarrow> gstate" where
  "set_mark a f g =
     g\<lparr>gs_heap := (gs_heap g)[a := map_option (\<lambda>x. x\<lparr>gc_marked := f (gc_marked x)\<rparr>) (obj g a)]\<rparr>"

definition set_body :: "nat \<Rightarrow> gbody \<Rightarrow> gstate \<Rightarrow> gstate" where
  "set_body a b g = g\<lparr>gs_heap := (gs_heap g)[a := map_option (\<lambda>x. x\<lparr>gc_body := b\<rparr>) (obj g a)]\<rparr>"

definition body :: "gstate \<Rightarrow> nat \<Rightarrow> gbody option" where
  "body g a = map_option gc_body (obj g a)"

definition makewhite :: "nat \<Rightarrow> gstate \<Rightarrow> gstate" where
  "makewhite a g = set_mark a (\<lambda>m. m AND maskcolors OR luaC_white g) g"

section \<open>Upvalues\<close>

definition upv :: "gstate \<Rightarrow> nat \<Rightarrow> upval option" where
  "upv g u = (if u < length (gs_upvals g) then gs_upvals g ! u else None)"

definition set_upv :: "nat \<Rightarrow> upval option \<Rightarrow> gstate \<Rightarrow> gstate" where
  "set_upv u x g = g\<lparr>gs_upvals := (gs_upvals g)[u := x]\<rparr>"

definition stack_slot :: "gstate \<Rightarrow> nat \<Rightarrow> nat \<Rightarrow> gval" where
  "stack_slot g th i = (case body g th of
     Some (GThread (Some st) tp ups) \<Rightarrow> if i < length st then st ! i else GNil
   | _ \<Rightarrow> GNil)"

text \<open>The value \<open>*uv->v\<close>.\<close>

definition uv_v :: "gstate \<Rightarrow> upval \<Rightarrow> gval" where
  "uv_v g x = (case uv_open x of None \<Rightarrow> uv_value x | Some (th, i) \<Rightarrow> stack_slot g th i)"

definition openupval :: "gstate \<Rightarrow> nat \<Rightarrow> nat list" where
  "openupval g th = (case body g th of Some (GThread st tp ups) \<Rightarrow> ups | _ \<Rightarrow> [])"

section \<open>Marking\<close>

text \<open>
  The recursion of \<open>reallymarkobject\<close> goes through white objects, each of which it turns gray
  first: the number of objects bounds its depth.
\<close>

fun reallymark :: "nat \<Rightarrow> nat \<Rightarrow> gstate \<Rightarrow> gstate" where
  "reallymark 0 a g = g"
| "reallymark (Suc n) a g =
     (let g = set_mark a white2gray g in
      case body g a of
        None \<Rightarrow> g
      | Some (GStr s) \<Rightarrow> set_mark a gray2black g
      | Some (GUdata mt uv) \<Rightarrow>
          let g = (case mt of Some t \<Rightarrow> if white g t then reallymark n t g else g | None \<Rightarrow> g);
              g = set_mark a gray2black g
          in (case uv of GRef v \<Rightarrow> if white g v then reallymark n v g else g | _ \<Rightarrow> g)
      | Some b \<Rightarrow> g\<lparr>gs_gray := a # gs_gray g\<rparr>)"

definition reallymarkobject :: "nat \<Rightarrow> gstate \<Rightarrow> gstate" where
  "reallymarkobject a g = reallymark (length (gs_heap g)) a g"

definition markobject :: "nat \<Rightarrow> gstate \<Rightarrow> gstate" where
  "markobject a g = (if white g a then reallymarkobject a g else g)"

definition markobjectN :: "nat option \<Rightarrow> gstate \<Rightarrow> gstate" where
  "markobjectN t g = (case t of None \<Rightarrow> g | Some a \<Rightarrow> markobject a g)"

definition valiswhite :: "gstate \<Rightarrow> gval \<Rightarrow> bool" where
  "valiswhite g v = (case v of GRef a \<Rightarrow> white g a | _ \<Rightarrow> False)"

definition markvalue :: "gval \<Rightarrow> gstate \<Rightarrow> gstate" where
  "markvalue v g = (case v of GRef a \<Rightarrow> markobject a g | _ \<Rightarrow> g)"

definition isstring :: "gstate \<Rightarrow> nat \<Rightarrow> bool" where
  "isstring g a = (case body g a of Some (GStr s) \<Rightarrow> True | _ \<Rightarrow> False)"

definition iscleared :: "gval \<Rightarrow> gstate \<Rightarrow> bool \<times> gstate" where
  "iscleared v g = (case v of
     GRef a \<Rightarrow> if isstring g a then (False, markobject a g) else (white g a, g)
   | _ \<Rightarrow> (False, g))"

definition removeentry :: "gstate \<Rightarrow> gval \<Rightarrow> gval" where
  "removeentry g k = (case k of GRef a \<Rightarrow> if white g a then GDead a else k | _ \<Rightarrow> k)"

definition markmt :: "gstate \<Rightarrow> gstate" where
  "markmt g = fold markobjectN (gs_mt g) g"

definition markbeingfnz :: "gstate \<Rightarrow> gstate" where
  "markbeingfnz g = fold markobject (gs_tobefnz g) g"

definition remark_upval :: "nat \<Rightarrow> gstate \<Rightarrow> gstate" where
  "remark_upval u g = (case upv g u of
     Some x \<Rightarrow> if uv_touched x then set_upv u (Some (x\<lparr>uv_touched := False\<rparr>)) (markvalue (uv_v g x) g) else g
   | None \<Rightarrow> g)"

text \<open>The threads that stay in the list, and the state.\<close>

fun remark_threads :: "nat list \<Rightarrow> gstate \<Rightarrow> nat list \<times> gstate" where
  "remark_threads [] g = ([], g)"
| "remark_threads (th # ths) g =
     (if gray g th \<and> openupval g th \<noteq> [] then
        let (kept, g) = remark_threads ths g in (th # kept, g)
      else remark_threads ths (fold remark_upval (openupval g th) g))"

definition remarkupvals :: "gstate \<Rightarrow> gstate" where
  "remarkupvals g = (let (kept, g) = remark_threads (gs_twups g) g in g\<lparr>gs_twups := kept\<rparr>)"

definition restartcollection :: "gstate \<Rightarrow> gstate" where
  "restartcollection g =
     (let g = g\<lparr>gs_gray := [], gs_grayagain := [], gs_weak := [], gs_allweak := [], gs_ephemeron := []\<rparr>;
          g = markobject (gs_mainthread g) g;
          g = markvalue (gs_registry g) g;
          g = markmt g
      in markbeingfnz g)"

section \<open>Traversal\<close>

text \<open>
  A metamethod is looked up by the content of its name; the bits \<open>flags\<close> only cache that there is
  none.
\<close>

definition gfasttm :: "gstate \<Rightarrow> nat option \<Rightarrow> string \<Rightarrow> gval" where
  "gfasttm g et name = (case et of None \<Rightarrow> GNil | Some t \<Rightarrow> (case body g t of
     Some (GTable mt arr nodes) \<Rightarrow>
       (case List.find (\<lambda>(k, v). case k of GRef a \<Rightarrow> body g a = Some (GStr (str_bytes name)) | _ \<Rightarrow> False) nodes of
          Some (k, v) \<Rightarrow> v | None \<Rightarrow> GNil)
   | _ \<Rightarrow> GNil))"

text \<open>Whether keys and values are weak.\<close>

definition weak_mode :: "gstate \<Rightarrow> nat option \<Rightarrow> bool \<times> bool" where
  "weak_mode g mt = (case gfasttm g mt ''__mode'' of
     GRef a \<Rightarrow> (case body g a of Some (GStr s) \<Rightarrow> (ch CHR ''k'' \<in> set (cstr s), ch CHR ''v'' \<in> set (cstr s)) | _ \<Rightarrow> (False, False))
   | _ \<Rightarrow> (False, False))"

text \<open>The loops over the hash part return the nodes as they leave them.\<close>

fun weakvalue_nodes :: "(gval \<times> gval) list \<Rightarrow> bool \<Rightarrow> gstate \<Rightarrow> (gval \<times> gval) list \<times> bool \<times> gstate" where
  "weakvalue_nodes [] hasclears g = ([], hasclears, g)"
| "weakvalue_nodes ((k, v) # ns) hasclears g =
     (if v = GNil then
        let (ns', c, g') = weakvalue_nodes ns hasclears g in ((removeentry g k, v) # ns', c, g')
      else
        let g = markvalue k g;
            (c, g) = (if \<not> hasclears then iscleared v g else (False, g));
            (ns', c', g') = weakvalue_nodes ns (hasclears \<or> c) g
        in ((k, v) # ns', c', g'))"

definition traverseweakvalue :: "nat \<Rightarrow> nat option \<Rightarrow> gval list \<Rightarrow> (gval \<times> gval) list \<Rightarrow> gstate \<Rightarrow> gstate" where
  "traverseweakvalue h mt arr nodes g =
     (let (nodes, hasclears, g) = weakvalue_nodes nodes (arr \<noteq> []) g;
          g = set_body h (GTable mt arr nodes) g
      in if gs_gcstate g = GCSpropagate then g\<lparr>gs_grayagain := h # gs_grayagain g\<rparr>
         else if hasclears then g\<lparr>gs_weak := h # gs_weak g\<rparr> else g)"

fun ephemeron_array :: "gval list \<Rightarrow> bool \<Rightarrow> gstate \<Rightarrow> bool \<times> gstate" where
  "ephemeron_array [] m g = (m, g)"
| "ephemeron_array (v # vs) m g =
     (if valiswhite g v then ephemeron_array vs True (markvalue v g) else ephemeron_array vs m g)"

record eph_flags =
  ef_marked :: bool
  ef_hasclears :: bool
  ef_hasww :: bool

fun ephemeron_nodes :: "(gval \<times> gval) list \<Rightarrow> eph_flags \<Rightarrow> gstate \<Rightarrow> (gval \<times> gval) list \<times> eph_flags \<times> gstate" where
  "ephemeron_nodes [] f g = ([], f, g)"
| "ephemeron_nodes ((k, v) # ns) f g =
     (if v = GNil then
        let (ns', f', g') = ephemeron_nodes ns f g in ((removeentry g k, v) # ns', f', g')
      else
        let (c, g) = iscleared k g;
            (f, g) =
              (if c then (f\<lparr>ef_hasclears := True, ef_hasww := ef_hasww f \<or> valiswhite g v\<rparr>, g)
               else if valiswhite g v then (f\<lparr>ef_marked := True\<rparr>, markvalue v g)
               else (f, g));
            (ns', f', g') = ephemeron_nodes ns f g
        in ((k, v) # ns', f', g'))"

definition traverseephemeron_body :: "nat \<Rightarrow> nat option \<Rightarrow> gval list \<Rightarrow> (gval \<times> gval) list \<Rightarrow> gstate \<Rightarrow> bool \<times> gstate" where
  "traverseephemeron_body h mt arr nodes g =
     (let (m, g) = ephemeron_array arr False g;
          (nodes, f, g) = ephemeron_nodes nodes \<lparr>ef_marked = m, ef_hasclears = False, ef_hasww = False\<rparr> g;
          g = set_body h (GTable mt arr nodes) g;
          g = (if gs_gcstate g = GCSpropagate then g\<lparr>gs_grayagain := h # gs_grayagain g\<rparr>
               else if ef_hasww f then g\<lparr>gs_ephemeron := h # gs_ephemeron g\<rparr>
               else if ef_hasclears f then g\<lparr>gs_allweak := h # gs_allweak g\<rparr>
               else g)
      in (ef_marked f, g))"

definition traverseephemeron :: "nat \<Rightarrow> gstate \<Rightarrow> bool \<times> gstate" where
  "traverseephemeron h g = (case body g h of
     Some (GTable mt arr nodes) \<Rightarrow> traverseephemeron_body h mt arr nodes g | _ \<Rightarrow> (False, g))"

fun strong_nodes :: "(gval \<times> gval) list \<Rightarrow> gstate \<Rightarrow> (gval \<times> gval) list \<times> gstate" where
  "strong_nodes [] g = ([], g)"
| "strong_nodes ((k, v) # ns) g =
     (if v = GNil then let (ns', g') = strong_nodes ns g in ((removeentry g k, v) # ns', g')
      else let (ns', g') = strong_nodes ns (markvalue v (markvalue k g)) in ((k, v) # ns', g'))"

definition traversestrongtable :: "nat \<Rightarrow> nat option \<Rightarrow> gval list \<Rightarrow> (gval \<times> gval) list \<Rightarrow> gstate \<Rightarrow> gstate" where
  "traversestrongtable h mt arr nodes g =
     (let (nodes, g) = strong_nodes nodes (fold markvalue arr g) in set_body h (GTable mt arr nodes) g)"

definition traversetable :: "nat \<Rightarrow> nat option \<Rightarrow> gval list \<Rightarrow> (gval \<times> gval) list \<Rightarrow> gstate \<Rightarrow> gstate" where
  "traversetable h mt arr nodes g =
     (let (weakkey, weakvalue) = weak_mode g mt;
          g = markobjectN mt g
      in if weakkey \<or> weakvalue then
           let g = set_mark h black2gray g in
           if \<not> weakkey then traverseweakvalue h mt arr nodes g
           else if \<not> weakvalue then snd (traverseephemeron_body h mt arr nodes g)
           else g\<lparr>gs_allweak := h # gs_allweak g\<rparr>
         else traversestrongtable h mt arr nodes g)"

definition traverseproto ::
  "nat \<Rightarrow> nat option \<Rightarrow> nat option \<Rightarrow> gval list \<Rightarrow> nat option list \<Rightarrow> nat option list \<Rightarrow> nat option list \<Rightarrow> gstate \<Rightarrow> gstate" where
  "traverseproto f cache source k upnames p locnames g =
     (let cache = (case cache of Some c \<Rightarrow> if white g c then None else cache | None \<Rightarrow> None);
          g = set_body f (GProto cache source k upnames p locnames) g;
          g = markobjectN source g;
          g = fold markvalue k g;
          g = fold markobjectN upnames g;
          g = fold markobjectN p g
      in fold markobjectN locnames g)"

definition traverseCclosure :: "gval list \<Rightarrow> gstate \<Rightarrow> gstate" where
  "traverseCclosure upvalue g = fold markvalue upvalue g"

definition traverse_upval :: "nat option \<Rightarrow> gstate \<Rightarrow> gstate" where
  "traverse_upval uv g = (case uv of None \<Rightarrow> g | Some u \<Rightarrow> (case upv g u of None \<Rightarrow> g | Some x \<Rightarrow>
     if uv_open x \<noteq> None \<and> gs_gcstate g \<noteq> GCSinsideatomic then set_upv u (Some (x\<lparr>uv_touched := True\<rparr>)) g
     else markvalue (uv_v g x) g))"

definition traverseLclosure :: "nat option \<Rightarrow> nat option list \<Rightarrow> gstate \<Rightarrow> gstate" where
  "traverseLclosure p upvals g = fold traverse_upval upvals (markobjectN p g)"

definition traversethread :: "nat \<Rightarrow> gval list option \<Rightarrow> nat \<Rightarrow> nat list \<Rightarrow> gstate \<Rightarrow> gstate" where
  "traversethread th stack tp ups g = (case stack of
     None \<Rightarrow> g
   | Some st \<Rightarrow>
       let g = fold markvalue (take tp st) g in
       if gs_gcstate g = GCSinsideatomic then
         let g = set_body th (GThread (Some (take tp st @ map (\<lambda>_. GNil) (drop tp st))) tp ups) g in
         if th \<notin> set (gs_twups g) \<and> ups \<noteq> [] then g\<lparr>gs_twups := th # gs_twups g\<rparr> else g
       else g)"

text \<open>The object is at the head of \<open>gray\<close>.\<close>

definition propagatemark :: "gstate \<Rightarrow> gstate" where
  "propagatemark g = (case gs_gray g of
     [] \<Rightarrow> g
   | a # rest \<Rightarrow>
       let g = set_mark a gray2black g; g = g\<lparr>gs_gray := rest\<rparr> in
       case body g a of
         Some (GTable mt arr nodes) \<Rightarrow> traversetable a mt arr nodes g
       | Some (GLcl p upvals) \<Rightarrow> traverseLclosure p upvals g
       | Some (GCcl upvalue) \<Rightarrow> traverseCclosure upvalue g
       | Some (GThread stack tp ups) \<Rightarrow>
           traversethread a stack tp ups (set_mark a black2gray (g\<lparr>gs_grayagain := a # gs_grayagain g\<rparr>))
       | Some (GProto cache source k upnames p locnames) \<Rightarrow> traverseproto a cache source k upnames p locnames g
       | _ \<Rightarrow> g)"

section \<open>Barriers and new objects\<close>

definition luaC_barrier_fwd :: "nat \<Rightarrow> nat \<Rightarrow> gstate \<Rightarrow> gstate" where
  "luaC_barrier_fwd ob v g = (if keepinvariant g then reallymarkobject v g else makewhite ob g)"

definition luaC_barrierback_ob :: "nat \<Rightarrow> gstate \<Rightarrow> gstate" where
  "luaC_barrierback_ob t g = (let g = set_mark t black2gray g in g\<lparr>gs_grayagain := t # gs_grayagain g\<rparr>)"

definition luaC_upvalbarrier_uv :: "nat \<Rightarrow> gstate \<Rightarrow> gstate" where
  "luaC_upvalbarrier_uv u g = (case upv g u of
     Some x \<Rightarrow> if keepinvariant g then markvalue (uv_v g x) g else g | None \<Rightarrow> g)"

text \<open>The macros with the tests.\<close>

definition luaC_barrier :: "nat \<Rightarrow> gval \<Rightarrow> gstate \<Rightarrow> gstate" where
  "luaC_barrier p v g = (case v of GRef a \<Rightarrow> if black g p \<and> white g a then luaC_barrier_fwd p a g else g | _ \<Rightarrow> g)"

definition luaC_barrierback :: "nat \<Rightarrow> gval \<Rightarrow> gstate \<Rightarrow> gstate" where
  "luaC_barrierback p v g = (case v of GRef a \<Rightarrow> if black g p \<and> white g a then luaC_barrierback_ob p g else g | _ \<Rightarrow> g)"

definition luaC_objbarrier :: "nat \<Rightarrow> nat \<Rightarrow> gstate \<Rightarrow> gstate" where
  "luaC_objbarrier p a g = (if black g p \<and> white g a then luaC_barrier_fwd p a g else g)"

definition luaC_upvalbarrier :: "nat \<Rightarrow> gstate \<Rightarrow> gstate" where
  "luaC_upvalbarrier u g = (case upv g u of
     Some x \<Rightarrow> (case uv_v g x of GRef a \<Rightarrow> if uv_open x = None then luaC_upvalbarrier_uv u g else g | _ \<Rightarrow> g)
   | None \<Rightarrow> g)"

definition luaC_fix :: "nat \<Rightarrow> gstate \<Rightarrow> gstate" where
  "luaC_fix a g = (let g = set_mark a white2gray g in g\<lparr>gs_allgc := tl (gs_allgc g), gs_fixedgc := a # gs_fixedgc g\<rparr>)"

text \<open>A new object has an address that no object ever had.\<close>

definition luaC_newobj :: "gbody \<Rightarrow> gstate \<Rightarrow> nat \<times> gstate" where
  "luaC_newobj b g =
     (let a = length (gs_heap g)
      in (a, g\<lparr>gs_heap := gs_heap g @ [Some \<lparr>gc_marked = luaC_white g, gc_body = b\<rparr>], gs_allgc := a # gs_allgc g\<rparr>))"

end
