(* ===== verification/Lua_Func.thy ===== *)
theory Lua_Func
  imports Lua_Gc Lua_Chunk
begin

text \<open>
  Closures and upvalues: \<open>lfunc.c\<close>, the making of closures in \<open>lvm.c\<close>, and the functions of
  \<open>lapi.c\<close> that store a reference in an object and then call a barrier.
\<close>

section \<open>New functions\<close>

text \<open>\<open>nupvalues\<close> is a byte.  The values of a new C closure are set by its caller before the next collection.\<close>

definition luaF_newCclosure :: "nat \<Rightarrow> gstate \<Rightarrow> nat \<times> gstate" where
  "luaF_newCclosure n g = luaC_newobj (GCcl (replicate (unat (of_nat n :: byte)) GNil)) g"

definition luaF_newLclosure :: "nat \<Rightarrow> gstate \<Rightarrow> nat \<times> gstate" where
  "luaF_newLclosure n g = luaC_newobj (GLcl None (replicate (unat (of_nat n :: byte)) None)) g"

definition luaF_newproto :: "gstate \<Rightarrow> nat \<times> gstate" where
  "luaF_newproto g = luaC_newobj (GProto None None [] [] [] []) g"

section \<open>Upvalues\<close>

definition new_upval :: "upval \<Rightarrow> gstate \<Rightarrow> nat \<times> gstate" where
  "new_upval x g = (length (gs_upvals g), g\<lparr>gs_upvals := gs_upvals g @ [Some x]\<rparr>)"

fun fill_upvals :: "nat \<Rightarrow> gstate \<Rightarrow> nat option list \<times> gstate" where
  "fill_upvals 0 g = ([], g)"
| "fill_upvals (Suc n) g =
     (let (u, g) = new_upval \<lparr>uv_open = None, uv_value = GNil, uv_touched = False, uv_refcount = 1\<rparr> g;
          (us, g) = fill_upvals n g
      in (Some u # us, g))"

definition luaF_initupvals :: "nat \<Rightarrow> gstate \<Rightarrow> gstate" where
  "luaF_initupvals cl g = (case body g cl of
     Some (GLcl p ups) \<Rightarrow> let (us, g) = fill_upvals (length ups) g in set_body cl (GLcl p us) g
   | _ \<Rightarrow> g)"

definition uv_level :: "gstate \<Rightarrow> nat \<Rightarrow> nat" where
  "uv_level g u = (case upv g u of Some x \<Rightarrow> (case uv_open x of Some (th, i) \<Rightarrow> i | None \<Rightarrow> 0) | None \<Rightarrow> 0)"

definition set_openupval :: "nat \<Rightarrow> nat list \<Rightarrow> gstate \<Rightarrow> gstate" where
  "set_openupval th us g = (case body g th of
     Some (GThread st tp ups) \<Rightarrow> set_body th (GThread st tp us) g | _ \<Rightarrow> g)"

text \<open>The list of open upvalues goes from the highest level down.\<close>

definition luaF_findupval :: "nat \<Rightarrow> nat \<Rightarrow> gstate \<Rightarrow> nat \<times> gstate" where
  "luaF_findupval th level g =
     (let ups = openupval g th;
          above = takeWhile (\<lambda>u. level \<le> uv_level g u) ups
      in case List.find (\<lambda>u. uv_level g u = level) above of
           Some u \<Rightarrow> (u, g)
         | None \<Rightarrow>
             let (u, g) = new_upval \<lparr>uv_open = Some (th, level), uv_value = GNil, uv_touched = True, uv_refcount = 0\<rparr> g;
                 g = set_openupval th (above @ u # drop (length above) ups) g
             in (u, if th \<in> set (gs_twups g) then g else g\<lparr>gs_twups := th # gs_twups g\<rparr>))"

definition close_upval :: "nat \<Rightarrow> upval \<Rightarrow> gstate \<Rightarrow> gstate" where
  "close_upval u x g =
     (if uv_refcount x = 0 then set_upv u None g
      else luaC_upvalbarrier u (set_upv u (Some (x\<lparr>uv_open := None, uv_value := uv_v g x\<rparr>)) g))"

fun close_loop :: "nat \<Rightarrow> nat list \<Rightarrow> gstate \<Rightarrow> nat list \<times> gstate" where
  "close_loop level [] g = ([], g)"
| "close_loop level (u # us) g =
     (if level \<le> uv_level g u then
        close_loop level us (case upv g u of None \<Rightarrow> g | Some x \<Rightarrow> close_upval u x g)
      else (u # us, g))"

definition luaF_close :: "nat \<Rightarrow> nat \<Rightarrow> gstate \<Rightarrow> gstate" where
  "luaF_close th level g =
     (let (us, g) = close_loop level (openupval g th) g in set_openupval th us g)"

definition luaC_upvdeccount :: "nat \<Rightarrow> gstate \<Rightarrow> gstate" where
  "luaC_upvdeccount u g = (case upv g u of
     None \<Rightarrow> g
   | Some x \<Rightarrow>
       let x = x\<lparr>uv_refcount := uv_refcount x - 1\<rparr>
       in set_upv u (if uv_refcount x = 0 \<and> uv_open x = None then None else Some x) g)"

definition inc_refcount :: "nat \<Rightarrow> gstate \<Rightarrow> gstate" where
  "inc_refcount u g = (case upv g u of None \<Rightarrow> g | Some x \<Rightarrow> set_upv u (Some (x\<lparr>uv_refcount := Suc (uv_refcount x)\<rparr>)) g)"

text \<open>The name of the \<open>n\<close>-th local variable that is active at an instruction.\<close>

fun luaF_getlocalname :: "'s locvar list \<Rightarrow> int \<Rightarrow> int \<Rightarrow> 's option" where
  "luaF_getlocalname [] local_number pc = None"
| "luaF_getlocalname (v # vs) local_number pc =
     (if sint (v_startpc v) \<le> pc then
        if pc < sint (v_endpc v) then
          if local_number - 1 = 0 then v_name v else luaF_getlocalname vs (local_number - 1) pc
        else luaF_getlocalname vs local_number pc
      else None)"

section \<open>Closures made by the virtual machine\<close>

definition set_slot :: "nat \<Rightarrow> nat \<Rightarrow> gval \<Rightarrow> gstate \<Rightarrow> gstate" where
  "set_slot th i v g = (case body g th of
     Some (GThread (Some st) tp ups) \<Rightarrow> set_body th (GThread (Some (st[i := v])) tp ups) g | _ \<Rightarrow> g)"

text \<open>The address \<open>uv->v\<close>: a slot of a stack, or the upvalue itself.\<close>

definition uv_address :: "gstate \<Rightarrow> nat \<Rightarrow> (nat \<times> nat) + nat" where
  "uv_address g u = (case upv g u of Some x \<Rightarrow> (case uv_open x of Some s \<Rightarrow> Inl s | None \<Rightarrow> Inr u) | None \<Rightarrow> Inr u)"

text \<open>An upvalue is described by \<open>instack\<close> and \<open>idx\<close>.\<close>

definition getcached ::
  "nat \<Rightarrow> (bool \<times> nat) list \<Rightarrow> nat option \<Rightarrow> nat list \<Rightarrow> nat \<Rightarrow> gstate \<Rightarrow> nat option" where
  "getcached th uv cache encup base g = (case cache of
     None \<Rightarrow> None
   | Some c \<Rightarrow> (case body g c of
       Some (GLcl p upvals) \<Rightarrow>
         if list_all (\<lambda>i. (case upvals ! i of None \<Rightarrow> False | Some u \<Rightarrow> uv_address g u =
              (if fst (uv ! i) then Inl (th, base + snd (uv ! i)) else uv_address g (encup ! snd (uv ! i))))) [0..<length uv]
         then Some c else None
     | _ \<Rightarrow> None))"

fun push_upvals :: "nat \<Rightarrow> (bool \<times> nat) list \<Rightarrow> nat list \<Rightarrow> nat \<Rightarrow> gstate \<Rightarrow> nat option list \<times> gstate" where
  "push_upvals th [] encup base g = ([], g)"
| "push_upvals th ((instack, idx) # uv) encup base g =
     (let (u, g) = (if instack then luaF_findupval th (base + idx) g else (encup ! idx, g));
          g = inc_refcount u g;
          (us, g) = push_upvals th uv encup base g
      in (Some u # us, g))"

definition set_cache :: "nat \<Rightarrow> nat \<Rightarrow> gstate \<Rightarrow> gstate" where
  "set_cache p c g = (case body g p of
     Some (GProto cache source k upnames ps locnames) \<Rightarrow> set_body p (GProto (Some c) source k upnames ps locnames) g | _ \<Rightarrow> g)"

definition pushclosure ::
  "nat \<Rightarrow> nat \<Rightarrow> (bool \<times> nat) list \<Rightarrow> nat list \<Rightarrow> nat \<Rightarrow> nat \<Rightarrow> gstate \<Rightarrow> gstate" where
  "pushclosure th p uv encup base ra g =
     (let (ncl, g) = luaF_newLclosure (length uv) g;
          g = set_slot th ra (GRef ncl) g;
          (us, g) = push_upvals th uv encup base g;
          g = set_body ncl (GLcl (Some p) us) g
      in if \<not> black g p then set_cache p ncl g else g)"

section \<open>Stores with a barrier\<close>

definition set_uv_v :: "nat \<Rightarrow> gval \<Rightarrow> gstate \<Rightarrow> gstate" where
  "set_uv_v u v g = (case upv g u of
     None \<Rightarrow> g
   | Some x \<Rightarrow> (case uv_open x of
       None \<Rightarrow> set_upv u (Some (x\<lparr>uv_value := v\<rparr>)) g
     | Some (th, i) \<Rightarrow> set_slot th i v g))"

text \<open>Upvalues are counted from one; the name that is returned only tells whether there is such an upvalue.\<close>

definition lua_setupvalue :: "nat \<Rightarrow> int \<Rightarrow> gval \<Rightarrow> gstate \<Rightarrow> bool \<times> gstate" where
  "lua_setupvalue f n v g = (case body g f of
     Some (GCcl vs) \<Rightarrow>
       if 1 \<le> n \<and> n \<le> int (length vs) then (True, luaC_barrier f v (set_body f (GCcl (vs[nat (n - 1) := v])) g))
       else (False, g)
   | Some (GLcl p ups) \<Rightarrow>
       if 1 \<le> n \<and> n \<le> int (length ups) then (case ups ! nat (n - 1) of
           Some u \<Rightarrow> (True, luaC_upvalbarrier u (set_uv_v u v g)) | None \<Rightarrow> (True, g))
       else (False, g)
   | _ \<Rightarrow> (False, g))"

definition set_touched :: "nat \<Rightarrow> gstate \<Rightarrow> gstate" where
  "set_touched u g = (case upv g u of
     Some x \<Rightarrow> if uv_open x \<noteq> None then set_upv u (Some (x\<lparr>uv_touched := True\<rparr>)) g else g | None \<Rightarrow> g)"

definition getupvalref :: "nat \<Rightarrow> nat \<Rightarrow> gstate \<Rightarrow> nat option" where
  "getupvalref f n g = (case body g f of
     Some (GLcl p ups) \<Rightarrow> if 1 \<le> n \<and> n \<le> length ups then ups ! (n - 1) else None | _ \<Rightarrow> None)"

definition set_upvalref :: "nat \<Rightarrow> nat \<Rightarrow> nat \<Rightarrow> gstate \<Rightarrow> gstate" where
  "set_upvalref f n u g = (case body g f of
     Some (GLcl p ups) \<Rightarrow> set_body f (GLcl p (ups[n - 1 := Some u])) g | _ \<Rightarrow> g)"

definition lua_upvaluejoin :: "nat \<Rightarrow> nat \<Rightarrow> nat \<Rightarrow> nat \<Rightarrow> gstate \<Rightarrow> gstate" where
  "lua_upvaluejoin f1 n1 f2 n2 g = (case (getupvalref f1 n1 g, getupvalref f2 n2 g) of
     (Some up1, Some up2) \<Rightarrow>
       let g = luaC_upvdeccount up1 g;
           g = set_upvalref f1 n1 up2 g;
           g = inc_refcount up2 g;
           g = set_touched up2 g
       in luaC_upvalbarrier up2 g
   | _ \<Rightarrow> g)"

definition lua_setuservalue :: "nat \<Rightarrow> gval \<Rightarrow> gstate \<Rightarrow> gstate" where
  "lua_setuservalue a v g = (case body g a of
     Some (GUdata mt uv) \<Rightarrow> luaC_barrier a v (set_body a (GUdata mt v) g) | _ \<Rightarrow> g)"

end
