(* ===== verification/Lua_Gc_Mark.thy ===== *)
theory Lua_Gc_Mark
  imports Lua_Gc
begin

text \<open>
  What marking does.  \<open>mk g g'\<close> says that \<open>g'\<close> comes from \<open>g\<close> by marking: bodies and all lists but
  \<open>gray\<close> are as they were, no object turned white, an object that was not white kept its colours,
  and an object that was white is now black with nothing left to mark, or gray and in the list.
\<close>

section \<open>Colours\<close>

lemma bit_bitmask: "b < 8 \<Longrightarrow> bit (bitmask b) n \<longleftrightarrow> n = b"
  by (auto simp: bitmask_def push_bit_of_1 bit_exp_iff)

lemma bit_WHITEBITS: "bit WHITEBITS n \<longleftrightarrow> n = 0 \<or> n = 1"
  by (auto simp: WHITEBITS_def bit_or_iff bit_bitmask WHITE0BIT_def WHITE1BIT_def)

lemma and_zero_bits: "(m AND k = (0 :: byte)) \<longleftrightarrow> (\<forall>n. bit k n \<longrightarrow> \<not> bit m n)"
proof
  assume z: "m AND k = 0"
  show "\<forall>n. bit k n \<longrightarrow> \<not> bit m n"
  proof (intro allI impI notI)
    fix n assume "bit k n" "bit m n"
    then have "bit (m AND k) n" by (simp add: bit_and_iff)
    then show False using z by simp
  qed
next
  assume "\<forall>n. bit k n \<longrightarrow> \<not> bit m n"
  then show "m AND k = 0" by (intro bit_eqI) (auto simp: bit_and_iff)
qed

lemma iswhite_bits: "iswhite m \<longleftrightarrow> bit m 0 \<or> bit m 1"
  by (auto simp: iswhite_def and_zero_bits bit_WHITEBITS)

lemma isblack_bits: "isblack m \<longleftrightarrow> bit m 2"
  by (auto simp: isblack_def and_zero_bits bit_bitmask BLACKBIT_def)

lemma isgray_iff: "isgray m \<longleftrightarrow> \<not> iswhite m \<and> \<not> isblack m"
  by (auto simp: isgray_def and_zero_bits bit_or_iff bit_WHITEBITS bit_bitmask BLACKBIT_def iswhite_bits isblack_bits)

lemma colour_simps [simp]:
  "\<not> iswhite (white2gray m)" "isblack (white2gray m) = isblack m"
  "iswhite (gray2black m) = iswhite m" "isblack (gray2black m)"
  "iswhite (black2gray m) = iswhite m" "\<not> isblack (black2gray m)"
  by (auto simp: iswhite_bits isblack_bits white2gray_def gray2black_def black2gray_def bit_and_iff bit_or_iff bit_not_iff
      bit_WHITEBITS bit_bitmask BLACKBIT_def)

section \<open>Access to objects\<close>

lemma obj_set_mark:
  "obj (set_mark a f g) b = (if a = b then map_option (\<lambda>x. x\<lparr>gc_marked := f (gc_marked x)\<rparr>) (obj g b) else obj g b)"
  by (auto simp: obj_def set_mark_def)

lemma obj_set_body:
  "obj (set_body a c g) b = (if a = b then map_option (\<lambda>x. x\<lparr>gc_body := c\<rparr>) (obj g b) else obj g b)"
  by (auto simp: obj_def set_body_def)

lemma obj_cong: "gs_heap g' = gs_heap g \<Longrightarrow> obj g' a = obj g a"
  by (simp add: obj_def)

lemma has_mark_set_mark:
  "has_mark P (set_mark a f g) b = (if a = b then has_mark (\<lambda>m. P (f m)) g b else has_mark P g b)"
  by (auto simp: has_mark_def obj_set_mark split: option.split)

lemma body_set_mark [simp]: "body (set_mark a f g) b = body g b"
  by (auto simp: body_def obj_set_mark option.map_comp comp_def)

lemma has_mark_set_body [simp]: "has_mark P (set_body a c g) b = has_mark P g b"
  by (auto simp: has_mark_def obj_set_body split: option.split)

lemma body_set_body: "body (set_body a c g) b = (if a = b \<and> body g b \<noteq> None then Some c else body g b)"
  by (auto simp: body_def obj_set_body)

lemma gray_iff: "gray g a \<longleftrightarrow> obj g a \<noteq> None \<and> \<not> white g a \<and> \<not> black g a"
  by (auto simp: has_mark_def isgray_iff split: option.split)

lemma has_mark_obj: "has_mark P g a \<Longrightarrow> obj g a \<noteq> None"
  by (auto simp: has_mark_def split: option.splits)

lemma obj_body: "obj g a \<noteq> None \<longleftrightarrow> body g a \<noteq> None"
  by (simp add: body_def)

lemma state_fields [simp]:
  "obj (g\<lparr>gs_gray := l\<rparr>) a = obj g a" "obj (g\<lparr>gs_grayagain := l\<rparr>) a = obj g a" "obj (g\<lparr>gs_weak := l\<rparr>) a = obj g a"
  "obj (g\<lparr>gs_ephemeron := l\<rparr>) a = obj g a" "obj (g\<lparr>gs_allweak := l\<rparr>) a = obj g a"
  "obj (g\<lparr>gs_twups := l\<rparr>) a = obj g a" "obj (set_upv u x g) a = obj g a" "obj (g\<lparr>gs_gcstate := n\<rparr>) a = obj g a"
  "obj (g\<lparr>gs_tobefnz := l\<rparr>) a = obj g a" "obj (g\<lparr>gs_finobj := l\<rparr>) a = obj g a" "obj (g\<lparr>gs_gcfinnum := n\<rparr>) a = obj g a"
  "obj (g\<lparr>gs_currentwhite := w\<rparr>) a = obj g a" "obj (g\<lparr>gs_allgc := l\<rparr>) a = obj g a" "obj (g\<lparr>gs_sweepgc := s\<rparr>) a = obj g a"
  by (simp_all add: obj_def set_upv_def)

lemma has_mark_cong: "obj g' a = obj g a \<Longrightarrow> has_mark P g' a = has_mark P g a"
  by (simp add: has_mark_def)

lemma body_cong: "obj g' a = obj g a \<Longrightarrow> body g' a = body g a"
  by (simp add: body_def)

lemmas same_obj = has_mark_cong [OF state_fields(1)] has_mark_cong [OF state_fields(2)] has_mark_cong [OF state_fields(3)]
  has_mark_cong [OF state_fields(4)] has_mark_cong [OF state_fields(5)] has_mark_cong [OF state_fields(6)]
  has_mark_cong [OF state_fields(7)] has_mark_cong [OF state_fields(8)] has_mark_cong [OF state_fields(9)]
  has_mark_cong [OF state_fields(10)] has_mark_cong [OF state_fields(11)] has_mark_cong [OF state_fields(12)]
  has_mark_cong [OF state_fields(13)] has_mark_cong [OF state_fields(14)]
  body_cong [OF state_fields(1)] body_cong [OF state_fields(2)] body_cong [OF state_fields(3)]
  body_cong [OF state_fields(4)] body_cong [OF state_fields(5)] body_cong [OF state_fields(6)]
  body_cong [OF state_fields(7)] body_cong [OF state_fields(8)] body_cong [OF state_fields(9)]
  body_cong [OF state_fields(10)] body_cong [OF state_fields(11)] body_cong [OF state_fields(12)]
  body_cong [OF state_fields(13)] body_cong [OF state_fields(14)]

declare same_obj [simp]

section \<open>Marked references\<close>

definition oko :: "gstate \<Rightarrow> nat option \<Rightarrow> bool" where
  "oko g t \<longleftrightarrow> (case t of None \<Rightarrow> True | Some a \<Rightarrow> \<not> white g a)"

abbreviation okv :: "gstate \<Rightarrow> gval \<Rightarrow> bool" where
  "okv g v \<equiv> \<not> valiswhite g v"

text \<open>Objects that marking leaves black, with nothing left to mark, and those it puts in the gray list.\<close>

definition leaf_ok :: "gstate \<Rightarrow> nat \<Rightarrow> bool" where
  "leaf_ok g a \<longleftrightarrow> (case body g a of
     Some (GStr s) \<Rightarrow> True | Some (GUdata mt uv) \<Rightarrow> oko g mt \<and> okv g uv | _ \<Rightarrow> False)"

definition container :: "gstate \<Rightarrow> nat \<Rightarrow> bool" where
  "container g a \<longleftrightarrow> (case body g a of
     None \<Rightarrow> False | Some (GStr s) \<Rightarrow> False | Some (GUdata mt uv) \<Rightarrow> False | _ \<Rightarrow> True)"

text \<open>One frame fact per field that marking leaves alone.\<close>

definition same_rest :: "gstate \<Rightarrow> gstate \<Rightarrow> bool" where
  "same_rest g g' \<longleftrightarrow> g' = g\<lparr>gs_heap := gs_heap g', gs_gray := gs_gray g'\<rparr>"

lemma same_restI [intro]: "same_rest g (g\<lparr>gs_heap := h\<rparr>)" "same_rest g (g\<lparr>gs_gray := l\<rparr>)" "same_rest g g"
  by (simp_all add: same_rest_def)

lemma same_rest_trans: "same_rest g1 g2 \<Longrightarrow> same_rest g2 g3 \<Longrightarrow> same_rest g1 g3"
  unfolding same_rest_def by (cases g1; cases g2; cases g3) simp

lemma same_rest_fields:
  assumes "same_rest g g'"
  shows "gs_upvals g' = gs_upvals g" "gs_gcstate g' = gs_gcstate g" "gs_currentwhite g' = gs_currentwhite g"
    "gs_grayagain g' = gs_grayagain g" "gs_weak g' = gs_weak g" "gs_ephemeron g' = gs_ephemeron g"
    "gs_allweak g' = gs_allweak g" "gs_twups g' = gs_twups g" "gs_tobefnz g' = gs_tobefnz g" "gs_finobj g' = gs_finobj g"
    "gs_allgc g' = gs_allgc g" "gs_fixedgc g' = gs_fixedgc g" "gs_mainthread g' = gs_mainthread g"
    "gs_registry g' = gs_registry g" "gs_mt g' = gs_mt g" "gs_sweepgc g' = gs_sweepgc g" "gs_emergency g' = gs_emergency g"
    "gs_gcfinnum g' = gs_gcfinnum g"
  using assms unfolding same_rest_def by (cases g; cases g'; simp)+

definition mk :: "gstate \<Rightarrow> gstate \<Rightarrow> bool" where
  "mk g g' \<longleftrightarrow> same_rest g g' \<and> length (gs_heap g') = length (gs_heap g) \<and>
     (\<exists>ns. gs_gray g' = ns @ gs_gray g \<and> distinct ns \<and> (\<forall>a \<in> set ns. white g a \<and> container g a \<and> \<not> white g' a)) \<and>
     (\<forall>a. body g' a = body g a) \<and>
     (\<forall>a. white g' a \<or> \<not> white g a \<longrightarrow> obj g' a = obj g a) \<and>
     (\<forall>a. white g a \<longrightarrow> white g' a \<or> black g' a \<and> leaf_ok g' a \<or> black g' a = black g a \<and> a \<in> set (gs_gray g'))"

lemma mkI:
  assumes "same_rest g g'" "length (gs_heap g') = length (gs_heap g)"
    "gs_gray g' = ns @ gs_gray g" "distinct ns" "\<And>a. a \<in> set ns \<Longrightarrow> white g a \<and> container g a \<and> \<not> white g' a"
    "\<And>a. body g' a = body g a"
    "\<And>a. white g' a \<or> \<not> white g a \<longrightarrow> obj g' a = obj g a"
    "\<And>a. white g a \<Longrightarrow> white g' a \<or> black g' a \<and> leaf_ok g' a \<or> black g' a = black g a \<and> a \<in> set (gs_gray g')"
  shows "mk g g'"
  using assms unfolding mk_def by blast

lemma mk_refl [simp]: "mk g g"
  by (auto simp: mk_def)

lemma mkD:
  assumes "mk g g'"
  shows "body g' a = body g a" "white g' a \<Longrightarrow> white g a" "\<not> white g a \<Longrightarrow> obj g' a = obj g a"
    "length (gs_heap g') = length (gs_heap g)"
    "white g' a \<Longrightarrow> obj g' a = obj g a"
    "\<not> white g a \<Longrightarrow> has_mark P g' a = has_mark P g a"
    "set (gs_gray g) \<subseteq> set (gs_gray g')"
    "a \<in> set (gs_gray g') \<Longrightarrow> a \<in> set (gs_gray g) \<or> white g a \<and> container g a \<and> \<not> white g' a"
    "white g a \<Longrightarrow> white g' a \<or> black g' a \<and> leaf_ok g' a \<or> black g' a = black g a \<and> a \<in> set (gs_gray g')"
proof -
  note m = assms [unfolded mk_def]
  show b: "body g' a = body g a" "\<not> white g a \<Longrightarrow> obj g' a = obj g a" "length (gs_heap g') = length (gs_heap g)"
    "white g' a \<Longrightarrow> obj g' a = obj g a" 
    "white g a \<Longrightarrow> white g' a \<or> black g' a \<and> leaf_ok g' a \<or> black g' a = black g a \<and> a \<in> set (gs_gray g')"
    using m by blast+
  then show "white g' a \<Longrightarrow> white g a" "\<not> white g a \<Longrightarrow> has_mark P g' a = has_mark P g a"
    by (metis has_mark_cong)+
  show "set (gs_gray g) \<subseteq> set (gs_gray g')"
    "a \<in> set (gs_gray g') \<Longrightarrow> a \<in> set (gs_gray g) \<or> white g a \<and> container g a \<and> \<not> white g' a"
    using m by auto
qed

lemma mk_fields: "mk g g' \<Longrightarrow> same_rest g g'"
  by (simp add: mk_def)

text \<open>No object is both white and black.\<close>

definition clean :: "gstate \<Rightarrow> bool" where
  "clean g \<longleftrightarrow> (\<forall>a. \<not> (white g a \<and> black g a))"

lemma mk_clean: "mk g g' \<Longrightarrow> clean g \<Longrightarrow> clean g'"
  unfolding clean_def using mkD(2,5) has_mark_cong by metis

lemma mk_okv: "mk g g' \<Longrightarrow> okv g v \<Longrightarrow> okv g' v"
  using mkD(2) by (auto simp: valiswhite_def split: gval.splits)

lemma mk_oko: "mk g g' \<Longrightarrow> oko g t \<Longrightarrow> oko g' t"
  using mkD(2) by (auto simp: oko_def split: option.splits)

lemma mk_leaf: "mk g g' \<Longrightarrow> leaf_ok g a \<Longrightarrow> leaf_ok g' a"
  using mkD(1) mk_okv mk_oko by (auto simp: leaf_ok_def split: option.splits gbody.splits)

lemma mk_container: "mk g g' \<Longrightarrow> container g' a = container g a"
  by (simp add: container_def mkD(1))

lemma mk_trans:
  assumes "mk g1 g2" and "mk g2 g3"
  shows "mk g1 g3"
proof -
  obtain n1 where n1: "gs_gray g2 = n1 @ gs_gray g1" "distinct n1" "\<forall>a \<in> set n1. white g1 a \<and> container g1 a \<and> \<not> white g2 a"
    using assms(1) unfolding mk_def by blast
  obtain n2 where n2: "gs_gray g3 = n2 @ gs_gray g2" "distinct n2" "\<forall>a \<in> set n2. white g2 a \<and> container g2 a \<and> \<not> white g3 a"
    using assms(2) unfolding mk_def by blast
  have "white g1 a \<and> container g1 a \<and> \<not> white g3 a" if "a \<in> set (n2 @ n1)" for a
  proof (cases "a \<in> set n2")
    case True
    then show ?thesis using n2(3) mkD(2) [OF assms(1)] mk_container [OF assms(1)] by blast
  next
    case False
    then have "a \<in> set n1" using that by simp
    with n1(3) have "white g1 a" "container g1 a" "\<not> white g2 a" by blast+
    then show ?thesis using mkD(6) [OF assms(2)] by blast
  qed
  moreover have "set n2 \<inter> set n1 = {}"
    using n1(3) n2(3) by blast
  then have "distinct (n2 @ n1)" using n1(2) n2(2) by simp
  moreover have "gs_gray g3 = (n2 @ n1) @ gs_gray g1" using n1 n2 by simp
  moreover have "white g3 a \<or> \<not> white g1 a \<longrightarrow> obj g3 a = obj g1 a" for a
    using mkD(2,3,5) [OF assms(1), of a] mkD(2,3,5) [OF assms(2), of a] by metis
  moreover have "white g3 a \<or> black g3 a \<and> leaf_ok g3 a \<or> black g3 a = black g1 a \<and> a \<in> set (gs_gray g3)" if "white g1 a" for a
  proof (cases "white g2 a")
    case True
    then show ?thesis using mkD(9) [OF assms(2)] has_mark_cong [OF mkD(5) [OF assms(1)], of a isblack] by blast
  next
    case False
    then show ?thesis
      using mkD(9) [OF assms(1) that] mkD(6) [OF assms(2) False] mk_leaf [OF assms(2)] mkD(7) [OF assms(2)] by blast
  qed
  ultimately show ?thesis
    using mkD(4) [OF assms(1)] mkD(4) [OF assms(2)] mkD(1) [OF assms(1)] mkD(1) [OF assms(2)]
      same_rest_trans [OF mk_fields [OF assms(1)] mk_fields [OF assms(2)]]
    by (intro mkI [where ns = "n2 @ n1"]) simp_all
qed

section \<open>Every marking routine marks\<close>

lemma leaf_ok_black: "leaf_ok g b \<Longrightarrow> leaf_ok (set_mark a gray2black g) b"
  by (auto simp: leaf_ok_def oko_def valiswhite_def has_mark_set_mark split: option.splits gbody.splits gval.splits)

lemma container_mark [simp]: "container (set_mark a f g) b = container g b"
  by (simp add: container_def)

lemma set_mark_fields [simp]:
  "gs_gray (set_mark a f g) = gs_gray g" "length (gs_heap (set_mark a f g)) = length (gs_heap g)"
  "same_rest g (set_mark a f g)" "same_rest (set_mark a f g) g' \<longleftrightarrow> same_rest g g'"
  by (auto simp: set_mark_def same_rest_def)

lemma has_mark_False [simp]: "has_mark (\<lambda>m. False) g a = False"
  by (simp add: has_mark_def split: option.split)

lemma colour_set_mark [simp]:
  "white (set_mark a white2gray g) b \<longleftrightarrow> white g b \<and> a \<noteq> b"
  "white (set_mark a gray2black g) b = white g b"
  "white (set_mark a black2gray g) b = white g b"
  "black (set_mark a white2gray g) b = black g b"
  "black (set_mark a gray2black g) b \<longleftrightarrow> black g b \<or> a = b \<and> obj g a \<noteq> None"
  "black (set_mark a black2gray g) b \<longleftrightarrow> black g b \<and> a \<noteq> b"
  by (auto simp: has_mark_set_mark) (auto simp: has_mark_def split: option.splits)

lemma mk_blacken:
  assumes m: "mk g g'" and a: "\<not> white g a"
  shows "mk (set_mark a gray2black g) (set_mark a gray2black g')"
proof -
  obtain ns where ns: "gs_gray g' = ns @ gs_gray g" "distinct ns" "\<forall>b \<in> set ns. white g b \<and> container g b \<and> \<not> white g' b"
    using m unfolding mk_def by blast
  have w: "white (set_mark a gray2black h) b = white h b" for h b
    by (simp add: has_mark_set_mark)
  have "a \<notin> set ns" using ns(3) a by blast
  have "obj (set_mark a gray2black g') b = obj (set_mark a gray2black g) b"
    if "white (set_mark a gray2black g') b \<or> \<not> white (set_mark a gray2black g) b" for b
    using that mkD(3,5) [OF m, of b] unfolding w by (auto simp: obj_set_mark)
  moreover have "white (set_mark a gray2black g') b \<or> black (set_mark a gray2black g') b \<and> leaf_ok (set_mark a gray2black g') b
      \<or> black (set_mark a gray2black g') b = black (set_mark a gray2black g) b \<and> b \<in> set (gs_gray (set_mark a gray2black g'))"
    if "white (set_mark a gray2black g) b" for b
    using that mkD(9) [OF m, of b] a leaf_ok_black unfolding w by (auto simp: has_mark_set_mark)
  moreover have "same_rest (set_mark a gray2black g) (set_mark a gray2black g')"
    using same_rest_trans [OF mk_fields [OF m] set_mark_fields(3)] by simp
  ultimately show ?thesis
    using ns mkD(1,4) [OF m] by (intro mkI [where ns = ns]) (simp_all add: w)
qed

text \<open>A white object that is blackened, and whose references are marked after that.\<close>

lemma mk_leaf_object:
  assumes w: "white g a" and m: "mk (set_mark a (\<lambda>m. gray2black (white2gray m)) g) g'" and l: "leaf_ok g' a"
  shows "mk g g'"
proof -
  let ?h = "set_mark a (\<lambda>m. gray2black (white2gray m)) g"
  have hb: "white ?h b \<longleftrightarrow> white g b \<and> b \<noteq> a" "b \<noteq> a \<Longrightarrow> obj ?h b = obj g b" for b
    by (auto simp: has_mark_set_mark has_mark_def obj_set_mark split: option.split)
  have a: "black g' a" "\<not> white g' a"
  proof -
    have "black ?h a" "\<not> white ?h a" using w by (auto simp: has_mark_def obj_set_mark split: option.splits)
    then show "black g' a" "\<not> white g' a" using mkD(2) [OF m] mkD(6) [OF m] by blast+
  qed
  obtain ns where ns: "gs_gray g' = ns @ gs_gray ?h" "distinct ns" "\<forall>b \<in> set ns. white ?h b \<and> container ?h b \<and> \<not> white g' b"
    using m unfolding mk_def by blast
  have 1: "obj g' b = obj g b" if "white g' b \<or> \<not> white g b" for b
  proof -
    have "b \<noteq> a" using that a(2) w by blast
    then show ?thesis using that hb mkD(3,5) [OF m, of b] by metis
  qed
  have hblack: "black ?h b = black g b" if "b \<noteq> a" for b
    using has_mark_cong [OF hb(2) [OF that]] .
  have 2: "white g' b \<or> black g' b \<and> leaf_ok g' b \<or> black g' b = black g b \<and> b \<in> set (gs_gray g')" if "white g b" for b
    using that mkD(9) [OF m, of b] hb(1) [of b] hblack [of b] a l by blast
  show ?thesis
    using ns mkD(1,4) [OF m] mk_fields [OF m] 1 2 hb(1) by (intro mkI [where ns = ns]) simp_all
qed

text \<open>A white object that is put in the gray list.\<close>

lemma mk_gray_object:
  assumes w: "white g a" and c: "container g a"
  shows "mk g ((set_mark a white2gray g)\<lparr>gs_gray := a # gs_gray g\<rparr>)"
proof -
  have "same_rest g ((set_mark a white2gray g)\<lparr>gs_gray := a # gs_gray g\<rparr>)"
    by (simp add: same_rest_def set_mark_def)
  then show ?thesis
    using w c by (intro mkI [where ns = "[a]"]) (auto simp: obj_set_mark)
qed

text \<open>The number of white objects bounds the depth of \<open>reallymark\<close>.\<close>

definition whites :: "gstate \<Rightarrow> nat" where
  "whites g = card {a. white g a}"

lemma white_less: "white g a \<Longrightarrow> a < length (gs_heap g)"
  by (auto simp: has_mark_def obj_def split: if_splits)

lemma finite_white [simp]: "finite {a. white g a}"
  by (rule finite_subset [of _ "{..<length (gs_heap g)}"]) (auto dest: white_less)

lemma whites_le_heap: "whites g \<le> length (gs_heap g)"
  unfolding whites_def using card_mono [of "{..<length (gs_heap g)}" "{a. white g a}"] by (auto dest: white_less)

lemma whites_mono: "(\<And>a. white g' a \<Longrightarrow> white g a) \<Longrightarrow> whites g' \<le> whites g"
  unfolding whites_def by (rule card_mono) auto

lemma whites_less: "(\<And>a. white g' a \<Longrightarrow> white g a) \<Longrightarrow> white g a \<Longrightarrow> \<not> white g' a \<Longrightarrow> whites g' < whites g"
  unfolding whites_def by (rule psubset_card_mono) auto

lemma reallymark_mk:
  "white g a \<Longrightarrow> whites g \<le> n \<Longrightarrow> mk g (reallymark n a g) \<and> \<not> white (reallymark n a g) a"
proof (induction n arbitrary: a g)
  case 0
  then show ?case using whites_less [of "g\<lparr>gs_heap := []\<rparr>" g a] by (simp add: has_mark_def obj_def)
next
  case (Suc n)
  let ?g1 = "set_mark a white2gray g"
  let ?h = "set_mark a (\<lambda>m. gray2black (white2gray m)) g"
  have h: "set_mark a gray2black ?g1 = ?h"
    by (simp add: set_mark_def obj_def option.map_comp comp_def)
  have w1: "whites ?g1 \<le> n"
  proof -
    have "whites ?g1 < whites g"
      using Suc.prems(1) by (intro whites_less [of _ _ a]) auto
    then show ?thesis using Suc.prems(2) by simp
  qed
  have a1: "\<not> white ?g1 a" by simp
  have leaf: "mk g g' \<and> \<not> white g' a" if "mk ?h g'" "leaf_ok g' a" for g'
  proof -
    have "\<not> white ?h a" by (simp flip: h)
    then show ?thesis using mk_leaf_object [OF Suc.prems(1) that] mkD(2) [OF that(1), of a] by blast
  qed
  have gr: "mk g (?g1\<lparr>gs_gray := a # gs_gray ?g1\<rparr>) \<and> \<not> white (?g1\<lparr>gs_gray := a # gs_gray ?g1\<rparr>) a" if "container g a"
    using mk_gray_object [OF Suc.prems(1) that] a1 by auto
  obtain b where b: "body g a = Some b"
    using has_mark_obj [OF Suc.prems(1)] by (auto simp: body_def)
  show ?case
  proof (cases b)
    case (GStr s)
    have "leaf_ok ?h a" using b GStr by (simp add: leaf_ok_def)
    then show ?thesis using leaf [OF mk_refl] b GStr h by simp
  next
    case (GUdata mt uv)
    define g2 where "g2 = (case mt of Some t \<Rightarrow> if white ?g1 t then reallymark n t ?g1 else ?g1 | None \<Rightarrow> ?g1)"
    define g3 where "g3 = set_mark a gray2black g2"
    define g4 where "g4 = (case uv of GRef v \<Rightarrow> if white g3 v then reallymark n v g3 else g3 | _ \<Rightarrow> g3)"
    have m2: "mk ?g1 g2 \<and> oko g2 mt"
      using Suc.IH [OF _ w1] by (auto simp: g2_def oko_def split: option.split)
    have m3: "mk ?h g3" using mk_blacken [OF conjunct1 [OF m2] a1] unfolding h g3_def .
    have "whites g3 \<le> n"
    proof -
      have "white g3 b \<Longrightarrow> white ?g1 b" for b using mkD(2) [OF conjunct1 [OF m2], of b] by (simp add: g3_def)
      then have "whites g3 \<le> whites ?g1" by (rule whites_mono)
      then show ?thesis using w1 by simp
    qed
    then have m4: "mk g3 g4 \<and> okv g4 uv"
      using Suc.IH [of g3] by (auto simp: g4_def valiswhite_def split: gval.split)
    have "mk ?h g4" using m3 m4 mk_trans by blast
    moreover have "oko g3 mt" using m2 by (auto simp: g3_def oko_def has_mark_set_mark split: option.splits)
    then have "leaf_ok g4 a"
      using m4 mk_oko mkD(1) [OF \<open>mk ?h g4\<close>, of a] b GUdata by (auto simp: leaf_ok_def)
    ultimately have "mk g g4 \<and> \<not> white g4 a" by (rule leaf)
    moreover have "reallymark (Suc n) a g = g4"
      unfolding g4_def g3_def g2_def reallymark.simps Let_def body_set_mark b GUdata option.case gbody.case by (rule refl)
    ultimately show ?thesis by simp
  qed (use gr b in \<open>simp_all add: container_def\<close>)
qed

lemma reallymarkobject_mk: "white g a \<Longrightarrow> mk g (reallymarkobject a g) \<and> \<not> white (reallymarkobject a g) a"
  unfolding reallymarkobject_def using reallymark_mk whites_le_heap by blast

lemma markobject_mk: "mk g (markobject a g)" "\<not> white (markobject a g) a"
  using reallymarkobject_mk [of g a] by (auto simp: markobject_def)

lemma markobjectN_mk: "mk g (markobjectN t g)" "oko (markobjectN t g) t"
  using markobject_mk by (auto simp: markobjectN_def oko_def split: option.split)

lemma markvalue_mk: "mk g (markvalue v g)" "okv (markvalue v g) v"
  using markobject_mk by (auto simp: markvalue_def valiswhite_def split: gval.split)

lemma iscleared_mk: "mk g (snd (iscleared v g))"
  using markobject_mk by (auto simp: iscleared_def split: gval.split)

lemma iscleared_false: "\<not> fst (iscleared v g) \<Longrightarrow> okv (snd (iscleared v g)) v"
  using markobject_mk by (auto simp: iscleared_def valiswhite_def split: gval.splits if_splits)

lemma iscleared_true: "fst (iscleared v g) \<Longrightarrow> snd (iscleared v g) = g \<and> valiswhite g v"
  by (auto simp: iscleared_def valiswhite_def split: gval.splits if_splits)

text \<open>A fold of marking routines marks, and marks all of its list.\<close>

lemma fold_mk:
  assumes "\<And>x g. mk g (f x g)"
  shows "mk g (fold f xs g)"
proof (induction xs arbitrary: g)
  case (Cons x xs)
  show ?case using mk_trans [OF assms Cons.IH] by simp
qed simp

lemma fold_mk_all:
  assumes f: "\<And>x g. mk g (f x g)" and P: "\<And>x g. P (f x g) x"
    and mono: "\<And>x g g'. mk g g' \<Longrightarrow> P g x \<Longrightarrow> P g' x" and "x \<in> set xs"
  shows "P (fold f xs g) x"
  using assms(4)
proof (induction xs arbitrary: g)
  case (Cons y xs)
  show ?case
  proof (cases "x = y")
    case True
    then show ?thesis using mono [OF fold_mk [where f = f, OF f] P, of xs y] by simp
  next
    case False
    then show ?thesis using Cons.IH Cons.prems by simp
  qed
qed simp

lemma fold_markvalue: "mk g (fold markvalue vs g)" "v \<in> set vs \<Longrightarrow> okv (fold markvalue vs g) v"
  using fold_mk [of markvalue, OF markvalue_mk(1)]
    fold_mk_all [where f = markvalue and P = okv, OF markvalue_mk(1) markvalue_mk(2)] mk_okv by blast+

lemma fold_markobjectN: "mk g (fold markobjectN ts g)" "t \<in> set ts \<Longrightarrow> oko (fold markobjectN ts g) t"
  using fold_mk [of markobjectN, OF markobjectN_mk(1)]
    fold_mk_all [where f = markobjectN and P = oko, OF markobjectN_mk(1) markobjectN_mk(2)] mk_oko by blast+

lemma fold_markobject: "mk g (fold markobject xs g)" "a \<in> set xs \<Longrightarrow> \<not> white (fold markobject xs g) a"
  using fold_mk [of markobject, OF markobject_mk(1)]
    fold_mk_all [where f = markobject and P = "\<lambda>g a. \<not> white g a", OF markobject_mk(1) markobject_mk(2)] mkD(2) by blast+

end
