(* ===== verification/Lua_Gc_Trav.thy ===== *)
theory Lua_Gc_Trav
  imports Lua_Gc_Mark
begin

text \<open>
  Traversal.  \<open>all_ok ph g a\<close> says that whatever the object \<open>a\<close> refers to is marked; of an open
  upvalue it asks before the atomic step that it is touched, and after the upvalues have been
  remarked (\<open>ph\<close>) that its value or its thread is marked.  \<open>done_ok\<close> weakens this for the tables in
  the lists of weak tables, which the atomic step clears later.  \<open>trav ph a g g'\<close> is the step relation
  of a traversal of \<open>a\<close>; the last section shows that \<open>propagatemark\<close> is one, after which \<open>a\<close> is done
  or in a list to be visited again.
\<close>

section \<open>What an object needs marked\<close>

definition uvok :: "bool \<Rightarrow> gstate \<Rightarrow> nat option \<Rightarrow> bool" where
  "uvok ph g uv \<longleftrightarrow> (case uv of None \<Rightarrow> True | Some u \<Rightarrow> (case upv g u of None \<Rightarrow> True | Some x \<Rightarrow>
     (case uv_open x of
        None \<Rightarrow> okv g (uv_value x)
      | Some (th, i) \<Rightarrow> if ph then okv g (uv_v g x) \<or> \<not> white g th else uv_touched x)))"

fun body_ok :: "bool \<Rightarrow> gstate \<Rightarrow> gbody \<Rightarrow> bool" where
  "body_ok ph g (GStr s) = True"
| "body_ok ph g (GUdata mt uv) = (oko g mt \<and> okv g uv)"
| "body_ok ph g (GLcl p ups) = (oko g p \<and> (\<forall>u \<in> set ups. uvok ph g u))"
| "body_ok ph g (GCcl vs) = (\<forall>v \<in> set vs. okv g v)"
| "body_ok ph g (GTable mt arr nodes) = (oko g mt \<and> (\<forall>v \<in> set arr. okv g v) \<and> (\<forall>(k, v) \<in> set nodes. okv g k \<and> okv g v))"
| "body_ok ph g (GThread st tp ups) = (case st of None \<Rightarrow> True | Some vs \<Rightarrow> \<forall>v \<in> set vs. okv g v)"
| "body_ok ph g (GProto cache source k upnames p locnames) =
     (oko g cache \<and> oko g source \<and> (\<forall>v \<in> set k. okv g v) \<and> (\<forall>t \<in> set upnames. oko g t) \<and> (\<forall>t \<in> set p. oko g t) \<and>
      (\<forall>t \<in> set locnames. oko g t))"

definition all_ok :: "bool \<Rightarrow> gstate \<Rightarrow> nat \<Rightarrow> bool" where
  "all_ok ph g a \<longleftrightarrow> (case body g a of None \<Rightarrow> True | Some b \<Rightarrow> body_ok ph g b)"

text \<open>Tables whose values are weak, tables that are wholly weak, and ephemeron tables.\<close>

definition wk_ok :: "gstate \<Rightarrow> nat \<Rightarrow> bool" where
  "wk_ok g a \<longleftrightarrow> (case body g a of
     Some (GTable mt arr nodes) \<Rightarrow> oko g mt \<and> (\<forall>(k, v) \<in> set nodes. okv g k) | _ \<Rightarrow> False)"

definition mt_ok :: "gstate \<Rightarrow> nat \<Rightarrow> bool" where
  "mt_ok g a \<longleftrightarrow> (case body g a of Some (GTable mt arr nodes) \<Rightarrow> oko g mt | _ \<Rightarrow> False)"

definition eph_ok :: "gstate \<Rightarrow> nat \<Rightarrow> bool" where
  "eph_ok g a \<longleftrightarrow> (case body g a of
     Some (GTable mt arr nodes) \<Rightarrow> oko g mt \<and> (\<forall>v \<in> set arr. okv g v) \<and> (\<forall>(k, v) \<in> set nodes. v = GNil \<longrightarrow> okv g k)
   | _ \<Rightarrow> False)"

definition done_ok :: "bool \<Rightarrow> gstate \<Rightarrow> nat \<Rightarrow> bool" where
  "done_ok ph g a \<longleftrightarrow> all_ok ph g a \<or> a \<in> set (gs_weak g) \<and> wk_ok g a \<or> a \<in> set (gs_allweak g) \<and> mt_ok g a \<or>
     a \<in> set (gs_ephemeron g) \<and> eph_ok g a"

section \<open>The step relation of a traversal\<close>

definition same_roots :: "gstate \<Rightarrow> gstate \<Rightarrow> bool" where
  "same_roots g g' \<longleftrightarrow> gs_gcstate g' = gs_gcstate g \<and> gs_currentwhite g' = gs_currentwhite g \<and> gs_allgc g' = gs_allgc g \<and>
     gs_finobj g' = gs_finobj g \<and> gs_tobefnz g' = gs_tobefnz g \<and> gs_fixedgc g' = gs_fixedgc g \<and>
     gs_mainthread g' = gs_mainthread g \<and> gs_registry g' = gs_registry g \<and> gs_mt g' = gs_mt g \<and>
     gs_sweepgc g' = gs_sweepgc g \<and> gs_emergency g' = gs_emergency g \<and> gs_gcfinnum g' = gs_gcfinnum g"

definition ups_ext :: "gstate \<Rightarrow> gstate \<Rightarrow> bool" where
  "ups_ext g g' \<longleftrightarrow> length (gs_upvals g') = length (gs_upvals g) \<and>
     (\<forall>u. upv g' u = upv g u \<or> (\<exists>x. upv g u = Some x \<and> upv g' u = Some (x\<lparr>uv_touched := True\<rparr>)))"

definition lists_ext :: "gstate \<Rightarrow> gstate \<Rightarrow> bool" where
  "lists_ext g g' \<longleftrightarrow> set (gs_gray g) \<subseteq> set (gs_gray g') \<and> set (gs_grayagain g) \<subseteq> set (gs_grayagain g') \<and>
     set (gs_weak g) \<subseteq> set (gs_weak g') \<and> set (gs_allweak g) \<subseteq> set (gs_allweak g') \<and>
     set (gs_ephemeron g) \<subseteq> set (gs_ephemeron g') \<and> set (gs_twups g) \<subseteq> set (gs_twups g')"

text \<open>What a traversal leaves as it is in a body: it clears stacks and caches and declares keys dead.\<close>

definition entry_of :: "gval \<times> gval \<Rightarrow> gval \<times> gval" where
  "entry_of e = (case fst e of GDead a \<Rightarrow> GRef a | k \<Rightarrow> k, snd e)"

lemma entry_of_removeentry [simp]: "entry_of (removeentry g k, v) = entry_of (k, v)"
  by (simp add: entry_of_def removeentry_def split: gval.split)

definition clear_stack :: "nat \<Rightarrow> gval list \<Rightarrow> gval list" where
  "clear_stack tp st = take tp st @ map (\<lambda>_. GNil) (drop tp st)"

lemma length_clear_stack [simp]: "length (clear_stack tp st) = length st"
  by (simp add: clear_stack_def)

lemma clear_stack_idem [simp]: "clear_stack tp (take tp st @ map (\<lambda>_. GNil) (drop tp st)) = clear_stack tp st"
  by (cases "tp \<le> length st") (simp_all add: clear_stack_def)

fun shape :: "gbody \<Rightarrow> gbody" where
  "shape (GThread st tp ups) = GThread (map_option (clear_stack tp) st) tp ups"
| "shape (GTable mt arr nodes) = GTable mt arr (map entry_of nodes)"
| "shape (GProto cache source k upnames p locnames) = GProto None source k upnames p locnames"
| "shape b = b"

definition gshape :: "gstate \<Rightarrow> nat \<Rightarrow> gbody option" where
  "gshape g a = map_option shape (body g a)"

text \<open>New elements of the gray list were white.\<close>

definition gray_ext :: "gstate \<Rightarrow> gstate \<Rightarrow> bool" where
  "gray_ext g g' \<longleftrightarrow> (\<exists>ns. gs_gray g' = ns @ gs_gray g \<and> distinct ns \<and> (\<forall>b \<in> set ns. white g b \<and> \<not> white g' b \<and> container g b))"

text \<open>The measure: a white object counts twice, an object in the gray list once.\<close>

definition mu :: "gstate \<Rightarrow> nat" where
  "mu g = 2 * whites g + length (gs_gray g)"

definition trav :: "nat \<Rightarrow> gstate \<Rightarrow> gstate \<Rightarrow> bool" where
  "trav a g g' \<longleftrightarrow> same_roots g g' \<and> ups_ext g g' \<and> lists_ext g g' \<and> length (gs_heap g') = length (gs_heap g) \<and>
     (\<forall>b. obj g' b = None \<longleftrightarrow> obj g b = None) \<and> (\<forall>b. white g' b \<longrightarrow> white g b) \<and>
     (\<forall>b. b \<noteq> a \<longrightarrow> body g' b = body g b) \<and>
     (\<forall>b. b \<noteq> a \<and> (\<not> white g b \<or> white g' b) \<longrightarrow> obj g' b = obj g b) \<and>
     (\<forall>b. b \<noteq> a \<and> white g b \<and> \<not> white g' b \<longrightarrow>
        black g' b \<and> leaf_ok g' b \<or> black g' b = black g b \<and> b \<in> set (gs_gray g')) \<and>
     gray_ext g g' \<and> (\<forall>b. gshape g' b = gshape g b) \<and> set (gs_twups g') \<subseteq> insert a (set (gs_twups g)) \<and>
     (\<forall>x. okv g (uv_v g x) \<longrightarrow> okv g' (uv_v g' x)) \<and> mu g' \<le> mu g"

lemma upv_cong: "gs_upvals g' = gs_upvals g \<Longrightarrow> upv g' u = upv g u"
  by (simp add: upv_def)

lemma uv_v_cong: "(\<And>b. body g' b = body g b) \<Longrightarrow> uv_v g' x = uv_v g x"
  by (auto simp: uv_v_def stack_slot_def split: option.split)

lemma ups_ext_same: "gs_upvals g' = gs_upvals g \<Longrightarrow> ups_ext g g'"
  by (simp add: ups_ext_def upv_def)

lemma ups_ext_trans:
  assumes "ups_ext g1 g2" and "ups_ext g2 g3"
  shows "ups_ext g1 g3"
  unfolding ups_ext_def
proof (intro conjI allI)
  show "length (gs_upvals g3) = length (gs_upvals g1)" using assms by (simp add: ups_ext_def)
  fix u
  have "upv g2 u = upv g1 u \<or> (\<exists>x. upv g1 u = Some x \<and> upv g2 u = Some (x\<lparr>uv_touched := True\<rparr>))"
    "upv g3 u = upv g2 u \<or> (\<exists>x. upv g2 u = Some x \<and> upv g3 u = Some (x\<lparr>uv_touched := True\<rparr>))"
    using assms by (auto simp: ups_ext_def)
  then show "upv g3 u = upv g1 u \<or> (\<exists>x. upv g1 u = Some x \<and> upv g3 u = Some (x\<lparr>uv_touched := True\<rparr>))"
    by (cases "upv g1 u") auto
qed

lemma travD:
  assumes "trav a g g'"
  shows "same_roots g g'" "ups_ext g g'" "lists_ext g g'" "length (gs_heap g') = length (gs_heap g)"
    "obj g' b = None \<longleftrightarrow> obj g b = None" "white g' b \<Longrightarrow> white g b" "b \<noteq> a \<Longrightarrow> body g' b = body g b"
    "b \<noteq> a \<Longrightarrow> \<not> white g b \<or> white g' b \<Longrightarrow> obj g' b = obj g b"
    "b \<noteq> a \<Longrightarrow> white g b \<Longrightarrow> \<not> white g' b \<Longrightarrow> black g' b \<and> leaf_ok g' b \<or> black g' b = black g b \<and> b \<in> set (gs_gray g')"
    "okv g (uv_v g x) \<Longrightarrow> okv g' (uv_v g' x)" "mu g' \<le> mu g"
    "gray_ext g g'" "gshape g' b = gshape g b" "set (gs_twups g') \<subseteq> insert a (set (gs_twups g))"
proof -
  note t = assms [unfolded trav_def]
  show "same_roots g g'" "ups_ext g g'" "lists_ext g g'" "length (gs_heap g') = length (gs_heap g)"
    "obj g' b = None \<longleftrightarrow> obj g b = None" "white g' b \<Longrightarrow> white g b" "b \<noteq> a \<Longrightarrow> body g' b = body g b"
    "b \<noteq> a \<Longrightarrow> \<not> white g b \<or> white g' b \<Longrightarrow> obj g' b = obj g b"
    "b \<noteq> a \<Longrightarrow> white g b \<Longrightarrow> \<not> white g' b \<Longrightarrow> black g' b \<and> leaf_ok g' b \<or> black g' b = black g b \<and> b \<in> set (gs_gray g')"
    "okv g (uv_v g x) \<Longrightarrow> okv g' (uv_v g' x)" "mu g' \<le> mu g"
    using t by blast+
  show "gray_ext g g'" "gshape g' b = gshape g b" "set (gs_twups g') \<subseteq> insert a (set (gs_twups g))"
    using t by blast+
qed

lemma travI:
  assumes "same_roots g g'" "ups_ext g g'" "lists_ext g g'" "length (gs_heap g') = length (gs_heap g)"
    "\<And>b. obj g' b = None \<longleftrightarrow> obj g b = None" "\<And>b. white g' b \<Longrightarrow> white g b"
    "\<And>b. b \<noteq> a \<Longrightarrow> body g' b = body g b"
    "\<And>b. b \<noteq> a \<Longrightarrow> \<not> white g b \<or> white g' b \<Longrightarrow> obj g' b = obj g b"
    "\<And>b. b \<noteq> a \<Longrightarrow> white g b \<Longrightarrow> \<not> white g' b \<Longrightarrow> black g' b \<and> leaf_ok g' b \<or> black g' b = black g b \<and> b \<in> set (gs_gray g')"
    "gray_ext g g'" "\<And>b. gshape g' b = gshape g b" "set (gs_twups g') \<subseteq> insert a (set (gs_twups g))"
    "\<And>x. okv g (uv_v g x) \<Longrightarrow> okv g' (uv_v g' x)" "mu g' \<le> mu g"
  shows "trav a g g'"
  unfolding trav_def using assms by blast

lemma same_roots_refl [simp]: "same_roots g g"
  by (simp add: same_roots_def)

lemma gray_ext_same: "gs_gray g' = gs_gray g \<Longrightarrow> gray_ext g g'"
  by (simp add: gray_ext_def)

lemma container_gshape: "container g a \<longleftrightarrow> (case gshape g a of
     None \<Rightarrow> False | Some (GStr s) \<Rightarrow> False | Some (GUdata mt uv) \<Rightarrow> False | _ \<Rightarrow> True)"
  by (auto simp: container_def gshape_def split: option.split gbody.split)

lemma gshape_container: "gshape g' a = gshape g a \<Longrightarrow> container g' a = container g a"
  by (simp add: container_gshape)

lemma gray_ext_trans:
  assumes e: "gray_ext g1 g2" "gray_ext g2 g3"
    and w: "\<And>b. white g2 b \<Longrightarrow> white g1 b" "\<And>b. white g3 b \<Longrightarrow> white g2 b" "\<And>b. gshape g2 b = gshape g1 b"
  shows "gray_ext g1 g3"
proof -
  obtain n1 where n1: "gs_gray g2 = n1 @ gs_gray g1" "distinct n1" "\<forall>a \<in> set n1. white g1 a \<and> \<not> white g2 a \<and> container g1 a"
    using e(1) unfolding gray_ext_def by blast
  obtain n2 where n2: "gs_gray g3 = n2 @ gs_gray g2" "distinct n2" "\<forall>a \<in> set n2. white g2 a \<and> \<not> white g3 a \<and> container g2 a"
    using e(2) unfolding gray_ext_def by blast
  have "gs_gray g3 = (n2 @ n1) @ gs_gray g1" using n1 n2 by simp
  moreover have "distinct (n2 @ n1)" using n1(2,3) n2(2,3) by auto
  moreover have "\<forall>a \<in> set (n2 @ n1). white g1 a \<and> \<not> white g3 a \<and> container g1 a"
    using n1(3) n2(3) w gshape_container [OF w(3)] by auto
  ultimately show ?thesis unfolding gray_ext_def by blast
qed

lemma lists_ext_refl [simp]: "lists_ext g g"
  by (simp add: lists_ext_def)

lemma trav_refl: "trav a g g"
  by (rule travI) (auto simp: ups_ext_same gray_ext_same)

lemma okv_mono: "(\<And>b. white g' b \<Longrightarrow> white g b) \<Longrightarrow> okv g v \<Longrightarrow> okv g' v"
  by (auto simp: valiswhite_def split: gval.splits)

lemma oko_mono: "(\<And>b. white g' b \<Longrightarrow> white g b) \<Longrightarrow> oko g t \<Longrightarrow> oko g' t"
  by (auto simp: oko_def split: option.splits)

lemma leaf_ok_mono: "(\<And>b. white g' b \<Longrightarrow> white g b) \<Longrightarrow> body g' a = body g a \<Longrightarrow> leaf_ok g a \<Longrightarrow> leaf_ok g' a"
  using okv_mono [of g' g] oko_mono [of g' g] unfolding leaf_ok_def by (auto split: option.splits gbody.splits)

lemma trav_trans:
  assumes 1: "trav a g1 g2" and 2: "trav a g2 g3"
  shows "trav a g1 g3"
proof (rule travI)
  note D1 = travD [OF 1] and D2 = travD [OF 2]
  show "same_roots g1 g3" using D1(1) D2(1) by (simp add: same_roots_def)
  show "ups_ext g1 g3" using D1(2) D2(2) by (rule ups_ext_trans)
  show "lists_ext g1 g3" using D1(3) D2(3) by (auto simp: lists_ext_def)
  show "length (gs_heap g3) = length (gs_heap g1)" "mu g3 \<le> mu g1" using D1(4,11) D2(4,11) by simp_all
  fix b
  show "obj g3 b = None \<longleftrightarrow> obj g1 b = None" using D1(5) D2(5) by simp
  show "white g3 b \<Longrightarrow> white g1 b" using D1(6) D2(6) by blast
  show "b \<noteq> a \<Longrightarrow> body g3 b = body g1 b" using D1(7) D2(7) by simp
  show "b \<noteq> a \<Longrightarrow> \<not> white g1 b \<or> white g3 b \<Longrightarrow> obj g3 b = obj g1 b"
    using D1(6,8) [of b] D2(6,8) [of b] by metis
  show "black g3 b \<and> leaf_ok g3 b \<or> black g3 b = black g1 b \<and> b \<in> set (gs_gray g3)"
    if ne: "b \<noteq> a" and w: "white g1 b" and "\<not> white g3 b"
  proof (cases "white g2 b")
    case True
    then show ?thesis using D2(9) [OF ne True that(3)] has_mark_cong [OF D1(8) [OF ne], of isblack] by simp
  next
    case False
    have "black g3 b = black g2 b" using has_mark_cong [OF D2(8) [OF ne]] False by blast
    moreover have "leaf_ok g2 b \<Longrightarrow> leaf_ok g3 b" using leaf_ok_mono D2(6) D2(7) [OF ne] by blast
    moreover have "set (gs_gray g2) \<subseteq> set (gs_gray g3)" using D2(3) by (simp add: lists_ext_def)
    ultimately show ?thesis using D1(9) [OF ne w False] by blast
  qed
  show "gshape g3 b = gshape g1 b" using D1(13) D2(13) by simp
  show "gray_ext g1 g3" using gray_ext_trans D1(6,12,13) D2(6,12) by blast
  show "set (gs_twups g3) \<subseteq> insert a (set (gs_twups g1))" using D1(14) D2(14) by blast
  show "okv g1 (uv_v g1 x) \<Longrightarrow> okv g3 (uv_v g3 x)" for x using D1(10) D2(10) by blast
qed

section \<open>The steps a traversal consists of\<close>

lemma mu_mk: "mk g g' \<Longrightarrow> mu g' \<le> mu g"
proof -
  assume m: "mk g g'"
  then obtain ns where ns: "gs_gray g' = ns @ gs_gray g" "distinct ns" "\<forall>a \<in> set ns. white g a \<and> \<not> white g' a"
    unfolding mk_def by blast
  have "card (set ns \<union> {a. white g' a}) \<le> card {a. white g a}"
    using ns(3) mkD(2) [OF m] by (intro card_mono) auto
  moreover have "card (set ns \<union> {a. white g' a}) = length ns + whites g'"
    using ns(2,3) by (subst card_Un_disjoint) (auto simp: distinct_card whites_def)
  ultimately show ?thesis using ns(1) by (simp add: mu_def whites_def)
qed

lemma mk_none: "mk g g' \<Longrightarrow> obj g' b = None \<longleftrightarrow> obj g b = None"
  using mkD(1) [of g g' b] by (metis obj_body)

lemma mk_uv_v: "mk g g' \<Longrightarrow> uv_v g' x = uv_v g x"
  using uv_v_cong mkD(1) by blast

lemma trav_mk:
  assumes m: "mk g g'"
  shows "trav a g g'"
proof (rule travI)
  note f = same_rest_fields [OF mk_fields [OF m]]
  show "same_roots g g'" "ups_ext g g'" using f by (simp_all add: same_roots_def ups_ext_same)
  show "lists_ext g g'" using f mkD(7) [OF m] by (simp add: lists_ext_def)
  show "okv g (uv_v g x) \<Longrightarrow> okv g' (uv_v g' x)" for x
    using mk_uv_v [OF m] mk_okv [OF m] by simp
  show "length (gs_heap g') = length (gs_heap g)" "mu g' \<le> mu g"
    using mkD(4) [OF m] mu_mk [OF m] by simp_all
  fix b
  show "obj g' b = None \<longleftrightarrow> obj g b = None" by (rule mk_none [OF m])
  show "white g' b \<Longrightarrow> white g b" by (rule mkD(2) [OF m])
  show "body g' b = body g b" "gshape g' b = gshape g b" using mkD(1) [OF m] by (simp_all add: gshape_def)
  show "\<not> white g b \<or> white g' b \<Longrightarrow> obj g' b = obj g b" using mkD(3,5) [OF m, of b] by blast
  show "white g b \<Longrightarrow> \<not> white g' b \<Longrightarrow> black g' b \<and> leaf_ok g' b \<or> black g' b = black g b \<and> b \<in> set (gs_gray g')"
    using mkD(9) [OF m, of b] by blast
  obtain ns where "gs_gray g' = ns @ gs_gray g" "\<forall>a \<in> set ns. white g a \<and> container g a \<and> \<not> white g' a"
    using m unfolding mk_def by blast
  with m show "gray_ext g g'" unfolding mk_def gray_ext_def by blast
  show "set (gs_twups g') \<subseteq> insert a (set (gs_twups g))" using f by auto
qed

text \<open>Steps that change marks, lists and upvalues only.\<close>

lemma whites_cong: "(\<And>b. white g' b = white g b) \<Longrightarrow> whites g' = whites g"
  by (simp add: whites_def)

lemma trav_same_heap:
  assumes "gs_heap g' = gs_heap g" "gs_gray g' = gs_gray g" "same_roots g g'" "ups_ext g g'" "lists_ext g g'"
    "set (gs_twups g') \<subseteq> insert a (set (gs_twups g))"
  shows "trav a g g'"
proof -
  have o: "obj g' b = obj g b" for b using assms(1) by (simp add: obj_def)
  have w: "has_mark P g' b = has_mark P g b" for P b using has_mark_cong [OF o] .
  have b: "body g' b = body g b" for b using body_cong [OF o] .
  have c: "gshape g' b = gshape g b" for b using b by (simp add: gshape_def)
  have v: "valiswhite g' v = valiswhite g v" for v using w by (simp add: valiswhite_def split: gval.split)
  show ?thesis
    using assms o w b uv_v_cong [of g' g, OF b] whites_cong [of g' g]
    by (intro travI) (simp_all add: mu_def v c gray_ext_same)
qed

lemma trav_black2gray: "trav a g (set_mark a black2gray g)"
proof -
  have r: "same_rest g (set_mark a black2gray g)" by simp
  note f = same_rest_fields [OF r]
  have u: "uv_v (set_mark a black2gray g) x = uv_v g x" for x
    by (rule uv_v_cong) simp
  have v: "valiswhite (set_mark a black2gray g) v = valiswhite g v" for v
    by (simp add: valiswhite_def split: gval.split)
  show ?thesis
    using f by (intro travI)
      (auto simp: same_roots_def ups_ext_same lists_ext_def obj_set_mark u v mu_def whites_def gray_ext_same gshape_def)
qed

lemma set_body_fields [simp]:
  "gs_gray (set_body a c g) = gs_gray g" "length (gs_heap (set_body a c g)) = length (gs_heap g)"
  "same_rest g (set_body a c g)"
  by (auto simp: set_body_def same_rest_def)

lemma valiswhite_set_body [simp]: "valiswhite (set_body a c g) v = valiswhite g v"
  by (simp add: valiswhite_def split: gval.split)

lemma trav_set_body:
  assumes "\<And>b. body g a = Some b \<Longrightarrow> shape c = shape b" and uv: "\<And>x. okv g (uv_v g x) \<Longrightarrow> okv g (uv_v (set_body a c g) x)"
  shows "trav a g (set_body a c g)"
proof -
  note f = same_rest_fields [OF set_body_fields(3) [of g a c]]
  show ?thesis
    using assms f by (intro travI)
      (auto simp: same_roots_def ups_ext_same lists_ext_def obj_set_body body_set_body mu_def whites_def gray_ext_same gshape_def)
qed

text \<open>A body that is not a stack holds no open upvalue.\<close>

lemma stack_slot_set_body:
  assumes "\<And>st tp ups. body g a \<noteq> Some (GThread st tp ups)" and "\<And>st tp ups. c \<noteq> GThread st tp ups"
  shows "uv_v (set_body a c g) x = uv_v g x"
  using assms by (auto simp: uv_v_def stack_slot_def body_set_body split: option.split gbody.split)

lemma trav_set_table:
  assumes "body g a = Some (GTable mt arr nodes)" "map entry_of nodes' = map entry_of nodes"
  shows "trav a g (set_body a (GTable mt arr nodes') g)"
  using assms by (intro trav_set_body) (simp_all add: stack_slot_set_body)

section \<open>Marking of strings only\<close>

text \<open>What \<open>iscleared\<close> marks are strings, so that the gray list stays as it is.\<close>

definition strs :: "gstate \<Rightarrow> gstate \<Rightarrow> bool" where
  "strs g g' \<longleftrightarrow> mk g g' \<and> (\<forall>b. white g b \<and> \<not> white g' b \<longrightarrow> isstring g b)"

lemma strs_refl [simp]: "strs g g"
  by (simp add: strs_def)

lemma strs_mk: "strs g g' \<Longrightarrow> mk g g'"
  by (simp add: strs_def)

lemma isstring_cong: "body g' a = body g a \<Longrightarrow> isstring g' a = isstring g a"
  by (simp add: isstring_def)

lemma strs_trans: "strs g1 g2 \<Longrightarrow> strs g2 g3 \<Longrightarrow> strs g1 g3"
  unfolding strs_def using mk_trans isstring_cong mkD(1) by metis

lemma strs_gray: "strs g g' \<Longrightarrow> gs_gray g' = gs_gray g"
proof -
  assume s: "strs g g'"
  then obtain ns where "gs_gray g' = ns @ gs_gray g" "\<forall>a \<in> set ns. white g a \<and> container g a \<and> \<not> white g' a"
    unfolding strs_def mk_def by blast
  moreover have "\<not> (isstring g a \<and> container g a)" for a
    by (auto simp: isstring_def container_def split: option.splits gbody.splits)
  ultimately show ?thesis using s unfolding strs_def by (cases ns) auto
qed

lemma markobject_strs:
  assumes "isstring g a"
  shows "strs g (markobject a g)"
proof (cases "white g a")
  case True
  then obtain n where n: "length (gs_heap g) = Suc n" using white_less [OF True] by (cases "length (gs_heap g)") auto
  obtain s where "body g a = Some (GStr s)" using assms by (auto simp: isstring_def split: option.splits gbody.splits)
  then have "markobject a g = set_mark a gray2black (set_mark a white2gray g)"
    using True n by (simp add: markobject_def reallymarkobject_def)
  then have "white (markobject a g) b \<longleftrightarrow> white g b \<and> a \<noteq> b" for b by simp
  then show ?thesis using assms markobject_mk(1) [of g a] by (auto simp: strs_def)
qed (simp add: markobject_def)

lemma iscleared_strs: "strs g (snd (iscleared v g))"
  using markobject_strs by (auto simp: iscleared_def split: gval.split)

text \<open>An entry of a table that has converged: its key is white and not a string, or its value is marked.\<close>

definition conv :: "gstate \<Rightarrow> gval \<times> gval \<Rightarrow> bool" where
  "conv g e \<longleftrightarrow> snd e = GNil \<or> okv g (snd e) \<or> valiswhite g (fst e) \<and> (\<forall>a. fst e = GRef a \<longrightarrow> \<not> isstring g a)"

lemma strs_conv: "strs g g' \<Longrightarrow> conv g e \<Longrightarrow> conv g' e"
proof -
  assume s: "strs g g'" and c: "conv g e"
  have m: "mk g g'" using s by (rule strs_mk)
  have "valiswhite g' (fst e) \<and> (\<forall>a. fst e = GRef a \<longrightarrow> \<not> isstring g' a)"
    if "valiswhite g (fst e)" "\<forall>a. fst e = GRef a \<longrightarrow> \<not> isstring g a"
    using that s isstring_cong [OF mkD(1) [OF m]] unfolding strs_def valiswhite_def by (auto split: gval.splits)
  then show ?thesis using c mk_okv [OF m, of "snd e"] unfolding conv_def by blast
qed

section \<open>Traversal of tables\<close>

lemma okv_removeentry: "okv g (removeentry g k)"
  by (auto simp: removeentry_def valiswhite_def split: gval.split)

lemma okv_GNil [simp]: "okv g GNil"
  by (simp add: valiswhite_def)

lemma strong_nodes_vals: "strong_nodes ns g = (ns', g') \<Longrightarrow> map entry_of ns' = map entry_of ns"
  by (induction ns g arbitrary: ns' g' rule: strong_nodes.induct) (auto split: if_splits prod.splits)

lemma strong_nodes_mk:
  "strong_nodes ns g = (ns', g') \<Longrightarrow> mk g g' \<and> (\<forall>(k, v) \<in> set ns'. okv g' k \<and> okv g' v)"
proof (induction ns g arbitrary: ns' g' rule: strong_nodes.induct)
  case (2 k v ns g)
  show ?case
  proof (cases "v = GNil")
    case True
    obtain ns1 g1 where r: "strong_nodes ns g = (ns1, g1)" by fastforce
    have "mk g g1" using "2.IH"(1) [OF True r] by blast
    then have "okv g1 (removeentry g k)" using mk_okv okv_removeentry by blast
    then show ?thesis using "2.IH"(1) [OF True r] "2.prems" r True by auto
  next
    case False
    let ?g = "markvalue v (markvalue k g)"
    obtain ns1 g1 where r: "strong_nodes ns ?g = (ns1, g1)" by fastforce
    have i: "mk ?g g1" "\<forall>(k, v) \<in> set ns1. okv g1 k \<and> okv g1 v" using "2.IH"(2) [OF False r] by blast+
    have m: "mk g ?g" using mk_trans markvalue_mk(1) by blast
    have "okv ?g k" "okv ?g v" using markvalue_mk mk_okv by blast+
    then have "okv g1 k" "okv g1 v" using mk_okv [OF i(1)] by blast+
    then show ?thesis using "2.prems" r False i mk_trans [OF m i(1)] by auto
  qed
qed simp

lemma oko_set_body [simp]: "oko (set_body a c g) t = oko g t"
  by (simp add: oko_def split: option.split)

lemma body_set_body_same: "body g a = Some b \<Longrightarrow> body (set_body a c g) a = Some c"
  by (simp add: body_set_body)

text \<open>A table whose nodes are stored back after a marking step.\<close>

lemma trav_store:
  assumes "mk g g'" and "body g h = Some (GTable mt arr nodes)" and "map entry_of nodes' = map entry_of nodes"
  shows "trav h g (set_body h (GTable mt arr nodes') g')" "body (set_body h (GTable mt arr nodes') g') h = Some (GTable mt arr nodes')"
  using trav_trans [OF trav_mk [OF assms(1)] trav_set_table] assms mkD(1) [OF assms(1), of h] body_set_body_same by auto

lemma traversestrongtable_trav:
  assumes "body g h = Some (GTable mt arr nodes)" and "oko g mt"
  shows "trav h g (traversestrongtable h mt arr nodes g)" "all_ok ph (traversestrongtable h mt arr nodes g) h"
proof -
  obtain ns g2 where r: "strong_nodes nodes (fold markvalue arr g) = (ns, g2)" by fastforce
  have m: "mk (fold markvalue arr g) g2" "\<forall>(k, v) \<in> set ns. okv g2 k \<and> okv g2 v" using strong_nodes_mk [OF r] by blast+
  have m2: "mk g g2" using mk_trans [OF fold_markvalue(1) m(1)] .
  have e: "traversestrongtable h mt arr nodes g = set_body h (GTable mt arr ns) g2"
    by (simp add: traversestrongtable_def r)
  note t = trav_store [OF m2 assms(1) strong_nodes_vals [OF r]]
  show "trav h g (traversestrongtable h mt arr nodes g)" using t e by simp
  have "\<forall>v \<in> set arr. okv g2 v" using fold_markvalue(2) mk_okv [OF m(1)] by blast
  then show "all_ok ph (traversestrongtable h mt arr nodes g) h"
    using t(2) m mk_oko [OF m2 assms(2)] by (auto simp: e all_ok_def)
qed

lemma weakvalue_nodes_vals: "weakvalue_nodes ns hc g = (ns', c', g') \<Longrightarrow> map entry_of ns' = map entry_of ns"
  by (induction ns hc g arbitrary: ns' c' g' rule: weakvalue_nodes.induct) (auto simp: Let_def split: if_splits prod.splits)

lemma weakvalue_nodes_mk:
  "weakvalue_nodes ns hc g = (ns', c', g') \<Longrightarrow>
    mk g g' \<and> (hc \<longrightarrow> c') \<and> (\<forall>(k, v) \<in> set ns'. okv g' k) \<and> (\<not> c' \<longrightarrow> (\<forall>(k, v) \<in> set ns'. okv g' v))"
proof (induction ns hc g arbitrary: ns' c' g' rule: weakvalue_nodes.induct)
  case (2 k v ns hc g)
  show ?case
  proof (cases "v = GNil")
    case True
    obtain ns1 c1 g1 where r: "weakvalue_nodes ns hc g = (ns1, c1, g1)" by (metis prod_cases3)
    note i = "2.IH"(1) [OF True r]
    have "okv g1 (removeentry g k)" using i mk_okv okv_removeentry by blast
    then show ?thesis using i "2.prems" r True by auto
  next
    case False
    let ?g = "markvalue k g"
    obtain c2 g2 where c: "(if \<not> hc then iscleared v ?g else (False, ?g)) = (c2, g2)" by fastforce
    obtain ns1 c1 g1 where r: "weakvalue_nodes ns (hc \<or> c2) g2 = (ns1, c1, g1)" by (metis prod_cases3)
    have i: "mk g2 g1" "hc \<or> c2 \<longrightarrow> c1" "\<forall>(k, v) \<in> set ns1. okv g1 k" "\<not> c1 \<longrightarrow> (\<forall>(k, v) \<in> set ns1. okv g1 v)"
      using "2.IH"(2) [OF False refl c [symmetric] refl r] by blast+
    have m1: "mk ?g g2" using c iscleared_mk [of ?g v] by (auto split: if_splits)
    have m: "mk g g1" using mk_trans [OF markvalue_mk(1) mk_trans [OF m1 i(1)]] .
    have k: "okv g1 k" using markvalue_mk(2) mk_okv [OF mk_trans [OF m1 i(1)]] by blast
    have v: "okv g1 v" if "\<not> c1"
    proof -
      have "\<not> hc" "\<not> c2" using i(2) that by blast+
      then show ?thesis using c iscleared_false [of v ?g] mk_okv [OF i(1)] by (auto split: if_splits)
    qed
    show ?thesis using "2.prems" r c False i m k v by (auto simp: Let_def)
  qed
qed auto

text \<open>
  After a visit the object is done; before the atomic step it may be in \<open>grayagain\<close> instead.
\<close>

definition visited :: "bool \<Rightarrow> nat \<Rightarrow> gstate \<Rightarrow> bool" where
  "visited ph h g \<longleftrightarrow> done_ok ph g h \<or> \<not> ph \<and> h \<in> set (gs_grayagain g)"

lemma trav_add_list:
  "trav h g (g\<lparr>gs_grayagain := h # gs_grayagain g\<rparr>)" "trav h g (g\<lparr>gs_weak := h # gs_weak g\<rparr>)"
  "trav h g (g\<lparr>gs_allweak := h # gs_allweak g\<rparr>)" "trav h g (g\<lparr>gs_ephemeron := h # gs_ephemeron g\<rparr>)"
  "trav h g (g\<lparr>gs_twups := h # gs_twups g\<rparr>)"
  by (rule trav_same_heap; auto simp: same_roots_def ups_ext_same lists_ext_def)+

lemma oko_cong: "(\<And>b. white g' b = white g b) \<Longrightarrow> oko g' t = oko g t"
  by (simp add: oko_def split: option.split)

lemma okv_cong: "(\<And>b. white g' b = white g b) \<Longrightarrow> valiswhite g' v = valiswhite g v"
  by (simp add: valiswhite_def split: gval.split)

lemma list_fields_ok [simp]:
  "oko (g\<lparr>gs_grayagain := l\<rparr>) t = oko g t" "oko (g\<lparr>gs_weak := l\<rparr>) t = oko g t" "oko (g\<lparr>gs_allweak := l\<rparr>) t = oko g t"
  "oko (g\<lparr>gs_ephemeron := l\<rparr>) t = oko g t" "oko (g\<lparr>gs_gray := l\<rparr>) t = oko g t" "oko (g\<lparr>gs_twups := l\<rparr>) t = oko g t"
  "valiswhite (g\<lparr>gs_grayagain := l\<rparr>) v = valiswhite g v" "valiswhite (g\<lparr>gs_weak := l\<rparr>) v = valiswhite g v"
  "valiswhite (g\<lparr>gs_allweak := l\<rparr>) v = valiswhite g v" "valiswhite (g\<lparr>gs_ephemeron := l\<rparr>) v = valiswhite g v"
  "valiswhite (g\<lparr>gs_gray := l\<rparr>) v = valiswhite g v" "valiswhite (g\<lparr>gs_twups := l\<rparr>) v = valiswhite g v"
  by ((rule oko_cong okv_cong; simp)+)

lemma traverseweakvalue_trav:
  assumes "body g h = Some (GTable mt arr nodes)" and "oko g mt" and ph: "ph \<Longrightarrow> gs_gcstate g \<noteq> GCSpropagate"
  shows "trav h g (traverseweakvalue h mt arr nodes g)" "visited ph h (traverseweakvalue h mt arr nodes g)"
proof -
  obtain ns c g2 where r: "weakvalue_nodes nodes (arr \<noteq> []) g = (ns, c, g2)" by (metis prod_cases3)
  have m: "mk g g2" "arr \<noteq> [] \<longrightarrow> c" "\<forall>(k, v) \<in> set ns. okv g2 k" "\<not> c \<longrightarrow> (\<forall>(k, v) \<in> set ns. okv g2 v)"
    using weakvalue_nodes_mk [OF r] by blast+
  let ?g = "set_body h (GTable mt arr ns) g2"
  note t = trav_store [OF m(1) assms(1) weakvalue_nodes_vals [OF r]]
  have s: "gs_gcstate ?g = gs_gcstate g" using travD(1) [OF t(1)] by (simp add: same_roots_def)
  have mt: "oko g2 mt" using mk_oko [OF m(1) assms(2)] .
  have e: "traverseweakvalue h mt arr nodes g =
      (if gs_gcstate g = GCSpropagate then ?g\<lparr>gs_grayagain := h # gs_grayagain ?g\<rparr>
       else if c then ?g\<lparr>gs_weak := h # gs_weak ?g\<rparr> else ?g)"
    using s by (simp add: traverseweakvalue_def r Let_def)
  show "trav h g (traverseweakvalue h mt arr nodes g)"
    unfolding e using t(1) trav_trans [OF t(1) trav_add_list(1)] trav_trans [OF t(1) trav_add_list(2)] by simp
  show "visited ph h (traverseweakvalue h mt arr nodes g)"
  proof (cases "gs_gcstate g = GCSpropagate")
    case True
    then show ?thesis using ph by (auto simp: e visited_def)
  next
    case False
    have "all_ok ph ?g h" if "\<not> c"
      using t(2) m mt that by (auto simp: all_ok_def)
    moreover have "wk_ok (?g\<lparr>gs_weak := h # gs_weak ?g\<rparr>) h"
      using t(2) m mt by (auto simp: wk_ok_def)
    ultimately show ?thesis using False by (simp add: e visited_def done_ok_def)
  qed
qed

section \<open>Ephemeron tables\<close>

lemma markvalue_whites: "valiswhite g v \<Longrightarrow> whites (markvalue v g) < whites g"
proof -
  assume v: "valiswhite g v"
  then obtain a where a: "v = GRef a" "white g a" by (auto simp: valiswhite_def split: gval.splits)
  then have "\<not> white (markvalue v g) a" using markobject_mk(2) by (simp add: markvalue_def)
  then show ?thesis using mkD(2) [OF markvalue_mk(1) [of g v]] a(2) by (intro whites_less [of _ _ a])
qed

lemma mk_whites: "mk g g' \<Longrightarrow> whites g' \<le> whites g"
  using whites_mono mkD(2) by blast

lemma ephemeron_array_mk:
  "ephemeron_array vs m g = (m', g') \<Longrightarrow>
    mk g g' \<and> (\<forall>v \<in> set vs. okv g' v) \<and> (m \<longrightarrow> m') \<and> (m' \<and> \<not> m \<longrightarrow> whites g' < whites g) \<and> (\<not> m' \<longrightarrow> g' = g)"
proof (induction vs m g rule: ephemeron_array.induct)
  case (2 v vs m g)
  show ?case
  proof (cases "valiswhite g v")
    case True
    then have i: "mk (markvalue v g) g'" "\<forall>v \<in> set vs. okv g' v" "m'"
      using "2.IH"(1) [OF True] "2.prems" by auto
    have "okv g' v" using mk_okv [OF i(1)] markvalue_mk(2) by blast
    moreover have "whites g' < whites g" using markvalue_whites [OF True] mk_whites [OF i(1)] by simp
    ultimately show ?thesis using i mk_trans [OF markvalue_mk(1) i(1)] by simp
  next
    case False
    then have i: "mk g g'" "\<forall>v \<in> set vs. okv g' v" "m \<longrightarrow> m'" "m' \<and> \<not> m \<longrightarrow> whites g' < whites g" "\<not> m' \<longrightarrow> g' = g"
      using "2.IH"(2) [OF False] "2.prems" by auto
    then show ?thesis using mk_okv [OF i(1) False] by simp
  qed
qed simp

text \<open>What the loop over the nodes of an ephemeron table establishes.\<close>

definition eph_post :: "eph_flags \<Rightarrow> gstate \<Rightarrow> (gval \<times> gval) list \<Rightarrow> eph_flags \<Rightarrow> gstate \<Rightarrow> bool" where
  "eph_post f g ns' f' g' \<longleftrightarrow> mk g g' \<and> (ef_marked f \<longrightarrow> ef_marked f') \<and> (ef_hasclears f \<longrightarrow> ef_hasclears f') \<and>
     (ef_hasww f \<longrightarrow> ef_hasww f') \<and> (ef_hasww f' \<longrightarrow> ef_hasww f \<or> ef_hasclears f') \<and>
     (\<forall>(k, v) \<in> set ns'. v = GNil \<longrightarrow> okv g' k) \<and> (\<not> ef_hasww f' \<longrightarrow> (\<forall>(k, v) \<in> set ns'. okv g' v)) \<and>
     (\<not> ef_hasclears f' \<longrightarrow> (\<forall>(k, v) \<in> set ns'. okv g' k)) \<and>
     (ef_marked f' \<and> \<not> ef_marked f \<longrightarrow> whites g' < whites g) \<and>
     (\<not> ef_marked f' \<longrightarrow> strs g g' \<and> (\<forall>e \<in> set ns'. conv g' e))"

lemma eph_post_cons:
  assumes p: "eph_post f1 g1 ns' f' g'" and m: "mk g g1"
    and f: "ef_marked f \<longrightarrow> ef_marked f1" "ef_hasclears f \<longrightarrow> ef_hasclears f1" "ef_hasww f \<longrightarrow> ef_hasww f1"
      "ef_hasww f1 \<longrightarrow> ef_hasww f \<or> ef_hasclears f1" "ef_marked f1 \<and> \<not> ef_marked f \<longrightarrow> whites g1 < whites g"
    and s: "\<not> ef_marked f1 \<longrightarrow> strs g g1 \<and> conv g1 (k, v)"
    and e: "v = GNil \<longrightarrow> okv g1 k" "\<not> ef_hasww f1 \<longrightarrow> okv g1 v" "\<not> ef_hasclears f1 \<longrightarrow> okv g1 k"
  shows "eph_post f g ((k, v) # ns') f' g'"
proof -
  from p have m1: "mk g1 g'" and mono: "ef_marked f1 \<longrightarrow> ef_marked f'" "ef_hasclears f1 \<longrightarrow> ef_hasclears f'"
      "ef_hasww f1 \<longrightarrow> ef_hasww f'" "ef_hasww f' \<longrightarrow> ef_hasww f1 \<or> ef_hasclears f'"
    and pk: "\<forall>(k, v) \<in> set ns'. v = GNil \<longrightarrow> okv g' k" and pv: "\<not> ef_hasww f' \<longrightarrow> (\<forall>(k, v) \<in> set ns'. okv g' v)"
    and pc: "\<not> ef_hasclears f' \<longrightarrow> (\<forall>(k, v) \<in> set ns'. okv g' k)"
    and pw: "ef_marked f' \<and> \<not> ef_marked f1 \<longrightarrow> whites g' < whites g1"
    and ps: "\<not> ef_marked f' \<longrightarrow> strs g1 g' \<and> (\<forall>e \<in> set ns'. conv g' e)"
    unfolding eph_post_def by blast+
  have w: "whites g' \<le> whites g1" "whites g1 \<le> whites g" using mk_whites m1 m by blast+
  show ?thesis
    unfolding eph_post_def
  proof (intro conjI)
    show "mk g g'" using mk_trans [OF m m1] .
    show "ef_marked f \<longrightarrow> ef_marked f'" "ef_hasclears f \<longrightarrow> ef_hasclears f'" "ef_hasww f \<longrightarrow> ef_hasww f'"
      "ef_hasww f' \<longrightarrow> ef_hasww f \<or> ef_hasclears f'"
      using mono f by blast+
    show "\<forall>(k', v') \<in> set ((k, v) # ns'). v' = GNil \<longrightarrow> okv g' k'"
      using pk e(1) mk_okv [OF m1, of k] by simp
    show "\<not> ef_hasww f' \<longrightarrow> (\<forall>(k', v') \<in> set ((k, v) # ns'). okv g' v')"
      using pv mono(3) e(2) mk_okv [OF m1, of v] by auto
    show "\<not> ef_hasclears f' \<longrightarrow> (\<forall>(k', v') \<in> set ((k, v) # ns'). okv g' k')"
      using pc mono(2) e(3) mk_okv [OF m1, of k] by auto
    show "ef_marked f' \<and> \<not> ef_marked f \<longrightarrow> whites g' < whites g"
      using pw f(5) w by (cases "ef_marked f1") linarith+
    show "\<not> ef_marked f' \<longrightarrow> strs g g' \<and> (\<forall>e \<in> set ((k, v) # ns'). conv g' e)"
      using ps s mono(1) strs_trans [of g g1 g'] strs_conv [of g1 g' "(k, v)"] by auto
  qed
qed

lemma ephemeron_nodes_vals: "ephemeron_nodes ns f g = (ns', f', g') \<Longrightarrow> map entry_of ns' = map entry_of ns"
  by (induction ns f g arbitrary: ns' f' g' rule: ephemeron_nodes.induct) (auto simp: Let_def split: if_splits prod.splits)

lemma ephemeron_nodes_post: "ephemeron_nodes ns f g = (ns', f', g') \<Longrightarrow> eph_post f g ns' f' g'"
proof (induction ns f g arbitrary: ns' f' g' rule: ephemeron_nodes.induct)
  case (1 f g)
  then show ?case by (simp add: eph_post_def)
next
  case (2 k v ns f g)
  show ?case
  proof (cases "v = GNil")
    case True
    obtain ns1 f1 g1 where r: "ephemeron_nodes ns f g = (ns1, f1, g1)" by (metis prod_cases3)
    have "eph_post f g ((removeentry g k, v) # ns1) f1 g1"
      using "2.IH"(1) [OF True r] by (rule eph_post_cons) (simp_all add: True conv_def okv_removeentry)
    then show ?thesis using "2.prems" r True by simp
  next
    case False
    obtain c g2 where c: "iscleared k g = (c, g2)" by fastforce
    define fg where "fg = (if c then (f\<lparr>ef_hasclears := True, ef_hasww := ef_hasww f \<or> valiswhite g2 v\<rparr>, g2)
               else if valiswhite g2 v then (f\<lparr>ef_marked := True\<rparr>, markvalue v g2) else (f, g2))"
    obtain f3 g3 where fg: "fg = (f3, g3)" by fastforce
    obtain ns1 f1 g1 where r: "ephemeron_nodes ns f3 g3 = (ns1, f1, g1)" by (metis prod_cases3)
    have i: "eph_post f3 g3 ns1 f1 g1"
      using "2.IH"(2) [OF False c [symmetric] refl fg [unfolded fg_def, symmetric] refl r] .
    have s2: "strs g g2" and m2: "mk g g2" using iscleared_strs [of g k] strs_mk by (auto simp: c)
    have eq: "ephemeron_nodes ((k, v) # ns) f g = ((k, v) # ns1, f1, g1)"
      using False c fg r by (simp add: fg_def [symmetric])
    have "eph_post f g ((k, v) # ns1) f1 g1"
    proof (cases c)
      case True
      have g: "g2 = g" "valiswhite g k" using iscleared_true [of k g] c True by auto
      have "\<not> isstring g a" if "k = GRef a" for a
        using c True that by (auto simp: iscleared_def split: if_splits)
      then show ?thesis
        using True fg g False by (intro eph_post_cons [OF i]) (auto simp: fg_def conv_def)
    next
      case c0: False
      have k: "okv g2 k" using iscleared_false [of k g] c c0 by simp
      show ?thesis
      proof (cases "valiswhite g2 v")
        case True
        have f3: "f3 = f\<lparr>ef_marked := True\<rparr>" "g3 = markvalue v g2" using fg c0 True by (simp_all add: fg_def)
        have "whites g3 < whites g" using markvalue_whites [OF True] mk_whites [OF m2] f3 by simp
        moreover have "okv g3 k" using mk_okv [OF markvalue_mk(1) k] f3 by simp
        ultimately show ?thesis
          using f3 markvalue_mk(2) mk_trans [OF m2 markvalue_mk(1)] by (intro eph_post_cons [OF i]) auto
      next
        case v: False
        have f3: "f3 = f" "g3 = g2" using fg c0 v by (simp_all add: fg_def)
        show ?thesis
          using f3 v k s2 m2 by (intro eph_post_cons [OF i]) (auto simp: conv_def)
      qed
    qed
    then show ?thesis using eq "2.prems" by simp
  qed
qed

text \<open>What a traversal of an ephemeron table establishes, and what it means that nothing was marked.\<close>

definition conv_table :: "gstate \<Rightarrow> nat \<Rightarrow> bool" where
  "conv_table g h \<longleftrightarrow> (case body g h of Some (GTable mt arr nodes) \<Rightarrow> \<forall>e \<in> set nodes. conv g e | _ \<Rightarrow> True)"

lemma conv_set_body: "body g h = Some (GTable mt arr nodes) \<Longrightarrow> conv g e \<Longrightarrow> conv (set_body h (GTable mt' arr' nodes') g) e"
  by (auto simp: conv_def isstring_def body_set_body)

lemma traverseephemeron_trav:
  assumes b: "body g h = Some (GTable mt arr nodes)" and "oko g mt" and ph: "ph \<Longrightarrow> gs_gcstate g \<noteq> GCSpropagate"
    and r: "traverseephemeron_body h mt arr nodes g = (m, g')"
  shows "trav h g g'" "visited ph h g'" "m \<Longrightarrow> whites g' < whites g" "\<not> m \<Longrightarrow> conv_table g' h \<and>
    (\<forall>b. white g b \<and> \<not> white g' b \<longrightarrow> isstring g b)"
proof -
  obtain m1 g1 where a: "ephemeron_array arr False g = (m1, g1)" by fastforce
  let ?f = "\<lparr>ef_marked = m1, ef_hasclears = False, ef_hasww = False\<rparr>"
  obtain ns f g2 where n: "ephemeron_nodes nodes ?f g1 = (ns, f, g2)" by (metis prod_cases3)
  have A: "mk g g1" "\<forall>v \<in> set arr. okv g1 v" "m1 \<longrightarrow> whites g1 < whites g" "\<not> m1 \<longrightarrow> g1 = g"
    using ephemeron_array_mk [OF a] by simp_all
  note N = ephemeron_nodes_post [OF n, unfolded eph_post_def, simplified]
  have m12: "mk g1 g2" using N by blast
  have m: "mk g g2" using mk_trans [OF A(1) m12] .
  let ?g = "set_body h (GTable mt arr ns) g2"
  note t = trav_store [OF m b ephemeron_nodes_vals [OF n]]
  have s: "gs_gcstate ?g = gs_gcstate g" using travD(1) [OF t(1)] by (simp add: same_roots_def)
  have e: "m = ef_marked f" "g' = (if gs_gcstate g = GCSpropagate then ?g\<lparr>gs_grayagain := h # gs_grayagain ?g\<rparr>
       else if ef_hasww f then ?g\<lparr>gs_ephemeron := h # gs_ephemeron ?g\<rparr>
       else if ef_hasclears f then ?g\<lparr>gs_allweak := h # gs_allweak ?g\<rparr> else ?g)"
    using r s by (auto simp: traverseephemeron_body_def a n Let_def)
  have wb: "white g' b = white g2 b" "body g' b = body ?g b" for b unfolding e(2) by simp_all
  show "trav h g g'"
    unfolding e(2) using t(1) trav_trans [OF t(1)] trav_add_list by simp
  have mt: "oko g2 mt" using mk_oko [OF m assms(2)] .
  have arr: "\<forall>v \<in> set arr. okv g2 v" using A(2) mk_okv [OF m12] by blast
  show "visited ph h g'"
  proof (cases "gs_gcstate g = GCSpropagate")
    case True
    then show ?thesis using ph by (auto simp: e visited_def)
  next
    case False
    have "all_ok ph ?g h" if "\<not> ef_hasww f" "\<not> ef_hasclears f"
      using t(2) N that arr mt by (auto simp: all_ok_def)
    moreover have "eph_ok (?g\<lparr>gs_ephemeron := h # gs_ephemeron ?g\<rparr>) h"
      using t(2) N arr mt by (auto simp: eph_ok_def)
    moreover have "mt_ok (?g\<lparr>gs_allweak := h # gs_allweak ?g\<rparr>) h"
      using t(2) mt by (simp add: mt_ok_def)
    ultimately show ?thesis using False by (simp add: e(2) visited_def done_ok_def)
  qed
  have w: "whites g' = whites g2" using wb(1) by (rule whites_cong)
  show "m \<Longrightarrow> whites g' < whites g"
  proof -
    assume m
    then have f: "ef_marked f" using e(1) by simp
    show ?thesis
    proof (cases m1)
      case True
      then show ?thesis using A(3) mk_whites [OF m12] w by simp
    next
      case False
      then show ?thesis using N f A(4) w by simp
    qed
  qed
  show "\<not> m \<Longrightarrow> conv_table g' h \<and> (\<forall>b. white g b \<and> \<not> white g' b \<longrightarrow> isstring g b)"
  proof -
    assume "\<not> m"
    then have f: "\<not> ef_marked f" using e(1) by simp
    then have "g1 = g" using N A(4) by blast
    then have "strs g g2" "\<forall>e \<in> set ns. conv g2 e" using N f by blast+
    moreover have "conv g' e" if "conv g2 e" for e
    proof -
      have "conv ?g e" using conv_set_body that mkD(1) [OF m, of h] b by metis
      moreover have "valiswhite g' v = valiswhite ?g v" for v using wb(1) by (simp add: valiswhite_def split: gval.split)
      moreover have "isstring g' a = isstring ?g a" for a using wb(2) by (simp add: isstring_def)
      ultimately show ?thesis by (simp add: conv_def)
    qed
    moreover have "body g' h = Some (GTable mt arr ns)" using wb(2) t(2) by simp
    ultimately show "conv_table g' h \<and> (\<forall>b. white g b \<and> \<not> white g' b \<longrightarrow> isstring g b)"
      unfolding conv_table_def strs_def using wb(1) by simp
  qed
qed

section \<open>The other objects\<close>

lemma trav_okv: "trav a g g' \<Longrightarrow> okv g v \<Longrightarrow> okv g' v"
  using okv_mono travD(6) by blast

lemma trav_oko: "trav a g g' \<Longrightarrow> oko g t \<Longrightarrow> oko g' t"
  using oko_mono travD(6) by blast

lemma trav_state: "trav a g g' \<Longrightarrow> gs_gcstate g' = gs_gcstate g"
  using travD(1) by (simp add: same_roots_def)

lemma uv_v_touched [simp]: "uv_v g (x\<lparr>uv_touched := t\<rparr>) = uv_v g x"
  by (simp add: uv_v_def split: option.split)

lemma trav_uvok:
  assumes t: "trav a g g'" and u: "uvok ph g uv"
  shows "uvok ph g' uv"
proof (cases uv)
  case (Some n)
  show ?thesis
  proof (cases "upv g n")
    case None
    then have "upv g' n = None" using travD(2) [OF t] unfolding ups_ext_def by (metis option.distinct(1))
    then show ?thesis by (simp add: uvok_def Some)
  next
    case x: (Some x)
    have "upv g' n = Some x \<or> upv g' n = Some (x\<lparr>uv_touched := True\<rparr>)"
      using travD(2) [OF t] x unfolding ups_ext_def by (metis option.inject)
    then obtain y where y: "upv g' n = Some y" "uv_open y = uv_open x" "uv_value y = uv_value x" "uv_touched x \<longrightarrow> uv_touched y"
      "uv_v g' y = uv_v g' x" by auto
    show ?thesis
      using u trav_okv [OF t, of "uv_value x"] travD(10) [OF t, of x] travD(6) [OF t] y
      by (auto simp: uvok_def Some x split: option.splits)
  qed
qed (simp add: uvok_def)

lemma trav_fold:
  assumes "\<And>x g. trav a g (f x g)"
  shows "trav a g (fold f xs g)"
proof (induction xs arbitrary: g)
  case (Cons x xs)
  show ?case using trav_trans [OF assms Cons.IH] by simp
qed (simp add: trav_refl)

lemma trav_fold_all:
  assumes f: "\<And>x g. trav a g (f x g)" and P: "\<And>x g. gs_gcstate g = s \<Longrightarrow> P (f x g) x"
    and mono: "\<And>x g g'. trav a g g' \<Longrightarrow> P g x \<Longrightarrow> P g' x" and "gs_gcstate g = s" and "x \<in> set xs"
  shows "P (fold f xs g) x"
  using assms(4,5)
proof (induction xs arbitrary: g)
  case (Cons y xs)
  have s: "gs_gcstate (f y g) = s" using trav_state [OF f] Cons.prems(1) by simp
  show ?case
  proof (cases "x = y")
    case True
    then show ?thesis using mono [OF trav_fold [where f = f, OF f] P [OF Cons.prems(1)]] by simp
  next
    case False
    then show ?thesis using Cons.IH [OF s] Cons.prems(2) by simp
  qed
qed simp

lemma upv_set_upv: "upv (set_upv u y g) v = (if u = v \<and> u < length (gs_upvals g) then y else upv g v)"
  by (auto simp: upv_def set_upv_def)

lemma set_upv_touched_ext: "upv g u = Some x \<Longrightarrow> ups_ext g (set_upv u (Some (x\<lparr>uv_touched := True\<rparr>)) g)"
  by (auto simp: ups_ext_def upv_set_upv) (simp add: set_upv_def)

lemma traverse_upval_trav: "trav a g (traverse_upval uv g)"
proof -
  have "trav a g (set_upv u (Some (x\<lparr>uv_touched := True\<rparr>)) g)" if "upv g u = Some x" for u x
    using set_upv_touched_ext [OF that]
    by (intro trav_same_heap) (auto simp: set_upv_def same_roots_def lists_ext_def)
  then show ?thesis
    using trav_mk [OF markvalue_mk(1)] by (auto simp: traverse_upval_def trav_refl split: option.split)
qed

lemma upv_less: "upv g u = Some x \<Longrightarrow> u < length (gs_upvals g)"
  by (auto simp: upv_def split: if_splits)

lemma markvalue_uvs [simp]: "upv (markvalue v g) u = upv g u" "uv_v (markvalue v g) x = uv_v g x"
  using same_rest_fields(1) [OF mk_fields [OF markvalue_mk(1)]] mk_uv_v [OF markvalue_mk(1)] by (simp_all add: upv_def)

lemma traverse_upval_ok: "ph = (gs_gcstate g = GCSinsideatomic) \<Longrightarrow> uvok ph (traverse_upval uv g) uv"
proof (cases uv)
  case (Some u)
  assume ph: "ph = (gs_gcstate g = GCSinsideatomic)"
  show ?thesis
  proof (cases "upv g u")
    case None
    then show ?thesis by (simp add: traverse_upval_def uvok_def Some)
  next
    case x: (Some x)
    show ?thesis
    proof (cases "uv_open x \<noteq> None \<and> \<not> ph")
      case True
      then show ?thesis
        using ph x upv_less [OF x] by (auto simp: traverse_upval_def uvok_def Some upv_set_upv)
    next
      case False
      have e: "traverse_upval uv g = markvalue (uv_v g x) g"
        using ph x False by (auto simp: traverse_upval_def Some)
      have v: "uv_v g x = uv_value x" if "uv_open x = None" using that by (simp add: uv_v_def)
      show ?thesis
        unfolding e uvok_def using Some x False v markvalue_mk(2) [of "uv_v g x" g] by (auto split: option.split)
    qed
  qed
qed (simp add: uvok_def)

lemma traverseLclosure_trav:
  assumes b: "body g a = Some (GLcl p ups)" and ph: "ph = (gs_gcstate g = GCSinsideatomic)"
  shows "trav h g (traverseLclosure p ups g)" "a \<noteq> h \<Longrightarrow> all_ok ph (traverseLclosure p ups g) a"
proof -
  let ?g = "markobjectN p g"
  have t: "trav c ?g (fold traverse_upval ups ?g)" for c using trav_fold [OF traverse_upval_trav] .
  have t0: "trav c g ?g" for c using trav_mk [OF markobjectN_mk(1)] .
  show t1: "trav h g (traverseLclosure p ups g)" for h
    unfolding traverseLclosure_def using trav_trans [OF t0 t] .
  have s: "gs_gcstate ?g = gs_gcstate g" using trav_state [OF t0] .
  have P: "uvok ph (traverse_upval u g') u" if "gs_gcstate g' = gs_gcstate g" for u g'
    by (rule traverse_upval_ok) (simp add: that ph)
  have "uvok ph (traverseLclosure p ups g) u" if "u \<in> set ups" for u
    unfolding traverseLclosure_def 
    by (rule trav_fold_all [where a = a and f = traverse_upval and P = "uvok ph", OF traverse_upval_trav P trav_uvok s that])
  moreover have "oko (traverseLclosure p ups g) p"
    unfolding traverseLclosure_def using trav_oko [OF t markobjectN_mk(2)] .
  moreover have "body (traverseLclosure p ups g) a = Some (GLcl p ups)" if "a \<noteq> h" for h
    using travD(7) [OF t1 that] b by simp
  ultimately show "a \<noteq> h \<Longrightarrow> all_ok ph (traverseLclosure p ups g) a"
    by (simp add: all_ok_def)
qed

lemma traverseproto_trav:
  assumes b: "body g f = Some (GProto cache source k upnames p locnames)"
  shows "trav f g (traverseproto f cache source k upnames p locnames g)"
    "all_ok ph (traverseproto f cache source k upnames p locnames g) f"
proof -
  define c where "c = (case cache of Some c \<Rightarrow> if white g c then None else cache | None \<Rightarrow> None)"
  define g0 where "g0 = set_body f (GProto c source k upnames p locnames) g"
  define g1 where "g1 = markobjectN source g0"
  define g2 where "g2 = fold markvalue k g1"
  define g3 where "g3 = fold markobjectN upnames g2"
  define g4 where "g4 = fold markobjectN p g3"
  define g5 where "g5 = fold markobjectN locnames g4"
  have e: "traverseproto f cache source k upnames p locnames g = g5"
    by (simp add: traverseproto_def g5_def g4_def g3_def g2_def g1_def g0_def c_def Let_def)
  have m5: "mk g4 g5" unfolding g5_def by (rule fold_markobjectN)
  have m4: "mk g3 g5" using mk_trans [OF _ m5] fold_markobjectN(1) unfolding g4_def by blast
  have m3: "mk g2 g5" using mk_trans [OF _ m4] fold_markobjectN(1) unfolding g3_def by blast
  have m2: "mk g1 g5" using mk_trans [OF _ m3] fold_markvalue(1) unfolding g2_def by blast
  have m1: "mk g0 g5" using mk_trans [OF _ m2] markobjectN_mk(1) unfolding g1_def by blast
  have "trav f g g0" unfolding g0_def
    using b by (intro trav_set_body) (simp_all add: stack_slot_set_body)
  then show "trav f g (traverseproto f cache source k upnames p locnames g)"
    unfolding e using trav_trans trav_mk [OF m1] by blast
  have "oko g0 c" unfolding g0_def c_def by (auto simp: oko_def split: option.split)
  then have ok: "oko g5 c" "oko g5 source" "\<forall>v \<in> set k. okv g5 v" "\<forall>t \<in> set upnames. oko g5 t" "\<forall>t \<in> set p. oko g5 t"
    "\<forall>t \<in> set locnames. oko g5 t"
    using mk_oko [OF m1] mk_oko [OF m2] mk_okv [OF m3] mk_oko [OF m4] mk_oko [OF m5] markobjectN_mk(2) fold_markvalue(2)
      fold_markobjectN(2) unfolding g1_def g2_def g3_def g4_def g5_def by blast+
  have "body g5 f = Some (GProto c source k upnames p locnames)"
    using mkD(1) [OF m1, of f] b by (simp add: g0_def body_set_body)
  then show "all_ok ph (traverseproto f cache source k upnames p locnames g) f"
    unfolding e using ok by (simp add: all_ok_def)
qed

lemma traverseCclosure_trav:
  assumes "body g a = Some (GCcl vs)"
  shows "trav a g (traverseCclosure vs g)" "all_ok ph (traverseCclosure vs g) a"
  using trav_mk [OF fold_markvalue(1)] fold_markvalue(2) mkD(1) [OF fold_markvalue(1)] assms
  by (simp_all add: traverseCclosure_def all_ok_def)

text \<open>In the atomic step the dead part of the stack is cleared.\<close>

lemma uv_v_clear_stack:
  assumes b: "body g th = Some (GThread (Some st) tp ups)" and u: "okv g (uv_v g x)"
  shows "okv g (uv_v (set_body th (GThread (Some (take tp st @ map (\<lambda>_. GNil) (drop tp st))) tp ups) g) x)"
proof (cases "uv_open x")
  case None
  then show ?thesis using u by (simp add: uv_v_def)
next
  case (Some p)
  obtain t i where p: "p = (t, i)" by fastforce
  have l: "min (length st) tp + (length st - tp) = length st" by (simp add: min_def)
  show ?thesis
  proof (cases "t = th \<and> i < length st")
    case True
    then have "uv_v (set_body th (GThread (Some (take tp st @ map (\<lambda>_. GNil) (drop tp st))) tp ups) g) x =
        (take tp st @ map (\<lambda>_. GNil) (drop tp st)) ! i"
      using Some p b True l by (simp add: uv_v_def stack_slot_def body_set_body)
    also have "\<dots> = (if i < tp then st ! i else GNil)"
      using True by (auto simp: nth_append min_def)
    finally show ?thesis using True u Some p b by (simp add: uv_v_def stack_slot_def)
  next
    case False
    then have "uv_v (set_body th (GThread (Some (take tp st @ map (\<lambda>_. GNil) (drop tp st))) tp ups) g) x = uv_v g x"
      using Some p b by (auto simp: uv_v_def stack_slot_def body_set_body)
    then show ?thesis using u by simp
  qed
qed

lemma traversethread_trav:
  assumes b: "body g th = Some (GThread stack tp ups)" and ph: "ph = (gs_gcstate g = GCSinsideatomic)"
    and a: "th \<in> set (gs_grayagain g)"
  shows "trav th g (traversethread th stack tp ups g)" "visited ph th (traversethread th stack tp ups g)"
proof -
  have "trav th g (traversethread th stack tp ups g) \<and> visited ph th (traversethread th stack tp ups g)"
  proof (cases stack)
    case None
    then show ?thesis using b by (simp add: traversethread_def trav_refl visited_def done_ok_def all_ok_def)
  next
    case (Some st)
    define g1 where "g1 = fold markvalue (take tp st) g"
    have m: "mk g g1" "\<forall>v \<in> set (take tp st). okv g1 v" unfolding g1_def using fold_markvalue by blast+
    have t1: "trav th g g1" using trav_mk [OF m(1)] .
    have s: "gs_gcstate g1 = gs_gcstate g" using trav_state [OF t1] .
    show ?thesis
    proof (cases ph)
      case False
      then have "traversethread th stack tp ups g = g1" using ph s Some by (simp add: traversethread_def g1_def)
      moreover have "th \<in> set (gs_grayagain g1)" using a same_rest_fields(4) [OF mk_fields [OF m(1)]] by simp
      ultimately show ?thesis using t1 False by (simp add: visited_def)
    next
      case True
      let ?st = "take tp st @ map (\<lambda>_. GNil) (drop tp st)"
      let ?g = "set_body th (GThread (Some ?st) tp ups) g1"
      have b1: "body g1 th = Some (GThread (Some st) tp ups)" using mkD(1) [OF m(1), of th] b Some by simp
      have "trav th g1 ?g"
        using b1 uv_v_clear_stack [OF b1] by (intro trav_set_body) (simp_all del: map_append)
      then have t: "trav th g ?g" using trav_trans [OF t1] by blast
      have e: "traversethread th stack tp ups g =
          (if th \<notin> set (gs_twups ?g) \<and> ups \<noteq> [] then ?g\<lparr>gs_twups := th # gs_twups ?g\<rparr> else ?g)"
        using True ph s Some by (simp add: traversethread_def g1_def Let_def)
      have "all_ok ph ?g th" using b1 m(2) by (auto simp: all_ok_def body_set_body)
      then have "all_ok ph (?g\<lparr>gs_twups := th # gs_twups ?g\<rparr>) th" "all_ok ph ?g th"
        using b1 by (auto simp: all_ok_def body_set_body)
      then show ?thesis
        unfolding e using t trav_trans [OF t trav_add_list(5)] by (simp add: visited_def done_ok_def)
    qed
  qed
  then show "trav th g (traversethread th stack tp ups g)" "visited ph th (traversethread th stack tp ups g)" by blast+
qed

lemma traversetable_trav:
  assumes b: "body g h = Some (GTable mt arr nodes)" and ph: "ph = (gs_gcstate g = GCSinsideatomic)"
  shows "trav h g (traversetable h mt arr nodes g)" "visited ph h (traversetable h mt arr nodes g)"
proof -
  obtain wk wv where w: "weak_mode g mt = (wk, wv)" by fastforce
  define g1 where "g1 = markobjectN mt g"
  define g2 where "g2 = set_mark h black2gray g1"
  have m: "mk g g1" "oko g1 mt" unfolding g1_def by (rule markobjectN_mk)+
  have t1: "trav h g g1" using trav_mk [OF m(1)] .
  have t2: "trav h g g2" unfolding g2_def using trav_trans [OF t1 trav_black2gray] .
  have b1: "body g1 h = Some (GTable mt arr nodes)" "body g2 h = Some (GTable mt arr nodes)"
    using mkD(1) [OF m(1)] b by (simp_all add: g2_def)
  have ok2: "oko g2 mt" using m(2) oko_cong [of g2 g1 mt] by (simp add: g2_def)
  have p2: "ph \<Longrightarrow> gs_gcstate g2 \<noteq> GCSpropagate" using trav_state [OF t2] ph by (simp add: gc_states)
  have e: "traversetable h mt arr nodes g =
      (if wk \<or> wv then
         if \<not> wk then traverseweakvalue h mt arr nodes g2
         else if \<not> wv then snd (traverseephemeron_body h mt arr nodes g2)
         else g2\<lparr>gs_allweak := h # gs_allweak g2\<rparr>
       else traversestrongtable h mt arr nodes g1)"
    by (simp add: traversetable_def w g1_def g2_def Let_def)
  have v: "visited ph h (traversestrongtable h mt arr nodes g1)"
    using traversestrongtable_trav(2) [OF b1(1) m(2)] by (simp add: visited_def done_ok_def)
  have "mt_ok (g2\<lparr>gs_allweak := h # gs_allweak g2\<rparr>) h" using b1(2) ok2 by (simp add: mt_ok_def)
  then have vw: "visited ph h (g2\<lparr>gs_allweak := h # gs_allweak g2\<rparr>)"
    by (simp add: visited_def done_ok_def)
  note se = traverseephemeron_trav(1,2) [OF b1(2) ok2 p2 prod.collapse [symmetric]]
  show "trav h g (traversetable h mt arr nodes g)"
    unfolding e using trav_trans [OF t1 traversestrongtable_trav(1) [OF b1(1) m(2)]]
      trav_trans [OF t2 traverseweakvalue_trav(1) [OF b1(2) ok2 p2]] trav_trans [OF t2 se(1)] trav_trans [OF t2 trav_add_list(3)]
    by simp
  show "visited ph h (traversetable h mt arr nodes g)"
    unfolding e using v vw traverseweakvalue_trav(2) [OF b1(2) ok2 p2] se(2) by simp
qed

section \<open>One step of propagation\<close>

definition pop_gray :: "nat \<Rightarrow> nat list \<Rightarrow> gstate \<Rightarrow> gstate" where
  "pop_gray a rest g = (set_mark a gray2black g)\<lparr>gs_gray := rest\<rparr>"

lemma pop_gray_simps [simp]:
  "body (pop_gray a rest g) b = body g b" "white (pop_gray a rest g) b = white g b" "container (pop_gray a rest g) b = container g b"
  "gs_gray (pop_gray a rest g) = rest" "gs_gcstate (pop_gray a rest g) = gs_gcstate g"
  "gs_grayagain (pop_gray a rest g) = gs_grayagain g" "whites (pop_gray a rest g) = whites g"
  by (simp_all add: pop_gray_def container_def whites_def set_mark_def) (simp_all flip: set_mark_def)

lemma trav_lists_black2gray:
  "trav a g (set_mark a black2gray (g\<lparr>gs_grayagain := a # gs_grayagain g\<rparr>))"
  using trav_trans [OF trav_add_list(1) trav_black2gray] .

lemma propagatemark_eq:
  assumes g: "gs_gray g = a # rest"
  defines "g1 \<equiv> pop_gray a rest g"
  defines "g2 \<equiv> set_mark a black2gray (g1\<lparr>gs_grayagain := a # gs_grayagain g1\<rparr>)"
  shows "propagatemark g = (case body g a of
         Some (GTable mt arr nodes) \<Rightarrow> traversetable a mt arr nodes g1
       | Some (GLcl p upvals) \<Rightarrow> traverseLclosure p upvals g1
       | Some (GCcl upvalue) \<Rightarrow> traverseCclosure upvalue g1
       | Some (GThread stack tp ups) \<Rightarrow> traversethread a stack tp ups g2
       | Some (GProto cache source k upnames p locnames) \<Rightarrow> traverseproto a cache source k upnames p locnames g1
       | _ \<Rightarrow> g1)"
  unfolding propagatemark_def g g2_def g1_def pop_gray_def Let_def list.case
  by (simp split: option.split gbody.split)

lemma propagatemark_trav:
  assumes g: "gs_gray g = a # rest"
  shows "trav a (pop_gray a rest g) (propagatemark g)"
    "container g a \<Longrightarrow> ph = (gs_gcstate g = GCSinsideatomic) \<Longrightarrow> visited ph a (propagatemark g)"
proof -
  define g1 where "g1 = pop_gray a rest g"
  define g2 where "g2 = set_mark a black2gray (g1\<lparr>gs_grayagain := a # gs_grayagain g1\<rparr>)"
  have t2: "trav a g1 g2" unfolding g2_def by (rule trav_lists_black2gray)
  have b2: "body g2 a = body g a" by (simp add: g2_def g1_def)
  have s: "gs_gcstate g1 = gs_gcstate g" "gs_gcstate g2 = gs_gcstate g" using trav_state [OF t2] by (simp_all add: g1_def)
  have ga: "a \<in> set (gs_grayagain g2)" unfolding g2_def by (simp add: set_mark_def)
  note e = propagatemark_eq [OF g, folded g1_def, folded g2_def]
  have "trav a g1 (propagatemark g) \<and> (container g a \<longrightarrow> visited (gs_gcstate g = GCSinsideatomic) a (propagatemark g))"
  proof (cases "body g a")
    case None
    then show ?thesis by (simp add: e trav_refl container_def)
  next
    case (Some b)
    have b1: "body g1 a = Some b" using Some by (simp add: g1_def)
    show ?thesis
    proof (cases b)
      case (GTable mt arr nodes)
      then show ?thesis using traversetable_trav [OF b1 [unfolded GTable]] Some s by (simp add: e)
    next
      case (GLcl p ups)
      have "trav a g1 (traverseLclosure p ups g1)" using traverseLclosure_trav(1) [OF b1 [unfolded GLcl] refl] .
      moreover have "all_ok (gs_gcstate g = GCSinsideatomic) (traverseLclosure p ups g1) a"
        using traverseLclosure_trav(2) [OF b1 [unfolded GLcl], of _ "Suc a"] s by simp
      ultimately show ?thesis using Some GLcl by (simp add: e visited_def done_ok_def)
    next
      case (GCcl vs)
      then show ?thesis using traverseCclosure_trav [OF b1 [unfolded GCcl]] Some by (simp add: e visited_def done_ok_def)
    next
      case (GThread stack tp ups)
      then show ?thesis
        using traversethread_trav [of g2 a stack tp ups] trav_trans [OF t2] b2 Some s ga by (simp add: e)
    next
      case (GProto cache source k upnames p locnames)
      then show ?thesis using traverseproto_trav [OF b1 [unfolded GProto]] Some by (simp add: e visited_def done_ok_def)
    qed (use Some in \<open>simp_all add: e trav_refl container_def\<close>)
  qed
  then show "trav a (pop_gray a rest g) (propagatemark g)"
    "container g a \<Longrightarrow> ph = (gs_gcstate g = GCSinsideatomic) \<Longrightarrow> visited ph a (propagatemark g)"
    unfolding g1_def by blast+
qed

lemma propagatemark_mu: "gs_gray g \<noteq> [] \<Longrightarrow> mu (propagatemark g) < mu g"
  using travD(11) [OF propagatemark_trav(1)] by (cases "gs_gray g") (fastforce simp: mu_def)+

section \<open>The lists of weak tables\<close>

text \<open>A traversal puts its object in at most one of the lists.\<close>

definition wlists :: "gstate \<Rightarrow> nat list \<times> nat list \<times> nat list \<times> nat list" where
  "wlists g = (gs_grayagain g, gs_weak g, gs_ephemeron g, gs_allweak g)"

definition pushed :: "nat \<Rightarrow> gstate \<Rightarrow> gstate \<Rightarrow> bool" where
  "pushed a g g' \<longleftrightarrow> wlists g' = wlists g \<or>
     wlists g' = (a # gs_grayagain g, gs_weak g, gs_ephemeron g, gs_allweak g) \<or>
     wlists g' = (gs_grayagain g, a # gs_weak g, gs_ephemeron g, gs_allweak g) \<or>
     wlists g' = (gs_grayagain g, gs_weak g, a # gs_ephemeron g, gs_allweak g) \<or>
     wlists g' = (gs_grayagain g, gs_weak g, gs_ephemeron g, a # gs_allweak g)"

lemma wlists_rest: "same_rest g g' \<Longrightarrow> wlists g' = wlists g"
  using same_rest_fields(4-7) by (simp add: wlists_def)

lemma wlists_same [simp]:
  "wlists (set_mark a f g) = wlists g" "wlists (set_body a c g) = wlists g" "wlists (g\<lparr>gs_twups := l\<rparr>) = wlists g"
  "wlists (set_upv u x g) = wlists g" "wlists (g\<lparr>gs_gray := l\<rparr>) = wlists g"
  by (simp_all add: wlists_def set_mark_def set_body_def set_upv_def)

lemma wlists_mk: "mk g g' \<Longrightarrow> wlists g' = wlists g"
  using wlists_rest mk_fields by blast

lemma pushed_same: "wlists g' = wlists g \<Longrightarrow> pushed a g g'"
  by (simp add: pushed_def)

lemma wlists_fields:
  assumes "wlists g' = wlists g"
  shows "gs_grayagain g' = gs_grayagain g" "gs_weak g' = gs_weak g" "gs_ephemeron g' = gs_ephemeron g" "gs_allweak g' = gs_allweak g"
  using assms by (simp_all add: wlists_def)

lemma pushed_add:
  assumes "wlists g1 = wlists g"
  shows "pushed a g (g1\<lparr>gs_grayagain := a # gs_grayagain g1\<rparr>)" "pushed a g (g1\<lparr>gs_weak := a # gs_weak g1\<rparr>)"
    "pushed a g (g1\<lparr>gs_ephemeron := a # gs_ephemeron g1\<rparr>)" "pushed a g (g1\<lparr>gs_allweak := a # gs_allweak g1\<rparr>)"
  using wlists_fields [OF assms] by (simp_all add: pushed_def wlists_def)

lemma traverse_upvals_wlists: "wlists (fold traverse_upval ups g) = wlists g"
proof (induction ups arbitrary: g)
  case (Cons u ups)
  have "wlists (traverse_upval u g) = wlists g"
    using wlists_mk [OF markvalue_mk(1)] by (auto simp: traverse_upval_def split: option.split)
  then show ?case using Cons by simp
qed simp

lemma traverseephemeron_pushed:
  assumes "traverseephemeron_body h mt arr nodes g = (m, g')"
  shows "pushed h g g'" "gs_twups g' = gs_twups g"
proof -
  obtain m1 g1 where a: "ephemeron_array arr False g = (m1, g1)" by fastforce
  let ?f = "\<lparr>ef_marked = m1, ef_hasclears = False, ef_hasww = False\<rparr>"
  obtain ns f g2 where n: "ephemeron_nodes nodes ?f g1 = (ns, f, g2)" by (metis prod_cases3)
  have "mk g1 g2" using ephemeron_nodes_post [OF n] unfolding eph_post_def by (rule conjunct1)
  then have m: "mk g g2" using mk_trans [OF conjunct1 [OF ephemeron_array_mk [OF a]]] by blast
  define g3 where "g3 = set_body h (GTable mt arr ns) g2"
  have w: "wlists g3 = wlists g" using wlists_mk [OF m] by (simp add: g3_def)
  have t: "gs_twups g3 = gs_twups g"
    using same_rest_fields(8) [OF mk_fields [OF m]] by (simp add: g3_def set_body_def)
  have e: "g' = (if gs_gcstate g3 = GCSpropagate then g3\<lparr>gs_grayagain := h # gs_grayagain g3\<rparr>
       else if ef_hasww f then g3\<lparr>gs_ephemeron := h # gs_ephemeron g3\<rparr>
       else if ef_hasclears f then g3\<lparr>gs_allweak := h # gs_allweak g3\<rparr> else g3)"
    using assms unfolding traverseephemeron_body_def a n Let_def prod.case g3_def by simp
  show "pushed h g g'" "gs_twups g' = gs_twups g"
    unfolding e using pushed_add [OF w] pushed_same [OF w] t by simp_all
qed

lemma traverseweakvalue_pushed: "pushed h g (traverseweakvalue h mt arr nodes g)"
proof -
  obtain ns c g2 where r: "weakvalue_nodes nodes (arr \<noteq> []) g = (ns, c, g2)" by (metis prod_cases3)
  have w: "wlists (set_body h (GTable mt arr ns) g2) = wlists g"
    using weakvalue_nodes_mk [OF r] wlists_mk by simp
  show ?thesis
    using pushed_add [OF w] pushed_same [OF w] by (auto simp: traverseweakvalue_def r Let_def)
qed

lemma traversetable_pushed: "pushed h g (traversetable h mt arr nodes g)"
proof -
  obtain wk wv where w: "weak_mode g mt = (wk, wv)" by fastforce
  define g1 where "g1 = markobjectN mt g"
  define g2 where "g2 = set_mark h black2gray g1"
  have l1: "wlists g1 = wlists g" unfolding g1_def using wlists_mk markobjectN_mk(1) by blast
  then have l2: "wlists g2 = wlists g" by (simp add: g2_def)
  obtain m g3 where e: "traverseephemeron_body h mt arr nodes g2 = (m, g3)" by fastforce
  obtain ns g4 where r: "strong_nodes nodes (fold markvalue arr g1) = (ns, g4)" by fastforce
  have "wlists g4 = wlists g1"
    using strong_nodes_mk [OF r] wlists_mk fold_markvalue(1) mk_trans by blast
  then have s: "pushed h g (traversestrongtable h mt arr nodes g1)"
    using l1 by (intro pushed_same) (simp add: traversestrongtable_def r)
  have "pushed h g x" if "pushed h g2 x" for x
    using that wlists_fields [OF l2] l2 by (simp add: pushed_def)
  then have "pushed h g (traverseweakvalue h mt arr nodes g2)" "pushed h g g3"
    using traverseweakvalue_pushed traverseephemeron_pushed(1) [OF e] by blast+
  then show ?thesis
    using s pushed_add(4) [OF l2] by (simp add: traversetable_def w e flip: g1_def g2_def)
qed

lemma propagatemark_pushed:
  assumes g: "gs_gray g = a # rest"
  shows "pushed a g (propagatemark g)"
proof -
  define g1 where "g1 = pop_gray a rest g"
  have l1: "wlists g1 = wlists g" by (simp add: g1_def pop_gray_def)
  define g2 where "g2 = set_mark a black2gray (g1\<lparr>gs_grayagain := a # gs_grayagain g1\<rparr>)"
  note e = propagatemark_eq [OF g, folded g1_def, folded g2_def]
  have p: "pushed a g x" if "pushed a g1 x" for x
    using that wlists_fields [OF l1] l1 by (simp add: pushed_def)
  show ?thesis
  proof (cases "body g a")
    case None
    then show ?thesis using l1 by (simp add: e pushed_same)
  next
    case (Some b)
    show ?thesis
    proof (cases b)
      case (GTable mt arr nodes)
      then show ?thesis using Some p traversetable_pushed by (simp add: e)
    next
      case (GLcl q ups)
      have "wlists (traverseLclosure q ups g1) = wlists g1"
        using traverse_upvals_wlists wlists_mk [OF markobjectN_mk(1)] by (simp add: traverseLclosure_def)
      then show ?thesis using Some p pushed_same GLcl by (simp add: e)
    next
      case (GCcl vs)
      have "wlists (traverseCclosure vs g1) = wlists g1"
        using wlists_mk [OF fold_markvalue(1)] by (simp add: traverseCclosure_def)
      then show ?thesis using Some p pushed_same GCcl by (simp add: e)
    next
      case (GThread stack tp ups)
      have "wlists (traversethread a stack tp ups g2) = wlists g2"
        using wlists_mk [OF fold_markvalue(1)] by (simp add: traversethread_def Let_def split: option.split)
      then have "pushed a g1 (traversethread a stack tp ups g2)"
        by (simp add: pushed_def g2_def) (simp add: wlists_def)
      then show ?thesis using Some p GThread by (simp add: e)
    next
      case (GProto cache source k upnames ps locnames)
      have "wlists (traverseproto a cache source k upnames ps locnames g1) = wlists g1"
        using wlists_mk [OF fold_markvalue(1)] wlists_mk [OF fold_markobjectN(1)] wlists_mk [OF markobjectN_mk(1)]
        by (simp add: traverseproto_def Let_def)
      then show ?thesis using Some p pushed_same GProto by (simp add: e)
    qed (use Some l1 in \<open>simp_all add: e pushed_same\<close>)
  qed
qed

end
