(* ===== verification/Lua_Gc_Cycle.thy ===== *)
theory Lua_Gc_Cycle
  imports Lua_Gc_Trav Lua_Func
begin

text \<open>
  The rest of \<open>lgc.c\<close>: the loops of the mark phase, with their termination; the weak tables that are
  cleared; freeing and sweeping; the lists of objects to be finalized; the atomic step and the state
  machine of a collection.  A finalizer runs Lua code of the user: it is the parameter \<open>fin\<close>, which
  is given the finalizer and the object and returns whether it raised an error, and the new state.
\<close>

section \<open>Propagation\<close>

function propagateall :: "gstate \<Rightarrow> gstate" where
  "propagateall g = (if gs_gray g = [] then g else propagateall (propagatemark g))"
  by pat_completeness auto
termination by (relation "measure mu") (auto simp: propagatemark_mu)

declare propagateall.simps [simp del]

lemma propagateall_induct:
  assumes "\<And>g. gs_gray g = [] \<Longrightarrow> P g g" and "\<And>g g'. gs_gray g \<noteq> [] \<Longrightarrow> P (propagatemark g) g' \<Longrightarrow> P g g'"
  shows "P g (propagateall g)"
proof (induction g rule: propagateall.induct)
  case (1 g)
  show ?case
  proof (cases "gs_gray g = []")
    case True
    then show ?thesis using assms(1) by (simp add: propagateall.simps)
  next
    case False
    then show ?thesis using assms(2) [OF False 1 [OF False]] by (simp add: propagateall.simps [of g])
  qed
qed

lemma whites_propagatemark: "whites (propagatemark g) \<le> whites g"
proof (cases "gs_gray g")
  case (Cons a rest)
  have "white (propagatemark g) b \<Longrightarrow> white g b" for b
    using travD(6) [OF propagatemark_trav(1) [OF Cons], of b] by simp
  then show ?thesis by (rule whites_mono)
qed (simp add: propagatemark_def)

lemma whites_propagateall: "whites (propagateall g) \<le> whites g"
  by (rule propagateall_induct) (auto intro: le_trans whites_propagatemark)

fun ephemeron_pass :: "nat list \<Rightarrow> bool \<Rightarrow> gstate \<Rightarrow> bool \<times> gstate" where
  "ephemeron_pass [] changed g = (changed, g)"
| "ephemeron_pass (w # ws) changed g =
     (let (m, g) = traverseephemeron w g
      in if m then ephemeron_pass ws True (propagateall g) else ephemeron_pass ws changed g)"

lemma traverseephemeron_whites:
  assumes "traverseephemeron h g = (m, g')"
  shows "whites g' \<le> whites g" "m \<Longrightarrow> whites g' < whites g"
proof -
  have "whites g' \<le> whites g \<and> (m \<longrightarrow> whites g' < whites g)"
  proof (cases "\<exists>mt arr nodes. body g h = Some (GTable mt arr nodes)")
    case True
    then obtain mt arr nodes where b: "body g h = Some (GTable mt arr nodes)" by blast
    then have r: "traverseephemeron_body h mt arr nodes g = (m, g')" using assms by (simp add: traverseephemeron_def)
    obtain m1 g1 where a: "ephemeron_array arr False g = (m1, g1)" by fastforce
    let ?f = "\<lparr>ef_marked = m1, ef_hasclears = False, ef_hasww = False\<rparr>"
    obtain ns f g2 where n: "ephemeron_nodes nodes ?f g1 = (ns, f, g2)" by (metis prod_cases3)
    have A: "mk g g1" "m1 \<longrightarrow> whites g1 < whites g" "\<not> m1 \<longrightarrow> g1 = g" using ephemeron_array_mk [OF a] by simp_all
    note N = ephemeron_nodes_post [OF n, unfolded eph_post_def, simplified]
    have e: "m = ef_marked f" "\<And>b. white g' b = white g2 b"
      using r by (auto simp: traverseephemeron_body_def a n Let_def split: if_splits)
    have w: "whites g' = whites g2" using e(2) by (rule whites_cong)
    have "whites g2 \<le> whites g1" "whites g1 \<le> whites g" using mk_whites N A(1) by blast+
    then show ?thesis using w e(1) N A(2,3) by (cases m1) auto
  next
    case False
    then have "(m, g') = (False, g)"
      using assms by (auto simp: traverseephemeron_def split: option.splits gbody.splits)
    then show ?thesis by simp
  qed
  then show "whites g' \<le> whites g" "m \<Longrightarrow> whites g' < whites g" by blast+
qed

lemma ephemeron_pass_whites:
  "ephemeron_pass ws c g = (c', g') \<Longrightarrow> whites g' \<le> whites g \<and> (c' \<and> \<not> c \<longrightarrow> whites g' < whites g)"
proof (induction ws c g rule: ephemeron_pass.induct)
  case (2 w ws c g)
  obtain m g1 where t: "traverseephemeron w g = (m, g1)" by fastforce
  note T = traverseephemeron_whites [OF t]
  show ?case
  proof (cases m)
    case True
    then have "ephemeron_pass ws True (propagateall g1) = (c', g')" using "2.prems" t by simp
    then have "whites g' \<le> whites (propagateall g1)" using "2.IH"(1) [OF t [symmetric] refl True] by simp
    then show ?thesis using T(2) [OF True] whites_propagateall [of g1] by simp
  next
    case False
    then have "ephemeron_pass ws c g1 = (c', g')" using "2.prems" t by simp
    then show ?thesis using "2.IH"(2) [OF t [symmetric] refl False] T(1) by auto
  qed
qed simp

function convergeephemerons :: "gstate \<Rightarrow> gstate" where
  "convergeephemerons g =
     (case ephemeron_pass (gs_ephemeron g) False (g\<lparr>gs_ephemeron := []\<rparr>) of
        (changed, g') \<Rightarrow> if changed then convergeephemerons g' else g')"
  by pat_completeness auto
termination
  by (relation "measure whites") (auto dest!: ephemeron_pass_whites [OF sym] simp: whites_def)

declare convergeephemerons.simps [simp del]

section \<open>Weak tables are cleared\<close>

fun clear_key_nodes :: "(gval \<times> gval) list \<Rightarrow> gstate \<Rightarrow> (gval \<times> gval) list \<times> gstate" where
  "clear_key_nodes [] g = ([], g)"
| "clear_key_nodes ((k, v) # ns) g =
     (let (c, g) = (if v \<noteq> GNil then iscleared k g else (False, g));
          e = (if c then (removeentry g k, GNil) else (k, v));
          (ns, g) = clear_key_nodes ns g
      in (e # ns, g))"

definition clear_keys_table :: "nat \<Rightarrow> gstate \<Rightarrow> gstate" where
  "clear_keys_table h g = (case body g h of
     Some (GTable mt arr nodes) \<Rightarrow> let (nodes, g) = clear_key_nodes nodes g in set_body h (GTable mt arr nodes) g
   | _ \<Rightarrow> g)"

definition clearkeys :: "nat list \<Rightarrow> gstate \<Rightarrow> gstate" where
  "clearkeys l g = fold clear_keys_table l g"

fun clear_array :: "gval list \<Rightarrow> gstate \<Rightarrow> gval list \<times> gstate" where
  "clear_array [] g = ([], g)"
| "clear_array (v # vs) g =
     (let (c, g) = iscleared v g; (vs, g) = clear_array vs g in ((if c then GNil else v) # vs, g))"

fun clear_value_nodes :: "(gval \<times> gval) list \<Rightarrow> gstate \<Rightarrow> (gval \<times> gval) list \<times> gstate" where
  "clear_value_nodes [] g = ([], g)"
| "clear_value_nodes ((k, v) # ns) g =
     (let (c, g) = (if v \<noteq> GNil then iscleared v g else (False, g));
          e = (if c then (removeentry g k, GNil) else (k, v));
          (ns, g) = clear_value_nodes ns g
      in (e # ns, g))"

definition clear_values_table :: "nat \<Rightarrow> gstate \<Rightarrow> gstate" where
  "clear_values_table h g = (case body g h of
     Some (GTable mt arr nodes) \<Rightarrow>
       let (arr, g) = clear_array arr g; (nodes, g) = clear_value_nodes nodes g in set_body h (GTable mt arr nodes) g
   | _ \<Rightarrow> g)"

text \<open>The list is cleared up to the element that was its head before, if there was one.\<close>

definition clearvalues :: "nat list \<Rightarrow> nat list \<Rightarrow> gstate \<Rightarrow> gstate" where
  "clearvalues l orig g =
     fold clear_values_table (case orig of [] \<Rightarrow> l | f # _ \<Rightarrow> takeWhile (\<lambda>h. h \<noteq> f) l) g"

section \<open>Freeing and sweeping\<close>

definition freeLclosure :: "nat option list \<Rightarrow> gstate \<Rightarrow> gstate" where
  "freeLclosure upvals g = fold (\<lambda>uv g. case uv of Some u \<Rightarrow> luaC_upvdeccount u g | None \<Rightarrow> g) upvals g"

definition luaE_freethread :: "nat \<Rightarrow> gstate \<Rightarrow> gstate" where
  "luaE_freethread th g = luaF_close th 0 g"

definition freeobj :: "nat \<Rightarrow> gstate \<Rightarrow> gstate" where
  "freeobj a g =
     (let g = (case body g a of
                 Some (GLcl p upvals) \<Rightarrow> freeLclosure upvals g
               | Some (GThread st tp ups) \<Rightarrow> luaE_freethread a g
               | _ \<Rightarrow> g)
      in g\<lparr>gs_heap := (gs_heap g)[a := None]\<rparr>)"

text \<open>The loop of \<open>sweeplist\<close> over the objects behind the pointer: those that stay, and the rest of the list.\<close>

fun sweep_objs :: "nat \<Rightarrow> byte \<Rightarrow> byte \<Rightarrow> nat list \<Rightarrow> gstate \<Rightarrow> nat list \<times> nat list \<times> gstate" where
  "sweep_objs 0 ow wh xs g = ([], xs, g)"
| "sweep_objs (Suc count) ow wh [] g = ([], [], g)"
| "sweep_objs (Suc count) ow wh (cur # xs) g =
     (if has_mark (isdeadm ow) g cur then sweep_objs count ow wh xs (freeobj cur g)
      else let (kept, rest, g) = sweep_objs count ow wh xs (set_mark cur (\<lambda>m. m AND maskcolors OR wh) g)
           in (cur # kept, rest, g))"

definition get_list :: "gclist \<Rightarrow> gstate \<Rightarrow> nat list" where
  "get_list l g = (case l of Lallgc \<Rightarrow> gs_allgc g | Lfinobj \<Rightarrow> gs_finobj g | Ltobefnz \<Rightarrow> gs_tobefnz g | Lfixedgc \<Rightarrow> gs_fixedgc g)"

definition set_list :: "gclist \<Rightarrow> nat list \<Rightarrow> gstate \<Rightarrow> gstate" where
  "set_list l xs g = (case l of
     Lallgc \<Rightarrow> g\<lparr>gs_allgc := xs\<rparr> | Lfinobj \<Rightarrow> g\<lparr>gs_finobj := xs\<rparr> | Ltobefnz \<Rightarrow> g\<lparr>gs_tobefnz := xs\<rparr>
   | Lfixedgc \<Rightarrow> g\<lparr>gs_fixedgc := xs\<rparr>)"

text \<open>The list a pointer is in, with the objects before it and behind it.\<close>

definition list_of :: "nat \<Rightarrow> gstate \<Rightarrow> gclist" where
  "list_of a g = (if a \<in> set (gs_allgc g) then Lallgc else if a \<in> set (gs_finobj g) then Lfinobj
     else if a \<in> set (gs_tobefnz g) then Ltobefnz else Lfixedgc)"

definition split_at :: "sweep_ptr \<Rightarrow> gstate \<Rightarrow> gclist \<times> nat list \<times> nat list" where
  "split_at p g = (case p of
     SwHead l \<Rightarrow> (l, [], get_list l g)
   | SwNext a \<Rightarrow>
       let l = list_of a g; xs = get_list l g; n = Suc (length (takeWhile (\<lambda>b. b \<noteq> a) xs))
       in (l, take n xs, drop n xs))"

definition sweeplist :: "sweep_ptr \<Rightarrow> nat \<Rightarrow> gstate \<Rightarrow> sweep_ptr option \<times> gstate" where
  "sweeplist p count g =
     (let (l, pre, post) = split_at p g;
          (kept, rest, g) = sweep_objs count (otherwhite g) (luaC_white g) post g;
          g = set_list l (pre @ kept @ rest) g
      in (if rest = [] then None else Some (if kept = [] then p else SwNext (List.last kept)), g))"

text \<open>The loop of \<open>sweeptolive\<close>: a turn that leaves the pointer alone frees an object of the list.\<close>

fun tolive_loop :: "nat \<Rightarrow> sweep_ptr \<Rightarrow> gstate \<Rightarrow> sweep_ptr option \<times> gstate" where
  "tolive_loop 0 p g = (Some p, g)"
| "tolive_loop (Suc n) p g =
     (let (p', g) = sweeplist p 1 g in if p' = Some p then tolive_loop n p g else (p', g))"

definition sweeptolive :: "sweep_ptr \<Rightarrow> gstate \<Rightarrow> sweep_ptr option \<times> gstate" where
  "sweeptolive p g = tolive_loop (Suc (length (snd (snd (split_at p g))))) p g"

definition entersweep :: "gstate \<Rightarrow> gstate" where
  "entersweep g =
     (let (p, g) = sweeptolive (SwHead Lallgc) (g\<lparr>gs_gcstate := GCSswpallgc\<rparr>) in g\<lparr>gs_sweepgc := p\<rparr>)"

definition GCSWEEPMAX :: nat where "GCSWEEPMAX = 85"

definition sweepstep :: "nat \<Rightarrow> sweep_ptr option \<Rightarrow> gstate \<Rightarrow> gstate" where
  "sweepstep nextstate nextlist g =
     (case gs_sweepgc g of
        None \<Rightarrow> g\<lparr>gs_gcstate := nextstate, gs_sweepgc := nextlist\<rparr>
      | Some p \<Rightarrow>
          let (p, g) = sweeplist p GCSWEEPMAX g; g = g\<lparr>gs_sweepgc := p\<rparr>
          in if p \<noteq> None then g else g\<lparr>gs_gcstate := nextstate, gs_sweepgc := nextlist\<rparr>)"

section \<open>Finalizers\<close>

definition udata2finalize :: "gstate \<Rightarrow> nat \<times> gstate" where
  "udata2finalize g =
     (let ob = hd (gs_tobefnz g);
          g = g\<lparr>gs_tobefnz := tl (gs_tobefnz g), gs_allgc := ob # gs_allgc g\<rparr>;
          g = set_mark ob (\<lambda>m. m AND NOT (bitmask FINALIZEDBIT)) g
      in (ob, if issweepphase g then makewhite ob g else g))"

text \<open>The type tag of an object, for the metatables of the basic types.\<close>

definition metatable_of :: "gstate \<Rightarrow> nat \<Rightarrow> nat option" where
  "metatable_of g a = (case body g a of
     Some (GTable mt arr nodes) \<Rightarrow> mt
   | Some (GUdata mt uv) \<Rightarrow> mt
   | Some b \<Rightarrow>
       let t = (case b of GStr s \<Rightarrow> 4 | GThread st tp ups \<Rightarrow> 8 | _ \<Rightarrow> 6)
       in if t < length (gs_mt g) then gs_mt g ! t else None
   | None \<Rightarrow> None)"

definition luaT_gettmbyobj :: "gstate \<Rightarrow> nat \<Rightarrow> string \<Rightarrow> gval" where
  "luaT_gettmbyobj g a name = gfasttm g (metatable_of g a) name"

definition isfunction :: "gstate \<Rightarrow> gval \<Rightarrow> bool" where
  "isfunction g v = (case v of
     GPlain (LLcf f) \<Rightarrow> True
   | GRef a \<Rightarrow> (case body g a of Some (GLcl p us) \<Rightarrow> True | Some (GCcl vs) \<Rightarrow> True | _ \<Rightarrow> False)
   | _ \<Rightarrow> False)"

type_synonym finalizer = "gval \<Rightarrow> nat \<Rightarrow> gstate \<Rightarrow> bool \<times> gstate"

definition GCTM :: "finalizer \<Rightarrow> bool \<Rightarrow> gstate \<Rightarrow> bool \<times> gstate" where
  "GCTM fin propagateerrors g =
     (let (ob, g) = udata2finalize g; tm = luaT_gettmbyobj g ob ''__gc''
      in if isfunction g tm then let (err, g) = fin tm ob g in (err \<and> propagateerrors, g) else (False, g))"

text \<open>The fuel bounds the number of finalizers; a finalizer that makes the list grow may exhaust any.\<close>

fun finalizers_loop :: "finalizer \<Rightarrow> nat \<Rightarrow> nat \<Rightarrow> gstate \<Rightarrow> (bool \<times> gstate) option" where
  "finalizers_loop fin n i g =
     (if gs_tobefnz g \<noteq> [] \<and> i < gs_gcfinnum g then
        (case n of
           0 \<Rightarrow> None
         | Suc m \<Rightarrow> let (err, g) = GCTM fin True g in if err then Some (True, g) else finalizers_loop fin m (Suc i) g)
      else Some (False, g\<lparr>gs_gcfinnum := (if gs_tobefnz g = [] then 0 else gs_gcfinnum g * 2 mod 2 ^ 32)\<rparr>))"

declare finalizers_loop.simps [simp del]

definition runafewfinalizers :: "finalizer \<Rightarrow> nat \<Rightarrow> gstate \<Rightarrow> (bool \<times> gstate) option" where
  "runafewfinalizers fin n g = finalizers_loop fin n 0 g"

fun callallpendingfinalizers :: "finalizer \<Rightarrow> nat \<Rightarrow> gstate \<Rightarrow> gstate option" where
  "callallpendingfinalizers fin n g =
     (if gs_tobefnz g = [] then Some g
      else (case n of 0 \<Rightarrow> None | Suc m \<Rightarrow> callallpendingfinalizers fin m (snd (GCTM fin False g))))"

declare callallpendingfinalizers.simps [simp del]

definition separatetobefnz :: "bool \<Rightarrow> gstate \<Rightarrow> gstate" where
  "separatetobefnz all g =
     (let m = filter (\<lambda>a. white g a \<or> all) (gs_finobj g)
      in g\<lparr>gs_finobj := filter (\<lambda>a. \<not> (white g a \<or> all)) (gs_finobj g), gs_tobefnz := gs_tobefnz g @ m\<rparr>)"

definition luaC_checkfinalizer :: "nat \<Rightarrow> nat option \<Rightarrow> gstate \<Rightarrow> gstate" where
  "luaC_checkfinalizer a mt g =
     (if has_mark tofinalize g a \<or> gfasttm g mt ''__gc'' = GNil then g
      else
        let g = (if issweepphase g then
                   let g = makewhite a g in
                   if gs_sweepgc g = Some (SwNext a) then
                     let (p, g) = sweeptolive (SwNext a) g in g\<lparr>gs_sweepgc := p\<rparr>
                   else g
                 else g);
            g = g\<lparr>gs_allgc := remove1 a (gs_allgc g), gs_finobj := a # gs_finobj g\<rparr>
        in set_mark a (\<lambda>m. m OR bitmask FINALIZEDBIT) g)"

text \<open>
  The basic type of a value, which indexes the metatables that all values of a type share; \<open>lua_newstate\<close>
  gives \<open>gs_mt\<close> an entry for each of the nine types.
\<close>

definition gval_type :: "gstate \<Rightarrow> gval \<Rightarrow> nat" where
  "gval_type g v = (case v of
     GPlain (LBool _) \<Rightarrow> 1
   | GPlain (LLight _) \<Rightarrow> 2
   | GPlain (LInt _) \<Rightarrow> 3
   | GPlain (LFlt _) \<Rightarrow> 3
   | GPlain (LLcf _) \<Rightarrow> 6
   | GRef a \<Rightarrow>
       (case body g a of
          Some (GStr _) \<Rightarrow> 4
        | Some (GTable _ _ _) \<Rightarrow> 5
        | Some (GLcl _ _) \<Rightarrow> 6
        | Some (GCcl _) \<Rightarrow> 6
        | Some (GUdata _ _) \<Rightarrow> 7
        | Some (GThread _ _ _) \<Rightarrow> 8
        | _ \<Rightarrow> 0)
   | _ \<Rightarrow> 0)"

definition lua_setmetatable :: "gval \<Rightarrow> nat option \<Rightarrow> gstate \<Rightarrow> gstate" where
  "lua_setmetatable v mt g =
     (let after = (\<lambda>a g. case mt of None \<Rightarrow> g | Some m \<Rightarrow> luaC_checkfinalizer a mt (luaC_objbarrier a m g));
          shared = g\<lparr>gs_mt := (gs_mt g)[gval_type g v := mt]\<rparr>
      in case v of
           GRef a \<Rightarrow>
             (case body g a of
                Some (GTable mt' arr nodes) \<Rightarrow> after a (set_body a (GTable mt arr nodes) g)
              | Some (GUdata mt' uv) \<Rightarrow> after a (set_body a (GUdata mt uv) g)
              | _ \<Rightarrow> shared)
         | _ \<Rightarrow> shared)"

section \<open>The state machine\<close>

definition atomic_mark :: "nat \<Rightarrow> gstate \<Rightarrow> gstate" where
  "atomic_mark L g =
     (let grayagain = gs_grayagain g;
          g = g\<lparr>gs_gcstate := GCSinsideatomic\<rparr>;
          g = markobject L g;
          g = markvalue (gs_registry g) g;
          g = markmt g;
          g = remarkupvals g;
          g = propagateall g;
          g = g\<lparr>gs_gray := grayagain\<rparr>;
          g = propagateall g
      in convergeephemerons g)"

definition atomic_clear :: "gstate \<Rightarrow> gstate" where
  "atomic_clear g =
     (let g = clearvalues (gs_weak g) [] g;
          g = clearvalues (gs_allweak g) [] g;
          origweak = gs_weak g; origall = gs_allweak g;
          g = separatetobefnz False g;
          g = g\<lparr>gs_gcfinnum := 1\<rparr>;
          g = markbeingfnz g;
          g = propagateall g;
          g = convergeephemerons g;
          g = clearkeys (gs_ephemeron g) g;
          g = clearkeys (gs_allweak g) g;
          g = clearvalues (gs_weak g) origweak g
      in clearvalues (gs_allweak g) origall g)"

text \<open>\<open>L\<close> is the running thread; the cache of strings, which is cleared too, is in the theory of strings.\<close>

definition atomic :: "nat \<Rightarrow> gstate \<Rightarrow> gstate" where
  "atomic L g = (let g = atomic_clear (atomic_mark L g) in g\<lparr>gs_currentwhite := otherwhite g\<rparr>)"

text \<open>One step; \<open>True\<close> if a finalizer raised an error.\<close>

definition singlestep :: "finalizer \<Rightarrow> nat \<Rightarrow> nat \<Rightarrow> gstate \<Rightarrow> (bool \<times> gstate) option" where
  "singlestep fin n L g =
     (if gs_gcstate g = GCSpause then Some (False, (restartcollection g)\<lparr>gs_gcstate := GCSpropagate\<rparr>)
      else if gs_gcstate g = GCSpropagate then
        let g = propagatemark g in Some (False, if gs_gray g = [] then g\<lparr>gs_gcstate := GCSatomic\<rparr> else g)
      else if gs_gcstate g = GCSatomic then Some (False, entersweep (atomic L (propagateall g)))
      else if gs_gcstate g = GCSswpallgc then Some (False, sweepstep GCSswpfinobj (Some (SwHead Lfinobj)) g)
      else if gs_gcstate g = GCSswpfinobj then Some (False, sweepstep GCSswptobefnz (Some (SwHead Ltobefnz)) g)
      else if gs_gcstate g = GCSswptobefnz then Some (False, sweepstep GCSswpend None g)
      else if gs_gcstate g = GCSswpend then
        Some (False, (makewhite (gs_mainthread g) g)\<lparr>gs_gcstate := GCScallfin\<rparr>)
      else if gs_gcstate g = GCScallfin then
        (if gs_tobefnz g \<noteq> [] \<and> \<not> gs_emergency g then runafewfinalizers fin n g
         else Some (False, g\<lparr>gs_gcstate := GCSpause\<rparr>))
      else Some (False, g))"

text \<open>The set of states that end the run is a set of bits in the code.\<close>

fun luaC_runtilstate :: "finalizer \<Rightarrow> nat \<Rightarrow> nat \<Rightarrow> nat \<Rightarrow> (nat \<Rightarrow> bool) \<Rightarrow> gstate \<Rightarrow> (bool \<times> gstate) option" where
  "luaC_runtilstate fin n L fuel stop g =
     (if stop (gs_gcstate g) then Some (False, g)
      else (case fuel of
          0 \<Rightarrow> None
        | Suc m \<Rightarrow> (case singlestep fin n L g of
              None \<Rightarrow> None
            | Some (err, g) \<Rightarrow> if err then Some (True, g) else luaC_runtilstate fin n L m stop g)))"

declare luaC_runtilstate.simps [simp del]

text \<open>
  A step makes single steps while there is a debt, which the counts of memory decide: \<open>todo\<close> of
  them here, or fewer if the collection ends.
\<close>

fun step_loop :: "finalizer \<Rightarrow> nat \<Rightarrow> nat \<Rightarrow> nat \<Rightarrow> gstate \<Rightarrow> (bool \<times> gstate) option" where
  "step_loop fin n L 0 g = Some (False, g)"
| "step_loop fin n L (Suc todo) g =
     (case singlestep fin n L g of
        None \<Rightarrow> None
      | Some (err, g) \<Rightarrow>
          if err then Some (True, g) else if gs_gcstate g = GCSpause then Some (False, g) else step_loop fin n L todo g)"

definition luaC_step :: "finalizer \<Rightarrow> nat \<Rightarrow> nat \<Rightarrow> nat \<Rightarrow> bool \<Rightarrow> gstate \<Rightarrow> (bool \<times> gstate) option" where
  "luaC_step fin n L todo gcrunning g =
     (if \<not> gcrunning then Some (False, g)
      else (case step_loop fin n L (Suc todo) g of
          None \<Rightarrow> None
        | Some (err, g) \<Rightarrow>
            if err then Some (True, g) else if gs_gcstate g = GCSpause then Some (False, g) else runafewfinalizers fin n g))"

definition andthen :: "(bool \<times> gstate) option \<Rightarrow> (gstate \<Rightarrow> (bool \<times> gstate) option) \<Rightarrow> (bool \<times> gstate) option" where
  "andthen r f = (case r of None \<Rightarrow> None | Some (err, g) \<Rightarrow> if err then Some (True, g) else f g)"

definition luaC_fullgc :: "finalizer \<Rightarrow> nat \<Rightarrow> nat \<Rightarrow> nat \<Rightarrow> bool \<Rightarrow> gstate \<Rightarrow> (bool \<times> gstate) option" where
  "luaC_fullgc fin n L fuel isemergency g =
     (let g = (if isemergency then g\<lparr>gs_emergency := True\<rparr> else g);
          g = (if keepinvariant g then entersweep g else g)
      in andthen (luaC_runtilstate fin n L fuel (\<lambda>s. s = GCSpause) g) (\<lambda>g.
         andthen (luaC_runtilstate fin n L fuel (\<lambda>s. s \<noteq> GCSpause) g) (\<lambda>g.
         andthen (luaC_runtilstate fin n L fuel (\<lambda>s. s = GCScallfin) g) (\<lambda>g.
         andthen (luaC_runtilstate fin n L fuel (\<lambda>s. s = GCSpause) g) (\<lambda>g.
         Some (False, g\<lparr>gs_emergency := False\<rparr>))))))"

definition sweepwholelist :: "gclist \<Rightarrow> gstate \<Rightarrow> gstate" where
  "sweepwholelist l g = snd (sweeplist (SwHead l) (length (get_list l g)) g)"

definition luaC_freeallobjects :: "finalizer \<Rightarrow> nat \<Rightarrow> gstate \<Rightarrow> gstate option" where
  "luaC_freeallobjects fin n g =
     (case callallpendingfinalizers fin n (separatetobefnz True g) of
        None \<Rightarrow> None
      | Some g \<Rightarrow> Some (sweepwholelist Lfixedgc (sweepwholelist Lallgc (sweepwholelist Lfinobj
          (g\<lparr>gs_currentwhite := WHITEBITS, gs_emergency := False\<rparr>)))))"

end
