(* ===== verification/Lua_Gc_Inv.thy ===== *)
theory Lua_Gc_Inv
  imports Lua_Gc_Cycle
begin

text \<open>
  The invariants of the mark phase.  \<open>tricolour ph S g\<close>: every marked object that is not still to be
  visited (\<open>S\<close>) is done.  \<open>linked X g\<close>: the lists linked through \<open>gclist\<close> share no object, and hold
  marked objects only; \<open>X\<close> is the list that is waiting, \<open>grayagain\<close> or what is left of it.  Then what
  the two loops of the mark phase establish.
\<close>

section \<open>Invariants\<close>

definition tricolour :: "bool \<Rightarrow> nat set \<Rightarrow> gstate \<Rightarrow> bool" where
  "tricolour ph S g \<longleftrightarrow> (\<forall>a. obj g a \<noteq> None \<and> \<not> white g a \<and> a \<notin> S \<longrightarrow> done_ok ph g a)"

definition all_lists :: "nat list \<Rightarrow> gstate \<Rightarrow> nat list" where
  "all_lists X g = gs_gray g @ X @ gs_weak g @ gs_ephemeron g @ gs_allweak g"

definition linked :: "nat list \<Rightarrow> gstate \<Rightarrow> bool" where
  "linked X g \<longleftrightarrow> distinct (all_lists X g) \<and> (\<forall>a \<in> set (all_lists X g). \<not> white g a \<and> container g a)"

definition twups_marked :: "gstate \<Rightarrow> bool" where
  "twups_marked g \<longleftrightarrow> (\<forall>th \<in> set (gs_twups g). \<not> white g th)"

lemma trav_all_ok: "trav a g g' \<Longrightarrow> body g' b = body g b \<Longrightarrow> all_ok ph g b \<Longrightarrow> all_ok ph g' b"
proof -
  assume t: "trav a g g'" and b: "body g' b = body g b" and o: "all_ok ph g b"
  have v: "valiswhite g' v \<Longrightarrow> valiswhite g v" for v using trav_okv [OF t] by blast
  show "all_ok ph g' b"
  proof (cases "body g b")
    case (Some c)
    then have "body_ok ph g c" using o by (simp add: all_ok_def)
    then have "body_ok ph g' c"
      by (cases c) (auto intro: trav_oko [OF t] trav_uvok [OF t] dest: v split: option.splits)
    then show ?thesis using b Some by (simp add: all_ok_def)
  qed (use b in \<open>simp add: all_ok_def\<close>)
qed

lemma trav_done_ok:
  assumes t: "trav a g g'" and b: "b \<noteq> a" and d: "done_ok ph g b"
  shows "done_ok ph g' b"
proof -
  have e: "body g' b = body g b" using travD(7) [OF t b] .
  have l: "set (gs_weak g) \<subseteq> set (gs_weak g')" "set (gs_allweak g) \<subseteq> set (gs_allweak g')"
    "set (gs_ephemeron g) \<subseteq> set (gs_ephemeron g')" using travD(3) [OF t] by (simp_all add: lists_ext_def)
  have "wk_ok g b \<Longrightarrow> wk_ok g' b" "mt_ok g b \<Longrightarrow> mt_ok g' b" "eph_ok g b \<Longrightarrow> eph_ok g' b"
    unfolding wk_ok_def mt_ok_def eph_ok_def e using trav_okv [OF t] trav_oko [OF t]
    by (auto split: option.splits gbody.splits)
  then show ?thesis using d l trav_all_ok [OF t e] unfolding done_ok_def by blast
qed

lemma leaf_all_ok: "leaf_ok g b \<Longrightarrow> all_ok ph g b"
  by (auto simp: leaf_ok_def all_ok_def split: option.splits gbody.splits)

lemma tricolour_trav:
  assumes t: "trav a g g'" and J: "tricolour ph S g" and a: "a \<in> S' \<or> done_ok ph g' a \<or> obj g a = None"
    and S: "S - {a} \<subseteq> S'" "set (gs_gray g') \<subseteq> S'"
  shows "tricolour ph S' g'"
  unfolding tricolour_def
proof (intro allI impI)
  fix b
  assume b: "obj g' b \<noteq> None \<and> \<not> white g' b \<and> b \<notin> S'"
  show "done_ok ph g' b"
  proof (cases "b = a")
    case True
    then show ?thesis using a b travD(5) [OF t, of a] by auto
  next
    case ne: False
    show ?thesis
    proof (cases "white g b")
      case True
      then have "leaf_ok g' b" using travD(9) [OF t ne True] b S(2) by blast
      then show ?thesis using leaf_all_ok by (simp add: done_ok_def)
    next
      case False
      then have "done_ok ph g b" using J b S(1) ne travD(5) [OF t, of b] unfolding tricolour_def by auto
      then show ?thesis by (rule trav_done_ok [OF t ne])
    qed
  qed
qed

lemma tricolour_mono: "tricolour ph S g \<Longrightarrow> S \<subseteq> S' \<Longrightarrow> tricolour ph S' g"
  by (auto simp: tricolour_def)

text \<open>A marking step, as a traversal of no object.\<close>

lemma tricolour_mk:
  assumes m: "mk g g'" and J: "tricolour ph (set (gs_gray g) \<union> X) g"
  shows "tricolour ph (set (gs_gray g') \<union> X) g'"
proof (rule tricolour_trav [OF trav_mk [OF m, of "length (gs_heap g)"] J])
  show "length (gs_heap g) \<in> set (gs_gray g') \<union> X \<or> done_ok ph g' (length (gs_heap g)) \<or> obj g (length (gs_heap g)) = None"
    by (simp add: obj_def)
qed (use mkD(7) [OF m] in auto)

lemma linked_step:
  assumes t: "trav a g g'" and p: "pushed a g g'" and l: "linked X g" and a: "a \<notin> set (all_lists X g)" "\<not> white g a" "container g a"
  shows "linked X g'"
proof -
  obtain ns where ns: "gs_gray g' = ns @ gs_gray g" "distinct ns" "\<forall>b \<in> set ns. white g b \<and> \<not> white g' b \<and> container g b"
    using travD(12) [OF t] unfolding gray_ext_def by blast
  have o: "\<not> white g' b \<and> container g' b" if "\<not> white g b" "container g b" for b
    using that travD(6) [OF t] gshape_container [OF travD(13) [OF t]] by blast
  have n: "set ns \<inter> set (all_lists X g) = {}" "a \<notin> set ns" using ns(3) l a(2) unfolding linked_def by blast+
  have nsok: "\<forall>b \<in> set ns. \<not> white g' b \<and> container g' b" using ns(3) gshape_container [OF travD(13) [OF t]] by blast
  have old: "\<forall>b \<in> set (all_lists X g). \<not> white g' b \<and> container g' b" using l o unfolding linked_def by blast
  have ao: "\<not> white g' a \<and> container g' a" using o a by blast
  have d: "distinct (all_lists X g)" using l unfolding linked_def by blast
  have lists: "set (all_lists X g') \<subseteq> insert a (set ns \<union> set (all_lists X g)) \<and> distinct (all_lists X g')"
    using p unfolding pushed_def wlists_def
    by (elim disjE) (use ns(1,2) n a(1) d in \<open>auto simp: all_lists_def\<close>)
  then show ?thesis unfolding linked_def using nsok old ao by blast
qed

lemma pushed_grayagain:
  "pushed a g g' \<Longrightarrow> gs_grayagain g' = gs_grayagain g \<or> gs_grayagain g' = a # gs_grayagain g \<and>
     gs_weak g' = gs_weak g \<and> gs_ephemeron g' = gs_ephemeron g \<and> gs_allweak g' = gs_allweak g"
  by (auto simp: pushed_def wlists_def)

text \<open>In the propagate phase the list that waits is \<open>grayagain\<close>, which grows.\<close>

lemma linked_grayagain:
  assumes t: "trav a g g'" and p: "pushed a g g'" and l: "linked (gs_grayagain g) g"
    and a: "a \<notin> set (all_lists (gs_grayagain g) g)" "\<not> white g a" "container g a"
  shows "linked (gs_grayagain g') g'"
proof (cases "gs_grayagain g' = gs_grayagain g")
  case True
  then show ?thesis using linked_step [OF t p l a] by simp
next
  case False
  then have g: "gs_grayagain g' = a # gs_grayagain g" "gs_weak g' = gs_weak g" "gs_ephemeron g' = gs_ephemeron g"
    "gs_allweak g' = gs_allweak g" using pushed_grayagain [OF p] by blast+
  have l': "linked (gs_grayagain g) g'" using linked_step [OF t p l a] .
  obtain ns where ns: "gs_gray g' = ns @ gs_gray g" "\<forall>b \<in> set ns. white g b"
    using travD(12) [OF t] unfolding gray_ext_def by blast
  have "a \<notin> set (all_lists (gs_grayagain g) g')" using a ns g unfolding all_lists_def by auto
  moreover have "\<not> white g' a \<and> container g' a"
    using a travD(6) [OF t] gshape_container [OF travD(13) [OF t]] by blast
  ultimately show ?thesis using l' g unfolding linked_def all_lists_def by auto
qed

section \<open>What marking and traversal leave alone\<close>

definition ups_same :: "gstate \<Rightarrow> gstate \<Rightarrow> bool" where
  "ups_same g g' \<longleftrightarrow> (\<forall>u. map_option (\<lambda>x. x\<lparr>uv_touched := False\<rparr>) (upv g' u) = map_option (\<lambda>x. x\<lparr>uv_touched := False\<rparr>) (upv g u))"

lemma ups_ext_ups_same: "ups_ext g g' \<Longrightarrow> ups_same g g'"
  unfolding ups_same_def
proof
  fix u
  assume "ups_ext g g'"
  then have "upv g' u = upv g u \<or> (\<exists>x. upv g u = Some x \<and> upv g' u = Some (x\<lparr>uv_touched := True\<rparr>))"
    by (simp add: ups_ext_def)
  then show "map_option (\<lambda>x. x\<lparr>uv_touched := False\<rparr>) (upv g' u) = map_option (\<lambda>x. x\<lparr>uv_touched := False\<rparr>) (upv g u)"
    by auto
qed

definition ext :: "gstate \<Rightarrow> gstate \<Rightarrow> bool" where
  "ext g g' \<longleftrightarrow> same_roots g g' \<and> ups_same g g' \<and> (\<forall>b. obj g' b = None \<longleftrightarrow> obj g b = None) \<and>
     (\<forall>b. white g' b \<longrightarrow> white g b \<and> (\<forall>P. has_mark P g' b = has_mark P g b)) \<and> (\<forall>b. gshape g' b = gshape g b) \<and>
     (\<exists>n. gs_weak g' = n @ gs_weak g) \<and> (\<exists>n. gs_allweak g' = n @ gs_allweak g)"

lemma ext_refl [simp]: "ext g g"
  by (auto simp: ext_def ups_same_def)

lemma ext_trans:
  assumes "ext g1 g2" and "ext g2 g3"
  shows "ext g1 g3"
proof -
  note a = assms [unfolded ext_def]
  have "same_roots g1 g3" using a by (simp add: same_roots_def)
  moreover have "ups_same g1 g3" using a by (simp add: ups_same_def)
  moreover have "\<exists>n. gs_weak g3 = n @ gs_weak g1" "\<exists>n. gs_allweak g3 = n @ gs_allweak g1" using a by (metis append.assoc)+
  ultimately show ?thesis unfolding ext_def using a by metis
qed

lemma trav_white_mark:
  assumes "trav a g g'" and "\<not> white g a" and "white g' b"
  shows "white g b \<and> has_mark P g' b = has_mark P g b"
proof -
  have w: "white g b" using travD(6) [OF assms(1,3)] .
  then have "b \<noteq> a" using assms(2) by blast
  then show ?thesis using w has_mark_cong travD(8) [OF assms(1)] assms(3) by blast
qed

lemma ext_trav:
  assumes t: "trav a g g'" and p: "pushed a g g'" and a: "\<not> white g a"
  shows "ext g g'"
proof -
  have "(\<exists>n. gs_weak g' = n @ gs_weak g) \<and> (\<exists>n. gs_allweak g' = n @ gs_allweak g)"
    using p unfolding pushed_def wlists_def by auto
  then show ?thesis
    unfolding ext_def using travD(1,5,13) [OF t] ups_ext_ups_same [OF travD(2) [OF t]] trav_white_mark [OF t a] by blast
qed

lemma ext_mk: "mk g g' \<Longrightarrow> ext g g'"
  using ext_trav [OF trav_mk [of g g' "length (gs_heap g)"] pushed_same [OF wlists_mk]] white_less by blast

lemma pop_gray_rest: "same_rest g (pop_gray a rest g)"
  by (simp add: same_rest_def pop_gray_def set_mark_def)

lemma pop_gray_ext:
  assumes "gs_gray g = a # rest" and "\<not> white g a"
  shows "ext g (pop_gray a rest g)"
proof -
  note f = same_rest_fields [OF pop_gray_rest]
  have "has_mark P (pop_gray a rest g) b = has_mark P g b" if "white g b" for P b
    using that assms(2) by (auto simp: pop_gray_def has_mark_set_mark)
  moreover have "obj (pop_gray a rest g) b = None \<longleftrightarrow> obj g b = None" for b
    by (simp add: pop_gray_def obj_set_mark)
  ultimately show ?thesis
    unfolding ext_def using f by (simp add: same_roots_def ups_ext_ups_same ups_ext_same gshape_def)
qed

section \<open>The loop that empties the gray list\<close>

lemma ok_cong:
  assumes "\<And>b. white g' b = white g b" "\<And>b. body g' b = body g b" "gs_upvals g' = gs_upvals g"
  shows "all_ok ph g' b = all_ok ph g b" "wk_ok g' b = wk_ok g b" "mt_ok g' b = mt_ok g b" "eph_ok g' b = eph_ok g b"
proof -
  have v: "valiswhite g' = valiswhite g" using assms(1) okv_cong by blast
  have t: "oko g' = oko g" using assms(1) oko_cong by blast
  have u: "uv_v g' = uv_v g" using uv_v_cong [of g' g, OF assms(2)] by blast
  have uv: "uvok ph g' x = uvok ph g x" for x
    by (simp add: uvok_def v u assms(1) upv_cong [OF assms(3)] split: option.split)
  have "body_ok ph g' c = body_ok ph g c" for c
    by (cases c) (simp_all add: v t uv split: option.split)
  then have b: "body_ok ph g' = body_ok ph g" by blast
  show "all_ok ph g' b = all_ok ph g b" "wk_ok g' b = wk_ok g b" "mt_ok g' b = mt_ok g b" "eph_ok g' b = eph_ok g b"
    unfolding all_ok_def wk_ok_def mt_ok_def eph_ok_def assms(2) v t b by (rule refl)+
qed

lemma done_ok_cong:
  assumes "\<And>b. white g' b = white g b" "\<And>b. body g' b = body g b" "gs_upvals g' = gs_upvals g"
    "gs_weak g' = gs_weak g" "gs_allweak g' = gs_allweak g" "gs_ephemeron g' = gs_ephemeron g"
  shows "done_ok ph g' b = done_ok ph g b"
  unfolding done_ok_def assms(4-6) ok_cong [of g' g, OF assms(1-3)] ..

lemma tricolour_cong:
  assumes "\<And>b. white g' b = white g b" "\<And>b. body g' b = body g b" "gs_upvals g' = gs_upvals g"
    "gs_weak g' = gs_weak g" "gs_allweak g' = gs_allweak g" "gs_ephemeron g' = gs_ephemeron g"
  shows "tricolour ph S g' = tricolour ph S g"
  using done_ok_cong [OF assms, of ph] obj_body assms(1,2) unfolding tricolour_def by metis

lemma tricolour_pop: "tricolour ph S (pop_gray a rest g) = tricolour ph S g"
  using same_rest_fields [OF pop_gray_rest] by (intro tricolour_cong) simp_all

lemma pop_gray_lists [simp]:
  "gs_weak (pop_gray a rest g) = gs_weak g" "gs_allweak (pop_gray a rest g) = gs_allweak g"
  "gs_ephemeron (pop_gray a rest g) = gs_ephemeron g" "gs_twups (pop_gray a rest g) = gs_twups g"
  using same_rest_fields [OF pop_gray_rest] by simp_all

lemma linked_pop:
  assumes "linked X g" and "gs_gray g = a # rest"
  shows "linked X (pop_gray a rest g)" "a \<notin> set (all_lists X (pop_gray a rest g))" "\<not> white g a" "container g a"
  using assms by (auto simp: linked_def all_lists_def)

lemma pushed_pop: "gs_gray g = a # rest \<Longrightarrow> pushed a (pop_gray a rest g) (propagatemark g)"
  using propagatemark_pushed [of g a rest] by (simp add: pushed_def wlists_def)

text \<open>The invariant of the propagate phase.\<close>

definition prop_inv :: "gstate \<Rightarrow> bool" where
  "prop_inv g \<longleftrightarrow> gs_gcstate g \<noteq> GCSinsideatomic \<and> linked (gs_grayagain g) g \<and>
     tricolour False (set (gs_gray g) \<union> set (gs_grayagain g)) g"

lemma propagatemark_prop_inv:
  assumes i: "prop_inv g" and g: "gs_gray g = a # rest"
  shows "prop_inv (propagatemark g)" "ext g (propagatemark g)"
proof -
  let ?g1 = "pop_gray a rest g" and ?g = "propagatemark g"
  have l: "linked (gs_grayagain g) g" using i by (simp add: prop_inv_def)
  note p = linked_pop [OF l g]
  note t = propagatemark_trav(1) [OF g]
  have v: "visited False a ?g" using propagatemark_trav(2) [OF g p(4)] i by (simp add: prop_inv_def)
  have s: "gs_gcstate ?g = gs_gcstate g" using trav_state [OF t] by simp
  have "linked (gs_grayagain ?g) ?g"
    using linked_grayagain [OF t pushed_pop [OF g]] p by simp
  moreover have "tricolour False (set (gs_gray ?g) \<union> set (gs_grayagain ?g)) ?g"
  proof (rule tricolour_trav [OF t])
    show "tricolour False (set (gs_gray g) \<union> set (gs_grayagain g)) ?g1" using i by (simp add: prop_inv_def tricolour_pop)
    show "a \<in> set (gs_gray ?g) \<union> set (gs_grayagain ?g) \<or> done_ok False ?g a \<or> obj ?g1 a = None"
      using v unfolding visited_def by blast
    show "set (gs_gray g) \<union> set (gs_grayagain g) - {a} \<subseteq> set (gs_gray ?g) \<union> set (gs_grayagain ?g)"
      using travD(3) [OF t] g unfolding lists_ext_def by auto
  qed auto
  ultimately show "prop_inv ?g" using i s by (simp add: prop_inv_def)
  show "ext g ?g" using ext_trans [OF pop_gray_ext [OF g p(3)] ext_trav [OF t pushed_pop [OF g]]] p(3) by simp
qed

lemma propagateall_Nil: "gs_gray g = [] \<Longrightarrow> propagateall g = g"
  by (subst propagateall.simps) simp

lemma propagateall_prop_inv:
  "prop_inv g \<Longrightarrow> prop_inv (propagateall g) \<and> ext g (propagateall g) \<and> gs_gray (propagateall g) = []"
proof (induction g rule: propagateall.induct)
  case (1 g)
  show ?case
  proof (cases "gs_gray g")
    case Nil
    then show ?thesis using "1.prems" by (simp add: propagateall_Nil)
  next
    case (Cons a rest)
    note s = propagatemark_prop_inv [OF "1.prems" Cons]
    have e: "propagateall g = propagateall (propagatemark g)" using Cons by (simp add: propagateall.simps [of g])
    have "gs_gray g \<noteq> []" using Cons by simp
    note h = "1.IH" [OF this s(1)]
    show ?thesis unfolding e using h ext_trans [OF s(2) conjunct1 [OF conjunct2 [OF h]]] by simp
  qed
qed

text \<open>The invariant of the atomic step, once the upvalues have been remarked.\<close>

definition at_inv :: "nat list \<Rightarrow> gstate \<Rightarrow> bool" where
  "at_inv X g \<longleftrightarrow> gs_gcstate g = GCSinsideatomic \<and> linked X g \<and> tricolour True (set (gs_gray g) \<union> set X) g \<and> twups_marked g"

lemma twups_trav: "trav a g g' \<Longrightarrow> \<not> white g a \<Longrightarrow> twups_marked g \<Longrightarrow> twups_marked g'"
  using travD(6,14) unfolding twups_marked_def by blast

lemma propagatemark_at_inv:
  assumes i: "at_inv X g" and g: "gs_gray g = a # rest"
  shows "at_inv X (propagatemark g)" "ext g (propagatemark g)"
proof -
  let ?g1 = "pop_gray a rest g" and ?g = "propagatemark g"
  have l: "linked X g" using i by (simp add: at_inv_def)
  note p = linked_pop [OF l g]
  note t = propagatemark_trav(1) [OF g]
  have v: "done_ok True ?g a" using propagatemark_trav(2) [OF g p(4)] i by (simp add: at_inv_def visited_def)
  have s: "gs_gcstate ?g = gs_gcstate g" using trav_state [OF t] by simp
  have "linked X ?g"
    using linked_step [OF t pushed_pop [OF g]] p by simp
  moreover have "tricolour True (set (gs_gray ?g) \<union> set X) ?g"
  proof (rule tricolour_trav [OF t])
    show "tricolour True (set (gs_gray g) \<union> set X) ?g1" using i by (simp add: at_inv_def tricolour_pop)
    show "a \<in> set (gs_gray ?g) \<union> set X \<or> done_ok True ?g a \<or> obj ?g1 a = None" using v by blast
    show "set (gs_gray g) \<union> set X - {a} \<subseteq> set (gs_gray ?g) \<union> set X"
      using travD(3) [OF t] g unfolding lists_ext_def by auto
  qed auto
  moreover have "twups_marked ?g1" using i by (simp add: at_inv_def twups_marked_def)
  then have "twups_marked ?g" using twups_trav [OF t] p(3) by simp
  ultimately show "at_inv X ?g" using i s by (simp add: at_inv_def)
  show "ext g ?g" using ext_trans [OF pop_gray_ext [OF g p(3)] ext_trav [OF t pushed_pop [OF g]]] p(3) by simp
qed

lemma propagateall_at_inv:
  "at_inv X g \<Longrightarrow> at_inv X (propagateall g) \<and> ext g (propagateall g) \<and> gs_gray (propagateall g) = []"
proof (induction g rule: propagateall.induct)
  case (1 g)
  show ?case
  proof (cases "gs_gray g")
    case Nil
    then show ?thesis using "1.prems" by (simp add: propagateall_Nil)
  next
    case (Cons a rest)
    note s = propagatemark_at_inv [OF "1.prems" Cons]
    have e: "propagateall g = propagateall (propagatemark g)" using Cons by (simp add: propagateall.simps [of g])
    have "gs_gray g \<noteq> []" using Cons by simp
    note h = "1.IH" [OF this s(1)]
    show ?thesis unfolding e using h ext_trans [OF s(2) conjunct1 [OF conjunct2 [OF h]]] by simp
  qed
qed

section \<open>The loop over the ephemeron tables\<close>

text \<open>One turn: the table is done, and if it reports no change, only strings have been marked.\<close>

definition only_strings :: "gstate \<Rightarrow> gstate \<Rightarrow> bool" where
  "only_strings g g' \<longleftrightarrow> (\<forall>b. white g' b \<longrightarrow> white g b) \<and> (\<forall>b. white g b \<and> \<not> white g' b \<longrightarrow> isstring g b) \<and>
     (\<forall>b. isstring g' b = isstring g b)"

lemma isstring_gshape: "gshape g' b = gshape g b \<Longrightarrow> isstring g' b = isstring g b"
proof -
  have "isstring g b \<longleftrightarrow> (case gshape g b of Some (GStr s) \<Rightarrow> True | _ \<Rightarrow> False)" for g b
    by (auto simp: isstring_def gshape_def split: option.split gbody.split)
  then show "gshape g' b = gshape g b \<Longrightarrow> isstring g' b = isstring g b" by simp
qed

lemma only_strings_trans: "only_strings g1 g2 \<Longrightarrow> only_strings g2 g3 \<Longrightarrow> only_strings g1 g3"
  unfolding only_strings_def by metis

lemma conv_only_strings: "only_strings g g' \<Longrightarrow> conv g e \<Longrightarrow> conv g' e"
proof -
  assume s: "only_strings g g'" and c: "conv g e"
  have "okv g' v" if "okv g v" for v using that s okv_mono unfolding only_strings_def by blast
  moreover have "valiswhite g' (fst e) \<and> (\<forall>a. fst e = GRef a \<longrightarrow> \<not> isstring g' a)"
    if "valiswhite g (fst e)" "\<forall>a. fst e = GRef a \<longrightarrow> \<not> isstring g a"
    using that s unfolding only_strings_def valiswhite_def by (auto split: gval.splits)
  ultimately show ?thesis using c unfolding conv_def by blast
qed

lemma traverseephemeron_at_inv:
  assumes i: "at_inv (w # ws) g" and g: "gs_gray g = []" and w: "all_ok True g w \<or> mt_ok g w"
    and r: "traverseephemeron w g = (m, g')"
  shows "at_inv ws g'" "ext g g'" "\<not> m \<Longrightarrow> gs_gray g' = [] \<and> conv_table g' w \<and> only_strings g g'"
    "trav w g g'" "pushed w g g'"
proof -
  have l: "linked (w # ws) g" "linked ws g" using i by (auto simp: at_inv_def linked_def all_lists_def)
  have a: "w \<notin> set (all_lists ws g)" "\<not> white g w" "container g w" using l(1) by (auto simp: linked_def all_lists_def)
  have "trav w g g' \<and> pushed w g g' \<and> done_ok True g' w \<and>
      (\<not> m \<longrightarrow> conv_table g' w \<and> (\<forall>b. white g b \<and> \<not> white g' b \<longrightarrow> isstring g b))"
  proof (cases "\<exists>mt arr nodes. body g w = Some (GTable mt arr nodes)")
    case True
    then obtain mt arr nodes where b: "body g w = Some (GTable mt arr nodes)" by blast
    then have r': "traverseephemeron_body w mt arr nodes g = (m, g')" using r by (simp add: traverseephemeron_def)
    have mt: "oko g mt" using w b by (auto simp: all_ok_def mt_ok_def)
    show ?thesis
      using traverseephemeron_trav [OF b mt _ r', of True] traverseephemeron_pushed(1) [OF r'] i
      by (simp add: at_inv_def gc_states visited_def)
  next
    case False
    then have "m = False" "g' = g" using r by (auto simp: traverseephemeron_def split: option.splits gbody.splits)
    moreover have "all_ok True g w" "conv_table g w"
      using w False by (auto simp: mt_ok_def conv_table_def split: option.splits gbody.splits)
    ultimately show ?thesis using trav_refl pushed_same by (simp add: done_ok_def)
  qed
  then have t: "trav w g g'" and p: "pushed w g g'" and d: "done_ok True g' w"
    and c: "\<not> m \<Longrightarrow> conv_table g' w \<and> (\<forall>b. white g b \<and> \<not> white g' b \<longrightarrow> isstring g b)" by blast+
  show "trav w g g'" "pushed w g g'" "ext g g'" using t p ext_trav [OF t p a(2)] by blast+
  have "tricolour True (set (gs_gray g') \<union> set ws) g'"
  proof (rule tricolour_trav [OF t])
    show "tricolour True (set (gs_gray g) \<union> set (w # ws)) g" using i by (simp add: at_inv_def)
    show "set (gs_gray g) \<union> set (w # ws) - {w} \<subseteq> set (gs_gray g') \<union> set ws" using g by auto
  qed (use d in auto)
  then show "at_inv ws g'"
    using i linked_step [OF t p l(2) a] twups_trav [OF t a(2)] trav_state [OF t] by (simp add: at_inv_def)
  show "\<not> m \<Longrightarrow> gs_gray g' = [] \<and> conv_table g' w \<and> only_strings g g'"
  proof -
    assume m: "\<not> m"
    obtain ns where ns: "gs_gray g' = ns @ gs_gray g" "\<forall>b \<in> set ns. white g b \<and> \<not> white g' b \<and> container g b"
      using travD(12) [OF t] unfolding gray_ext_def by blast
    have "\<not> (isstring g b \<and> container g b)" for b
      by (auto simp: isstring_def container_def split: option.splits gbody.splits)
    then have "b \<notin> set ns" for b using ns(2) c [OF m] by blast
    then have "ns = []" by (cases ns) auto
    moreover have "only_strings g g'"
      unfolding only_strings_def using c [OF m] travD(6) [OF t] isstring_gshape [OF travD(13) [OF t]] by blast
    ultimately show ?thesis using ns(1) g c [OF m] by simp
  qed
qed

text \<open>The tables that wait are not visited meanwhile.\<close>

definition waiting_ok :: "nat list \<Rightarrow> gstate \<Rightarrow> bool" where
  "waiting_ok X g \<longleftrightarrow> (\<forall>w \<in> set X. all_ok True g w \<or> mt_ok g w)"

lemma waiting_ok_trav:
  assumes t: "trav a g g'" and a: "a \<notin> set X" and w: "waiting_ok X g"
  shows "waiting_ok X g'"
  unfolding waiting_ok_def
proof
  fix b
  assume b: "b \<in> set X"
  have "b \<noteq> a" using a b by blast
  then have e: "body g' b = body g b" by (rule travD(7) [OF t])
  have "mt_ok g b \<Longrightarrow> mt_ok g' b"
    unfolding mt_ok_def e using trav_oko [OF t] by (auto split: option.splits gbody.splits)
  then show "all_ok True g' b \<or> mt_ok g' b" using w b trav_all_ok [OF t e] unfolding waiting_ok_def by blast
qed

lemma waiting_ok_cong:
  assumes "\<And>b. white g' b = white g b" "\<And>b. body g' b = body g b" "gs_upvals g' = gs_upvals g"
  shows "waiting_ok X g' = waiting_ok X g"
  unfolding waiting_ok_def ok_cong [of g' g, OF assms] ..

lemma propagateall_waiting: "at_inv X g \<Longrightarrow> waiting_ok X g \<Longrightarrow> waiting_ok X (propagateall g)"
proof (induction g rule: propagateall.induct)
  case (1 g)
  show ?case
  proof (cases "gs_gray g")
    case Nil
    then show ?thesis using "1.prems" by (simp add: propagateall_Nil)
  next
    case (Cons a rest)
    have "linked X g" using "1.prems"(1) by (simp add: at_inv_def)
    then have a: "a \<notin> set X" using Cons by (auto simp: linked_def all_lists_def)
    have "waiting_ok X (pop_gray a rest g)"
      using waiting_ok_cong [of "pop_gray a rest g" g] same_rest_fields(1) [OF pop_gray_rest] "1.prems"(2) by simp
    then have w: "waiting_ok X (propagatemark g)" using waiting_ok_trav [OF propagatemark_trav(1) [OF Cons] a] by blast
    have "gs_gray g \<noteq> []" using Cons by simp
    then have "propagateall g = propagateall (propagatemark g)" by (simp add: propagateall.simps [of g])
    then show ?thesis using "1.IH" [OF \<open>gs_gray g \<noteq> []\<close> propagatemark_at_inv(1) [OF "1.prems"(1) Cons] w] by simp
  qed
qed

lemma pushed_ephemeron: "pushed a g g' \<Longrightarrow> set (gs_ephemeron g') \<subseteq> insert a (set (gs_ephemeron g))"
  by (auto simp: pushed_def wlists_def)

lemma conv_table_stable:
  assumes "only_strings g g'" and "body g' h = body g h" and "conv_table g h"
  shows "conv_table g' h"
  using assms(3) conv_only_strings [OF assms(1)] unfolding conv_table_def assms(2) by (auto split: option.splits gbody.splits)

lemma ephemeron_pass_at_inv:
  assumes "ephemeron_pass ws c g = (c', g')" and "at_inv ws g" and "gs_gray g = []" and "waiting_ok ws g"
  shows "at_inv [] g' \<and> ext g g' \<and> gs_gray g' = [] \<and> (c \<longrightarrow> c') \<and>
    (\<not> c' \<longrightarrow> only_strings g g' \<and> (\<forall>b. b \<notin> set ws \<longrightarrow> body g' b = body g b) \<and> (\<forall>w \<in> set ws. conv_table g' w) \<and>
       set (gs_ephemeron g') \<subseteq> set (gs_ephemeron g) \<union> set ws)"
  using assms
proof (induction ws c g rule: ephemeron_pass.induct)
  case (1 c g)
  then show ?case by (simp add: only_strings_def)
next
  case (2 w ws c g)
  obtain m g1 where t: "traverseephemeron w g = (m, g1)" by fastforce
  have w: "all_ok True g w \<or> mt_ok g w" "waiting_ok ws g" using "2.prems"(4) by (auto simp: waiting_ok_def)
  note T = traverseephemeron_at_inv [OF "2.prems"(2,3) w(1) t]
  have d: "w \<notin> set ws" using "2.prems"(2) by (auto simp: at_inv_def linked_def all_lists_def)
  have w1: "waiting_ok ws g1" using waiting_ok_trav [OF T(4) d w(2)] .
  show ?case
  proof (cases m)
    case True
    note P = propagateall_at_inv [OF T(1)]
    have e: "ephemeron_pass ws True (propagateall g1) = (c', g')" using "2.prems"(1) t True by simp
    have i: "at_inv [] g'" "ext (propagateall g1) g'" "gs_gray g' = []" "c'"
      using "2.IH"(1) [OF t [symmetric] refl True e] P propagateall_waiting [OF T(1) w1] by simp_all
    have "ext g g'" using ext_trans [OF T(2) ext_trans [OF _ i(2)]] P by blast
    then show ?thesis using i by simp
  next
    case False
    have e: "ephemeron_pass ws c g1 = (c', g')" using "2.prems"(1) t False by simp
    have s: "gs_gray g1 = []" "conv_table g1 w" "only_strings g g1" using T(3) [OF False] by blast+
    have i: "at_inv [] g'" "ext g1 g'" "gs_gray g' = []" "c \<longrightarrow> c'"
      and j: "\<not> c' \<Longrightarrow> only_strings g1 g' \<and> (\<forall>b. b \<notin> set ws \<longrightarrow> body g' b = body g1 b) \<and> (\<forall>w \<in> set ws. conv_table g' w) \<and>
       set (gs_ephemeron g') \<subseteq> set (gs_ephemeron g1) \<union> set ws"
      using "2.IH"(2) [OF t [symmetric] refl False e T(1) s(1) w1] by blast+
    have "only_strings g g' \<and> (\<forall>b. b \<notin> set (w # ws) \<longrightarrow> body g' b = body g b) \<and> (\<forall>w \<in> set (w # ws). conv_table g' w) \<and>
       set (gs_ephemeron g') \<subseteq> set (gs_ephemeron g) \<union> set (w # ws)" if n: "\<not> c'"
    proof (intro conjI)
      note J = j [OF n]
      show "only_strings g g'" using only_strings_trans [OF s(3)] J by blast
      show "\<forall>b. b \<notin> set (w # ws) \<longrightarrow> body g' b = body g b" using J travD(7) [OF T(4)] by simp
      have "conv_table g' w" using conv_table_stable [OF _ _ s(2), of g'] J d by blast
      then show "\<forall>w \<in> set (w # ws). conv_table g' w" using J by simp
      show "set (gs_ephemeron g') \<subseteq> set (gs_ephemeron g) \<union> set (w # ws)" using J pushed_ephemeron [OF T(5)] by auto
    qed
    then show ?thesis using i ext_trans [OF T(2) i(2)] by blast
  qed
qed

lemma at_inv_done: "at_inv [] g \<Longrightarrow> gs_gray g = [] \<Longrightarrow> obj g a \<noteq> None \<Longrightarrow> \<not> white g a \<Longrightarrow> done_ok True g a"
  by (simp add: at_inv_def tricolour_def)

lemma convergeephemerons_at_inv:
  assumes "at_inv [] g" and "gs_gray g = []"
  shows "at_inv [] (convergeephemerons g) \<and> ext g (convergeephemerons g) \<and> gs_gray (convergeephemerons g) = [] \<and>
    (\<forall>h \<in> set (gs_ephemeron (convergeephemerons g)). conv_table (convergeephemerons g) h)"
  using assms
proof (induction g rule: convergeephemerons.induct)
  case (1 g)
  define g0 where "g0 = g\<lparr>gs_ephemeron := []\<rparr>"
  obtain c g1 where p: "ephemeron_pass (gs_ephemeron g) False g0 = (c, g1)" by fastforce
  have w: "white g0 b = white g b" "body g0 b = body g b" "gs_upvals g0 = gs_upvals g" for b by (simp_all add: g0_def)
  have l: "linked [] g" using "1.prems"(1) by (simp add: at_inv_def)
  have l0: "linked (gs_ephemeron g) g0"
    using l by (auto simp: linked_def all_lists_def g0_def w container_def)
  have ok: "waiting_ok (gs_ephemeron g) g"
    unfolding waiting_ok_def
  proof
    fix h
    assume h: "h \<in> set (gs_ephemeron g)"
    then have "\<not> white g h" "container g h" using l by (auto simp: linked_def all_lists_def)
    then have "done_ok True g h" using at_inv_done [OF "1.prems"] obj_body by (auto simp: container_def split: option.splits)
    then show "all_ok True g h \<or> mt_ok g h"
      by (auto simp: done_ok_def mt_ok_def wk_ok_def eph_ok_def split: option.splits gbody.splits)
  qed
  have tri: "tricolour True (set (gs_ephemeron g)) g0"
    unfolding tricolour_def
  proof (intro allI impI)
    fix b
    assume b: "obj g0 b \<noteq> None \<and> \<not> white g0 b \<and> b \<notin> set (gs_ephemeron g)"
    then have "done_ok True g b" using at_inv_done [OF "1.prems", of b] by (simp add: g0_def)
    then have "all_ok True g b \<or> b \<in> set (gs_weak g) \<and> wk_ok g b \<or> b \<in> set (gs_allweak g) \<and> mt_ok g b"
      using b by (simp add: done_ok_def)
    moreover note ok_cong [of g0 g, OF w]
    moreover have "gs_weak g0 = gs_weak g" "gs_allweak g0 = gs_allweak g" by (simp_all add: g0_def)
    ultimately show "done_ok True g0 b" by (auto simp: done_ok_def)
  qed
  have i0: "at_inv (gs_ephemeron g) g0"
    using l0 tri "1.prems" by (simp add: at_inv_def g0_def twups_marked_def)
  have e0: "ext g g0" by (auto simp: ext_def g0_def same_roots_def ups_ext_ups_same ups_ext_same gshape_def)
  have "waiting_ok (gs_ephemeron g) g0" using ok waiting_ok_cong [of g0 g] w by blast
  from ephemeron_pass_at_inv [OF p i0 _ this] have P: "at_inv [] g1" "ext g0 g1" "gs_gray g1 = []"
    "\<not> c \<Longrightarrow> (\<forall>w \<in> set (gs_ephemeron g). conv_table g1 w) \<and> set (gs_ephemeron g1) \<subseteq> set (gs_ephemeron g)"
    using "1.prems"(2) by (auto simp: g0_def)
  have e: "convergeephemerons g = (if c then convergeephemerons g1 else g1)"
    using p by (simp add: convergeephemerons.simps [of g] g0_def)
  show ?case
  proof (cases c)
    case True
    have "ext g g1" using ext_trans [OF e0 P(2)] .
    then show ?thesis
      using "1.IH" [OF p [unfolded g0_def, symmetric] True] P e True ext_trans by auto
  next
    case False
    then show ?thesis using P e ext_trans [OF e0 P(2)] by auto
  qed
qed

end
