(* ===== verification/Lua_Gc_Atomic.thy ===== *)
theory Lua_Gc_Atomic
  imports Lua_Gc_Inv
begin

text \<open>
  The atomic step: from the invariant of the propagate phase, marking ends with every marked object
  done; clearing the weak tables then leaves no reference from a marked object to one that is not.
\<close>

section \<open>Open upvalues are remarked\<close>

text \<open>An open upvalue is in a slot in use of the stack of a thread, in the list of that thread, which is in \<open>twups\<close>.\<close>

definition upvals_ok :: "gstate \<Rightarrow> bool" where
  "upvals_ok g \<longleftrightarrow> (\<forall>u x th i. upv g u = Some x \<and> uv_open x = Some (th, i) \<longrightarrow>
     th \<in> set (gs_twups g) \<and> (\<exists>st tp ups. body g th = Some (GThread (Some st) tp ups) \<and> u \<in> set ups \<and> i < length st))"

definition flags_only :: "gstate \<Rightarrow> gstate \<Rightarrow> bool" where
  "flags_only g g' \<longleftrightarrow> length (gs_upvals g') = length (gs_upvals g) \<and>
     (\<forall>u. upv g' u = upv g u \<or> (\<exists>x. upv g u = Some x \<and> upv g' u = Some (x\<lparr>uv_touched := False\<rparr>)))"

definition rmk :: "gstate \<Rightarrow> gstate \<Rightarrow> bool" where
  "rmk g g' \<longleftrightarrow> mk g (g'\<lparr>gs_upvals := gs_upvals g\<rparr>) \<and> flags_only g g'"

lemma upvals_update_simps [simp]:
  "obj (g\<lparr>gs_upvals := U\<rparr>) a = obj g a" "has_mark P (g\<lparr>gs_upvals := U\<rparr>) a = has_mark P g a"
  "body (g\<lparr>gs_upvals := U\<rparr>) a = body g a" "container (g\<lparr>gs_upvals := U\<rparr>) a = container g a"
  "valiswhite (g\<lparr>gs_upvals := U\<rparr>) v = valiswhite g v" "oko (g\<lparr>gs_upvals := U\<rparr>) t = oko g t"
  "leaf_ok (g\<lparr>gs_upvals := U\<rparr>) a = leaf_ok g a"
  by (simp_all add: obj_def has_mark_def body_def container_def valiswhite_def oko_def leaf_ok_def
      cong: option.case_cong gval.case_cong gbody.case_cong)

lemma uv_v_upvals [simp]: "uv_v (g\<lparr>gs_upvals := U\<rparr>) x = uv_v g x"
  by (rule uv_v_cong) simp

lemma valiswhite_set_upv [simp]: "valiswhite (set_upv u y g) v = valiswhite g v"
  by (simp add: valiswhite_def split: gval.split)

lemma mk_upvals: "mk g g' \<Longrightarrow> mk (g\<lparr>gs_upvals := U\<rparr>) (g'\<lparr>gs_upvals := U\<rparr>)"
proof -
  have "same_rest g g' \<Longrightarrow> same_rest (g\<lparr>gs_upvals := U\<rparr>) (g'\<lparr>gs_upvals := U\<rparr>)"
    by (cases g; cases g') (simp add: same_rest_def)
  then show "mk g g' \<Longrightarrow> mk (g\<lparr>gs_upvals := U\<rparr>) (g'\<lparr>gs_upvals := U\<rparr>)" by (simp add: mk_def)
qed

lemma flags_only_trans: "flags_only g1 g2 \<Longrightarrow> flags_only g2 g3 \<Longrightarrow> flags_only g1 g3"
proof -
  assume a: "flags_only g1 g2" "flags_only g2 g3"
  have "upv g3 u = upv g1 u \<or> (\<exists>x. upv g1 u = Some x \<and> upv g3 u = Some (x\<lparr>uv_touched := False\<rparr>))" for u
  proof -
    have "upv g2 u = upv g1 u \<or> (\<exists>x. upv g1 u = Some x \<and> upv g2 u = Some (x\<lparr>uv_touched := False\<rparr>))"
      "upv g3 u = upv g2 u \<or> (\<exists>x. upv g2 u = Some x \<and> upv g3 u = Some (x\<lparr>uv_touched := False\<rparr>))"
      using a by (simp_all add: flags_only_def)
    then show ?thesis by (cases "upv g1 u") auto
  qed
  then show ?thesis using a by (simp add: flags_only_def)
qed

lemma rmk_refl: "rmk g g"
  by (simp add: rmk_def flags_only_def)

lemma rmk_trans:
  assumes "rmk g1 g2" and "rmk g2 g3"
  shows "rmk g1 g3"
proof -
  have "mk (g2\<lparr>gs_upvals := gs_upvals g1\<rparr>) (g3\<lparr>gs_upvals := gs_upvals g1\<rparr>)"
    using mk_upvals [of g2 "g3\<lparr>gs_upvals := gs_upvals g2\<rparr>" "gs_upvals g1"] assms(2) by (simp add: rmk_def)
  then show ?thesis using assms mk_trans flags_only_trans unfolding rmk_def by blast
qed

lemma rmkD:
  assumes "rmk g g'"
  shows "body g' a = body g a" "white g' a \<Longrightarrow> white g a" "okv g v \<Longrightarrow> okv g' v" "uv_v g' x = uv_v g x"
    "openupval g' th = openupval g th" "gs_twups g' = gs_twups g"
proof -
  have m: "mk g (g'\<lparr>gs_upvals := gs_upvals g\<rparr>)" using assms by (simp add: rmk_def)
  show b: "body g' a = body g a" for a using mkD(1) [OF m, of a] by simp
  show "white g' a \<Longrightarrow> white g a" using mkD(2) [OF m, of a] by simp
  show "okv g v \<Longrightarrow> okv g' v" using mk_okv [OF m, of v] by simp
  show "uv_v g' x = uv_v g x" using uv_v_cong b by blast
  show "openupval g' th = openupval g th" by (simp add: openupval_def b)
  show "gs_twups g' = gs_twups g" using same_rest_fields(8) [OF mk_fields [OF m]] by simp
qed

text \<open>Of the upvalues touched at the start, each is still touched or has its value marked.\<close>

definition remarked :: "gstate \<Rightarrow> gstate \<Rightarrow> bool" where
  "remarked g0 g \<longleftrightarrow> (\<forall>u x. upv g0 u = Some x \<and> uv_touched x \<longrightarrow> upv g u = Some x \<or> okv g (uv_v g x))"

lemma remark_upval_step:
  assumes r: "rmk g0 g" "remarked g0 g"
  shows "rmk g0 (remark_upval u g)" "remarked g0 (remark_upval u g)"
    "\<And>x. upv g0 u = Some x \<Longrightarrow> uv_touched x \<Longrightarrow> okv (remark_upval u g) (uv_v (remark_upval u g) x)"
proof -
  have "rmk g0 (remark_upval u g) \<and> remarked g0 (remark_upval u g) \<and>
      (\<forall>x. upv g0 u = Some x \<and> uv_touched x \<longrightarrow> okv (remark_upval u g) (uv_v (remark_upval u g) x))"
  proof (cases "\<exists>y. upv g u = Some y \<and> uv_touched y")
    case True
    then obtain y where y: "upv g u = Some y" "uv_touched y" by blast
    define h where "h = markvalue (uv_v g y) g"
    define g' where "g' = set_upv u (Some (y\<lparr>uv_touched := False\<rparr>)) h"
    have e: "remark_upval u g = g'" using y by (simp add: remark_upval_def g'_def h_def)
    have m: "mk g h" unfolding h_def by (rule markvalue_mk)
    have uh: "gs_upvals h = gs_upvals g" using same_rest_fields(1) [OF mk_fields [OF m]] .
    have "g'\<lparr>gs_upvals := gs_upvals g\<rparr> = h" using uh by (simp add: g'_def set_upv_def flip: uh)
    moreover have "flags_only g g'"
      unfolding flags_only_def g'_def using y upv_cong [OF uh] by (auto simp: upv_set_upv) (simp_all add: set_upv_def uh)
    ultimately have rg: "rmk g g'" using m by (simp add: rmk_def)
    have ok: "okv g' (uv_v g' y)"
      using markvalue_mk(2) [of "uv_v g y" g] rmkD(4) [OF rg, of y] by (simp add: g'_def h_def)
    have o: "upv g' v = (if u = v then Some (y\<lparr>uv_touched := False\<rparr>) else upv g v)" for v
      using upv_less [OF y(1)] by (simp add: g'_def upv_set_upv upv_cong [OF uh] uh)
    have "upv g' v = Some x \<or> okv g' (uv_v g' x)" if "upv g0 v = Some x" "uv_touched x" for v x
    proof (cases "upv g v = Some x")
      case True
      then show ?thesis using o ok y by (cases "u = v") auto
    next
      case False
      then have "okv g (uv_v g x)" using r(2) that unfolding remarked_def by blast
      then show ?thesis using rmkD(3,4) [OF rg] by simp
    qed
    moreover have "okv g' (uv_v g' x)" if "upv g0 u = Some x" "uv_touched x" for x
    proof (cases "upv g u = Some x")
      case True
      then show ?thesis using ok y by simp
    next
      case False
      then have "okv g (uv_v g x)" using r(2) that unfolding remarked_def by blast
      then show ?thesis using rmkD(3,4) [OF rg] by simp
    qed
    ultimately show ?thesis unfolding e remarked_def using rmk_trans [OF r(1) rg] by blast
  next
    case False
    then have "remark_upval u g = g" by (auto simp: remark_upval_def split: option.split)
    then show ?thesis using r False unfolding remarked_def by metis
  qed
  then show "rmk g0 (remark_upval u g)" "remarked g0 (remark_upval u g)"
    "\<And>x. upv g0 u = Some x \<Longrightarrow> uv_touched x \<Longrightarrow> okv (remark_upval u g) (uv_v (remark_upval u g) x)" by blast+
qed

lemma remark_upvals:
  assumes "rmk g0 g" "remarked g0 g"
  shows "rmk g0 (fold remark_upval us g) \<and> rmk g (fold remark_upval us g) \<and> remarked g0 (fold remark_upval us g) \<and>
    (\<forall>u x. u \<in> set us \<and> upv g0 u = Some x \<and> uv_touched x \<longrightarrow>
       okv (fold remark_upval us g) (uv_v (fold remark_upval us g) x))"
  using assms
proof (induction us arbitrary: g)
  case Nil
  then show ?case by (simp add: rmk_refl)
next
  case (Cons u us)
  let ?g = "remark_upval u g" and ?h = "fold remark_upval us (remark_upval u g)"
  note s = remark_upval_step [OF Cons.prems, of u]
  have g: "rmk g ?g" using remark_upval_step(1) [OF rmk_refl, of g u] by (simp add: remarked_def)
  note i = Cons.IH [OF s(1,2)]
  have h: "rmk ?g ?h" using i by blast
  have "okv ?h (uv_v ?h x)" if "v \<in> set (u # us)" "upv g0 v = Some x" "uv_touched x" for v x
  proof (cases "v \<in> set us")
    case True
    then show ?thesis using i that by blast
  next
    case False
    then have "okv ?g (uv_v ?g x)" using s(3) that by simp
    then show ?thesis using rmkD(3,4) [OF h] by simp
  qed
  then show ?case unfolding fold_simps(2) using i rmk_trans [OF g h] by blast
qed

lemma remark_threads_rmk:
  assumes "remark_threads ths g = (kept, g')" and "rmk g0 g" "remarked g0 g"
  shows "rmk g0 g' \<and> rmk g g' \<and> remarked g0 g' \<and> set kept \<subseteq> set ths \<and> (\<forall>th \<in> set kept. \<not> white g' th) \<and>
    (\<forall>th u x. th \<in> set ths \<and> u \<in> set (openupval g0 th) \<and> upv g0 u = Some x \<and> uv_touched x \<longrightarrow>
       okv g' (uv_v g' x) \<or> \<not> white g' th)"
  using assms
proof (induction ths arbitrary: g kept g')
  case Nil
  then show ?case by (simp add: rmk_refl)
next
  case (Cons th ths)
  show ?case
  proof (cases "gray g th \<and> openupval g th \<noteq> []")
    case True
    then obtain k where k: "remark_threads ths g = (k, g')" "kept = th # k"
      using Cons.prems(1) by (auto split: prod.splits)
    note i = Cons.IH [OF k(1) Cons.prems(2,3)]
    have "\<not> white g th" using True by (simp add: gray_iff)
    then have "\<not> white g' th" using i rmkD(2) by blast
    then show ?thesis using i k(2) by auto
  next
    case False
    let ?us = "openupval g th" and ?g = "fold remark_upval (openupval g th) g"
    have k: "remark_threads ths ?g = (kept, g')" using Cons.prems(1) False by (simp split: if_splits)
    note s = remark_upvals [OF Cons.prems(2,3), of ?us]
    have i: "rmk g0 g'" "rmk ?g g'" "remarked g0 g'" "set kept \<subseteq> set ths" "\<forall>th \<in> set kept. \<not> white g' th"
      "\<forall>th u x. th \<in> set ths \<and> u \<in> set (openupval g0 th) \<and> upv g0 u = Some x \<and> uv_touched x \<longrightarrow>
         okv g' (uv_v g' x) \<or> \<not> white g' th"
      using Cons.IH [OF k] s by blast+
    have "okv g' (uv_v g' x)" if "u \<in> set (openupval g0 th)" "upv g0 u = Some x" "uv_touched x" for u x
    proof -
      have "u \<in> set ?us" using that(1) rmkD(5) [OF Cons.prems(2)] by simp
      then have "okv ?g (uv_v ?g x)" using s that by blast
      then show ?thesis using rmkD(3,4) [OF i(2)] by simp
    qed
    then show ?thesis using i s rmk_trans [of g ?g g'] by auto
  qed
qed

section \<open>The end of the mark phase\<close>

lemma rmk_ext: "rmk g g' \<Longrightarrow> ext g g'"
proof -
  assume r: "rmk g g'"
  let ?h = "g'\<lparr>gs_upvals := gs_upvals g\<rparr>"
  have m: "mk g ?h" using r by (simp add: rmk_def)
  have "ups_same g g'"
    unfolding ups_same_def
  proof
    fix u
    have "upv g' u = upv g u \<or> (\<exists>x. upv g u = Some x \<and> upv g' u = Some (x\<lparr>uv_touched := False\<rparr>))"
      using r by (simp add: rmk_def flags_only_def)
    then show "map_option (\<lambda>x. x\<lparr>uv_touched := False\<rparr>) (upv g' u) = map_option (\<lambda>x. x\<lparr>uv_touched := False\<rparr>) (upv g u)"
      by auto
  qed
  then show ?thesis using ext_mk [OF m] by (simp add: ext_def same_roots_def gshape_def)
qed

lemma upv_updates [simp]:
  "upv (g\<lparr>gs_twups := l\<rparr>) u = upv g u" "upv (g\<lparr>gs_gray := l\<rparr>) u = upv g u" "upv (g\<lparr>gs_gcstate := n\<rparr>) u = upv g u"
  "upv (g\<lparr>gs_upvals := gs_upvals h\<rparr>) u = upv h u"
  by (simp_all add: upv_def)

lemma ext_twups: "ext g g' \<Longrightarrow> ext g (g'\<lparr>gs_twups := l\<rparr>)"
  by (simp add: ext_def same_roots_def gshape_def ups_same_def)

lemma ext_okv: "ext g g' \<Longrightarrow> okv g v \<Longrightarrow> okv g' v"
  unfolding ext_def using okv_mono by blast

lemma ext_oko: "ext g g' \<Longrightarrow> oko g t \<Longrightarrow> oko g' t"
  unfolding ext_def using oko_mono by blast

lemma ext_white: "ext g g' \<Longrightarrow> white g' a \<Longrightarrow> white g a"
  unfolding ext_def by blast

lemma linked_mk:
  assumes m: "mk g g'" and l: "linked X g"
  shows "linked X g'"
proof -
  obtain ns where ns: "gs_gray g' = ns @ gs_gray g" "distinct ns" "\<forall>a \<in> set ns. white g a \<and> container g a \<and> \<not> white g' a"
    using m unfolding mk_def by blast
  have e: "all_lists X g' = ns @ all_lists X g" using wlists_fields [OF wlists_mk [OF m]] ns(1) by (simp add: all_lists_def)
  have "set ns \<inter> set (all_lists X g) = {}" using ns(3) l unfolding linked_def by blast
  then show ?thesis
    using l ns(2,3) mkD(2) [OF m] mk_container [OF m] unfolding linked_def e by auto
qed

lemma linked_cong:
  assumes "\<And>b. white g' b = white g b" "\<And>b. body g' b = body g b" "all_lists X' g' = all_lists X g"
  shows "linked X' g' = linked X g"
  using assms by (simp add: linked_def container_def)

text \<open>Before, an open upvalue of a done closure is touched; after, its value or its thread is marked.\<close>

lemma remarkupvals_at_inv:
  assumes s: "gs_gcstate g = GCSinsideatomic" and l: "linked X g"
    and t: "tricolour False (set (gs_gray g) \<union> set X) g" and u: "upvals_ok g"
  shows "at_inv X (remarkupvals g)" "ext g (remarkupvals g)"
proof -
  obtain kept g1 where r: "remark_threads (gs_twups g) g = (kept, g1)" by fastforce
  define g' where "g' = g1\<lparr>gs_twups := kept\<rparr>"
  have e: "remarkupvals g = g'" by (simp add: remarkupvals_def r g'_def)
  have R: "rmk g g1" "\<forall>th \<in> set kept. \<not> white g1 th"
    "\<forall>th u x. th \<in> set (gs_twups g) \<and> u \<in> set (openupval g th) \<and> upv g u = Some x \<and> uv_touched x \<longrightarrow>
       okv g1 (uv_v g1 x) \<or> \<not> white g1 th"
    using remark_threads_rmk [OF r rmk_refl] by (auto simp: remarked_def)
  show "ext g (remarkupvals g)" unfolding e g'_def using ext_twups rmk_ext R(1) by blast
  define h where "h = g1\<lparr>gs_upvals := gs_upvals g\<rparr>"
  have m: "mk g h" using R(1) by (simp add: rmk_def h_def)
  have w: "white g' b = white h b" "body g' b = body h b" "obj g' b = obj h b" for b
    by (simp_all add: g'_def h_def)
  have f: "gs_gray g' = gs_gray h" "gs_weak g' = gs_weak h" "gs_allweak g' = gs_allweak h" "gs_ephemeron g' = gs_ephemeron h"
    by (simp_all add: g'_def h_def)
  have v: "valiswhite g' v = valiswhite h v" "oko g' t = oko h t" for v t using w(1) okv_cong oko_cong by blast+
  have th: "tricolour False (set (gs_gray h) \<union> set X) h" by (rule tricolour_mk [OF m t])
  have uv: "uvok True g' p" if "uvok False h p" for p
  proof (cases "\<exists>n x. p = Some n \<and> upv g n = Some x")
    case False
    have "upv g' n = None" if "upv g n = None" for n
    proof -
      have "upv g1 n = upv g n \<or> (\<exists>x. upv g n = Some x)" using R(1) unfolding rmk_def flags_only_def by metis
      then show ?thesis using that by (simp add: g'_def)
    qed
    then show ?thesis using False by (auto simp: uvok_def split: option.split)
  next
    case True
    then obtain n x where n: "p = Some n" "upv g n = Some x" by blast
    have hn: "upv h n = Some x" using n by (simp add: h_def)
    have "upv g1 n = upv g n \<or> (\<exists>y. upv g n = Some y \<and> upv g1 n = Some (y\<lparr>uv_touched := False\<rparr>))"
      using R(1) by (simp add: rmk_def flags_only_def)
    then obtain y where y: "upv g' n = Some y" "uv_open y = uv_open x" "uv_value y = uv_value x" "uv_v g' y = uv_v g1 x"
      using n uv_v_cong [of g' g1] by (auto simp: g'_def)
    show ?thesis
    proof (cases "uv_open x")
      case None
      then show ?thesis using that n hn y v by (simp add: uvok_def)
    next
      case (Some q)
      obtain t i where q: "q = (t, i)" by fastforce
      have "uv_touched x" using that n hn Some q by (simp add: uvok_def)
      moreover have "t \<in> set (gs_twups g)" "n \<in> set (openupval g t)"
        using u n Some q unfolding upvals_ok_def by (fastforce simp: openupval_def)+
      ultimately have "okv g1 (uv_v g1 x) \<or> \<not> white g1 t" using R(3) n by blast
      moreover have "valiswhite g1 = valiswhite g'" "white g1 t = white g' t" by (simp_all add: g'_def fun_eq_iff)
      ultimately show ?thesis using n y Some q by (simp add: uvok_def)
    qed
  qed
  have b: "body_ok True g' c" if "body_ok False h c" for c
    using that uv by (cases c) (simp_all add: v cong: option.case_cong)
  have "all_ok True g' a" if "all_ok False h a" for a
    using that b by (auto simp: all_ok_def w split: option.splits)
  moreover have "wk_ok g' a = wk_ok h a" "mt_ok g' a = mt_ok h a" "eph_ok g' a = eph_ok h a" for a
    by (simp_all add: wk_ok_def mt_ok_def eph_ok_def w v cong: option.case_cong gbody.case_cong)
  ultimately have "done_ok True g' a" if "done_ok False h a" for a
    using that by (auto simp: done_ok_def f)
  then have "tricolour True (set (gs_gray g') \<union> set X) g'"
    using th unfolding tricolour_def w f by blast
  moreover have "linked X g'"
    using linked_mk [OF m l] linked_cong [of g' h X X] w f by (simp add: all_lists_def)
  moreover have "gs_gcstate g' = GCSinsideatomic"
    using s same_rest_fields(2) [OF mk_fields [OF m]] by (simp add: g'_def h_def)
  ultimately show "at_inv X (remarkupvals g)"
    unfolding e at_inv_def twups_marked_def using R(2) by (simp add: g'_def)
qed

lemma markroots_mk:
  fixes g L
  defines "g2 \<equiv> markmt (markvalue (gs_registry g) (markobject L g))"
  shows "mk g g2" "\<not> white g2 L" "okv g2 (gs_registry g)" "t \<in> set (gs_mt g) \<Longrightarrow> oko g2 t"
proof -
  let ?g1 = "markobject L g" and ?g2 = "markvalue (gs_registry g) (markobject L g)"
  have m: "mk g ?g1" "mk ?g1 ?g2" using markobject_mk(1) markvalue_mk(1) by blast+
  have mt: "gs_mt ?g2 = gs_mt g" using same_rest_fields(15) [OF mk_fields [OF mk_trans [OF m]]] .
  have m3: "mk ?g2 g2" unfolding g2_def markmt_def using fold_markobjectN(1) .
  show "mk g g2" using mk_trans [OF mk_trans [OF m] m3] .
  show "\<not> white g2 L" using markobject_mk(2) mkD(2) [OF mk_trans [OF m(2) m3]] by blast
  show "okv g2 (gs_registry g)" using markvalue_mk(2) mk_okv [OF m3] by blast
  show "t \<in> set (gs_mt g) \<Longrightarrow> oko g2 t" unfolding g2_def markmt_def mt by (rule fold_markobjectN(2))
qed

lemma atomic_mark_at_inv:
  fixes g L
  assumes i: "prop_inv g" and gr: "gs_gray g = []" and u: "upvals_ok g"
  defines "g' \<equiv> atomic_mark L g"
  shows "at_inv [] g'" "gs_gray g' = []" "\<forall>h \<in> set (gs_ephemeron g'). conv_table g' h"
    "ext (g\<lparr>gs_gcstate := GCSinsideatomic\<rparr>) g'" "\<not> white g' L" "okv g' (gs_registry g)" "t \<in> set (gs_mt g) \<Longrightarrow> oko g' t"
proof -
  let ?X = "gs_grayagain g"
  define g1 where "g1 = g\<lparr>gs_gcstate := GCSinsideatomic\<rparr>"
  define g2 where "g2 = markmt (markvalue (gs_registry g1) (markobject L g1))"
  define g3 where "g3 = remarkupvals g2"
  define g4 where "g4 = propagateall g3"
  define g5 where "g5 = g4\<lparr>gs_gray := ?X\<rparr>"
  define g6 where "g6 = propagateall g5"
  define g7 where "g7 = convergeephemerons g6"
  note R = markroots_mk [where g = g1 and L = L, folded g2_def]
  have reg: "gs_registry (markobject L g1) = gs_registry g1"
    using same_rest_fields(14) [OF mk_fields [OF markobject_mk(1)]] .
  have e: "g' = g7"
    unfolding g'_def atomic_mark_def Let_def g7_def g6_def g5_def g4_def g3_def g2_def reg [unfolded g1_def] g1_def by simp
  have w1: "white g1 b = white g b" "body g1 b = body g b" "gs_upvals g1 = gs_upvals g" for b by (simp_all add: g1_def)
  have l1: "linked ?X g1" using i linked_cong [of g1 g ?X ?X] w1 by (simp add: prop_inv_def all_lists_def g1_def)
  have t1: "tricolour False (set (gs_gray g1) \<union> set ?X) g1"
    using i tricolour_cong [of g1 g False] w1 by (simp add: prop_inv_def g1_def)
  have s2: "gs_gcstate g2 = GCSinsideatomic" using same_rest_fields(2) [OF mk_fields [OF R(1)]] by (simp add: g1_def)
  have "upvals_ok g2"
  proof -
    have f: "gs_upvals g2 = gs_upvals g" "gs_twups g2 = gs_twups g"
      using same_rest_fields(1,8) [OF mk_fields [OF R(1)]] by (simp_all add: g1_def)
    have b: "body g2 a = body g a" for a using mkD(1) [OF R(1)] w1 by simp
    show ?thesis using u unfolding upvals_ok_def f upv_cong [OF f(1)] b .
  qed
  then have i3: "at_inv ?X g3" "ext g2 g3"
    unfolding g3_def using remarkupvals_at_inv [OF s2 linked_mk [OF R(1) l1] tricolour_mk [OF R(1) t1]] by blast+
  have i4: "at_inv ?X g4" "ext g3 g4" "gs_gray g4 = []" unfolding g4_def using propagateall_at_inv [OF i3(1)] by blast+
  have w5: "white g5 b = white g4 b" "body g5 b = body g4 b" "gs_upvals g5 = gs_upvals g4" for b by (simp_all add: g5_def)
  have "linked [] g5" using i4 linked_cong [of g5 g4 "[]" ?X] w5 by (simp add: at_inv_def all_lists_def g5_def)
  moreover have "tricolour True (set (gs_gray g5)) g5"
    using i4 tricolour_cong [of g5 g4 True] w5 by (simp add: at_inv_def g5_def)
  ultimately have i5: "at_inv [] g5" using i4(1) w5 by (simp add: at_inv_def g5_def twups_marked_def)
  have e5: "ext g4 g5" by (auto simp: ext_def g5_def same_roots_def ups_same_def upv_def gshape_def)
  have i6: "at_inv [] g6" "ext g5 g6" "gs_gray g6 = []" unfolding g6_def using propagateall_at_inv [OF i5] by blast+
  have i7: "at_inv [] g7" "ext g6 g7" "gs_gray g7 = []" "\<forall>h \<in> set (gs_ephemeron g7). conv_table g7 h"
    unfolding g7_def using convergeephemerons_at_inv [OF i6(1,3)] by blast+
  have e27: "ext g2 g7" using ext_trans i3(2) i4(2) e5 i6(2) i7(2) by meson
  show "at_inv [] g'" "gs_gray g' = []" "\<forall>h \<in> set (gs_ephemeron g'). conv_table g' h" unfolding e using i7 by blast+
  show "ext (g\<lparr>gs_gcstate := GCSinsideatomic\<rparr>) g'" unfolding e using ext_trans [OF ext_mk [OF R(1)] e27] by (simp add: g1_def)
  show "\<not> white g' L" "okv g' (gs_registry g)" "t \<in> set (gs_mt g) \<Longrightarrow> oko g' t"
    unfolding e using R(2-4) ext_white [OF e27] ext_okv [OF e27] ext_oko [OF e27] by (auto simp: g1_def)
qed

end
