(* ===== verification/Lua_Gc_Clear.thy ===== *)
theory Lua_Gc_Clear
  imports Lua_Gc_Atomic
begin

text \<open>
  The weak tables are cleared: what is left in them is marked.  With the second half of the atomic
  step, which resurrects the objects to be finalized, no marked object refers to one that is not.
\<close>

section \<open>What clearing leaves alone\<close>

text \<open>A reference that is cleared: to an object that is not marked, and not a string.\<close>

definition gone :: "gstate \<Rightarrow> gval \<Rightarrow> bool" where
  "gone g v \<longleftrightarrow> (\<exists>a. v = GRef a \<and> white g a \<and> \<not> isstring g a)"

lemma gone_only_strings: "only_strings g g' \<Longrightarrow> gone g v \<Longrightarrow> gone g' v"
  unfolding gone_def only_strings_def by blast

lemma gone_Nil [simp]: "\<not> gone g GNil"
  by (simp add: gone_def)

definition entry_sub :: "gstate \<Rightarrow> gval \<times> gval \<Rightarrow> gval \<times> gval \<Rightarrow> bool" where
  "entry_sub g e' e \<longleftrightarrow> e' = e \<or>
     snd e' = GNil \<and> (gone g (fst e) \<or> gone g (snd e)) \<and> okv g (fst e') \<and> (fst e' = fst e \<or> (\<exists>a. fst e = GRef a \<and> fst e' = GDead a))"

definition value_sub :: "gstate \<Rightarrow> gval \<Rightarrow> gval \<Rightarrow> bool" where
  "value_sub g v' v \<longleftrightarrow> v' = v \<or> v' = GNil \<and> gone g v"

definition body_sub :: "gstate \<Rightarrow> gbody \<Rightarrow> gbody \<Rightarrow> bool" where
  "body_sub g b' b \<longleftrightarrow> b' = b \<or> (\<exists>mt arr' arr nodes' nodes. b' = GTable mt arr' nodes' \<and> b = GTable mt arr nodes \<and>
     list_all2 (value_sub g) arr' arr \<and> list_all2 (entry_sub g) nodes' nodes)"

definition cl :: "gstate \<Rightarrow> gstate \<Rightarrow> bool" where
  "cl g g' \<longleftrightarrow> g' = g\<lparr>gs_heap := gs_heap g'\<rparr> \<and> only_strings g g' \<and> (\<forall>b. obj g' b = None \<longleftrightarrow> obj g b = None) \<and>
     (\<forall>b P. white g' b \<longrightarrow> has_mark P g' b = has_mark P g b) \<and> (\<forall>b. rel_option (body_sub g') (body g' b) (body g b))"

lemma cl_white: "cl g g' \<Longrightarrow> white g' a \<Longrightarrow> white g a"
  unfolding cl_def only_strings_def by blast

lemma cl_okv: "cl g g' \<Longrightarrow> okv g v \<Longrightarrow> okv g' v"
  using okv_mono cl_white by blast

lemma cl_oko: "cl g g' \<Longrightarrow> oko g t \<Longrightarrow> oko g' t"
  using oko_mono cl_white by blast

lemma cl_fields:
  assumes "cl g g'"
  shows "gs_upvals g' = gs_upvals g" "gs_gcstate g' = gs_gcstate g" "gs_currentwhite g' = gs_currentwhite g"
    "gs_gray g' = gs_gray g" "gs_grayagain g' = gs_grayagain g" "gs_weak g' = gs_weak g" "gs_ephemeron g' = gs_ephemeron g"
    "gs_allweak g' = gs_allweak g" "gs_twups g' = gs_twups g" "gs_tobefnz g' = gs_tobefnz g" "gs_finobj g' = gs_finobj g"
    "gs_registry g' = gs_registry g" "gs_mt g' = gs_mt g" "gs_mainthread g' = gs_mainthread g" "gs_allgc g' = gs_allgc g"
    "gs_sweepgc g' = gs_sweepgc g" "gs_fixedgc g' = gs_fixedgc g"
proof -
  have "g' = g\<lparr>gs_heap := gs_heap g'\<rparr>" using assms by (simp add: cl_def)
  then show "gs_upvals g' = gs_upvals g" "gs_gcstate g' = gs_gcstate g" "gs_currentwhite g' = gs_currentwhite g"
    "gs_gray g' = gs_gray g" "gs_grayagain g' = gs_grayagain g" "gs_weak g' = gs_weak g" "gs_ephemeron g' = gs_ephemeron g"
    "gs_allweak g' = gs_allweak g" "gs_twups g' = gs_twups g" "gs_tobefnz g' = gs_tobefnz g" "gs_finobj g' = gs_finobj g"
    "gs_registry g' = gs_registry g" "gs_mt g' = gs_mt g" "gs_mainthread g' = gs_mainthread g" "gs_allgc g' = gs_allgc g"
    "gs_sweepgc g' = gs_sweepgc g" "gs_fixedgc g' = gs_fixedgc g"
    by (cases g; cases g'; simp)+
qed

lemma entry_sub_refl [simp]: "entry_sub g e e"
  by (simp add: entry_sub_def)

lemma value_sub_refl [simp]: "value_sub g v v"
  by (simp add: value_sub_def)

lemma body_sub_refl [simp]: "body_sub g b b"
  by (simp add: body_sub_def)

lemma body_sub_other: "body_sub g b' b \<Longrightarrow> (\<And>mt arr nodes. b \<noteq> GTable mt arr nodes) \<Longrightarrow> b' = b"
  by (auto simp: body_sub_def)

lemma body_sub_of_table:
  "body_sub g (GTable mt arr' nodes') b \<Longrightarrow>
    \<exists>arr nodes. b = GTable mt arr nodes \<and> list_all2 (value_sub g) arr' arr \<and> list_all2 (entry_sub g) nodes' nodes"
  by (auto simp: body_sub_def list_all2_refl)

lemma body_sub_table:
  "body_sub g b' (GTable mt arr nodes) \<Longrightarrow>
    \<exists>arr' nodes'. b' = GTable mt arr' nodes' \<and> list_all2 (value_sub g) arr' arr \<and> list_all2 (entry_sub g) nodes' nodes"
  by (auto simp: body_sub_def list_all2_refl)

lemma entry_sub_mono: "only_strings g g' \<Longrightarrow> entry_sub g e' e \<Longrightarrow> entry_sub g' e' e"
  using gone_only_strings [of g g'] okv_mono [of g' g] unfolding entry_sub_def only_strings_def by blast

lemma value_sub_mono: "only_strings g g' \<Longrightarrow> value_sub g v' v \<Longrightarrow> value_sub g' v' v"
  using gone_only_strings unfolding value_sub_def by blast

lemma list_all2_trans1:
  assumes "list_all2 P xs ys" "list_all2 Q ys zs" "\<And>x y z. P x y \<Longrightarrow> Q y z \<Longrightarrow> R x z"
  shows "list_all2 R xs zs"
  using list_all2_trans [of P Q R xs ys zs] assms by blast

lemma body_sub_trans:
  assumes ok: "only_strings g2 g3" and b: "body_sub g3 b3 b2" "body_sub g2 b2 b1"
  shows "body_sub g3 b3 b1"
proof (cases "\<exists>mt arr nodes. b2 = GTable mt arr nodes")
  case True
  then obtain mt arr nodes where b2: "b2 = GTable mt arr nodes" by blast
  obtain arr3 nodes3 where t: "b3 = GTable mt arr3 nodes3" "list_all2 (value_sub g3) arr3 arr"
    "list_all2 (entry_sub g3) nodes3 nodes" using body_sub_table b(1) unfolding b2 by blast
  obtain arr1 nodes1 where u: "b1 = GTable mt arr1 nodes1" "list_all2 (value_sub g2) arr arr1"
    "list_all2 (entry_sub g2) nodes nodes1" using body_sub_of_table b(2) unfolding b2 by blast
  have "entry_sub g3 x z" if "entry_sub g3 x y" "entry_sub g2 y z" for x y z
    using that(1) entry_sub_mono [OF ok that(2)] unfolding entry_sub_def by (cases "y = z") auto
  then have "list_all2 (entry_sub g3) nodes3 nodes1" using list_all2_trans1 [OF t(3) u(3)] by blast
  moreover have "list_all2 (value_sub g3) arr3 arr1" by (rule list_all2_trans1 [OF t(2) u(2)]) (use gone_only_strings [OF ok] in \<open>auto simp: value_sub_def\<close>)
  ultimately show ?thesis using t u by (simp add: body_sub_def)
next
  case False
  have "b3 = b2" using body_sub_other [OF b(1)] False by blast
  moreover have "b2 = b1" using b(2) False by (auto simp: body_sub_def)
  ultimately show ?thesis by simp
qed

lemma cl_refl [simp]: "cl g g"
  by (simp add: cl_def only_strings_def option.rel_refl)

lemma cl_trans:
  assumes a: "cl g1 g2" and b: "cl g2 g3"
  shows "cl g1 g3"
proof -
  have "g3 = g1\<lparr>gs_heap := gs_heap g3\<rparr>"
    using a b unfolding cl_def by (cases g1; cases g2; cases g3) simp
  moreover have "only_strings g1 g3" using a b only_strings_trans unfolding cl_def by blast
  moreover have "rel_option (body_sub g3) (body g3 c) (body g1 c)" for c
  proof -
    have o: "only_strings g2 g3" and r: "rel_option (body_sub g2) (body g2 c) (body g1 c)" "rel_option (body_sub g3) (body g3 c) (body g2 c)"
      using a b by (simp_all add: cl_def)
    show ?thesis
    proof (cases "body g1 c")
      case None
      then show ?thesis using r by auto
    next
      case (Some b1)
      then obtain b2 b3 where "body g2 c = Some b2" "body_sub g2 b2 b1" "body g3 c = Some b3" "body_sub g3 b3 b2"
        using r by (auto simp: option_rel_Some2)
      then show ?thesis using body_sub_trans [OF o] Some by simp
    qed
  qed
  moreover have "has_mark P g3 c = has_mark P g1 c" if "white g3 c" for c P
    using that a b cl_white [OF b that] by (simp add: cl_def)
  ultimately show ?thesis using a b by (simp add: cl_def)
qed

text \<open>A body that clearing changed is a table.\<close>

lemma cl_body:
  assumes "cl g g'"
  shows "body g b = None \<Longrightarrow> body g' b = None" "body g b = Some c \<Longrightarrow> \<exists>c'. body g' b = Some c' \<and> body_sub g' c' c"
proof -
  have r: "rel_option (body_sub g') (body g' b) (body g b)" using assms by (simp add: cl_def)
  show "body g b = None \<Longrightarrow> body g' b = None" "body g b = Some c \<Longrightarrow> \<exists>c'. body g' b = Some c' \<and> body_sub g' c' c"
    using r by (auto simp: option_rel_Some2)
qed

lemma cl_uv_v:
  assumes c: "cl g g'"
  shows "uv_v g' x = uv_v g x"
proof -
  have "stack_slot g' th i = stack_slot g th i" for th i
  proof (cases "body g th")
    case None
    then show ?thesis using cl_body(1) [OF c] by (simp add: stack_slot_def)
  next
    case (Some b)
    obtain b' where b': "body g' th = Some b'" "body_sub g' b' b" using cl_body(2) [OF c Some] by blast
    then show ?thesis using Some by (auto simp: stack_slot_def body_sub_def)
  qed
  then show ?thesis by (simp add: uv_v_def split: option.split)
qed

lemma cl_uvok: "cl g g' \<Longrightarrow> uvok ph g u \<Longrightarrow> uvok ph g' u"
  unfolding uvok_def upv_cong [OF cl_fields(1)] using cl_okv cl_white cl_uv_v
  by (auto split: option.splits)

lemma list_all2_all: "list_all2 P xs ys \<Longrightarrow> (\<And>x y. P x y \<Longrightarrow> Q y \<Longrightarrow> R x) \<Longrightarrow> \<forall>y \<in> set ys. Q y \<Longrightarrow> \<forall>x \<in> set xs. R x"
  by (induction rule: list_all2_induct) auto

lemma cl_all_ok:
  assumes c: "cl g g'" and a: "all_ok ph g b"
  shows "all_ok ph g' b"
proof (cases "body g b")
  case None
  then show ?thesis using cl_body(1) [OF c] by (simp add: all_ok_def)
next
  case (Some x)
  obtain x' where x': "body g' b = Some x'" "body_sub g' x' x" using cl_body(2) [OF c Some] by blast
  have v: "valiswhite g' v \<Longrightarrow> valiswhite g v" for v using cl_okv [OF c] by blast
  have o: "body_ok ph g' x" using a Some cl_oko [OF c] cl_uvok [OF c]
    by (cases x) (auto simp: all_ok_def dest: v split: option.splits)
  have "body_ok ph g' x'"
  proof (cases "\<exists>mt arr nodes. x = GTable mt arr nodes")
    case True
    then obtain mt arr nodes where x: "x = GTable mt arr nodes" by blast
    obtain arr' nodes' where t: "x' = GTable mt arr' nodes'" "list_all2 (value_sub g') arr' arr"
      "list_all2 (entry_sub g') nodes' nodes" using body_sub_table x'(2) unfolding x by blast
    have "\<forall>v \<in> set arr'. okv g' v" using o x by (intro list_all2_all [OF t(2), where Q = "\<lambda>v. okv g' v"]) (auto simp: value_sub_def)
    moreover have "\<forall>e \<in> set nodes'. okv g' (fst e) \<and> okv g' (snd e)"
      using o x by (intro list_all2_all [OF t(3), where Q = "\<lambda>e. okv g' (fst e) \<and> okv g' (snd e)"]) (auto simp: entry_sub_def)
    ultimately show ?thesis using o x t by auto
  next
    case False
    then show ?thesis using body_sub_other [OF x'(2)] o by blast
  qed
  then show ?thesis using x' by (simp add: all_ok_def)
qed

lemma cl_table_ok:
  assumes c: "cl g g'"
  shows "wk_ok g b \<Longrightarrow> wk_ok g' b" "mt_ok g b \<Longrightarrow> mt_ok g' b" "eph_ok g b \<Longrightarrow> eph_ok g' b" "conv_table g b \<Longrightarrow> conv_table g' b"
proof -
  have "(wk_ok g b \<longrightarrow> wk_ok g' b) \<and> (mt_ok g b \<longrightarrow> mt_ok g' b) \<and> (eph_ok g b \<longrightarrow> eph_ok g' b) \<and> (conv_table g b \<longrightarrow> conv_table g' b)"
  proof (cases "\<exists>mt arr nodes. body g b = Some (GTable mt arr nodes)")
    case True
    then obtain mt arr nodes where b: "body g b = Some (GTable mt arr nodes)" by blast
    obtain arr' nodes' where b': "body g' b = Some (GTable mt arr' nodes')" "list_all2 (value_sub g') arr' arr"
      "list_all2 (entry_sub g') nodes' nodes"
      using cl_body(2) [OF c b] body_sub_table [of g'] by blast
    have v: "okv g v \<Longrightarrow> okv g' v" "oko g t \<Longrightarrow> oko g' t" for v t using cl_okv [OF c] cl_oko [OF c] by blast+
    have s: "only_strings g g'" using c by (simp add: cl_def)
    have 1: "\<forall>v \<in> set arr'. okv g' v" if "\<forall>v \<in> set arr. okv g v"
      by (rule list_all2_all [OF b'(2) _ that]) (auto simp: value_sub_def dest: v)
    have 2: "\<forall>e \<in> set nodes'. okv g' (fst e)" if "\<forall>e \<in> set nodes. okv g (fst e)"
      by (rule list_all2_all [OF b'(3) _ that]) (auto simp: entry_sub_def dest: v)
    have 3: "\<forall>e \<in> set nodes'. snd e = GNil \<longrightarrow> okv g' (fst e)" if "\<forall>e \<in> set nodes. snd e = GNil \<longrightarrow> okv g (fst e)"
      by (rule list_all2_all [OF b'(3) _ that]) (auto simp: entry_sub_def dest: v)
    have 4: "\<forall>e \<in> set nodes'. conv g' e" if "\<forall>e \<in> set nodes. conv g e"
      by (rule list_all2_all [OF b'(3) _ that]) (use conv_only_strings [OF s] in \<open>auto simp: entry_sub_def conv_def\<close>)
    show ?thesis
      using 1 2 3 4 v(2) by (auto simp: wk_ok_def mt_ok_def eph_ok_def conv_table_def b b'(1) case_prod_unfold)
  next
    case False
    have "conv_table g' b"
    proof (cases "body g b")
      case None
      then show ?thesis using cl_body(1) [OF c] by (simp add: conv_table_def)
    next
      case (Some x)
      then obtain x' where "body g' b = Some x'" "body_sub g' x' x" using cl_body(2) [OF c] by blast
      then show ?thesis using False Some by (auto simp: conv_table_def body_sub_def split: gbody.split)
    qed
    then show ?thesis using False by (auto simp: wk_ok_def mt_ok_def eph_ok_def split: option.splits gbody.splits)
  qed
  then show "wk_ok g b \<Longrightarrow> wk_ok g' b" "mt_ok g b \<Longrightarrow> mt_ok g' b" "eph_ok g b \<Longrightarrow> eph_ok g' b" "conv_table g b \<Longrightarrow> conv_table g' b"
    by blast+
qed

lemma cl_done_ok: "cl g g' \<Longrightarrow> done_ok ph g b \<Longrightarrow> done_ok ph g' b"
  unfolding done_ok_def using cl_all_ok [of g g' ph b] cl_table_ok [of g g' b] cl_fields(6-8) [of g g'] by auto

section \<open>The clearing loops\<close>

definition vals_ok :: "gstate \<Rightarrow> nat \<Rightarrow> bool" where
  "vals_ok g h \<longleftrightarrow> (case body g h of
     Some (GTable mt arr nodes) \<Rightarrow> (\<forall>v \<in> set arr. okv g v) \<and> (\<forall>e \<in> set nodes. okv g (snd e)) | _ \<Rightarrow> True)"

definition keys_ok :: "gstate \<Rightarrow> nat \<Rightarrow> bool" where
  "keys_ok g h \<longleftrightarrow> (case body g h of
     Some (GTable mt arr nodes) \<Rightarrow> \<forall>e \<in> set nodes. snd e \<noteq> GNil \<longrightarrow> okv g (fst e) | _ \<Rightarrow> True)"

lemma strs_only_strings: "strs g g' \<Longrightarrow> only_strings g g'"
  unfolding strs_def only_strings_def using mkD(2) isstring_cong mkD(1) by blast

lemma strs_okv: "strs g g' \<Longrightarrow> okv g v \<Longrightarrow> okv g' v"
  using strs_mk mk_okv by blast

lemma iscleared_result:
  assumes "iscleared v g = (c, g')"
  shows "strs g g'" "\<not> c \<Longrightarrow> okv g' v"
  using iscleared_strs [of g v] iscleared_false [of v g] assms by simp_all

lemma iscleared_gone: "iscleared v g = (True, g') \<Longrightarrow> gone g' v"
  by (auto simp: iscleared_def gone_def split: gval.splits if_splits)

lemma clear_entry:
  assumes "(if v \<noteq> GNil then iscleared x g else (False, g)) = (c, g1)" and "strs g1 g2"
  shows "strs g g2" "x = k \<or> x = v \<Longrightarrow> entry_sub g2 (if c then (removeentry g1 k, GNil) else (k, v)) (k, v)" "\<not> c \<Longrightarrow> v \<noteq> GNil \<Longrightarrow> okv g2 x"
proof -
  have s: "strs g g1" using assms(1) iscleared_result(1) by (auto split: if_splits)
  show "strs g g2" using strs_trans [OF s assms(2)] .
  show "\<not> c \<Longrightarrow> v \<noteq> GNil \<Longrightarrow> okv g2 x" using assms iscleared_result(2) strs_okv by (auto split: if_splits)
  have "okv g2 (removeentry g1 k)" using strs_okv [OF assms(2) okv_removeentry] .
  moreover have "removeentry g1 k = k \<or> (\<exists>a. k = GRef a \<and> removeentry g1 k = GDead a)"
    by (simp add: removeentry_def split: gval.split)
  moreover have "gone g2 x" if "c"
    using assms(1) that iscleared_gone gone_only_strings [OF strs_only_strings [OF assms(2)]] by (auto split: if_splits)
  ultimately show "entry_sub g2 (if c then (removeentry g1 k, GNil) else (k, v)) (k, v)" if "x = k \<or> x = v"
    using that by (auto simp: entry_sub_def)
qed

lemma entries_mono: "strs g g' \<Longrightarrow> list_all2 (entry_sub g) xs ys \<Longrightarrow> list_all2 (entry_sub g') xs ys"
  by (erule list_all2_mono) (rule entry_sub_mono, erule strs_only_strings)

lemma clear_key_nodes_ok:
  "clear_key_nodes ns g = (ns', g') \<Longrightarrow>
    strs g g' \<and> list_all2 (entry_sub g') ns' ns \<and> (\<forall>e \<in> set ns'. snd e \<noteq> GNil \<longrightarrow> okv g' (fst e))"
proof (induction ns g arbitrary: ns' g' rule: clear_key_nodes.induct)
  case (2 k v ns g)
  obtain c g1 where c: "(if v \<noteq> GNil then iscleared k g else (False, g)) = (c, g1)" by fastforce
  obtain ns1 g2 where r: "clear_key_nodes ns g1 = (ns1, g2)" by fastforce
  note i = "2.IH" [OF c [symmetric] refl refl r]
  have e: "ns' = (if c then (removeentry g1 k, GNil) else (k, v)) # ns1" "g' = g2"
    using "2.prems" by (simp_all add: c r)
  show ?case using i clear_entry(1,3) [OF c, of g2] clear_entry(2) [OF c, of g2 k] unfolding e by auto
qed simp

lemma clear_value_nodes_ok:
  "clear_value_nodes ns g = (ns', g') \<Longrightarrow>
    strs g g' \<and> list_all2 (entry_sub g') ns' ns \<and> (\<forall>e \<in> set ns'. okv g' (snd e))"
proof (induction ns g arbitrary: ns' g' rule: clear_value_nodes.induct)
  case (2 k v ns g)
  obtain c g1 where c: "(if v \<noteq> GNil then iscleared v g else (False, g)) = (c, g1)" by fastforce
  obtain ns1 g2 where r: "clear_value_nodes ns g1 = (ns1, g2)" by fastforce
  note i = "2.IH" [OF c [symmetric] refl refl r]
  have e: "ns' = (if c then (removeentry g1 k, GNil) else (k, v)) # ns1" "g' = g2"
    using "2.prems" by (simp_all add: c r)
  have "okv g2 v" if "\<not> c" using clear_entry(3) [OF c, of g2] i that by (cases "v = GNil") auto
  then show ?case using i clear_entry(1) [OF c, of g2] clear_entry(2) [OF c, of g2 k] unfolding e by auto
qed simp

lemma clear_array_ok:
  "clear_array vs g = (vs', g') \<Longrightarrow> strs g g' \<and> list_all2 (value_sub g') vs' vs \<and> (\<forall>v \<in> set vs'. okv g' v)"
proof (induction vs g arbitrary: vs' g' rule: clear_array.induct)
  case (2 v vs g)
  obtain c g1 where c: "iscleared v g = (c, g1)" by fastforce
  obtain vs1 g2 where r: "clear_array vs g1 = (vs1, g2)" by fastforce
  note i = "2.IH" [OF c [symmetric] refl r]
  have e: "vs' = (if c then GNil else v) # vs1" "g' = g2" using "2.prems" by (simp_all add: c r)
  have "strs g1 g2" using i by blast
  then have gv: "gone g2 v" if c
    using gone_only_strings [OF strs_only_strings [OF \<open>strs g1 g2\<close>] iscleared_gone] c that by simp
  have "okv g2 v" if "\<not> c" using iscleared_result(2) [OF c that] strs_okv i by blast
  then show ?case using i gv strs_trans [OF iscleared_result(1) [OF c]] unfolding e by (auto simp: value_sub_def)
qed simp

lemma cl_store:
  assumes s: "strs g g1" and b: "body g h = Some (GTable mt arr nodes)"
    and a: "list_all2 (value_sub g1) arr' arr" "list_all2 (entry_sub g1) nodes' nodes"
  shows "cl g (set_body h (GTable mt arr' nodes') g1)" "body (set_body h (GTable mt arr' nodes') g1) h = Some (GTable mt arr' nodes')"
proof -
  let ?g = "set_body h (GTable mt arr' nodes') g1"
  have m: "mk g g1" using s by (rule strs_mk)
  have b1: "body g1 h = Some (GTable mt arr nodes)" using mkD(1) [OF m] b by simp
  show bh: "body ?g h = Some (GTable mt arr' nodes')" using b1 by (simp add: body_set_body)
  have i: "isstring ?g c = isstring g1 c" for c using b1 by (cases "c = h") (simp_all add: isstring_def body_set_body)
  have "g1 = g\<lparr>gs_heap := gs_heap g1\<rparr>"
    using mk_fields [OF m] strs_gray [OF s] unfolding same_rest_def by (cases g; cases g1) simp
  then have "?g = g\<lparr>gs_heap := gs_heap ?g\<rparr>"
    unfolding set_body_def by (cases g; cases g1) simp
  moreover have "only_strings g ?g" using strs_only_strings [OF s] i by (simp add: only_strings_def)
  moreover have "obj ?g c = None \<longleftrightarrow> obj g c = None" for c using mk_none [OF m] by (simp add: obj_set_body)
  moreover have "has_mark P ?g c = has_mark P g c" if "white ?g c" for c P
    using that has_mark_cong [OF mkD(5) [OF m, of c], of P] by simp
  moreover have "rel_option (body_sub ?g) (body ?g c) (body g c)" for c
  proof (cases "c = h")
    case True
    have "body_sub ?g (GTable mt arr' nodes') (GTable mt arr nodes)"
    proof -
      have o: "only_strings g1 ?g" using i by (simp add: only_strings_def)
      have "list_all2 (value_sub ?g) arr' arr" using a(1) by (rule list_all2_mono) (rule value_sub_mono [OF o])
      moreover have "list_all2 (entry_sub ?g) nodes' nodes" using a(2) by (rule list_all2_mono) (rule entry_sub_mono [OF o])
      ultimately show ?thesis by (simp add: body_sub_def)
    qed
    then show ?thesis using True bh b by simp
  next
    case False
    then show ?thesis using mkD(1) [OF m] by (cases "body g c") (simp_all add: body_set_body)
  qed
  ultimately show "cl g ?g" by (simp add: cl_def)
qed

lemma clear_keys_table_cl: "cl g (clear_keys_table h g)" "keys_ok (clear_keys_table h g) h"
proof -
  have "cl g (clear_keys_table h g) \<and> keys_ok (clear_keys_table h g) h"
  proof (cases "\<exists>mt arr nodes. body g h = Some (GTable mt arr nodes)")
    case True
    then obtain mt arr nodes where b: "body g h = Some (GTable mt arr nodes)" by blast
    obtain ns g1 where r: "clear_key_nodes nodes g = (ns, g1)" by fastforce
    note n = clear_key_nodes_ok [OF r]
    have a: "list_all2 (value_sub k) arr arr" for k by (simp add: list_all2_refl)
    show ?thesis
      using cl_store [OF conjunct1 [OF n] b a conjunct1 [OF conjunct2 [OF n]]] n b
      by (simp add: clear_keys_table_def r keys_ok_def)
  next
    case False
    then have "clear_keys_table h g = g" by (auto simp: clear_keys_table_def split: option.split gbody.split)
    then show ?thesis using False by (auto simp: keys_ok_def split: option.split gbody.split)
  qed
  then show "cl g (clear_keys_table h g)" "keys_ok (clear_keys_table h g) h" by blast+
qed

lemma clear_values_table_cl: "cl g (clear_values_table h g)" "vals_ok (clear_values_table h g) h"
proof -
  have "cl g (clear_values_table h g) \<and> vals_ok (clear_values_table h g) h"
  proof (cases "\<exists>mt arr nodes. body g h = Some (GTable mt arr nodes)")
    case True
    then obtain mt arr nodes where b: "body g h = Some (GTable mt arr nodes)" by blast
    obtain vs g1 where r1: "clear_array arr g = (vs, g1)" by fastforce
    obtain ns g2 where r2: "clear_value_nodes nodes g1 = (ns, g2)" by fastforce
    note n1 = clear_array_ok [OF r1] and n2 = clear_value_nodes_ok [OF r2]
    have s: "strs g g2" using n1 n2 strs_trans by blast
    have "\<forall>v \<in> set vs. okv g2 v" using n1 n2 strs_okv by blast
    have a: "list_all2 (value_sub g2) vs arr"
      using conjunct1 [OF conjunct2 [OF n1]] by (rule list_all2_mono) (rule value_sub_mono [OF strs_only_strings [OF conjunct1 [OF n2]]])
    show ?thesis
      using \<open>\<forall>v \<in> set vs. okv g2 v\<close> cl_store [OF s b a conjunct1 [OF conjunct2 [OF n2]]] n2 b
      by (simp add: clear_values_table_def r1 r2 vals_ok_def)
  next
    case False
    then have "clear_values_table h g = g" by (auto simp: clear_values_table_def split: option.split gbody.split)
    then show ?thesis using False by (auto simp: vals_ok_def split: option.split gbody.split)
  qed
  then show "cl g (clear_values_table h g)" "vals_ok (clear_values_table h g) h" by blast+
qed

lemma cl_vals_keys:
  assumes c: "cl g g'"
  shows "vals_ok g h \<Longrightarrow> vals_ok g' h" "keys_ok g h \<Longrightarrow> keys_ok g' h"
proof -
  have "(vals_ok g h \<longrightarrow> vals_ok g' h) \<and> (keys_ok g h \<longrightarrow> keys_ok g' h)"
  proof (cases "body g h")
    case None
    then show ?thesis using cl_body(1) [OF c] by (simp add: vals_ok_def keys_ok_def)
  next
    case (Some x)
    obtain x' where x': "body g' h = Some x'" "body_sub g' x' x" using cl_body(2) [OF c Some] by blast
    show ?thesis
    proof (cases "\<exists>mt arr nodes. x = GTable mt arr nodes")
      case True
      then obtain mt arr nodes where x: "x = GTable mt arr nodes" by blast
      obtain arr' nodes' where t: "x' = GTable mt arr' nodes'" "list_all2 (value_sub g') arr' arr"
        "list_all2 (entry_sub g') nodes' nodes" using body_sub_table x'(2) unfolding x by blast
      have v: "okv g v \<Longrightarrow> okv g' v" for v using cl_okv [OF c] by blast
      have 1: "\<forall>v \<in> set arr'. okv g' v" if "\<forall>v \<in> set arr. okv g v"
        by (rule list_all2_all [OF t(2) _ that]) (auto simp: value_sub_def dest: v)
      have 2: "\<forall>e \<in> set nodes'. okv g' (snd e)" if "\<forall>e \<in> set nodes. okv g (snd e)"
        by (rule list_all2_all [OF t(3) _ that]) (auto simp: entry_sub_def dest: v)
      have 3: "\<forall>e \<in> set nodes'. snd e \<noteq> GNil \<longrightarrow> okv g' (fst e)" if "\<forall>e \<in> set nodes. snd e \<noteq> GNil \<longrightarrow> okv g (fst e)"
        by (rule list_all2_all [OF t(3) _ that]) (auto simp: entry_sub_def dest: v)
      show ?thesis using 1 2 3 Some x x' t by (simp add: vals_ok_def keys_ok_def)
    next
      case False
      then have "x' = x" using body_sub_other [OF x'(2)] by blast
      then show ?thesis using False Some x' by (auto simp: vals_ok_def keys_ok_def split: gbody.split)
    qed
  qed
  then show "vals_ok g h \<Longrightarrow> vals_ok g' h" "keys_ok g h \<Longrightarrow> keys_ok g' h" by blast+
qed

lemma fold_cl:
  assumes f: "\<And>h g. cl g (f h g)" "\<And>h g. P (f h g) h" and mono: "\<And>g g' h. cl g g' \<Longrightarrow> P g h \<Longrightarrow> P g' h"
  shows "cl g (fold f l g) \<and> (\<forall>h \<in> set l. P (fold f l g) h)"
proof (induction l arbitrary: g)
  case (Cons a l)
  have "cl g (fold f l (f a g))" using cl_trans [OF f(1)] Cons.IH by blast
  moreover have "P (fold f l (f a g)) a" using mono [OF _ f(2)] Cons.IH by blast
  ultimately show ?case using Cons.IH by simp
qed simp

lemma clearkeys_cl: "cl g (clearkeys l g)" "h \<in> set l \<Longrightarrow> keys_ok (clearkeys l g) h"
  using fold_cl [where f = clear_keys_table and P = keys_ok, OF clear_keys_table_cl cl_vals_keys(2)]
  by (simp_all add: clearkeys_def)

text \<open>The elements in front of the old head are exactly the new ones, as no object is in a list twice.\<close>

lemma takeWhile_new: "distinct (n @ l) \<Longrightarrow> (case l of [] \<Rightarrow> n @ l | f # _ \<Rightarrow> takeWhile (\<lambda>h. h \<noteq> f) (n @ l)) = n"
proof (cases l)
  case (Cons f xs)
  assume "distinct (n @ l)"
  then have "\<And>h. h \<in> set n \<Longrightarrow> h \<noteq> f" using Cons by auto
  then show ?thesis using Cons by (simp add: takeWhile_append2)
qed simp

lemma clearvalues_cl:
  "cl g (clearvalues l orig g)" "distinct (n @ orig) \<Longrightarrow> l = n @ orig \<Longrightarrow> h \<in> set n \<Longrightarrow> vals_ok (clearvalues l orig g) h"
proof -
  have f: "cl g (fold clear_values_table xs g) \<and> (\<forall>h \<in> set xs. vals_ok (fold clear_values_table xs g) h)" for xs
    by (rule fold_cl [where f = clear_values_table and P = vals_ok, OF clear_values_table_cl cl_vals_keys(1)])
  show "cl g (clearvalues l orig g)" unfolding clearvalues_def using f by blast
  show "distinct (n @ orig) \<Longrightarrow> l = n @ orig \<Longrightarrow> h \<in> set n \<Longrightarrow> vals_ok (clearvalues l orig g) h"
    unfolding clearvalues_def using f takeWhile_new [of n orig] by metis
qed

section \<open>The invariant through the second half\<close>

lemma cl_container: "cl g g' \<Longrightarrow> container g' a = container g a"
proof (cases "body g a")
  case None
  assume c: "cl g g'"
  then show ?thesis using cl_body(1) [OF c None] None by (simp add: container_def)
next
  case (Some x)
  assume c: "cl g g'"
  obtain x' where "body g' a = Some x'" "body_sub g' x' x" using cl_body(2) [OF c Some] by blast
  then show ?thesis using Some by (auto simp: container_def body_sub_def)
qed

lemma cl_at_inv:
  assumes c: "cl g g'" and i: "at_inv [] g" and gr: "gs_gray g = []"
  shows "at_inv [] g'" "gs_gray g' = []"
proof -
  note f = cl_fields [OF c]
  show g': "gs_gray g' = []" using f gr by simp
  have "linked [] g'"
  proof -
    have l: "all_lists [] g' = all_lists [] g" using f by (simp add: all_lists_def)
    show ?thesis using i cl_white [OF c] cl_container [OF c] unfolding at_inv_def linked_def l by blast
  qed
  moreover have "done_ok True g' a" if "obj g' a \<noteq> None" "\<not> white g' a" for a
  proof (cases "white g a")
    case True
    then have s: "isstring g' a" using that c unfolding cl_def only_strings_def by blast
    then show ?thesis by (auto simp: done_ok_def all_ok_def isstring_def split: option.splits gbody.splits)
  next
    case False
    have "obj g a \<noteq> None" using that c unfolding cl_def by metis
    then show ?thesis using cl_done_ok [OF c] at_inv_done [OF i gr] False by blast
  qed
  then have "tricolour True {} g'" by (simp add: tricolour_def)
  ultimately show "at_inv [] g'"
    using i f g' cl_white [OF c] by (auto simp: at_inv_def twups_marked_def)
qed

lemma snd_entry_of [simp]: "snd (entry_of e) = snd e"
  by (simp add: entry_of_def)

lemma ext_vals_ok:
  assumes e: "ext g g'" and v: "vals_ok g h"
  shows "vals_ok g' h"
proof -
  have s: "gshape g' h = gshape g h" using e by (simp add: ext_def)
  have i: "vals_ok k h \<longleftrightarrow> (case gshape k h of
      Some (GTable mt arr nodes) \<Rightarrow> (\<forall>v \<in> set arr. okv k v) \<and> (\<forall>e \<in> set nodes. okv k (snd e)) | _ \<Rightarrow> True)" for k
    by (auto simp: vals_ok_def gshape_def split: option.split gbody.split)
  have m: "valiswhite g' v \<Longrightarrow> valiswhite g v" for v using ext_okv [OF e] by blast
  show ?thesis using v unfolding i s by (auto dest: m split: option.splits gbody.splits)
qed

text \<open>An open upvalue is in a slot of the stack of a thread.\<close>

definition stacks_ok :: "gstate \<Rightarrow> bool" where
  "stacks_ok g \<longleftrightarrow> (\<forall>u x th i. upv g u = Some x \<and> uv_open x = Some (th, i) \<longrightarrow>
     (\<exists>st tp ups. body g th = Some (GThread (Some st) tp ups) \<and> i < length st))"

lemma stacks_ok_ext:
  assumes e: "ext g g'" and s: "stacks_ok g"
  shows "stacks_ok g'"
  unfolding stacks_ok_def
proof (intro allI impI)
  fix u x th i
  assume a: "upv g' u = Some x \<and> uv_open x = Some (th, i)"
  have "map_option (\<lambda>x. x\<lparr>uv_touched := False\<rparr>) (upv g' u) = map_option (\<lambda>x. x\<lparr>uv_touched := False\<rparr>) (upv g u)"
    using e by (simp add: ext_def ups_same_def)
  then obtain y where y: "upv g u = Some y" "x\<lparr>uv_touched := False\<rparr> = y\<lparr>uv_touched := False\<rparr>" using a by (cases "upv g u") auto
  have "uv_open y = uv_open x" using arg_cong [OF y(2), of uv_open] by simp
  then obtain st tp ups where b: "body g th = Some (GThread (Some st) tp ups)" "i < length st"
    using s a y(1) unfolding stacks_ok_def by metis
  have "gshape g' th = Some (GThread (Some (clear_stack tp st)) tp ups)" using e b by (simp add: ext_def gshape_def)
  then obtain c where c: "body g' th = Some c" "shape c = GThread (Some (clear_stack tp st)) tp ups"
    by (auto simp: gshape_def)
  then obtain st' where "c = GThread (Some st') tp ups" "clear_stack tp st' = clear_stack tp st"
    by (cases c) auto
  moreover have "length st' = length st" using calculation(2) length_clear_stack by metis
  ultimately show "\<exists>st tp ups. body g' th = Some (GThread (Some st) tp ups) \<and> i < length st" using c b by auto
qed

lemma stacks_ok_cl:
  assumes c: "cl g g'" and s: "stacks_ok g"
  shows "stacks_ok g'"
  unfolding stacks_ok_def upv_cong [OF cl_fields(1) [OF c]]
proof (intro allI impI)
  fix u x th i
  assume "upv g u = Some x \<and> uv_open x = Some (th, i)"
  then obtain st tp ups where b: "body g th = Some (GThread (Some st) tp ups)" "i < length st"
    using s unfolding stacks_ok_def by blast
  then show "\<exists>st tp ups. body g' th = Some (GThread (Some st) tp ups) \<and> i < length st"
    using cl_body(2) [OF c b(1)] by (auto simp: body_sub_def)
qed

lemma at_inv_cong:
  assumes "\<And>b. white g' b = white g b" "\<And>b. body g' b = body g b" "gs_upvals g' = gs_upvals g"
    "gs_gray g' = gs_gray g" "gs_weak g' = gs_weak g" "gs_allweak g' = gs_allweak g" "gs_ephemeron g' = gs_ephemeron g"
    "gs_twups g' = gs_twups g" "gs_gcstate g' = gs_gcstate g"
  shows "at_inv X g' = at_inv X g"
  using linked_cong [of g' g X X] tricolour_cong [of g' g True] assms by (simp add: at_inv_def all_lists_def twups_marked_def)

lemma at_inv_mk:
  assumes m: "mk g g'" and i: "at_inv [] g"
  shows "at_inv [] g'"
  using i linked_mk [OF m] tricolour_mk [OF m, of True "{}"] same_rest_fields(2,8) [OF mk_fields [OF m]] mkD(2) [OF m]
  by (auto simp: at_inv_def twups_marked_def)

text \<open>What holds when the white is flipped.\<close>

definition atomic_post :: "gstate \<Rightarrow> bool" where
  "atomic_post g \<longleftrightarrow> at_inv [] g \<and> gs_gray g = [] \<and> stacks_ok g \<and> (\<forall>h \<in> set (gs_ephemeron g). conv_table g h \<and> keys_ok g h) \<and>
     (\<forall>h \<in> set (gs_allweak g). keys_ok g h \<and> vals_ok g h) \<and> (\<forall>h \<in> set (gs_weak g). vals_ok g h) \<and>
     (\<forall>a \<in> set (gs_tobefnz g). \<not> white g a)"

definition roots_marked :: "nat \<Rightarrow> gstate \<Rightarrow> bool" where
  "roots_marked L g \<longleftrightarrow> \<not> white g L \<and> okv g (gs_registry g) \<and> (\<forall>t \<in> set (gs_mt g). oko g t)"

lemma roots_marked_mono:
  "(\<And>a. white g' a \<Longrightarrow> white g a) \<Longrightarrow> gs_registry g' = gs_registry g \<Longrightarrow> gs_mt g' = gs_mt g \<Longrightarrow> roots_marked L g \<Longrightarrow> roots_marked L g'"
  unfolding roots_marked_def using okv_mono oko_mono by metis

lemma cl_isstring:
  assumes "cl g g'"
  shows "isstring g' a = isstring g a"
proof -
  have "rel_option (body_sub g') (body g' a) (body g a)" using assms by (simp add: cl_def)
  then show ?thesis
    by (cases "body g' a"; cases "body g a") (auto simp: isstring_def body_sub_def)
qed

text \<open>
  Between the objects before and after, as far as marking does not change them: a value that is
  missing was a reference to an object that was not marked, or had such a key.
\<close>

definition shape_less :: "gstate \<Rightarrow> gbody \<Rightarrow> gbody \<Rightarrow> bool" where
  "shape_less g b' b \<longleftrightarrow> b' = b \<or> (\<exists>mt arr' arr nodes' nodes. b' = GTable mt arr' nodes' \<and> b = GTable mt arr nodes \<and>
     list_all2 (\<lambda>v' v. v' = v \<or> v' = GNil \<and> gone g v) arr' arr \<and>
     list_all2 (\<lambda>e' e. e' = e \<or> snd e' = GNil \<and> fst e' = fst e \<and> (gone g (fst e) \<or> gone g (snd e))) nodes' nodes)"

lemma shape_less_refl [simp]: "shape_less g b b"
  by (simp add: shape_less_def)

lemma shape_less_mono:
  assumes m: "\<And>v. gone g2 v \<Longrightarrow> gone g1 v" and b: "shape_less g2 b' b"
  shows "shape_less g1 b' b"
proof (cases "b' = b")
  case False
  then obtain mt arr' arr nodes' nodes where t: "b' = GTable mt arr' nodes'" "b = GTable mt arr nodes"
    "list_all2 (\<lambda>v' v. v' = v \<or> v' = GNil \<and> gone g2 v) arr' arr"
    "list_all2 (\<lambda>e' e. e' = e \<or> snd e' = GNil \<and> fst e' = fst e \<and> (gone g2 (fst e) \<or> gone g2 (snd e))) nodes' nodes"
    using b unfolding shape_less_def by blast
  have "list_all2 (\<lambda>v' v. v' = v \<or> v' = GNil \<and> gone g1 v) arr' arr"
    using t(3) by (rule list_all2_mono) (use m in blast)
  moreover have "list_all2 (\<lambda>e' e. e' = e \<or> snd e' = GNil \<and> fst e' = fst e \<and> (gone g1 (fst e) \<or> gone g1 (snd e))) nodes' nodes"
    using t(4) by (rule list_all2_mono) (use m in blast)
  ultimately show ?thesis unfolding shape_less_def using t(1,2) by blast
qed simp

lemma shape_less_trans:
  assumes m: "\<And>v. gone g2 v \<Longrightarrow> gone g1 v" and b: "shape_less g2 b3 b2" "shape_less g1 b2 b1"
  shows "shape_less g1 b3 b1"
proof (cases "b3 = b2 \<or> b2 = b1")
  case True
  then show ?thesis using b(2) shape_less_mono [OF m b(1)] by auto
next
  case False
  let ?V = "\<lambda>g v' v. v' = v \<or> v' = GNil \<and> gone g v"
  let ?E = "\<lambda>g e' e. e' = e \<or> snd e' = GNil \<and> fst e' = fst e \<and> (gone g (fst e) \<or> gone g (snd e))"
  obtain mt arr3 arr2 nodes3 nodes2 where 3: "b3 = GTable mt arr3 nodes3" "b2 = GTable mt arr2 nodes2"
    "list_all2 (?V g2) arr3 arr2" "list_all2 (?E g2) nodes3 nodes2" using b(1) False unfolding shape_less_def by blast
  obtain arr1 nodes1 where 1: "b1 = GTable mt arr1 nodes1"
    "list_all2 (?V g1) arr2 arr1" "list_all2 (?E g1) nodes2 nodes1" using b(2) False 3(2) unfolding shape_less_def by auto
  have "list_all2 (?V g1) arr3 arr1" by (rule list_all2_trans1 [OF 3(3) 1(2)]) (use m in auto)
  moreover have "list_all2 (?E g1) nodes3 nodes1" by (rule list_all2_trans1 [OF 3(4) 1(3)]) (use m in auto)
  ultimately show ?thesis unfolding shape_less_def using 3(1) 1(1) by blast
qed

lemma rel_shape_less_trans:
  assumes "\<And>v. gone g2 v \<Longrightarrow> gone g1 v" and "rel_option (shape_less g2) x3 x2" "rel_option (shape_less g1) x2 x1"
  shows "rel_option (shape_less g1) x3 x1"
  using assms(2,3) shape_less_trans [OF assms(1)] by (cases x1; cases x2; cases x3) auto

lemma cl_gone: "cl g g' \<Longrightarrow> gone g' v \<Longrightarrow> gone g v"
  unfolding cl_def only_strings_def gone_def by blast

lemma cl_shape_less:
  assumes c: "cl g g'"
  shows "rel_option (shape_less g) (gshape g' a) (gshape g a)"
proof -
  have s: "shape_less g (shape b') (shape b)" if sub: "body_sub g' b' b" for b' b
  proof (cases "b' = b")
    case False
    then obtain mt arr' arr nodes' nodes where t: "b' = GTable mt arr' nodes'" "b = GTable mt arr nodes"
      "list_all2 (value_sub g') arr' arr" "list_all2 (entry_sub g') nodes' nodes" using sub unfolding body_sub_def by blast
    have 1: "list_all2 (\<lambda>v' v. v' = v \<or> v' = GNil \<and> gone g v) arr' arr"
      using t(3) by (rule list_all2_mono) (use cl_gone [OF c] in \<open>auto simp: value_sub_def\<close>)
    have en: "(\<lambda>e' e. e' = e \<or> snd e' = GNil \<and> fst e' = fst e \<and> (gone g (fst e) \<or> gone g (snd e))) (entry_of e') (entry_of e)"
      if n: "entry_sub g' e' e" for e' e
    proof (cases "e' = e")
      case False
      then have "snd e' = GNil" "gone g (fst e) \<or> gone g (snd e)" "fst (entry_of e') = fst (entry_of e)"
        using n cl_gone [OF c] unfolding entry_sub_def entry_of_def by auto
      moreover have "gone g (fst e) \<Longrightarrow> gone g (fst (entry_of e))" by (auto simp: gone_def entry_of_def)
      ultimately show ?thesis by auto
    qed simp
    have "list_all2 (\<lambda>e' e. e' = e \<or> snd e' = GNil \<and> fst e' = fst e \<and> (gone g (fst e) \<or> gone g (snd e)))
        (map entry_of nodes') (map entry_of nodes)"
      unfolding list_all2_map1 list_all2_map2 by (rule list_all2_mono [OF t(4) en])
    then show ?thesis using t 1 by (simp add: shape_less_def)
  qed simp
  have "rel_option (body_sub g') (body g' a) (body g a)" using c by (simp add: cl_def)
  then show ?thesis using s by (cases "body g' a"; cases "body g a") (auto simp: gshape_def)
qed

text \<open>Objects that are to be finalized move from one list to another.\<close>

definition same_lists :: "(nat \<Rightarrow> bool) \<Rightarrow> gstate \<Rightarrow> gstate \<Rightarrow> bool" where
  "same_lists W g g' \<longleftrightarrow> gs_allgc g' = gs_allgc g \<and> gs_fixedgc g' = gs_fixedgc g \<and> gs_mainthread g' = gs_mainthread g \<and>
     gs_finobj g' = filter (\<lambda>a. \<not> W a) (gs_finobj g) \<and> gs_tobefnz g' = gs_tobefnz g @ filter W (gs_finobj g)"

lemma same_lists_trans:
  assumes "same_lists W g g'"
  shows "cl g' g'' \<Longrightarrow> same_lists W g g''" "ext g' g'' \<Longrightarrow> same_lists W g g''"
proof -
  show "same_lists W g g''" if "cl g' g''"
  proof -
    have e: "g'' = g'\<lparr>gs_heap := gs_heap g''\<rparr>" using that by (simp add: cl_def)
    show ?thesis using assms by (subst e) (simp add: same_lists_def)
  qed
  show "same_lists W g g''" if "ext g' g''"
    using that assms by (simp add: same_lists_def ext_def same_roots_def)
qed

lemma atomic_clear_post:
  assumes i: "at_inv [] g" and gr: "gs_gray g = []" and st: "stacks_ok g" and L: "roots_marked L g"
  shows "atomic_post (atomic_clear g)" "roots_marked L (atomic_clear g)"
    "white (atomic_clear g) a \<Longrightarrow> white g a \<and> has_mark P (atomic_clear g) a = has_mark P g a"
    "gs_currentwhite (atomic_clear g) = gs_currentwhite g" "obj (atomic_clear g) a = None \<longleftrightarrow> obj g a = None"
    "\<exists>W. same_lists W g (atomic_clear g)" "isstring (atomic_clear g) a = isstring g a"
    "rel_option (shape_less g) (gshape (atomic_clear g) a) (gshape g a)"
proof -
  define g1 where "g1 = clearvalues (gs_weak g) [] g"
  define g2 where "g2 = clearvalues (gs_allweak g1) [] g1"
  define g3 where "g3 = (separatetobefnz False g2)\<lparr>gs_gcfinnum := 1\<rparr>"
  define g4 where "g4 = markbeingfnz g3"
  define g5 where "g5 = propagateall g4"
  define g6 where "g6 = convergeephemerons g5"
  define g7 where "g7 = clearkeys (gs_ephemeron g6) g6"
  define g8 where "g8 = clearkeys (gs_allweak g7) g7"
  define g9 where "g9 = clearvalues (gs_weak g8) (gs_weak g2) g8"
  define g10 where "g10 = clearvalues (gs_allweak g9) (gs_allweak g2) g9"
  have e: "atomic_clear g = g10"
    by (simp add: atomic_clear_def Let_def g1_def g2_def g3_def g4_def g5_def g6_def g7_def g8_def g9_def g10_def)
  have d: "distinct (gs_weak g)" "distinct (gs_allweak g)" using i by (auto simp: at_inv_def linked_def all_lists_def)
  have c1: "cl g g1" "\<forall>h \<in> set (gs_weak g). vals_ok g1 h"
    unfolding g1_def using clearvalues_cl(1) clearvalues_cl(2) [where orig = "[]" and n = "gs_weak g"] d by simp_all
  have c2: "cl g1 g2" "\<forall>h \<in> set (gs_allweak g1). vals_ok g2 h"
    unfolding g2_def using clearvalues_cl(1) clearvalues_cl(2) [where orig = "[]" and n = "gs_allweak g1"] d cl_fields(8) [OF c1(1)] by simp_all
  have c: "cl g g2" using cl_trans [OF c1(1) c2(1)] .
  have v2: "\<forall>h \<in> set (gs_weak g2) \<union> set (gs_allweak g2). vals_ok g2 h"
    using c1(2) c2(2) cl_vals_keys(1) [OF c2(1)] cl_fields(6,8) [OF c] cl_fields(8) [OF c1(1)] by auto
  note i2 = cl_at_inv [OF c i gr]
  have s3: "gs_heap g3 = gs_heap g2" "gs_upvals g3 = gs_upvals g2" "gs_gray g3 = gs_gray g2" "gs_weak g3 = gs_weak g2"
    "gs_allweak g3 = gs_allweak g2" "gs_ephemeron g3 = gs_ephemeron g2" "gs_twups g3 = gs_twups g2" "gs_gcstate g3 = gs_gcstate g2"
    "gs_registry g3 = gs_registry g2" "gs_mt g3 = gs_mt g2" "gs_currentwhite g3 = gs_currentwhite g2"
    by (simp_all add: g3_def separatetobefnz_def Let_def)
  have o3: "obj g3 b = obj g2 b" for b using s3(1) by (simp add: obj_def)
  have w3: "has_mark P g3 b = has_mark P g2 b" "body g3 b = body g2 b" for P b
    using has_mark_cong [OF o3] body_cong [OF o3] by blast+
  have i3: "at_inv [] g3" using at_inv_cong [of g3 g2] w3 s3 i2 by simp
  have m4: "mk g3 g4" unfolding g4_def markbeingfnz_def by (rule fold_markobject)
  have i4: "at_inv [] g4" by (rule at_inv_mk [OF m4 i3])
  have i5: "at_inv [] g5" "ext g4 g5" "gs_gray g5 = []" unfolding g5_def using propagateall_at_inv [OF i4] by blast+
  have i6: "at_inv [] g6" "ext g5 g6" "gs_gray g6 = []" "\<forall>h \<in> set (gs_ephemeron g6). conv_table g6 h"
    unfolding g6_def using convergeephemerons_at_inv [OF i5(1,3)] by blast+
  have e6: "ext g3 g6" using ext_trans [OF ext_mk [OF m4] ext_trans [OF i5(2) i6(2)]] .
  obtain nw na where n: "gs_weak g6 = nw @ gs_weak g2" "gs_allweak g6 = na @ gs_allweak g2"
    using e6 s3 by (auto simp: ext_def)
  have dn: "distinct (nw @ gs_weak g2)" "distinct (na @ gs_allweak g2)"
    using i6(1) n by (auto simp: at_inv_def linked_def all_lists_def)
  have v6: "\<forall>h \<in> set (gs_weak g2) \<union> set (gs_allweak g2). vals_ok g6 h"
  proof
    fix h
    assume "h \<in> set (gs_weak g2) \<union> set (gs_allweak g2)"
    then have "vals_ok g2 h" using v2 by blast
    moreover have "valiswhite g3 v = valiswhite g2 v" for v using w3(1) okv_cong by blast
    ultimately have "vals_ok g3 h" by (simp add: vals_ok_def w3(2) cong: option.case_cong gbody.case_cong)
    then show "vals_ok g6 h" by (rule ext_vals_ok [OF e6])
  qed
  have c7: "cl g6 g7" "\<forall>h \<in> set (gs_ephemeron g6). keys_ok g7 h" unfolding g7_def using clearkeys_cl by blast+
  have c8: "cl g7 g8" "\<forall>h \<in> set (gs_allweak g7). keys_ok g8 h" unfolding g8_def using clearkeys_cl by blast+
  have l8: "gs_weak g8 = nw @ gs_weak g2" "gs_allweak g7 = na @ gs_allweak g2"
    using n cl_fields(6,8) [OF cl_trans [OF c7(1) c8(1)]] cl_fields(8) [OF c7(1)] by simp_all
  have c9: "cl g8 g9" "\<forall>h \<in> set nw. vals_ok g9 h" unfolding g9_def using clearvalues_cl(1) clearvalues_cl(2) [OF dn(1) l8(1)] by blast+
  have l9: "gs_allweak g9 = na @ gs_allweak g2" using l8(2) cl_fields(8) [OF cl_trans [OF c8(1) c9(1)]] by simp
  have c10: "cl g9 g10" "\<forall>h \<in> set na. vals_ok g10 h" unfolding g10_def using clearvalues_cl(1) clearvalues_cl(2) [OF dn(2) l9] by blast+
  have c710: "cl g7 g10" using cl_trans [OF c8(1) cl_trans [OF c9(1) c10(1)]] .
  have c610: "cl g6 g10" using cl_trans [OF c7(1) c710] .
  have c810: "cl g8 g10" using cl_trans [OF c9(1) c10(1)] .
  note f10 = cl_fields [OF c610]
  have stg: "stacks_ok g10"
  proof -
    have "stacks_ok g2" by (rule stacks_ok_cl [OF c st])
    then have "stacks_ok g3" by (simp add: stacks_ok_def upv_cong [OF s3(2)] w3(2))
    then show ?thesis using stacks_ok_cl [OF c610] stacks_ok_ext [OF e6] by blast
  qed
  have k10: "\<forall>h \<in> set (gs_ephemeron g10). conv_table g10 h \<and> keys_ok g10 h"
    using i6(4) c7(2) cl_table_ok(4) [OF c610] cl_vals_keys(2) [OF c710] f10 by auto
  have "keys_ok g10 h \<and> vals_ok g10 h" if "h \<in> set (gs_allweak g10)" for h
  proof -
    have h: "h \<in> set (na @ gs_allweak g2)" using that f10 n by simp
    then have "keys_ok g10 h" using c8(2) l8(2) cl_vals_keys(2) [OF c810] by auto
    moreover have "vals_ok g10 h" using h c10(2) v6 cl_vals_keys(1) [OF c610] by auto
    ultimately show ?thesis by blast
  qed
  moreover have "vals_ok g10 h" if "h \<in> set (gs_weak g10)" for h
  proof -
    have h: "h \<in> set (nw @ gs_weak g2)" using that f10 n by simp
    then show ?thesis using c9(2) v6 cl_vals_keys(1) [OF c610] cl_vals_keys(1) [OF c10(1)] by auto
  qed
  moreover have "\<not> white g10 b" if "b \<in> set (gs_tobefnz g10)" for b
  proof -
    have "gs_tobefnz g6 = gs_tobefnz g3" using e6 by (simp add: ext_def same_roots_def)
    then have "b \<in> set (gs_tobefnz g3)" using that f10 by simp
    then have "\<not> white g4 b" unfolding g4_def markbeingfnz_def by (rule fold_markobject(2))
    then show ?thesis using cl_white [OF c610] ext_white [OF ext_trans [OF i5(2) i6(2)]] by blast
  qed
  ultimately show "atomic_post (atomic_clear g)"
    unfolding e atomic_post_def using cl_at_inv [OF c610 i6(1,3)] stg k10 by blast
  have wm: "white g10 b \<Longrightarrow> white g b \<and> has_mark Q g10 b = has_mark Q g b" for b Q
  proof -
    assume w: "white g10 b"
    have w6: "white g6 b" and h6: "has_mark Q g10 b = has_mark Q g6 b" using cl_white [OF c610 w] c610 w by (simp_all add: cl_def)
    have w33: "white g3 b" and h3: "has_mark Q g6 b = has_mark Q g3 b" using e6 w6 unfolding ext_def by blast+
    have w2: "white g2 b" using w33 w3 by simp
    have "white g b" "has_mark Q g2 b = has_mark Q g b" using cl_white [OF c w2] c w2 by (simp_all add: cl_def)
    then show ?thesis using h6 h3 w3 by simp
  qed
  then show "white (atomic_clear g) a \<Longrightarrow> white g a \<and> has_mark P (atomic_clear g) a = has_mark P g a" unfolding e .
  have r: "gs_registry g10 = gs_registry g" "gs_mt g10 = gs_mt g" "gs_currentwhite g10 = gs_currentwhite g"
    using f10 cl_fields [OF c] s3 e6 by (simp_all add: ext_def same_roots_def)
  show "gs_currentwhite (atomic_clear g) = gs_currentwhite g" unfolding e by (rule r)
  show "roots_marked L (atomic_clear g)" unfolding e using roots_marked_mono [OF _ r(1,2) L] wm by blast
  show "obj (atomic_clear g) a = None \<longleftrightarrow> obj g a = None"
    unfolding e using c610 e6 o3 c by (simp add: cl_def ext_def)
  have "same_lists (white g2) g g3" using cl_fields [OF c] by (simp add: g3_def separatetobefnz_def same_lists_def)
  then show "\<exists>W. same_lists W g (atomic_clear g)"
    unfolding e using same_lists_trans(1) [OF same_lists_trans(2) [OF _ e6] c610] by blast
  have "gshape g6 a = gshape g3 a" using e6 unfolding ext_def by blast
  then have "isstring g6 a = isstring g3 a" by (rule isstring_gshape)
  then show "isstring (atomic_clear g) a = isstring g a"
    unfolding e cl_isstring [OF c610] using cl_isstring [OF c, of a] isstring_cong [of g3 a g2] w3(2) by simp
  show "rel_option (shape_less g) (gshape (atomic_clear g) a) (gshape g a)"
  proof -
    have s3: "gshape g3 a = gshape g2 a" by (simp add: gshape_def w3(2))
    have s6: "gshape g6 a = gshape g2 a" using e6 s3 unfolding ext_def by metis
    have g62: "gone g2 v" if "gone g6 v" for v
    proof -
      obtain b where b: "v = GRef b" "white g6 b" "\<not> isstring g6 b" using \<open>gone g6 v\<close> unfolding gone_def by blast
      have "white g2 b" using ext_white [OF e6] b(2) w3 by blast
      moreover have "gshape g6 b = gshape g3 b" using e6 unfolding ext_def by blast
      then have "isstring g6 b = isstring g2 b" using isstring_gshape [of g6 b g3] isstring_cong [OF w3(2)] by simp
      ultimately show ?thesis using b unfolding gone_def by blast
    qed
    have r: "rel_option (shape_less g2) (gshape g10 a) (gshape g2 a)"
      using cl_shape_less [OF c610, of a] rel_shape_less_trans [of g6 g2, OF g62] unfolding s6
      by (metis option.rel_refl shape_less_refl)
    show ?thesis unfolding e by (rule rel_shape_less_trans [OF cl_gone [OF c] r cl_shape_less [OF c]])
  qed
qed

end
