(* ===== verification/Lua_Gc_Spec.thy ===== *)
theory Lua_Gc_Spec
  imports Lua_Gc_Clear
begin

text \<open>
  What the collector guarantees.  After the atomic step no object that stays refers to one that will
  be freed; the sweep frees exactly the dead objects; the loops of the mark phase end; a step of the
  propagate phase and the barriers keep the invariant.
\<close>

section \<open>References\<close>

definition vref :: "gval \<Rightarrow> nat set" where
  "vref v = (case v of GRef a \<Rightarrow> {a} | _ \<Rightarrow> {})"

definition uref :: "gstate \<Rightarrow> nat option \<Rightarrow> nat set" where
  "uref g uv = (case uv of None \<Rightarrow> {} | Some u \<Rightarrow> (case upv g u of None \<Rightarrow> {} | Some x \<Rightarrow> vref (uv_v g x)))"

text \<open>
  All the addresses an object holds, weak ones included; the key of an entry without a value is no
  reference, but the code still compares it, so it has a set of its own.
\<close>

fun body_refs :: "gstate \<Rightarrow> gbody \<Rightarrow> nat set" where
  "body_refs g (GStr s) = {}"
| "body_refs g (GUdata mt uv) = set_option mt \<union> vref uv"
| "body_refs g (GLcl p ups) = set_option p \<union> (\<Union>u \<in> set ups. uref g u)"
| "body_refs g (GCcl vs) = (\<Union>v \<in> set vs. vref v)"
| "body_refs g (GTable mt arr nodes) =
     set_option mt \<union> (\<Union>v \<in> set arr. vref v) \<union> (\<Union>e \<in> {e \<in> set nodes. snd e \<noteq> GNil}. vref (fst e) \<union> vref (snd e))"
| "body_refs g (GThread st tp ups) = (case st of None \<Rightarrow> {} | Some vs \<Rightarrow> \<Union>v \<in> set vs. vref v)"
| "body_refs g (GProto cache source k upnames p locnames) =
     set_option cache \<union> set_option source \<union> (\<Union>v \<in> set k. vref v) \<union> (\<Union>t \<in> set upnames. set_option t) \<union>
     (\<Union>t \<in> set p. set_option t) \<union> (\<Union>t \<in> set locnames. set_option t)"

definition refs :: "gstate \<Rightarrow> nat \<Rightarrow> nat set" where
  "refs g a = (case body g a of None \<Rightarrow> {} | Some b \<Rightarrow> body_refs g b)"

definition empty_keys :: "gstate \<Rightarrow> nat \<Rightarrow> nat set" where
  "empty_keys g a = (case body g a of
     Some (GTable mt arr nodes) \<Rightarrow> (\<Union>e \<in> {e \<in> set nodes. snd e = GNil}. vref (fst e)) | _ \<Rightarrow> {})"

definition live :: "gstate \<Rightarrow> nat \<Rightarrow> bool" where
  "live g a \<longleftrightarrow> obj g a \<noteq> None \<and> \<not> isdead g a"

lemma okv_vref: "okv g v \<longleftrightarrow> (\<forall>a \<in> vref v. \<not> white g a)"
  by (simp add: valiswhite_def vref_def split: gval.split)

lemma oko_set: "oko g t \<longleftrightarrow> (\<forall>a \<in> set_option t. \<not> white g a)"
  by (simp add: oko_def split: option.split)

section \<open>Whites\<close>

text \<open>While marking, there is only one white.\<close>

definition one_white :: "gstate \<Rightarrow> bool" where
  "one_white g \<longleftrightarrow> gs_currentwhite g \<in> {bitmask WHITE0BIT, bitmask WHITE1BIT} \<and>
     (\<forall>a. white g a \<longrightarrow> has_mark (\<lambda>m. m AND gs_currentwhite g \<noteq> 0) g a)"

lemma currentwhite_bit:
  assumes "gs_currentwhite g \<in> {bitmask WHITE0BIT, bitmask WHITE1BIT}"
  obtains b where "b < 2" "gs_currentwhite g = bitmask b" "otherwhite g = bitmask (1 - b)"
proof -
  have "bitmask 0 XOR WHITEBITS = bitmask 1" "bitmask 1 XOR WHITEBITS = bitmask 0"
    by (auto intro!: bit_eqI simp: bit_xor_iff bit_bitmask bit_WHITEBITS)
  then show thesis using assms that [of 0] that [of 1] by (auto simp: otherwhite_def WHITE0BIT_def WHITE1BIT_def)
qed

lemma and_bitmask: "b < 8 \<Longrightarrow> m AND bitmask b \<noteq> 0 \<longleftrightarrow> bit m b"
  by (simp add: and_zero_bits bit_bitmask)

lemma isdeadm_bitmask: "b < 2 \<Longrightarrow> isdeadm (bitmask b) m \<longleftrightarrow> bit m b"
  unfolding isdeadm_def and_zero_bits by (auto simp: bit_bitmask bit_xor_iff bit_WHITEBITS)

text \<open>When the white is flipped, what is white is dead.\<close>

lemma dead_after_flip:
  assumes o: "one_white g" and g: "g' = g\<lparr>gs_currentwhite := otherwhite g\<rparr>"
  shows "isdead g' a \<longleftrightarrow> white g a"
proof -
  obtain b where b: "b < 2" "gs_currentwhite g = bitmask b" "otherwhite g = bitmask (1 - b)"
    using currentwhite_bit o unfolding one_white_def by blast
  have "otherwhite g' = gs_currentwhite g" by (simp add: g otherwhite_def xor.assoc)
  moreover have "isdeadm (bitmask b) = (\<lambda>m. bit m b)" using isdeadm_bitmask [OF b(1)] by blast
  ultimately have d: "isdead g' a = has_mark (\<lambda>m. bit m b) g a" by (simp add: isdead_def g b(2))
  have "has_mark (\<lambda>m. bit m b) g a \<Longrightarrow> white g a"
    using b(1) by (auto simp: has_mark_def iswhite_bits less_2_cases_iff split: option.splits)
  moreover have "white g a \<Longrightarrow> has_mark (\<lambda>m. bit m b) g a"
    using o b and_bitmask [of b] unfolding one_white_def by (simp add: has_mark_def split: option.splits)
  ultimately show ?thesis using d by blast
qed

section \<open>The atomic step\<close>

lemma uvok_uref:
  assumes i: "at_inv [] g" "gs_gray g = []" "stacks_ok g" and u: "uvok True g uv"
  shows "\<forall>a \<in> uref g uv. \<not> white g a"
proof (cases "\<exists>n x. uv = Some n \<and> upv g n = Some x")
  case False
  then show ?thesis by (auto simp: uref_def split: option.splits)
next
  case True
  then obtain n x where n: "uv = Some n" "upv g n = Some x" by blast
  have "okv g (uv_v g x)"
  proof (cases "uv_open x")
    case None
    then show ?thesis using u n by (simp add: uvok_def uv_v_def)
  next
    case (Some q)
    obtain th k where q: "q = (th, k)" by fastforce
    obtain st tp ups where b: "body g th = Some (GThread (Some st) tp ups)" "k < length st"
      using i(3) n(2) Some q unfolding stacks_ok_def by blast
    show ?thesis
    proof (cases "white g th")
      case True
      then show ?thesis using u n Some q by (simp add: uvok_def)
    next
      case False
      have "done_ok True g th" using at_inv_done [OF i(1,2) _ False] obj_body b(1) by simp
      then have "\<forall>v \<in> set st. okv g v"
        using b(1) by (auto simp: done_ok_def all_ok_def wk_ok_def mt_ok_def eph_ok_def)
      moreover have "uv_v g x = st ! k" using Some q b by (simp add: uv_v_def stack_slot_def)
      ultimately show ?thesis using b(2) by simp
    qed
  qed
  then show ?thesis using n okv_vref by (simp add: uref_def)
qed

lemma atomic_post_refs:
  assumes p: "atomic_post g" and a: "obj g a \<noteq> None" "\<not> white g a"
  shows "(\<forall>r \<in> refs g a. \<not> white g r) \<and> (a \<notin> set (gs_allweak g) \<longrightarrow> (\<forall>r \<in> empty_keys g a. \<not> white g r))"
proof -
  have i: "at_inv [] g" "gs_gray g = []" "stacks_ok g" using p by (simp_all add: atomic_post_def)
  have d: "done_ok True g a" using at_inv_done [OF i(1,2) a] .
  obtain b where b: "body g a = Some b" using a(1) obj_body by blast
  show ?thesis
  proof (cases "all_ok True g a")
    case True
    then have o: "body_ok True g b" using b by (simp add: all_ok_def)
    have "\<forall>r \<in> body_refs g b. \<not> white g r"
      using o uvok_uref [OF i] by (cases b) (auto simp: okv_vref oko_set split: option.splits)
    moreover have "\<forall>r \<in> empty_keys g a. \<not> white g r"
      using o b by (cases b) (auto simp: empty_keys_def okv_vref)
    ultimately show ?thesis by (simp add: refs_def b)
  next
    case False
    obtain mt arr nodes where t: "b = GTable mt arr nodes"
      using d False b by (auto simp: done_ok_def wk_ok_def mt_ok_def eph_ok_def split: gbody.splits)
    have ok: "oko g mt" "\<forall>v \<in> set arr. okv g v" "\<forall>e \<in> set nodes. snd e \<noteq> GNil \<longrightarrow> okv g (fst e) \<and> okv g (snd e)"
      "a \<notin> set (gs_allweak g) \<longrightarrow> (\<forall>e \<in> set nodes. snd e = GNil \<longrightarrow> okv g (fst e))"
    proof -
      consider "a \<in> set (gs_weak g)" "wk_ok g a" | "a \<in> set (gs_allweak g)" "mt_ok g a" | "a \<in> set (gs_ephemeron g)" "eph_ok g a"
        using d False by (auto simp: done_ok_def)
      then have "oko g mt \<and> (\<forall>v \<in> set arr. okv g v) \<and> (\<forall>e \<in> set nodes. snd e \<noteq> GNil \<longrightarrow> okv g (fst e) \<and> okv g (snd e)) \<and>
          (a \<notin> set (gs_allweak g) \<longrightarrow> (\<forall>e \<in> set nodes. snd e = GNil \<longrightarrow> okv g (fst e)))"
      proof cases
        case 1
        then show ?thesis using p b t by (fastforce simp: atomic_post_def wk_ok_def vals_ok_def)
      next
        case 2
        then show ?thesis using p b t by (fastforce simp: atomic_post_def mt_ok_def vals_ok_def keys_ok_def)
      next
        case 3
        then have "conv_table g a \<and> keys_ok g a" using p by (simp add: atomic_post_def)
        then have "\<forall>e \<in> set nodes. conv g e \<and> (snd e \<noteq> GNil \<longrightarrow> okv g (fst e))"
          using b t by (simp add: conv_table_def keys_ok_def)
        then show ?thesis using 3 b t by (fastforce simp: eph_ok_def conv_def)
      qed
      then show "oko g mt" "\<forall>v \<in> set arr. okv g v" "\<forall>e \<in> set nodes. snd e \<noteq> GNil \<longrightarrow> okv g (fst e) \<and> okv g (snd e)"
        "a \<notin> set (gs_allweak g) \<longrightarrow> (\<forall>e \<in> set nodes. snd e = GNil \<longrightarrow> okv g (fst e))" by blast+
    qed
    have "\<forall>r \<in> refs g a. \<not> white g r" using ok(1-3) by (auto simp: refs_def b t okv_vref oko_set)
    moreover have "a \<notin> set (gs_allweak g) \<longrightarrow> (\<forall>r \<in> empty_keys g a. \<not> white g r)"
      using ok(4) by (auto simp: empty_keys_def b t okv_vref)
    ultimately show ?thesis by blast
  qed
qed

lemma stacks_ok_upvals: "upvals_ok g \<Longrightarrow> stacks_ok g"
  unfolding upvals_ok_def stacks_ok_def by blast

lemma uref_currentwhite [simp]:
  "refs (g\<lparr>gs_currentwhite := w\<rparr>) a = refs g a" "empty_keys (g\<lparr>gs_currentwhite := w\<rparr>) a = empty_keys g a"
proof -
  have u: "uref (g\<lparr>gs_currentwhite := w\<rparr>) = uref g"
    using uv_v_cong [of "g\<lparr>gs_currentwhite := w\<rparr>" g] by (auto simp: uref_def upv_def fun_eq_iff split: option.split)
  have "body_refs (g\<lparr>gs_currentwhite := w\<rparr>) b = body_refs g b" for b by (cases b) (simp_all add: u)
  then show "refs (g\<lparr>gs_currentwhite := w\<rparr>) a = refs g a" "empty_keys (g\<lparr>gs_currentwhite := w\<rparr>) a = empty_keys g a"
    by (simp_all add: refs_def empty_keys_def split: option.split)
qed

text \<open>The state in which the code enters the atomic step.\<close>

definition atomic_pre :: "gstate \<Rightarrow> bool" where
  "atomic_pre g \<longleftrightarrow> prop_inv g \<and> gs_gray g = [] \<and> upvals_ok g \<and> one_white g"

text \<open>No object that stays, and no root, refers to an object that is dead.\<close>

definition no_dangling :: "nat \<Rightarrow> gstate \<Rightarrow> bool" where
  "no_dangling L g \<longleftrightarrow>
     (\<forall>a. live g a \<longrightarrow> (\<forall>r \<in> refs g a. \<not> isdead g r) \<and>
        (a \<notin> set (gs_allweak g) \<longrightarrow> (\<forall>r \<in> empty_keys g a. \<not> isdead g r))) \<and>
     (\<forall>r \<in> {L} \<union> vref (gs_registry g) \<union> (\<Union>t \<in> set (gs_mt g). set_option t). \<not> isdead g r) \<and>
     (\<forall>r \<in> set (gs_tobefnz g) \<union> set (gs_twups g). \<not> isdead g r)"

lemma atomic_no_dangling:
  assumes pre: "atomic_pre g"
  shows "no_dangling L (atomic L g)" "\<And>a. obj (atomic L g) a = None \<longleftrightarrow> obj g a = None"
    "\<exists>W. same_lists W g (atomic L g)" "gs_currentwhite (atomic L g) = otherwhite g"
    "\<And>a. white (atomic L g) a \<Longrightarrow> white g a" "\<And>a. isstring (atomic L g) a = isstring g a"
    "\<And>a. rel_option (shape_less (atomic_mark L g)) (gshape (atomic L g) a) (gshape g a)"
proof -
  have q: "prop_inv g" "gs_gray g = []" "upvals_ok g" "one_white g" using pre by (simp_all add: atomic_pre_def)
  let ?g0 = "g\<lparr>gs_gcstate := GCSinsideatomic\<rparr>"
  define g1 where "g1 = atomic_mark L g"
  define g2 where "g2 = atomic_clear g1"
  define g' where "g' = g2\<lparr>gs_currentwhite := otherwhite g2\<rparr>"
  note m = atomic_mark_at_inv [OF q(1-3), where L = L, folded g1_def]
  have reg: "gs_registry g1 = gs_registry g" "gs_mt g1 = gs_mt g" "gs_currentwhite g1 = gs_currentwhite g"
    using m(4) by (simp_all add: ext_def same_roots_def)
  have "stacks_ok ?g0" using stacks_ok_upvals [OF q(3)] by (simp add: stacks_ok_def)
  then have s1: "stacks_ok g1" by (rule stacks_ok_ext [OF m(4)])
  have "roots_marked L g1" using m(5-7) reg by (simp add: roots_marked_def)
  note c = atomic_clear_post [OF m(1,2) s1 this, folded g2_def]
  have w: "white g2 a \<Longrightarrow> white g a \<and> has_mark P g2 a = has_mark P g a" for P a
  proof -
    assume "white g2 a"
    then have "white g1 a" "has_mark P g2 a = has_mark P g1 a" using c(3) by blast+
    moreover have "white ?g0 a \<and> has_mark P g1 a = has_mark P ?g0 a" using m(4) \<open>white g1 a\<close> unfolding ext_def by blast
    ultimately show ?thesis by simp
  qed
  have "one_white g2"
  proof -
    have cw: "gs_currentwhite g2 = gs_currentwhite g" using c(4) reg(3) by simp
    show ?thesis using q(4) w unfolding one_white_def cw by blast
  qed
  then have d: "isdead g' a \<longleftrightarrow> white g2 a" for a using dead_after_flip g'_def by blast
  have e: "atomic L g = g'" by (simp add: atomic_def g'_def g2_def g1_def Let_def)
  have o: "obj g' a = obj g2 a" for a by (simp add: g'_def)
  have "(\<forall>r \<in> refs g' a. \<not> isdead g' r) \<and> (a \<notin> set (gs_allweak g') \<longrightarrow> (\<forall>r \<in> empty_keys g' a. \<not> isdead g' r))" if "live g' a" for a
    using atomic_post_refs [OF c(1), of a] that unfolding live_def d o by (simp add: g'_def)
  moreover have "\<not> isdead g' r" if "r \<in> {L} \<union> vref (gs_registry g') \<union> (\<Union>t \<in> set (gs_mt g'). set_option t)" for r
    using c(2) that unfolding d roots_marked_def okv_vref oko_set by (auto simp: g'_def)
  moreover have "\<not> isdead g' r" if "r \<in> set (gs_tobefnz g') \<union> set (gs_twups g')" for r
    using c(1) that unfolding d atomic_post_def at_inv_def twups_marked_def by (auto simp: g'_def)
  ultimately show "no_dangling L (atomic L g)" unfolding e no_dangling_def by blast
  have "obj ?g0 a = None \<longleftrightarrow> obj g1 a = None" for a using m(4) by (simp add: ext_def)
  then show "obj (atomic L g) a = None \<longleftrightarrow> obj g a = None" for a unfolding e o using c(5) by simp
  obtain W where "same_lists W g1 g2" using c(6) by blast
  then have "same_lists W g (atomic L g)"
    using m(4) by (simp add: e g'_def same_lists_def ext_def same_roots_def)
  then show "\<exists>W. same_lists W g (atomic L g)" by blast
  show "white (atomic L g) a \<Longrightarrow> white g a" for a unfolding e using w [of a] by (simp add: g'_def)
  have b: "body g' b = body g2 b" for b by (simp add: g'_def)
  show "isstring (atomic L g) a = isstring g a" for a
    unfolding e isstring_cong [OF b] c(7) using m(4) isstring_gshape [of g1 a ?g0]
    by (simp add: ext_def isstring_cong [of ?g0 a g])
  have s: "gshape g1 a = gshape g a" for a using m(4) by (simp add: ext_def gshape_def)
  show "rel_option (shape_less (atomic_mark L g)) (gshape (atomic L g) a) (gshape g a)" for a
    using c(8) [of a] unfolding e s g1_def [symmetric] by (simp add: gshape_def b)
  show "gs_currentwhite (atomic L g) = otherwhite g" using c(4) reg(3) by (simp add: e g'_def otherwhite_def)
qed

section \<open>A whole cycle\<close>

lemma trav_upvals_ok:
  assumes t: "trav a g g'" and u: "upvals_ok g"
  shows "upvals_ok g'"
  unfolding upvals_ok_def
proof (intro allI impI)
  fix v x th i
  assume x: "upv g' v = Some x \<and> uv_open x = Some (th, i)"
  have "upv g' v = upv g v \<or> (\<exists>x. upv g v = Some x \<and> upv g' v = Some (x\<lparr>uv_touched := True\<rparr>))"
    using travD(2) [OF t] by (simp add: ups_ext_def)
  then obtain y where y: "upv g v = Some y" "uv_open y = Some (th, i)" using x by (cases "upv g v") auto
  then obtain st tp ups where b: "th \<in> set (gs_twups g)" "body g th = Some (GThread (Some st) tp ups)" "v \<in> set ups" "i < length st"
    using u unfolding upvals_ok_def by blast
  have "th \<in> set (gs_twups g')" using travD(3) [OF t] b(1) by (auto simp: lists_ext_def)
  have "gshape g' th = Some (GThread (Some (clear_stack tp st)) tp ups)" using travD(13) [OF t] b by (simp add: gshape_def)
  then obtain c where c: "body g' th = Some c" "shape c = GThread (Some (clear_stack tp st)) tp ups"
    by (auto simp: gshape_def)
  then obtain st' where st': "c = GThread (Some st') tp ups" "clear_stack tp st' = clear_stack tp st"
    by (cases c) auto
  have "length st' = length st" using st'(2) length_clear_stack by metis
  then show "th \<in> set (gs_twups g') \<and> (\<exists>st tp ups. body g' th = Some (GThread (Some st) tp ups) \<and> v \<in> set ups \<and> i < length st)"
    using \<open>th \<in> set (gs_twups g')\<close> c st' b by auto
qed

lemma upvals_ok_pop: "upvals_ok (pop_gray a rest g) = upvals_ok g"
  using same_rest_fields(1) [OF pop_gray_rest] by (simp add: upvals_ok_def upv_def)

lemma propagateall_upvals_ok: "upvals_ok g \<Longrightarrow> upvals_ok (propagateall g)"
proof (induction g rule: propagateall.induct)
  case (1 g)
  show ?case
  proof (cases "gs_gray g")
    case Nil
    then show ?thesis using "1.prems" by (simp add: propagateall_Nil)
  next
    case (Cons a rest)
    have "upvals_ok (propagatemark g)"
      using trav_upvals_ok [OF propagatemark_trav(1) [OF Cons]] "1.prems" upvals_ok_pop by blast
    then show ?thesis using "1.IH" Cons by (simp add: propagateall.simps [of g])
  qed
qed

lemma one_white_ext:
  assumes e: "ext g g'" and o: "one_white g"
  shows "one_white g'"
proof -
  have w: "gs_currentwhite g' = gs_currentwhite g" using e by (simp add: ext_def same_roots_def)
  show ?thesis using o e unfolding one_white_def w ext_def by blast
qed

text \<open>At the start of a cycle every object is white, but for strings that are never collected.\<close>

definition all_white :: "gstate \<Rightarrow> bool" where
  "all_white g \<longleftrightarrow> (\<forall>a < length (gs_heap g). obj g a \<noteq> None \<longrightarrow> white g a \<or> isstring g a)"

lemma restart_mk:
  "mk (g\<lparr>gs_gray := [], gs_grayagain := [], gs_weak := [], gs_allweak := [], gs_ephemeron := []\<rparr>) (restartcollection g)"
  unfolding restartcollection_def Let_def markmt_def markbeingfnz_def
  using mk_trans markobject_mk(1) markvalue_mk(1) fold_markobjectN(1) fold_markobject(1) by meson

lemma restart_prop_inv:
  assumes w: "all_white g" and u: "upvals_ok g" and o: "one_white g"
  defines "g' \<equiv> (restartcollection g)\<lparr>gs_gcstate := GCSpropagate\<rparr>"
  shows "prop_inv g'" "upvals_ok g'" "one_white g'"
proof -
  define g0 where "g0 = g\<lparr>gs_gray := [], gs_grayagain := [], gs_weak := [], gs_allweak := [], gs_ephemeron := []\<rparr>"
  define g1 where "g1 = restartcollection g"
  have f: "has_mark P g0 a = has_mark P g a" "body g0 a = body g a" "obj g0 a = obj g a" for P a
    by (simp_all add: g0_def)
  have m: "mk g0 g1" unfolding g0_def g1_def by (rule restart_mk)
  have "linked [] g0" by (simp add: linked_def all_lists_def g0_def)
  then have l: "linked [] g1" by (rule linked_mk [OF m])
  have "done_ok False g0 a" if "obj g0 a \<noteq> None" "\<not> white g0 a" for a
  proof -
    have "a < length (gs_heap g)" using that(1) unfolding f by (auto simp: obj_def split: if_splits)
    then have "isstring g0 a" using w that unfolding all_white_def f isstring_def by blast
    then show ?thesis by (auto simp: done_ok_def all_ok_def isstring_def split: option.splits gbody.splits)
  qed
  then have "tricolour False (set (gs_gray g0) \<union> {}) g0" by (simp add: tricolour_def)
  then have t: "tricolour False (set (gs_gray g1) \<union> {}) g1" by (rule tricolour_mk [OF m])
  have ga: "gs_grayagain g1 = []" using same_rest_fields(4) [OF mk_fields [OF m]] by (simp add: g0_def)
  have "gs_gray g' = gs_gray g1" "gs_grayagain g' = []" "all_lists [] g' = all_lists [] g1"
    using ga by (simp_all add: g'_def g1_def all_lists_def)
  moreover have "linked [] g'" using l linked_cong [of g' g1 "[]" "[]"] by (simp add: g'_def g1_def all_lists_def)
  moreover have "tricolour False (set (gs_gray g1)) g'" using t tricolour_cong [of g' g1 False] by (simp add: g'_def g1_def)
  ultimately show "prop_inv g'" unfolding prop_inv_def by (simp add: g'_def gc_states)
  have up: "gs_upvals g1 = gs_upvals g" "gs_twups g1 = gs_twups g"
    using same_rest_fields(1,8) [OF mk_fields [OF m]] by (simp_all add: g0_def)
  have b: "body g' a = body g a" for a using mkD(1) [OF m, of a] f by (simp add: g'_def g1_def)
  have up': "gs_upvals g' = gs_upvals g" "gs_twups g' = gs_twups g" using up by (simp_all add: g'_def g1_def)
  show "upvals_ok g'" using u unfolding upvals_ok_def b upv_cong [OF up'(1)] up'(2) .
  have "one_white g0" using o by (simp add: one_white_def f) (simp add: g0_def)
  then have "one_white g1" by (rule one_white_ext [OF ext_mk [OF m]])
  then show "one_white g'" by (simp add: one_white_def g'_def g1_def)
qed

text \<open>The marking of a whole cycle, up to the objects that are to be finalized, and the whole of it.\<close>

definition strong_mark :: "nat \<Rightarrow> gstate \<Rightarrow> gstate" where
  "strong_mark L g = atomic_mark L (propagateall ((restartcollection g)\<lparr>gs_gcstate := GCSpropagate\<rparr>))"

definition mark_cycle :: "nat \<Rightarrow> gstate \<Rightarrow> gstate" where
  "mark_cycle L g = atomic L (propagateall ((restartcollection g)\<lparr>gs_gcstate := GCSpropagate\<rparr>))"

lemma mark_cycle_no_dangling:
  assumes "all_white g" and "upvals_ok g" and "one_white g"
  shows "no_dangling L (mark_cycle L g)"
proof -
  note r = restart_prop_inv [OF assms]
  note p = propagateall_prop_inv [OF r(1)]
  have "atomic_pre (propagateall ((restartcollection g)\<lparr>gs_gcstate := GCSpropagate\<rparr>))"
    unfolding atomic_pre_def using p propagateall_upvals_ok [OF r(2)] one_white_ext r(3) by blast
  then show ?thesis unfolding mark_cycle_def by (rule atomic_no_dangling)
qed

section \<open>Sweeping\<close>

text \<open>Freeing an object closes or drops upvalues, and touches no other object.\<close>

definition heap_ups_only :: "gstate \<Rightarrow> gstate \<Rightarrow> bool" where
  "heap_ups_only g g' \<longleftrightarrow> g' = g\<lparr>gs_heap := gs_heap g', gs_upvals := gs_upvals g'\<rparr>"

lemma heap_ups_only_trans: "heap_ups_only g1 g2 \<Longrightarrow> heap_ups_only g2 g3 \<Longrightarrow> heap_ups_only g1 g3"
  unfolding heap_ups_only_def by (cases g1; cases g2; cases g3) simp

lemma heap_ups_only_basic [simp]:
  "heap_ups_only g g" "heap_ups_only g (set_upv u x g)" "heap_ups_only g (set_body a b g)" "heap_ups_only g (set_mark a f g)"
  "heap_ups_only g (g\<lparr>gs_heap := h\<rparr>)"
  by (simp_all add: heap_ups_only_def set_upv_def set_body_def set_mark_def)

lemma heap_ups_only_fields:
  assumes "heap_ups_only g g'"
  shows "gs_gcstate g' = gs_gcstate g" "gs_currentwhite g' = gs_currentwhite g" "get_list l g' = get_list l g"
proof -
  have e: "g' = g\<lparr>gs_heap := gs_heap g', gs_upvals := gs_upvals g'\<rparr>" using assms by (simp add: heap_ups_only_def)
  show "gs_gcstate g' = gs_gcstate g" "gs_currentwhite g' = gs_currentwhite g" by (subst e, simp)+
  show "get_list l g' = get_list l g" by (subst e) (simp add: get_list_def split: gclist.split)
qed

lemma upvdeccount_frame: "heap_ups_only g (luaC_upvdeccount u g) \<and> obj (luaC_upvdeccount u g) b = obj g b"
  by (simp add: luaC_upvdeccount_def Let_def split: option.split)

lemma freeLclosure_frame: "heap_ups_only g (freeLclosure us g) \<and> (\<forall>b. obj (freeLclosure us g) b = obj g b)"
  unfolding freeLclosure_def
proof (induction us arbitrary: g)
  case (Cons u us)
  show ?case
  proof (cases u)
    case (Some v)
    then show ?thesis
      using Cons [of "luaC_upvdeccount v g"] upvdeccount_frame [of g v] heap_ups_only_trans by auto
  qed (use Cons in simp)
qed simp

lemma close_upval_frame:
  assumes "\<not> keepinvariant g"
  shows "heap_ups_only g (close_upval u x g) \<and> (\<forall>b. obj (close_upval u x g) b = obj g b)"
proof -
  have "luaC_upvalbarrier u h = h" if "\<not> keepinvariant h" for h
    using that by (simp add: luaC_upvalbarrier_def luaC_upvalbarrier_uv_def split: option.split gval.split)
  then show ?thesis using assms by (simp add: close_upval_def keepinvariant_def set_upv_def heap_ups_only_def obj_def)
qed

lemma close_loop_frame:
  "\<not> keepinvariant g \<Longrightarrow> close_loop level us g = (r, g') \<Longrightarrow> heap_ups_only g g' \<and> (\<forall>b. obj g' b = obj g b)"
proof (induction level us g arbitrary: r g' rule: close_loop.induct)
  case (2 level u us g)
  show ?case
  proof (cases "level \<le> uv_level g u")
    case True
    let ?h = "case upv g u of None \<Rightarrow> g | Some x \<Rightarrow> close_upval u x g"
    have f: "heap_ups_only g ?h \<and> (\<forall>b. obj ?h b = obj g b)"
      using close_upval_frame [OF "2.prems"(1)] by (simp split: option.split)
    have "\<not> keepinvariant ?h" using "2.prems"(1) heap_ups_only_fields(1) [OF conjunct1 [OF f]] by (simp add: keepinvariant_def)
    then show ?thesis using "2.IH" [OF True] "2.prems"(2) True f heap_ups_only_trans by auto
  qed (use 2 in auto)
qed auto

lemma freeobj_frame:
  assumes "\<not> keepinvariant g"
  shows "heap_ups_only g (freeobj a g)" "obj (freeobj a g) b = (if a = b then None else obj g b)"
proof -
  let ?h = "case body g a of
                 Some (GLcl p upvals) \<Rightarrow> freeLclosure upvals g
               | Some (GThread st tp ups) \<Rightarrow> luaE_freethread a g
               | _ \<Rightarrow> g"
  have t: "heap_ups_only g (luaE_freethread a g) \<and> (\<forall>b. a \<noteq> b \<longrightarrow> obj (luaE_freethread a g) b = obj g b)"
  proof -
    obtain r g1 where c: "close_loop 0 (openupval g a) g = (r, g1)" by fastforce
    note f = close_loop_frame [OF assms c]
    have "heap_ups_only g1 (set_openupval a r g1) \<and> (\<forall>b. a \<noteq> b \<longrightarrow> obj (set_openupval a r g1) b = obj g1 b)"
      by (simp add: set_openupval_def obj_set_body split: option.split gbody.split)
    then show ?thesis using f heap_ups_only_trans by (auto simp: luaE_freethread_def luaF_close_def c)
  qed
  have h: "heap_ups_only g ?h \<and> (\<forall>b. a \<noteq> b \<longrightarrow> obj ?h b = obj g b)"
    using t freeLclosure_frame [of g] by (simp split: option.split gbody.split)
  have e: "freeobj a g = ?h\<lparr>gs_heap := (gs_heap ?h)[a := None]\<rparr>" by (simp add: freeobj_def Let_def)
  show "heap_ups_only g (freeobj a g)" unfolding e using h heap_ups_only_trans by force
  show "obj (freeobj a g) b = (if a = b then None else obj g b)"
    unfolding e using h by (auto simp: obj_def)
qed


lemma heap_ups_only_isdead: "heap_ups_only g g' \<Longrightarrow> otherwhite g' = otherwhite g \<and> luaC_white g' = luaC_white g"
  using heap_ups_only_fields(2) [of g g'] by (simp add: otherwhite_def luaC_white_def)

lemma has_mark_obj_cong: "obj g' a = obj g a \<Longrightarrow> has_mark P g' a = has_mark P g a"
  by (simp add: has_mark_def)

text \<open>What a sweep of the objects \<open>xs\<close> makes of the object at an address.\<close>

definition swept :: "byte \<Rightarrow> byte \<Rightarrow> nat list \<Rightarrow> gstate \<Rightarrow> nat \<Rightarrow> gcobj option" where
  "swept ow wh xs g a =
     (if a \<notin> set xs then obj g a
      else if has_mark (isdeadm ow) g a then None
      else map_option (\<lambda>ob. ob\<lparr>gc_marked := gc_marked ob AND maskcolors OR wh\<rparr>) (obj g a))"

lemma sweep_objs_exact:
  assumes "distinct xs" and "\<not> keepinvariant g" and "sweep_objs n ow wh xs g = (kept, rest, g')"
  shows "kept = filter (\<lambda>a. \<not> has_mark (isdeadm ow) g a) (take n xs) \<and> rest = drop n xs \<and> heap_ups_only g g' \<and>
     (\<forall>a. obj g' a = swept ow wh (take n xs) g a)"
  using assms
proof (induction n ow wh xs g arbitrary: kept rest g' rule: sweep_objs.induct)
  case (3 count ow wh cur xs g)
  have d: "cur \<notin> set (take count xs)" "distinct xs" using "3.prems"(1) by (auto dest: in_set_takeD)
  show ?case
  proof (cases "has_mark (isdeadm ow) g cur")
    case True
    let ?g = "freeobj cur g"
    note f = freeobj_frame [OF "3.prems"(2), of cur]
    have k: "\<not> keepinvariant ?g" using "3.prems"(2) heap_ups_only_fields(1) [OF f(1)] by (simp add: keepinvariant_def)
    have "sweep_objs count ow wh xs ?g = (kept, rest, g')" using "3.prems"(3) True by simp
    note i = "3.IH"(1) [OF True d(2) k this]
    have m: "has_mark P ?g a = has_mark P g a" if "a \<in> set (take count xs)" for P a
    proof -
      have "cur \<noteq> a" using that d(1) by blast
      then show ?thesis using has_mark_obj_cong [of ?g a g P] f(2) [of a] by simp
    qed
    have "filter (\<lambda>a. \<not> has_mark (isdeadm ow) ?g a) (take count xs) = filter (\<lambda>a. \<not> has_mark (isdeadm ow) g a) (take count xs)"
      using m by (intro filter_cong) auto
    moreover have "obj g' a = swept ow wh (take (Suc count) (cur # xs)) g a" for a
      using i d(1) m [of a] f(2) [of a] True by (auto simp: swept_def)
    ultimately show ?thesis using i True f(1) heap_ups_only_trans by simp
  next
    case False
    let ?g = "set_mark cur (\<lambda>m. m AND maskcolors OR wh) g"
    obtain kept' where s: "sweep_objs count ow wh xs ?g = (kept', rest, g')" and kept: "kept = cur # kept'"
      using "3.prems"(3) False by (auto simp: Let_def split: prod.splits)
    have k: "\<not> keepinvariant ?g" using "3.prems"(2) by (simp add: keepinvariant_def set_mark_def)
    note i = "3.IH"(2) [OF False d(2) k s]
    have o: "obj ?g a = (if a = cur then map_option (\<lambda>ob. ob\<lparr>gc_marked := gc_marked ob AND maskcolors OR wh\<rparr>) (obj g a) else obj g a)" for a
      by (simp add: obj_set_mark)
    have m: "has_mark P ?g a = has_mark P g a" if "a \<in> set (take count xs)" for P a
    proof -
      have "cur \<noteq> a" using that d(1) by blast
      then show ?thesis using has_mark_obj_cong [of ?g a g P] o [of a] by simp
    qed
    have "filter (\<lambda>a. \<not> has_mark (isdeadm ow) ?g a) (take count xs) = filter (\<lambda>a. \<not> has_mark (isdeadm ow) g a) (take count xs)"
      using m by (intro filter_cong) auto
    moreover have "obj g' a = swept ow wh (take (Suc count) (cur # xs)) g a" for a
      using i d(1) m [of a] o [of a] False by (auto simp: swept_def)
    ultimately show ?thesis using i False kept heap_ups_only_trans [of g ?g g'] by simp
  qed
qed (simp_all add: swept_def)

lemma sweep_cycle_list:
  assumes "distinct (get_list l g)" and "\<not> keepinvariant g"
    and "sweeplist (SwHead l) (length (get_list l g)) g = (p, g')"
  shows "p = None \<and> get_list l g' = filter (\<lambda>a. \<not> isdead g a) (get_list l g) \<and>
     (\<forall>a. obj g' a = swept (otherwhite g) (luaC_white g) (get_list l g) g a)"
proof -
  obtain kept rest g1 where s: "sweep_objs (length (get_list l g)) (otherwhite g) (luaC_white g) (get_list l g) g = (kept, rest, g1)"
    by (metis prod_cases3)
  note e = sweep_objs_exact [OF assms(1,2) s]
  have "p = None" "g' = set_list l kept g1" using assms(3) e by (auto simp: sweeplist_def split_at_def s)
  moreover have "obj (set_list l kept g1) a = obj g1 a" "get_list l (set_list l kept g1) = kept" for a
    by (simp_all add: set_list_def get_list_def obj_def split: gclist.split)
  ultimately show ?thesis using e by (simp add: isdead_def)
qed

end
