(* ===== verification/Lua_Gc_Run.thy ===== *)
theory Lua_Gc_Run
  imports Lua_Gc_Spec
begin

text \<open>
  A whole cycle of the collector, run step by step as the code runs it: with enough steps it gets from
  the pause to the end of the sweep.  The marking done in steps is the marking done at once, and the
  sweep, which goes through the lists in pieces, is the sweep of the whole lists.
\<close>

section \<open>Runs\<close>

text \<open>\<open>runs P stop g g'\<close>: with enough fuel \<open>luaC_runtilstate\<close> gets from \<open>g\<close> to \<open>g'\<close>.\<close>

definition runs :: "finalizer \<Rightarrow> nat \<Rightarrow> nat \<Rightarrow> (nat \<Rightarrow> bool) \<Rightarrow> gstate \<Rightarrow> gstate \<Rightarrow> bool" where
  "runs fin n L stop g g' \<longleftrightarrow> (\<exists>k. \<forall>fuel \<ge> k. luaC_runtilstate fin n L fuel stop g = Some (False, g'))"

lemma runs_stop: "stop (gs_gcstate g) \<Longrightarrow> runs fin n L stop g g"
  unfolding runs_def by (simp add: luaC_runtilstate.simps)

lemma runs_step:
  assumes "\<not> stop (gs_gcstate g)" and "singlestep fin n L g = Some (False, g1)" and "runs fin n L stop g1 g'"
  shows "runs fin n L stop g g'"
proof -
  obtain k where k: "\<forall>fuel \<ge> k. luaC_runtilstate fin n L fuel stop g1 = Some (False, g')" using assms(3) unfolding runs_def by blast
  have "luaC_runtilstate fin n L fuel stop g = Some (False, g')" if f: "Suc k \<le> fuel" for fuel
  proof -
    obtain m where m: "fuel = Suc m" "k \<le> m" using Suc_le_D [OF f] f by auto
    then show ?thesis using assms(1,2) k m by (simp add: luaC_runtilstate.simps [of fin n L "Suc m"])
  qed
  then show ?thesis unfolding runs_def by blast
qed

lemma propagatemark_state: "gs_gcstate (propagatemark g) = gs_gcstate g"
proof (cases "gs_gray g")
  case (Cons a rest)
  then show ?thesis using trav_state [OF propagatemark_trav(1) [OF Cons]] by simp
qed (simp add: propagatemark_def)

lemma propagatemark_Nil: "gs_gray g = [] \<Longrightarrow> propagatemark g = g"
  by (simp add: propagatemark_def)

lemma runs_propagate:
  assumes "gs_gcstate g = GCSpropagate" and "\<not> stop GCSpropagate"
    and "runs fin n L stop ((propagateall g)\<lparr>gs_gcstate := GCSatomic\<rparr>) g'"
  shows "runs fin n L stop g g'"
  using assms
proof (induction g rule: propagateall.induct)
  case (1 g)
  let ?g1 = "propagatemark g"
  have s: "singlestep fin n L g = Some (False, if gs_gray ?g1 = [] then ?g1\<lparr>gs_gcstate := GCSatomic\<rparr> else ?g1)"
    using "1.prems"(1) by (simp add: singlestep_def gc_states Let_def)
  have p: "propagateall ?g1 = propagateall g"
    using propagateall.simps [of g] propagatemark_Nil [of g] by (cases "gs_gray g = []") simp_all
  show ?case
  proof (cases "gs_gray ?g1 = []")
    case True
    then have "propagateall g = ?g1" using p propagateall_Nil [OF True] by simp
    then show ?thesis using runs_step [OF _ s] "1.prems" True by simp
  next
    case False
    then have "gs_gray g \<noteq> []" using propagatemark_Nil by auto
    then have "runs fin n L stop ?g1 g'" using "1.IH" "1.prems" p propagatemark_state [of g] by simp
    then show ?thesis using runs_step [OF _ s] "1.prems"(1,2) False by simp
  qed
qed

lemma atomic_state: "atomic L (g\<lparr>gs_gcstate := s\<rparr>) = atomic L g"
  by (simp add: atomic_def atomic_mark_def Let_def)

lemma runs_mark:
  assumes "gs_gcstate g = GCSpause" and "\<not> stop GCSpause" "\<not> stop GCSpropagate" "\<not> stop GCSatomic"
    and "runs fin n L stop (entersweep (mark_cycle L g)) g'"
  shows "runs fin n L stop g g'"
proof -
  let ?g1 = "(restartcollection g)\<lparr>gs_gcstate := GCSpropagate\<rparr>" and ?g2 = "propagateall ((restartcollection g)\<lparr>gs_gcstate := GCSpropagate\<rparr>)"
  have "gs_gray ?g2 = []" by (rule propagateall_induct) simp_all
  then have "propagateall (?g2\<lparr>gs_gcstate := GCSatomic\<rparr>) = ?g2\<lparr>gs_gcstate := GCSatomic\<rparr>" by (simp add: propagateall_Nil)
  then have "singlestep fin n L (?g2\<lparr>gs_gcstate := GCSatomic\<rparr>) = Some (False, entersweep (mark_cycle L g))"
    by (simp add: singlestep_def gc_states mark_cycle_def) (simp add: atomic_state)
  then have "runs fin n L stop (?g2\<lparr>gs_gcstate := GCSatomic\<rparr>) g'" using runs_step assms(4,5) by simp
  then have "runs fin n L stop ?g1 g'" using runs_propagate assms(3) by simp
  moreover have "singlestep fin n L g = Some (False, ?g1)" using assms(1) by (simp add: singlestep_def)
  ultimately show ?thesis using runs_step assms(1,2) by simp
qed


section \<open>The sweep\<close>

text \<open>No object is in two lists.\<close>

definition lists_ok :: "gstate \<Rightarrow> bool" where
  "lists_ok g \<longleftrightarrow> distinct (gs_allgc g @ gs_finobj g @ gs_tobefnz g @ gs_fixedgc g)"

lemma lists_ok_distinct: "lists_ok g \<Longrightarrow> distinct (get_list l g)"
  by (cases l) (simp_all add: lists_ok_def get_list_def)

lemma list_of_get: "lists_ok g \<Longrightarrow> a \<in> set (get_list l g) \<Longrightarrow> list_of a g = l"
  by (cases l) (auto simp: lists_ok_def get_list_def list_of_def)

lemma get_set_list [simp]: "get_list l' (set_list l xs g) = (if l' = l then xs else get_list l' g)"
  by (cases l; cases l') (simp_all add: get_list_def set_list_def)

lemma set_list_fields [simp]:
  "obj (set_list l xs g) a = obj g a" "gs_gcstate (set_list l xs g) = gs_gcstate g" "gs_currentwhite (set_list l xs g) = gs_currentwhite g"
  "gs_mainthread (set_list l xs g) = gs_mainthread g"
  by (cases l; simp add: set_list_def obj_def)+

lemma get_list_update [simp]:
  "get_list l (g\<lparr>gs_sweepgc := q\<rparr>) = get_list l g" "get_list l (g\<lparr>gs_gcstate := s\<rparr>) = get_list l g"
  by (cases l; simp add: get_list_def)+

text \<open>
  The sweep of the list \<open>l\<close> has got from the objects \<open>post\<close> to the objects \<open>post'\<close>; \<open>pre\<close> is what was
  kept before.
\<close>

definition swept_to :: "gclist \<Rightarrow> nat list \<Rightarrow> nat list \<Rightarrow> gstate \<Rightarrow> nat list \<Rightarrow> nat list \<Rightarrow> gstate \<Rightarrow> bool" where
  "swept_to l pre post g pre' post' g' \<longleftrightarrow>
     (\<exists>xs. post = xs @ post' \<and> pre' = pre @ filter (\<lambda>a. \<not> isdead g a) xs \<and> get_list l g' = pre' @ post' \<and>
        (\<forall>a. obj g' a = swept (otherwhite g) (luaC_white g) xs g a)) \<and>
     (\<forall>k. k \<noteq> l \<longrightarrow> get_list k g' = get_list k g) \<and> gs_currentwhite g' = gs_currentwhite g \<and> gs_mainthread g' = gs_mainthread g \<and>
     gs_gcstate g' = gs_gcstate g"

lemma swept_to_refl: "get_list l g = pre @ post \<Longrightarrow> swept_to l pre post g pre post g"
  by (simp add: swept_to_def swept_def)

lemma isdead_cong: "obj g' a = obj g a \<Longrightarrow> gs_currentwhite g' = gs_currentwhite g \<Longrightarrow> isdead g' a = isdead g a"
  using has_mark_obj_cong [of g' a g] by (simp add: isdead_def otherwhite_def)

lemma swept_to_trans:
  assumes 1: "swept_to l pre post g pre1 post1 g1" and 2: "swept_to l pre1 post1 g1 pre2 post2 g2" and d: "distinct post"
  shows "swept_to l pre post g pre2 post2 g2"
proof -
  obtain xs where xs: "post = xs @ post1" "pre1 = pre @ filter (\<lambda>a. \<not> isdead g a) xs"
    "\<And>a. obj g1 a = swept (otherwhite g) (luaC_white g) xs g a" using 1 unfolding swept_to_def by blast
  obtain ys where ys: "post1 = ys @ post2" "pre2 = pre1 @ filter (\<lambda>a. \<not> isdead g1 a) ys" "get_list l g2 = pre2 @ post2"
    "\<And>a. obj g2 a = swept (otherwhite g1) (luaC_white g1) ys g1 a" using 2 unfolding swept_to_def by blast
  have cw: "gs_currentwhite g1 = gs_currentwhite g" using 1 by (simp add: swept_to_def)
  then have w: "otherwhite g1 = otherwhite g" "luaC_white g1 = luaC_white g" by (simp_all add: otherwhite_def luaC_white_def)
  have n: "a \<notin> set xs" if "a \<in> set ys" for a using d xs(1) ys(1) that by auto
  have o: "obj g1 a = obj g a" if "a \<in> set ys" for a using xs(3) n [OF that] by (simp add: swept_def)
  have "isdead g1 a = isdead g a" if "a \<in> set ys" for a by (rule isdead_cong [OF o [OF that] cw])
  then have f: "filter (\<lambda>a. \<not> isdead g1 a) ys = filter (\<lambda>a. \<not> isdead g a) ys" by (intro filter_cong) simp_all
  have s: "obj g2 a = swept (otherwhite g) (luaC_white g) (xs @ ys) g a" for a
  proof (cases "a \<in> set ys")
    case True
    then show ?thesis using ys(4) o [OF True] has_mark_obj_cong [OF o [OF True]] w by (simp add: swept_def)
  next
    case False
    then show ?thesis using ys(4) xs(3) by (simp add: swept_def)
  qed
  have "post = (xs @ ys) @ post2" unfolding xs(1) ys(1) by simp
  moreover have "pre2 = pre @ filter (\<lambda>a. \<not> isdead g a) (xs @ ys)" unfolding ys(2) xs(2) f by simp
  moreover have "(\<forall>k. k \<noteq> l \<longrightarrow> get_list k g2 = get_list k g) \<and> gs_currentwhite g2 = gs_currentwhite g \<and>
      gs_mainthread g2 = gs_mainthread g \<and> gs_gcstate g2 = gs_gcstate g" using 1 2 by (simp add: swept_to_def)
  ultimately show ?thesis unfolding swept_to_def using ys(3) s by blast
qed

lemma swept_to_lists_ok:
  assumes s: "swept_to l pre post g pre' post' g'" and g: "get_list l g = pre @ post" and o: "lists_ok g"
  shows "lists_ok g'"
proof -
  obtain xs where x: "post = xs @ post'" "pre' = pre @ filter (\<lambda>a. \<not> isdead g a) xs" "get_list l g' = pre' @ post'"
    and k: "\<And>k. k \<noteq> l \<Longrightarrow> get_list k g' = get_list k g" using s unfolding swept_to_def by blast
  have sub: "set (get_list l g') \<subseteq> set (get_list l g)" "distinct (get_list l g')"
    using x g lists_ok_distinct [OF o, of l] by auto
  show ?thesis
    using sub o k [of Lallgc] k [of Lfinobj] k [of Ltobefnz] k [of Lfixedgc]
    by (cases l) (auto simp: lists_ok_def get_list_def)
qed

text \<open>Where the pointer is.\<close>

definition ptr_at :: "sweep_ptr \<Rightarrow> gclist \<Rightarrow> nat list \<Rightarrow> nat list \<Rightarrow> gstate \<Rightarrow> bool" where
  "ptr_at p l pre post g \<longleftrightarrow> get_list l g = pre @ post \<and>
     (case p of SwHead k \<Rightarrow> k = l \<and> pre = [] | SwNext a \<Rightarrow> pre \<noteq> [] \<and> List.last pre = a)"

lemma ptr_at_split:
  assumes "ptr_at p l pre post g" and "lists_ok g"
  shows "split_at p g = (l, pre, post)"
proof (cases p)
  case (SwHead k)
  then show ?thesis using assms(1) by (simp add: ptr_at_def split_at_def)
next
  case (SwNext a)
  then obtain ys where ys: "pre = ys @ [a]" using assms(1) by (auto simp: ptr_at_def dest: append_butlast_last_id [symmetric])
  have g: "get_list l g = ys @ a # post" using assms(1) ys by (simp add: ptr_at_def)
  then have "list_of a g = l" using list_of_get [OF assms(2)] by simp
  moreover have "takeWhile (\<lambda>b. b \<noteq> a) (ys @ a # post) = ys"
    using lists_ok_distinct [OF assms(2), of l] g by (simp add: takeWhile_append)
  ultimately show ?thesis using SwNext ys g by (simp add: split_at_def Let_def)
qed

lemma sweeplist_swept_to:
  assumes p: "ptr_at p l pre post g" and o: "lists_ok g" and k: "\<not> keepinvariant g" and s: "sweeplist p c g = (q, g')"
  shows "\<exists>pre' post'. swept_to l pre post g pre' post' g' \<and> post' = drop c post \<and>
    (case q of None \<Rightarrow> post' = [] | Some p' \<Rightarrow> post' \<noteq> [] \<and> ptr_at p' l pre' post' g')"
proof -
  have g: "get_list l g = pre @ post" using p by (simp add: ptr_at_def)
  then have d: "distinct post" using lists_ok_distinct [OF o, of l] by simp
  obtain kept rest g1 where s1: "sweep_objs c (otherwhite g) (luaC_white g) post g = (kept, rest, g1)" by (metis prod_cases3)
  note e = sweep_objs_exact [OF d k s1]
  have f: "heap_ups_only g g1" using e by blast
  note ff = heap_ups_only_fields [OF f]
  have mt: "gs_mainthread g1 = gs_mainthread g" 
  proof -
    have e: "g1 = g\<lparr>gs_heap := gs_heap g1, gs_upvals := gs_upvals g1\<rparr>" using f by (simp add: heap_ups_only_def)
    show ?thesis by (subst e) simp
  qed
  let ?pre = "pre @ kept"
  have g': "g' = set_list l (?pre @ rest) g1" and q: "q = (if rest = [] then None else Some (if kept = [] then p else SwNext (List.last kept)))"
    using s s1 ptr_at_split [OF p o] by (simp_all add: sweeplist_def)
  have "post = take c post @ rest" "?pre = pre @ filter (\<lambda>a. \<not> isdead g a) (take c post)" using e by (simp_all add: isdead_def)
  moreover have "\<forall>a. obj g' a = swept (otherwhite g) (luaC_white g) (take c post) g a" using e g' by simp
  moreover have "get_list l g' = ?pre @ rest" "k \<noteq> l \<Longrightarrow> get_list k g' = get_list k g" for k using g' ff(3) by simp_all
  ultimately have sw: "swept_to l pre post g ?pre rest g'"
    unfolding swept_to_def using g' ff(1,2) mt by auto
  have "ptr_at p' l ?pre rest g'" if "q = Some p'" for p'
    using that q p g' by (auto simp: ptr_at_def split: sweep_ptr.splits if_splits)
  then have "case q of None \<Rightarrow> rest = [] | Some p' \<Rightarrow> rest \<noteq> [] \<and> ptr_at p' l ?pre rest g'"
    unfolding q by (simp split: if_split)
  moreover have "rest = drop c post" using e by blast
  ultimately show ?thesis using sw by blast
qed


lemma keepinvariant_cong: "gs_gcstate g' = gs_gcstate g \<Longrightarrow> keepinvariant g' = keepinvariant g"
  by (simp add: keepinvariant_def)

text \<open>The pointer of the collector: none if nothing is left to sweep.\<close>

definition sweep_at :: "sweep_ptr option \<Rightarrow> gclist \<Rightarrow> nat list \<Rightarrow> nat list \<Rightarrow> gstate \<Rightarrow> bool" where
  "sweep_at q l pre post g \<longleftrightarrow> get_list l g = pre @ post \<and>
     (case q of None \<Rightarrow> post = [] | Some p \<Rightarrow> ptr_at p l pre post g)"

lemma sweeplist_sweep_at:
  assumes p: "ptr_at p l pre post g" and o: "lists_ok g" and k: "\<not> keepinvariant g" and s: "sweeplist p c g = (q, g')"
  shows "\<exists>pre' post'. swept_to l pre post g pre' post' g' \<and> sweep_at q l pre' post' g' \<and> lists_ok g' \<and> post' = drop c post \<and>
    (q = None \<longleftrightarrow> post' = [])"
proof -
  obtain pre' post' where w: "swept_to l pre post g pre' post' g'" "post' = drop c post"
    "case q of None \<Rightarrow> post' = [] | Some p' \<Rightarrow> post' \<noteq> [] \<and> ptr_at p' l pre' post' g'"
    using sweeplist_swept_to [OF p o k s] by blast
  have "get_list l g' = pre' @ post'" using w(1) by (auto simp: swept_to_def)
  moreover have "lists_ok g'" using swept_to_lists_ok [OF w(1) _ o] p by (simp add: ptr_at_def)
  ultimately show ?thesis using w by (auto simp: sweep_at_def split: option.splits)
qed

lemma tolive_loop_sweep_at:
  assumes "ptr_at p l pre post g" and "lists_ok g" and "\<not> keepinvariant g" and "tolive_loop n p g = (q, g')"
  shows "\<exists>pre' post'. swept_to l pre post g pre' post' g' \<and> sweep_at q l pre' post' g' \<and> lists_ok g'"
  using assms
proof (induction n p g arbitrary: pre post rule: tolive_loop.induct)
  case (1 p g)
  then have "get_list l g = pre @ post" "q = Some p" "g' = g" by (simp_all add: ptr_at_def)
  then show ?case using swept_to_refl "1.prems"(1,2) by (intro exI [of _ pre] exI [of _ post]) (simp add: sweep_at_def)
next
  case (2 n p g)
  obtain p' g1 where s: "sweeplist p 1 g = (p', g1)" by fastforce
  obtain pre1 post1 where w: "swept_to l pre post g pre1 post1 g1" "sweep_at p' l pre1 post1 g1" "lists_ok g1"
    using sweeplist_sweep_at [OF "2.prems"(1-3) s] by blast
  show ?case
  proof (cases "p' = Some p")
    case True
    have k: "\<not> keepinvariant g1" using w(1) "2.prems"(3) keepinvariant_cong [of g1 g] by (simp add: swept_to_def)
    have a: "ptr_at p l pre1 post1 g1" using w(2) True by (simp add: sweep_at_def)
    have "tolive_loop n p g1 = (q, g')" using "2.prems"(4) s True by simp
    then obtain pre2 post2 where w2: "swept_to l pre1 post1 g1 pre2 post2 g'" "sweep_at q l pre2 post2 g'" "lists_ok g'"
      using "2.IH" [OF s [symmetric] refl True a w(3) k] by blast
    have "distinct post" using "2.prems"(1) lists_ok_distinct [OF "2.prems"(2), of l] by (simp add: ptr_at_def)
    then show ?thesis using swept_to_trans [OF w(1) w2(1)] w2(2,3) by blast
  next
    case False
    then have "q = p'" "g' = g1" using "2.prems"(4) s by simp_all
    then show ?thesis using w by blast
  qed
qed

lemma entersweep_swept:
  assumes o: "lists_ok g"
  shows "\<exists>pre post. swept_to Lallgc [] (gs_allgc g) (g\<lparr>gs_gcstate := GCSswpallgc\<rparr>) pre post (entersweep g) \<and>
    sweep_at (gs_sweepgc (entersweep g)) Lallgc pre post (entersweep g) \<and> lists_ok (entersweep g)"
proof -
  let ?g = "g\<lparr>gs_gcstate := GCSswpallgc\<rparr>"
  obtain q g1 where s: "sweeptolive (SwHead Lallgc) ?g = (q, g1)" by fastforce
  have p: "ptr_at (SwHead Lallgc) Lallgc [] (gs_allgc g) ?g" by (simp add: ptr_at_def get_list_def)
  have "lists_ok ?g" "\<not> keepinvariant ?g" using o by (simp_all add: lists_ok_def keepinvariant_def gc_states)
  then obtain pre post where w: "swept_to Lallgc [] (gs_allgc g) ?g pre post g1" "sweep_at q Lallgc pre post g1" "lists_ok g1"
    using tolive_loop_sweep_at [OF p] s unfolding sweeptolive_def by blast
  have e: "entersweep g = g1\<lparr>gs_sweepgc := q\<rparr>" by (simp add: entersweep_def s)
  have "swept_to Lallgc [] (gs_allgc g) ?g pre post (entersweep g)" using w(1) by (simp add: swept_to_def e)
  moreover have "sweep_at (gs_sweepgc (entersweep g)) Lallgc pre post (entersweep g)"
    using w(2) by (simp add: sweep_at_def e ptr_at_def split: option.splits sweep_ptr.splits)
  moreover have "lists_ok (entersweep g)" using w(3) by (simp add: lists_ok_def e)
  ultimately show ?thesis by blast
qed

text \<open>The steps that sweep one list, and go on to the next.\<close>

lemma sweepstep_runs:
  assumes "sweep_at (gs_sweepgc g) l pre post g" and "lists_ok g" and "gs_gcstate g = s" and "\<not> keepinvariant g" and "\<not> stop s"
    and step: "\<And>g. gs_gcstate g = s \<Longrightarrow> singlestep fin n L g = Some (False, sweepstep ns nl g)"
  shows "\<exists>g1 pre'. swept_to l pre post g pre' [] g1 \<and> lists_ok g1 \<and>
    (\<forall>g'. runs fin n L stop (g1\<lparr>gs_gcstate := ns, gs_sweepgc := nl\<rparr>) g' \<longrightarrow> runs fin n L stop g g')"
  using assms(1-4)
proof (induction "length post" arbitrary: g pre post rule: less_induct)
  case less
  note st = step [OF less.prems(3)]
  have g: "get_list l g = pre @ post" using less.prems(1) by (simp add: sweep_at_def)
  show ?case
  proof (cases "gs_sweepgc g")
    case None
    then have p: "post = []" using less.prems(1) by (simp add: sweep_at_def)
    have "sweepstep ns nl g = g\<lparr>gs_gcstate := ns, gs_sweepgc := nl\<rparr>" using None by (simp add: sweepstep_def)
    then have "\<forall>g'. runs fin n L stop (g\<lparr>gs_gcstate := ns, gs_sweepgc := nl\<rparr>) g' \<longrightarrow> runs fin n L stop g g'"
      using runs_step [OF _ st] less.prems(3) assms(5) by simp
    then show ?thesis using swept_to_refl [OF g] p less.prems(2) by blast
  next
    case (Some p)
    have a: "ptr_at p l pre post g" using less.prems(1) Some by (simp add: sweep_at_def)
    obtain q g1 where s: "sweeplist p GCSWEEPMAX g = (q, g1)" by fastforce
    obtain pre1 post1 where w: "swept_to l pre post g pre1 post1 g1" "sweep_at q l pre1 post1 g1" "lists_ok g1"
      "post1 = drop GCSWEEPMAX post" "q = None \<longleftrightarrow> post1 = []"
      using sweeplist_sweep_at [OF a less.prems(2,4) s] by blast
    show ?thesis
    proof (cases q)
      case None
      then have p: "post1 = []" using w(5) by simp
      have "sweepstep ns nl g = g1\<lparr>gs_gcstate := ns, gs_sweepgc := nl\<rparr>" using None Some s by (simp add: sweepstep_def)
      then have "\<forall>g'. runs fin n L stop (g1\<lparr>gs_gcstate := ns, gs_sweepgc := nl\<rparr>) g' \<longrightarrow> runs fin n L stop g g'"
        using runs_step [OF _ st] less.prems(3) assms(5) by simp
      then show ?thesis using w(1,3) p by blast
    next
      case (Some p1)
      let ?g1 = "g1\<lparr>gs_sweepgc := q\<rparr>"
      have e: "sweepstep ns nl g = ?g1" using Some \<open>gs_sweepgc g = Some p\<close> s by (simp add: sweepstep_def)
      have "post1 \<noteq> []" using w(5) Some by simp
      then have len: "length post1 < length post" using w(4) by (cases post) (auto simp: GCSWEEPMAX_def)
      have st1: "gs_gcstate ?g1 = s" "\<not> keepinvariant ?g1"
        using w(1) less.prems(3,4) keepinvariant_cong [of ?g1 g] by (simp_all add: swept_to_def)
      have a1: "sweep_at (gs_sweepgc ?g1) l pre1 post1 ?g1" using w(2) by (simp add: sweep_at_def ptr_at_def split: option.splits sweep_ptr.splits)
      have o1: "lists_ok ?g1" using w(3) by (simp add: lists_ok_def)
      obtain g2 pre2 where w2: "swept_to l pre1 post1 ?g1 pre2 [] g2" "lists_ok g2"
        "\<forall>g'. runs fin n L stop (g2\<lparr>gs_gcstate := ns, gs_sweepgc := nl\<rparr>) g' \<longrightarrow> runs fin n L stop ?g1 g'"
        using less.hyps [OF len a1 o1 st1] by blast
      have "swept_to l pre post g pre1 post1 ?g1" using w(1) by (simp add: swept_to_def)
      moreover have "distinct post" using g lists_ok_distinct [OF less.prems(2), of l] by simp
      ultimately have "swept_to l pre post g pre2 [] g2" using swept_to_trans w2(1) by blast
      moreover have "\<forall>g'. runs fin n L stop ?g1 g' \<longrightarrow> runs fin n L stop g g'"
        using runs_step [OF _ st [unfolded e]] less.prems(3) assms(5) by simp
      ultimately show ?thesis using w2(2,3) by blast
    qed
  qed
qed


section \<open>A whole cycle\<close>

lemma mark_cycle_lists:
  assumes "all_white g" and "upvals_ok g" and "one_white g"
  shows "\<exists>W. same_lists W g (mark_cycle L g)" "gs_currentwhite (mark_cycle L g) = otherwhite g"
    "obj (mark_cycle L g) a = None \<longleftrightarrow> obj g a = None"
    "white (mark_cycle L g) a \<Longrightarrow> white g a" "isstring (mark_cycle L g) a = isstring g a"
    "rel_option (shape_less (strong_mark L g)) (gshape (mark_cycle L g) a) (gshape g a)"
proof -
  let ?g0 = "g\<lparr>gs_gray := [], gs_grayagain := [], gs_weak := [], gs_allweak := [], gs_ephemeron := []\<rparr>"
  let ?g1 = "restartcollection g" and ?g2 = "(restartcollection g)\<lparr>gs_gcstate := GCSpropagate\<rparr>"
  let ?g3 = "propagateall ?g2"
  note r = restart_prop_inv [OF assms]
  note p = propagateall_prop_inv [OF r(1)]
  have pre: "atomic_pre ?g3" unfolding atomic_pre_def using p propagateall_upvals_ok [OF r(2)] one_white_ext r(3) by blast
  obtain W where W: "same_lists W ?g3 (atomic L ?g3)" using atomic_no_dangling(3) [OF pre] by blast
  have e: "ext ?g0 ?g1" by (rule ext_mk [OF restart_mk])
  have "same_lists W g (mark_cycle L g)"
    using W p e by (simp add: mark_cycle_def same_lists_def ext_def same_roots_def)
  then show "\<exists>W. same_lists W g (mark_cycle L g)" by blast
  show "gs_currentwhite (mark_cycle L g) = otherwhite g"
    using atomic_no_dangling(4) [OF pre] p e by (simp add: mark_cycle_def ext_def same_roots_def otherwhite_def)
  have "obj ?g2 a = None \<longleftrightarrow> obj g a = None" using e by (simp add: ext_def)
  then show "obj (mark_cycle L g) a = None \<longleftrightarrow> obj g a = None"
    using atomic_no_dangling(2) [OF pre] p by (simp add: mark_cycle_def ext_def)
  have w: "white ?g1 a \<Longrightarrow> white g a" using e by (simp add: ext_def)
  show "white g a" if "white (mark_cycle L g) a"
  proof -
    have "white ?g3 a" using that atomic_no_dangling(5) [OF pre] unfolding mark_cycle_def by blast
    then have "white ?g2 a" using p unfolding ext_def by blast
    then show ?thesis using w by simp
  qed
  have s3: "gshape ?g3 a = gshape ?g2 a" using p unfolding ext_def by blast
  then have 3: "isstring ?g3 a = isstring ?g2 a" by (rule isstring_gshape)
  have s1: "gshape ?g1 a = gshape ?g0 a" using e unfolding ext_def by blast
  have "gshape ?g3 a = gshape g a" using s1 s3 by (simp add: gshape_def)
  then show "rel_option (shape_less (strong_mark L g)) (gshape (mark_cycle L g) a) (gshape g a)"
    using atomic_no_dangling(7) [OF pre, of L a] by (simp add: strong_mark_def mark_cycle_def)
  have 1: "isstring ?g1 a = isstring ?g0 a" using s1 by (rule isstring_gshape)
  show "isstring (mark_cycle L g) a = isstring g a"
    unfolding mark_cycle_def atomic_no_dangling(6) [OF pre] 3 using 1
    by (simp add: isstring_cong [of ?g2 a ?g1] isstring_cong [of ?g0 a g])
qed

lemma same_lists_lists_ok:
  assumes "same_lists W g g'" and "lists_ok g"
  shows "lists_ok g'"
  using assms by (auto simp: same_lists_def lists_ok_def)

text \<open>The lists that are swept, one after the other.\<close>

definition swept_objects :: "gstate \<Rightarrow> nat list" where
  "swept_objects g = gs_allgc g @ gs_finobj g @ gs_tobefnz g"

text \<open>What the sweep of all lists makes of a state.\<close>

definition swept_state :: "gstate \<Rightarrow> gstate \<Rightarrow> bool" where
  "swept_state g g' \<longleftrightarrow>
     (\<forall>a. obj g' a = swept (otherwhite g) (luaC_white g) (swept_objects g) g a) \<and>
     gs_allgc g' = filter (\<lambda>a. \<not> isdead g a) (gs_allgc g) \<and> gs_finobj g' = filter (\<lambda>a. \<not> isdead g a) (gs_finobj g) \<and>
     gs_tobefnz g' = filter (\<lambda>a. \<not> isdead g a) (gs_tobefnz g) \<and> gs_fixedgc g' = gs_fixedgc g \<and>
     gs_currentwhite g' = gs_currentwhite g \<and> gs_mainthread g' = gs_mainthread g"

lemma swept_append:
  assumes "\<And>a. obj g1 a = swept ow wh xs g a" and "obj g2 a = swept ow wh ys g1 a" and "set xs \<inter> set ys = {}"
  shows "obj g2 a = swept ow wh (xs @ ys) g a"
proof (cases "a \<in> set ys")
  case True
  then have "obj g1 a = obj g a" using assms(1,3) by (auto simp: swept_def)
  then show ?thesis using assms(2) True has_mark_obj_cong [of g1 a g] by (simp add: swept_def)
qed (use assms in \<open>simp add: swept_def\<close>)

lemma swept_cong: "(\<And>a. obj g' a = obj g a) \<Longrightarrow> swept ow wh xs g' a = swept ow wh xs g a"
  using has_mark_obj_cong [of g' a g] by (simp add: swept_def)

lemma swept_toD:
  assumes "swept_to l [] xs g pre [] g'"
  shows "get_list l g' = filter (\<lambda>a. \<not> isdead g a) xs" "obj g' a = swept (otherwhite g) (luaC_white g) xs g a"
    "k \<noteq> l \<Longrightarrow> get_list k g' = get_list k g" "gs_currentwhite g' = gs_currentwhite g" "gs_mainthread g' = gs_mainthread g"
  using assms by (auto simp: swept_to_def)

lemma filter_isdead_cong:
  assumes "\<And>a. a \<in> set xs \<Longrightarrow> obj g' a = obj g a" and "gs_currentwhite g' = gs_currentwhite g"
  shows "filter (\<lambda>a. \<not> isdead g' a) xs = filter (\<lambda>a. \<not> isdead g a) xs"
  by (rule filter_cong [OF refl]) (simp add: isdead_cong [OF assms(1) assms(2)])

lemma swept_lists:
  assumes o: "lists_ok g" and a: "swept_to Lallgc [] (gs_allgc g) (g\<lparr>gs_gcstate := s0\<rparr>) p1 [] g1"
    and b: "swept_to Lfinobj [] (gs_finobj g1) (g1\<lparr>gs_gcstate := s1, gs_sweepgc := q1\<rparr>) p2 [] g2"
    and c: "swept_to Ltobefnz [] (gs_tobefnz g2) (g2\<lparr>gs_gcstate := s2, gs_sweepgc := q2\<rparr>) p3 [] g3"
  shows "swept_state g g3"
proof -
  note a' = swept_toD [OF a] and b' = swept_toD [OF b] and c' = swept_toD [OF c]
  let ?ow = "otherwhite g" and ?wh = "luaC_white g"
  have l1: "gs_finobj g1 = gs_finobj g" "gs_tobefnz g1 = gs_tobefnz g" "gs_fixedgc g1 = gs_fixedgc g"
    using a'(3) [of Lfinobj] a'(3) [of Ltobefnz] a'(3) [of Lfixedgc] by (simp_all add: get_list_def)
  have l2: "gs_allgc g2 = gs_allgc g1" "gs_tobefnz g2 = gs_tobefnz g" "gs_fixedgc g2 = gs_fixedgc g"
    using b'(3) [of Lallgc] b'(3) [of Ltobefnz] b'(3) [of Lfixedgc] l1 by (simp_all add: get_list_def)
  have l3: "gs_allgc g3 = gs_allgc g1" "gs_finobj g3 = gs_finobj g2" "gs_fixedgc g3 = gs_fixedgc g"
    using c'(3) [of Lallgc] c'(3) [of Lfinobj] c'(3) [of Lfixedgc] l2 by (simp_all add: get_list_def)
  have cw: "gs_currentwhite g1 = gs_currentwhite g" "gs_currentwhite g2 = gs_currentwhite g" "gs_currentwhite g3 = gs_currentwhite g"
    using a'(4) b'(4) c'(4) by simp_all
  have ow: "otherwhite (g\<lparr>gs_gcstate := s0\<rparr>) = ?ow" "luaC_white (g\<lparr>gs_gcstate := s0\<rparr>) = ?wh"
    "otherwhite (g1\<lparr>gs_gcstate := s1, gs_sweepgc := q1\<rparr>) = ?ow" "luaC_white (g1\<lparr>gs_gcstate := s1, gs_sweepgc := q1\<rparr>) = ?wh"
    "otherwhite (g2\<lparr>gs_gcstate := s2, gs_sweepgc := q2\<rparr>) = ?ow" "luaC_white (g2\<lparr>gs_gcstate := s2, gs_sweepgc := q2\<rparr>) = ?wh"
    using cw by (simp_all add: otherwhite_def luaC_white_def)
  have d: "set (gs_allgc g) \<inter> set (gs_finobj g) = {}" "set (gs_allgc g @ gs_finobj g) \<inter> set (gs_tobefnz g) = {}"
    using o by (auto simp: lists_ok_def)
  have o1: "obj g1 x = swept ?ow ?wh (gs_allgc g) g x" for x
    using a'(2) [of x] unfolding ow by (simp add: swept_cong [of "g\<lparr>gs_gcstate := s0\<rparr>" g])
  have o2: "obj g2 x = swept ?ow ?wh (gs_allgc g @ gs_finobj g) g x" for x
    using b'(2) [of x] unfolding ow
    by (intro swept_append [OF o1]) (use d(1) l1 in \<open>simp_all add: swept_cong [of "g1\<lparr>gs_gcstate := s1, gs_sweepgc := q1\<rparr>" g1]\<close>)
  have o3: "obj g3 x = swept ?ow ?wh ((gs_allgc g @ gs_finobj g) @ gs_tobefnz g) g x" for x
    using c'(2) [of x] unfolding ow
    by (intro swept_append [OF o2]) (use d(2) l2 in \<open>simp_all add: swept_cong [of "g2\<lparr>gs_gcstate := s2, gs_sweepgc := q2\<rparr>" g2]\<close>)
  have f1: "gs_allgc g1 = filter (\<lambda>a. \<not> isdead g a) (gs_allgc g)"
    using a'(1) filter_isdead_cong [of "gs_allgc g" "g\<lparr>gs_gcstate := s0\<rparr>" g] by (simp add: get_list_def)
  have "obj g1 x = obj g x" if "x \<in> set (gs_finobj g)" for x using o1 that d(1) by (auto simp: swept_def)
  then have f2: "gs_finobj g2 = filter (\<lambda>a. \<not> isdead g a) (gs_finobj g)"
    using b'(1) filter_isdead_cong [of "gs_finobj g" "g1\<lparr>gs_gcstate := s1, gs_sweepgc := q1\<rparr>" g] cw l1 by (simp add: get_list_def)
  have "obj g2 x = obj g x" if "x \<in> set (gs_tobefnz g)" for x using o2 that d(2) by (auto simp: swept_def)
  then have f3: "gs_tobefnz g3 = filter (\<lambda>a. \<not> isdead g a) (gs_tobefnz g)"
    using c'(1) filter_isdead_cong [of "gs_tobefnz g" "g2\<lparr>gs_gcstate := s2, gs_sweepgc := q2\<rparr>" g] cw l2 by (simp add: get_list_def)
  have "gs_mainthread g3 = gs_mainthread g" using a'(5) b'(5) c'(5) by simp
  then show ?thesis
    unfolding swept_state_def swept_objects_def using o3 f1 f2 f3 l3 cw by simp
qed

lemma swept_state_update [simp]: "swept_state g (g'\<lparr>gs_gcstate := s, gs_sweepgc := q\<rparr>) = swept_state g g'"
  by (simp add: swept_state_def)

lemma runs_sweep:
  assumes o: "lists_ok g" and stop: "\<not> stop GCSswpallgc" "\<not> stop GCSswpfinobj" "\<not> stop GCSswptobefnz" "\<not> stop GCSswpend"
  shows "\<exists>g1. swept_state g g1 \<and>
    (\<forall>g'. runs fin n L stop ((makewhite (gs_mainthread g1) g1)\<lparr>gs_gcstate := GCScallfin\<rparr>) g' \<longrightarrow> runs fin n L stop (entersweep g) g')"
proof -
  let ?g = "g\<lparr>gs_gcstate := GCSswpallgc\<rparr>"
  have swept_step: "singlestep fin n L h = Some (False, sweepstep GCSswpfinobj (Some (SwHead Lfinobj)) h)" if "gs_gcstate h = GCSswpallgc" for h
    using that by (simp add: singlestep_def gc_states)
  have fin_step: "singlestep fin n L h = Some (False, sweepstep GCSswptobefnz (Some (SwHead Ltobefnz)) h)" if "gs_gcstate h = GCSswpfinobj" for h
    using that by (simp add: singlestep_def gc_states)
  have tob_step: "singlestep fin n L h = Some (False, sweepstep GCSswpend None h)" if "gs_gcstate h = GCSswptobefnz" for h
    using that by (simp add: singlestep_def gc_states)
  obtain pre0 post0 where e: "swept_to Lallgc [] (gs_allgc g) ?g pre0 post0 (entersweep g)"
    "sweep_at (gs_sweepgc (entersweep g)) Lallgc pre0 post0 (entersweep g)" "lists_ok (entersweep g)"
    using entersweep_swept [OF o] by blast
  have se: "gs_gcstate (entersweep g) = GCSswpallgc" using e(1) by (simp add: swept_to_def)
  then have ke: "\<not> keepinvariant (entersweep g)" by (simp add: keepinvariant_def gc_states)
  obtain g1 pre1 where a: "swept_to Lallgc pre0 post0 (entersweep g) pre1 [] g1" "lists_ok g1"
    "\<forall>g'. runs fin n L stop (g1\<lparr>gs_gcstate := GCSswpfinobj, gs_sweepgc := Some (SwHead Lfinobj)\<rparr>) g' \<longrightarrow> runs fin n L stop (entersweep g) g'"
    using sweepstep_runs [where stop = stop and ns = GCSswpfinobj and nl = "Some (SwHead Lfinobj)", OF e(2,3) se ke stop(1) swept_step] by blast
  have "distinct (gs_allgc g)" using o by (simp add: lists_ok_def)
  then have a': "swept_to Lallgc [] (gs_allgc g) ?g pre1 [] g1" using swept_to_trans [OF e(1) a(1)] by blast
  let ?g1 = "g1\<lparr>gs_gcstate := GCSswpfinobj, gs_sweepgc := Some (SwHead Lfinobj)\<rparr>"
  have "sweep_at (gs_sweepgc ?g1) Lfinobj [] (gs_finobj g1) ?g1" by (simp add: sweep_at_def ptr_at_def) (simp add: get_list_def)
  moreover have "lists_ok ?g1" "gs_gcstate ?g1 = GCSswpfinobj" "\<not> keepinvariant ?g1"
    using a(2) by (simp_all add: lists_ok_def keepinvariant_def gc_states)
  ultimately obtain g2 pre2 where b: "swept_to Lfinobj [] (gs_finobj g1) ?g1 pre2 [] g2" "lists_ok g2"
    "\<forall>g'. runs fin n L stop (g2\<lparr>gs_gcstate := GCSswptobefnz, gs_sweepgc := Some (SwHead Ltobefnz)\<rparr>) g' \<longrightarrow> runs fin n L stop ?g1 g'"
    using sweepstep_runs [where stop = stop and ns = GCSswptobefnz and nl = "Some (SwHead Ltobefnz)", OF _ _ _ _ stop(2) fin_step] by blast
  let ?g2 = "g2\<lparr>gs_gcstate := GCSswptobefnz, gs_sweepgc := Some (SwHead Ltobefnz)\<rparr>"
  have "sweep_at (gs_sweepgc ?g2) Ltobefnz [] (gs_tobefnz g2) ?g2" by (simp add: sweep_at_def ptr_at_def) (simp add: get_list_def)
  moreover have "lists_ok ?g2" "gs_gcstate ?g2 = GCSswptobefnz" "\<not> keepinvariant ?g2"
    using b(2) by (simp_all add: lists_ok_def keepinvariant_def gc_states)
  ultimately obtain g3 pre3 where c: "swept_to Ltobefnz [] (gs_tobefnz g2) ?g2 pre3 [] g3" "lists_ok g3"
    "\<forall>g'. runs fin n L stop (g3\<lparr>gs_gcstate := GCSswpend, gs_sweepgc := None\<rparr>) g' \<longrightarrow> runs fin n L stop ?g2 g'"
    using sweepstep_runs [where stop = stop and ns = GCSswpend and nl = None, OF _ _ _ _ stop(3) tob_step] by blast
  let ?g3 = "g3\<lparr>gs_gcstate := GCSswpend, gs_sweepgc := None\<rparr>"
  have st: "singlestep fin n L ?g3 = Some (False, (makewhite (gs_mainthread ?g3) ?g3)\<lparr>gs_gcstate := GCScallfin\<rparr>)"
    by (simp add: singlestep_def gc_states)
  have "runs fin n L stop (entersweep g) g'"
    if "runs fin n L stop ((makewhite (gs_mainthread ?g3) ?g3)\<lparr>gs_gcstate := GCScallfin\<rparr>) g'" for g'
  proof -
    have "runs fin n L stop ?g3 g'" using runs_step [OF _ st that] stop(4) by simp
    then show ?thesis using a(3) b(3) c(3) by blast
  qed
  moreover have "swept_state g ?g3"
    using swept_lists [OF o a' b(1) c(1)] by simp
  ultimately show ?thesis by blast
qed


text \<open>The objects that the program can still get at.\<close>

inductive reachable :: "nat \<Rightarrow> gstate \<Rightarrow> nat \<Rightarrow> bool" for L g where
  reachable_root: "a \<in> {L} \<union> vref (gs_registry g) \<union> (\<Union>t \<in> set (gs_mt g). set_option t) \<union> set (gs_tobefnz g) \<Longrightarrow> reachable L g a"
| reachable_ref: "reachable L g a \<Longrightarrow> b \<in> refs g a \<Longrightarrow> reachable L g b"

lemma reachable_not_dead:
  assumes n: "no_dangling L g" and r: "reachable L g a"
  shows "\<not> isdead g a"
  using r
proof induction
  case (reachable_root a)
  then show ?case using n unfolding no_dangling_def by blast
next
  case (reachable_ref a b)
  have "obj g a \<noteq> None" using reachable_ref.hyps(2) obj_body by (fastforce simp: refs_def)
  then have "live g a" using reachable_ref.IH by (simp add: live_def)
  then show ?case using n reachable_ref.hyps(2) unfolding no_dangling_def by blast
qed

text \<open>Every object is in one of the lists that are swept, or is the main thread, or a fixed string.\<close>

definition heap_listed :: "gstate \<Rightarrow> bool" where
  "heap_listed g \<longleftrightarrow> (\<forall>a. obj g a \<noteq> None \<longrightarrow> a \<in> set (swept_objects g) \<or> a = gs_mainthread g \<or> isstring g a \<and> \<not> white g a)"

lemma same_lists_swept_objects: "same_lists W g g' \<Longrightarrow> set (swept_objects g') = set (swept_objects g)"
  by (auto simp: same_lists_def swept_objects_def)

lemma obj_makewhite: "obj (makewhite a g) b = (if a = b then map_option (\<lambda>x. x\<lparr>gc_marked := gc_marked x AND maskcolors OR luaC_white g\<rparr>) (obj g b) else obj g b)"
  by (simp add: makewhite_def obj_set_mark)

text \<open>The end of a cycle: what the sweep leaves, with a white main thread.\<close>

definition cycle_end :: "nat \<Rightarrow> gstate \<Rightarrow> gstate \<Rightarrow> bool" where
  "cycle_end L g g' \<longleftrightarrow> (\<exists>g1. swept_state (mark_cycle L g) g1 \<and> g' = (makewhite (gs_mainthread g1) g1)\<lparr>gs_gcstate := GCScallfin\<rparr>)"

lemma cycle_runs:
  assumes "gs_gcstate g = GCSpause" and "all_white g" "upvals_ok g" "one_white g" "lists_ok g"
  shows "\<exists>g'. runs fin n L (\<lambda>s. s = GCScallfin) g g' \<and> cycle_end L g g'"
proof -
  let ?stop = "\<lambda>s. s = GCScallfin"
  obtain W where W: "same_lists W g (mark_cycle L g)" using mark_cycle_lists(1) [OF assms(2-4)] by blast
  have st: "\<not> ?stop GCSswpallgc" "\<not> ?stop GCSswpfinobj" "\<not> ?stop GCSswptobefnz" "\<not> ?stop GCSswpend"
    "\<not> ?stop GCSpause" "\<not> ?stop GCSpropagate" "\<not> ?stop GCSatomic" by (simp_all add: gc_states)
  have "lists_ok (mark_cycle L g)" by (rule same_lists_lists_ok [OF W assms(5)])
  then obtain g1 where g1: "swept_state (mark_cycle L g) g1"
    "\<forall>g'. runs fin n L ?stop ((makewhite (gs_mainthread g1) g1)\<lparr>gs_gcstate := GCScallfin\<rparr>) g' \<longrightarrow>
       runs fin n L ?stop (entersweep (mark_cycle L g)) g'"
    using runs_sweep [where stop = ?stop, OF _ st(1-4)] by blast
  let ?g' = "(makewhite (gs_mainthread g1) g1)\<lparr>gs_gcstate := GCScallfin\<rparr>"
  have "runs fin n L ?stop ?g' ?g'" by (rule runs_stop) simp
  then have "runs fin n L ?stop (entersweep (mark_cycle L g)) ?g'" using g1(2) by blast
  then have "runs fin n L ?stop g ?g'" using runs_mark [where stop = ?stop, OF assms(1) st(5-7)] by blast
  then show ?thesis unfolding cycle_end_def using g1(1) by blast
qed

lemma cycle_end_lists:
  assumes "cycle_end L g g'"
  shows "swept_objects g' = filter (\<lambda>a. \<not> isdead (mark_cycle L g) a) (swept_objects (mark_cycle L g))"
    "gs_currentwhite g' = gs_currentwhite (mark_cycle L g)" "gs_fixedgc g' = gs_fixedgc (mark_cycle L g)"
    "gs_mainthread g' = gs_mainthread (mark_cycle L g)"
  using assms by (auto simp: cycle_end_def swept_state_def swept_objects_def makewhite_def set_mark_def)

lemma cycle_end_obj:
  assumes "cycle_end L g g'"
  shows "obj g' a = (let m = mark_cycle L g; x = swept (otherwhite m) (luaC_white m) (swept_objects m) m a
    in if a = gs_mainthread m then map_option (\<lambda>x. x\<lparr>gc_marked := gc_marked x AND maskcolors OR luaC_white m\<rparr>) x else x)"
proof -
  obtain g1 where g1: "swept_state (mark_cycle L g) g1" "g' = (makewhite (gs_mainthread g1) g1)\<lparr>gs_gcstate := GCScallfin\<rparr>"
    using assms unfolding cycle_end_def by blast
  have "obj g' a = obj (makewhite (gs_mainthread g1) g1) a" by (simp add: g1(2) obj_def)
  moreover have "luaC_white g1 = luaC_white (mark_cycle L g)" using g1(1) by (simp add: swept_state_def luaC_white_def)
  ultimately show ?thesis using g1(1) by (auto simp: obj_makewhite swept_state_def Let_def)
qed


lemma remade_white:
  assumes "cw \<in> {bitmask WHITE0BIT, bitmask WHITE1BIT}"
  shows "iswhite (x AND maskcolors OR (cw AND WHITEBITS))" "(x AND maskcolors OR (cw AND WHITEBITS)) AND cw \<noteq> 0"
proof -
  have "cw = bitmask 0 \<or> cw = bitmask 1" using assms by (simp add: WHITE0BIT_def WHITE1BIT_def)
  then obtain b where b: "b < 2" "cw = bitmask b" by (metis one_less_numeral_iff pos2 semiring_norm(76))
  have s: "bit (x AND maskcolors OR (cw AND WHITEBITS)) b" using b by (auto simp: bit_or_iff bit_and_iff bit_bitmask bit_WHITEBITS less_2_cases_iff)
  then show "iswhite (x AND maskcolors OR (cw AND WHITEBITS))" using b(1) by (auto simp: iswhite_bits less_2_cases_iff)
  show "(x AND maskcolors OR (cw AND WHITEBITS)) AND cw \<noteq> 0"
    unfolding b(2) using s and_bitmask [of b] b by simp
qed

lemma cycle_end_body: "cycle_end L g g' \<Longrightarrow> obj g' a \<noteq> None \<Longrightarrow> body g' a = body (mark_cycle L g) a"
  using cycle_end_obj [of L g g' a] by (auto simp: body_def swept_def Let_def option.map_comp comp_def split: if_splits)

lemma cycle_end_kept:
  assumes "cycle_end L g g'"
  shows "obj g' a \<noteq> None \<longleftrightarrow> obj (mark_cycle L g) a \<noteq> None \<and> (a \<in> set (swept_objects (mark_cycle L g)) \<longrightarrow> \<not> isdead (mark_cycle L g) a)"
  using cycle_end_obj [OF assms, of a] by (auto simp: swept_def isdead_def Let_def)

lemma cycle_end_body_kept:
  assumes c: "cycle_end L g g'" and d: "\<not> isdead (mark_cycle L g) a"
  shows "body g' a = body (mark_cycle L g) a"
proof (cases "obj (mark_cycle L g) a")
  case None
  then have "obj g' a = None" using cycle_end_kept [OF c, of a] by auto
  then show ?thesis using None by (simp add: body_def)
next
  case (Some x)
  then show ?thesis using cycle_end_kept [OF c, of a] cycle_end_body [OF c, of a] d by simp
qed

lemma cycle_end_ready:
  assumes w: "all_white g" and u: "upvals_ok g" and o: "one_white g" and l: "lists_ok g" and h: "heap_listed g"
    and c: "cycle_end L g g'"
  shows "all_white g' \<and> one_white g' \<and> lists_ok g' \<and> heap_listed g'"
proof -
  let ?m = "mark_cycle L g"
  note m = mark_cycle_lists [OF w u o, where L = L]
  obtain W where W: "same_lists W g ?m" using m(1) by blast
  note lm = same_lists_lists_ok [OF W l]
  have "gs_currentwhite g \<in> {bitmask WHITE0BIT, bitmask WHITE1BIT}" using o by (simp add: one_white_def)
  then obtain b where "b < 2" "gs_currentwhite ?m = bitmask (1 - b)" using currentwhite_bit m(2) by metis
  then have cw: "gs_currentwhite ?m \<in> {bitmask WHITE0BIT, bitmask WHITE1BIT}"
    by (cases b) (auto simp: WHITE0BIT_def WHITE1BIT_def less_2_cases_iff)
  have hm: "a \<in> set (swept_objects ?m) \<or> a = gs_mainthread ?m \<or> isstring ?m a \<and> \<not> white ?m a" if "obj ?m a \<noteq> None" for a
  proof -
    have "obj g a \<noteq> None" using that m(3) by simp
    then have "a \<in> set (swept_objects g) \<or> a = gs_mainthread g \<or> isstring g a \<and> \<not> white g a" using h by (simp add: heap_listed_def)
    moreover have "gs_mainthread ?m = gs_mainthread g" using W by (simp add: same_lists_def)
    ultimately show ?thesis using same_lists_swept_objects [OF W] m(4) [of a] m(5) [of a] by auto
  qed
  have made: "white g' a \<and> has_mark (\<lambda>x. x AND gs_currentwhite ?m \<noteq> 0) g' a"
    if "obj g' a \<noteq> None" "a \<in> set (swept_objects ?m) \<or> a = gs_mainthread ?m" for a
    using that cycle_end_obj [OF c, of a] remade_white [OF cw]
    by (auto simp: has_mark_def swept_def Let_def luaC_white_def split: if_splits option.splits)
  have old: "isstring g' a \<and> \<not> white g' a" if "obj g' a \<noteq> None" "\<not> (a \<in> set (swept_objects ?m) \<or> a = gs_mainthread ?m)" for a
  proof -
    have e: "obj g' a = obj ?m a" using that(2) cycle_end_obj [OF c, of a] by (simp add: swept_def Let_def)
    then have "isstring ?m a \<and> \<not> white ?m a" using hm [of a] that by simp
    then show ?thesis using isstring_cong [OF body_cong [OF e]] has_mark_obj_cong [OF e] by simp
  qed
  note cl = cycle_end_lists [OF c]
  have "all_white g'" unfolding all_white_def using made old by blast
  moreover have "one_white g'"
  proof -
    have "obj g' a \<noteq> None" if "white g' a" for a using that by (auto simp: has_mark_def split: option.splits)
    then have "has_mark (\<lambda>x. x AND gs_currentwhite ?m \<noteq> 0) g' a" if "white g' a" for a using that made old by blast
    then show ?thesis unfolding one_white_def cl(2) using cw by blast
  qed
  moreover have "lists_ok g'"
    using c lm by (auto simp: cycle_end_def swept_state_def lists_ok_def makewhite_def set_mark_def)
  moreover have "heap_listed g'"
    unfolding heap_listed_def
  proof (intro allI impI)
    fix a
    assume a: "obj g' a \<noteq> None"
    then have k: "a \<in> set (swept_objects ?m) \<longrightarrow> \<not> isdead ?m a" using cycle_end_kept [OF c] by blast
    show "a \<in> set (swept_objects g') \<or> a = gs_mainthread g' \<or> isstring g' a \<and> \<not> white g' a"
      unfolding cl(1,4) using k old [OF a] by auto
  qed
  ultimately show ?thesis by blast
qed

end
