(* ===== verification/Lua_Gc_Barrier.thy ===== *)
theory Lua_Gc_Barrier
  imports Lua_Gc_Atomic
begin

text \<open>
  The program and the collector together: a store in an object followed by its barrier keeps the
  invariant of the mark phase, whatever the colour of the object.
\<close>

section \<open>Stores\<close>

lemma set_body_other_ok:
  assumes "\<And>st tp ups. body g a \<noteq> Some (GThread st tp ups)" and "\<And>st tp ups. c \<noteq> GThread st tp ups" and b: "b \<noteq> a"
  shows "done_ok ph (set_body a c g) b = done_ok ph g b"
proof -
  let ?g = "set_body a c g"
  have bd: "body ?g b = body g b" using b by (simp add: body_set_body)
  have v: "valiswhite ?g = valiswhite g" by (rule ext) (simp add: valiswhite_def split: gval.split)
  have t: "oko ?g = oko g" by (rule ext) (simp add: oko_def split: option.split)
  have uv: "uv_v ?g x = uv_v g x" for x by (rule stack_slot_set_body [OF assms(1,2)])
  have up: "upv ?g u = upv g u" for u by (simp add: upv_def set_body_def)
  have "uvok ph ?g x = uvok ph g x" for x by (simp add: uvok_def v uv up split: option.split)
  then have "body_ok ph ?g d = body_ok ph g d" for d by (cases d) (simp_all add: v t split: option.split)
  then have bo: "body_ok ph ?g = body_ok ph g" by blast
  have l: "gs_weak ?g = gs_weak g" "gs_allweak ?g = gs_allweak g" "gs_ephemeron ?g = gs_ephemeron g" by (simp_all add: set_body_def)
  show ?thesis unfolding done_ok_def all_ok_def wk_ok_def mt_ok_def eph_ok_def bd v t bo l ..
qed

lemma set_body_tricolour:
  assumes t: "tricolour ph S g" and "\<And>st tp ups. body g a \<noteq> Some (GThread st tp ups)" "\<And>st tp ups. c \<noteq> GThread st tp ups"
  shows "tricolour ph (insert a S) (set_body a c g)"
  using t set_body_other_ok [OF assms(2,3)] unfolding tricolour_def by (auto simp: obj_set_body split: if_splits)

lemma set_body_linked:
  assumes "linked X g" and "body g a = Some b" and "(\<forall>mt uv. b \<noteq> GUdata mt uv) \<and> (\<forall>s. b \<noteq> GStr s)"
    and "(\<forall>mt uv. c \<noteq> GUdata mt uv) \<and> (\<forall>s. c \<noteq> GStr s)"
  shows "linked X (set_body a c g)"
proof -
  have "all_lists X (set_body a c g) = all_lists X g" by (simp add: all_lists_def set_body_def)
  moreover have "container (set_body a c g) e = container g e" for e
    using assms(2-4) by (auto simp: container_def body_set_body split: option.splits gbody.splits)
  ultimately show ?thesis using assms(1) by (simp add: linked_def)
qed

lemma tricolour_insert_done: "tricolour ph (insert a S) g \<Longrightarrow> white g a \<or> done_ok ph g a \<Longrightarrow> tricolour ph S g"
  by (auto simp: tricolour_def)

text \<open>What the colours of the mark phase are: marked tables are in a list or black, and not both.\<close>

definition coloured :: "gstate \<Rightarrow> nat \<Rightarrow> bool" where
  "coloured g a \<longleftrightarrow> white g a \<and> \<not> black g a \<or>
     black g a \<and> \<not> white g a \<and> a \<notin> set (all_lists (gs_grayagain g) g) \<or> \<not> black g a \<and> a \<in> set (gs_gray g @ gs_grayagain g)"

lemma barrierback_cases:
  "luaC_barrierback t v g = g \<and> (black g t \<longrightarrow> okv g v) \<or>
   luaC_barrierback t v g = (set_mark t black2gray g)\<lparr>gs_grayagain := t # gs_grayagain g\<rparr> \<and> black g t"
  by (auto simp: luaC_barrierback_def luaC_barrierback_ob_def Let_def set_mark_def valiswhite_def split: gval.split)

lemma barrierback_store:
  assumes i: "prop_inv g" and c: "coloured g t" and b: "body g t = Some (GTable mt arr nodes)"
    and a': "set arr' \<subseteq> insert v (set arr)"
    and n': "\<forall>e \<in> set nodes'. e \<in> set nodes \<or> (fst e = v \<or> okv g (fst e)) \<and> (snd e = v \<or> okv g (snd e))"
  shows "prop_inv (luaC_barrierback t v (set_body t (GTable mt arr' nodes') g))"
proof -
  let ?g = "set_body t (GTable mt arr' nodes') g" and ?X = "set (gs_gray g) \<union> set (gs_grayagain g)"
  have st: "gs_gcstate ?g = gs_gcstate g" "gs_gray ?g = gs_gray g" "gs_grayagain ?g = gs_grayagain g" by (simp_all add: set_body_def)
  have l: "linked (gs_grayagain g) ?g"
    using i set_body_linked [OF _ b, of "gs_grayagain g" "GTable mt arr' nodes'"] by (simp add: prop_inv_def)
  have tri: "tricolour False (insert t ?X) ?g"
    using i b by (intro set_body_tricolour) (simp_all add: prop_inv_def)
  consider "luaC_barrierback t v ?g = ?g" "black g t \<longrightarrow> okv g v"
    | "luaC_barrierback t v ?g = (set_mark t black2gray ?g)\<lparr>gs_grayagain := t # gs_grayagain ?g\<rparr>" "black g t"
    using barrierback_cases [of t v ?g] by (auto simp: valiswhite_def split: gval.splits)
  then show ?thesis
  proof cases
    case 1
    have "tricolour False ?X ?g"
    proof (cases "t \<in> ?X")
      case True
      then show ?thesis using tri by (simp add: insert_absorb)
    next
      case False
      show ?thesis
      proof (rule tricolour_insert_done [OF tri])
        show "white ?g t \<or> done_ok False ?g t"
        proof (cases "white g t")
          case nw: False
          then have k: "black g t" "t \<notin> set (all_lists (gs_grayagain g) g)" using c False by (auto simp: coloured_def)
          have "obj g t \<noteq> None" using b obj_body by (metis option.discI)
          then have "done_ok False g t" using i nw False by (simp add: prop_inv_def tricolour_def)
          then have "all_ok False g t" using k(2) by (auto simp: done_ok_def all_lists_def)
          then have o: "oko g mt" "\<forall>x \<in> set arr. okv g x" "\<forall>e \<in> set nodes. okv g (fst e) \<and> okv g (snd e)"
            using b by (auto simp: all_ok_def)
          have ov: "okv g v" using 1(2) k(1) by blast
          have n: "\<forall>x \<in> set arr'. okv g x" "\<forall>e \<in> set nodes'. okv g (fst e) \<and> okv g (snd e)"
            using a' n' o(2,3) ov by auto
          have w: "valiswhite ?g x = valiswhite g x" "oko ?g s = oko g s" for x s
            by (simp_all add: valiswhite_def oko_def split: gval.split option.split)
          have "all_ok False ?g t" using b n o(1) by (auto simp: all_ok_def body_set_body w)
          then show ?thesis by (simp add: done_ok_def)
        qed simp
      qed
    qed
    then show ?thesis using i l st 1(1) by (simp add: prop_inv_def)
  next
    case 2
    let ?h = "(set_mark t black2gray ?g)\<lparr>gs_grayagain := t # gs_grayagain ?g\<rparr>"
    have nl: "t \<notin> set (all_lists (gs_grayagain g) g)" "\<not> white g t" using c 2(2) by (auto simp: coloured_def)
    have w: "white ?h e = white ?g e" "body ?h e = body ?g e" for e
      by (simp_all add: has_mark_set_mark colour_simps)
    have tr: "tricolour False (insert t ?X) ?h"
      using tri tricolour_cong [of ?h ?g False "insert t ?X"] w by (simp add: set_mark_def)
    have "container ?g t" "\<not> white ?g t" using nl b by (simp_all add: container_def body_set_body)
    moreover have "t \<notin> set (all_lists (gs_grayagain g) ?g)" using nl by (simp add: all_lists_def set_body_def)
    ultimately have "linked (t # gs_grayagain g) ?g" using l by (auto simp: linked_def all_lists_def)
    then have "linked (t # gs_grayagain g) ?h"
      using linked_cong [of ?h ?g "t # gs_grayagain g" "t # gs_grayagain g"] w by (simp add: all_lists_def set_mark_def)
    then show ?thesis using i tr st 2(1) by (simp add: prop_inv_def set_mark_def Un_insert_right)
  qed
qed

text \<open>The forward barrier marks the value.\<close>

lemma barrier_mk: "gs_gcstate g \<le> GCSatomic \<Longrightarrow> mk g (luaC_barrier p v g) \<and> (black g p \<longrightarrow> okv (luaC_barrier p v g) v)"
  using reallymarkobject_mk mk_refl
  by (auto simp: luaC_barrier_def luaC_barrier_fwd_def keepinvariant_def valiswhite_def split: gval.split)

lemma setuservalue_prop_inv:
  assumes i: "prop_inv g" and s: "gs_gcstate g \<le> GCSatomic" and c: "white g a \<or> black g a" and b: "body g a = Some (GUdata mt uv)"
  shows "prop_inv (lua_setuservalue a v g)"
proof -
  let ?g = "set_body a (GUdata mt v) g" and ?X = "set (gs_gray g) \<union> set (gs_grayagain g)"
  let ?h = "luaC_barrier a v ?g"
  have e: "lua_setuservalue a v g = ?h" by (simp add: lua_setuservalue_def b)
  have st: "gs_gcstate ?g = gs_gcstate g" "gs_gray ?g = gs_gray g" "gs_grayagain ?g = gs_grayagain g" by (simp_all add: set_body_def)
  have m: "mk ?g ?h" and ov: "black g a \<longrightarrow> okv ?h v" using barrier_mk [of ?g a v] s st by simp_all
  have al: "all_lists X ?g = all_lists X g" for X by (simp add: all_lists_def set_body_def)
  have "container ?g x = container g x" for x using b by (auto simp: container_def body_set_body)
  then have "linked (gs_grayagain g) ?g" using i by (simp add: prop_inv_def linked_def al)
  then have l: "linked (gs_grayagain g) ?h" by (rule linked_mk [OF m])
  have "tricolour False (insert a ?X) ?g" using i b by (intro set_body_tricolour) (simp_all add: prop_inv_def)
  then have "tricolour False (set (gs_gray ?g) \<union> (insert a (set (gs_grayagain g)))) ?g" by (simp add: st)
  then have t: "tricolour False (set (gs_gray ?h) \<union> (insert a (set (gs_grayagain g)))) ?h" by (rule tricolour_mk [OF m])
  have "white ?h a \<or> done_ok False ?h a"
  proof (cases "white g a")
    case True
    show ?thesis
    proof (cases "white ?h a")
      case False
      then have "black ?h a \<and> leaf_ok ?h a \<or> a \<in> set (gs_gray ?h)" using mkD(9) [OF m, of a] True by auto
      moreover have "a \<notin> set (gs_gray ?h)"
      proof
        assume "a \<in> set (gs_gray ?h)"
        then have "container ?h a" using l by (auto simp: linked_def all_lists_def)
        moreover have "body ?h a = Some (GUdata mt v)" using mkD(1) [OF m, of a] b by (simp add: body_set_body)
        ultimately show False by (simp add: container_def)
      qed
      ultimately show ?thesis using leaf_all_ok by (auto simp: done_ok_def)
    qed simp
  next
    case False
    then have k: "black g a" using c by blast
    have "container g a = False" using b by (simp add: container_def)
    then have n: "a \<notin> set (all_lists (gs_grayagain g) g)" using i unfolding prop_inv_def linked_def by blast
    have "obj g a \<noteq> None" using b obj_body by (metis option.discI)
    then have "done_ok False g a" using i False n by (auto simp: prop_inv_def tricolour_def all_lists_def)
    then have "oko g mt" using n b by (auto simp: done_ok_def all_ok_def all_lists_def)
    then have "oko ?g mt" by (cases mt) (simp_all add: oko_def)
    then have "oko ?h mt" by (rule mk_oko [OF m])
    moreover have "body ?h a = Some (GUdata mt v)" using mkD(1) [OF m, of a] b by (simp add: body_set_body)
    ultimately show ?thesis using ov k by (simp add: done_ok_def all_ok_def)
  qed
  then have "tricolour False (set (gs_gray ?h) \<union> set (gs_grayagain g)) ?h" using t tricolour_insert_done by simp
  moreover have "gs_gcstate ?h = gs_gcstate g" "gs_grayagain ?h = gs_grayagain g"
    using same_rest_fields(2,4) [OF mk_fields [OF m]] st by simp_all
  ultimately show ?thesis using i l e by (simp add: prop_inv_def)
qed

end
