(* ===== verification/Lua_Gc_Safe.thy ===== *)
theory Lua_Gc_Safe
  imports Lua_Gc_Run Lua_Gc_Barrier
begin

text \<open>
  The properties of the collector, each with a small heap on which it is applied; and a heap on which
  a table keeps the key of an object that is freed.
\<close>

section \<open>A sample heap\<close>

text \<open>
  The main thread (0) has the registry (1) and a closure (2) in its stack; the closure has an upvalue
  open in the same stack; the name in the registry (3) is a fixed string; the user data (4) is not used.
\<close>

definition sample_heap :: gstate where
  "sample_heap =
     \<lparr>gs_heap = [Some \<lparr>gc_marked = bitmask WHITE0BIT, gc_body = GThread (Some [GRef 1, GRef 2]) 2 [0]\<rparr>,
       Some \<lparr>gc_marked = bitmask WHITE0BIT, gc_body = GTable None [] [(GRef 3, GRef 0)]\<rparr>,
       Some \<lparr>gc_marked = bitmask WHITE0BIT, gc_body = GLcl None [Some 0]\<rparr>,
       Some \<lparr>gc_marked = 0, gc_body = GStr [0x61]\<rparr>,
       Some \<lparr>gc_marked = bitmask WHITE0BIT, gc_body = GUdata None GNil\<rparr>],
      gs_upvals = [Some \<lparr>uv_open = Some (0, 1), uv_value = GNil, uv_touched = True, uv_refcount = 1\<rparr>],
      gs_gcstate = GCSpause, gs_currentwhite = bitmask WHITE0BIT, gs_emergency = False,
      gs_gray = [], gs_grayagain = [], gs_weak = [], gs_ephemeron = [], gs_allweak = [],
      gs_allgc = [4, 2, 1], gs_finobj = [], gs_tobefnz = [], gs_fixedgc = [3], gs_sweepgc = None,
      gs_twups = [0], gs_mainthread = 0, gs_registry = GRef 1, gs_mt = [], gs_gcfinnum = 0\<rparr>"

lemma sample_obj: "obj sample_heap a \<noteq> None \<Longrightarrow> a = 0 \<or> a = 1 \<or> a = 2 \<or> a = 3 \<or> a = 4"
  by (auto simp: sample_heap_def obj_def less_Suc_eq split: if_splits)

lemma sample_objects:
  "map_option gc_marked (obj sample_heap 0) = Some (bitmask 0)" "map_option gc_marked (obj sample_heap 1) = Some (bitmask 0)"
  "map_option gc_marked (obj sample_heap 2) = Some (bitmask 0)" "map_option gc_marked (obj sample_heap 3) = Some 0"
  "map_option gc_marked (obj sample_heap 4) = Some (bitmask 0)"
  by (simp_all add: obj_def sample_heap_def WHITE0BIT_def)

lemma sample_has_mark:
  "has_mark P sample_heap a \<longleftrightarrow> (a = 0 \<or> a = 1 \<or> a = 2 \<or> a = 4) \<and> P (bitmask 0) \<or> a = 3 \<and> P 0"
proof -
  have e: "has_mark P sample_heap a = (case map_option gc_marked (obj sample_heap a) of None \<Rightarrow> False | Some m \<Rightarrow> P m)"
    by (simp add: has_mark_def split: option.split)
  show ?thesis
  proof (cases "obj sample_heap a")
    case None
    then have "a \<noteq> 0" "a \<noteq> 1" "a \<noteq> 2" "a \<noteq> 3" "a \<noteq> 4" using sample_objects by (intro notI; simp)+
    then show ?thesis using None e by simp
  next
    case (Some x)
    then show ?thesis using sample_obj [of a] sample_objects unfolding e by auto
  qed
qed

lemma sample_white: "white sample_heap a \<longleftrightarrow> a = 0 \<or> a = 1 \<or> a = 2 \<or> a = 4"
proof -
  have "iswhite (bitmask 0)" by (simp add: iswhite_bits bit_bitmask)
  moreover have "\<not> iswhite 0" by (simp add: iswhite_def)
  ultimately show ?thesis unfolding sample_has_mark by blast
qed

lemma sample_ready:
  "gs_gcstate sample_heap = GCSpause" "all_white sample_heap" "upvals_ok sample_heap" "one_white sample_heap"
  "lists_ok sample_heap" "heap_listed sample_heap"
proof -
  show "gs_gcstate sample_heap = GCSpause" by (simp add: sample_heap_def)
  have s: "isstring sample_heap 3" by (simp add: isstring_def body_def obj_def sample_heap_def)
  show "all_white sample_heap" unfolding all_white_def sample_white using sample_obj s by blast
  show "upvals_ok sample_heap"
    by (auto simp: upvals_ok_def upv_def body_def obj_def sample_heap_def split: if_splits)
  show "one_white sample_heap"
    unfolding one_white_def sample_white unfolding sample_has_mark
    by (auto simp: sample_heap_def WHITE0BIT_def bitmask_def)
  show "lists_ok sample_heap" by (simp add: lists_ok_def sample_heap_def)
  have "gs_mainthread sample_heap = 0" "set (swept_objects sample_heap) = {1, 2, 4}"
    by (auto simp: sample_heap_def swept_objects_def)
  then show "heap_listed sample_heap" unfolding heap_listed_def sample_white using sample_obj s by auto
qed

abbreviation no_finalizer :: finalizer where "no_finalizer \<equiv> \<lambda>v a g. (False, g)"

section \<open>A whole cycle\<close>

text \<open>C3:
  A cycle of the collector is safe and frees the garbage: from the pause, with enough steps, the state
  machine reaches the end of the sweep; every object that can still be reached, through any reference
  that is left, has kept its contents; of the objects in the swept lists exactly the dead ones are
  freed; and the only contents missing are values of table entries that were not marked before the
  finalizers were considered, or had such a key.
\<close>

theorem gc_cycle_safe:
  assumes "gs_gcstate g = GCSpause" and "all_white g" and "upvals_ok g" and "one_white g" and "lists_ok g"
  shows "\<exists>g'. runs fin n L (\<lambda>s. s = GCScallfin) g g' \<and>
    (\<forall>a. reachable L (mark_cycle L g) a \<longrightarrow> body g' a = body (mark_cycle L g) a) \<and>
    (\<forall>a \<in> set (swept_objects g). obj g' a = None \<longleftrightarrow> obj g a = None \<or> isdead (mark_cycle L g) a) \<and>
    (\<forall>a. rel_option (shape_less (strong_mark L g)) (gshape (mark_cycle L g) a) (gshape g a))"
proof -
  obtain g' where r: "runs fin n L (\<lambda>s. s = GCScallfin) g g'" and c: "cycle_end L g g'"
    using cycle_runs [OF assms] by blast
  note m = mark_cycle_lists [OF assms(2-4), where L = L]
  obtain W where W: "same_lists W g (mark_cycle L g)" using m(1) by blast
  have "body g' a = body (mark_cycle L g) a" if "reachable L (mark_cycle L g) a" for a
    using cycle_end_body_kept [OF c] reachable_not_dead [OF mark_cycle_no_dangling [OF assms(2-4)] that] by blast
  moreover have "obj g' a = None \<longleftrightarrow> obj g a = None \<or> isdead (mark_cycle L g) a" if "a \<in> set (swept_objects g)" for a
    using that cycle_end_kept [OF c, of a] m(3) [of a] same_lists_swept_objects [OF W] by auto
  ultimately show ?thesis using r m(6) by blast
qed

theorem gc_cycle_safe_witness:
  "\<exists>g'. runs no_finalizer 0 0 (\<lambda>s. s = GCScallfin) sample_heap g' \<and>
    (\<forall>a. reachable 0 (mark_cycle 0 sample_heap) a \<longrightarrow> body g' a = body (mark_cycle 0 sample_heap) a)"
  using gc_cycle_safe [OF sample_ready(1-5)] by blast

lemma runs_unique: "runs fin n L stop g g1 \<Longrightarrow> runs fin n L stop g g2 \<Longrightarrow> g1 = g2"
proof -
  assume "runs fin n L stop g g1" "runs fin n L stop g g2"
  then obtain j k where "\<forall>fuel \<ge> j. luaC_runtilstate fin n L fuel stop g = Some (False, g1)"
    "\<forall>fuel \<ge> k. luaC_runtilstate fin n L fuel stop g = Some (False, g2)" unfolding runs_def by blast
  then have "Some (False, g1) = Some (False, g2)" by (metis max.cobounded1 max.cobounded2)
  then show ?thesis by simp
qed

text \<open>C13:
  A cycle ends as it began, ready for the next one: every object is white again, in the new white, no
  object is in two lists, and every object is in a list, but for the main thread and fixed strings.
\<close>

theorem gc_cycle_restarts:
  assumes "gs_gcstate g = GCSpause" and "all_white g" and "upvals_ok g" and "one_white g" and "lists_ok g"
    and "heap_listed g" and "runs fin n L (\<lambda>s. s = GCScallfin) g g'"
  shows "all_white g' \<and> one_white g' \<and> lists_ok g' \<and> heap_listed g' \<and> gs_currentwhite g' = otherwhite g"
proof -
  obtain h where "runs fin n L (\<lambda>s. s = GCScallfin) g h" and c: "cycle_end L g h"
    using cycle_runs [OF assms(1-5)] by blast
  then have "h = g'" using runs_unique assms(7) by blast
  then show ?thesis
    using cycle_end_ready [OF assms(2-6) c] cycle_end_lists(2) [OF c] mark_cycle_lists(2) [OF assms(2-4)] by simp
qed

theorem gc_cycle_restarts_witness:
  "\<exists>g'. runs no_finalizer 0 0 (\<lambda>s. s = GCScallfin) sample_heap g' \<and> all_white g' \<and> heap_listed g'"
proof -
  obtain g' where "runs no_finalizer 0 0 (\<lambda>s. s = GCScallfin) sample_heap g'" using cycle_runs [OF sample_ready(1-5)] by blast
  then show ?thesis using gc_cycle_restarts [OF sample_ready] by blast
qed

section \<open>Marking\<close>

lemma sample_atomic_pre: "atomic_pre (propagateall ((restartcollection sample_heap)\<lparr>gs_gcstate := GCSpropagate\<rparr>))"
proof -
  note r = restart_prop_inv [OF sample_ready(2-4)]
  show ?thesis
    unfolding atomic_pre_def using propagateall_prop_inv [OF r(1)] propagateall_upvals_ok [OF r(2)] one_white_ext r(3) by blast
qed

text \<open>C9:
  However the program and the marking were interleaved: if the invariant of the mark phase holds and
  nothing is gray, then after the atomic step, with its weak tables cleared and its objects to be
  finalized resurrected, no object that stays and no root refers to an object that will be freed.
\<close>

theorem gc_atomic_safe:
  assumes "atomic_pre g"
  shows "no_dangling L (atomic L g) \<and> (\<forall>a. obj (atomic L g) a = None \<longleftrightarrow> obj g a = None)"
  using atomic_no_dangling(1,2) [OF assms] by blast

theorem gc_atomic_safe_witness: "no_dangling 0 (mark_cycle 0 sample_heap)"
  using gc_atomic_safe [OF sample_atomic_pre, of 0] by (simp add: mark_cycle_def)

text \<open>C36:
  A step of the mark phase keeps its invariant: every marked object is still in a gray list or refers
  to marked objects only, and the lists linked through \<open>gclist\<close> share no object; it makes no object
  white and frees none, and gets closer to the end.
\<close>

theorem gc_step_invariant:
  assumes "prop_inv g" and "gs_gray g \<noteq> []"
  shows "prop_inv (propagatemark g) \<and> mu (propagatemark g) < mu g \<and>
    (\<forall>a. (white (propagatemark g) a \<longrightarrow> white g a) \<and> (obj (propagatemark g) a = None \<longleftrightarrow> obj g a = None))"
proof -
  obtain a rest where g: "gs_gray g = a # rest" using assms(2) by (cases "gs_gray g") auto
  note p = propagatemark_prop_inv [OF assms(1) g]
  show ?thesis using p propagatemark_mu [OF assms(2)] unfolding ext_def by blast
qed

theorem gc_step_invariant_witness:
  "prop_inv (propagatemark ((restartcollection sample_heap)\<lparr>gs_gcstate := GCSpropagate\<rparr>))"
proof -
  have "gs_gray ((restartcollection sample_heap)\<lparr>gs_gcstate := GCSpropagate\<rparr>) \<noteq> []" by code_simp
  then show ?thesis using gc_step_invariant [OF restart_prop_inv(1) [OF sample_ready(2-4)]] by blast
qed

text \<open>C37:
  The loop of the mark phase ends, after at most two steps for each white object and one for each
  gray one, and then no object is gray.
\<close>

theorem gc_marking_ends:
  "gs_gray (propagateall g) = [] \<and> (\<exists>k \<le> mu g. propagateall g = (propagatemark ^^ k) g)"
proof (induction g rule: propagateall.induct)
  case (1 g)
  show ?case
  proof (cases "gs_gray g = []")
    case True
    then show ?thesis by (auto simp: propagateall_Nil intro!: exI [of _ 0])
  next
    case False
    have p: "propagateall g = propagateall (propagatemark g)" using False by (simp add: propagateall.simps [of g])
    obtain k where "k \<le> mu (propagatemark g)" "propagateall (propagatemark g) = (propagatemark ^^ k) (propagatemark g)"
      using 1 [OF False] by blast
    then have "Suc k \<le> mu g" "propagateall g = (propagatemark ^^ Suc k) g"
      using propagatemark_mu [OF False] p by (simp_all add: funpow_swap1)
    then show ?thesis using 1 [OF False] p by auto
  qed
qed

text \<open>C10:
  The program may store a reference in a table during the mark phase: a store of new entries, with the
  value or the key \<open>v\<close> and otherwise marked or old references, followed by \<open>luaC_barrierback\<close> for \<open>v\<close>
  keeps the invariant of the mark phase, whatever the colour of the table: white, black, or gray in the
  list \<open>gray\<close> or \<open>grayagain\<close>.  (A table that is weak in keys and values has no references to keep: once
  visited it is gray in \<open>allweak\<close>, where the barrier does nothing, and is not covered.)
\<close>

theorem gc_table_store_invariant:
  assumes "prop_inv g" and "coloured g t" and "body g t = Some (GTable mt arr nodes)"
    and "set arr' \<subseteq> insert v (set arr)"
    and "\<forall>e \<in> set nodes'. e \<in> set nodes \<or> (fst e = v \<or> okv g (fst e)) \<and> (snd e = v \<or> okv g (snd e))"
  shows "prop_inv (luaC_barrierback t v (set_body t (GTable mt arr' nodes') g))"
  using barrierback_store [OF assms] .

theorem gc_table_store_invariant_witness:
  "prop_inv (luaC_barrierback 1 (GRef 4)
     (set_body 1 (GTable None [GRef 4] [(GRef 3, GRef 0)]) ((restartcollection sample_heap)\<lparr>gs_gcstate := GCSpropagate\<rparr>)))"
proof -
  let ?g = "(restartcollection sample_heap)\<lparr>gs_gcstate := GCSpropagate\<rparr>"
  have i: "prop_inv ?g" by (rule restart_prop_inv(1) [OF sample_ready(2-4)])
  have "\<not> black ?g 1" "1 \<in> set (gs_gray ?g @ gs_grayagain ?g)" by code_simp+
  then have c: "coloured ?g 1" by (simp add: coloured_def)
  have b: "body ?g 1 = Some (GTable None [] [(GRef 3, GRef 0)])"
  proof -
    have "body (restartcollection sample_heap) 1 = body sample_heap 1" using mkD(1) [OF restart_mk, of sample_heap 1] by simp
    moreover have "body sample_heap 1 = Some (GTable None [] [(GRef 3, GRef 0)])" by (simp add: sample_heap_def body_def obj_def)
    ultimately show ?thesis by simp
  qed
  show ?thesis by (rule gc_table_store_invariant [OF i c b]) simp_all
qed


section \<open>A key that dangles\<close>

text \<open>
  The stack holds a table (1) whose metatable (2) has \<open>__mode = 'kv'\<close> (3, 4); its one entry has been
  set to nil, and its key is a string (5) that nothing else refers to.
\<close>

definition weak_heap :: gstate where
  "weak_heap = sample_heap
     \<lparr>gs_heap := [Some \<lparr>gc_marked = bitmask WHITE0BIT, gc_body = GThread (Some [GRef 1]) 1 []\<rparr>,
       Some \<lparr>gc_marked = bitmask WHITE0BIT, gc_body = GTable (Some 2) [] [(GRef 5, GNil)]\<rparr>,
       Some \<lparr>gc_marked = bitmask WHITE0BIT, gc_body = GTable None [] [(GRef 3, GRef 4)]\<rparr>,
       Some \<lparr>gc_marked = bitmask WHITE0BIT, gc_body = GStr (map ch ''__mode'')\<rparr>,
       Some \<lparr>gc_marked = bitmask WHITE0BIT, gc_body = GStr (map ch ''kv'')\<rparr>,
       Some \<lparr>gc_marked = bitmask WHITE0BIT, gc_body = GStr (map ch ''key'')\<rparr>],
      gs_upvals := [], gs_allgc := [5, 4, 3, 2, 1], gs_fixedgc := [], gs_twups := [], gs_registry := GNil\<rparr>"

text \<open>
  The code does not mark, or declare dead, the key of an entry without a value in a table that is weak
  in keys and values: the table stays, the string is dead, and the table still holds its address as a
  key that looks alive, which a later search compares with.
\<close>

lemma allweak_key_dangles:
  "let m = mark_cycle 0 weak_heap in
   body m 1 = Some (GTable (Some 2) [] [(GRef 5, GNil)]) \<and> \<not> isdead m 1 \<and> isdead m 5"
  by code_simp


text \<open>
  Such a table is linked to \<open>allweak\<close> at once and stays gray, so the barrier for a metatable that it
  is given later in the same mark phase does nothing: the new metatable (6) is freed, and the table
  that stays refers to it.
\<close>

definition weak_heap2 :: gstate where
  "weak_heap2 = weak_heap
     \<lparr>gs_heap := gs_heap weak_heap @ [Some \<lparr>gc_marked = bitmask WHITE0BIT, gc_body = GTable None [] []\<rparr>],
      gs_allgc := 6 # gs_allgc weak_heap\<rparr>"

theorem allweak_metatable_lost:
  "let g = propagateall ((restartcollection weak_heap2)\<lparr>gs_gcstate := GCSpropagate\<rparr>);
       m = atomic 0 (lua_setmetatable (GRef 1) (Some 6) g)
   in map_option (\<lambda>b. case b of GTable mt arr nodes \<Rightarrow> mt | _ \<Rightarrow> None) (body m 1) = Some (Some 6) \<and> \<not> isdead m 1 \<and> isdead m 6"
  by code_simp

text \<open>
  The sweep of \<open>tobefnz\<close> is in the \<open>next\<close> field of an object (1) when its finalizer is called between
  two steps: the object moves to \<open>allgc\<close>, the sweep goes on there and ends, and the objects behind it
  (2) stay black.
\<close>

definition finalizer_heap :: gstate where
  "finalizer_heap = sample_heap
     \<lparr>gs_heap := [Some \<lparr>gc_marked = bitmask WHITE0BIT, gc_body = GThread (Some []) 0 []\<rparr>,
       Some \<lparr>gc_marked = bitmask WHITE0BIT, gc_body = GUdata None GNil\<rparr>,
       Some \<lparr>gc_marked = bitmask BLACKBIT, gc_body = GUdata None GNil\<rparr>],
      gs_upvals := [], gs_allgc := [], gs_tobefnz := [1, 2], gs_fixedgc := [], gs_twups := [], gs_registry := GNil,
      gs_gcstate := GCSswptobefnz, gs_sweepgc := Some (SwNext 1), gs_gcfinnum := 1\<rparr>"

theorem finalizer_misleads_sweep:
  "case singlestep no_finalizer 0 0 (snd (udata2finalize finalizer_heap)) of
     None \<Rightarrow> False
   | Some (err, g) \<Rightarrow> gs_gcstate g = GCSswpend \<and> gs_tobefnz g = [2] \<and> black g 2"
  by code_simp

end
