(* ===== verification/Lua_Func_Spec.thy ===== *)
theory Lua_Func_Spec
  imports Lua_Gc_Atomic
begin

text \<open>
  What closures rely on: a slot of a stack has at most one open upvalue, which is found again until
  it is closed, and closing keeps the value.  Then a case where joining upvalues frees one in use.
\<close>

text \<open>The open upvalues of a thread, from the highest slot down.\<close>

definition open_ok :: "gstate \<Rightarrow> nat \<Rightarrow> bool" where
  "open_ok g th \<longleftrightarrow> (\<exists>st tp ups. body g th = Some (GThread st tp ups)) \<and>
     sorted_wrt (\<lambda>u w. uv_level g w < uv_level g u) (openupval g th) \<and>
     (\<forall>u \<in> set (openupval g th). \<exists>x i. upv g u = Some x \<and> uv_open x = Some (th, i))"

lemma openupval_set_openupval:
  assumes "body g th = Some (GThread st tp ups)"
  shows "openupval (set_openupval th us g) th = us" "body (set_openupval th us g) th = Some (GThread st tp us)"
    "upv (set_openupval th us g) u = upv g u"
proof -
  have e: "set_openupval th us g = set_body th (GThread st tp us) g" using assms by (simp add: set_openupval_def)
  show "body (set_openupval th us g) th = Some (GThread st tp us)" using assms by (simp add: e body_set_body)
  then show "openupval (set_openupval th us g) th = us" by (simp add: openupval_def)
  show "upv (set_openupval th us g) u = upv g u" by (simp add: e upv_def set_body_def)
qed

lemma uv_level_cong: "upv g' u = upv g u \<Longrightarrow> uv_level g' u = uv_level g u"
  by (simp add: uv_level_def)

lemma takeWhile_levels:
  assumes "sorted_wrt (\<lambda>u w. f w < (f u :: nat)) us" and "level \<notin> f ` set (takeWhile (\<lambda>u. level \<le> f u) us)"
  shows "(\<forall>u \<in> set (takeWhile (\<lambda>u. level \<le> f u) us). level < f u) \<and> (\<forall>u \<in> set (dropWhile (\<lambda>u. level \<le> f u) us). f u < level)"
  using assms
proof (induction us)
  case (Cons u us)
  show ?case
  proof (cases "level \<le> f u")
    case True
    then have "level \<notin> f ` set (takeWhile (\<lambda>u. level \<le> f u) us)" "level < f u" using Cons.prems(2) by (auto simp: less_le)
    then show ?thesis using Cons.IH Cons.prems(1) True by simp
  next
    case False
    then have "dropWhile (\<lambda>u. level \<le> f u) (u # us) = u # us" "takeWhile (\<lambda>u. level \<le> f u) (u # us) = []" by simp_all
    then show ?thesis using Cons.prems(1) False by (simp only:) (force simp: not_le)
  qed
qed simp

lemma sorted_levels_distinct: "sorted_wrt (\<lambda>u w. f w < (f u :: nat)) us \<Longrightarrow> distinct us"
  by (induction us) auto

lemma takeWhile_level_of:
  "sorted_wrt (\<lambda>u w. f w < (f u :: nat)) us \<Longrightarrow> u \<in> set us \<Longrightarrow> u \<in> set (takeWhile (\<lambda>w. f u \<le> f w) us)"
  by (induction us) (auto simp: less_imp_le)

lemma drop_takeWhile: "drop (length (takeWhile P xs)) xs = dropWhile P xs"
  by (simp add: dropWhile_eq_drop)

lemma findupval_found:
  assumes o: "open_ok g th" and f: "List.find (\<lambda>u. uv_level g u = level) (takeWhile (\<lambda>u. level \<le> uv_level g u) (openupval g th)) = Some u"
  shows "u \<in> set (openupval g th) \<and> (\<exists>x. upv g u = Some x \<and> uv_open x = Some (th, level))"
proof -
  have u: "u \<in> set (openupval g th)" "uv_level g u = level"
    using f by (auto simp: find_Some_iff dest!: set_takeWhileD nth_mem)
  then obtain x i where x: "upv g u = Some x" "uv_open x = Some (th, i)" using o unfolding open_ok_def by blast
  then have "i = level" using u(2) by (simp add: uv_level_def)
  then show ?thesis using x u by blast
qed

lemma findupval_new:
  assumes o: "open_ok g th" and n: "List.find (\<lambda>u. uv_level g u = level) (takeWhile (\<lambda>u. level \<le> uv_level g u) (openupval g th)) = None"
    and f: "luaF_findupval th level g = (u, g')"
  shows "open_ok g' th" "\<exists>x. upv g' u = Some x \<and> uv_open x = Some (th, level)" "u \<in> set (openupval g' th)"
    "upv g w \<noteq> None \<Longrightarrow> upv g' w = upv g w" "set (openupval g' th) = insert u (set (openupval g th))" "th \<in> set (gs_twups g')"
proof -
  let ?ups = "openupval g th"
  let ?above = "takeWhile (\<lambda>u. level \<le> uv_level g u) ?ups" and ?below = "dropWhile (\<lambda>u. level \<le> uv_level g u) ?ups"
  let ?x = "\<lparr>uv_open = Some (th, level), uv_value = GNil, uv_touched = True, uv_refcount = 0\<rparr>"
  let ?g1 = "g\<lparr>gs_upvals := gs_upvals g @ [Some ?x]\<rparr>"
  let ?g2 = "set_openupval th (?above @ u # ?below) ?g1"
  obtain st tp ups where b: "body g th = Some (GThread st tp ups)" using o unfolding open_ok_def by blast
  have u: "u = length (gs_upvals g)" and g': "g' = ?g2 \<or> g' = ?g2\<lparr>gs_twups := th # gs_twups ?g2\<rparr>"
    using f n by (auto simp: luaF_findupval_def Let_def new_upval_def drop_takeWhile split: if_splits)
  show "th \<in> set (gs_twups g')" using f n by (auto simp: luaF_findupval_def Let_def new_upval_def split: if_splits)
  have b1: "body ?g1 th = Some (GThread st tp ups)" using b by simp
  have ups': "openupval g' th = ?above @ u # ?below"
    using g' openupval_set_openupval(1) [OF b1] by (auto simp: openupval_def)
  have bd: "\<exists>st tp ups. body g' th = Some (GThread st tp ups)"
    using g' openupval_set_openupval(2) [OF b1] by auto
  have up: "upv g' w = upv ?g1 w" for w
  proof -
    have "gs_upvals g' = gs_upvals ?g2" using g' by auto
    then have "upv g' w = upv ?g2 w" by (rule upv_cong)
    then show ?thesis using openupval_set_openupval(3) [OF b1] by simp
  qed
  have "upv ?g1 u = Some ?x" by (simp add: upv_def u)
  then have new: "upv g' u = Some ?x" using up by simp
  show old: "upv g' w = upv g w" if "upv g w \<noteq> None" for w
  proof -
    have "w < length (gs_upvals g)" using that by (auto simp: upv_def split: if_splits)
    then have "upv ?g1 w = upv g w" by (simp add: upv_def nth_append)
    then show ?thesis using up by simp
  qed
  have known: "\<exists>x i. upv g w = Some x \<and> uv_open x = Some (th, i)" if "w \<in> set ?ups" for w using o that unfolding open_ok_def by blast
  have lev: "uv_level g' w = uv_level g w" if "w \<in> set ?ups" for w
    using known [OF that] old [of w] by (intro uv_level_cong) auto
  have levu: "uv_level g' u = level" using new by (simp add: uv_level_def)
  have srt: "sorted_wrt (\<lambda>u w. uv_level g w < uv_level g u) ?ups" using o by (simp add: open_ok_def)
  have "level \<notin> uv_level g ` set ?above" using n by (auto simp: find_None_iff)
  note s = takeWhile_levels [OF srt this]
  have sub: "set ?above \<subseteq> set ?ups" "set ?below \<subseteq> set ?ups" by (auto dest: set_takeWhileD set_dropWhileD)
  have "sorted_wrt (\<lambda>u w. uv_level g w < uv_level g u) (?above @ ?below)" using srt by simp
  then have "sorted_wrt (\<lambda>u w. uv_level g w < uv_level g u) ?above" "sorted_wrt (\<lambda>u w. uv_level g w < uv_level g u) ?below"
    unfolding sorted_wrt_append by blast+
  then have "sorted_wrt (\<lambda>u w. uv_level g' w < uv_level g' u) ?above" "sorted_wrt (\<lambda>u w. uv_level g' w < uv_level g' u) ?below"
    by (auto elim!: sorted_wrt_mono_rel [rotated] simp: lev sub [THEN subsetD])
  moreover have "\<forall>a \<in> set ?above. level < uv_level g' a" "\<forall>c \<in> set ?below. uv_level g' c < level" using s lev sub by auto
  ultimately have "sorted_wrt (\<lambda>u w. uv_level g' w < uv_level g' u) (openupval g' th)"
    unfolding ups' by (auto simp: sorted_wrt_append levu) (meson less_trans)
  moreover have "\<exists>x i. upv g' w = Some x \<and> uv_open x = Some (th, i)" if "w \<in> set (openupval g' th)" for w
  proof (cases "w = u")
    case True
    then show ?thesis using new by simp
  next
    case False
    then have "w \<in> set ?ups" using that sub unfolding ups' by auto
    then show ?thesis using known old by force
  qed
  ultimately show "open_ok g' th" using bd by (simp add: open_ok_def)
  show "\<exists>x. upv g' u = Some x \<and> uv_open x = Some (th, level)" using new by simp
  show "u \<in> set (openupval g' th)" by (simp add: ups')
  have "set ?ups = set ?above \<union> set ?below" by (metis set_append takeWhile_dropWhile_id)
  then show "set (openupval g' th) = insert u (set ?ups)" by (auto simp: ups')
qed

lemma findupval_Some:
  "List.find (\<lambda>u. uv_level g u = level) (takeWhile (\<lambda>u. level \<le> uv_level g u) (openupval g th)) = Some u \<Longrightarrow>
    luaF_findupval th level g = (u, g)"
  by (simp add: luaF_findupval_def)

lemma find_unique:
  assumes "distinct us" and "u \<in> set us" and "P u" and "\<And>w. w \<in> set us \<Longrightarrow> P w \<Longrightarrow> w = u"
  shows "List.find P us = Some u"
  using assms
proof (induction us)
  case (Cons x us)
  show ?case
  proof (cases "x = u")
    case False
    then have "\<not> P x" using Cons.prems(4) [of x] by auto
    moreover have "List.find P us = Some u"
    proof (rule Cons.IH)
      show "distinct us" "u \<in> set us" using Cons.prems(1,2) False by simp_all
      show "P u" by (rule Cons.prems(3))
      show "w = u" if "w \<in> set us" "P w" for w by (rule Cons.prems(4) [OF list.set_intros(2) [OF that(1)] that(2)])
    qed
    ultimately show ?thesis by simp
  qed (use Cons.prems(3) in simp)
qed simp

text \<open>Searched for again, an open upvalue is found, and nothing changes.\<close>

lemma findupval_again:
  assumes o: "open_ok g th" and u: "u \<in> set (openupval g th)" "\<exists>x. upv g u = Some x \<and> uv_open x = Some (th, level)"
  shows "luaF_findupval th level g = (u, g)"
proof -
  let ?f = "uv_level g" and ?us = "openupval g th"
  have l: "?f u = level" using u(2) by (auto simp: uv_level_def)
  have s: "sorted_wrt (\<lambda>u w. ?f w < ?f u) ?us" using o by (simp add: open_ok_def)
  have inj: "w = u" if wu: "w \<in> set ?us" "?f w = level" for w
  proof (rule ccontr)
    assume n: "w \<noteq> u"
    obtain i where "i < length ?us" "?us ! i = w" using wu(1) by (auto simp: in_set_conv_nth)
    moreover obtain j where "j < length ?us" "?us ! j = u" using u(1) by (auto simp: in_set_conv_nth)
    ultimately show False using n s [unfolded sorted_wrt_iff_nth_less] wu(2) l by (metis linorder_neqE_nat nat_less_le)
  qed
  have d: "distinct ?us" using s by (rule sorted_levels_distinct)
  have m: "u \<in> set (takeWhile (\<lambda>u. level \<le> ?f u) ?us)"
    using takeWhile_level_of [OF s u(1)] l by simp
  have "List.find (\<lambda>u. ?f u = level) (takeWhile (\<lambda>u. level \<le> ?f u) ?us) = Some u"
    by (rule find_unique) (use d m l inj in \<open>auto dest: set_takeWhileD\<close>)
  then show ?thesis by (rule findupval_Some)
qed

lemma findupval_shares:
  assumes o: "open_ok g th" and f: "luaF_findupval th level g = (u, g')"
  shows "open_ok g' th" "\<exists>x. upv g' u = Some x \<and> uv_open x = Some (th, level)" "u \<in> set (openupval g' th)"
    "luaF_findupval th level g' = (u, g')" "upv g w \<noteq> None \<Longrightarrow> upv g' w = upv g w"
proof -
  have "open_ok g' th \<and> (\<exists>x. upv g' u = Some x \<and> uv_open x = Some (th, level)) \<and> u \<in> set (openupval g' th) \<and>
      (\<forall>w. upv g w \<noteq> None \<longrightarrow> upv g' w = upv g w)"
  proof (cases "List.find (\<lambda>u. uv_level g u = level) (takeWhile (\<lambda>u. level \<le> uv_level g u) (openupval g th))")
    case None
    then show ?thesis using findupval_new [OF o None f] by blast
  next
    case (Some v)
    then have "u = v" "g' = g" using findupval_Some [OF Some] f by simp_all
    then show ?thesis using findupval_found [OF o Some] o by blast
  qed
  then show r: "open_ok g' th" "\<exists>x. upv g' u = Some x \<and> uv_open x = Some (th, level)" "u \<in> set (openupval g' th)"
    "upv g w \<noteq> None \<Longrightarrow> upv g' w = upv g w" by blast+
  show "luaF_findupval th level g' = (u, g')" by (rule findupval_again [OF r(1,3,2)])
qed

section \<open>Closing\<close>

lemma upvalbarrier_mk: "mk g (luaC_upvalbarrier u g)"
  using markvalue_mk(1) mk_refl
  by (auto simp: luaC_upvalbarrier_def luaC_upvalbarrier_uv_def split: option.split gval.split)

text \<open>The upvalue that is closed keeps its value; the others, and the objects but for their marks, stay.\<close>

definition closed_upval :: "gstate \<Rightarrow> upval \<Rightarrow> upval option" where
  "closed_upval g x = (if uv_refcount x = 0 then None else Some (x\<lparr>uv_open := None, uv_value := uv_v g x\<rparr>))"

lemma close_upval_effect:
  assumes "upv g u = Some x"
  shows "upv (close_upval u x g) w = (if w = u then closed_upval g x else upv g w)"
    "body (close_upval u x g) b = body g b"
proof -
  let ?h = "set_upv u (Some (x\<lparr>uv_open := None, uv_value := uv_v g x\<rparr>)) g"
  have m: "mk ?h (luaC_upvalbarrier u ?h)" by (rule upvalbarrier_mk)
  have l: "u < length (gs_upvals g)" using assms by (simp add: upv_def split: if_splits)
  have "upv (luaC_upvalbarrier u ?h) w = upv ?h w" by (rule upv_cong [OF same_rest_fields(1) [OF mk_fields [OF m]]])
  then show "upv (close_upval u x g) w = (if w = u then closed_upval g x else upv g w)"
    using l by (cases "w = u") (simp_all add: close_upval_def closed_upval_def upv_set_upv)
  show "body (close_upval u x g) b = body g b" using mkD(1) [OF m] by (simp add: close_upval_def)
qed

lemma close_loop_effect:
  assumes "close_loop level us g = (r, g')" and "distinct us" and "\<And>u. u \<in> set us \<Longrightarrow> upv g u \<noteq> None"
  shows "r = dropWhile (\<lambda>u. level \<le> uv_level g u) us \<and> (\<forall>b. body g' b = body g b) \<and>
    (\<forall>w. upv g' w = (if w \<in> set (takeWhile (\<lambda>u. level \<le> uv_level g u) us) then Option.bind (upv g w) (closed_upval g) else upv g w))"
  using assms
proof (induction level us g arbitrary: r g' rule: close_loop.induct)
  case (2 level u us g)
  show ?case
  proof (cases "level \<le> uv_level g u")
    case True
    obtain x where x: "upv g u = Some x" using "2.prems"(3) by (meson list.set_intros(1) not_None_eq)
    let ?g = "close_upval u x g"
    note e = close_upval_effect [OF x]
    have l: "close_loop level us ?g = (r, g')" using "2.prems"(1) True x by simp
    have u: "u \<notin> set us" "distinct us" using "2.prems"(2) by simp_all
    have up: "upv ?g w = upv g w" if "w \<in> set us" for w using e(1) u(1) that by auto
    have k: "upv ?g w \<noteq> None" if "w \<in> set us" for w using up [OF that] "2.prems"(3) that by simp
    have i: "r = dropWhile (\<lambda>u. level \<le> uv_level ?g u) us \<and> (\<forall>b. body g' b = body ?g b) \<and>
      (\<forall>w. upv g' w = (if w \<in> set (takeWhile (\<lambda>u. level \<le> uv_level ?g u) us) then Option.bind (upv ?g w) (closed_upval ?g) else upv ?g w))"
      using "2.IH" [OF True] l u(2) k x by simp
    have lv: "uv_level ?g w = uv_level g w" if "w \<in> set us" for w by (rule uv_level_cong [OF up [OF that]])
    have tw: "takeWhile (\<lambda>u. level \<le> uv_level ?g u) us = takeWhile (\<lambda>u. level \<le> uv_level g u) us"
      "dropWhile (\<lambda>u. level \<le> uv_level ?g u) us = dropWhile (\<lambda>u. level \<le> uv_level g u) us"
      by (rule takeWhile_cong [OF refl], simp add: lv, rule dropWhile_cong [OF refl], simp add: lv)
    have cl: "closed_upval ?g = closed_upval g" using uv_v_cong [of ?g g] e(2) by (auto simp: closed_upval_def fun_eq_iff)
    have "upv g' w = (if w \<in> set (takeWhile (\<lambda>u. level \<le> uv_level g u) (u # us)) then Option.bind (upv g w) (closed_upval g) else upv g w)" for w
    proof -
      have "w \<in> set (takeWhile (\<lambda>u. level \<le> uv_level g u) us) \<Longrightarrow> w \<in> set us" by (auto dest: set_takeWhileD)
      then show ?thesis using i e(1) [of w] u(1) x True unfolding tw cl by auto
    qed
    then show ?thesis using i e(2) True unfolding tw by simp
  next
    case False
    then have "r = u # us" "g' = g" using "2.prems"(1) by simp_all
    then show ?thesis using False by simp
  qed
qed simp

lemma close_effect:
  fixes level :: nat
  assumes o: "open_ok g th"
  defines "g' \<equiv> luaF_close th level g"
  shows "open_ok g' th" "openupval g' th = filter (\<lambda>u. uv_level g u < level) (openupval g th)"
    "u \<in> set (openupval g th) \<Longrightarrow> upv g u = Some x \<Longrightarrow>
      upv g' u = (if level \<le> uv_level g u then closed_upval g x else Some x)"
    "u \<notin> set (openupval g th) \<Longrightarrow> upv g' u = upv g u"
proof -
  let ?us = "openupval g th"
  obtain r g1 where c: "close_loop level ?us g = (r, g1)" by fastforce
  have srt: "sorted_wrt (\<lambda>u w. uv_level g w < uv_level g u) ?us" using o by (simp add: open_ok_def)
  have k: "\<exists>x i. upv g u = Some x \<and> uv_open x = Some (th, i)" if "u \<in> set ?us" for u using o that unfolding open_ok_def by blast
  then have "upv g u \<noteq> None" if "u \<in> set ?us" for u using that by blast
  note e = close_loop_effect [OF c sorted_levels_distinct [OF srt] this]
  obtain st tp ups where b: "body g th = Some (GThread st tp ups)" using o unfolding open_ok_def by blast
  then have b1: "body g1 th = Some (GThread st tp ups)" using e by simp
  have g': "g' = set_openupval th r g1" by (simp add: g'_def luaF_close_def c)
  note s = openupval_set_openupval [OF b1, where us = r]
  have f: "dropWhile (\<lambda>u. level \<le> uv_level g u) us = filter (\<lambda>u. uv_level g u < level) us \<and>
      set (takeWhile (\<lambda>u. level \<le> uv_level g u) us) = {u \<in> set us. level \<le> uv_level g u}"
    if "sorted_wrt (\<lambda>u w. uv_level g w < uv_level g u) us" for us
    using that by (induction us) (auto simp: not_le intro!: filter_True [symmetric])
  show ups': "openupval g' th = filter (\<lambda>u. uv_level g u < level) ?us" using e f [OF srt] s(1) g' by simp
  have up: "upv g' u = (if u \<in> set ?us \<and> level \<le> uv_level g u then Option.bind (upv g u) (closed_upval g) else upv g u)" for u
    using e f [OF srt] s(3) g' by simp
  show "upv g' u = (if level \<le> uv_level g u then closed_upval g x else Some x)" if "u \<in> set ?us" "upv g u = Some x"
    using up that by simp
  show "upv g' u = upv g u" if "u \<notin> set ?us" using up that by simp
  have same: "upv g' u = upv g u" if "u \<in> set (openupval g' th)" for u using up [of u] that unfolding ups' by simp
  then have lv: "uv_level g' u = uv_level g u" if "u \<in> set (openupval g' th)" for u using that uv_level_cong by blast
  have "sorted_wrt (\<lambda>u w. uv_level g w < uv_level g u) (openupval g' th)" unfolding ups' using srt by (rule sorted_wrt_filter)
  then have "sorted_wrt (\<lambda>u w. uv_level g' w < uv_level g' u) (openupval g' th)"
    by (rule sorted_wrt_mono_rel [rotated]) (simp add: lv)
  moreover have "\<exists>x i. upv g' u = Some x \<and> uv_open x = Some (th, i)" if "u \<in> set (openupval g' th)" for u
    using same [OF that] k [of u] that unfolding ups' by simp
  ultimately show "open_ok g' th" using s(2) g' unfolding open_ok_def by blast
qed


lemma close_uv_v:
  assumes o: "open_ok g th"
  shows "uv_v (luaF_close th level g) x = uv_v g x"
proof -
  obtain r g1 where c: "close_loop level (openupval g th) g = (r, g1)" by fastforce
  obtain st tp ups where b: "body g th = Some (GThread st tp ups)" using o unfolding open_ok_def by blast
  have "upv g u \<noteq> None" if "u \<in> set (openupval g th)" for u using o that unfolding open_ok_def by blast
  moreover have "distinct (openupval g th)" using o sorted_levels_distinct unfolding open_ok_def by blast
  ultimately have e: "body g1 b = body g b" for b using close_loop_effect [OF c] by blast
  have "set_openupval th r g1 = set_body th (GThread st tp r) g1" using b e by (simp add: set_openupval_def)
  then have g': "luaF_close th level g = set_body th (GThread st tp r) g1" by (simp add: luaF_close_def c)
  have "stack_slot (luaF_close th level g) t i = stack_slot g t i" for t i
    unfolding g' stack_slot_def body_set_body e using b by (auto split: option.split)
  then show ?thesis by (simp add: uv_v_def split: option.split)
qed

section \<open>The properties\<close>

text \<open>A small state: a thread whose stack has three slots, the second of them captured by a closure.\<close>

definition sample_threads :: gstate where
  "sample_threads =
     \<lparr>gs_heap = [Some \<lparr>gc_marked = bitmask WHITE0BIT, gc_body = GThread (Some [GNil, GRef 0, GRef 1]) 3 [0]\<rparr>,
       Some \<lparr>gc_marked = bitmask WHITE0BIT, gc_body = GLcl None [Some 1]\<rparr>],
      gs_upvals = [Some \<lparr>uv_open = Some (0, 1), uv_value = GNil, uv_touched = True, uv_refcount = 1\<rparr>,
        Some \<lparr>uv_open = None, uv_value = GNil, uv_touched = True, uv_refcount = 1\<rparr>],
      gs_gcstate = GCSpause, gs_currentwhite = bitmask WHITE0BIT, gs_emergency = False,
      gs_gray = [], gs_grayagain = [], gs_weak = [], gs_ephemeron = [], gs_allweak = [],
      gs_allgc = [1, 0], gs_finobj = [], gs_tobefnz = [], gs_fixedgc = [], gs_sweepgc = None,
      gs_twups = [0], gs_mainthread = 0, gs_registry = GNil, gs_mt = [], gs_gcfinnum = 0\<rparr>"

lemma sample_threads_open: "open_ok sample_threads 0"
  by (simp add: open_ok_def sample_threads_def openupval_def body_def obj_def upv_def)

text \<open>C14:
  A slot of a stack has at most one open upvalue: \<open>luaF_findupval\<close> returns an upvalue for the slot,
  asked again it returns the same one and changes nothing, no upvalue that exists is changed, and the
  list of open upvalues stays sorted by slot.
\<close>

theorem slot_has_one_upvalue:
  assumes "open_ok g th" and "luaF_findupval th level g = (u, g')"
  shows "open_ok g' th \<and> (\<exists>x. upv g' u = Some x \<and> uv_open x = Some (th, level)) \<and> u \<in> set (openupval g' th) \<and>
    luaF_findupval th level g' = (u, g') \<and> (\<forall>w. upv g w \<noteq> None \<longrightarrow> upv g' w = upv g w)"
  using findupval_shares [OF assms] by blast

theorem slot_has_one_upvalue_witness:
  "open_ok (snd (luaF_findupval 0 2 sample_threads)) 0 \<and>
   luaF_findupval 0 2 (snd (luaF_findupval 0 2 sample_threads)) = luaF_findupval 0 2 sample_threads"
  using slot_has_one_upvalue [OF sample_threads_open, of 2 "fst (luaF_findupval 0 2 sample_threads)" "snd (luaF_findupval 0 2 sample_threads)"]
  by simp

text \<open>C38:
  \<open>luaF_close\<close> closes exactly the open upvalues of the slots from \<open>level\<close> up: those of lower slots stay
  open and in their list, an upvalue that a closure refers to keeps its value and lives on closed, one
  without references is freed, and the upvalues of other threads are not touched.
\<close>

theorem close_keeps_values:
  assumes "open_ok g th"
  shows "open_ok (luaF_close th level g) th \<and>
    openupval (luaF_close th level g) th = filter (\<lambda>u. uv_level g u < level) (openupval g th) \<and>
    (\<forall>u x. u \<in> set (openupval g th) \<longrightarrow> upv g u = Some x \<longrightarrow> level \<le> uv_level g u \<longrightarrow>
       (if uv_refcount x = 0 then upv (luaF_close th level g) u = None
        else \<exists>y. upv (luaF_close th level g) u = Some y \<and> uv_open y = None \<and> uv_refcount y = uv_refcount x \<and>
          uv_v (luaF_close th level g) y = uv_v g x)) \<and>
    (\<forall>u. u \<notin> set (openupval g th) \<or> uv_level g u < level \<longrightarrow> upv (luaF_close th level g) u = upv g u)"
proof -
  note e = close_effect [where level = level, OF assms]
  have "if uv_refcount x = 0 then upv (luaF_close th level g) u = None
        else \<exists>y. upv (luaF_close th level g) u = Some y \<and> uv_open y = None \<and> uv_refcount y = uv_refcount x \<and>
          uv_v (luaF_close th level g) y = uv_v g x"
    if "u \<in> set (openupval g th)" "upv g u = Some x" "level \<le> uv_level g u" for u x
    using e(3) [OF that(1,2)] that(3) by (simp add: closed_upval_def uv_v_def [of _ "x\<lparr>uv_open := None, uv_value := _\<rparr>"])
  moreover have "upv (luaF_close th level g) u = upv g u" if "u \<notin> set (openupval g th) \<or> uv_level g u < level" for u
  proof (cases "u \<in> set (openupval g th)")
    case True
    then obtain x where "upv g u = Some x" using assms unfolding open_ok_def by blast
    then show ?thesis using e(3) [OF True] that True by simp
  qed (use e(4) in simp)
  ultimately show ?thesis using e(1,2) by blast
qed

theorem close_keeps_values_witness:
  "openupval (luaF_close 0 1 sample_threads) 0 = [] \<and>
   (\<exists>y. upv (luaF_close 0 1 sample_threads) 0 = Some y \<and> uv_open y = None \<and> uv_v (luaF_close 0 1 sample_threads) y = GRef 0)"
proof -
  have s: "openupval sample_threads 0 = [0]"
    "upv sample_threads 0 = Some \<lparr>uv_open = Some (0, 1), uv_value = GNil, uv_touched = True, uv_refcount = 1\<rparr>"
    "uv_level sample_threads 0 = 1" "stack_slot sample_threads 0 1 = GRef 0"
    by (simp_all add: sample_threads_def openupval_def body_def obj_def upv_def uv_level_def stack_slot_def)
  show ?thesis using close_keeps_values [OF sample_threads_open, of 1] by (auto simp: s [simplified] uv_v_def)
qed

text \<open>C39:
  \<open>lua_upvaluejoin\<close> of an upvalue with itself, when the upvalue is closed and only this closure refers
  to it, frees the upvalue and leaves the reference: the closure then refers to freed memory.
\<close>

theorem upvaluejoin_self_frees:
  assumes "getupvalref f n g = Some u" and "upv g u = Some x" and "uv_open x = None" and "uv_refcount x = 1"
  shows "upv (lua_upvaluejoin f n f n g) u = None \<and> getupvalref f n (lua_upvaluejoin f n f n g) = Some u"
proof -
  obtain p ups where b: "body g f = Some (GLcl p ups)" "1 \<le> n" "n \<le> length ups" "ups ! (n - 1) = Some u"
    using assms(1) by (auto simp: getupvalref_def split: option.splits gbody.splits if_splits)
  let ?g1 = "luaC_upvdeccount u g"
  have l: "u < length (gs_upvals g)" using assms(2) by (simp add: upv_def split: if_splits)
  have g1: "?g1 = set_upv u None g" using assms(2-4) by (simp add: luaC_upvdeccount_def Let_def)
  have b1: "body ?g1 f = Some (GLcl p ups)" using b(1) by (simp add: g1)
  let ?g2 = "set_upvalref f n u ?g1"
  have g2: "?g2 = set_body f (GLcl p (ups[n - 1 := Some u])) ?g1" by (simp add: set_upvalref_def b1)
  have "upv ?g2 u = upv ?g1 u" by (rule upv_cong) (simp add: g2 set_body_def)
  then have u2: "upv ?g2 u = None" using l unfolding g1 by (simp add: upv_set_upv)
  then have j: "lua_upvaluejoin f n f n g = ?g2"
    using assms(1) by (simp add: lua_upvaluejoin_def Let_def inc_refcount_def set_touched_def luaC_upvalbarrier_def)
  have "getupvalref f n ?g2 = Some u" using b(2-4) b1 by (simp add: getupvalref_def g2 body_set_body)
  then show ?thesis using u2 j by simp
qed

theorem upvaluejoin_self_frees_witness:
  "upv (lua_upvaluejoin 1 1 1 1 sample_threads) 1 = None"
  using upvaluejoin_self_frees [of 1 1 sample_threads 1]
  by (simp add: sample_threads_def getupvalref_def body_def obj_def upv_def)

end
