(* ===== verification/Spec2Isabelle.thy ===== *)
theory Spec2Isabelle
  imports Prelude Serializer_Blocks Lua_Values Lua_Object Lua_Table Lua_Table_Chain
    Lua_Table_Inv Lua_Table_Insert Lua_Table_Resize Lua_Table_Rehash Lua_Table_Spec
    Serializer Serializer_Encoding Serializer_Roundtrip Serializer_Safety
    Lua_Args Lua_Bit32 Lua_Utf8 Lua_Tablib Lua_Tablib_Spec Lua_Tablib_Raw
    Lua_Zio Lua_Chunk Lua_Chunk_Spec Lua_Str Lua_Match Lua_Match_Spec Lua_Pattern Lua_Pattern_Spec Lua_Find Lua_Find_Spec
    Lua_Float Lua_Number Lua_Number_Spec Lua_Pack Lua_Pack_Spec
    Lua_Strtab Lua_Strtab_Inv Lua_Strtab_Spec
    Lua_Lex Lua_Lex_Safe Lua_Lex_Print
    Lua_Gc Lua_Func Lua_Gc_Mark Lua_Gc_Trav Lua_Gc_Cycle Lua_Gc_Inv Lua_Gc_Atomic Lua_Gc_Clear Lua_Gc_Spec
    Lua_Gc_Run Lua_Gc_Barrier Lua_Gc_Safe Lua_Func_Spec
begin

text \<open>
  A verification development for the C code of iolua.

  iolua runs Lua tasks that exchange messages.  Its own C file,
  \<open>iolua/src/main/cpp/iolua/ltask/serializer.c\<close>, turns Lua values into chains of blocks and
  back; it works on the Lua 5.3 in \<open>lemon/src/main/cpp/lua/\<close>.  The theories follow that
  structure, from the bottom:

  \<^item> \<open>Prelude\<close>: results with errors (\<open>RunError\<close> for a Lua error, \<open>MemFault\<close> for an access or an \<open>int\<close>
    overflow that C leaves undefined, \<open>NoReturn\<close> for fuel that ran out), their loops, and bytes of words.
  \<^item> \<open>Lua_Values\<close>: tagged values, raw equality, number conversions (\<open>lobject.h\<close>, \<open>lvm.c\<close>).
  \<^item> \<open>Lua_Object\<close>: helpers of \<open>lobject.c\<close>.
  \<^item> \<open>Lua_Table\<close>: \<open>ltable.c\<close>, with the array part, the hash part with its links and free
    pointer, insertion of colliding keys, rehash, resize, traversal and length, and the raw
    accessors of \<open>lapi.c\<close> on top.  \<open>Lua_Table_Chain\<close>, \<open>_Inv\<close>, \<open>_Insert\<close>, \<open>_Resize\<close> and \<open>_Rehash\<close>
    hold the proof that every operation keeps the invariant \<open>tab_ok\<close>; \<open>Lua_Table_Spec\<close> states the
    result: a table is a finite map (locale \<open>key_map\<close>, interpreted on \<open>rawget\<close> and \<open>rawset\<close>).
  \<^item> \<open>Serializer_Blocks\<close>: the blocks of a message and the reader and writer on them (locales
    \<open>byte_sink\<close> and \<open>byte_source\<close>).
  \<^item> \<open>Serializer\<close>: the message format; \<open>Serializer_Encoding\<close> and \<open>Serializer_Roundtrip\<close> show
    that a message arrives as it was sent, \<open>Serializer_Safety\<close> what happens on any other input: a
    result, a Lua error, or one of three faults of the code, named there.
  \<^item> \<open>Lua_Args\<close>: optional arguments, bytes of a string, and the check for room on the Lua stack.  \<open>Lua_Bit32\<close>: \<open>lbitlib.c\<close>.  \<open>Lua_Utf8\<close>:
    \<open>lutf8lib.c\<close> and the encoder of \<open>lobject.c\<close>.
  \<^item> \<open>Lua_Tablib\<close>: \<open>ltablib.c\<close> over the access functions it uses; \<open>Lua_Tablib_Spec\<close> proves it
    under the contract \<open>tab_access\<close>, \<open>Lua_Tablib_Raw\<close> interprets that on the tables of \<open>ltable.c\<close>
    and states the properties: lists, \<open>memmove\<close>, sorting.
  \<^item> \<open>Lua_Zio\<close>: the input streams of \<open>lzio.c\<close> (locale \<open>byte_reader\<close>).  \<open>Lua_Chunk\<close>: \<open>ldump.c\<close> and
    \<open>lundump.c\<close>; \<open>Lua_Chunk_Spec\<close> shows that loading a dump gives the function back, that a
    truncated dump is rejected, and that loading any input gives a closure, a Lua error, or one of two
    faults of the code, named there.
  \<^item> \<open>lstrlib.c\<close>: \<open>Lua_Str\<close> has the simple functions, \<open>Lua_Match\<close> the pattern matcher, \<open>Lua_Find\<close>
    the searches and substitutions on it, \<open>Lua_Pack\<close> the binary formats.  \<open>Lua_Match_Spec\<close> (locale
    \<open>matcher_contract\<close>, the contract of the recursive call) shows the matcher safe;
    \<open>Lua_Pattern\<close> gives patterns a meaning, and \<open>Lua_Pattern_Spec\<close> (locale \<open>exact_matcher\<close>) shows
    that the matcher computes it;
    \<open>Lua_Find_Spec\<close> and \<open>Lua_Pack_Spec\<close> state what the library functions promise.

  \<^item> \<open>Lua_Float\<close>: doubles as bit patterns, with conversions, comparisons and sums.  \<open>Lua_Number\<close>:
    numerals, conversions, comparisons, integer arithmetic and the numeric for loop of \<open>lobject.c\<close> and
    \<open>lvm.c\<close>; \<open>Lua_Number_Spec\<close> shows the order exact, division flooring, how often a loop runs, that
    the text of an integer reads back, and that strings compare lexicographically.

  \<^item> \<open>Lua_Strtab\<close>: \<open>lstring.c\<close>, string objects and the table that interns the short ones, as a
    store of linked objects.  \<open>Lua_Strtab_Inv\<close> has the invariant and shows that the rehash in place
    keeps it; \<open>Lua_Strtab_Spec\<close> (locale \<open>string_pool\<close>) shows that comparing objects compares strings.

  \<^item> \<open>Lua_Lex\<close>: the lexer \<open>llex.c\<close> with the character classes of \<open>lctype.c\<close>; \<open>Lua_Lex_Safe\<close> shows that it
    stays inside its buffer, that its tokens are well typed, and that it reaches the end of any source of
    less than \<open>2 ^ 30 - 2\<close> bytes (beyond that its \<open>int\<close> counters may overflow);
    \<open>Lua_Lex_Print\<close> shows that printed tokens, and strings written with \<open>%q\<close>, read back.

  \<^item> The collector \<open>lgc.c\<close>, on a heap that maps addresses to objects with their mark and the references
    they hold: \<open>Lua_Gc\<close> has colours, marking, traversals and barriers, \<open>Lua_Gc_Cycle\<close> the loops, weak
    tables, sweep, finalizers and state machine.  The lists linked through \<open>next\<close> and \<open>gclist\<close> are lists
    of addresses, \<open>sweepgc\<close> says after which object the sweep goes on; a finalizer, which is Lua code,
    is an argument.  \<open>Lua_Gc_Mark\<close> and \<open>_Trav\<close> say what one marking and one traversal do, \<open>_Inv\<close>,
    \<open>_Atomic\<close> and \<open>_Clear\<close> hold the invariant of the mark phase through the atomic step, \<open>_Barrier\<close>
    through the stores of the program; \<open>_Spec\<close> has references and the exact sweep, \<open>_Run\<close> a whole
    cycle in steps, and \<open>Lua_Gc_Safe\<close> the properties.
  \<^item> \<open>Lua_Func\<close>: closures and upvalues on that heap (\<open>lfunc.c\<close>, \<open>pushclosure\<close> of \<open>lvm.c\<close>, and the
    functions of \<open>lapi.c\<close> that call a barrier); \<open>Lua_Func_Spec\<close> shows that upvalues are shared while
    open and keep their value when closed.

  Bounds.  Tables have fewer than \<open>2 ^ 30\<close> slots (the theorems on them say \<open>2 ^ 28\<close> stores);
  beyond that \<open>computesizes\<close> leaves its array.  The fuel of \<open>luaH_newkey\<close> is 2: a rehash makes
  room, so the recursion through it is never deeper (\<open>Lua_Table_Insert\<close>).  The fuel of the
  unpacker is one more than the bytes left, since every round reads a byte; that of \<open>gsub\<close> is one
  more than the length of the subject, and the depth of the matcher is the \<open>MAXCCALLS\<close> of the code.
  The fuel along a list of strings is the number of strings in the table.  The loops of the collector
  need none but \<open>reallymark\<close> (the length of the heap: each object is marked once) and \<open>sweeptolive\<close>
  (the objects of the list); \<open>luaC_runtilstate\<close> has fuel, and the theorem on a cycle says that enough
  of it gives the result.

  The Lua stack.  \<open>string.byte\<close>, \<open>string.unpack\<close> and \<open>utf8.codepoint\<close> push as many values as their
  arguments ask for: their definitions take the number of slots in use and fail with \<open>stack overflow\<close>
  beyond \<open>LUAI_MAXSTACK\<close>.  Elsewhere the stack is taken to have the room that the code asks for:
  \<open>table.unpack\<close>, \<open>table.sort\<close> and the captures of a match (50 and 32 slots), and the serializer
  (\<open>LUA_MINSTACK\<close> slots for each level of a table and for every eight values of a message).

  Parameters.  \<open>strtod\<close> and the format of floats (record \<open>conv\<close>), \<open>strcoll\<close>, and the readers and
  writers of chunks are arguments of the definitions that call them.

  Not modelled: memory exhaustion, and with it the emergency collections that an allocation may start;
  how much work a step of the collector does (\<open>GCdebt\<close>, \<open>setpause\<close>, \<open>checkSizes\<close>): the number of steps
  is an argument; metamethods, the depth of the C stack (\<open>_unpack_one\<close> and \<open>LoadFunction\<close> recurse as deep
  as their input nests), the parser and the loop over instructions; and the byte
  order of other machines than little-endian ones.  The values of \<open>lobject.h\<close> and those of the heap of
  the collector are two types: the theories below the collector do not see marks.
\<close>

end
